(* ===== verification/Prelude.thy ===== *)
theory Prelude
  imports Main "HOL-Library.Word"
begin

text \<open>
  What the components share: the ways a kernel routine stops without returning
  (\<open>kfault\<close>), the result type of the routines that may do so with its sequencing
  operator, the error numbers of \<open>sys/sys/errno.h\<close> that the modelled routines return,
  and generic lemmas on lists (the longest prefix satisfying a condition, sums over
  chains, updates in the middle of a list).
\<close>

section \<open>Results\<close>

text \<open>
  \<open>Panic s\<close> is a call of \<open>panic(s)\<close>, which does not return. \<open>BadAccess\<close>
  is a read or write outside the object the pointer belongs to, which C leaves undefined:
  the models make it a value so that a theorem can say it does not happen. \<open>Sleeps\<close>
  is a wait for an event that the modelled code does not produce itself, \<open>Loops\<close> an
  iteration that can make no more progress.
\<close>

datatype kfault = Panic string | BadAccess | Sleeps | Loops

type_synonym 'a kres = "kfault + 'a"

text \<open>The error numbers of \<open>sys/sys/errno.h\<close> that the modelled routines return;
  \<open>EWOULDBLOCK\<close> is \<open>EAGAIN\<close>.\<close>

datatype errno =
  EPERM | ENOENT | EINTR | ENXIO | EBADF | EACCES | EINVAL | ENFILE | EMFILE | EAGAIN
| EDEADLK | EOPNOTSUPP | ENOBUFS | ENODEV | ESRCH | EFAULT | ECHILD | EALREADY | ENAMETOOLONG

definition bindE :: "'e + 'a \<Rightarrow> ('a \<Rightarrow> 'e + 'b) \<Rightarrow> 'e + 'b" where
  "bindE r f = (case r of Inl e \<Rightarrow> Inl e | Inr x \<Rightarrow> f x)"

lemma bindE_simps [simp]: "bindE (Inl e) f = Inl e" "bindE (Inr x) f = f x"
  by (simp_all add: bindE_def)

lemma bindE_eq_Inr [simp]: "bindE r f = Inr y \<longleftrightarrow> (\<exists>x. r = Inr x \<and> f x = Inr y)"
  by (cases r) auto

lemma bindE_eq_Inl: "bindE r f = Inl e \<longleftrightarrow> r = Inl e \<or> (\<exists>x. r = Inr x \<and> f x = Inl e)"
  by (cases r) auto

definition isOK :: "'e + 'a \<Rightarrow> bool" where
  "isOK r = (case r of Inl _ \<Rightarrow> False | Inr _ \<Rightarrow> True)"

lemma isOK_simps [simp]: "isOK (Inr x)" "\<not> isOK (Inl e)"
  by (simp_all add: isOK_def)

lemma isOK_iff: "isOK r \<longleftrightarrow> (\<exists>x. r = Inr x)"
  by (cases r) auto

section \<open>Machine integers\<close>

text \<open>
  Conversion to \<open>int\<close> and \<open>u_int\<close>, 32 bits wide: the value that a store keeps. The
  \<open>min\<close> and \<open>max\<close> of \<open>sys/libkern\<close> take \<open>u_int\<close> arguments.
\<close>

definition s_int :: "int \<Rightarrow> int" where
  "s_int i = (i + 2147483648) mod 4294967296 - 2147483648"

definition u_int :: "int \<Rightarrow> int" where
  "u_int i = i mod 4294967296"

lemma s_int_id [simp]: "- 2147483648 \<le> i \<Longrightarrow> i < 2147483648 \<Longrightarrow> s_int i = i"
  by (simp add: s_int_def)

lemma u_int_id [simp]: "0 \<le> i \<Longrightarrow> i < 4294967296 \<Longrightarrow> u_int i = i"
  by (simp add: u_int_def)

section \<open>Lists\<close>

lemma dropWhile_head:
  "dropWhile P xs = y # ys \<Longrightarrow> \<not> P y"
  by (induction xs) (auto split: if_splits)

lemma takeWhile_dropWhile_split:
  assumes "\<forall>x \<in> set xs. P x" and "\<not> P y"
  shows "takeWhile P (xs @ y # ys) = xs" and "dropWhile P (xs @ y # ys) = y # ys"
  using assms by (induction xs) auto

lemma sum_list_nonneg_int: "\<forall>x \<in> set xs. 0 \<le> f x \<Longrightarrow> 0 \<le> (\<Sum>x\<leftarrow>xs. (f x :: int))"
  by (induction xs) auto

lemma list_update_middle [simp]: "(xs @ y # ys)[length xs := z] = xs @ z # ys"
  by simp

lemma nth_middle [simp]: "(xs @ y # ys) ! length xs = y"
  by simp

section \<open>Copying bytes\<close>

text \<open>
  \<open>bcopy(src + soff, dst + doff, n)\<close> between two distinct buffers: the new contents of
  the destination, or \<open>BadAccess\<close> when the copied range leaves either of them.
\<close>

definition bcopy :: "'a list \<Rightarrow> int \<Rightarrow> 'a list \<Rightarrow> int \<Rightarrow> int \<Rightarrow> 'a list kres" where
  "bcopy src soff dst doff n =
     (if 0 \<le> n \<and> 0 \<le> soff \<and> 0 \<le> doff \<and> soff + n \<le> int (length src) \<and> doff + n \<le> int (length dst)
      then Inr (take (nat doff) dst @ take (nat n) (drop (nat soff) src)
                @ drop (nat doff + nat n) dst)
      else Inl BadAccess)"

text \<open>The \<open>n\<close> bytes of a buffer from offset \<open>off\<close> on.\<close>

definition window :: "'a list \<Rightarrow> int \<Rightarrow> int \<Rightarrow> 'a list" where
  "window buf off n = take (nat n) (drop (nat off) buf)"

lemma bcopy_length: "bcopy src soff dst doff n = Inr d \<Longrightarrow> length d = length dst"
  by (auto simp: bcopy_def split: if_splits)

lemma bcopy_append:
  assumes "bcopy src soff dst (off + m) n = Inr d" "0 \<le> off" "0 \<le> m"
  shows "window d off (m + n) = window dst off m @ window src soff n"
proof -
  define O' M N where "O' = nat off" and "M = nat m" and "N = nat n"
  define W where "W = take N (drop (nat soff) src)"
  have c: "0 \<le> n" "soff + n \<le> int (length src)" "0 \<le> soff" "off + m + n \<le> int (length dst)"
    using assms(1) by (auto simp: bcopy_def split: if_splits)
  have nats: "nat (off + m) = O' + M" "nat (m + n) = M + N"
    using assms(2,3) c(1) by (simp_all add: O'_def M_def N_def nat_add_distrib)
  have len: "length W = N" "O' + M + N \<le> length dst"
    using c assms(2,3) by (auto simp: W_def O'_def M_def N_def)
  have d: "d = take (O' + M) dst @ W @ drop (O' + M + N) dst"
    using assms(1) nats by (auto simp: bcopy_def W_def N_def split: if_splits)
  have pre: "drop O' (take (O' + M) dst) = take M (drop O' dst)"
    by (simp add: drop_take)
  have drop_d: "drop O' d = take M (drop O' dst) @ W @ drop (O' + M + N) dst"
    unfolding d using len by (simp add: pre)
  have lenM: "length (take M (drop O' dst)) = M" using len by simp
  have "window d off (m + n) = take (M + N) (drop O' d)"
    unfolding window_def nats O'_def ..
  also have "\<dots> = take M (drop O' dst) @ W" unfolding drop_d using lenM len by simp
  also have "W = window src soff n" by (simp add: W_def window_def N_def)
  finally show ?thesis by (simp add: window_def O'_def M_def)
qed

lemma bcopy_window:
  assumes "bcopy src soff dst doff n = Inr d"
  shows "window d doff n = window src soff n"
proof -
  have "bcopy src soff dst (doff + 0) n = Inr d" using assms by simp
  moreover have "0 \<le> doff" using assms by (auto simp: bcopy_def split: if_splits)
  ultimately have "window d doff (0 + n) = window dst doff 0 @ window src soff n"
    by (rule bcopy_append) simp
  then show ?thesis by (simp add: window_def)
qed

lemma bcopy_OK [simp]:
  "isOK (bcopy src soff dst doff n) \<longleftrightarrow>
    0 \<le> n \<and> 0 \<le> soff \<and> 0 \<le> doff \<and> soff + n \<le> int (length src) \<and> doff + n \<le> int (length dst)"
  by (auto simp: bcopy_def)

lemma bcopy_Inr_iff:
  "(\<exists>d. bcopy src soff dst doff n = Inr d) \<longleftrightarrow>
    0 \<le> n \<and> 0 \<le> soff \<and> 0 \<le> doff \<and> soff + n \<le> int (length src) \<and> doff + n \<le> int (length dst)"
  by (auto simp: bcopy_def)

lemma window_length:
  "0 \<le> off \<Longrightarrow> 0 \<le> n \<Longrightarrow> off + n \<le> int (length buf) \<Longrightarrow> int (length (window buf off n)) = n"
  by (simp add: window_def)

lemma window_drop:
  assumes "0 \<le> k" "0 \<le> off" "k \<le> n"
  shows "window buf (off + k) (n - k) = drop (nat k) (window buf off n)"
proof -
  have "nat (off + k) = nat off + nat k" "nat (n - k) = nat n - nat k"
    using assms by (simp_all add: nat_add_distrib nat_diff_distrib)
  then show ?thesis by (simp add: window_def drop_take add.commute)
qed

lemma window_take:
  assumes "0 \<le> k" "k \<le> n" shows "window buf off k = take (nat k) (window buf off n)"
  using assms by (simp add: window_def min_def)

lemma window_0 [simp]: "window buf off 0 = []"
  by (simp add: window_def)

section \<open>Chains of buffers\<close>

text \<open>
  The interface the clients of buffer chains rely on: every good buffer has as many bytes
  as its length field says. Everything about a position in a chain follows from it.
  \<open>chain_index\<close> is the loop \<open>while (k >= len)\<close> that several routines spell out: the
  buffer holding byte \<open>k\<close>, the offset in it, and the rest of the chain.
\<close>

fun chain_index :: "('m \<Rightarrow> int) \<Rightarrow> int \<Rightarrow> 'm list \<Rightarrow> ('m \<times> int \<times> 'm list) option" where
  "chain_index mlen k [] = None"
| "chain_index mlen k (m # ms) =
     (if mlen m \<le> k then chain_index mlen (k - mlen m) ms else Some (m, k, ms))"

locale chain_view =
  fixes mlen :: "'m \<Rightarrow> int" and bytes :: "'m \<Rightarrow> 'b list" and good :: "'m \<Rightarrow> bool"
  assumes bytes_length: "good m \<Longrightarrow> int (length (bytes m)) = mlen m"
begin

definition flat :: "'m list \<Rightarrow> 'b list" where
  "flat c = concat (map bytes c)"

lemma flat_simps [simp]: "flat [] = []" "flat (m # c) = bytes m @ flat c"
  "flat (c @ c') = flat c @ flat c'"
  by (simp_all add: flat_def)

lemma mlen_nonneg: "good m \<Longrightarrow> 0 \<le> mlen m"
  using bytes_length [of m] by simp

lemma flat_length: "\<forall>m \<in> set c. good m \<Longrightarrow> int (length (flat c)) = (\<Sum>m\<leftarrow>c. mlen m)"
  by (induction c) (auto simp: bytes_length)

lemma index_None:
  "\<forall>m \<in> set c. good m \<Longrightarrow> chain_index mlen k c = None \<longleftrightarrow> int (length (flat c)) \<le> k \<or> c = []"
proof (induction c arbitrary: k)
  case (Cons m c)
  have "0 \<le> int (length (flat c))" by simp
  with Cons bytes_length [of m] show ?case by (cases c) auto
qed simp

text \<open>Found bytes are the bytes of the flattened chain from position \<open>k\<close> on.\<close>

lemma index_Some:
  assumes "\<forall>m \<in> set c. good m" "chain_index mlen k c = Some (m, j, r)" "0 \<le> k"
  shows "0 \<le> j \<and> j < mlen m \<and> m \<in> set c \<and> set r \<subseteq> set c
    \<and> drop (nat k) (flat c) = drop (nat j) (bytes m) @ flat r"
  using assms
proof (induction c arbitrary: k)
  case (Cons x c)
  have x: "int (length (bytes x)) = mlen x" "0 \<le> mlen x"
    using Cons.prems bytes_length mlen_nonneg by auto
  show ?case
  proof (cases "mlen x \<le> k")
    case True
    have "nat (k - mlen x) = nat k - length (bytes x)" using x by simp
    moreover have "length (bytes x) \<le> nat k" using x True by linarith
    ultimately show ?thesis using Cons.IH [of "k - mlen x"] Cons.prems True by auto
  next
    case False
    then have "nat k \<le> length (bytes x)" using x by linarith
    then show ?thesis using Cons.prems False by auto
  qed
qed simp

end

end
