(* ===== verification/Rmap.thy ===== *)
theory Rmap
  imports Prelude
begin

text \<open>
  Resource maps, \<open>sys/kern/subr_rmap.c\<close>: a first-fit allocator over an array of
  free segments. The slots after the \<open>struct map\<close> up to \<open>m_limit\<close> are the list
  \<open>m_ents\<close>; the first slot of size 0 is the delimiter. Running past the array is
  \<open>BadAccess\<close>. Sizes and addresses are mathematical integers: for a map whose
  segments end below \<open>2 ^ 31\<close> no sum of the code leaves the range of \<open>int\<close>.
\<close>

section \<open>Data\<close>

record mapent =
  m_size :: int
  m_addr :: int

record rmap =
  m_name :: string
  m_ents :: "mapent list"

text \<open>
  The globals the allocator reads: whether the map is \<open>swapmap\<close>, the number of swap
  devices, the interleaving unit and the cluster size.
\<close>

record swapenv =
  is_swapmap :: bool
  nswdev :: int
  dmmax :: int
  clsize :: int

definition mapent_delim :: mapent where
  "mapent_delim = \<lparr>m_size = 0, m_addr = 0\<rparr>"

section \<open>Operations\<close>

definition rminit :: "rmap \<Rightarrow> int \<Rightarrow> int \<Rightarrow> string \<Rightarrow> rmap kres" where
  "rminit mp sz addr name =
     (case m_ents mp of
        _ # _ # rest \<Rightarrow>
          Inr (mp\<lparr>m_name := name,
                  m_ents := \<lparr>m_size = sz, m_addr = addr\<rparr> # mapent_delim # rest\<rparr>)
      | _ \<Rightarrow> Inl BadAccess)"

text \<open>The loop that moves the pieces after the first one slot to the left.\<close>

fun rm_shift :: "mapent list \<Rightarrow> mapent list kres" where
  "rm_shift (x # y # r) =
     (if m_size y = 0 then Inr (y # y # r)
      else bindE (rm_shift (y # r)) (\<lambda>r'. Inr (y # r')))"
| "rm_shift _ = Inl BadAccess"

text \<open>What the search of \<open>rmalloc\<close> ends with.\<close>

datatype rm_found = NoSpace | Taken int | Split int int

fun rm_search :: "swapenv \<Rightarrow> int \<Rightarrow> mapent list \<Rightarrow> (mapent list \<times> rm_found) kres" where
  "rm_search e sz [] = Inl BadAccess"
| "rm_search e sz (bp # bps) =
     (if m_size bp = 0 then Inr (bp # bps, NoSpace)
      else
        let first = dmmax e - m_addr bp mod dmmax e;
            continue = bindE (rm_search e sz bps) (\<lambda>(bps', r). Inr (bp # bps', r))
        in if sz \<le> m_size bp then
             if is_swapmap e \<and> 1 < nswdev e \<and> first < sz then
               if m_size bp - first < sz then continue
               else Inr (bp\<lparr>m_size := first\<rparr> # bps,
                         Split (m_addr bp + first) (m_size bp - first - sz))
             else
               let bp' = bp\<lparr>m_addr := m_addr bp + sz, m_size := m_size bp - sz\<rparr>
               in if m_size bp' = 0
                  then bindE (rm_shift (bp' # bps)) (\<lambda>l. Inr (l, Taken (m_addr bp)))
                  else Inr (bp' # bps, Taken (m_addr bp))
           else continue)"

text \<open>
  The loop of \<open>rmfree\<close> that swaps the freed piece into the array and carries the
  displaced one on, until the delimiter has been overwritten. The second component is the
  number of slots left from the new \<open>bp\<close> on.
\<close>

fun rm_insert :: "mapent \<Rightarrow> mapent list \<Rightarrow> (mapent list \<times> nat) kres" where
  "rm_insert x [] = Inl BadAccess"
| "rm_insert x (y # r) =
     (if m_size y = 0 then Inr (x # r, length r)
      else bindE (rm_insert y r) (\<lambda>(r', n). Inr (x # r', n)))"

text \<open>
  The table is full: the second to last segment is lost, the last one takes its place and
  becomes the delimiter's left neighbour.
\<close>

definition rm_overflow :: "mapent list \<Rightarrow> mapent list kres" where
  "rm_overflow l =
     (let n = length l in
      if n < 2 then Inl BadAccess
      else Inr (take (n - 2) l @ [l ! (n - 1), mapent_delim]))"

definition rmfree :: "rmap \<Rightarrow> int \<Rightarrow> int \<Rightarrow> rmap kres" where
  "rmfree mp sz addr =
     (if addr \<le> 0 \<or> sz \<le> 0 then Inl (Panic ''bad rmfree'')
      else
        let before = (\<lambda>e. m_addr e \<le> addr \<and> m_size e \<noteq> 0);
            pre = takeWhile before (m_ents mp)
        in case dropWhile before (m_ents mp) of
             [] \<Rightarrow> Inl BadAccess
           | bp # bps \<Rightarrow>
               if pre \<noteq> [] \<and> addr \<le> m_addr (last pre) + m_size (last pre) then
                 if addr < m_addr (last pre) + m_size (last pre)
                 then Inl (Panic ''bad rmfree'')
                 else
                   let left = (last pre)\<lparr>m_size := m_size (last pre) + sz\<rparr>
                   in if m_addr bp \<noteq> 0 \<and> m_addr bp \<le> addr + sz then
                        if m_addr bp < addr + sz then Inl (Panic ''bad rmfree'')
                        else
                          let left' = left\<lparr>m_size := m_size left + m_size bp\<rparr>
                          in if m_size bp = 0
                             then Inr (mp\<lparr>m_ents := butlast pre @ left' # bp # bps\<rparr>)
                             else bindE (rm_shift (bp # bps))
                                    (\<lambda>l. Inr (mp\<lparr>m_ents := butlast pre @ left' # l\<rparr>))
                      else Inr (mp\<lparr>m_ents := butlast pre @ left # bp # bps\<rparr>)
               else if m_addr bp \<le> addr + sz \<and> m_size bp \<noteq> 0 then
                 if m_addr bp < addr + sz then Inl (Panic ''bad rmfree'')
                 else Inr (mp\<lparr>m_ents := pre @
                        bp\<lparr>m_addr := m_addr bp - sz, m_size := m_size bp + sz\<rparr> # bps\<rparr>)
               else
                 bindE (rm_insert \<lparr>m_size = sz, m_addr = addr\<rparr> (bp # bps))
                   (\<lambda>(l, left). if left = 0
                      then bindE (rm_overflow (pre @ l)) (\<lambda>l'. Inr (mp\<lparr>m_ents := l'\<rparr>))
                      else Inr (mp\<lparr>m_ents := pre @ l\<rparr>)))"

definition rmalloc :: "swapenv \<Rightarrow> rmap \<Rightarrow> int \<Rightarrow> (rmap \<times> int) kres" where
  "rmalloc e mp sz =
     (if sz \<le> 0 \<or> (is_swapmap e \<and> dmmax e < sz) then Inl (Panic ''rmalloc'')
      else
        bindE (rm_search e sz (m_ents mp)) (\<lambda>(l, found).
          let mp' = mp\<lparr>m_ents := l\<rparr>
          in case found of
               NoSpace \<Rightarrow> Inr (mp', 0)
             | Split addr rest \<Rightarrow>
                 if rest \<noteq> 0
                 then bindE (rmfree mp' rest (addr + sz)) (\<lambda>mp''. Inr (mp'', addr))
                 else Inr (mp', addr)
             | Taken addr \<Rightarrow>
                 if is_swapmap e \<and> addr mod clsize e \<noteq> 0
                 then Inl (Panic ''rmalloc swapmap'')
                 else Inr (mp', addr)))"

section \<open>Invariant\<close>

text \<open>
  The segments before the delimiter are positive, start above 0 and are separated by gaps
  (adjacent segments have been merged); every slot from the delimiter on is zero, which
  \<open>rmfree\<close> relies on when it pushes the delimiter one slot to the right.
\<close>

fun seg_ok :: "int \<Rightarrow> mapent list \<Rightarrow> bool" where
  "seg_ok lo [] = True"
| "seg_ok lo (s # r) = (lo < m_addr s \<and> 0 < m_size s \<and> seg_ok (m_addr s + m_size s) r)"

fun seg_end :: "int \<Rightarrow> mapent list \<Rightarrow> int" where
  "seg_end lo [] = lo"
| "seg_end lo (s # r) = seg_end (m_addr s + m_size s) r"

definition rm_segs :: "rmap \<Rightarrow> mapent list" where
  "rm_segs mp = takeWhile (\<lambda>e. m_size e \<noteq> 0) (m_ents mp)"

definition rm_spare :: "rmap \<Rightarrow> mapent list" where
  "rm_spare mp = dropWhile (\<lambda>e. m_size e \<noteq> 0) (m_ents mp)"

definition rm_wf :: "rmap \<Rightarrow> bool" where
  "rm_wf mp \<longleftrightarrow> seg_ok 0 (rm_segs mp) \<and> 2 \<le> length (m_ents mp)
     \<and> rm_spare mp \<noteq> [] \<and> (\<forall>e \<in> set (rm_spare mp). e = mapent_delim)"

text \<open>The units that are free, and whether a run of units is.\<close>

definition segset :: "mapent \<Rightarrow> int set" where
  "segset s = {m_addr s ..< m_addr s + m_size s}"

definition rm_free :: "rmap \<Rightarrow> int set" where
  "rm_free mp = (\<Union>s \<in> set (m_ents mp). segset s)"

abbreviation free_segs :: "mapent list \<Rightarrow> int set" where
  "free_segs l \<equiv> (\<Union>s \<in> set l. segset s)"

lemma mapent_delim_simps [simp]: "m_size mapent_delim = 0" "m_addr mapent_delim = 0"
  "segset mapent_delim = {}"
  by (simp_all add: mapent_delim_def segset_def)

lemma seg_ok_append: "seg_ok lo (a @ b) \<longleftrightarrow> seg_ok lo a \<and> seg_ok (seg_end lo a) b"
  by (induction a arbitrary: lo) auto

lemma seg_end_append [simp]: "seg_end lo (a @ b) = seg_end (seg_end lo a) b"
  by (induction a arbitrary: lo) auto

lemma seg_ok_mono: "seg_ok lo l \<Longrightarrow> lo' \<le> lo \<Longrightarrow> seg_ok lo' l"
  by (cases l) auto

lemma seg_ok_end: "seg_ok lo l \<Longrightarrow> lo \<le> seg_end lo l"
  by (induction l arbitrary: lo) (auto, force)

lemma seg_ok_sizes: "seg_ok lo l \<Longrightarrow> s \<in> set l \<Longrightarrow> 0 < m_size s \<and> lo < m_addr s"
  by (induction l arbitrary: lo) (auto, force)

lemma free_segs_bounds:
  "seg_ok lo l \<Longrightarrow> x \<in> free_segs l \<Longrightarrow> lo < x \<and> x < seg_end lo l"
proof (induction l arbitrary: lo)
  case (Cons s r)
  then have r: "seg_ok (m_addr s + m_size s) r" by simp
  show ?case
  proof (cases "x \<in> segset s")
    case True
    with Cons.prems seg_ok_end [OF r] show ?thesis by (auto simp: segset_def)
  next
    case False
    with Cons.prems Cons.IH [OF r] show ?thesis by auto
  qed
qed simp

text \<open>The array as its segments followed by delimiters.\<close>

lemma rm_wf_iff:
  "rm_wf mp \<longleftrightarrow> (\<exists>l k. m_ents mp = l @ replicate (Suc k) mapent_delim \<and> seg_ok 0 l
     \<and> 0 < length l + k)"
proof
  assume wf: "rm_wf mp"
  then have eq: "rm_spare mp = replicate (length (rm_spare mp)) mapent_delim"
    by (simp add: rm_wf_def replicate_length_same)
  with wf obtain k where "rm_spare mp = replicate (Suc k) mapent_delim"
    by (metis rm_wf_def length_0_conv not0_implies_Suc)
  moreover have "m_ents mp = rm_segs mp @ rm_spare mp"
    by (simp add: rm_segs_def rm_spare_def)
  ultimately show "\<exists>l k. m_ents mp = l @ replicate (Suc k) mapent_delim \<and> seg_ok 0 l
     \<and> 0 < length l + k"
    using wf by (intro exI [of _ "rm_segs mp"] exI [of _ k]) (auto simp: rm_wf_def)
next
  assume "\<exists>l k. m_ents mp = l @ replicate (Suc k) mapent_delim \<and> seg_ok 0 l \<and> 0 < length l + k"
  then obtain l k where e: "m_ents mp = l @ mapent_delim # replicate k mapent_delim"
    and ok: "seg_ok 0 l" and len: "0 < length l + k" by auto
  have "\<forall>s \<in> set l. m_size s \<noteq> 0" using seg_ok_sizes [OF ok] by force
  then have "rm_segs mp = l" "rm_spare mp = mapent_delim # replicate k mapent_delim"
    unfolding rm_segs_def rm_spare_def e by (simp_all add: takeWhile_dropWhile_split)
  moreover have "2 \<le> length (m_ents mp)" using len e by (cases l) auto
  ultimately show "rm_wf mp" using ok by (simp add: rm_wf_def)
qed

lemma rm_wfI:
  "m_ents mp = l @ replicate (Suc k) mapent_delim \<Longrightarrow> seg_ok 0 l \<Longrightarrow> 0 < length l + k \<Longrightarrow> rm_wf mp"
  unfolding rm_wf_iff by blast

lemma rm_free_ents:
  "m_ents mp = l @ replicate k mapent_delim \<Longrightarrow> rm_free mp = free_segs l"
  by (auto simp: rm_free_def)

section \<open>The loops\<close>

text \<open>Shifting left drops the first segment and adds a delimiter; inserting does the opposite.\<close>

lemma rm_shift_segs:
  "\<forall>s \<in> set l. m_size s \<noteq> 0 \<Longrightarrow>
   rm_shift (x # l @ mapent_delim # r) = Inr (l @ mapent_delim # mapent_delim # r)"
  by (induction l arbitrary: x) auto

lemma rm_insert_segs:
  "\<forall>s \<in> set l. m_size s \<noteq> 0 \<Longrightarrow>
   rm_insert x (l @ mapent_delim # r) = Inr (x # l @ r, length r)"
  by (induction l arbitrary: x) auto

lemma seg_ok_nonzero: "seg_ok lo l \<Longrightarrow> \<forall>s \<in> set l. m_size s \<noteq> 0"
  using seg_ok_sizes by force

text \<open>
  One statement for the three outcomes of the search: \<open>l'\<close> is what is left of the
  segments \<open>l\<close>, and \<open>k'\<close> the number of delimiters behind the first.
\<close>

fun rm_found_ok :: "swapenv \<Rightarrow> int \<Rightarrow> mapent list \<Rightarrow> nat \<Rightarrow> mapent list \<Rightarrow> nat \<Rightarrow> rm_found \<Rightarrow> bool" where
  "rm_found_ok e sz l k l' k' NoSpace \<longleftrightarrow> l' = l \<and> k' = k \<and>
     (\<forall>s \<in> set l. m_size s < sz \<or>
        (is_swapmap e \<and> 1 < nswdev e \<and>
         m_size s - (dmmax e - m_addr s mod dmmax e) < sz))"
| "rm_found_ok e sz l k l' k' (Taken a) \<longleftrightarrow>
     {a ..< a + sz} \<subseteq> free_segs l \<and> free_segs l' = free_segs l - {a ..< a + sz}
     \<and> k \<le> k' \<and> length l' + k' = length l + k"
| "rm_found_ok e sz l k l' k' (Split a rest) \<longleftrightarrow> 0 \<le> rest \<and>
     {a ..< a + sz + rest} \<subseteq> free_segs l \<and> free_segs l' = free_segs l - {a ..< a + sz + rest}
     \<and> k' = k \<and> length l' = length l"

lemma rm_found_ok_Cons:
  assumes "rm_found_ok e sz l k l' k' f" and "f \<noteq> NoSpace"
    and "segset s \<inter> free_segs l = {}"
  shows "rm_found_ok e sz (s # l) k (s # l') k' f"
  using assms by (cases f) auto

lemma seg_ok_Cons_disjoint:
  assumes "seg_ok lo (s # l)" shows "segset s \<inter> free_segs l = {}"
proof -
  have "seg_ok (m_addr s + m_size s) l" using assms by simp
  from free_segs_bounds [OF this] show ?thesis by (force simp: segset_def)
qed

lemma rm_search_spec:
  assumes "seg_ok lo l" and "0 < sz" and "0 < dmmax e" and "0 \<le> lo"
  shows "\<exists>l' k' f. rm_search e sz (l @ replicate (Suc k) mapent_delim)
            = Inr (l' @ replicate (Suc k') mapent_delim, f)
          \<and> seg_ok lo l' \<and> rm_found_ok e sz l k l' k' f"
  using assms
proof (induction l arbitrary: lo)
  case Nil
  then show ?case by (intro exI [of _ "[]"] exI [of _ k] exI [of _ NoSpace]) simp
next
  case (Cons s l)
  let ?d = "replicate (Suc k) mapent_delim"
  let ?first = "dmmax e - m_addr s mod dmmax e"
  let ?il = "is_swapmap e \<and> 1 < nswdev e \<and> ?first < sz"
  have pos: "0 < m_size s" "lo < m_addr s" and ok: "seg_ok (m_addr s + m_size s) l"
    using Cons.prems by auto
  have disj: "segset s \<inter> free_segs l = {}" by (rule seg_ok_Cons_disjoint [OF Cons.prems(1)])
  have first: "0 < ?first" using Cons.prems(3) by simp
  show ?case
  proof (cases "m_size s < sz \<or> (?il \<and> m_size s - ?first < sz)")
    case True
    obtain l' k' f where IH: "rm_search e sz (l @ ?d) = Inr (l' @ replicate (Suc k') mapent_delim, f)"
      "seg_ok (m_addr s + m_size s) l'" "rm_found_ok e sz l k l' k' f"
      using Cons.IH [OF ok] Cons.prems pos by auto
    have "rm_search e sz ((s # l) @ ?d) = Inr ((s # l') @ replicate (Suc k') mapent_delim, f)"
      using True pos IH(1) by (auto simp: Let_def)
    moreover have "rm_found_ok e sz (s # l) k (s # l') k' f"
      using IH(3) rm_found_ok_Cons [OF IH(3) _ disj] True by (cases f) auto
    ultimately show ?thesis using IH(2) pos by (intro exI [of _ "s # l'"] exI [of _ k'] exI [of _ f]) auto
  next
    case fits: False
    show ?thesis
    proof (cases ?il)
      case True
      let ?s' = "s\<lparr>m_size := ?first\<rparr>"
      have ok': "seg_ok (m_addr s + ?first) l"
        using seg_ok_mono [OF ok] fits True by simp
      have "rm_search e sz ((s # l) @ ?d)
          = Inr ((?s' # l) @ ?d, Split (m_addr s + ?first) (m_size s - ?first - sz))"
        using fits True pos by (auto simp: Let_def)
      moreover have "rm_found_ok e sz (s # l) k (?s' # l) k (Split (m_addr s + ?first) (m_size s - ?first - sz))"
        using fits True disj first by (auto simp: segset_def disjoint_iff)
      ultimately show ?thesis
        using ok' pos first by (intro exI [of _ "?s' # l"] exI [of _ k]) auto
    next
      case False
      let ?s' = "s\<lparr>m_addr := m_addr s + sz, m_size := m_size s - sz\<rparr>"
      show ?thesis
      proof (cases "m_size s = sz")
        case True
        have "rm_search e sz ((s # l) @ ?d)
            = Inr (l @ replicate (Suc (Suc k)) mapent_delim, Taken (m_addr s))"
          using False True pos rm_shift_segs [OF seg_ok_nonzero [OF ok]]
          by (auto simp: Let_def)
        moreover have "rm_found_ok e sz (s # l) k l (Suc k) (Taken (m_addr s))"
          using True disj by (auto simp: segset_def)
        moreover have "seg_ok lo l" using seg_ok_mono [OF ok] pos by simp
        ultimately show ?thesis by blast
      next
        case more: False
        then have "rm_search e sz ((s # l) @ ?d) = Inr ((?s' # l) @ ?d, Taken (m_addr s))"
          using False fits pos by (auto simp: Let_def)
        moreover have "rm_found_ok e sz (s # l) k (?s' # l) k (Taken (m_addr s))"
          using fits disj Cons.prems(2) by (auto simp: segset_def disjoint_iff)
        ultimately show ?thesis
          using more fits pos ok Cons.prems(2) by (intro exI [of _ "?s' # l"] exI [of _ k]) auto
      qed
    qed
  qed
qed

lemma rm_search_split: "rm_search e sz l = Inr (l', Split a r) \<Longrightarrow> is_swapmap e"
  by (induction l arbitrary: l') (auto simp: Let_def split: if_splits)

text \<open>Where the units of a plain allocation come from: the front of one segment.\<close>

lemma rm_search_taken:
  assumes "rm_search e sz (l @ replicate (Suc k) mapent_delim) = Inr (x, Taken a)"
    and "seg_ok lo l"
  shows "\<exists>p s r. l = p @ s # r \<and> a = m_addr s \<and>
    ((m_size s = sz \<and> x = p @ r @ replicate (Suc (Suc k)) mapent_delim) \<or>
     (sz < m_size s \<and> x = p @ s\<lparr>m_addr := m_addr s + sz, m_size := m_size s - sz\<rparr> # r
        @ replicate (Suc k) mapent_delim))"
  using assms
proof (induction l arbitrary: x lo)
  case (Cons s l)
  have pos: "0 < m_size s" and ok: "seg_ok (m_addr s + m_size s) l" using Cons.prems(2) by auto
  show ?case
  proof (cases "\<exists>x'. rm_search e sz (l @ replicate (Suc k) mapent_delim) = Inr (x', Taken a) \<and> x = s # x'")
    case True
    then obtain x' where x': "rm_search e sz (l @ replicate (Suc k) mapent_delim) = Inr (x', Taken a)"
      and x: "x = s # x'" by blast
    from Cons.IH [OF x' ok] obtain p t r where "l = p @ t # r" "a = m_addr t"
      "(m_size t = sz \<and> x' = p @ r @ replicate (Suc (Suc k)) mapent_delim) \<or>
       (sz < m_size t \<and> x' = p @ t\<lparr>m_addr := m_addr t + sz, m_size := m_size t - sz\<rparr> # r
        @ replicate (Suc k) mapent_delim)" by blast
    then show ?thesis using x by (intro exI [of _ "s # p"] exI [of _ t] exI [of _ r]) auto
  next
    case False
    then have "a = m_addr s \<and>
      ((m_size s = sz \<and> x = l @ replicate (Suc (Suc k)) mapent_delim) \<or>
       (sz < m_size s \<and> x = s\<lparr>m_addr := m_addr s + sz, m_size := m_size s - sz\<rparr> # l
          @ replicate (Suc k) mapent_delim))"
      using Cons.prems(1) pos rm_shift_segs [OF seg_ok_nonzero [OF ok]]
      by (auto simp: Let_def split: if_splits)
    then show ?thesis by (intro exI [of _ "[]"] exI [of _ s] exI [of _ l]) auto
  qed
qed simp

section \<open>Freeing\<close>

text \<open>
  \<open>rmfree\<close> on an array whose segments are \<open>a @ b\<close>, with \<open>a\<close> the ones that start
  at or before the freed address: one equation per branch of the code.
\<close>

definition rmfree_at :: "rmap \<Rightarrow> mapent list \<Rightarrow> mapent list \<Rightarrow> nat \<Rightarrow> int \<Rightarrow> int \<Rightarrow> bool" where
  "rmfree_at mp a b k sz addr \<longleftrightarrow> m_ents mp = a @ b @ replicate (Suc k) mapent_delim
     \<and> seg_ok 0 (a @ b) \<and> 0 < length a + length b + k \<and> 0 < addr \<and> 0 < sz
     \<and> (\<forall>s \<in> set a. m_addr s \<le> addr) \<and> (b \<noteq> [] \<longrightarrow> addr < m_addr (hd b))"

lemma rmfree_at_split:
  assumes "rmfree_at mp a b k sz addr"
  shows "takeWhile (\<lambda>e. m_addr e \<le> addr \<and> m_size e \<noteq> 0) (m_ents mp) = a"
    and "dropWhile (\<lambda>e. m_addr e \<le> addr \<and> m_size e \<noteq> 0) (m_ents mp) = b @ replicate (Suc k) mapent_delim"
proof -
  have a: "\<forall>s \<in> set a. m_addr s \<le> addr \<and> m_size s \<noteq> 0"
    using assms seg_ok_nonzero by (fastforce simp: rmfree_at_def)
  show "takeWhile (\<lambda>e. m_addr e \<le> addr \<and> m_size e \<noteq> 0) (m_ents mp) = a"
    "dropWhile (\<lambda>e. m_addr e \<le> addr \<and> m_size e \<noteq> 0) (m_ents mp) = b @ replicate (Suc k) mapent_delim"
    using assms takeWhile_dropWhile_split [OF a] by (cases b; simp add: rmfree_at_def)+
qed

lemma rmfree_atD:
  assumes "rmfree_at mp a b k sz addr"
  shows "0 < addr" "0 < sz" "seg_ok 0 a" "seg_ok (seg_end 0 a) b"
    "\<forall>x \<in> set b. m_size x \<noteq> 0" "\<forall>x \<in> set b. 0 < m_addr x" "\<forall>x \<in> set b. 0 < m_size x"
    "a = [] \<Longrightarrow> seg_end 0 a < addr"
proof -
  have ok: "seg_ok 0 (a @ b)" and pos: "0 < addr" "0 < sz"
    using assms by (auto simp: rmfree_at_def)
  show "0 < addr" "0 < sz" "seg_ok 0 a" "seg_ok (seg_end 0 a) b"
    using ok pos by (auto simp: seg_ok_append)
  have "\<forall>x \<in> set b. 0 < m_size x \<and> 0 < m_addr x" using seg_ok_sizes [OF ok] by simp
  then show "\<forall>x \<in> set b. m_size x \<noteq> 0" "\<forall>x \<in> set b. 0 < m_addr x" "\<forall>x \<in> set b. 0 < m_size x"
    by auto
  show "a = [] \<Longrightarrow> seg_end 0 a < addr" using pos by simp
qed

lemma seg_end_last: "a \<noteq> [] \<Longrightarrow> seg_end lo a = m_addr (last a) + m_size (last a)"
  by (induction a rule: rev_induct) auto

lemma rmfree_left_or_new:
  assumes "rmfree_at mp a b k sz addr"
  shows "a \<noteq> [] \<and> addr \<le> m_addr (last a) + m_size (last a) \<longleftrightarrow> addr \<le> seg_end 0 a"
    "a \<noteq> [] \<Longrightarrow> m_addr (last a) + m_size (last a) = seg_end 0 a"
proof -
  show end_a: "a \<noteq> [] \<Longrightarrow> m_addr (last a) + m_size (last a) = seg_end 0 a"
    by (simp add: seg_end_last)
  show "a \<noteq> [] \<and> addr \<le> m_addr (last a) + m_size (last a) \<longleftrightarrow> addr \<le> seg_end 0 a"
    using end_a rmfree_atD(8) [OF assms] by (cases "a = []") auto
qed

lemma rmfree_overlap_left:
  assumes at: "rmfree_at mp a b k sz addr" and ov: "addr < seg_end 0 a"
  shows "rmfree mp sz addr = Inl (Panic ''bad rmfree'')"
proof -
  have "a \<noteq> []" using ov rmfree_atD(8) [OF at] by force
  then show ?thesis
    using ov rmfree_atD(1,2) [OF at] rmfree_at_split [OF at] rmfree_left_or_new [OF at]
    by (cases b) (auto simp: rmfree_def Let_def)
qed

lemma rmfree_overlap_right:
  assumes at: "rmfree_at mp a b k sz addr" and ov: "b \<noteq> []" "m_addr (hd b) < addr + sz"
  shows "rmfree mp sz addr = Inl (Panic ''bad rmfree'')"
proof -
  obtain s r where b: "b = s # r" using ov by (cases b) auto
  have "0 < m_addr s" "0 < m_size s" using rmfree_atD [OF at] b by auto
  then show ?thesis
    using ov rmfree_atD(1,2) [OF at] rmfree_at_split [OF at] by (simp add: rmfree_def Let_def b)
qed

lemma rmfree_join_left:
  assumes at: "rmfree_at mp a b k sz addr" and j: "addr = seg_end 0 a"
    and gap: "b \<noteq> [] \<Longrightarrow> addr + sz < m_addr (hd b)"
  shows "rmfree mp sz addr = Inr (mp\<lparr>m_ents := butlast a
     @ (last a)\<lparr>m_size := m_size (last a) + sz\<rparr> # b @ replicate (Suc k) mapent_delim\<rparr>)"
proof -
  have "a \<noteq> []" using j rmfree_atD(8) [OF at] by force
  then show ?thesis
    using j gap rmfree_atD(1,2) [OF at] rmfree_at_split [OF at] rmfree_left_or_new [OF at]
    by (cases b) (auto simp: rmfree_def Let_def)
qed

lemma rmfree_join_both:
  assumes at: "rmfree_at mp a (s # r) k sz addr" and j: "addr = seg_end 0 a" "addr + sz = m_addr s"
  shows "rmfree mp sz addr = Inr (mp\<lparr>m_ents := butlast a
     @ (last a)\<lparr>m_size := m_size (last a) + sz + m_size s\<rparr> # r
     @ replicate (Suc (Suc k)) mapent_delim\<rparr>)"
proof -
  have ne: "a \<noteq> []" using j rmfree_atD(8) [OF at] by force
  have s: "0 < m_addr s" "0 < m_size s" and r: "\<forall>x \<in> set r. m_size x \<noteq> 0"
    using rmfree_atD [OF at] by auto
  show ?thesis
    using s ne j rmfree_atD(1,2) [OF at] rmfree_at_split [OF at] rmfree_left_or_new [OF at]
      rm_shift_segs [OF r] by (auto simp: rmfree_def Let_def)
qed

lemma rmfree_join_right:
  assumes at: "rmfree_at mp a (s # r) k sz addr" and j: "seg_end 0 a < addr" "addr + sz = m_addr s"
  shows "rmfree mp sz addr = Inr (mp\<lparr>m_ents := a
     @ s\<lparr>m_addr := addr, m_size := m_size s + sz\<rparr> # r @ replicate (Suc k) mapent_delim\<rparr>)"
proof -
  have "0 < m_size s" using rmfree_atD [OF at] by auto
  then show ?thesis
    using j rmfree_atD(1,2) [OF at] rmfree_at_split [OF at] rmfree_left_or_new [OF at]
    by (auto simp: rmfree_def Let_def)
qed

lemma rmfree_new:
  assumes at: "rmfree_at mp a b k sz addr" and j: "seg_end 0 a < addr"
    and gap: "b \<noteq> [] \<Longrightarrow> addr + sz < m_addr (hd b)"
  shows "rmfree mp sz addr =
    (if k = 0
     then bindE (rm_overflow (a @ \<lparr>m_size = sz, m_addr = addr\<rparr> # b)) (\<lambda>l. Inr (mp\<lparr>m_ents := l\<rparr>))
     else Inr (mp\<lparr>m_ents := a @ \<lparr>m_size = sz, m_addr = addr\<rparr> # b @ replicate k mapent_delim\<rparr>))"
proof -
  have "rm_insert \<lparr>m_size = sz, m_addr = addr\<rparr> (b @ replicate (Suc k) mapent_delim)
    = Inr (\<lparr>m_size = sz, m_addr = addr\<rparr> # b @ replicate k mapent_delim, k)"
    using rmfree_atD(5) [OF at] by (simp add: rm_insert_segs)
  then show ?thesis
    using j gap rmfree_atD(1,2) [OF at] rmfree_at_split [OF at] rmfree_left_or_new [OF at]
    by (cases b) (auto simp: rmfree_def Let_def)
qed

lemma rmfree_at_exists:
  assumes "m_ents mp = l @ replicate (Suc k) mapent_delim" "seg_ok 0 l" "0 < length l + k"
    "0 < addr" "0 < sz"
  shows "\<exists>a b. l = a @ b \<and> rmfree_at mp a b k sz addr"
proof -
  define P where "P s \<longleftrightarrow> m_addr s \<le> addr" for s :: mapent
  obtain a b where l: "l = a @ b" and a: "a = takeWhile P l" and b: "b = dropWhile P l"
    by simp
  have "\<forall>s \<in> set a. m_addr s \<le> addr" using set_takeWhileD [of _ P l] by (auto simp: a P_def)
  moreover have "b \<noteq> [] \<longrightarrow> addr < m_addr (hd b)"
  proof
    assume "b \<noteq> []"
    then have "\<not> P (hd b)" unfolding b by (rule hd_dropWhile)
    then show "addr < m_addr (hd b)" by (simp add: P_def)
  qed
  ultimately have "rmfree_at mp a b k sz addr"
    using assms unfolding rmfree_at_def l by auto
  with l show ?thesis by blast
qed

lemma rmfree_at_free: "rmfree_at mp a b k sz addr \<Longrightarrow> rm_free mp = free_segs (a @ b)"
  by (rule rm_free_ents [of _ _ "Suc k"]) (simp add: rmfree_at_def)

text \<open>The two overlap tests of the code are exact.\<close>

lemma rmfree_at_disjoint:
  assumes at: "rmfree_at mp a b k sz addr"
  shows "{addr ..< addr + sz} \<inter> rm_free mp = {} \<longleftrightarrow>
    seg_end 0 a \<le> addr \<and> (b \<noteq> [] \<longrightarrow> addr + sz \<le> m_addr (hd b))"
proof
  assume disj: "{addr ..< addr + sz} \<inter> rm_free mp = {}"
  have "seg_end 0 a \<le> addr"
  proof (rule ccontr)
    assume "\<not> seg_end 0 a \<le> addr"
    moreover from this have ne: "a \<noteq> []" using rmfree_atD(8) [OF at] by force
    moreover have "m_addr (last a) \<le> addr" using at ne by (simp add: rmfree_at_def)
    ultimately have "addr \<in> segset (last a)" by (simp add: segset_def seg_end_last)
    moreover have "last a \<in> set a" using ne by simp
    ultimately have "addr \<in> rm_free mp" unfolding rmfree_at_free [OF at] by auto
    moreover have "addr \<in> {addr ..< addr + sz}" using rmfree_atD(2) [OF at] by simp
    ultimately show False using disj by blast
  qed
  moreover have "addr + sz \<le> m_addr (hd b)" if ne: "b \<noteq> []"
  proof (rule ccontr)
    assume "\<not> addr + sz \<le> m_addr (hd b)"
    moreover have "addr < m_addr (hd b)" using at ne by (simp add: rmfree_at_def)
    moreover have "hd b \<in> set b" using ne by simp
    moreover from this have "m_addr (hd b) \<in> rm_free mp"
      using rmfree_atD(7) [OF at] unfolding rmfree_at_free [OF at] by (force simp: segset_def)
    moreover from calculation have "m_addr (hd b) \<in> {addr ..< addr + sz}" by simp
    ultimately show False using disj by blast
  qed
  ultimately show "seg_end 0 a \<le> addr \<and> (b \<noteq> [] \<longrightarrow> addr + sz \<le> m_addr (hd b))" by blast
next
  assume ends: "seg_end 0 a \<le> addr \<and> (b \<noteq> [] \<longrightarrow> addr + sz \<le> m_addr (hd b))"
  have "x < addr \<or> addr + sz \<le> x" if "x \<in> free_segs a \<or> x \<in> free_segs b" for x
  proof (cases "x \<in> free_segs a")
    case True
    then show ?thesis using free_segs_bounds [OF rmfree_atD(3) [OF at]] ends by force
  next
    case False
    with that have x: "x \<in> free_segs b" by simp
    then have "b \<noteq> []" by auto
    moreover from this have "seg_ok (m_addr (hd b) - 1) b"
      using rmfree_atD(4) [OF at] by (cases b) auto
    ultimately show ?thesis using free_segs_bounds [OF _ x] ends by fastforce
  qed
  then show "{addr ..< addr + sz} \<inter> rm_free mp = {}"
    unfolding rmfree_at_free [OF at] by fastforce
qed

lemma seg_ok_snoc_grow:
  assumes "seg_ok lo a" "a \<noteq> []" "0 \<le> d"
  shows "seg_ok lo (butlast a @ [(last a)\<lparr>m_size := m_size (last a) + d\<rparr>])"
    and "seg_end lo (butlast a @ [(last a)\<lparr>m_size := m_size (last a) + d\<rparr>]) = seg_end lo a + d"
  using assms by (induction a rule: rev_induct) (auto simp: seg_ok_append)

lemma free_segs_grow:
  assumes "seg_ok lo a" "a \<noteq> []" "0 \<le> d"
  shows "free_segs (butlast a @ (last a)\<lparr>m_size := m_size (last a) + d\<rparr> # r)
    = free_segs (a @ r) \<union> {seg_end lo a ..< seg_end lo a + d}"
  using assms
proof (induction a rule: rev_induct)
  case (snoc s a)
  have "segset (s\<lparr>m_size := m_size s + d\<rparr>)
      = segset s \<union> {m_addr s + m_size s ..< m_addr s + m_size s + d}"
    using snoc.prems by (auto simp: segset_def seg_ok_append)
  then show ?case by auto
qed simp

text \<open>Losing the second to last segment keeps the rest in order.\<close>

lemma rm_overflow_segs:
  assumes "seg_ok 0 l" "2 \<le> length l"
  shows "\<exists>p x y. l = p @ [x, y] \<and> rm_overflow l = Inr (p @ [y] @ replicate (Suc 0) mapent_delim)
    \<and> seg_ok 0 (p @ [y])"
proof -
  obtain l' y where l': "l = l' @ [y]" using assms(2) by (cases l rule: rev_cases) auto
  obtain p x where p: "l' = p @ [x]" using assms(2) l' by (cases l' rule: rev_cases) auto
  have "rm_overflow l = Inr (p @ [y] @ replicate (Suc 0) mapent_delim)"
    by (simp add: rm_overflow_def Let_def l' p nth_append)
  moreover have "seg_ok 0 (p @ [y])"
    using assms(1) by (auto simp: l' p seg_ok_append)
  ultimately show ?thesis using l' p by auto
qed

lemma rmfree_disjoint_result:
  assumes at: "rmfree_at mp a b k sz addr"
    and ends: "seg_end 0 a \<le> addr" "b \<noteq> [] \<longrightarrow> addr + sz \<le> m_addr (hd b)"
  shows "\<exists>mp' l k'. rmfree mp sz addr = Inr mp' \<and> m_ents mp' = l @ replicate (Suc k') mapent_delim
    \<and> seg_ok 0 l \<and> length l + k' = length (a @ b) + k
    \<and> (free_segs l = free_segs (a @ b) \<union> {addr ..< addr + sz} \<or>
       (k = 0 \<and> (\<exists>x \<in> insert \<lparr>m_size = sz, m_addr = addr\<rparr> (set (a @ b)).
          free_segs l = free_segs (a @ b) \<union> {addr ..< addr + sz} - segset x)))"
proof -
  let ?new = "\<lparr>m_size = sz, m_addr = addr\<rparr>"
  note D = rmfree_atD [OF at]
  have len: "0 < length a + length b + k" using at by (simp add: rmfree_at_def)
  consider (left) "addr = seg_end 0 a" "b \<noteq> [] \<longrightarrow> addr + sz < m_addr (hd b)"
    | (both) s r where "addr = seg_end 0 a" "b = s # r" "addr + sz = m_addr s"
    | (right) s r where "seg_end 0 a < addr" "b = s # r" "addr + sz = m_addr s"
    | (new) "seg_end 0 a < addr" "b \<noteq> [] \<longrightarrow> addr + sz < m_addr (hd b)"
    using ends by (cases b) fastforce+
  then show ?thesis
  proof cases
    case left
    let ?s = "(last a)\<lparr>m_size := m_size (last a) + sz\<rparr>"
    have ne: "a \<noteq> []" using left D(8) by force
    have "seg_ok (seg_end 0 a + sz) b" using left D(4) by (cases b) auto
    then have ok': "seg_ok 0 ((butlast a @ [?s]) @ b)"
      using seg_ok_snoc_grow [OF D(3) ne, of sz] D(2)
      unfolding seg_ok_append [of _ "_ @ _"] by (simp flip: add.assoc)
    have "free_segs (butlast a @ ?s # b) = free_segs (a @ b) \<union> {addr ..< addr + sz}"
      using free_segs_grow [OF D(3) ne, of sz b] left D(2) by simp
    then show ?thesis
      using rmfree_join_left [OF at] left ok' ne
      by (intro exI [of _ "mp\<lparr>m_ents := butlast a @ ?s # b @ replicate (Suc k) mapent_delim\<rparr>"]
        exI [of _ "butlast a @ ?s # b"] exI [of _ k]) auto
  next
    case both
    let ?s = "(last a)\<lparr>m_size := m_size (last a) + sz + m_size s\<rparr>"
    have ne: "a \<noteq> []" using both D(8) by force
    have s: "0 < m_size s" using both D(7) by simp
    have eq: "seg_end 0 a + (sz + m_size s) = m_addr s + m_size s" using both by simp
    have "seg_ok (seg_end 0 a + (sz + m_size s)) r" unfolding eq using both D(4) by simp
    then have ok': "seg_ok 0 ((butlast a @ [?s]) @ r)"
      using seg_ok_snoc_grow [OF D(3) ne, of "sz + m_size s"] D(2) s
      unfolding seg_ok_append [of _ "_ @ _"] by (simp flip: add.assoc)
    have "free_segs (butlast a @ ?s # r) = free_segs (a @ b) \<union> {addr ..< addr + sz}"
      using free_segs_grow [OF D(3) ne, of "sz + m_size s" r] both s D(2)
      by (auto simp: segset_def add.assoc)
    then show ?thesis
      using rmfree_join_both [OF at [unfolded both(2)]] both ok' ne
      by (intro exI [of _ "mp\<lparr>m_ents := butlast a @ ?s # r @ replicate (Suc (Suc k)) mapent_delim\<rparr>"]
        exI [of _ "butlast a @ ?s # r"] exI [of _ "Suc k"]) auto
  next
    case right
    let ?s = "s\<lparr>m_addr := addr, m_size := m_size s + sz\<rparr>"
    have s: "0 < m_size s" using right D(7) by simp
    have eq: "addr + (m_size s + sz) = m_addr s + m_size s" using right by simp
    have "seg_ok (addr + (m_size s + sz)) r" unfolding eq using right D(4) by simp
    then have "seg_ok 0 (a @ ?s # r)"
      using right D s by (simp add: seg_ok_append)
    moreover have "free_segs (a @ ?s # r) = free_segs (a @ b) \<union> {addr ..< addr + sz}"
      using right s D(2) by (auto simp: segset_def)
    ultimately show ?thesis
      using rmfree_join_right [OF at [unfolded right(2)]] right
      by (intro exI [of _ "mp\<lparr>m_ents := a @ ?s # r @ replicate (Suc k) mapent_delim\<rparr>"]
        exI [of _ "a @ ?s # r"] exI [of _ k]) auto
  next
    case new
    have ok': "seg_ok 0 (a @ ?new # b)"
      using new D by (cases b) (auto simp: seg_ok_append)
    have free': "free_segs (a @ ?new # b) = free_segs (a @ b) \<union> {addr ..< addr + sz}"
      by (auto simp: segset_def)
    show ?thesis
    proof (cases k)
      case 0
      then have "2 \<le> length (a @ ?new # b)" using len by (cases a; cases b) auto
      from rm_overflow_segs [OF ok' this] obtain p x y where
        split: "a @ ?new # b = p @ [x, y]"
        and ov: "rm_overflow (a @ ?new # b) = Inr (p @ [y] @ replicate (Suc 0) mapent_delim)"
        and ok'': "seg_ok 0 (p @ [y])" by blast
      have all: "seg_ok 0 (p @ [x, y])" using ok' split by simp
      have "segset x \<inter> free_segs (p @ [y]) = {}"
        using all free_segs_bounds [of 0 p] by (fastforce simp: seg_ok_append segset_def)
      moreover have "free_segs (p @ [x, y]) = free_segs (a @ b) \<union> {addr ..< addr + sz}"
        using free' split by simp
      ultimately have lost: "free_segs (p @ [y]) = free_segs (a @ b) \<union> {addr ..< addr + sz} - segset x"
        by auto
      have "length (p @ [x, y]) = Suc (length (a @ b))" using split [symmetric] by simp
      moreover have "x \<in> insert ?new (set (a @ b))"
      proof -
        have "x \<in> set (a @ ?new # b)" unfolding split by simp
        then show ?thesis by auto
      qed
      ultimately show ?thesis
        using rmfree_new [OF at new(1)] new 0 ov ok'' lost
        by (intro exI [of _ "mp\<lparr>m_ents := p @ [y] @ replicate (Suc 0) mapent_delim\<rparr>"]
          exI [of _ "p @ [y]"] exI [of _ 0]) auto
    next
      case (Suc k')
      then show ?thesis
        using rmfree_new [OF at new(1)] new ok' free'
        by (intro exI [of _ "mp\<lparr>m_ents := a @ ?new # b @ replicate k mapent_delim\<rparr>"]
          exI [of _ "a @ ?new # b"] exI [of _ k']) auto
    qed
  qed
qed

section \<open>What the allocator promises\<close>

lemma rm_spare_ents:
  assumes "m_ents mp = l @ replicate (Suc k) mapent_delim" "seg_ok 0 l"
  shows "length (rm_spare mp) = Suc k"
proof -
  have "\<forall>s \<in> set l. m_size s \<noteq> 0" by (rule seg_ok_nonzero [OF assms(2)])
  from takeWhile_dropWhile_split(2) [OF this, of mapent_delim "replicate k mapent_delim"]
  show ?thesis using assms(1) by (simp add: rm_spare_def)
qed

lemma rmfree_spec:
  assumes wf: "rm_wf mp" and pos: "0 < sz" "0 < addr"
    and disj: "{addr ..< addr + sz} \<inter> rm_free mp = {}"
  shows "\<exists>mp'. rmfree mp sz addr = Inr mp' \<and> rm_wf mp'
    \<and> length (m_ents mp') = length (m_ents mp)
    \<and> (rm_free mp' = rm_free mp \<union> {addr ..< addr + sz} \<or>
       (length (rm_spare mp) = 1 \<and>
        (\<exists>x \<in> insert \<lparr>m_size = sz, m_addr = addr\<rparr> (set (m_ents mp)).
           rm_free mp' = rm_free mp \<union> {addr ..< addr + sz} - segset x)))"
proof -
  obtain l k where ents: "m_ents mp = l @ replicate (Suc k) mapent_delim" "seg_ok 0 l" "0 < length l + k"
    using wf unfolding rm_wf_iff by blast
  obtain a b where l: "l = a @ b" and at: "rmfree_at mp a b k sz addr"
    using rmfree_at_exists [OF ents pos(2,1)] by blast
  from disj have "seg_end 0 a \<le> addr" "b \<noteq> [] \<longrightarrow> addr + sz \<le> m_addr (hd b)"
    unfolding rmfree_at_disjoint [OF at] by auto
  from rmfree_disjoint_result [OF at this] obtain mp' l' k' where
    res: "rmfree mp sz addr = Inr mp'" and e': "m_ents mp' = l' @ replicate (Suc k') mapent_delim"
    and ok': "seg_ok 0 l'" and len: "length l' + k' = length (a @ b) + k"
    and free': "free_segs l' = free_segs (a @ b) \<union> {addr ..< addr + sz} \<or>
       (k = 0 \<and> (\<exists>x \<in> insert \<lparr>m_size = sz, m_addr = addr\<rparr> (set (a @ b)).
          free_segs l' = free_segs (a @ b) \<union> {addr ..< addr + sz} - segset x))"
    by blast
  have "rm_wf mp'" using e' ok' len ents(3) l by (intro rm_wfI) auto
  moreover have "rm_free mp' = free_segs l'" using e' by (rule rm_free_ents)
  moreover have "length (m_ents mp') = length (m_ents mp)" using e' ents(1) len l by simp
  moreover have "set (a @ b) \<subseteq> set (m_ents mp)" by (auto simp: ents(1) l)
  moreover have "length (rm_spare mp) = 1" if "k = 0" using rm_spare_ents [OF ents(1,2)] that by simp
  ultimately show ?thesis using res free' unfolding rmfree_at_free [OF at] by (metis (no_types, lifting) insertCI insertE subsetD)
qed

text \<open>C12. Freeing units none of which is free succeeds, keeps the map well formed, and makes
  exactly these units free; only when the array has a single slot left (the delimiter) may
  one whole segment of the map, or the piece freed, be lost, as the overflow branch documents.\<close>

theorem rmfree_frees:
  assumes "rm_wf mp" "0 < sz" "0 < addr" "{addr ..< addr + sz} \<inter> rm_free mp = {}"
  shows "\<exists>mp'. rmfree mp sz addr = Inr mp' \<and> rm_wf mp'
    \<and> (1 < length (rm_spare mp) \<longrightarrow> rm_free mp' = rm_free mp \<union> {addr ..< addr + sz})
    \<and> (length (rm_spare mp) = 1 \<longrightarrow>
        (\<exists>x \<in> insert \<lparr>m_size = sz, m_addr = addr\<rparr> (set (m_ents mp)).
           rm_free mp' = rm_free mp \<union> {addr ..< addr + sz} - segset x))"
proof -
  obtain l k where "m_ents mp = l @ replicate (Suc k) mapent_delim" using assms(1) unfolding rm_wf_iff by blast
  then have d: "mapent_delim \<in> set (m_ents mp)" by simp
  obtain mp' where m: "rmfree mp sz addr = Inr mp'" "rm_wf mp'"
    "rm_free mp' = rm_free mp \<union> {addr ..< addr + sz} \<or> (length (rm_spare mp) = 1 \<and>
       (\<exists>x \<in> insert \<lparr>m_size = sz, m_addr = addr\<rparr> (set (m_ents mp)). rm_free mp' = rm_free mp \<union> {addr ..< addr + sz} - segset x))"
    using rmfree_spec [OF assms] by blast
  define lost where "lost \<longleftrightarrow> (\<exists>x \<in> insert \<lparr>m_size = sz, m_addr = addr\<rparr> (set (m_ents mp)). rm_free mp' = rm_free mp \<union> {addr ..< addr + sz} - segset x)"
  have "lost" if "rm_free mp' = rm_free mp \<union> {addr ..< addr + sz}"
    unfolding lost_def by (rule bexI [of _ mapent_delim]) (use that d in simp_all)
  then have "length (rm_spare mp) = 1 \<longrightarrow> lost" "1 < length (rm_spare mp) \<longrightarrow> rm_free mp' = rm_free mp \<union> {addr ..< addr + sz}"
    using m(3) unfolding lost_def [symmetric] by auto
  then show ?thesis using m(1,2) unfolding lost_def by blast
qed

text \<open>The overlap checks are exact: \<open>rmfree\<close> panics if and only if one of the units
  being returned is already free (a double free is always caught, and nothing else is).\<close>

theorem rmfree_panics_iff_overlap:
  assumes "rm_wf mp" "0 < sz" "0 < addr"
  shows "rmfree mp sz addr = Inl (Panic ''bad rmfree'')
    \<longleftrightarrow> {addr ..< addr + sz} \<inter> rm_free mp \<noteq> {}"
proof -
  obtain l k where ents: "m_ents mp = l @ replicate (Suc k) mapent_delim" "seg_ok 0 l" "0 < length l + k"
    using assms(1) unfolding rm_wf_iff by blast
  obtain a b where at: "rmfree_at mp a b k sz addr"
    using rmfree_at_exists [OF ents assms(3,2)] by blast
  show ?thesis
  proof
    assume "rmfree mp sz addr = Inl (Panic ''bad rmfree'')"
    then show "{addr ..< addr + sz} \<inter> rm_free mp \<noteq> {}" using rmfree_spec [OF assms] by force
  next
    assume "{addr ..< addr + sz} \<inter> rm_free mp \<noteq> {}"
    then show "rmfree mp sz addr = Inl (Panic ''bad rmfree'')"
      using rmfree_at_disjoint [OF at] rmfree_overlap_left [OF at] rmfree_overlap_right [OF at]
      by force
  qed
qed

lemma free_pos: "rm_wf mp \<Longrightarrow> x \<in> rm_free mp \<Longrightarrow> 0 < x"
  using free_segs_bounds rm_free_ents unfolding rm_wf_iff by metis

text \<open>
  Which segment an allocation takes: a piece of the swap map must not cross a boundary of the interleaving,
  so it begins at the next one when it would.
\<close>

definition rm_first :: "swapenv \<Rightarrow> mapent \<Rightarrow> int" where
  "rm_first e s = dmmax e - m_addr s mod dmmax e"

definition rm_cross :: "swapenv \<Rightarrow> int \<Rightarrow> mapent \<Rightarrow> bool" where
  "rm_cross e sz s \<longleftrightarrow> is_swapmap e \<and> 1 < nswdev e \<and> rm_first e s < sz"

definition rm_fits :: "swapenv \<Rightarrow> int \<Rightarrow> mapent \<Rightarrow> bool" where
  "rm_fits e sz s \<longleftrightarrow> sz \<le> (if rm_cross e sz s then m_size s - rm_first e s else m_size s)"

definition rm_place :: "swapenv \<Rightarrow> int \<Rightarrow> mapent \<Rightarrow> int" where
  "rm_place e sz s = (if rm_cross e sz s then m_addr s + rm_first e s else m_addr s)"

lemma rm_search_first:
  assumes "seg_ok lo l" "0 < dmmax e"
  shows "case List.find (rm_fits e sz) l of
      None \<Rightarrow> \<exists>x. rm_search e sz (l @ replicate (Suc k) mapent_delim) = Inr (x, NoSpace)
    | Some s \<Rightarrow> \<exists>x. rm_search e sz (l @ replicate (Suc k) mapent_delim)
          = Inr (x, if rm_cross e sz s then Split (rm_place e sz s) (m_size s - rm_first e s - sz) else Taken (rm_place e sz s))
        \<and> (rm_cross e sz s \<longrightarrow> set x \<subseteq> insert (s\<lparr>m_size := rm_first e s\<rparr>) (set l \<union> {mapent_delim}))"
  using assms(1)
proof (induction l arbitrary: lo)
  case (Cons s l)
  have pos: "m_size s \<noteq> 0" and ok: "seg_ok (m_addr s + m_size s) l" using Cons.prems by auto
  have first: "0 < rm_first e s" using assms(2) by (simp add: rm_first_def)
  have step: "rm_search e sz ((s # l) @ replicate (Suc k) mapent_delim) =
    (if rm_fits e sz s then
       if rm_cross e sz s then Inr (s\<lparr>m_size := rm_first e s\<rparr> # l @ replicate (Suc k) mapent_delim, Split (rm_place e sz s) (m_size s - rm_first e s - sz))
       else if m_size s = sz then Inr (l @ replicate (Suc (Suc k)) mapent_delim, Taken (rm_place e sz s))
       else Inr (s\<lparr>m_addr := m_addr s + sz, m_size := m_size s - sz\<rparr> # l @ replicate (Suc k) mapent_delim, Taken (rm_place e sz s))
     else bindE (rm_search e sz (l @ replicate (Suc k) mapent_delim)) (\<lambda>(bps', r). Inr (s # bps', r)))"
    using pos first rm_shift_segs [OF seg_ok_nonzero [OF ok]]
    by (auto simp: Let_def rm_fits_def rm_cross_def rm_place_def rm_first_def)
  show ?case
  proof (cases "rm_fits e sz s")
    case True
    then show ?thesis unfolding step by auto
  next
    case False
    then show ?thesis using Cons.IH [OF ok] unfolding step by (auto split: option.splits)
  qed
qed simp

lemma rm_segs_ents:
  assumes "m_ents mp = l @ replicate (Suc k) mapent_delim" "seg_ok 0 l"
  shows "rm_segs mp = l"
proof -
  have "\<forall>s \<in> set l. m_size s \<noteq> 0" by (rule seg_ok_nonzero [OF assms(2)])
  from takeWhile_dropWhile_split(1) [OF this, of mapent_delim "replicate k mapent_delim"]
  show ?thesis using assms(1) by (simp add: rm_segs_def)
qed

text \<open>C35. \<open>rmalloc\<close> allocates from the first segment that can hold the request (\<open>rm_fits\<close>), at its start or, on an
  interleaved swap map, at the next boundary when it would cross one (\<open>rm_place\<close>). The units it returns were free and
  are no longer, no others are taken, and the map stays well formed. It returns 0 and leaves the map as it
  was exactly when no segment can hold the request, and it panics exactly when the piece is taken from the start
  of a segment of the swap map that is not aligned to a cluster. When an interleaved allocation leaves a rest and the
  array has one slot left, one segment of the map may be lost besides.\<close>

theorem rmalloc_allocates:
  assumes wf: "rm_wf mp" and sz: "0 < sz" and dm: "0 < dmmax e" "is_swapmap e \<longrightarrow> sz \<le> dmmax e"
  shows "case List.find (rm_fits e sz) (rm_segs mp) of
      None \<Rightarrow> rmalloc e mp sz = Inr (mp, 0)
    | Some s \<Rightarrow>
        if is_swapmap e \<and> \<not> rm_cross e sz s \<and> m_addr s mod clsize e \<noteq> 0
        then rmalloc e mp sz = Inl (Panic ''rmalloc swapmap'')
        else \<exists>mp' addr. rmalloc e mp sz = Inr (mp', addr) \<and> addr = rm_place e sz s \<and> 0 < addr \<and> rm_wf mp'
          \<and> {addr ..< addr + sz} \<subseteq> rm_free mp
          \<and> (rm_free mp' = rm_free mp - {addr ..< addr + sz}
             \<or> (rm_cross e sz s \<and> rm_first e s + sz < m_size s \<and> length (rm_spare mp) = 1
                \<and> (\<exists>x \<in> {\<lparr>m_size = m_size s - rm_first e s - sz, m_addr = addr + sz\<rparr>, s\<lparr>m_size := rm_first e s\<rparr>} \<union> set (m_ents mp).
                     rm_free mp' = rm_free mp - {addr ..< addr + sz} - segset x)))"
proof -
  obtain l k where ents: "m_ents mp = l @ replicate (Suc k) mapent_delim" "seg_ok 0 l" "0 < length l + k"
    using wf unfolding rm_wf_iff by blast
  obtain l' k' f where s: "rm_search e sz (m_ents mp) = Inr (l' @ replicate (Suc k') mapent_delim, f)"
    and ok': "seg_ok 0 l'" and f: "rm_found_ok e sz l k l' k' f"
    using rm_search_spec [OF ents(2) sz dm(1), of k] ents(1) by auto
  note F = rm_search_first [OF ents(2) dm(1), of sz k, folded ents(1), unfolded s]
  have segs: "rm_segs mp = l" by (rule rm_segs_ents [OF ents(1,2)])
  let ?mp = "mp\<lparr>m_ents := l' @ replicate (Suc k') mapent_delim\<rparr>"
  note fr = rm_free_ents [OF ents(1)]
  have fr': "rm_free ?mp = free_segs l'" by (rule rm_free_ents [of _ _ "Suc k'"]) simp
  have guard: "\<not> (sz \<le> 0 \<or> is_swapmap e \<and> dmmax e < sz)" using sz dm by auto
  show ?thesis
  proof (cases "List.find (rm_fits e sz) l")
    case None
    then have "f = NoSpace" using F by simp
    then show ?thesis using f ents(1) s guard None segs by (simp add: rmalloc_def)
  next
    case (Some t)
    show ?thesis
    proof (cases "rm_cross e sz t")
      case False
      define a where "a = rm_place e sz t"
      have Taken: "f = Taken a" using F Some False by (simp add: a_def)
      have at: "a = m_addr t" using False by (simp add: a_def rm_place_def)
      have wf': "rm_wf ?mp" using ok' f Taken ents(3) by (intro rm_wfI [of _ l' k']) auto
      have sub: "{a ..< a + sz} \<subseteq> rm_free mp" and eq: "rm_free ?mp = rm_free mp - {a ..< a + sz}"
        using f Taken unfolding fr fr' by auto
      have "a \<in> {a ..< a + sz}" using sz by simp
      then have "0 < a" using sub free_pos [OF wf] by blast
      then show ?thesis using s Taken guard wf' sub eq Some False segs at a_def by (auto simp: rmalloc_def Let_def)
    next
      case True
      define a rest where "a = rm_place e sz t" and "rest = m_size t - rm_first e t - sz"
      have Split: "f = Split a rest" and set: "set (l' @ replicate (Suc k') mapent_delim) \<subseteq> insert (t\<lparr>m_size := rm_first e t\<rparr>) (set l \<union> {mapent_delim})"
        using F Some True by (auto simp: a_def rest_def)
      have len: "0 < length l' + k'" using f Split ents(3) by simp
      have wf': "rm_wf ?mp" using ok' len by (intro rm_wfI [of _ l' k']) auto
      have spare: "length (rm_spare ?mp) = length (rm_spare mp)"
        using rm_spare_ents [OF ents(1,2)] rm_spare_ents [of ?mp l' k'] ok' f Split by simp
      have sub: "{a ..< a + sz + rest} \<subseteq> rm_free mp" "0 \<le> rest"
        and eq: "rm_free ?mp = rm_free mp - {a ..< a + sz + rest}"
        using f Split unfolding fr fr' by auto
      have "a \<in> {a ..< a + sz + rest}" using sz sub by simp
      then have a: "0 < a" using sub free_pos [OF wf] by blast
      have "\<exists>mp'. rmalloc e mp sz = Inr (mp', a) \<and> rm_wf mp' \<and> (rm_free mp' = rm_free mp - {a ..< a + sz}
          \<or> (0 < rest \<and> length (rm_spare mp) = 1 \<and> (\<exists>x \<in> {\<lparr>m_size = rest, m_addr = a + sz\<rparr>, t\<lparr>m_size := rm_first e t\<rparr>} \<union> set (m_ents mp).
               rm_free mp' = rm_free mp - {a ..< a + sz} - segset x)))"
      proof (cases "rest = 0")
        case True
        then show ?thesis using s Split guard wf' sub eq a by (auto simp: rmalloc_def Let_def)
      next
        case False
        then have r: "0 < rest" "0 < a + sz" using sub a sz by auto
        have "{a + sz ..< a + sz + rest} \<inter> rm_free ?mp = {}" unfolding eq using sz by auto
        from rmfree_spec [OF wf' r this] obtain mp'' where
          free: "rmfree ?mp rest (a + sz) = Inr mp''" "rm_wf mp''"
          and fr'': "rm_free mp'' = rm_free ?mp \<union> {a + sz ..< a + sz + rest} \<or>
            (length (rm_spare ?mp) = 1 \<and> (\<exists>x \<in> insert \<lparr>m_size = rest, m_addr = a + sz\<rparr> (set (m_ents ?mp)).
               rm_free mp'' = rm_free ?mp \<union> {a + sz ..< a + sz + rest} - segset x))"
          by blast
        have u: "rm_free ?mp \<union> {a + sz ..< a + sz + rest} = rm_free mp - {a ..< a + sz}"
          unfolding eq using sub sz by auto
        have "rmalloc e mp sz = Inr (mp'', a)"
          using s Split guard False free by (simp add: rmalloc_def Let_def)
        moreover have "rm_free mp'' = rm_free mp - {a ..< a + sz}
          \<or> (0 < rest \<and> length (rm_spare mp) = 1 \<and> (\<exists>x \<in> {\<lparr>m_size = rest, m_addr = a + sz\<rparr>, t\<lparr>m_size := rm_first e t\<rparr>} \<union> set (m_ents mp).
               rm_free mp'' = rm_free mp - {a ..< a + sz} - segset x))"
        proof (cases "rm_free mp'' = rm_free mp - {a ..< a + sz}")
          case False
          then obtain x where x: "x \<in> insert \<lparr>m_size = rest, m_addr = a + sz\<rparr> (set (m_ents ?mp))" "length (rm_spare mp) = 1"
            "rm_free mp'' = rm_free mp - {a ..< a + sz} - segset x" using fr'' unfolding u spare by blast
          have "set (m_ents ?mp) \<subseteq> insert (t\<lparr>m_size := rm_first e t\<rparr>) (set (m_ents mp))" using set by (auto simp: ents(1))
          then have "x \<in> {\<lparr>m_size = rest, m_addr = a + sz\<rparr>, t\<lparr>m_size := rm_first e t\<rparr>} \<union> set (m_ents mp)" using x(1) by blast
          then show ?thesis using x(2,3) r(1) by blast
        qed blast
        ultimately show ?thesis using free(2) by blast
      qed
      then obtain mp' where "rmalloc e mp sz = Inr (mp', a)" "rm_wf mp'" "rm_free mp' = rm_free mp - {a ..< a + sz}
          \<or> (0 < rest \<and> length (rm_spare mp) = 1 \<and> (\<exists>x \<in> {\<lparr>m_size = rest, m_addr = a + sz\<rparr>, t\<lparr>m_size := rm_first e t\<rparr>} \<union> set (m_ents mp).
               rm_free mp' = rm_free mp - {a ..< a + sz} - segset x))" by blast
      moreover have "{a ..< a + sz} \<subseteq> rm_free mp" "0 < rest \<longleftrightarrow> rm_first e t + sz < m_size t" using sub by (auto simp: rest_def)
      ultimately show ?thesis using Some True segs a unfolding a_def rest_def by auto
    qed
  qed
qed

text \<open>Round trip: outside the swap map, returning what \<open>rmalloc\<close> just gave restores the
  array slot for slot.\<close>

theorem rmfree_rmalloc:
  assumes wf: "rm_wf mp" and sz: "0 < sz" and nosw: "\<not> is_swapmap e"
    and res: "rmalloc e mp sz = Inr (mp', addr)" and ok: "addr \<noteq> 0"
  shows "rmfree mp' sz addr = Inr mp"
proof -
  obtain l k where ents: "m_ents mp = l @ replicate (Suc k) mapent_delim" "seg_ok 0 l" "0 < length l + k"
    using wf unfolding rm_wf_iff by blast
  obtain x where x: "rm_search e sz (m_ents mp) = Inr (x, Taken addr)" and mp': "mp' = mp\<lparr>m_ents := x\<rparr>"
  proof -
    obtain y f where y: "rm_search e sz (m_ents mp) = Inr (y, f)"
      using res nosw sz by (cases "rm_search e sz (m_ents mp)") (auto simp: rmalloc_def)
    then show thesis
      using res ok nosw sz rm_search_split [of e sz "m_ents mp" y] that
      by (cases f) (auto simp: rmalloc_def)
  qed
  obtain p s r where l: "l = p @ s # r" and a: "addr = m_addr s" and
    cs: "(m_size s = sz \<and> x = p @ r @ replicate (Suc (Suc k)) mapent_delim) \<or>
     (sz < m_size s \<and> x = p @ s\<lparr>m_addr := m_addr s + sz, m_size := m_size s - sz\<rparr> # r
        @ replicate (Suc k) mapent_delim)"
    using rm_search_taken x ents(1,2) by metis
  have p: "seg_ok 0 p" "seg_end 0 p < m_addr s" "0 < m_size s" "seg_ok (m_addr s + m_size s) r"
    using ents(2) l by (auto simp: seg_ok_append)
  have before: "\<forall>t \<in> set p. m_addr t \<le> addr"
  proof
    fix t assume t: "t \<in> set p"
    then have "m_addr t \<in> free_segs p" using seg_ok_sizes [OF p(1)] by (force simp: segset_def)
    then show "m_addr t \<le> addr" using free_segs_bounds [OF p(1)] p(2) a by force
  qed
  have pos: "0 < addr" using seg_ok_end [OF p(1)] p(2) a by simp
  from cs show ?thesis
  proof (elim disjE conjE)
    assume eq: "m_size s = sz" and xe: "x = p @ r @ replicate (Suc (Suc k)) mapent_delim"
    have "r \<noteq> [] \<longrightarrow> addr + sz < m_addr (hd r)" using p(4) a eq by (cases r) auto
    moreover have "seg_ok 0 (p @ r)"
      using p seg_ok_mono [OF p(4)] by (simp add: seg_ok_append)
    moreover have "rmfree_at mp' p r (Suc k) sz addr"
      using calculation pos sz before ents(3) by (auto simp: rmfree_at_def mp' xe)
    ultimately have "rmfree mp' sz addr = Inr (mp'\<lparr>m_ents := p @ \<lparr>m_size = sz, m_addr = addr\<rparr> # r
        @ replicate (Suc k) mapent_delim\<rparr>)"
      using rmfree_new [of mp' p r "Suc k" sz addr] p(2) a by simp
    moreover have "\<lparr>m_size = sz, m_addr = addr\<rparr> = s" using eq a by simp
    ultimately show ?thesis using ents(1) l by (simp add: mp')
  next
    let ?s = "s\<lparr>m_addr := m_addr s + sz, m_size := m_size s - sz\<rparr>"
    assume lt: "sz < m_size s" and xe: "x = p @ ?s # r @ replicate (Suc k) mapent_delim"
    have "seg_ok 0 (p @ ?s # r)" using p lt sz by (simp add: seg_ok_append)
    then have "rmfree_at mp' p (?s # r) k sz addr"
      using pos sz before a by (auto simp: rmfree_at_def mp' xe)
    then have "rmfree mp' sz addr = Inr (mp'\<lparr>m_ents := p
        @ ?s\<lparr>m_addr := addr, m_size := m_size ?s + sz\<rparr> # r @ replicate (Suc k) mapent_delim\<rparr>)"
      by (rule rmfree_join_right) (use p(2) a in simp_all)
    then show ?thesis using ents(1) l a by (simp add: mp')
  qed
qed

section \<open>Witnesses\<close>

text \<open>A map of six slots over the units 1 to 100 of which 1 to 9 and 50 to 59 are taken.\<close>

definition ex_rmap :: rmap where
  "ex_rmap = \<lparr>m_name = ''ex'', m_ents = [\<lparr>m_size = 40, m_addr = 10\<rparr>, \<lparr>m_size = 40, m_addr = 60\<rparr>,
     mapent_delim, mapent_delim, mapent_delim, mapent_delim]\<rparr>"

definition ex_swapenv :: "bool \<Rightarrow> swapenv" where
  "ex_swapenv b = \<lparr>is_swapmap = b, nswdev = 2, dmmax = 32, clsize = 1\<rparr>"

lemma ex_rmap_wf: "rm_wf ex_rmap"
  by (simp add: rm_wf_def rm_segs_def rm_spare_def ex_rmap_def)

lemma ex_rmap_free: "rm_free ex_rmap = {10..<50} \<union> {60..<100}"
  by (auto simp: rm_free_def ex_rmap_def segset_def)

theorem rmfree_frees_witness:
  "\<exists>mp'. rmfree ex_rmap 5 50 = Inr mp' \<and> rm_free mp' = {10..<55} \<union> {60..<100}"
proof -
  have disj: "{50 ..< 50 + 5} \<inter> rm_free ex_rmap = {}" by (auto simp: ex_rmap_free)
  have spare: "1 < length (rm_spare ex_rmap)" by (simp add: rm_spare_def ex_rmap_def)
  have "\<exists>mp'. rmfree ex_rmap 5 50 = Inr mp' \<and> rm_free mp' = rm_free ex_rmap \<union> {50..<50 + 5}"
    using rmfree_frees [OF ex_rmap_wf _ _ disj] spare by auto
  moreover have "rm_free ex_rmap \<union> {50..<50 + 5} = {10..<55} \<union> {60..<100}"
    by (auto simp: ex_rmap_free)
  ultimately show ?thesis by simp
qed

theorem rmfree_panics_iff_overlap_witness:
  "rmfree ex_rmap 5 58 = Inl (Panic ''bad rmfree'') \<and> isOK (rmfree ex_rmap 2 58)"
proof -
  have "60 \<in> {58 ..< 58 + 5} \<inter> rm_free ex_rmap" by (simp add: ex_rmap_free)
  then have "{58 ..< 58 + 5} \<inter> rm_free ex_rmap \<noteq> {}" by blast
  then have "rmfree ex_rmap 5 58 = Inl (Panic ''bad rmfree'')"
    using rmfree_panics_iff_overlap [OF ex_rmap_wf, of 5 58] by simp
  then show ?thesis by (simp add: rmfree_def ex_rmap_def)
qed

theorem rmalloc_allocates_witness:
  "(\<exists>mp'. rmalloc (ex_swapenv True) ex_rmap 20 = Inr (mp', 10) \<and> rm_wf mp' \<and> rm_free mp' = {30..<50} \<union> {60..<100})
   \<and> rmalloc (ex_swapenv True) (ex_rmap\<lparr>m_ents := [mapent_delim, mapent_delim]\<rparr>) 20 = Inr (ex_rmap\<lparr>m_ents := [mapent_delim, mapent_delim]\<rparr>, 0)"
proof -
  have e: "0 < dmmax (ex_swapenv True)" "is_swapmap (ex_swapenv True) \<longrightarrow> 20 \<le> dmmax (ex_swapenv True)"
    by (simp_all add: ex_swapenv_def)
  have none: "rm_wf (ex_rmap\<lparr>m_ents := [mapent_delim, mapent_delim]\<rparr>)" by (simp add: rm_wf_def rm_segs_def rm_spare_def)
  have f: "List.find (rm_fits (ex_swapenv True) 20) (rm_segs ex_rmap) = Some \<lparr>m_size = 40, m_addr = 10\<rparr>"
    by (simp add: rm_segs_def ex_rmap_def rm_fits_def rm_cross_def rm_first_def ex_swapenv_def)
  have x: "\<not> rm_cross (ex_swapenv True) 20 \<lparr>m_size = 40, m_addr = 10\<rparr>" by (simp add: rm_cross_def rm_first_def ex_swapenv_def)
  have fr: "rm_free ex_rmap - {10..<30} = {30..<50} \<union> {60..<100}" by (auto simp: ex_rmap_free)
  have "\<exists>mp'. rmalloc (ex_swapenv True) ex_rmap 20 = Inr (mp', 10) \<and> rm_wf mp' \<and> rm_free mp' = rm_free ex_rmap - {10..<30}"
    using rmalloc_allocates [OF ex_rmap_wf _ e] f x by (auto simp: rm_place_def ex_swapenv_def)
  then show ?thesis using rmalloc_allocates [OF none _ e] unfolding fr by (simp add: rm_segs_def)
qed

theorem rmfree_rmalloc_witness:
  "\<exists>mp'. rmalloc (ex_swapenv False) ex_rmap 40 = Inr (mp', 10) \<and> rmfree mp' 40 10 = Inr ex_rmap"
proof -
  obtain mp' where r: "rmalloc (ex_swapenv False) ex_rmap 40 = Inr (mp', 10)"
    by (simp add: rmalloc_def ex_rmap_def ex_swapenv_def Let_def mapent_delim_def)
  have "rmfree mp' 40 10 = Inr ex_rmap"
    by (rule rmfree_rmalloc [OF ex_rmap_wf _ _ r]) (simp_all add: ex_swapenv_def)
  with r show ?thesis by blast
qed

end
