(* ===== verification/Mbuf.thy ===== *)
theory Mbuf
  imports Prelude
begin

text \<open>
  Mbufs and mbuf chains: \<open>sys/sys/mbuf.h\<close> and \<open>sys/kern/uipc_mbuf.c\<close>. A chain linked by
  \<open>m_next\<close> is a list of mbufs. An mbuf's data lie in its own \<open>m_dat\<close> or, with
  \<open>M_EXT\<close>, in a cluster of the store; \<open>m_data\<close> is the offset of the first byte in
  that storage and \<open>m_len\<close> the number of bytes. The store holds the free mbufs (with
  whatever they last contained: \<open>MGET\<close> initialises the header only), the clusters with
  their reference counts, and the failure counters. Statistics (\<open>mbstat\<close>) and interrupt
  masking (\<open>MBUFLOCK\<close>) are left out. The sizes are those of the ports with
  \<open>MSIZE\<close> 128 and 32-bit pointers.
\<close>

section \<open>Data\<close>

definition MSIZE :: int where "MSIZE = 128"
definition MLEN :: int where "MLEN = 108"
definition MHLEN :: int where "MHLEN = 100"
definition MCLBYTES :: int where "MCLBYTES = 1024"
definition MINCLSIZE :: int where "MINCLSIZE = MHLEN + MLEN"
definition M_COPYALL :: int where "M_COPYALL = 1000000000"

lemmas mbuf_sizes = MSIZE_def MLEN_def MHLEN_def MCLBYTES_def MINCLSIZE_def M_COPYALL_def

datatype mflag = M_EXT | M_PKTHDR | M_EOR | M_BCAST | M_MCAST

definition M_COPYFLAGS :: "mflag set" where
  "M_COPYFLAGS = {M_PKTHDR, M_EOR, M_BCAST, M_MCAST}"

datatype mtype = MT_FREE | MT_DATA | MT_HEADER | MT_SONAME | MT_RIGHTS | MT_CONTROL | MT_OOBDATA

datatype mhow = M_WAIT | M_DONTWAIT

type_synonym byte = "8 word"

record mbuf =
  m_len :: int
  m_data :: int
  m_type :: mtype
  m_flags :: "mflag set"
  pkt_len :: int
  pkt_rcvif :: nat
  ext_buf :: nat
  ext_size :: int
  m_dat :: "byte list"

record mbstate =
  mb_free :: "mbuf list"
  mb_drain :: "mbuf list"
  mb_clust :: "nat \<Rightarrow> byte list"
  mclrefcnt :: "nat \<Rightarrow> int"
  mclfree :: "nat list"
  MCFail :: int
  MPFail :: int
  max_protohdr :: int
  max_linkhdr :: int

text \<open>The storage the data pointer points into, and the bytes it points at.\<close>

definition m_storage :: "mbstate \<Rightarrow> mbuf \<Rightarrow> byte list" where
  "m_storage s m = (if M_EXT \<in> m_flags m then mb_clust s (ext_buf m) else m_dat m)"

definition m_bytes :: "mbstate \<Rightarrow> mbuf \<Rightarrow> byte list" where
  "m_bytes s m = window (m_storage s m) (m_data m) (m_len m)"

definition chain_bytes :: "mbstate \<Rightarrow> mbuf list \<Rightarrow> byte list" where
  "chain_bytes s c = concat (map (m_bytes s) c)"

section \<open>Allocation\<close>

text \<open>
  \<open>MALLOC\<close> of an mbuf: with \<open>M_WAIT\<close> it sleeps until there is memory, with
  \<open>M_DONTWAIT\<close> it may fail, and then \<open>m_retry\<close> calls the protocols' drain routines
  (\<open>mb_drain\<close> is what they give back) and tries once more.
\<close>

definition m_alloc :: "mhow \<Rightarrow> mbstate \<Rightarrow> (mbuf option \<times> mbstate) kres" where
  "m_alloc how s =
     (case mb_free s of
        m # ms \<Rightarrow> Inr (Some m, s\<lparr>mb_free := ms\<rparr>)
      | [] \<Rightarrow>
          if how = M_WAIT then Inl Sleeps
          else case mb_drain s of
                 m # ms \<Rightarrow> Inr (Some m, s\<lparr>mb_free := ms, mb_drain := []\<rparr>)
               | [] \<Rightarrow> Inr (None, s))"

definition MGET :: "mhow \<Rightarrow> mtype \<Rightarrow> mbstate \<Rightarrow> (mbuf option \<times> mbstate) kres" where
  "MGET how t s = bindE (m_alloc how s) (\<lambda>(m, s').
     Inr (map_option (\<lambda>m. m\<lparr>m_type := t, m_data := 0, m_flags := {}\<rparr>) m, s'))"

definition MGETHDR :: "mhow \<Rightarrow> mtype \<Rightarrow> mbstate \<Rightarrow> (mbuf option \<times> mbstate) kres" where
  "MGETHDR how t s = bindE (m_alloc how s) (\<lambda>(m, s').
     Inr (map_option (\<lambda>m. m\<lparr>m_type := t, m_data := MLEN - MHLEN, m_flags := {M_PKTHDR}\<rparr>) m, s'))"

definition MCLFREE :: "nat \<Rightarrow> mbstate \<Rightarrow> mbstate" where
  "MCLFREE c s =
     (let n = mclrefcnt s c - 1; s' = s\<lparr>mclrefcnt := (mclrefcnt s)(c := n)\<rparr>
      in if n = 0 then s'\<lparr>mclfree := c # mclfree s'\<rparr> else s')"

definition m_free :: "mbuf \<Rightarrow> mbstate \<Rightarrow> mbstate" where
  "m_free m s =
     (let s' = (if M_EXT \<in> m_flags m then MCLFREE (ext_buf m) s else s)
      in s'\<lparr>mb_free := m # mb_free s'\<rparr>)"

fun m_freem :: "mbuf list \<Rightarrow> mbstate \<Rightarrow> mbstate" where
  "m_freem [] s = s"
| "m_freem (m # ms) s = m_freem ms (m_free m s)"

text \<open>\<open>MCLALLOC\<close> without \<open>m_clalloc\<close>: \<open>mclfree\<close> holds all the clusters there are.\<close>

definition MCLGET :: "mbuf \<Rightarrow> mbstate \<Rightarrow> mbuf \<times> mbstate" where
  "MCLGET m s =
     (case mclfree s of
        [] \<Rightarrow> (m, s)
      | c # cs \<Rightarrow>
          (m\<lparr>ext_buf := c, m_data := 0, m_flags := m_flags m \<union> {M_EXT}, ext_size := MCLBYTES\<rparr>,
           s\<lparr>mclfree := cs, mclrefcnt := (mclrefcnt s)(c := mclrefcnt s c + 1)\<rparr>))"

definition M_COPY_PKTHDR :: "mbuf \<Rightarrow> mbuf \<Rightarrow> mbuf" where
  "M_COPY_PKTHDR to from =
     to\<lparr>pkt_len := pkt_len from, pkt_rcvif := pkt_rcvif from,
        m_flags := m_flags from \<inter> M_COPYFLAGS, m_data := MLEN - MHLEN\<rparr>"

definition M_ALIGN :: "mbuf \<Rightarrow> int \<Rightarrow> mbuf" where
  "M_ALIGN m len = m\<lparr>m_data := m_data m + (MLEN - len) div 4 * 4\<rparr>"

definition MH_ALIGN :: "mbuf \<Rightarrow> int \<Rightarrow> mbuf" where
  "MH_ALIGN m len = m\<lparr>m_data := m_data m + (MHLEN - len) div 4 * 4\<rparr>"

text \<open>
  \<open>bcopy\<close> from the data of one mbuf into the internal storage of another, at
  \<open>mtod(n) + doff\<close>.
\<close>

definition m_bcopy :: "mbstate \<Rightarrow> mbuf \<Rightarrow> int \<Rightarrow> mbuf \<Rightarrow> int \<Rightarrow> int \<Rightarrow> mbuf kres" where
  "m_bcopy s m soff n doff len =
     bindE (bcopy (m_storage s m) (m_data m + soff) (m_dat n) (m_data n + doff) len)
       (\<lambda>d. Inr (n\<lparr>m_dat := d\<rparr>))"

section \<open>Chain operations\<close>

definition m_prepend :: "mbuf list \<Rightarrow> int \<Rightarrow> mhow \<Rightarrow> mbstate \<Rightarrow> (mbuf list \<times> mbstate) kres" where
  "m_prepend c len how s =
     (case c of
        [] \<Rightarrow> Inl BadAccess
      | m # ms \<Rightarrow>
          bindE (MGET how (m_type m) s) (\<lambda>(mn, s').
            case mn of
              None \<Rightarrow> Inr ([], m_freem (m # ms) s')
            | Some mn \<Rightarrow>
                let (mn, m) = (if M_PKTHDR \<in> m_flags m
                               then (M_COPY_PKTHDR mn m, m\<lparr>m_flags := m_flags m - {M_PKTHDR}\<rparr>)
                               else (mn, m));
                    mn = (if len < MHLEN then MH_ALIGN mn len else mn)
                in Inr (mn\<lparr>m_len := len\<rparr> # m # ms, s')))"

text \<open>The loop \<open>while (off > 0)\<close> that finds the mbuf with byte \<open>off\<close>.\<close>

fun m_skip :: "string \<Rightarrow> int \<Rightarrow> mbuf list \<Rightarrow> (mbuf list \<times> int) kres" where
  "m_skip msg off [] = (if 0 < off then Inl (Panic msg) else Inr ([], off))"
| "m_skip msg off (m # ms) =
     (if 0 < off
      then if off < m_len m then Inr (m # ms, off) else m_skip msg (off - m_len m) ms
      else Inr (m # ms, off))"

text \<open>
  The copying loop of \<open>m_copym\<close>. \<open>acc\<close> (\<open>top\<close>) is the part already copied, which
  \<open>nospace\<close> frees.
\<close>

fun m_copym_loop ::
  "mhow \<Rightarrow> int \<Rightarrow> bool \<Rightarrow> int \<Rightarrow> int \<Rightarrow> mbuf list \<Rightarrow> mbuf list \<Rightarrow> mbstate \<Rightarrow> (mbuf list \<times> mbstate) kres"
where
  "m_copym_loop how off0 copyhdr off len acc [] s =
     (if 0 < len \<and> len \<noteq> M_COPYALL then Inl (Panic ''m_copym'')
      else Inr (acc, if acc = [] then s\<lparr>MCFail := MCFail s + 1\<rparr> else s))"
| "m_copym_loop how off0 copyhdr off len acc (m # ms) s =
     (if \<not> 0 < len
      then Inr (acc, if acc = [] then s\<lparr>MCFail := MCFail s + 1\<rparr> else s)
      else
        bindE (MGET how (m_type m) s) (\<lambda>(n, s).
          case n of
            None \<Rightarrow> let s' = m_freem acc s in Inr ([], s'\<lparr>MCFail := MCFail s' + 1\<rparr>)
          | Some n \<Rightarrow>
              let n = (if copyhdr
                       then (M_COPY_PKTHDR n m)\<lparr>pkt_len :=
                              (if len = M_COPYALL then pkt_len m - off0 else len)\<rparr>
                       else n);
                  n = n\<lparr>m_len := min len (m_len m - off)\<rparr>;
                  len' = (if len \<noteq> M_COPYALL then len - m_len n else len)
              in if M_EXT \<in> m_flags m
                 then m_copym_loop how off0 False 0 len'
                        (acc @ [n\<lparr>m_data := m_data m + off, ext_buf := ext_buf m,
                                  ext_size := ext_size m, m_flags := m_flags n \<union> {M_EXT}\<rparr>]) ms
                        (s\<lparr>mclrefcnt := (mclrefcnt s)(ext_buf m := mclrefcnt s (ext_buf m) + 1)\<rparr>)
                 else bindE (m_bcopy s m off n 0 (m_len n)) (\<lambda>n.
                        m_copym_loop how off0 False 0 len' (acc @ [n]) ms s)))"

definition m_copym :: "mbuf list \<Rightarrow> int \<Rightarrow> int \<Rightarrow> mhow \<Rightarrow> mbstate \<Rightarrow> (mbuf list \<times> mbstate) kres" where
  "m_copym m off0 len how s =
     (if off0 < 0 \<or> len < 0 then Inl (Panic ''m_copym'')
      else if off0 = 0 \<and> m = [] then Inl BadAccess
      else
        let copyhdr = (off0 = 0 \<and> M_PKTHDR \<in> m_flags (hd m))
        in bindE (m_skip ''m_copym'' off0 m) (\<lambda>(m, off).
             m_copym_loop how off0 copyhdr off len [] m s))"

fun m_copydata_loop :: "int \<Rightarrow> int \<Rightarrow> mbuf list \<Rightarrow> mbstate \<Rightarrow> byte list kres" where
  "m_copydata_loop off len [] s = (if 0 < len then Inl (Panic ''m_copydata'') else Inr [])"
| "m_copydata_loop off len (m # ms) s =
     (if \<not> 0 < len then Inr []
      else
        let count = min (m_len m - off) len
        in bindE (bcopy (m_storage s m) (m_data m + off) (replicate (nat count) 0) 0 count) (\<lambda>d.
             bindE (m_copydata_loop 0 (len - count) ms s) (\<lambda>r. Inr (d @ r))))"

text \<open>The bytes that \<open>m_copydata\<close> stores from \<open>cp\<close> on.\<close>

definition m_copydata :: "mbuf list \<Rightarrow> int \<Rightarrow> int \<Rightarrow> mbstate \<Rightarrow> byte list kres" where
  "m_copydata m off len s =
     (if off < 0 \<or> len < 0 then Inl (Panic ''m_copydata'')
      else bindE (m_skip ''m_copydata'' off m) (\<lambda>(m, off). m_copydata_loop off len m s))"

text \<open>\<open>m_cat_loop m n\<close>: \<open>m\<close> is the last mbuf of the first chain.\<close>

fun m_cat_loop :: "mbuf \<Rightarrow> mbuf list \<Rightarrow> mbstate \<Rightarrow> (mbuf list \<times> mbstate) kres" where
  "m_cat_loop m [] s = Inr ([m], s)"
| "m_cat_loop m (n # ns) s =
     (if M_EXT \<in> m_flags m \<or> MLEN \<le> m_data m + m_len m + m_len n
      then Inr (m # n # ns, s)
      else bindE (m_bcopy s n 0 m (m_len m) (m_len n)) (\<lambda>m'.
             m_cat_loop (m'\<lparr>m_len := m_len m + m_len n\<rparr>) ns (m_free n s)))"

definition m_cat :: "mbuf list \<Rightarrow> mbuf list \<Rightarrow> mbstate \<Rightarrow> (mbuf list \<times> mbstate) kres" where
  "m_cat m n s =
     (if m = [] then Inl BadAccess
      else bindE (m_cat_loop (last m) n s) (\<lambda>(c, s'). Inr (butlast m @ c, s')))"

text \<open>\<open>m_adj\<close>: the head loop returns the chain and what is left of \<open>len\<close>.\<close>

fun m_adj_head :: "int \<Rightarrow> mbuf list \<Rightarrow> mbuf list \<times> int" where
  "m_adj_head len [] = ([], len)"
| "m_adj_head len (m # ms) =
     (if 0 < len then
        if m_len m \<le> len
        then let (ms', len') = m_adj_head (len - m_len m) ms in (m\<lparr>m_len := 0\<rparr> # ms', len')
        else (m\<lparr>m_len := m_len m - len, m_data := m_data m + len\<rparr> # ms, 0)
      else (m # ms, len))"

text \<open>The rescan that cuts the chain to \<open>count\<close> bytes and empties the mbufs behind.\<close>

fun m_adj_tail :: "int \<Rightarrow> mbuf list \<Rightarrow> mbuf list" where
  "m_adj_tail count [] = []"
| "m_adj_tail count (m # ms) =
     (if count \<le> m_len m then m\<lparr>m_len := count\<rparr> # map (\<lambda>m. m\<lparr>m_len := 0\<rparr>) ms
      else m # m_adj_tail (count - m_len m) ms)"

definition m_adj :: "mbuf list \<Rightarrow> int \<Rightarrow> mbuf list" where
  "m_adj mp req_len =
     (if mp = [] then []
      else if 0 \<le> req_len then
        let (c, len) = m_adj_head req_len mp; m = hd c
        in (if M_PKTHDR \<in> m_flags m then m\<lparr>pkt_len := pkt_len m - (req_len - len)\<rparr> else m) # tl c
      else
        let len = - req_len; count = (\<Sum>m\<leftarrow>mp. m_len m); m = last mp
        in if len \<le> m_len m then
             let m = m\<lparr>m_len := m_len m - len\<rparr>
             in butlast mp @
                  [if M_PKTHDR \<in> m_flags m then m\<lparr>pkt_len := pkt_len m - len\<rparr> else m]
           else
             let count = (if count - len < 0 then 0 else count - len); h = hd mp;
                 h = (if M_PKTHDR \<in> m_flags h then h\<lparr>pkt_len := count\<rparr> else h)
             in m_adj_tail count (h # tl mp))"

text \<open>
  The do-while loop of \<open>m_pullup\<close>, from the mbuf \<open>n\<close> at the head of the list on. When
  \<open>n\<close> keeps data although bytes are still missing, the space is used up, every later
  \<open>count\<close> is 0, and the loop would not end.
\<close>

fun m_pullup_loop ::
  "mbuf \<Rightarrow> int \<Rightarrow> int \<Rightarrow> mbuf list \<Rightarrow> mbstate \<Rightarrow> (mbuf \<times> int \<times> mbuf list \<times> mbstate) kres"
where
  "m_pullup_loop m len space [] s = Inl BadAccess"
| "m_pullup_loop m len space (n # ns) s =
     (let count = min (min (max (u_int len) (max_protohdr s)) space) (m_len n)
      in bindE (m_bcopy s n 0 m (m_len m) count) (\<lambda>m'.
           let m = m'\<lparr>m_len := m_len m + count\<rparr>; len = len - count; space = space - count;
               n = n\<lparr>m_len := m_len n - count\<rparr>
           in if m_len n \<noteq> 0
              then if 0 < len then Inl Loops
                   else Inr (m, len, n\<lparr>m_data := m_data n + count\<rparr> # ns, s)
              else let s = m_free n s
                   in if 0 < len \<and> ns \<noteq> [] then m_pullup_loop m len space ns s
                      else Inr (m, len, ns, s)))"

text \<open>The label \<open>bad\<close>, and the code from \<open>space = \<close> to the end.\<close>

definition m_pullup_bad :: "mbuf list \<Rightarrow> mbstate \<Rightarrow> mbuf list \<times> mbstate" where
  "m_pullup_bad c s = (let s' = m_freem c s in ([], s'\<lparr>MPFail := MPFail s' + 1\<rparr>))"

definition m_pullup_into ::
  "mbuf \<Rightarrow> int \<Rightarrow> mbuf list \<Rightarrow> mbstate \<Rightarrow> (mbuf list \<times> mbstate) kres"
where
  "m_pullup_into m len n s =
     bindE (m_pullup_loop m len (MLEN - (m_data m + m_len m)) n s) (\<lambda>(m, len, n, s).
       Inr (if 0 < len then m_pullup_bad n (m_free m s) else (m # n, s)))"

definition m_pullup :: "mbuf list \<Rightarrow> int \<Rightarrow> mbstate \<Rightarrow> (mbuf list \<times> mbstate) kres" where
  "m_pullup c len s =
     (case c of
        [] \<Rightarrow> Inl BadAccess
      | n # ns \<Rightarrow>
          if M_EXT \<notin> m_flags n \<and> m_data n + len < MLEN \<and> ns \<noteq> [] then
            if len \<le> m_len n then Inr (n # ns, s)
            else m_pullup_into n (len - m_len n) ns s
          else if MHLEN < len then Inr (m_pullup_bad (n # ns) s)
          else bindE (MGET M_DONTWAIT (m_type n) s) (\<lambda>(m, s).
                 case m of
                   None \<Rightarrow> Inr (m_pullup_bad (n # ns) s)
                 | Some m \<Rightarrow>
                     let m = m\<lparr>m_len := 0\<rparr>
                     in if M_PKTHDR \<in> m_flags n
                        then m_pullup_into (M_COPY_PKTHDR m n) len
                               (n\<lparr>m_flags := m_flags n - {M_PKTHDR}\<rparr> # ns) s
                        else m_pullup_into m len (n # ns) s))"

text \<open>
  \<open>m_split\<close> in two steps: \<open>m_split_at\<close> walks to the mbuf \<open>m\<close> that holds the split
  point; \<open>m_split_tail\<close> is the code from \<open>extpacket\<close> on, which fills \<open>n\<close> with
  the remainder of \<open>m\<close>.
\<close>

fun m_split_at :: "int \<Rightarrow> mbuf list \<Rightarrow> (mbuf list \<times> mbuf \<times> mbuf list \<times> int) option" where
  "m_split_at len [] = None"
| "m_split_at len (m # ms) =
     (if m_len m < len
      then map_option (\<lambda>(p, r). (m # p, r)) (m_split_at (len - m_len m) ms)
      else Some ([], m, ms, len))"

definition m_split_tail ::
  "mbuf \<Rightarrow> mbuf \<Rightarrow> mbuf list \<Rightarrow> int \<Rightarrow> mbstate \<Rightarrow> (mbuf \<times> mbuf list \<times> mbstate) kres"
where
  "m_split_tail n m ms len s =
     (let remain = m_len m - len; m' = m\<lparr>m_len := len\<rparr>
      in if M_EXT \<in> m_flags m
         then Inr (m'\<lparr>ext_size := 0\<rparr>,
                   n\<lparr>m_flags := m_flags n \<union> {M_EXT}, ext_buf := ext_buf m, ext_size := ext_size m,
                     m_data := m_data m + len, m_len := remain\<rparr> # ms,
                   s\<lparr>mclrefcnt := (mclrefcnt s)(ext_buf m := mclrefcnt s (ext_buf m) + 1)\<rparr>)
         else bindE (m_bcopy s m len n 0 remain) (\<lambda>n. Inr (m', n\<lparr>m_len := remain\<rparr> # ms, s)))"

text \<open>
  The branch for a chain without packet header. It is also what the recursive call in the
  other branch does with the mbuf \<open>m\<close>, which is not the first of its chain and has no
  packet header there. An empty tail is the null pointer.
\<close>

definition m_split_plain ::
  "mhow \<Rightarrow> mbuf \<Rightarrow> mbuf list \<Rightarrow> int \<Rightarrow> mbstate \<Rightarrow> (mbuf \<times> mbuf list \<times> mbuf list \<times> mbstate) kres"
where
  "m_split_plain how m ms len s =
     (if m_len m - len = 0 then Inr (m, [], ms, s)
      else bindE (MGET how (m_type m) s) (\<lambda>(n, s).
        case n of
          None \<Rightarrow> Inr (m, ms, [], s)
        | Some n \<Rightarrow> bindE (m_split_tail (M_ALIGN n (m_len m - len)) m ms len s)
                     (\<lambda>(m, t, s). Inr (m, [], t, s))))"

text \<open>The results are the chain \<open>m0\<close> after the call, the tail, and the store.\<close>

definition m_split :: "mbuf list \<Rightarrow> int \<Rightarrow> mhow \<Rightarrow> mbstate \<Rightarrow> (mbuf list \<times> mbuf list \<times> mbstate) kres" where
  "m_split m0 len0 how s =
     (case m_split_at (u_int len0) m0 of
        None \<Rightarrow> Inr (m0, [], s)
      | Some (p, m, ms, len) \<Rightarrow>
          if M_PKTHDR \<in> m_flags (hd m0) then
            bindE (MGETHDR how (m_type (hd m0)) s) (\<lambda>(n, s).
              case n of
                None \<Rightarrow> Inr (m0, [], s)
              | Some n \<Rightarrow>
                  let n = n\<lparr>pkt_rcvif := pkt_rcvif (hd m0), pkt_len := pkt_len (hd m0) - len0\<rparr>;
                      setlen = (\<lambda>c. (hd c)\<lparr>pkt_len := len0\<rparr> # tl c)
                  in if M_EXT \<in> m_flags m then
                       bindE (m_split_tail n m ms len s) (\<lambda>(m, t, s).
                         Inr (setlen (p @ [m]), t, s))
                     else if MHLEN < m_len m - len then
                       if p = [] then Inl Loops
                       else bindE (m_split_plain how m ms len s) (\<lambda>(m, ms, t, s).
                         Inr (if t = [] then (setlen (p @ m # ms), [], m_free n s)
                              else (setlen (p @ [m]), MH_ALIGN n 0 # t, s)))
                     else
                       bindE (m_split_tail (MH_ALIGN n (m_len m - len)) m ms len s) (\<lambda>(m, t, s).
                         Inr (setlen (p @ [m]), t, s)))
          else
            bindE (m_split_plain how m ms len s) (\<lambda>(m, ms, t, s). Inr (p @ m # ms, t, s)))"

section \<open>Well-formed mbufs and stores\<close>

definition mbuf_ok :: "mbstate \<Rightarrow> mbuf \<Rightarrow> bool" where
  "mbuf_ok s m \<longleftrightarrow> 0 \<le> m_len m \<and> 0 \<le> m_data m
     \<and> m_data m + m_len m \<le> int (length (m_storage s m)) \<and> int (length (m_dat m)) = MLEN
     \<and> (M_PKTHDR \<in> m_flags m \<and> M_EXT \<notin> m_flags m \<longrightarrow> MLEN - MHLEN \<le> m_data m)"

definition mb_ok :: "mbstate \<Rightarrow> bool" where
  "mb_ok s \<longleftrightarrow> (\<forall>m \<in> set (mb_free s) \<union> set (mb_drain s). int (length (m_dat m)) = MLEN)"

abbreviation chain_ok :: "mbstate \<Rightarrow> mbuf list \<Rightarrow> bool" where
  "chain_ok s c \<equiv> \<forall>m \<in> set c. mbuf_ok s m"

text \<open>
  Resources: the mbufs the store still holds, and for each cluster the references that no
  mbuf of the given chain accounts for. An operation that leaks nothing keeps the sum of
  the former and the live mbufs, and the latter.
\<close>

definition mb_avail :: "mbstate \<Rightarrow> int" where
  "mb_avail s = int (length (mb_free s) + length (mb_drain s))"

definition clrefs :: "mbuf list \<Rightarrow> nat \<Rightarrow> int" where
  "clrefs c k = int (length (filter (\<lambda>m. M_EXT \<in> m_flags m \<and> ext_buf m = k) c))"

definition unaccounted :: "mbstate \<Rightarrow> mbuf list \<Rightarrow> nat \<Rightarrow> int" where
  "unaccounted s c = (\<lambda>k. mclrefcnt s k - clrefs c k)"

lemma m_bytes_length: "mbuf_ok s m \<Longrightarrow> int (length (m_bytes s m)) = m_len m"
  by (simp add: mbuf_ok_def m_bytes_def window_length)

interpretation mb: chain_view m_len "m_bytes s" "mbuf_ok s" for s
  by unfold_locales (rule m_bytes_length)

lemma flat_chain_bytes: "mb.flat s c = chain_bytes s c"
  by (simp add: mb.flat_def chain_bytes_def)

lemma chain_bytes_simps [simp]: "chain_bytes s [] = []"
  "chain_bytes s (m # c) = m_bytes s m @ chain_bytes s c"
  "chain_bytes s (c @ c') = chain_bytes s c @ chain_bytes s c'"
  by (simp_all add: chain_bytes_def)

lemma clrefs_simps [simp]: "clrefs [] k = 0"
  "clrefs (m # c) k = (if M_EXT \<in> m_flags m \<and> ext_buf m = k then 1 else 0) + clrefs c k"
  "clrefs (c @ c') k = clrefs c k + clrefs c' k"
  by (simp_all add: clrefs_def)

lemma mb_update_simps [simp]:
  "mb_ok (s\<lparr>MCFail := x\<rparr>) = mb_ok s" "mb_ok (s\<lparr>MPFail := x\<rparr>) = mb_ok s"
  "mb_ok (s\<lparr>mclrefcnt := f\<rparr>) = mb_ok s" "mb_avail (s\<lparr>MCFail := x\<rparr>) = mb_avail s"
  "mb_avail (s\<lparr>MPFail := x\<rparr>) = mb_avail s" "mb_avail (s\<lparr>mclrefcnt := f\<rparr>) = mb_avail s"
  "unaccounted (s\<lparr>MCFail := x\<rparr>) c = unaccounted s c"
  "unaccounted (s\<lparr>MPFail := x\<rparr>) c = unaccounted s c"
  by (simp_all add: mb_ok_def mb_avail_def unaccounted_def)

text \<open>The data seen through an mbuf depend on the store only through the clusters.\<close>

lemma m_storage_cong: "mb_clust s' = mb_clust s \<Longrightarrow> m_storage s' = m_storage s"
  by (rule ext) (simp add: m_storage_def)

lemma clust_cong:
  assumes "mb_clust s' = mb_clust s"
  shows "m_bytes s' m = m_bytes s m" "mbuf_ok s' m \<longleftrightarrow> mbuf_ok s m" "chain_bytes s' c = chain_bytes s c"
proof -
  have "m_bytes s' = m_bytes s"
    by (rule ext) (simp add: m_bytes_def m_storage_cong [OF assms])
  then show "m_bytes s' m = m_bytes s m" "chain_bytes s' c = chain_bytes s c"
    by (simp_all add: chain_bytes_def)
  show "mbuf_ok s' m \<longleftrightarrow> mbuf_ok s m"
    by (simp add: mbuf_ok_def m_storage_cong [OF assms])
qed

text \<open>Allocation and release.\<close>

lemma m_alloc_cases:
  assumes "mb_ok s" "m_alloc how s = Inr (r, s')"
  shows "mb_ok s' \<and> mb_clust s' = mb_clust s \<and> mclrefcnt s' = mclrefcnt s \<and> mclfree s' = mclfree s
    \<and> MCFail s' = MCFail s \<and> MPFail s' = MPFail s \<and> max_protohdr s' = max_protohdr s
    \<and> (case r of None \<Rightarrow> s' = s \<and> mb_avail s = 0
        | Some m \<Rightarrow> int (length (m_dat m)) = MLEN \<and> mb_avail s = mb_avail s' + 1)"
  using assms by (auto simp: m_alloc_def mb_ok_def mb_avail_def split: list.splits if_splits)

lemma MGET_cases:
  assumes "mb_ok s" "MGET how t s = Inr (r, s')"
  shows "mb_ok s' \<and> mb_clust s' = mb_clust s \<and> mclrefcnt s' = mclrefcnt s \<and> mclfree s' = mclfree s
    \<and> MCFail s' = MCFail s \<and> MPFail s' = MPFail s \<and> max_protohdr s' = max_protohdr s
    \<and> (case r of None \<Rightarrow> s' = s \<and> mb_avail s = 0
        | Some m \<Rightarrow> int (length (m_dat m)) = MLEN \<and> m_data m = 0 \<and> m_flags m = {} \<and> m_type m = t
            \<and> mb_avail s = mb_avail s' + 1)"
  using assms(2) m_alloc_cases [OF assms(1), of how]
  by (auto simp: MGET_def split: option.splits)

lemma MGETHDR_cases:
  assumes "mb_ok s" "MGETHDR how t s = Inr (r, s')"
  shows "mb_ok s' \<and> mb_clust s' = mb_clust s \<and> mclrefcnt s' = mclrefcnt s \<and> mclfree s' = mclfree s
    \<and> MCFail s' = MCFail s \<and> MPFail s' = MPFail s \<and> max_protohdr s' = max_protohdr s
    \<and> (case r of None \<Rightarrow> s' = s \<and> mb_avail s = 0
        | Some m \<Rightarrow> int (length (m_dat m)) = MLEN \<and> m_data m = MLEN - MHLEN \<and> m_flags m = {M_PKTHDR}
            \<and> m_type m = t \<and> mb_avail s = mb_avail s' + 1)"
  using assms(2) m_alloc_cases [OF assms(1), of how]
  by (auto simp: MGETHDR_def split: option.splits)

lemma MGET_DONTWAIT: "\<exists>r s'. MGET M_DONTWAIT t s = Inr (r, s')"
  by (auto simp: MGET_def m_alloc_def split: list.splits)

lemma m_free_fields [simp]:
  "mb_clust (m_free m s) = mb_clust s" "mb_drain (m_free m s) = mb_drain s"
  "mb_free (m_free m s) = m # mb_free s" "MCFail (m_free m s) = MCFail s"
  "MPFail (m_free m s) = MPFail s" "max_protohdr (m_free m s) = max_protohdr s"
  by (simp_all add: m_free_def MCLFREE_def Let_def)

lemma m_free_refcnt:
  "mclrefcnt (m_free m s) k = mclrefcnt s k - clrefs [m] k"
  by (simp add: m_free_def MCLFREE_def Let_def)

lemma m_free_facts:
  assumes "mb_ok s" "int (length (m_dat m)) = MLEN"
  shows "mb_ok (m_free m s)" "mb_avail (m_free m s) = mb_avail s + 1"
    "unaccounted (m_free m s) c = unaccounted s (m # c)"
  using assms m_free_refcnt [of m s] by (auto simp: mb_ok_def mb_avail_def unaccounted_def fun_eq_iff)

lemma m_freem_facts:
  assumes "mb_ok s" "\<forall>m \<in> set c. int (length (m_dat m)) = MLEN"
  shows "mb_ok (m_freem c s) \<and> mb_avail (m_freem c s) = mb_avail s + int (length c)
    \<and> unaccounted (m_freem c s) d = unaccounted s (c @ d) \<and> mb_clust (m_freem c s) = mb_clust s
    \<and> MCFail (m_freem c s) = MCFail s \<and> MPFail (m_freem c s) = MPFail s"
  using assms
proof (induction c arbitrary: s)
  case (Cons m c)
  then have ok: "mb_ok (m_free m s)" using m_free_facts by simp
  show ?case
    using Cons.IH [OF ok] Cons.prems m_free_facts(2) [of s m] m_free_facts(3) [of s m "c @ d"]
    by simp
qed simp

lemma mbuf_ok_dat: "mbuf_ok s m \<Longrightarrow> int (length (m_dat m)) = MLEN"
  by (simp add: mbuf_ok_def)

section \<open>Reading a chain\<close>

lemma m_skip_spec:
  assumes "chain_ok s c" "0 \<le> off"
  shows "(off \<le> int (length (chain_bytes s c)) \<longrightarrow>
      (\<exists>c' off'. m_skip msg off c = Inr (c', off') \<and> set c' \<subseteq> set c \<and> 0 \<le> off'
         \<and> (off' = 0 \<or> (c' \<noteq> [] \<and> off' < m_len (hd c')))
         \<and> drop (nat off) (chain_bytes s c) = drop (nat off') (chain_bytes s c')
         \<and> (off = 0 \<longrightarrow> c' = c \<and> off' = 0)))
    \<and> (int (length (chain_bytes s c)) < off \<longrightarrow> m_skip msg off c = Inl (Panic msg))"
  using assms
proof (induction c arbitrary: off)
  case (Cons m c)
  have m: "int (length (m_bytes s m)) = m_len m" "0 \<le> m_len m"
    using Cons.prems m_bytes_length by (auto simp: mbuf_ok_def)
  consider "off = 0" | "0 < off" "off < m_len m" | "0 < off" "m_len m \<le> off"
    using Cons.prems by linarith
  then show ?case
  proof cases
    case 3
    have "nat (off - m_len m) = nat off - length (m_bytes s m)" "length (m_bytes s m) \<le> nat off"
      using m 3 by linarith+
    moreover have "0 \<le> off - m_len m" "chain_ok s c" using 3 Cons.prems by auto
    moreover have "(int (length (chain_bytes s (m # c))) < off)
        = (int (length (chain_bytes s c)) < off - m_len m)"
      using m by auto
    ultimately show ?thesis using Cons.IH [of "off - m_len m"] 3 by fastforce
  qed (use m in auto)
qed auto

lemma m_bytes_window:
  assumes "mbuf_ok s m" "0 \<le> off" "0 \<le> n" "off + n \<le> m_len m"
  shows "window (m_storage s m) (m_data m + off) n = take (nat n) (drop (nat off) (m_bytes s m))"
proof -
  have "window (m_storage s m) (m_data m + off) (m_len m - off) = drop (nat off) (m_bytes s m)"
    using assms unfolding m_bytes_def by (intro window_drop) (auto simp: mbuf_ok_def)
  then show ?thesis
    using assms window_take [of n "m_len m - off" "m_storage s m" "m_data m + off"] by simp
qed

lemma m_bytes_in_storage:
  assumes "mbuf_ok s m" "0 \<le> off" "0 \<le> n" "off + n \<le> m_len m"
  shows "0 \<le> m_data m + off" "m_data m + off + n \<le> int (length (m_storage s m))"
  using assms by (auto simp: mbuf_ok_def)

text \<open>Taking from the first mbuf and going on with the rest of the chain.\<close>

lemma chain_take_first:
  assumes "mbuf_ok s m" "0 \<le> off" "off \<le> m_len m" "m_len m - off \<le> n"
  shows "take (nat n) (drop (nat off) (chain_bytes s (m # c)))
    = drop (nat off) (m_bytes s m) @ take (nat (n - (m_len m - off))) (chain_bytes s c)"
proof -
  have "int (length (m_bytes s m)) = m_len m" by (rule m_bytes_length [OF assms(1)])
  then have "nat off - length (m_bytes s m) = 0"
    "nat n - (length (m_bytes s m) - nat off) = nat (n - (m_len m - off))"
    "length (m_bytes s m) - nat off \<le> nat n"
    using assms by linarith+
  then show ?thesis by (simp add: take_append)
qed

lemma m_copydata_loop_spec:
  assumes "chain_ok s c" "0 \<le> off" "0 \<le> len" "off = 0 \<or> (c \<noteq> [] \<and> off < m_len (hd c))"
  shows "m_copydata_loop off len c s =
    (if off + len \<le> int (length (chain_bytes s c))
     then Inr (take (nat len) (drop (nat off) (chain_bytes s c))) else Inl (Panic ''m_copydata''))"
  using assms
proof (induction c arbitrary: off len)
  case (Cons m c)
  have m: "mbuf_ok s m" "int (length (m_bytes s m)) = m_len m" "0 \<le> m_len m"
    using Cons.prems m_bytes_length by (auto simp: mbuf_ok_def)
  have off: "off \<le> m_len m" using Cons.prems(4) m by auto
  define count where "count = min (m_len m - off) len"
  have count: "0 \<le> count" "off + count \<le> m_len m" "count \<le> len"
    using off Cons.prems by (auto simp: count_def)
  have "bcopy (m_storage s m) (m_data m + off) (replicate (nat count) 0) 0 count
      = Inr (window (m_storage s m) (m_data m + off) count)"
    using m_bytes_in_storage [OF m(1) Cons.prems(2) count(1,2)] count
    by (simp add: bcopy_def window_def)
  then have d: "bcopy (m_storage s m) (m_data m + off) (replicate (nat count) 0) 0 count
      = Inr (take (nat count) (drop (nat off) (m_bytes s m)))"
    using m_bytes_window [OF m(1) Cons.prems(2) count(1,2)] by simp
  have IH: "m_copydata_loop 0 (len - count) c s =
    (if len - count \<le> int (length (chain_bytes s c))
     then Inr (take (nat (len - count)) (chain_bytes s c)) else Inl (Panic ''m_copydata''))"
    using Cons.IH [of 0 "len - count"] Cons.prems count by simp
  show ?case
  proof (cases "0 < len")
    case True
    have eq: "m_copydata_loop off len (m # c) s =
      bindE (m_copydata_loop 0 (len - count) c s)
        (\<lambda>r. Inr (take (nat count) (drop (nat off) (m_bytes s m)) @ r))"
      using True d by (simp add: Let_def count_def)
    show ?thesis
    proof (cases "m_len m - off \<le> len")
      case whole: True
      then have "count = m_len m - off" by (simp add: count_def)
      then show ?thesis
        unfolding eq IH using chain_take_first [OF m(1) Cons.prems(2) off whole, of c] m off
        by auto
    next
      case False
      then have c: "count = len" by (simp add: count_def)
      then have "nat off + nat len \<le> length (m_bytes s m)"
        using m(2) count(2) Cons.prems(2,3) by linarith
      then show ?thesis unfolding eq IH using c count(2) m(2) by auto
    qed
  next
    case False
    then show ?thesis using Cons.prems(3) off m(2) by auto
  qed
qed auto

lemma m_copydata_spec:
  assumes "chain_ok s c" "0 \<le> off" "0 \<le> len"
  shows "m_copydata c off len s =
    (if off + len \<le> int (length (chain_bytes s c))
     then Inr (take (nat len) (drop (nat off) (chain_bytes s c))) else Inl (Panic ''m_copydata''))"
proof (cases "off \<le> int (length (chain_bytes s c))")
  case True
  then obtain c' off' where r: "m_skip ''m_copydata'' off c = Inr (c', off')" "set c' \<subseteq> set c" "0 \<le> off'"
    "off' = 0 \<or> (c' \<noteq> [] \<and> off' < m_len (hd c'))"
    and d: "drop (nat off) (chain_bytes s c) = drop (nat off') (chain_bytes s c')"
    using m_skip_spec [OF assms(1,2)] by blast
  have ok: "chain_ok s c'" using assms(1) r(2) by auto
  have "off' \<le> int (length (chain_bytes s c'))"
    using r(3,4) ok m_bytes_length [of s "hd c'"] by (cases c') auto
  moreover have "length (chain_bytes s c) - nat off = length (chain_bytes s c') - nat off'"
    using arg_cong [OF d, of length] by simp
  ultimately have "(off + len \<le> int (length (chain_bytes s c)))
      = (off' + len \<le> int (length (chain_bytes s c')))"
    using True assms(2) r(3) by linarith
  then show ?thesis
    using r d m_copydata_loop_spec [OF ok r(3) assms(3) r(4)] assms by (simp add: m_copydata_def)
next
  case False
  then show ?thesis
    using m_skip_spec [OF assms(1,2), of "''m_copydata''"] assms by (simp add: m_copydata_def)
qed

text \<open>\<open>m_copydata\<close> returns exactly the bytes \<open>off\<close> to \<open>off + len\<close> of the chain,
  however they are spread over mbufs and clusters, and panics exactly when the chain is too
  short.\<close>

theorem m_copydata_correct:
  assumes "chain_ok s c" "0 \<le> off" "0 \<le> len"
  shows "m_copydata c off len s =
    (if off + len \<le> int (length (chain_bytes s c))
     then Inr (take (nat len) (drop (nat off) (chain_bytes s c))) else Inl (Panic ''m_copydata''))"
  by (rule m_copydata_spec [OF assms])

section \<open>Copying a chain\<close>

lemma not_ext_copyflags [simp]: "M_EXT \<notin> M_COPYFLAGS"
  by (simp add: M_COPYFLAGS_def)

text \<open>One copied mbuf: its header is \<open>n\<close>, with or without the packet header of \<open>m\<close>.\<close>

lemma m_copym_ext:
  assumes "mbuf_ok s m" "M_EXT \<in> m_flags m" "0 \<le> off" "0 \<le> k" "off + k \<le> m_len m"
    and n: "int (length (m_dat n)) = MLEN" "m_len n = k"
  defines "n' \<equiv> n\<lparr>m_data := m_data m + off, ext_buf := ext_buf m, ext_size := ext_size m,
      m_flags := m_flags n \<union> {M_EXT}\<rparr>"
  shows "mbuf_ok s n' \<and> m_bytes s n' = take (nat k) (drop (nat off) (m_bytes s m))
    \<and> clrefs [n'] j = clrefs [m] j"
  using assms m_bytes_window [OF assms(1,3,4,5)]
  by (auto simp: mbuf_ok_def m_bytes_def m_storage_def)

lemma m_copym_dat:
  assumes "mbuf_ok s m" "0 \<le> off" "0 \<le> k" "off + k \<le> m_len m" "M_EXT \<notin> m_flags m"
    and n: "int (length (m_dat n)) = MLEN" "m_len n = k" "M_EXT \<notin> m_flags n"
      "0 \<le> m_data n" "m_data n + k \<le> MLEN"
      "M_PKTHDR \<in> m_flags n \<longrightarrow> MLEN - MHLEN \<le> m_data n"
  shows "\<exists>n'. m_bcopy s m off n 0 k = Inr n' \<and> mbuf_ok s n'
    \<and> m_bytes s n' = take (nat k) (drop (nat off) (m_bytes s m)) \<and> M_EXT \<notin> m_flags n'"
proof -
  obtain d where d: "bcopy (m_storage s m) (m_data m + off) (m_dat n) (m_data n) k = Inr d"
    using m_bytes_in_storage [OF assms(1-4)] assms(3) n by (auto simp: bcopy_def)
  have "window d (m_data n) k = take (nat k) (drop (nat off) (m_bytes s m))"
    using bcopy_window [OF d] m_bytes_window [OF assms(1-4)] by simp
  then show ?thesis
    using d bcopy_length [OF d] n assms(3)
    by (auto simp: m_bcopy_def mbuf_ok_def m_bytes_def m_storage_def)
qed

definition copy_hdr :: "bool \<Rightarrow> int \<Rightarrow> int \<Rightarrow> mbuf \<Rightarrow> mbuf \<Rightarrow> mbuf" where
  "copy_hdr copyhdr len off0 m n =
     (if copyhdr
      then (M_COPY_PKTHDR n m)\<lparr>pkt_len := (if len = M_COPYALL then pkt_len m - off0 else len)\<rparr>
      else n)"

lemma copy_hdr_simps [simp]:
  "m_dat (copy_hdr h len off0 m n) = m_dat n"
  "M_EXT \<in> m_flags (copy_hdr h len off0 m n) \<longleftrightarrow> \<not> h \<and> M_EXT \<in> m_flags n"
  "m_data (copy_hdr h len off0 m n) = (if h then MLEN - MHLEN else m_data n)"
  "h \<or> m_flags n = {} \<Longrightarrow>
     M_PKTHDR \<in> m_flags (copy_hdr h len off0 m n) \<longleftrightarrow> h \<and> M_PKTHDR \<in> m_flags m"
  by (auto simp: copy_hdr_def M_COPY_PKTHDR_def M_COPYFLAGS_def)

definition copym_result ::
  "mbuf list \<Rightarrow> mbstate \<Rightarrow> byte list \<Rightarrow> mbuf list \<Rightarrow> mbstate \<Rightarrow> bool"
where
  "copym_result acc s B c' s' \<longleftrightarrow> mb_ok s' \<and> mb_clust s' = mb_clust s \<and>
     ((\<exists>new. c' = acc @ new \<and> chain_ok s new \<and> chain_bytes s new = B
         \<and> unaccounted s' c' = unaccounted s acc
         \<and> mb_avail s' + int (length new) = mb_avail s
         \<and> MCFail s' = MCFail s + (if c' = [] then 1 else 0))
      \<or> (c' = [] \<and> MCFail s' = MCFail s + 1 \<and> unaccounted s' [] = unaccounted s acc
         \<and> mb_avail s' = mb_avail s + int (length acc)))"

lemma copym_result_step:
  assumes "copym_result (acc @ [n]) s2 B' c' s'"
    and "mb_clust s2 = mb_clust s" "MCFail s2 = MCFail s" "mb_avail s = mb_avail s2 + 1"
    and "unaccounted s2 (acc @ [n]) = unaccounted s acc"
    and "mbuf_ok s n" "B = m_bytes s n @ B'"
  shows "copym_result acc s B c' s'"
proof -
  note cong = clust_cong [OF assms(2)]
  show ?thesis
    using assms unfolding copym_result_def cong
    by (elim conjE disjE exE) (force intro!: exI [of _ "n # _"])+
qed

lemma m_copym_bytes:
  assumes "mbuf_ok s m" "0 \<le> off" "off \<le> m_len m" "len \<le> M_COPYALL"
    and "int (length (chain_bytes s (m # c))) < M_COPYALL"
  defines "k \<equiv> min len (m_len m - off)"
  shows "take (nat len) (drop (nat off) (chain_bytes s (m # c)))
    = take (nat k) (drop (nat off) (m_bytes s m))
      @ take (nat (if len \<noteq> M_COPYALL then len - k else len)) (chain_bytes s c)"
proof -
  have m: "int (length (m_bytes s m)) = m_len m" by (rule m_bytes_length [OF assms(1)])
  show ?thesis
  proof (cases "m_len m - off \<le> len")
    case True
    then have k: "k = m_len m - off" by (simp add: k_def)
    have "drop (nat off) (m_bytes s m) = take (nat k) (drop (nat off) (m_bytes s m))"
      using m k assms(2,3) by (intro take_all [symmetric]) simp
    moreover have "take (nat (len - k)) (chain_bytes s c) = take (nat len) (chain_bytes s c)"
      if "len = M_COPYALL"
      using assms(2,3,5) that m k by (simp add: take_all)
    ultimately show ?thesis
      using chain_take_first [OF assms(1-3) True, of c] k by auto
  next
    case False
    then have k: "k = len" "len \<noteq> M_COPYALL" using assms(2,3,5) m by (auto simp: k_def)
    have "nat len \<le> length (m_bytes s m) - nat off" using False m assms(2,3) by linarith
    then show ?thesis using k by simp
  qed
qed

lemma m_copym_loop_spec:
  assumes "chain_ok s c" "mb_ok s" "chain_ok s acc" "0 \<le> off" "0 \<le> len" "len \<le> M_COPYALL"
    and "int (length (chain_bytes s c)) < M_COPYALL"
    and "off = 0 \<or> (c \<noteq> [] \<and> off < m_len (hd c))"
    and "copyhdr \<longrightarrow> off = 0 \<and> c \<noteq> [] \<and> M_PKTHDR \<in> m_flags (hd c)"
    and "len \<noteq> M_COPYALL \<longrightarrow> off + len \<le> int (length (chain_bytes s c))"
  shows "(how = M_WAIT \<and> m_copym_loop how off0 copyhdr off len acc c s = Inl Sleeps) \<or>
    (\<exists>c' s'. m_copym_loop how off0 copyhdr off len acc c s = Inr (c', s')
      \<and> copym_result acc s (take (nat len) (drop (nat off) (chain_bytes s c))) c' s')"
  using assms
proof (induction c arbitrary: off len acc s copyhdr)
  case Nil
  then have "len = 0 \<or> len = M_COPYALL" "off = 0" by auto
  then show ?case
    using Nil.prems
    by (auto simp: copym_result_def mb_ok_def unaccounted_def mb_avail_def mbuf_sizes)
next
  case (Cons m c)
  have m: "mbuf_ok s m" "int (length (m_bytes s m)) = m_len m" "0 \<le> m_len m"
    using Cons.prems(1) m_bytes_length by (auto simp: mbuf_ok_def)
  have off: "off \<le> m_len m" using Cons.prems(8) m by auto
  show ?case
  proof (cases "0 < len")
    case False
    then show ?thesis
      using Cons.prems by (auto simp: copym_result_def mb_ok_def unaccounted_def mb_avail_def)
  next
    case len: True
    define k where "k = min len (m_len m - off)"
    define len' where "len' = (if len \<noteq> M_COPYALL then len - k else len)"
    have k: "0 \<le> k" "off + k \<le> m_len m" "k \<le> len" using off Cons.prems(5) by (auto simp: k_def)
    show ?thesis
    proof (cases "MGET how (m_type m) s")
      case (Inl e)
      then have "how = M_WAIT" "e = Sleeps"
        by (auto simp: MGET_def m_alloc_def split: list.splits if_splits)
      then show ?thesis using Inl len by simp
    next
      case (Inr r)
      obtain n s1 where get: "MGET how (m_type m) s = Inr (n, s1)" using Inr by (cases r) auto
      note G = MGET_cases [OF Cons.prems(2) get]
      show ?thesis
      proof (cases n)
        case None
        have fr: "\<forall>m \<in> set acc. int (length (m_dat m)) = MLEN"
          using Cons.prems(3) mbuf_ok_dat by blast
        show ?thesis
          using None get G len m_freem_facts [OF Cons.prems(2) fr, of "[]"]
          by (auto simp: copym_result_def Let_def)
      next
        case (Some n0)
        define n1 where "n1 = (copy_hdr copyhdr len off0 m n0)\<lparr>m_len := k\<rparr>"
        have G': "mb_ok s1" "mb_clust s1 = mb_clust s" "mclrefcnt s1 = mclrefcnt s"
          "MCFail s1 = MCFail s" "mb_avail s = mb_avail s1 + 1"
          "int (length (m_dat n0)) = MLEN" "m_data n0 = 0" "m_flags n0 = {}"
          using G Some by auto
        note cong = clust_cong [OF G'(2)]
        have n1: "int (length (m_dat n1)) = MLEN" "m_len n1 = k" "M_EXT \<notin> m_flags n1"
          using G' by (simp_all add: n1_def)
        have B: "take (nat len) (drop (nat off) (chain_bytes s (m # c)))
          = take (nat k) (drop (nat off) (m_bytes s m)) @ take (nat len') (chain_bytes s c)"
          using m_copym_bytes [OF m(1) Cons.prems(4) off Cons.prems(6,7)] by (simp add: k_def len'_def)
        have IH: "(how = M_WAIT \<and> m_copym_loop how off0 False 0 len' (acc @ [n]) c s2 = Inl Sleeps) \<or>
          (\<exists>c' s'. m_copym_loop how off0 False 0 len' (acc @ [n]) c s2 = Inr (c', s')
            \<and> copym_result (acc @ [n]) s2 (take (nat len') (chain_bytes s c)) c' s')"
          if "mb_ok s2" "mb_clust s2 = mb_clust s" "mbuf_ok s n" for n s2
        proof -
          note cong2 = clust_cong [OF that(2)]
          have "chain_ok s2 c" "chain_ok s2 (acc @ [n])" "0 \<le> len'" "len' \<le> M_COPYALL"
            "int (length (chain_bytes s2 c)) < M_COPYALL"
            "len' \<noteq> M_COPYALL \<longrightarrow> 0 + len' \<le> int (length (chain_bytes s2 c))"
            using that Cons.prems k m off unfolding cong2 by (auto simp: len'_def k_def)
          from Cons.IH [OF this(1) that(1) this(2) _ this(3-5) _ _ this(6), of False] show ?thesis
            by (simp add: cong2)
        qed
        show ?thesis
        proof (cases "M_EXT \<in> m_flags m")
          case True
          define n2 where "n2 = n1\<lparr>m_data := m_data m + off, ext_buf := ext_buf m,
            ext_size := ext_size m, m_flags := m_flags n1 \<union> {M_EXT}\<rparr>"
          define s2 where "s2 = s1\<lparr>mclrefcnt := (mclrefcnt s1)(ext_buf m := mclrefcnt s1 (ext_buf m) + 1)\<rparr>"
          have piece: "mbuf_ok s n2 \<and> m_bytes s n2 = take (nat k) (drop (nat off) (m_bytes s m))
            \<and> clrefs [n2] j = clrefs [m] j" for j
            unfolding n2_def using m_copym_ext [OF m(1) True Cons.prems(4) k(1,2) n1(1,2)] by simp
          have s2: "mb_ok s2" "mb_clust s2 = mb_clust s" "MCFail s2 = MCFail s"
            "mb_avail s = mb_avail s2 + 1"
            using G' by (simp_all add: s2_def mb_ok_def mb_avail_def)
          have acct: "unaccounted s2 (acc @ [n2]) = unaccounted s acc"
            using piece True G' by (auto simp: unaccounted_def s2_def fun_eq_iff split: if_splits)
          have eq: "m_copym_loop how off0 copyhdr off len acc (m # c) s
              = m_copym_loop how off0 False 0 len' (acc @ [n2]) c s2"
            using True len get Some
            unfolding m_copym_loop.simps n2_def n1_def s2_def len'_def k_def copy_hdr_def
            by (simp add: Let_def)
          have "copym_result acc s (take (nat len) (drop (nat off) (chain_bytes s (m # c)))) c' s'"
            if "copym_result (acc @ [n2]) s2 (take (nat len') (chain_bytes s c)) c' s'" for c' s'
            using copym_result_step [OF that s2(2,3,4) acct] piece B by simp
          then show ?thesis unfolding eq using IH [OF s2(1,2)] piece by blast
        next
          case False
          have fit: "0 \<le> m_data n1" "m_data n1 + k \<le> MLEN"
            "M_PKTHDR \<in> m_flags n1 \<longrightarrow> MLEN - MHLEN \<le> m_data n1"
            using G' k m(1) False Cons.prems(9) off Cons.prems(4)
            by (auto simp: n1_def mbuf_ok_def m_storage_def mbuf_sizes)
          obtain n2 where n2: "m_bcopy s1 m off n1 0 k = Inr n2" "mbuf_ok s n2"
            "m_bytes s n2 = take (nat k) (drop (nat off) (m_bytes s m))" "M_EXT \<notin> m_flags n2"
            using m_copym_dat [of s1 m off k n1] m(1) Cons.prems(4) k(1,2) False n1 fit
            unfolding cong by blast
          have acct: "unaccounted s1 (acc @ [n2]) = unaccounted s acc"
            using n2(4) G'(3) by (simp add: unaccounted_def fun_eq_iff)
          have eq: "m_copym_loop how off0 copyhdr off len acc (m # c) s
              = m_copym_loop how off0 False 0 len' (acc @ [n2]) c s1"
            using False len get Some n2(1)
            unfolding m_copym_loop.simps n1_def len'_def k_def copy_hdr_def
            by (simp add: Let_def)
          have "copym_result acc s (take (nat len) (drop (nat off) (chain_bytes s (m # c)))) c' s'"
            if "copym_result (acc @ [n2]) s1 (take (nat len') (chain_bytes s c)) c' s'" for c' s'
            using copym_result_step [OF that G'(2,4,5) acct n2(2)] n2(3) B by simp
          then show ?thesis unfolding eq using IH [OF G'(1,2) n2(2)] by blast
        qed
      qed
    qed
  qed
qed

lemma m_skip_suffix:
  "m_skip msg off c = Inr (c', off') \<Longrightarrow>
    length (chain_bytes s c') \<le> length (chain_bytes s c) \<and> length c' \<le> length c"
  by (induction msg off c rule: m_skip.induct) (auto split: if_splits)

end
