(* ===== verification/Mbuf_Laws.thy ===== *)
theory Mbuf_Laws
  imports Mbuf
begin

text \<open>
  What the chain operations of \<open>sys/kern/uipc_mbuf.c\<close> do to the bytes of a chain, to the
  packet header's length, and to the store: cluster contents are never changed, every
  cluster reference is counted, and no mbuf is lost.
\<close>

section \<open>\<open>m_copym\<close>\<close>

lemma m_copym_spec:
  assumes "chain_ok s c" "mb_ok s" "c \<noteq> []" "0 \<le> off" "0 \<le> len" "len \<le> M_COPYALL"
    and "int (length (chain_bytes s c)) < M_COPYALL"
    and "off \<le> int (length (chain_bytes s c))"
    and "len \<noteq> M_COPYALL \<longrightarrow> off + len \<le> int (length (chain_bytes s c))"
  shows "(how = M_WAIT \<and> m_copym c off len how s = Inl Sleeps) \<or>
    (\<exists>c' s'. m_copym c off len how s = Inr (c', s')
      \<and> copym_result [] s (take (nat len) (drop (nat off) (chain_bytes s c))) c' s')"
proof -
  obtain c1 off1 where r: "m_skip ''m_copym'' off c = Inr (c1, off1)" "set c1 \<subseteq> set c" "0 \<le> off1"
    "off1 = 0 \<or> (c1 \<noteq> [] \<and> off1 < m_len (hd c1))" "off = 0 \<longrightarrow> c1 = c \<and> off1 = 0"
    and d: "drop (nat off) (chain_bytes s c) = drop (nat off1) (chain_bytes s c1)"
    using m_skip_spec [OF assms(1,4), of "''m_copym''"] assms(8) by blast
  have ok: "chain_ok s c1" using assms(1) r(2) by auto
  have off1: "off1 \<le> int (length (chain_bytes s c1))"
    using r(3,4) ok m_bytes_length [of s "hd c1"] by (cases c1) auto
  have len: "length (chain_bytes s c) - nat off = length (chain_bytes s c1) - nat off1"
    using arg_cong [OF d, of length] by simp
  have fits: "len \<noteq> M_COPYALL \<longrightarrow> off1 + len \<le> int (length (chain_bytes s c1))"
    using len assms(4,8,9) off1 r(3) by linarith
  have all: "int (length (chain_bytes s c1)) < M_COPYALL"
  proof -
    have "int (length (chain_bytes s c1)) \<le> int (length (chain_bytes s c))"
      using m_skip_suffix [OF r(1)] by auto
    then show ?thesis using assms(7) by simp
  qed
  let ?h = "off = 0 \<and> M_PKTHDR \<in> m_flags (hd c)"
  have h: "?h \<longrightarrow> off1 = 0 \<and> c1 \<noteq> [] \<and> M_PKTHDR \<in> m_flags (hd c1)"
    using r(5) assms(3) by auto
  have "m_copym c off len how s = m_copym_loop how off ?h off1 len [] c1 s"
    using assms(3,4,5) r(1) by (simp add: m_copym_def)
  moreover have "chain_ok s []" by simp
  ultimately show ?thesis
    unfolding d
    using m_copym_loop_spec [OF ok assms(2) _ r(3) assms(5,6) all r(4) h fits, of "[]"] by simp
qed

text \<open>C14. \<open>m_copym\<close> on a well-formed chain never faults. Either it returns a well-formed
  chain with exactly the bytes \<open>off\<close> to \<open>off + len\<close> (to the end for \<open>M_COPYALL\<close>), or
  the null pointer after giving back every mbuf and cluster reference it had taken; in both
  cases the cluster contents are untouched and reference counts and free mbufs balance.\<close>

theorem m_copym_correct:
  assumes "chain_ok s c" "mb_ok s" "c \<noteq> []" "0 \<le> off" "0 \<le> len" "len \<le> M_COPYALL"
    and "int (length (chain_bytes s c)) < M_COPYALL"
    and "off \<le> int (length (chain_bytes s c))"
    and "len \<noteq> M_COPYALL \<longrightarrow> off + len \<le> int (length (chain_bytes s c))"
  shows "\<exists>c' s'. m_copym c off len M_DONTWAIT s = Inr (c', s') \<and> mb_ok s' \<and> mb_clust s' = mb_clust s
    \<and> unaccounted s' c' = unaccounted s [] \<and> mb_avail s' + int (length c') = mb_avail s
    \<and> (c' = [] \<and> MCFail s' = MCFail s + 1 \<or>
       c' \<noteq> [] \<and> chain_ok s' c'
         \<and> chain_bytes s' c' = take (nat len) (drop (nat off) (chain_bytes s c)))"
proof -
  obtain c' s' where r: "m_copym c off len M_DONTWAIT s = Inr (c', s')"
    and res: "copym_result [] s (take (nat len) (drop (nat off) (chain_bytes s c))) c' s'"
    using m_copym_spec [OF assms, of M_DONTWAIT] by auto
  then have cl: "mb_clust s' = mb_clust s" by (simp add: copym_result_def)
  show ?thesis
    using r res
    by (intro exI [of _ c'] exI [of _ s'])
      (auto simp: copym_result_def clust_cong [OF cl] split: if_splits)
qed

section \<open>\<open>m_adj\<close>\<close>

lemma m_bytes_trim_head:
  assumes "mbuf_ok s m" "0 \<le> n" "n \<le> m_len m"
  shows "m_bytes s (m\<lparr>m_len := m_len m - n, m_data := m_data m + n\<rparr>) = drop (nat n) (m_bytes s m)"
    and "mbuf_ok s (m\<lparr>m_len := m_len m - n, m_data := m_data m + n\<rparr>)"
proof -
  let ?m = "m\<lparr>m_len := m_len m - n, m_data := m_data m + n\<rparr>"
  have st: "m_storage s ?m = m_storage s m" by (simp add: m_storage_def)
  show "m_bytes s ?m = drop (nat n) (m_bytes s m)"
    using assms unfolding m_bytes_def st by (auto simp: mbuf_ok_def intro: window_drop)
  show "mbuf_ok s ?m" using assms by (auto simp: mbuf_ok_def st)
qed

lemma m_bytes_trim_tail:
  assumes "mbuf_ok s m" "0 \<le> n" "n \<le> m_len m"
  shows "m_bytes s (m\<lparr>m_len := n\<rparr>) = take (nat n) (m_bytes s m)" "mbuf_ok s (m\<lparr>m_len := n\<rparr>)"
proof -
  have st: "m_storage s (m\<lparr>m_len := n\<rparr>) = m_storage s m" by (simp add: m_storage_def)
  show "m_bytes s (m\<lparr>m_len := n\<rparr>) = take (nat n) (m_bytes s m)"
    using assms unfolding m_bytes_def st by (auto simp: mbuf_ok_def intro: window_take)
  show "mbuf_ok s (m\<lparr>m_len := n\<rparr>)" using assms by (auto simp: mbuf_ok_def st)
qed

lemma m_bytes_pkt_len [simp]:
  "m_bytes s (m\<lparr>pkt_len := n\<rparr>) = m_bytes s m" "mbuf_ok s (m\<lparr>pkt_len := n\<rparr>) = mbuf_ok s m"
  "m_storage s (m\<lparr>pkt_len := n\<rparr>) = m_storage s m"
  "m_bytes s (m\<lparr>ext_size := n\<rparr>) = m_bytes s m" "mbuf_ok s (m\<lparr>ext_size := n\<rparr>) = mbuf_ok s m"
  by (simp_all add: m_bytes_def m_storage_def mbuf_ok_def)

lemma m_adj_head_spec:
  assumes "chain_ok s c" "0 \<le> len" "m_adj_head len c = (c', len')"
  shows "chain_ok s c' \<and> chain_bytes s c' = drop (nat len) (chain_bytes s c)
    \<and> length c' = length c \<and> len' = max 0 (len - int (length (chain_bytes s c)))
    \<and> map m_flags c' = map m_flags c \<and> map pkt_len c' = map pkt_len c"
  using assms
proof (induction c arbitrary: len c' len')
  case (Cons m c)
  have m: "mbuf_ok s m" "int (length (m_bytes s m)) = m_len m" "0 \<le> m_len m"
    using Cons.prems(1) m_bytes_length by (auto simp: mbuf_ok_def)
  consider "len = 0" | "0 < len" "m_len m \<le> len" | "0 < len" "len < m_len m"
    using Cons.prems(2) by linarith
  then show ?case
  proof cases
    case 1
    then show ?thesis using Cons.prems by auto
  next
    case 2
    obtain d l where d: "m_adj_head (len - m_len m) c = (d, l)" by fastforce
    have n: "nat (len - m_len m) = nat len - length (m_bytes s m)" "length (m_bytes s m) \<le> nat len"
      using m 2 by linarith+
    have c': "c' = m\<lparr>m_len := 0\<rparr> # d" "len' = l" using Cons.prems(3) 2 d by auto
    show ?thesis
      using Cons.IH [OF _ _ d] Cons.prems(1) 2 m n m_bytes_trim_tail [OF m(1), of 0]
      unfolding c' by (auto simp: max_def)
  next
    case 3
    have n: "nat len \<le> length (m_bytes s m)" using m 3 by linarith
    have c': "c' = m\<lparr>m_len := m_len m - len, m_data := m_data m + len\<rparr> # c" "len' = 0"
      using Cons.prems(3) 3 by auto
    show ?thesis
      using Cons.prems(1) 3 m n m_bytes_trim_head [OF m(1), of len] unfolding c' by auto
  qed
qed auto

lemma m_adj_tail_spec:
  assumes "chain_ok s c" "0 \<le> n" "n \<le> int (length (chain_bytes s c))"
  shows "chain_ok s (m_adj_tail n c) \<and> chain_bytes s (m_adj_tail n c) = take (nat n) (chain_bytes s c)
    \<and> length (m_adj_tail n c) = length c"
  using assms
proof (induction c arbitrary: n)
  case (Cons m c)
  have m: "mbuf_ok s m" "int (length (m_bytes s m)) = m_len m" "0 \<le> m_len m"
    using Cons.prems(1) m_bytes_length by (auto simp: mbuf_ok_def)
  have zero: "chain_ok s (map (m_len_update (\<lambda>_. 0)) c)"
    "chain_bytes s (map (m_len_update (\<lambda>_. 0)) c) = []"
    using Cons.prems(1) m_bytes_trim_tail(2) [of s _ 0]
    by (auto simp: chain_bytes_def m_bytes_def mbuf_ok_def)
  show ?case
  proof (cases "n \<le> m_len m")
    case True
    then have "nat n \<le> length (m_bytes s m)" using m by linarith
    then show ?thesis
      using True zero m_bytes_trim_tail [OF m(1) Cons.prems(2) True] by (auto simp: comp_def)
  next
    case False
    then have "nat (n - m_len m) = nat n - length (m_bytes s m)" "length (m_bytes s m) \<le> nat n"
      using m by linarith+
    then show ?thesis using Cons.IH [of "n - m_len m"] Cons.prems False m by auto
  qed
qed auto

text \<open>\<open>m_adj\<close> trims exactly \<open>req_len\<close> bytes from the head of the chain, or
  \<open>- req_len\<close> bytes from its tail (everything when there are fewer), and no other byte;
  the mbufs stay well formed.\<close>

lemma m_adj_bytes_spec:
  assumes "chain_ok s c"
  shows "chain_ok s (m_adj c n) \<and> length (m_adj c n) = length c \<and>
    chain_bytes s (m_adj c n) =
     (if 0 \<le> n then drop (nat n) (chain_bytes s c)
      else take (length (chain_bytes s c) - nat (- n)) (chain_bytes s c))"
proof (cases "c = []")
  case True
  then show ?thesis by (simp add: m_adj_def)
next
  case ne: False
  have total: "(\<Sum>m\<leftarrow>c. m_len m) = int (length (chain_bytes s c))"
    using mb.flat_length [OF assms] by (simp add: flat_chain_bytes)
  show ?thesis
  proof (cases "0 \<le> n")
    case True
    obtain c' l where h: "m_adj_head n c = (c', l)" by fastforce
    note H = m_adj_head_spec [OF assms True h]
    then obtain m r where c': "c' = m # r" using ne by (cases c') auto
    then show ?thesis using H True ne h by (simp add: m_adj_def)
  next
    case False
    define k where "k = - n"
    have k: "0 < k" "n = - k" using False by (simp_all add: k_def)
    obtain b m where c: "c = b @ [m]" using ne by (cases c rule: rev_cases) auto
    have m: "mbuf_ok s m" "int (length (m_bytes s m)) = m_len m" "0 \<le> m_len m"
      using assms m_bytes_length by (auto simp: c mbuf_ok_def)
    show ?thesis
    proof (cases "k \<le> m_len m")
      case True
      have "nat (m_len m - k) = length (m_bytes s m) - nat k" using m k True by linarith
      moreover have "nat k \<le> length (m_bytes s m)" using m True by linarith
      ultimately show ?thesis
        using assms k True m m_bytes_trim_tail [OF m(1), of "m_len m - k"]
        by (auto simp: m_adj_def c Let_def)
    next
      case F: False
      define t where "t = max 0 (int (length (chain_bytes s c)) - k)"
      obtain h r where hr: "c = h # r" using ne by (cases c) auto
      define h' where "h' = (if M_PKTHDR \<in> m_flags h then h\<lparr>pkt_len := t\<rparr> else h)"
      have eq: "m_adj c n = m_adj_tail t (h' # r)"
      proof -
        have "hd c = h" "tl c = r" by (simp_all add: hr)
        moreover have "\<not> k \<le> m_len (last c)" using F by (simp add: c)
        ultimately show ?thesis
          using ne False k total unfolding t_def h'_def by (simp add: m_adj_def Let_def max_def)
      qed
      have h': "chain_ok s (h' # r)" "chain_bytes s (h' # r) = chain_bytes s c"
        "length (h' # r) = length c"
        using assms by (auto simp: h'_def hr)
      have t: "0 \<le> t" "t \<le> int (length (chain_bytes s c))"
        "nat t = length (chain_bytes s c) - nat k"
        using k by (auto simp: t_def)
      have "t \<le> int (length (chain_bytes s (h' # r)))" unfolding h'(2) by (rule t(2))
      note T = m_adj_tail_spec [OF h'(1) t(1) this]
      have "nat (- n) = nat k" by (simp add: k(2))
      then show ?thesis using T False unfolding eq h'(2,3) t(3) by simp
    qed
  qed
qed

text \<open>\<open>m_adj\<close> trims exactly \<open>req_len\<close> bytes from the head of the chain, or
  \<open>- req_len\<close> bytes from its tail (everything when there are fewer), and no other byte;
  the mbufs stay well formed and none is unlinked.\<close>

theorem m_adj_bytes:
  assumes "chain_ok s c"
  shows "chain_ok s (m_adj c n) \<and> length (m_adj c n) = length c \<and>
    chain_bytes s (m_adj c n) =
     (if 0 \<le> n then drop (nat n) (chain_bytes s c)
      else take (length (chain_bytes s c) - nat (- n)) (chain_bytes s c))"
  by (rule m_adj_bytes_spec [OF assms])

text \<open>Whether the packet header's length is the number of bytes of the chain.\<close>

definition pkt_consistent :: "mbstate \<Rightarrow> mbuf list \<Rightarrow> bool" where
  "pkt_consistent s c \<longleftrightarrow> c \<noteq> [] \<and> M_PKTHDR \<in> m_flags (hd c)
     \<and> pkt_len (hd c) = int (length (chain_bytes s c))"

text \<open>Trimming from the head keeps the packet header's length right.\<close>

theorem m_adj_head_consistent:
  assumes "chain_ok s c" "pkt_consistent s c" "0 \<le> n"
  shows "pkt_consistent s (m_adj c n)"
proof -
  obtain c' l where h: "m_adj_head n c = (c', l)" by fastforce
  note H = m_adj_head_spec [OF assms(1,3) h]
  have ne: "c \<noteq> []" using assms(2) by (simp add: pkt_consistent_def)
  obtain m r where c': "c' = m # r" using H ne by (cases c') auto
  obtain m0 r0 where c: "c = m0 # r0" using ne by (cases c) auto
  have "m_flags m = m_flags m0" "pkt_len m = pkt_len m0" using H by (simp_all add: c c')
  moreover have "m_adj c n = (if M_PKTHDR \<in> m_flags m then m\<lparr>pkt_len := pkt_len m - (n - l)\<rparr> else m) # r"
    using h assms(3) ne by (simp add: m_adj_def c')
  moreover have "int (length (chain_bytes s c')) = int (length (chain_bytes s c)) - (n - l)"
    using H assms(3) by auto
  ultimately show ?thesis using assms(2) by (simp add: pkt_consistent_def c c')
qed

text \<open>Trimming the tail does not: when the bytes to drop all lie in the last mbuf and
  that is not the first one, the code tests the flag of the last mbuf, and the header of a
  consistent packet keeps the old length.\<close>

theorem m_adj_tail_stale_length:
  assumes "chain_ok s c" "pkt_consistent s c" "2 \<le> length c"
    and "n < 0" "- n \<le> m_len (last c)"
  shows "pkt_len (hd (m_adj c n)) = pkt_len (hd c) \<and> \<not> pkt_consistent s (m_adj c n)"
proof -
  obtain h b m where c: "c = h # b @ [m]"
    using assms(3) by (cases c; cases "tl c" rule: rev_cases) auto
  have "\<exists>m'. m_adj c n = h # b @ [m']"
    using assms(4,5) by (auto simp: m_adj_def c Let_def)
  then have hd: "pkt_len (hd (m_adj c n)) = pkt_len (hd c)" by (auto simp: c)
  have "int (length (m_bytes s m)) = m_len m"
    using assms(1) m_bytes_length by (simp add: c)
  then have "int (length (chain_bytes s c)) - (- n) \<ge> 0" using assms(5) by (simp add: c)
  then have "int (length (chain_bytes s (m_adj c n))) < int (length (chain_bytes s c))"
    using m_adj_bytes_spec [OF assms(1), of n] assms(4) by simp
  with hd assms(2) show ?thesis by (auto simp: pkt_consistent_def)
qed

section \<open>\<open>m_cat\<close>\<close>

text \<open>Appending the first \<open>k\<close> bytes of \<open>n\<close> to the data of \<open>m\<close>.\<close>

lemma m_bcopy_append:
  assumes "mbuf_ok s m" "M_EXT \<notin> m_flags m" "mbuf_ok s n" "0 \<le> k" "k \<le> m_len n"
    and "m_data m + m_len m + k \<le> MLEN"
  obtains m' where "m_bcopy s n 0 m (m_len m) k = Inr m'"
    "mbuf_ok s (m'\<lparr>m_len := m_len m + k\<rparr>)"
    "m_bytes s (m'\<lparr>m_len := m_len m + k\<rparr>) = m_bytes s m @ take (nat k) (m_bytes s n)"
    "m_data m' = m_data m" "m_flags m' = m_flags m" "m_len m' = m_len m" "pkt_len m' = pkt_len m"
proof -
  have ok: "0 \<le> m_len m" "0 \<le> m_data m" "int (length (m_dat m)) = MLEN"
    using assms(1) by (simp_all add: mbuf_ok_def)
  obtain d where d: "bcopy (m_storage s n) (m_data n) (m_dat m) (m_data m + m_len m) k = Inr d"
    using m_bytes_in_storage [OF assms(3) order_refl assms(4)] assms(4,5,6) ok
    by (auto simp: bcopy_def)
  have w: "window (m_storage s n) (m_data n) k = take (nat k) (m_bytes s n)"
    using m_bytes_window [OF assms(3) order_refl assms(4)] assms(5) by simp
  have "window d (m_data m) (m_len m + k) = m_bytes s m @ take (nat k) (m_bytes s n)"
    using bcopy_append [OF d ok(2,1)] assms(2) w by (simp add: m_bytes_def m_storage_def)
  then have b: "m_bytes s (m\<lparr>m_dat := d, m_len := m_len m + k\<rparr>)
      = m_bytes s m @ take (nat k) (m_bytes s n)"
    using assms(2) by (simp add: m_bytes_def m_storage_def)
  have o: "mbuf_ok s (m\<lparr>m_dat := d, m_len := m_len m + k\<rparr>)"
    using assms(1,2,4,6) ok bcopy_length [OF d] by (simp add: mbuf_ok_def m_storage_def)
  have r: "m_bcopy s n 0 m (m_len m) k = Inr (m\<lparr>m_dat := d\<rparr>)"
    using d by (simp add: m_bcopy_def)
  show thesis
    by (rule that [OF r]) (simp_all add: b o)
qed

lemma clrefs_dat [simp]:
  "M_EXT \<notin> m_flags m \<Longrightarrow> clrefs (m # c) k = clrefs c k"
  by simp

text \<open>The result of an operation that reorganises a chain: well formed, the same bytes, and
  no mbuf or cluster reference lost.\<close>

definition same_data :: "mbstate \<Rightarrow> mbuf list \<Rightarrow> mbstate \<Rightarrow> mbuf list \<Rightarrow> bool" where
  "same_data s c s' c' \<longleftrightarrow> mb_ok s' \<and> chain_ok s' c' \<and> mb_clust s' = mb_clust s
     \<and> chain_bytes s' c' = chain_bytes s c \<and> unaccounted s' c' = unaccounted s c
     \<and> mb_avail s' + int (length c') = mb_avail s + int (length c)"

lemma same_data_trans:
  "same_data s c s' c' \<Longrightarrow> same_data s' c' s'' c'' \<Longrightarrow> same_data s c s'' c''"
  by (simp add: same_data_def)

lemma same_data_prefix:
  assumes "same_data s c s' c'" "chain_ok s p"
  shows "same_data s (p @ c) s' (p @ c')"
proof -
  have cl: "mb_clust s' = mb_clust s" using assms(1) by (simp add: same_data_def)
  have "unaccounted s' c' = unaccounted s c" using assms(1) by (simp add: same_data_def)
  then have "mclrefcnt s' k - clrefs c' k = mclrefcnt s k - clrefs c k" for k
    unfolding unaccounted_def by (rule fun_cong)
  then have "unaccounted s' (p @ c') = unaccounted s (p @ c)"
    unfolding unaccounted_def by (intro ext) (auto simp: algebra_simps)
  then show ?thesis
    using assms clust_cong [OF cl] by (auto simp: same_data_def)
qed

text \<open>Moving the data of \<open>n\<close> to the end of \<open>m\<close> and freeing \<open>n\<close>.\<close>

lemma same_data_absorb:
  assumes "mb_ok s" "chain_ok s c" "mbuf_ok s n" "mbuf_ok s m'"
    and "m_bytes s m' = m_bytes s m @ m_bytes s n" "M_EXT \<notin> m_flags m" "M_EXT \<notin> m_flags m'"
  shows "same_data s (m # n # c) (m_free (n\<lparr>m_len := k\<rparr>) s) (m' # c)"
proof -
  let ?n = "n\<lparr>m_len := k\<rparr>"
  have cl: "mb_clust (m_free ?n s) = mb_clust s" by simp
  have "int (length (m_dat ?n)) = MLEN" using mbuf_ok_dat [OF assms(3)] by simp
  note f = m_free_facts [OF assms(1) this]
  have "unaccounted (m_free ?n s) (m' # c) = unaccounted s (m # n # c)"
    using f(3) [of "m' # c"] assms(6,7) by (simp add: unaccounted_def)
  then show ?thesis
    using assms f(1,2) clust_cong [OF cl] by (simp add: same_data_def)
qed

lemma m_cat_loop_spec:
  assumes "mb_ok s" "chain_ok s (m # n)"
  shows "\<exists>c s'. m_cat_loop m n s = Inr (c, s') \<and> same_data s (m # n) s' c"
  using assms
proof (induction n arbitrary: m s)
  case Nil
  then show ?case by (simp add: same_data_def)
next
  case (Cons x n)
  show ?case
  proof (cases "M_EXT \<in> m_flags m \<or> MLEN \<le> m_data m + m_len m + m_len x")
    case True
    then show ?thesis using Cons.prems by (auto simp: same_data_def)
  next
    case False
    have ok: "mbuf_ok s m" "mbuf_ok s x" "chain_ok s n" "0 \<le> m_len x"
      using Cons.prems by (auto simp: mbuf_ok_def)
    have ne: "M_EXT \<notin> m_flags m" and fit: "m_data m + m_len m + m_len x \<le> MLEN" using False by auto
    obtain m' where m': "m_bcopy s x 0 m (m_len m) (m_len x) = Inr m'"
      "mbuf_ok s (m'\<lparr>m_len := m_len m + m_len x\<rparr>)" "m_flags m' = m_flags m"
      "m_bytes s (m'\<lparr>m_len := m_len m + m_len x\<rparr>) = m_bytes s m @ take (nat (m_len x)) (m_bytes s x)"
      using m_bcopy_append [OF ok(1) ne ok(2,4) order_refl fit] by metis
    let ?m = "m'\<lparr>m_len := m_len m + m_len x\<rparr>"
    have "take (nat (m_len x)) (m_bytes s x) = m_bytes s x"
      using m_bytes_length [OF ok(2)] by simp
    then have "same_data s (m # x # n) (m_free (x\<lparr>m_len := m_len x\<rparr>) s) (?m # n)"
      using m' ne by (intro same_data_absorb Cons.prems ok) simp_all
    then have abs: "same_data s (m # x # n) (m_free x s) (?m # n)" by simp
    then have "mb_ok (m_free x s)" "chain_ok (m_free x s) (?m # n)"
      unfolding same_data_def by blast+
    then obtain c s' where "m_cat_loop ?m n (m_free x s) = Inr (c, s')"
      "same_data (m_free x s) (?m # n) s' c"
      using Cons.IH by blast
    then show ?thesis using m'(1) False same_data_trans [OF abs] by auto
  qed
qed

text \<open>\<open>m_cat\<close> concatenates: the bytes of the result are those of the two chains, and
  the mbufs whose data were moved are back in the store.\<close>

theorem m_cat_appends:
  assumes "mb_ok s" "chain_ok s m" "chain_ok s n" "m \<noteq> []"
  shows "\<exists>c s'. m_cat m n s = Inr (c, s') \<and> mb_ok s' \<and> chain_ok s' c
    \<and> chain_bytes s' c = chain_bytes s m @ chain_bytes s n
    \<and> unaccounted s' c = unaccounted s (m @ n)
    \<and> mb_avail s' + int (length c) = mb_avail s + int (length m + length n)"
proof -
  have m: "m = butlast m @ [last m]" using assms(4) by simp
  have ok: "chain_ok s (last m # n)" "chain_ok s (butlast m)"
    using assms by (auto dest: in_set_butlastD)
  obtain c s' where c: "m_cat_loop (last m) n s = Inr (c, s')" "same_data s (last m # n) s' c"
    using m_cat_loop_spec [OF assms(1) ok(1)] by blast
  have "same_data s (butlast m @ last m # n) s' (butlast m @ c)"
    by (rule same_data_prefix [OF c(2) ok(2)])
  moreover have "butlast m @ last m # n = m @ n" using m by (metis append.assoc append_Cons append_Nil)
  ultimately have "same_data s (m @ n) s' (butlast m @ c)" by simp
  then show ?thesis using c(1) assms(4) by (auto simp: m_cat_def same_data_def)
qed

section \<open>\<open>m_pullup\<close>\<close>

text \<open>Moving the first \<open>k\<close> bytes of \<open>n\<close> to the end of \<open>m\<close> and keeping \<open>n\<close>.\<close>

lemma same_data_move:
  assumes "mb_ok s" "chain_ok s c" "mbuf_ok s m'" "mbuf_ok s n'"
    and "m_bytes s m' = m_bytes s m @ b" "m_bytes s n = b @ m_bytes s n'"
    and "M_EXT \<notin> m_flags m" "M_EXT \<notin> m_flags m'"
    and "M_EXT \<in> m_flags n' \<longleftrightarrow> M_EXT \<in> m_flags n" "ext_buf n' = ext_buf n"
  shows "same_data s (m # n # c) s (m' # n' # c)"
  using assms by (simp add: same_data_def unaccounted_def fun_eq_iff)

lemma m_pullup_loop_spec:
  assumes "mb_ok s" "chain_ok s (m # c)" "c \<noteq> []" "M_EXT \<notin> m_flags m" "0 \<le> len"
    and "space = MLEN - (m_data m + m_len m)" "len \<le> space" "0 \<le> max_protohdr s"
  shows "\<exists>m' len' c' s'. m_pullup_loop m len space c s = Inr (m', len', c', s')
    \<and> same_data s (m # c) s' (m' # c') \<and> M_EXT \<notin> m_flags m'
    \<and> m_len m' + len' = m_len m + len \<and> (0 < len' \<longrightarrow> c' = []) \<and> MPFail s' = MPFail s"
  using assms
proof (induction c arbitrary: m len space s)
  case (Cons n c)
  have ok: "mbuf_ok s m" "mbuf_ok s n" "chain_ok s c" "0 \<le> m_len n" "0 \<le> m_len m" "0 \<le> m_data m"
    using Cons.prems(2) by (auto simp: mbuf_ok_def)
  have "space < 4294967296" using Cons.prems(6) ok by (simp add: mbuf_sizes)
  then have len: "u_int len = len" using Cons.prems(5,7) by (simp add: u_int_def)
  define k where "k = min (min (max len (max_protohdr s)) space) (m_len n)"
  have k: "0 \<le> k" "k \<le> m_len n" "m_data m + m_len m + k \<le> MLEN" "k < m_len n \<Longrightarrow> len \<le> k"
    using Cons.prems(5-8) ok by (auto simp: k_def)
  obtain m1 where m1: "m_bcopy s n 0 m (m_len m) k = Inr m1"
    "mbuf_ok s (m1\<lparr>m_len := m_len m + k\<rparr>)" "m_data m1 = m_data m" "m_flags m1 = m_flags m"
    "m_bytes s (m1\<lparr>m_len := m_len m + k\<rparr>) = m_bytes s m @ take (nat k) (m_bytes s n)"
    "m_len m1 = m_len m"
    using m_bcopy_append [OF ok(1) Cons.prems(4) ok(2) k(1-3)] by metis
  define m2 where "m2 = m1\<lparr>m_len := m_len m + k\<rparr>"
  have m2: "mbuf_ok s m2" "M_EXT \<notin> m_flags m2" "m_len m2 = m_len m + k" "m_data m2 = m_data m"
    "m_bytes s m2 = m_bytes s m @ take (nat k) (m_bytes s n)"
    using m1 Cons.prems(4) by (simp_all add: m2_def)
  have cp: "m_bcopy s n 0 m (m_len m) (min (min (max (u_int len) (max_protohdr s)) space) (m_len n))
      = Inr m1"
    using m1(1) by (simp add: k_def len)
  show ?case
  proof (cases "k = m_len n")
    case False
    define n2 where "n2 = n\<lparr>m_len := m_len n - k, m_data := m_data n + k\<rparr>"
    have n2: "mbuf_ok s n2" "m_bytes s n2 = drop (nat k) (m_bytes s n)"
      using m_bytes_trim_head [OF ok(2) k(1,2)] by (simp_all add: n2_def)
    have "same_data s (m # n # c) s (m2 # n2 # c)"
    proof (rule same_data_move [OF Cons.prems(1) ok(3) m2(1) n2(1) m2(5)])
      show "m_bytes s n = take (nat k) (m_bytes s n) @ m_bytes s n2" unfolding n2(2) by simp
    qed (use Cons.prems(4) m2(2) in \<open>simp_all add: n2_def\<close>)
    moreover have "m_pullup_loop m len space (n # c) s = Inr (m2, len - k, n2 # c, s)"
      using False k cp unfolding m_pullup_loop.simps Let_def
      by (simp add: len k_def [symmetric] m2_def n2_def)
    ultimately show ?thesis using m2 False k by (auto simp: mbuf_ok_def)
  next
    case True
    have all: "take (nat k) (m_bytes s n) = m_bytes s n"
      using True m_bytes_length [OF ok(2)] by simp
    have abs: "same_data s (m # n # c) (m_free (n\<lparr>m_len := 0\<rparr>) s) (m2 # c)"
      using Cons.prems(1,4) ok m2 all by (intro same_data_absorb) simp_all
    show ?thesis
    proof (cases "0 < len - k \<and> c \<noteq> []")
      case go: True
      have eq: "m_pullup_loop m len space (n # c) s
          = m_pullup_loop m2 (len - k) (space - k) c (m_free (n\<lparr>m_len := 0\<rparr>) s)"
        using go True cp by (simp add: len k_def [symmetric] m2_def Let_def)
      have ok2: "mb_ok (m_free (n\<lparr>m_len := 0\<rparr>) s)" "chain_ok (m_free (n\<lparr>m_len := 0\<rparr>) s) (m2 # c)"
        using abs unfolding same_data_def by blast+
      obtain m' len' c' s' where
        "m_pullup_loop m2 (len - k) (space - k) c (m_free (n\<lparr>m_len := 0\<rparr>) s) = Inr (m', len', c', s')"
        "same_data (m_free (n\<lparr>m_len := 0\<rparr>) s) (m2 # c) s' (m' # c')" "M_EXT \<notin> m_flags m'"
        "m_len m' + len' = m_len m2 + (len - k)" "0 < len' \<longrightarrow> c' = []"
        "MPFail s' = MPFail (m_free (n\<lparr>m_len := 0\<rparr>) s)"
        using Cons.IH [OF ok2 _ m2(2), of "len - k" "space - k"] go Cons.prems(6-8) m2 by auto
      then show ?thesis using same_data_trans [OF abs] m2(3) unfolding eq by auto
    next
      case stop: False
      have e: "m_pullup_loop m len space (n # c) s = Inr (m2, len - k, c, m_free (n\<lparr>m_len := 0\<rparr>) s)"
        using stop True cp by (auto simp: len k_def [symmetric] m2_def Let_def)
      show ?thesis unfolding e using abs m2 stop by auto
    qed
  qed
qed simp

lemma m_freem_chain:
  assumes "mb_ok s" "chain_ok s c"
  shows "mb_ok (m_freem c s) \<and> mb_clust (m_freem c s) = mb_clust s
      \<and> unaccounted (m_freem c s) [] = unaccounted s c
      \<and> mb_avail (m_freem c s) = mb_avail s + int (length c) \<and> MPFail (m_freem c s) = MPFail s"
proof -
  have "\<forall>m \<in> set c. int (length (m_dat m)) = MLEN" using assms(2) mbuf_ok_dat by blast
  then show ?thesis using m_freem_facts [OF assms(1), of c "[]"] by simp
qed

text \<open>What a call of \<open>m_pullup\<close> on \<open>c\<close> leaves: the chain with \<open>len\<close> bytes in front, or
  the null pointer, everything freed and the failure counted.\<close>

definition pullup_result :: "mbuf list \<Rightarrow> int \<Rightarrow> mbstate \<Rightarrow> mbuf list \<Rightarrow> mbstate \<Rightarrow> bool" where
  "pullup_result c len s c' s' \<longleftrightarrow>
     (c' \<noteq> [] \<and> same_data s c s' c' \<and> len \<le> m_len (hd c') \<and> M_EXT \<notin> m_flags (hd c')
        \<and> MPFail s' = MPFail s)
   \<or> (c' = [] \<and> mb_ok s' \<and> mb_clust s' = mb_clust s \<and> unaccounted s' [] = unaccounted s c
        \<and> mb_avail s' = mb_avail s + int (length c) \<and> MPFail s' = MPFail s + 1)"

lemma pullup_result_bad:
  assumes "mb_ok s" "chain_ok s c"
  shows "case m_pullup_bad c s of (c', s') \<Rightarrow> pullup_result c len s c' s' \<and> c' = []"
  using m_freem_chain [OF assms] by (simp add: pullup_result_def m_pullup_bad_def Let_def)

lemma pullup_result_trans:
  assumes "same_data s c s1 c1" "MPFail s1 = MPFail s" "pullup_result c1 len s1 c' s'"
  shows "pullup_result c len s c' s'"
  using assms unfolding pullup_result_def same_data_def by auto

lemma m_pullup_into_spec:
  assumes "mb_ok s" "chain_ok s (m # c)" "c \<noteq> []" "M_EXT \<notin> m_flags m" "0 \<le> len"
    and "len \<le> MLEN - (m_data m + m_len m)" "0 \<le> max_protohdr s"
  shows "\<exists>c' s'. m_pullup_into m len c s = Inr (c', s') \<and> pullup_result (m # c) (m_len m + len) s c' s'
    \<and> (m_len m + len \<le> int (length (chain_bytes s (m # c))) \<longrightarrow> c' \<noteq> [])"
proof -
  obtain m' len' c' s' where r: "m_pullup_loop m len (MLEN - (m_data m + m_len m)) c s = Inr (m', len', c', s')"
    "same_data s (m # c) s' (m' # c')" "M_EXT \<notin> m_flags m'" "m_len m' + len' = m_len m + len"
    "0 < len' \<longrightarrow> c' = []" "MPFail s' = MPFail s"
    using m_pullup_loop_spec [OF assms(1-5) refl assms(6,7)] by blast
  have ok: "mb_ok s'" "chain_ok s' (m' # c')" "chain_bytes s' (m' # c') = chain_bytes s (m # c)"
    using r(2) unfolding same_data_def by blast+
  show ?thesis
  proof (cases "0 < len'")
    case True
    then have c': "c' = []" using r(5) by simp
    have "int (length (chain_bytes s (m # c))) = m_len m'"
      using m_bytes_length [of s' m'] ok(2) unfolding ok(3) [symmetric] c' by simp
    then show ?thesis
      using pullup_result_trans [OF r(2,6)] pullup_result_bad [OF ok(1,2)] True r(1,4)
      unfolding m_pullup_into_def c' by (auto simp: m_pullup_bad_def Let_def)
  next
    case False
    then show ?thesis using r by (auto simp: m_pullup_into_def m_pullup_bad_def pullup_result_def)
  qed
qed

lemma m_flags_pkthdr_off:
  assumes "mbuf_ok s m"
  defines "m' \<equiv> m\<lparr>m_flags := m_flags m - {M_PKTHDR}\<rparr>"
  shows "mbuf_ok s m'" "m_bytes s m' = m_bytes s m" "M_EXT \<in> m_flags m' \<longleftrightarrow> M_EXT \<in> m_flags m"
    "ext_buf m' = ext_buf m"
  using assms by (auto simp: mbuf_ok_def m_bytes_def m_storage_def split: if_splits)

lemma mbuf_ok_fresh:
  assumes "int (length (m_dat m)) = MLEN" "M_EXT \<notin> m_flags m" "m_len m = 0"
    and "0 \<le> m_data m" "m_data m \<le> MLEN" "M_PKTHDR \<in> m_flags m \<longrightarrow> MLEN - MHLEN \<le> m_data m"
  shows "mbuf_ok s m" "m_bytes s m = []"
  using assms by (simp_all add: mbuf_ok_def m_bytes_def m_storage_def)

text \<open>Putting a fresh empty mbuf in front.\<close>

lemma same_data_front:
  assumes "mb_ok s1" "mb_clust s1 = mb_clust s" "mclrefcnt s1 = mclrefcnt s" "mb_avail s = mb_avail s1 + 1"
    and "chain_ok s (n # c)" "mbuf_ok s m" "m_bytes s m = []" "M_EXT \<notin> m_flags m"
    and "mbuf_ok s n'" "m_bytes s n' = m_bytes s n" "M_EXT \<in> m_flags n' \<longleftrightarrow> M_EXT \<in> m_flags n"
    "ext_buf n' = ext_buf n"
  shows "same_data s (n # c) s1 (m # n' # c)"
  using assms clust_cong [OF assms(2)] by (simp add: same_data_def unaccounted_def fun_eq_iff)

lemma m_pullup_spec:
  assumes "mb_ok s" "chain_ok s c" "c \<noteq> []" "0 \<le> len" "0 \<le> max_protohdr s"
  shows "\<exists>c' s'. m_pullup c len s = Inr (c', s') \<and> pullup_result c len s c' s'
    \<and> (len \<le> MHLEN \<and> len \<le> int (length (chain_bytes s c)) \<and> 0 < mb_avail s \<longrightarrow> c' \<noteq> [])"
proof -
  obtain n ns where c: "c = n # ns" using assms(3) by (cases c) auto
  have n: "mbuf_ok s n" "chain_ok s ns" "0 \<le> m_len n" "0 \<le> m_data n"
    using assms(2) by (auto simp: c mbuf_ok_def)
  show ?thesis
  proof (cases "M_EXT \<notin> m_flags n \<and> m_data n + len < MLEN \<and> ns \<noteq> []")
    case True
    show ?thesis
    proof (cases "len \<le> m_len n")
      case le: True
      have "same_data s c s c" using assms(1,2) by (simp add: same_data_def)
      then show ?thesis using True le by (auto simp: m_pullup_def c pullup_result_def)
    next
      case False
      have "len - m_len n \<le> MLEN - (m_data n + m_len n)" using True by simp
      then obtain c' s' where r: "m_pullup_into n (len - m_len n) ns s = Inr (c', s')"
        "pullup_result (n # ns) len s c' s'"
        "len \<le> int (length (chain_bytes s (n # ns))) \<longrightarrow> c' \<noteq> []"
        using m_pullup_into_spec [OF assms(1) _ _ _ _ _ assms(5), of n ns "len - m_len n"]
          True False assms(2) c by auto
      have "m_pullup c len s = Inr (c', s')" using True False r(1) by (simp add: m_pullup_def c)
      then show ?thesis using r(2,3) unfolding c by blast
    qed
  next
    case F: False
    have bad: "\<exists>c' s'. m_pullup c len s = Inr (c', s') \<and> pullup_result c len s c' s'"
      if "m_pullup c len s = Inr (m_pullup_bad c s)"
      using that pullup_result_bad [OF assms(1,2), of len] by (cases "m_pullup_bad c s") auto
    show ?thesis
    proof (cases "MHLEN < len")
      case True
      have "m_pullup c len s = Inr (m_pullup_bad c s)" using F True by (auto simp: m_pullup_def c)
      then show ?thesis using bad True by auto
    next
      case len: False
      obtain r s1 where get: "MGET M_DONTWAIT (m_type n) s = Inr (r, s1)" using MGET_DONTWAIT by blast
      note G = MGET_cases [OF assms(1) get]
      show ?thesis
      proof (cases r)
        case None
        then have "m_pullup c len s = Inr (m_pullup_bad c s)" "mb_avail s = 0"
          using F len get G by (auto simp: m_pullup_def c)
        then show ?thesis using bad by auto
      next
        case (Some m0)
        define h where "h = (M_PKTHDR \<in> m_flags n)"
        define m where "m = (if h then M_COPY_PKTHDR (m0\<lparr>m_len := 0\<rparr>) n else m0\<lparr>m_len := 0\<rparr>)"
        define n' where "n' = (if h then n\<lparr>m_flags := m_flags n - {M_PKTHDR}\<rparr> else n)"
        have eq: "m_pullup c len s = m_pullup_into m len (n' # ns) s1"
          using F len get Some by (auto simp: m_pullup_def c m_def n'_def h_def)
        have m: "int (length (m_dat m)) = MLEN" "M_EXT \<notin> m_flags m" "m_len m = 0"
          "m_data m = (if h then MLEN - MHLEN else 0)" "M_PKTHDR \<in> m_flags m \<longrightarrow> h"
          using G Some by (auto simp: m_def M_COPY_PKTHDR_def M_COPYFLAGS_def)
        have fresh: "mbuf_ok s m" "m_bytes s m = []"
          using mbuf_ok_fresh [OF m(1-3)] m(4,5) by (auto simp: mbuf_sizes)
        have n': "mbuf_ok s n'" "m_bytes s n' = m_bytes s n"
          "M_EXT \<in> m_flags n' \<longleftrightarrow> M_EXT \<in> m_flags n" "ext_buf n' = ext_buf n"
          using m_flags_pkthdr_off [OF n(1)] n(1) by (simp_all add: n'_def)
        have front: "same_data s (n # ns) s1 (m # n' # ns)"
          using G Some assms(2) c fresh m(2) n' by (intro same_data_front) auto
        then have ok: "mb_ok s1" "chain_ok s1 (m # n' # ns)" unfolding same_data_def by blast+
        have bytes: "chain_bytes s1 (m # n' # ns) = chain_bytes s c"
          using front unfolding same_data_def c by blast
        have "m_len m + len = len" "len \<le> MLEN - (m_data m + m_len m)" "0 \<le> max_protohdr s1"
          using m len G assms(5) by (auto simp: mbuf_sizes)
        then obtain c' s' where r: "m_pullup_into m len (n' # ns) s1 = Inr (c', s')"
          "pullup_result (m # n' # ns) len s1 c' s'"
          "len \<le> int (length (chain_bytes s c)) \<longrightarrow> c' \<noteq> []"
          using m_pullup_into_spec [OF ok _ m(2) assms(4)] unfolding bytes by fastforce
        have "pullup_result c len s c' s'"
          using pullup_result_trans [OF front _ r(2)] G c by simp
        then show ?thesis using r unfolding eq by blast
      qed
    qed
  qed
qed

text \<open>\<open>m_pullup\<close> never faults on a well-formed chain. Either it returns a chain with
  the same bytes whose first mbuf is not a cluster and holds at least the \<open>len\<close> bytes asked
  for, or it returns the null pointer, has freed the whole chain with its cluster references,
  and has counted the failure. It does not fail when \<open>len\<close> is at most \<open>MHLEN\<close>, the chain
  has that many bytes and an mbuf is to be had.\<close>

theorem m_pullup_correct:
  assumes "mb_ok s" "chain_ok s c" "c \<noteq> []" "0 \<le> len" "0 \<le> max_protohdr s"
  shows "\<exists>c' s'. m_pullup c len s = Inr (c', s') \<and> mb_ok s' \<and> chain_ok s' c'
    \<and> mb_clust s' = mb_clust s \<and> unaccounted s' c' = unaccounted s c
    \<and> mb_avail s' + int (length c') = mb_avail s + int (length c)
    \<and> (if c' = [] then MPFail s' = MPFail s + 1
       else MPFail s' = MPFail s \<and> chain_bytes s' c' = chain_bytes s c
         \<and> M_EXT \<notin> m_flags (hd c') \<and> len \<le> m_len (hd c'))
    \<and> (len \<le> MHLEN \<and> len \<le> int (length (chain_bytes s c)) \<and> 0 < mb_avail s \<longrightarrow> c' \<noteq> [])"
proof -
  obtain c' s' where r: "m_pullup c len s = Inr (c', s')" "pullup_result c len s c' s'"
    "len \<le> MHLEN \<and> len \<le> int (length (chain_bytes s c)) \<and> 0 < mb_avail s \<longrightarrow> c' \<noteq> []"
    using m_pullup_spec [OF assms] by blast
  show ?thesis
    using r(2,3) by (intro exI [of _ c'] exI [of _ s'] conjI r(1))
      (auto simp: pullup_result_def same_data_def)
qed

section \<open>\<open>m_split\<close>\<close>

lemma m_split_at_Some:
  assumes "chain_ok s c" "0 \<le> len" "m_split_at len c = Some (p, m, ms, l)"
  shows "c = p @ m # ms \<and> 0 \<le> l \<and> l \<le> m_len m \<and> int (length (chain_bytes s p)) + l = len
    \<and> (p = [] \<longrightarrow> l = len)"
  using assms
proof (induction c arbitrary: len p)
  case (Cons x c)
  have x: "int (length (m_bytes s x)) = m_len x" "chain_ok s c"
    using Cons.prems(1) m_bytes_length by auto
  show ?case
  proof (cases "m_len x < len")
    case True
    then obtain q where q: "m_split_at (len - m_len x) c = Some (q, m, ms, l)" "p = x # q"
      using Cons.prems(3) by auto
    show ?thesis using Cons.IH [OF x(2) _ q(1)] True q(2) x(1) by auto
  next
    case False
    then show ?thesis using Cons.prems by auto
  qed
qed simp

lemma m_split_at_None:
  assumes "chain_ok s c" "c \<noteq> []"
  shows "m_split_at len c = None \<longleftrightarrow> int (length (chain_bytes s c)) < len"
  using assms
proof (induction c arbitrary: len)
  case (Cons x c)
  have x: "int (length (m_bytes s x)) = m_len x" "chain_ok s c"
    using Cons.prems(1) m_bytes_length by auto
  have "0 \<le> int (length (chain_bytes s c))" by simp
  then show ?case
    using Cons.IH [OF x(2), of "len - m_len x"] x by (cases "c = []") auto
qed simp

text \<open>The result of a split of \<open>m # ms\<close> at \<open>len\<close> bytes of \<open>m\<close>: the shortened
  \<open>m'\<close> and the tail.\<close>

definition split_result ::
  "mbuf \<Rightarrow> mbuf list \<Rightarrow> int \<Rightarrow> mbstate \<Rightarrow> mbuf \<Rightarrow> mbuf list \<Rightarrow> mbstate \<Rightarrow> bool"
where
  "split_result m ms len s m' t s' \<longleftrightarrow> mb_ok s' \<and> chain_ok s (m' # t) \<and> mb_clust s' = mb_clust s
     \<and> m_bytes s m' = take (nat len) (m_bytes s m)
     \<and> chain_bytes s t = drop (nat len) (m_bytes s m) @ chain_bytes s ms
     \<and> (M_EXT \<in> m_flags m' \<longleftrightarrow> M_EXT \<in> m_flags m) \<and> ext_buf m' = ext_buf m
     \<and> unaccounted s' t = unaccounted s ms"

lemma m_split_tail_spec:
  assumes "mb_ok s" "chain_ok s (m # ms)" "0 \<le> len" "len \<le> m_len m"
    and n: "int (length (m_dat n)) = MLEN" "M_EXT \<notin> m_flags n"
    and fit: "M_EXT \<notin> m_flags m \<longrightarrow> 0 \<le> m_data n \<and> m_data n + (m_len m - len) \<le> MLEN
        \<and> (M_PKTHDR \<in> m_flags n \<longrightarrow> MLEN - MHLEN \<le> m_data n)"
  shows "\<exists>m' n' s'. m_split_tail n m ms len s = Inr (m', n' # ms, s')
    \<and> split_result m ms len s m' (n' # ms) s' \<and> mb_avail s' = mb_avail s
    \<and> m_flags m' = m_flags m \<and> pkt_len n' = pkt_len n"
proof -
  define r where "r = m_len m - len"
  have ok: "mbuf_ok s m" "0 \<le> m_len m" "0 \<le> m_data m" "0 \<le> r"
    using assms(2,4) by (auto simp: mbuf_ok_def r_def)
  have blen: "int (length (m_bytes s m)) = m_len m" by (rule m_bytes_length [OF ok(1)])
  have w: "window (m_storage s m) (m_data m + len) r = drop (nat len) (m_bytes s m)"
    using m_bytes_window [OF ok(1) assms(3) ok(4)] blen ok(4) assms(3,4)
    by (simp add: r_def)
  show ?thesis
  proof (cases "M_EXT \<in> m_flags m")
    case True
    define m' where "m' = m\<lparr>m_len := len, ext_size := 0\<rparr>"
    define n' where "n' = n\<lparr>m_flags := m_flags n \<union> {M_EXT}, ext_buf := ext_buf m,
      ext_size := ext_size m, m_data := m_data m + len, m_len := r\<rparr>"
    define s' where "s' = s\<lparr>mclrefcnt := (mclrefcnt s)(ext_buf m := mclrefcnt s (ext_buf m) + 1)\<rparr>"
    have eq: "m_split_tail n m ms len s = Inr (m', n' # ms, s')"
      using True by (simp add: m_split_tail_def Let_def m'_def n'_def s'_def r_def)
    have mb: "m_bytes s m' = take (nat len) (m_bytes s m)" "mbuf_ok s m'"
      using m_bytes_trim_tail [OF ok(1) assms(3,4)]
      by (simp_all add: m'_def)
    have nb: "m_bytes s n' = drop (nat len) (m_bytes s m)"
      using w True by (simp add: n'_def m_bytes_def m_storage_def)
    have no: "mbuf_ok s n'"
      using ok True n assms(3,4) by (simp add: n'_def mbuf_ok_def m_storage_def r_def)
    have "unaccounted s' (n' # ms) = unaccounted s ms"
      by (simp add: unaccounted_def s'_def n'_def fun_eq_iff)
    then have "split_result m ms len s m' (n' # ms) s'"
      using assms(1,2) mb nb no by (simp add: split_result_def s'_def m'_def)
    then show ?thesis
      unfolding eq by (intro exI conjI) (rule refl, assumption, simp_all add: s'_def m'_def n'_def)
  next
    case False
    obtain d where d: "bcopy (m_storage s m) (m_data m + len) (m_dat n) (m_data n) r = Inr d"
      using m_bytes_in_storage [OF ok(1) assms(3) ok(4)] fit False n ok(4)
      by (auto simp: bcopy_def r_def)
    define m' where "m' = m\<lparr>m_len := len\<rparr>"
    define n' where "n' = n\<lparr>m_dat := d, m_len := r\<rparr>"
    have eq: "m_split_tail n m ms len s = Inr (m', n' # ms, s)"
      using False d by (simp add: m_split_tail_def Let_def m'_def n'_def m_bcopy_def r_def)
    have mb: "m_bytes s m' = take (nat len) (m_bytes s m)" "mbuf_ok s m'"
      using m_bytes_trim_tail [OF ok(1) assms(3,4)] by (simp_all add: m'_def)
    have nb: "m_bytes s n' = drop (nat len) (m_bytes s m)"
      using bcopy_window [OF d] w n(2) by (simp add: n'_def m_bytes_def m_storage_def)
    have no: "mbuf_ok s n'"
      using bcopy_length [OF d] fit False n ok(4) by (simp add: n'_def mbuf_ok_def m_storage_def r_def)
    have "unaccounted s (n' # ms) = unaccounted s ms"
      using n(2) by (simp add: unaccounted_def n'_def)
    then have "split_result m ms len s m' (n' # ms) s"
      using assms(1,2) mb nb no False by (simp add: split_result_def m'_def)
    then show ?thesis
      unfolding eq by (intro exI conjI) (rule refl, assumption, simp_all add: m'_def n'_def)
  qed
qed

lemma m_split_plain_spec:
  assumes "mb_ok s" "chain_ok s (m # ms)" "0 \<le> len" "len \<le> m_len m"
  shows "(how = M_WAIT \<and> m_split_plain how m ms len s = Inl Sleeps) \<or>
    (\<exists>m' r t s'. m_split_plain how m ms len s = Inr (m', r, t, s')
      \<and> ((t = [] \<and> m' = m \<and> r = ms \<and> s' = s \<and> mb_avail s = 0)
        \<or> (r = [] \<and> split_result m ms len s m' t s' \<and> m_flags m' = m_flags m
           \<and> mb_avail s' + int (length t) = mb_avail s + int (length ms))))"
proof (cases "m_len m - len = 0")
  case True
  have "len = int (length (m_bytes s m))" using True m_bytes_length [of s m] assms(2) by simp
  then have "split_result m ms len s m ms s"
    using assms(1,2) by (auto simp: split_result_def)
  then show ?thesis using True by (simp add: m_split_plain_def)
next
  case ne: False
  show ?thesis
  proof (cases "MGET how (m_type m) s")
    case (Inl e)
    then have "how = M_WAIT" "e = Sleeps"
      by (auto simp: MGET_def m_alloc_def split: list.splits if_splits)
    then show ?thesis using Inl ne by (simp add: m_split_plain_def)
  next
    case (Inr r)
    obtain n s1 where get: "MGET how (m_type m) s = Inr (n, s1)" using Inr by (cases r) auto
    note G = MGET_cases [OF assms(1) get]
    show ?thesis
    proof (cases n)
      case None
      then show ?thesis using get G ne by (auto simp: m_split_plain_def)
    next
      case (Some n0)
      define n1 where "n1 = M_ALIGN n0 (m_len m - len)"
      have G': "mb_ok s1" "mb_clust s1 = mb_clust s" "mclrefcnt s1 = mclrefcnt s"
        "mb_avail s = mb_avail s1 + 1" "int (length (m_dat n0)) = MLEN" "m_data n0 = 0"
        "m_flags n0 = {}"
        using G Some by auto
      note cong = clust_cong [OF G'(2)]
      have n1: "int (length (m_dat n1)) = MLEN" "M_EXT \<notin> m_flags n1" "M_PKTHDR \<notin> m_flags n1"
        using G' by (simp_all add: n1_def M_ALIGN_def)
      have fit: "M_EXT \<notin> m_flags m \<longrightarrow> 0 \<le> m_data n1 \<and> m_data n1 + (m_len m - len) \<le> MLEN
          \<and> (M_PKTHDR \<in> m_flags n1 \<longrightarrow> MLEN - MHLEN \<le> m_data n1)"
      proof
        assume "M_EXT \<notin> m_flags m"
        then have "m_len m - len \<le> MLEN" using assms(2,3) by (auto simp: mbuf_ok_def m_storage_def)
        then show "0 \<le> m_data n1 \<and> m_data n1 + (m_len m - len) \<le> MLEN
            \<and> (M_PKTHDR \<in> m_flags n1 \<longrightarrow> MLEN - MHLEN \<le> m_data n1)"
          using n1(3) G'(6) assms(4) by (simp add: n1_def M_ALIGN_def mbuf_sizes)
      qed
      have "chain_ok s1 (m # ms)" using assms(2) unfolding cong .
      from m_split_tail_spec [OF G'(1) this assms(3,4) n1(1,2) fit]
      obtain m' n' s' where r: "m_split_tail n1 m ms len s1 = Inr (m', n' # ms, s')"
        "split_result m ms len s1 m' (n' # ms) s'" "mb_avail s' = mb_avail s1" "m_flags m' = m_flags m"
        by blast
      have "split_result m ms len s m' (n' # ms) s'"
        using r(2) G'(2,3) unfolding split_result_def cong by (simp add: unaccounted_def)
      then show ?thesis using r ne get Some G'(4) by (simp add: m_split_plain_def n1_def)
    qed
  qed
qed

text \<open>From a split mbuf to the split chain; the header of the first mbuf may change.\<close>

lemma split_result_chain:
  assumes "split_result m ms len s m' t s'" "chain_ok s p" "0 \<le> len"
    and "int (length (chain_bytes s p)) + len = len0"
    and "len \<le> int (length (m_bytes s m))"
  shows "chain_ok s' (p @ m' # t) \<and> chain_bytes s' (p @ [m']) = take (nat len0) (chain_bytes s (p @ m # ms))
    \<and> chain_bytes s' t = drop (nat len0) (chain_bytes s (p @ m # ms))
    \<and> unaccounted s' (p @ m' # t) = unaccounted s (p @ m # ms)"
proof -
  have cl: "mb_clust s' = mb_clust s" using assms(1) by (simp add: split_result_def)
  note cong = clust_cong [OF cl]
  have n: "nat len0 = length (chain_bytes s p) + nat len" "nat len \<le> length (m_bytes s m)"
    using assms(3-5) by linarith+
  have u: "unaccounted s' t k = unaccounted s ms k" for k
    using assms(1) by (simp add: split_result_def)
  show ?thesis
    using assms(1,2) n u unfolding split_result_def cong
    by (auto simp: unaccounted_def fun_eq_iff algebra_simps)
qed

lemma set_pkt_len:
  fixes n :: int
  assumes "c \<noteq> []"
  defines "c' \<equiv> (hd c)\<lparr>pkt_len := n\<rparr> # tl c"
  shows "chain_ok s c' = chain_ok s c" "chain_bytes s c' = chain_bytes s c"
    "clrefs c' k = clrefs c k" "length c' = length c" "pkt_len (hd c') = n"
  using assms by (cases c; simp)+

text \<open>What a split leaves: two well-formed chains with the bytes of the given one, of which
  the first has \<open>len0\<close> when there is a second.\<close>

definition split_ok ::
  "mbuf list \<Rightarrow> int \<Rightarrow> mbstate \<Rightarrow> mbuf list \<Rightarrow> mbuf list \<Rightarrow> mbstate \<Rightarrow> bool"
where
  "split_ok m0 len0 s c t s' \<longleftrightarrow> same_data s m0 s' (c @ t)
     \<and> (t \<noteq> [] \<longrightarrow> int (length (chain_bytes s' c)) = len0)"

lemma split_okI:
  assumes sr: "split_result m ms len s1 m' t s'" "mb_clust s1 = mb_clust s" "mclrefcnt s1 = mclrefcnt s"
    and "chain_ok s (p @ m # ms)" "0 \<le> len" "len \<le> m_len m"
    and "int (length (chain_bytes s p)) + len = len0"
    and "mb_avail s' + int (length t) = mb_avail s + int (length ms)"
    and c: "chain_ok s' c = chain_ok s' (p @ [m'])" "chain_bytes s' c = chain_bytes s' (p @ [m'])"
      "\<And>k. clrefs c k = clrefs (p @ [m']) k" "length c = length (p @ [m'])"
  shows "split_ok (p @ m # ms) len0 s c t s'"
proof -
  have blen: "int (length (m_bytes s m)) = m_len m" using assms(4) m_bytes_length by simp
  note cong = clust_cong [OF assms(2)]
  have "split_result m ms len s m' t s'"
    using sr unfolding split_result_def cong by (simp add: unaccounted_def)
  from split_result_chain [OF this _ assms(5,7)]
  have S: "chain_ok s' (p @ m' # t)" "chain_bytes s' (p @ [m']) = take (nat len0) (chain_bytes s (p @ m # ms))"
    "chain_bytes s' t = drop (nat len0) (chain_bytes s (p @ m # ms))"
    "unaccounted s' (p @ m' # t) = unaccounted s (p @ m # ms)"
    using assms(4,6) blen by auto
  have ok: "chain_ok s' (c @ t)"
  proof -
    have "chain_ok s' (p @ [m'])" "chain_ok s' t" using S(1) by auto
    then show ?thesis using c(1) by auto
  qed
  have bytes: "chain_bytes s' (c @ t) = chain_bytes s (p @ m # ms)"
    by (simp only: chain_bytes_simps(3) [of s' c t] c(2) S(2,3) append_take_drop_id)
  have "unaccounted s' (c @ t) = unaccounted s' (p @ m' # t)"
    unfolding unaccounted_def clrefs_simps(3) [of c t] c(3) by (simp add: add.assoc)
  then have u: "unaccounted s' (c @ t) = unaccounted s (p @ m # ms)" using S(4) by simp
  have len: "int (length (chain_bytes s' c)) = len0"
    using c(2) S(2) assms(5-7) blen by simp
  have "mb_ok s'" "mb_clust s' = mb_clust s"
    using sr(1,2) by (simp_all add: split_result_def)
  then show ?thesis
    using ok bytes u len assms(8) c(4) by (simp add: split_ok_def same_data_def)
qed

lemma split_ok_none:
  assumes "mb_ok s" "chain_ok s c" shows "split_ok c len0 s c [] s"
  using assms by (simp add: split_ok_def same_data_def)

lemma m_split_spec:
  assumes "mb_ok s" "chain_ok s m0" "m0 \<noteq> []" "0 \<le> len0" "len0 < 2 ^ 31"
    and small: "M_PKTHDR \<in> m_flags (hd m0) \<longrightarrow> (\<forall>m \<in> set m0. M_EXT \<notin> m_flags m \<longrightarrow> m_len m \<le> MHLEN)"
  shows "(how = M_WAIT \<and> m_split m0 len0 how s = Inl Sleeps) \<or>
    (\<exists>c t s'. m_split m0 len0 how s = Inr (c, t, s') \<and> split_ok m0 len0 s c t s'
      \<and> (M_PKTHDR \<in> m_flags (hd m0) \<and> t \<noteq> [] \<longrightarrow>
           pkt_len (hd c) = len0 \<and> pkt_len (hd t) = pkt_len (hd m0) - len0)
      \<and> (0 < mb_avail s \<and> len0 < int (length (chain_bytes s m0)) \<longrightarrow> t \<noteq> []))"
proof -
  have u: "u_int len0 = len0" using assms(4,5) by (simp add: u_int_def)
  show ?thesis
  proof (cases "m_split_at len0 m0")
    case None
    then show ?thesis
      using m_split_at_None [OF assms(2,3), of len0] split_ok_none [OF assms(1,2), of len0]
      by (simp add: m_split_def u)
  next
    case (Some r)
    then obtain p m ms len where at: "m_split_at len0 m0 = Some (p, m, ms, len)" by (cases r) auto
    note A = m_split_at_Some [OF assms(2,4) at]
    have m0: "m0 = p @ m # ms" and len: "0 \<le> len" "len \<le> m_len m"
      "int (length (chain_bytes s p)) + len = len0"
      using A by blast+
    have ok: "chain_ok s (p @ m # ms)" "chain_ok s (m # ms)" using assms(2) by (simp_all add: m0)
    show ?thesis
    proof (cases "M_PKTHDR \<in> m_flags (hd m0)")
      case plain: False
      have eq: "m_split m0 len0 how s =
          bindE (m_split_plain how m ms len s) (\<lambda>(m, ms, t, s). Inr (p @ m # ms, t, s))"
        using plain by (simp add: m_split_def u at)
      consider (sleep) "how = M_WAIT" "m_split_plain how m ms len s = Inl Sleeps"
        | (none) "m_split_plain how m ms len s = Inr (m, ms, [], s)" "mb_avail s = 0"
        | (split) m' t s' where "m_split_plain how m ms len s = Inr (m', [], t, s')"
          "split_result m ms len s m' t s'"
          "mb_avail s' + int (length t) = mb_avail s + int (length ms)"
        using m_split_plain_spec [OF assms(1) ok(2) len(1,2), of how] by blast
      then show ?thesis
      proof cases
        case sleep
        then show ?thesis using eq by simp
      next
        case none
        have e: "m_split m0 len0 how s = Inr (m0, [], s)" unfolding eq none(1) by (simp add: m0)
        show ?thesis
          unfolding e using split_ok_none [OF assms(1,2), of len0] plain none(2) by simp
      next
        case (split m' t s')
        have "split_ok m0 len0 s (p @ [m']) t s'"
          unfolding m0 by (rule split_okI [OF split(2) refl refl ok(1) len split(3)]) simp_all
        moreover have "t \<noteq> []" if "len0 < int (length (chain_bytes s m0))"
        proof
          assume "t = []"
          then have "drop (nat len) (m_bytes s m) @ chain_bytes s ms = []"
            using split(2) by (simp add: split_result_def)
          then show False
            using that len m_bytes_length [of s m] ok(2) by (simp add: m0 le_nat_iff)
        qed
        ultimately show ?thesis using split(1) plain by (simp add: eq)
      qed
    next
      case hdr: True
      show ?thesis
      proof (cases "MGETHDR how (m_type (hd m0)) s")
        case (Inl e)
        then have "how = M_WAIT" "e = Sleeps"
          by (auto simp: MGETHDR_def m_alloc_def split: list.splits if_splits)
        then show ?thesis using Inl hdr by (simp add: m_split_def u at)
      next
        case (Inr r)
        obtain n s1 where get: "MGETHDR how (m_type (hd m0)) s = Inr (n, s1)" using Inr by (cases r) auto
        note G = MGETHDR_cases [OF assms(1) get]
        show ?thesis
        proof (cases n)
          case None
          then show ?thesis
            using get G hdr split_ok_none [OF assms(1,2), of len0] by (simp add: m_split_def u at)
        next
          case (Some n0)
          define n1 where "n1 = n0\<lparr>pkt_rcvif := pkt_rcvif (hd m0), pkt_len := pkt_len (hd m0) - len0\<rparr>"
          define n2 where "n2 = (if M_EXT \<in> m_flags m then n1 else MH_ALIGN n1 (m_len m - len))"
          have G': "mb_ok s1" "mb_clust s1 = mb_clust s" "mclrefcnt s1 = mclrefcnt s"
            "mb_avail s = mb_avail s1 + 1" "int (length (m_dat n0)) = MLEN"
            "m_data n0 = MLEN - MHLEN" "m_flags n0 = {M_PKTHDR}"
            using G Some by auto
          have n2: "int (length (m_dat n2)) = MLEN" "M_EXT \<notin> m_flags n2"
            "pkt_len n2 = pkt_len (hd m0) - len0"
            using G' by (simp_all add: n2_def n1_def MH_ALIGN_def)
          have rem: "M_EXT \<notin> m_flags m \<longrightarrow> m_len m - len \<le> MHLEN"
            using small hdr len(1) by (auto simp: m0)
          have fit: "M_EXT \<notin> m_flags m \<longrightarrow> 0 \<le> m_data n2 \<and> m_data n2 + (m_len m - len) \<le> MLEN
              \<and> (M_PKTHDR \<in> m_flags n2 \<longrightarrow> MLEN - MHLEN \<le> m_data n2)"
          proof
            assume ne: "M_EXT \<notin> m_flags m"
            then have "m_len m - len \<le> MHLEN" using rem by simp
            then show "0 \<le> m_data n2 \<and> m_data n2 + (m_len m - len) \<le> MLEN
                \<and> (M_PKTHDR \<in> m_flags n2 \<longrightarrow> MLEN - MHLEN \<le> m_data n2)"
              using ne G' len(2) by (simp add: n2_def n1_def MH_ALIGN_def mbuf_sizes)
          qed
          have "chain_ok s1 (m # ms)" using ok(2) unfolding clust_cong [OF G'(2)] .
          from m_split_tail_spec [OF G'(1) this len(1,2) n2(1,2) fit]
          obtain m' n' s' where r: "m_split_tail n2 m ms len s1 = Inr (m', n' # ms, s')"
            "split_result m ms len s1 m' (n' # ms) s'" "mb_avail s' = mb_avail s1"
            "pkt_len n' = pkt_len n2"
            by blast
          define c where "c = (hd (p @ [m']))\<lparr>pkt_len := len0\<rparr> # tl (p @ [m'])"
          have eq: "m_split m0 len0 how s = Inr (c, n' # ms, s')"
            using hdr get Some rem r(1) by (auto simp: m_split_def u at n2_def n1_def c_def Let_def)
          have c: "chain_ok s' c = chain_ok s' (p @ [m'])" "chain_bytes s' c = chain_bytes s' (p @ [m'])"
            "clrefs c k = clrefs (p @ [m']) k" "length c = length (p @ [m'])" "pkt_len (hd c) = len0" for k
            unfolding c_def by (rule set_pkt_len; simp)+
          have "split_ok m0 len0 s c (n' # ms) s'"
            unfolding m0
            by (rule split_okI [OF r(2) G'(2,3) ok(1) len _ c(1,2) c(3) c(4)]) (use r(3) G'(4) in simp)
          then show ?thesis using eq c(5) r(4) n2(3) by simp
        qed
      qed
    qed
  qed
qed

text \<open>\<open>m_split\<close> divides a chain at byte \<open>len0\<close>: the two chains together have the
  bytes of the given one and hold every mbuf and cluster reference, the first has \<open>len0\<close>
  bytes whenever there is a second, and both packet headers say how long their chains are.
  There is a second one whenever bytes are left for it and an mbuf is to be had. This is for
  chains whose small mbufs hold at most \<open>MHLEN\<close> bytes when there is a packet header.\<close>

theorem m_split_correct:
  assumes "mb_ok s" "chain_ok s m0" "m0 \<noteq> []" "0 \<le> len0" "len0 < 2 ^ 31"
    and "M_PKTHDR \<in> m_flags (hd m0) \<longrightarrow> (\<forall>m \<in> set m0. M_EXT \<notin> m_flags m \<longrightarrow> m_len m \<le> MHLEN)"
  shows "\<exists>c t s'. m_split m0 len0 M_DONTWAIT s = Inr (c, t, s') \<and> mb_ok s' \<and> chain_ok s' (c @ t)
    \<and> chain_bytes s' (c @ t) = chain_bytes s m0
    \<and> (t \<noteq> [] \<longrightarrow> int (length (chain_bytes s' c)) = len0)
    \<and> unaccounted s' (c @ t) = unaccounted s m0
    \<and> mb_avail s' + int (length (c @ t)) = mb_avail s + int (length m0)
    \<and> (M_PKTHDR \<in> m_flags (hd m0) \<and> t \<noteq> [] \<longrightarrow>
         pkt_len (hd c) = len0 \<and> pkt_len (hd t) = pkt_len (hd m0) - len0)
    \<and> (0 < mb_avail s \<and> len0 < int (length (chain_bytes s m0)) \<longrightarrow> t \<noteq> [])"
proof -
  have "M_DONTWAIT \<noteq> M_WAIT" by simp
  then obtain c t s' where r: "m_split m0 len0 M_DONTWAIT s = Inr (c, t, s')" "split_ok m0 len0 s c t s'"
    "M_PKTHDR \<in> m_flags (hd m0) \<and> t \<noteq> [] \<longrightarrow> pkt_len (hd c) = len0 \<and> pkt_len (hd t) = pkt_len (hd m0) - len0"
    "0 < mb_avail s \<and> len0 < int (length (chain_bytes s m0)) \<longrightarrow> t \<noteq> []"
    using m_split_spec [OF assms, of M_DONTWAIT] by blast
  then show ?thesis unfolding split_ok_def same_data_def by blast
qed

text \<open>Otherwise the tail can begin with an mbuf whose length was never set: when the split
  falls into a small mbuf behind the first that keeps more than \<open>MHLEN\<close> bytes, the new
  packet header mbuf has the length its memory last had.\<close>

theorem m_split_lead_length_unset:
  assumes "mb_ok s" "chain_ok s (p @ m # ms)" "p \<noteq> []" "M_PKTHDR \<in> m_flags (hd p)" "M_EXT \<notin> m_flags m"
    and "m_split_at (u_int len0) (p @ m # ms) = Some (p, m, ms, len)" "MHLEN < m_len m - len"
    and "mb_free s = f # g # fs"
  shows "\<exists>c t s'. m_split (p @ m # ms) len0 how s = Inr (c, t, s') \<and> t \<noteq> [] \<and> m_len (hd t) = m_len f"
proof -
  define n where "n = f\<lparr>m_type := m_type (hd p), m_data := MLEN - MHLEN, m_flags := {M_PKTHDR},
    pkt_rcvif := pkt_rcvif (hd p), pkt_len := pkt_len (hd p) - len0\<rparr>"
  define s1 where "s1 = s\<lparr>mb_free := g # fs\<rparr>"
  have len: "0 \<le> len" "len \<le> m_len m"
    using m_split_at_Some [OF assms(2) _ assms(6)] by (auto simp: u_int_def)
  have s1: "mb_ok s1" "mb_clust s1 = mb_clust s" "mb_avail s1 \<noteq> 0"
    using assms(1,8) by (auto simp: s1_def mb_ok_def mb_avail_def)
  have "chain_ok s1 (m # ms)" using assms(2) unfolding clust_cong [OF s1(2)] by simp
  moreover have "m_split_plain how m ms len s1 \<noteq> Inl Sleeps"
    using assms(5,7) len \<open>chain_ok s1 (m # ms)\<close>
    by (auto simp: m_split_plain_def MGET_def m_alloc_def s1_def m_split_tail_def Let_def m_bcopy_def
        bcopy_def M_ALIGN_def mbuf_sizes)
  ultimately obtain m' t s' where r: "m_split_plain how m ms len s1 = Inr (m', [], t, s')"
    "split_result m ms len s1 m' t s'"
    using m_split_plain_spec [OF s1(1) _ len, of ms how] s1(3) by blast
  have ne: "t \<noteq> []"
  proof
    assume "t = []"
    then have "drop (nat len) (m_bytes s1 m) = []" using r(2) by (simp add: split_result_def)
    then show False
      using assms(7) len m_bytes_length [of s1 m] \<open>chain_ok s1 (m # ms)\<close> by (simp add: mbuf_sizes)
  qed
  have "hd (p @ m # ms) = hd p" using assms(3) by simp
  then have "m_split (p @ m # ms) len0 how s
    = Inr ((hd (p @ [m']))\<lparr>pkt_len := len0\<rparr> # tl (p @ [m']), MH_ALIGN n 0 # t, s')"
    using assms(3-8) r(1) ne
    by (simp add: m_split_def MGETHDR_def m_alloc_def Let_def s1_def n_def)
  then show ?thesis by (simp add: MH_ALIGN_def n_def)
qed

section \<open>Concrete chains\<close>

text \<open>An mbuf with \<open>n\<close> bytes of its own from offset \<open>d\<close> on, and a store with two free
  mbufs and one cluster, shared by two mbufs.\<close>

definition ex_mbuf :: "mflag set \<Rightarrow> int \<Rightarrow> int \<Rightarrow> mbuf" where
  "ex_mbuf fl d n = \<lparr>m_len = n, m_data = d, m_type = MT_DATA, m_flags = fl, pkt_len = 14,
     pkt_rcvif = 0, ext_buf = 0, ext_size = 0, m_dat = replicate 108 7\<rparr>"

definition ex_mbstate :: mbstate where
  "ex_mbstate = \<lparr>mb_free = [ex_mbuf {} 0 0, ex_mbuf {} 0 0], mb_drain = [],
     mb_clust = (\<lambda>_. replicate 1024 9), mclrefcnt = (\<lambda>k. if k = 0 then 1 else 0), mclfree = [],
     MCFail = 0, MPFail = 0, max_protohdr = 40, max_linkhdr = 16\<rparr>"

definition ex_chain :: "mbuf list" where
  "ex_chain = [ex_mbuf {M_PKTHDR} 20 4, ex_mbuf {M_EXT} 100 10]"

lemma ex_chain_facts:
  "chain_ok ex_mbstate ex_chain" "mb_ok ex_mbstate" "ex_chain \<noteq> []" "length ex_chain = 2"
  "chain_bytes ex_mbstate ex_chain = replicate 4 7 @ replicate 10 9"
  "pkt_consistent ex_mbstate ex_chain" "m_len (last ex_chain) = 10"
  by (simp_all add: ex_chain_def ex_mbuf_def ex_mbstate_def mbuf_ok_def m_storage_def mb_ok_def
      m_bytes_def window_def mbuf_sizes pkt_consistent_def)

lemma m_copydata_correct_witness:
  "m_copydata ex_chain 2 5 ex_mbstate = Inr [7, 7, 9, 9, 9]"
  using m_copydata_correct [of ex_chain ex_mbstate 2 5] ex_chain_facts
  by (simp add: numeral_eq_Suc)

lemma m_copym_correct_witness:
  "\<exists>c' s'. m_copym ex_chain 2 5 M_DONTWAIT ex_mbstate = Inr (c', s')
    \<and> (c' = [] \<or> chain_bytes s' c' = [7, 7, 9, 9, 9])"
  using m_copym_correct [of ex_chain ex_mbstate 2 5] ex_chain_facts
  by (auto simp: numeral_eq_Suc mbuf_sizes)

lemma m_adj_bytes_witness:
  "chain_bytes ex_mbstate (m_adj ex_chain 6) = replicate 8 9
   \<and> chain_bytes ex_mbstate (m_adj ex_chain (- 12)) = replicate 2 7"
  using m_adj_bytes [of ex_chain ex_mbstate 6] m_adj_bytes [of ex_chain ex_mbstate "- 12"]
    ex_chain_facts
  by (simp add: numeral_eq_Suc)

lemma m_adj_head_consistent_witness:
  "pkt_consistent ex_mbstate (m_adj ex_chain 6)"
  using m_adj_head_consistent [of ex_chain ex_mbstate 6] ex_chain_facts by simp

lemma m_adj_tail_stale_length_witness:
  "\<not> pkt_consistent ex_mbstate (m_adj ex_chain (- 3))"
  using m_adj_tail_stale_length [of ex_chain ex_mbstate "- 3"] ex_chain_facts by simp

lemma m_cat_appends_witness:
  "\<exists>c s'. m_cat [ex_mbuf {} 0 3] ex_chain ex_mbstate = Inr (c, s')
    \<and> chain_bytes s' c = replicate 7 7 @ replicate 10 9"
proof -
  have "chain_ok ex_mbstate [ex_mbuf {} 0 3]" "chain_bytes ex_mbstate [ex_mbuf {} 0 3] = replicate 3 7"
    by (simp_all add: ex_mbuf_def ex_mbstate_def mbuf_ok_def m_storage_def m_bytes_def window_def mbuf_sizes)
  then show ?thesis
    using m_cat_appends [OF ex_chain_facts(2) _ ex_chain_facts(1), of "[ex_mbuf {} 0 3]"]
      ex_chain_facts(5)
    by (auto simp: numeral_eq_Suc)
qed

lemma m_pullup_correct_witness:
  "\<exists>c' s'. m_pullup ex_chain 8 ex_mbstate = Inr (c', s') \<and> 8 \<le> m_len (hd c')
    \<and> chain_bytes s' c' = replicate 4 7 @ replicate 10 9"
proof -
  have a: "0 \<le> max_protohdr ex_mbstate" "0 < mb_avail ex_mbstate"
    by (simp_all add: ex_mbstate_def mb_avail_def)
  have b: "8 \<le> MHLEN \<and> 8 \<le> int (length (chain_bytes ex_mbstate ex_chain)) \<and> 0 < mb_avail ex_mbstate"
    using a by (simp add: ex_chain_facts mbuf_sizes)
  obtain c' s' where "m_pullup ex_chain 8 ex_mbstate = Inr (c', s')"
    and "if c' = [] then MPFail s' = MPFail ex_mbstate + 1
       else MPFail s' = MPFail ex_mbstate \<and> chain_bytes s' c' = chain_bytes ex_mbstate ex_chain
         \<and> M_EXT \<notin> m_flags (hd c') \<and> 8 \<le> m_len (hd c')" and "c' \<noteq> []"
    using m_pullup_correct [of ex_mbstate ex_chain 8] ex_chain_facts(1-3) a(1) b by force
  then show ?thesis using ex_chain_facts(5) by auto
qed

lemma m_split_correct_witness:
  "\<exists>c t s'. m_split ex_chain 6 M_DONTWAIT ex_mbstate = Inr (c, t, s')
    \<and> int (length (chain_bytes s' c)) = 6
    \<and> chain_bytes s' (c @ t) = replicate 4 7 @ replicate 10 9"
proof -
  have a: "0 < mb_avail ex_mbstate" by (simp add: ex_mbstate_def mb_avail_def)
  have b: "M_PKTHDR \<in> m_flags (hd ex_chain) \<longrightarrow>
      (\<forall>m \<in> set ex_chain. M_EXT \<notin> m_flags m \<longrightarrow> m_len m \<le> MHLEN)"
    by (simp add: ex_chain_def ex_mbuf_def mbuf_sizes)
  obtain c t s' where r: "m_split ex_chain 6 M_DONTWAIT ex_mbstate = Inr (c, t, s')"
    "chain_bytes s' (c @ t) = chain_bytes ex_mbstate ex_chain"
    "t \<noteq> [] \<longrightarrow> int (length (chain_bytes s' c)) = 6"
    "0 < mb_avail ex_mbstate \<and> 6 < int (length (chain_bytes ex_mbstate ex_chain)) \<longrightarrow> t \<noteq> []"
    using m_split_correct [of ex_mbstate ex_chain 6] ex_chain_facts(1-3) b by force
  then have "t \<noteq> []" using a by (simp add: ex_chain_facts(5))
  then show ?thesis using r ex_chain_facts(5) by auto
qed

lemma m_split_lead_length_unset_witness:
  "\<exists>c t s'. m_split [ex_mbuf {M_PKTHDR} 20 4, ex_mbuf {} 0 108] 5 M_DONTWAIT ex_mbstate = Inr (c, t, s')
    \<and> m_len (hd t) = 0"
proof -
  have "chain_ok ex_mbstate ([ex_mbuf {M_PKTHDR} 20 4] @ ex_mbuf {} 0 108 # [])"
    "m_split_at (u_int 5) ([ex_mbuf {M_PKTHDR} 20 4] @ ex_mbuf {} 0 108 # [])
      = Some ([ex_mbuf {M_PKTHDR} 20 4], ex_mbuf {} 0 108, [], 1)"
    by (simp_all add: ex_mbuf_def ex_mbstate_def mbuf_ok_def m_storage_def mbuf_sizes u_int_def)
  from m_split_lead_length_unset [OF ex_chain_facts(2) this(1) _ _ _ this(2), of "ex_mbuf {} 0 0"]
  show ?thesis by (force simp: ex_mbuf_def ex_mbstate_def mbuf_sizes)
qed

end
