(* ===== verification/Cksum.thy ===== *)
theory Cksum
  imports Mbuf_Laws
begin

text \<open>
  The Internet checksum over a chain of buffers, \<open>sys/netinet/in_cksum.c\<close>. The code adds
  16-bit words as they lie in memory, with a saved byte for words that span two buffers and
  byte-swapped sums for buffers at odd addresses. The model is over any buffers with a length,
  bytes and an address parity; \<open>be\<close> says how two bytes make a \<open>u_short\<close>. The local
  \<open>sum\<close> is an \<open>int\<close>: additions wrap. A read past the bytes of a buffer is
  \<open>BadAccess\<close>. \<open>REDUCE\<close> goes through the two halves of a 32-bit \<open>long\<close>.
\<close>

section \<open>The code\<close>

definition u_short :: "bool \<Rightarrow> byte \<Rightarrow> byte \<Rightarrow> int" where
  "u_short be a b = (if be then 256 * uint a + uint b else uint a + 256 * uint b)"

text \<open>\<open>REDUCE\<close>, with \<open>ADDCARRY\<close>.\<close>

definition REDUCE :: "int \<Rightarrow> int" where
  "REDUCE sm =
     (let s = u_int sm mod 65536 + u_int sm div 65536
      in if 65535 < s then s - 65535 else s)"

text \<open>\<open>n\<close> statements \<open>sum += *w++\<close>.\<close>

fun cksum_words :: "bool \<Rightarrow> nat \<Rightarrow> byte list \<Rightarrow> int \<Rightarrow> (int \<times> byte list) kres" where
  "cksum_words be 0 w sm = Inr (sm, w)"
| "cksum_words be (Suc n) (a # b # w) sm = cksum_words be n w (s_int (sm + u_short be a b))"
| "cksum_words be (Suc n) _ sm = Inl BadAccess"

text \<open>The loops \<open>while ((mlen -= 2 * k) >= 0)\<close>, each adding \<open>k > 0\<close> words; the result
  has the value of \<open>mlen\<close> after the last subtraction.\<close>

function cksum_while :: "bool \<Rightarrow> nat \<Rightarrow> int \<Rightarrow> byte list \<Rightarrow> int \<Rightarrow> (int \<times> byte list \<times> int) kres" where
  "cksum_while be k mlen w sm =
     (if 0 < k \<and> 0 \<le> mlen - 2 * int k
      then case cksum_words be k w sm of
             Inl e \<Rightarrow> Inl e
           | Inr (sm', w') \<Rightarrow> cksum_while be k (mlen - 2 * int k) w' sm'
      else Inr (sm, w, mlen - 2 * int k))"
  by pat_completeness auto
termination by (relation "measure (\<lambda>(be, k, mlen, w, sm). nat mlen)") auto

text \<open>
  The body of the loop over the buffers. \<open>c0\<close> is \<open>s_util.c[0]\<close>; \<open>mlen\<close> is -1 when
  it waits for its second byte. \<open>cksum_loops\<close> is the part from the unrolled loops on: the
  last words, and the last byte.
\<close>

definition cksum_loops ::
  "bool \<Rightarrow> int \<Rightarrow> byte list \<Rightarrow> int \<Rightarrow> byte \<Rightarrow> bool \<Rightarrow> (int \<times> int \<times> byte) kres"
where
  "cksum_loops be sm w mlen c0 swapped =
     bindE (cksum_while be 16 mlen w sm) (\<lambda>(sm, w, mlen).
     bindE (cksum_while be 4 (mlen + 32) w sm) (\<lambda>(sm, w, mlen).
     let mlen = mlen + 8
     in if mlen = 0 \<and> \<not> swapped then Inr (sm, mlen, c0)
        else
          bindE (cksum_while be 1 mlen w (REDUCE sm)) (\<lambda>(sm, w, mlen).
          if swapped then
            let sm = s_int (REDUCE sm * 256)
            in if mlen = - 1
               then case w of [] \<Rightarrow> Inl BadAccess
                    | x # _ \<Rightarrow> Inr (s_int (sm + u_short be c0 x), 0, c0)
               else Inr (sm, - 1, c0)
          else if mlen = - 1
               then case w of [] \<Rightarrow> Inl BadAccess | x # _ \<Rightarrow> Inr (sm, mlen, x)
               else Inr (sm, mlen, c0))))"

text \<open>The word spanning from the buffer before, the limit \<open>len\<close>, and an odd start.\<close>

definition cksum_buf ::
  "bool \<Rightarrow> bool \<Rightarrow> int \<Rightarrow> byte list \<Rightarrow> int \<times> int \<times> byte \<times> int \<Rightarrow> (int \<times> int \<times> byte \<times> int) kres"
where
  "cksum_buf be oddp n w = (\<lambda>(sm, mlen, c0, len).
     bindE (if mlen = - 1
            then case w of [] \<Rightarrow> Inl BadAccess
                 | x # w \<Rightarrow> Inr (s_int (sm + u_short be c0 x), w, n - 1, len - 1, \<not> oddp)
            else Inr (sm, w, n, len, oddp)) (\<lambda>(sm, w, mlen, len, oddp).
     let mlen = (if len < mlen then len else mlen); len = len - mlen
     in bindE (if oddp \<and> 0 < mlen
               then case w of [] \<Rightarrow> Inl BadAccess
                    | x # w \<Rightarrow> cksum_loops be (s_int (REDUCE sm * 256)) w (mlen - 1) x True
               else cksum_loops be sm w mlen c0 False)
          (\<lambda>(sm, mlen, c0). Inr (sm, mlen, c0, len))))"

fun cksum_chain ::
  "bool \<Rightarrow> ('m \<Rightarrow> int) \<Rightarrow> ('m \<Rightarrow> byte list) \<Rightarrow> ('m \<Rightarrow> bool) \<Rightarrow> 'm list \<Rightarrow> int \<times> int \<times> byte \<times> int
    \<Rightarrow> (int \<times> int \<times> byte \<times> int) kres"
where
  "cksum_chain be mlen bytes oddp [] st = Inr st"
| "cksum_chain be mlen bytes oddp (m # ms) st =
     (if snd (snd (snd st)) = 0 then Inr st
      else if mlen m = 0 then cksum_chain be mlen bytes oddp ms st
      else bindE (cksum_buf be (oddp m) (mlen m) (bytes m) st) (cksum_chain be mlen bytes oddp ms))"

text \<open>The code after the loop; \<open>~sum & 0xffff\<close>.\<close>

definition cksum_final :: "bool \<Rightarrow> int \<times> int \<times> byte \<times> int \<Rightarrow> int" where
  "cksum_final be = (\<lambda>(sm, mlen, c0, len).
     let sm = REDUCE (if mlen = - 1 then s_int (sm + u_short be c0 0) else sm)
     in (- 1 - sm) mod 65536)"

text \<open>
  \<open>in_cksum\<close> on an mbuf chain. Mbufs and clusters start at even addresses, and \<open>m_dat\<close>
  is at an even offset, so the parity of an address is that of the offset \<open>m_data\<close>.
\<close>

definition in_cksum :: "bool \<Rightarrow> mbstate \<Rightarrow> mbuf list \<Rightarrow> int \<Rightarrow> int kres" where
  "in_cksum be s m len =
     bindE (cksum_chain be m_len (m_bytes s) (\<lambda>m. odd (m_data m)) m (0, 0, 0, len))
       (\<lambda>st. Inr (cksum_final be st))"

section \<open>The reference\<close>

text \<open>The sum of the 16-bit words of a byte string, padded with a zero byte.\<close>

fun word_sum :: "bool \<Rightarrow> byte list \<Rightarrow> int" where
  "word_sum be [] = 0"
| "word_sum be [a] = u_short be a 0"
| "word_sum be (a # b # w) = u_short be a b + word_sum be w"

text \<open>Its one's complement sum, in the representation where only the sum of nothing but zero
  words is 0.\<close>

definition fold16 :: "int \<Rightarrow> int" where
  "fold16 x = (if x = 0 then 0 else (x - 1) mod 65535 + 1)"

section \<open>Congruence modulo the end-around carry\<close>

text \<open>Numbers with the same one's complement representation.\<close>

definition eqv :: "int \<Rightarrow> int \<Rightarrow> bool" where
  "eqv x y \<longleftrightarrow> 0 \<le> x \<and> 0 \<le> y \<and> x mod 65535 = y mod 65535 \<and> (x = 0 \<longleftrightarrow> y = 0)"

lemma eqv_refl: "0 \<le> x \<Longrightarrow> eqv x x"
  by (simp add: eqv_def)

lemma eqv_sym: "eqv x y \<Longrightarrow> eqv y x"
  by (simp add: eqv_def)

lemma eqv_trans [trans]: "eqv x y \<Longrightarrow> eqv y z \<Longrightarrow> eqv x z"
  by (simp add: eqv_def)

lemma eqv_add: "eqv x y \<Longrightarrow> eqv u v \<Longrightarrow> eqv (x + u) (y + v)"
  unfolding eqv_def by (metis add_nonneg_eq_0_iff add_nonneg_nonneg mod_add_eq)

lemma eqv_mult: "eqv x y \<Longrightarrow> 0 < k \<Longrightarrow> eqv (k * x) (k * y)"
  unfolding eqv_def by (metis mod_mult_right_eq mult_eq_0_iff mult_nonneg_nonneg order_less_imp_le)

lemma eqv_carry: "0 \<le> x \<Longrightarrow> 0 \<le> y \<Longrightarrow> eqv (x + 65536 * y) (x + y)"
proof -
  assume "0 \<le> x" "0 \<le> y"
  moreover have e: "x + 65536 * y = x + y + y * 65535" by simp
  have "(x + 65536 * y) mod 65535 = (x + y) mod 65535"
    unfolding e by (rule mod_mult_self1)
  ultimately show ?thesis by (auto simp: eqv_def)
qed

lemma eqv_shift_twice: "0 \<le> x \<Longrightarrow> eqv (256 * (256 * x)) x"
  using eqv_carry [of 0 x] by simp

lemma u_short_bounds [simp]: "0 \<le> u_short be a b" "u_short be a b \<le> 65535"
proof -
  have "uint c < 256" for c :: byte using uint_bounded [of c] by simp
  from this [of a] this [of b] show "0 \<le> u_short be a b" "u_short be a b \<le> 65535"
    by (simp_all add: u_short_def)
qed

lemma u_short_swap: "eqv (256 * u_short be a b) (u_short be b a)"
  using eqv_carry [of "256 * uint a" "uint b"] eqv_carry [of "256 * uint b" "uint a"]
  by (simp add: u_short_def algebra_simps)

lemma u_short_exchange: "u_short be a b + u_short be c d = u_short be a d + u_short be c b"
  by (simp add: u_short_def)

lemma REDUCE_eqv:
  assumes "0 \<le> x" "x < 4294967296"
  shows "eqv (REDUCE x) x" "REDUCE x \<le> 65535" "0 \<le> REDUCE x" "REDUCE x \<le> x"
proof -
  define l h where "l = x mod 65536" and "h = x div 65536"
  have x: "x = l + 65536 * h" by (simp add: l_def h_def)
  have b: "0 \<le> l" "l < 65536" "0 \<le> h" "h < 65536"
    using assms by (simp_all add: l_def h_def)
  have r: "REDUCE x = (if 65535 < l + h then l + h - 65535 else l + h)"
    using assms by (simp add: REDUCE_def l_def h_def Let_def)
  have "(l + h - 65535) mod 65535 = (l + h) mod 65535" by simp
  then have "eqv (REDUCE x) (l + h)" using b by (simp add: r eqv_def)
  then show "eqv (REDUCE x) x"
    using eqv_sym [OF eqv_carry [OF b(1,3)]] unfolding x by (rule eqv_trans)
  show "REDUCE x \<le> 65535" "0 \<le> REDUCE x" "REDUCE x \<le> x"
    unfolding r using b by (auto simp: x)
qed

lemma fold16_eqI:
  assumes "eqv r y" "r \<le> 65535"
  shows "r = fold16 y"
proof (cases "r = 0")
  case True
  then show ?thesis using assms by (simp add: eqv_def fold16_def)
next
  case False
  then have r: "0 < r" "0 < y" "r mod 65535 = y mod 65535" using assms by (auto simp: eqv_def)
  then have "(r - 1) mod 65535 = (y - 1) mod 65535" by (metis mod_diff_left_eq)
  then show ?thesis using r assms(2) by (simp add: fold16_def)
qed

section \<open>Sums of words\<close>

lemma word_sum_nonneg [simp]: "0 \<le> word_sum be w"
  by (induction be w rule: word_sum.induct) simp_all

lemma word_sum_append_even:
  "even (length u) \<Longrightarrow> word_sum be (u @ v) = word_sum be u + word_sum be v"
  by (induction be u rule: word_sum.induct) simp_all

lemma word_sum_snoc:
  "odd (length u) \<Longrightarrow> word_sum be (u @ [y]) = word_sum be u + u_short be 0 y"
proof (induction be u rule: word_sum.induct)
  case (2 be a)
  have "u_short be 0 0 = 0" by (simp add: u_short_def)
  then show ?case using u_short_exchange [of be a y 0 0] by simp
qed simp_all

lemma word_sum_Cons: "eqv (word_sum be (x # v)) (u_short be x 0 + 256 * word_sum be v)"
proof (induction be v arbitrary: x rule: word_sum.induct)
  case (1 be)
  then show ?case by (simp add: eqv_refl)
next
  case (2 be a)
  have "u_short be 0 0 = 0" by (simp add: u_short_def)
  then have "word_sum be (x # [a]) = u_short be x 0 + u_short be 0 a"
    using u_short_exchange [of be x a 0 0] by simp
  moreover have "eqv (u_short be 0 a) (256 * u_short be a 0)"
    by (rule eqv_sym [OF u_short_swap])
  ultimately show ?case using eqv_add [OF eqv_refl] by simp
next
  case (3 be a b w)
  have "word_sum be (x # a # b # w) = u_short be x a + word_sum be (b # w)" by simp
  also have "eqv \<dots> (u_short be x a + (u_short be b 0 + 256 * word_sum be w))"
    using 3 [of b] by (intro eqv_add eqv_refl) simp_all
  also have "\<dots> = u_short be x 0 + (u_short be b a + 256 * word_sum be w)"
    using u_short_exchange [of be x a b 0] by simp
  also have "eqv \<dots> (u_short be x 0 + (256 * u_short be a b + 256 * word_sum be w))"
    by (intro eqv_add eqv_refl eqv_sym [OF u_short_swap]) simp_all
  finally show ?case by (simp add: algebra_simps)
qed

lemma word_sum_append_odd:
  "odd (length u) \<Longrightarrow> eqv (word_sum be (u @ v)) (word_sum be u + 256 * word_sum be v)"
proof (induction be u rule: word_sum.induct)
  case (2 be a)
  then show ?case using word_sum_Cons by simp
next
  case (3 be a b w)
  then have "eqv (u_short be a b + word_sum be (w @ v)) (u_short be a b + (word_sum be w + 256 * word_sum be v))"
    by (intro eqv_add eqv_refl) simp_all
  then show ?case by (simp add: algebra_simps)
qed simp

lemma word_sum_bound: "word_sum be w \<le> 65535 * int ((length w + 1) div 2)"
  by (induction be w rule: word_sum.induct) (simp_all add: add_mono)

section \<open>The loops\<close>

lemma cksum_words_spec:
  assumes "2 * n \<le> length w" "0 \<le> sm" "sm + 65535 * int n < 2147483648"
  shows "cksum_words be n w sm = Inr (sm + word_sum be (take (2 * n) w), drop (2 * n) w)"
  using assms
proof (induction n arbitrary: w sm)
  case (Suc n)
  obtain a b v where w: "w = a # b # v"
    using Suc.prems(1) by (cases w; cases "tl w") auto
  have u: "0 \<le> u_short be a b" "u_short be a b \<le> 65535" by simp_all
  moreover have "sm + 65535 < 2147483648" using Suc.prems(3) by simp
  ultimately have s: "s_int (sm + u_short be a b) = sm + u_short be a b"
    using Suc.prems(2) by (intro s_int_id; linarith)
  have "sm + u_short be a b + 65535 * int n < 2147483648"
    using Suc.prems(3) u(2) unfolding of_nat_Suc distrib_left by linarith
  then have "cksum_words be n v (sm + u_short be a b)
      = Inr (sm + u_short be a b + word_sum be (take (2 * n) v), drop (2 * n) v)"
    using Suc.prems(1,2) u(1) by (intro Suc.IH) (simp_all add: w)
  then show ?case by (simp add: w s add.assoc)
qed simp

declare cksum_while.simps [simp del]

text \<open>A loop stops with fewer than \<open>2 * k\<close> bytes to go.\<close>

lemma cksum_while_spec:
  assumes "0 < k" "0 \<le> mlen" "mlen \<le> int (length w)" "0 \<le> sm"
    and "sm + 65535 * (mlen div 2) < 2147483648"
  shows "\<exists>j. cksum_while be k mlen w sm
      = Inr (sm + word_sum be (take (2 * j) w), drop (2 * j) w, mlen - 2 * int j - 2 * int k)
    \<and> 2 * int j \<le> mlen \<and> mlen - 2 * int j < 2 * int k"
  using assms
proof (induction "nat mlen" arbitrary: mlen w sm rule: less_induct)
  case less
  show ?case
  proof (cases "0 \<le> mlen - 2 * int k")
    case False
    then show ?thesis
      using less.prems by (intro exI [of _ 0]) (simp add: cksum_while.simps [of be k mlen])
  next
    case True
    define p where "p = word_sum be (take (2 * k) w)"
    have lw: "2 * k \<le> length w" using True less.prems(3) by linarith
    have p: "0 \<le> p" "p \<le> 65535 * int k"
      using word_sum_bound [of be "take (2 * k) w"] lw by (simp_all add: p_def)
    have half: "(mlen - 2 * int k) div 2 = mlen div 2 - int k" by simp
    have "int k \<le> mlen div 2" using True by simp
    then have "sm + 65535 * int k < 2147483648" using less.prems(5) by linarith
    then have eq: "cksum_while be k mlen w sm = cksum_while be k (mlen - 2 * int k) (drop (2 * k) w) (sm + p)"
      using cksum_words_spec [OF lw less.prems(4)] True less.prems(1)
      by (simp add: cksum_while.simps [of be k mlen] p_def)
    have "sm + p + 65535 * ((mlen - 2 * int k) div 2) < 2147483648"
      using less.prems(5) p(2) unfolding half right_diff_distrib by linarith
    then obtain j where j: "cksum_while be k (mlen - 2 * int k) (drop (2 * k) w) (sm + p)
        = Inr (sm + p + word_sum be (take (2 * j) (drop (2 * k) w)), drop (2 * j) (drop (2 * k) w),
            mlen - 2 * int k - 2 * int j - 2 * int k)"
      "2 * int j \<le> mlen - 2 * int k" "mlen - 2 * int k - 2 * int j < 2 * int k"
      using less.hyps [of "mlen - 2 * int k" "drop (2 * k) w" "sm + p"] less.prems True p(1)
      by auto
    have "take (2 * (k + j)) w = take (2 * k) w @ take (2 * j) (drop (2 * k) w)"
      by (simp add: take_add distrib_left)
    then have "word_sum be (take (2 * (k + j)) w) = p + word_sum be (take (2 * j) (drop (2 * k) w))"
      using lw by (simp add: word_sum_append_even p_def)
    then show ?thesis
      unfolding eq j(1) using j(2,3) by (intro exI [of _ "k + j"]) (simp add: algebra_simps)
  qed
qed

lemma word_sum_take_drop:
  assumes "2 * i \<le> length w"
  shows "word_sum be (take (2 * i) w) + word_sum be (take (2 * j) (drop (2 * i) w))
    = word_sum be (take (2 * (i + j)) w)"
  using assms by (simp add: word_sum_append_even take_add distrib_left)

text \<open>The three loops together.\<close>

lemma cksum_loops_spec:
  assumes "0 \<le> mlen" "mlen \<le> int (length w)" "0 \<le> sm" "sm + 65535 * (mlen div 2) < 2147483648"
  defines "h \<equiv> nat (mlen div 2)"
  shows "\<exists>sm' n. eqv sm' (sm + word_sum be (take (2 * h) w)) \<and> sm' \<le> sm + 65535 * (mlen div 2) \<and> n \<noteq> - 1
    \<and> cksum_loops be sm w mlen c0 swapped = Inr
      (if \<not> swapped then if even mlen then (sm', n, c0) else (sm', - 1, w ! (2 * h))
       else if even mlen then (REDUCE sm' * 256, - 1, c0)
       else (REDUCE sm' * 256 + u_short be c0 (w ! (2 * h)), 0, c0))"
proof -
  obtain i where i: "cksum_while be 16 mlen w sm
      = Inr (sm + word_sum be (take (2 * i) w), drop (2 * i) w, mlen - 2 * int i - 32)"
    "2 * int i \<le> mlen" "mlen - 2 * int i < 32"
    using cksum_while_spec [OF _ assms(1-4), of 16] by auto
  define sm1 w1 m1 where "sm1 = sm + word_sum be (take (2 * i) w)" and "w1 = drop (2 * i) w"
    and "m1 = mlen - 2 * int i"
  have li: "2 * i \<le> length w" using i(2) assms(2) by linarith
  have b1: "0 \<le> sm1" "sm1 \<le> sm + 65535 * int i" "0 \<le> m1" "m1 \<le> int (length w1)"
    "m1 div 2 = mlen div 2 - int i"
    using word_sum_bound [of be "take (2 * i) w"] assms(2,3) i(2) li
    by (simp_all add: sm1_def m1_def w1_def)
  have "sm1 + 65535 * (m1 div 2) < 2147483648"
    using b1(2) assms(4) unfolding b1(5) right_diff_distrib by linarith
  then obtain j where j: "cksum_while be 4 m1 w1 sm1
      = Inr (sm1 + word_sum be (take (2 * j) w1), drop (2 * j) w1, m1 - 2 * int j - 8)"
    "2 * int j \<le> m1" "m1 - 2 * int j < 8"
    using cksum_while_spec [OF _ b1(3,4,1), of 4] by auto
  define sm2 w2 m2 where "sm2 = sm + word_sum be (take (2 * (i + j)) w)" and "w2 = drop (2 * (i + j)) w"
    and "m2 = mlen - 2 * int (i + j)"
  have lij: "2 * (i + j) \<le> length w" using j(2) assms(2) by (simp add: m1_def)
  have s2: "sm1 + word_sum be (take (2 * j) w1) = sm2" "drop (2 * j) w1 = w2" "m1 - 2 * int j = m2"
    using word_sum_take_drop [OF li, of be j]
    by (simp_all add: sm1_def sm2_def w1_def w2_def m1_def m2_def algebra_simps)
  have b2: "0 \<le> sm2" "sm2 \<le> sm + 65535 * int (i + j)" "0 \<le> m2" "m2 < 8" "m2 \<le> int (length w2)"
    "m2 div 2 = mlen div 2 - int (i + j)" "even m2 \<longleftrightarrow> even mlen"
    using word_sum_bound [of be "take (2 * (i + j)) w"] assms(2,3) j(2,3) lij
    by (simp_all add: sm2_def m2_def w2_def m1_def)
  have h: "int h = mlen div 2" "i + j \<le> h" using assms(1) b2(3,6) by (simp_all add: h_def)
  have run: "cksum_loops be sm w mlen c0 swapped =
    (if m2 = 0 \<and> \<not> swapped then Inr (sm2, 0, c0)
     else
       bindE (cksum_while be 1 m2 w2 (REDUCE sm2)) (\<lambda>(sm, w, mlen).
          if swapped then
            let sm = s_int (REDUCE sm * 256)
            in if mlen = - 1
               then case w of [] \<Rightarrow> Inl BadAccess
                    | x # _ \<Rightarrow> Inr (s_int (sm + u_short be c0 x), 0, c0)
               else Inr (sm, - 1, c0)
          else if mlen = - 1
               then case w of [] \<Rightarrow> Inl BadAccess | x # _ \<Rightarrow> Inr (sm, mlen, x)
               else Inr (sm, mlen, c0)))"
    using i(1) j(1) by (simp add: cksum_loops_def Let_def s2 flip: sm1_def w1_def m1_def)
  show ?thesis
  proof (cases "m2 = 0 \<and> \<not> swapped")
    case True
    then have "h = i + j" using h b2(6) by simp
    then have "eqv sm2 (sm + word_sum be (take (2 * h) w))" using b2(1) by (simp add: sm2_def eqv_refl)
    then show ?thesis
      using True run b2(2,6,7) by (intro exI [of _ sm2] exI [of _ 0]) simp
  next
    case False
    have sm2: "sm2 < 2147483648"
      using b2(2,3,6) assms(4) by (smt (verit) pos_imp_zdiv_nonneg_iff)
    note R = REDUCE_eqv [OF b2(1)]
    have "m2 div 2 \<le> 3" using b2(4) by simp
    then have lim: "REDUCE sm2 + 65535 * (m2 div 2) < 2147483648" using R(2) sm2 by linarith
    obtain k where k: "cksum_while be 1 m2 w2 (REDUCE sm2)
        = Inr (REDUCE sm2 + word_sum be (take (2 * k) w2), drop (2 * k) w2, m2 - 2 * int k - 2)"
      "2 * int k \<le> m2" "m2 - 2 * int k < 2"
      using cksum_while_spec [of 1 m2 w2 "REDUCE sm2" be] b2(3,5) R(3) lim sm2 by auto
    define sm3 where "sm3 = REDUCE sm2 + word_sum be (take (2 * k) w2)"
    have hk: "h = i + j + k" using h b2(3,6) k(2,3) by linarith
    have m: "m2 - 2 * int k = (if even mlen then 0 else 1)" using k(2,3) b2(7) by presburger
    have sum: "word_sum be (take (2 * h) w) = word_sum be (take (2 * (i + j)) w) + word_sum be (take (2 * k) w2)"
      using word_sum_take_drop [OF lij, of be k] by (simp add: hk w2_def)
    have eqv: "eqv sm3 (sm + word_sum be (take (2 * h) w))"
      unfolding sm3_def sum using R(1) sm2 b2(1)
      by (simp add: sm2_def add.assoc [symmetric] eqv_add eqv_refl)
    have lk: "2 * k \<le> length w2" using k(2) b2(5) by linarith
    have b3: "0 \<le> sm3" "sm3 \<le> sm + 65535 * (mlen div 2)"
      using word_sum_bound [of be "take (2 * k) w2"] R(3,4) sm2 b2(2) lk
      unfolding h(1) [symmetric] hk by (simp_all add: sm3_def)
    have "sm3 < 4294967296" using b3(2) assms(4) by linarith
    note R3 = REDUCE_eqv [OF b3(1) this]
    have s: "s_int (REDUCE sm3 * 256) = REDUCE sm3 * 256"
      "s_int (REDUCE sm3 * 256 + u_short be a b) = REDUCE sm3 * 256 + u_short be a b" for a b
      using R3(2,3) u_short_bounds [of be a b] by (intro s_int_id; linarith)+
    have x: "\<exists>r. drop (2 * k) w2 = w ! (2 * h) # r" if "odd mlen"
    proof -
      have "2 * h < length w" using h(1) assms(2) that by presburger
      moreover have "drop (2 * k) w2 = drop (2 * h) w" by (simp add: w2_def hk algebra_simps)
      ultimately show ?thesis by (metis Cons_nth_drop_Suc)
    qed
    have eq: "cksum_loops be sm w mlen c0 swapped = Inr
      (if \<not> swapped then if even mlen then (sm3, - 2, c0) else (sm3, - 1, w ! (2 * h))
       else if even mlen then (REDUCE sm3 * 256, - 1, c0)
       else (REDUCE sm3 * 256 + u_short be c0 (w ! (2 * h)), 0, c0))"
      unfolding run k(1) sm3_def [symmetric] bindE_simps prod.case m
      using False x by (auto simp: Let_def s)
    show ?thesis
      using eqv b3(2) by (intro exI [of _ sm3] exI [of _ "- 2"] conjI eq) simp_all
  qed
qed

lemma cksum_loops_nat:
  assumes "k \<le> length w" "0 \<le> sm" "sm + 65535 * int (k div 2) < 2147483648"
  defines "h \<equiv> k div 2"
  shows "\<exists>sm' n. eqv sm' (sm + word_sum be (take (2 * h) w)) \<and> sm' \<le> sm + 65535 * int h \<and> n \<noteq> - 1
    \<and> cksum_loops be sm w (int k) c0 swapped = Inr
      (if \<not> swapped then if even k then (sm', n, c0) else (sm', - 1, w ! (2 * h))
       else if even k then (REDUCE sm' * 256, - 1, c0)
       else (REDUCE sm' * 256 + u_short be c0 (w ! (2 * h)), 0, c0))"
proof -
  have h: "int k div 2 = int h" "nat (int k div 2) = h" by (simp_all add: h_def zdiv_int)
  have e: "even (int k) \<longleftrightarrow> even k" by simp
  have nh: "nat (int h) = h" by simp
  show ?thesis
    by (rule cksum_loops_spec [of "int k" w sm be c0 swapped, unfolded h(1) e nh])
      (use assms(1-3) in \<open>simp_all add: h_def\<close>)
qed

section \<open>One buffer\<close>

text \<open>What the variables say after the bytes \<open>P\<close> have been read.\<close>

definition cksum_inv :: "bool \<Rightarrow> byte list \<Rightarrow> int \<times> int \<times> byte \<Rightarrow> bool" where
  "cksum_inv be P = (\<lambda>(sm, mlen, c0).
     0 \<le> sm \<and> sm \<le> 16842495 + 65535 * int (length P div 2) \<and>
     (if even (length P) then mlen \<noteq> - 1 \<and> eqv sm (word_sum be P)
      else mlen = - 1 \<and> eqv (sm + u_short be c0 0) (word_sum be P)))"

lemma u_short_split: "u_short be a b = u_short be a 0 + u_short be 0 b"
  by (simp add: u_short_def)

lemma take_odd:
  assumes "odd q" "q \<le> length w"
  shows "take q w = take (2 * (q div 2)) w @ [w ! (2 * (q div 2))]"
proof -
  have q: "q = Suc (2 * (q div 2))" using assms(1) by presburger
  then have "2 * (q div 2) < length w" using assms(2) by linarith
  then show ?thesis by (subst q) (rule take_Suc_conv_app_nth)
qed

lemma cksum_even_start:
  assumes "even (length P)" "0 \<le> sm" "sm \<le> 16842495 + 65535 * int (length P div 2)"
    and "eqv sm (word_sum be P)" "q \<le> length w" "length P + q \<le> 65000"
  shows "\<exists>st. cksum_loops be sm w (int q) c0 False = Inr st \<and> cksum_inv be (P @ take q w) st"
proof -
  define h where "h = q div 2"
  have half: "(length P + q) div 2 = length P div 2 + q div 2"
    using assms(1) by (auto elim!: evenE)
  have "length P div 2 + q div 2 \<le> 32500" using assms(6) half by linarith
  then have "sm + 65535 * int (q div 2) < 2147483648" using assms(3) by linarith
  then obtain sm' n where r: "eqv sm' (sm + word_sum be (take (2 * h) w))" "sm' \<le> sm + 65535 * int (q div 2)"
    "n \<noteq> - 1" "cksum_loops be sm w (int q) c0 False = Inr
      (if even q then (sm', n, c0) else (sm', - 1, w ! (2 * h)))"
    using cksum_loops_nat [OF assms(5,2), of be c0 False] by (auto simp: h_def)
  have "eqv (sm + word_sum be (take (2 * h) w)) (word_sum be P + word_sum be (take (2 * h) w))"
    using assms(4) by (intro eqv_add eqv_refl) simp_all
  then have e: "eqv sm' (word_sum be (P @ take (2 * h) w))"
    using eqv_trans [OF r(1)] assms(1) by (simp add: word_sum_append_even)
  have b: "0 \<le> sm'" "sm' \<le> 16842495 + 65535 * int (length P div 2 + q div 2)"
    using r(1,2) assms(3) by (auto simp: eqv_def)
  show ?thesis
  proof (cases "even q")
    case True
    have "2 * h = q" using True by (simp add: h_def)
    then show ?thesis
      using r(3,4) True e b assms(1,5) half by (simp add: cksum_inv_def)
  next
    case False
    note t = take_odd [OF False assms(5), folded h_def]
    have len: "length (take (2 * h) w) = 2 * h"
      using assms(5) by (simp add: h_def)
    have "eqv (sm' + u_short be (w ! (2 * h)) 0)
        (word_sum be (P @ take (2 * h) w) + u_short be (w ! (2 * h)) 0)"
      using e by (intro eqv_add eqv_refl) simp_all
    also have "\<dots> = word_sum be (P @ take q w)"
      using assms(1) len by (simp add: t word_sum_append_even)
    finally have "eqv (sm' + u_short be (w ! (2 * h)) 0) (word_sum be (P @ take q w))" .
    then show ?thesis
      using r(4) False b assms(1,5) half by (simp add: cksum_inv_def)
  qed
qed

lemma cksum_odd_start:
  assumes "even (length P)" "0 \<le> sm" "sm < 2147483648" "eqv sm (word_sum be P)"
    and "q \<le> length v" "q \<le> 65000"
  shows "\<exists>st. cksum_loops be (s_int (REDUCE sm * 256)) v (int q) x True = Inr st
    \<and> cksum_inv be (P @ x # take q v) st"
proof -
  define h p where "h = q div 2" and "p = word_sum be (take (2 * h) v)"
  note R = REDUCE_eqv [OF assms(2)]
  have s: "s_int (REDUCE sm * 256) = REDUCE sm * 256" "0 \<le> REDUCE sm * 256"
    using R(2,3) assms(3) by (auto intro!: s_int_id)
  have "REDUCE sm * 256 + 65535 * int (q div 2) < 2147483648" using R(2) assms(3,6) by simp
  then obtain sm' where r: "eqv sm' (REDUCE sm * 256 + p)" "sm' \<le> REDUCE sm * 256 + 65535 * int (q div 2)"
    "cksum_loops be (REDUCE sm * 256) v (int q) x True = Inr
      (if even q then (REDUCE sm' * 256, - 1, x)
       else (REDUCE sm' * 256 + u_short be x (v ! (2 * h)), 0, x))"
    using cksum_loops_nat [OF assms(5) s(2), of be x True] by (auto simp: h_def p_def)
  have sm': "0 \<le> sm'" "sm' < 4294967296"
    using r(1,2) R(2) assms(3,6) by (auto simp: eqv_def)
  note R' = REDUCE_eqv [OF sm']
  have p: "0 \<le> p" by (simp add: p_def)
  have "eqv (REDUCE sm' * 256) (256 * sm')" using eqv_mult [OF R'(1), of 256] by (simp add: mult.commute)
  also have "eqv \<dots> (256 * (REDUCE sm * 256 + p))" by (intro eqv_mult r(1)) simp
  also have "\<dots> = 256 * (256 * REDUCE sm) + 256 * p" by simp
  also have "eqv \<dots> (REDUCE sm + 256 * p)"
    using R(3) assms(3) p by (intro eqv_add eqv_shift_twice eqv_refl) simp_all
  also have "eqv \<dots> (sm + 256 * p)" using R(1) assms(3) p by (intro eqv_add eqv_refl) simp_all
  also have "eqv \<dots> (word_sum be P + 256 * p)" using assms(4) p by (intro eqv_add eqv_refl) simp_all
  finally have e: "eqv (REDUCE sm' * 256) (word_sum be P + 256 * p)" .
  have x: "eqv (word_sum be P + 256 * p + u_short be x 0) (word_sum be (P @ x # take (2 * h) v))"
  proof -
    have "eqv (word_sum be P + (u_short be x 0 + 256 * p)) (word_sum be P + word_sum be (x # take (2 * h) v))"
      unfolding p_def by (intro eqv_add eqv_refl eqv_sym [OF word_sum_Cons]) simp
    then show ?thesis using assms(1) by (simp add: word_sum_append_even algebra_simps)
  qed
  have e0: "eqv (REDUCE sm' * 256 + u_short be x 0) (word_sum be (P @ x # take (2 * h) v))"
    by (rule eqv_trans [OF eqv_add [OF e eqv_refl] x]) simp
  show ?thesis
  proof (cases "even q")
    case True
    have "2 * h = q" using True by (simp add: h_def)
    then show ?thesis
      using r(3) s(1) True e0 R'(2,3) assms(1,5) by (simp add: cksum_inv_def)
  next
    case False
    note t = take_odd [OF False assms(5), folded h_def]
    have len: "length (take (2 * h) v) = 2 * h"
      using assms(5) by (simp add: h_def)
    have "eqv (REDUCE sm' * 256 + u_short be x 0 + u_short be 0 (v ! (2 * h)))
        (word_sum be (P @ x # take (2 * h) v) + u_short be 0 (v ! (2 * h)))"
      using e0 by (intro eqv_add eqv_refl) simp_all
    also have "\<dots> = word_sum be (P @ x # take q v)"
      using word_sum_snoc [of "P @ x # take (2 * h) v" be] assms(1) len by (simp add: t)
    finally have "eqv (REDUCE sm' * 256 + u_short be x (v ! (2 * h))) (word_sum be (P @ x # take q v))"
      by (simp add: u_short_split [of be x "v ! (2 * h)"] add.assoc)
    moreover have "REDUCE sm' * 256 + u_short be x (v ! (2 * h)) \<le> 16842495"
      "0 \<le> REDUCE sm' * 256 + u_short be x (v ! (2 * h))"
      using R'(2,3) u_short_bounds [of be x "v ! (2 * h)"] by linarith+
    moreover have "even (length (P @ x # take q v))" using assms(1,5) False by simp
    ultimately have "cksum_inv be (P @ x # take q v) (REDUCE sm' * 256 + u_short be x (v ! (2 * h)), 0, x)"
      by (simp add: cksum_inv_def)
    then show ?thesis using r(3) False by (simp add: s(1))
  qed
qed

lemma cksum_inv_even:
  "cksum_inv be P (sm, mlen, c0) \<Longrightarrow> even (length P) \<Longrightarrow> length P \<le> 65000 \<Longrightarrow>
    mlen \<noteq> - 1 \<and> 0 \<le> sm \<and> sm < 2147483648 \<and> eqv sm (word_sum be P)
    \<and> sm \<le> 16842495 + 65535 * int (length P div 2)"
  by (auto simp: cksum_inv_def)

text \<open>The word that spans two buffers.\<close>

lemma cksum_inv_span:
  assumes "cksum_inv be P (sm, mlen, c0)" "odd (length P)" "length P < 65000"
  shows "mlen = - 1 \<and> s_int (sm + u_short be c0 x) = sm + u_short be c0 x
    \<and> cksum_inv be (P @ [x]) (sm + u_short be c0 x, 0, c0)"
proof -
  have sm: "0 \<le> sm" "sm \<le> 16842495 + 65535 * int (length P div 2)" "mlen = - 1"
    "eqv (sm + u_short be c0 0) (word_sum be P)"
    using assms(1,2) by (simp_all add: cksum_inv_def)
  have h: "length (P @ [x]) div 2 = Suc (length P div 2)" using assms(2) by simp
  have "length P div 2 \<le> 32500" using assms(3) by simp
  then have "s_int (sm + u_short be c0 x) = sm + u_short be c0 x"
    using sm(1,2) u_short_bounds [of be c0 x] by (intro s_int_id; linarith)
  moreover have "eqv (sm + u_short be c0 0 + u_short be 0 x) (word_sum be P + u_short be 0 x)"
    using sm(4) by (intro eqv_add eqv_refl) simp_all
  then have "eqv (sm + u_short be c0 x) (word_sum be (P @ [x]))"
    using word_sum_snoc [OF assms(2)] by (simp add: u_short_split [of be c0 x] add.assoc)
  moreover have "sm + u_short be c0 x \<le> 16842495 + 65535 * int (Suc (length P div 2))"
    using sm(2) u_short_bounds [of be c0 x] unfolding of_nat_Suc distrib_left by linarith
  moreover have "0 \<le> sm + u_short be c0 x" using sm(1) by simp
  ultimately show ?thesis
    using assms(2) sm(3) unfolding cksum_inv_def prod.case h by simp
qed

text \<open>From a word boundary on, whatever the address.\<close>

lemma cksum_aligned:
  assumes "cksum_inv be P (sm, mlen, c0)" "even (length P)" "q \<le> length w" "length P + q \<le> 65000"
  shows "\<exists>st. (if oddp \<and> 0 < int q
       then case w of [] \<Rightarrow> Inl BadAccess
            | x # w \<Rightarrow> cksum_loops be (s_int (REDUCE sm * 256)) w (int q - 1) x True
       else cksum_loops be sm w (int q) c0 False) = Inr st
    \<and> cksum_inv be (P @ take q w) st"
proof -
  have inv: "0 \<le> sm" "sm < 2147483648" "eqv sm (word_sum be P)"
    "sm \<le> 16842495 + 65535 * int (length P div 2)"
    using cksum_inv_even [OF assms(1,2)] assms(4) by auto
  show ?thesis
  proof (cases "oddp \<and> 0 < int q")
    case True
    then obtain x v k where w: "w = x # v" and q: "q = Suc k" using assms(3) by (cases w; cases q) auto
    have k: "k \<le> length v" "k \<le> 65000" using assms(3,4) by (simp_all add: w q)
    show ?thesis
      using cksum_odd_start [OF assms(2) inv(1-3) k, of x] True by (simp add: w q)
  next
    case False
    then show ?thesis
      using cksum_even_start [OF assms(2) inv(1,4,3) assms(3,4), of c0] by (simp only: if_False)
  qed
qed

lemma cksum_buf_spec:
  assumes "cksum_inv be P (sm, mlen, c0)" "w \<noteq> []" "0 < len"
    and "k = min len (length w)" "length P + k \<le> 65000"
  shows "\<exists>sm' mlen' c0'. cksum_buf be oddp (int (length w)) w (sm, mlen, c0, int len)
      = Inr (sm', mlen', c0', int (len - k)) \<and> cksum_inv be (P @ take k w) (sm', mlen', c0')"
proof (cases "even (length P)")
  case True
  have m: "mlen \<noteq> - 1" using cksum_inv_even [OF assms(1) True] assms(5) by simp
  have k: "(if int len < int (length w) then int len else int (length w)) = int k"
    "int len - int k = int (len - k)" "k \<le> length w"
    using assms(4) by auto
  have eq: "cksum_buf be oddp (int (length w)) w (sm, mlen, c0, int len) =
      bindE (if oddp \<and> 0 < int k
         then case w of [] \<Rightarrow> Inl BadAccess
              | x # w \<Rightarrow> cksum_loops be (s_int (REDUCE sm * 256)) w (int k - 1) x True
         else cksum_loops be sm w (int k) c0 False)
        (\<lambda>(sm, mlen, c0). Inr (sm, mlen, c0, int (len - k)))"
    unfolding cksum_buf_def by (simp only: prod.case Let_def m if_False bindE_simps k)
  obtain st where "(if oddp \<and> 0 < int k
       then case w of [] \<Rightarrow> Inl BadAccess
            | x # w \<Rightarrow> cksum_loops be (s_int (REDUCE sm * 256)) w (int k - 1) x True
       else cksum_loops be sm w (int k) c0 False) = Inr st" "cksum_inv be (P @ take k w) st"
    using cksum_aligned [OF assms(1) True k(3) assms(5)] by blast
  then show ?thesis
    unfolding eq by (cases st) (simp only: bindE_simps prod.case, blast)
next
  case False
  obtain x v where w: "w = x # v" using assms(2) by (cases w) auto
  have pos: "0 < k" using assms(2-4) by simp
  have "length P < 65000" using assms(5) pos by linarith
  note S = cksum_inv_span [OF assms(1) False this]
  define q where "q = k - 1"
  have q: "k = Suc q" "q \<le> length v" "length (P @ [x]) + q \<le> 65000"
    using pos assms(4,5) by (simp_all add: q_def w)
  have e: "(if int len - 1 < int (length w) - 1 then int len - 1 else int (length w) - 1) = int q"
    "int len - 1 - int q = int (len - k)"
    using assms(3,4) pos by (auto simp: q_def w)
  have inv: "cksum_inv be (P @ [x]) (sm + u_short be c0 x, 0, c0)" and ev: "even (length (P @ [x]))"
    using S False by simp_all
  have eq: "cksum_buf be oddp (int (length w)) w (sm, mlen, c0, int len) =
      bindE (if \<not> oddp \<and> 0 < int q
         then case v of [] \<Rightarrow> Inl BadAccess
              | y # w \<Rightarrow> cksum_loops be (s_int (REDUCE (sm + u_short be c0 x) * 256)) w (int q - 1) y True
         else cksum_loops be (sm + u_short be c0 x) v (int q) c0 False)
        (\<lambda>(sm, mlen, c0). Inr (sm, mlen, c0, int (len - k)))"
    unfolding cksum_buf_def w
    by (simp only: prod.case Let_def S simp_thms if_True bindE_simps list.case e [unfolded w])
  obtain st where "(if \<not> oddp \<and> 0 < int q
       then case v of [] \<Rightarrow> Inl BadAccess
            | y # w \<Rightarrow> cksum_loops be (s_int (REDUCE (sm + u_short be c0 x) * 256)) w (int q - 1) y True
       else cksum_loops be (sm + u_short be c0 x) v (int q) c0 False) = Inr st"
    "cksum_inv be ((P @ [x]) @ take q v) st"
    using cksum_aligned [OF inv ev q(2,3)] by blast
  moreover have "(P @ [x]) @ take q v = P @ take k w" by (simp add: w q(1))
  ultimately show ?thesis
    unfolding eq by (cases st) (simp only: bindE_simps prod.case, blast)
qed

lemma cksum_final_spec:
  assumes "cksum_inv be P (sm, mlen, c0)" "length P \<le> 65000"
  shows "cksum_final be (sm, mlen, c0, len) = 65535 - fold16 (word_sum be P)"
proof -
  define t where "t = (if mlen = - 1 then s_int (sm + u_short be c0 0) else sm)"
  have b: "0 \<le> sm" "sm \<le> 16842495 + 65535 * int (length P div 2)"
    using assms(1) by (simp_all add: cksum_inv_def)
  have "length P div 2 \<le> 32500" using assms(2) by simp
  then have sm: "sm + 65535 < 2147483648" using b(2) by linarith
  have s: "s_int (sm + u_short be c0 0) = sm + u_short be c0 0"
    using b(1) sm u_short_bounds [of be c0 0] by (intro s_int_id; linarith)
  have t: "eqv t (word_sum be P)" "0 \<le> t"
    using assms(1) b(1) s by (auto simp: t_def cksum_inv_def split: if_splits)
  have "t < 4294967296" using sm s u_short_bounds [of be c0 0] by (simp add: t_def del: u_short_bounds)
  note R = REDUCE_eqv [OF t(2) this]
  have "REDUCE t = fold16 (word_sum be P)"
    by (rule fold16_eqI [OF eqv_trans [OF R(1) t(1)] R(2)])
  moreover have "(- 1 - REDUCE t) mod 65536 = 65535 - REDUCE t"
  proof -
    have "(- 1 - REDUCE t) mod 65536 = (- 1 - REDUCE t + 65536) mod 65536"
      by (rule mod_add_self2 [symmetric])
    also have "\<dots> = 65535 - REDUCE t"
      using R(2,3) by (subst mod_pos_pos_trivial) simp_all
    finally show ?thesis .
  qed
  ultimately show ?thesis by (simp add: cksum_final_def Let_def flip: t_def)
qed

section \<open>Chains\<close>

text \<open>
  What the checksum needs of its buffers: as many bytes as the length says. The parity of
  their addresses is arbitrary.
\<close>

locale cksum_view = chain_view mlen bytes good
  for mlen :: "'m \<Rightarrow> int" and bytes :: "'m \<Rightarrow> byte list" and good :: "'m \<Rightarrow> bool" +
  fixes oddp :: "'m \<Rightarrow> bool"
begin

lemma chain_spec:
  assumes "\<forall>m \<in> set c. good m" "cksum_inv be P (sm, n, c0)"
    and "length P + min len (length (flat c)) \<le> 65000"
  shows "\<exists>sm' n' c0'. cksum_chain be mlen bytes oddp c (sm, n, c0, int len)
      = Inr (sm', n', c0', int (len - length (flat c)))
    \<and> cksum_inv be (P @ take len (flat c)) (sm', n', c0')"
  using assms
proof (induction c arbitrary: P sm n c0 len)
  case (Cons m c)
  define w where "w = bytes m"
  have w: "mlen m = int (length w)" using Cons.prems(1) bytes_length by (simp add: w_def)
  consider "len = 0" | "0 < len" "w = []" | "0 < len" "w \<noteq> []" by auto
  then show ?case
  proof cases
    case 1
    then show ?thesis using Cons.prems(2) by simp
  next
    case 2
    then have "cksum_chain be mlen bytes oddp (m # c) (sm, n, c0, int len)
        = cksum_chain be mlen bytes oddp c (sm, n, c0, int len)"
      using w by simp
    then show ?thesis using Cons.IH [OF _ Cons.prems(2), of len] Cons.prems(1,3) 2(2) by (simp add: w_def)
  next
    case 3
    define k where "k = min len (length w)"
    have k: "length P + k \<le> 65000" using Cons.prems(3) by (simp add: k_def w_def)
    obtain sm1 n1 c1 where b: "cksum_buf be (oddp m) (mlen m) w (sm, n, c0, int len)
        = Inr (sm1, n1, c1, int (len - k))" "cksum_inv be (P @ take k w) (sm1, n1, c1)"
      using cksum_buf_spec [OF Cons.prems(2) 3(2,1) k_def k] unfolding w by blast
    have "length (P @ take k w) + min (len - k) (length (flat c)) \<le> 65000"
    proof -
      have "min len (length (flat (m # c))) = k + min (len - k) (length (flat c))"
        by (simp add: k_def w_def)
      then show ?thesis using Cons.prems(3) by (simp add: k_def)
    qed
    then obtain sm2 n2 c2 where r: "cksum_chain be mlen bytes oddp c (sm1, n1, c1, int (len - k))
        = Inr (sm2, n2, c2, int (len - k - length (flat c)))"
      "cksum_inv be ((P @ take k w) @ take (len - k) (flat c)) (sm2, n2, c2)"
      using Cons.IH [OF _ b(2)] Cons.prems(1) by fastforce
    have "cksum_chain be mlen bytes oddp (m # c) (sm, n, c0, int len)
        = Inr (sm2, n2, c2, int (len - k - length (flat c)))"
      using 3 w b(1) r(1) by (simp add: w_def)
    moreover have "len - k - length (flat c) = len - length (flat (m # c))" by (simp add: k_def w_def)
    moreover have "(P @ take k w) @ take (len - k) (flat c) = P @ take len (flat (m # c))"
      by (cases "len \<le> length w") (simp_all add: k_def w_def)
    ultimately show ?thesis using r(2) by simp
  qed
qed simp

text \<open>The checksum depends on the bytes only, not on how the buffers divide them or where
  they lie.\<close>

lemma cksum_spec:
  assumes "\<forall>m \<in> set c. good m" "min len (length (flat c)) \<le> 65000"
  shows "bindE (cksum_chain be mlen bytes oddp c (0, 0, 0, int len)) (\<lambda>st. Inr (cksum_final be st))
    = (Inr (65535 - fold16 (word_sum be (take len (flat c)))) :: int kres)"
proof -
  have "cksum_inv be [] (0, 0, 0)" by (simp add: cksum_inv_def eqv_refl)
  from chain_spec [OF assms(1) this, of len] assms(2)
  obtain sm n c0 where r: "cksum_chain be mlen bytes oddp c (0, 0, 0, int len)
      = Inr (sm, n, c0, int (len - length (flat c)))"
    "cksum_inv be (take len (flat c)) (sm, n, c0)"
    by auto
  have "length (take len (flat c)) \<le> 65000" using assms(2) by auto
  then show ?thesis using cksum_final_spec [OF r(2)] by (simp add: r(1))
qed

end

interpretation ck: cksum_view m_len "m_bytes s" "mbuf_ok s" "\<lambda>m. odd (m_data m)" for s
  by unfold_locales

text \<open>C7. \<open>in_cksum\<close> is the complement of the one's complement sum of the 16-bit words of the
  first \<open>len\<close> bytes of the chain, padded with a zero byte: the value does not depend on the
  division into mbufs nor on the alignment of their data, and no byte outside them is read.
  The length is bounded so that the \<open>int\<close> the code adds up in does not overflow.\<close>

theorem in_cksum_correct:
  assumes "chain_ok s c" "0 \<le> len" "min len (int (length (chain_bytes s c))) \<le> 65000"
  shows "in_cksum be s c len
    = Inr (65535 - fold16 (word_sum be (take (nat len) (chain_bytes s c))))"
proof -
  have "min (nat len) (length (mb.flat s c)) \<le> 65000"
    using assms(2,3) unfolding flat_chain_bytes by linarith
  from ck.cksum_spec [OF assms(1) this, of be] show ?thesis
    using assms(2) unfolding in_cksum_def flat_chain_bytes by simp
qed

text \<open>A packet that carries its checksum verifies: the checksum over bytes whose words sum
  to a multiple of 65535, not all of them zero, is 0.\<close>

theorem in_cksum_verifies:
  assumes "chain_ok s c" "0 \<le> len" "min len (int (length (chain_bytes s c))) \<le> 65000"
  shows "in_cksum be s c len = Inr 0 \<longleftrightarrow>
    (let x = word_sum be (take (nat len) (chain_bytes s c)) in 0 < x \<and> x mod 65535 = 0)"
proof -
  define x where "x = word_sum be (take (nat len) (chain_bytes s c))"
  have min: "min (nat len) (length (mb.flat s c)) \<le> 65000"
    using assms(2,3) unfolding flat_chain_bytes by linarith
  have eq: "in_cksum be s c len = Inr (65535 - fold16 x)"
    using ck.cksum_spec [OF assms(1) min, of be] assms(2) unfolding in_cksum_def flat_chain_bytes
    by (simp add: x_def)
  have "0 \<le> x" by (simp add: x_def)
  have "(x - 1) mod 65535 = 65534 \<longleftrightarrow> (x - 1) mod 65535 = 65534 mod 65535" by simp
  also have "\<dots> \<longleftrightarrow> 65535 dvd x - 65535" unfolding mod_eq_dvd_iff by simp
  also have "\<dots> \<longleftrightarrow> x mod 65535 = 0" by (simp add: dvd_eq_mod_eq_0)
  finally have "fold16 x = 65535 \<longleftrightarrow> 0 < x \<and> x mod 65535 = 0"
    using \<open>0 \<le> x\<close> unfolding fold16_def by auto
  then show ?thesis unfolding eq Let_def x_def [symmetric] by auto
qed

text \<open>A packet with its checksum in front: 2 bytes, then the data in a cluster at an odd
  address.\<close>

definition ex_packet :: "mbuf list" where
  "ex_packet = [(ex_mbuf {} 0 2)\<lparr>m_dat := [0xE4, 0xE4] @ replicate 106 0\<rparr>, ex_mbuf {M_EXT} 101 6]"

lemma ex_packet_facts:
  "chain_ok ex_mbstate ex_packet"
  "chain_bytes ex_mbstate ex_packet = [0xE4, 0xE4] @ replicate 6 9"
  by (simp_all add: ex_packet_def ex_mbuf_def ex_mbstate_def mbuf_ok_def m_storage_def m_bytes_def
      window_def mbuf_sizes)

lemma replicate_6: "replicate 6 x = [x, x, x, x, x, x]"
  by (simp add: eval_nat_numeral)

lemma in_cksum_correct_witness:
  "in_cksum False ex_mbstate ex_packet 7 = Inr 2304"
  using in_cksum_correct [of ex_packet ex_mbstate 7 False] ex_packet_facts
  by (simp add: replicate_6 u_short_def fold16_def)

lemma in_cksum_verifies_witness:
  "in_cksum True ex_mbstate ex_packet 8 = Inr 0"
  using in_cksum_verifies [of ex_packet ex_mbstate 8 True] ex_packet_facts
  by (simp add: replicate_6 u_short_def)

end
