(* ===== verification/Quad.thy ===== *)
theory Quad
  imports Prelude
begin

text \<open>
  Arithmetic on quads, integers twice as long as \<open>long\<close>, \<open>sys/libkern\<close> with
  \<open>quad.h\<close>. A quad is a word of 64 bits; \<open>ul_H\<close> and \<open>ul_L\<close> are the two halves the union
  \<open>uu\<close> gives access to and \<open>uu\<close> puts them together, on machines of either byte order.
  In the division a \<open>digit\<close> holds 16 bits and a pointer into an array of digits is the list of
  the digits from there on, so that advancing it is \<open>tl\<close>.
\<close>

unbundle bit_operations_syntax

section \<open>Quads and their halves\<close>

definition ul_H :: "64 word \<Rightarrow> 32 word" where "ul_H a = ucast (drop_bit 32 a)"
definition ul_L :: "64 word \<Rightarrow> 32 word" where "ul_L a = ucast a"
definition uu :: "32 word \<Rightarrow> 32 word \<Rightarrow> 64 word" where "uu h l = push_bit 32 (ucast h) OR ucast l"

definition carry :: "bool \<Rightarrow> 32 word" where "carry b = (if b then 1 else 0)"

definition adddi3 :: "64 word \<Rightarrow> 64 word \<Rightarrow> 64 word" where
  "adddi3 a b = (let l = ul_L a + ul_L b in uu (ul_H a + ul_H b + carry (l < ul_L b)) l)"

definition subdi3 :: "64 word \<Rightarrow> 64 word \<Rightarrow> 64 word" where
  "subdi3 a b = (let l = ul_L a - ul_L b in uu (ul_H a - ul_H b - carry (ul_L a < l)) l)"

definition negdi2 :: "64 word \<Rightarrow> 64 word" where
  "negdi2 a = (let l = - ul_L a in uu (- ul_H a - carry (0 < l)) l)"

definition anddi3 :: "64 word \<Rightarrow> 64 word \<Rightarrow> 64 word" where
  "anddi3 a b = uu (ul_H a AND ul_H b) (ul_L a AND ul_L b)"

definition iordi3 :: "64 word \<Rightarrow> 64 word \<Rightarrow> 64 word" where
  "iordi3 a b = uu (ul_H a OR ul_H b) (ul_L a OR ul_L b)"

definition xordi3 :: "64 word \<Rightarrow> 64 word \<Rightarrow> 64 word" where
  "xordi3 a b = uu (ul_H a XOR ul_H b) (ul_L a XOR ul_L b)"

definition one_cmpldi2 :: "64 word \<Rightarrow> 64 word" where
  "one_cmpldi2 a = uu (NOT (ul_H a)) (NOT (ul_L a))"

text \<open>Both comparisons return 0, 1 or 2.\<close>

definition cmpdi2 :: "64 word \<Rightarrow> 64 word \<Rightarrow> int" where
  "cmpdi2 a b =
     (if sint (ul_H a) < sint (ul_H b) then 0 else if sint (ul_H b) < sint (ul_H a) then 2
      else if ul_L a < ul_L b then 0 else if ul_L b < ul_L a then 2 else 1)"

definition ucmpdi2 :: "64 word \<Rightarrow> 64 word \<Rightarrow> int" where
  "ucmpdi2 a b =
     (if ul_H a < ul_H b then 0 else if ul_H b < ul_H a then 2
      else if ul_L a < ul_L b then 0 else if ul_L b < ul_L a then 2 else 1)"

section \<open>Shifts\<close>

definition ashldi3 :: "64 word \<Rightarrow> nat \<Rightarrow> 64 word" where
  "ashldi3 a shift =
     (if 32 \<le> shift then uu (if 64 \<le> shift then 0 else push_bit (shift - 32) (ul_L a)) 0
      else if 0 < shift then
        uu (push_bit shift (ul_H a) OR drop_bit (32 - shift) (ul_L a)) (push_bit shift (ul_L a))
      else a)"

definition lshldi3 :: "64 word \<Rightarrow> nat \<Rightarrow> 64 word" where
  "lshldi3 a shift =
     (if 32 \<le> shift then uu (if 64 \<le> shift then 0 else push_bit (shift - 32) (ul_L a)) 0
      else if 0 < shift then
        uu (push_bit shift (ul_H a) OR drop_bit (32 - shift) (ul_L a)) (push_bit shift (ul_L a))
      else a)"

definition lshrdi3 :: "64 word \<Rightarrow> nat \<Rightarrow> 64 word" where
  "lshrdi3 a shift =
     (if 32 \<le> shift then uu 0 (if 64 \<le> shift then 0 else drop_bit (shift - 32) (ul_H a))
      else if 0 < shift then
        uu (drop_bit shift (ul_H a)) (drop_bit shift (ul_L a) OR push_bit (32 - shift) (ul_H a))
      else a)"

text \<open>The right shift of a \<open>long\<close> extends the sign.\<close>

definition ashrdi3 :: "64 word \<Rightarrow> nat \<Rightarrow> 64 word" where
  "ashrdi3 a shift =
     (if 32 \<le> shift then
        let s = signed_drop_bit 1 (signed_drop_bit 31 (ul_H a))
        in uu s (if 64 \<le> shift then s else signed_drop_bit (shift - 32) (ul_H a))
      else if 0 < shift then
        uu (signed_drop_bit shift (ul_H a)) (drop_bit shift (ul_L a) OR push_bit (32 - shift) (ul_H a))
      else a)"

section \<open>Multiplication\<close>

definition HHALF :: "32 word \<Rightarrow> 32 word" where "HHALF x = drop_bit 16 x"
definition LHALF :: "32 word \<Rightarrow> 32 word" where "LHALF x = x AND (push_bit 16 1 - 1)"
definition LHUP :: "32 word \<Rightarrow> 32 word" where "LHUP x = push_bit 16 x"

definition lmulq :: "32 word \<Rightarrow> 32 word \<Rightarrow> 64 word" where
  "lmulq u v =
     (let u1 = HHALF u; u0 = LHALF u; v1 = HHALF v; v0 = LHALF v;
          low = u0 * v0
      in if u1 = 0 \<and> v1 = 0 then ucast low
         else
           let (udiff, neg) = (if u0 \<le> u1 then (u1 - u0, False) else (u0 - u1, True));
               (vdiff, neg) = (if v1 \<le> v0 then (v0 - v1, neg) else (v1 - v0, \<not> neg));
               mid = udiff * vdiff;
               high = u1 * v1;
               prodh = high + HHALF high;
               prodl = LHUP high;
               was = prodl;
               (prodl, prodh) =
                 (if neg then let prodl = prodl - LHUP mid in (prodl, prodh - (HHALF mid + carry (was < prodl)))
                  else let prodl = prodl + LHUP mid in (prodl, prodh + (HHALF mid + carry (prodl < was))));
               was = prodl;
               prodl = prodl + LHUP low;
               prodh = prodh + (HHALF low + carry (prodl < was));
               prodl = prodl + low;
               prodh = (if prodl < low then prodh + 1 else prodh)
           in uu prodh prodl)"

definition muldi3 :: "64 word \<Rightarrow> 64 word \<Rightarrow> 64 word" where
  "muldi3 a b =
     (let (u, negall) = (if 0 \<le> sint a then (a, False) else (- a, True));
          (v, negall) = (if 0 \<le> sint b then (b, negall) else (- b, \<not> negall));
          u1 = ul_H u; u0 = ul_L u; v1 = ul_H v; v0 = ul_L v;
          prod =
            (if u1 = 0 \<and> v1 = 0 then lmulq u0 v0
             else
               let low = lmulq u0 v0;
                   (udiff, negmid) = (if u0 \<le> u1 then (u1 - u0, False) else (u0 - u1, True));
                   (vdiff, negmid) = (if v1 \<le> v0 then (v0 - v1, negmid) else (v1 - v0, \<not> negmid));
                   mid = udiff * vdiff;
                   high = u1 * v1
               in uu (high + (if negmid then - mid else mid) + ul_L low + ul_H low) (ul_L low))
      in if negall then - prod else prod)"

section \<open>Division\<close>

text \<open>
  The digits of a quad, the value of two digits, and the halves of a \<open>u_long\<close> given by its value.
\<close>

definition COMBINE :: "int \<Rightarrow> int \<Rightarrow> int" where "COMBINE a b = u_int (push_bit 16 a) OR b"
definition hhalf :: "int \<Rightarrow> int" where "hhalf x = drop_bit 16 x"
definition lhalf :: "int \<Rightarrow> int" where "lhalf x = x AND 65535"

definition qd_digits :: "64 word \<Rightarrow> int list" where
  "qd_digits a = [hhalf (uint (ul_H a)), lhalf (uint (ul_H a)), hhalf (uint (ul_L a)), lhalf (uint (ul_L a))]"

definition qd_quad :: "int list \<Rightarrow> 64 word" where
  "qd_quad s = uu (word_of_int (COMBINE (s ! 1) (s ! 2))) (word_of_int (COMBINE (s ! 3) (s ! 4)))"

text \<open>\<open>shl\<close> on the digits \<open>p[0]\<close> to \<open>p[len]\<close>.\<close>

fun shl :: "int list \<Rightarrow> nat \<Rightarrow> int list" where
  "shl [] sh = []"
| "shl [x] sh = [lhalf (push_bit sh x)]"
| "shl (x # y # p) sh = (lhalf (push_bit sh x) OR drop_bit (16 - sh) y) # shl (y # p) sh"

text \<open>The loop over the leading zeros of the divisor, to the first nonzero digit or to the last one.\<close>

fun qd_norm_v :: "int list \<Rightarrow> nat \<Rightarrow> int list \<times> nat" where
  "qd_norm_v v n =
     (if v ! 1 \<noteq> 0 \<or> n \<le> 1 then (v, n)
      else if n - 1 = 1 then (v, 1) else qd_norm_v (tl v) (n - 1))"

declare qd_norm_v.simps [simp del]

text \<open>The short division, when the divisor has one digit.\<close>

definition qd_short :: "int list \<Rightarrow> int \<Rightarrow> 64 word \<times> 64 word" where
  "qd_short u t =
     (let q1 = u ! 1 div t; rbj = COMBINE (u ! 1 mod t) (u ! 2);
          q2 = rbj div t; rbj = COMBINE (rbj mod t) (u ! 3);
          q3 = rbj div t; rbj = COMBINE (rbj mod t) (u ! 4);
          q4 = rbj div t
      in (uu (word_of_int (COMBINE (lhalf q1) (lhalf q2))) (word_of_int (COMBINE (lhalf q3) (lhalf q4))),
          word_of_int (rbj mod t)))"

text \<open>The loop over the leading zeros of the dividend.\<close>

function qd_norm_u :: "int list \<Rightarrow> int \<Rightarrow> int list \<times> int" where
  "qd_norm_u u m = (if u = [] \<or> u ! 1 \<noteq> 0 then (u, m) else qd_norm_u (tl u) (m - 1))"
  by pat_completeness auto
termination by (relation "measure (\<lambda>(u, m). length u)") auto

declare qd_norm_u.simps [simp del]

function qd_shift :: "int \<Rightarrow> nat" where
  "qd_shift t = (if 0 < t \<and> t < 32768 then Suc (qd_shift (2 * t)) else 0)"
  by pat_completeness auto
termination by (relation "measure (\<lambda>t. nat (32768 - t))") auto

declare qd_shift.simps [simp del]

text \<open>D3, from \<open>qhat_too_big\<close> on; \<open>v1\<close> is at least \<open>B / 2\<close>.\<close>

function qd_decr :: "int \<Rightarrow> int \<Rightarrow> int \<Rightarrow> int \<Rightarrow> int \<Rightarrow> int" where
  "qd_decr v1 v2 uj2 qhat rhat =
     (let qhat = u_int (qhat - 1); rhat = rhat + v1
      in if 65536 \<le> rhat \<or> v1 \<le> 0 then qhat
         else if COMBINE rhat uj2 < u_int (v2 * qhat) then qd_decr v1 v2 uj2 qhat rhat else qhat)"
  by pat_completeness auto
termination by (relation "measure (\<lambda>(v1, v2, uj2, qhat, rhat). nat (65536 - rhat))") auto

declare qd_decr.simps [simp del]

definition qd_qhat :: "int \<Rightarrow> int \<Rightarrow> int \<Rightarrow> int \<Rightarrow> int \<Rightarrow> int" where
  "qd_qhat v1 v2 uj0 uj1 uj2 =
     (if uj0 = v1 then qd_decr v1 v2 uj2 65536 uj1
      else
        let n = COMBINE uj0 uj1; qhat = n div v1; rhat = n mod v1
        in if COMBINE rhat uj2 < u_int (v2 * qhat) then qd_decr v1 v2 uj2 qhat rhat else qhat)"

text \<open>D4: multiply and subtract, digit \<open>i\<close> first; the result is the array and the borrow.\<close>

fun qd_mulsub :: "nat \<Rightarrow> nat \<Rightarrow> int list \<Rightarrow> int \<Rightarrow> int list \<Rightarrow> int \<Rightarrow> int list \<times> int" where
  "qd_mulsub 0 j v qhat u t = (u, t)"
| "qd_mulsub (Suc i) j v qhat u t =
     (let t = u_int (u ! (Suc i + j) - v ! Suc i * qhat - t)
      in qd_mulsub i j v qhat (u[Suc i + j := lhalf t]) ((65536 - hhalf t) AND 65535))"

text \<open>D6: add back.\<close>

fun qd_addback :: "nat \<Rightarrow> nat \<Rightarrow> int list \<Rightarrow> int list \<Rightarrow> int \<Rightarrow> int list \<times> int" where
  "qd_addback 0 j v u t = (u, t)"
| "qd_addback (Suc i) j v u t =
     (let t = u_int (t + (u ! (Suc i + j) + v ! Suc i))
      in qd_addback i j v (u[Suc i + j := lhalf t]) (hhalf t))"

text \<open>The body of the loop of Program D: the digit of the quotient and what is left of the dividend.\<close>

definition qd_step :: "nat \<Rightarrow> int list \<Rightarrow> nat \<Rightarrow> int list \<Rightarrow> int \<times> int list" where
  "qd_step n v j u =
     (let qhat = qd_qhat (v ! 1) (v ! 2) (u ! (j + 0)) (u ! (j + 1)) (u ! (j + 2));
          (u, t) = qd_mulsub n j v qhat u 0;
          t = u_int (u ! j - t);
          u = u[j := lhalf t]
      in if hhalf t \<noteq> 0 then
           let (u', t) = qd_addback n j v u 0
           in (lhalf (u_int (qhat - 1)), u'[j := lhalf (u' ! j + t)])
         else (lhalf qhat, u))"

text \<open>The loop, with the number of iterations left, and the digits of the quotient it stores.\<close>

fun qd_loop :: "nat \<Rightarrow> nat \<Rightarrow> int list \<Rightarrow> nat \<Rightarrow> int list \<Rightarrow> int list \<times> int list" where
  "qd_loop 0 n v j u = ([], u)"
| "qd_loop (Suc k) n v j u =
     (let (q, u) = qd_step n v j u; (qs, u) = qd_loop k n v (j + 1) u in (q # qs, u))"

text \<open>The shift of the remainder back to its place: \<open>u[i]\<close> for \<open>i\<close> from \<open>m + n\<close> down to \<open>m + 1\<close>.\<close>

fun qd_unshift :: "nat \<Rightarrow> nat \<Rightarrow> nat \<Rightarrow> int list \<Rightarrow> int list" where
  "qd_unshift d m 0 u = u[m := 0]"
| "qd_unshift d m (Suc k) u =
     qd_unshift d m k (u[m + Suc k := drop_bit d (u ! (m + Suc k)) OR lhalf (push_bit (16 - d) (u ! (m + k)))])"

text \<open>
  \<open>None\<close> is the division by zero that the code carries out on purpose. The first component
  is the quotient, the second the remainder, stored when the caller asks for it.
\<close>

definition qdivrem :: "64 word \<Rightarrow> 64 word \<Rightarrow> (64 word \<times> 64 word) option" where
  "qdivrem uq vq =
     (if vq = 0 then None
      else if uq < vq then Some (0, uq)
      else
        let uspace = 0 # qd_digits uq;
            (v, n) = qd_norm_v (0 # qd_digits vq) 4
        in if n = 1 then Some (qd_short uspace (v ! 2))
           else
             let (u, mi) = qd_norm_u uspace (4 - int n);
                 m = nat mi;
                 d = qd_shift (v ! 1);
                 u = (if 0 < d then shl u d else u);
                 v = (if 0 < d then hd v # shl (tl v) d else v);
                 (qs, u) = qd_loop (m + 1) n v 0 u;
                 u = (if 0 < d then qd_unshift d m n u else u);
                 qspace = replicate (4 - m) 0 @ qs
             in Some (qd_quad qspace, qd_quad (replicate (4 - (m + n)) 0 @ u)))"

definition udivdi3 :: "64 word \<Rightarrow> 64 word \<Rightarrow> 64 word option" where
  "udivdi3 a b = map_option fst (qdivrem a b)"

definition umoddi3 :: "64 word \<Rightarrow> 64 word \<Rightarrow> 64 word option" where
  "umoddi3 a b = map_option snd (qdivrem a b)"

definition divdi3 :: "64 word \<Rightarrow> 64 word \<Rightarrow> 64 word option" where
  "divdi3 a b =
     (let (ua, neg) = (if sint a < 0 then (- a, True) else (a, False));
          (ub, neg) = (if sint b < 0 then (- b, \<not> neg) else (b, neg))
      in map_option (\<lambda>(uq, ur). if neg then - uq else uq) (qdivrem ua ub))"

definition moddi3 :: "64 word \<Rightarrow> 64 word \<Rightarrow> 64 word option" where
  "moddi3 a b =
     (let (ua, neg) = (if sint a < 0 then (- a, True) else (a, False));
          (ub, neg) = (if sint b < 0 then (- b, \<not> neg) else (b, neg))
      in map_option (\<lambda>(uq, ur). if neg then - ur else ur) (qdivrem ua ub))"

end
