(* ===== verification/Quad_Laws.thy ===== *)
theory Quad_Laws
  imports Quad
begin

text \<open>
  The routines on quads compute what the operators do on words of 64 bits: sums, differences,
  comparisons, bitwise operations, shifts and products here, quotients in \<open>Quad_Div\<close>.
\<close>

unbundle bit_operations_syntax

section \<open>Halves\<close>

lemma uu_halves [simp]: "uu (ul_H a) (ul_L a) = a"
  by (rule bit_word_eqI) (auto simp: uu_def ul_H_def ul_L_def bit_simps)

lemma ul_uu [simp]: "ul_H (uu h l) = h" "ul_L (uu h l) = l"
  by (rule bit_word_eqI, auto simp: uu_def ul_H_def ul_L_def bit_simps dest: bit_imp_le_length)+

lemma quad_cases: obtains h l where "a = uu h l"
  by (metis uu_halves)

lemma uint32: "uint (w :: 32 word) < 4294967296" "0 \<le> uint (w :: 32 word)"
  using uint_lt2p [of w] by simp_all

lemma uint_uu: "uint (uu h l) = uint h * 4294967296 + uint l"
proof -
  have "uu h l = push_bit 32 (ucast h) + ucast l"
    unfolding uu_def by (rule disjunctive_add [symmetric]) (auto simp: bit_simps dest: bit_imp_le_length)
  moreover have "uint h mod 18446744073709551616 = uint h" "uint l mod 18446744073709551616 = uint l"
    "uint h * 4294967296 mod 18446744073709551616 = uint h * 4294967296"
    "(uint h * 4294967296 + uint l) mod 18446744073709551616 = uint h * 4294967296 + uint l"
    by (rule mod_pos_pos_trivial, use uint32 [of h] uint32 [of l] in linarith, use uint32 [of h] uint32 [of l] in linarith)+
  ultimately show ?thesis
    by (simp add: uint_word_ariths push_bit_eq_mult unsigned_ucast_eq take_bit_eq_mod)
qed

lemma uu_eqI: "uint a = uint h * 4294967296 + uint l \<Longrightarrow> uu h l = a"
  by (rule word_uint_eqI) (simp add: uint_uu)

text \<open>A high half computed modulo the word size.\<close>

lemma uu_mod:
  assumes "uint h = x mod 4294967296" "uint a = (x * 4294967296 + uint l) mod 18446744073709551616"
  shows "uu h l = a"
proof (rule uu_eqI)
  have "(x * 4294967296 + uint l) mod 18446744073709551616 = x mod 4294967296 * 4294967296 + uint l"
  proof -
    have "x * 4294967296 + uint l = (x mod 4294967296 * 4294967296 + uint l) + x div 4294967296 * 18446744073709551616"
      using div_mult_mod_eq [of x 4294967296] by linarith
    then have "(x * 4294967296 + uint l) mod 18446744073709551616 = (x mod 4294967296 * 4294967296 + uint l) mod 18446744073709551616"
      by (metis mod_mult_self1)
    moreover have "x mod 4294967296 < 4294967296" "0 \<le> x mod 4294967296" by simp_all
    ultimately show ?thesis using uint32 [of l] by (simp add: mod_pos_pos_trivial)
  qed
  then show "uint a = uint h * 4294967296 + uint l" using assms by simp
qed

text \<open>Comparing two numbers by their halves.\<close>

lemma halves_less:
  fixes h h' l l' :: int
  assumes "0 \<le> l" "l < 4294967296" "0 \<le> l'" "l' < 4294967296"
  shows "h * 4294967296 + l < h' * 4294967296 + l' \<longleftrightarrow> h < h' \<or> h = h' \<and> l < l'"
proof (cases h h' rule: linorder_cases)
  case less
  then have "(h + 1) * 4294967296 \<le> h' * 4294967296" by simp
  then show ?thesis using less assms by (simp add: algebra_simps)
next
  case greater
  then have "(h' + 1) * 4294967296 \<le> h * 4294967296" by simp
  then show ?thesis using greater assms by (simp add: algebra_simps)
qed simp

lemma uint_carry: "uint (carry b) = (if b then 1 else 0)"
  by (simp add: carry_def)

section \<open>Sums, differences and comparisons\<close>

lemma adddi3_eq: "adddi3 a b = a + b"
proof -
  obtain h l where a: "a = uu h l" by (rule quad_cases)
  obtain h' l' where b: "b = uu h' l'" by (rule quad_cases)
  have c: "uint l + uint l' = uint (carry (l + l' < l')) * 4294967296 + uint (l + l')"
    using uint32 [of l] uint32 [of l'] by (simp add: uint_carry word_less_def uint_plus_if')
  have "uint (uu h l) + uint (uu h' l') = (uint h + uint h' + uint (carry (l + l' < l'))) * 4294967296 + uint (l + l')"
    using c by (simp add: uint_uu algebra_simps)
  then show ?thesis unfolding adddi3_def Let_def a b ul_uu
    by (intro uu_mod [where x = "uint h + uint h' + uint (carry (l + l' < l'))"])
      (simp_all add: uint_word_ariths mod_simps)
qed

lemma subdi3_eq: "subdi3 a b = a - b"
proof -
  obtain h l where a: "a = uu h l" by (rule quad_cases)
  obtain h' l' where b: "b = uu h' l'" by (rule quad_cases)
  have c: "uint l - uint l' = uint (l - l') - uint (carry (l < l - l')) * 4294967296"
    using uint32 [of l] uint32 [of l'] by (simp add: uint_carry word_less_def uint_sub_if')
  have "uint (uu h l) - uint (uu h' l') = (uint h - uint h' - uint (carry (l < l - l'))) * 4294967296 + uint (l - l')"
    using c by (simp add: uint_uu algebra_simps)
  then show ?thesis unfolding subdi3_def Let_def a b ul_uu
    by (intro uu_mod [where x = "uint h - uint h' - uint (carry (l < l - l'))"])
      (simp_all add: uint_word_ariths mod_simps)
qed

lemma negdi2_eq: "negdi2 a = - a"
proof -
  have "0 < - l \<longleftrightarrow> 0 < 0 - l" for l :: "32 word" by simp
  then have "negdi2 a = subdi3 0 a"
    by (simp add: negdi2_def subdi3_def ul_H_def ul_L_def)
  then show ?thesis by (simp add: subdi3_eq)
qed

lemma ucmpdi2_eq: "ucmpdi2 a b = (if a < b then 0 else if b < a then 2 else 1)"
proof -
  obtain h l where a: "a = uu h l" by (rule quad_cases)
  obtain h' l' where b: "b = uu h' l'" by (rule quad_cases)
  have lt: "uu x y < uu x' y' \<longleftrightarrow> x < x' \<or> x = x' \<and> y < y'" for x y x' y'
    by (simp add: word_less_def uint_uu halves_less word_uint_eq_iff uint32)
  show ?thesis unfolding a b by (auto simp: ucmpdi2_def lt)
qed

lemma sint_uu: "sint (uu h l) = sint h * 4294967296 + uint l"
proof -
  have s: "sint w = (if uint w < 2147483648 then uint w else uint w - 4294967296)" for w :: "32 word"
  proof -
    have "sint w = (uint w + 2147483648) mod 4294967296 - 2147483648"
      by (simp add: sint_uint signed_take_bit_eq_take_bit_shift take_bit_eq_mod)
    moreover have "(uint w + 2147483648) mod 4294967296 = (if uint w < 2147483648 then uint w + 2147483648 else uint w - 2147483648)"
      using uint32 [of w] minus_mod_self2 [of "uint w + 2147483648" 4294967296]
        mod_pos_pos_trivial [of "uint w - 2147483648" 4294967296] by (simp add: mod_pos_pos_trivial)
    ultimately show ?thesis by simp
  qed
  have s': "sint w = (if uint w < 9223372036854775808 then uint w else uint w - 18446744073709551616)" for w :: "64 word"
  proof -
    have "sint w = (uint w + 9223372036854775808) mod 18446744073709551616 - 9223372036854775808"
      by (simp add: sint_uint signed_take_bit_eq_take_bit_shift take_bit_eq_mod)
    moreover have "(uint w + 9223372036854775808) mod 18446744073709551616
        = (if uint w < 9223372036854775808 then uint w + 9223372036854775808 else uint w - 9223372036854775808)"
      using uint_lt2p [of w] minus_mod_self2 [of "uint w + 9223372036854775808" 18446744073709551616]
        mod_pos_pos_trivial [of "uint w - 9223372036854775808" 18446744073709551616] by (simp add: mod_pos_pos_trivial)
    ultimately show ?thesis by simp
  qed
  have "uint h * 4294967296 + uint l < 9223372036854775808" if "uint h < 2147483648"
    using that uint32 [of l] by linarith
  moreover have "\<not> uint h * 4294967296 + uint l < 9223372036854775808" if "\<not> uint h < 2147483648"
    using that uint32 [of l] by linarith
  ultimately show ?thesis by (simp add: s s' uint_uu)
qed

lemma cmpdi2_eq: "cmpdi2 a b = (if sint a < sint b then 0 else if sint b < sint a then 2 else 1)"
proof -
  obtain h l where a: "a = uu h l" by (rule quad_cases)
  obtain h' l' where b: "b = uu h' l'" by (rule quad_cases)
  have lt: "sint (uu x y) < sint (uu x' y') \<longleftrightarrow> sint x < sint x' \<or> sint x = sint x' \<and> y < y'" for x y x' y'
    by (simp add: word_less_def sint_uu halves_less uint32)
  show ?thesis unfolding a b by (auto simp: cmpdi2_def lt)
qed

section \<open>Bitwise operations and shifts\<close>

lemma bitwise_eq:
  "anddi3 a b = a AND b" "iordi3 a b = a OR b" "xordi3 a b = a XOR b" "one_cmpldi2 a = NOT a"
  by (rule bit_word_eqI; auto simp: anddi3_def iordi3_def xordi3_def one_cmpldi2_def uu_def ul_H_def ul_L_def bit_simps)+

lemma bit_index: "32 \<le> n \<Longrightarrow> 32 + (k + (n - 32)) = n + (k :: nat)" "32 \<le> n \<Longrightarrow> 32 + (n - 32) = n"
  by simp_all

lemmas shift_simps = uu_def ul_H_def ul_L_def bit_simps bit_index not_less

lemma left_shifts_eq: "ashldi3 a k = push_bit k a" "lshldi3 a k = push_bit k a"
  by (rule bit_word_eqI, auto simp: ashldi3_def lshldi3_def shift_simps dest: bit_imp_le_length)+

lemma lshrdi3_eq: "lshrdi3 a k = drop_bit k a"
  by (rule bit_word_eqI) (auto simp: lshrdi3_def shift_simps add.commute [of k] dest: bit_imp_le_length)

lemma ashrdi3_eq: "ashrdi3 a k = signed_drop_bit k a"
  by (rule bit_word_eqI) (auto simp: ashrdi3_def Let_def shift_simps add.commute [of k] dest: bit_imp_le_length)

section \<open>Products\<close>

text \<open>Quads as sums of their halves, and what the cast to a quad preserves.\<close>

lemma uu_alg: "uu h l = ucast h * 4294967296 + ucast l"
proof -
  have "uu h l = push_bit 32 (ucast h) + ucast l"
    unfolding uu_def by (rule disjunctive_add [symmetric]) (auto simp: bit_simps dest: bit_imp_le_length)
  then show ?thesis by (simp add: push_bit_eq_mult)
qed

abbreviation quad :: "32 word \<Rightarrow> 64 word" where "quad x \<equiv> ucast x"

lemma quad_mult: "uint x * uint y < 4294967296 \<Longrightarrow> quad (x * y) = quad x * quad y"
  by (rule word_uint_eqI) (simp add: uint_word_ariths unsigned_ucast_eq take_bit_eq_mod mod_simps)

lemma quad_diff: "y \<le> x \<Longrightarrow> quad (x - y) = quad x - quad y"
proof -
  assume "y \<le> x"
  then have "uint y \<le> uint x" by (simp add: word_le_def)
  moreover have "(uint x - uint y) mod 18446744073709551616 = uint x - uint y"
    using \<open>uint y \<le> uint x\<close> uint32 [of x] uint32 [of y] by (intro mod_pos_pos_trivial) linarith+
  ultimately show ?thesis
    by (intro word_uint_eqI)
      (simp add: uint_word_ariths(2) [where 'a = 64] uint_sub_if' unsigned_ucast_eq take_bit_eq_mod mod_simps)
qed

lemma quad_hom:
  "quad (x + y) * 4294967296 = (quad x + quad y) * 4294967296"
  "quad (x * y) * 4294967296 = quad x * quad y * 4294967296"
  "quad (- x) * 4294967296 = - (quad x * 4294967296)"
  "quad (ul_L a) * 4294967296 = a * 4294967296"
proof -
  have m: "x mod 4294967296 * 4294967296 mod 18446744073709551616 = x * 4294967296 mod (18446744073709551616 :: int)" for x
    using mult_mod_right [of 4294967296 x 4294967296] by (simp add: mult.commute)
  have e: "(a :: 64 word) * 4294967296 = b * 4294967296 \<longleftrightarrow> uint a * 4294967296 mod 18446744073709551616 = uint b * 4294967296 mod 18446744073709551616" for a b
    by (simp add: word_uint_eq_iff uint_word_ariths)
  show "quad (x + y) * 4294967296 = (quad x + quad y) * 4294967296" "quad (x * y) * 4294967296 = quad x * quad y * 4294967296"
    "quad (ul_L a) * 4294967296 = a * 4294967296"
    unfolding e by (simp_all add: uint_word_ariths unsigned_ucast_eq take_bit_eq_mod ul_L_def m mod_simps uint_mod_distrib)
  have "quad (- x) * 4294967296 = (- quad x) * 4294967296"
    unfolding e by (simp add: uint_word_ariths unsigned_ucast_eq take_bit_eq_mod m mod_simps)
  then show "quad (- x) * 4294967296 = - (quad x * 4294967296)" by simp
qed

lemma uu_add: "uu (h + (h' + carry (l + l' < l))) (l + l') = uu h l + uu h' l'"
  using adddi3_eq [of "uu h' l'" "uu h l"] by (simp add: adddi3_def Let_def ac_simps)

lemma uu_sub: "uu (h - (h' + carry (l < l - l'))) (l - l') = uu h l - uu h' l'"
  using subdi3_eq [of "uu h l" "uu h' l'"] by (simp add: subdi3_def Let_def diff_diff_eq)

lemma uu_up: "uu (HHALF x) (LHUP x) = quad x * 65536"
proof -
  have "uu (HHALF x) (LHUP x) = push_bit 16 (quad x)"
    by (rule bit_word_eqI) (auto simp: HHALF_def LHUP_def uu_def bit_simps)
  then show ?thesis by (simp add: push_bit_eq_mult)
qed

lemma halves_int: "uint (HHALF x) = uint x div 65536" "uint (LHALF x) = uint x mod 65536"
proof -
  have "LHALF x = take_bit 16 x" unfolding LHALF_def by (simp add: take_bit_eq_mask mask_eq_exp_minus_1)
  then show "uint (LHALF x) = uint x mod 65536" by (simp add: take_bit_eq_mod uint_mod_distrib)
  show "uint (HHALF x) = uint x div 65536" by (simp add: HHALF_def unsigned_drop_bit_eq drop_bit_eq_div take_bit_eq_mod uint32 uint_div_distrib)
qed

lemma quad_split: "quad x = quad (HHALF x) * 65536 + quad (LHALF x)"
  using uint32 [of x] by (intro word_uint_eqI)
    (simp add: uint_word_ariths unsigned_ucast_eq take_bit_eq_mod mod_simps halves_int mod_pos_pos_trivial)

lemma halves_bound: "uint (HHALF x) < 65536" "uint (LHALF x) < 65536"
  using uint32 [of x] by (simp_all add: halves_int)

text \<open>The product of two differences with the sign kept apart.\<close>

lemma signed_mid:
  assumes "uint u1 < 65536" "uint u0 < 65536" "uint v1 < 65536" "uint v0 < 65536"
  defines "ud \<equiv> (if u0 \<le> u1 then u1 - u0 else u0 - u1)" and "vd \<equiv> (if v1 \<le> v0 then v0 - v1 else v1 - v0)"
  shows "quad (ud * vd) = (if (u0 \<le> u1) = (v1 \<le> v0) then (quad u1 - quad u0) * (quad v0 - quad v1)
    else - ((quad u1 - quad u0) * (quad v0 - quad v1)))"
proof -
  note uint_nn = uint_ge_0 [of u1] uint_ge_0 [of u0] uint_ge_0 [of v1] uint_ge_0 [of v0]
  have "uint ud \<le> 65535" "uint vd \<le> 65535"
    using assms(1-4) uint_nn unfolding ud_def vd_def
    by (simp_all only: uint_sub_if' word_le_def split: if_split) linarith+
  then have "uint ud * uint vd \<le> 65535 * 65535" by (intro mult_mono) auto
  then have "quad (ud * vd) = quad ud * quad vd" by (intro quad_mult) simp
  moreover have "quad ud = (if u0 \<le> u1 then quad u1 - quad u0 else quad u0 - quad u1)" by (simp add: ud_def quad_diff)
  moreover have "quad vd = (if v1 \<le> v0 then quad v0 - quad v1 else quad v1 - quad v0)" by (simp add: vd_def quad_diff)
  ultimately show ?thesis by (simp add: algebra_simps)
qed

lemma quad_mult_half: "uint x < 65536 \<Longrightarrow> uint y < 65536 \<Longrightarrow> quad (x * y) = quad x * quad y"
  using mult_mono [of "uint x" 65535 "uint y" 65535] by (intro quad_mult) simp

lemma lmulq_eq: "lmulq u v = quad u * quad v"
proof -
  define u1 u0 v1 v0 where d: "u1 = HHALF u" "u0 = LHALF u" "v1 = HHALF v" "v0 = LHALF v"
  have b: "uint u1 < 65536" "uint u0 < 65536" "uint v1 < 65536" "uint v0 < 65536"
    by (simp_all add: d halves_bound)
  define low where "low = u0 * v0"
  define high where "high = u1 * v1"
  define mid where "mid = (if u0 \<le> u1 then u1 - u0 else u0 - u1) * (if v1 \<le> v0 then v0 - v1 else v1 - v0)"
  have l: "quad low = quad u0 * quad v0" and h: "quad high = quad u1 * quad v1"
    by (simp_all add: low_def high_def quad_mult_half b)
  have m: "quad mid = (if (u0 \<le> u1) = (v1 \<le> v0) then (quad u1 - quad u0) * (quad v0 - quad v1)
    else - ((quad u1 - quad u0) * (quad v0 - quad v1)))"
    unfolding mid_def by (rule signed_mid) (use b in auto)
  have uv: "quad u * quad v = (quad u1 * 65536 + quad u0) * (quad v1 * 65536 + quad v0)"
    by (subst (1 2) quad_split) (simp add: d)
  show ?thesis
  proof (cases "u1 = 0 \<and> v1 = 0")
    case True
    then show ?thesis unfolding uv by (simp add: lmulq_def Let_def d [symmetric] low_def [symmetric] l)
  next
    case False
    define p where "p = (if (u0 \<le> u1) = (v1 \<le> v0)
      then uu (high + HHALF high + (HHALF mid + carry (LHUP high + LHUP mid < LHUP high))) (LHUP high + LHUP mid)
      else uu (high + HHALF high - (HHALF mid + carry (LHUP high < LHUP high - LHUP mid))) (LHUP high - LHUP mid))"
    have hi: "uu (high + HHALF high) (LHUP high) = quad high * 4294967296 + quad high * 65536"
      by (simp add: uu_alg quad_hom distrib_right uu_up [unfolded uu_alg, symmetric])
    have p: "p = quad high * 4294967296 + quad high * 65536 + (quad u1 - quad u0) * (quad v0 - quad v1) * 65536"
      unfolding p_def uu_add uu_sub hi uu_up m by (simp add: algebra_simps)
    have fin: "uu (if l + low < low then ph + 1 else ph) (l + low) = uu ph l + quad low" for ph l
    proof -
      have "quad low = uu 0 low" by (simp add: uu_def)
      then show ?thesis using adddi3_eq [of "uu ph l" "uu 0 low"]
        by (cases "l + low < low") (simp_all add: adddi3_def carry_def)
    qed
    have "lmulq u v = p + quad low * 65536 + quad low"
      unfolding lmulq_def Let_def d [symmetric] low_def [symmetric] high_def [symmetric] fin p_def mid_def
      by (cases "u0 \<le> u1"; cases "v1 \<le> v0")
        (simp_all only: False if_True if_False prod.case not_True_eq_False not_False_eq_True fin uu_add uu_up simp_thms)
    then show ?thesis unfolding uv p h l by (simp add: algebra_simps)
  qed
qed

lemma quad_hom_minus: "quad (x - y) * 4294967296 = quad x * 4294967296 - quad y * 4294967296"
  using quad_hom(1) [of x "- y"] quad_hom(3) [of y] by (simp add: algebra_simps)

lemma muldi3_unsigned:
  assumes "u = uu u1 u0" "v = uu v1 v0" "low = lmulq u0 v0"
  shows "uu (u1 * v1 + (u1 - u0) * (v0 - v1) + ul_L low + ul_H low) (ul_L low) = u * v"
proof -
  have l: "quad (ul_H low) * 4294967296 + quad (ul_L low) = quad u0 * quad v0"
    using uu_halves [of low, unfolded uu_alg] by (simp add: assms(3) lmulq_eq)
  have h: "quad (ul_L low) * 4294967296 = quad u0 * quad v0 * 4294967296"
    by (simp add: assms(3) lmulq_eq quad_hom)
  have m: "quad ((u1 - u0) * (v0 - v1)) * 4294967296 = (quad u1 - quad u0) * (quad v0 - quad v1) * 4294967296"
  proof -
    have "quad ((u1 - u0) * (v0 - v1)) * 4294967296 = quad (u1 - u0) * (quad (v0 - v1) * 4294967296)"
      by (simp add: quad_hom)
    also have "\<dots> = quad (u1 - u0) * 4294967296 * (quad v0 - quad v1)"
      by (simp add: quad_hom_minus algebra_simps)
    also have "\<dots> = (quad u1 - quad u0) * (quad v0 - quad v1) * 4294967296"
      by (simp add: quad_hom_minus algebra_simps)
    finally show ?thesis .
  qed
  have "uu (u1 * v1 + (u1 - u0) * (v0 - v1) + ul_L low + ul_H low) (ul_L low)
      = quad u1 * quad v1 * 4294967296 + (quad u1 - quad u0) * (quad v0 - quad v1) * 4294967296
        + quad u0 * quad v0 * 4294967296 + quad u0 * quad v0"
  proof -
    have "uu (u1 * v1 + (u1 - u0) * (v0 - v1) + ul_L low + ul_H low) (ul_L low)
        = quad (u1 * v1) * 4294967296 + quad ((u1 - u0) * (v0 - v1)) * 4294967296 + quad (ul_L low) * 4294967296
          + (quad (ul_H low) * 4294967296 + quad (ul_L low))"
      by (simp only: uu_alg quad_hom(1) distrib_right add.assoc)
    then show ?thesis unfolding m h l by (simp only: quad_hom(2))
  qed
  moreover have "u * v = quad u1 * quad v1 * (4294967296 * 4294967296) + (quad u1 * quad v0 + quad u0 * quad v1) * 4294967296 + quad u0 * quad v0"
    unfolding assms uu_alg by (simp only: algebra_simps)
  moreover have "(4294967296 :: 64 word) * 4294967296 = 0" by simp
  ultimately show ?thesis by (simp only: mult_zero_right add_0_left) (simp only: algebra_simps; simp)
qed

lemma muldi3_eq: "muldi3 a b = a * b"
proof -
  have small: "lmulq (ul_L u) (ul_L v) = u * v" if "ul_H u = 0" "ul_H v = 0" for u v
    using uu_halves [of u] uu_halves [of v] that by (simp add: lmulq_eq uu_alg)
  note big = muldi3_unsigned [OF uu_halves [symmetric] uu_halves [symmetric] refl]
  have mid: "(u0 - u1) * (v1 - v0) = (u1 - u0) * (v0 - v1)" "- ((u1 - u0) * (v1 - v0)) = (u1 - u0) * (v0 - v1)"
    "- ((u0 - u1) * (v0 - v1)) = (u1 - u0) * (v0 - v1)" for u1 u0 v1 v0 :: "32 word"
    by (simp_all add: algebra_simps)
  have pos: "(let u1 = ul_H u; u0 = ul_L u; v1 = ul_H v; v0 = ul_L v in
      if u1 = 0 \<and> v1 = 0 then lmulq u0 v0
      else
        let low = lmulq u0 v0;
            (udiff, negmid) = (if u0 \<le> u1 then (u1 - u0, False) else (u0 - u1, True));
            (vdiff, negmid) = (if v1 \<le> v0 then (v0 - v1, negmid) else (v1 - v0, \<not> negmid));
            mid = udiff * vdiff;
            high = u1 * v1
        in uu (high + (if negmid then - mid else mid) + ul_L low + ul_H low) (ul_L low)) = u * v" for u v
    by (cases "ul_L u \<le> ul_H u"; cases "ul_H v \<le> ul_L v")
      (simp_all only: Let_def if_True if_False prod.case not_True_eq_False not_False_eq_True mid big, simp_all add: small)
  show ?thesis
    by (cases "0 \<le> sint a"; cases "0 \<le> sint b")
      (simp_all only: muldi3_def pos [unfolded Let_def] Let_def if_True if_False prod.case not_True_eq_False not_False_eq_True, simp_all)
qed

end
