(* ===== verification/Quad_Div.thy ===== *)
theory Quad_Div
  imports Quad_Laws "HOL-Library.Signed_Division"
begin

text \<open>
  \<open>qdivrem.c\<close>: Knuth's Algorithm D on digits of 16 bits. \<open>val u a m\<close> is the number written by
  the \<open>m\<close> digits of \<open>u\<close> from \<open>u[a]\<close> on. Each routine of \<open>Quad\<close> is given by the values
  before and after: multiply-and-subtract and add-back as one equation with their carry, the
  trial digit as one of two candidates, one iteration as a division of the window by the
  divisor, the loop as the division of the whole dividend.
\<close>

unbundle bit_operations_syntax

section \<open>Digits\<close>

lemma lhalf_mod: "lhalf x = x mod 65536"
  using take_bit_eq_mask [of 16 x] by (simp add: lhalf_def take_bit_eq_mod mask_eq_exp_minus_1)

lemma hhalf_div: "hhalf x = x div 65536"
  by (simp add: hhalf_def drop_bit_eq_div)

lemma or_low_high:
  fixes a b :: int
  assumes "0 \<le> b" "b < 2 ^ k"
  shows "push_bit k a OR b = a * 2 ^ k + b"
proof -
  have "take_bit k b = b" using assms by (simp add: take_bit_int_eq_self)
  then have "push_bit k a OR b = push_bit k a + b"
    by (intro disjunctive_add [symmetric]) (metis bit_push_bit_iff_int bit_take_bit_iff not_less)
  then show ?thesis by (simp add: push_bit_eq_mult)
qed

definition digit :: "int \<Rightarrow> bool" where "digit x \<longleftrightarrow> 0 \<le> x \<and> x < 65536"

lemma COMBINE_eq: "0 \<le> a \<Longrightarrow> a < 65536 \<Longrightarrow> digit b \<Longrightarrow> COMBINE a b = a * 65536 + b"
proof -
  assume a: "0 \<le> a" "a < 65536" "digit b"
  have "u_int (push_bit 16 a) = push_bit 16 a" using a by (simp add: push_bit_eq_mult)
  then show ?thesis using a or_low_high [of b 16 a] by (simp add: COMBINE_def digit_def)
qed

lemma digit_half [simp]: "digit (lhalf x)" "0 \<le> x \<Longrightarrow> x < 4294967296 \<Longrightarrow> digit (hhalf x)"
  by (auto simp: digit_def lhalf_mod hhalf_div)

abbreviation digits :: "int list \<Rightarrow> bool" where "digits \<equiv> list_all digit"

lemma digits_nth: "digits u \<Longrightarrow> i < length u \<Longrightarrow> 0 \<le> u ! i \<and> u ! i < 65536"
  by (auto simp: list_all_length digit_def)

lemma digits_update: "digits u \<Longrightarrow> digit x \<Longrightarrow> digits (u[i := x])"
  by (cases "i < length u") (auto simp: list_all_length nth_list_update)

primrec val :: "int list \<Rightarrow> nat \<Rightarrow> nat \<Rightarrow> int" where
  "val u a 0 = 0"
| "val u a (Suc m) = val u a m * 65536 + u ! (a + m)"

lemma val_first: "val u a (Suc m) = u ! a * 65536 ^ m + val u (Suc a) m"
  by (induction m) (auto simp: algebra_simps)

lemma val_append: "val u a (m + k) = val u a m * 65536 ^ k + val u (a + m) k"
  by (induction k) (auto simp: algebra_simps)

lemma val_bound:
  assumes "digits u" "a + m \<le> length u"
  shows "0 \<le> val u a m \<and> val u a m < 65536 ^ m"
  using assms(2)
proof (induction m)
  case (Suc m)
  then have "0 \<le> val u a m" "val u a m + 1 \<le> 65536 ^ m" by auto
  then have "(val u a m + 1) * 65536 \<le> 65536 ^ m * 65536" by (intro mult_right_mono) auto
  moreover have "0 \<le> u ! (a + m)" "u ! (a + m) < 65536" using digits_nth [OF assms(1), of "a + m"] Suc.prems by auto
  ultimately show ?case using \<open>0 \<le> val u a m\<close> by (auto simp: algebra_simps)
qed simp

lemma val_cong: "(\<And>i. a \<le> i \<Longrightarrow> i < a + m \<Longrightarrow> u ! i = u' ! i) \<Longrightarrow> val u a m = val u' a m"
  by (induction m) auto

lemma val_other: "i < a \<or> a + m \<le> i \<Longrightarrow> val (u[i := x]) a m = val u a m"
  by (rule val_cong) auto

lemma val_Cons: "val (x # u) (Suc a) m = val u a m"
  by (induction m) auto

lemma val_shift: "val (xs @ u) (length xs + a) m = val u a m"
  by (induction m) (auto simp: nth_append)

section \<open>Multiply and subtract, add back\<close>

lemma qd_mulsub_correct:
  assumes "qd_mulsub i j v q u t = (u', t')" "digits u" "digits v" "digit q" "digit t"
    "i + j < length u" "i < length v"
  shows "val u' (Suc j) i - t' * 65536 ^ i = val u (Suc j) i - val v 1 i * q - t \<and> digit t' \<and> digits u'
    \<and> length u' = length u \<and> (\<forall>k. k \<le> j \<or> j + i < k \<longrightarrow> u' ! k = u ! k)"
  using assms
proof (induction i arbitrary: u t)
  case (Suc i)
  define x where "x = u ! (Suc i + j) - v ! Suc i * q - t"
  define t1 where "t1 = (65536 - hhalf (u_int x)) AND 65535"
  define u1 where "u1 = u[Suc i + j := lhalf (u_int x)]"
  have b: "0 \<le> u ! (Suc i + j)" "u ! (Suc i + j) < 65536" "0 \<le> v ! Suc i" "v ! Suc i < 65536"
    "0 \<le> q" "q < 65536" "0 \<le> t" "t < 65536"
    using digits_nth [OF Suc.prems(2), of "Suc i + j"] digits_nth [OF Suc.prems(3), of "Suc i"] Suc.prems
    by (auto simp: digit_def)
  have vq: "0 \<le> v ! Suc i * q" "v ! Suc i * q \<le> 65535 * 65535"
    using b mult_mono [of "v ! Suc i" 65535 q 65535] by auto
  have x: "- 4294901760 \<le> x" "x < 65536" using b vq unfolding x_def by linarith+
  have l: "lhalf (u_int x) = x mod 65536"
    by (simp add: lhalf_mod u_int_def mod_mod_cancel)
  have xd: "- 65535 \<le> x div 65536" "x div 65536 \<le> 0" using x by auto
  have "hhalf (u_int x) = x div 65536 mod 65536"
    using zmod_zmult2_eq [of 65536 x 65536] by (simp add: hhalf_div u_int_def)
  then have "t1 = (- (x div 65536)) mod 65536"
    using lhalf_mod [of "65536 - hhalf (u_int x)"] by (simp add: t1_def lhalf_def mod_simps)
  then have t1: "t1 = - (x div 65536)" using xd by simp
  then have d1: "digit t1" using xd by (auto simp: digit_def)
  have r: "qd_mulsub i j v q u1 t1 = (u', t')"
    using Suc.prems(1) by (simp add: Let_def x_def t1_def u1_def)
  have IH: "val u' (Suc j) i - t' * 65536 ^ i = val u1 (Suc j) i - val v 1 i * q - t1 \<and> digit t' \<and> digits u'
    \<and> length u' = length u1 \<and> (\<forall>k. k \<le> j \<or> j + i < k \<longrightarrow> u' ! k = u1 ! k)"
    using Suc.prems by (intro Suc.IH [OF r]) (auto simp: u1_def digits_update d1)
  have e: "u' ! (Suc j + i) = x mod 65536" using IH Suc.prems by (simp add: u1_def l add.commute [of j])
  have "val u1 (Suc j) i = val u (Suc j) i" unfolding u1_def by (rule val_other) auto
  then have m: "val u' (Suc j) i - t' * 65536 ^ i = val u (Suc j) i - val v 1 i * q + x div 65536"
    using IH t1 by simp
  have "(val u' (Suc j) i - t' * 65536 ^ i) * 65536 + x mod 65536
      = (val u (Suc j) i - val v 1 i * q) * 65536 + x"
    unfolding m by (simp add: distrib_right)
  then show ?case using IH e by (auto simp: x_def u1_def algebra_simps)
qed auto

lemma qd_addback_correct:
  assumes "qd_addback i j v u t = (u', t')" "digits u" "digits v" "t = 0 \<or> t = 1"
    "i + j < length u" "i < length v"
  shows "val u' (Suc j) i + t' * 65536 ^ i = val u (Suc j) i + val v 1 i + t \<and> (t' = 0 \<or> t' = 1) \<and> digits u'
    \<and> length u' = length u \<and> (\<forall>k. k \<le> j \<or> j + i < k \<longrightarrow> u' ! k = u ! k)"
  using assms
proof (induction i arbitrary: u t)
  case (Suc i)
  define x where "x = t + (u ! (Suc i + j) + v ! Suc i)"
  define u1 where "u1 = u[Suc i + j := lhalf x]"
  have b: "0 \<le> x" "x < 131072"
    using digits_nth [OF Suc.prems(2), of "Suc i + j"] digits_nth [OF Suc.prems(3), of "Suc i"] Suc.prems
    by (auto simp: x_def)
  then have t1: "hhalf x = 0 \<or> hhalf x = 1" by (auto simp: hhalf_div)
  have r: "qd_addback i j v u1 (hhalf x) = (u', t')"
    using Suc.prems(1) b by (simp add: Let_def x_def u1_def)
  have IH: "val u' (Suc j) i + t' * 65536 ^ i = val u1 (Suc j) i + val v 1 i + hhalf x \<and> (t' = 0 \<or> t' = 1) \<and> digits u'
    \<and> length u' = length u1 \<and> (\<forall>k. k \<le> j \<or> j + i < k \<longrightarrow> u' ! k = u1 ! k)"
    using Suc.prems t1 by (intro Suc.IH [OF r]) (auto simp: u1_def digits_update)
  have e: "u' ! (Suc j + i) = x mod 65536" using IH Suc.prems by (simp add: u1_def lhalf_mod add.commute [of j])
  have "val u1 (Suc j) i = val u (Suc j) i" unfolding u1_def by (rule val_other) auto
  then have "(val u' (Suc j) i + t' * 65536 ^ i) * 65536 + x mod 65536
      = (val u (Suc j) i + val v 1 i) * 65536 + x"
    using IH div_mult_mod_eq [of x 65536] by (simp add: algebra_simps hhalf_div)
  then show ?case using IH e by (auto simp: x_def u1_def algebra_simps)
qed auto

section \<open>The trial digit\<close>

lemma le_div: "0 < V \<Longrightarrow> q \<le> W div V \<longleftrightarrow> q * V \<le> (W :: int)"
proof
  assume "0 < V" "q \<le> W div V"
  then have "q * V \<le> W div V * V" by (intro mult_right_mono) auto
  also have "\<dots> \<le> W" using \<open>0 < V\<close> div_mult_mod_eq [of W V] pos_mod_sign [of V W] by linarith
  finally show "q * V \<le> W" .
next
  assume "0 < V" "q * V \<le> W"
  then show "q \<le> W div V" using zdiv_mono1 [of "q * V" W V] by simp
qed

text \<open>
  With the divisor \<open>V\<close> and the window \<open>W\<close> given by their leading digits and the power \<open>P\<close> of the
  base below them, \<open>q\<close> a candidate whose remainder on \<open>v\<^sub>1\<close> is \<open>r\<close>.
\<close>

lemma qhat_not_too_small:
  fixes V W P v1 v2 N uj2 q r :: int
  assumes V: "(v1 * 65536 + v2) * P \<le> V" and W: "W < (N * 65536 + uj2 + 1) * P" and P: "0 < P"
    and q: "0 \<le> q" "q * v1 + r = N" and t: "r * 65536 + uj2 < v2 * q" and V0: "0 < V"
  shows "W div V < q"
proof (rule ccontr)
  assume "\<not> W div V < q"
  then have "q * V \<le> W" using V0 by (simp add: le_div not_less)
  moreover have "q * ((v1 * 65536 + v2) * P) \<le> q * V" using V q by (intro mult_left_mono) auto
  ultimately have "q * (v1 * 65536 + v2) * P < (N * 65536 + uj2 + 1) * P" using W by (simp add: mult.assoc)
  then have "q * (v1 * 65536 + v2) < N * 65536 + uj2 + 1" using P by simp
  then show False using t q(2) by (simp add: algebra_simps flip: q(2))
qed

lemma qhat_not_too_big:
  fixes V W P v1 v2 N uj2 q :: int
  assumes V: "(v1 * 65536 + v2) * P \<le> V" "V \<le> (v1 * 65536 + v2 + 1) * P" and W: "(N * 65536 + uj2) * P \<le> W"
    and P: "0 < P" and v: "32768 \<le> v1" "0 \<le> v2" and q: "0 \<le> q" "q < 65536"
    and t: "q * (v1 * 65536 + v2) \<le> N * 65536 + uj2"
  shows "q \<le> W div V + 1"
proof -
  have "q * V \<le> q * ((v1 * 65536 + v2 + 1) * P)" using V q by (intro mult_left_mono) auto
  also have "\<dots> = q * (v1 * 65536 + v2) * P + q * P" by (simp add: algebra_simps)
  also have "\<dots> \<le> (N * 65536 + uj2) * P + (v1 * 65536 + v2) * P"
    using t P q v by (intro add_mono mult_right_mono) auto
  also have "\<dots> \<le> W + V" using V W by simp
  finally have "(q - 1) * V \<le> W" by (simp add: algebra_simps)
  moreover have "0 < (v1 * 65536 + v2) * P" using v P by (intro mult_pos_pos) auto
  then have "0 < V" using V by simp
  ultimately have "q - 1 \<le> W div V" by (simp add: le_div)
  then show ?thesis by simp
qed

lemma qd_decr_correct:
  assumes "digit v2" "digit uj2" "32768 \<le> v1"
    and "q * v1 + r = N" "0 \<le> r" "Q < q" "0 \<le> Q" "q \<le> 65536"
    and low: "\<And>q r. 0 \<le> q \<Longrightarrow> q * v1 + r = N \<Longrightarrow> r * 65536 + uj2 < v2 * q \<Longrightarrow> Q < q"
  shows "Q \<le> qd_decr v1 v2 uj2 q r \<and> qd_decr v1 v2 uj2 q r < 65536
    \<and> qd_decr v1 v2 uj2 q r * (v1 * 65536 + v2) \<le> N * 65536 + uj2"
  using assms
proof (induction v1 v2 uj2 q r rule: qd_decr.induct)
  case (1 v1 v2 uj2 q r)
  define q' r' where "q' = q - 1" and "r' = r + v1"
  have q: "0 \<le> q'" "q' < 65536" "Q \<le> q'" "u_int (q - 1) = q'" "q' * v1 + r' = N" "0 \<le> r'" "\<not> v1 \<le> 0"
    using 1(2-9) by (auto simp: q'_def r'_def algebra_simps)
  have vq: "0 \<le> v2 * q'" "v2 * q' \<le> 65535 * 65535" "u_int (v2 * q') = v2 * q'"
    using q(1,2) 1(2) mult_mono [of v2 65535 q' 65535] by (auto simp: digit_def)
  have ok: "q' * (v1 * 65536 + v2) \<le> N * 65536 + uj2" if "v2 * q' \<le> r' * 65536 + uj2"
    using that by (simp add: algebra_simps flip: q(5))
  show ?case
  proof (cases "65536 \<le> r'")
    case True
    then have "qd_decr v1 v2 uj2 q r = q'" by (subst qd_decr.simps) (simp add: Let_def q(4) r'_def)
    moreover have "v2 * q' \<le> r' * 65536 + uj2" using True vq 1(3) unfolding digit_def by linarith
    ultimately show ?thesis using ok q by simp
  next
    case False
    then have C: "COMBINE r' uj2 = r' * 65536 + uj2" using 1(3) q by (simp add: COMBINE_eq)
    show ?thesis
    proof (cases "r' * 65536 + uj2 < v2 * q'")
      case True
      have "qd_decr v1 v2 uj2 q r = qd_decr v1 v2 uj2 q' r'" using True False
        by (subst qd_decr.simps) (simp add: Let_def q(4,7) r'_def [symmetric] C vq)
      moreover have "Q < q'" by (rule 1(10) [OF q(1,5) True])
      then have "Q \<le> qd_decr v1 v2 uj2 q' r' \<and> qd_decr v1 v2 uj2 q' r' < 65536
          \<and> qd_decr v1 v2 uj2 q' r' * (v1 * 65536 + v2) \<le> N * 65536 + uj2"
        using True False q 1(2-4,8) C vq 1(10)
        by (intro 1(1) [of q' r']) (auto simp: r'_def)
      ultimately show ?thesis by simp
    next
      case False2: False
      have "qd_decr v1 v2 uj2 q r = q'" using False False2
        by (subst qd_decr.simps) (simp add: Let_def q(4,7) r'_def [symmetric] C vq)
      then show ?thesis using ok q False2 by simp
    qed
  qed
qed

text \<open>The trial digit is the digit of the quotient or one more.\<close>

lemma qd_qhat_correct:
  fixes V W P :: int
  assumes d: "digit v1" "digit v2" "digit uj0" "digit uj1" "digit uj2" and v1: "32768 \<le> v1" and P: "0 < P"
    and V: "(v1 * 65536 + v2) * P \<le> V" "V < (v1 * 65536 + v2 + 1) * P"
    and W: "(uj0 * 65536 * 65536 + uj1 * 65536 + uj2) * P \<le> W" "W < (uj0 * 65536 * 65536 + uj1 * 65536 + uj2 + 1) * P"
    and WV: "W < V * 65536"
  defines "q \<equiv> qd_qhat v1 v2 uj0 uj1 uj2"
  shows "digit q \<and> (q = W div V \<or> q = W div V + 1)"
proof -
  define N where "N = uj0 * 65536 + uj1"
  define Q where "Q = W div V"
  have vp: "0 < (v1 * 65536 + v2) * P" using v1 d P by (intro mult_pos_pos) (auto simp: digit_def)
  then have V0: "0 < V" using V by simp
  have W0: "0 \<le> (uj0 * 65536 * 65536 + uj1 * 65536 + uj2) * P" using d P by (auto simp: digit_def)
  then have Q: "0 \<le> Q" "Q < 65536"
    using V0 W WV le_div [of V 65536 W] by (auto simp: Q_def pos_imp_zdiv_nonneg_iff not_le)
  have W': "(N * 65536 + uj2) * P \<le> W" "W < (N * 65536 + uj2 + 1) * P" using W by (simp_all add: N_def algebra_simps)
  have low: "Q < q" if "0 \<le> q" "q * v1 + r = N" "r * 65536 + uj2 < v2 * q" for q r
    unfolding Q_def using V(1) W'(2) P that V0 by (rule qhat_not_too_small)
  have "Q \<le> q \<and> q < 65536 \<and> q * (v1 * 65536 + v2) \<le> N * 65536 + uj2"
  proof (cases "uj0 = v1")
    case True
    then show ?thesis unfolding q_def qd_qhat_def
      using d v1 Q low by (simp, intro qd_decr_correct) (auto simp: N_def digit_def)
  next
    case False
    have "W < V * 65536" by (rule WV)
    also have "\<dots> \<le> (v1 * 65536 + v2 + 1) * P * 65536" using V by simp
    also have "\<dots> \<le> (v1 * 65536 + 65535 + 1) * P * 65536" using d P by (intro mult_right_mono) (auto simp: digit_def)
    also have "\<dots> = (v1 + 1) * (4294967296 * P)" by (simp add: algebra_simps)
    finally have "W < (v1 + 1) * (4294967296 * P)" .
    moreover have "uj0 * (4294967296 * P) \<le> (uj0 * 65536 * 65536 + uj1 * 65536 + uj2) * P"
      using d P by (simp add: digit_def algebra_simps)
    ultimately have "uj0 * (4294967296 * P) < (v1 + 1) * (4294967296 * P)" using W by linarith
    then have u: "uj0 < v1" using False P by simp
    have C: "COMBINE uj0 uj1 = N" using d by (simp add: COMBINE_eq digit_def N_def)
    have N: "0 \<le> N" "N < v1 * 65536" using u d by (auto simp: N_def digit_def)
    have "v1 * (65536 * P) = v1 * 65536 * P" by simp
    also have "\<dots> \<le> (v1 * 65536 + v2) * P" using d P by (intro mult_right_mono) (auto simp: digit_def)
    finally have vP: "v1 * (65536 * P) \<le> V" using V by simp
    have "Q * (v1 * (65536 * P)) \<le> Q * V" using vP Q by (intro mult_left_mono)
    also have "\<dots> \<le> W" using V0 le_div [of V Q W] by (simp add: Q_def)
    also have "\<dots> < (N + 1) * (65536 * P)"
    proof -
      have "(N * 65536 + uj2 + 1) * P \<le> (N * 65536 + 65536) * P" using d P by (intro mult_right_mono) (auto simp: digit_def)
      then show ?thesis using W'(2) by (simp add: algebra_simps)
    qed
    finally have "Q * v1 * (65536 * P) < (N + 1) * (65536 * P)" by (simp add: mult.assoc)
    then have "Q * v1 < N + 1" using P by simp
    then have Qn: "Q \<le> N div v1" using v1 by (simp add: le_div)
    define r where "r = N mod v1"
    have nr: "N div v1 * v1 + r = N" "0 \<le> r" "r < v1" "0 \<le> N div v1" "N div v1 < 65536"
      using v1 N le_div [of v1 65536 N] by (auto simp: r_def pos_imp_zdiv_nonneg_iff not_le)
    have vq: "u_int (v2 * (N div v1)) = v2 * (N div v1)"
      using nr d mult_mono [of v2 65535 "N div v1" 65535] by (simp add: digit_def)
    have Cr: "COMBINE r uj2 = r * 65536 + uj2" using nr d by (simp add: COMBINE_eq digit_def)
    show ?thesis
    proof (cases "r * 65536 + uj2 < v2 * (N div v1)")
      case True
      then have "q = qd_decr v1 v2 uj2 (N div v1) r"
        using False by (simp add: q_def qd_qhat_def C vq Cr r_def [symmetric])
      then show ?thesis using d v1 nr Q low [OF nr(4,1) True] low by (simp, intro qd_decr_correct) auto
    next
      case le: False
      then have "q = N div v1" using False by (simp add: q_def qd_qhat_def C vq Cr r_def [symmetric])
      moreover have "N div v1 * (v1 * 65536 + v2) \<le> N * 65536 + uj2"
      proof -
        have "N div v1 * (v1 * 65536 + v2) = N div v1 * v1 * 65536 + v2 * (N div v1)" by (simp add: algebra_simps)
        also have "N div v1 * v1 = N - r" using nr(1) by simp
        finally show ?thesis using le by (simp add: left_diff_distrib)
      qed
      ultimately show ?thesis using Qn nr by simp
    qed
  qed
  moreover have "0 \<le> q" using calculation Q by simp
  ultimately have "q \<le> Q + 1" unfolding Q_def using V(2) d
    by (intro qhat_not_too_big [OF V(1) _ W'(1) P v1]) (auto simp: digit_def)
  then show ?thesis using \<open>Q \<le> q \<and> _ \<and> _\<close> Q by (auto simp: digit_def Q_def)
qed

section \<open>One digit of the quotient\<close>

text \<open>
  One iteration divides the window, the \<open>n + 1\<close> digits from \<open>u[j]\<close> on, by the divisor and
  leaves the remainder in its place.
\<close>

lemma val_two: "val u a (Suc (Suc k)) = (u ! a * 65536 + u ! Suc a) * 65536 ^ k + val u (Suc (Suc a)) k"
proof -
  have "val u a (Suc (Suc k)) = u ! a * (65536 * 65536 ^ k) + (u ! Suc a * 65536 ^ k + val u (Suc (Suc a)) k)"
    by (simp only: val_first power_Suc)
  then show ?thesis by (simp only: distrib_right mult.assoc add.assoc)
qed

lemma val_three: "val u a (Suc (Suc (Suc k)))
    = (u ! a * 65536 * 65536 + u ! Suc a * 65536 + u ! Suc (Suc a)) * 65536 ^ k + val u (Suc (Suc (Suc a))) k"
proof -
  have "val u a (Suc (Suc (Suc k))) = u ! a * (65536 * (65536 * 65536 ^ k)) + (u ! Suc a * (65536 * 65536 ^ k)
      + (u ! Suc (Suc a) * 65536 ^ k + val u (Suc (Suc (Suc a))) k))"
    by (simp only: val_first power_Suc)
  then show ?thesis by (simp only: distrib_right mult.assoc add.assoc)
qed

lemma qd_step_correct:
  assumes st: "qd_step n v j u = (q, u')" and du: "digits u" and dv: "digits v" and n: "2 \<le> n" "n < length v" "n + j < length u"
    and v1: "32768 \<le> v ! 1" and win: "val u j n < val v 1 n"
  defines "V \<equiv> val v 1 n" and "W \<equiv> val u j (Suc n)"
  shows "q = W div V \<and> digit q \<and> digits u' \<and> length u' = length u \<and> u' ! j = 0 \<and> val u' (Suc j) n = W mod V
    \<and> (\<forall>k. k < j \<or> j + n < k \<longrightarrow> u' ! k = u ! k)"
proof -
  obtain k where k: "n = Suc (Suc k)" using n by (metis add_2_eq_Suc le_Suc_ex)
  have b: "\<And>i. i < length u \<Longrightarrow> digit (u ! i)" "\<And>i. i < length v \<Longrightarrow> digit (v ! i)"
    using du dv by (auto simp: list_all_length)
  have Wj: "W = u ! j * 65536 ^ n + val u (Suc j) n" unfolding W_def by (rule val_first)
  have W0: "0 \<le> W" "W < V * 65536"
  proof -
    have "val u j n * 65536 + u ! (j + n) < (val u j n + 1) * 65536"
      using b(1) [of "j + n"] n by (simp add: digit_def)
    also have "\<dots> \<le> V * 65536" using win by (intro mult_right_mono) (auto simp: V_def)
    finally show "W < V * 65536" by (simp add: W_def)
    show "0 \<le> W" using val_bound [OF du, of j "Suc n"] n by (simp add: W_def)
  qed
  have V0: "0 < V" and VB: "V < 65536 ^ n"
    using win val_bound [OF du, of j n] val_bound [OF dv, of 1 n] n by (auto simp: V_def)
  define qh where "qh = qd_qhat (v ! 1) (v ! 2) (u ! (j + 0)) (u ! (j + 1)) (u ! (j + 2))"
  have qh: "digit qh \<and> (qh = W div V \<or> qh = W div V + 1)" unfolding qh_def
  proof (rule qd_qhat_correct [where P = "65536 ^ k"])
    have "0 \<le> val v 3 k" "val v 3 k < 65536 ^ k" "0 \<le> val u (j + 3) k" "val u (j + 3) k < 65536 ^ k"
      using val_bound [OF dv, of 3 k] val_bound [OF du, of "j + 3" k] n k by auto
    moreover have "V = (v ! 1 * 65536 + v ! 2) * 65536 ^ k + val v 3 k"
      unfolding V_def k val_two by (simp add: numeral_2_eq_2 numeral_3_eq_3)
    moreover have "W = (u ! (j + 0) * 65536 * 65536 + u ! (j + 1) * 65536 + u ! (j + 2)) * 65536 ^ k + val u (j + 3) k"
      unfolding W_def k val_three by (simp add: numeral_2_eq_2 numeral_3_eq_3)
    ultimately show "(v ! 1 * 65536 + v ! 2) * 65536 ^ k \<le> V" "V < (v ! 1 * 65536 + v ! 2 + 1) * 65536 ^ k"
      "(u ! (j + 0) * 65536 * 65536 + u ! (j + 1) * 65536 + u ! (j + 2)) * 65536 ^ k \<le> W"
      "W < (u ! (j + 0) * 65536 * 65536 + u ! (j + 1) * 65536 + u ! (j + 2) + 1) * 65536 ^ k"
      by (simp_all add: distrib_right)
  qed (use b n v1 W0 in auto)
  obtain u1 t where ms: "qd_mulsub n j v qh u 0 = (u1, t)" by (cases "qd_mulsub n j v qh u 0")
  have m: "val u1 (Suc j) n - t * 65536 ^ n = val u (Suc j) n - V * qh" "digit t" "digits u1"
    "length u1 = length u" "\<And>k. k \<le> j \<or> j + n < k \<Longrightarrow> u1 ! k = u ! k"
    using qd_mulsub_correct [OF ms du dv] qh n by (auto simp: V_def digit_def)
  define x where "x = u ! j - t"
  have X: "x * 65536 ^ n + val u1 (Suc j) n = W - V * qh" using m(1) by (simp add: x_def Wj algebra_simps)
  have xb: "- 65536 < x" "x < 65536" using b(1) [of j] m(2) n by (auto simp: x_def digit_def)
  have ub: "0 \<le> val u1 (Suc j) n" "val u1 (Suc j) n < 65536 ^ n" using val_bound [OF m(3), of "Suc j" n] m(4) n by auto
  have other: "val (u1[j := y]) (Suc j) n = val u1 (Suc j) n" for y by (rule val_other) auto
  define u2 where "u2 = u1[j := lhalf (u_int x)]"
  have stx: "qd_step n v j u = (if hhalf (u_int x) \<noteq> 0 then
        let (u', t) = qd_addback n j v u2 0 in (lhalf (u_int (qh - 1)), u'[j := lhalf (u' ! j + t)])
      else (lhalf qh, u2))"
    unfolding qd_step_def Let_def qh_def [symmetric] ms using m(5) [of j] by (simp add: x_def u2_def Let_def)
  from qh consider "qh = W div V" | "qh = W div V + 1" by blast
  then show ?thesis
  proof cases
    case 1
    have R: "W - V * qh = W mod V" unfolding 1 by (simp add: minus_mult_div_eq_mod)
    have r: "0 \<le> W mod V" "W mod V < V" using V0 by auto
    have "x = 0"
    proof -
      have "x * 65536 ^ n < 1 * 65536 ^ n" using X R r VB ub by linarith
      moreover have "(- 1) * 65536 ^ n < x * 65536 ^ n" using X R r ub by linarith
      ultimately have "x < 1" "- 1 < x" by (simp_all only: mult_less_cancel_right zero_less_power zero_less_numeral) auto
      then show ?thesis by simp
    qed
    then have "qd_step n v j u = (qh, u1[j := 0])" using qh unfolding stx
      by (simp add: u2_def hhalf_div lhalf_mod digit_def)
    then show ?thesis using st 1 X R \<open>x = 0\<close> m n qh other by (auto simp: digits_update digit_def)
  next
    case 2
    have R: "W - V * qh = W mod V - V" unfolding 2 by (simp add: minus_mult_div_eq_mod [symmetric] algebra_simps)
    have r: "0 \<le> W mod V" "W mod V < V" using V0 by auto
    have x: "x = - 1"
    proof -
      have "x * 65536 ^ n < 0 * 65536 ^ n" using X R r ub by linarith
      moreover have "(- 2) * 65536 ^ n < x * 65536 ^ n" using X R r VB ub by linarith
      ultimately have "x < 0" "- 2 < x" by (simp_all only: mult_less_cancel_right zero_less_power zero_less_numeral) auto
      then show ?thesis by simp
    qed
    have hl: "hhalf (u_int x) = 65535" "lhalf (u_int x) = 65535" by (simp_all add: x hhalf_div lhalf_mod u_int_def)
    obtain u3 t3 where ab: "qd_addback n j v u2 0 = (u3, t3)" by (cases "qd_addback n j v u2 0")
    have a: "val u3 (Suc j) n + t3 * 65536 ^ n = val u1 (Suc j) n + V" "t3 = 0 \<or> t3 = 1" "digits u3"
      "length u3 = length u" "\<And>k. k \<le> j \<or> j + n < k \<Longrightarrow> u3 ! k = u2 ! k"
      using qd_addback_correct [OF ab _ dv] m n other by (auto simp: V_def u2_def digits_update)
    have v3: "0 \<le> val u3 (Suc j) n" "val u3 (Suc j) n < 65536 ^ n" using val_bound [OF a(3), of "Suc j" n] a(4) n by auto
    have Y: "val u3 (Suc j) n + t3 * 65536 ^ n = W mod V + 65536 ^ n" using a(1) X R x by simp
    then have t3: "t3 = 1" using a(2) v3 r by auto
    have u3j: "u3 ! j = 65535" using a(5) [of j] m(4) n by (simp add: u2_def hl)
    have q1: "lhalf (u_int (qh - 1)) = W div V" "digit (W div V)"
      using 2 qh V0 W0(1) pos_imp_zdiv_nonneg_iff [of V W] by (auto simp: lhalf_mod digit_def)
    have "qd_step n v j u = (W div V, u3[j := 0])" unfolding stx ab
      using q1 t3 u3j by (simp add: hl lhalf_mod [of 65536])
    moreover have "val (u3[j := 0]) (Suc j) n = val u3 (Suc j) n" by (rule val_other) auto
    ultimately show ?thesis using st Y t3 a m n q1 by (auto simp: digits_update digit_def u2_def)
  qed
qed

section \<open>The whole division\<close>

lemma qd_loop_correct:
  assumes "qd_loop k n v j u = (qs, u')" "digits u" "digits v" "2 \<le> n" "n < length v" "n + j + k \<le> length u"
    "32768 \<le> v ! 1" "val u j n < val v 1 n"
  shows "length qs = k \<and> digits qs \<and> val qs 0 k = val u j (n + k) div val v 1 n
    \<and> digits u' \<and> length u' = length u \<and> val u' (j + k) n = val u j (n + k) mod val v 1 n
    \<and> (\<forall>i < j + k. u' ! i = (if i < j then u ! i else 0))"
  using assms
proof (induction k arbitrary: j u qs u')
  case 0
  then have "0 \<le> val u j n" using val_bound [of u j n] by simp
  then show ?case using 0 by (simp add: div_pos_pos_trivial mod_pos_pos_trivial)
next
  case (Suc k)
  obtain q u1 where st: "qd_step n v j u = (q, u1)" by (cases "qd_step n v j u")
  obtain qs' where lp: "qd_loop k n v (j + 1) u1 = (qs', u')" and qs: "qs = q # qs'"
    using Suc.prems(1) by (auto simp: st split: prod.splits)
  define V W where "V = val v 1 n" and "W = val u j (Suc n)"
  have s: "q = W div V" "digit q" "digits u1" "length u1 = length u" "u1 ! j = 0" "val u1 (Suc j) n = W mod V"
    "\<And>k. k < j \<or> j + n < k \<Longrightarrow> u1 ! k = u ! k"
    using qd_step_correct [OF st] Suc.prems by (auto simp: V_def W_def)
  have "0 \<le> val u j n" using val_bound [of u j n] Suc.prems by simp
  then have V0: "0 < V" using Suc.prems(8) by (simp add: V_def)
  have IH: "length qs' = k \<and> digits qs' \<and> val qs' 0 k = val u1 (j + 1) (n + k) div V
    \<and> digits u' \<and> length u' = length u1 \<and> val u' (j + 1 + k) n = val u1 (j + 1) (n + k) mod V
    \<and> (\<forall>i < j + 1 + k. u' ! i = (if i < j + 1 then u1 ! i else 0))"
    unfolding V_def using Suc.prems s V0 by (intro Suc.IH [OF lp]) (auto simp: V_def)
  define L where "L = val u (Suc j + n) k"
  have rest: "val u1 (Suc j) (n + k) = W mod V * 65536 ^ k + L"
    using val_cong [of "Suc j + n" k u1 u] s by (simp add: val_append L_def)
  have "val u j (n + Suc k) = W * 65536 ^ k + L"
    using val_append [of u j "Suc n" k] by (simp add: W_def L_def)
  also have "\<dots> = q * 65536 ^ k * V + (W mod V * 65536 ^ k + L)"
  proof -
    have "W * 65536 ^ k = (W div V * V + W mod V) * 65536 ^ k" by simp
    then show ?thesis by (simp only: s(1) distrib_right ac_simps)
  qed
  finally have whole: "val u j (n + Suc k) = (W mod V * 65536 ^ k + L) + q * 65536 ^ k * V" by simp
  have "val u j (n + Suc k) div V = q * 65536 ^ k + val qs' 0 k" "val u j (n + Suc k) mod V = val u' (j + 1 + k) n"
    unfolding whole using IH V0 by (simp_all add: rest)
  moreover have "val qs 0 (Suc k) = q * 65536 ^ k + val qs' 0 k" unfolding qs val_first by (simp add: val_Cons)
  ultimately show ?case using IH s qs by (auto simp: V_def less_Suc_eq)
qed

text \<open>Normalisation: the digits shifted left by \<open>sh\<close> bits, the bits shifted out of \<open>p[0]\<close> lost.\<close>

lemma pow_split: "sh \<le> 16 \<Longrightarrow> (65536 :: int) = 2 ^ sh * 2 ^ (16 - sh)"
  by (simp flip: power_add)

lemma shift_digit:
  assumes "sh \<le> 15" "digit y"
  shows "lhalf (push_bit sh x) OR drop_bit (16 - sh) y = x * 2 ^ sh mod 65536 + y * 2 ^ sh div 65536"
    and "digit (lhalf (push_bit sh x) OR drop_bit (16 - sh) y)"
proof -
  define B :: int where "B = 2 ^ (16 - sh)"
  define S :: int where "S = 2 ^ sh"
  have BS: "65536 = S * B" and S: "0 < S" and B: "0 < B" using pow_split [of sh] assms by (simp_all add: B_def S_def)
  define c where "c = drop_bit (16 - sh) y"
  have c: "c = y * S div 65536" using S unfolding BS by (simp add: c_def drop_bit_eq_div B_def [symmetric] mult.commute [of y])
  have c0: "0 \<le> c" "c < S"
  proof -
    show "0 \<le> c" using assms by (simp add: c_def digit_def)
    have "y * S < 65536 * S" using assms S by (simp add: digit_def)
    then show "c < S" unfolding c using le_div [of 65536 S "y * S"] by (simp add: not_le mult.commute)
  qed
  have l: "lhalf (push_bit sh x) = x mod B * S"
    unfolding lhalf_mod push_bit_eq_mult S_def [symmetric] BS using mult_mod_right [of S x B] by (simp add: mult.commute)
  then have "lhalf (push_bit sh x) OR c = x mod B * S + c"
    using or_low_high [of c sh "x mod B"] c0 by (simp add: push_bit_eq_mult S_def)
  then show e: "lhalf (push_bit sh x) OR drop_bit (16 - sh) y = x * 2 ^ sh mod 65536 + y * 2 ^ sh div 65536"
    using l by (simp add: c_def [symmetric] c push_bit_eq_mult lhalf_mod S_def)
  have "(x mod B + 1) * S \<le> B * S" using B S by (intro mult_right_mono) (auto simp: add1_zle_eq)
  moreover have "0 \<le> x mod B * S" using B S by simp
  ultimately show "digit (lhalf (push_bit sh x) OR drop_bit (16 - sh) y)"
    using c0 BS \<open>lhalf (push_bit sh x) OR c = x mod B * S + c\<close> unfolding c_def [symmetric]
    by (simp add: digit_def algebra_simps)
qed

lemma shl_correct:
  assumes "digits p" "sh \<le> 15" "p \<noteq> []"
  shows "length (shl p sh) = length p \<and> digits (shl p sh)
    \<and> val (shl p sh) 0 (length p) = val p 0 (length p) * 2 ^ sh - 65536 ^ length p * (hd p * 2 ^ sh div 65536)
    \<and> (2 \<le> length p \<longrightarrow> hd (shl p sh) = hd p * 2 ^ sh mod 65536 + p ! 1 * 2 ^ sh div 65536)"
  using assms
proof (induction p sh rule: shl.induct)
  case (2 x sh)
  then show ?case by (simp add: lhalf_mod push_bit_eq_mult minus_mult_div_eq_mod digit_def)
next
  case (3 x y p sh)
  define X Y :: int where "X = x * 2 ^ sh" and "Y = y * 2 ^ sh"
  define P :: int where "P = 65536 ^ length (y # p)"
  have d: "digit y" "sh \<le> 15" "digits (y # p)" using 3 by auto
  have IH: "length (shl (y # p) sh) = length (y # p)" "digits (shl (y # p) sh)"
    "val (shl (y # p) sh) 0 (length (y # p)) = val (y # p) 0 (length (y # p)) * 2 ^ sh - P * (Y div 65536)"
    using "3.IH" [OF d(3,2)] by (simp_all add: P_def Y_def)
  have h: "shl (x # y # p) sh = (X mod 65536 + Y div 65536) # shl (y # p) sh"
    "digit (X mod 65536 + Y div 65536)"
    using shift_digit [OF d(2,1), of x] by (simp_all add: X_def Y_def)
  have "val (shl (x # y # p) sh) 0 (Suc (length (y # p)))
      = (X mod 65536 + Y div 65536) * P + val (shl (y # p) sh) 0 (length (y # p))"
    unfolding h(1) val_first by (simp add: P_def val_Cons)
  also have "\<dots> = X mod 65536 * P + val (y # p) 0 (length (y # p)) * 2 ^ sh"
    unfolding IH by (simp add: algebra_simps)
  also have "\<dots> = (X - 65536 * (X div 65536)) * P + val (y # p) 0 (length (y # p)) * 2 ^ sh"
    by (simp only: minus_mult_div_eq_mod)
  also have "\<dots> = val (x # y # p) 0 (Suc (length (y # p))) * 2 ^ sh - 65536 * P * (X div 65536)"
    unfolding val_first by (simp add: P_def X_def val_Cons algebra_simps)
  finally show ?case using IH h by (simp add: P_def X_def Y_def)
qed simp

lemma qd_shift_correct: "0 < t \<Longrightarrow> t < 65536 \<Longrightarrow> 32768 \<le> t * 2 ^ qd_shift t \<and> t * 2 ^ qd_shift t < 65536"
proof (induction t rule: qd_shift.induct)
  case (1 t)
  then show ?case by (subst (1 2) qd_shift.simps) (auto simp: algebra_simps)
qed

lemma qd_shift_le: "0 < t \<Longrightarrow> t < 65536 \<Longrightarrow> qd_shift t \<le> 15"
proof (rule ccontr)
  assume t: "0 < t" "t < 65536" "\<not> qd_shift t \<le> 15"
  then have "(2 :: int) ^ 16 \<le> 2 ^ qd_shift t" by (intro power_increasing) auto
  also have "\<dots> \<le> t * 2 ^ qd_shift t" using t by simp
  finally show False using qd_shift_correct [OF t(1,2)] by simp
qed

text \<open>The remainder shifted back.\<close>

lemma div_shifted:
  fixes a u S B :: int
  assumes "0 < S" "0 < B"
  shows "(a * (S * B) + u) div S = a div S * (S * B) + (a mod S * B + u div S)"
proof -
  have "(u + (a * B) * S) div S = u div S + a * B" using assms by simp
  moreover have "a * B = (a div S * S + a mod S) * B" by simp
  ultimately show ?thesis by (simp only: distrib_right distrib_left ac_simps)
qed

lemma qd_unshift_correct:
  assumes "d \<le> 15" "m + k < length u" "digits u" "u ! m = 0"
  shows "length (qd_unshift d m k u) = length u \<and> digits (qd_unshift d m k u)
    \<and> val (qd_unshift d m k u) (Suc m) k = val u (Suc m) k div 2 ^ d
    \<and> (\<forall>i. i \<le> m \<or> m + k < i \<longrightarrow> qd_unshift d m k u ! i = u ! i)"
  using assms
proof (induction k arbitrary: u)
  case 0
  have "digits (u[m := 0])" by (rule digits_update [OF 0(3)]) (simp add: digit_def)
  moreover have "u[m := 0] = u" using 0 by (metis list_update_id)
  ultimately show ?case by simp
next
  case (Suc k)
  define S B :: int where "S = 2 ^ d" and "B = 2 ^ (16 - d)"
  have SB: "65536 = S * B" "0 < S" "0 < B" using pow_split [of d] Suc.prems(1) by (simp_all add: S_def B_def)
  define x where "x = drop_bit d (u ! (m + Suc k)) OR lhalf (push_bit (16 - d) (u ! (m + k)))"
  have dg: "digit (u ! (m + Suc k))" "digit (u ! (m + k))" using Suc.prems by (auto simp: list_all_length)
  have x: "x = u ! (m + k) mod S * B + u ! (m + Suc k) div S" "digit x"
  proof -
    have l: "lhalf (push_bit (16 - d) (u ! (m + k))) = push_bit (16 - d) (u ! (m + k) mod S)"
      unfolding lhalf_mod push_bit_eq_mult B_def [symmetric] SB(1) using mult_mod_right [of B "u ! (m + k)" S]
      by (simp add: mult.commute)
    have "u ! (m + Suc k) < B * S" using dg SB by (simp add: digit_def mult.commute)
    then have b: "0 \<le> u ! (m + Suc k) div S" "u ! (m + Suc k) div S < B"
      using dg SB le_div [of S B "u ! (m + Suc k)"] by (auto simp: digit_def pos_imp_zdiv_nonneg_iff not_le)
    then show e: "x = u ! (m + k) mod S * B + u ! (m + Suc k) div S"
      using or_low_high [of "u ! (m + Suc k) div S" "16 - d" "u ! (m + k) mod S"]
      unfolding x_def l drop_bit_eq_div S_def [symmetric] B_def [symmetric] by (simp add: or.commute)
    have "(u ! (m + k) mod S + 1) * B \<le> S * B" using SB by (intro mult_right_mono) (auto simp: add1_zle_eq)
    moreover have "0 \<le> u ! (m + k) mod S * B" using SB by simp
    ultimately show "digit x" unfolding e using b SB by (simp add: digit_def distrib_right)
  qed
  define u1 where "u1 = u[m + Suc k := x]"
  have un: "qd_unshift d m (Suc k) u = qd_unshift d m k u1" by (simp add: u1_def x_def)
  have IH: "length (qd_unshift d m k u1) = length u \<and> digits (qd_unshift d m k u1)
    \<and> val (qd_unshift d m k u1) (Suc m) k = val u1 (Suc m) k div S
    \<and> (\<forall>i. i \<le> m \<or> m + k < i \<longrightarrow> qd_unshift d m k u1 ! i = u1 ! i)"
    using Suc.IH [of u1] Suc.prems x by (simp add: u1_def S_def digits_update)
  have "val u1 (Suc m) k = val u (Suc m) k" unfolding u1_def by (rule val_other) auto
  moreover have "val u (Suc m) k mod S = u ! (m + k) mod S"
  proof (cases k)
    case (Suc k')
    have "val u (Suc m) k = val u (Suc m) k' * B * S + u ! (m + k)" by (simp add: Suc SB(1) mult.assoc mult.commute)
    then show ?thesis by simp
  qed (use Suc.prems in simp)
  ultimately have "val u (Suc m) (Suc k) div S = val u1 (Suc m) k div S * (S * B) + x"
    using div_shifted [OF SB(2,3), of "val u (Suc m) k" "u ! (m + Suc k)"] by (simp add: SB(1) x(1))
  then show ?case using IH Suc.prems unfolding un S_def [symmetric] by (auto simp: u1_def SB(1))
qed

lemma val_zero: "(\<And>i. a \<le> i \<Longrightarrow> i < a + m \<Longrightarrow> u ! i = 0) \<Longrightarrow> val u a m = 0"
  by (induction m) auto

text \<open>Normalised by the same power of two, the division has the same quotient.\<close>

lemma qd_long_correct:
  assumes du: "digits u" "length u = m + n + 1" "u ! 0 = 0"
    and dv: "digits v" "length v = n + 1" "v ! 1 \<noteq> 0" and n: "2 \<le> n"
    and d: "d = qd_shift (v ! 1)"
    and us: "us = (if 0 < d then shl u d else u)" and vs: "vs = (if 0 < d then hd v # shl (tl v) d else v)"
    and lp: "qd_loop (m + 1) n vs 0 us = (qs, u1)" and u2: "u2 = (if 0 < d then qd_unshift d m n u1 else u1)"
  shows "length qs = m + 1 \<and> digits qs \<and> val qs 0 (m + 1) = val u 1 (m + n) div val v 1 n
    \<and> length u2 = m + n + 1 \<and> digits u2 \<and> (\<forall>i \<le> m. u2 ! i = 0) \<and> val u2 (Suc m) n = val u 1 (m + n) mod val v 1 n"
proof -
  define S :: int where "S = 2 ^ d"
  obtain v0 v1 w where v: "v = v0 # v1 # w" using dv n by (cases v; cases "tl v") auto
  have v1: "0 < v1" "v1 < 65536" using dv by (auto simp: v digit_def)
  have db: "d \<le> 15" and nb: "32768 \<le> v1 * S" "v1 * S < 65536"
    using qd_shift_le [OF v1] qd_shift_correct [OF v1] by (simp_all add: d v S_def)
  obtain u' where u: "u = 0 # u'" using du by (cases u) auto
  have lv: "length (tl v) = n" using dv by simp
  have s1: "d = 0 \<Longrightarrow> S = 1" by (simp add: S_def)
  have V: "length vs = n + 1 \<and> digits vs \<and> val vs 1 n = val v 1 n * S \<and> 32768 \<le> vs ! 1"
  proof (cases "0 < d")
    case True
    define p where "p = shl (tl v) d"
    have z: "v1 * S div 65536 = 0" "v1 * S mod 65536 = v1 * S" using nb by (simp_all add: div_pos_pos_trivial mod_pos_pos_trivial)
    have p: "length p = n" "digits p" "val p 0 n = val (tl v) 0 n * S" "hd p = v1 * S + tl v ! 1 * S div 65536"
      using shl_correct [of "tl v" d] db dv n lv z by (auto simp: p_def v S_def)
    have "0 \<le> tl v ! 1" using digits_nth [of "tl v" 1] dv n by (cases w) (auto simp: v)
    then have "0 \<le> tl v ! 1 * S" by (simp add: S_def)
    then have "0 \<le> tl v ! 1 * S div 65536" by (simp only: pos_imp_zdiv_nonneg_iff zero_less_numeral)
    then have "32768 \<le> p ! 0" using p nb n by (cases p) auto
    moreover have "vs = v0 # p" using True by (simp add: vs p_def v)
    moreover have "val v 1 n = val (tl v) 0 n" by (simp add: v val_Cons)
    ultimately show ?thesis using p dv v by (simp add: val_Cons)
  next
    case False
    then show ?thesis using dv nb s1 by (simp add: vs v)
  qed
  have U: "length us = m + n + 1 \<and> digits us \<and> val us 0 (m + n + 1) = val u 1 (m + n) * S"
  proof (cases "0 < d")
    case True
    then show ?thesis using shl_correct [of u d] db du
      by (simp add: us S_def val_first u hd_conv_nth del: val.simps)
  next
    case False
    then show ?thesis using du s1 by (simp add: us val_first del: val.simps)
  qed
  have win: "val us 0 n < val vs 1 n"
  proof -
    have "val us 0 n * 65536 ^ (m + 1) \<le> val us 0 (m + n + 1)"
      using val_append [of us 0 n "m + 1"] val_bound [of us n "m + 1"] U by (simp add: ac_simps del: val.simps)
    also have "\<dots> < 65536 ^ (m + n) * S" using val_bound [of u 1 "m + n"] du U by (simp add: S_def)
    also have "\<dots> = 65536 ^ (n - 1) * S * 65536 ^ (m + 1)"
      using n by (cases n) (simp_all add: power_add)
    finally have "val us 0 n < 65536 ^ (n - 1) * S" by simp
    also have "\<dots> \<le> v1 * 65536 ^ (n - 1) * S" using v1 by (simp add: S_def)
    also have "\<dots> \<le> val v 1 n * S"
    proof -
      have "val v 1 n = v1 * 65536 ^ (n - 1) + val v 2 (n - 1)"
        using val_first [of v 1 "n - 1"] n by (simp add: v numeral_2_eq_2 del: val.simps)
      moreover have "0 \<le> val v 2 (n - 1)" using val_bound [of v 2 "n - 1"] dv n by simp
      ultimately show ?thesis by (intro mult_right_mono) (auto simp: S_def)
    qed
    finally show ?thesis using V by simp
  qed
  have L: "length qs = m + 1 \<and> digits qs \<and> val qs 0 (m + 1) = val us 0 (n + (m + 1)) div val vs 1 n
    \<and> digits u1 \<and> length u1 = length us \<and> val u1 (0 + (m + 1)) n = val us 0 (n + (m + 1)) mod val vs 1 n
    \<and> (\<forall>i < 0 + (m + 1). u1 ! i = (if i < 0 then us ! i else 0))"
    using U V win n by (intro qd_loop_correct [OF lp]) auto
  have e: "n + (m + 1) = m + n + 1" by simp
  have S0: "0 < S" by (simp add: S_def)
  have q: "val qs 0 (m + 1) = val u 1 (m + n) div val v 1 n"
    using L U V S0 unfolding e by (simp del: val.simps)
  have r: "val u1 (Suc m) n = val u 1 (m + n) mod val v 1 n * S"
    using L U V S0 unfolding e by (simp add: mult_mod_left del: val.simps)
  have "length u2 = m + n + 1 \<and> digits u2 \<and> (\<forall>i \<le> m. u2 ! i = 0) \<and> val u2 (Suc m) n = val u 1 (m + n) mod val v 1 n"
  proof (cases "0 < d")
    case True
    have "length u2 = length u1 \<and> digits u2 \<and> val u2 (Suc m) n = val u1 (Suc m) n div S
        \<and> (\<forall>i. i \<le> m \<or> m + n < i \<longrightarrow> u2 ! i = u1 ! i)"
      using True qd_unshift_correct [of d m n u1] db L U by (simp add: u2 S_def)
    then show ?thesis using L U r S0 by simp
  next
    case False
    then show ?thesis using L U r s1 by (simp add: u2)
  qed
  then show ?thesis using L q by blast
qed

section \<open>The entry points\<close>

lemma qd_digits_correct: "length (qd_digits a) = 4" "digits (qd_digits a)" "val (0 # qd_digits a) 1 4 = uint a"
proof -
  have "uint a = uint (ul_H a) * 4294967296 + uint (ul_L a)" using uint_uu [of "ul_H a" "ul_L a"] by simp
  then show "val (0 # qd_digits a) 1 4 = uint a"
    using div_mult_mod_eq [of "uint (ul_H a)" 65536] div_mult_mod_eq [of "uint (ul_L a)" 65536]
    by (simp add: qd_digits_def hhalf_div lhalf_mod eval_nat_numeral)
  show "digits (qd_digits a)" using uint32 [of "ul_H a"] uint32 [of "ul_L a"] by (simp add: qd_digits_def)
qed (simp add: qd_digits_def)

lemma uint_COMBINE: "digit a \<Longrightarrow> digit b \<Longrightarrow> uint (word_of_int (COMBINE a b) :: 32 word) = a * 65536 + b"
  by (simp add: COMBINE_eq digit_def uint_word_of_int mod_pos_pos_trivial del: of_int_add)

lemma qd_quad_correct: "digits s \<Longrightarrow> length s = 5 \<Longrightarrow> uint (qd_quad s) = val s 1 4"
proof -
  assume "digits s" "length s = 5"
  then have "digit (s ! i)" if "i \<in> {1, 2, 3, 4}" for i using that by (auto simp: list_all_length)
  then show ?thesis by (simp add: qd_quad_def uint_uu uint_COMBINE eval_nat_numeral)
qed

lemma qd_norm_v_eq: "qd_norm_v [x, a, b, c, d] 4 =
    (if a \<noteq> 0 then ([x, a, b, c, d], 4) else if b \<noteq> 0 then ([a, b, c, d], 3) else if c \<noteq> 0 then ([b, c, d], 2) else ([b, c, d], 1))"
  by (simp add: qd_norm_v.simps)

lemma qd_norm_u_eq: "e \<noteq> 0 \<or> f \<noteq> 0 \<or> g \<noteq> 0 \<or> h \<noteq> 0 \<Longrightarrow> qd_norm_u [x, e, f, g, h] m =
    (if e \<noteq> 0 then ([x, e, f, g, h], m) else if f \<noteq> 0 then ([e, f, g, h], m - 1)
     else if g \<noteq> 0 then ([f, g, h], m - 2) else ([g, h], m - 3))"
  by (simp add: qd_norm_u.simps)

lemma digit_div:
  assumes "0 < t" "t < 65536" "0 \<le> r" "r < t" "digit x"
  shows "COMBINE r x = r * 65536 + x" "digit (COMBINE r x div t)" "0 \<le> COMBINE r x mod t" "COMBINE r x mod t < t"
proof -
  show c: "COMBINE r x = r * 65536 + x" using assms by (simp add: COMBINE_eq)
  have "(r + 1) * 65536 \<le> t * 65536" using assms by (intro mult_right_mono) auto
  then have "r * 65536 + x < 65536 * t" using assms by (simp add: digit_def)
  then show "digit (COMBINE r x div t)"
    using assms le_div [of t 65536 "r * 65536 + x"] unfolding c by (auto simp: digit_def pos_imp_zdiv_nonneg_iff not_le)
qed (use assms in auto)

lemma qd_short_correct:
  assumes "digits [a, b, c, d]" and t: "0 < t" "t < 65536" and "qd_short [x, a, b, c, d] t = (q, r)"
  shows "uint q = val [x, a, b, c, d] 1 4 div t \<and> uint r = val [x, a, b, c, d] 1 4 mod t"
proof -
  have d: "digit a" "digit b" "digit c" "digit d" using assms(1) by auto
  define q1 r1 where "q1 = a div t" and "r1 = a mod t"
  define q2 r2 where "q2 = COMBINE r1 b div t" and "r2 = COMBINE r1 b mod t"
  define q3 r3 where "q3 = COMBINE r2 c div t" and "r3 = COMBINE r2 c mod t"
  define q4 r4 where "q4 = COMBINE r3 d div t" and "r4 = COMBINE r3 d mod t"
  have 1: "0 \<le> r1" "r1 < t" "digit q1" "a = q1 * t + r1"
    using d(1) t zdiv_mono2 [of a 1 t] by (auto simp: q1_def r1_def digit_def pos_imp_zdiv_nonneg_iff)
  note 2 = digit_div [OF t 1(1,2) d(2), folded q2_def r2_def]
  note 3 = digit_div [OF t 2(3,4) d(3), folded q3_def r3_def]
  note 4 = digit_div [OF t 3(3,4) d(4), folded q4_def r4_def]
  have s: "qd_short [x, a, b, c, d] t
      = (uu (word_of_int (COMBINE q1 q2)) (word_of_int (COMBINE q3 q4)), word_of_int r4)"
    using 1(3) 2(2) 3(2) 4(2)
    by (simp add: qd_short_def Let_def lhalf_mod digit_def
        q1_def [symmetric] r1_def [symmetric] q2_def [symmetric] r2_def [symmetric]
        q3_def [symmetric] r3_def [symmetric] q4_def [symmetric] r4_def [symmetric])
  have e: "r1 * 65536 + b = q2 * t + r2" "r2 * 65536 + c = q3 * t + r3" "r3 * 65536 + d = q4 * t + r4"
    using 2(1) 3(1) 4(1) by (simp_all add: q2_def r2_def q3_def r3_def q4_def r4_def)
  define Q where "Q = (q1 * 65536 + q2) * 4294967296 + (q3 * 65536 + q4)"
  have "val [x, a, b, c, d] 1 4 = r4 + Q * t"
    using e 1(4) by (simp add: Q_def eval_nat_numeral algebra_simps)
  then have "val [x, a, b, c, d] 1 4 div t = Q" "val [x, a, b, c, d] 1 4 mod t = r4"
    using t 4(3,4) by (simp_all add: div_pos_pos_trivial mod_pos_pos_trivial)
  moreover have "uint q = Q" using assms(4) 1(3) 2(2) 3(2) 4(2) unfolding s by (auto simp: uint_uu uint_COMBINE Q_def)
  moreover have "uint r = r4" using assms(4) 4(3,4) t unfolding s by (auto simp: uint_word_of_int mod_pos_pos_trivial)
  ultimately show ?thesis by simp
qed

lemma val_pad: "val (replicate k 0 @ s) 0 (k + m) = val s 0 m"
  using val_append [of "replicate k 0 @ s" 0 k m] val_zero [of 0 k "replicate k 0 @ s"] val_shift [of "replicate k 0" s 0 m]
  by (simp add: nth_append)

lemma qd_quad_pad:
  assumes "digits s" "length s = k" "k \<le> 5" "k < 5 \<or> s ! 0 = 0"
  shows "uint (qd_quad (replicate (5 - k) 0 @ s)) = val s 0 k"
proof -
  define r where "r = replicate (5 - k) 0 @ s"
  have "digits r" "length r = 5" "r ! 0 = 0"
    using assms by (auto simp: r_def nth_append list_all_length digit_def)
  then have "uint (qd_quad r) = val r 1 4" by (simp add: qd_quad_correct)
  also have "\<dots> = val r 0 (Suc 4)" using \<open>r ! 0 = 0\<close> by (simp only: val_first [of r 0 4]) simp
  also have "\<dots> = val s 0 k" using val_pad [of "5 - k" s k] assms by (simp add: r_def)
  finally show ?thesis by (simp add: r_def)
qed

lemma qdivrem_zero: "qdivrem a 0 = None"
  by (simp add: qdivrem_def)

lemma qd_norm_v_correct:
  assumes "qd_norm_v [0, p, q, r, s] 4 = (v, n)" "digits [p, q, r, s]"
  shows "n = 1 \<and> v ! 2 = s \<and> val [0, p, q, r, s] 1 4 = s
    \<or> 2 \<le> n \<and> length v = n + 1 \<and> digits v \<and> v ! 1 \<noteq> 0 \<and> val v 1 n = val [0, p, q, r, s] 1 4"
  using assms unfolding qd_norm_v_eq by (auto split: if_splits simp: eval_nat_numeral digit_def)

lemma qd_norm_u_correct:
  assumes "qd_norm_u [0, e, f, g, h] x = (u, m)" "digits [e, f, g, h]" "val [0, e, f, g, h] 1 4 \<noteq> 0"
  shows "\<exists>l \<le> 4. length u = l + 1 \<and> m = x + int l - 4 \<and> digits u \<and> u ! 0 = 0 \<and> val u 1 l = val [0, e, f, g, h] 1 4"
proof -
  have "e \<noteq> 0 \<or> f \<noteq> 0 \<or> g \<noteq> 0 \<or> h \<noteq> 0" using assms(3) by (auto simp: eval_nat_numeral)
  then show ?thesis using assms(1,2) unfolding qd_norm_u_eq [OF \<open>_ \<or> _\<close>]
    by (intro exI [of _ "length u - 1"]) (auto split: if_splits simp: eval_nat_numeral digit_def)
qed

lemma qdivrem_eq:
  assumes "b \<noteq> 0"
  shows "qdivrem a b = Some (a div b, a mod b)"
proof (cases "a < b")
  case True
  then show ?thesis using assms by (simp add: qdivrem_def div_word_less mod_word_less)
next
  case False
  define us vs where "us = 0 # qd_digits a" and "vs = 0 # qd_digits b"
  have ab: "uint b \<le> uint a" "0 < uint b" using False assms
    by (auto simp: word_less_def word_le_def not_less word_neq_0_conv)
  obtain e f g h where us: "us = [0, e, f, g, h]" using qd_digits_correct(1) [of a]
    by (auto simp: us_def length_Suc_conv eval_nat_numeral)
  obtain p q r s where vs: "vs = [0, p, q, r, s]" using qd_digits_correct(1) [of b]
    by (auto simp: vs_def length_Suc_conv eval_nat_numeral)
  have du: "digits [e, f, g, h]" "val [0, e, f, g, h] 1 4 = uint a" and dv: "digits [p, q, r, s]" "val [0, p, q, r, s] 1 4 = uint b"
    using qd_digits_correct [of a, folded us_def, unfolded us] qd_digits_correct [of b, folded vs_def, unfolded vs]
      us vs by (auto simp: us_def vs_def)
  obtain v n where nv: "qd_norm_v vs 4 = (v, n)" by (cases "qd_norm_v vs 4")
  have unf: "qdivrem a b = (if n = 1 then Some (qd_short us (v ! 2))
    else let (u, mi) = qd_norm_u us (4 - int n); m = nat mi; d = qd_shift (v ! 1); u = (if 0 < d then shl u d else u);
             v = (if 0 < d then hd v # shl (tl v) d else v); (qs, u) = qd_loop (m + 1) n v 0 u;
             u = (if 0 < d then qd_unshift d m n u else u)
         in Some (qd_quad (replicate (4 - m) 0 @ qs), qd_quad (replicate (4 - (m + n)) 0 @ u)))"
    using False assms unfolding qdivrem_def us_def [symmetric] vs_def [symmetric] nv by (simp add: Let_def)
  from qd_norm_v_correct [OF nv [unfolded vs] dv(1)] consider
      "n = 1" "v ! 2 = s" "uint b = s"
    | "2 \<le> n" "length v = n + 1" "digits v" "v ! 1 \<noteq> 0" "val v 1 n = uint b" unfolding dv(2) by auto
  then show ?thesis
  proof cases
    case 1
    obtain x y where xy: "qd_short us s = (x, y)" by (cases "qd_short us s")
    have "uint x = uint a div s \<and> uint y = uint a mod s"
      using qd_short_correct [OF du(1) _ _ xy [unfolded us]] 1 dv ab du(2) by (auto simp: digit_def)
    then have "x = a div b" "y = a mod b" using 1 by (simp_all add: word_uint_eq_iff uint_div_distrib uint_mod_distrib)
    then show ?thesis using 1 xy unfolding unf by simp
  next
    case 2
    obtain u mi where nu: "qd_norm_u us (4 - int n) = (u, mi)" by (cases "qd_norm_u us (4 - int n)")
    have "val [0, e, f, g, h] 1 4 \<noteq> 0" using ab du(2) by simp
    then obtain l where l: "l \<le> 4" "length u = l + 1" "mi = 4 - int n + int l - 4" "digits u" "u ! 0 = 0" "val u 1 l = uint a"
      using qd_norm_u_correct [OF nu [unfolded us] du(1)] unfolding du(2) by auto
    have "n \<le> l"
    proof -
      have "65536 ^ (n - 1) \<le> uint b"
      proof -
        have "uint b = v ! 1 * 65536 ^ (n - 1) + val v 2 (n - 1)"
          using val_first [of v 1 "n - 1"] 2 by (simp add: numeral_2_eq_2 del: val.simps)
        moreover have "0 \<le> val v 2 (n - 1)" using val_bound [of v 2 "n - 1"] 2 by simp
        moreover have "1 * 65536 ^ (n - 1) \<le> v ! 1 * 65536 ^ (n - 1)"
          using digits_nth [of v 1] 2 by (intro mult_right_mono) auto
        ultimately show ?thesis by linarith
      qed
      also have "uint b < 65536 ^ l" using ab(1) l val_bound [of u 1 l] by simp
      finally have "n - 1 < l" by (rule power_less_imp_less_exp [rotated]) simp
      then show ?thesis by simp
    qed
    define m where "m = l - n"
    have m: "nat mi = m" "m + n = l" "m \<le> 2" using l \<open>n \<le> l\<close> 2(1) by (auto simp: m_def)
    define d where "d = qd_shift (v ! 1)"
    define u' where "u' = (if 0 < d then shl u d else u)"
    define v' where "v' = (if 0 < d then hd v # shl (tl v) d else v)"
    obtain qs u1 where lp: "qd_loop (m + 1) n v' 0 u' = (qs, u1)" by (cases "qd_loop (m + 1) n v' 0 u'")
    define u2 where "u2 = (if 0 < d then qd_unshift d m n u1 else u1)"
    have R: "length qs = m + 1 \<and> digits qs \<and> val qs 0 (m + 1) = val u 1 (m + n) div val v 1 n
      \<and> length u2 = m + n + 1 \<and> digits u2 \<and> (\<forall>i \<le> m. u2 ! i = 0) \<and> val u2 (Suc m) n = val u 1 (m + n) mod val v 1 n"
      by (rule qd_long_correct [OF l(4) _ l(5) 2(3,2,4,1) d_def u'_def v'_def lp u2_def]) (use l m in simp)
    have "qdivrem a b = Some (qd_quad (replicate (4 - m) 0 @ qs), qd_quad (replicate (4 - (m + n)) 0 @ u2))"
    proof -
      have "n \<noteq> 1" using 2(1) by simp
      then show ?thesis
        by (simp only: unf nu if_False Let_def prod.case m(1) d_def [symmetric] u'_def [symmetric] v'_def [symmetric] lp u2_def [symmetric])
    qed
    moreover have "qd_quad (replicate (4 - m) 0 @ qs) = a div b"
    proof -
      have "uint (qd_quad (replicate (5 - (m + 1)) 0 @ qs)) = val qs 0 (m + 1)"
        using R m(3) by (intro qd_quad_pad) auto
      then show ?thesis using R 2(5) l(6) m(2) by (simp add: word_uint_eq_iff uint_div_distrib)
    qed
    moreover have "qd_quad (replicate (4 - (m + n)) 0 @ u2) = a mod b"
    proof -
      have "uint (qd_quad (replicate (5 - (m + n + 1)) 0 @ u2)) = val u2 0 (m + n + 1)"
        using R m l by (intro qd_quad_pad) auto
      also have "m + n + 1 = (m + 1) + n" by simp
      also have "val u2 0 (m + 1 + n) = val u2 (Suc m) n"
        using val_append [of u2 0 "m + 1" n] val_zero [of 0 "m + 1" u2] R by simp
      finally show ?thesis using R 2(5) l(6) m(2) by (simp add: word_uint_eq_iff uint_mod_distrib)
    qed
    ultimately show ?thesis by simp
  qed
qed

section \<open>Quotients and remainders of signed quads\<close>

lemma abs_quad: "uint (if sint a < 0 then - a else a) = \<bar>sint (a :: 64 word)\<bar>"
proof -
  have r: "- 9223372036854775808 \<le> sint a" "sint a < 9223372036854775808"
    using sint_ge [of a] sint_lt [of a] by simp_all
  have "uint a = sint a mod 18446744073709551616"
    by (simp add: uint_sint take_bit_eq_mod)
  moreover have "uint (- a) = (- sint a) mod 18446744073709551616"
  proof -
    have "uint (- a) = (- uint a) mod 18446744073709551616" by (simp add: uint_word_ariths)
    then show ?thesis unfolding \<open>uint a = _\<close> by (simp add: mod_minus_eq)
  qed
  ultimately show ?thesis using r by (simp add: mod_pos_pos_trivial)
qed

text \<open>
  The quotient is the one of C, rounded toward zero. The remainder is the one of C when the
  divisor is positive and its negation when the divisor is negative.
\<close>

lemma signed_division:
  assumes "b \<noteq> 0"
  shows "divdi3 a b = Some (word_of_int (sint a sdiv sint b))"
    and "moddi3 a b = Some (if sint b < 0 then - word_of_int (sint a smod sint b) else word_of_int (sint a smod sint b))"
proof -
  define x y where "x = (if sint a < 0 then - a else a)" and "y = (if sint b < 0 then - b else b)"
  have xy: "uint x = \<bar>sint a\<bar>" "uint y = \<bar>sint b\<bar>" by (simp_all add: x_def y_def abs_quad)
  have "y \<noteq> 0" using assms by (auto simp: y_def split: if_splits)
  then have q: "qdivrem x y = Some (x div y, x mod y)" by (rule qdivrem_eq)
  have w: "x div y = word_of_int (\<bar>sint a\<bar> div \<bar>sint b\<bar>)" "x mod y = word_of_int (\<bar>sint a\<bar> mod \<bar>sint b\<bar>)"
    by (simp_all add: word_div_def word_mod_def xy)
  have s0: "sint b \<noteq> 0" "sint a = 0 \<Longrightarrow> a = 0" using assms signed_word_eqI [of _ 0] by auto
  show "divdi3 a b = Some (word_of_int (sint a sdiv sint b))"
    using q w s0 by (cases "sint a < 0"; cases "sint b < 0")
      (auto simp: divdi3_def x_def y_def signed_divide_int_def sgn_if)
  show "moddi3 a b = Some (if sint b < 0 then - word_of_int (sint a smod sint b) else word_of_int (sint a smod sint b))"
    using q w s0 by (cases "sint a < 0"; cases "sint b < 0")
      (auto simp: moddi3_def x_def y_def signed_modulo_int_def signed_divide_int_def sgn_if)
qed

section \<open>Properties\<close>

text \<open>The routines that compilers call for the operators on quads compute, from the 32-bit halves, the sum,
  the difference, the negation, the product, the bitwise operations and both shifts of the quads
  modulo \<open>2\<^sup>6\<^sup>4\<close>, for every operand, and the comparisons return 0, 1 or 2 for less, equal and greater.
  Shifts by 64 and more give zero, or the sign for an arithmetic right shift.\<close>

theorem quad_operators_correct:
  "adddi3 a b = a + b \<and> subdi3 a b = a - b \<and> negdi2 a = - a \<and> muldi3 a b = a * b
   \<and> anddi3 a b = a AND b \<and> iordi3 a b = a OR b \<and> xordi3 a b = a XOR b \<and> one_cmpldi2 a = NOT a
   \<and> ashldi3 a k = push_bit k a \<and> lshldi3 a k = push_bit k a \<and> lshrdi3 a k = drop_bit k a \<and> ashrdi3 a k = signed_drop_bit k a
   \<and> cmpdi2 a b = (if sint a < sint b then 0 else if sint a = sint b then 1 else 2)
   \<and> ucmpdi2 a b = (if a < b then 0 else if a = b then 1 else 2)"
  by (auto simp: adddi3_eq subdi3_eq negdi2_eq muldi3_eq bitwise_eq left_shifts_eq lshrdi3_eq ashrdi3_eq cmpdi2_eq ucmpdi2_eq)

text \<open>C9. The multiple-precision division of \<open>qdivrem\<close>, Knuth's Algorithm D on 16-bit digits with its
  normalisation, trial digits, add-back and shift back of the remainder, returns the quotient and the
  remainder of the two quads, whatever they are; it divides by zero exactly when asked to.\<close>

theorem qdivrem_correct:
  "qdivrem a b = (if b = 0 then None else Some (a div b, a mod b))
   \<and> udivdi3 a b = (if b = 0 then None else Some (a div b)) \<and> umoddi3 a b = (if b = 0 then None else Some (a mod b))"
  by (simp add: qdivrem_eq qdivrem_zero udivdi3_def umoddi3_def)

text \<open>The signed quotient is the one C prescribes, rounded toward zero, for every pair of quads with a
  nonzero divisor, the overflowing quotient of the smallest quad by \<open>-1\<close> wrapping around.\<close>

theorem divdi3_correct:
  "divdi3 a b = (if b = 0 then None else Some (word_of_int (sint a sdiv sint b)))"
  using signed_division(1) by (simp add: divdi3_def qdivrem_zero)

text \<open>The signed remainder agrees with the signed quotient, so that the quotient times the divisor plus
  the remainder gives the dividend back, exactly when the divisor is positive or the remainder is zero:
  with a negative divisor the sign of the remainder is inverted.\<close>

theorem moddi3_identity:
  assumes "divdi3 a b = Some q" "moddi3 a b = Some r"
  shows "q * b + r = a \<longleftrightarrow> 0 < sint b \<or> r = 0"
proof -
  have b: "b \<noteq> 0" using assms(1) by (auto simp: divdi3_def qdivrem_zero)
  then have sb: "sint b \<noteq> 0" using signed_word_eqI [of b 0] by auto
  define x where "x = sint a smod sint b"
  define r0 :: "64 word" where "r0 = word_of_int x"
  have q: "q = word_of_int (sint a sdiv sint b)" and r: "r = (if sint b < 0 then - r0 else r0)"
    using assms signed_division [OF b, of a] by (auto simp: r0_def x_def)
  have "q * b + r0 = word_of_int (sint a sdiv sint b * sint b + x)"
    by (simp add: q r0_def)
  also have "sint a sdiv sint b * sint b + x = sint a" by (simp add: x_def sdiv_mult_smod_eq)
  finally have id: "q * b + r0 = a" by simp
  have two: "- r0 = r0 \<longleftrightarrow> r0 = 0"
  proof
    assume "- r0 = r0"
    then have "r0 + r0 = 0" by (metis add.right_inverse)
    then have "word_of_int (2 * x) = (0 :: 64 word)" by (simp add: r0_def)
    then have "uint (word_of_int (2 * x) :: 64 word) = 0" by (simp only: unsigned_0)
    then have "18446744073709551616 dvd 2 * x" unfolding uint_word_of_int by (simp add: dvd_eq_mod_eq_0)
    moreover have "\<bar>x\<bar> < \<bar>sint b\<bar>" using sb by (simp add: x_def signed_modulo_int_def sgn_if abs_mult)
    moreover have "\<bar>sint b\<bar> \<le> 9223372036854775808" using sint_ge [of b] sint_lt [of b] by simp
    ultimately have "2 * x = 0" using dvd_imp_le_int [of "2 * x" 18446744073709551616] by fastforce
    then show "r0 = 0" by (simp add: r0_def)
  qed simp
  show ?thesis
  proof (cases "sint b < 0")
    case True
    then have "q * b + r = a \<longleftrightarrow> - r0 = r0" using id r by (metis add_left_cancel)
    then show ?thesis using True r two by auto
  qed (use id r sb in auto)
qed

theorem moddi3_identity_witness:
  "divdi3 7 (- 2) = Some (- 3) \<and> moddi3 7 (- 2) = Some (- 1) \<and> - 3 * - 2 + - 1 \<noteq> (7 :: 64 word)"
proof -
  have s: "sint (- 2 :: 64 word) = - 2" "sint (7 :: 64 word) = 7" by simp_all
  have v: "divdi3 7 (- 2) = Some (- 3)" "moddi3 7 (- 2) = Some (- 1)"
    using signed_division [of "- 2" 7] unfolding s by (simp_all add: signed_divide_int_def signed_modulo_int_def)
  show ?thesis using moddi3_identity [OF v] v unfolding s by simp
qed

end
