(* ===== verification/Sockbuf.thy ===== *)
theory Sockbuf
  imports Mbuf_Laws
begin

text \<open>
  Socket buffers: \<open>struct sockbuf\<close> and its macros in \<open>sys/sys/socketvar.h\<close>, and the
  routines of \<open>sys/kern/uipc_socket2.c\<close> that add and remove data. The records linked by
  \<open>m_nextpkt\<close> are a list of chains. The counters are mathematical integers; the only place
  where the code depends on their width is \<open>sbspace\<close>.
\<close>

section \<open>Data\<close>

datatype sbflag = SB_LOCK | SB_WANT | SB_WAIT | SB_SEL | SB_ASYNC | SB_NOINTR

record sockbuf =
  sb_cc :: int
  sb_hiwat :: int
  sb_mbcnt :: int
  sb_mbmax :: int
  sb_lowat :: int
  sb_mb :: "mbuf list list"
  sb_flags :: "sbflag set"
  sb_timeo :: int

definition sbspace :: "sockbuf \<Rightarrow> int" where
  "sbspace sb = min (s_int (sb_hiwat sb - sb_cc sb)) (s_int (sb_mbmax sb - sb_mbcnt sb))"

definition mbchars :: "mbuf \<Rightarrow> int" where
  "mbchars m = MSIZE + (if M_EXT \<in> m_flags m then ext_size m else 0)"

definition sballoc :: "mbuf \<Rightarrow> sockbuf \<Rightarrow> sockbuf" where
  "sballoc m sb = sb\<lparr>sb_cc := sb_cc sb + m_len m, sb_mbcnt := sb_mbcnt sb + mbchars m\<rparr>"

definition sbfree :: "mbuf \<Rightarrow> sockbuf \<Rightarrow> sockbuf" where
  "sbfree m sb = sb\<lparr>sb_cc := sb_cc sb - m_len m, sb_mbcnt := sb_mbcnt sb - mbchars m\<rparr>"

section \<open>Reserving space\<close>

text \<open>The result is the buffer and whether the reservation was made.\<close>

definition sbreserve :: "int \<Rightarrow> sockbuf \<Rightarrow> int \<Rightarrow> sockbuf \<times> bool" where
  "sbreserve sb_max sb cc =
     (if sb_max * MCLBYTES div (MSIZE + MCLBYTES) < cc then (sb, False)
      else
        let sb = sb\<lparr>sb_hiwat := cc, sb_mbmax := min (u_int (cc * 2)) (u_int sb_max)\<rparr>
        in (if sb_hiwat sb < sb_lowat sb then sb\<lparr>sb_lowat := sb_hiwat sb\<rparr> else sb, True))"

section \<open>Appending\<close>

text \<open>
  The loop of \<open>sbcompress\<close>: \<open>n\<close> is the record under construction, whose last mbuf is the
  variable \<open>n\<close> of the code (the null pointer when it is empty).
\<close>

fun sbcompress_loop ::
  "mbuf list \<Rightarrow> mbuf list \<Rightarrow> bool \<Rightarrow> sockbuf \<Rightarrow> mbstate
    \<Rightarrow> (mbuf list \<times> bool \<times> sockbuf \<times> mbstate) kres"
where
  "sbcompress_loop n [] eor sb s = Inr (n, eor, sb, s)"
| "sbcompress_loop n (m # ms) eor sb s =
     (let eor = (eor \<or> M_EOR \<in> m_flags m)
      in if m_len m = 0 \<and>
            (\<not> eor \<or> (case ms of o' # _ \<Rightarrow> m_type o' = m_type m
                     | [] \<Rightarrow> n \<noteq> [] \<and> m_type (last n) = m_type m))
         then sbcompress_loop n ms eor sb (m_free m s)
         else if n \<noteq> [] \<and> M_EXT \<notin> m_flags (last n) \<and> M_EOR \<notin> m_flags (last n)
                 \<and> m_data (last n) + m_len (last n) + m_len m < MLEN
                 \<and> m_type (last n) = m_type m
         then bindE (m_bcopy s m 0 (last n) (m_len (last n)) (m_len m)) (\<lambda>n'.
                sbcompress_loop (butlast n @ [n'\<lparr>m_len := m_len (last n) + m_len m\<rparr>]) ms eor
                  (sb\<lparr>sb_cc := sb_cc sb + m_len m\<rparr>) (m_free m s))
         else sbcompress_loop (n @ [m\<lparr>m_flags := m_flags m - {M_EOR}\<rparr>]) ms eor (sballoc m sb) s)"

definition sbcompress ::
  "mbuf list \<Rightarrow> mbuf list \<Rightarrow> sockbuf \<Rightarrow> mbstate \<Rightarrow> (mbuf list \<times> sockbuf \<times> mbstate) kres"
where
  "sbcompress n m sb s =
     bindE (sbcompress_loop n m False sb s) (\<lambda>(n, eor, sb, s).
       Inr (if eor \<and> n \<noteq> []
            then butlast n @ [(last n)\<lparr>m_flags := m_flags (last n) \<union> {M_EOR}\<rparr>] else n, sb, s))"

text \<open>
  The code that \<open>sbappendrecord\<close> and \<open>sbinsertoob\<close> share: put \<open>m0\<close> on the queue and
  compress the rest of its chain behind it. The result is the new record.
\<close>

definition sb_newrecord ::
  "mbuf list \<Rightarrow> sockbuf \<Rightarrow> mbstate \<Rightarrow> (mbuf list \<times> sockbuf \<times> mbstate) kres"
where
  "sb_newrecord m0 sb s =
     (let m = tl m0; h = hd m0; sb = sballoc h sb
      in if m \<noteq> [] \<and> M_EOR \<in> m_flags h
         then sbcompress [h\<lparr>m_flags := m_flags h - {M_EOR}\<rparr>]
                ((hd m)\<lparr>m_flags := m_flags (hd m) \<union> {M_EOR}\<rparr> # tl m) sb s
         else sbcompress [h] m sb s)"

definition sbappendrecord :: "sockbuf \<Rightarrow> mbuf list \<Rightarrow> mbstate \<Rightarrow> (sockbuf \<times> mbstate) kres" where
  "sbappendrecord sb m0 s =
     (if m0 = [] then Inr (sb, s)
      else bindE (sb_newrecord m0 sb s) (\<lambda>(r, sb, s). Inr (sb\<lparr>sb_mb := sb_mb sb @ [r]\<rparr>, s)))"

definition sbappend :: "sockbuf \<Rightarrow> mbuf list \<Rightarrow> mbstate \<Rightarrow> (sockbuf \<times> mbstate) kres" where
  "sbappend sb m s =
     (if m = [] then Inr (sb, s)
      else if sb_mb sb = [] then
        bindE (sbcompress [] m sb s) (\<lambda>(r, sb, s).
          Inr (if r = [] then sb else sb\<lparr>sb_mb := [r]\<rparr>, s))
      else if \<exists>x \<in> set (last (sb_mb sb)). M_EOR \<in> m_flags x then sbappendrecord sb m s
      else
        bindE (sbcompress (last (sb_mb sb)) m sb s) (\<lambda>(r, sb, s).
          Inr (sb\<lparr>sb_mb := butlast (sb_mb sb) @ [r]\<rparr>, s)))"

text \<open>The switch of \<open>sbinsertoob\<close>: whether the record is to be passed over, and the
  records passed over.\<close>

fun sb_skiprecord :: "mbuf list \<Rightarrow> bool" where
  "sb_skiprecord [] = False"
| "sb_skiprecord (m # ms) =
     (if m_type m = MT_OOBDATA then True
      else if m_type m = MT_CONTROL then sb_skiprecord ms else False)"

definition sbinsertoob :: "sockbuf \<Rightarrow> mbuf list \<Rightarrow> mbstate \<Rightarrow> (sockbuf \<times> mbstate) kres" where
  "sbinsertoob sb m0 s =
     (if m0 = [] then Inr (sb, s)
      else bindE (sb_newrecord m0 sb s) (\<lambda>(r, sb, s).
        Inr (sb\<lparr>sb_mb := takeWhile sb_skiprecord (sb_mb sb) @ r
                  # dropWhile sb_skiprecord (sb_mb sb)\<rparr>, s)))"

text \<open>A socket address is its bytes, of which the first is its length.\<close>

definition sa_len :: "byte list \<Rightarrow> int" where
  "sa_len asa = (case asa of [] \<Rightarrow> 0 | x # _ \<Rightarrow> uint x)"

text \<open>The result of the next two says whether the data were appended.\<close>

definition sbappendaddr ::
  "sockbuf \<Rightarrow> byte list \<Rightarrow> mbuf list \<Rightarrow> mbuf list \<Rightarrow> mbstate \<Rightarrow> (bool \<times> sockbuf \<times> mbstate) kres"
where
  "sbappendaddr sb asa m0 control s =
     (if m0 \<noteq> [] \<and> M_PKTHDR \<notin> m_flags (hd m0) then Inl (Panic ''sbappendaddr'')
      else
        let space = sa_len asa + (if m0 = [] then 0 else pkt_len (hd m0)) + (\<Sum>n\<leftarrow>control. m_len n)
        in if sbspace sb < space then Inr (False, sb, s)
           else if MLEN < sa_len asa then Inr (False, sb, s)
           else bindE (MGET M_DONTWAIT MT_SONAME s) (\<lambda>(m, s).
             case m of
               None \<Rightarrow> Inr (False, sb, s)
             | Some m \<Rightarrow>
                 let m = m\<lparr>m_len := sa_len asa\<rparr>
                 in bindE (bcopy asa 0 (m_dat m) (m_data m) (sa_len asa)) (\<lambda>d.
                      let r = m\<lparr>m_dat := d\<rparr> # control @ m0; sb = fold sballoc r sb
                      in Inr (True, sb\<lparr>sb_mb := sb_mb sb @ [r]\<rparr>, s))))"

definition sbappendcontrol ::
  "sockbuf \<Rightarrow> mbuf list \<Rightarrow> mbuf list \<Rightarrow> (bool \<times> sockbuf) kres"
where
  "sbappendcontrol sb m0 control =
     (if control = [] then Inl (Panic ''sbappendcontrol'')
      else
        let space = (\<Sum>m\<leftarrow>control. m_len m) + (\<Sum>m\<leftarrow>m0. m_len m)
        in if sbspace sb < space then Inr (False, sb)
           else
             let r = control @ m0; sb = fold sballoc r sb
             in Inr (True, sb\<lparr>sb_mb := sb_mb sb @ [r]\<rparr>))"

section \<open>Removing\<close>

text \<open>The first loop of \<open>sbdrop\<close>, on the rest \<open>m\<close> of the first record and the records
  \<open>next\<close> behind it.\<close>

function sbdrop_loop ::
  "int \<Rightarrow> mbuf list \<Rightarrow> mbuf list list \<Rightarrow> sockbuf \<Rightarrow> mbstate
    \<Rightarrow> (mbuf list \<times> mbuf list list \<times> sockbuf \<times> mbstate) kres"
where
  "sbdrop_loop len [] [] sb s = (if 0 < len then Inl (Panic ''sbdrop'') else Inr ([], [], sb, s))"
| "sbdrop_loop len [] (r # rs) sb s =
     (if 0 < len then sbdrop_loop len r rs sb s else Inr ([], r # rs, sb, s))"
| "sbdrop_loop len (m # ms) rs sb s =
     (if 0 < len then
        if len < m_len m
        then Inr (m\<lparr>m_len := m_len m - len, m_data := m_data m + len\<rparr> # ms, rs,
                  sb\<lparr>sb_cc := sb_cc sb - len\<rparr>, s)
        else sbdrop_loop (len - m_len m) ms rs (sbfree m sb) (m_free m s)
      else Inr (m # ms, rs, sb, s))"
  by pat_completeness auto
termination
  by (relation "measure (\<lambda>(len, m, rs, sb, s). length m + (\<Sum>r\<leftarrow>rs. Suc (length r)))") auto

fun sbdrop_empty :: "mbuf list \<Rightarrow> sockbuf \<Rightarrow> mbstate \<Rightarrow> mbuf list \<times> sockbuf \<times> mbstate" where
  "sbdrop_empty [] sb s = ([], sb, s)"
| "sbdrop_empty (m # ms) sb s =
     (if m_len m = 0 then sbdrop_empty ms (sbfree m sb) (m_free m s) else (m # ms, sb, s))"

definition sbdrop :: "sockbuf \<Rightarrow> int \<Rightarrow> mbstate \<Rightarrow> (sockbuf \<times> mbstate) kres" where
  "sbdrop sb len s =
     (let (m, next) = (case sb_mb sb of [] \<Rightarrow> ([], []) | r # rs \<Rightarrow> (r, rs))
      in bindE (sbdrop_loop len m next sb s) (\<lambda>(m, next, sb, s).
           let (m, sb, s) = sbdrop_empty m sb s
           in Inr (sb\<lparr>sb_mb := (if m = [] then next else m # next)\<rparr>, s)))"

fun sbdrop_record :: "mbuf list \<Rightarrow> sockbuf \<Rightarrow> mbstate \<Rightarrow> sockbuf \<times> mbstate" where
  "sbdrop_record [] sb s = (sb, s)"
| "sbdrop_record (m # ms) sb s = sbdrop_record ms (sbfree m sb) (m_free m s)"

definition sbdroprecord :: "sockbuf \<Rightarrow> mbstate \<Rightarrow> sockbuf \<times> mbstate" where
  "sbdroprecord sb s =
     (case sb_mb sb of [] \<Rightarrow> (sb, s) | r # rs \<Rightarrow> sbdrop_record r (sb\<lparr>sb_mb := rs\<rparr>) s)"

text \<open>The loop of \<open>sbflush\<close>, at most as many times as there are mbufs and once more.\<close>

fun sbflush_loop :: "nat \<Rightarrow> sockbuf \<Rightarrow> mbstate \<Rightarrow> (sockbuf \<times> mbstate) kres" where
  "sbflush_loop 0 sb s = Inl Loops"
| "sbflush_loop (Suc k) sb s =
     (if sb_mbcnt sb \<noteq> 0
      then bindE (sbdrop sb (sb_cc sb) s) (\<lambda>(sb, s). sbflush_loop k sb s)
      else Inr (sb, s))"

definition sbflush :: "sockbuf \<Rightarrow> mbstate \<Rightarrow> (sockbuf \<times> mbstate) kres" where
  "sbflush sb s =
     (if SB_LOCK \<in> sb_flags sb then Inl (Panic ''sbflush'')
      else bindE (sbflush_loop (Suc (length (concat (sb_mb sb)))) sb s) (\<lambda>(sb, s).
        if sb_cc sb \<noteq> 0 \<or> sb_mb sb \<noteq> [] then Inl (Panic ''sbflush 2'') else Inr (sb, s)))"

definition sbrelease :: "sockbuf \<Rightarrow> mbstate \<Rightarrow> (sockbuf \<times> mbstate) kres" where
  "sbrelease sb s = bindE (sbflush sb s) (\<lambda>(sb, s). Inr (sb\<lparr>sb_hiwat := 0, sb_mbmax := 0\<rparr>, s))"

section \<open>Locking\<close>

text \<open>
  \<open>sb_lock\<close>: each sleep ends with an error or with the flags some other process left. The
  list is the sleeps to come; when it runs out the caller sleeps on.
\<close>

fun sb_lock :: "sockbuf \<Rightarrow> (errno + sbflag set) list \<Rightarrow> (sockbuf \<times> errno option) kres" where
  "sb_lock sb ws =
     (if SB_LOCK \<in> sb_flags sb then
        let sb = sb\<lparr>sb_flags := sb_flags sb \<union> {SB_WANT}\<rparr>
        in case ws of
             [] \<Rightarrow> Inl Sleeps
           | Inl e # _ \<Rightarrow> Inr (sb, Some e)
           | Inr fl # ws \<Rightarrow> sb_lock (sb\<lparr>sb_flags := fl\<rparr>) ws
      else Inr (sb\<lparr>sb_flags := sb_flags sb \<union> {SB_LOCK}\<rparr>, None))"

text \<open>
  The macro \<open>sblock\<close> as C parses it: the conditional expression is the left operand of the
  comma, so the value is 0 (no error) in every case.
\<close>

definition sblock :: "sockbuf \<Rightarrow> mhow \<Rightarrow> (errno + sbflag set) list \<Rightarrow> (sockbuf \<times> errno option) kres" where
  "sblock sb how ws =
     bindE (if SB_LOCK \<in> sb_flags sb
            then if how = M_WAIT then sb_lock sb ws else Inr (sb, Some EAGAIN)
            else Inr (sb\<lparr>sb_flags := sb_flags sb \<union> {SB_LOCK}\<rparr>, None))
       (\<lambda>(sb, ignored). Inr (sb, None))"

text \<open>The result says whether sleepers were woken up.\<close>

definition sbunlock :: "sockbuf \<Rightarrow> sockbuf \<times> bool" where
  "sbunlock sb =
     (let sb = sb\<lparr>sb_flags := sb_flags sb - {SB_LOCK}\<rparr>
      in if SB_WANT \<in> sb_flags sb
         then (sb\<lparr>sb_flags := sb_flags sb - {SB_WANT}\<rparr>, True) else (sb, False))"

end
