(* ===== verification/Sockbuf_Laws.thy ===== *)
theory Sockbuf_Laws
  imports Sockbuf
begin

text \<open>
  The socket buffer as a stream of bytes in records: the counters \<open>sb_cc\<close> and
  \<open>sb_mbcnt\<close> always describe the queue, every routine adds or removes exactly the bytes it
  should, and no mbuf or cluster reference is lost.
\<close>

section \<open>The invariant\<close>

definition sb_chain :: "sockbuf \<Rightarrow> mbuf list" where
  "sb_chain sb = concat (sb_mb sb)"

definition sb_bytes :: "mbstate \<Rightarrow> sockbuf \<Rightarrow> byte list" where
  "sb_bytes s sb = chain_bytes s (sb_chain sb)"

definition sb_records :: "mbstate \<Rightarrow> sockbuf \<Rightarrow> byte list list" where
  "sb_records s sb = map (chain_bytes s) (sb_mb sb)"

definition mbtotal :: "mbuf list \<Rightarrow> int" where
  "mbtotal c = (\<Sum>m\<leftarrow>c. mbchars m)"

lemma mbtotal_simps [simp]: "mbtotal [] = 0" "mbtotal (m # c) = mbchars m + mbtotal c"
  "mbtotal (c @ d) = mbtotal c + mbtotal d"
  by (simp_all add: mbtotal_def)

abbreviation sizes_ok :: "mbuf list \<Rightarrow> bool" where
  "sizes_ok c \<equiv> \<forall>m \<in> set c. M_EXT \<in> m_flags m \<longrightarrow> 0 \<le> ext_size m"

definition sb_ok :: "mbstate \<Rightarrow> sockbuf \<Rightarrow> bool" where
  "sb_ok s sb \<longleftrightarrow> mb_ok s \<and> chain_ok s (sb_chain sb) \<and> sizes_ok (sb_chain sb) \<and> [] \<notin> set (sb_mb sb)
     \<and> sb_cc sb = int (length (sb_bytes s sb)) \<and> sb_mbcnt sb = mbtotal (sb_chain sb)"

text \<open>Nothing is lost: the mbufs and cluster references of the store and of a chain.\<close>

definition no_leak :: "mbstate \<Rightarrow> mbuf list \<Rightarrow> mbstate \<Rightarrow> mbuf list \<Rightarrow> bool" where
  "no_leak s c s' c' \<longleftrightarrow> mb_clust s' = mb_clust s \<and> unaccounted s' c' = unaccounted s c
     \<and> mb_avail s' + int (length c') = mb_avail s + int (length c)"

lemma no_leak_refl [simp]: "no_leak s c s c"
  by (simp add: no_leak_def)

lemma no_leak_trans: "no_leak s c s' c' \<Longrightarrow> no_leak s' c' s'' c'' \<Longrightarrow> no_leak s c s'' c''"
  by (simp add: no_leak_def)

lemma no_leakI:
  assumes "mb_clust s' = mb_clust s" "mb_avail s' + int (length c') = mb_avail s + int (length c)"
    and "\<And>k. mclrefcnt s' k - clrefs c' k = mclrefcnt s k - clrefs c k"
  shows "no_leak s c s' c'"
  using assms by (simp add: no_leak_def unaccounted_def)

lemma no_leakD:
  assumes "no_leak s c s' c'"
  shows "mb_clust s' = mb_clust s" "mb_avail s' + int (length c') = mb_avail s + int (length c)"
    "mclrefcnt s' k - clrefs c' k = mclrefcnt s k - clrefs c k"
proof -
  have "unaccounted s' c' k = unaccounted s c k" using assms by (simp add: no_leak_def)
  then show "mclrefcnt s' k - clrefs c' k = mclrefcnt s k - clrefs c k"
    by (simp add: unaccounted_def)
qed (use assms in \<open>simp_all add: no_leak_def\<close>)

text \<open>The rest of the mbufs, in any order, does not matter.\<close>

lemma no_leak_context:
  assumes "no_leak s c s' c'"
    and "\<And>k. clrefs d k = clrefs p k + clrefs c k + clrefs q k"
    and "\<And>k. clrefs d' k = clrefs p k + clrefs c' k + clrefs q k"
    and "length d = length p + length c + length q" "length d' = length p + length c' + length q"
  shows "no_leak s d s' d'"
proof (rule no_leakI)
  show "mclrefcnt s' k - clrefs d' k = mclrefcnt s k - clrefs d k" for k
    using no_leakD(3) [OF assms(1), of k] assms(2,3) [of k] by linarith
qed (use no_leakD(1,2) [OF assms(1)] assms(4,5) in simp_all)

lemma no_leak_append:
  "no_leak s c s' c' \<Longrightarrow> no_leak s (p @ c @ q) s' (p @ c' @ q)"
  by (erule no_leak_context [of _ _ _ _ _ p q]) simp_all

lemma same_data_no_leak:
  "same_data s c s' c' \<longleftrightarrow> mb_ok s' \<and> chain_ok s' c' \<and> chain_bytes s' c' = chain_bytes s c
     \<and> no_leak s c s' c'"
  by (auto simp: same_data_def no_leak_def)

lemma same_data_free_empty:
  assumes "mb_ok s" "chain_ok s (m # c)" "m_len m = 0"
  shows "same_data s (m # c) (m_free m s) c"
proof -
  have m: "mbuf_ok s m" "int (length (m_dat m)) = MLEN" using assms(2) mbuf_ok_dat by auto
  have "m_bytes s m = []" using m_bytes_length [OF m(1)] assms(3) by simp
  then show ?thesis
    using assms m_free_facts [OF assms(1) m(2)] clust_cong [of "m_free m s" s]
    by (auto simp: same_data_def)
qed

section \<open>\<open>sbcompress\<close>\<close>

lemma mbchars_simps [simp]:
  "mbchars (m\<lparr>m_len := n\<rparr>) = mbchars m" "mbchars (m\<lparr>m_data := d\<rparr>) = mbchars m"
  "mbchars (m\<lparr>m_dat := b\<rparr>) = mbchars m" "mbchars (m\<lparr>m_flags := m_flags m - {M_EOR}\<rparr>) = mbchars m"
  "mbchars (m\<lparr>m_flags := m_flags m \<union> {M_EOR}\<rparr>) = mbchars m"
  "mbchars (m\<lparr>m_flags := insert M_EOR (m_flags m)\<rparr>) = mbchars m"
  by (simp_all add: mbchars_def)

lemma eor_simps [simp]:
  "m_bytes s (m\<lparr>m_flags := m_flags m - {M_EOR}\<rparr>) = m_bytes s m"
  "mbuf_ok s (m\<lparr>m_flags := m_flags m - {M_EOR}\<rparr>) = mbuf_ok s m"
  "m_bytes s (m\<lparr>m_flags := insert M_EOR (m_flags m)\<rparr>) = m_bytes s m"
  "mbuf_ok s (m\<lparr>m_flags := insert M_EOR (m_flags m)\<rparr>) = mbuf_ok s m"
  by (simp_all add: m_bytes_def mbuf_ok_def m_storage_def)

lemma same_data_flags:
  assumes "mb_ok s" "chain_ok s (m # c)"
    "mbuf_ok s m' = mbuf_ok s m" "m_bytes s m' = m_bytes s m"
    "M_EXT \<in> m_flags m' \<longleftrightarrow> M_EXT \<in> m_flags m" "ext_buf m' = ext_buf m"
  shows "same_data s (m # c) s (m' # c)"
  using assms by (simp add: same_data_def unaccounted_def fun_eq_iff)

lemma m_bcopy_ext_size:
  "m_bcopy s m soff n doff len = Inr n' \<Longrightarrow>
    ext_size n' = ext_size n \<and> mbchars n' = mbchars n \<and> m_flags n' = m_flags n"
  by (auto simp: m_bcopy_def)

text \<open>What compressing \<open>m\<close> behind \<open>n\<close> yields: the record \<open>c\<close>.\<close>

definition compressed ::
  "mbuf list \<Rightarrow> mbuf list \<Rightarrow> sockbuf \<Rightarrow> mbstate \<Rightarrow> mbuf list \<Rightarrow> sockbuf \<Rightarrow> mbstate \<Rightarrow> bool"
where
  "compressed n m sb s c sb' s' \<longleftrightarrow> same_data s (n @ m) s' c \<and> sizes_ok c
     \<and> sb' = sb\<lparr>sb_cc := sb_cc sb + int (length (chain_bytes s m)),
                sb_mbcnt := sb_mbcnt sb + mbtotal c - mbtotal n\<rparr>
     \<and> (n \<noteq> [] \<longrightarrow> c \<noteq> [])"

lemma compressed_step:
  assumes "compressed n1 ms sb1 s1 c sb' s'"
    and "same_data s (n @ m # ms) s1 (n1 @ ms)" "chain_bytes s1 ms = chain_bytes s ms"
    and "sb1 = sb\<lparr>sb_cc := sb_cc sb + int (length (m_bytes s m)),
                  sb_mbcnt := sb_mbcnt sb + mbtotal n1 - mbtotal n\<rparr>"
    and "n \<noteq> [] \<longrightarrow> n1 \<noteq> []"
  shows "compressed n (m # ms) sb s c sb' s'"
  using assms same_data_trans [OF assms(2)] unfolding compressed_def by auto

lemma sbcompress_loop_spec:
  assumes "mb_ok s" "chain_ok s (n @ m)" "sizes_ok (n @ m)" "eor \<longrightarrow> n \<noteq> [] \<or> m \<noteq> []"
    and "\<forall>x \<in> set n. M_EOR \<notin> m_flags x"
  shows "\<exists>c eor' sb' s'. sbcompress_loop n m eor sb s = Inr (c, eor', sb', s')
    \<and> compressed n m sb s c sb' s' \<and> (eor' \<longleftrightarrow> eor \<or> (\<exists>x \<in> set m. M_EOR \<in> m_flags x))
    \<and> (eor' \<longrightarrow> c \<noteq> []) \<and> (\<forall>x \<in> set c. M_EOR \<notin> m_flags x)"
  using assms
proof (induction n m eor sb s rule: sbcompress_loop.induct)
  case (1 n eor sb s)
  then show ?case by (auto simp: compressed_def same_data_def)
next
  case (2 n m ms eor sb s)
  define eor1 where "eor1 = (eor \<or> M_EOR \<in> m_flags m)"
  have m: "mbuf_ok s m" "int (length (m_bytes s m)) = m_len m" "0 \<le> m_len m"
    using "2.prems"(2) m_bytes_length by (auto simp: mbuf_ok_def)
  let ?drop = "m_len m = 0 \<and>
            (\<not> eor1 \<or> (case ms of o' # _ \<Rightarrow> m_type o' = m_type m
                     | [] \<Rightarrow> n \<noteq> [] \<and> m_type (last n) = m_type m))"
  let ?absorb = "n \<noteq> [] \<and> M_EXT \<notin> m_flags (last n) \<and> M_EOR \<notin> m_flags (last n)
                 \<and> m_data (last n) + m_len (last n) + m_len m < MLEN \<and> m_type (last n) = m_type m"
  have ok: "chain_ok s n" "chain_ok s (m # ms)" using "2.prems"(2) by auto
  have clust: "chain_bytes (m_free m s) ms = chain_bytes s ms" by (rule clust_cong) simp
  note IH = "2.IH" [OF eor1_def]
  show ?case
  proof (cases ?drop)
    case True
    have sd: "same_data s (n @ m # ms) (m_free m s) (n @ ms)"
      using same_data_prefix [OF same_data_free_empty [OF "2.prems"(1) ok(2)] ok(1)] True by simp
    then have ok': "mb_ok (m_free m s)" "chain_ok (m_free m s) (n @ ms)"
      unfolding same_data_def by blast+
    have "eor1 \<longrightarrow> n \<noteq> [] \<or> ms \<noteq> []" using True by (cases ms) auto
    then obtain c eor' sb' s' where r: "sbcompress_loop n ms eor1 sb (m_free m s) = Inr (c, eor', sb', s')"
      "compressed n ms sb (m_free m s) c sb' s'" "eor' \<longleftrightarrow> eor1 \<or> (\<exists>x \<in> set ms. M_EOR \<in> m_flags x)"
      "eor' \<longrightarrow> c \<noteq> []" "\<forall>x \<in> set c. M_EOR \<notin> m_flags x"
      using IH(1) [OF True ok'] "2.prems"(3,5) by auto
    have "sb = sb\<lparr>sb_cc := sb_cc sb + int (length (m_bytes s m)), sb_mbcnt := sb_mbcnt sb + mbtotal n - mbtotal n\<rparr>"
      using True m(2) by simp
    note C = compressed_step [OF r(2) sd clust this]
    have "sbcompress_loop n (m # ms) eor sb s = sbcompress_loop n ms eor1 sb (m_free m s)"
      using True unfolding sbcompress_loop.simps Let_def eor1_def by simp
    then show ?thesis
      using r C by (intro exI [of _ c] exI [of _ eor'] exI [of _ sb'] exI [of _ s']) (auto simp: eor1_def)
  next
    case nd: False
    show ?thesis
    proof (cases ?absorb)
      case True
      obtain b l where n: "n = b @ [l]" using True by (cases n rule: rev_cases) auto
      have l: "mbuf_ok s l" "M_EXT \<notin> m_flags l" "m_data l + m_len l + m_len m \<le> MLEN"
        using "2.prems"(2) True by (auto simp: n)
      obtain l1 where l1: "m_bcopy s m 0 l (m_len l) (m_len m) = Inr l1"
        "mbuf_ok s (l1\<lparr>m_len := m_len l + m_len m\<rparr>)"
        "m_bytes s (l1\<lparr>m_len := m_len l + m_len m\<rparr>) = m_bytes s l @ take (nat (m_len m)) (m_bytes s m)"
        "m_flags l1 = m_flags l"
        using m_bcopy_append [OF l(1,2) m(1) m(3) order_refl l(3)] by metis
      define l2 where "l2 = l1\<lparr>m_len := m_len l + m_len m\<rparr>"
      have all: "take (nat (m_len m)) (m_bytes s m) = m_bytes s m" using m(2) by simp
      have x: "ext_size l2 = ext_size l" "mbchars l2 = mbchars l" "m_flags l2 = m_flags l"
        using m_bcopy_ext_size [OF l1(1)] by (simp_all add: l2_def)
      have "same_data s (l # m # ms) (m_free (m\<lparr>m_len := m_len m\<rparr>) s) (l2 # ms)"
        using l1 l ok(2) all "2.prems"(1)
        by (intro same_data_absorb) (simp_all add: l2_def)
      then have sd: "same_data s (n @ m # ms) (m_free m s) ((b @ [l2]) @ ms)"
        using same_data_prefix [of s "l # m # ms" "m_free m s" "l2 # ms" b] ok(1) by (simp add: n)
      then have ok': "mb_ok (m_free m s)" "chain_ok (m_free m s) ((b @ [l2]) @ ms)"
        unfolding same_data_def by blast+
      have absb: "butlast n @ [l2] = b @ [l2]" by (simp add: n)
      let ?sb = "sb\<lparr>sb_cc := sb_cc sb + m_len m\<rparr>"
      have "sizes_ok ((b @ [l2]) @ ms)" "\<forall>y \<in> set (b @ [l2]). M_EOR \<notin> m_flags y"
        using "2.prems"(3,5) x by (auto simp: n)
      then obtain c eor' sb' s' where
        r: "sbcompress_loop (b @ [l2]) ms eor1 ?sb (m_free m s) = Inr (c, eor', sb', s')"
        "compressed (b @ [l2]) ms ?sb (m_free m s) c sb' s'"
        "eor' \<longleftrightarrow> eor1 \<or> (\<exists>x \<in> set ms. M_EOR \<in> m_flags x)" "eor' \<longrightarrow> c \<noteq> []"
        "\<forall>x \<in> set c. M_EOR \<notin> m_flags x"
        using IH(2) [OF nd True, of l1] ok' unfolding n l2_def by auto
      have "?sb = sb\<lparr>sb_cc := sb_cc sb + int (length (m_bytes s m)),
          sb_mbcnt := sb_mbcnt sb + mbtotal (b @ [l2]) - mbtotal n\<rparr>"
        using x(2) m(2) by (simp add: n)
      note C = compressed_step [OF r(2) sd clust this]
      have "sbcompress_loop n (m # ms) eor sb s = sbcompress_loop (b @ [l2]) ms eor1 ?sb (m_free m s)"
        unfolding sbcompress_loop.simps Let_def eor1_def [symmetric] if_not_P [OF nd] if_P [OF True]
        by (simp add: n l1(1) l2_def)
      then show ?thesis
        using r C by (intro exI [of _ c] exI [of _ eor'] exI [of _ sb'] exI [of _ s']) (auto simp: eor1_def)
    next
      case na: False
      define m1 where "m1 = m\<lparr>m_flags := m_flags m - {M_EOR}\<rparr>"
      have m1: "mbuf_ok s m1 = mbuf_ok s m" "m_bytes s m1 = m_bytes s m" "mbchars m1 = mbchars m"
        "M_EXT \<in> m_flags m1 \<longleftrightarrow> M_EXT \<in> m_flags m" "ext_buf m1 = ext_buf m" "ext_size m1 = ext_size m"
        "M_EOR \<notin> m_flags m1"
        by (simp_all add: m1_def)
      have sd: "same_data s (n @ m # ms) s ((n @ [m1]) @ ms)"
        using same_data_prefix [OF same_data_flags [OF "2.prems"(1) ok(2) m1(1,2,4,5)] ok(1)] by simp
      then have ok': "chain_ok s ((n @ [m1]) @ ms)" unfolding same_data_def by blast
      have sz: "sizes_ok ((n @ [m1]) @ ms)" "\<forall>y \<in> set (n @ [m1]). M_EOR \<notin> m_flags y"
        "eor1 \<longrightarrow> n @ [m1] \<noteq> [] \<or> ms \<noteq> []"
        using "2.prems"(3,5) m1(4,6,7) by auto
      obtain c eor' sb' s' where
        r: "sbcompress_loop (n @ [m1]) ms eor1 (sballoc m sb) s = Inr (c, eor', sb', s')"
        "compressed (n @ [m1]) ms (sballoc m sb) s c sb' s'"
        "eor' \<longleftrightarrow> eor1 \<or> (\<exists>x \<in> set ms. M_EOR \<in> m_flags x)" "eor' \<longrightarrow> c \<noteq> []"
        "\<forall>x \<in> set c. M_EOR \<notin> m_flags x"
        using IH(3) [OF nd na "2.prems"(1), folded m1_def, OF ok' sz(1,3,2)] by blast
      have "sballoc m sb = sb\<lparr>sb_cc := sb_cc sb + int (length (m_bytes s m)),
          sb_mbcnt := sb_mbcnt sb + mbtotal (n @ [m1]) - mbtotal n\<rparr>"
        using m1(3) m(2) by (simp add: sballoc_def)
      note C = compressed_step [OF r(2) sd refl this]
      have "sbcompress_loop n (m # ms) eor sb s = sbcompress_loop (n @ [m1]) ms eor1 (sballoc m sb) s"
        unfolding sbcompress_loop.simps Let_def eor1_def [symmetric] if_not_P [OF nd] if_not_P [OF na]
          m1_def ..
      then show ?thesis
        using r C by (intro exI [of _ c] exI [of _ eor'] exI [of _ sb'] exI [of _ s']) (auto simp: eor1_def)
    qed
  qed
qed

text \<open>Where the end-of-record mark is: at the last mbuf of the record or nowhere.\<close>

definition eor_at_end :: "mbuf list \<Rightarrow> bool \<Rightarrow> bool" where
  "eor_at_end c e \<longleftrightarrow> (\<forall>x \<in> set (butlast c). M_EOR \<notin> m_flags x)
     \<and> (c \<noteq> [] \<longrightarrow> (M_EOR \<in> m_flags (last c) \<longleftrightarrow> e)) \<and> (e \<longrightarrow> c \<noteq> [])"

lemma sbcompress_spec:
  assumes "mb_ok s" "chain_ok s (n @ m)" "sizes_ok (n @ m)" "\<forall>x \<in> set n. M_EOR \<notin> m_flags x"
  shows "\<exists>c sb' s'. sbcompress n m sb s = Inr (c, sb', s') \<and> compressed n m sb s c sb' s'
    \<and> eor_at_end c (\<exists>x \<in> set m. M_EOR \<in> m_flags x)"
proof -
  have "False \<longrightarrow> n \<noteq> [] \<or> m \<noteq> []" by simp
  then obtain c eor sb' s' where r: "sbcompress_loop n m False sb s = Inr (c, eor, sb', s')"
    "compressed n m sb s c sb' s'" "eor \<longleftrightarrow> (\<exists>x \<in> set m. M_EOR \<in> m_flags x)" "eor \<longrightarrow> c \<noteq> []"
    "\<forall>x \<in> set c. M_EOR \<notin> m_flags x"
    using sbcompress_loop_spec [OF assms(1-3) _ assms(4), of False sb] by blast
  show ?thesis
  proof (cases eor)
    case False
    then have "eor_at_end c (\<exists>x \<in> set m. M_EOR \<in> m_flags x)"
      using r(3,5) by (auto simp: eor_at_end_def dest: in_set_butlastD)
    then show ?thesis using r(1,2) False by (auto simp: sbcompress_def)
  next
    case True
    then obtain b l where c: "c = b @ [l]" using r(4) by (cases c rule: rev_cases) auto
    define l' where "l' = l\<lparr>m_flags := insert M_EOR (m_flags l)\<rparr>"
    have sd: "same_data s (n @ m) s' (b @ [l])" using r(2) by (simp add: compressed_def c)
    have ok: "mb_ok s'" "chain_ok s' (b @ [l])" using sd unfolding same_data_def by blast+
    have "same_data s' [l] s' [l']"
      using ok by (intro same_data_flags) (simp_all add: l'_def)
    then have "same_data s' (b @ [l]) s' (b @ [l'])" using same_data_prefix ok(2) by fastforce
    then have "same_data s (n @ m) s' (b @ [l'])" by (rule same_data_trans [OF sd])
    moreover have "mbchars l' = mbchars l" "ext_size l' = ext_size l"
      "M_EXT \<in> m_flags l' \<longleftrightarrow> M_EXT \<in> m_flags l"
      by (simp_all add: l'_def)
    ultimately have "compressed n m sb s (b @ [l']) sb' s'"
      using r(2) by (simp add: compressed_def c)
    moreover have "eor_at_end (b @ [l']) (\<exists>x \<in> set m. M_EOR \<in> m_flags x)"
      using True r(3,5) by (simp add: eor_at_end_def l'_def c)
    ultimately show ?thesis using r(1) True by (simp add: sbcompress_def c l'_def)
  qed
qed

lemma sb_newrecord_spec:
  assumes "mb_ok s" "chain_ok s m0" "sizes_ok m0" "m0 \<noteq> []"
  shows "\<exists>r s'. sb_newrecord m0 sb s = Inr (r, sb\<lparr>sb_cc := sb_cc sb + int (length (chain_bytes s m0)),
      sb_mbcnt := sb_mbcnt sb + mbtotal r\<rparr>, s')
    \<and> same_data s m0 s' r \<and> sizes_ok r \<and> r \<noteq> [] \<and> eor_at_end r (\<exists>x \<in> set m0. M_EOR \<in> m_flags x)"
proof -
  obtain h t where m0: "m0 = h # t" using assms(4) by (cases m0) auto
  have h: "int (length (m_bytes s h)) = m_len h" using assms(2) m_bytes_length by (simp add: m0)
  define sb1 where "sb1 = sballoc h sb"
  have sb1: "sb_cc sb1 = sb_cc sb + int (length (m_bytes s h))" "sb_mbcnt sb1 = sb_mbcnt sb + mbchars h"
    "sb1\<lparr>sb_cc := a, sb_mbcnt := b\<rparr> = sb\<lparr>sb_cc := a, sb_mbcnt := b\<rparr>" for a b
    using h by (simp_all add: sb1_def sballoc_def)
  have fin: "\<exists>r s'. sbcompress [h'] t' sb1 s = Inr (r, sb\<lparr>sb_cc := sb_cc sb + int (length (chain_bytes s m0)),
        sb_mbcnt := sb_mbcnt sb + mbtotal r\<rparr>, s')
      \<and> same_data s m0 s' r \<and> sizes_ok r \<and> r \<noteq> [] \<and> eor_at_end r (\<exists>x \<in> set m0. M_EOR \<in> m_flags x)"
    if sd: "same_data s m0 s (h' # t')" and q: "sizes_ok (h' # t')" "mbchars h' = mbchars h"
      "chain_bytes s t' = chain_bytes s t" "M_EOR \<notin> m_flags h'"
      "(\<exists>x \<in> set t'. M_EOR \<in> m_flags x) \<longleftrightarrow> (\<exists>x \<in> set m0. M_EOR \<in> m_flags x)" for h' t'
  proof -
    have ok: "chain_ok s ([h'] @ t')" using sd unfolding same_data_def by simp
    obtain r sb' s' where r: "sbcompress [h'] t' sb1 s = Inr (r, sb', s')"
      "compressed [h'] t' sb1 s r sb' s'" "eor_at_end r (\<exists>x \<in> set t'. M_EOR \<in> m_flags x)"
      using sbcompress_spec [OF assms(1) ok, of sb1] q(1,4) by auto
    have sb': "sb' = sb\<lparr>sb_cc := sb_cc sb + int (length (chain_bytes s m0)),
        sb_mbcnt := sb_mbcnt sb + mbtotal r\<rparr>"
      using r(2) q(2,3) sb1 by (simp add: compressed_def m0)
    have "same_data s m0 s' r" "sizes_ok r" "r \<noteq> []"
      using r(2) same_data_trans [OF sd] by (auto simp: compressed_def)
    then show ?thesis using r(1,3) q(5) unfolding sb' by auto
  qed
  show ?thesis
  proof (cases "t \<noteq> [] \<and> M_EOR \<in> m_flags h")
    case True
    then obtain x t1 where t: "t = x # t1" by (cases t) auto
    define h' x' where "h' = h\<lparr>m_flags := m_flags h - {M_EOR}\<rparr>"
      and "x' = x\<lparr>m_flags := insert M_EOR (m_flags x)\<rparr>"
    have "same_data s (x # t1) s (x' # t1)"
      using assms(1,2) by (intro same_data_flags) (simp_all add: x'_def m0 t)
    then have 1: "same_data s (h # x # t1) s (h # x' # t1)"
      using same_data_prefix [of s "x # t1" s "x' # t1" "[h]"] assms(2) by (simp add: m0)
    then have "chain_ok s (h # x' # t1)" unfolding same_data_def by blast
    then have "same_data s (h # x' # t1) s (h' # x' # t1)"
      using assms(1) by (intro same_data_flags) (simp_all add: h'_def)
    then have sd: "same_data s m0 s (h' # x' # t1)"
      using same_data_trans [OF 1] by (simp add: m0 t)
    have "sb_newrecord m0 sb s = sbcompress [h'] (x' # t1) sb1 s"
      using True by (simp add: sb_newrecord_def m0 t h'_def x'_def sb1_def)
    then show ?thesis
      using fin [OF sd] assms(3) True by (auto simp: m0 t h'_def x'_def)
  next
    case False
    have eq: "sb_newrecord m0 sb s = sbcompress [h] t sb1 s"
      using False by (auto simp: sb_newrecord_def m0 sb1_def Let_def)
    show ?thesis
    proof (cases "t = []")
      case True
      then have "sb_newrecord m0 sb s = Inr ([h], sb1, s)" by (simp add: eq sbcompress_def)
      moreover have "sb1 = sb\<lparr>sb_cc := sb_cc sb + int (length (chain_bytes s m0)),
          sb_mbcnt := sb_mbcnt sb + mbtotal [h]\<rparr>"
        using True h by (simp add: sb1_def sballoc_def m0)
      moreover have "same_data s m0 s [h]" using assms(1,2) True by (simp add: m0 same_data_def)
      ultimately show ?thesis using assms(3) True by (auto simp: m0 eor_at_end_def)
    next
      case ne: False
      then have "M_EOR \<notin> m_flags h" using False by simp
      moreover have "same_data s m0 s (h # t)" using assms(1,2) by (simp add: m0 same_data_def)
      ultimately show ?thesis unfolding eq using fin [of h t] assms(3) by (simp add: m0)
    qed
  qed
qed

section \<open>Appending\<close>

text \<open>A new queue \<open>mb'\<close> that holds what the old one and \<open>m\<close> held, in that order.\<close>

lemma sb_ok_extend:
  assumes "sb_ok s sb" "same_data s (sb_chain sb @ m) s' (concat mb')" "[] \<notin> set mb'"
    and "sizes_ok (concat mb')"
  defines "sb' \<equiv> sb\<lparr>sb_cc := sb_cc sb + int (length (chain_bytes s m)),
      sb_mbcnt := mbtotal (concat mb'), sb_mb := mb'\<rparr>"
  shows "sb_ok s' sb' \<and> sb_bytes s' sb' = sb_bytes s sb @ chain_bytes s m
    \<and> no_leak s (sb_chain sb @ m) s' (sb_chain sb')"
  using assms by (simp add: sb_ok_def sb_bytes_def sb_chain_def same_data_no_leak)

definition appended :: "sockbuf \<Rightarrow> mbuf list \<Rightarrow> mbstate \<Rightarrow> sockbuf \<Rightarrow> mbstate \<Rightarrow> bool" where
  "appended sb m s sb' s' \<longleftrightarrow> sb_ok s' sb' \<and> sb_bytes s' sb' = sb_bytes s sb @ chain_bytes s m
     \<and> no_leak s (sb_chain sb @ m) s' (sb_chain sb') \<and> sb_hiwat sb' = sb_hiwat sb
     \<and> sb_mbmax sb' = sb_mbmax sb \<and> sb_flags sb' = sb_flags sb"

lemma sbappendrecord_spec:
  assumes "sb_ok s sb" "chain_ok s m0" "sizes_ok m0" "m0 \<noteq> []"
  shows "\<exists>r sb' s'. sbappendrecord sb m0 s = Inr (sb', s') \<and> appended sb m0 s sb' s'
    \<and> sb_mb sb' = sb_mb sb @ [r] \<and> sb_records s' sb' = sb_records s sb @ [chain_bytes s m0]
    \<and> eor_at_end r (\<exists>x \<in> set m0. M_EOR \<in> m_flags x)"
proof -
  have ok: "mb_ok s" "chain_ok s (sb_chain sb)" "sizes_ok (sb_chain sb)" "[] \<notin> set (sb_mb sb)"
    "sb_mbcnt sb = mbtotal (sb_chain sb)"
    using assms(1) by (simp_all add: sb_ok_def)
  obtain r s' where r: "sb_newrecord m0 sb s = Inr (r, sb\<lparr>sb_cc := sb_cc sb + int (length (chain_bytes s m0)),
      sb_mbcnt := sb_mbcnt sb + mbtotal r\<rparr>, s')"
    "same_data s m0 s' r" "sizes_ok r" "r \<noteq> []" "eor_at_end r (\<exists>x \<in> set m0. M_EOR \<in> m_flags x)"
    using sb_newrecord_spec [OF ok(1) assms(2-4)] by blast
  define sb' where "sb' = sb\<lparr>sb_cc := sb_cc sb + int (length (chain_bytes s m0)),
      sb_mbcnt := mbtotal (concat (sb_mb sb @ [r])), sb_mb := sb_mb sb @ [r]\<rparr>"
  have sd: "same_data s (sb_chain sb @ m0) s' (concat (sb_mb sb @ [r]))"
    using same_data_prefix [OF r(2) ok(2)] by (simp add: sb_chain_def)
  have c: "[] \<notin> set (sb_mb sb @ [r])" "sizes_ok (concat (sb_mb sb @ [r]))"
    using ok(3,4) r(3,4) by (auto simp: sb_chain_def)
  have A: "sb_ok s' sb'" "sb_bytes s' sb' = sb_bytes s sb @ chain_bytes s m0"
    "no_leak s (sb_chain sb @ m0) s' (sb_chain sb')"
    using sb_ok_extend [OF assms(1) sd c] unfolding sb'_def by simp_all
  have eq: "sb' = sb\<lparr>sb_cc := sb_cc sb + int (length (chain_bytes s m0)),
        sb_mbcnt := sb_mbcnt sb + mbtotal r, sb_mb := sb_mb sb @ [r]\<rparr>"
    using ok(5) by (simp add: sb'_def sb_chain_def)
  have "appended sb m0 s sb' s'" using A by (simp add: appended_def sb'_def)
  moreover have "chain_bytes s' x = chain_bytes s x" for x
    using r(2) clust_cong unfolding same_data_def by metis
  then have "sb_records s' sb' = sb_records s sb @ [chain_bytes s m0]"
    using r(2) by (simp add: sb_records_def sb'_def same_data_def fun_eq_iff)
  moreover have "sbappendrecord sb m0 s = Inr (sb', s')"
    using r(1) assms(4) by (simp add: sbappendrecord_def eq)
  ultimately show ?thesis
    using r(5) by (intro exI [of _ r] exI [of _ sb'] exI [of _ s']) (simp add: sb'_def)
qed

lemma sbappend_spec:
  assumes "sb_ok s sb" "chain_ok s m" "sizes_ok m"
  shows "\<exists>sb' s'. sbappend sb m s = Inr (sb', s') \<and> appended sb m s sb' s'"
proof -
  have ok: "mb_ok s" "chain_ok s (sb_chain sb)" "sizes_ok (sb_chain sb)" "[] \<notin> set (sb_mb sb)"
    "sb_mbcnt sb = mbtotal (sb_chain sb)"
    using assms(1) by (simp_all add: sb_ok_def)
  consider "m = []" | "m \<noteq> []" "sb_mb sb = []"
    | "m \<noteq> []" "sb_mb sb \<noteq> []" "\<exists>x \<in> set (last (sb_mb sb)). M_EOR \<in> m_flags x"
    | "m \<noteq> []" "sb_mb sb \<noteq> []" "\<forall>x \<in> set (last (sb_mb sb)). M_EOR \<notin> m_flags x"
    by blast
  then show ?thesis
  proof cases
    case 1
    then show ?thesis using assms(1) by (simp add: sbappend_def appended_def)
  next
    case 2
    obtain c sb' s' where r: "sbcompress [] m sb s = Inr (c, sb', s')" "compressed [] m sb s c sb' s'"
      using sbcompress_spec [of s "[]" m sb] ok(1) assms(2,3) by auto
    define mb' where "mb' = (if c = [] then [] else [c])"
    have c: "concat mb' = c" "[] \<notin> set mb'" by (simp_all add: mb'_def)
    have sd: "same_data s (sb_chain sb @ m) s' (concat mb')" and sz: "sizes_ok (concat mb')"
      using r(2) 2(2) unfolding c by (simp_all add: compressed_def sb_chain_def)
    have eq: "(if c = [] then sb' else sb'\<lparr>sb_mb := [c]\<rparr>) = sb\<lparr>sb_cc := sb_cc sb + int (length (chain_bytes s m)),
        sb_mbcnt := mbtotal (concat mb'), sb_mb := mb'\<rparr>"
      using r(2) 2(2) ok(5) by (simp add: compressed_def mb'_def sb_chain_def)
    have "sbappend sb m s = Inr (if c = [] then sb' else sb'\<lparr>sb_mb := [c]\<rparr>, s')"
      using 2 r(1) by (simp add: sbappend_def)
    then show ?thesis
      using sb_ok_extend [OF assms(1) sd c(2) sz] unfolding eq by (simp add: appended_def)
  next
    case 3
    then have "sbappend sb m s = sbappendrecord sb m s" by (simp add: sbappend_def)
    then show ?thesis
      using sbappendrecord_spec [OF assms 3(1)] by auto
  next
    case 4
    obtain rs l where mb: "sb_mb sb = rs @ [l]" using 4(2) by (cases "sb_mb sb" rule: rev_cases) auto
    have l: "chain_ok s (l @ m)" "sizes_ok (l @ m)" "l \<noteq> []" "chain_ok s (concat rs)"
      "sizes_ok (concat rs)" "[] \<notin> set rs"
      using ok assms(2,3) by (auto simp: sb_chain_def mb)
    obtain c sb' s' where r: "sbcompress l m sb s = Inr (c, sb', s')" "compressed l m sb s c sb' s'"
      using sbcompress_spec [OF ok(1) l(1,2), of sb] 4(3) by (auto simp: mb)
    have sd: "same_data s (sb_chain sb @ m) s' (concat (rs @ [c]))"
      using same_data_prefix [of s "l @ m" s' c "concat rs"] r(2) l(4)
      by (simp add: compressed_def sb_chain_def mb)
    have c: "[] \<notin> set (rs @ [c])" "sizes_ok (concat (rs @ [c]))"
      using r(2) l(3,5,6) by (auto simp: compressed_def)
    have eq: "sb'\<lparr>sb_mb := rs @ [c]\<rparr> = sb\<lparr>sb_cc := sb_cc sb + int (length (chain_bytes s m)),
        sb_mbcnt := mbtotal (concat (rs @ [c])), sb_mb := rs @ [c]\<rparr>"
      using r(2) ok(5) by (simp add: compressed_def sb_chain_def mb)
    have "sbappend sb m s = Inr (sb'\<lparr>sb_mb := rs @ [c]\<rparr>, s')"
    proof -
      have "sb_mb sb' = rs @ [l]" using r(2) by (simp add: compressed_def mb)
      then show ?thesis using 4 r(1) by (auto simp: sbappend_def mb)
    qed
    then show ?thesis
      using sb_ok_extend [OF assms(1) sd c] unfolding eq by (simp add: appended_def)
  qed
qed

text \<open>C36. \<open>sbappend\<close> adds exactly the bytes of the chain at the end of the stream, whatever it
  compacts, frees and puts into new records, keeps the counters right, and loses nothing.\<close>

theorem sbappend_correct:
  assumes "sb_ok s sb" "chain_ok s m" "sizes_ok m"
  shows "\<exists>sb' s'. sbappend sb m s = Inr (sb', s') \<and> sb_ok s' sb'
    \<and> sb_bytes s' sb' = sb_bytes s sb @ chain_bytes s m
    \<and> no_leak s (sb_chain sb @ m) s' (sb_chain sb')"
  using sbappend_spec [OF assms] unfolding appended_def by blast

text \<open>\<open>sbappendrecord\<close> adds one record with the bytes of the chain, also when the chain is
  empty of data; the record is marked as the end of a record, at its last mbuf only, exactly
  when some mbuf of the chain was marked.\<close>

theorem sbappendrecord_correct:
  assumes "sb_ok s sb" "chain_ok s m0" "sizes_ok m0" "m0 \<noteq> []"
  shows "\<exists>r sb' s'. sbappendrecord sb m0 s = Inr (sb', s') \<and> sb_ok s' sb'
    \<and> sb_mb sb' = sb_mb sb @ [r] \<and> sb_records s' sb' = sb_records s sb @ [chain_bytes s m0]
    \<and> (\<forall>x \<in> set (butlast r). M_EOR \<notin> m_flags x)
    \<and> (M_EOR \<in> m_flags (last r) \<longleftrightarrow> (\<exists>x \<in> set m0. M_EOR \<in> m_flags x))
    \<and> no_leak s (sb_chain sb @ m0) s' (sb_chain sb')"
proof -
  obtain r sb' s' where r: "sbappendrecord sb m0 s = Inr (sb', s')" "appended sb m0 s sb' s'"
    "sb_mb sb' = sb_mb sb @ [r]" "sb_records s' sb' = sb_records s sb @ [chain_bytes s m0]"
    "eor_at_end r (\<exists>x \<in> set m0. M_EOR \<in> m_flags x)"
    using sbappendrecord_spec [OF assms] by blast
  then have "r \<noteq> []" by (auto simp: appended_def sb_ok_def)
  then show ?thesis using r by (auto simp: appended_def eor_at_end_def)
qed

section \<open>Removing\<close>

lemma sbfree_sballoc: "mbchars m = mbchars m' \<Longrightarrow> m_len m = m_len m' \<Longrightarrow> sbfree m (sballoc m' sb) = sb"
  by (simp add: sbfree_def sballoc_def)

text \<open>
  A buffer whose counters describe the queue made of the rest \<open>m\<close> of the first record and
  the records \<open>rs\<close> behind it.
\<close>

definition sb_state :: "mbstate \<Rightarrow> sockbuf \<Rightarrow> mbuf list \<Rightarrow> mbuf list list \<Rightarrow> bool" where
  "sb_state s sb m rs \<longleftrightarrow> mb_ok s \<and> chain_ok s (m @ concat rs) \<and> sizes_ok (m @ concat rs)
     \<and> [] \<notin> set rs \<and> sb_cc sb = int (length (chain_bytes s (m @ concat rs)))
     \<and> sb_mbcnt sb = mbtotal (m @ concat rs)"

text \<open>Freeing the first mbuf.\<close>

lemma sb_state_free:
  assumes "sb_state s sb (m # ms) rs"
  shows "sb_state (m_free m s) (sbfree m sb) ms rs"
    "no_leak s (m # ms @ concat rs) (m_free m s) (ms @ concat rs)"
    "chain_bytes (m_free m s) c = chain_bytes s c"
proof -
  have ok: "mb_ok s" "mbuf_ok s m" using assms by (simp_all add: sb_state_def)
  have m: "int (length (m_bytes s m)) = m_len m" "int (length (m_dat m)) = MLEN"
    using m_bytes_length [OF ok(2)] mbuf_ok_dat [OF ok(2)] by simp_all
  note f = m_free_facts [OF ok(1) m(2)]
  note cong = clust_cong [of "m_free m s" s]
  show "sb_state (m_free m s) (sbfree m sb) ms rs"
    using assms m(1) f(1) cong by (simp add: sb_state_def sbfree_def)
  show "no_leak s (m # ms @ concat rs) (m_free m s) (ms @ concat rs)"
    using f(2,3) by (simp add: no_leak_def)
  show "chain_bytes (m_free m s) c = chain_bytes s c" by (rule cong) simp
qed

text \<open>What \<open>sbdrop\<close> may change besides the queue.\<close>

definition sb_same_limits :: "sockbuf \<Rightarrow> sockbuf \<Rightarrow> bool" where
  "sb_same_limits sb sb' \<longleftrightarrow> sb_hiwat sb' = sb_hiwat sb \<and> sb_mbmax sb' = sb_mbmax sb
     \<and> sb_lowat sb' = sb_lowat sb \<and> sb_flags sb' = sb_flags sb \<and> sb_timeo sb' = sb_timeo sb"

lemma sb_same_limits_simps [simp]:
  "sb_same_limits sb sb" "sb_same_limits (sbfree m sb) sb' = sb_same_limits sb sb'"
  "sb_same_limits sb (sb'\<lparr>sb_cc := x\<rparr>) = sb_same_limits sb sb'"
  "sb_same_limits sb (sb'\<lparr>sb_mb := y\<rparr>) = sb_same_limits sb sb'"
  "sb_same_limits (sb\<lparr>sb_mb := y\<rparr>) sb' = sb_same_limits sb sb'"
  by (simp_all add: sb_same_limits_def sbfree_def)

lemma sbdrop_loop_spec:
  assumes "sb_state s sb m rs" "0 \<le> len"
  shows "(int (length (chain_bytes s (m @ concat rs))) < len \<longrightarrow>
      sbdrop_loop len m rs sb s = Inl (Panic ''sbdrop''))
    \<and> (len \<le> int (length (chain_bytes s (m @ concat rs))) \<longrightarrow>
      (\<exists>m' rs' sb' s'. sbdrop_loop len m rs sb s = Inr (m', rs', sb', s') \<and> sb_state s' sb' m' rs'
        \<and> chain_bytes s' (m' @ concat rs') = drop (nat len) (chain_bytes s (m @ concat rs))
        \<and> no_leak s (m @ concat rs) s' (m' @ concat rs') \<and> sb_same_limits sb sb'
        \<and> length (m' @ concat rs') \<le> length (m @ concat rs)
        \<and> (len = 0 \<longrightarrow> m' = m)
        \<and> (0 < len \<and> len = int (length (chain_bytes s (m @ concat rs))) \<longrightarrow>
             length (m' @ concat rs') < length (m @ concat rs))))"
  using assms
proof (induction len m rs sb s rule: sbdrop_loop.induct)
  case (1 len sb s)
  then show ?case by (cases "0 < len") auto
next
  case (2 len r rs sb s)
  show ?case
  proof (cases "0 < len")
    case True
    have "sb_state s sb r rs" using "2.prems"(1) by (auto simp: sb_state_def)
    then show ?thesis using "2.IH" [OF True] "2.prems"(2) True by auto
  next
    case False
    then show ?thesis using "2.prems" by auto
  qed
next
  case (3 len m ms rs sb s)
  have ok: "mb_ok s" "mbuf_ok s m" "chain_ok s (ms @ concat rs)"
    using "3.prems"(1) by (simp_all add: sb_state_def)
  have m: "int (length (m_bytes s m)) = m_len m" "0 \<le> m_len m"
    using m_bytes_length [OF ok(2)] ok(2) by (simp_all add: mbuf_ok_def)
  consider "len = 0" | "0 < len" "len < m_len m" | "0 < len" "m_len m \<le> len"
    using "3.prems"(2) by linarith
  then show ?case
  proof cases
    case 1
    then show ?thesis using "3.prems"(1) by auto
  next
    case 2
    define m' where "m' = m\<lparr>m_len := m_len m - len, m_data := m_data m + len\<rparr>"
    have m': "mbuf_ok s m'" "m_bytes s m' = drop (nat len) (m_bytes s m)"
      "mbchars m' = mbchars m" "ext_size m' = ext_size m" "m_flags m' = m_flags m"
      using m_bytes_trim_head [OF ok(2), of len] 2 by (simp_all add: m'_def)
    have n: "nat len \<le> length (m_bytes s m)" using 2 m by linarith
    have "sb_state s (sb\<lparr>sb_cc := sb_cc sb - len\<rparr>) (m' # ms) rs"
      using "3.prems"(1) m' n m 2 by (simp add: sb_state_def)
    moreover have "no_leak s (m # ms @ concat rs) s (m' # ms @ concat rs)"
      by (simp add: no_leak_def unaccounted_def m'_def)
    ultimately show ?thesis
      using 2 m m' n by (simp add: m'_def)
  next
    case 3
    note F = sb_state_free [OF "3.prems"(1)]
    have n: "nat (len - m_len m) = nat len - length (m_bytes s m)" "length (m_bytes s m) \<le> nat len"
      using m 3 by linarith+
    have eq: "sbdrop_loop len (m # ms) rs sb s = sbdrop_loop (len - m_len m) ms rs (sbfree m sb) (m_free m s)"
      using 3 by simp
    have IH: "(int (length (chain_bytes s (ms @ concat rs))) < len - m_len m \<longrightarrow>
      sbdrop_loop len (m # ms) rs sb s = Inl (Panic ''sbdrop''))
    \<and> (len - m_len m \<le> int (length (chain_bytes s (ms @ concat rs))) \<longrightarrow>
      (\<exists>m' rs' sb' s'. sbdrop_loop len (m # ms) rs sb s = Inr (m', rs', sb', s') \<and> sb_state s' sb' m' rs'
        \<and> chain_bytes s' (m' @ concat rs') = drop (nat (len - m_len m)) (chain_bytes s (ms @ concat rs))
        \<and> no_leak (m_free m s) (ms @ concat rs) s' (m' @ concat rs') \<and> sb_same_limits sb sb'
        \<and> length (m' @ concat rs') \<le> length (ms @ concat rs)))"
      using "3.IH" [OF 3(1) _ F(1)] 3 unfolding eq F(3) by auto
    show ?thesis
    proof (cases "len \<le> int (length (chain_bytes s ((m # ms) @ concat rs)))")
      case True
      then obtain m' rs' sb' s' where r: "sbdrop_loop len (m # ms) rs sb s = Inr (m', rs', sb', s')"
        "sb_state s' sb' m' rs'"
        "chain_bytes s' (m' @ concat rs') = drop (nat (len - m_len m)) (chain_bytes s (ms @ concat rs))"
        "no_leak (m_free m s) (ms @ concat rs) s' (m' @ concat rs')" "sb_same_limits sb sb'"
        "length (m' @ concat rs') \<le> length (ms @ concat rs)"
        using IH m by auto
      have "no_leak s ((m # ms) @ concat rs) s' (m' @ concat rs')"
        using no_leak_trans [OF F(2) r(4)] by simp
      moreover have "chain_bytes s' (m' @ concat rs') = drop (nat len) (chain_bytes s ((m # ms) @ concat rs))"
        unfolding r(3) using n by simp
      ultimately show ?thesis using r(1,2,5,6) True 3(1) by auto
    next
      case False
      then show ?thesis using IH m by auto
    qed
  qed
qed

lemma sbdrop_empty_spec:
  assumes "sb_state s sb m rs" "sbdrop_empty m sb s = (m', sb', s')"
  shows "sb_state s' sb' m' rs \<and> chain_bytes s' (m' @ concat rs) = chain_bytes s (m @ concat rs)
    \<and> no_leak s (m @ concat rs) s' (m' @ concat rs) \<and> sb_same_limits sb sb'
    \<and> length m' \<le> length m \<and> (m \<noteq> [] \<and> m_len (hd m) = 0 \<longrightarrow> length m' < length m)"
  using assms
proof (induction m sb s rule: sbdrop_empty.induct)
  case (1 sb s)
  then show ?case by simp
next
  case (2 m ms sb s)
  show ?case
  proof (cases "m_len m = 0")
    case True
    note F = sb_state_free [OF "2.prems"(1)]
    have "int (length (m_bytes s m)) = m_len m"
      using "2.prems"(1) m_bytes_length by (simp add: sb_state_def)
    then have "m_bytes s m = []" using True by simp
    then show ?thesis
      using "2.IH" [OF True F(1)] "2.prems"(2) True F(3) no_leak_trans [OF F(2)] by auto
  next
    case False
    then show ?thesis using "2.prems" by auto
  qed
qed

lemma sb_state_start:
  assumes "sb_ok s sb"
  defines "d \<equiv> (case sb_mb sb of [] \<Rightarrow> ([], []) | r # rs \<Rightarrow> (r, rs))"
  shows "sb_state s sb (fst d) (snd d)" "fst d @ concat (snd d) = sb_chain sb"
  using assms by (auto simp: sb_ok_def sb_state_def sb_chain_def sb_bytes_def split: list.splits)

lemma sb_state_end:
  assumes "sb_state s sb m rs"
  defines "sb' \<equiv> sb\<lparr>sb_mb := (if m = [] then rs else m # rs)\<rparr>"
  shows "sb_ok s sb'" "sb_chain sb' = m @ concat rs"
  using assms by (auto simp: sb_ok_def sb_state_def sb_chain_def sb_bytes_def)

lemma sbdrop_spec:
  assumes "sb_ok s sb" "0 \<le> len"
  shows "(sb_cc sb < len \<longrightarrow> sbdrop sb len s = Inl (Panic ''sbdrop''))
    \<and> (len \<le> sb_cc sb \<longrightarrow> (\<exists>sb' s'. sbdrop sb len s = Inr (sb', s') \<and> sb_ok s' sb'
        \<and> sb_bytes s' sb' = drop (nat len) (sb_bytes s sb) \<and> no_leak s (sb_chain sb) s' (sb_chain sb')
        \<and> sb_same_limits sb sb'
        \<and> (len = sb_cc sb \<and> sb_chain sb \<noteq> [] \<longrightarrow> length (sb_chain sb') < length (sb_chain sb))))"
proof -
  obtain m rs where d: "(case sb_mb sb of [] \<Rightarrow> ([], []) | r # rs \<Rightarrow> (r, rs)) = (m, rs)" by fastforce
  note S = sb_state_start [OF assms(1), unfolded d fst_conv snd_conv]
  have cc: "sb_cc sb = int (length (chain_bytes s (m @ concat rs)))"
    using S(1) by (simp add: sb_state_def)
  note L = sbdrop_loop_spec [OF S(1) assms(2)]
  show ?thesis
  proof (cases "len \<le> sb_cc sb")
    case False
    then show ?thesis using L cc d by (simp add: sbdrop_def)
  next
    case True
    then obtain m1 rs1 sb1 s1 where r: "sbdrop_loop len m rs sb s = Inr (m1, rs1, sb1, s1)"
      "sb_state s1 sb1 m1 rs1"
      "chain_bytes s1 (m1 @ concat rs1) = drop (nat len) (chain_bytes s (m @ concat rs))"
      "no_leak s (m @ concat rs) s1 (m1 @ concat rs1)" "sb_same_limits sb sb1" "len = 0 \<longrightarrow> m1 = m"
      "length (m1 @ concat rs1) \<le> length (m @ concat rs)"
      "0 < len \<and> len = sb_cc sb \<longrightarrow> length (m1 @ concat rs1) < length (m @ concat rs)"
      using L cc by auto
    obtain m2 sb2 s2 where e: "sbdrop_empty m1 sb1 s1 = (m2, sb2, s2)" by (cases "sbdrop_empty m1 sb1 s1") auto
    note E = sbdrop_empty_spec [OF r(2) e]
    define sb' where "sb' = sb2\<lparr>sb_mb := (if m2 = [] then rs1 else m2 # rs1)\<rparr>"
    have F: "sb_ok s2 sb'" "sb_chain sb' = m2 @ concat rs1"
      unfolding sb'_def using sb_state_end E by blast+
    have eq: "sbdrop sb len s = Inr (sb', s2)"
      using d r(1) e by (simp add: sbdrop_def sb'_def)
    have bytes: "sb_bytes s2 sb' = drop (nat len) (sb_bytes s sb)"
      using E r(3) by (simp add: sb_bytes_def F(2) S(2) [symmetric])
    have leak: "no_leak s (sb_chain sb) s2 (sb_chain sb')"
      using no_leak_trans [OF r(4)] E by (simp add: F(2) S(2) [symmetric])
    have lim: "sb_same_limits sb sb'" using r(5) E by (simp add: sb'_def sb_same_limits_def)
    have less: "length (sb_chain sb') < length (sb_chain sb)"
      if all: "len = sb_cc sb" and ne: "sb_chain sb \<noteq> []"
    proof (cases "0 < len")
      case True
      then show ?thesis using r(8) all E by (simp add: F(2) S(2) [symmetric])
    next
      case False
      then have m1: "m1 = m" using r(6) assms(2) by simp
      have "m \<noteq> []" using ne d assms(1) by (auto simp: sb_ok_def sb_chain_def split: list.splits)
      then obtain x xs where x: "m1 = x # xs" using m1 by (cases m) auto
      have "chain_bytes s1 (m1 @ concat rs1) = []" using r(3) all cc by simp
      moreover have "int (length (m_bytes s1 x)) = m_len x"
        using r(2) m_bytes_length by (simp add: sb_state_def x)
      ultimately have "m_len (hd m1) = 0" by (simp add: x)
      then have "length m2 < length m1" using E x by simp
      then show ?thesis using r(7) by (simp add: F(2) S(2) [symmetric])
    qed
    show ?thesis using eq F(1) bytes leak lim less True by auto
  qed
qed

text \<open>C13. \<open>sbdrop\<close> removes exactly the first \<open>len\<close> bytes of the stream, over record
  boundaries, and panics exactly when there are fewer.\<close>

theorem sbdrop_correct:
  assumes "sb_ok s sb" "0 \<le> len"
  shows "if len \<le> sb_cc sb
    then \<exists>sb' s'. sbdrop sb len s = Inr (sb', s') \<and> sb_ok s' sb'
      \<and> sb_bytes s' sb' = drop (nat len) (sb_bytes s sb) \<and> no_leak s (sb_chain sb) s' (sb_chain sb')
    else sbdrop sb len s = Inl (Panic ''sbdrop'')"
  using sbdrop_spec [OF assms] by auto

lemma sbflush_loop_spec:
  assumes "sb_ok s sb" "length (sb_chain sb) < k"
  shows "\<exists>sb' s'. sbflush_loop k sb s = Inr (sb', s') \<and> sb_ok s' sb' \<and> sb_chain sb' = []
    \<and> no_leak s (sb_chain sb) s' (sb_chain sb') \<and> sb_same_limits sb sb'"
  using assms
proof (induction k arbitrary: sb s)
  case (Suc k)
  have ok: "sizes_ok (sb_chain sb)" "sb_mbcnt sb = mbtotal (sb_chain sb)"
    "sb_cc sb = int (length (sb_bytes s sb))"
    using Suc.prems(1) by (simp_all add: sb_ok_def)
  have pos: "0 \<le> mbtotal c \<and> (c \<noteq> [] \<longrightarrow> 0 < mbtotal c)" if "sizes_ok c" for c
    using that by (induction c) (auto simp: mbchars_def MSIZE_def)
  show ?case
  proof (cases "sb_chain sb = []")
    case True
    then have "sb_mbcnt sb = 0" using ok(2) by simp
    then have "sbflush_loop (Suc k) sb s = Inr (sb, s)" by simp
    then show ?thesis using Suc.prems(1) True by auto
  next
    case False
    then have nz: "sb_mbcnt sb \<noteq> 0" using pos [OF ok(1)] ok(2) by simp
    obtain sb1 s1 where d: "sbdrop sb (sb_cc sb) s = Inr (sb1, s1)" "sb_ok s1 sb1"
      "no_leak s (sb_chain sb) s1 (sb_chain sb1)" "sb_same_limits sb sb1"
      "length (sb_chain sb1) < length (sb_chain sb)"
      using sbdrop_spec [OF Suc.prems(1), of "sb_cc sb"] ok(3) False by auto
    have "length (sb_chain sb1) < k" using d(5) Suc.prems(2) by simp
    from Suc.IH [OF d(2) this] obtain sb2 s2 where r: "sbflush_loop k sb1 s1 = Inr (sb2, s2)"
      "sb_ok s2 sb2" "sb_chain sb2 = []" "no_leak s1 (sb_chain sb1) s2 (sb_chain sb2)"
      "sb_same_limits sb1 sb2"
      by blast
    moreover have "sb_same_limits sb sb2" using d(4) r(5) by (simp add: sb_same_limits_def)
    ultimately show ?thesis using nz d(1) no_leak_trans [OF d(3)] by auto
  qed
qed simp

text \<open>\<open>sbflush\<close> on an unlocked buffer ends, empties it and gives every mbuf and
  cluster reference back; it does not reach its second panic.\<close>

theorem sbflush_empties:
  assumes "sb_ok s sb" "SB_LOCK \<notin> sb_flags sb"
  shows "\<exists>sb' s'. sbflush sb s = Inr (sb', s') \<and> sb_mb sb' = [] \<and> sb_cc sb' = 0 \<and> sb_mbcnt sb' = 0
    \<and> unaccounted s' [] = unaccounted s (sb_chain sb)
    \<and> mb_avail s' = mb_avail s + int (length (sb_chain sb))"
proof -
  obtain sb' s' where r: "sbflush_loop (Suc (length (concat (sb_mb sb)))) sb s = Inr (sb', s')"
    "sb_ok s' sb'" "sb_chain sb' = []" "no_leak s (sb_chain sb) s' (sb_chain sb')"
    using sbflush_loop_spec [OF assms(1), of "Suc (length (concat (sb_mb sb)))"]
    by (auto simp: sb_chain_def)
  have mb: "sb_mb sb' = []"
    using r(2,3) by (cases "sb_mb sb'") (auto simp: sb_ok_def sb_chain_def)
  have "sb_cc sb' = 0" "sb_mbcnt sb' = 0" using r(2,3) by (simp_all add: sb_ok_def sb_bytes_def)
  then show ?thesis
    using r(1,3,4) mb assms(2) by (simp add: sbflush_def no_leak_def)
qed

lemma sbdrop_record_spec:
  assumes "sb_state s sb r rs"
  shows "case sbdrop_record r sb s of (sb', s') \<Rightarrow> sb_state s' sb' [] rs \<and> sb_mb sb' = sb_mb sb
    \<and> (\<forall>c. chain_bytes s' c = chain_bytes s c) \<and> no_leak s (r @ concat rs) s' (concat rs)"
  using assms
proof (induction r sb s rule: sbdrop_record.induct)
  case (2 m ms sb s)
  note F = sb_state_free [OF "2.prems"]
  obtain sb' s' where e: "sbdrop_record ms (sbfree m sb) (m_free m s) = (sb', s')" by fastforce
  show ?case
    using "2.IH" [OF F(1)] F(3) no_leak_trans [OF F(2)] e by (auto simp: sbfree_def)
qed simp

text \<open>\<open>sbdroprecord\<close> removes the first record.\<close>

lemma sbdroprecord_spec:
  assumes "sb_ok s sb"
  shows "case sbdroprecord sb s of (sb', s') \<Rightarrow> sb_ok s' sb' \<and> sb_records s' sb' = tl (sb_records s sb)
    \<and> no_leak s (sb_chain sb) s' (sb_chain sb')"
proof (cases "sb_mb sb")
  case Nil
  then show ?thesis using assms by (simp add: sbdroprecord_def sb_records_def)
next
  case (Cons r rs)
  have S: "sb_state s (sb\<lparr>sb_mb := rs\<rparr>) r rs"
    using assms by (auto simp: sb_ok_def sb_state_def sb_chain_def sb_bytes_def Cons)
  obtain sb' s' where e: "sbdrop_record r (sb\<lparr>sb_mb := rs\<rparr>) s = (sb', s')" by fastforce
  have R: "sb_state s' sb' [] rs" "sb_mb sb' = rs" "\<forall>c. chain_bytes s' c = chain_bytes s c"
    "no_leak s (r @ concat rs) s' (concat rs)"
    using sbdrop_record_spec [OF S] e by auto
  have "sb_ok s' sb'"
    using R(1,2) by (simp add: sb_ok_def sb_state_def sb_chain_def sb_bytes_def)
  then show ?thesis
    using e R by (simp add: sbdroprecord_def Cons sb_records_def sb_chain_def)
qed

section \<open>Out-of-band data\<close>

text \<open>\<open>sbinsertoob\<close> puts one record behind the out-of-band records at the head of the
  queue and in front of all others, and leaves these as they are.\<close>

theorem sbinsertoob_correct:
  assumes "sb_ok s sb" "chain_ok s m0" "sizes_ok m0" "m0 \<noteq> []"
  shows "\<exists>r sb' s'. sbinsertoob sb m0 s = Inr (sb', s') \<and> sb_ok s' sb'
    \<and> sb_mb sb' = takeWhile sb_skiprecord (sb_mb sb) @ r # dropWhile sb_skiprecord (sb_mb sb)
    \<and> chain_bytes s' r = chain_bytes s m0 \<and> mb_clust s' = mb_clust s
    \<and> no_leak s (sb_chain sb @ m0) s' (sb_chain sb')"
proof -
  define p q where "p = takeWhile sb_skiprecord (sb_mb sb)" and "q = dropWhile sb_skiprecord (sb_mb sb)"
  have pq: "sb_mb sb = p @ q" by (simp add: p_def q_def)
  have ok: "mb_ok s" "chain_ok s (concat p)" "chain_ok s (concat q)" "sizes_ok (concat p)"
    "sizes_ok (concat q)" "[] \<notin> set p" "[] \<notin> set q"
    "sb_cc sb = int (length (chain_bytes s (concat p @ concat q)))"
    "sb_mbcnt sb = mbtotal (concat p @ concat q)"
    using assms(1) by (auto simp: sb_ok_def sb_chain_def sb_bytes_def pq)
  obtain r s' where r: "sb_newrecord m0 sb s = Inr (r, sb\<lparr>sb_cc := sb_cc sb + int (length (chain_bytes s m0)),
      sb_mbcnt := sb_mbcnt sb + mbtotal r\<rparr>, s')"
    "same_data s m0 s' r" "sizes_ok r" "r \<noteq> []"
    using sb_newrecord_spec [OF ok(1) assms(2-4)] by blast
  define sb' where "sb' = sb\<lparr>sb_cc := sb_cc sb + int (length (chain_bytes s m0)),
      sb_mbcnt := sb_mbcnt sb + mbtotal r, sb_mb := p @ r # q\<rparr>"
  have R: "mb_ok s'" "chain_ok s' r" "mb_clust s' = mb_clust s" "chain_bytes s' r = chain_bytes s m0"
    "no_leak s m0 s' r"
    using r(2) by (auto simp: same_data_no_leak no_leak_def)
  note cong = clust_cong [OF R(3)]
  have "sb_ok s' sb'"
    using ok R r(3,4) cong by (auto simp: sb_ok_def sb_chain_def sb_bytes_def sb'_def)
  moreover have "no_leak s (sb_chain sb @ m0) s' (sb_chain sb')"
    by (rule no_leak_context [OF R(5), of _ "concat p" "concat q"])
      (simp_all add: sb_chain_def pq sb'_def)
  moreover have "sbinsertoob sb m0 s = Inr (sb', s')"
    using r(1) assms(4) by (simp add: sbinsertoob_def sb'_def p_def q_def)
  ultimately show ?thesis
    using R(3,4) by (intro exI [of _ r] exI [of _ sb'] exI [of _ s'])
      (simp add: sb'_def p_def q_def)
qed

section \<open>Addresses and control data\<close>

lemma fold_sballoc:
  assumes "chain_ok s r"
  shows "fold sballoc r sb = sb\<lparr>sb_cc := sb_cc sb + int (length (chain_bytes s r)),
    sb_mbcnt := sb_mbcnt sb + mbtotal r\<rparr>"
  using assms
proof (induction r arbitrary: sb)
  case (Cons m r)
  have "int (length (m_bytes s m)) = m_len m" using Cons.prems m_bytes_length by simp
  then show ?case using Cons by (simp add: sballoc_def)
qed simp

lemma fold_sballoc_mb [simp]: "sb_mb (fold sballoc r sb) = sb_mb sb"
  by (induction r arbitrary: sb) (simp_all add: sballoc_def)

lemma sb_ok_attach:
  assumes "sb_ok s sb" "chain_ok s r" "sizes_ok r" "r \<noteq> []" "mb_ok s'" "mb_clust s' = mb_clust s"
  defines "sb' \<equiv> (fold sballoc r sb)\<lparr>sb_mb := sb_mb sb @ [r]\<rparr>"
  shows "sb_ok s' sb'" "sb_cc sb' = sb_cc sb + int (length (chain_bytes s r))"
    "sb_chain sb' = sb_chain sb @ r"
proof -
  have "fold sballoc r sb = sb\<lparr>sb_cc := sb_cc sb + int (length (chain_bytes s r)),
    sb_mbcnt := sb_mbcnt sb + mbtotal r\<rparr>"
    by (rule fold_sballoc [OF assms(2)])
  then show "sb_ok s' sb'" "sb_cc sb' = sb_cc sb + int (length (chain_bytes s r))"
    "sb_chain sb' = sb_chain sb @ r"
    using assms(1-5) clust_cong [OF assms(6)]
    by (auto simp: sb'_def sb_ok_def sb_chain_def sb_bytes_def)
qed

lemma chain_len_sum: "chain_ok s c \<Longrightarrow> (\<Sum>m\<leftarrow>c. m_len m) = int (length (chain_bytes s c))"
  using mb.flat_length [of c s] by (simp add: flat_chain_bytes)

text \<open>\<open>sbappendaddr\<close> either changes nothing, or appends one record: a name mbuf with
  exactly the bytes of the address, then the control chain, then the data, all of them kept.
  When the packet header has the right length, the buffer does not grow over its limit.\<close>

theorem sbappendaddr_correct:
  assumes "sb_ok s sb" "chain_ok s (control @ m0)" "sizes_ok (control @ m0)"
    and "m0 \<noteq> [] \<longrightarrow> M_PKTHDR \<in> m_flags (hd m0)" "asa \<noteq> []" "sa_len asa \<le> int (length asa)"
  shows "\<exists>ok sb' s'. sbappendaddr sb asa m0 control s = Inr (ok, sb', s') \<and>
    (if ok
     then sb_ok s' sb' \<and> no_leak s (sb_chain sb @ control @ m0) s' (sb_chain sb')
       \<and> (\<exists>h. sb_mb sb' = sb_mb sb @ [h # control @ m0] \<and> m_type h = MT_SONAME
            \<and> m_bytes s' h = take (nat (sa_len asa)) asa)
       \<and> ((m0 \<noteq> [] \<longrightarrow> pkt_consistent s m0) \<and> sb_hiwat sb < 2 ^ 31 \<and> 0 \<le> sb_hiwat sb \<and> sb_cc sb < 2 ^ 31
            \<longrightarrow> sb_cc sb' \<le> sb_hiwat sb)
     else sb' = sb \<and> s' = s)"
proof -
  define space where "space = sa_len asa + (if m0 = [] then 0 else pkt_len (hd m0)) + (\<Sum>n\<leftarrow>control. m_len n)"
  have ok: "mb_ok s" "sb_cc sb = int (length (sb_bytes s sb))" using assms(1) by (simp_all add: sb_ok_def)
  have sa: "0 \<le> sa_len asa" by (simp add: sa_len_def split: list.splits)
  obtain n s1 where get: "MGET M_DONTWAIT MT_SONAME s = Inr (n, s1)" using MGET_DONTWAIT by blast
  note G = MGET_cases [OF ok(1) get]
  have hdr: "\<not> (m0 \<noteq> [] \<and> M_PKTHDR \<notin> m_flags (hd m0))" using assms(4) by blast
  show ?thesis
  proof (cases "sbspace sb < space \<or> MLEN < sa_len asa \<or> n = None")
    case True
    then have "sbappendaddr sb asa m0 control s = Inr (False, sb, s)"
      using hdr get G by (auto simp: sbappendaddr_def Let_def space_def [symmetric])
    then show ?thesis by (intro exI [of _ False]) simp
  next
    case False
    then obtain m where n: "n = Some m" by auto
    have m: "mb_ok s1" "mb_clust s1 = mb_clust s" "mclrefcnt s1 = mclrefcnt s"
      "int (length (m_dat m)) = MLEN" "m_data m = 0" "m_flags m = {}" "m_type m = MT_SONAME"
      "mb_avail s = mb_avail s1 + 1"
      using G n by auto
    obtain d where d: "bcopy asa 0 (m_dat m) 0 (sa_len asa) = Inr d"
      using False sa assms(6) m(4) by (auto simp: bcopy_def)
    define h where "h = m\<lparr>m_len := sa_len asa, m_dat := d\<rparr>"
    define r sb' where "r = h # control @ m0" and "sb' = (fold sballoc r sb)\<lparr>sb_mb := sb_mb sb @ [r]\<rparr>"
    have eq: "sbappendaddr sb asa m0 control s = Inr (True, sb', s1)"
      using hdr get n False d m(5)
      by (simp add: sbappendaddr_def Let_def space_def [symmetric] h_def r_def sb'_def)
    have h: "mbuf_ok s h" "m_bytes s h = take (nat (sa_len asa)) asa" "M_EXT \<notin> m_flags h"
      "m_type h = MT_SONAME"
      using bcopy_window [OF d] bcopy_length [OF d] m sa False
      by (simp_all add: h_def mbuf_ok_def m_bytes_def m_storage_def window_def)
    have rok: "chain_ok s r" "sizes_ok r" "r \<noteq> []" using h assms(2,3) by (auto simp: r_def)
    note A = sb_ok_attach [OF assms(1) rok m(1,2), folded sb'_def]
    have leak: "no_leak s (sb_chain sb @ control @ m0) s1 (sb_chain sb')"
      using m(2,3,8) h(3) by (simp add: A(3) r_def no_leak_def unaccounted_def fun_eq_iff)
    have mb: "sb_mb sb' = sb_mb sb @ [h # control @ m0]" by (simp add: sb'_def r_def)
    have limit: "sb_cc sb' \<le> sb_hiwat sb"
      if "m0 \<noteq> [] \<longrightarrow> pkt_consistent s m0" "sb_hiwat sb < 2 ^ 31" "0 \<le> sb_hiwat sb" "sb_cc sb < 2 ^ 31"
    proof -
      have "0 \<le> sb_cc sb" using ok(2) by simp
      then have "s_int (sb_hiwat sb - sb_cc sb) = sb_hiwat sb - sb_cc sb" using that(2-4) by simp
      then have "space \<le> sb_hiwat sb - sb_cc sb" using False by (auto simp: sbspace_def min_def split: if_splits)
      moreover have "space = int (length (chain_bytes s r))"
        using that(1) chain_len_sum [of control s] assms(2,6) h(2) sa
        by (auto simp: space_def r_def pkt_consistent_def)
      ultimately show ?thesis by (simp add: A(2))
    qed
    have "m_bytes s1 h = take (nat (sa_len asa)) asa" using h(2) clust_cong [OF m(2)] by simp
    then show ?thesis
      using eq A(1) leak mb h(4) limit by (intro exI [of _ True] exI [of _ sb'] exI [of _ s1]) auto
  qed
qed

section \<open>Locking\<close>

text \<open>\<open>sblock\<close> reports success also when it did not get the lock: for a caller that may
  not wait on a locked buffer it changes nothing and returns 0 instead of the error.\<close>

theorem sblock_nowait_succeeds:
  assumes "SB_LOCK \<in> sb_flags sb"
  shows "sblock sb M_DONTWAIT ws = Inr (sb, None)
    \<and> (\<forall>e. sblock sb M_WAIT (Inl e # ws) = Inr (sb\<lparr>sb_flags := sb_flags sb \<union> {SB_WANT}\<rparr>, None))"
  using assms by (simp add: sblock_def)

section \<open>Concrete buffers\<close>

definition ex_sockbuf :: sockbuf where
  "ex_sockbuf = \<lparr>sb_cc = 14, sb_hiwat = 100, sb_mbcnt = 256, sb_mbmax = 2000, sb_lowat = 1,
     sb_mb = [ex_chain], sb_flags = {}, sb_timeo = 0\<rparr>"

lemma ex_sockbuf_facts:
  "sb_ok ex_mbstate ex_sockbuf" "sb_bytes ex_mbstate ex_sockbuf = replicate 4 7 @ replicate 10 9"
  "sb_chain ex_sockbuf = ex_chain" "sizes_ok ex_chain" "SB_LOCK \<notin> sb_flags ex_sockbuf"
  using ex_chain_facts
  by (simp_all add: sb_ok_def sb_bytes_def sb_chain_def ex_sockbuf_def)
    (simp_all add: ex_chain_def ex_mbuf_def mbchars_def MSIZE_def)

lemma sbappend_correct_witness:
  "\<exists>sb' s'. sbappend ex_sockbuf ex_chain ex_mbstate = Inr (sb', s')
    \<and> length (sb_bytes s' sb') = 28"
  using sbappend_correct [OF ex_sockbuf_facts(1) ex_chain_facts(1) ex_sockbuf_facts(4)]
    ex_chain_facts(5) ex_sockbuf_facts(2)
  by auto

lemma sbappendrecord_correct_witness:
  "\<exists>sb' s'. sbappendrecord ex_sockbuf ex_chain ex_mbstate = Inr (sb', s')
    \<and> length (sb_records s' sb') = 2"
proof -
  have "length (sb_records ex_mbstate ex_sockbuf) = 1" by (simp add: sb_records_def ex_sockbuf_def)
  then show ?thesis
    using sbappendrecord_correct [OF ex_sockbuf_facts(1) ex_chain_facts(1) ex_sockbuf_facts(4) ex_chain_facts(3)]
    by auto
qed

lemma sbdrop_correct_witness:
  "(\<exists>sb' s'. sbdrop ex_sockbuf 6 ex_mbstate = Inr (sb', s') \<and> sb_bytes s' sb' = replicate 8 9)
    \<and> sbdrop ex_sockbuf 15 ex_mbstate = Inl (Panic ''sbdrop'')"
proof -
  have cc: "sb_cc ex_sockbuf = 14" by (simp add: ex_sockbuf_def)
  have "drop 6 (replicate 4 7 @ replicate 10 9) = (replicate 8 9 :: byte list)" by simp
  then show ?thesis
    using sbdrop_correct [OF ex_sockbuf_facts(1), of 6] sbdrop_correct [OF ex_sockbuf_facts(1), of 15]
      ex_sockbuf_facts(2) cc
    by (auto simp del: drop_append)
qed

lemma sbflush_empties_witness:
  "\<exists>sb' s'. sbflush ex_sockbuf ex_mbstate = Inr (sb', s') \<and> sb_mb sb' = []"
  using sbflush_empties [OF ex_sockbuf_facts(1,5)] by blast

lemma sbinsertoob_correct_witness:
  "\<exists>r sb' s'. sbinsertoob ex_sockbuf ex_chain ex_mbstate = Inr (sb', s') \<and> sb_mb sb' = [r, ex_chain]"
  using sbinsertoob_correct [OF ex_sockbuf_facts(1) ex_chain_facts(1) ex_sockbuf_facts(4) ex_chain_facts(3)]
  by (fastforce simp: ex_sockbuf_def ex_chain_def ex_mbuf_def)

lemma sbappendaddr_correct_witness:
  "\<exists>ok sb' s'. sbappendaddr ex_sockbuf [4, 1, 2, 3] ex_chain [] ex_mbstate = Inr (ok, sb', s')
    \<and> sb_cc sb' \<le> 100"
proof -
  have a: "m_flags (hd ex_chain) = {M_PKTHDR}" "sa_len [4, 1, 2, 3] = 4"
    by (simp_all add: ex_chain_def ex_mbuf_def sa_len_def)
  have h: "sb_hiwat ex_sockbuf = 100" "sb_cc ex_sockbuf = 14" by (simp_all add: ex_sockbuf_def)
  obtain ok sb' s' where r: "sbappendaddr ex_sockbuf [4, 1, 2, 3] ex_chain [] ex_mbstate = Inr (ok, sb', s')"
    "if ok then sb_cc sb' \<le> sb_hiwat ex_sockbuf else sb' = ex_sockbuf"
    using sbappendaddr_correct [OF ex_sockbuf_facts(1), of "[]" ex_chain "[4, 1, 2, 3]"]
      ex_chain_facts(1,6) ex_sockbuf_facts(4) a h
    by (auto split: if_splits)
  then show ?thesis using h by (cases ok) auto
qed

lemma sblock_nowait_succeeds_witness:
  "sblock (ex_sockbuf\<lparr>sb_flags := {SB_LOCK}\<rparr>) M_DONTWAIT [] = Inr (ex_sockbuf\<lparr>sb_flags := {SB_LOCK}\<rparr>, None)"
  using sblock_nowait_succeeds [of "ex_sockbuf\<lparr>sb_flags := {SB_LOCK}\<rparr>" "[]"] by simp

end
