(* ===== verification/Sockq.thy ===== *)
theory Sockq
  imports Sockbuf_Laws
begin

text \<open>
  Sockets waiting to be accepted: \<open>struct socket\<close> in \<open>sys/sys/socketvar.h\<close> and the first
  part of \<open>sys/kern/uipc_socket2.c\<close>. Sockets live in a store indexed by their addresses;
  \<open>so_q0\<close> and \<open>so_q\<close> are the links of the two queues of a listening socket and at the
  same time, in the listening socket itself, their heads. The loops over the links are partial
  functions; the lemmas show that they end on well-formed queues. Wakeups, signals and upcalls
  are recorded as events; a process group or process is a parameter.
\<close>

section \<open>Data\<close>

datatype sostate =
  SS_NOFDREF | SS_ISCONNECTED | SS_ISCONNECTING | SS_ISDISCONNECTING | SS_CANTSENDMORE
| SS_CANTRCVMORE | SS_RCVATMARK | SS_PRIV | SS_NBIO | SS_ASYNC | SS_ISCONFIRMING

datatype sobuf = Rcv | Snd

datatype sooption =
  SO_DEBUG | SO_ACCEPTCONN | SO_REUSEADDR | SO_KEEPALIVE | SO_DONTROUTE | SO_BROADCAST | SO_USELOOPBACK
| SO_LINGER | SO_OOBINLINE | SO_REUSEPORT

record socket =
  so_type :: int
  so_options :: "sooption set"
  so_linger :: int
  so_state :: "sostate set"
  so_proto :: nat
  so_head :: "nat option"
  so_q0 :: "nat option"
  so_q :: "nat option"
  so_q0len :: int
  so_qlen :: int
  so_qlimit :: int
  so_timeo :: int
  so_pgid :: int
  so_rcv :: sockbuf
  so_snd :: sockbuf
  so_upcall :: bool

datatype soevent =
  Selwakeup nat sobuf | WakeupBuf nat sobuf | WakeupTimeo nat | Gsignal int | Psignal int | Upcall nat

text \<open>The store: sockets, what \<open>MALLOC\<close> of a socket returns next, and the events so far.\<close>

record sostore =
  sk :: "nat \<Rightarrow> socket"
  sk_free :: "nat list"
  sk_events :: "soevent list"

definition sk_upd :: "nat \<Rightarrow> (socket \<Rightarrow> socket) \<Rightarrow> sostore \<Rightarrow> sostore" where
  "sk_upd i f st = st\<lparr>sk := (sk st)(i := f (sk st i))\<rparr>"

definition event :: "soevent \<Rightarrow> sostore \<Rightarrow> sostore" where
  "event e st = st\<lparr>sk_events := sk_events st @ [e]\<rparr>"

section \<open>The queues\<close>

text \<open>The link a queue goes by: \<open>so_q\<close> when \<open>q\<close>, \<open>so_q0\<close> otherwise.\<close>

definition so_link :: "bool \<Rightarrow> socket \<Rightarrow> nat option" where
  "so_link q so = (if q then so_q so else so_q0 so)"

definition set_link :: "bool \<Rightarrow> nat option \<Rightarrow> socket \<Rightarrow> socket" where
  "set_link q v so = (if q then so\<lparr>so_q := v\<rparr> else so\<lparr>so_q0 := v\<rparr>)"

definition add_len :: "bool \<Rightarrow> int \<Rightarrow> socket \<Rightarrow> socket" where
  "add_len q n so =
     (if q then so\<lparr>so_qlen := so_qlen so + n\<rparr> else so\<lparr>so_q0len := so_q0len so + n\<rparr>)"

text \<open>The loop to the end of a queue, and the loop that looks for the socket before \<open>so\<close>
  (\<open>Some None\<close> when it is not in the queue).\<close>

partial_function (option) soq_last :: "(nat \<Rightarrow> nat option) \<Rightarrow> nat \<Rightarrow> nat option" where
  "soq_last nx p = (case nx p of None \<Rightarrow> Some p | Some n \<Rightarrow> soq_last nx n)"

partial_function (option) soq_find :: "(nat \<Rightarrow> nat option) \<Rightarrow> nat \<Rightarrow> nat \<Rightarrow> nat option option" where
  "soq_find nx so prev =
     (case nx prev of
        None \<Rightarrow> Some None
      | Some n \<Rightarrow> if n = so then Some (Some prev) else soq_find nx so n)"

definition soqinsque :: "nat \<Rightarrow> nat \<Rightarrow> bool \<Rightarrow> sostore \<Rightarrow> sostore kres" where
  "soqinsque head so q st =
     (let st = sk_upd so (\<lambda>x. x\<lparr>so_head := Some head\<rparr>) st;
          st = sk_upd head (add_len q 1) st;
          st = sk_upd so (set_link q None) st
      in case soq_last (\<lambda>i. so_link q (sk st i)) head of
           None \<Rightarrow> Inl Loops
         | Some prev \<Rightarrow> Inr (sk_upd prev (set_link q (Some so)) st))"

text \<open>The result says whether \<open>so\<close> was in the queue.\<close>

definition soqremque :: "nat \<Rightarrow> bool \<Rightarrow> sostore \<Rightarrow> (bool \<times> sostore) kres" where
  "soqremque so q st =
     (case so_head (sk st so) of
        None \<Rightarrow> Inl BadAccess
      | Some head \<Rightarrow>
          case soq_find (\<lambda>i. so_link q (sk st i)) so head of
            None \<Rightarrow> Inl Loops
          | Some None \<Rightarrow> Inr (False, st)
          | Some (Some prev) \<Rightarrow>
              let st = sk_upd prev (set_link q (so_link q (sk st so))) st;
                  st = sk_upd head (add_len q (- 1)) st;
                  st = sk_upd so (\<lambda>x. x\<lparr>so_q0 := None, so_q := None\<rparr>) st;
                  st = sk_upd so (\<lambda>x. x\<lparr>so_head := None\<rparr>) st
              in Inr (True, st))"

section \<open>Wakeups\<close>

definition sobuf_of :: "sobuf \<Rightarrow> socket \<Rightarrow> sockbuf" where
  "sobuf_of b so = (case b of Rcv \<Rightarrow> so_rcv so | Snd \<Rightarrow> so_snd so)"

definition set_flags :: "sobuf \<Rightarrow> (sbflag set \<Rightarrow> sbflag set) \<Rightarrow> socket \<Rightarrow> socket" where
  "set_flags b f so =
     (case b of Rcv \<Rightarrow> so\<lparr>so_rcv := (so_rcv so)\<lparr>sb_flags := f (sb_flags (so_rcv so))\<rparr>\<rparr>
      | Snd \<Rightarrow> so\<lparr>so_snd := (so_snd so)\<lparr>sb_flags := f (sb_flags (so_snd so))\<rparr>\<rparr>)"

definition sowakeup :: "(int \<Rightarrow> bool) \<Rightarrow> nat \<Rightarrow> sobuf \<Rightarrow> sostore \<Rightarrow> sostore" where
  "sowakeup pfind so b st =
     (let st = event (Selwakeup so b) st;
          st = sk_upd so (set_flags b (\<lambda>f. f - {SB_SEL})) st;
          st = (if SB_WAIT \<in> sb_flags (sobuf_of b (sk st so))
                then event (WakeupBuf so b) (sk_upd so (set_flags b (\<lambda>f. f - {SB_WAIT})) st)
                else st)
      in if SS_ASYNC \<in> so_state (sk st so)
         then if so_pgid (sk st so) < 0 then event (Gsignal (- so_pgid (sk st so))) st
              else if 0 < so_pgid (sk st so) \<and> pfind (so_pgid (sk st so))
              then event (Psignal (so_pgid (sk st so))) st else st
         else st)"

definition sorwakeup :: "(int \<Rightarrow> bool) \<Rightarrow> nat \<Rightarrow> sostore \<Rightarrow> sostore" where
  "sorwakeup pfind so st =
     (let st = sowakeup pfind so Rcv st
      in if so_upcall (sk st so) then event (Upcall so) st else st)"

definition sowwakeup :: "(int \<Rightarrow> bool) \<Rightarrow> nat \<Rightarrow> sostore \<Rightarrow> sostore" where
  "sowwakeup pfind so st = sowakeup pfind so Snd st"

section \<open>The states of a connection\<close>

definition so_flags :: "nat \<Rightarrow> sostate set \<Rightarrow> sostate set \<Rightarrow> sostore \<Rightarrow> sostore" where
  "so_flags so off on st = sk_upd so (\<lambda>x. x\<lparr>so_state := so_state x - off \<union> on\<rparr>) st"

definition soisconnecting :: "nat \<Rightarrow> sostore \<Rightarrow> sostore" where
  "soisconnecting so st = so_flags so {SS_ISCONNECTED, SS_ISDISCONNECTING} {SS_ISCONNECTING} st"

definition soisconnected :: "(int \<Rightarrow> bool) \<Rightarrow> nat \<Rightarrow> sostore \<Rightarrow> sostore kres" where
  "soisconnected pfind so st =
     (let head = so_head (sk st so);
          st = so_flags so {SS_ISCONNECTING, SS_ISDISCONNECTING, SS_ISCONFIRMING} {SS_ISCONNECTED} st;
          alone = (\<lambda>st. sowwakeup pfind so (sorwakeup pfind so (event (WakeupTimeo so) st)))
      in case head of
           None \<Rightarrow> Inr (alone st)
         | Some head \<Rightarrow>
             bindE (soqremque so False st) (\<lambda>(found, st).
               if found then
                 bindE (soqinsque head so True st) (\<lambda>st.
                   Inr (event (WakeupTimeo head) (sorwakeup pfind head st)))
               else Inr (alone st)))"

definition soisdisconnecting :: "(int \<Rightarrow> bool) \<Rightarrow> nat \<Rightarrow> sostore \<Rightarrow> sostore" where
  "soisdisconnecting pfind so st =
     sorwakeup pfind so (sowwakeup pfind so (event (WakeupTimeo so)
       (so_flags so {SS_ISCONNECTING} {SS_ISDISCONNECTING, SS_CANTRCVMORE, SS_CANTSENDMORE} st)))"

definition soisdisconnected :: "(int \<Rightarrow> bool) \<Rightarrow> nat \<Rightarrow> sostore \<Rightarrow> sostore" where
  "soisdisconnected pfind so st =
     sorwakeup pfind so (sowwakeup pfind so (event (WakeupTimeo so)
       (so_flags so {SS_ISCONNECTING, SS_ISCONNECTED, SS_ISDISCONNECTING}
          {SS_CANTRCVMORE, SS_CANTSENDMORE} st)))"

definition socantsendmore :: "(int \<Rightarrow> bool) \<Rightarrow> nat \<Rightarrow> sostore \<Rightarrow> sostore" where
  "socantsendmore pfind so st = sowwakeup pfind so (so_flags so {} {SS_CANTSENDMORE} st)"

definition socantrcvmore :: "(int \<Rightarrow> bool) \<Rightarrow> nat \<Rightarrow> sostore \<Rightarrow> sostore" where
  "socantrcvmore pfind so st = sorwakeup pfind so (so_flags so {} {SS_CANTRCVMORE} st)"

section \<open>New connections\<close>

text \<open>The result is the socket, whether there was an error (\<open>ENOBUFS\<close>), and the mbufs.\<close>

definition soreserve ::
  "int \<Rightarrow> socket \<Rightarrow> int \<Rightarrow> int \<Rightarrow> mbstate \<Rightarrow> (socket \<times> errno option \<times> mbstate) kres"
where
  "soreserve sb_max so sndcc rcvcc s =
     (case sbreserve sb_max (so_snd so) sndcc of
        (sndb, False) \<Rightarrow> Inr (so\<lparr>so_snd := sndb\<rparr>, Some ENOBUFS, s)
      | (sndb, True) \<Rightarrow>
          case sbreserve sb_max (so_rcv so) rcvcc of
            (rcvb, False) \<Rightarrow>
              bindE (sbrelease sndb s) (\<lambda>(sndb, s).
                Inr (so\<lparr>so_snd := sndb, so_rcv := rcvb\<rparr>, Some ENOBUFS, s))
          | (rcvb, True) \<Rightarrow>
              let rcvb = (if sb_lowat rcvb = 0 then rcvb\<lparr>sb_lowat := 1\<rparr> else rcvb);
                  sndb = (if sb_lowat sndb = 0 then sndb\<lparr>sb_lowat := MCLBYTES\<rparr> else sndb);
                  sndb = (if sb_hiwat sndb < sb_lowat sndb then sndb\<lparr>sb_lowat := sb_hiwat sndb\<rparr> else sndb)
              in Inr (so\<lparr>so_snd := sndb, so_rcv := rcvb\<rparr>, None, s))"

definition zero_sockbuf :: sockbuf where
  "zero_sockbuf = \<lparr>sb_cc = 0, sb_hiwat = 0, sb_mbcnt = 0, sb_mbmax = 0, sb_lowat = 0, sb_mb = [],
     sb_flags = {}, sb_timeo = 0\<rparr>"

text \<open>\<open>bzero\<close> and the assignments from \<open>head\<close>.\<close>

definition so_inherit :: "socket \<Rightarrow> socket" where
  "so_inherit h =
     \<lparr>so_type = so_type h, so_options = so_options h - {SO_ACCEPTCONN}, so_linger = so_linger h,
      so_state = so_state h \<union> {SS_NOFDREF}, so_proto = so_proto h, so_head = None, so_q0 = None,
      so_q = None, so_q0len = 0, so_qlen = 0, so_qlimit = 0, so_timeo = so_timeo h,
      so_pgid = so_pgid h, so_rcv = zero_sockbuf, so_snd = zero_sockbuf, so_upcall = False\<rparr>"

text \<open>
  \<open>connstatus\<close> is empty for 0. The protocol's \<open>PRU_ATTACH\<close> request is a parameter that
  says whether it fails; it does not touch the queues.
\<close>

definition sonewconn1 ::
  "(int \<Rightarrow> bool) \<Rightarrow> (nat \<Rightarrow> socket \<Rightarrow> bool) \<Rightarrow> int \<Rightarrow> nat \<Rightarrow> sostate set \<Rightarrow> sostore \<Rightarrow> mbstate
    \<Rightarrow> (nat option \<times> sostore \<times> mbstate) kres"
where
  "sonewconn1 pfind attach_fails sb_max head connstatus st s =
     (let h = sk st head; soqueue = (connstatus \<noteq> {})
      in if 3 * so_qlimit h div 2 < so_qlen h + so_q0len h then Inr (None, st, s)
         else case sk_free st of
                [] \<Rightarrow> Inr (None, st, s)
              | so # fr \<Rightarrow>
                  bindE (soreserve sb_max (so_inherit h) (sb_hiwat (so_snd h)) (sb_hiwat (so_rcv h)) s)
                    (\<lambda>(x, _, s).
                  let st = sk_upd so (\<lambda>_. x) (st\<lparr>sk_free := fr\<rparr>)
                  in bindE (soqinsque head so soqueue st) (\<lambda>st.
                       if attach_fails so (sk st so) then
                         bindE (soqremque so soqueue st) (\<lambda>(_, st).
                           Inr (None, st\<lparr>sk_free := so # sk_free st\<rparr>, s))
                       else if connstatus \<noteq> {} then
                         Inr (Some so, so_flags so {} connstatus
                           (event (WakeupTimeo head) (sorwakeup pfind head st)), s)
                       else Inr (Some so, st, s))))"

section \<open>Queues as lists\<close>

fun path :: "(nat \<Rightarrow> nat option) \<Rightarrow> nat \<Rightarrow> nat list \<Rightarrow> bool" where
  "path nx p [] \<longleftrightarrow> nx p = None"
| "path nx p (x # xs) \<longleftrightarrow> nx p = Some x \<and> path nx x xs"

lemma path_last: "path nx p xs \<Longrightarrow> nx (last (p # xs)) = None"
  by (induction xs arbitrary: p) auto

lemma soq_last_path: "path nx p xs \<Longrightarrow> soq_last nx p = Some (last (p # xs))"
  by (induction xs arbitrary: p) (auto simp: soq_last.simps [of nx])

lemma soq_find_out: "path nx p xs \<Longrightarrow> so \<notin> set xs \<Longrightarrow> soq_find nx so p = Some None"
  by (induction xs arbitrary: p) (auto simp: soq_find.simps [of nx])

lemma soq_find_in:
  "path nx p (a @ so # b) \<Longrightarrow> so \<notin> set a \<Longrightarrow> soq_find nx so p = Some (Some (last (p # a)))"
  by (induction a arbitrary: p) (auto simp: soq_find.simps [of nx])

lemma path_upd: "path nx p xs \<Longrightarrow> z \<notin> set (p # xs) \<Longrightarrow> path (nx(z := v)) p xs"
  by (induction xs arbitrary: p) auto

lemma path_snoc:
  "path nx p xs \<Longrightarrow> distinct (p # xs) \<Longrightarrow> x \<notin> set (p # xs) \<Longrightarrow> nx x = None \<Longrightarrow>
    path (nx(last (p # xs) := Some x)) p (xs @ [x])"
proof (induction xs arbitrary: p)
  case (Cons y xs)
  have "path (nx(last (y # xs) := Some x)) y (xs @ [x])"
    by (rule Cons.IH) (use Cons.prems in auto)
  moreover have "last (y # xs) \<noteq> p" using Cons.prems(2) by auto
  ultimately show ?case using Cons.prems(1) by (auto simp: fun_upd_def)
qed auto

lemma path_remove:
  "path nx p (a @ so # b) \<Longrightarrow> distinct (p # a @ so # b) \<Longrightarrow>
    path (nx(last (p # a) := nx so)) p (a @ b)"
proof (induction a arbitrary: p)
  case Nil
  then show ?case by (cases b) (auto intro!: path_upd [unfolded fun_upd_def] simp: fun_upd_def)
next
  case (Cons y a)
  have "path (nx(last (y # a) := nx so)) y (a @ b)"
    by (rule Cons.IH) (use Cons.prems in auto)
  moreover have "last (y # a) \<noteq> p" using Cons.prems(2) by auto
  ultimately show ?case using Cons.prems(1) by (auto simp: fun_upd_def)
qed

text \<open>A listening socket \<open>h\<close> with the connections in progress \<open>xs0\<close> and the completed
  ones \<open>xs1\<close>, in the order of the links.\<close>

abbreviation nx :: "bool \<Rightarrow> sostore \<Rightarrow> nat \<Rightarrow> nat option" where
  "nx q st \<equiv> (\<lambda>i. so_link q (sk st i))"

definition so_queues :: "sostore \<Rightarrow> nat \<Rightarrow> (bool \<Rightarrow> nat list) \<Rightarrow> bool" where
  "so_queues st h xs \<longleftrightarrow> (\<forall>q. path (nx q st) h (xs q)) \<and> distinct (h # xs False @ xs True)
     \<and> so_q0len (sk st h) = int (length (xs False)) \<and> so_qlen (sk st h) = int (length (xs True))
     \<and> (\<forall>q. \<forall>x \<in> set (xs q). so_head (sk st x) = Some h \<and> so_link (\<not> q) (sk st x) = None)"

text \<open>What the queue operations leave alone.\<close>

definition strip :: "socket \<Rightarrow> socket" where
  "strip x = x\<lparr>so_head := None, so_q0 := None, so_q := None, so_q0len := 0, so_qlen := 0\<rparr>"

definition same_rest :: "sostore \<Rightarrow> sostore \<Rightarrow> bool" where
  "same_rest st st' \<longleftrightarrow> sk_free st' = sk_free st \<and> sk_events st' = sk_events st
     \<and> (\<forall>i. strip (sk st' i) = strip (sk st i))"

lemma same_rest_simps [simp]: "same_rest st st"
  "(\<And>x. strip (f x) = strip x) \<Longrightarrow> same_rest st (sk_upd i f st') = same_rest st st'"
  by (auto simp: same_rest_def sk_upd_def)

lemma strip_simps [simp]: "strip (x\<lparr>so_head := v\<rparr>) = strip x" "strip (add_len q n x) = strip x"
  "strip (set_link q w x) = strip x" "strip (x\<lparr>so_q0 := w, so_q := w\<rparr>) = strip x"
  by (simp_all add: strip_def add_len_def set_link_def)

lemma sk_upd_simps [simp]: "sk (sk_upd i f st) = (sk st)(i := f (sk st i))"
  "sk_free (sk_upd i f st) = sk_free st" "sk_events (sk_upd i f st) = sk_events st"
  by (simp_all add: sk_upd_def)

lemma so_link_simps [simp]:
  "so_link q (x\<lparr>so_head := v\<rparr>) = so_link q x" "so_link q (add_len r n x) = so_link q x"
  "so_link q (set_link r w x) = (if q = r then w else so_link q x)"
  "so_link q (x\<lparr>so_q0 := w, so_q := w\<rparr>) = w"
  "so_head (set_link r w x) = so_head x" "so_head (add_len r n x) = so_head x"
  "so_q0len (set_link r w x) = so_q0len x" "so_qlen (set_link r w x) = so_qlen x"
  "so_q0len (add_len r n x) = so_q0len x + (if r then 0 else n)"
  "so_qlen (add_len r n x) = so_qlen x + (if r then n else 0)"
  by (simp_all add: so_link_def add_len_def set_link_def)

lemma nx_upd:
  "nx q (sk_upd i f st) = (nx q st)(i := so_link q (f (sk st i)))"
  by auto

lemma so_queues_other:
  assumes "so_queues st h xs" shows "distinct (h # xs q)" "set (xs q) \<inter> set (xs (\<not> q)) = {}"
  using assms by (cases q; auto simp: so_queues_def)+

lemma so_queues_len:
  "so_queues st h xs \<Longrightarrow> (if q then so_qlen (sk st h) else so_q0len (sk st h)) = int (length (xs q))"
  by (auto simp: so_queues_def)

lemma soqinsque_spec:
  assumes "so_queues st h xs" "so \<notin> set (h # xs False @ xs True)" "so_link (\<not> q) (sk st so) = None"
  shows "\<exists>st'. soqinsque h so q st = Inr st' \<and> so_queues st' h (xs(q := xs q @ [so])) \<and> same_rest st st'"
proof -
  define st1 where "st1 = sk_upd so (set_link q None) (sk_upd h (add_len q 1) (sk_upd so (\<lambda>x. x\<lparr>so_head := Some h\<rparr>) st))"
  have out: "so \<notin> set (h # xs r)" for r using assms(2) by (cases r) auto
  have Q: "path (nx r st) h (xs r)" "distinct (h # xs r)" for r
    using assms(1) so_queues_other [OF assms(1)] by (simp_all add: so_queues_def)
  have p1: "nx r st1 = (nx r st)(so := None)" for r
    using assms(3) out [of r] by (cases "r = q") (auto simp: st1_def)
  define l where "l = last (h # xs q)"
  have l: "l \<in> set (h # xs q)" unfolding l_def by (rule last_in_set) simp
  have "path (nx q st1) h (xs q)" unfolding p1 by (rule path_upd [OF Q(1) out])
  then have "soq_last (nx q st1) h = Some l" unfolding l_def by (rule soq_last_path)
  then have eq: "soqinsque h so q st = Inr (sk_upd l (set_link q (Some so)) st1)"
    by (simp only: soqinsque_def Let_def st1_def [symmetric] option.case)
  define st2 where "st2 = sk_upd l (set_link q (Some so)) st1"
  have p2: "nx r st2 = (if r = q then (nx r st1)(l := Some so) else nx r st1)" for r
    by (auto simp: st2_def)
  have paths: "path (nx r st2) h ((xs(q := xs q @ [so])) r)" for r
  proof (cases "r = q")
    case True
    have "path (nx q st1) h (xs q)" unfolding p1 by (rule path_upd [OF Q(1) out])
    then have "path ((nx q st1)(l := Some so)) h (xs q @ [so])"
      unfolding l_def using Q(2) [of q] out [of q] fun_cong [OF p1 [of q], of so]
      by (intro path_snoc) simp_all
    then show ?thesis using True by (simp add: p2)
  next
    case False
    have "path (nx r st1) h (xs r)" unfolding p1 by (rule path_upd [OF Q(1) out])
    then show ?thesis using False by (simp add: p2)
  qed
  have fields: "so_head (sk st2 x) = (if x = so then Some h else so_head (sk st x))"
    "so_link (\<not> q) (sk st2 x) = so_link (\<not> q) (sk st x)"
    "so_q0len (sk st2 x) = so_q0len (sk st x) + (if x = h \<and> \<not> q then 1 else 0)"
    "so_qlen (sk st2 x) = so_qlen (sk st x) + (if x = h \<and> q then 1 else 0)" for x
    using out by (auto simp: st2_def st1_def)
  have lq: "so_link q (sk st2 x) = None" if "x \<in> set (xs (\<not> q))" for x
  proof -
    have "x \<noteq> l" using l that so_queues_other [OF assms(1), of q] assms(1)
      by (cases q) (auto simp: so_queues_def)
    moreover have "so_link q (sk st x) = None"
      using assms(1) that unfolding so_queues_def by (metis (full_types))
    ultimately show ?thesis using out [of "\<not> q"] that by (auto simp: st2_def st1_def)
  qed
  have "so_queues st2 h (xs(q := xs q @ [so]))"
    unfolding so_queues_def
  proof (intro conjI allI ballI)
    show "path (nx r st2) h ((xs(q := xs q @ [so])) r)" for r by (rule paths)
    show "distinct (h # (xs(q := xs q @ [so])) False @ (xs(q := xs q @ [so])) True)"
      using assms(1,2) by (cases q) (auto simp: so_queues_def)
    show "so_q0len (sk st2 h) = int (length ((xs(q := xs q @ [so])) False))"
      "so_qlen (sk st2 h) = int (length ((xs(q := xs q @ [so])) True))"
      using assms(1) fields(3,4) [of h] by (auto simp: so_queues_def)
    fix r x assume x: "x \<in> set ((xs(q := xs q @ [so])) r)"
    show "so_head (sk st2 x) = Some h"
      using x assms(1) fields(1) [of x] by (auto simp: so_queues_def split: if_splits)
    show "so_link (\<not> r) (sk st2 x) = None"
    proof (cases "r = q")
      case True
      then have "so_link (\<not> q) (sk st x) = None"
        using x assms(1,3) by (auto simp: so_queues_def)
      then show ?thesis using True fields(2) [of x] by simp
    next
      case False
      then have "r = (\<not> q)" by auto
      then show ?thesis using lq [of x] x False by simp
    qed
  qed
  moreover have "same_rest st st2" by (simp add: st2_def st1_def)
  ultimately show ?thesis using eq by (simp add: st2_def)
qed

lemma soqremque_out:
  assumes "so_queues st h xs" "so_head (sk st so) = Some h" "so \<notin> set (xs q)"
  shows "soqremque so q st = Inr (False, st)"
proof -
  have "path (nx q st) h (xs q)" using assms(1) by (simp add: so_queues_def)
  then have "soq_find (nx q st) so h = Some None" using assms(3) by (rule soq_find_out)
  then show ?thesis using assms(2) by (simp add: soqremque_def)
qed

lemma soqremque_in:
  assumes "so_queues st h xs" "so \<in> set (xs q)"
  shows "\<exists>st'. soqremque so q st = Inr (True, st') \<and> so_queues st' h (xs(q := remove1 so (xs q)))
    \<and> same_rest st st' \<and> so_head (sk st' so) = None \<and> (\<forall>r. so_link r (sk st' so) = None)"
proof -
  have Q: "path (nx r st) h (xs r)" "distinct (h # xs r)" for r
    using assms(1) so_queues_other [OF assms(1)] by (simp_all add: so_queues_def)
  have so: "so_head (sk st so) = Some h" "so_link (\<not> q) (sk st so) = None"
    using assms by (auto simp: so_queues_def)
  have nh: "so \<noteq> h" using Q(2) [of q] assms(2) by auto
  have nother: "so \<notin> set (xs (\<not> q))" using so_queues_other(2) [OF assms(1), of q] assms(2) by auto
  obtain a b where ab: "xs q = a @ so # b" "so \<notin> set a" using split_list_first [OF assms(2)] by blast
  have rem: "remove1 so (xs q) = a @ b" using ab by (simp add: remove1_append)
  define l where "l = last (h # a)"
  have l: "l \<in> set (h # a)" unfolding l_def by (rule last_in_set) simp
  have lso: "l \<noteq> so" using l ab(2) nh by auto
  have lother: "l \<notin> set (xs (\<not> q))"
    using l ab(1) so_queues_other [OF assms(1), of q] assms(1) by (cases q) (auto simp: so_queues_def)
  define st1 where "st1 = sk_upd so (\<lambda>x. x\<lparr>so_head := None\<rparr>) (sk_upd so (\<lambda>x. x\<lparr>so_q0 := None, so_q := None\<rparr>)
    (sk_upd h (add_len q (- 1)) (sk_upd l (set_link q (so_link q (sk st so))) st)))"
  have find: "soq_find (nx q st) so h = Some (Some l)"
    using soq_find_in [of "nx q st" h a so b] Q(1) [of q] ab by (simp add: l_def)
  have eq: "soqremque so q st = Inr (True, st1)"
    unfolding soqremque_def so(1) option.case find st1_def Let_def ..
  have p1: "nx r st1 = (if r = q then ((nx q st)(l := nx q st so))(so := None) else nx r st)" for r
    using so(2) lso nh by (cases "r = q") (auto simp: st1_def fun_eq_iff)
  have paths: "path (nx r st1) h ((xs(q := remove1 so (xs q))) r)" for r
  proof (cases "r = q")
    case True
    have "path ((nx q st)(l := nx q st so)) h (a @ b)"
      unfolding l_def using Q [of q] ab by (intro path_remove) simp_all
    moreover have "so \<notin> set (h # a @ b)" using Q(2) [of q] ab nh by auto
    ultimately have "path (((nx q st)(l := nx q st so))(so := None)) h (a @ b)" by (rule path_upd)
    then show ?thesis using True rem by (simp only: p1 if_True fun_upd_same simp_thms)
  next
    case False
    then show ?thesis using Q(1) by (simp only: p1 if_False) simp
  qed
  have fields: "so_head (sk st1 x) = (if x = so then None else so_head (sk st x))"
    "so_q0len (sk st1 x) = so_q0len (sk st x) - (if x = h \<and> \<not> q then 1 else 0)"
    "so_qlen (sk st1 x) = so_qlen (sk st x) - (if x = h \<and> q then 1 else 0)" for x
    using nh by (auto simp: st1_def)
  have len: "int (length (remove1 so (xs q))) = int (length (xs q)) - 1"
    using ab rem by simp
  have notin: "x \<noteq> so" if "x \<in> set ((xs(q := remove1 so (xs q))) r)" for x r
    using that Q(2) [of q] ab nother rem by (cases "r = q"; cases q) auto
  have "so_queues st1 h (xs(q := remove1 so (xs q)))"
    unfolding so_queues_def
  proof (intro conjI allI ballI)
    show "path (nx r st1) h ((xs(q := remove1 so (xs q))) r)" for r by (rule paths)
    show "distinct (h # (xs(q := remove1 so (xs q))) False @ (xs(q := remove1 so (xs q))) True)"
      using assms(1) set_remove1_subset [of so "xs q"] by (cases q) (auto simp: so_queues_def)
    show "so_q0len (sk st1 h) = int (length ((xs(q := remove1 so (xs q))) False))"
      "so_qlen (sk st1 h) = int (length ((xs(q := remove1 so (xs q))) True))"
      using assms(1) fields(2,3) [of h] len by (auto simp: so_queues_def)
    fix r x assume x: "x \<in> set ((xs(q := remove1 so (xs q))) r)"
    have xso: "x \<noteq> so" by (rule notin [OF x])
    have xr: "x \<in> set (xs r)" using x set_remove1_subset [of so "xs q"] by (auto split: if_splits)
    show "so_head (sk st1 x) = Some h"
      using xr xso assms(1) fields(1) [of x] by (auto simp: so_queues_def)
    have old: "so_link (\<not> r) (sk st x) = None" using xr assms(1) by (auto simp: so_queues_def)
    show "so_link (\<not> r) (sk st1 x) = None"
    proof (cases "r = q")
      case True
      then show ?thesis using old fun_cong [OF p1 [of "\<not> q"], of x] by simp
    next
      case False
      then have "r = (\<not> q)" by auto
      then have "x \<noteq> l" using xr lother by auto
      then show ?thesis
        using old False xso fun_cong [OF p1 [of "\<not> r"], of x] by (auto split: if_splits)
    qed
  qed
  moreover have "same_rest st st1" by (simp add: st1_def)
  moreover have "so_head (sk st1 so) = None" "so_link r (sk st1 so) = None" for r
    by (simp_all add: st1_def)
  ultimately show ?thesis using eq by blast
qed

text \<open>The queues are a matter of the links, the lengths and the heads only.\<close>

lemma so_queues_cong:
  assumes "so_queues st h xs"
    and "\<And>i. so_q0 (sk st' i) = so_q0 (sk st i)" "\<And>i. so_q (sk st' i) = so_q (sk st i)"
    and "\<And>i. so_head (sk st' i) = so_head (sk st i)" "so_q0len (sk st' h) = so_q0len (sk st h)"
    and "so_qlen (sk st' h) = so_qlen (sk st h)"
  shows "so_queues st' h xs"
proof -
  have "so_link q (sk st' i) = so_link q (sk st i)" for q i using assms(2,3) by (simp add: so_link_def)
  then show ?thesis using assms(1,4-6) by (simp add: so_queues_def)
qed

text \<open>Wakeups and state changes leave links, lengths and heads alone.\<close>

definition links :: "sostore \<Rightarrow> nat \<Rightarrow> nat option \<times> nat option \<times> nat option \<times> int \<times> int" where
  "links st i = (so_q0 (sk st i), so_q (sk st i), so_head (sk st i), so_q0len (sk st i), so_qlen (sk st i))"

lemma so_queues_links:
  "links st' = links st \<Longrightarrow> so_queues st h xs \<Longrightarrow> so_queues st' h xs"
  by (erule so_queues_cong) (auto simp: links_def dest!: fun_cong)

lemma links_event [simp]: "links (event e st) = links st" "sk (event e st) = sk st"
  "sk_events (event e st) = sk_events st @ [e]" "sk_free (event e st) = sk_free st"
  by (auto simp: event_def links_def)

lemma links_upd [simp]:
  "links (sk_upd i (set_flags b f) st) = links st"
  "links (so_flags i off on st) = links st"
  by (auto simp: links_def so_flags_def set_flags_def split: sobuf.splits)

lemma links_sowakeup [simp]:
  "links (sowakeup p i b st) = links st" "links (sorwakeup p i st) = links st"
  "links (sowwakeup p i st) = links st"
  by (simp_all add: sowakeup_def sorwakeup_def sowwakeup_def Let_def)

lemma state_wakeup [simp]:
  "so_state (sk (sowakeup p i b st) j) = so_state (sk st j)"
  "so_state (sk (sorwakeup p i st) j) = so_state (sk st j)"
  "so_state (sk (sowwakeup p i st) j) = so_state (sk st j)"
  "so_state (sk (so_flags i off on st) j) =
     (if j = i then so_state (sk st j) - off \<union> on else so_state (sk st j))"
  by (simp_all add: sowakeup_def sorwakeup_def sowwakeup_def Let_def so_flags_def set_flags_def
      split: sobuf.splits)

lemma same_rest_state: "same_rest st st' \<Longrightarrow> so_state (sk st' i) = so_state (sk st i)"
proof -
  assume "same_rest st st'"
  then have "so_state (strip (sk st' i)) = so_state (strip (sk st i))" by (simp add: same_rest_def)
  then show ?thesis by (simp add: strip_def)
qed

section \<open>Correctness\<close>

text \<open>C37. When a connection in progress is completed, \<open>soisconnected\<close> moves it from its place
  in the queue \<open>so_q0\<close> to the end of the queue \<open>so_q\<close> of the listening socket, keeps both
  queues and their lengths right, and wakes up those who wait for the listening socket.\<close>

theorem soisconnected_completes:
  assumes "so_queues st h xs" "so \<in> set (xs False)"
  shows "\<exists>st'. soisconnected pfind so st = Inr st'
    \<and> so_queues st' h (\<lambda>q. if q then xs True @ [so] else remove1 so (xs False))
    \<and> so_state (sk st' so) = so_state (sk st so) - {SS_ISCONNECTING, SS_ISDISCONNECTING, SS_ISCONFIRMING}
        \<union> {SS_ISCONNECTED}
    \<and> WakeupTimeo h \<in> set (sk_events st')"
proof -
  have head: "so_head (sk st so) = Some h" using assms by (auto simp: so_queues_def)
  define st1 where
    "st1 = so_flags so {SS_ISCONNECTING, SS_ISDISCONNECTING, SS_ISCONFIRMING} {SS_ISCONNECTED} st"
  have q1: "so_queues st1 h xs"
    by (rule so_queues_links [OF _ assms(1)]) (simp add: st1_def)
  obtain st2 where r: "soqremque so False st1 = Inr (True, st2)"
    "so_queues st2 h (xs(False := remove1 so (xs False)))" "same_rest st1 st2"
    "\<forall>r. so_link r (sk st2 so) = None"
    using soqremque_in [OF q1 assms(2)] by blast
  have "so \<notin> set (h # (xs(False := remove1 so (xs False))) False @ (xs(False := remove1 so (xs False))) True)"
    using assms by (auto simp: so_queues_def)
  then obtain st3 where i: "soqinsque h so True st2 = Inr st3"
    "so_queues st3 h ((xs(False := remove1 so (xs False)))(True := xs True @ [so]))" "same_rest st2 st3"
    using soqinsque_spec [OF r(2), of so True] r(4) by auto
  have x: "(xs(False := remove1 so (xs False)))(True := xs True @ [so])
      = (\<lambda>q. if q then xs True @ [so] else remove1 so (xs False))"
    by auto
  define st' where "st' = event (WakeupTimeo h) (sorwakeup pfind h st3)"
  have "soisconnected pfind so st = Inr st'"
    using head r(1) i(1) by (simp add: soisconnected_def Let_def st1_def [symmetric] st'_def)
  moreover have "so_queues st' h (\<lambda>q. if q then xs True @ [so] else remove1 so (xs False))"
    by (rule so_queues_links [OF _ i(2) [unfolded x]]) (simp add: st'_def)
  moreover have "so_state (sk st' so) = so_state (sk st1 so)"
    using same_rest_state [OF r(3)] same_rest_state [OF i(3)] by (simp add: st'_def)
  ultimately show ?thesis by (simp add: st1_def st'_def)
qed

lemma soreserve_inherit:
  "\<exists>a b e. soreserve sb_max (so_inherit h) sndcc rcvcc s
    = Inr ((so_inherit h)\<lparr>so_snd := a, so_rcv := b\<rparr>, e, s)"
proof -
  obtain a ok where a: "sbreserve sb_max zero_sockbuf sndcc = (a, ok)" by fastforce
  obtain b ok' where b: "sbreserve sb_max zero_sockbuf rcvcc = (b, ok')" by fastforce
  have z: "sb_mbcnt a = 0" "sb_cc a = 0" "sb_mb a = []" "sb_flags a = {}"
    using a by (auto simp: sbreserve_def zero_sockbuf_def Let_def split: if_splits)
  have f: "\<exists>a'. sbrelease a s = Inr (a', s)" using z by (simp add: sbrelease_def sbflush_def)
  have i: "so_snd (so_inherit h) = zero_sockbuf" "so_rcv (so_inherit h) = zero_sockbuf"
    by (simp_all add: so_inherit_def)
  have self: "so_inherit h = (so_inherit h)\<lparr>so_snd := so_snd (so_inherit h), so_rcv := so_rcv (so_inherit h)\<rparr>"
    by simp
  show ?thesis
  proof (cases ok)
    case False
    have "(so_inherit h)\<lparr>so_snd := a\<rparr> = (so_inherit h)\<lparr>so_snd := a, so_rcv := zero_sockbuf\<rparr>"
      by (simp add: so_inherit_def)
    moreover have "soreserve sb_max (so_inherit h) sndcc rcvcc s
        = Inr ((so_inherit h)\<lparr>so_snd := a\<rparr>, Some ENOBUFS, s)"
      using a False by (simp add: soreserve_def i)
    ultimately show ?thesis by metis
  next
    case True
    then show ?thesis using a b f by (cases ok') (auto simp: soreserve_def i Let_def)
  qed
qed

text \<open>A socket that is on no queue and has no link may be written: the queues do not change.\<close>

lemma so_queues_new:
  assumes "so_queues st h xs" "so \<notin> set (h # xs False @ xs True)" "\<And>r. so_link r x = None"
  shows "so_queues (sk_upd so (\<lambda>_. x) (st\<lparr>sk_free := fr\<rparr>)) h xs"
proof -
  let ?st = "sk_upd so (\<lambda>_. x) (st\<lparr>sk_free := fr\<rparr>)"
  have p: "path (nx r ?st) h (xs r)" for r
  proof -
    have "nx r ?st = (nx r st)(so := None)" using assms(3) by (auto simp: sk_upd_def)
    moreover have "so \<notin> set (h # xs r)" using assms(2) by (cases r) auto
    ultimately show ?thesis using assms(1) path_upd by (simp add: so_queues_def)
  qed
  have ne: "i \<noteq> so" if "i \<in> set (xs r)" for i r using that assms(2) by (cases r) auto
  have o: "i \<in> set (xs r) \<Longrightarrow> sk ?st i = sk st i" "sk ?st h = sk st h" for i r
    using ne assms(2) by (auto simp: sk_upd_def)
  have "so_head (sk ?st i) = Some h \<and> so_link (\<not> r) (sk ?st i) = None" if "i \<in> set (xs r)" for i r
    using assms(1) that ne [OF that] by (simp add: so_queues_def)
  moreover have "distinct (h # xs False @ xs True)" "so_q0len (sk st h) = int (length (xs False))"
    "so_qlen (sk st h) = int (length (xs True))"
    using assms(1) by (simp_all add: so_queues_def)
  moreover have "\<forall>r. path (nx r ?st) h (xs r)" using p by (rule allI)
  ultimately show ?thesis unfolding so_queues_def o(2) by blast
qed

text \<open>\<open>sonewconn1\<close> creates no socket when the two queues hold more than 3/2 of the limit
  or the protocol refuses; then the queues are as before. Otherwise the new socket is the last
  of the queue that \<open>connstatus\<close> selects, and has the state of the listening socket.\<close>

theorem sonewconn1_correct:
  assumes "so_queues st h xs" "sk_free st = so # fr" "so \<notin> set (h # xs False @ xs True)"
  defines "full \<equiv> 3 * so_qlimit (sk st h) div 2 < int (length (xs False) + length (xs True))"
  shows "\<exists>r st'. sonewconn1 pfind attach_fails sb_max h cs st s = Inr (r, st', s)
    \<and> (if r = None then so_queues st' h xs \<and> (full \<longrightarrow> st' = st)
       else r = Some so \<and> \<not> full \<and> so_queues st' h (xs(cs \<noteq> {} := xs (cs \<noteq> {}) @ [so]))
         \<and> so_state (sk st' so) = so_state (sk st h) \<union> {SS_NOFDREF} \<union> cs)
    \<and> ((\<forall>x. \<not> attach_fails so x) \<and> \<not> full \<longrightarrow> r \<noteq> None)"
proof -
  have full: "3 * so_qlimit (sk st h) div 2 < so_qlen (sk st h) + so_q0len (sk st h) \<longleftrightarrow> full"
    using assms(1) by (auto simp: full_def so_queues_def)
  show ?thesis
  proof (cases full)
    case True
    then have "sonewconn1 pfind attach_fails sb_max h cs st s = Inr (None, st, s)"
      using full by (simp add: sonewconn1_def)
    then show ?thesis using assms(1) True by auto
  next
    case False
    define q where "q = (cs \<noteq> {})"
    obtain a b e where res: "soreserve sb_max (so_inherit (sk st h)) (sb_hiwat (so_snd (sk st h)))
        (sb_hiwat (so_rcv (sk st h))) s = Inr ((so_inherit (sk st h))\<lparr>so_snd := a, so_rcv := b\<rparr>, e, s)"
      using soreserve_inherit by blast
    define x where "x = (so_inherit (sk st h))\<lparr>so_snd := a, so_rcv := b\<rparr>"
    define st1 where "st1 = sk_upd so (\<lambda>_. x) (st\<lparr>sk_free := fr\<rparr>)"
    have q1: "so_queues st1 h xs"
      unfolding st1_def by (rule so_queues_new [OF assms(1,3)]) (simp add: x_def so_inherit_def so_link_def)
    have "so_link (\<not> q) (sk st1 so) = None"
      by (simp add: st1_def x_def so_inherit_def so_link_def)
    then obtain st2 where ins: "soqinsque h so q st1 = Inr st2"
      "so_queues st2 h (xs(q := xs q @ [so]))" "same_rest st1 st2"
      using soqinsque_spec [OF q1 assms(3)] by blast
    have state: "so_state (sk st2 so) = so_state (sk st h) \<union> {SS_NOFDREF}"
      using same_rest_state [OF ins(3), of so] by (simp add: st1_def x_def so_inherit_def)
    have eq: "sonewconn1 pfind attach_fails sb_max h cs st s =
      (if attach_fails so (sk st2 so) then
         bindE (soqremque so q st2) (\<lambda>(_, st). Inr (None, st\<lparr>sk_free := so # sk_free st\<rparr>, s))
       else if q then
         Inr (Some so, so_flags so {} cs (event (WakeupTimeo h) (sorwakeup pfind h st2)), s)
       else Inr (Some so, st2, s))"
      using full False assms(2) res ins(1)
      by (simp add: sonewconn1_def q_def [symmetric] x_def [symmetric] st1_def [symmetric] Let_def)
    show ?thesis
    proof (cases "attach_fails so (sk st2 so)")
      case True
      have "so \<in> set ((xs(q := xs q @ [so])) q)" by simp
      from soqremque_in [OF ins(2) this] obtain st3 where r: "soqremque so q st2 = Inr (True, st3)"
        "so_queues st3 h ((xs(q := xs q @ [so]))(q := remove1 so ((xs(q := xs q @ [so])) q)))"
        by blast
      have "so \<notin> set (xs q)" using assms(3) by (cases q) auto
      then have "(xs(q := xs q @ [so]))(q := remove1 so ((xs(q := xs q @ [so])) q)) = xs"
        by (simp add: remove1_append fun_eq_iff)
      then have "so_queues st3 h xs" using r(2) by simp
      then have "so_queues (st3\<lparr>sk_free := so # sk_free st3\<rparr>) h xs"
        by (rule so_queues_links [rotated]) (simp add: links_def fun_eq_iff)
      then show ?thesis unfolding eq using True r(1) False by auto
    next
      case ok: False
      show ?thesis
      proof (cases q)
        case True
        define st3 where "st3 = so_flags so {} cs (event (WakeupTimeo h) (sorwakeup pfind h st2))"
        have "so_queues st3 h (xs(q := xs q @ [so]))"
          by (rule so_queues_links [OF _ ins(2)]) (simp add: st3_def)
        moreover have "so_state (sk st3 so) = so_state (sk st h) \<union> {SS_NOFDREF} \<union> cs"
          using state by (simp add: st3_def)
        ultimately show ?thesis
          unfolding eq using ok True False by (simp add: q_def [symmetric] st3_def [symmetric])
      next
        case nq: False
        then have "cs = {}" by (simp add: q_def)
        then show ?thesis
          unfolding eq using ok nq False ins(2) state by (simp add: q_def [symmetric])
      qed
    qed
  qed
qed

section \<open>A concrete listening socket\<close>

definition ex_socket :: "nat option \<Rightarrow> nat option \<Rightarrow> nat option \<Rightarrow> int \<Rightarrow> int \<Rightarrow> socket" where
  "ex_socket hp q0 q n0 n = \<lparr>so_type = 1, so_options = {SO_ACCEPTCONN}, so_linger = 0, so_state = {SS_ASYNC},
     so_proto = 0, so_head = hp, so_q0 = q0, so_q = q, so_q0len = n0, so_qlen = n, so_qlimit = 2,
     so_timeo = 0, so_pgid = 5, so_rcv = zero_sockbuf, so_snd = zero_sockbuf, so_upcall = True\<rparr>"

definition ex_sostore :: sostore where
  "ex_sostore = \<lparr>sk = (\<lambda>i. if i = 0 then ex_socket None (Some 1) (Some 3) 2 1
       else if i = 1 then ex_socket (Some 0) (Some 2) None 0 0 else ex_socket (Some 0) None None 0 0),
     sk_free = [4, 5], sk_events = []\<rparr>"

lemma ex_sostore_queues: "so_queues ex_sostore 0 (\<lambda>q. if q then [3] else [1, 2])"
  by (simp add: so_queues_def ex_sostore_def ex_socket_def so_link_def all_bool_eq)

lemma soisconnected_completes_witness:
  "\<exists>st'. soisconnected (\<lambda>_. True) 1 ex_sostore = Inr st'
    \<and> so_queues st' 0 (\<lambda>q. if q then [3, 1] else [2])"
  using soisconnected_completes [OF ex_sostore_queues, of 1 "\<lambda>_. True"] by (auto cong: if_cong)

lemma sonewconn1_correct_witness:
  "\<forall>s. \<exists>st'. sonewconn1 (\<lambda>_. True) (\<lambda>_ _. False) 65536 0 {} ex_sostore s = Inr (Some 4, st', s)
    \<and> so_queues st' 0 (\<lambda>q. if q then [3] else [1, 2, 4])"
proof
  fix s
  have free: "sk_free ex_sostore = 4 # [5]" and lim: "so_qlimit (sk ex_sostore 0) = 2"
    by (simp_all add: ex_sostore_def ex_socket_def)
  have upd: "(\<lambda>q. if q then [3] else [1, 2 :: nat])(False := [1, 2, 4]) = (\<lambda>q. if q then [3] else [1, 2, 4])"
    by auto
  show "\<exists>st'. sonewconn1 (\<lambda>_. True) (\<lambda>_ _. False) 65536 0 {} ex_sostore s = Inr (Some 4, st', s)
    \<and> so_queues st' 0 (\<lambda>q. if q then [3] else [1, 2, 4])"
    using sonewconn1_correct [OF ex_sostore_queues free, of "\<lambda>_. True" "\<lambda>_ _. False" 65536 "{}" s] lim
    by (auto simp: upd simp del: One_nat_def split: if_splits)
qed

end
