(* ===== verification/Bpf.thy ===== *)
theory Bpf
  imports Mbuf_Laws
begin

text \<open>
  The packet filter machine and its verifier, \<open>sys/net/bpf_filter.c\<close> and the encodings of
  \<open>sys/net/bpf.h\<close>. A \<open>long\<close> and an \<open>int\<close> are 32 bits wide, as \<open>EXTRACT_LONG\<close>
  assumes, and \<open>char\<close> is signed. The machine is a step function on the accumulator,
  the index register and the scratch memory; \<open>BadAccess\<close> is a read or write outside the
  packet, the scratch memory or the program.
\<close>

unbundle bit_operations_syntax

section \<open>Instructions\<close>

definition BPF_LD :: "16 word" where "BPF_LD = 0x00"
definition BPF_LDX :: "16 word" where "BPF_LDX = 0x01"
definition BPF_ST :: "16 word" where "BPF_ST = 0x02"
definition BPF_STX :: "16 word" where "BPF_STX = 0x03"
definition BPF_ALU :: "16 word" where "BPF_ALU = 0x04"
definition BPF_JMP :: "16 word" where "BPF_JMP = 0x05"
definition BPF_RET :: "16 word" where "BPF_RET = 0x06"
definition BPF_MISC :: "16 word" where "BPF_MISC = 0x07"
definition BPF_W :: "16 word" where "BPF_W = 0x00"
definition BPF_H :: "16 word" where "BPF_H = 0x08"
definition BPF_B :: "16 word" where "BPF_B = 0x10"
definition BPF_IMM :: "16 word" where "BPF_IMM = 0x00"
definition BPF_ABS :: "16 word" where "BPF_ABS = 0x20"
definition BPF_IND :: "16 word" where "BPF_IND = 0x40"
definition BPF_MEM :: "16 word" where "BPF_MEM = 0x60"
definition BPF_LEN :: "16 word" where "BPF_LEN = 0x80"
definition BPF_MSH :: "16 word" where "BPF_MSH = 0xa0"
definition BPF_ADD :: "16 word" where "BPF_ADD = 0x00"
definition BPF_SUB :: "16 word" where "BPF_SUB = 0x10"
definition BPF_MUL :: "16 word" where "BPF_MUL = 0x20"
definition BPF_DIV :: "16 word" where "BPF_DIV = 0x30"
definition BPF_OR :: "16 word" where "BPF_OR = 0x40"
definition BPF_AND :: "16 word" where "BPF_AND = 0x50"
definition BPF_LSH :: "16 word" where "BPF_LSH = 0x60"
definition BPF_RSH :: "16 word" where "BPF_RSH = 0x70"
definition BPF_NEG :: "16 word" where "BPF_NEG = 0x80"
definition BPF_JA :: "16 word" where "BPF_JA = 0x00"
definition BPF_JEQ :: "16 word" where "BPF_JEQ = 0x10"
definition BPF_JGT :: "16 word" where "BPF_JGT = 0x20"
definition BPF_JGE :: "16 word" where "BPF_JGE = 0x30"
definition BPF_JSET :: "16 word" where "BPF_JSET = 0x40"
definition BPF_K :: "16 word" where "BPF_K = 0x00"
definition BPF_X :: "16 word" where "BPF_X = 0x08"
definition BPF_A :: "16 word" where "BPF_A = 0x10"
definition BPF_TAX :: "16 word" where "BPF_TAX = 0x00"
definition BPF_TXA :: "16 word" where "BPF_TXA = 0x80"
definition BPF_MEMWORDS :: int where "BPF_MEMWORDS = 16"

lemmas bpf_consts = BPF_LD_def BPF_LDX_def BPF_ST_def BPF_STX_def BPF_ALU_def BPF_JMP_def
  BPF_RET_def BPF_MISC_def BPF_W_def BPF_H_def BPF_B_def BPF_IMM_def BPF_ABS_def BPF_IND_def
  BPF_MEM_def BPF_LEN_def BPF_MSH_def BPF_ADD_def BPF_SUB_def BPF_MUL_def BPF_DIV_def BPF_OR_def
  BPF_AND_def BPF_LSH_def BPF_RSH_def BPF_NEG_def BPF_JA_def BPF_JEQ_def BPF_JGT_def BPF_JGE_def
  BPF_JSET_def BPF_K_def BPF_X_def BPF_A_def BPF_TAX_def BPF_TXA_def

record bpf_insn =
  icode :: "16 word"
  ijt :: "8 word"
  ijf :: "8 word"
  ik :: "32 word"

text \<open>The cases of the switch of \<open>bpf_filter\<close>.\<close>

datatype bpf_size = SzW | SzH | SzB
datatype bpf_src = SrcK | SrcX
datatype bpf_cond = CGT | CGE | CEQ | CSET
datatype bpf_arith = AADD | ASUB | AMUL | ADIV | AAND | AOR | ALSH | ARSH

datatype bpf_op =
  RET_K | RET_A | LD_ABS bpf_size | LD_IND bpf_size | LD_LEN | LDX_LEN | LDX_MSH | LD_IMM | LDX_IMM
| LD_MEM | LDX_MEM | ST_MEM | STX_MEM | JMP_JA | JMP_IF bpf_cond bpf_src | ALU_OP bpf_arith bpf_src
| ALU_NEG | MISC_TAX | MISC_TXA

definition bpf_cases :: "(16 word \<times> bpf_op) list" where
  "bpf_cases =
    [(BPF_RET OR BPF_K, RET_K), (BPF_RET OR BPF_A, RET_A),
     (BPF_LD OR BPF_W OR BPF_ABS, LD_ABS SzW), (BPF_LD OR BPF_H OR BPF_ABS, LD_ABS SzH),
     (BPF_LD OR BPF_B OR BPF_ABS, LD_ABS SzB), (BPF_LD OR BPF_W OR BPF_LEN, LD_LEN),
     (BPF_LDX OR BPF_W OR BPF_LEN, LDX_LEN), (BPF_LD OR BPF_W OR BPF_IND, LD_IND SzW),
     (BPF_LD OR BPF_H OR BPF_IND, LD_IND SzH), (BPF_LD OR BPF_B OR BPF_IND, LD_IND SzB),
     (BPF_LDX OR BPF_MSH OR BPF_B, LDX_MSH), (BPF_LD OR BPF_IMM, LD_IMM),
     (BPF_LDX OR BPF_IMM, LDX_IMM), (BPF_LD OR BPF_MEM, LD_MEM), (BPF_LDX OR BPF_MEM, LDX_MEM),
     (BPF_ST, ST_MEM), (BPF_STX, STX_MEM), (BPF_JMP OR BPF_JA, JMP_JA),
     (BPF_JMP OR BPF_JGT OR BPF_K, JMP_IF CGT SrcK), (BPF_JMP OR BPF_JGE OR BPF_K, JMP_IF CGE SrcK),
     (BPF_JMP OR BPF_JEQ OR BPF_K, JMP_IF CEQ SrcK), (BPF_JMP OR BPF_JSET OR BPF_K, JMP_IF CSET SrcK),
     (BPF_JMP OR BPF_JGT OR BPF_X, JMP_IF CGT SrcX), (BPF_JMP OR BPF_JGE OR BPF_X, JMP_IF CGE SrcX),
     (BPF_JMP OR BPF_JEQ OR BPF_X, JMP_IF CEQ SrcX), (BPF_JMP OR BPF_JSET OR BPF_X, JMP_IF CSET SrcX),
     (BPF_ALU OR BPF_ADD OR BPF_X, ALU_OP AADD SrcX), (BPF_ALU OR BPF_SUB OR BPF_X, ALU_OP ASUB SrcX),
     (BPF_ALU OR BPF_MUL OR BPF_X, ALU_OP AMUL SrcX), (BPF_ALU OR BPF_DIV OR BPF_X, ALU_OP ADIV SrcX),
     (BPF_ALU OR BPF_AND OR BPF_X, ALU_OP AAND SrcX), (BPF_ALU OR BPF_OR OR BPF_X, ALU_OP AOR SrcX),
     (BPF_ALU OR BPF_LSH OR BPF_X, ALU_OP ALSH SrcX), (BPF_ALU OR BPF_RSH OR BPF_X, ALU_OP ARSH SrcX),
     (BPF_ALU OR BPF_ADD OR BPF_K, ALU_OP AADD SrcK), (BPF_ALU OR BPF_SUB OR BPF_K, ALU_OP ASUB SrcK),
     (BPF_ALU OR BPF_MUL OR BPF_K, ALU_OP AMUL SrcK), (BPF_ALU OR BPF_DIV OR BPF_K, ALU_OP ADIV SrcK),
     (BPF_ALU OR BPF_AND OR BPF_K, ALU_OP AAND SrcK), (BPF_ALU OR BPF_OR OR BPF_K, ALU_OP AOR SrcK),
     (BPF_ALU OR BPF_LSH OR BPF_K, ALU_OP ALSH SrcK), (BPF_ALU OR BPF_RSH OR BPF_K, ALU_OP ARSH SrcK),
     (BPF_ALU OR BPF_NEG, ALU_NEG), (BPF_MISC OR BPF_TAX, MISC_TAX), (BPF_MISC OR BPF_TXA, MISC_TXA)]"

definition bpf_decode :: "16 word \<Rightarrow> bpf_op option" where
  "bpf_decode c = map_of bpf_cases c"

section \<open>The packet\<close>

text \<open>
  The arguments of \<open>bpf_filter\<close>: with a \<open>buflen\<close> other than 0 the packet is \<open>pk_buf\<close>,
  otherwise it is the mbuf chain. \<open>wide_shl\<close> and \<open>wide_shr\<close> are what the machine's shift
  instructions do for counts of 32 and more, which C leaves open.
\<close>

record bpfenv =
  pk_buf :: "byte list"
  pk_buflen :: "32 word"
  pk_wirelen :: "32 word"
  pk_mb :: mbstate
  pk_chain :: "mbuf list"
  wide_shl :: "32 word \<Rightarrow> 32 word \<Rightarrow> 32 word"
  wide_shr :: "32 word \<Rightarrow> 32 word \<Rightarrow> 32 word"

definition byte_at :: "byte list \<Rightarrow> int \<Rightarrow> byte kres" where
  "byte_at b i = (if 0 \<le> i \<and> i < int (length b) then Inr (b ! nat i) else Inl BadAccess)"

text \<open>Byte \<open>i\<close> behind the data pointer of an mbuf: it may lie behind the data.\<close>

definition mb_byte :: "mbstate \<Rightarrow> mbuf \<Rightarrow> int \<Rightarrow> byte kres" where
  "mb_byte s m i = byte_at (m_storage s m) (m_data m + i)"

fun bytes_at :: "(int \<Rightarrow> byte kres) \<Rightarrow> int list \<Rightarrow> byte list kres" where
  "bytes_at rd [] = Inr []"
| "bytes_at rd (i # is) = bindE (rd i) (\<lambda>b. bindE (bytes_at rd is) (\<lambda>r. Inr (b # r)))"

text \<open>\<open>EXTRACT_SHORT\<close> and \<open>EXTRACT_LONG\<close>, the bytes in network order.\<close>

definition be_bytes :: "byte list \<Rightarrow> 32 word" where
  "be_bytes bs = foldl (\<lambda>v b. v * 256 + ucast b) 0 bs"

text \<open>The result of the next two is the value and \<open>*err\<close>.\<close>

definition m_xword :: "mbstate \<Rightarrow> mbuf list \<Rightarrow> int \<Rightarrow> (32 word \<times> bool) kres" where
  "m_xword s c k =
     (if c = [] then Inl BadAccess
      else case chain_index m_len k c of
        None \<Rightarrow> Inr (0, True)
      | Some (m, k, ms) \<Rightarrow>
          let len = m_len m; cp = (\<lambda>i. mb_byte s m (k + i)); ok = (\<lambda>bs. Inr (be_bytes bs, False))
          in if 4 \<le> len - k then bindE (bytes_at cp [0, 1, 2, 3]) ok
             else case ms of
               [] \<Rightarrow> Inr (0, True)
             | m0 # _ \<Rightarrow>
                 let np = mb_byte s m0
                 in if m_len m0 + len - k < 4 then Inr (0, True)
                    else if len - k = 1 then
                      bindE (bytes_at cp [k]) (\<lambda>a. bindE (bytes_at np [0, 1, 2]) (\<lambda>b. ok (a @ b)))
                    else if len - k = 2 then
                      bindE (bytes_at cp [k, k + 1]) (\<lambda>a. bindE (bytes_at np [0, 1]) (\<lambda>b. ok (a @ b)))
                    else
                      bindE (bytes_at cp [k, k + 1, k + 2]) (\<lambda>a.
                        bindE (bytes_at np [0]) (\<lambda>b. ok (a @ b))))"

definition m_xhalf :: "mbstate \<Rightarrow> mbuf list \<Rightarrow> int \<Rightarrow> (32 word \<times> bool) kres" where
  "m_xhalf s c k =
     (if c = [] then Inl BadAccess
      else case chain_index m_len k c of
        None \<Rightarrow> Inr (0, True)
      | Some (m, k, ms) \<Rightarrow>
          let len = m_len m; cp = (\<lambda>i. mb_byte s m (k + i)); ok = (\<lambda>bs. Inr (be_bytes bs, False))
          in if 2 \<le> len - k then bindE (bytes_at cp [0, 1]) ok
             else case ms of
               [] \<Rightarrow> Inr (0, True)
             | m0 # _ \<Rightarrow>
                 bindE (bytes_at cp [k]) (\<lambda>a. bindE (bytes_at (mb_byte s m0) [0]) (\<lambda>b. ok (a @ b))))"

text \<open>
  The loads at offset \<open>k\<close>; \<open>None\<close> is \<open>return 0\<close>. The sum \<open>k + sizeof\<close> and the
  comparisons with \<open>buflen\<close> are unsigned; indexing is signed.
\<close>

definition bpf_word :: "bpfenv \<Rightarrow> 32 word \<Rightarrow> 32 word option kres" where
  "bpf_word e k =
     (if pk_buflen e < k + 4 then
        if pk_buflen e \<noteq> 0 then Inr None
        else bindE (m_xword (pk_mb e) (pk_chain e) (sint k)) (\<lambda>(v, err).
               Inr (if err then None else Some v))
      else bindE (bytes_at (byte_at (pk_buf e)) [sint k, sint k + 1, sint k + 2, sint k + 3])
             (\<lambda>bs. Inr (Some (be_bytes bs))))"

text \<open>\<open>tested\<close>: only the indexed half-word load looks at \<open>merr\<close>.\<close>

definition bpf_half :: "bool \<Rightarrow> bpfenv \<Rightarrow> 32 word \<Rightarrow> 32 word option kres" where
  "bpf_half tested e k =
     (if pk_buflen e < k + 2 then
        if pk_buflen e \<noteq> 0 then Inr None
        else bindE (m_xhalf (pk_mb e) (pk_chain e) (sint k)) (\<lambda>(v, err).
               Inr (if tested \<and> err then None else Some v))
      else bindE (bytes_at (byte_at (pk_buf e)) [sint k, sint k + 1]) (\<lambda>bs. Inr (Some (be_bytes bs))))"

text \<open>The byte itself, and whether it is read through a \<open>char *\<close>, and so sign extended.\<close>

definition bpf_byte :: "bpfenv \<Rightarrow> 32 word \<Rightarrow> byte option kres" where
  "bpf_byte e k =
     (if pk_buflen e \<le> k then
        if pk_buflen e \<noteq> 0 then Inr None
        else if pk_chain e = [] then Inl BadAccess
        else case chain_index m_len (sint k) (pk_chain e) of
               None \<Rightarrow> Inr None
             | Some (m, k, _) \<Rightarrow> bindE (mb_byte (pk_mb e) m k) (\<lambda>b. Inr (Some b))
      else bindE (byte_at (pk_buf e) (sint k)) (\<lambda>b. Inr (Some b)))"

definition byte_ext :: "bool \<Rightarrow> byte \<Rightarrow> 32 word" where
  "byte_ext sx b = (if sx then scast b else ucast b)"

section \<open>The machine\<close>

record bpfst =
  bA :: "32 word"
  bX :: "32 word"
  bmem :: "32 word list"

datatype bpf_res = Return "32 word" | Goto int bpfst

definition mem_at :: "bpfst \<Rightarrow> 32 word \<Rightarrow> 32 word kres" where
  "mem_at st k =
     (if 0 \<le> sint k \<and> sint k < int (length (bmem st)) then Inr (bmem st ! nat (sint k))
      else Inl BadAccess)"

definition mem_set :: "bpfst \<Rightarrow> 32 word \<Rightarrow> 32 word \<Rightarrow> bpfst kres" where
  "mem_set st k v =
     (if 0 \<le> sint k \<and> sint k < int (length (bmem st)) then Inr (st\<lparr>bmem := (bmem st)[nat (sint k) := v]\<rparr>)
      else Inl BadAccess)"

definition bpf_test :: "bpf_cond \<Rightarrow> 32 word \<Rightarrow> 32 word \<Rightarrow> bool" where
  "bpf_test c a b =
     (case c of CGT \<Rightarrow> b < a | CGE \<Rightarrow> b \<le> a | CEQ \<Rightarrow> a = b | CSET \<Rightarrow> a AND b \<noteq> 0)"

text \<open>\<open>None\<close> is the \<open>return 0\<close> of a division by an \<open>X\<close> of 0; by a \<open>k\<close> of 0 the
  machine traps.\<close>

definition bpf_alu :: "bpfenv \<Rightarrow> bpf_arith \<Rightarrow> bpf_src \<Rightarrow> 32 word \<Rightarrow> 32 word \<Rightarrow> 32 word option kres" where
  "bpf_alu e op' src a b =
     (case op' of
        AADD \<Rightarrow> Inr (Some (a + b)) | ASUB \<Rightarrow> Inr (Some (a - b)) | AMUL \<Rightarrow> Inr (Some (a * b))
      | ADIV \<Rightarrow> if b = 0 then (if src = SrcX then Inr None else Inl (Panic ''divide by zero''))
               else Inr (Some (a div b))
      | AAND \<Rightarrow> Inr (Some (a AND b)) | AOR \<Rightarrow> Inr (Some (a OR b))
      | ALSH \<Rightarrow> Inr (Some (if b < 32 then push_bit (unat b) a else wide_shl e a b))
      | ARSH \<Rightarrow> Inr (Some (if b < 32 then drop_bit (unat b) a else wide_shr e a b)))"

definition bpf_load :: "bpfenv \<Rightarrow> bpf_op \<Rightarrow> 32 word \<Rightarrow> bpfst \<Rightarrow> bpfst option kres" where
  "bpf_load e op' k st =
     (let setA = (\<lambda>r. bindE r (\<lambda>v. Inr (map_option (\<lambda>v. st\<lparr>bA := v\<rparr>) v)));
          ext = (\<lambda>sx r. bindE r (\<lambda>v. Inr (map_option (byte_ext sx) v)))
      in case op' of
           LD_ABS SzW \<Rightarrow> setA (bpf_word e k)
         | LD_ABS SzH \<Rightarrow> setA (bpf_half False e k)
         | LD_ABS SzB \<Rightarrow> setA (ext False (bpf_byte e k))
         | LD_IND SzW \<Rightarrow> setA (bpf_word e (bX st + k))
         | LD_IND SzH \<Rightarrow> setA (bpf_half True e (bX st + k))
         | LD_IND SzB \<Rightarrow> setA (ext (pk_buflen e = 0) (bpf_byte e (bX st + k)))
         | LD_LEN \<Rightarrow> Inr (Some (st\<lparr>bA := pk_wirelen e\<rparr>))
         | LDX_LEN \<Rightarrow> Inr (Some (st\<lparr>bX := pk_wirelen e\<rparr>))
         | LDX_MSH \<Rightarrow> bindE (bpf_byte e k) (\<lambda>v.
             Inr (map_option (\<lambda>b. st\<lparr>bX := push_bit 2 (ucast b AND 0xf)\<rparr>) v))
         | LD_IMM \<Rightarrow> Inr (Some (st\<lparr>bA := k\<rparr>))
         | LDX_IMM \<Rightarrow> Inr (Some (st\<lparr>bX := k\<rparr>))
         | LD_MEM \<Rightarrow> bindE (mem_at st k) (\<lambda>v. Inr (Some (st\<lparr>bA := v\<rparr>)))
         | LDX_MEM \<Rightarrow> bindE (mem_at st k) (\<lambda>v. Inr (Some (st\<lparr>bX := v\<rparr>)))
         | _ \<Rightarrow> Inr None)"

text \<open>One turn of the loop of \<open>bpf_filter\<close>, from the switch on; \<open>pc\<close> is an index into the
  program.\<close>

definition bpf_step :: "bpfenv \<Rightarrow> bpf_insn list \<Rightarrow> int \<Rightarrow> bpfst \<Rightarrow> bpf_res kres" where
  "bpf_step e f pc st =
     (if pc < 0 \<or> int (length f) \<le> pc then Inl BadAccess
      else
        let p = f ! nat pc; continue = (\<lambda>st. Goto (pc + 1) st);
            src = (\<lambda>s. if s = SrcX then bX st else ik p)
        in case bpf_decode (icode p) of
             None \<Rightarrow> Inr (Return 0)
           | Some RET_K \<Rightarrow> Inr (Return (ik p))
           | Some RET_A \<Rightarrow> Inr (Return (bA st))
           | Some ST_MEM \<Rightarrow> bindE (mem_set st (ik p) (bA st)) (\<lambda>st. Inr (continue st))
           | Some STX_MEM \<Rightarrow> bindE (mem_set st (ik p) (bX st)) (\<lambda>st. Inr (continue st))
           | Some JMP_JA \<Rightarrow> Inr (Goto (pc + sint (ik p) + 1) st)
           | Some (JMP_IF c s) \<Rightarrow>
               Inr (Goto (pc + uint (if bpf_test c (bA st) (src s) then ijt p else ijf p) + 1) st)
           | Some (ALU_OP a s) \<Rightarrow>
               bindE (bpf_alu e a s (bA st) (src s)) (\<lambda>v.
                 Inr (case v of None \<Rightarrow> Return 0 | Some v \<Rightarrow> continue (st\<lparr>bA := v\<rparr>)))
           | Some ALU_NEG \<Rightarrow> Inr (continue (st\<lparr>bA := - bA st\<rparr>))
           | Some MISC_TAX \<Rightarrow> Inr (continue (st\<lparr>bX := bA st\<rparr>))
           | Some MISC_TXA \<Rightarrow> Inr (continue (st\<lparr>bA := bX st\<rparr>))
           | Some op' \<Rightarrow>
               bindE (bpf_load e op' (ik p) st) (\<lambda>v.
                 Inr (case v of None \<Rightarrow> Return 0 | Some st \<Rightarrow> continue st)))"

text \<open>At most \<open>n\<close> turns of the loop.\<close>

fun bpf_exec :: "nat \<Rightarrow> bpfenv \<Rightarrow> bpf_insn list \<Rightarrow> int \<Rightarrow> bpfst \<Rightarrow> 32 word kres" where
  "bpf_exec 0 e f pc st = Inl Loops"
| "bpf_exec (Suc n) e f pc st =
     (case bpf_step e f pc st of
        Inl x \<Rightarrow> Inl x
      | Inr (Return v) \<Rightarrow> Inr v
      | Inr (Goto pc st) \<Rightarrow> bpf_exec n e f pc st)"

text \<open>No program is the null pointer. The registers and the scratch memory start with whatever
  was on the stack.\<close>

definition bpf_filter :: "nat \<Rightarrow> bpf_insn list option \<Rightarrow> bpfenv \<Rightarrow> bpfst \<Rightarrow> 32 word kres" where
  "bpf_filter n pc e st = (case pc of None \<Rightarrow> Inr (- 1) | Some f \<Rightarrow> bpf_exec n e f 0 st)"

section \<open>The verifier\<close>

definition BPF_CLASS :: "16 word \<Rightarrow> 16 word" where "BPF_CLASS c = c AND 0x07"
definition BPF_OP :: "16 word \<Rightarrow> 16 word" where "BPF_OP c = c AND 0xf0"

text \<open>The body of the loop of \<open>bpf_validate\<close>: whether instruction \<open>i\<close> passes. The sums
  are \<open>int\<close>.\<close>

definition bpf_insn_ok :: "int \<Rightarrow> int \<Rightarrow> bpf_insn \<Rightarrow> bool" where
  "bpf_insn_ok len i p =
     (let from = i + 1
      in \<not> (BPF_CLASS (icode p) = BPF_JMP \<and>
            (if BPF_OP (icode p) = BPF_JA then len \<le> s_int (from + sint (ik p))
             else len \<le> from + uint (ijt p) \<or> len \<le> from + uint (ijf p)))
       \<and> \<not> ((BPF_CLASS (icode p) = BPF_ST \<or> (BPF_CLASS (icode p) = BPF_LD \<and> icode p AND 0xe0 = BPF_MEM))
            \<and> (BPF_MEMWORDS \<le> sint (ik p) \<or> sint (ik p) < 0))
       \<and> \<not> (icode p = BPF_ALU OR BPF_DIV OR BPF_K \<and> ik p = 0))"

definition bpf_validate :: "bpf_insn list \<Rightarrow> bool kres" where
  "bpf_validate f =
     (if \<not> list_all (\<lambda>i. bpf_insn_ok (int (length f)) (int i) (f ! i)) [0..<length f] then Inr False
      else if f = [] then Inl BadAccess
      else Inr (BPF_CLASS (icode (last f)) = BPF_RET))"

end
