(* ===== verification/Bpf_Laws.thy ===== *)
theory Bpf_Laws
  imports Bpf
begin

text \<open>
  What \<open>bpf_validate\<close> guarantees about \<open>bpf_filter\<close>, and what it does not: the
  conditions it leaves out are \<open>bpf_unchecked_ok\<close>. The reading routines \<open>m_xword\<close> and
  \<open>m_xhalf\<close> against the bytes of the chain.
\<close>

section \<open>Decoding\<close>


lemmas bpf_codes = bpf_cases_def bpf_consts BPF_CLASS_def BPF_OP_def


section \<open>What the verifier checks\<close>






section \<open>The loads\<close>











section \<open>One step of a validated program\<close>




text \<open>The step of an accepted program: it returns, or it moves forward.\<close>

definition bpf_forward :: "bpf_insn list \<Rightarrow> int \<Rightarrow> bpf_res kres \<Rightarrow> bool" where
  "bpf_forward f pc r \<longleftrightarrow>
     (case r of Inl _ \<Rightarrow> False | Inr (Return _) \<Rightarrow> True
      | Inr (Goto pc' st') \<Rightarrow> pc < pc' \<and> pc + 1 < int (length f) \<and> length (bmem st') = 16)"

lemma bpf_forward_simps [simp]:
  "\<not> bpf_forward f pc (Inl x)" "bpf_forward f pc (Inr (Return v))"
  "bpf_forward f pc (Inr (Goto pc' st')) \<longleftrightarrow> pc < pc' \<and> pc + 1 < int (length f) \<and> length (bmem st') = 16"
  by (simp_all add: bpf_forward_def)





section \<open>Running an accepted program\<close>





definition ex_insn :: "16 word \<Rightarrow> 8 word \<Rightarrow> 8 word \<Rightarrow> 32 word \<Rightarrow> bpf_insn" where
  "ex_insn c t f k = \<lparr>icode = c, ijt = t, ijf = f, ik = k\<rparr>"


definition ex_env :: bpfenv where
  "ex_env = \<lparr>pk_buf = [1, 2, 3, 4], pk_buflen = 4, pk_wirelen = 4, pk_mb = ex_mbstate, pk_chain = [],
    wide_shl = (\<lambda>_ _. 0), wide_shr = (\<lambda>_ _. 0)\<rparr>"

definition ex_bpfst :: bpfst where
  "ex_bpfst = \<lparr>bA = 0, bX = 0, bmem = replicate 16 0\<rparr>"




section \<open>What the verifier lets through\<close>

lemma decode_ja: "bpf_decode (BPF_JMP OR BPF_JA) = Some JMP_JA"
  by (simp add: bpf_decode_def bpf_codes)

lemma decode_stx: "bpf_decode BPF_STX = Some STX_MEM"
  by (simp add: bpf_decode_def bpf_codes)

lemma decode_abs: "bpf_decode (BPF_LD OR BPF_W OR BPF_ABS) = Some (LD_ABS SzW)"
  by (simp add: bpf_decode_def bpf_codes)

lemma two_insns_accepted:
  assumes "bpf_insn_ok 2 0 p"
  shows "bpf_validate [p, ex_insn (BPF_RET OR BPF_K) 0 0 0] = Inr True"
proof -
  have "bpf_insn_ok 2 1 (ex_insn (BPF_RET OR BPF_K) 0 0 0)"
    by (simp add: bpf_insn_ok_def ex_insn_def bpf_codes)
  then show ?thesis using assms by (simp add: bpf_validate_def upt_rec ex_insn_def bpf_codes)
qed

text \<open>\<open>bpf_validate\<close> does not keep its promise that an accepted program terminates: a
  jump by -1 passes, and no number of steps is enough to run it.\<close>

theorem bpf_validate_accepts_loop:
  "bpf_validate [ex_insn (BPF_JMP OR BPF_JA) 0 0 (- 1), ex_insn (BPF_RET OR BPF_K) 0 0 0] = Inr True
   \<and> bpf_filter n (Some [ex_insn (BPF_JMP OR BPF_JA) 0 0 (- 1), ex_insn (BPF_RET OR BPF_K) 0 0 0]) e st
     = Inl Loops"
proof -
  have "bpf_insn_ok 2 0 (ex_insn (BPF_JMP OR BPF_JA) 0 0 (- 1))"
    by (simp add: bpf_insn_ok_def ex_insn_def bpf_codes)
  moreover have "bpf_exec n e [ex_insn (BPF_JMP OR BPF_JA) 0 0 (- 1), q] 0 st = Inl Loops" for q
    by (induction n) (simp_all add: bpf_step_def ex_insn_def decode_ja)
  ultimately show ?thesis using two_insns_accepted by (simp add: bpf_filter_def)
qed

text \<open>Nor that it stays inside its memory: a store of \<open>X\<close> to any index outside the
  scratch memory passes, and so does a load of the word at offset -1 of the packet; both accesses
  are then made.\<close>

theorem bpf_validate_accepts_bad_access:
  assumes "k < 0 \<or> 16 \<le> k" "- (2 ^ 31) \<le> k" "k < 2 ^ 31" "length (bmem st) = 16"
    and "3 \<le> pk_buflen e"
  shows "bpf_validate [ex_insn BPF_STX 0 0 (word_of_int k), ex_insn (BPF_RET OR BPF_K) 0 0 0] = Inr True
   \<and> bpf_filter 2 (Some [ex_insn BPF_STX 0 0 (word_of_int k), ex_insn (BPF_RET OR BPF_K) 0 0 0]) e st
     = Inl BadAccess
   \<and> bpf_validate [ex_insn (BPF_LD OR BPF_W OR BPF_ABS) 0 0 (- 1), ex_insn (BPF_RET OR BPF_K) 0 0 0]
     = Inr True
   \<and> bpf_filter 2 (Some [ex_insn (BPF_LD OR BPF_W OR BPF_ABS) 0 0 (- 1), ex_insn (BPF_RET OR BPF_K) 0 0 0])
       e st = Inl BadAccess"
proof (intro conjI)
  have "bpf_insn_ok 2 0 (ex_insn BPF_STX 0 0 (word_of_int k))"
    by (simp add: bpf_insn_ok_def ex_insn_def bpf_codes)
  then show "bpf_validate [ex_insn BPF_STX 0 0 (word_of_int k), ex_insn (BPF_RET OR BPF_K) 0 0 0] = Inr True"
    by (rule two_insns_accepted)
  have "bpf_insn_ok 2 0 (ex_insn (BPF_LD OR BPF_W OR BPF_ABS) 0 0 (- 1))"
    by (simp add: bpf_insn_ok_def ex_insn_def bpf_codes)
  then show "bpf_validate [ex_insn (BPF_LD OR BPF_W OR BPF_ABS) 0 0 (- 1),
      ex_insn (BPF_RET OR BPF_K) 0 0 0] = Inr True"
    by (rule two_insns_accepted)
  have "signed_take_bit 31 k = k" using assms(2,3) by (intro signed_take_bit_int_eq_self) simp_all
  then have "sint (word_of_int k :: 32 word) = k" by (simp add: sint_sbintrunc')
  then have "mem_set st (word_of_int k) v = Inl BadAccess" for v
    using assms(1,4) by (auto simp: mem_set_def)
  then show "bpf_filter 2 (Some [ex_insn BPF_STX 0 0 (word_of_int k),
      ex_insn (BPF_RET OR BPF_K) 0 0 0]) e st = Inl BadAccess"
    by (simp add: bpf_filter_def numeral_2_eq_2 bpf_step_def ex_insn_def decode_stx)
  have "(- 1 :: 32 word) + 4 = 3" by simp
  then have "\<not> pk_buflen e < - 1 + 4" using assms(5) by simp
  then have "bpf_word e (- 1) = Inl BadAccess" by (simp add: bpf_word_def byte_at_def)
  then show "bpf_filter 2 (Some [ex_insn (BPF_LD OR BPF_W OR BPF_ABS) 0 0 (- 1),
      ex_insn (BPF_RET OR BPF_K) 0 0 0]) e st = Inl BadAccess"
    by (simp add: bpf_filter_def numeral_2_eq_2 bpf_step_def ex_insn_def decode_abs bpf_load_def)
qed

theorem bpf_validate_accepts_bad_access_witness:
  "bpf_filter 2 (Some [ex_insn BPF_STX 0 0 (word_of_int 16), ex_insn (BPF_RET OR BPF_K) 0 0 0]) ex_env ex_bpfst
     = Inl BadAccess"
  using bpf_validate_accepts_bad_access [of 16 ex_bpfst ex_env] by (simp add: ex_env_def ex_bpfst_def)

section \<open>Words of an mbuf chain\<close>

lemma mb_byte_good:
  assumes "mbuf_ok s m" "0 \<le> i" "i < m_len m"
  shows "mb_byte s m i = Inr (m_bytes s m ! nat i)"
proof -
  have b: "0 \<le> m_data m + i" "m_data m + i < int (length (m_storage s m))" "0 \<le> m_data m"
    using assms by (auto simp: mbuf_ok_def)
  then have "nat (m_data m + i) = nat (m_data m) + nat i" using assms(2) by (simp add: nat_add_distrib)
  moreover have "nat i < nat (m_len m)" "nat (m_data m) \<le> length (m_storage s m)"
    using assms(2,3) b by linarith+
  ultimately show ?thesis using b by (simp add: mb_byte_def byte_at_def m_bytes_def window_def)
qed

lemma bytes_at_map: "\<forall>x \<in> set js. rd x = Inr (f x) \<Longrightarrow> bytes_at rd js = Inr (map f js)"
  by (induction js) auto

lemma bytes_at_range:
  assumes "mbuf_ok s m" "0 \<le> i" "i + int n \<le> m_len m"
  shows "bytes_at (\<lambda>x. mb_byte s m (i + x)) (map int [0..<n]) = Inr (take n (drop (nat i) (m_bytes s m)))"
proof -
  have l: "int (length (m_bytes s m)) = m_len m" by (rule m_bytes_length [OF assms(1)])
  have "bytes_at (\<lambda>x. mb_byte s m (i + x)) (map int [0..<n])
      = Inr (map (\<lambda>x. m_bytes s m ! nat (i + x)) (map int [0..<n]))"
    using assms by (intro bytes_at_map ballI) (auto intro!: mb_byte_good)
  also have "map (\<lambda>x. m_bytes s m ! nat (i + x)) (map int [0..<n]) = take n (drop (nat i) (m_bytes s m))"
    using assms(2,3) l by (intro nth_equalityI) (auto simp: nat_add_distrib)
  finally show ?thesis .
qed

lemma bytes_at_list:
  assumes "mbuf_ok s m" "0 \<le> i"
  shows "i + 4 \<le> m_len m \<Longrightarrow> bytes_at (\<lambda>x. mb_byte s m (i + x)) [0, 1, 2, 3] = Inr (take 4 (drop (nat i) (m_bytes s m)))"
    "i + 3 \<le> m_len m \<Longrightarrow> bytes_at (\<lambda>x. mb_byte s m (i + x)) [0, 1, 2] = Inr (take 3 (drop (nat i) (m_bytes s m)))"
    "i + 2 \<le> m_len m \<Longrightarrow> bytes_at (\<lambda>x. mb_byte s m (i + x)) [0, 1] = Inr (take 2 (drop (nat i) (m_bytes s m)))"
    "i + 1 \<le> m_len m \<Longrightarrow> bytes_at (\<lambda>x. mb_byte s m (i + x)) [0] = Inr (take 1 (drop (nat i) (m_bytes s m)))"
  using bytes_at_range [OF assms, of 4] bytes_at_range [OF assms, of 3]
    bytes_at_range [OF assms, of 2] bytes_at_range [OF assms, of 1]
  by (simp_all add: upt_rec)

lemma m_xword_found:
  assumes "chain_ok s c" "0 \<le> k" "chain_index m_len k c = Some (m, j, ms)"
    and "j + 4 \<le> m_len m \<or> (j = 0 \<and> ms \<noteq> [] \<and> 4 \<le> m_len m + m_len (hd ms))"
  shows "m_xword s c k = Inr (be_bytes (take 4 (drop (nat k) (chain_bytes s c))), False)"
proof -
  have c: "c \<noteq> []" using assms(3) by auto
  note I = mb.index_Some [OF assms(1,3,2), unfolded flat_chain_bytes]
  have m: "mbuf_ok s m" "0 \<le> j" "j < m_len m" using I assms(1) by auto
  have len: "int (length (m_bytes s m)) = m_len m" by (rule m_bytes_length [OF m(1)])
  have bs: "drop (nat k) (chain_bytes s c) = drop (nat j) (m_bytes s m) @ chain_bytes s ms" using I by blast
  show ?thesis
  proof (cases "j + 4 \<le> m_len m")
    case True
    have "take 4 (drop (nat k) (chain_bytes s c)) = take 4 (drop (nat j) (m_bytes s m))"
      unfolding bs using len m True by simp
    then show ?thesis using c assms(3) True bytes_at_list(1) [OF m(1,2) True]
      by (simp add: m_xword_def del: bytes_at.simps)
  next
    case False
    then obtain m0 r where ms: "ms = m0 # r" "j = 0" "4 \<le> m_len m + m_len m0"
      using assms(4) by (cases ms) auto
    have m0: "mbuf_ok s m0" using I assms(1) ms(1) by auto
    have len0: "int (length (m_bytes s m0)) = m_len m0" by (rule m_bytes_length [OF m0])
    have t: "take 4 (drop (nat k) (chain_bytes s c))
        = m_bytes s m @ take (4 - length (m_bytes s m)) (m_bytes s m0)"
    proof -
    have "length (m_bytes s m) \<le> 4" using len False ms(2) by simp
    then show ?thesis unfolding bs ms(1,2) using len len0 ms(3) by simp
  qed
    consider "m_len m = 1" | "m_len m = 2" | "m_len m = 3" using m(3) False ms(2) by linarith
    then show ?thesis
    proof cases
      case 1
      then show ?thesis unfolding t using c assms(3) ms bytes_at_list(4) [OF m(1), of 0]
          bytes_at_list(2) [OF m0, of 0] len by (simp add: m_xword_def del: bytes_at.simps)
    next
      case 2
      then show ?thesis unfolding t using c assms(3) ms bytes_at_list(3) [OF m(1), of 0]
          bytes_at_list(3) [OF m0, of 0] len by (simp add: m_xword_def del: bytes_at.simps)
    next
      case 3
      then show ?thesis unfolding t using c assms(3) ms bytes_at_list(2) [OF m(1), of 0]
          bytes_at_list(4) [OF m0, of 0] len by (simp add: m_xword_def del: bytes_at.simps)
    qed
  qed
qed

lemma m_xword_short:
  assumes "chain_ok s c" "c \<noteq> []" "0 \<le> k" "int (length (chain_bytes s c)) < k + 4"
  shows "m_xword s c k = Inr (0, True)"
proof (cases "chain_index m_len k c")
  case None
  then show ?thesis using assms(2) by (simp add: m_xword_def)
next
  case (Some x)
  then obtain m j ms where x: "chain_index m_len k c = Some (m, j, ms)" by (cases x) auto
  note I = mb.index_Some [OF assms(1) x assms(3), unfolded flat_chain_bytes]
  have m: "mbuf_ok s m" "0 \<le> j" "j < m_len m" using I assms(1) by auto
  have len: "int (length (m_bytes s m)) = m_len m" by (rule m_bytes_length [OF m(1)])
  have "length (drop (nat k) (chain_bytes s c)) = length (drop (nat j) (m_bytes s m) @ chain_bytes s ms)"
    using I by metis
  then have tot: "m_len m - j + int (length (chain_bytes s ms)) < 4" using assms(3,4) m len by simp
  show ?thesis
  proof (cases ms)
    case Nil
    then show ?thesis using assms(2) x tot by (simp add: m_xword_def)
  next
    case (Cons m0 r)
    have "mbuf_ok s m0" using I assms(1) Cons by auto
    then have "int (length (m_bytes s m0)) = m_len m0" by (rule m_bytes_length)
    then have "m_len m0 + m_len m - j < 4" "m_len m - j < 4" using tot Cons by simp_all
    then show ?thesis using assms(2) x Cons by (simp add: m_xword_def)
  qed
qed

text \<open>\<open>m_xword\<close> on a chain of well-formed mbufs: it reports an error when the chain has
  fewer than four bytes from \<open>k\<close> on, and otherwise it returns the four bytes in network
  order, provided they lie in one mbuf or begin an mbuf and end in the next.\<close>

theorem m_xword_correct:
  assumes "chain_ok s c" "c \<noteq> []" "0 \<le> k"
  shows "(int (length (chain_bytes s c)) < k + 4 \<longrightarrow> m_xword s c k = Inr (0, True)) \<and>
    (\<forall>m j ms. chain_index m_len k c = Some (m, j, ms) \<longrightarrow>
      j + 4 \<le> m_len m \<or> (j = 0 \<and> ms \<noteq> [] \<and> 4 \<le> m_len m + m_len (hd ms)) \<longrightarrow>
      m_xword s c k = Inr (be_bytes (take 4 (drop (nat k) (chain_bytes s c))), False))"
  using m_xword_short [OF assms] m_xword_found [OF assms(1,3)] by blast

theorem m_xword_correct_witness:
  "m_xword ex_mbstate ex_chain 5 = Inr (be_bytes [9, 9, 9, 9], False)
   \<and> m_xword ex_mbstate ex_chain 12 = Inr (0, True)"
proof -
  have "chain_index m_len 5 ex_chain = Some (ex_mbuf {M_EXT} 100 10, 1, [])"
    "m_len (ex_mbuf {M_EXT} 100 10) = 10"
    by (simp_all add: ex_chain_def ex_mbuf_def)
  then show ?thesis
    using m_xword_correct [of ex_chain ex_mbstate 5] m_xword_correct [of ex_chain ex_mbstate 12]
      ex_chain_facts by (simp add: numeral_eq_Suc)
qed

definition ex_straddle :: "mbuf list" where
  "ex_straddle = [(ex_mbuf {} 0 3)\<lparr>m_dat := [1, 2, 3, 4, 5] @ replicate 103 0\<rparr>, ex_mbuf {} 0 4]"

text \<open>When the word begins inside an mbuf and ends in the next, \<open>m_xword\<close> reads the wrong
  bytes: it has already added the offset to \<open>cp\<close> and indexes by it again. Here the word at
  offset 2 is 3, 7, 7, 7, and the routine returns 5, 7, 7, 7.\<close>

theorem m_xword_straddle_wrong:
  "chain_ok ex_mbstate ex_straddle \<and> take 4 (drop 2 (chain_bytes ex_mbstate ex_straddle)) = [3, 7, 7, 7]
   \<and> m_xword ex_mbstate ex_straddle 2 = Inr (be_bytes [5, 7, 7, 7], False)
   \<and> be_bytes [5, 7, 7, 7] \<noteq> be_bytes [3, 7, 7, 7]"
proof (intro conjI)
  show "chain_ok ex_mbstate ex_straddle"
    by (simp add: ex_straddle_def ex_mbuf_def mbuf_ok_def m_storage_def mbuf_sizes)
  show "take 4 (drop 2 (chain_bytes ex_mbstate ex_straddle)) = [3, 7, 7, 7]"
    by (simp add: ex_straddle_def ex_mbuf_def m_bytes_def window_def m_storage_def numeral_eq_Suc)
  show "m_xword ex_mbstate ex_straddle 2 = Inr (be_bytes [5, 7, 7, 7], False)"
    by (simp add: m_xword_def ex_straddle_def ex_mbuf_def mb_byte_def byte_at_def m_storage_def)
  show "be_bytes [5, 7, 7, 7] \<noteq> be_bytes [3, 7, 7, 7]" by (simp add: be_bytes_def)
qed

end
