(* ===== verification/Lockf.thy ===== *)
theory Lockf
  imports Prelude
begin

text \<open>
  Advisory byte-range locks, \<open>sys/ufs/ufs/ufs_lockf.c\<close>, \<open>sys/ufs/ufs/lockf.h\<close> and
  \<open>ufs_advlock\<close> of \<open>sys/ufs/ufs/ufs_vnops.c\<close>. The locks of an inode are a list in the
  order of their links; a lock has an address, and the locks waiting for it are the list of
  their addresses in \<open>lf_block\<close>. A waiting lock is in \<open>lk_wait\<close>, with \<open>lf_next\<close>
  the address of the lock that blocks it. Messages for debugging are left out.
\<close>

section \<open>Locks and the state\<close>

datatype lflag = F_WAIT | F_FLOCK | F_POSIX
datatype ltype = F_RDLCK | F_UNLCK | F_WRLCK | F_otherlck

record lockf =
  lf_addr :: nat
  lf_flags :: "lflag set"
  lf_type :: ltype
  lf_start :: int
  lf_end :: int
  lf_id :: nat
  lf_inode :: nat
  lf_next :: "nat option"
  lf_block :: "nat list"

text \<open>
  \<open>p_lockwchan p\<close> is the address process \<open>p\<close> sleeps on with the message \<open>lockf\<close>,
  \<open>lk_addr\<close> the address of the next structure allocated.
\<close>

record lkstate =
  i_lockf :: "nat \<Rightarrow> lockf list"
  lk_wait :: "nat \<Rightarrow> lockf option"
  p_lockwchan :: "nat \<Rightarrow> nat option"
  lk_addr :: nat

definition MAXDEPTH :: nat where "MAXDEPTH = 50"

text \<open>The value that an \<open>off_t\<close>, 64 bits wide, keeps.\<close>

definition s_quad :: "int \<Rightarrow> int" where
  "s_quad i = (i + 9223372036854775808) mod 18446744073709551616 - 9223372036854775808"

lemma s_quad_id [simp]: "- 9223372036854775808 \<le> i \<Longrightarrow> i < 9223372036854775808 \<Longrightarrow> s_quad i = i"
  by (simp add: s_quad_def)

section \<open>Searching\<close>

datatype lfsel = SELF | OTHERS

text \<open>The comparison of \<open>lf_findoverlap\<close>: 0 for no overlap, 1 to 5 for its cases; 6 is the panic.\<close>

definition lf_case :: "lockf \<Rightarrow> lockf \<Rightarrow> nat" where
  "lf_case lf lock =
     (let start = lf_start lock; end' = lf_end lock
      in if (lf_end lf \<noteq> - 1 \<and> lf_end lf < start) \<or> (end' \<noteq> - 1 \<and> end' < lf_start lf) then 0
         else if lf_start lf = start \<and> lf_end lf = end' then 1
         else if lf_start lf \<le> start \<and> end' \<noteq> - 1 \<and> (end' \<le> lf_end lf \<or> lf_end lf = - 1) then 2
         else if start \<le> lf_start lf \<and> (end' = - 1 \<or> (lf_end lf \<noteq> - 1 \<and> lf_end lf \<le> end')) then 3
         else if lf_start lf < start \<and> (start \<le> lf_end lf \<or> lf_end lf = - 1) then 4
         else if start < lf_start lf \<and> end' \<noteq> - 1 \<and> (end' < lf_end lf \<or> lf_end lf = - 1) then 5
         else 6)"

text \<open>
  The result is the case, the locks before \<open>*prev\<close> and those from \<open>*overlap\<close> on; the first
  list argument holds the locks already passed.
\<close>

fun lf_findoverlap ::
  "lfsel \<Rightarrow> lockf \<Rightarrow> lockf list \<Rightarrow> lockf list \<Rightarrow> (nat \<times> lockf list \<times> lockf list) kres" where
  "lf_findoverlap ty lock pre [] = Inr (0, pre, [])"
| "lf_findoverlap ty lock pre (lf # rest) =
     (if (ty = SELF \<and> lf_id lf \<noteq> lf_id lock) \<or> (ty = OTHERS \<and> lf_id lf = lf_id lock)
      then lf_findoverlap ty lock (pre @ [lf]) rest
      else if lf_case lf lock = 0 then
        if ty = SELF \<and> lf_end lock \<noteq> - 1 \<and> lf_end lock < lf_start lf then Inr (0, pre, lf # rest)
        else lf_findoverlap ty lock (pre @ [lf]) rest
      else if lf_case lf lock = 6 then Inl (Panic ''lf_findoverlap: default'')
      else Inr (lf_case lf lock, pre, lf # rest))"

lemma lf_findoverlap_split:
  "lf_findoverlap ty lock pre rest = Inr (n, pre', suf) \<Longrightarrow> \<exists>sk. pre' = pre @ sk \<and> rest = sk @ suf"
proof (induction rest arbitrary: pre)
  case (Cons lf rest)
  then show ?case by (fastforce split: if_splits)
qed simp

lemma lf_findoverlap_length:
  "lf_findoverlap ty lock pre rest = Inr (n, pre', suf) \<Longrightarrow> length suf \<le> length rest"
  using lf_findoverlap_split by fastforce

text \<open>The loop of \<open>lf_getblock\<close> from a lock on.\<close>

function lf_getblock :: "lockf \<Rightarrow> lockf list \<Rightarrow> lockf option kres" where
  "lf_getblock lock lf =
     (case lf_findoverlap OTHERS lock [] lf of
        Inl e \<Rightarrow> Inl e
      | Inr (0, _, _) \<Rightarrow> Inr None
      | Inr (_, _, []) \<Rightarrow> Inr None
      | Inr (_, _, overlap # r) \<Rightarrow>
          if lf_type lock = F_WRLCK \<or> lf_type overlap = F_WRLCK then Inr (Some overlap)
          else lf_getblock lock r)"
  by pat_completeness auto
termination
  by (relation "measure (\<lambda>(lock, lf). length lf)") (auto dest: lf_findoverlap_length)

declare lf_getblock.simps [simp del]

section \<open>Waking and splitting\<close>

text \<open>\<open>lf_wakelock\<close> on the list of waiters it has taken off the lock.\<close>

definition lf_wake :: "nat list \<Rightarrow> lkstate \<Rightarrow> lkstate" where
  "lf_wake ws st =
     st\<lparr>lk_wait := (\<lambda>a. if a \<in> set ws
                         then map_option (\<lambda>l. l\<lparr>lf_next := None, lf_block := []\<rparr>) (lk_wait st a)
                         else lk_wait st a),
        p_lockwchan := (\<lambda>p. case p_lockwchan st p of None \<Rightarrow> None
                                | Some a \<Rightarrow> if a \<in> set ws then None else Some a)\<rparr>"

definition lf_wakelock :: "lockf \<Rightarrow> lkstate \<Rightarrow> lockf \<times> lkstate" where
  "lf_wakelock listhead st = (listhead\<lparr>lf_block := []\<rparr>, lf_wake (lf_block listhead) st)"

definition lf_addblock :: "lockf \<Rightarrow> nat list \<Rightarrow> lockf" where
  "lf_addblock lock blocked = lock\<lparr>lf_block := lf_block lock @ blocked\<rparr>"

text \<open>
  With \<open>r\<close> what follows \<open>lock1\<close>: the new \<open>lock1\<close>, what then follows it, what follows
  \<open>lock2\<close>, and the next free address.
\<close>

definition lf_split :: "lockf \<Rightarrow> lockf \<Rightarrow> lockf list \<Rightarrow> nat \<Rightarrow> lockf \<times> lockf list \<times> lockf list \<times> nat" where
  "lf_split lock1 lock2 r a =
     (if lf_start lock1 = lf_start lock2 then
        let lock1 = lock1\<lparr>lf_start := s_quad (lf_end lock2 + 1)\<rparr> in (lock1, r, lock1 # r, a)
      else if lf_end lock1 = lf_end lock2 then
        (lock1\<lparr>lf_end := s_quad (lf_start lock2 - 1)\<rparr>, lock2 # r, r, a)
      else
        let splitlock = lock1\<lparr>lf_addr := a, lf_start := s_quad (lf_end lock2 + 1), lf_block := []\<rparr>
        in (lock1\<lparr>lf_end := s_quad (lf_start lock2 - 1)\<rparr>, lock2 # splitlock # r, splitlock # r, a + 1))"

section \<open>Removing\<close>

text \<open>The loop of \<open>lf_clearlock\<close>: \<open>pre\<close> are the locks before \<open>*prev\<close>.\<close>

function lf_clear_loop ::
  "lockf \<Rightarrow> lockf list \<Rightarrow> lockf list \<Rightarrow> lkstate \<Rightarrow> (lockf list \<times> lkstate) kres" where
  "lf_clear_loop unlock pre lf st =
     (case lf_findoverlap SELF unlock pre lf of
        Inl e \<Rightarrow> Inl e
      | Inr (n, pre, []) \<Rightarrow> Inr (pre, st)
      | Inr (n, pre, ov # r) \<Rightarrow>
          if n = 0 then Inr (pre @ ov # r, st)
          else
            let (overlap, st) = lf_wakelock ov st
            in if n = 1 then Inr (pre @ r, st)
               else if n = 2 then
                 if lf_start overlap = lf_start unlock then
                   Inr (pre @ overlap\<lparr>lf_start := s_quad (lf_end unlock + 1)\<rparr> # r, st)
                 else
                   let (overlap, _, r', a) = lf_split overlap unlock r (lk_addr st)
                   in Inr (pre @ overlap # r', st\<lparr>lk_addr := a\<rparr>)
               else if n = 3 then lf_clear_loop unlock pre r st
               else if n = 4 then
                 lf_clear_loop unlock (pre @ [overlap\<lparr>lf_end := s_quad (lf_start unlock - 1)\<rparr>]) r st
               else Inr (pre @ overlap\<lparr>lf_start := s_quad (lf_end unlock + 1)\<rparr> # r, st))"
  by pat_completeness auto
termination
  by (relation "measure (\<lambda>(unlock, pre, lf, st). length lf)") (auto dest: lf_findoverlap_length)

declare lf_clear_loop.simps [simp del]

definition lf_clearlock :: "lockf \<Rightarrow> lkstate \<Rightarrow> lkstate kres" where
  "lf_clearlock unlock st =
     (let ip = lf_inode unlock
      in if i_lockf st ip = [] then Inr st
         else bindE (lf_clear_loop unlock [] (i_lockf st ip) st) (\<lambda>(xs, st).
                Inr (st\<lparr>i_lockf := (i_lockf st)(ip := xs)\<rparr>)))"

section \<open>Adding\<close>

text \<open>
  The second loop of \<open>lf_setlock\<close>. Once \<open>lock\<close> is linked it is one of \<open>pre\<close>:
  \<open>lf_put\<close> is an assignment to its fields, \<open>lf_cut\<close> the locks before it, which is what
  linking it in again at a later place leaves of \<open>pre\<close>. Cases 1 and 2 free \<open>lock\<close>: once
  it is linked the list would keep a freed structure, \<open>BadAccess\<close>.
\<close>

definition lf_put :: "lockf \<Rightarrow> lockf list \<Rightarrow> lockf list" where
  "lf_put lock xs = map (\<lambda>l. if lf_addr l = lf_addr lock then lock else l) xs"

definition lf_cut :: "lockf \<Rightarrow> lockf list \<Rightarrow> lockf list" where
  "lf_cut lock xs = takeWhile (\<lambda>l. lf_addr l \<noteq> lf_addr lock) xs"

function lf_set_loop ::
  "bool \<Rightarrow> lockf \<Rightarrow> lockf list \<Rightarrow> lockf list \<Rightarrow> lkstate \<Rightarrow> (lockf list \<times> lkstate) kres" where
  "lf_set_loop needtolink lock pre block st =
     (case lf_findoverlap SELF lock pre block of
        Inl e \<Rightarrow> Inl e
      | Inr (n, pre, []) \<Rightarrow> Inr (pre @ (if needtolink then [lock] else []), st)
      | Inr (n, pre, overlap # r) \<Rightarrow>
          if n = 0 then Inr (pre @ (if needtolink then [lock] else []) @ overlap # r, st)
          else if \<not> needtolink \<and> (n = 1 \<or> n = 2 \<and> lf_type overlap = lf_type lock) then Inl BadAccess
          else if n = 1 then
            let (overlap, st) =
              (if lf_type lock = F_RDLCK \<and> lf_type overlap = F_WRLCK then lf_wakelock overlap st
               else (overlap, st))
            in Inr (pre @ overlap\<lparr>lf_type := lf_type lock\<rparr> # r, st)
          else if n = 2 then
            if lf_type overlap = lf_type lock then Inr (pre @ overlap # r, st)
            else if lf_start overlap = lf_start lock then
              let (overlap, st) = lf_wakelock (overlap\<lparr>lf_start := s_quad (lf_end lock + 1)\<rparr>) st
              in Inr (lf_cut lock pre @ lock # overlap # r, st)
            else
              let (overlap, r', _, a) = lf_split overlap lock r (lk_addr st);
                  (overlap, st) = lf_wakelock overlap (st\<lparr>lk_addr := a\<rparr>)
              in Inr (lf_cut lock (pre @ [overlap]) @ r', st)
          else if n = 3 then
            let (lock, st) =
              (if lf_type lock = F_RDLCK \<and> lf_type overlap = F_WRLCK
               then (lock, snd (lf_wakelock overlap st))
               else (lf_addblock (lock\<lparr>lf_block := lf_block overlap\<rparr>) (lf_block lock), st))
            in lf_set_loop False lock
                 (if needtolink then pre @ [lock] else lf_put lock pre) r st
          else if n = 4 then
            let (overlap, st) = lf_wakelock (overlap\<lparr>lf_end := s_quad (lf_start lock - 1)\<rparr>) st
            in lf_set_loop False lock (lf_cut lock (pre @ [overlap]) @ [lock]) r st
          else
            let (overlap, st) = lf_wakelock (overlap\<lparr>lf_start := s_quad (lf_end lock + 1)\<rparr>) st
            in Inr (pre @ (if needtolink then [lock] else []) @ overlap # r, st))"
  by pat_completeness auto
termination
  by (relation "measure (\<lambda>(b, lock, pre, lf, st). length lf)") (auto dest: lf_findoverlap_length)

declare lf_set_loop.simps [simp del]

text \<open>The walk along the wait channels: whether it comes back to the owner of \<open>lock\<close>.\<close>

fun lf_deadlock :: "nat \<Rightarrow> lkstate \<Rightarrow> nat \<Rightarrow> nat \<Rightarrow> bool kres" where
  "lf_deadlock 0 st me wproc = Inr False"
| "lf_deadlock (Suc i) st me wproc =
     (case p_lockwchan st wproc of
        None \<Rightarrow> Inr False
      | Some a \<Rightarrow>
          (case lk_wait st a of
             None \<Rightarrow> Inl BadAccess
           | Some w \<Rightarrow>
               (case find (\<lambda>l. Some (lf_addr l) = lf_next w) (i_lockf st (lf_inode w)) of
                  None \<Rightarrow> Inl BadAccess
                | Some waitblock \<Rightarrow>
                    if F_POSIX \<notin> lf_flags waitblock then Inr False
                    else if lf_id waitblock = me then Inr True
                    else lf_deadlock i st me (lf_id waitblock))))"

datatype lkres = Ret "errno option" | Asleep

text \<open>
  One turn of the first loop of \<open>lf_setlock\<close>, run by process \<open>p\<close>, and what follows the loop:
  it returns, or goes to sleep in \<open>tsleep\<close>.
\<close>

definition lf_setlock :: "nat \<Rightarrow> lockf \<Rightarrow> lkstate \<Rightarrow> (lkres \<times> lkstate) kres" where
  "lf_setlock p lock st =
     (let ip = lf_inode lock
      in bindE (lf_getblock lock (i_lockf st ip)) (\<lambda>block.
         case block of
           None \<Rightarrow>
             bindE (lf_set_loop True lock [] (i_lockf st ip) st) (\<lambda>(xs, st).
               Inr (Ret None, st\<lparr>i_lockf := (i_lockf st)(ip := xs)\<rparr>))
         | Some block \<Rightarrow>
             if F_WAIT \<notin> lf_flags lock then Inr (Ret (Some EAGAIN), st)
             else
               bindE (if F_POSIX \<in> lf_flags lock \<and> F_POSIX \<in> lf_flags block
                      then lf_deadlock MAXDEPTH st (lf_id lock) (lf_id block) else Inr False) (\<lambda>dead.
               if dead then Inr (Ret (Some EDEADLK), st)
               else
                 bindE (if F_FLOCK \<in> lf_flags lock \<and> lf_type lock = F_WRLCK
                        then lf_clearlock (lock\<lparr>lf_type := F_UNLCK\<rparr>) st else Inr st) (\<lambda>st.
                 Inr (Asleep,
                   st\<lparr>lk_wait := (lk_wait st)(lf_addr lock \<mapsto> lock\<lparr>lf_next := Some (lf_addr block)\<rparr>),
                      p_lockwchan := (p_lockwchan st)(p \<mapsto> lf_addr lock),
                      i_lockf := (i_lockf st)(ip := map (\<lambda>l. if lf_addr l = lf_addr block
                        then lf_addblock l [lf_addr lock] else l) (i_lockf st ip))\<rparr>)))))"

text \<open>
  What follows a \<open>tsleep\<close> that returns an error: the lock is taken off the list of
  waiters of the lock it waits for.
\<close>

definition lf_interrupted :: "nat \<Rightarrow> nat \<Rightarrow> lkstate \<Rightarrow> lkstate kres" where
  "lf_interrupted p a st =
     (case lk_wait st a of
        None \<Rightarrow> Inl BadAccess
      | Some lock \<Rightarrow>
          (case lf_next lock of
             None \<Rightarrow> Inl (Panic ''lf_setlock: lost lock'')
           | Some b \<Rightarrow>
               (case find (\<lambda>l. lf_addr l = b) (i_lockf st (lf_inode lock)) of
                  None \<Rightarrow> Inl BadAccess
                | Some block \<Rightarrow>
                    if a \<notin> set (lf_block block) then Inl (Panic ''lf_setlock: lost lock'')
                    else Inr (st\<lparr>lk_wait := (lk_wait st)(a := None),
                      p_lockwchan := (p_lockwchan st)(p := None),
                      i_lockf := (i_lockf st)(lf_inode lock := map (\<lambda>l. if lf_addr l = b
                        then l\<lparr>lf_block := remove1 a (lf_block l)\<rparr> else l)
                        (i_lockf st (lf_inode lock)))\<rparr>))))"

section \<open>Testing, and the vnode operation\<close>

datatype lwhence = SEEK_SET | SEEK_CUR | SEEK_END | SEEK_bad

record flock =
  l_type :: ltype
  l_whence :: lwhence
  l_start :: int
  l_len :: int
  l_pid :: int

definition lf_getlock :: "(nat \<Rightarrow> int) \<Rightarrow> lockf \<Rightarrow> flock \<Rightarrow> lkstate \<Rightarrow> flock kres" where
  "lf_getlock pid lock fl st =
     bindE (lf_getblock lock (i_lockf st (lf_inode lock))) (\<lambda>block.
     Inr (case block of
            Some block \<Rightarrow>
              fl\<lparr>l_type := lf_type block, l_whence := SEEK_SET, l_start := lf_start block,
                 l_len := (if lf_end block = - 1 then 0
                           else s_quad (lf_end block - lf_start block + 1)),
                 l_pid := (if F_POSIX \<in> lf_flags block then pid (lf_id block) else - 1)\<rparr>
          | None \<Rightarrow> fl\<lparr>l_type := F_UNLCK\<rparr>))"

datatype advop = ADV_SETLK | ADV_UNLCK | ADV_GETLK | ADV_other

text \<open>\<open>isize\<close> are the sizes of the files, \<open>pid\<close> the process identifiers.\<close>

definition ufs_advlock ::
  "(nat \<Rightarrow> int) \<Rightarrow> (nat \<Rightarrow> int) \<Rightarrow> nat \<Rightarrow> nat \<Rightarrow> nat \<Rightarrow> advop \<Rightarrow> flock \<Rightarrow> lflag set \<Rightarrow> lkstate
    \<Rightarrow> (lkres \<times> flock \<times> lkstate) kres" where
  "ufs_advlock isize pid p ip id' op' fl flags st =
     (if i_lockf st ip = [] \<and> op' \<noteq> ADV_SETLK then Inr (Ret None, fl\<lparr>l_type := F_UNLCK\<rparr>, st)
      else if l_whence fl = SEEK_bad then Inr (Ret (Some EINVAL), fl, st)
      else
        let start = (if l_whence fl = SEEK_END then s_quad (isize ip + l_start fl) else l_start fl)
        in if start < 0 then Inr (Ret (Some EINVAL), fl, st)
           else
             let end' = (if l_len fl = 0 then - 1 else s_quad (start + l_len fl - 1));
                 lock = \<lparr>lf_addr = lk_addr st, lf_flags = flags, lf_type = l_type fl, lf_start = start,
                   lf_end = end', lf_id = id', lf_inode = ip, lf_next = None, lf_block = []\<rparr>;
                 st = st\<lparr>lk_addr := lk_addr st + 1\<rparr>
             in (case op' of
                   ADV_SETLK \<Rightarrow> bindE (lf_setlock p lock st) (\<lambda>(r, st). Inr (r, fl, st))
                 | ADV_UNLCK \<Rightarrow> bindE (lf_clearlock lock st) (\<lambda>st. Inr (Ret None, fl, st))
                 | ADV_GETLK \<Rightarrow> bindE (lf_getlock pid lock fl st) (\<lambda>fl. Inr (Ret None, fl, st))
                 | ADV_other \<Rightarrow> Inr (Ret (Some EINVAL), fl, st)))"

end
