(* ===== verification/Filedesc.thy ===== *)
theory Filedesc
  imports Lockf
begin

text \<open>
  File descriptors, \<open>sys/kern/kern_descrip.c\<close> with \<open>sys/sys/filedesc.h\<close>,
  \<open>sys/sys/file.h\<close> and \<open>sys/sys/fcntl.h\<close>. Open files have an address; a descriptor table
  is a list of addresses. What the vnode and socket layers do is in \<open>fdenv\<close>, with the state
  of the rest of the kernel as its argument. Counting the references of credentials is left out.
\<close>

unbundle bit_operations_syntax

section \<open>Tables and files\<close>

datatype fduflag = UF_EXCLOSE | UF_MAPPED
datatype ftype = DTYPE_VNODE | DTYPE_SOCKET | DTYPE_other

definition NDFILE :: int where "NDFILE = 20"
definition NDEXTENT :: int where "NDEXTENT = 50"

definition FREAD :: "16 word" where "FREAD = 0x0001"
definition FWRITE :: "16 word" where "FWRITE = 0x0002"
definition FNONBLOCK :: "16 word" where "FNONBLOCK = 0x0004"
definition FAPPEND :: "16 word" where "FAPPEND = 0x0008"
definition FASYNC :: "16 word" where "FASYNC = 0x0040"
definition FFSYNC :: "16 word" where "FFSYNC = 0x0080"
definition FHASLOCK :: "16 word" where "FHASLOCK = 0x4000"
definition FCNTLFLAGS :: "16 word" where "FCNTLFLAGS = FAPPEND OR FASYNC OR FFSYNC OR FNONBLOCK"
definition FFLAGS :: "16 word \<Rightarrow> 16 word" where "FFLAGS oflags = oflags + 1"
definition OFLAGS :: "16 word \<Rightarrow> 16 word" where "OFLAGS fflags = fflags - 1"

record filedesc =
  fd_ofiles :: "nat option list"
  fd_ofileflags :: "fduflag set list"
  fd_cdir :: nat
  fd_rdir :: "nat option"
  fd_nfiles :: int
  fd_lastfile :: int
  fd_freefile :: int
  fd_cmask :: int
  fd_refcnt :: int

record ofile =
  f_flag :: "16 word"
  f_type :: ftype
  f_count :: int
  f_msgcount :: int
  f_offset :: int
  f_cred :: nat
  f_data :: nat

text \<open>
  The process that makes the call, the open files with their list from \<open>filehead\<close> on, the next
  address allocated, what the memory for the next file holds, and the rest of the kernel.
\<close>

record 'k fdstate =
  p_fd :: filedesc
  p_addr :: nat
  p_rlim_ofile :: int
  p_sadvlck :: bool
  p_dupfd :: int
  p_ucred :: nat
  files :: "nat \<Rightarrow> ofile option"
  filehead :: "nat list"
  nfiles :: int
  maxfiles :: int
  file_addr :: nat
  malloc_file :: ofile
  kern :: 'k

datatype ioctl_cmd = FIONBIO | FIOASYNC | TIOCGPGRP | TIOCSPGRP

text \<open>
  The operations behind the descriptors: \<open>VOP_ADVLOCK\<close> (vnode, process, owner, operation, lock,
  flags), \<open>fo_close\<close>, \<open>fo_ioctl\<close> with the word it reads or writes, the process group
  of a socket, \<open>pfind\<close> with the process group found, copying lock structures and status from and to
  the user, and references of vnodes.
\<close>

record 'k fdenv =
  vop_advlock :: "nat \<Rightarrow> nat \<Rightarrow> nat \<Rightarrow> advop \<Rightarrow> flock \<Rightarrow> lflag set \<Rightarrow> 'k \<Rightarrow> (lkres \<times> flock \<times> 'k) kres"
  fo_close :: "nat \<Rightarrow> 'k \<Rightarrow> errno option \<times> 'k"
  fo_ioctl :: "nat \<Rightarrow> ioctl_cmd \<Rightarrow> int \<Rightarrow> 'k \<Rightarrow> errno option \<times> int \<times> 'k"
  so_pgid :: "nat \<Rightarrow> 'k \<Rightarrow> int"
  set_so_pgid :: "nat \<Rightarrow> int \<Rightarrow> 'k \<Rightarrow> 'k"
  pfind_pgrp :: "int \<Rightarrow> 'k \<Rightarrow> int option"
  copyin_flock :: "int \<Rightarrow> 'k \<Rightarrow> errno + flock"
  copyout_flock :: "flock \<Rightarrow> int \<Rightarrow> 'k \<Rightarrow> errno option \<times> 'k"
  fo_stat :: "ftype \<Rightarrow> nat \<Rightarrow> 'k \<Rightarrow> errno + nat"
  copyout_stat :: "nat \<Rightarrow> int \<Rightarrow> 'k \<Rightarrow> errno option \<times> 'k"
  munmapfd :: "int \<Rightarrow> 'k \<Rightarrow> 'k"
  VREF :: "nat \<Rightarrow> 'k \<Rightarrow> 'k"
  vrele :: "nat \<Rightarrow> 'k \<Rightarrow> 'k"

text \<open>The value an \<open>u_short\<close> keeps.\<close>

definition u_short16 :: "int \<Rightarrow> int" where "u_short16 i = i mod 65536"

lemma u_short16_id [simp]: "0 \<le> i \<Longrightarrow> i < 65536 \<Longrightarrow> u_short16 i = i"
  by (simp add: u_short16_def)

text \<open>The test that begins the system calls: the file of descriptor \<open>fd\<close>.\<close>

definition fd_file :: "filedesc \<Rightarrow> int \<Rightarrow> nat option" where
  "fd_file fdp fd = (if u_int (fd_nfiles fdp) \<le> u_int fd then None else fd_ofiles fdp ! nat (u_int fd))"

definition set_ofile :: "int \<Rightarrow> nat option \<Rightarrow> filedesc \<Rightarrow> filedesc" where
  "set_ofile i v fdp = fdp\<lparr>fd_ofiles := (fd_ofiles fdp)[nat i := v]\<rparr>"

definition set_ofileflags :: "int \<Rightarrow> fduflag set \<Rightarrow> filedesc \<Rightarrow> filedesc" where
  "set_ofileflags i v fdp = fdp\<lparr>fd_ofileflags := (fd_ofileflags fdp)[nat i := v]\<rparr>"

definition raise_lastfile :: "int \<Rightarrow> filedesc \<Rightarrow> filedesc" where
  "raise_lastfile i fdp = (if fd_lastfile fdp < i then fdp\<lparr>fd_lastfile := u_short16 i\<rparr> else fdp)"

definition hold_file :: "nat \<Rightarrow> ('k, 'm) fdstate_scheme \<Rightarrow> ('k, 'm) fdstate_scheme" where
  "hold_file fp st = st\<lparr>files := (files st)(fp := map_option (\<lambda>f. f\<lparr>f_count := f_count f + 1\<rparr>) (files st fp))\<rparr>"

section \<open>Allocating descriptors\<close>

fun fd_find :: "nat option list \<Rightarrow> int \<Rightarrow> nat \<Rightarrow> int option" where
  "fd_find ofiles i 0 = None"
| "fd_find ofiles i (Suc n) = (if ofiles ! nat i = None then Some i else fd_find ofiles (i + 1) n)"

text \<open>The larger table: the new entries are cleared.\<close>

definition fd_expand :: "int \<Rightarrow> filedesc \<Rightarrow> filedesc" where
  "fd_expand n fdp =
     fdp\<lparr>fd_ofiles := fd_ofiles fdp @ replicate (nat (n - fd_nfiles fdp)) None,
         fd_ofileflags := fd_ofileflags fdp @ replicate (nat (n - fd_nfiles fdp)) {},
         fd_nfiles := n\<rparr>"

text \<open>\<open>min\<close> is that of the kernel library, on \<open>u_int\<close>.\<close>

function fdalloc_loop :: "int \<Rightarrow> int \<Rightarrow> filedesc \<Rightarrow> (errno + int) \<times> filedesc" where
  "fdalloc_loop lim want fdp =
     (let last = s_int (min (u_int (fd_nfiles fdp)) (u_int lim));
          i = (if want < fd_freefile fdp then fd_freefile fdp else want)
      in case fd_find (fd_ofiles fdp) i (nat (last - i)) of
           Some i \<Rightarrow>
             (Inr i,
              let fdp = raise_lastfile i (set_ofileflags i {} fdp)
              in if want \<le> fd_freefile fdp then fdp\<lparr>fd_freefile := u_short16 i\<rparr> else fdp)
         | None \<Rightarrow>
             if lim \<le> fd_nfiles fdp then (Inl EMFILE, fdp)
             else fdalloc_loop lim want
                    (fd_expand (if fd_nfiles fdp < NDEXTENT then NDEXTENT else 2 * fd_nfiles fdp) fdp))"
  by pat_completeness auto
termination
  by (relation "measure (\<lambda>(lim, want, fdp). nat (lim - fd_nfiles fdp))")
    (auto simp: fd_expand_def NDEXTENT_def)

declare fdalloc_loop.simps [simp del]

definition fdalloc :: "int \<Rightarrow> ('k, 'm) fdstate_scheme \<Rightarrow> (errno + int) \<times> ('k, 'm) fdstate_scheme" where
  "fdalloc want st =
     (case fdalloc_loop (s_int (p_rlim_ofile st)) want (p_fd st) of (r, fdp) \<Rightarrow> (r, st\<lparr>p_fd := fdp\<rparr>))"

text \<open>The loop of \<open>fdavail\<close> over the free entries.\<close>

fun fd_count_free :: "int \<Rightarrow> nat option list \<Rightarrow> bool" where
  "fd_count_free n [] = False"
| "fd_count_free n (f # fs) =
     (if f = None then (if n - 1 \<le> 0 then True else fd_count_free (n - 1) fs) else fd_count_free n fs)"

definition fdavail :: "int \<Rightarrow> ('k, 'm) fdstate_scheme \<Rightarrow> bool" where
  "fdavail n st =
     (let fdp = p_fd st; i = p_rlim_ofile st - fd_nfiles fdp; n' = (if 0 < i then n - i else n)
      in (0 < i \<and> n' \<le> 0) \<or>
         fd_count_free n' (take (nat (fd_nfiles fdp - fd_freefile fdp)) (drop (nat (fd_freefile fdp)) (fd_ofiles fdp))))"

definition insert_after :: "nat option \<Rightarrow> nat \<Rightarrow> nat list \<Rightarrow> nat list" where
  "insert_after q fp fs =
     (case q of None \<Rightarrow> fp # fs
      | Some q \<Rightarrow> takeWhile (\<lambda>x. x \<noteq> q) fs @ q # fp # tl (dropWhile (\<lambda>x. x \<noteq> q) fs))"

text \<open>The result is the new file and its descriptor.\<close>

definition falloc :: "('k, 'm) fdstate_scheme \<Rightarrow> (errno + nat \<times> int) \<times> ('k, 'm) fdstate_scheme" where
  "falloc st =
     (case fdalloc 0 st of
        (Inl e, st) \<Rightarrow> (Inl e, st)
      | (Inr i, st) \<Rightarrow>
          if maxfiles st \<le> nfiles st then (Inl ENFILE, st)
          else
            let fp = file_addr st;
                f = (malloc_file st)\<lparr>f_count := 1, f_msgcount := 0, f_offset := 0, f_cred := p_ucred st\<rparr>
            in (Inr (fp, i),
                st\<lparr>nfiles := nfiles st + 1, file_addr := fp + 1,
                   filehead := insert_after (fd_ofiles (p_fd st) ! 0) fp (filehead st),
                   p_fd := set_ofile i (Some fp) (p_fd st), files := (files st)(fp \<mapsto> f)\<rparr>))"

section \<open>Closing files\<close>

definition ffree :: "nat \<Rightarrow> ('k, 'm) fdstate_scheme \<Rightarrow> ('k, 'm) fdstate_scheme" where
  "ffree fp st =
     st\<lparr>filehead := removeAll fp (filehead st), nfiles := nfiles st - 1, files := (files st)(fp := None)\<rparr>"

text \<open>Unlocking a whole file; what it returns is ignored.\<close>

definition whole_file :: "ltype \<Rightarrow> flock" where
  "whole_file t = \<lparr>l_type = t, l_whence = SEEK_SET, l_start = 0, l_len = 0, l_pid = 0\<rparr>"

definition unlock_file ::
  "'k fdenv \<Rightarrow> nat \<Rightarrow> nat \<Rightarrow> lflag \<Rightarrow> ('k, 'm) fdstate_scheme \<Rightarrow> ('k, 'm) fdstate_scheme kres" where
  "unlock_file e vp owner fl st =
     bindE (vop_advlock e vp (p_addr st) owner ADV_UNLCK (whole_file F_UNLCK) {fl} (kern st))
       (\<lambda>(_, _, k). Inr (st\<lparr>kern := k\<rparr>))"

text \<open>\<open>inproc\<close>: the argument \<open>p\<close> is not the null pointer.\<close>

definition closef ::
  "'k fdenv \<Rightarrow> bool \<Rightarrow> nat \<Rightarrow> ('k, 'm) fdstate_scheme \<Rightarrow> (errno option \<times> ('k, 'm) fdstate_scheme) kres" where
  "closef e inproc fp st =
     (case files st fp of
        None \<Rightarrow> Inl BadAccess
      | Some f \<Rightarrow>
          bindE (if inproc \<and> p_sadvlck st \<and> f_type f = DTYPE_VNODE
                 then unlock_file e (f_data f) (p_addr st) F_POSIX st else Inr st) (\<lambda>st.
          let st = st\<lparr>files := (files st)(fp \<mapsto> f\<lparr>f_count := f_count f - 1\<rparr>)\<rparr>
          in if 0 < f_count f - 1 then Inr (None, st)
             else if f_count f - 1 < 0 then Inl (Panic ''closef: count < 0'')
             else
               bindE (if f_flag f AND FHASLOCK \<noteq> 0 \<and> f_type f = DTYPE_VNODE
                      then unlock_file e (f_data f) fp F_FLOCK st else Inr st) (\<lambda>st.
               case fo_close e fp (kern st) of
                 (error, k) \<Rightarrow> Inr (error, ffree fp (st\<lparr>kern := k\<rparr>)))))"

section \<open>The system calls\<close>

definition getdtablesize :: "('k, 'm) fdstate_scheme \<Rightarrow> int" where
  "getdtablesize st = p_rlim_ofile st"

text \<open>What the duplicating calls do with the descriptor found: \<open>fl\<close> are the flags of the old one.\<close>

definition install_fd :: "int \<Rightarrow> nat \<Rightarrow> fduflag set \<Rightarrow> ('k, 'm) fdstate_scheme \<Rightarrow> ('k, 'm) fdstate_scheme" where
  "install_fd fd fp fl st =
     (let fdp = set_ofileflags fd (fl - {UF_EXCLOSE}) (set_ofile fd (Some fp) (p_fd st))
      in hold_file fp (st\<lparr>p_fd := raise_lastfile fd fdp\<rparr>))"

text \<open>\<open>dup2\<close> makes room for the new descriptor, or closes the file it refers to.\<close>

definition dup2_prepare ::
  "'k fdenv \<Rightarrow> int \<Rightarrow> ('k, 'm) fdstate_scheme \<Rightarrow> (errno option \<times> ('k, 'm) fdstate_scheme) kres" where
  "dup2_prepare e new st =
     (let fdp = p_fd st
      in if u_int (fd_nfiles fdp) \<le> new then
           (case fdalloc (s_int new) st of
              (Inl err, st) \<Rightarrow> Inr (Some err, st)
            | (Inr i, st) \<Rightarrow> if new \<noteq> u_int i then Inl (Panic ''dup2: fdalloc'') else Inr (None, st))
         else (case fd_ofiles fdp ! nat new of
                 None \<Rightarrow> Inr (None, st)
               | Some fq \<Rightarrow>
                   bindE (closef e True fq
                       (if UF_MAPPED \<in> fd_ofileflags fdp ! nat new
                        then st\<lparr>kern := munmapfd e new (kern st)\<rparr> else st))
                     (\<lambda>(_, st). Inr (None, st))))"

text \<open>The arguments of \<open>dup2\<close> are unsigned.\<close>

definition dup2 ::
  "'k fdenv \<Rightarrow> int \<Rightarrow> int \<Rightarrow> ('k, 'm) fdstate_scheme \<Rightarrow> ((errno + int) \<times> ('k, 'm) fdstate_scheme) kres" where
  "dup2 e from' to st =
     (let old = u_int from'; new = u_int to
      in case fd_file (p_fd st) old of
           None \<Rightarrow> Inr (Inl EBADF, st)
         | Some fp \<Rightarrow>
             if p_rlim_ofile st \<le> new then Inr (Inl EBADF, st)
             else if old = new then Inr (Inr new, st)
             else
               bindE (dup2_prepare e new st) (\<lambda>(err, st).
               case err of
                 Some err \<Rightarrow> Inr (Inl err, st)
               | None \<Rightarrow> Inr (Inr new, install_fd new fp (fd_ofileflags (p_fd st) ! nat old) st)))"

text \<open>\<open>next\<close> is the word behind the argument, which the compatibility case takes for \<open>to\<close>.\<close>

definition dup ::
  "'k fdenv \<Rightarrow> int \<Rightarrow> int \<Rightarrow> ('k, 'm) fdstate_scheme \<Rightarrow> ((errno + int) \<times> ('k, 'm) fdstate_scheme) kres" where
  "dup e i next' st =
     (if i < 0 \<or> 63 < i then dup2 e (i mod 64) next' st
      else case fd_file (p_fd st) i of
             None \<Rightarrow> Inr (Inl EBADF, st)
           | Some fp \<Rightarrow>
               Inr (case fdalloc 0 st of
                      (Inl err, st) \<Rightarrow> (Inl err, st)
                    | (Inr fd, st) \<Rightarrow> (Inr fd, install_fd fd fp (fd_ofileflags (p_fd st) ! nat i) st)))"

text \<open>The loop that lowers \<open>fd_lastfile\<close>.\<close>

fun lower_lastfile :: "nat option list \<Rightarrow> nat \<Rightarrow> nat" where
  "lower_lastfile ofiles 0 = 0"
| "lower_lastfile ofiles (Suc n) = (if ofiles ! Suc n = None then lower_lastfile ofiles n else Suc n)"

definition trim_lastfile :: "filedesc \<Rightarrow> filedesc" where
  "trim_lastfile fdp = fdp\<lparr>fd_lastfile := int (lower_lastfile (fd_ofiles fdp) (nat (fd_lastfile fdp)))\<rparr>"

definition close ::
  "'k fdenv \<Rightarrow> int \<Rightarrow> ('k, 'm) fdstate_scheme \<Rightarrow> (errno option \<times> ('k, 'm) fdstate_scheme) kres" where
  "close e fd st =
     (case fd_file (p_fd st) fd of
        None \<Rightarrow> Inr (Some EBADF, st)
      | Some fp \<Rightarrow>
          let st = (if UF_MAPPED \<in> fd_ofileflags (p_fd st) ! nat fd
                    then st\<lparr>kern := munmapfd e fd (kern st)\<rparr> else st);
              fdp = trim_lastfile (set_ofile fd None (p_fd st));
              fdp = (if fd < fd_freefile fdp then fdp\<lparr>fd_freefile := u_short16 fd\<rparr> else fdp)
          in closef e True fp (st\<lparr>p_fd := set_ofileflags fd {} fdp\<rparr>))"

definition fstat ::
  "'k fdenv \<Rightarrow> int \<Rightarrow> int \<Rightarrow> ('k, 'm) fdstate_scheme \<Rightarrow> (errno option \<times> ('k, 'm) fdstate_scheme) kres" where
  "fstat e fd sb st =
     (case fd_file (p_fd st) fd of
        None \<Rightarrow> Inr (Some EBADF, st)
      | Some fp \<Rightarrow>
          (case files st fp of
             None \<Rightarrow> Inl BadAccess
           | Some f \<Rightarrow>
               if f_type f = DTYPE_other then Inl (Panic ''fstat'')
               else (case fo_stat e (f_type f) (f_data f) (kern st) of
                       Inl err \<Rightarrow> Inr (Some err, st)
                     | Inr ub \<Rightarrow> (case copyout_stat e ub sb (kern st) of (err, k) \<Rightarrow> Inr (err, st\<lparr>kern := k\<rparr>)))))"

section \<open>fcntl and flock\<close>

datatype fcntl_cmd =
  F_DUPFD | F_GETFD | F_SETFD | F_GETFL | F_SETFL | F_GETOWN | F_SETOWN | F_GETLK | F_SETLK | F_SETLKW
| F_othercmd

definition do_ioctl ::
  "'k fdenv \<Rightarrow> nat \<Rightarrow> ioctl_cmd \<Rightarrow> int \<Rightarrow> ('k, 'm) fdstate_scheme
    \<Rightarrow> errno option \<times> int \<times> ('k, 'm) fdstate_scheme" where
  "do_ioctl e fp c w st = (case fo_ioctl e fp c w (kern st) of (err, w, k) \<Rightarrow> (err, w, st\<lparr>kern := k\<rparr>))"

definition set_f_flag :: "nat \<Rightarrow> 16 word \<Rightarrow> ('k, 'm) fdstate_scheme \<Rightarrow> ('k, 'm) fdstate_scheme" where
  "set_f_flag fp v st = st\<lparr>files := (files st)(fp := map_option (\<lambda>f. f\<lparr>f_flag := v\<rparr>) (files st fp))\<rparr>"

text \<open>
  \<open>F_DUPFD\<close> reads the flags through a pointer taken before \<open>fdalloc\<close>. When the table
  has grown, the array it points into is the one inside the structure, or has been freed.
\<close>

definition fcntl_dupfd ::
  "nat \<Rightarrow> int \<Rightarrow> int \<Rightarrow> ('k, 'm) fdstate_scheme \<Rightarrow> ((errno + int) \<times> ('k, 'm) fdstate_scheme) kres" where
  "fcntl_dupfd fp fd arg st =
     (let old = p_fd st
      in if p_rlim_ofile st \<le> u_int arg then Inr (Inl EINVAL, st)
         else case fdalloc arg st of
                (Inl err, st) \<Rightarrow> Inr (Inl err, st)
              | (Inr i, st) \<Rightarrow>
                  bindE
                    (if fd_nfiles (p_fd st) = fd_nfiles old then Inr (fd_ofileflags (p_fd st) ! nat fd)
                     else if fd_nfiles old \<le> NDFILE then Inr (fd_ofileflags old ! nat fd)
                     else Inl BadAccess) (\<lambda>pop.
                  Inr (Inr i, install_fd i fp pop st)))"

definition fcntl_setfl ::
  "'k fdenv \<Rightarrow> nat \<Rightarrow> ofile \<Rightarrow> int \<Rightarrow> ('k, 'm) fdstate_scheme \<Rightarrow> (errno + int) \<times> ('k, 'm) fdstate_scheme" where
  "fcntl_setfl e fp f arg st =
     (let fl = (f_flag f AND NOT FCNTLFLAGS) OR (FFLAGS (word_of_int arg) AND FCNTLFLAGS);
          st = set_f_flag fp fl st
      in case do_ioctl e fp FIONBIO (uint (fl AND FNONBLOCK)) st of
           (Some err, _, st) \<Rightarrow> (Inl err, st)
         | (None, _, st) \<Rightarrow>
             (case do_ioctl e fp FIOASYNC (uint (fl AND FASYNC)) st of
                (None, _, st) \<Rightarrow> (Inr 0, st)
              | (Some err, _, st) \<Rightarrow>
                  let st = set_f_flag fp (fl AND NOT FNONBLOCK) st
                  in case do_ioctl e fp FIONBIO 0 st of (_, _, st) \<Rightarrow> (Inl err, st)))"

definition fcntl_getown ::
  "'k fdenv \<Rightarrow> nat \<Rightarrow> ofile \<Rightarrow> ('k, 'm) fdstate_scheme \<Rightarrow> (errno + int) \<times> ('k, 'm) fdstate_scheme" where
  "fcntl_getown e fp f st =
     (if f_type f = DTYPE_SOCKET then (Inr (so_pgid e (f_data f) (kern st)), st)
      else case do_ioctl e fp TIOCGPGRP 0 st of
             (err, w, st) \<Rightarrow> (case err of None \<Rightarrow> Inr (- w) | Some err \<Rightarrow> Inl err, st))"

definition fcntl_setown ::
  "'k fdenv \<Rightarrow> nat \<Rightarrow> ofile \<Rightarrow> int \<Rightarrow> ('k, 'm) fdstate_scheme \<Rightarrow> (errno + int) \<times> ('k, 'm) fdstate_scheme" where
  "fcntl_setown e fp f arg st =
     (if f_type f = DTYPE_SOCKET then (Inr 0, st\<lparr>kern := set_so_pgid e (f_data f) arg (kern st)\<rparr>)
      else
        let set = (\<lambda>arg. case do_ioctl e fp TIOCSPGRP arg st of
                           (err, _, st) \<Rightarrow> (case err of None \<Rightarrow> Inr 0 | Some err \<Rightarrow> Inl err, st))
        in if arg \<le> 0 then set (s_int (- arg))
           else case pfind_pgrp e arg (kern st) of None \<Rightarrow> (Inl ESRCH, st) | Some pg \<Rightarrow> set pg)"

text \<open>\<open>VOP_ADVLOCK\<close> called by the process; a call that goes to sleep is \<open>Sleeps\<close>.\<close>

definition advlock_call ::
  "'k fdenv \<Rightarrow> nat \<Rightarrow> nat \<Rightarrow> advop \<Rightarrow> flock \<Rightarrow> lflag set \<Rightarrow> ('k, 'm) fdstate_scheme
    \<Rightarrow> (errno option \<times> flock \<times> ('k, 'm) fdstate_scheme) kres" where
  "advlock_call e vp owner op' fl flags st =
     bindE (vop_advlock e vp (p_addr st) owner op' fl flags (kern st)) (\<lambda>(r, fl, k).
       case r of Asleep \<Rightarrow> Inl Sleeps | Ret err \<Rightarrow> Inr (err, fl, st\<lparr>kern := k\<rparr>))"

definition errno_res :: "errno option \<Rightarrow> errno + int" where
  "errno_res err = (case err of None \<Rightarrow> Inr 0 | Some err \<Rightarrow> Inl err)"

text \<open>The lock structure of the user, with \<open>SEEK_CUR\<close> resolved.\<close>

definition user_flock :: "'k fdenv \<Rightarrow> ofile \<Rightarrow> int \<Rightarrow> ('k, 'm) fdstate_scheme \<Rightarrow> errno + flock" where
  "user_flock e f arg st =
     (case copyin_flock e arg (kern st) of
        Inl err \<Rightarrow> Inl err
      | Inr fl \<Rightarrow> Inr (if l_whence fl = SEEK_CUR then fl\<lparr>l_start := s_quad (l_start fl + f_offset f)\<rparr> else fl))"

definition fcntl_setlk ::
  "'k fdenv \<Rightarrow> lflag set \<Rightarrow> ofile \<Rightarrow> int \<Rightarrow> ('k, 'm) fdstate_scheme
    \<Rightarrow> ((errno + int) \<times> ('k, 'm) fdstate_scheme) kres" where
  "fcntl_setlk e flg f arg st =
     (if f_type f \<noteq> DTYPE_VNODE then Inr (Inl EBADF, st)
      else case user_flock e f arg st of
             Inl err \<Rightarrow> Inr (Inl err, st)
           | Inr fl \<Rightarrow>
               (let lock = (\<lambda>op' flags st. bindE (advlock_call e (f_data f) (p_addr st) op' fl flags st)
                      (\<lambda>(err, _, st). Inr (errno_res err, st)))
                in case l_type fl of
                     F_RDLCK \<Rightarrow> if f_flag f AND FREAD = 0 then Inr (Inl EBADF, st)
                               else lock ADV_SETLK flg (st\<lparr>p_sadvlck := True\<rparr>)
                   | F_WRLCK \<Rightarrow> if f_flag f AND FWRITE = 0 then Inr (Inl EBADF, st)
                               else lock ADV_SETLK flg (st\<lparr>p_sadvlck := True\<rparr>)
                   | F_UNLCK \<Rightarrow> lock ADV_UNLCK {F_POSIX} st
                   | F_otherlck \<Rightarrow> Inr (Inl EINVAL, st)))"

definition fcntl_getlk ::
  "'k fdenv \<Rightarrow> ofile \<Rightarrow> int \<Rightarrow> ('k, 'm) fdstate_scheme \<Rightarrow> ((errno + int) \<times> ('k, 'm) fdstate_scheme) kres" where
  "fcntl_getlk e f arg st =
     (if f_type f \<noteq> DTYPE_VNODE then Inr (Inl EBADF, st)
      else case user_flock e f arg st of
             Inl err \<Rightarrow> Inr (Inl err, st)
           | Inr fl \<Rightarrow>
               bindE (advlock_call e (f_data f) (p_addr st) ADV_GETLK fl {F_POSIX} st) (\<lambda>(err, fl, st).
               case err of
                 Some err \<Rightarrow> Inr (Inl err, st)
               | None \<Rightarrow> (case copyout_flock e fl arg (kern st) of (err, k) \<Rightarrow> Inr (errno_res err, st\<lparr>kern := k\<rparr>))))"

definition fcntl ::
  "'k fdenv \<Rightarrow> int \<Rightarrow> fcntl_cmd \<Rightarrow> int \<Rightarrow> ('k, 'm) fdstate_scheme
    \<Rightarrow> ((errno + int) \<times> ('k, 'm) fdstate_scheme) kres" where
  "fcntl e fd cmd arg st =
     (case fd_file (p_fd st) fd of
        None \<Rightarrow> Inr (Inl EBADF, st)
      | Some fp \<Rightarrow>
          (case files st fp of
             None \<Rightarrow> Inl BadAccess
           | Some f \<Rightarrow>
               (let pop = fd_ofileflags (p_fd st) ! nat fd
                in case cmd of
                     F_DUPFD \<Rightarrow> fcntl_dupfd fp fd arg st
                   | F_GETFD \<Rightarrow> Inr (Inr (if UF_EXCLOSE \<in> pop then 1 else 0), st)
                   | F_SETFD \<Rightarrow>
                       Inr (Inr 0, st\<lparr>p_fd := set_ofileflags fd
                         (pop - {UF_EXCLOSE} \<union> (if odd arg then {UF_EXCLOSE} else {})) (p_fd st)\<rparr>)
                   | F_GETFL \<Rightarrow> Inr (Inr (sint (OFLAGS (f_flag f))), st)
                   | F_SETFL \<Rightarrow> Inr (fcntl_setfl e fp f arg st)
                   | F_GETOWN \<Rightarrow> Inr (fcntl_getown e fp f st)
                   | F_SETOWN \<Rightarrow> Inr (fcntl_setown e fp f arg st)
                   | F_SETLKW \<Rightarrow> fcntl_setlk e {F_POSIX, F_WAIT} f arg st
                   | F_SETLK \<Rightarrow> fcntl_setlk e {F_POSIX} f arg st
                   | F_GETLK \<Rightarrow> fcntl_getlk e f arg st
                   | F_othercmd \<Rightarrow> Inr (Inl EINVAL, st))))"

text \<open>The bits of the argument \<open>how\<close>.\<close>

datatype lock_how = LOCK_SH | LOCK_EX | LOCK_NB | LOCK_UN

definition sys_flock ::
  "'k fdenv \<Rightarrow> int \<Rightarrow> lock_how set \<Rightarrow> ('k, 'm) fdstate_scheme
    \<Rightarrow> (errno option \<times> ('k, 'm) fdstate_scheme) kres" where
  "sys_flock e fd how st =
     (case fd_file (p_fd st) fd of
        None \<Rightarrow> Inr (Some EBADF, st)
      | Some fp \<Rightarrow>
          (case files st fp of
             None \<Rightarrow> Inl BadAccess
           | Some f \<Rightarrow>
               (let lock = (\<lambda>op' t flags st. bindE (advlock_call e (f_data f) fp op' (whole_file t) flags st)
                      (\<lambda>(err, _, st). Inr (err, st)))
                in if f_type f \<noteq> DTYPE_VNODE then Inr (Some EOPNOTSUPP, st)
                   else if LOCK_UN \<in> how then
                     lock ADV_UNLCK F_UNLCK {F_FLOCK} (set_f_flag fp (f_flag f AND NOT FHASLOCK) st)
                   else if LOCK_EX \<notin> how \<and> LOCK_SH \<notin> how then Inr (Some EBADF, st)
                   else
                     lock ADV_SETLK (if LOCK_EX \<in> how then F_WRLCK else F_RDLCK)
                       (if LOCK_NB \<in> how then {F_FLOCK} else {F_FLOCK, F_WAIT})
                       (set_f_flag fp (f_flag f OR FHASLOCK) st))))"

section \<open>Copying and releasing tables\<close>

function fd_shrink :: "int \<Rightarrow> int \<Rightarrow> int" where
  "fd_shrink lastf i = (if 2 * NDEXTENT < i \<and> lastf * 2 \<le> i then fd_shrink lastf (i div 2) else i)"
  by pat_completeness auto
termination
  by (relation "measure (\<lambda>(lastf, i). nat i)") (auto simp: NDEXTENT_def)

declare fd_shrink.simps [simp del]

text \<open>The entries 0 to \<open>last\<close> of a table, counted up: past its end there is no entry to read.\<close>

fun fd_refs :: "nat option list \<Rightarrow> nat \<Rightarrow> nat \<Rightarrow> ('k, 'm) fdstate_scheme \<Rightarrow> ('k, 'm) fdstate_scheme kres" where
  "fd_refs ofiles j 0 st = Inr st"
| "fd_refs ofiles j (Suc n) st =
     (if length ofiles \<le> j then Inl BadAccess
      else fd_refs ofiles (j + 1) n (case ofiles ! j of None \<Rightarrow> st | Some fp \<Rightarrow> hold_file fp st))"

definition fdcopy :: "'k fdenv \<Rightarrow> ('k, 'm) fdstate_scheme \<Rightarrow> (filedesc \<times> ('k, 'm) fdstate_scheme) kres" where
  "fdcopy e st =
     (let fdp = p_fd st;
          k = VREF e (fd_cdir fdp) (kern st);
          k = (case fd_rdir fdp of None \<Rightarrow> k | Some v \<Rightarrow> VREF e v k);
          i = (if fd_lastfile fdp < NDFILE then NDFILE else fd_shrink (fd_lastfile fdp) (fd_nfiles fdp))
      in if length (fd_ofiles fdp) < nat i then Inl BadAccess
         else
           let newfdp = fdp\<lparr>fd_refcnt := 1, fd_nfiles := i, fd_ofiles := take (nat i) (fd_ofiles fdp),
                 fd_ofileflags := take (nat i) (fd_ofileflags fdp)\<rparr>
           in bindE (fd_refs (fd_ofiles newfdp) 0 (nat (fd_lastfile newfdp) + 1) (st\<lparr>kern := k\<rparr>))
                (\<lambda>st. Inr (newfdp, st)))"

fun fd_closes ::
  "'k fdenv \<Rightarrow> nat option list \<Rightarrow> ('k, 'm) fdstate_scheme \<Rightarrow> ('k, 'm) fdstate_scheme kres" where
  "fd_closes e [] st = Inr st"
| "fd_closes e (None # fs) st = fd_closes e fs st"
| "fd_closes e (Some fp # fs) st = bindE (closef e True fp st) (\<lambda>(_, st). fd_closes e fs st)"

text \<open>The table of the process that exits; \<open>True\<close> when the table itself has been freed.\<close>

definition fdfree :: "'k fdenv \<Rightarrow> ('k, 'm) fdstate_scheme \<Rightarrow> (bool \<times> ('k, 'm) fdstate_scheme) kres" where
  "fdfree e st =
     (let fdp = p_fd st; fdp = fdp\<lparr>fd_refcnt := u_short16 (fd_refcnt fdp - 1)\<rparr>; st = st\<lparr>p_fd := fdp\<rparr>
      in if 0 < fd_refcnt fdp then Inr (False, st)
         else if length (fd_ofiles fdp) \<le> nat (fd_lastfile fdp) then Inl BadAccess
         else
           bindE (fd_closes e (take (nat (fd_lastfile fdp) + 1) (fd_ofiles fdp)) st) (\<lambda>st.
           let k = vrele e (fd_cdir fdp) (kern st);
               k = (case fd_rdir fdp of None \<Rightarrow> k | Some v \<Rightarrow> vrele e v k)
           in Inr (True, st\<lparr>kern := k\<rparr>)))"

section \<open>The descriptor device\<close>

definition fdopen :: "int \<Rightarrow> ('k, 'm) fdstate_scheme \<Rightarrow> errno \<times> ('k, 'm) fdstate_scheme" where
  "fdopen minor st = (ENODEV, st\<lparr>p_dupfd := minor\<rparr>)"

definition dupfdopen ::
  "int \<Rightarrow> int \<Rightarrow> 16 word \<Rightarrow> errno \<Rightarrow> ('k, 'm) fdstate_scheme
    \<Rightarrow> (errno option \<times> ('k, 'm) fdstate_scheme) kres" where
  "dupfdopen indx dfd mode error st =
     (let fdp = p_fd st; fp = fd_ofiles fdp ! nat indx
      in case fd_file fdp dfd of
           None \<Rightarrow> Inr (Some EBADF, st)
         | Some wfp' \<Rightarrow>
             if fp = Some wfp' then Inr (Some EBADF, st)
             else if error = ENODEV then
               (case files st wfp' of
                  None \<Rightarrow> Inl BadAccess
                | Some wf' \<Rightarrow>
                    if (mode AND (FREAD OR FWRITE)) OR f_flag wf' \<noteq> f_flag wf' then Inr (Some EACCES, st)
                    else
                      let fdp = set_ofileflags indx (fd_ofileflags fdp ! nat dfd) (set_ofile indx (Some wfp') fdp)
                      in Inr (None, hold_file wfp' (st\<lparr>p_fd := raise_lastfile indx fdp\<rparr>)))
             else if error = ENXIO then
               let fl = fd_ofileflags fdp ! nat dfd;
                   fdp = set_ofile dfd None (set_ofile indx (Some wfp') fdp);
                   fdp = set_ofileflags dfd {} (set_ofileflags indx fl fdp);
                   fdp = (if fd_lastfile fdp < indx then fdp\<lparr>fd_lastfile := u_short16 indx\<rparr> else trim_lastfile fdp);
                   fdp = (if dfd < fd_freefile fdp then fdp\<lparr>fd_freefile := u_short16 dfd\<rparr> else fdp)
               in Inr (None, st\<lparr>p_fd := fdp\<rparr>)
             else Inr (Some error, st))"

end
