(* ===== verification/Lockf_Laws.thy ===== *)
theory Lockf_Laws
  imports Lockf
begin

text \<open>
  What the advisory locks promise: which bytes an owner holds after an operation, that the
  locks of one owner stay disjoint and in order, and that no two owners hold conflicting locks.
\<close>

section \<open>Ranges\<close>

definition lf_ok :: "lockf \<Rightarrow> bool" where
  "lf_ok l \<longleftrightarrow> 0 \<le> lf_start l \<and> lf_start l < 9223372036854775808
     \<and> (lf_end l = - 1 \<or> lf_start l \<le> lf_end l \<and> lf_end l < 9223372036854775807)"

definition lf_before :: "lockf \<Rightarrow> lockf \<Rightarrow> bool" where
  "lf_before l l' \<longleftrightarrow> lf_end l \<noteq> - 1 \<and> lf_end l < lf_start l'"

definition lf_covers :: "lockf \<Rightarrow> int \<Rightarrow> bool" where
  "lf_covers l b \<longleftrightarrow> lf_start l \<le> b \<and> (lf_end l = - 1 \<or> b \<le> lf_end l)"

lemmas lf_ranges = lf_ok_def lf_before_def lf_covers_def

text \<open>The locks of owner \<open>i\<close> are valid ranges, disjoint and in increasing order.\<close>

definition lf_own :: "nat \<Rightarrow> lockf list \<Rightarrow> lockf list" where
  "lf_own i xs = filter (\<lambda>l. lf_id l = i) xs"

definition lf_others :: "nat \<Rightarrow> lockf list \<Rightarrow> lockf list" where
  "lf_others i xs = filter (\<lambda>l. lf_id l \<noteq> i) xs"

definition lf_good :: "nat \<Rightarrow> lockf list \<Rightarrow> bool" where
  "lf_good i xs \<longleftrightarrow> (\<forall>l \<in> set (lf_own i xs). lf_ok l) \<and> sorted_wrt lf_before (lf_own i xs)"

text \<open>Owner \<open>i\<close> has byte \<open>b\<close> locked with type \<open>t\<close>.\<close>

definition lf_holds :: "nat \<Rightarrow> lockf list \<Rightarrow> int \<Rightarrow> ltype \<Rightarrow> bool" where
  "lf_holds i xs b t \<longleftrightarrow> (\<exists>l \<in> set xs. lf_id l = i \<and> lf_covers l b \<and> lf_type l = t)"

lemma lf_others_simps [simp]: "lf_others i [] = []"
  "lf_others i (l # xs) = (if lf_id l = i then lf_others i xs else l # lf_others i xs)"
  "lf_others i (xs @ ys) = lf_others i xs @ lf_others i ys"
  by (simp_all add: lf_others_def)

lemma lf_holds_simps [simp]: "\<not> lf_holds i [] b t"
  "lf_holds i (l # xs) b t \<longleftrightarrow> (lf_id l = i \<and> lf_covers l b \<and> lf_type l = t) \<or> lf_holds i xs b t"
  "lf_holds i (xs @ ys) b t \<longleftrightarrow> lf_holds i xs b t \<or> lf_holds i ys b t"
  by (auto simp: lf_holds_def)

lemma lf_good_simps [simp]: "lf_good i []"
  "lf_good i (l # xs) \<longleftrightarrow>
    (lf_id l = i \<longrightarrow> lf_ok l \<and> (\<forall>y \<in> set xs. lf_id y = i \<longrightarrow> lf_before l y)) \<and> lf_good i xs"
  "lf_good i (xs @ ys) \<longleftrightarrow> lf_good i xs \<and> lf_good i ys \<and>
    (\<forall>x \<in> set xs. \<forall>y \<in> set ys. lf_id x = i \<longrightarrow> lf_id y = i \<longrightarrow> lf_before x y)"
  by (auto simp: lf_good_def lf_own_def sorted_wrt_append)

lemma lf_good_skip: "\<forall>l \<in> set q. lf_id l \<noteq> i \<Longrightarrow> lf_good i (p @ q @ s) = lf_good i (p @ s)"
proof -
  assume "\<forall>l \<in> set q. lf_id l \<noteq> i"
  then have "lf_own i q = []" by (simp add: lf_own_def filter_empty_conv)
  then show ?thesis by (simp add: lf_good_def lf_own_def)
qed

text \<open>The cases of \<open>lf_findoverlap\<close> on valid ranges.\<close>

lemma lf_case_0: "lf_ok l \<Longrightarrow> lf_ok k \<Longrightarrow> lf_case l k = 0 \<longleftrightarrow> lf_before l k \<or> lf_before k l"
  by (auto simp: lf_case_def lf_ranges Let_def)

lemma lf_case_le: "lf_case l k \<le> 5"
  by (auto simp: lf_case_def Let_def)

lemma lf_case_1: "lf_case l k = 1 \<Longrightarrow> lf_start l = lf_start k \<and> lf_end l = lf_end k"
  by (auto simp: lf_case_def Let_def split: if_splits)

lemma lf_case_2:
  assumes "lf_ok l" "lf_ok k" "lf_case l k = 2"
  shows "lf_start l \<le> lf_start k" "lf_end k \<noteq> - 1" "lf_end k \<le> lf_end l \<or> lf_end l = - 1"
    "lf_start l = lf_start k \<longrightarrow> lf_end l \<noteq> lf_end k"
  using assms by (auto simp: lf_case_def lf_ranges Let_def split: if_splits)

lemma lf_case_3:
  assumes "lf_ok l" "lf_ok k" "lf_case l k = 3"
  shows "lf_start k \<le> lf_start l" "lf_end k = - 1 \<or> lf_end l \<noteq> - 1 \<and> lf_end l \<le> lf_end k"
  using assms by (auto simp: lf_case_def lf_ranges Let_def split: if_splits)

lemma lf_case_4:
  assumes "lf_ok l" "lf_ok k" "lf_case l k = 4"
  shows "lf_start l < lf_start k" "lf_end l = - 1 \<or> lf_start k \<le> lf_end l"
    "lf_end k = - 1 \<or> lf_end l \<noteq> - 1 \<and> lf_end l < lf_end k"
  using assms by (auto simp: lf_case_def lf_ranges Let_def split: if_splits)

lemma lf_case_5:
  assumes "lf_ok l" "lf_ok k" "lf_case l k = 5"
  shows "lf_start k < lf_start l" "lf_end k \<noteq> - 1" "lf_start l \<le> lf_end k"
    "lf_end l = - 1 \<or> lf_end k < lf_end l"
  using assms by (auto simp: lf_case_def lf_ranges Let_def split: if_splits)

section \<open>Searching\<close>

text \<open>What \<open>lf_findoverlap\<close> finds among the locks of the owner: it skips the locks before
  the range and stops at the first that overlaps it or lies behind.\<close>

lemma lf_findoverlap_self:
  assumes "lf_good (lf_id k) rest" "lf_ok k"
  shows "\<exists>n sk suf. lf_findoverlap SELF k pre rest = Inr (n, pre @ sk, suf) \<and> rest = sk @ suf
    \<and> (\<forall>l \<in> set sk. lf_id l = lf_id k \<longrightarrow> lf_before l k)
    \<and> (n = 0 \<longrightarrow> (\<forall>l \<in> set suf. lf_id l = lf_id k \<longrightarrow> lf_before k l))
    \<and> (n \<noteq> 0 \<longrightarrow> (\<exists>ov r. suf = ov # r \<and> lf_id ov = lf_id k \<and> lf_case ov k = n))"
  using assms(1)
proof (induction rest arbitrary: pre)
  case (Cons l rest)
  have IH: "\<exists>n sk suf. lf_findoverlap SELF k (pre @ [l]) rest = Inr (n, (pre @ [l]) @ sk, suf)
    \<and> rest = sk @ suf \<and> (\<forall>l \<in> set sk. lf_id l = lf_id k \<longrightarrow> lf_before l k)
    \<and> (n = 0 \<longrightarrow> (\<forall>l \<in> set suf. lf_id l = lf_id k \<longrightarrow> lf_before k l))
    \<and> (n \<noteq> 0 \<longrightarrow> (\<exists>ov r. suf = ov # r \<and> lf_id ov = lf_id k \<and> lf_case ov k = n))"
    by (rule Cons.IH) (use Cons.prems in simp)
  then obtain n sk suf where I: "lf_findoverlap SELF k (pre @ [l]) rest = Inr (n, pre @ (l # sk), suf)"
    "l # rest = (l # sk) @ suf" "\<forall>l \<in> set sk. lf_id l = lf_id k \<longrightarrow> lf_before l k"
    "n = 0 \<longrightarrow> (\<forall>l \<in> set suf. lf_id l = lf_id k \<longrightarrow> lf_before k l)"
    "n \<noteq> 0 \<longrightarrow> (\<exists>ov r. suf = ov # r \<and> lf_id ov = lf_id k \<and> lf_case ov k = n)" by auto
  consider (other) "lf_id l \<noteq> lf_id k" | (before) "lf_id l = lf_id k" "lf_before l k"
    | (after) "lf_id l = lf_id k" "lf_before k l" "\<not> lf_before l k"
    | (overlap) "lf_id l = lf_id k" "\<not> lf_before k l" "\<not> lf_before l k" by blast
  then show ?case
  proof cases
    case other
    then have "lf_findoverlap SELF k pre (l # rest) = Inr (n, pre @ (l # sk), suf)" using I(1) by simp
    then show ?thesis using I other by fastforce
  next
    case before
    have l: "lf_ok l" using Cons.prems before by simp
    then have "lf_case l k = 0" using before assms(2) by (simp add: lf_case_0)
    moreover have "\<not> (lf_end k \<noteq> - 1 \<and> lf_end k < lf_start l)"
      using before(2) l assms(2) by (auto simp: lf_ranges)
    ultimately have "lf_findoverlap SELF k pre (l # rest) = Inr (n, pre @ (l # sk), suf)"
      using I(1) before by auto
    then show ?thesis using I before by fastforce
  next
    case after
    have l: "lf_ok l" using Cons.prems after by simp
    then have "lf_case l k = 0" using after assms(2) by (simp add: lf_case_0)
    then have "lf_findoverlap SELF k pre (l # rest) = Inr (0, pre @ [], l # rest)"
      using after by (simp add: lf_before_def)
    moreover have "\<forall>y \<in> set (l # rest). lf_id y = lf_id k \<longrightarrow> lf_before k y"
      using Cons.prems after l by (fastforce simp: lf_ranges)
    ultimately show ?thesis by fastforce
  next
    case overlap
    have l: "lf_ok l" using Cons.prems overlap by simp
    then have "lf_case l k \<noteq> 0" "lf_case l k \<noteq> 6" using overlap assms(2) lf_case_le [of l k]
      by (simp_all add: lf_case_0)
    then have "lf_findoverlap SELF k pre (l # rest) = Inr (lf_case l k, pre @ [], l # rest)"
      using overlap by simp
    then show ?thesis using \<open>lf_case l k \<noteq> 0\<close> overlap(1) by fastforce
  qed
qed simp

section \<open>What an operation does to a list of locks\<close>

text \<open>
  The effect on the bytes of the owner: with \<open>s\<close> the range of \<open>k\<close> is held with its type,
  without it the range is free; the other bytes and the locks of other owners are as before.
\<close>

definition lf_effect :: "bool \<Rightarrow> lockf \<Rightarrow> lockf list \<Rightarrow> lockf list \<Rightarrow> bool" where
  "lf_effect s k xs R \<longleftrightarrow>
     lf_good (lf_id k) R \<and> lf_others (lf_id k) R = lf_others (lf_id k) xs \<and>
     (\<forall>b t. lf_holds (lf_id k) R b t \<longleftrightarrow>
       (if lf_covers k b then s \<and> t = lf_type k else lf_holds (lf_id k) xs b t))"

text \<open>
  The effect on the rest of the state: waiters are woken and addresses allocated; every waiter is
  woken or still on the list of a lock, and no address occurs twice.
\<close>

definition lf_blocked :: "lockf list \<Rightarrow> nat set" where
  "lf_blocked xs = (\<Union>l \<in> set xs. set (lf_block l))"

definition lf_addrs :: "lockf list \<Rightarrow> nat set" where
  "lf_addrs xs = lf_addr ` set xs"

definition lf_track :: "lockf list \<Rightarrow> lkstate \<Rightarrow> lockf list \<Rightarrow> lkstate \<Rightarrow> bool" where
  "lf_track xs st R st' \<longleftrightarrow>
     (\<exists>ws n. st' = (lf_wake ws st)\<lparr>lk_addr := n\<rparr> \<and> lk_addr st \<le> n
       \<and> set ws \<union> lf_blocked R = lf_blocked xs \<and> lf_addrs R \<subseteq> lf_addrs xs \<union> {lk_addr st..<n}
       \<and> (distinct (map lf_addr xs) \<and> (\<forall>a \<in> lf_addrs xs. a < lk_addr st) \<longrightarrow> distinct (map lf_addr R)))"

lemma lf_blocked_simps [simp]: "lf_blocked [] = {}" "lf_blocked (l # xs) = set (lf_block l) \<union> lf_blocked xs"
  "lf_blocked (xs @ ys) = lf_blocked xs \<union> lf_blocked ys"
  by (simp_all add: lf_blocked_def)

lemma lf_addrs_simps [simp]: "lf_addrs [] = {}" "lf_addrs (l # xs) = insert (lf_addr l) (lf_addrs xs)"
  "lf_addrs (xs @ ys) = lf_addrs xs \<union> lf_addrs ys"
  by (auto simp: lf_addrs_def)

lemma addr_in_map [simp]: "a \<in> set (map lf_addr xs) \<longleftrightarrow> a \<in> lf_addrs xs"
  by (simp add: lf_addrs_def)

lemma lf_wake_simps [simp]: "lf_wake [] st = st" "lk_addr (lf_wake ws st) = lk_addr st"
  "i_lockf (lf_wake ws st) = i_lockf st"
  by (simp_all add: lf_wake_def option.case_eq_if fun_eq_iff)

lemma lf_wake_wake: "lf_wake vs ((lf_wake ws st)\<lparr>lk_addr := n\<rparr>) = (lf_wake (ws @ vs) st)\<lparr>lk_addr := n\<rparr>"
  by (auto simp: lf_wake_def fun_eq_iff option.map_comp o_def split: option.splits)

lemma lf_track_refl: "lf_track xs st xs st"
  unfolding lf_track_def by (intro exI [of _ "[]"] exI [of _ "lk_addr st"]) simp

lemma lf_track_trans:
  assumes "lf_track xs st ys st1" "lf_track ys st1 zs st2"
  shows "lf_track xs st zs st2"
proof -
  obtain ws n where 1: "st1 = (lf_wake ws st)\<lparr>lk_addr := n\<rparr>" "lk_addr st \<le> n"
    "set ws \<union> lf_blocked ys = lf_blocked xs" "lf_addrs ys \<subseteq> lf_addrs xs \<union> {lk_addr st..<n}"
    "distinct (map lf_addr xs) \<and> (\<forall>a \<in> lf_addrs xs. a < lk_addr st) \<longrightarrow> distinct (map lf_addr ys)"
    using assms(1) by (auto simp: lf_track_def)
  obtain vs m where 2: "st2 = (lf_wake vs st1)\<lparr>lk_addr := m\<rparr>" "lk_addr st1 \<le> m"
    "set vs \<union> lf_blocked zs = lf_blocked ys" "lf_addrs zs \<subseteq> lf_addrs ys \<union> {lk_addr st1..<m}"
    "distinct (map lf_addr ys) \<and> (\<forall>a \<in> lf_addrs ys. a < lk_addr st1) \<longrightarrow> distinct (map lf_addr zs)"
    using assms(2) by (auto simp: lf_track_def)
  have n: "lk_addr st1 = n" by (simp add: 1(1))
  have "st2 = (lf_wake (ws @ vs) st)\<lparr>lk_addr := m\<rparr>" by (simp add: 2(1) 1(1) lf_wake_wake)
  moreover have "lk_addr st \<le> m" using 1(2) 2(2) n by simp
  moreover have "set (ws @ vs) \<union> lf_blocked zs = lf_blocked xs" using 1(3) 2(3) by auto
  moreover have "lf_addrs zs \<subseteq> lf_addrs xs \<union> {lk_addr st..<m}"
  proof
    fix a assume "a \<in> lf_addrs zs"
    then have "a \<in> lf_addrs xs \<or> (lk_addr st \<le> a \<and> a < n) \<or> (n \<le> a \<and> a < m)"
      using 2(4) 1(4) n by fastforce
    then show "a \<in> lf_addrs xs \<union> {lk_addr st..<m}" using 1(2) 2(2) n by auto
  qed
  moreover have "distinct (map lf_addr zs)"
    if d: "distinct (map lf_addr xs) \<and> (\<forall>a \<in> lf_addrs xs. a < lk_addr st)"
  proof -
    have "\<forall>a \<in> lf_addrs ys. a < n" using 1(2,4) d by fastforce
    then show ?thesis using 1(5) 2(5) d n by blast
  qed
  ultimately show ?thesis unfolding lf_track_def by blast
qed

text \<open>The single changes: a lock without its waiters, a lock removed.\<close>

lemma lf_track_wake:
  assumes "lf_addr ov' = lf_addr ov" "lf_block ov' = []"
  shows "lf_track (p @ ov # r) st (p @ ov' # r) (lf_wake (lf_block ov) st)"
  unfolding lf_track_def
  by (intro exI [of _ "lf_block ov"] exI [of _ "lk_addr st"]) (use assms in auto)

lemma lf_track_same:
  assumes "lf_addr ov' = lf_addr ov" "lf_block ov' = lf_block ov"
  shows "lf_track (p @ ov # r) st (p @ ov' # r) st"
  unfolding lf_track_def
  by (intro exI [of _ "[]"] exI [of _ "lk_addr st"]) (use assms in auto)

lemma lf_track_drop:
  assumes "lf_block ov = []"
  shows "lf_track (p @ ov # r) st (p @ r) st"
  unfolding lf_track_def
  by (intro exI [of _ "[]"] exI [of _ "lk_addr st"]) (use assms in auto)

lemma lf_track_remove: "lf_track (p @ ov # r) st (p @ r) (lf_wake (lf_block ov) st)"
  using lf_track_trans [OF lf_track_wake [of "ov\<lparr>lf_block := []\<rparr>" ov p r st]
      lf_track_drop [of "ov\<lparr>lf_block := []\<rparr>"]] by simp

text \<open>A new lock behind another one, at the next free address.\<close>

lemma lf_track_new:
  assumes "lf_block l = []" "lf_addr l = lk_addr st"
  shows "lf_track (p @ r) st (p @ l # r) (st\<lparr>lk_addr := lk_addr st + 1\<rparr>)"
  unfolding lf_track_def
  by (intro exI [of _ "[]"] exI [of _ "lk_addr st + 1"]) (use assms in \<open>auto simp: lf_addrs_def\<close>)

section \<open>Unlocking\<close>

lemma lf_effect_trans:
  assumes "lf_effect s k ys R" "lf_others (lf_id k) ys = lf_others (lf_id k) xs"
    and "\<And>b t. \<not> lf_covers k b \<Longrightarrow> lf_holds (lf_id k) ys b t = lf_holds (lf_id k) xs b t"
  shows "lf_effect s k xs R"
  using assms by (simp add: lf_effect_def)

text \<open>Trimming a lock, on either side.\<close>

lemma trim_end:
  assumes "lf_ok ov" "lf_ok k" "lf_start ov < lf_start k" "lf_end ov = - 1 \<or> lf_start k \<le> lf_end ov"
  shows "lf_ok (ov\<lparr>lf_block := ws, lf_end := s_quad (lf_start k - 1)\<rparr>)"
    "lf_before (ov\<lparr>lf_block := ws, lf_end := s_quad (lf_start k - 1)\<rparr>) k"
    "lf_covers (ov\<lparr>lf_block := ws, lf_end := s_quad (lf_start k - 1)\<rparr>) b \<longleftrightarrow> lf_covers ov b \<and> b < lf_start k"
  using assms by (auto simp: lf_ranges)

lemma trim_start:
  assumes "lf_ok ov" "lf_ok k" "lf_end k \<noteq> - 1" "lf_end ov = - 1 \<or> lf_end k < lf_end ov"
    "lf_start ov \<le> lf_end k"
  shows "lf_ok (ov\<lparr>lf_block := ws, lf_start := s_quad (lf_end k + 1)\<rparr>)"
    "lf_before k (ov\<lparr>lf_block := ws, lf_start := s_quad (lf_end k + 1)\<rparr>)"
    "lf_covers (ov\<lparr>lf_block := ws, lf_start := s_quad (lf_end k + 1)\<rparr>) b \<longleftrightarrow> lf_covers ov b \<and> lf_end k < b"
  using assms by (auto simp: lf_ranges)

lemma lf_covers_not: "lf_covers k b = False \<longleftrightarrow> b < lf_start k \<or> (lf_end k \<noteq> - 1 \<and> lf_end k < b)"
  by (auto simp: lf_covers_def)

lemma lf_before_trans: "lf_before a b \<Longrightarrow> lf_ok b \<Longrightarrow> lf_before b c \<Longrightarrow> lf_before a c"
  by (auto simp: lf_ranges)

lemma lf_before_covers: "lf_before l k \<Longrightarrow> lf_covers l b \<Longrightarrow> \<not> lf_covers k b"
  by (auto simp: lf_ranges)

lemma lf_before_covers': "lf_before k l \<Longrightarrow> lf_covers l b \<Longrightarrow> \<not> lf_covers k b"
  by (auto simp: lf_ranges)

text \<open>The end of a search: every lock of the owner is before or behind the range.\<close>

lemma lf_effect_none:
  assumes "lf_good (lf_id k) xs"
    and "\<forall>l \<in> set xs. lf_id l = lf_id k \<longrightarrow> lf_before l k \<or> lf_before k l"
  shows "lf_effect False k xs xs"
proof -
  have "\<not> lf_holds (lf_id k) xs b t" if "lf_covers k b" for b t
    using assms(2) that lf_before_covers lf_before_covers' unfolding lf_holds_def by blast
  then show ?thesis using assms(1) by (simp add: lf_effect_def)
qed

text \<open>One lock of the owner overlaps the range, those around it do not.\<close>

lemma lf_effect_one:
  assumes "lf_good (lf_id k) (p @ ov # r)" "lf_id ov = lf_id k" "lf_good (lf_id k) (p @ ns @ r)"
    and "lf_others (lf_id k) ns = []"
    and "\<forall>l \<in> set p. lf_id l = lf_id k \<longrightarrow> lf_before l k"
    and "\<forall>l \<in> set r. lf_id l = lf_id k \<longrightarrow> lf_before k l"
    and "\<And>b t. lf_holds (lf_id k) ns b t \<longleftrightarrow>
      (if lf_covers k b then s \<and> t = lf_type k else lf_covers ov b \<and> t = lf_type ov)"
  shows "lf_effect s k (p @ ov # r) (p @ ns @ r)"
proof -
  have "\<not> lf_holds (lf_id k) p b t" "\<not> lf_holds (lf_id k) r b t" if "lf_covers k b" for b t
    using assms(5,6) that lf_before_covers lf_before_covers' unfolding lf_holds_def by blast+
  then show ?thesis using assms(2,3,4,7) by (auto simp: lf_effect_def)
qed

text \<open>
  The owner's lock \<open>ov\<close> overlaps the range \<open>k\<close>, the locks \<open>p\<close> before it do not:
  what can be put in its place. \<open>o1\<close> is its part before the range, \<open>o2\<close> the part
  behind.
\<close>

definition lf_at :: "lockf \<Rightarrow> lockf list \<Rightarrow> lockf \<Rightarrow> lockf list \<Rightarrow> bool" where
  "lf_at k p ov r \<longleftrightarrow> lf_good (lf_id k) (p @ ov # r) \<and> lf_id ov = lf_id k \<and> lf_ok k
     \<and> (\<forall>l \<in> set p. lf_id l = lf_id k \<longrightarrow> lf_before l k)"

lemma lf_atD:
  assumes "lf_at k p ov r"
  shows "lf_ok ov" "lf_good (lf_id k) p" "lf_good (lf_id k) r"
    "\<And>y. y \<in> set r \<Longrightarrow> lf_id y = lf_id k \<Longrightarrow> lf_before ov y"
    "\<And>y. y \<in> set r \<Longrightarrow> lf_id y = lf_id k \<Longrightarrow> lf_ok y"
    "\<And>x. x \<in> set p \<Longrightarrow> lf_id x = lf_id k \<Longrightarrow> lf_before x ov"
    "\<And>x. x \<in> set p \<Longrightarrow> lf_id x = lf_id k \<Longrightarrow> lf_before x k"
    "\<And>x y. x \<in> set p \<Longrightarrow> y \<in> set r \<Longrightarrow> lf_id x = lf_id k \<Longrightarrow> lf_id y = lf_id k \<Longrightarrow> lf_before x y"
    "lf_ok k" "lf_id ov = lf_id k"
  using assms by (auto simp: lf_at_def lf_good_def lf_own_def sorted_wrt_append)

lemma lf_at_behind:
  assumes a: "lf_at k p ov r" and c: "lf_end k \<noteq> - 1" "lf_end ov = - 1 \<or> lf_end k < lf_end ov"
    and s: "lf_start ov \<le> lf_end k"
    and o2: "lf_id o2 = lf_id k" "lf_start o2 = lf_end k + 1" "lf_end o2 = lf_end ov"
  shows "lf_ok o2" "lf_before k o2" "\<forall>y \<in> set r. lf_id y = lf_id k \<longrightarrow> lf_before o2 y"
    "\<forall>y \<in> set r. lf_id y = lf_id k \<longrightarrow> lf_before k y"
    "\<forall>x \<in> set p. lf_id x = lf_id k \<longrightarrow> lf_before x o2"
    "lf_good (lf_id k) (p @ o2 # r)" "lf_covers o2 b \<longleftrightarrow> lf_covers ov b \<and> lf_end k < b"
proof -
  note D = lf_atD [OF a]
  show ok: "lf_ok o2" and ko: "lf_before k o2" using D(1,9) c s o2 by (auto simp: lf_ranges)
  show r: "\<forall>y \<in> set r. lf_id y = lf_id k \<longrightarrow> lf_before o2 y" using D(4) o2(3) by (simp add: lf_before_def)
  show "\<forall>y \<in> set r. lf_id y = lf_id k \<longrightarrow> lf_before k y" using r ko ok lf_before_trans by blast
  show p: "\<forall>x \<in> set p. lf_id x = lf_id k \<longrightarrow> lf_before x o2" using D(7,9) ko lf_before_trans by blast
  show "lf_good (lf_id k) (p @ o2 # r)" using D(2,3,8) ok r p by simp
  show "lf_covers o2 b \<longleftrightarrow> lf_covers ov b \<and> lf_end k < b" using o2 s by (auto simp: lf_covers_def)
qed

lemma lf_at_front:
  assumes a: "lf_at k p ov r" and c: "lf_start ov < lf_start k" "lf_end ov = - 1 \<or> lf_start k \<le> lf_end ov"
    and o1: "lf_id o1 = lf_id k" "lf_start o1 = lf_start ov" "lf_end o1 = lf_start k - 1"
  shows "lf_ok o1" "lf_before o1 k" "\<forall>y \<in> set r. lf_id y = lf_id k \<longrightarrow> lf_before o1 y"
    "\<forall>x \<in> set p. lf_id x = lf_id k \<longrightarrow> lf_before x o1"
    "lf_good (lf_id k) (p @ o1 # r)" "lf_covers o1 b \<longleftrightarrow> lf_covers ov b \<and> b < lf_start k"
proof -
  note D = lf_atD [OF a]
  show ok: "lf_ok o1" and ko: "lf_before o1 k" using D(1,9) c o1 by (auto simp: lf_ranges)
  have e: "lf_end o1 \<noteq> - 1" using o1 c D(1) by (simp add: lf_ok_def)
  show r: "\<forall>y \<in> set r. lf_id y = lf_id k \<longrightarrow> lf_before o1 y"
  proof (intro ballI impI)
    fix y assume "y \<in> set r" "lf_id y = lf_id k"
    from D(4) [OF this] show "lf_before o1 y" using e o1 c by (auto simp: lf_before_def)
  qed
  show p: "\<forall>x \<in> set p. lf_id x = lf_id k \<longrightarrow> lf_before x o1" using D(6) o1(2) by (simp add: lf_before_def)
  show "lf_good (lf_id k) (p @ o1 # r)" using D(2,3,8) ok r p by simp
  show "lf_covers o1 b \<longleftrightarrow> lf_covers ov b \<and> b < lf_start k" using o1 c e by (auto simp: lf_covers_def)
qed

lemma lf_at_middle:
  assumes a: "lf_at k p ov r" and c: "lf_start ov < lf_start k" "lf_end k \<noteq> - 1"
      "lf_end ov = - 1 \<or> lf_end k < lf_end ov"
    and o1: "lf_id o1 = lf_id k" "lf_start o1 = lf_start ov" "lf_end o1 = lf_start k - 1"
    and o2: "lf_id o2 = lf_id k" "lf_start o2 = lf_end k + 1" "lf_end o2 = lf_end ov"
  shows "lf_good (lf_id k) (p @ o1 # o2 # r)" "lf_good (lf_id k) (p @ o1 # k # o2 # r)"
proof -
  note D = lf_atD [OF a]
  have s: "lf_start k \<le> lf_end ov \<or> lf_end ov = - 1" "lf_start ov \<le> lf_end k"
    using c D(9) by (auto simp: lf_ok_def)
  note B = lf_at_behind [OF a c(2,3) s(2) o2]
  have c2: "lf_end ov = - 1 \<or> lf_start k \<le> lf_end ov" using s(1) by blast
  note A = lf_at_front [OF a c(1) c2 o1]
  have "lf_before o1 o2" using A(2) B(2) D(9) lf_before_trans by blast
  then show "lf_good (lf_id k) (p @ o1 # o2 # r)" "lf_good (lf_id k) (p @ o1 # k # o2 # r)"
    using A(1-4) B(1-5) D(2,3,7,8,9) o1(1) o2(1) by simp_all
qed

lemma lf_clear_step:
  assumes "lf_findoverlap SELF k pre rest = Inr (n, p, ov # r)" "n \<noteq> 0"
  shows "lf_clear_loop k pre rest st =
    (let o' = ov\<lparr>lf_block := []\<rparr>; st = lf_wake (lf_block ov) st
     in if n = 1 then Inr (p @ r, st)
        else if n = 2 then
          if lf_start ov = lf_start k then Inr (p @ o'\<lparr>lf_start := s_quad (lf_end k + 1)\<rparr> # r, st)
          else let (o', _, r', a) = lf_split o' k r (lk_addr st) in Inr (p @ o' # r', st\<lparr>lk_addr := a\<rparr>)
        else if n = 3 then lf_clear_loop k p r st
        else if n = 4 then lf_clear_loop k (p @ [o'\<lparr>lf_end := s_quad (lf_start k - 1)\<rparr>]) r st
        else Inr (p @ o'\<lparr>lf_start := s_quad (lf_end k + 1)\<rparr> # r, st))"
  using assms by (subst lf_clear_loop.simps) (simp add: lf_wakelock_def)

lemma lf_clear_loop_spec:
  assumes "lf_good (lf_id k) (pre @ rest)" "lf_ok k" "\<forall>l \<in> set pre. lf_id l = lf_id k \<longrightarrow> lf_before l k"
  shows "\<exists>R st'. lf_clear_loop k pre rest st = Inr (R, st')
    \<and> lf_effect False k (pre @ rest) R \<and> lf_track (pre @ rest) st R st'"
  using assms
proof (induction "length rest" arbitrary: pre rest st rule: less_induct)
  case less
  have "lf_good (lf_id k) rest" using less.prems(1) by simp
  from lf_findoverlap_self [OF this assms(2), of pre]
  obtain n sk suf where F: "lf_findoverlap SELF k pre rest = Inr (n, pre @ sk, suf)" "rest = sk @ suf"
    "\<forall>l \<in> set sk. lf_id l = lf_id k \<longrightarrow> lf_before l k"
    "n = 0 \<longrightarrow> (\<forall>l \<in> set suf. lf_id l = lf_id k \<longrightarrow> lf_before k l)"
    "n \<noteq> 0 \<longrightarrow> (\<exists>ov r. suf = ov # r \<and> lf_id ov = lf_id k \<and> lf_case ov k = n)"
    by metis
  define p where "p = pre @ sk"
  have pb: "\<forall>l \<in> set p. lf_id l = lf_id k \<longrightarrow> lf_before l k" using F(3) less.prems(3) by (auto simp: p_def)
  have xs: "pre @ rest = p @ suf" by (simp add: p_def F(2))
  show ?case
  proof (cases "n = 0")
    case True
    have "lf_clear_loop k pre rest st = Inr (p @ suf, st)"
      by (subst lf_clear_loop.simps) (auto simp: F(1) True p_def split: list.splits)
    moreover have "lf_effect False k (p @ suf) (p @ suf)"
      using lf_effect_none [of k "p @ suf"] less.prems(1) pb F(4) True
      unfolding xs by (auto simp del: lf_good_simps)
    ultimately show ?thesis using lf_track_refl xs by fastforce
  next
    case False
    then obtain ov r where suf: "suf = ov # r" and ov: "lf_id ov = lf_id k" "lf_case ov k = n" using F(5) by blast
    have good: "lf_good (lf_id k) (p @ ov # r)" using less.prems(1) by (simp add: xs suf del: lf_good_simps)
    have len: "length r < length rest" by (simp add: F(2) suf)
    have at: "lf_at k p ov r" using good ov(1) assms(2) pb by (simp add: lf_at_def del: lf_good_simps)
    note D = lf_atD [OF at]
    note step = lf_clear_step [OF F(1) [folded p_def, unfolded suf] False, of st, unfolded Let_def lf_wake_simps]
    define o' where "o' = ov\<lparr>lf_block := []\<rparr>"
    have o': "lf_id o' = lf_id k" "lf_start o' = lf_start ov" "lf_end o' = lf_end ov" "lf_block o' = []"
      "lf_addr o' = lf_addr ov" "lf_type o' = lf_type ov" using ov(1) by (simp_all add: o'_def)
    define st1 where "st1 = lf_wake (lf_block ov) st"
    note step = step [folded o'_def st1_def]
    define o1 where "o1 = o'\<lparr>lf_end := s_quad (lf_start k - 1)\<rparr>"
    have o1: "lf_id o1 = lf_id k" "lf_start o1 = lf_start ov" "lf_end o1 = lf_start k - 1"
        "lf_block o1 = []" "lf_addr o1 = lf_addr ov" "lf_type o1 = lf_type ov"
      using o' D(9) by (simp_all add: o1_def lf_ok_def)
    define o2 where "o2 = o'\<lparr>lf_start := s_quad (lf_end k + 1)\<rparr>"
    have o2: "lf_id o2 = lf_id k" "lf_start o2 = lf_end k + 1" "lf_end o2 = lf_end ov"
        "lf_block o2 = []" "lf_addr o2 = lf_addr ov" "lf_type o2 = lf_type ov"
      using o' D(9) by (auto simp add: o2_def lf_ok_def)
    note step = step [folded o1_def o2_def]
    consider "n = 1" | "n = 2" | "n = 3" | "n = 4" | "n = 5"
      using lf_case_le [of ov k] ov(2) False by linarith
    then show ?thesis
    proof cases
      case 1
      have c: "lf_start ov = lf_start k" "lf_end ov = lf_end k" using lf_case_1 ov(2) 1 by auto
      have "lf_effect False k (p @ ov # r) (p @ [] @ r)"
        by (rule lf_effect_one)
          (use at D c in \<open>auto simp: lf_at_def lf_before_def lf_covers_def\<close>)
      then show ?thesis using step 1 lf_track_remove [of p ov r st] by (simp add: xs suf st1_def)
    next
      case 2
      note c = lf_case_2 [OF D(1,9) ov(2) [unfolded 2]]
      have s: "lf_start k \<le> lf_end k" "lf_start ov \<le> lf_end k" using c(1,2) D(9) by (auto simp: lf_ok_def)
      show ?thesis
      proof (cases "lf_start ov = lf_start k")
        case True
        then have c2: "lf_end ov = - 1 \<or> lf_end k < lf_end ov" using c by auto
        note B = lf_at_behind [OF at c(2) c2 s(2) o2(1-3)]
        have "lf_effect False k (p @ ov # r) (p @ [o2] @ r)"
          by (rule lf_effect_one) (use at D B o2 True c(2) in \<open>auto simp: lf_at_def lf_covers_def\<close>)
        then show ?thesis using step 2 True lf_track_wake [OF o2(5,4), of p r st]
          by (simp add: xs suf st1_def)
      next
        case neq: False
        then have lt: "lf_start ov < lf_start k" using c(1) by simp
        have c4: "lf_end ov = - 1 \<or> lf_start k \<le> lf_end ov" using c(3) s(1) by auto
        note A = lf_at_front [OF at lt c4 o1(1-3)]
        show ?thesis
        proof (cases "lf_end ov = lf_end k")
          case True
          have "lf_effect False k (p @ ov # r) (p @ [o1] @ r)"
            by (rule lf_effect_one)
              (use at D A o1 True c(2) in \<open>auto simp: lf_at_def lf_covers_def lf_before_def\<close>)
          moreover have "lf_clear_loop k pre rest st = Inr (p @ o1 # r, st1)"
            using step 2 neq o' True by (simp add: lf_split_def o1_def st1_def)
          ultimately show ?thesis using lf_track_wake [OF o1(5,4), of p r st]
            by (simp add: xs suf st1_def)
        next
          case ne: False
          then have c2: "lf_end ov = - 1 \<or> lf_end k < lf_end ov" using c(3) by auto
          define s2 where "s2 = o2\<lparr>lf_addr := lk_addr st\<rparr>"
          have s2: "lf_id s2 = lf_id k" "lf_start s2 = lf_end k + 1" "lf_end s2 = lf_end ov"
            "lf_block s2 = []" "lf_addr s2 = lk_addr st1" "lf_type s2 = lf_type ov"
            using o2 by (simp_all add: s2_def st1_def)
          note B = lf_at_behind [OF at c(2) c2 s(2) s2(1-3)]
          have "lf_effect False k (p @ ov # r) (p @ [o1, s2] @ r)"
            by (rule lf_effect_one)
              (use at D A B o1 s2 c(2) lf_at_middle(1) [OF at lt c(2) c2 o1(1-3) s2(1-3)] in
                \<open>auto simp: lf_at_def lf_covers_def\<close>)
          moreover have "lf_clear_loop k pre rest st = Inr (p @ o1 # s2 # r, st1\<lparr>lk_addr := lk_addr st + 1\<rparr>)"
            using step 2 neq o' ne by (simp add: lf_split_def o1_def s2_def o2_def o'_def st1_def Let_def)
          moreover have "lf_track (p @ ov # r) st (p @ o1 # s2 # r) (st1\<lparr>lk_addr := lk_addr st + 1\<rparr>)"
          proof (rule lf_track_trans)
            show "lf_track (p @ ov # r) st (p @ o1 # r) st1"
              using lf_track_wake [OF o1(5,4), of p r st] by (simp add: st1_def)
            show "lf_track (p @ o1 # r) st1 (p @ o1 # s2 # r) (st1\<lparr>lk_addr := lk_addr st + 1\<rparr>)"
              using lf_track_new [OF s2(4,5), of "p @ [o1]" r] by (simp add: st1_def)
          qed
          ultimately show ?thesis by (simp add: xs suf)
        qed
      qed
    next
      case 3
      note c = lf_case_3 [OF D(1,9) ov(2) [unfolded 3]]
      have "\<exists>R st'. lf_clear_loop k p r st1 = Inr (R, st') \<and> lf_effect False k (p @ r) R \<and> lf_track (p @ r) st1 R st'"
        by (rule less.hyps [OF len]) (use D pb assms(2) in auto)
      then obtain R st' where I: "lf_clear_loop k p r st1 = Inr (R, st')" "lf_effect False k (p @ r) R"
        "lf_track (p @ r) st1 R st'" by blast
      have cov: "lf_covers ov b \<Longrightarrow> lf_covers k b" for b using c by (auto simp: lf_covers_def)
      have "lf_effect False k (p @ ov # r) R"
        by (rule lf_effect_trans [OF I(2)]) (use ov(1) cov in auto)
      moreover have "lf_track (p @ ov # r) st R st'"
        using lf_track_trans [OF lf_track_remove I(3) [unfolded st1_def]] .
      ultimately show ?thesis using step 3 I(1) by (simp add: xs suf)
    next
      case 4
      note c = lf_case_4 [OF D(1,9) ov(2) [unfolded 4]]
      note A = lf_at_front [OF at c(1,2) o1(1-3)]
      have "\<exists>R st'. lf_clear_loop k (p @ [o1]) r st1 = Inr (R, st')
          \<and> lf_effect False k ((p @ [o1]) @ r) R \<and> lf_track ((p @ [o1]) @ r) st1 R st'"
        by (rule less.hyps [OF len]) (use A(2,5) pb o1(1) assms(2) in auto)
      then obtain R st' where I: "lf_clear_loop k (p @ [o1]) r st1 = Inr (R, st')"
        "lf_effect False k (p @ o1 # r) R" "lf_track (p @ o1 # r) st1 R st'" by auto
      have cov: "\<not> lf_covers k b \<Longrightarrow> lf_covers o1 b = lf_covers ov b" for b
        unfolding A(6) using c(3) by (auto simp: lf_covers_def)
      have "lf_effect False k (p @ ov # r) R"
        by (rule lf_effect_trans [OF I(2)]) (use ov(1) o1 cov in auto)
      moreover have "lf_track (p @ ov # r) st R st'"
        using lf_track_trans [OF lf_track_wake [OF o1(5,4)] I(3) [unfolded st1_def]] .
      ultimately show ?thesis using step 4 I(1) by (simp add: xs suf)
    next
      case 5
      note c = lf_case_5 [OF D(1,9) ov(2) [unfolded 5]]
      note B = lf_at_behind [OF at c(2,4,3) o2(1-3)]
      have "lf_effect False k (p @ ov # r) (p @ [o2] @ r)"
        by (rule lf_effect_one) (use at D B o2 c in \<open>auto simp: lf_at_def lf_covers_def\<close>)
      then show ?thesis using step 5 lf_track_wake [OF o2(5,4), of p r st]
        by (simp add: xs suf st1_def)
    qed
  qed
qed

section \<open>Locking\<close>

lemma lf_wake_addr [simp]: "lf_wake ws (st\<lparr>lk_addr := n\<rparr>) = (lf_wake ws st)\<lparr>lk_addr := n\<rparr>"
  by (simp add: lf_wake_def cong: if_cong)

lemma lf_effect_cong:
  "lf_id k' = lf_id k \<Longrightarrow> lf_start k' = lf_start k \<Longrightarrow> lf_end k' = lf_end k \<Longrightarrow> lf_type k' = lf_type k \<Longrightarrow>
    lf_effect s k' xs R = lf_effect s k xs R"
  by (simp add: lf_effect_def lf_covers_def)

lemma lf_cut_fresh: "lf_addr k \<notin> lf_addrs p \<Longrightarrow> lf_cut k p = p"
  by (auto simp: lf_cut_def lf_addrs_def takeWhile_eq_all_conv image_iff)

lemma lf_put_linked:
  assumes "lf_addr k \<notin> lf_addrs (p1 @ p2)" "lf_addr k' = lf_addr k"
  shows "lf_put k' (p1 @ k # p2) = p1 @ k' # p2"
proof -
  have "\<forall>l \<in> set (p1 @ p2). lf_addr l \<noteq> lf_addr k" using assms(1) unfolding lf_addrs_def by (metis imageI)
  then show ?thesis using assms(2) by (auto simp: lf_put_def intro: map_idI)
qed

lemma lf_track_move:
  assumes "lf_addr k' = lf_addr k" "lf_block k' = lf_block ov @ lf_block k"
  shows "lf_track (p @ k # q @ ov # r) st (p @ k' # q @ r) st"
  unfolding lf_track_def
  by (intro exI [of _ "[]"] exI [of _ "lk_addr st"]) (use assms in auto)

lemma lf_track_insert: "lf_track (k # p @ r) st (p @ k # r) st"
  unfolding lf_track_def
  by (intro exI [of _ "[]"] exI [of _ "lk_addr st"]) auto

lemma lf_set_step:
  assumes "lf_findoverlap SELF k pre rest = Inr (n, p, ov # r)" "n \<noteq> 0"
  shows "lf_set_loop ntl k pre rest st =
    (let down = lf_type k = F_RDLCK \<and> lf_type ov = F_WRLCK;
         st' = lf_wake (lf_block ov) st
     in if \<not> ntl \<and> (n = 1 \<or> n = 2 \<and> lf_type ov = lf_type k) then Inl BadAccess
        else if n = 1 then
          if down then Inr (p @ ov\<lparr>lf_block := [], lf_type := lf_type k\<rparr> # r, st') else Inr (p @ ov\<lparr>lf_type := lf_type k\<rparr> # r, st)
        else if n = 2 then
          if lf_type ov = lf_type k then Inr (p @ ov # r, st)
          else if lf_start ov = lf_start k then
            Inr (lf_cut k p @ k # ov\<lparr>lf_start := s_quad (lf_end k + 1), lf_block := []\<rparr> # r, st')
          else let (o', r', _, a) = lf_split ov k r (lk_addr st)
            in Inr (lf_cut k (p @ [o'\<lparr>lf_block := []\<rparr>]) @ r', (lf_wake (lf_block o') st)\<lparr>lk_addr := a\<rparr>)
        else if n = 3 then
          if down then lf_set_loop False k (if ntl then p @ [k] else lf_put k p) r st'
          else let k' = k\<lparr>lf_block := lf_block ov @ lf_block k\<rparr>
            in lf_set_loop False k' (if ntl then p @ [k'] else lf_put k' p) r st
        else if n = 4 then
          lf_set_loop False k (lf_cut k (p @ [ov\<lparr>lf_end := s_quad (lf_start k - 1), lf_block := []\<rparr>]) @ [k]) r st'
        else Inr (p @ (if ntl then [k] else []) @ ov\<lparr>lf_start := s_quad (lf_end k + 1), lf_block := []\<rparr> # r, st'))"
  using assms
  by (subst lf_set_loop.simps) (simp add: lf_wakelock_def lf_addblock_def Let_def split: prod.splits)

text \<open>The loop once the lock \<open>k\<close> is linked, behind \<open>p1\<close>.\<close>

lemma lf_set_linked:
  assumes "lf_good (lf_id k) (p1 @ [k])" "lf_good (lf_id k) rest"
    and "\<forall>l \<in> set p2. lf_id l \<noteq> lf_id k" "\<forall>l \<in> set rest. lf_id l = lf_id k \<longrightarrow> lf_start k < lf_start l"
    and "lf_addr k \<notin> lf_addrs (p1 @ p2 @ rest)"
  shows "\<exists>R st'. lf_set_loop False k (p1 @ k # p2) rest st = Inr (R, st')
    \<and> lf_effect True k (p1 @ k # p2 @ rest) R \<and> lf_track (p1 @ k # p2 @ rest) st R st'"
  using assms
proof (induction "length rest" arbitrary: k p1 p2 rest st rule: less_induct)
  case less
  have okk: "lf_ok k" and p1k: "\<forall>x \<in> set p1. lf_id x = lf_id k \<longrightarrow> lf_before x k"
    and g1: "lf_good (lf_id k) p1" using less.prems(1) by auto
  from lf_findoverlap_self [OF less.prems(2) okk, of "p1 @ k # p2"]
  obtain n sk suf where F: "lf_findoverlap SELF k (p1 @ k # p2) rest = Inr (n, (p1 @ k # p2) @ sk, suf)"
    "rest = sk @ suf" "\<forall>l \<in> set sk. lf_id l = lf_id k \<longrightarrow> lf_before l k"
    "n = 0 \<longrightarrow> (\<forall>l \<in> set suf. lf_id l = lf_id k \<longrightarrow> lf_before k l)"
    "n \<noteq> 0 \<longrightarrow> (\<exists>ov r. suf = ov # r \<and> lf_id ov = lf_id k \<and> lf_case ov k = n)"
    by metis
  have gs: "lf_good (lf_id k) suf" using less.prems(2) F(2) by simp
  have sk: "\<forall>l \<in> set sk. lf_id l \<noteq> lf_id k"
  proof (intro ballI notI)
    fix l assume l: "l \<in> set sk" "lf_id l = lf_id k"
    then have "lf_ok l" using less.prems(2) F(2) by (auto simp: lf_good_def lf_own_def)
    moreover have "lf_start k < lf_start l" using l less.prems(4) F(2) by simp
    ultimately show False using F(3) l by (fastforce simp: lf_ranges)
  qed
  define q where "q = p2 @ sk"
  have q: "\<forall>l \<in> set q. lf_id l \<noteq> lf_id k" using sk less.prems(3) by (auto simp: q_def)
  have gq: "lf_good (lf_id k) q" using q by (auto simp: lf_good_def lf_own_def)
  have xs: "p1 @ k # p2 @ rest = p1 @ k # q @ suf" by (simp add: q_def F(2))
  have F1: "lf_findoverlap SELF k (p1 @ k # p2) rest = Inr (n, p1 @ k # q, suf)" using F(1) by (simp add: q_def)
  have fresh: "lf_addr k \<notin> lf_addrs (p1 @ q @ suf)" using less.prems(5) by (simp add: q_def F(2))
  show ?case
  proof (cases "n = 0")
    case True
    have "lf_set_loop False k (p1 @ k # p2) rest st = Inr (p1 @ k # q @ suf, st)"
      by (subst lf_set_loop.simps) (auto simp: F1 True split: list.splits)
    moreover have "lf_good (lf_id k) (p1 @ k # q @ suf)"
      using g1 gq gs okk p1k q F(4) True lf_before_trans [OF _ okk] by auto
    moreover have "\<not> (\<exists>l \<in> set (p1 @ q @ suf). lf_id l = lf_id k \<and> lf_covers l b)" if "lf_covers k b" for b
      using p1k q F(4) True that lf_before_covers lf_before_covers' by fastforce
    then have "lf_holds (lf_id k) (p1 @ k # q @ suf) b t \<longleftrightarrow> t = lf_type k" if "lf_covers k b" for b t
      using that by (fastforce simp: lf_holds_def)
    ultimately have "lf_effect True k (p1 @ k # q @ suf) (p1 @ k # q @ suf)" by (auto simp: lf_effect_def)
    then show ?thesis using \<open>lf_set_loop False k _ rest st = _\<close> lf_track_refl xs by fastforce
  next
    case False
    then obtain ov r where suf: "suf = ov # r" and ov: "lf_id ov = lf_id k" "lf_case ov k = n" using F(5) by blast
    have lt: "lf_start k < lf_start ov" using less.prems(4) F(2) suf ov(1) by simp
    have len: "length r < length rest" by (simp add: F(2) suf)
    have okov: "lf_ok ov" using gs suf ov(1) by simp
    note step = lf_set_step [OF F1 [unfolded suf] False, of False st, unfolded Let_def]
    consider "n = 1" | "n = 2" | "n = 3" | "n = 4" | "n = 5"
      using lf_case_le [of ov k] ov(2) False by linarith
    then show ?thesis
    proof cases
      case 1
      then show ?thesis using lf_case_1 [of ov k] ov(2) lt by simp
    next
      case 2
      then show ?thesis using lf_case_2 [OF okov okk] ov(2) lt by simp
    next
      case 4
      then show ?thesis using lf_case_4 [OF okov okk] ov(2) lt by simp
    next
      case 3
      note c = lf_case_3 [OF okov okk ov(2) [unfolded 3]]
      have cov: "lf_covers ov b \<Longrightarrow> lf_covers k b" for b using c by (auto simp: lf_covers_def)
      define down where "down \<longleftrightarrow> lf_type k = F_RDLCK \<and> lf_type ov = F_WRLCK"
      define k' where "k' = (if down then k else k\<lparr>lf_block := lf_block ov @ lf_block k\<rparr>)"
      define st1 where "st1 = (if down then lf_wake (lf_block ov) st else st)"
      have k': "lf_id k' = lf_id k" "lf_start k' = lf_start k" "lf_end k' = lf_end k" "lf_type k' = lf_type k"
        "lf_addr k' = lf_addr k" by (simp_all add: k'_def)
      have put: "lf_put k' (p1 @ k # q) = p1 @ k' # q"
        using lf_put_linked [of k p1 q k'] fresh k'(5) by simp
      have eq: "lf_set_loop False k (p1 @ k # p2) rest st = lf_set_loop False k' (p1 @ k' # q) r st1"
      proof (cases down)
        case True
        then show ?thesis using step 3 put by (simp add: down_def k'_def st1_def)
      next
        case False
        then show ?thesis using step 3 put unfolding down_def [symmetric] by (simp add: k'_def st1_def)
      qed
      have "\<exists>R st'. lf_set_loop False k' (p1 @ k' # q) r st1 = Inr (R, st')
          \<and> lf_effect True k' (p1 @ k' # q @ r) R \<and> lf_track (p1 @ k' # q @ r) st1 R st'"
      proof (rule less.hyps [OF len])
        show "lf_good (lf_id k') (p1 @ [k'])" using g1 okk p1k k' by (auto simp: lf_ranges)
        show "lf_good (lf_id k') r" using gs suf k'(1) by simp
        show "\<forall>l \<in> set q. lf_id l \<noteq> lf_id k'" using q k'(1) by simp
        show "\<forall>l \<in> set r. lf_id l = lf_id k' \<longrightarrow> lf_start k' < lf_start l"
          using less.prems(4) F(2) suf k' by simp
        show "lf_addr k' \<notin> lf_addrs (p1 @ q @ r)" using fresh suf k' by simp
      qed
      then obtain R st' where I: "lf_set_loop False k' (p1 @ k' # q) r st1 = Inr (R, st')"
        "lf_effect True k (p1 @ k' # q @ r) R" "lf_track (p1 @ k' # q @ r) st1 R st'"
        using lf_effect_cong [OF k'(1-4)] by blast
      have "lf_effect True k (p1 @ k # q @ ov # r) R"
        by (rule lf_effect_trans [OF I(2)])
          (use k' ov(1) cov in \<open>auto simp: lf_covers_def\<close>)
      moreover have "lf_track (p1 @ k # q @ ov # r) st (p1 @ k' # q @ r) st1"
        using lf_track_remove [of "p1 @ k # q" ov r st] lf_track_move [of k' k ov p1 q r st]
        by (cases down) (simp_all add: k'_def st1_def)
      then have "lf_track (p1 @ k # q @ ov # r) st R st'" using I(3) lf_track_trans by blast
      ultimately show ?thesis using eq I(1) by (simp add: xs suf)
    next
      case 5
      note c = lf_case_5 [OF okov okk ov(2) [unfolded 5]]
      define o2 where "o2 = ov\<lparr>lf_start := s_quad (lf_end k + 1), lf_block := []\<rparr>"
      have o2: "lf_id o2 = lf_id k" "lf_start o2 = lf_end k + 1" "lf_end o2 = lf_end ov"
          "lf_block o2 = []" "lf_addr o2 = lf_addr ov" "lf_type o2 = lf_type ov"
        using ov(1) okk by (auto simp add: o2_def lf_ok_def)
      have "lf_at k (p1 @ q) ov r"
      proof -
        have "\<forall>x \<in> set p1. lf_id x = lf_id k \<longrightarrow> lf_before x ov" using p1k lt by (auto simp: lf_before_def)
        moreover have "\<forall>y \<in> set r. lf_id y = lf_id k \<longrightarrow> lf_before ov y" using gs suf ov(1) by simp
        moreover from calculation have "\<forall>x \<in> set p1. \<forall>y \<in> set r. lf_id x = lf_id k \<longrightarrow> lf_id y = lf_id k \<longrightarrow>
            lf_before x y" using lf_before_trans [OF _ okov] by blast
        ultimately have "lf_good (lf_id k) (p1 @ ov # r)" using g1 gs suf by (simp only: lf_good_simps) auto
        then have "lf_good (lf_id k) (p1 @ q @ ov # r)" using lf_good_skip [OF q] by blast
        moreover have "\<forall>l \<in> set (p1 @ q). lf_id l = lf_id k \<longrightarrow> lf_before l k" using p1k q by auto
        ultimately show ?thesis by (simp only: lf_at_def ov(1) okk append_assoc simp_thms)
      qed
      note B = lf_at_behind [OF this c(2,4,3) o2(1-3)]
      have "lf_good (lf_id k) (p1 @ o2 # r)" using B(6) lf_good_skip [OF q] by (simp only: append_assoc)
      then have "lf_good (lf_id k) ((p1 @ [k]) @ o2 # r)" using B(2,4) okk p1k o2(1) less.prems(1)
        by (simp only: lf_good_simps) auto
      then have "lf_good (lf_id k) (p1 @ k # q @ o2 # r)"
        using lf_good_skip [OF q, of "p1 @ [k]" "o2 # r"] by (simp del: lf_good_simps)
      moreover have "\<forall>l \<in> set (p1 @ q @ o2 # r). lf_id l = lf_id k \<longrightarrow> lf_before l k \<or> lf_before k l"
        using p1k q B(2,4) by auto
      then have "\<not> (\<exists>l \<in> set (p1 @ q @ o2 # r). lf_id l = lf_id k \<and> lf_covers l b)" if "lf_covers k b" for b
        using that lf_before_covers lf_before_covers' by blast
      then have "lf_holds (lf_id k) (p1 @ k # q @ o2 # r) b t \<longleftrightarrow> t = lf_type k" if "lf_covers k b" for b t
        using that by (fastforce simp: lf_holds_def)
      moreover have "lf_covers o2 b = lf_covers ov b" if "\<not> lf_covers k b" for b
        unfolding B(7) using c that by (auto simp: lf_covers_def)
      ultimately have "lf_effect True k (p1 @ k # q @ ov # r) (p1 @ k # q @ o2 # r)"
        using o2 ov(1) by (auto simp: lf_effect_def)
      moreover have "lf_track (p1 @ k # q @ ov # r) st (p1 @ k # q @ o2 # r) (lf_wake (lf_block ov) st)"
        using lf_track_wake [OF o2(5,4), of "p1 @ k # q" r st] by simp
      ultimately show ?thesis using step 5 by (simp add: xs suf o2_def)
    qed
  qed
qed

end
