(* ===== verification/Lockf_Set.thy ===== *)
theory Lockf_Set
  imports Lockf_Laws
begin

text \<open>
  The second loop of \<open>lf_setlock\<close>: what it does to the locks of an inode, case by case of
  \<open>lf_findoverlap\<close>.
\<close>

section \<open>Adding a lock\<close>

lemma lf_set_loop_spec:
  assumes "lf_good (lf_id k) xs" "lf_ok k" "lf_block k = []" "lf_addr k \<notin> lf_addrs xs"
  shows "\<exists>R st'. lf_set_loop True k [] xs st = Inr (R, st')
    \<and> lf_effect True k xs R \<and> lf_track (k # xs) st R st'"
proof -
  from lf_findoverlap_self [OF assms(1,2), of "[]"]
  obtain n p suf where F: "lf_findoverlap SELF k [] xs = Inr (n, p, suf)" "xs = p @ suf"
    "\<forall>l \<in> set p. lf_id l = lf_id k \<longrightarrow> lf_before l k"
    "n = 0 \<longrightarrow> (\<forall>l \<in> set suf. lf_id l = lf_id k \<longrightarrow> lf_before k l)"
    "n \<noteq> 0 \<longrightarrow> (\<exists>ov r. suf = ov # r \<and> lf_id ov = lf_id k \<and> lf_case ov k = n)"
    by (metis append_Nil)
  have cut: "lf_cut k p = p" "lf_cut k (p @ [o']) = p @ [o']" if "lf_addr o' \<in> lf_addrs xs" for o'
    using assms(4) that F(2) by (auto intro!: lf_cut_fresh)
  show ?thesis
  proof (cases "n = 0")
    case True
    have "lf_set_loop True k [] xs st = Inr (p @ k # suf, st)"
      by (subst lf_set_loop.simps) (auto simp: F(1) True split: list.splits)
    moreover have "lf_good (lf_id k) (p @ k # suf)"
      using assms(1,2) F(2,3,4) True by (simp only: lf_good_simps) auto
    moreover have "\<not> lf_holds (lf_id k) p b t" "\<not> lf_holds (lf_id k) suf b t" if "lf_covers k b" for b t
      using F(3,4) True that lf_before_covers lf_before_covers' unfolding lf_holds_def by blast+
    ultimately show ?thesis using lf_track_insert by (fastforce simp: lf_effect_def F(2))
  next
    case False
    then obtain ov r where suf: "suf = ov # r" and ov: "lf_id ov = lf_id k" "lf_case ov k = n" using F(5) by blast
    have at: "lf_at k p ov r"
      using assms(1,2) F(2,3) suf ov(1) by (simp add: lf_at_def del: lf_good_simps)
    note D = lf_atD [OF at]
    note step = lf_set_step [OF F(1) [unfolded suf] False, of True st, unfolded Let_def]
    define st1 where "st1 = lf_wake (lf_block ov) st"
    define o1 where "o1 = ov\<lparr>lf_end := s_quad (lf_start k - 1), lf_block := []\<rparr>"
    have o1: "lf_id o1 = lf_id k" "lf_start o1 = lf_start ov" "lf_end o1 = lf_start k - 1"
        "lf_block o1 = []" "lf_addr o1 = lf_addr ov" "lf_type o1 = lf_type ov"
      using ov(1) D(9) by (simp_all add: o1_def lf_ok_def)
    define o2 where "o2 = ov\<lparr>lf_start := s_quad (lf_end k + 1), lf_block := []\<rparr>"
    have o2: "lf_id o2 = lf_id k" "lf_start o2 = lf_end k + 1" "lf_end o2 = lf_end ov"
        "lf_block o2 = []" "lf_addr o2 = lf_addr ov" "lf_type o2 = lf_type ov"
      using ov(1) D(9) by (auto simp add: o2_def lf_ok_def)
    note step = step [folded o1_def o2_def st1_def]
    have ova: "lf_addr ov \<in> lf_addrs xs" by (simp add: F(2) suf)
    have wake: "lf_track (k # p @ ov # r) st (k # p @ o' # r) st1" if "lf_addr o' = lf_addr ov" "lf_block o' = []" for o'
      using lf_track_wake [OF that, of "k # p" r st] by (simp add: st1_def)
    consider "n = 1" | "n = 2" | "n = 3" | "n = 4" | "n = 5"
      using lf_case_le [of ov k] ov(2) False by linarith
    then show ?thesis
    proof cases
      case 1
      have c: "lf_start ov = lf_start k" "lf_end ov = lf_end k" using lf_case_1 ov(2) 1 by auto
      define o' where "o' = (if lf_type k = F_RDLCK \<and> lf_type ov = F_WRLCK then ov\<lparr>lf_block := [], lf_type := lf_type k\<rparr>
        else ov\<lparr>lf_type := lf_type k\<rparr>)"
      define st' where "st' = (if lf_type k = F_RDLCK \<and> lf_type ov = F_WRLCK then st1 else st)"
      have o': "lf_id o' = lf_id k" "lf_start o' = lf_start k" "lf_end o' = lf_end k" "lf_type o' = lf_type k"
        "lf_addr o' = lf_addr ov" using ov(1) c by (simp_all add: o'_def)
      have eq: "lf_set_loop True k [] xs st = Inr (p @ o' # r, st')"
        using step 1 by (simp add: o'_def st'_def)
      have "lf_good (lf_id k) (p @ [o'] @ r)"
        using D(1-8) o' c at by (auto simp: lf_at_def lf_before_def lf_ok_def)
      then have "lf_effect True k (p @ ov # r) (p @ [o'] @ r)"
        by (intro lf_effect_one) (use at D o' c in \<open>auto simp: lf_at_def lf_before_def lf_covers_def\<close>)
      moreover have "lf_track (k # p @ ov # r) st (p @ ov # r) st" using lf_track_drop [of k "[]"] assms(3) by simp
      moreover have "lf_track (p @ ov # r) st (p @ o' # r) st'"
        using lf_track_wake [of o' ov p r st] lf_track_same [of o' ov p r st] o'(5)
        by (auto simp: o'_def st'_def st1_def)
      ultimately show ?thesis using eq lf_track_trans by (fastforce simp: F(2) suf)
    next
      case 3
      note c = lf_case_3 [OF D(1,9) ov(2) [unfolded 3]]
      have cov: "lf_covers ov b \<Longrightarrow> lf_covers k b" for b using c by (auto simp: lf_covers_def)
      define down where "down \<longleftrightarrow> lf_type k = F_RDLCK \<and> lf_type ov = F_WRLCK"
      define k' where "k' = (if down then k else k\<lparr>lf_block := lf_block ov @ lf_block k\<rparr>)"
      define st' where "st' = (if down then st1 else st)"
      have k': "lf_id k' = lf_id k" "lf_start k' = lf_start k" "lf_end k' = lf_end k" "lf_type k' = lf_type k"
        "lf_addr k' = lf_addr k" by (simp_all add: k'_def)
      have eq: "lf_set_loop True k [] xs st = lf_set_loop False k' (p @ k' # []) r st'"
        using step 3 unfolding down_def [symmetric] by (simp add: k'_def st'_def)
      have "\<exists>R st''. lf_set_loop False k' (p @ k' # []) r st' = Inr (R, st'')
          \<and> lf_effect True k' (p @ k' # [] @ r) R \<and> lf_track (p @ k' # [] @ r) st' R st''"
      proof (rule lf_set_linked)
        show "lf_good (lf_id k') (p @ [k'])" using D(2,7,9) k' by (auto simp: lf_ranges)
        show "lf_good (lf_id k') r" using D(3) k'(1) by simp
        show "\<forall>l \<in> set r. lf_id l = lf_id k' \<longrightarrow> lf_start k' < lf_start l"
          using D(1,4) c(1) k' by (fastforce simp: lf_ranges)
        show "lf_addr k' \<notin> lf_addrs (p @ [] @ r)" using assms(4) F(2) suf k' by simp
      qed simp
      then obtain R st'' where I: "lf_set_loop False k' (p @ k' # []) r st' = Inr (R, st'')"
        "lf_effect True k (p @ k' # r) R" "lf_track (p @ k' # r) st' R st''"
        using lf_effect_cong [OF k'(1-4)] by auto
      have free: "\<not> lf_holds (lf_id k) p b t" if "lf_covers k b" for b t
        using F(3) that lf_before_covers unfolding lf_holds_def by blast
      have "lf_effect True k (p @ ov # r) R"
        by (rule lf_effect_trans [OF I(2)]) (use k' ov(1) cov in \<open>auto simp: lf_covers_def\<close>)
      moreover have "lf_track (k # p @ ov # r) st (k' # p @ r) st'"
        using lf_track_remove [of "k # p" ov r st] lf_track_move [of k' k ov "[]" p r st]
        by (cases down) (simp_all add: k'_def st'_def st1_def)
      then have "lf_track (k # p @ ov # r) st R st''"
        using I(3) lf_track_trans lf_track_insert by blast
      ultimately show ?thesis using eq I(1) by (simp add: F(2) suf)
    next
      case 4
      note c = lf_case_4 [OF D(1,9) ov(2) [unfolded 4]]
      note A = lf_at_front [OF at c(1,2) o1(1-3)]
      have eq: "lf_set_loop True k [] xs st = lf_set_loop False k ((p @ [o1]) @ k # []) r st1"
        using step 4 cut(2) [of o1] o1(5) ova by simp
      have "\<exists>R st''. lf_set_loop False k ((p @ [o1]) @ k # []) r st1 = Inr (R, st'')
          \<and> lf_effect True k ((p @ [o1]) @ k # [] @ r) R \<and> lf_track ((p @ [o1]) @ k # [] @ r) st1 R st''"
      proof (rule lf_set_linked)
        show "lf_good (lf_id k) ((p @ [o1]) @ [k])" using D(2,7,9) A(1,2,4) o1(1) by auto
        show "lf_good (lf_id k) r" by (rule D(3))
        show "\<forall>l \<in> set r. lf_id l = lf_id k \<longrightarrow> lf_start k < lf_start l"
          using D(1,4) c(2) by (fastforce simp: lf_ranges)
        show "lf_addr k \<notin> lf_addrs ((p @ [o1]) @ [] @ r)" using assms(4) F(2) suf o1(5) by simp
      qed simp
      then obtain R st'' where I: "lf_set_loop False k ((p @ [o1]) @ k # []) r st1 = Inr (R, st'')"
        "lf_effect True k (p @ o1 # k # r) R" "lf_track (p @ o1 # k # r) st1 R st''" by auto
      have cov: "\<not> lf_covers k b \<Longrightarrow> lf_covers o1 b = lf_covers ov b" for b
        unfolding A(6) using c(3) by (auto simp: lf_covers_def)
      have "lf_effect True k (p @ ov # r) R"
        by (rule lf_effect_trans [OF I(2)]) (use ov(1) o1 cov in auto)
      moreover have "lf_track (k # p @ ov # r) st (k # (p @ [o1]) @ r) st1" using wake [OF o1(5,4)] by simp
      then have "lf_track (k # p @ ov # r) st (p @ o1 # k # r) st1"
        using lf_track_trans lf_track_insert [of k "p @ [o1]" r st1] by fastforce
      then have "lf_track (k # p @ ov # r) st R st''" using I(3) lf_track_trans by blast
      ultimately show ?thesis using eq I(1) by (simp add: F(2) suf)
    next
      case 5
      note c = lf_case_5 [OF D(1,9) ov(2) [unfolded 5]]
      note B = lf_at_behind [OF at c(2,4,3) o2(1-3)]
      have "lf_good (lf_id k) (p @ [k, o2] @ r)" using B(2,4,6) D(7,9) by (simp only: lf_good_simps append.simps) auto
      then have "lf_effect True k (p @ ov # r) (p @ [k, o2] @ r)"
        by (intro lf_effect_one) (use at D B o2 c in \<open>auto simp: lf_at_def lf_covers_def\<close>)
      then show ?thesis using step 5 lf_track_trans [OF wake [OF o2(5,4)] lf_track_insert]
        by (simp add: F(2) suf)
    next
      case 2
      note c = lf_case_2 [OF D(1,9) ov(2) [unfolded 2]]
      have s: "lf_start k \<le> lf_end k" "lf_start ov \<le> lf_end k" using c(1,2) D(9) by (auto simp: lf_ok_def)
      have kr: "\<forall>y \<in> set r. lf_id y = lf_id k \<longrightarrow> lf_before k y"
        using D(4) c(2,3) by (fastforce simp: lf_before_def)
      show ?thesis
      proof (cases "lf_type ov = lf_type k")
        case same: True
        have "lf_effect True k (p @ ov # r) (p @ [ov] @ r)"
        proof (rule lf_effect_one)
          show "lf_good (lf_id k) (p @ ov # r)" "lf_good (lf_id k) (p @ [ov] @ r)"
            using at by (simp_all add: lf_at_def del: lf_good_simps)
          show "lf_holds (lf_id k) [ov] b t \<longleftrightarrow>
              (if lf_covers k b then True \<and> t = lf_type k else lf_covers ov b \<and> t = lf_type ov)" for b t
            using same ov(1) c(1-3) by (auto simp: lf_covers_def)
        qed (use F(3) kr ov(1) in auto)
        then show ?thesis using step 2 same lf_track_drop [of k "[]"] assms(3) by (simp add: F(2) suf)
      next
        case diff: False
        show ?thesis
        proof (cases "lf_start ov = lf_start k")
          case True
          then have c2: "lf_end ov = - 1 \<or> lf_end k < lf_end ov" using c by auto
          note B = lf_at_behind [OF at c(2) c2 s(2) o2(1-3)]
          have "lf_good (lf_id k) (p @ [k, o2] @ r)"
            using B(2,4,6) D(7,9) by (simp only: lf_good_simps append.simps) auto
          then have "lf_effect True k (p @ ov # r) (p @ [k, o2] @ r)"
            by (intro lf_effect_one) (use at D B o2 c True in \<open>auto simp: lf_at_def lf_covers_def\<close>)
          moreover have "lf_set_loop True k [] xs st = Inr (p @ k # o2 # r, st1)"
            using step 2 diff True cut(1) [OF ova] by simp
          ultimately show ?thesis using lf_track_trans [OF wake [OF o2(5,4)] lf_track_insert]
            by (simp add: F(2) suf)
        next
          case neq: False
          then have lt: "lf_start ov < lf_start k" using c(1) by simp
          have c4: "lf_end ov = - 1 \<or> lf_start k \<le> lf_end ov" using c(3) s(1) by auto
          note A = lf_at_front [OF at lt c4 o1(1-3)]
          have w1: "lf_track (k # p @ ov # r) st (p @ o1 # k # r) st1"
            using lf_track_trans [OF wake [OF o1(5,4)]] lf_track_insert [of k "p @ [o1]" r st1] by simp
          show ?thesis
          proof (cases "lf_end ov = lf_end k")
            case True
            have "lf_good (lf_id k) (p @ [o1, k] @ r)"
              using A(2,5) D(7,9) kr o1(1) by (simp only: lf_good_simps append.simps) auto
            then have "lf_effect True k (p @ ov # r) (p @ [o1, k] @ r)"
              by (intro lf_effect_one) (use at D A kr o1 c(2) True in \<open>auto simp: lf_at_def lf_covers_def\<close>)
            moreover have "lf_set_loop True k [] xs st = Inr (p @ o1 # k # r, st1)"
              using step 2 diff neq True cut(2) [of o1] o1(5) ova by (simp add: lf_split_def o1_def st1_def)
            ultimately show ?thesis using w1 by (simp add: F(2) suf)
          next
            case ne: False
            then have c2: "lf_end ov = - 1 \<or> lf_end k < lf_end ov" using c(3) by auto
            define s2 where "s2 = ov\<lparr>lf_addr := lk_addr st, lf_start := s_quad (lf_end k + 1), lf_block := []\<rparr>"
            have s2: "lf_id s2 = lf_id k" "lf_start s2 = lf_end k + 1" "lf_end s2 = lf_end ov"
              "lf_block s2 = []" "lf_addr s2 = lk_addr st1" "lf_type s2 = lf_type ov"
              using ov(1) D(9) c(2) by (simp_all add: s2_def st1_def lf_ok_def)
            note B = lf_at_behind [OF at c(2) c2 s(2) s2(1-3)]
            have "lf_good (lf_id k) (p @ [o1, k, s2] @ r)"
              using lf_at_middle(2) [OF at lt c(2) c2 o1(1-3) s2(1-3)] by (simp del: lf_good_simps)
            then have "lf_effect True k (p @ ov # r) (p @ [o1, k, s2] @ r)"
              by (intro lf_effect_one) (use at D A B o1 s2 c(2) in \<open>auto simp: lf_at_def lf_covers_def\<close>)
            moreover have "lf_set_loop True k [] xs st
                = Inr (p @ o1 # k # s2 # r, st1\<lparr>lk_addr := lk_addr st + 1\<rparr>)"
              using step 2 diff neq ne cut(2) [of o1] o1(5) ova
              by (simp add: lf_split_def o1_def s2_def st1_def Let_def)
            moreover have "lf_track (p @ o1 # k # r) st1 (p @ o1 # k # s2 # r) (st1\<lparr>lk_addr := lk_addr st + 1\<rparr>)"
              using lf_track_new [OF s2(4,5), of "p @ [o1, k]" r] by (simp add: st1_def)
            ultimately show ?thesis using lf_track_trans [OF w1] by (simp add: F(2) suf)
          qed
        qed
      qed
    qed
  qed
qed

end
