(* ===== verification/Lockf_Sys.thy ===== *)
theory Lockf_Sys
  imports Lockf_Set
begin

text \<open>
  The lock routines as a whole: what \<open>lf_setlock\<close>, \<open>lf_clearlock\<close> and \<open>lf_getlock\<close>
  do on a good state, and the system of all requests, retries and interruptions with its
  invariant: no two owners hold conflicting locks, and no waiter is forgotten.
\<close>

section \<open>The blocking lock\<close>

definition lf_conflict :: "lockf \<Rightarrow> lockf \<Rightarrow> bool" where
  "lf_conflict k l \<longleftrightarrow> lf_id l \<noteq> lf_id k \<and> lf_case l k \<noteq> 0 \<and> (lf_type k = F_WRLCK \<or> lf_type l = F_WRLCK)"

lemma lf_findoverlap_others:
  "lf_findoverlap OTHERS k pre rest =
    (let sk = takeWhile (\<lambda>l. lf_id l = lf_id k \<or> lf_case l k = 0) rest;
         suf = dropWhile (\<lambda>l. lf_id l = lf_id k \<or> lf_case l k = 0) rest
     in Inr (case suf of [] \<Rightarrow> 0 | l # _ \<Rightarrow> lf_case l k, pre @ sk, suf))"
proof (induction rest arbitrary: pre)
  case (Cons l rest)
  have "lf_case l k \<noteq> 6" using lf_case_le [of l k] by simp
  then show ?case using Cons by (simp add: Let_def)
qed simp

lemma lf_getblock_find: "lf_getblock k xs = Inr (find (lf_conflict k) xs)"
proof (induction "length xs" arbitrary: xs rule: less_induct)
  case less
  define P where "P = (\<lambda>l. lf_id l = lf_id k \<or> lf_case l k = 0)"
  have skip: "find (lf_conflict k) xs = find (lf_conflict k) (dropWhile P xs)"
    by (induction xs) (auto simp: P_def lf_conflict_def)
  show ?case
  proof (cases "dropWhile P xs")
    case Nil
    then have "lf_findoverlap OTHERS k [] xs = Inr (0, takeWhile P xs, [])"
      using Nil by (simp add: lf_findoverlap_others P_def [symmetric] Let_def del: dropWhile_eq_Nil_conv)
    then show ?thesis using skip Nil by (simp add: lf_getblock.simps)
  next
    case (Cons l r)
    then have l: "\<not> P l" by (rule dropWhile_head)
    have "lf_findoverlap OTHERS k [] xs = Inr (lf_case l k, takeWhile P xs, l # r)"
      using Cons by (simp add: lf_findoverlap_others P_def [symmetric] Let_def)
    moreover obtain m where "lf_case l k = Suc m" using l by (cases "lf_case l k") (auto simp: P_def)
    ultimately have "lf_getblock k xs = (if lf_type k = F_WRLCK \<or> lf_type l = F_WRLCK then Inr (Some l) else lf_getblock k r)"
      by (simp add: lf_getblock.simps [of k xs])
    moreover have "length r < length xs"
      using Cons length_dropWhile_le [of P xs] by (metis Suc_le_eq length_Cons)
    ultimately show ?thesis using less.hyps l skip Cons by (auto simp: P_def lf_conflict_def)
  qed
qed

section \<open>Single operations\<close>

text \<open>A lock as \<open>ufs_advlock\<close> makes it, or one that has been woken up.\<close>

definition lf_request :: "lockf \<Rightarrow> lkstate \<Rightarrow> bool" where
  "lf_request k st \<longleftrightarrow> lf_ok k \<and> lf_block k = [] \<and> lf_addr k \<notin> lf_addrs (i_lockf st (lf_inode k))
     \<and> lf_good (lf_id k) (i_lockf st (lf_inode k))"

lemma back_track: "lf_track xs st R st' \<Longrightarrow> i_lockf st' = i_lockf st \<Longrightarrow> lf_track xs st R (st'\<lparr>i_lockf := i_lockf st\<rparr>)"
  by (cases st') simp

lemma lf_setlock_spec:
  assumes "lf_request k st" "\<not> (\<exists>l \<in> set (i_lockf st (lf_inode k)). lf_conflict k l)"
  shows "\<exists>st'. lf_setlock p k st = Inr (Ret None, st')
    \<and> lf_effect True k (i_lockf st (lf_inode k)) (i_lockf st' (lf_inode k))
    \<and> lf_track (k # i_lockf st (lf_inode k)) st (i_lockf st' (lf_inode k)) (st'\<lparr>i_lockf := i_lockf st\<rparr>)
    \<and> (\<forall>ip. ip \<noteq> lf_inode k \<longrightarrow> i_lockf st' ip = i_lockf st ip)"
proof -
  define ip where "ip = lf_inode k"
  have "find (lf_conflict k) (i_lockf st ip) = None" using assms(2) by (simp add: find_None_iff ip_def)
  moreover obtain R st' where R: "lf_set_loop True k [] (i_lockf st ip) st = Inr (R, st')"
    "lf_effect True k (i_lockf st ip) R" "lf_track (k # i_lockf st ip) st R st'"
    using lf_set_loop_spec [of k "i_lockf st ip" st] assms(1) by (auto simp: lf_request_def ip_def)
  moreover have i: "i_lockf st' = i_lockf st" using R(3) by (auto simp: lf_track_def)
  moreover have "lf_track (k # i_lockf st ip) st R (st'\<lparr>i_lockf := i_lockf st\<rparr>)"
    by (rule back_track [OF R(3) i])
  ultimately show ?thesis by (simp add: lf_setlock_def lf_getblock_find ip_def [symmetric])
qed

text \<open>C16. \<open>lf_setlock\<close> without a conflicting lock returns 0. The owner then holds exactly the
  bytes of the range with the type asked for and the bytes it held outside it as before; its locks
  stay disjoint, valid and in order, no lock of another owner or another inode changes, and every
  waiter is woken or still on the list of a lock.\<close>

theorem lf_setlock_grants:
  assumes "lf_request k st" "\<not> (\<exists>l \<in> set (i_lockf st (lf_inode k)). lf_conflict k l)"
  shows "\<exists>st'. lf_setlock p k st = Inr (Ret None, st')
    \<and> lf_effect True k (i_lockf st (lf_inode k)) (i_lockf st' (lf_inode k))
    \<and> lf_track (k # i_lockf st (lf_inode k)) st (i_lockf st' (lf_inode k)) (st'\<lparr>i_lockf := i_lockf st\<rparr>)
    \<and> (\<forall>ip. ip \<noteq> lf_inode k \<longrightarrow> i_lockf st' ip = i_lockf st ip)"
  by (rule lf_setlock_spec [OF assms])

lemma lf_clearlock_spec:
  assumes "lf_ok k" "lf_good (lf_id k) (i_lockf st (lf_inode k))"
  shows "\<exists>st'. lf_clearlock k st = Inr st'
    \<and> lf_effect False k (i_lockf st (lf_inode k)) (i_lockf st' (lf_inode k))
    \<and> lf_track (i_lockf st (lf_inode k)) st (i_lockf st' (lf_inode k)) (st'\<lparr>i_lockf := i_lockf st\<rparr>)
    \<and> (\<forall>ip. ip \<noteq> lf_inode k \<longrightarrow> i_lockf st' ip = i_lockf st ip)"
proof (cases "i_lockf st (lf_inode k) = []")
  case True
  then show ?thesis using lf_track_refl [of "[]" st] lf_effect_none [of k "[]"]
    by (simp add: lf_clearlock_def)
next
  case False
  obtain R st' where R: "lf_clear_loop k [] (i_lockf st (lf_inode k)) st = Inr (R, st')"
    "lf_effect False k (i_lockf st (lf_inode k)) R" "lf_track (i_lockf st (lf_inode k)) st R st'"
    using lf_clear_loop_spec [of k "[]" "i_lockf st (lf_inode k)" st] assms by auto
  moreover have i: "i_lockf st' = i_lockf st" using R(3) by (auto simp: lf_track_def)
  moreover have "lf_track (i_lockf st (lf_inode k)) st R (st'\<lparr>i_lockf := i_lockf st\<rparr>)"
    by (rule back_track [OF R(3) i])
  ultimately show ?thesis using False by (simp add: lf_clearlock_def)
qed

text \<open>\<open>lf_clearlock\<close> on an owner's good locks never fails; the owner then holds no byte of
  the range, the bytes outside as before, and nothing else changes but waiters that are woken.\<close>

theorem lf_clearlock_frees:
  assumes "lf_ok k" "lf_good (lf_id k) (i_lockf st (lf_inode k))"
  shows "\<exists>st'. lf_clearlock k st = Inr st'
    \<and> lf_effect False k (i_lockf st (lf_inode k)) (i_lockf st' (lf_inode k))
    \<and> lf_track (i_lockf st (lf_inode k)) st (i_lockf st' (lf_inode k)) (st'\<lparr>i_lockf := i_lockf st\<rparr>)
    \<and> (\<forall>ip. ip \<noteq> lf_inode k \<longrightarrow> i_lockf st' ip = i_lockf st ip)"
  by (rule lf_clearlock_spec [OF assms])

section \<open>The invariant\<close>

definition lf_exclusive :: "lockf list \<Rightarrow> bool" where
  "lf_exclusive xs \<longleftrightarrow> (\<forall>l \<in> set xs. \<forall>l' \<in> set xs. lf_id l \<noteq> lf_id l' \<longrightarrow>
     (\<exists>b. lf_covers l b \<and> lf_covers l' b) \<longrightarrow> lf_type l \<noteq> F_WRLCK \<and> lf_type l' \<noteq> F_WRLCK)"

lemma lf_good_others:
  assumes "lf_others j R = lf_others j xs" "i \<noteq> j"
  shows "lf_good i R = lf_good i xs"
proof -
  have "lf_own i ys = filter (\<lambda>l. lf_id l = i) (lf_others j ys)" for ys
    using assms(2) by (auto simp: lf_own_def lf_others_def intro: filter_cong)
  then show ?thesis using assms(1) by (simp add: lf_good_def)
qed

lemma lf_effect_good:
  assumes "lf_effect s k xs R" "\<forall>i. lf_good i xs"
  shows "lf_good i R"
  using assms lf_good_others [of "lf_id k" R xs i] by (cases "i = lf_id k") (auto simp: lf_effect_def)

lemma lf_conflict_covers:
  assumes "lf_ok l" "lf_ok k" "lf_covers l b" "lf_covers k b"
  shows "lf_case l k \<noteq> 0"
  using assms by (auto simp: lf_case_0 lf_ranges)

lemma lf_effect_exclusive:
  assumes e: "lf_effect s k xs R" and g: "\<forall>i. lf_good i xs" and x: "lf_exclusive xs" and k: "lf_ok k"
    and c: "s \<Longrightarrow> \<not> (\<exists>l \<in> set xs. lf_conflict k l)"
  shows "lf_exclusive R"
proof -
  have oth: "l \<in> set xs \<longleftrightarrow> l \<in> set R" if "lf_id l \<noteq> lf_id k" for l
  proof -
    have "l \<in> set (lf_others (lf_id k) xs) \<longleftrightarrow> l \<in> set (lf_others (lf_id k) R)"
      using e by (simp add: lf_effect_def)
    then show ?thesis using that by (simp add: lf_others_def)
  qed
  have own: "lf_type l \<noteq> F_WRLCK \<and> lf_type l' \<noteq> F_WRLCK"
    if l: "l \<in> set R" "lf_id l = lf_id k" "l' \<in> set R" "lf_id l' \<noteq> lf_id k" "lf_covers l b" "lf_covers l' b" for l l' b
  proof -
    have l': "l' \<in> set xs" using oth l by blast
    have "lf_ok l'" using g l' by (auto simp: lf_good_def lf_own_def)
    have h: "if lf_covers k b then s \<and> lf_type l = lf_type k else lf_holds (lf_id k) xs b (lf_type l)"
      using e l unfolding lf_effect_def lf_holds_def by blast
    show ?thesis
    proof (cases "lf_covers k b")
      case True
      then have "\<not> lf_conflict k l'" "lf_type l = lf_type k" using h c l' by auto
      then show ?thesis using lf_conflict_covers [OF \<open>lf_ok l'\<close> k l(6) True] l(4)
        by (simp add: lf_conflict_def)
    next
      case False
      then obtain m where "m \<in> set xs" "lf_id m = lf_id k" "lf_covers m b" "lf_type m = lf_type l"
        using h by (auto simp: lf_holds_def)
      then show ?thesis using x l' l(4,6) unfolding lf_exclusive_def by metis
    qed
  qed
  show ?thesis unfolding lf_exclusive_def
  proof (intro ballI impI)
    fix l l' assume R: "l \<in> set R" "l' \<in> set R" "lf_id l \<noteq> lf_id l'" "\<exists>b. lf_covers l b \<and> lf_covers l' b"
    consider "lf_id l = lf_id k" | "lf_id l' = lf_id k" | "lf_id l \<noteq> lf_id k" "lf_id l' \<noteq> lf_id k" by blast
    then show "lf_type l \<noteq> F_WRLCK \<and> lf_type l' \<noteq> F_WRLCK"
    proof cases
      case 1
      then show ?thesis using own R by metis
    next
      case 2
      then show ?thesis using own R by metis
    next
      case 3
      then show ?thesis using x R oth unfolding lf_exclusive_def by blast
    qed
  qed
qed

text \<open>A waiting lock has not been woken, or is on the list of a lock of its inode.\<close>

definition lk_waiter_ok :: "lkstate \<Rightarrow> nat \<Rightarrow> lockf \<Rightarrow> bool" where
  "lk_waiter_ok st a w \<longleftrightarrow> lf_addr w = a \<and> a < lk_addr st \<and> lf_ok w \<and> lf_block w = []
     \<and> (lf_next w \<noteq> None \<longrightarrow> a \<in> lf_blocked (i_lockf st (lf_inode w)))"

definition lk_inv :: "lkstate \<Rightarrow> bool" where
  "lk_inv st \<longleftrightarrow> (\<forall>ip. (\<forall>i. lf_good i (i_lockf st ip)) \<and> lf_exclusive (i_lockf st ip)
       \<and> distinct (map lf_addr (i_lockf st ip))
       \<and> (\<forall>a \<in> lf_addrs (i_lockf st ip). a < lk_addr st \<and> lk_wait st a = None))
     \<and> (\<forall>a w. lk_wait st a = Some w \<longrightarrow> lk_waiter_ok st a w)"

lemma lk_invD:
  assumes "lk_inv st"
  shows "\<And>ip i. lf_good i (i_lockf st ip)" "\<And>ip. lf_exclusive (i_lockf st ip)"
    "\<And>ip. distinct (map lf_addr (i_lockf st ip))"
    "\<And>ip a. a \<in> lf_addrs (i_lockf st ip) \<Longrightarrow> a < lk_addr st \<and> lk_wait st a = None"
    "\<And>a w. lk_wait st a = Some w \<Longrightarrow> lk_waiter_ok st a w"
  using assms unfolding lk_inv_def by blast+

lemma lf_wake_wait: "lk_wait (lf_wake ws st) a = (if a \<in> set ws
    then map_option (\<lambda>l. l\<lparr>lf_next := None, lf_block := []\<rparr>) (lk_wait st a) else lk_wait st a)"
  by (simp add: lf_wake_def)

text \<open>An operation on the locks of one inode; \<open>new\<close> is the lock it adds, if any.\<close>

lemma lk_inv_op:
  assumes inv: "lk_inv st"
    and e: "lf_effect s k (i_lockf st ip) (i_lockf st' ip)" and k: "lf_ok k"
    and c: "s \<Longrightarrow> \<not> (\<exists>l \<in> set (i_lockf st ip). lf_conflict k l)"
    and t: "lf_track (new @ i_lockf st ip) st (i_lockf st' ip) (st'\<lparr>i_lockf := i_lockf st\<rparr>)"
    and o: "\<forall>j. j \<noteq> ip \<longrightarrow> i_lockf st' j = i_lockf st j"
    and new: "new = [] \<or> new = [k] \<and> lf_block k = [] \<and> lf_addr k < lk_addr st
      \<and> lf_addr k \<notin> lf_addrs (i_lockf st ip) \<and> lk_wait st (lf_addr k) = None"
  shows "lk_inv st'"
proof -
  note D = lk_invD [OF inv]
  define R where "R = i_lockf st' ip"
  obtain ws n where w: "st'\<lparr>i_lockf := i_lockf st\<rparr> = (lf_wake ws st)\<lparr>lk_addr := n\<rparr>" "lk_addr st \<le> n"
    "set ws \<union> lf_blocked R = lf_blocked (new @ i_lockf st ip)"
    "lf_addrs R \<subseteq> lf_addrs (new @ i_lockf st ip) \<union> {lk_addr st..<n}"
    "distinct (map lf_addr (new @ i_lockf st ip))
      \<and> (\<forall>a \<in> lf_addrs (new @ i_lockf st ip). a < lk_addr st) \<longrightarrow> distinct (map lf_addr R)"
    using t unfolding lf_track_def R_def by blast
  have wait: "lk_wait st' = lk_wait (lf_wake ws st)" and n: "lk_addr st' = n"
    using arg_cong [OF w(1), of lk_wait] arg_cong [OF w(1), of lk_addr] by simp_all
  have na: "a < lk_addr st \<and> lk_wait st a = None" if "a \<in> lf_addrs (new @ i_lockf st ip)" for a
    using that new D(4) by auto
  have nb: "lf_blocked (new @ i_lockf st ip) = lf_blocked (i_lockf st ip)" using new by auto
  have nd: "distinct (map lf_addr R)" using w(5) na new D(3) [of ip] by (auto simp: lf_addrs_def)
  have noneR: "a < n \<and> lk_wait st a = None" if "a \<in> lf_addrs R" for a
  proof -
    have "lk_wait st b = None" if "lk_addr st \<le> b" for b
      using D(5) [of b] that by (cases "lk_wait st b") (auto simp: lk_waiter_ok_def)
    then show ?thesis using w(2,4) na that by fastforce
  qed
  have lists: "(\<forall>i. lf_good i (i_lockf st' j)) \<and> lf_exclusive (i_lockf st' j)
      \<and> distinct (map lf_addr (i_lockf st' j))
      \<and> (\<forall>a \<in> lf_addrs (i_lockf st' j). a < lk_addr st' \<and> lk_wait st' a = None)" for j
  proof (cases "j = ip")
    case True
    then show ?thesis
      using lf_effect_good [OF e] lf_effect_exclusive [OF e _ D(2) k c] D(1) nd noneR
      by (auto simp: R_def wait n lf_wake_wait)
  next
    case False
    then show ?thesis using o D w(2) by (fastforce simp: wait n lf_wake_wait)
  qed
  have "lk_waiter_ok st' a x" if a: "lk_wait st' a = Some x" for a x
  proof (cases "a \<in> set ws")
    case True
    then obtain y where y: "lk_wait st a = Some y" "x = y\<lparr>lf_next := None, lf_block := []\<rparr>"
      using a by (auto simp: wait lf_wake_wait)
    then show ?thesis using D(5) [OF y(1)] w(2) n by (simp add: lk_waiter_ok_def lf_ok_def)
  next
    case False
    then have "lk_wait st a = Some x" using a by (simp add: wait lf_wake_wait)
    note W = D(5) [OF this, unfolded lk_waiter_ok_def]
    have "a \<in> lf_blocked (i_lockf st' (lf_inode x))" if "lf_next x \<noteq> None"
      using W that o w(3) nb False unfolding R_def by (cases "lf_inode x = ip") auto
    then show ?thesis using W w(2) n by (auto simp: lk_waiter_ok_def)
  qed
  then show ?thesis using lists unfolding lk_inv_def by blast
qed

text \<open>Changing the lists of waiters only.\<close>

lemma lf_map_block:
  assumes "\<forall>l. lf_id (f l) = lf_id l \<and> lf_start (f l) = lf_start l \<and> lf_end (f l) = lf_end l
    \<and> lf_type (f l) = lf_type l \<and> lf_addr (f l) = lf_addr l"
  shows "lf_good i (map f xs) = lf_good i xs" "lf_exclusive (map f xs) = lf_exclusive xs"
    "map lf_addr (map f xs) = map lf_addr xs" "lf_addrs (map f xs) = lf_addrs xs"
proof -
  show "lf_good i (map f xs) = lf_good i xs"
    using assms by (induction xs) (simp_all add: lf_ok_def lf_before_def)
  show "lf_exclusive (map f xs) = lf_exclusive xs"
    using assms by (simp add: lf_exclusive_def lf_covers_def)
  show "map lf_addr (map f xs) = map lf_addr xs" "lf_addrs (map f xs) = lf_addrs xs"
    using assms by (simp_all add: lf_addrs_def image_image)
qed

lemma lk_inv_sleep:
  assumes inv: "lk_inv st" and k: "lf_ok k" "lf_block k = []" "lf_addr k < lk_addr st"
      "\<forall>ip. lf_addr k \<notin> lf_addrs (i_lockf st ip)"
    and b: "block \<in> set (i_lockf st (lf_inode k))"
    and st': "lk_wait st' = (lk_wait st)(lf_addr k \<mapsto> k\<lparr>lf_next := Some (lf_addr block)\<rparr>)"
      "lk_addr st' = lk_addr st"
      "i_lockf st' = (i_lockf st)(lf_inode k := map (\<lambda>l. if lf_addr l = lf_addr block
         then lf_addblock l [lf_addr k] else l) (i_lockf st (lf_inode k)))"
  shows "lk_inv st'"
proof -
  note D = lk_invD [OF inv]
  define f where "f = (\<lambda>l. if lf_addr l = lf_addr block then lf_addblock l [lf_addr k] else l)"
  have f: "\<forall>l. lf_id (f l) = lf_id l \<and> lf_start (f l) = lf_start l \<and> lf_end (f l) = lf_end l
      \<and> lf_type (f l) = lf_type l \<and> lf_addr (f l) = lf_addr l" by (simp add: f_def lf_addblock_def)
  have sub: "lf_blocked xs \<subseteq> lf_blocked (map f xs)" for xs
    by (fastforce simp: lf_blocked_def f_def lf_addblock_def)
  have mono: "lf_blocked (i_lockf st ip) \<subseteq> lf_blocked (i_lockf st' ip)" for ip
    using sub by (simp add: st'(3) f_def)
  have "lf_addr k \<in> set (lf_block (f block))" by (simp add: f_def lf_addblock_def)
  then have new: "lf_addr k \<in> lf_blocked (i_lockf st' (lf_inode k))"
    using b by (fastforce simp: st'(3) lf_blocked_def f_def)
  have "lf_good i (i_lockf st' ip) \<and> lf_exclusive (i_lockf st' ip) \<and> distinct (map lf_addr (i_lockf st' ip))
      \<and> (\<forall>a \<in> lf_addrs (i_lockf st' ip). a < lk_addr st' \<and> lk_wait st' a = None)" for ip i
  proof -
    have "lf_good i (i_lockf st' ip) = lf_good i (i_lockf st ip)"
      "lf_exclusive (i_lockf st' ip) = lf_exclusive (i_lockf st ip)"
      "map lf_addr (i_lockf st' ip) = map lf_addr (i_lockf st ip)"
      "lf_addrs (i_lockf st' ip) = lf_addrs (i_lockf st ip)"
      using lf_map_block [OF f] by (simp_all add: st'(3) f_def [symmetric] del: map_map)
    then show ?thesis using D(1-3) D(4) [where ip = ip] k(4) by (auto simp: st'(1,2))
  qed
  moreover have "lk_waiter_ok st' a w" if a: "lk_wait st' a = Some w" for a w
  proof (cases "a = lf_addr k")
    case True
    then show ?thesis using a k new by (auto simp: st'(1,2) lk_waiter_ok_def lf_ok_def)
  next
    case False
    then have "lk_waiter_ok st a w" using a D(5) by (simp add: st'(1))
    then show ?thesis using mono by (auto simp: lk_waiter_ok_def st'(2))
  qed
  ultimately show ?thesis unfolding lk_inv_def by blast
qed

lemma lk_inv_setlock:
  assumes inv: "lk_inv st" and k: "lf_ok k" "lf_block k = []" "lf_addr k < lk_addr st" "lk_wait st (lf_addr k) = None"
    and fresh: "\<forall>ip. lf_addr k \<notin> lf_addrs (i_lockf st ip)"
    and r: "lf_setlock p k st = Inr (r, st')"
  shows "lk_inv st'"
proof -
  note D = lk_invD [OF inv]
  define ip where "ip = lf_inode k"
  have rq: "lf_request k st" using k fresh D(1) by (simp add: lf_request_def)
  show ?thesis
  proof (cases "find (lf_conflict k) (i_lockf st ip)")
    case None
    then have nc: "\<not> (\<exists>l \<in> set (i_lockf st ip). lf_conflict k l)" by (auto simp: find_None_iff)
    from lf_setlock_spec [OF rq nc [unfolded ip_def], of p] r
    have "lf_effect True k (i_lockf st ip) (i_lockf st' ip)"
      "lf_track ([k] @ i_lockf st ip) st (i_lockf st' ip) (st'\<lparr>i_lockf := i_lockf st\<rparr>)"
      "\<forall>j. j \<noteq> ip \<longrightarrow> i_lockf st' j = i_lockf st j" by (auto simp: ip_def)
    then show ?thesis using lk_inv_op [OF inv] k fresh nc by blast
  next
    case (Some block)
    then have bm: "block \<in> set (i_lockf st ip)" "lf_conflict k block" by (auto simp: find_Some_iff)
    show ?thesis
    proof (cases "r = Asleep")
      case False
      then have "st' = st" using r Some
        by (auto simp: lf_setlock_def lf_getblock_find ip_def Let_def split: if_splits)
      then show ?thesis using inv by simp
    next
      case True
      then obtain st1 where s1: "(if F_FLOCK \<in> lf_flags k \<and> lf_type k = F_WRLCK
          then lf_clearlock (k\<lparr>lf_type := F_UNLCK\<rparr>) st else Inr st) = Inr st1"
        and s2: "st' = st1\<lparr>lk_wait := (lk_wait st1)(lf_addr k \<mapsto> k\<lparr>lf_next := Some (lf_addr block)\<rparr>),
          p_lockwchan := (p_lockwchan st1)(p \<mapsto> lf_addr k),
          i_lockf := (i_lockf st1)(ip := map (\<lambda>l. if lf_addr l = lf_addr block
            then lf_addblock l [lf_addr k] else l) (i_lockf st1 ip))\<rparr>"
        using r Some by (auto simp: lf_setlock_def lf_getblock_find ip_def [symmetric] Let_def split: if_splits)
      have "lk_inv st1 \<and> lf_addr k < lk_addr st1 \<and> (\<forall>j. lf_addr k \<notin> lf_addrs (i_lockf st1 j))
          \<and> block \<in> set (i_lockf st1 ip)"
      proof (cases "F_FLOCK \<in> lf_flags k \<and> lf_type k = F_WRLCK")
        case False
        then have "st1 = st" using s1 by (simp only: if_False sum.inject)
        then show ?thesis using inv k fresh bm by simp
      next
        case t: True
        define u where "u = k\<lparr>lf_type := F_UNLCK\<rparr>"
        have u: "lf_ok u" "lf_id u = lf_id k" "lf_inode u = ip" using k(1) by (simp_all add: u_def ip_def lf_ok_def)
        have "lf_clearlock u st = Inr st1" using s1 t by (simp add: u_def)
        then have C: "lf_effect False u (i_lockf st ip) (i_lockf st1 ip)"
          "lf_track ([] @ i_lockf st ip) st (i_lockf st1 ip) (st1\<lparr>i_lockf := i_lockf st\<rparr>)"
          "\<forall>j. j \<noteq> ip \<longrightarrow> i_lockf st1 j = i_lockf st j"
          using lf_clearlock_spec [OF u(1) D(1)] u(3) by auto
        have inv1: "lk_inv st1" by (rule lk_inv_op [OF inv C(1) u(1) _ C(2,3)]) auto
        obtain ws n where "st1\<lparr>i_lockf := i_lockf st\<rparr> = (lf_wake ws st)\<lparr>lk_addr := n\<rparr>" "lk_addr st \<le> n"
          "lf_addrs (i_lockf st1 ip) \<subseteq> lf_addrs (i_lockf st ip) \<union> {lk_addr st..<n}"
          using C(2) unfolding lf_track_def by auto
        note W = this
        have "lk_addr st1 = n" using arg_cong [OF W(1), of lk_addr] by simp
        moreover have "lf_addr k \<notin> lf_addrs (i_lockf st1 j)" for j
          using C(3) W(3) fresh k(3) by (cases "j = ip") auto
        moreover have "block \<in> set (lf_others (lf_id k) (i_lockf st ip))"
          using bm by (simp add: lf_others_def lf_conflict_def)
        then have "block \<in> set (i_lockf st1 ip)"
        proof -
          have "lf_others (lf_id k) (i_lockf st1 ip) = lf_others (lf_id k) (i_lockf st ip)"
            using C(1) u(2) by (simp add: lf_effect_def)
          with \<open>block \<in> set (lf_others (lf_id k) (i_lockf st ip))\<close>
          have "block \<in> set (lf_others (lf_id k) (i_lockf st1 ip))" by simp
          then show ?thesis by (simp add: lf_others_def)
        qed
        ultimately show ?thesis using inv1 W(2) k(3) by simp
      qed
      then have A: "lk_inv st1" "lf_addr k < lk_addr st1" "\<forall>j. lf_addr k \<notin> lf_addrs (i_lockf st1 j)"
        "block \<in> set (i_lockf st1 (lf_inode k))" unfolding ip_def by blast+
      show ?thesis
        by (rule lk_inv_sleep [OF A(1) k(1,2) A(2,3,4)]) (unfold s2 ip_def, simp_all)
    qed
  qed
qed

lemma lk_inv_interrupted:
  assumes inv: "lk_inv st" and r: "lf_interrupted p a st = Inr st'"
  shows "lk_inv st'"
proof -
  note D = lk_invD [OF inv]
  obtain w b where w: "lk_wait st a = Some w"
    "st' = st\<lparr>lk_wait := (lk_wait st)(a := None), p_lockwchan := (p_lockwchan st)(p := None),
       i_lockf := (i_lockf st)(lf_inode w := map (\<lambda>l. if lf_addr l = b
         then l\<lparr>lf_block := remove1 a (lf_block l)\<rparr> else l) (i_lockf st (lf_inode w)))\<rparr>"
    using r by (auto simp: lf_interrupted_def split: option.splits if_splits)
  define f :: "lockf \<Rightarrow> lockf" where "f = (\<lambda>l. if lf_addr l = b then l\<lparr>lf_block := remove1 a (lf_block l)\<rparr> else l)"
  have f: "\<forall>l. lf_id (f l) = lf_id l \<and> lf_start (f l) = lf_start l \<and> lf_end (f l) = lf_end l
      \<and> lf_type (f l) = lf_type l \<and> lf_addr (f l) = lf_addr l" by (simp add: f_def)
  have i: "i_lockf st' = (i_lockf st)(lf_inode w := map f (i_lockf st (lf_inode w)))"
    by (simp add: w(2) f_def)
  have "x \<in> lf_blocked (map f xs)" if x: "x \<in> lf_blocked xs" "x \<noteq> a" for x xs
  proof -
    obtain l where l: "l \<in> set xs" "x \<in> set (lf_block l)" using x(1) by (auto simp: lf_blocked_def)
    then have "x \<in> set (lf_block (f l))" using x(2) by (simp add: f_def)
    then show ?thesis using l(1) by (auto simp: lf_blocked_def)
  qed
  then have mono: "x \<in> lf_blocked (i_lockf st' ip)" if "x \<in> lf_blocked (i_lockf st ip)" "x \<noteq> a" for x ip
    using that by (cases "ip = lf_inode w") (simp_all add: i)
  have "lf_good j (i_lockf st' ip) \<and> lf_exclusive (i_lockf st' ip) \<and> distinct (map lf_addr (i_lockf st' ip))
      \<and> (\<forall>a \<in> lf_addrs (i_lockf st' ip). a < lk_addr st' \<and> lk_wait st' a = None)" for ip j
  proof -
    have "lf_good j (i_lockf st' ip) = lf_good j (i_lockf st ip)"
      "lf_exclusive (i_lockf st' ip) = lf_exclusive (i_lockf st ip)"
      "map lf_addr (i_lockf st' ip) = map lf_addr (i_lockf st ip)"
      "lf_addrs (i_lockf st' ip) = lf_addrs (i_lockf st ip)"
      using lf_map_block [OF f] by (simp_all add: i del: map_map)
    then show ?thesis using D(1-3) D(4) [where ip = ip] by (auto simp: w(2))
  qed
  moreover have "lk_waiter_ok st' c y" if c: "lk_wait st' c = Some y" for c y
  proof -
    have "c \<noteq> a" "lk_wait st c = Some y" using c by (auto simp: w(2) split: if_splits)
    then show ?thesis using D(5) mono by (auto simp: lk_waiter_ok_def w(2) i)
  qed
  ultimately show ?thesis unfolding lk_inv_def by blast
qed

section \<open>All histories\<close>

text \<open>
  Any sequence of advisory lock requests with a valid range, of retries of locks that have been woken
  up, and of interruptions of waiters, from a state without locks.
\<close>

definition flock_valid :: "(nat \<Rightarrow> int) \<Rightarrow> nat \<Rightarrow> flock \<Rightarrow> bool" where
  "flock_valid isize ip fl \<longleftrightarrow>
     (let start = (if l_whence fl = SEEK_END then isize ip + l_start fl else l_start fl)
      in 0 \<le> l_len fl \<and> - 9223372036854775808 \<le> start \<and> start + l_len fl < 9223372036854775808)"

definition lk_init :: "lkstate \<Rightarrow> bool" where
  "lk_init st \<longleftrightarrow> (\<forall>ip. i_lockf st ip = []) \<and> (\<forall>a. lk_wait st a = None)"

inductive lf_reach :: "(nat \<Rightarrow> int) \<Rightarrow> (nat \<Rightarrow> int) \<Rightarrow> lkstate \<Rightarrow> bool" for isize pid where
  init: "lk_init st \<Longrightarrow> lf_reach isize pid st"
| request: "lf_reach isize pid st \<Longrightarrow> flock_valid isize ip fl \<Longrightarrow>
    ufs_advlock isize pid p ip id' op' fl flags st = Inr (r, fl', st') \<Longrightarrow> lf_reach isize pid st'"
| retry: "lf_reach isize pid st \<Longrightarrow> lk_wait st a = Some w \<Longrightarrow> lf_next w = None \<Longrightarrow>
    lf_setlock p w (st\<lparr>lk_wait := (lk_wait st)(a := None)\<rparr>) = Inr (r, st') \<Longrightarrow> lf_reach isize pid st'"
| interrupt: "lf_reach isize pid st \<Longrightarrow> lf_interrupted p a st = Inr st' \<Longrightarrow> lf_reach isize pid st'"

lemma lk_inv_addr:
  assumes "lk_inv st" shows "lk_inv (st\<lparr>lk_addr := lk_addr st + 1\<rparr>)"
  using assms unfolding lk_inv_def lk_waiter_ok_def by (simp add: less_Suc_eq)

lemma lk_inv_advlock:
  assumes inv: "lk_inv st" and v: "flock_valid isize ip fl"
    and r: "ufs_advlock isize pid p ip id' op' fl flags st = Inr (r, fl', st')"
  shows "lk_inv st'"
proof -
  define start where "start = (if l_whence fl = SEEK_END then s_quad (isize ip + l_start fl) else l_start fl)"
  define k where "k = \<lparr>lf_addr = lk_addr st, lf_flags = flags, lf_type = l_type fl, lf_start = start,
    lf_end = (if l_len fl = 0 then - 1 else s_quad (start + l_len fl - 1)), lf_id = id', lf_inode = ip,
    lf_next = None, lf_block = []\<rparr>"
  define st0 where "st0 = st\<lparr>lk_addr := lk_addr st + 1\<rparr>"
  have inv0: "lk_inv st0" unfolding st0_def by (rule lk_inv_addr [OF inv])
  note D = lk_invD [OF inv]
  have eq: "ufs_advlock isize pid p ip id' op' fl flags st =
    (if i_lockf st ip = [] \<and> op' \<noteq> ADV_SETLK then Inr (Ret None, fl\<lparr>l_type := F_UNLCK\<rparr>, st)
     else if l_whence fl = SEEK_bad then Inr (Ret (Some EINVAL), fl, st)
     else if start < 0 then Inr (Ret (Some EINVAL), fl, st)
     else case op' of
       ADV_SETLK \<Rightarrow> bindE (lf_setlock p k st0) (\<lambda>(r, st). Inr (r, fl, st))
     | ADV_UNLCK \<Rightarrow> bindE (lf_clearlock k st0) (\<lambda>st. Inr (Ret None, fl, st))
     | ADV_GETLK \<Rightarrow> bindE (lf_getlock pid k fl st0) (\<lambda>fl. Inr (Ret None, fl, st0))
     | ADV_other \<Rightarrow> Inr (Ret (Some EINVAL), fl, st0))"
    unfolding ufs_advlock_def Let_def start_def k_def st0_def ..
  consider "st' = st" | (other) "st' = st0"
    | (set) "0 \<le> start" "lf_setlock p k st0 = Inr (r, st')"
    | (clear) "0 \<le> start" "lf_clearlock k st0 = Inr st'"
    using r unfolding eq by (auto split: if_splits advop.splits)
  then show ?thesis
  proof cases
    case set
    have "lk_wait st (lk_addr st) = None"
      using D(5) [of "lk_addr st"] by (cases "lk_wait st (lk_addr st)") (auto simp: lk_waiter_ok_def)
    moreover have "lk_addr st \<notin> lf_addrs (i_lockf st j)" for j using D(4) [where ip = j] by blast
    moreover have "lf_ok k" using set(1) v
      by (auto simp: k_def lf_ok_def flock_valid_def Let_def start_def split: if_splits)
    ultimately show ?thesis
      by (intro lk_inv_setlock [OF inv0 _ _ _ _ _ set(2)]) (simp_all add: k_def st0_def)
  next
    case clear
    have k: "lf_ok k" using clear(1) v
      by (auto simp: k_def lf_ok_def flock_valid_def Let_def start_def split: if_splits)
    from lf_clearlock_spec [OF k lk_invD(1) [OF inv0]] clear(2)
    have "lf_effect False k (i_lockf st0 ip) (i_lockf st' ip)"
      "lf_track ([] @ i_lockf st0 ip) st0 (i_lockf st' ip) (st'\<lparr>i_lockf := i_lockf st0\<rparr>)"
      "\<forall>j. j \<noteq> ip \<longrightarrow> i_lockf st' j = i_lockf st0 j" by (auto simp: k_def)
    note C = this
    show ?thesis by (rule lk_inv_op [OF inv0 C(1) k _ C(2,3)]) auto
  qed (use inv inv0 in simp_all)
qed

lemma lf_reach_inv: "lf_reach isize pid st \<Longrightarrow> lk_inv st"
proof (induction rule: lf_reach.induct)
  case (init st)
  then show ?case by (simp add: lk_init_def lk_inv_def lf_exclusive_def)
next
  case (request st ip fl p id' op' flags r fl' st')
  then show ?case using lk_inv_advlock by blast
next
  case (retry st a w p r st')
  define st0 where "st0 = st\<lparr>lk_wait := (lk_wait st)(a := None)\<rparr>"
  note D = lk_invD [OF retry.IH]
  have w: "lf_addr w = a" "a < lk_addr st" "lf_ok w" "lf_block w = []"
    using D(5) [OF retry.hyps(2)] by (simp_all add: lk_waiter_ok_def)
  have "lk_inv st0" using retry.IH unfolding lk_inv_def lk_waiter_ok_def st0_def by simp
  moreover have "lf_addr w \<notin> lf_addrs (i_lockf st0 ip)" for ip
    using D(4) [where ip = ip] retry.hyps(2) w(1) by (auto simp: st0_def)
  ultimately show ?case
    using retry.hyps(4) w by (intro lk_inv_setlock [of st0 w p r st']) (simp_all add: st0_def)
next
  case (interrupt st p a st')
  then show ?case using lk_inv_interrupted by blast
qed

text \<open>C2. In every state reached, two owners never hold conflicting locks of the same bytes, and the
  locks of an owner are valid, disjoint and in order.\<close>

theorem lf_locks_exclusive:
  assumes "lf_reach isize pid st"
  shows "lf_exclusive (i_lockf st ip) \<and> lf_good i (i_lockf st ip)"
  using lf_reach_inv [OF assms] lk_invD by blast

text \<open>C38. In every state reached, a waiting lock has been woken up or is on the list of waiters of a lock
  of its inode, so that it is woken when that lock changes or goes away.\<close>

theorem lf_waiters_listed:
  assumes "lf_reach isize pid st" "lk_wait st a = Some w"
  shows "lf_next w = None \<or> (\<exists>l \<in> set (i_lockf st (lf_inode w)). a \<in> set (lf_block l))"
  using lk_invD(5) [OF lf_reach_inv [OF assms(1)] assms(2)] by (auto simp: lk_waiter_ok_def lf_blocked_def)

section \<open>Interrupted waiters\<close>

text \<open>A process that has been woken up and whose sleep then ends with a signal panics the kernel:
  \<open>lf_wakelock\<close> has cleared its \<open>lf_next\<close>, so it does not find itself on any list.\<close>

theorem lf_woken_interrupt_panics:
  assumes "lk_wait st a = Some w" "a \<in> set (lf_block l)"
  shows "lf_interrupted p a (snd (lf_wakelock l st)) = Inl (Panic ''lf_setlock: lost lock'')"
  using assms by (simp add: lf_wakelock_def lf_interrupted_def lf_wake_wait)

section \<open>A history\<close>

definition ex_flock :: "ltype \<Rightarrow> int \<Rightarrow> int \<Rightarrow> flock" where
  "ex_flock t s n = \<lparr>l_type = t, l_whence = SEEK_SET, l_start = s, l_len = n, l_pid = 0\<rparr>"

definition ex_lock :: "nat \<Rightarrow> int \<Rightarrow> int \<Rightarrow> nat \<Rightarrow> nat option \<Rightarrow> nat list \<Rightarrow> lockf" where
  "ex_lock a s e i nx bl = \<lparr>lf_addr = a, lf_flags = {F_POSIX, F_WAIT}, lf_type = F_WRLCK, lf_start = s,
     lf_end = e, lf_id = i, lf_inode = 0, lf_next = nx, lf_block = bl\<rparr>"

definition ex_lk :: "lockf list \<Rightarrow> (nat \<Rightarrow> lockf option) \<Rightarrow> (nat \<Rightarrow> nat option) \<Rightarrow> nat \<Rightarrow> lkstate" where
  "ex_lk xs w pw a = \<lparr>i_lockf = (\<lambda>_. [])(0 := xs), lk_wait = w, p_lockwchan = pw, lk_addr = a\<rparr>"

text \<open>Process 1 locks the bytes 10 to 19, process 2 waits for byte 12, process 1 locks the
  bytes 0 to 29.\<close>

definition ex_lk0 :: lkstate where "ex_lk0 = ex_lk [] Map.empty Map.empty 100"
definition ex_lk1 :: lkstate where "ex_lk1 = ex_lk [ex_lock 100 10 19 1 None []] Map.empty Map.empty 101"
definition ex_lk2 :: lkstate where
  "ex_lk2 = ex_lk [ex_lock 100 10 19 1 None [101]] [101 \<mapsto> ex_lock 101 12 12 2 (Some 100) []] [2 \<mapsto> 101] 102"
definition ex_lk3 :: lkstate where
  "ex_lk3 = ex_lk [ex_lock 102 0 29 1 None [101]] [101 \<mapsto> ex_lock 101 12 12 2 (Some 100) []] [2 \<mapsto> 101] 103"

lemmas ex_lk_defs = ex_lk0_def ex_lk1_def ex_lk2_def ex_lk3_def ex_lk_def ex_lock_def ex_flock_def

lemma ex_lk_steps:
  "ufs_advlock (\<lambda>_. 0) pid 1 0 1 ADV_SETLK (ex_flock F_WRLCK 10 10) {F_POSIX, F_WAIT} ex_lk0
    = Inr (Ret None, ex_flock F_WRLCK 10 10, ex_lk1)"
  "ufs_advlock (\<lambda>_. 0) pid 2 0 2 ADV_SETLK (ex_flock F_WRLCK 12 1) {F_POSIX, F_WAIT} ex_lk1
    = Inr (Asleep, ex_flock F_WRLCK 12 1, ex_lk2)"
  "ufs_advlock (\<lambda>_. 0) pid 1 0 1 ADV_SETLK (ex_flock F_WRLCK 0 30) {F_POSIX, F_WAIT} ex_lk2
    = Inr (Ret None, ex_flock F_WRLCK 0 30, ex_lk3)"
  by (simp_all add: ex_lk_defs ufs_advlock_def lf_setlock_def lf_getblock_find lf_set_loop.simps
      lf_conflict_def lf_case_def MAXDEPTH_def numeral_eq_Suc lf_addblock_def)

lemma ex_lk_reach: "lf_reach (\<lambda>_. 0) pid ex_lk2" "lf_reach (\<lambda>_. 0) pid ex_lk3"
proof -
  have v: "flock_valid (\<lambda>_. 0) 0 (ex_flock F_WRLCK 10 10)" "flock_valid (\<lambda>_. 0) 0 (ex_flock F_WRLCK 12 1)"
    "flock_valid (\<lambda>_. 0) 0 (ex_flock F_WRLCK 0 30)" by (simp_all add: flock_valid_def ex_flock_def)
  have "lf_reach (\<lambda>_. 0) pid ex_lk0" by (rule lf_reach.init) (simp add: lk_init_def ex_lk_defs)
  then have "lf_reach (\<lambda>_. 0) pid ex_lk1" using v(1) ex_lk_steps(1) by (rule lf_reach.request)
  then show 2: "lf_reach (\<lambda>_. 0) pid ex_lk2" using v(2) ex_lk_steps(2) by (rule lf_reach.request)
  then show "lf_reach (\<lambda>_. 0) pid ex_lk3" using v(3) ex_lk_steps(3) by (rule lf_reach.request)
qed

lemma ex_lk_request:
  "lf_request (ex_lock 102 0 29 1 None []) ex_lk2"
  "\<not> (\<exists>l \<in> set (i_lockf ex_lk2 0). lf_conflict (ex_lock 102 0 29 1 None []) l)"
  by (simp_all add: ex_lk_defs lf_request_def lf_ok_def lf_conflict_def)

theorem lf_setlock_grants_witness:
  "\<exists>st'. lf_setlock 1 (ex_lock 102 0 29 1 None []) ex_lk2 = Inr (Ret None, st')"
  using lf_setlock_grants [OF ex_lk_request(1), of 1] ex_lk_request(2) by (auto simp: ex_lock_def)

theorem lf_clearlock_frees_witness:
  "\<exists>st'. lf_clearlock (ex_lock 102 12 15 1 None []) ex_lk2 = Inr st'"
  using lf_clearlock_frees [of "ex_lock 102 12 15 1 None []" ex_lk2] by (auto simp: ex_lk_defs lf_ok_def)

theorem lf_locks_exclusive_witness:
  "lf_exclusive (i_lockf ex_lk3 0) \<and> lf_good 1 (i_lockf ex_lk3 0)"
  by (rule lf_locks_exclusive [OF ex_lk_reach(2) [of "\<lambda>_. 0"]])

theorem lf_waiters_listed_witness:
  "\<exists>l \<in> set (i_lockf ex_lk2 0). 101 \<in> set (lf_block l)"
  using lf_waiters_listed [OF ex_lk_reach(1) [of "\<lambda>_. 0"], of 101 "ex_lock 101 12 12 2 (Some 100) []"]
  by (simp add: ex_lk_defs)

theorem lf_woken_interrupt_panics_witness:
  "lf_interrupted 2 101 (snd (lf_wakelock (ex_lock 100 10 19 1 None [101]) ex_lk2))
    = Inl (Panic ''lf_setlock: lost lock'')"
  using lf_woken_interrupt_panics [of ex_lk2 101 "ex_lock 101 12 12 2 (Some 100) []"
      "ex_lock 100 10 19 1 None [101]" 2] by (simp add: ex_lk_defs)

text \<open>When a lock that others wait for is swallowed by a larger one of its owner, its waiters
  move to the new lock, but their \<open>lf_next\<close> still points to the lock that has been freed: a
  waiter that is interrupted then follows it.\<close>

theorem lf_moved_waiter_dangles:
  "lf_reach (\<lambda>_. 0) pid ex_lk3 \<and> lf_interrupted 2 101 ex_lk3 = Inl BadAccess"
  using ex_lk_reach(2) by (simp add: ex_lk_defs lf_interrupted_def)

text \<open>A length below 0 makes a range that ends before it starts: unlocking it inside a lock
  leaves its owner with two overlapping locks.\<close>

lemma ufs_advlock_negative_length:
  "\<exists>st'. ufs_advlock (\<lambda>_. 0) pid 1 0 1 ADV_UNLCK (ex_flock F_UNLCK 15 (- 3)) {F_POSIX} ex_lk1
      = Inr (Ret None, ex_flock F_UNLCK 15 (- 3), st') \<and> \<not> lf_good 1 (i_lockf st' 0)"
  by (simp add: ex_lk_defs ufs_advlock_def lf_clearlock_def lf_clear_loop.simps lf_case_def
      lf_wakelock_def lf_split_def lf_before_def Let_def)

end
