(* ===== verification/Filedesc_Laws.thy ===== *)
theory Filedesc_Laws
  imports Filedesc Lockf_Sys
begin

text \<open>
  The invariant of descriptor tables and what the operations do to a table and to the reference
  counts of files; the interface of advisory locks that closing a file relies on, with the locks
  of \<open>ufs_lockf.c\<close> as its interpretation.
\<close>

section \<open>The invariant\<close>

text \<open>
  The arrays are as long as \<open>fd_nfiles\<close> says, nothing is open above \<open>fd_lastfile\<close>, and
  everything is open below \<open>fd_freefile\<close>.
\<close>

definition fd_ok :: "filedesc \<Rightarrow> bool" where
  "fd_ok fdp \<longleftrightarrow> fd_nfiles fdp = int (length (fd_ofiles fdp)) \<and> length (fd_ofileflags fdp) = length (fd_ofiles fdp)
     \<and> NDFILE \<le> fd_nfiles fdp \<and> fd_nfiles fdp \<le> 131072
     \<and> 0 \<le> fd_lastfile fdp \<and> fd_lastfile fdp < fd_nfiles fdp
     \<and> (\<forall>j. fd_lastfile fdp < int j \<and> j < length (fd_ofiles fdp) \<longrightarrow> fd_ofiles fdp ! j = None)
     \<and> 0 \<le> fd_freefile fdp \<and> fd_freefile fdp \<le> fd_nfiles fdp
     \<and> (\<forall>j. int j < fd_freefile fdp \<longrightarrow> fd_ofiles fdp ! j \<noteq> None)"

text \<open>Descriptor \<open>j\<close> is open.\<close>

definition fd_open :: "filedesc \<Rightarrow> int \<Rightarrow> bool" where
  "fd_open fdp j \<longleftrightarrow> 0 \<le> j \<and> j < int (length (fd_ofiles fdp)) \<and> fd_ofiles fdp ! nat j \<noteq> None"

lemma fd_find_Some:
  "fd_find fs i n = Some k \<Longrightarrow> i \<le> k \<and> k < i + int n \<and> fs ! nat k = None \<and> (\<forall>j. i \<le> j \<and> j < k \<longrightarrow> fs ! nat j \<noteq> None)"
proof (induction n arbitrary: i)
  case (Suc n)
  show ?case
  proof (cases "fs ! nat i")
    case (Some x)
    then have "fd_find fs (i + 1) n = Some k" using Suc.prems by simp
    note I = Suc.IH [OF this]
    have "fs ! nat j \<noteq> None" if "i \<le> j" "j < k" for j using I Some that by (cases "j = i") auto
    then show ?thesis using I by auto
  qed (use Suc.prems in auto)
qed simp

lemma fd_find_None: "fd_find fs i n = None \<Longrightarrow> i \<le> j \<Longrightarrow> j < i + int n \<Longrightarrow> fs ! nat j \<noteq> None"
proof (induction n arbitrary: i)
  case (Suc n)
  then show ?case by (cases "j = i") (auto split: if_splits)
qed simp

text \<open>A table that has grown: the old entries are there, the new ones are free.\<close>

definition fd_extends :: "filedesc \<Rightarrow> filedesc \<Rightarrow> bool" where
  "fd_extends fdp fdp' \<longleftrightarrow> (\<exists>n. fd_ofiles fdp' = fd_ofiles fdp @ replicate n None)
     \<and> (\<forall>j < length (fd_ofiles fdp). fd_ofiles fdp ! j \<noteq> None \<longrightarrow> fd_ofileflags fdp' ! j = fd_ofileflags fdp ! j)
     \<and> fd_cdir fdp' = fd_cdir fdp \<and> fd_rdir fdp' = fd_rdir fdp \<and> fd_refcnt fdp' = fd_refcnt fdp"

lemma fd_extends_open: "fd_extends fdp fdp' \<Longrightarrow> fd_open fdp' j = fd_open fdp j"
proof -
  assume "fd_extends fdp fdp'"
  then obtain n where "fd_ofiles fdp' = fd_ofiles fdp @ replicate n None" by (auto simp: fd_extends_def)
  then show ?thesis by (cases "nat j < length (fd_ofiles fdp)") (auto simp: fd_open_def nth_append)
qed

lemma fd_extends_trans: "fd_extends a b \<Longrightarrow> fd_extends b c \<Longrightarrow> fd_extends a c"
  unfolding fd_extends_def by (auto simp: nth_append replicate_add [symmetric])

definition fdalloc_spec :: "int \<Rightarrow> int \<Rightarrow> filedesc \<Rightarrow> errno + int \<Rightarrow> filedesc \<Rightarrow> bool" where
  "fdalloc_spec lim want fdp r fdp' \<longleftrightarrow> fd_ok fdp' \<and> fd_extends fdp fdp' \<and>
     (case r of
        Inl err \<Rightarrow> err = EMFILE \<and> (\<forall>j. want \<le> j \<and> j < lim \<longrightarrow> fd_open fdp j)
      | Inr i \<Rightarrow> want \<le> i \<and> i < lim \<and> i < fd_nfiles fdp' \<and> \<not> fd_open fdp i \<and> fd_ofileflags fdp' ! nat i = {}
          \<and> i \<le> fd_lastfile fdp' \<and> (\<forall>j. want \<le> j \<and> j < i \<longrightarrow> fd_open fdp j))"

lemma fd_expand_ok:
  assumes "fd_ok fdp" "fd_nfiles fdp \<le> n" "n \<le> 131072"
  shows "fd_ok (fd_expand n fdp)" "fd_extends fdp (fd_expand n fdp)" "fd_nfiles (fd_expand n fdp) = n"
proof -
  show "fd_ok (fd_expand n fdp)"
    using assms unfolding fd_ok_def fd_expand_def by (auto simp: nth_append)
  show "fd_extends fdp (fd_expand n fdp)"
    using assms unfolding fd_ok_def fd_expand_def fd_extends_def by (auto simp: nth_append)
  show "fd_nfiles (fd_expand n fdp) = n" by (simp add: fd_expand_def)
qed

lemma fdalloc_loop_spec:
  assumes "fd_ok fdp" "0 \<le> want" "0 \<le> lim" "lim \<le> 65536"
  shows "\<exists>r fdp'. fdalloc_loop lim want fdp = (r, fdp') \<and> fdalloc_spec lim want fdp r fdp'"
  using assms
proof (induction lim want fdp rule: fdalloc_loop.induct)
  case (1 lim want fdp)
  define i0 where "i0 = (if want < fd_freefile fdp then fd_freefile fdp else want)"
  define last where "last = s_int (min (u_int (fd_nfiles fdp)) (u_int lim))"
  have n: "fd_nfiles fdp = int (length (fd_ofiles fdp))" "fd_nfiles fdp \<le> 131072" "0 \<le> fd_nfiles fdp"
    using 1(2) by (simp_all add: fd_ok_def NDFILE_def)
  have last: "last = min (fd_nfiles fdp) lim" using n 1(4,5) by (simp add: last_def)
  have low: "fd_open fdp j" if "want \<le> j" "j < i0" for j
  proof -
    have "j < fd_freefile fdp" "0 \<le> j" using that 1(3) by (auto simp: i0_def split: if_splits)
    moreover from this have "fd_ofiles fdp ! nat j \<noteq> None" using 1(2) by (auto simp: fd_ok_def)
    ultimately show ?thesis using 1(2) n by (auto simp: fd_open_def fd_ok_def)
  qed
  have i0: "0 \<le> i0" "want \<le> i0" "fd_freefile fdp \<le> i0" using 1(2,3) by (auto simp: i0_def fd_ok_def)
  note eq = fdalloc_loop.simps [of lim want fdp, folded i0_def last_def, unfolded Let_def, folded i0_def last_def]
  show ?case
  proof (cases "fd_find (fd_ofiles fdp) i0 (nat (last - i0))")
    case (Some i)
    note F = fd_find_Some [OF Some]
    have i: "i0 \<le> i" "i < last" using F by linarith+
    have il: "i < int (length (fd_ofiles fdp))" "i < 65536" "i < lim" using i last n 1(5) by auto
    define f1 where "f1 = raise_lastfile i (set_ofileflags i {} fdp)"
    define f2 where "f2 = (if want \<le> fd_freefile f1 then f1\<lparr>fd_freefile := u_short16 i\<rparr> else f1)"
    have f1: "fd_ofiles f1 = fd_ofiles fdp" "fd_ofileflags f1 = (fd_ofileflags fdp)[nat i := {}]"
      "fd_nfiles f1 = fd_nfiles fdp" "fd_freefile f1 = fd_freefile fdp"
      "fd_lastfile f1 = max (fd_lastfile fdp) i" "fd_cdir f1 = fd_cdir fdp" "fd_rdir f1 = fd_rdir fdp"
      "fd_refcnt f1 = fd_refcnt fdp"
      using il i i0 by (auto simp: f1_def raise_lastfile_def set_ofileflags_def)
    have f2: "fd_ofiles f2 = fd_ofiles fdp" "fd_ofileflags f2 = (fd_ofileflags fdp)[nat i := {}]"
      "fd_nfiles f2 = fd_nfiles fdp" "fd_freefile f2 = (if want \<le> fd_freefile fdp then i else fd_freefile fdp)"
      "fd_lastfile f2 = max (fd_lastfile fdp) i" "fd_cdir f2 = fd_cdir fdp" "fd_rdir f2 = fd_rdir fdp"
      "fd_refcnt f2 = fd_refcnt fdp"
      using il i i0 by (auto simp: f2_def f1)
    have res: "fdalloc_loop lim want fdp = (Inr i, f2)"
      unfolding eq Some f2_def f1_def by simp
    have all: "fd_open fdp j" if "want \<le> j" "j < i" for j
    proof (cases "j < i0")
      case True
      then show ?thesis using low that by blast
    next
      case False
      then show ?thesis using F that il i0 by (auto simp: fd_open_def)
    qed
    have free: "fd_ofiles fdp ! j \<noteq> None" if "int j < fd_freefile f2" for j
    proof (cases "int j < fd_freefile fdp")
      case True
      then show ?thesis using 1(2) by (simp add: fd_ok_def)
    next
      case False
      then have "want \<le> int j" "int j < i" using that f2(4) by (auto split: if_splits)
      then have "fd_open fdp (int j)" by (rule all)
      then show ?thesis by (simp add: fd_open_def)
    qed
    have "fd_ok f2"
      using 1(2) f2(1,2,3,5) free il(1) i i0 n(1) unfolding fd_ok_def f2(4) by auto
    moreover have "fd_extends fdp f2"
    proof -
      have "(fd_ofileflags fdp)[nat i := {}] ! j = fd_ofileflags fdp ! j" if "fd_ofiles fdp ! j \<noteq> None" for j
        using F that by (cases "j = nat i") auto
      then show ?thesis unfolding fd_extends_def f2 by (intro conjI exI [of _ 0]) auto
    qed
    moreover have "\<not> fd_open fdp i" using F by (simp add: fd_open_def)
    moreover have "nat i < length (fd_ofileflags fdp)" using 1(2) il(1) i(1) i0(1) by (auto simp: fd_ok_def)
    then have "fd_ofileflags f2 ! nat i = {}" unfolding f2(2) by (rule nth_list_update_eq)
    ultimately have "fdalloc_spec lim want fdp (Inr i) f2"
      using i i0 il all f2(3,5) n(1) by (simp add: fdalloc_spec_def)
    then show ?thesis using res by blast
  next
    case None
    have open_all: "fd_open fdp j" if j: "want \<le> j" "j < last" for j
    proof (cases "j < i0")
      case True
      then show ?thesis using low j by blast
    next
      case False
      then have "fd_ofiles fdp ! nat j \<noteq> None" using fd_find_None [OF None, of j] j by simp
      then show ?thesis using False i0(1) j last n(1) by (auto simp: fd_open_def)
    qed
    show ?thesis
    proof (cases "lim \<le> fd_nfiles fdp")
      case True
      then have "fdalloc_loop lim want fdp = (Inl EMFILE, fdp)" unfolding eq None by simp
      moreover have "fd_extends fdp fdp" unfolding fd_extends_def by (auto intro: exI [of _ 0])
      ultimately show ?thesis using 1(2) open_all True last by (auto simp: fdalloc_spec_def)
    next
      case False
      define n' where "n' = (if fd_nfiles fdp < NDEXTENT then NDEXTENT else 2 * fd_nfiles fdp)"
      have n': "fd_nfiles fdp < n'" "n' \<le> 131072" using False 1(5) n by (auto simp: n'_def NDEXTENT_def)
      note X = fd_expand_ok [OF 1(2) less_imp_le [OF n'(1)] n'(2)]
      have res: "fdalloc_loop lim want fdp = fdalloc_loop lim want (fd_expand n' fdp)"
        unfolding eq None using False by (simp add: n'_def)
      have "\<exists>r fdp'. fdalloc_loop lim want (fd_expand n' fdp) = (r, fdp') \<and>
          fdalloc_spec lim want (fd_expand n' fdp) r fdp'"
        unfolding n'_def
        by (rule 1(1) [OF refl refl _ False]) (use None X(1) 1(3-5) in \<open>simp_all add: i0_def last_def n'_def\<close>)
      then obtain r fdp' where "fdalloc_loop lim want (fd_expand n' fdp) = (r, fdp')"
        "fdalloc_spec lim want (fd_expand n' fdp) r fdp'" by blast
      then show ?thesis unfolding res fdalloc_spec_def
        using fd_extends_trans [OF X(2)] by (auto simp: fd_extends_open [OF X(2)] split: sum.splits)
    qed
  qed
qed

lemma fdalloc_spec_holds:
  assumes "fd_ok (p_fd st)" "0 \<le> want" "0 \<le> p_rlim_ofile st" "p_rlim_ofile st \<le> 65536"
  shows "\<exists>r fdp'. fdalloc want st = (r, st\<lparr>p_fd := fdp'\<rparr>)
    \<and> fdalloc_spec (p_rlim_ofile st) want (p_fd st) r fdp'"
proof -
  have "s_int (p_rlim_ofile st) = p_rlim_ofile st" using assms(3,4) by simp
  then show ?thesis
    using fdalloc_loop_spec [OF assms(1,2,3,4)] by (auto simp: fdalloc_def split: prod.splits)
qed

text \<open>C8. \<open>fdalloc\<close> terminates. It returns the lowest descriptor from \<open>want\<close> on that is not open,
  below the limit of the process, with its flags cleared, and the table grows as needed; or
  \<open>EMFILE\<close>, when they are all open up to the limit. No open descriptor changes and the table
  stays well formed.\<close>

theorem fdalloc_correct:
  assumes "fd_ok (p_fd st)" "0 \<le> want" "0 \<le> p_rlim_ofile st" "p_rlim_ofile st \<le> 65536"
  shows "\<exists>r fdp'. fdalloc want st = (r, st\<lparr>p_fd := fdp'\<rparr>)
    \<and> fdalloc_spec (p_rlim_ofile st) want (p_fd st) r fdp'"
  by (rule fdalloc_spec_holds [OF assms])

section \<open>References\<close>

text \<open>
  The entry of a descriptor, the references to a file that its count shows, and how many of them
  are not in the table of the process.
\<close>

definition fd_get :: "filedesc \<Rightarrow> int \<Rightarrow> nat option" where
  "fd_get fdp j = (if 0 \<le> j \<and> j < int (length (fd_ofiles fdp)) then fd_ofiles fdp ! nat j else None)"

definition f_refs :: "('k, 'm) fdstate_scheme \<Rightarrow> nat \<Rightarrow> int" where
  "f_refs st fp = (case files st fp of None \<Rightarrow> 0 | Some f \<Rightarrow> f_count f)"

definition fd_uses :: "filedesc \<Rightarrow> nat \<Rightarrow> int" where
  "fd_uses fdp fp = int (count_list (fd_ofiles fdp) (Some fp))"

definition fd_slack :: "('k, 'm) fdstate_scheme \<Rightarrow> nat \<Rightarrow> int" where
  "fd_slack st fp = f_refs st fp - fd_uses (p_fd st) fp"

text \<open>Every open descriptor has a file, and no file has fewer references than descriptors.\<close>

definition fd_files_ok :: "('k, 'm) fdstate_scheme \<Rightarrow> bool" where
  "fd_files_ok st \<longleftrightarrow> (\<forall>fp. Some fp \<in> set (fd_ofiles (p_fd st)) \<longrightarrow> files st fp \<noteq> None \<and> 0 \<le> fd_slack st fp)"

lemma count_list_update:
  assumes "j < length xs"
  shows "int (count_list (xs[j := v]) y)
    = int (count_list xs y) - (if xs ! j = y then 1 else 0) + (if v = y then 1 else 0)"
proof -
  have x: "xs = take j xs @ xs ! j # drop (Suc j) xs" using assms by (rule id_take_nth_drop)
  have "count_list xs y = count_list (take j xs) y + (if xs ! j = y then 1 else 0) + count_list (drop (Suc j) xs) y"
    by (subst x) simp
  moreover have "xs[j := v] = take j xs @ v # drop (Suc j) xs" using assms by (rule upd_conv_take_nth_drop)
  ultimately show ?thesis by simp
qed

lemma fd_uses_set:
  assumes "0 \<le> j" "j < int (length (fd_ofiles fdp))"
  shows "fd_uses (set_ofile j v fdp) fp
    = fd_uses fdp fp - (if fd_get fdp j = Some fp then 1 else 0) + (if v = Some fp then 1 else 0)"
proof -
  have "nat j < length (fd_ofiles fdp)" using assms by simp
  from count_list_update [OF this, of v "Some fp"] show ?thesis
    using assms by (simp add: fd_uses_def set_ofile_def fd_get_def)
qed

lemma fd_uses_pos: "fd_get fdp j = Some fp \<Longrightarrow> Some fp \<in> set (fd_ofiles fdp) \<and> 1 \<le> fd_uses fdp fp"
proof -
  assume g: "fd_get fdp j = Some fp"
  then have "nat j < length (fd_ofiles fdp)" "fd_ofiles fdp ! nat j = Some fp"
    by (auto simp: fd_get_def split: if_splits)
  then have "Some fp \<in> set (fd_ofiles fdp)" by (metis nth_mem)
  moreover from this have "count_list (fd_ofiles fdp) (Some fp) \<noteq> 0" by (simp add: count_list_0_iff)
  ultimately show ?thesis by (simp add: fd_uses_def)
qed

lemma fd_extends_get:
  assumes "fd_extends fdp fdp'" shows "fd_get fdp' j = fd_get fdp j"
proof -
  obtain n where "fd_ofiles fdp' = fd_ofiles fdp @ replicate n None" using assms by (auto simp: fd_extends_def)
  then show ?thesis by (cases "nat j < length (fd_ofiles fdp)") (auto simp: fd_get_def nth_append)
qed

lemma fd_extends_uses: "fd_extends fdp fdp' \<Longrightarrow> fd_uses fdp' fp = fd_uses fdp fp"
proof -
  assume "fd_extends fdp fdp'"
  then obtain n where "fd_ofiles fdp' = fd_ofiles fdp @ replicate n None" by (auto simp: fd_extends_def)
  moreover have "count_list (replicate n None) (Some fp) = 0" by (simp add: count_list_0_iff)
  ultimately show ?thesis by (simp add: fd_uses_def)
qed

lemma fd_file_open:
  assumes "fd_ok fdp" "0 \<le> fd" "fd < 2147483648"
  shows "fd_file fdp fd = fd_get fdp fd"
  using assms by (auto simp: fd_file_def fd_get_def fd_ok_def NDFILE_def)

lemma fd_get_open: "fd_open fdp j \<longleftrightarrow> fd_get fdp j \<noteq> None"
  by (auto simp: fd_open_def fd_get_def)

section \<open>Entries of a table\<close>

lemma lower_lastfile_spec:
  "lower_lastfile fs n \<le> n \<and> (\<forall>j. lower_lastfile fs n < j \<and> j \<le> n \<longrightarrow> fs ! j = None)
     \<and> (lower_lastfile fs n = 0 \<or> fs ! lower_lastfile fs n \<noteq> None)"
proof (induction n)
  case (Suc n)
  then show ?case by (auto simp: le_Suc_eq)
qed simp

text \<open>Opening and closing descriptor \<open>i\<close>.\<close>

definition fd_enter :: "int \<Rightarrow> nat \<Rightarrow> fduflag set \<Rightarrow> filedesc \<Rightarrow> filedesc" where
  "fd_enter i fp fl fdp = raise_lastfile i (set_ofileflags i fl (set_ofile i (Some fp) fdp))"

definition fd_remove :: "int \<Rightarrow> filedesc \<Rightarrow> filedesc" where
  "fd_remove fd fdp =
     (let fdp = trim_lastfile (set_ofile fd None fdp)
      in set_ofileflags fd {} (if fd < fd_freefile fdp then fdp\<lparr>fd_freefile := u_short16 fd\<rparr> else fdp))"

lemma fd_enter_simps:
  assumes "0 \<le> i" "i < 65536"
  shows "fd_ofiles (fd_enter i fp fl fdp) = (fd_ofiles fdp)[nat i := Some fp]"
    "fd_ofileflags (fd_enter i fp fl fdp) = (fd_ofileflags fdp)[nat i := fl]"
    "fd_nfiles (fd_enter i fp fl fdp) = fd_nfiles fdp" "fd_freefile (fd_enter i fp fl fdp) = fd_freefile fdp"
    "fd_lastfile (fd_enter i fp fl fdp) = max (fd_lastfile fdp) i"
  using assms by (auto simp: fd_enter_def raise_lastfile_def set_ofileflags_def set_ofile_def)

lemma fd_enter_ok:
  assumes "fd_ok fdp" "0 \<le> i" "i < 65536" "i < fd_nfiles fdp"
  shows "fd_ok (fd_enter i fp fl fdp)"
    "fd_get (fd_enter i fp fl fdp) j = (if j = i then Some fp else fd_get fdp j)"
    "fd_ofileflags (fd_enter i fp fl fdp) ! nat i = fl"
    "fd_uses (fd_enter i fp fl fdp) q
      = fd_uses fdp q - (if fd_get fdp i = Some q then 1 else 0) + (if q = fp then 1 else 0)"
proof -
  note S = fd_enter_simps [OF assms(2,3)]
  have n: "nat i < length (fd_ofiles fdp)" "nat i < length (fd_ofileflags fdp)"
    using assms by (auto simp: fd_ok_def)
  show "fd_ok (fd_enter i fp fl fdp)"
    using assms n unfolding fd_ok_def S by (auto simp: nth_list_update)
  show "fd_get (fd_enter i fp fl fdp) j = (if j = i then Some fp else fd_get fdp j)"
    using n assms(2) by (auto simp: fd_get_def S nth_list_update eq_nat_nat_iff)
  show "fd_ofileflags (fd_enter i fp fl fdp) ! nat i = fl" using n by (simp add: S)
  have "fd_uses (fd_enter i fp fl fdp) q = fd_uses (set_ofile i (Some fp) fdp) q"
    by (simp add: fd_uses_def S set_ofile_def)
  then show "fd_uses (fd_enter i fp fl fdp) q
      = fd_uses fdp q - (if fd_get fdp i = Some q then 1 else 0) + (if q = fp then 1 else 0)"
    using fd_uses_set [of i fdp "Some fp" q] assms n by (auto simp: fd_ok_def)
qed

text \<open>
  The hints after entry \<open>i\<close> has been freed: \<open>fd_lastfile\<close> is the highest open descriptor
  (or 0), \<open>fd_freefile\<close> has come down to \<open>i\<close> if it was above, and of the flags only those of
  \<open>i\<close> are cleared.
\<close>

definition fd_hints_after :: "int \<Rightarrow> filedesc \<Rightarrow> filedesc \<Rightarrow> bool" where
  "fd_hints_after i fdp fdp' \<longleftrightarrow> (fd_lastfile fdp' = 0 \<or> fd_open fdp' (fd_lastfile fdp'))
     \<and> (\<forall>j. fd_open fdp' j \<longrightarrow> j \<le> fd_lastfile fdp')
     \<and> fd_freefile fdp' = min i (fd_freefile fdp)
     \<and> fd_nfiles fdp' = fd_nfiles fdp \<and> fd_ofileflags fdp' = (fd_ofileflags fdp)[nat i := {}]"

lemma fd_remove_ok:
  assumes "fd_ok fdp" "0 \<le> i" "i < 65536" "i < fd_nfiles fdp"
  shows "fd_ok (fd_remove i fdp)" "fd_get (fd_remove i fdp) j = (if j = i then None else fd_get fdp j)"
    "fd_uses (fd_remove i fdp) q = fd_uses fdp q - (if fd_get fdp i = Some q then 1 else 0)"
    "fd_hints_after i fdp (fd_remove i fdp)"
proof -
  have n: "nat i < length (fd_ofiles fdp)" "nat i < length (fd_ofileflags fdp)"
    using assms by (auto simp: fd_ok_def)
  define l where "l = lower_lastfile ((fd_ofiles fdp)[nat i := None]) (nat (fd_lastfile fdp))"
  have S: "fd_ofiles (fd_remove i fdp) = (fd_ofiles fdp)[nat i := None]"
    "fd_ofileflags (fd_remove i fdp) = (fd_ofileflags fdp)[nat i := {}]"
    "fd_nfiles (fd_remove i fdp) = fd_nfiles fdp" "fd_lastfile (fd_remove i fdp) = int l"
    "fd_freefile (fd_remove i fdp) = min i (fd_freefile fdp)"
    using assms(2,3)
    by (auto simp: fd_remove_def trim_lastfile_def set_ofile_def set_ofileflags_def Let_def l_def)
  have L: "int l \<le> fd_lastfile fdp"
    "\<And>j. l < j \<Longrightarrow> int j \<le> fd_lastfile fdp \<Longrightarrow> (fd_ofiles fdp)[nat i := None] ! j = None"
    using lower_lastfile_spec [of "(fd_ofiles fdp)[nat i := None]" "nat (fd_lastfile fdp)"] assms(1)
    unfolding l_def by (auto simp: fd_ok_def)
  have high: "(fd_ofiles fdp)[nat i := None] ! j = None" if "l < j" "j < length (fd_ofiles fdp)" for j
  proof (cases "int j \<le> fd_lastfile fdp")
    case False
    then have "fd_ofiles fdp ! j = None" using assms(1) that(2) by (simp add: fd_ok_def)
    then show ?thesis using n by (cases "j = nat i") simp_all
  qed (use L(2) that in blast)
  show "fd_ok (fd_remove i fdp)"
    using assms n L(1) high unfolding fd_ok_def S by (auto simp: nth_list_update)
  show "fd_get (fd_remove i fdp) j = (if j = i then None else fd_get fdp j)"
    using n assms(2) by (auto simp: fd_get_def S nth_list_update eq_nat_nat_iff)
  have "fd_uses (fd_remove i fdp) q = fd_uses (set_ofile i None fdp) q" by (simp add: fd_uses_def S set_ofile_def)
  then show "fd_uses (fd_remove i fdp) q = fd_uses fdp q - (if fd_get fdp i = Some q then 1 else 0)"
    using fd_uses_set [of i fdp None q] assms n by (auto simp: fd_ok_def)
  have top: "l = 0 \<or> (fd_ofiles fdp)[nat i := None] ! l \<noteq> None" "l < length (fd_ofiles fdp)"
    using lower_lastfile_spec [of "(fd_ofiles fdp)[nat i := None]" "nat (fd_lastfile fdp)"] L(1) assms(1)
    unfolding l_def by (auto simp: fd_ok_def)
  have "j \<le> int l" if "fd_open (fd_remove i fdp) j" for j
    using that high [of "nat j"] by (fastforce simp: fd_open_def S)
  then show "fd_hints_after i fdp (fd_remove i fdp)"
    using top by (auto simp: fd_hints_after_def fd_open_def S)
qed

lemma in_ofiles_get: "Some q \<in> set (fd_ofiles fdp) \<longleftrightarrow> (\<exists>j. fd_get fdp j = Some q)"
proof
  assume "Some q \<in> set (fd_ofiles fdp)"
  then obtain n where "n < length (fd_ofiles fdp)" "fd_ofiles fdp ! n = Some q" by (auto simp: in_set_conv_nth)
  then have "fd_get fdp (int n) = Some q" by (simp add: fd_get_def)
  then show "\<exists>j. fd_get fdp j = Some q" ..
next
  assume "\<exists>j. fd_get fdp j = Some q"
  then show "Some q \<in> set (fd_ofiles fdp)" using fd_uses_pos by blast
qed

text \<open>An operation that keeps the slack of every file keeps the table and the files consistent.\<close>

lemma fd_files_ok_slack:
  assumes "fd_files_ok st" "\<And>q. fd_slack st' q = fd_slack st q"
    and "\<And>j q. fd_get (p_fd st') j = Some q \<Longrightarrow> \<exists>i. fd_get (p_fd st) i = Some q"
  shows "fd_files_ok st'"
  unfolding fd_files_ok_def
proof (intro allI impI)
  fix q assume q: "Some q \<in> set (fd_ofiles (p_fd st'))"
  then obtain j where j: "fd_get (p_fd st') j = Some q" by (auto simp: in_ofiles_get)
  then have "Some q \<in> set (fd_ofiles (p_fd st))" using assms(3) in_ofiles_get by blast
  then have "0 \<le> fd_slack st' q" using assms(1,2) by (simp add: fd_files_ok_def)
  moreover have "1 \<le> fd_uses (p_fd st') q" using fd_uses_pos [OF j] by blast
  ultimately show "files st' q \<noteq> None \<and> 0 \<le> fd_slack st' q"
    by (cases "files st' q") (auto simp: fd_slack_def f_refs_def)
qed

lemma install_fd_enter: "install_fd i fp fl st = hold_file fp (st\<lparr>p_fd := fd_enter i fp (fl - {UF_EXCLOSE}) (p_fd st)\<rparr>)"
  by (simp add: install_fd_def fd_enter_def Let_def)

lemma f_refs_hold: "files st fp \<noteq> None \<Longrightarrow> f_refs (hold_file fp st) q = f_refs st q + (if q = fp then 1 else 0)"
  by (auto simp: f_refs_def hold_file_def)

lemma hold_file_simps [simp]: "p_fd (hold_file fp st) = p_fd st" "kern (hold_file fp st) = kern st"
  by (simp_all add: hold_file_def)

section \<open>Closing files: the interface of advisory locks\<close>

text \<open>
  What closing a file relies on: unlocking the whole of a file never fails or sleeps, takes all
  locks of the owner on it and no others. \<open>held\<close> says that an owner has a lock on a file.
\<close>

locale advlock =
  fixes adv :: "nat \<Rightarrow> nat \<Rightarrow> nat \<Rightarrow> advop \<Rightarrow> flock \<Rightarrow> lflag set \<Rightarrow> 'k \<Rightarrow> (lkres \<times> flock \<times> 'k) kres"
    and inv :: "'k \<Rightarrow> bool" and held :: "'k \<Rightarrow> nat \<Rightarrow> nat \<Rightarrow> bool"
  assumes unlock: "inv k \<Longrightarrow> \<exists>fl' k'. adv vp p owner ADV_UNLCK (whole_file F_UNLCK) flags k = Inr (Ret None, fl', k')
    \<and> inv k' \<and> (\<forall>v o'. held k' v o' \<longleftrightarrow> held k v o' \<and> \<not> (v = vp \<and> o' = owner))"
begin

text \<open>The rest of the kernel keeps the invariant of the locks and adds none.\<close>

definition env_ok :: "'k fdenv \<Rightarrow> bool" where
  "env_ok e \<longleftrightarrow> vop_advlock e = adv
     \<and> (\<forall>fp k. inv k \<longrightarrow> inv (snd (fo_close e fp k)) \<and> (\<forall>v o'. held (snd (fo_close e fp k)) v o' \<longrightarrow> held k v o'))
     \<and> (\<forall>fd k. inv k \<longrightarrow> inv (munmapfd e fd k))"

lemma closef_spec:
  assumes e: "env_ok e" and i: "inv (kern st)" and f: "files st fp = Some f" "1 \<le> f_count f"
  shows "\<exists>err st'. closef e inproc fp st = Inr (err, st') \<and> inv (kern st') \<and> p_fd st' = p_fd st
    \<and> files st' = (files st)(fp := if f_count f = 1 then None else Some (f\<lparr>f_count := f_count f - 1\<rparr>))
    \<and> (inproc \<and> p_sadvlck st \<and> f_type f = DTYPE_VNODE \<longrightarrow> \<not> held (kern st') (f_data f) (p_addr st))
    \<and> (f_count f = 1 \<and> f_flag f AND FHASLOCK \<noteq> 0 \<and> f_type f = DTYPE_VNODE \<longrightarrow> \<not> held (kern st') (f_data f) fp)"
proof -
  have un: "\<exists>k. unlock_file e vp owner fl s = Inr (s\<lparr>kern := k\<rparr>) \<and> inv k
      \<and> (\<forall>v o'. held k v o' \<longleftrightarrow> held (kern s) v o' \<and> \<not> (v = vp \<and> o' = owner))"
    if "inv (kern s)" for s :: "('k, 'a) fdstate_scheme" and vp owner fl
    using unlock [OF that, of vp "p_addr s" owner "{fl}"] e by (auto simp: unlock_file_def env_ok_def)
  have un': "\<exists>k. (if c then unlock_file e vp owner fl s else Inr s) = Inr (s\<lparr>kern := k\<rparr>) \<and> inv k
      \<and> (\<forall>v o'. held k v o' \<longrightarrow> held (kern s) v o') \<and> (c \<longrightarrow> \<not> held k vp owner)"
    if "inv (kern s)" for c and s :: "('k, 'a) fdstate_scheme" and vp owner fl
  proof (cases c)
    case True
    then show ?thesis using un [OF that, of vp owner fl] by fastforce
  next
    case False
    then show ?thesis using that by (intro exI [of _ "kern s"]) simp
  qed
  define c1 where "c1 \<longleftrightarrow> inproc \<and> p_sadvlck st \<and> f_type f = DTYPE_VNODE"
  obtain k1 where k1: "(if c1 then unlock_file e (f_data f) (p_addr st) F_POSIX st else Inr st) = Inr (st\<lparr>kern := k1\<rparr>)"
    "inv k1" "c1 \<longrightarrow> \<not> held k1 (f_data f) (p_addr st)"
    using un' [OF i, of c1 "f_data f" "p_addr st" F_POSIX] by blast
  define s1 where "s1 = st\<lparr>kern := k1, files := (files st)(fp \<mapsto> f\<lparr>f_count := f_count f - 1\<rparr>)\<rparr>"
  show ?thesis
  proof (cases "f_count f = 1")
    case False
    then have "closef e inproc fp st = Inr (None, s1)"
      using f k1(1) by (simp add: closef_def c1_def [symmetric] s1_def Let_def)
    then show ?thesis using k1 False by (simp add: s1_def c1_def)
  next
    case True
    define c2 where "c2 \<longleftrightarrow> f_flag f AND FHASLOCK \<noteq> 0 \<and> f_type f = DTYPE_VNODE"
    obtain k2 where k2: "(if c2 then unlock_file e (f_data f) fp F_FLOCK s1 else Inr s1) = Inr (s1\<lparr>kern := k2\<rparr>)"
      "inv k2" "c2 \<longrightarrow> \<not> held k2 (f_data f) fp" "c1 \<longrightarrow> \<not> held k2 (f_data f) (p_addr st)"
    proof -
      have "inv (kern s1)" using k1(2) by (simp add: s1_def)
      from un' [OF this, of c2 "f_data f" fp F_FLOCK] k1(3) that show thesis by (auto simp: s1_def)
    qed
    obtain err k3 where k3: "fo_close e fp k2 = (err, k3)" by (cases "fo_close e fp k2")
    have h: "inv k3" "\<And>v o'. held k3 v o' \<Longrightarrow> held k2 v o'"
      using e k2(2) k3 unfolding env_ok_def by (metis snd_conv)+
    have "closef e inproc fp st = bindE (if c2 then unlock_file e (f_data f) fp F_FLOCK s1 else Inr s1)
        (\<lambda>st. case fo_close e fp (kern st) of (error, k) \<Rightarrow> Inr (error, ffree fp (st\<lparr>kern := k\<rparr>)))"
      using f True k1(1) by (simp add: closef_def c1_def [symmetric] c2_def [symmetric] s1_def Let_def)
    also have "\<dots> = Inr (err, ffree fp (s1\<lparr>kern := k3\<rparr>))" unfolding k2(1) by (simp add: k3)
    finally show ?thesis using True h k2(3,4) by (auto simp: ffree_def s1_def c1_def c2_def)
  qed
qed

lemma close_spec:
  assumes e: "env_ok e" and i: "inv (kern st)" and ok: "fd_ok (p_fd st)" "fd_files_ok st"
    and fd: "fd_get (p_fd st) fd = Some fp" "fd < 65536"
  shows "\<exists>err st'. close e fd st = Inr (err, st') \<and> inv (kern st') \<and> fd_ok (p_fd st') \<and> fd_files_ok st'
    \<and> (\<forall>j. fd_get (p_fd st') j = (if j = fd then None else fd_get (p_fd st) j))
    \<and> fd_hints_after fd (p_fd st) (p_fd st')
    \<and> (\<exists>f. files st fp = Some f
          \<and> files st' = (files st)(fp := if f_count f = 1 then None else Some (f\<lparr>f_count := f_count f - 1\<rparr>)))
    \<and> (\<forall>q. fd_slack st' q = fd_slack st q)"
proof -
  have b: "0 \<le> fd" "fd < fd_nfiles (p_fd st)" using fd(1) ok(1) by (auto simp: fd_get_def fd_ok_def split: if_splits)
  have fo: "fd_file (p_fd st) fd = Some fp" using fd_file_open [OF ok(1) b(1)] fd by simp
  obtain k where k: "(if UF_MAPPED \<in> fd_ofileflags (p_fd st) ! nat fd then st\<lparr>kern := munmapfd e fd (kern st)\<rparr> else st)
      = st\<lparr>kern := k\<rparr>" "inv k"
    using e i by (cases "UF_MAPPED \<in> fd_ofileflags (p_fd st) ! nat fd") (auto simp: env_ok_def intro: that [of "kern st"])
  define s1 where "s1 = st\<lparr>kern := k, p_fd := fd_remove fd (p_fd st)\<rparr>"
  have eq: "close e fd st = closef e True fp s1"
    unfolding close_def fo option.case k(1) by (simp add: s1_def fd_remove_def Let_def)
  have u: "Some fp \<in> set (fd_ofiles (p_fd st))" "1 \<le> fd_uses (p_fd st) fp" using fd_uses_pos [OF fd(1)] by auto
  then obtain f where f: "files st fp = Some f" "1 \<le> f_count f"
    using ok(2) by (fastforce simp: fd_files_ok_def fd_slack_def f_refs_def)
  have f1: "files s1 fp = Some f" "inv (kern s1)" using f k(2) by (simp_all add: s1_def)
  obtain err st' where c: "closef e True fp s1 = Inr (err, st')" "inv (kern st')" "p_fd st' = p_fd s1"
    "files st' = (files s1)(fp := if f_count f = 1 then None else Some (f\<lparr>f_count := f_count f - 1\<rparr>))"
    using closef_spec [OF e f1(2,1) f(2)] by blast
  note R = fd_remove_ok [OF ok(1) b(1) fd(2) b(2)]
  have p: "p_fd st' = fd_remove fd (p_fd st)" using c(3) by (simp add: s1_def)
  have refs: "f_refs st' q = f_refs st q - (if q = fp then 1 else 0)" for q
    using f by (auto simp: f_refs_def c(4) s1_def)
  have slack: "fd_slack st' q = fd_slack st q" for q
    unfolding fd_slack_def refs p R(3) fd(1) by simp
  have get: "fd_get (p_fd st') j = (if j = fd then None else fd_get (p_fd st) j)" for j unfolding p by (rule R(2))
  have "fd_files_ok st'" using fd_files_ok_slack [OF ok(2) slack] get by (metis option.distinct(1))
  moreover have "fd_hints_after fd (p_fd st) (p_fd st')" unfolding p by (rule R(4))
  moreover have "files st' = (files st)(fp := if f_count f = 1 then None else Some (f\<lparr>f_count := f_count f - 1\<rparr>))"
    using c(4) by (simp add: s1_def)
  ultimately show ?thesis using eq c(1,2) R(1) get slack p f(1) by simp
qed

lemma dup2_spec:
  assumes e: "env_ok e" and i: "inv (kern st)" and ok: "fd_ok (p_fd st)" "fd_files_ok st"
    and old: "fd_get (p_fd st) old = Some fp" and new: "0 \<le> new" "new < p_rlim_ofile st" "p_rlim_ofile st \<le> 65536"
    and ne: "old \<noteq> new"
  shows "\<exists>st'. dup2 e old new st = Inr (Inr new, st') \<and> inv (kern st') \<and> fd_ok (p_fd st') \<and> fd_files_ok st'
    \<and> (\<forall>j. fd_get (p_fd st') j = (if j = new then Some fp else fd_get (p_fd st) j))
    \<and> fd_ofileflags (p_fd st') ! nat new = fd_ofileflags (p_fd st) ! nat old - {UF_EXCLOSE}
    \<and> (\<forall>q. fd_slack st' q = fd_slack st q)"
proof -
  define fdp where "fdp = p_fd st"
  have n: "fd_nfiles fdp = int (length (fd_ofiles fdp))" "0 \<le> fd_nfiles fdp" "fd_nfiles fdp \<le> 131072"
    using ok(1) by (auto simp: fd_ok_def fdp_def NDFILE_def)
  have o: "0 \<le> old" "old < fd_nfiles fdp" using old n by (auto simp: fd_get_def fdp_def split: if_splits)
  have nn: "new < 65536" using new by simp
  have u: "u_int old = old" "u_int new = new" "s_int new = new" "u_int (fd_nfiles fdp) = fd_nfiles fdp"
    using o n nn new(1) by simp_all
  have fo: "fd_file fdp old = Some fp" using fd_file_open [OF ok(1) o(1)] old o n by (simp add: fdp_def)
  define prep where "prep = dup2_prepare e new st"
  have eq: "dup2 e old new st = bindE prep (\<lambda>(err, st). case err of Some err \<Rightarrow> Inr (Inl err, st)
    | None \<Rightarrow> Inr (Inr new, install_fd new fp (fd_ofileflags (p_fd st) ! nat old) st))"
    using new(2) ne by (simp add: dup2_def u fo [unfolded fdp_def] prep_def)
  have u1: "fd_uses fdp fp \<ge> 1" "Some fp \<in> set (fd_ofiles fdp)" using fd_uses_pos [OF old] by (auto simp: fdp_def)
  text \<open>After the preparation entry \<open>new\<close> exists; what it held has been given back.\<close>
  obtain st1 where st1: "prep = Inr (None, st1)" "inv (kern st1)" "fd_ok (p_fd st1)" "new < fd_nfiles (p_fd st1)"
    "\<And>j. fd_get (p_fd st1) j = fd_get fdp j" "\<And>q. fd_uses (p_fd st1) q = fd_uses fdp q"
    "fd_ofileflags (p_fd st1) ! nat old = fd_ofileflags fdp ! nat old" "files st1 fp \<noteq> None"
    "\<And>q. f_refs st1 q = f_refs st q - (if fd_get fdp new = Some q then 1 else 0)"
  proof (cases "fd_nfiles fdp \<le> new")
    case True
    obtain r fdp' where a: "fdalloc new st = (r, st\<lparr>p_fd := fdp'\<rparr>)" "fdalloc_spec (p_rlim_ofile st) new fdp r fdp'"
      using fdalloc_spec_holds [of st new] ok(1) new by (auto simp: fdp_def)
    have closed: "\<not> fd_open fdp j" if "new \<le> j" for j using that True n by (auto simp: fd_open_def)
    have r: "r = Inr new"
    proof (cases r)
      case (Inl err)
      then show ?thesis using a(2) closed [of new] new(2) by (auto simp: fdalloc_spec_def)
    next
      case (Inr i)
      then have "\<not> new < i" using a(2) closed [of new] by (auto simp: fdalloc_spec_def)
      then show ?thesis using Inr a(2) by (auto simp: fdalloc_spec_def)
    qed
    have x: "fd_ok fdp'" "fd_extends fdp fdp'" "new < fd_nfiles fdp'" using a(2) r by (auto simp: fdalloc_spec_def)
    have gn: "fd_get fdp new = None" using True n by (simp add: fd_get_def)
    have "nat old < length (fd_ofiles fdp)" "fd_ofiles fdp ! nat old \<noteq> None"
      using o n old by (auto simp: fd_get_def fdp_def)
    then have "fd_ofileflags fdp' ! nat old = fd_ofileflags fdp ! nat old"
      using x(2) unfolding fd_extends_def by blast
    moreover have "files st fp \<noteq> None" using ok(2) u1(2) by (simp add: fd_files_ok_def fdp_def)
    moreover have "prep = Inr (None, st\<lparr>p_fd := fdp'\<rparr>)" unfolding prep_def dup2_prepare_def Let_def fdp_def [symmetric] u using True a(1) r u(2) by simp
    ultimately show ?thesis
      using that [of "st\<lparr>p_fd := fdp'\<rparr>"] i x fd_extends_get [OF x(2)] fd_extends_uses [OF x(2)] gn
      by (simp add: f_refs_def)
  next
    case False
    then have gn: "fd_get fdp new = fd_ofiles fdp ! nat new" using new(1) n by (simp add: fd_get_def)
    show ?thesis
    proof (cases "fd_ofiles fdp ! nat new")
      case None
      then have "prep = Inr (None, st)" unfolding prep_def dup2_prepare_def Let_def fdp_def [symmetric] u using False by simp
      moreover have "files st fp \<noteq> None" using ok(2) u1(2) by (simp add: fd_files_ok_def fdp_def)
      ultimately show ?thesis using that [of st] i ok(1) False gn None by (simp add: fdp_def)
    next
      case (Some fq)
      then have gq: "fd_get fdp new = Some fq" using gn by simp
      obtain k where k: "(if UF_MAPPED \<in> fd_ofileflags fdp ! nat new then st\<lparr>kern := munmapfd e new (kern st)\<rparr> else st)
          = st\<lparr>kern := k\<rparr>" "inv k"
        using e i by (cases "UF_MAPPED \<in> fd_ofileflags fdp ! nat new") (auto simp: env_ok_def intro: that [of "kern st"])
      have uq: "Some fq \<in> set (fd_ofiles fdp)" "1 \<le> fd_uses fdp fq" using fd_uses_pos [OF gq] by auto
      then obtain f where f: "files st fq = Some f" "1 \<le> f_count f"
        using ok(2) by (fastforce simp: fd_files_ok_def fd_slack_def f_refs_def fdp_def)
      obtain err st1 where c: "closef e True fq (st\<lparr>kern := k\<rparr>) = Inr (err, st1)" "inv (kern st1)" "p_fd st1 = fdp"
        "files st1 = (files st)(fq := if f_count f = 1 then None else Some (f\<lparr>f_count := f_count f - 1\<rparr>))"
        using closef_spec [OF e, of "st\<lparr>kern := k\<rparr>" fq f True] k(2) f by (auto simp: fdp_def)
      have refs: "f_refs st1 q = f_refs st q - (if fd_get fdp new = Some q then 1 else 0)" for q
        using f gq by (auto simp: f_refs_def c(4))
      have "files st1 fp \<noteq> None"
      proof (cases "fp = fq")
        case True
        have "2 \<le> fd_uses fdp fq"
        proof -
          have "fd_get (set_ofile new None fdp) old = Some fq"
            using old True ne o n new(1) False by (auto simp: fd_get_def set_ofile_def fdp_def nth_list_update eq_nat_nat_iff)
          from fd_uses_pos [OF this] have "1 \<le> fd_uses (set_ofile new None fdp) fq" by blast
          then show ?thesis using fd_uses_set [of new fdp None fq] new(1) False n gq by simp
        qed
        moreover have "0 \<le> fd_slack st fq" using ok(2) uq(1) by (simp add: fd_files_ok_def fdp_def)
        ultimately have "2 \<le> f_count f" using f by (simp add: fd_slack_def f_refs_def fdp_def)
        then show ?thesis using True by (simp add: c(4))
      next
        case False
        then show ?thesis using ok(2) u1(2) by (simp add: c(4) fd_files_ok_def fdp_def)
      qed
      moreover have "prep = Inr (None, st1)" unfolding prep_def dup2_prepare_def Let_def fdp_def [symmetric] u using False Some k(1) c(1) by simp
      ultimately show ?thesis using that [of st1] c(2,3) ok(1) False refs by (simp add: fdp_def)
    qed
  qed
  define st' where "st' = hold_file fp (st1\<lparr>p_fd := fd_enter new fp (fd_ofileflags (p_fd st1) ! nat old - {UF_EXCLOSE}) (p_fd st1)\<rparr>)"
  have res: "dup2 e old new st = Inr (Inr new, st')" unfolding eq st1(1) by (simp add: st'_def install_fd_enter)
  note E = fd_enter_ok [OF st1(3) new(1) nn st1(4)]
  have get: "fd_get (p_fd st') j = (if j = new then Some fp else fd_get fdp j)" for j
    by (simp add: st'_def E(2) st1(5))
  have refs: "f_refs st' q = f_refs st1 q + (if q = fp then 1 else 0)" for q
    using st1(8) f_refs_hold [of "st1\<lparr>p_fd := x\<rparr>" fp q for x] by (simp add: st'_def f_refs_def)
  have slack: "fd_slack st' q = fd_slack st q" for q
    unfolding fd_slack_def refs st1(9) by (simp add: st'_def E(4) st1(5,6) fdp_def)
  have "fd_files_ok st'"
    by (rule fd_files_ok_slack [OF ok(2) slack]) (use get old in \<open>auto simp: fdp_def split: if_splits\<close>)
  then show ?thesis
    using res st1(2) E(1,3) get slack st1(7) by (auto simp: st'_def fdp_def)
qed

end

end
