(* ===== verification/Filedesc_Props.thy ===== *)
theory Filedesc_Props
  imports Filedesc_Laws
begin

text \<open>
  The locks of \<open>ufs_lockf.c\<close> behind the descriptors, and the properties of the descriptor
  operations on top of them.
\<close>

unbundle bit_operations_syntax

section \<open>The locks of the file system as the provider\<close>

definition ufs_adv ::
  "(nat \<Rightarrow> int) \<Rightarrow> (nat \<Rightarrow> int) \<Rightarrow> nat \<Rightarrow> nat \<Rightarrow> nat \<Rightarrow> advop \<Rightarrow> flock \<Rightarrow> lflag set \<Rightarrow> lkstate
    \<Rightarrow> (lkres \<times> flock \<times> lkstate) kres" where
  "ufs_adv isize pid vp p owner op' fl flags k = ufs_advlock isize pid p vp owner op' fl flags k"

definition ufs_held :: "lkstate \<Rightarrow> nat \<Rightarrow> nat \<Rightarrow> bool" where
  "ufs_held k vp owner \<longleftrightarrow> (\<exists>b t. lf_holds owner (i_lockf k vp) b t)"

lemma ufs_unlock_whole:
  assumes inv: "lk_inv k"
  shows "\<exists>fl' k'. ufs_adv isize pid vp p owner ADV_UNLCK (whole_file F_UNLCK) flags k = Inr (Ret None, fl', k')
    \<and> lk_inv k' \<and> (\<forall>v o'. ufs_held k' v o' \<longleftrightarrow> ufs_held k v o' \<and> \<not> (v = vp \<and> o' = owner))"
proof (cases "i_lockf k vp = []")
  case True
  then have "ufs_adv isize pid vp p owner ADV_UNLCK (whole_file F_UNLCK) flags k
      = Inr (Ret None, whole_file F_UNLCK, k)"
    by (simp add: ufs_adv_def ufs_advlock_def whole_file_def)
  moreover have "\<not> ufs_held k vp owner" using True by (simp add: ufs_held_def)
  ultimately show ?thesis using inv by blast
next
  case False
  define l where "l = \<lparr>lf_addr = lk_addr k, lf_flags = flags, lf_type = F_UNLCK, lf_start = 0, lf_end = - 1,
    lf_id = owner, lf_inode = vp, lf_next = None, lf_block = []\<rparr>"
  define k0 where "k0 = k\<lparr>lk_addr := lk_addr k + 1\<rparr>"
  have l: "lf_ok l" "lf_id l = owner" "lf_inode l = vp" by (simp_all add: l_def lf_ok_def)
  have same: "i_lockf k0 = i_lockf k" by (simp add: k0_def)
  have good: "lf_good i (i_lockf k v)" for i v using lk_invD(1) [OF inv] .
  obtain k' where k': "lf_clearlock l k0 = Inr k'" "lf_effect False l (i_lockf k vp) (i_lockf k' vp)"
    "\<forall>v. v \<noteq> vp \<longrightarrow> i_lockf k' v = i_lockf k v"
    using lf_clearlock_spec [OF l(1), of k0] good by (auto simp: l same)
  have adv: "ufs_adv isize pid vp p owner ADV_UNLCK (whole_file F_UNLCK) flags k = Inr (Ret None, whole_file F_UNLCK, k')"
    using False k'(1) by (simp add: ufs_adv_def ufs_advlock_def whole_file_def l_def [symmetric] k0_def [symmetric]) (simp add: l_def k0_def)
  have "flock_valid isize vp (whole_file F_UNLCK)" by (simp add: flock_valid_def whole_file_def)
  then have "lk_inv k'" using lk_inv_advlock [OF inv _ adv [unfolded ufs_adv_def]] by blast
  moreover have "ufs_held k' v o' \<longleftrightarrow> ufs_held k v o' \<and> \<not> (v = vp \<and> o' = owner)" for v o'
  proof (cases "v = vp")
    case v: True
    show ?thesis
    proof (cases "o' = owner")
      case True
      have "\<not> lf_holds owner (i_lockf k' vp) b t" for b t
      proof (cases "0 \<le> b")
        case True
        then have "lf_covers l b" by (simp add: lf_covers_def l_def)
        then show ?thesis using k'(2) by (simp add: lf_effect_def l)
      next
        case False
        have "\<not> lf_holds owner (i_lockf k vp) b t"
          using good [of owner vp] False by (auto simp: lf_holds_def lf_good_def lf_own_def lf_ok_def lf_covers_def)
        moreover have "\<not> lf_covers l b" using False by (simp add: lf_covers_def l_def)
        ultimately show ?thesis using k'(2) by (simp add: lf_effect_def l)
      qed
      then show ?thesis using v True by (simp add: ufs_held_def)
    next
      case False
      have "lf_holds o' xs b t = lf_holds o' (lf_others owner xs) b t" for xs b t
        using False by (auto simp: lf_holds_def lf_others_def)
      moreover have "lf_others owner (i_lockf k' vp) = lf_others owner (i_lockf k vp)"
        using k'(2) by (simp add: lf_effect_def l)
      ultimately show ?thesis using v False unfolding ufs_held_def by metis
    qed
  next
    case False
    then show ?thesis using k'(3) by (simp add: ufs_held_def)
  qed
  ultimately show ?thesis using adv by blast
qed

interpretation ufs: advlock "ufs_adv isize pid" lk_inv ufs_held for isize pid
  by unfold_locales (rule ufs_unlock_whole)

section \<open>Duplicating and closing\<close>

text \<open>The vnode layer is the file system above; closing a file and unmapping a descriptor change
  nothing about the locks.\<close>

definition ufs_env :: "(nat \<Rightarrow> int) \<Rightarrow> (nat \<Rightarrow> int) \<Rightarrow> lkstate fdenv \<Rightarrow> bool" where
  "ufs_env isize pid e \<longleftrightarrow> vop_advlock e = ufs_adv isize pid
     \<and> (\<forall>fp k. snd (fo_close e fp k) = k) \<and> (\<forall>fd k. munmapfd e fd k = k)"

lemma ufs_env_ok: "ufs_env isize pid e \<Longrightarrow> ufs.env_ok isize pid e"
  by (simp add: ufs_env_def ufs.env_ok_def)

text \<open>\<open>dup2\<close> of an open descriptor to another one below the limit always succeeds: the table
  grows if it must, the file that was there is closed, the new descriptor refers to the file of the old
  one with close-on-exec cleared, and no other descriptor changes. The references to every file
  remain what the tables and messages hold.\<close>

theorem dup2_correct:
  assumes "ufs_env isize pid e" "lk_inv (kern st)" "fd_ok (p_fd st)" "fd_files_ok st"
    and "fd_get (p_fd st) old = Some fp" "0 \<le> new" "new < p_rlim_ofile st" "p_rlim_ofile st \<le> 65536"
    and "old \<noteq> new"
  shows "\<exists>st'. dup2 e old new st = Inr (Inr new, st') \<and> lk_inv (kern st') \<and> fd_ok (p_fd st') \<and> fd_files_ok st'
    \<and> (\<forall>j. fd_get (p_fd st') j = (if j = new then Some fp else fd_get (p_fd st) j))
    \<and> fd_ofileflags (p_fd st') ! nat new = fd_ofileflags (p_fd st) ! nat old - {UF_EXCLOSE}
    \<and> (\<forall>q. fd_slack st' q = fd_slack st q)"
  by (rule ufs.dup2_spec [OF ufs_env_ok [OF assms(1)] assms(2-9)])

text \<open>C17. \<open>close\<close> of an open descriptor frees it and no other; the high-water mark
  \<open>fd_lastfile\<close> comes down to the highest descriptor still open (0 when there is none), \<open>fd_freefile\<close>
  to the freed descriptor when it was above, and of the flags only those of the descriptor are cleared. The
  file loses one reference and goes with its last; the references to every file remain what the tables and
  messages hold.\<close>

theorem close_correct:
  assumes "ufs_env isize pid e" "lk_inv (kern st)" "fd_ok (p_fd st)" "fd_files_ok st"
    and "fd_get (p_fd st) fd = Some fp" "fd < 65536"
  shows "\<exists>err st'. close e fd st = Inr (err, st') \<and> lk_inv (kern st') \<and> fd_ok (p_fd st') \<and> fd_files_ok st'
    \<and> (\<forall>j. fd_get (p_fd st') j = (if j = fd then None else fd_get (p_fd st) j))
    \<and> fd_hints_after fd (p_fd st) (p_fd st')
    \<and> (\<exists>f. files st fp = Some f
          \<and> files st' = (files st)(fp := if f_count f = 1 then None else Some (f\<lparr>f_count := f_count f - 1\<rparr>)))
    \<and> (\<forall>q. fd_slack st' q = fd_slack st q)"
  by (rule ufs.close_spec [OF ufs_env_ok [OF assms(1)] assms(2-6)])

text \<open>C10. When a process that has used advisory locks closes a file, by any descriptor, it holds no byte
  of the file locked any more; and when the last reference to a file with a \<open>flock\<close> lock goes
  away, so does that lock. \<open>closef\<close> does not fail on a file that is referred to.\<close>

theorem closef_releases_locks:
  assumes "ufs_env isize pid e" "lk_inv (kern st)" "files st fp = Some f" "1 \<le> f_count f"
    and "p_sadvlck st" "f_type f = DTYPE_VNODE"
  shows "\<exists>err st'. closef e True fp st = Inr (err, st')
    \<and> \<not> ufs_held (kern st') (f_data f) (p_addr st)
    \<and> (f_count f = 1 \<and> f_flag f AND FHASLOCK \<noteq> 0 \<longrightarrow> \<not> ufs_held (kern st') (f_data f) fp)
    \<and> files st' = (files st)(fp := if f_count f = 1 then None else Some (f\<lparr>f_count := f_count f - 1\<rparr>))"
  using ufs.closef_spec [OF ufs_env_ok [OF assms(1)] assms(2-4), of True] assms(5,6) by blast

section \<open>Copying a table\<close>

lemma fd_shrink_bounds:
  "0 \<le> lastf \<Longrightarrow> lastf \<le> i \<Longrightarrow> 20 \<le> i \<Longrightarrow> lastf \<le> fd_shrink lastf i \<and> 20 \<le> fd_shrink lastf i \<and> fd_shrink lastf i \<le> i"
proof (induction lastf i rule: fd_shrink.induct)
  case (1 lastf i)
  show ?case
  proof (cases "2 * NDEXTENT < i \<and> lastf * 2 \<le> i")
    case True
    then have "lastf \<le> i div 2" "20 \<le> i div 2" by (auto simp: NDEXTENT_def)
    then show ?thesis using 1 True by (subst (1 2 3) fd_shrink.simps) auto
  next
    case False
    then show ?thesis using 1(2-4) by (subst (1 2 3) fd_shrink.simps) auto
  qed
qed

lemma fd_refs_spec:
  assumes "j + n \<le> length fs" "\<forall>fp. Some fp \<in> set fs \<longrightarrow> files st fp \<noteq> None"
  shows "\<exists>st'. fd_refs fs j n st = Inr st' \<and> p_fd st' = p_fd st
    \<and> (\<forall>q. f_refs st' q = f_refs st q + int (count_list (take n (drop j fs)) (Some q)))"
  using assms
proof (induction n arbitrary: j st)
  case (Suc n)
  define st1 where "st1 = (case fs ! j of None \<Rightarrow> st | Some fp \<Rightarrow> hold_file fp st)"
  have j: "j < length fs" "take (Suc n) (drop j fs) = fs ! j # take n (drop (Suc j) fs)"
    using Suc.prems(1) by (simp_all add: Cons_nth_drop_Suc [symmetric])
  have refs: "f_refs st1 q = f_refs st q + (if fs ! j = Some q then 1 else 0)" for q
  proof (cases "fs ! j")
    case (Some fp)
    then have "files st fp \<noteq> None" using Suc.prems(2) j(1) by (metis nth_mem)
    then show ?thesis using Some f_refs_hold [of st fp q] by (simp add: st1_def)
  qed (simp add: st1_def)
  have "\<forall>fp. Some fp \<in> set fs \<longrightarrow> files st1 fp \<noteq> None"
    using Suc.prems(2) by (auto simp: st1_def hold_file_def split: option.splits)
  then obtain st' where I: "fd_refs fs (j + 1) n st1 = Inr st'" "p_fd st' = p_fd st1"
    "\<forall>q. f_refs st' q = f_refs st1 q + int (count_list (take n (drop (j + 1) fs)) (Some q))"
    using Suc.IH [of "j + 1" st1] Suc.prems(1) by auto
  have "fd_refs fs j (Suc n) st = Inr st'" using I(1) j(1) by (simp add: st1_def)
  moreover have "p_fd st' = p_fd st" using I(2) by (simp add: st1_def split: option.splits)
  ultimately show ?case using I(3) refs j(2) by simp
qed simp

lemma fd_refs_overrun:
  assumes "length fs < j + n" "j \<le> length fs" shows "fd_refs fs j n st = Inl BadAccess"
  using assms by (induction n arbitrary: j st) auto

text \<open>The size of the copy's table.\<close>

definition fdcopy_size :: "filedesc \<Rightarrow> int" where
  "fdcopy_size fdp = (if fd_lastfile fdp < NDFILE then NDFILE else fd_shrink (fd_lastfile fdp) (fd_nfiles fdp))"

lemma fdcopy_size_bounds:
  assumes "fd_ok fdp"
  shows "20 \<le> fdcopy_size fdp" "fdcopy_size fdp \<le> fd_nfiles fdp" "fd_lastfile fdp \<le> fdcopy_size fdp"
  using assms fd_shrink_bounds [of "fd_lastfile fdp" "fd_nfiles fdp"]
  by (auto simp: fdcopy_size_def fd_ok_def NDFILE_def)

lemma fdcopy_spec:
  assumes ok: "fd_ok (p_fd st)" "fd_files_ok st"
  shows "if fdcopy_size (p_fd st) = fd_lastfile (p_fd st) then fdcopy e st = Inl BadAccess
    else \<exists>new st'. fdcopy e st = Inr (new, st') \<and> fd_ok new \<and> p_fd st' = p_fd st
      \<and> (\<forall>j. fd_get new j = fd_get (p_fd st) j) \<and> fd_refcnt new = 1
      \<and> (\<forall>q. f_refs st' q = f_refs st q + fd_uses new q)"
proof -
  define fdp where "fdp = p_fd st"
  define i where "i = fdcopy_size fdp"
  note D = ok(1) [unfolded fd_ok_def, folded fdp_def]
  have b: "20 \<le> i" "i \<le> fd_nfiles fdp" "fd_lastfile fdp \<le> i"
    using fdcopy_size_bounds [OF ok(1)] by (simp_all add: i_def fdp_def)
  have len: "nat i \<le> length (fd_ofiles fdp)" using b D by linarith
  define new where "new = fdp\<lparr>fd_refcnt := 1, fd_nfiles := i, fd_ofiles := take (nat i) (fd_ofiles fdp),
    fd_ofileflags := take (nat i) (fd_ofileflags fdp)\<rparr>"
  define k where "k = (case fd_rdir fdp of None \<Rightarrow> VREF e (fd_cdir fdp) (kern st)
    | Some v \<Rightarrow> VREF e v (VREF e (fd_cdir fdp) (kern st)))"
  have eq: "fdcopy e st = bindE (fd_refs (fd_ofiles new) 0 (nat (fd_lastfile fdp) + 1) (st\<lparr>kern := k\<rparr>)) (\<lambda>st. Inr (new, st))"
    using len by (simp add: fdcopy_def Let_def fdp_def [symmetric] k_def new_def i_def fdcopy_size_def [symmetric]
        del: fd_refs.simps)
  have nlen: "length (fd_ofiles new) = nat i" using len by (simp add: new_def)
  show ?thesis
  proof (cases "i = fd_lastfile fdp")
    case True
    have "fd_refs (fd_ofiles new) 0 (nat (fd_lastfile fdp) + 1) (st\<lparr>kern := k\<rparr>) = Inl BadAccess"
      by (rule fd_refs_overrun) (simp_all add: nlen True)
    then show ?thesis using True eq by (simp add: i_def fdp_def)
  next
    case False
    then have lt: "fd_lastfile fdp < i" using b(3) by simp
    have "\<forall>fp. Some fp \<in> set (fd_ofiles new) \<longrightarrow> files (st\<lparr>kern := k\<rparr>) fp \<noteq> None"
      using ok(2) by (auto simp: new_def fd_files_ok_def fdp_def dest: in_set_takeD)
    moreover have "0 + (nat (fd_lastfile fdp) + 1) \<le> length (fd_ofiles new)"
      unfolding nlen using lt D by linarith
    ultimately obtain st' where R: "fd_refs (fd_ofiles new) 0 (nat (fd_lastfile fdp) + 1) (st\<lparr>kern := k\<rparr>) = Inr st'"
      "p_fd st' = fdp" "\<forall>q. f_refs st' q = f_refs st q
        + int (count_list (take (nat (fd_lastfile fdp) + 1) (drop 0 (fd_ofiles new))) (Some q))"
      using fd_refs_spec [of 0 "nat (fd_lastfile fdp) + 1" "fd_ofiles new" "st\<lparr>kern := k\<rparr>"]
      by (auto simp: f_refs_def fdp_def)
    have high: "fd_ofiles new ! j = None" if "nat (fd_lastfile fdp) < j" "j < length (fd_ofiles new)" for j
      using D that nlen by (simp add: new_def)
    have cnt: "count_list (take (nat (fd_lastfile fdp) + 1) (fd_ofiles new)) (Some q) = count_list (fd_ofiles new) (Some q)" for q
    proof -
      have "Some q \<notin> set (drop (nat (fd_lastfile fdp) + 1) (fd_ofiles new))"
        using high by (auto simp: in_set_conv_nth)
      then have "count_list (drop (nat (fd_lastfile fdp) + 1) (fd_ofiles new)) (Some q) = 0"
        by (simp add: count_list_0_iff)
      then show ?thesis by (metis add.right_neutral append_take_drop_id count_list_append)
    qed
    have get: "fd_get new j = fd_get fdp j" for j
    proof (cases "0 \<le> j \<and> j < i")
      case True
      then show ?thesis using b D nlen by (auto simp: fd_get_def new_def)
    next
      case False
      then have "fd_get new j = None" using nlen by (auto simp: fd_get_def)
      moreover have "fd_get fdp j = None"
      proof (cases "0 \<le> j \<and> j < int (length (fd_ofiles fdp))")
        case True
        then have "fd_lastfile fdp < int (nat j) \<and> nat j < length (fd_ofiles fdp)" using True False lt by linarith
        then have "fd_ofiles fdp ! nat j = None" using D by blast
        then show ?thesis by (simp add: fd_get_def)
      qed (auto simp: fd_get_def)
      ultimately show ?thesis by simp
    qed
    have free: "fd_freefile fdp \<le> fd_lastfile fdp + 1"
    proof (rule ccontr)
      assume n: "\<not> fd_freefile fdp \<le> fd_lastfile fdp + 1"
      then have "fd_ofiles fdp ! nat (fd_lastfile fdp + 1) \<noteq> None" using D by simp
      moreover have "fd_lastfile fdp < int (nat (fd_lastfile fdp + 1)) \<and> nat (fd_lastfile fdp + 1) < length (fd_ofiles fdp)"
        using D n by linarith
      then have "fd_ofiles fdp ! nat (fd_lastfile fdp + 1) = None" using D by blast
      ultimately show False by blast
    qed
    have "fd_ok new" unfolding fd_ok_def
      using D b lt free nlen by (auto simp: new_def NDFILE_def)
    then have "fdcopy e st = Inr (new, st') \<and> fd_ok new \<and> p_fd st' = p_fd st
      \<and> (\<forall>j. fd_get new j = fd_get (p_fd st) j) \<and> fd_refcnt new = 1
      \<and> (\<forall>q. f_refs st' q = f_refs st q + fd_uses new q)"
      using eq R cnt get by (simp add: fdp_def fd_uses_def) (simp add: new_def)
    then show ?thesis using False by (auto simp: i_def fdp_def)
  qed
qed

text \<open>\<open>fdcopy\<close> gives the child a well-formed table with the same open descriptors and one more
  reference to each of their files; except when the loop that shrinks the table stops at
  \<open>fd_lastfile\<close> itself: then the copy reads behind the end of the new table.\<close>

theorem fdcopy_correct:
  assumes "fd_ok (p_fd st)" "fd_files_ok st"
  shows "if fdcopy_size (p_fd st) = fd_lastfile (p_fd st) then fdcopy e st = Inl BadAccess
    else \<exists>new st'. fdcopy e st = Inr (new, st') \<and> fd_ok new \<and> p_fd st' = p_fd st
      \<and> (\<forall>j. fd_get new j = fd_get (p_fd st) j) \<and> fd_refcnt new = 1
      \<and> (\<forall>q. f_refs st' q = f_refs st q + fd_uses new q)"
  by (rule fdcopy_spec [OF assms])

section \<open>Duplicating with fcntl\<close>

text \<open>\<open>F_DUPFD\<close> when every descriptor from \<open>arg\<close> on is open and the table, already outside the
  structure, has to grow: the flags of the old descriptor are read from the array that \<open>fdalloc\<close>
  has just freed.\<close>

theorem fcntl_dupfd_reads_freed:
  assumes "fd_ok (p_fd st)" "fd_get (p_fd st) fd = Some fp" "files st fp = Some f"
    and "0 \<le> arg" "arg < p_rlim_ofile st" "p_rlim_ofile st \<le> 65536"
    and "NDFILE < fd_nfiles (p_fd st)" "fd_nfiles (p_fd st) < p_rlim_ofile st"
    and "\<forall>j. arg \<le> j \<and> j < fd_nfiles (p_fd st) \<longrightarrow> fd_open (p_fd st) j"
  shows "fcntl e fd F_DUPFD arg st = Inl BadAccess"
proof -
  define fdp where "fdp = p_fd st"
  have n: "fd_nfiles fdp = int (length (fd_ofiles fdp))" using assms(1) by (simp add: fd_ok_def fdp_def)
  have fd: "0 \<le> fd" "fd < 2147483648"
    using assms(1,2) by (auto simp: fd_get_def fd_ok_def split: if_splits)
  obtain r fdp' where a: "fdalloc arg st = (r, st\<lparr>p_fd := fdp'\<rparr>)" "fdalloc_spec (p_rlim_ofile st) arg fdp r fdp'"
    using fdalloc_spec_holds [of st arg] assms(1,4-6) by (auto simp: fdp_def)
  define j where "j = max arg (fd_nfiles fdp)"
  have j: "arg \<le> j" "j < p_rlim_ofile st" "\<not> fd_open fdp j"
    using assms(5,8) n by (auto simp: j_def fd_open_def fdp_def)
  obtain i where i: "r = Inr i" using a(2) j by (cases r) (auto simp: fdalloc_spec_def)
  have "\<not> fd_open fdp i" "arg \<le> i" "i < fd_nfiles fdp'" using a(2) i by (auto simp: fdalloc_spec_def)
  then have "fd_nfiles fdp' \<noteq> fd_nfiles fdp" using assms(9) by (auto simp: fdp_def)
  then have "fcntl_dupfd fp fd arg st = Inl BadAccess"
    using assms(4-7) a(1) i by (simp add: fcntl_dupfd_def Let_def fdp_def)
  moreover have "fd_file (p_fd st) fd = Some fp" using fd_file_open [OF assms(1) fd] assms(2) by simp
  ultimately show ?thesis using assms(3) by (simp add: fcntl_def)
qed

section \<open>Concrete tables\<close>

definition ex_fdp :: "nat \<Rightarrow> nat \<Rightarrow> filedesc" where
  "ex_fdp n m = \<lparr>fd_ofiles = replicate m (Some 500) @ replicate (n - m) None, fd_ofileflags = replicate n {},
     fd_cdir = 0, fd_rdir = None, fd_nfiles = int n, fd_lastfile = int m - 1, fd_freefile = 0, fd_cmask = 18, fd_refcnt = 1\<rparr>"

definition ex_file :: "int \<Rightarrow> ofile" where
  "ex_file n = \<lparr>f_flag = FREAD, f_type = DTYPE_VNODE, f_count = n, f_msgcount = 0, f_offset = 0, f_cred = 0, f_data = 0\<rparr>"

definition ex_fdst :: "nat \<Rightarrow> nat \<Rightarrow> lkstate fdstate" where
  "ex_fdst n m = \<lparr>p_fd = ex_fdp n m, p_addr = 1, p_rlim_ofile = 256, p_sadvlck = True, p_dupfd = 0, p_ucred = 0,
     files = [500 \<mapsto> ex_file (int m)], filehead = [500], nfiles = 1, maxfiles = 100, file_addr = 501, malloc_file = ex_file 0, kern = ex_lk2\<rparr>"

definition ex_fdenv :: "lkstate fdenv" where
  "ex_fdenv = \<lparr>vop_advlock = ufs_adv (\<lambda>_. 0) (\<lambda>_. 0), fo_close = (\<lambda>_ k. (None, k)),
     fo_ioctl = (\<lambda>_ _ w k. (None, w, k)), so_pgid = (\<lambda>_ _. 0), set_so_pgid = (\<lambda>_ _ k. k),
     pfind_pgrp = (\<lambda>_ _. None), copyin_flock = (\<lambda>_ _. Inl EFAULT), copyout_flock = (\<lambda>_ _ k. (None, k)),
     fo_stat = (\<lambda>_ _ _. Inr 0), copyout_stat = (\<lambda>_ _ k. (None, k)), munmapfd = (\<lambda>_ k. k),
     VREF = (\<lambda>_ k. k), vrele = (\<lambda>_ k. k)\<rparr>"

lemma ex_fd_facts:
  "ufs_env (\<lambda>_. 0) (\<lambda>_. 0) ex_fdenv" "lk_inv (kern (ex_fdst n m))"
  "20 \<le> n \<Longrightarrow> n \<le> 131072 \<Longrightarrow> 1 \<le> m \<Longrightarrow> m \<le> n \<Longrightarrow> fd_ok (p_fd (ex_fdst n m))"
  "fd_files_ok (ex_fdst n m)"
proof -
  show "ufs_env (\<lambda>_. 0) (\<lambda>_. 0) ex_fdenv" by (simp add: ufs_env_def ex_fdenv_def)
  show "lk_inv (kern (ex_fdst n m))" using lf_reach_inv [OF ex_lk_reach(1) [of "\<lambda>_. 0"]] by (simp add: ex_fdst_def)
  show "fd_ok (p_fd (ex_fdst n m))" if "20 \<le> n" "n \<le> 131072" "1 \<le> m" "m \<le> n"
    using that by (auto simp: fd_ok_def ex_fdst_def ex_fdp_def nth_append NDFILE_def)
  have "count_list (replicate m (Some (500 :: nat))) (Some 500) = m" by (induction m) simp_all
  moreover have "count_list (replicate k None) (Some (500 :: nat)) = 0" for k by (induction k) simp_all
  ultimately show "fd_files_ok (ex_fdst n m)"
    by (auto simp: fd_files_ok_def ex_fdst_def ex_fdp_def fd_slack_def f_refs_def fd_uses_def ex_file_def)
qed

lemma ex_fd_get: "m \<le> n \<Longrightarrow> fd_get (p_fd (ex_fdst n m)) j = (if 0 \<le> j \<and> j < int m then Some 500 else None)"
  by (auto simp: fd_get_def ex_fdst_def ex_fdp_def nth_append)

theorem fdalloc_correct_witness:
  "\<exists>r fdp'. fdalloc 0 (ex_fdst 20 20) = (r, (ex_fdst 20 20)\<lparr>p_fd := fdp'\<rparr>)
    \<and> fdalloc_spec 256 0 (p_fd (ex_fdst 20 20)) r fdp'"
  using fdalloc_correct [of "ex_fdst 20 20" 0] ex_fd_facts(3) [of 20 20] by (simp add: ex_fdst_def)

theorem dup2_correct_witness:
  "\<exists>st'. dup2 ex_fdenv 0 30 (ex_fdst 20 2) = Inr (Inr 30, st') \<and> fd_get (p_fd st') 30 = Some 500"
  using dup2_correct [OF ex_fd_facts(1) ex_fd_facts(2), of 20 2 0 500 30] ex_fd_facts(3,4) [of 20 2]
  by (auto simp: ex_fd_get) (auto simp: ex_fdst_def)

theorem close_correct_witness:
  "\<exists>err st'. close ex_fdenv 1 (ex_fdst 20 2) = Inr (err, st') \<and> fd_get (p_fd st') 1 = None"
  using close_correct [OF ex_fd_facts(1) ex_fd_facts(2), of 20 2 1 500] ex_fd_facts(3,4) [of 20 2]
  by (auto simp: ex_fd_get)

theorem closef_releases_locks_witness:
  "ufs_held (kern (ex_fdst 20 2)) 0 1 \<and>
   (\<exists>err st'. closef ex_fdenv True 500 (ex_fdst 20 2) = Inr (err, st') \<and> \<not> ufs_held (kern st') 0 1)"
proof -
  have "lf_holds 1 (i_lockf ex_lk2 0) 10 F_WRLCK" by (simp add: ex_lk_defs lf_covers_def)
  then have "ufs_held (kern (ex_fdst 20 2)) 0 1" by (auto simp: ufs_held_def ex_fdst_def)
  then show ?thesis
    using closef_releases_locks [OF ex_fd_facts(1) ex_fd_facts(2), of 20 2 500 "ex_file 2"]
    by (auto simp: ex_fdst_def ex_file_def)
qed

lemma ex_fd_shrink: "fdcopy_size (p_fd (ex_fdst 200 101)) = fd_lastfile (p_fd (ex_fdst 200 101))"
  "fdcopy_size (p_fd (ex_fdst 20 2)) = 20"
  by (simp_all add: fdcopy_size_def ex_fdst_def ex_fdp_def NDFILE_def fd_shrink.simps NDEXTENT_def)

theorem fdcopy_correct_witness:
  "fdcopy ex_fdenv (ex_fdst 200 101) = Inl BadAccess \<and> (\<exists>new st'. fdcopy ex_fdenv (ex_fdst 20 2) = Inr (new, st'))"
proof -
  have "fdcopy_size (p_fd (ex_fdst 20 2)) \<noteq> fd_lastfile (p_fd (ex_fdst 20 2))"
    by (simp add: ex_fd_shrink) (simp add: ex_fdst_def ex_fdp_def)
  then show ?thesis
    using fdcopy_correct [of "ex_fdst 200 101" ex_fdenv] fdcopy_correct [of "ex_fdst 20 2" ex_fdenv]
      ex_fd_facts(3,4) [of 200 101] ex_fd_facts(3,4) [of 20 2] by (auto simp: ex_fd_shrink(1))
qed

theorem fcntl_dupfd_reads_freed_witness:
  "fcntl ex_fdenv 0 F_DUPFD 0 (ex_fdst 50 50) = Inl BadAccess"
proof (rule fcntl_dupfd_reads_freed [of _ _ 500 "ex_file 50"])
  show "\<forall>j. 0 \<le> j \<and> j < fd_nfiles (p_fd (ex_fdst 50 50)) \<longrightarrow> fd_open (p_fd (ex_fdst 50 50)) j"
    by (auto simp: fd_get_open ex_fd_get) (auto simp: ex_fdst_def ex_fdp_def)
  show "fd_ok (p_fd (ex_fdst 50 50))" using ex_fd_facts(3) [of 50 50] by simp
  show "fd_get (p_fd (ex_fdst 50 50)) 0 = Some 500" by (simp add: ex_fd_get)
qed (simp_all add: ex_fdst_def ex_fdp_def NDFILE_def)

end
