(* ===== verification/Namecache.thy ===== *)
theory Namecache
  imports Prelude
begin

text \<open>
  The cache of names, \<open>sys/kern/vfs_cache.c\<close> with \<open>sys/sys/namei.h\<close> and
  \<open>hashinit\<close> of \<open>sys/kern/kern_subr.c\<close>. Entries and vnodes have addresses; entries are never
  given back, so the memory that holds them is a function. The LRU chain from \<open>nchhead\<close> on and the
  chains of the hash table are lists of addresses, and \<open>nc_back\<close> of an entry is the number of the chain
  it is on (none for the null pointer).
\<close>

unbundle bit_operations_syntax

section \<open>Entries and the cache\<close>

type_synonym u_long = "32 word"

definition NCHNAMLEN :: int where "NCHNAMLEN = 31"

record namecache =
  nc_back :: "nat option"
  nc_dvp :: "nat option"
  nc_dvpid :: u_long
  nc_vp :: "nat option"
  nc_vpid :: u_long
  nc_nlen :: int
  nc_name :: string

record nchstats =
  ncs_goodhits :: int
  ncs_neghits :: int
  ncs_badhits :: int
  ncs_falsehits :: int
  ncs_miss :: int
  ncs_long :: int

datatype nameiop = LOOKUP | CREATE | DELETE | RENAME

text \<open>What the cache reads of a \<open>struct componentname\<close>: \<open>cn_name\<close> are the bytes at
  \<open>cn_nameptr\<close>, \<open>cn_makeentry\<close> is the bit \<open>MAKEENTRY\<close> of the flags.\<close>

record componentname =
  cn_nameiop :: nameiop
  cn_makeentry :: bool
  cn_name :: string
  cn_namelen :: int
  cn_hash :: u_long

record ncstate =
  nc_mem :: "nat \<Rightarrow> namecache"
  nchashtbl :: "nat \<Rightarrow> nat list"
  nchash :: u_long
  numcache :: int
  nchhead :: "nat list"
  stats :: nchstats
  doingcache :: bool
  nextvnodeid :: u_long
  desiredvnodes :: int
  v_id :: "nat \<Rightarrow> u_long"
  v_mount :: "nat \<Rightarrow> nat"
  nc_addr :: nat

text \<open>The loop of \<open>lookup\<close> that finds the end of a component and adds up its hash value.\<close>

fun name_hash :: "string \<Rightarrow> u_long \<times> string" where
  "name_hash [] = (0, [])"
| "name_hash (c # cs) =
     (if c = CHR 0x00 \<or> c = CHR ''/'' then (0, [])
      else case name_hash cs of (h, name) \<Rightarrow> (word_of_nat (of_char c) + h, c # name))"

section \<open>Chains\<close>

definition upd_entry :: "nat \<Rightarrow> (namecache \<Rightarrow> namecache) \<Rightarrow> ncstate \<Rightarrow> ncstate" where
  "upd_entry ncp f st = st\<lparr>nc_mem := (nc_mem st)(ncp := f (nc_mem st ncp))\<rparr>"

text \<open>Remove from the hash chain, if on one.\<close>

definition nc_unhash :: "nat \<Rightarrow> ncstate \<Rightarrow> ncstate" where
  "nc_unhash ncp st =
     (case nc_back (nc_mem st ncp) of
        None \<Rightarrow> st
      | Some i \<Rightarrow> upd_entry ncp (\<lambda>e. e\<lparr>nc_back := None\<rparr>)
          (st\<lparr>nchashtbl := (nchashtbl st)(i := remove1 ncp (nchashtbl st i))\<rparr>))"

definition nc_hash_in :: "nat \<Rightarrow> nat \<Rightarrow> ncstate \<Rightarrow> ncstate" where
  "nc_hash_in i ncp st =
     upd_entry ncp (\<lambda>e. e\<lparr>nc_back := Some i\<rparr>) (st\<lparr>nchashtbl := (nchashtbl st)(i := ncp # nchashtbl st i)\<rparr>)"

text \<open>Take off the LRU chain and put at its head: the code writes through \<open>nchhead\<close>, which is
  the null pointer when nothing else is on the chain.\<close>

definition lru_free :: "nat \<Rightarrow> ncstate \<Rightarrow> ncstate kres" where
  "lru_free ncp st =
     (case remove1 ncp (nchhead st) of
        [] \<Rightarrow> Inl BadAccess
      | q # lru \<Rightarrow> Inr (st\<lparr>nchhead := ncp # q # lru\<rparr>))"

definition lru_used :: "nat \<Rightarrow> ncstate \<Rightarrow> ncstate" where
  "lru_used ncp st =
     (if last (nchhead st) = ncp then st else st\<lparr>nchhead := remove1 ncp (nchhead st) @ [ncp]\<rparr>)"

section \<open>Lookup\<close>

definition nc_match :: "(nat \<Rightarrow> u_long) \<Rightarrow> nat \<Rightarrow> componentname \<Rightarrow> namecache \<Rightarrow> bool" where
  "nc_match vid dvp cnp e \<longleftrightarrow>
     nc_dvp e = Some dvp \<and> nc_dvpid e = vid dvp \<and> nc_nlen e = cn_namelen cnp
     \<and> take (nat (nc_nlen e)) (nc_name e) = take (nat (nc_nlen e)) (cn_name cnp)"

definition count_stat :: "(nchstats \<Rightarrow> nchstats) \<Rightarrow> ncstate \<Rightarrow> ncstate" where
  "count_stat f st = st\<lparr>stats := f (stats st)\<rparr>"

definition nc_chain :: "u_long \<Rightarrow> ncstate \<Rightarrow> nat" where
  "nc_chain hash st = unat (hash AND nchash st)"

text \<open>The values returned: 0, \<open>ENOENT\<close>, and -1 with the vnode found.\<close>

datatype nclookup = Miss | Absent | Found nat

definition cache_lookup ::
  "nat \<Rightarrow> componentname \<Rightarrow> ncstate \<Rightarrow> (nclookup \<times> componentname \<times> ncstate) kres" where
  "cache_lookup dvp cnp st =
     (if \<not> doingcache st then Inr (Miss, cnp, st)
      else if NCHNAMLEN < cn_namelen cnp then
        Inr (Miss, cnp\<lparr>cn_makeentry := False\<rparr>, count_stat (\<lambda>s. s\<lparr>ncs_long := ncs_long s + 1\<rparr>) st)
      else
        case find (\<lambda>ncp. nc_match (v_id st) dvp cnp (nc_mem st ncp)) (nchashtbl st (nc_chain (cn_hash cnp) st)) of
          None \<Rightarrow> Inr (Miss, cnp, count_stat (\<lambda>s. s\<lparr>ncs_miss := ncs_miss s + 1\<rparr>) st)
        | Some ncp \<Rightarrow>
            (let e = nc_mem st ncp;
                 drop = (\<lambda>st. bindE (lru_free ncp (nc_unhash ncp st)) (\<lambda>st. Inr (Miss, cnp, st)))
             in if \<not> cn_makeentry cnp then drop (count_stat (\<lambda>s. s\<lparr>ncs_badhits := ncs_badhits s + 1\<rparr>) st)
                else case nc_vp e of
                  None \<Rightarrow>
                    if cn_nameiop cnp \<noteq> CREATE then
                      Inr (Absent, cnp, lru_used ncp (count_stat (\<lambda>s. s\<lparr>ncs_neghits := ncs_neghits s + 1\<rparr>) st))
                    else drop st
                | Some vp \<Rightarrow>
                    if nc_vpid e \<noteq> v_id st vp then
                      drop (count_stat (\<lambda>s. s\<lparr>ncs_falsehits := ncs_falsehits s + 1\<rparr>) st)
                    else
                      Inr (Found vp, cnp, lru_used ncp (count_stat (\<lambda>s. s\<lparr>ncs_goodhits := ncs_goodhits s + 1\<rparr>) st))))"

section \<open>Adding entries\<close>

text \<open>A slot that is on no chain: new memory, or the entry at the head of the LRU chain.\<close>

definition nc_zero :: namecache where
  "nc_zero = \<lparr>nc_back = None, nc_dvp = None, nc_dvpid = 0, nc_vp = None, nc_vpid = 0, nc_nlen = 0,
     nc_name = replicate (nat NCHNAMLEN) (CHR 0x00)\<rparr>"

definition nc_slot :: "ncstate \<Rightarrow> (nat \<times> ncstate) option" where
  "nc_slot st =
     (if numcache st < desiredvnodes st then
        Some (nc_addr st, upd_entry (nc_addr st) (\<lambda>_. nc_zero) (st\<lparr>numcache := numcache st + 1, nc_addr := nc_addr st + 1\<rparr>))
      else case nchhead st of
        [] \<Rightarrow> None
      | ncp # lru \<Rightarrow> Some (ncp, nc_unhash ncp (st\<lparr>nchhead := lru\<rparr>)))"

definition cache_enter :: "nat \<Rightarrow> nat option \<Rightarrow> componentname \<Rightarrow> ncstate \<Rightarrow> ncstate kres" where
  "cache_enter dvp vp cnp st =
     (if \<not> doingcache st then Inr st
      else case nc_slot st of
        None \<Rightarrow> Inr st
      | Some (ncp, st) \<Rightarrow>
          bindE (bcopy (cn_name cnp) 0 (nc_name (nc_mem st ncp)) 0 (cn_namelen cnp)) (\<lambda>name.
          Inr (nc_hash_in (nc_chain (cn_hash cnp) st) ncp
            (upd_entry ncp (\<lambda>e. e\<lparr>nc_vp := vp, nc_vpid := (case vp of None \<Rightarrow> 0 | Some vp \<Rightarrow> v_id st vp),
                 nc_dvp := Some dvp, nc_dvpid := v_id st dvp, nc_nlen := cn_namelen cnp, nc_name := name\<rparr>)
              (st\<lparr>nchhead := nchhead st @ [ncp]\<rparr>)))))"

section \<open>Initialization and purging\<close>

text \<open>The greatest power of two that is not above the number of elements.\<close>

function hash_size :: "int \<Rightarrow> int \<Rightarrow> int" where
  "hash_size elements hashsize =
     (if 1 \<le> hashsize \<and> hashsize \<le> elements then hash_size elements (hashsize * 2) else hashsize)"
  by pat_completeness auto
termination
  by (relation "measure (\<lambda>(elements, hashsize). nat (elements + 1 - hashsize))") auto

declare hash_size.simps [simp del]

definition hashinit :: "int \<Rightarrow> ((nat \<Rightarrow> nat list) \<times> u_long) kres" where
  "hashinit elements =
     (if elements \<le> 0 then Inl (Panic ''hashinit: bad cnt'')
      else Inr (\<lambda>_. [], word_of_int (hash_size elements 1 div 2 - 1)))"

definition nchinit :: "ncstate \<Rightarrow> ncstate kres" where
  "nchinit st = bindE (hashinit (desiredvnodes st)) (\<lambda>(tbl, mask). Inr (st\<lparr>nchashtbl := tbl, nchash := mask\<rparr>))"

text \<open>When the number of a vnode wraps around, the numbers of all entries are cleared.\<close>

fun purge_chain :: "nat list \<Rightarrow> ncstate \<Rightarrow> ncstate" where
  "purge_chain [] st = st"
| "purge_chain (ncp # ncps) st = purge_chain ncps (upd_entry ncp (\<lambda>e. e\<lparr>nc_vpid := 0, nc_dvpid := 0\<rparr>) st)"

fun purge_chains :: "nat \<Rightarrow> ncstate \<Rightarrow> ncstate" where
  "purge_chains 0 st = st"
| "purge_chains (Suc i) st = purge_chains i (purge_chain (nchashtbl st i) st)"

definition new_v_id :: "nat \<Rightarrow> ncstate \<Rightarrow> ncstate" where
  "new_v_id vp st = st\<lparr>nextvnodeid := nextvnodeid st + 1, v_id := (v_id st)(vp := nextvnodeid st + 1)\<rparr>"

definition cache_purge :: "nat \<Rightarrow> ncstate \<Rightarrow> ncstate" where
  "cache_purge vp st =
     (let st = new_v_id vp st
      in if nextvnodeid st \<noteq> 0 then st else new_v_id vp (purge_chains (unat (nchash st) + 1) st))"

definition on_mount :: "nat \<Rightarrow> ncstate \<Rightarrow> nat \<Rightarrow> bool" where
  "on_mount mp st ncp = (case nc_dvp (nc_mem st ncp) of None \<Rightarrow> False | Some dvp \<Rightarrow> v_mount st dvp = mp)"

definition nc_forget :: "nat \<Rightarrow> ncstate \<Rightarrow> ncstate" where
  "nc_forget ncp st = nc_unhash ncp (upd_entry ncp (\<lambda>e. e\<lparr>nc_vp := None, nc_dvp := None\<rparr>) st)"

lemma nc_forget_simps [simp]:
  "nc_dvp (nc_mem (nc_forget ncp st) q) = (if q = ncp then None else nc_dvp (nc_mem st q))"
  "nc_vp (nc_mem (nc_forget ncp st) q) = (if q = ncp then None else nc_vp (nc_mem st q))"
  "nchhead (nc_forget ncp st) = nchhead st" "v_mount (nc_forget ncp st) = v_mount st"
  by (simp_all add: nc_forget_def nc_unhash_def upd_entry_def split: option.split)

lemma lru_free_Inr:
  "lru_free ncp st = Inr st' \<longleftrightarrow> st' = st\<lparr>nchhead := ncp # remove1 ncp (nchhead st)\<rparr> \<and> remove1 ncp (nchhead st) \<noteq> []"
  by (auto simp: lru_free_def split: list.split)

text \<open>\<open>ncps\<close>: the rest of the LRU chain from \<open>ncp\<close> on. After an entry has been moved to the head
  the scan starts again behind it.\<close>

function purgevfs_loop :: "nat \<Rightarrow> nat list \<Rightarrow> ncstate \<Rightarrow> ncstate kres" where
  "purgevfs_loop mp [] st = Inr st"
| "purgevfs_loop mp (ncp # ncps) st =
     (if \<not> on_mount mp st ncp then purgevfs_loop mp ncps st
      else case lru_free ncp (nc_forget ncp st) of
             Inl e \<Rightarrow> Inl e
           | Inr st \<Rightarrow> purgevfs_loop mp (tl (nchhead st)) st)"
  by pat_completeness auto

termination
proof (relation "measures [\<lambda>(mp, ncps, st). card {q \<in> set ncps \<union> set (nchhead st). on_mount mp st q},
    \<lambda>(mp, ncps, st). length ncps]")
  fix mp ncp ncps st
  let ?a = "{q \<in> set ncps \<union> set (nchhead st). on_mount mp st q}"
  let ?b = "{q \<in> set (ncp # ncps) \<union> set (nchhead st). on_mount mp st q}"
  have "card ?a \<le> card ?b" by (intro card_mono) auto
  then show "((mp, ncps, st), mp, ncp # ncps, st) \<in> measures [\<lambda>(mp, ncps, st). card {q \<in> set ncps \<union> set (nchhead st). on_mount mp st q},
    \<lambda>(mp, ncps, st). length ncps]" by auto
next
  fix mp ncp ncps st st'
  assume on: "\<not> \<not> on_mount mp st ncp" and free: "lru_free ncp (nc_forget ncp st) = Inr st'"
  let ?a = "{q \<in> set (tl (nchhead st')) \<union> set (nchhead st'). on_mount mp st' q}"
  let ?b = "{q \<in> set (ncp # ncps) \<union> set (nchhead st). on_mount mp st q}"
  have "?a \<subseteq> ?b - {ncp}"
    using free set_remove1_subset [of ncp "nchhead st"] by (auto simp: lru_free_Inr on_mount_def split: if_splits option.splits)
  moreover have "ncp \<in> ?b" using on by simp
  ultimately have "card ?a < card ?b" by (intro psubset_card_mono) auto
  then show "((mp, tl (nchhead st'), st'), mp, ncp # ncps, st) \<in> measures [\<lambda>(mp, ncps, st). card {q \<in> set ncps \<union> set (nchhead st). on_mount mp st q},
    \<lambda>(mp, ncps, st). length ncps]" by simp
qed simp

definition cache_purgevfs :: "nat \<Rightarrow> ncstate \<Rightarrow> ncstate kres" where
  "cache_purgevfs mp st = purgevfs_loop mp (nchhead st) st"

end
