(* ===== verification/Namecache_Laws.thy ===== *)
theory Namecache_Laws
  imports Namecache
begin

text \<open>
  Correctness of the name cache: the chains are consistent in every reachable state, an entry
  added is found again, purging a vnode hides its entries until the numbers wrap around, and
  purging a file system removes exactly its entries.
\<close>

unbundle bit_operations_syntax

section \<open>The invariant\<close>

text \<open>
  Every entry is once on the LRU chain; the hash chains hold those whose \<open>nc_back\<close> says so, each
  on one chain of the table; an entry on a hash chain has a directory.
\<close>

definition nc_ok :: "ncstate \<Rightarrow> bool" where
  "nc_ok st \<longleftrightarrow>
     distinct (nchhead st) \<and> (\<forall>q \<in> set (nchhead st). q < nc_addr st)
     \<and> numcache st = int (length (nchhead st)) \<and> numcache st \<le> max 0 (desiredvnodes st)
     \<and> (\<forall>i. distinct (nchashtbl st i))
     \<and> (\<forall>i q. q \<in> set (nchashtbl st i) \<longleftrightarrow> q \<in> set (nchhead st) \<and> nc_back (nc_mem st q) = Some i)
     \<and> (\<forall>q \<in> set (nchhead st). length (nc_name (nc_mem st q)) = 31
          \<and> (\<forall>i. nc_back (nc_mem st q) = Some i \<longrightarrow> i \<le> unat (nchash st) \<and> nc_dvp (nc_mem st q) \<noteq> None))"

text \<open>The numbers: two vnodes with the same one have never been purged, so that theirs is 0, and all
  numbers in use are at most the last one given.\<close>

definition nc_ids :: "ncstate \<Rightarrow> bool" where
  "nc_ids st \<longleftrightarrow> (\<forall>v. v_id st v \<le> nextvnodeid st)
     \<and> (\<forall>v w. v_id st v = v_id st w \<longrightarrow> v = w \<or> v_id st v = 0)
     \<and> (\<forall>i. \<forall>q \<in> set (nchashtbl st i). nc_dvpid (nc_mem st q) \<le> nextvnodeid st \<and> nc_vpid (nc_mem st q) \<le> nextvnodeid st)"

lemma nc_okD:
  assumes "nc_ok st"
  shows "distinct (nchhead st)" "q \<in> set (nchhead st) \<Longrightarrow> q < nc_addr st" "distinct (nchashtbl st i)"
    "q \<in> set (nchashtbl st i) \<longleftrightarrow> q \<in> set (nchhead st) \<and> nc_back (nc_mem st q) = Some i"
    "numcache st = int (length (nchhead st))"
  using assms by (auto simp: nc_ok_def)

lemma upd_entry_simps [simp]:
  "nchhead (upd_entry q f st) = nchhead st" "nchashtbl (upd_entry q f st) = nchashtbl st"
  "nc_mem (upd_entry q f st) = (nc_mem st)(q := f (nc_mem st q))" "v_id (upd_entry q f st) = v_id st"
  "nextvnodeid (upd_entry q f st) = nextvnodeid st" "nchash (upd_entry q f st) = nchash st"
  "nc_addr (upd_entry q f st) = nc_addr st" "numcache (upd_entry q f st) = numcache st"
  "desiredvnodes (upd_entry q f st) = desiredvnodes st" "v_mount (upd_entry q f st) = v_mount st"
  "doingcache (upd_entry q f st) = doingcache st" "stats (upd_entry q f st) = stats st"
  by (simp_all add: upd_entry_def)

lemma count_stat_simps [simp]:
  "nchhead (count_stat f st) = nchhead st" "nchashtbl (count_stat f st) = nchashtbl st"
  "nc_mem (count_stat f st) = nc_mem st" "v_id (count_stat f st) = v_id st"
  "nextvnodeid (count_stat f st) = nextvnodeid st" "nchash (count_stat f st) = nchash st"
  "nc_addr (count_stat f st) = nc_addr st" "numcache (count_stat f st) = numcache st"
  "desiredvnodes (count_stat f st) = desiredvnodes st" "v_mount (count_stat f st) = v_mount st"
  "doingcache (count_stat f st) = doingcache st"
  by (simp_all add: count_stat_def)

lemma nc_unhash_simps [simp]:
  "nchhead (nc_unhash q st) = nchhead st" "v_id (nc_unhash q st) = v_id st"
  "nextvnodeid (nc_unhash q st) = nextvnodeid st" "nchash (nc_unhash q st) = nchash st"
  "nc_addr (nc_unhash q st) = nc_addr st" "numcache (nc_unhash q st) = numcache st"
  "desiredvnodes (nc_unhash q st) = desiredvnodes st" "v_mount (nc_unhash q st) = v_mount st"
  "doingcache (nc_unhash q st) = doingcache st" "stats (nc_unhash q st) = stats st"
  "nc_mem (nc_unhash q st) = (nc_mem st)(q := (nc_mem st q)\<lparr>nc_back := None\<rparr>)"
  by (auto simp: nc_unhash_def fun_eq_iff split: option.split)

text \<open>Taking an entry off its hash chain leaves the others in order.\<close>

lemma nc_unhash_tbl:
  "nc_ok st \<Longrightarrow> q \<in> set (nchhead st) \<Longrightarrow> nchashtbl (nc_unhash q st) i = removeAll q (nchashtbl st i)"
  using nc_okD(3,4) [of st] by (auto simp: nc_unhash_def distinct_remove1_removeAll split: option.split)

lemma nc_ok_congs:
  "nc_ok (count_stat f st) = nc_ok st" "nc_ids (count_stat f st) = nc_ids st"
  "nc_ok st \<Longrightarrow> distinct l \<Longrightarrow> set l = set (nchhead st) \<Longrightarrow> nc_ok (st\<lparr>nchhead := l\<rparr>)"
  "nc_ids (st\<lparr>nchhead := l\<rparr>) = nc_ids st"
  by (auto simp: nc_ok_def nc_ids_def distinct_card [symmetric])

lemma nc_unhash_ok: "nc_ok st \<Longrightarrow> q \<in> set (nchhead st) \<Longrightarrow> nc_ok (nc_unhash q st)"
  by (auto simp: nc_ok_def nc_unhash_tbl distinct_removeAll)

lemma nc_unhash_ids: "nc_ok st \<Longrightarrow> q \<in> set (nchhead st) \<Longrightarrow> nc_ids st \<Longrightarrow> nc_ids (nc_unhash q st)"
  by (auto simp: nc_ids_def nc_unhash_tbl)

lemma lru_freed: "nc_ok st \<Longrightarrow> q \<in> set (nchhead st) \<Longrightarrow> lru_free q st = Inr st' \<Longrightarrow> nc_ok st' \<and> (nc_ids st \<longrightarrow> nc_ids st')"
  by (auto simp: lru_free_Inr nc_okD(1) intro!: nc_ok_congs simp: nc_ok_congs(4))

lemma lru_used_ok: "nc_ok st \<Longrightarrow> q \<in> set (nchhead st) \<Longrightarrow> nc_ok (lru_used q st) \<and> nc_ids (lru_used q st) = nc_ids st"
  by (auto simp: lru_used_def nc_okD(1) intro!: nc_ok_congs simp: nc_ok_congs(4))

section \<open>Looking up\<close>

definition nc_find :: "nat \<Rightarrow> componentname \<Rightarrow> ncstate \<Rightarrow> nat option" where
  "nc_find dvp cnp st =
     find (\<lambda>q. nc_match (v_id st) dvp cnp (nc_mem st q)) (nchashtbl st (nc_chain (cn_hash cnp) st))"

lemma nc_find_Some: "nc_ok st \<Longrightarrow> nc_find dvp cnp st = Some q \<Longrightarrow>
    q \<in> set (nchhead st) \<and> nc_match (v_id st) dvp cnp (nc_mem st q)"
  using nc_okD(4) [of st _ "nc_chain (cn_hash cnp) st"] by (auto simp: nc_find_def find_Some_iff) (metis nth_mem)

definition nc_drop :: "componentname \<Rightarrow> nat \<Rightarrow> ncstate \<Rightarrow> (nclookup \<times> componentname \<times> ncstate) kres" where
  "nc_drop cnp q st = bindE (lru_free q (nc_unhash q st)) (\<lambda>st. Inr (Miss, cnp, st))"

text \<open>What \<open>cache_lookup\<close> does, by the entry found.\<close>

lemma cache_lookup_cases:
  assumes "doingcache st" "cn_namelen cnp \<le> NCHNAMLEN"
  obtains (miss) "nc_find dvp cnp st = None" "\<exists>f. cache_lookup dvp cnp st = Inr (Miss, cnp, count_stat f st)"
  | (absent) q f where "nc_find dvp cnp st = Some q" "nc_vp (nc_mem st q) = None" "cn_makeentry cnp"
      "cn_nameiop cnp \<noteq> CREATE" "cache_lookup dvp cnp st = Inr (Absent, cnp, lru_used q (count_stat f st))"
  | (found) q f vp where "nc_find dvp cnp st = Some q" "nc_vp (nc_mem st q) = Some vp" "cn_makeentry cnp"
      "nc_vpid (nc_mem st q) = v_id st vp" "cache_lookup dvp cnp st = Inr (Found vp, cnp, lru_used q (count_stat f st))"
  | (drop) q f where "nc_find dvp cnp st = Some q" "cache_lookup dvp cnp st = nc_drop cnp q (count_stat f st)"
      "\<not> cn_makeentry cnp \<or> nc_vp (nc_mem st q) = None \<and> cn_nameiop cnp = CREATE
        \<or> (\<exists>vp. nc_vp (nc_mem st q) = Some vp \<and> nc_vpid (nc_mem st q) \<noteq> v_id st vp)"
proof (cases "nc_find dvp cnp st")
  case None
  then show ?thesis using assms by (intro miss) (auto simp: cache_lookup_def nc_find_def)
next
  case (Some q)
  note eq = assms Some [unfolded nc_find_def]
  have id: "st = count_stat (\<lambda>s. s) st" by (simp add: count_stat_def)
  show ?thesis
  proof (cases "cn_makeentry cnp")
    case False
    then show ?thesis using eq Some by (intro drop) (auto simp: cache_lookup_def nc_drop_def)
  next
    case True
    show ?thesis
    proof (cases "nc_vp (nc_mem st q)")
      case None
      show ?thesis
      proof (cases "cn_nameiop cnp = CREATE")
        case True
        have "cache_lookup dvp cnp st = nc_drop cnp q (count_stat (\<lambda>s. s) st)"
          using eq None True \<open>cn_makeentry cnp\<close> by (simp add: cache_lookup_def nc_drop_def id [symmetric])
        then show ?thesis using Some True None by (intro drop) auto
      qed (use eq Some None True in \<open>auto intro!: absent simp: cache_lookup_def\<close>)
    next
      case (Some vp)
      show ?thesis
      proof (cases "nc_vpid (nc_mem st q) = v_id st vp")
        case False
        then show ?thesis using eq Some True \<open>nc_find dvp cnp st = Some q\<close>
          by (intro drop) (auto simp: cache_lookup_def nc_drop_def)
      qed (use eq Some True \<open>nc_find dvp cnp st = Some q\<close> in \<open>auto intro!: found simp: cache_lookup_def\<close>)
    qed
  qed
qed

lemma nc_drop_ok:
  "nc_ok st \<Longrightarrow> q \<in> set (nchhead st) \<Longrightarrow> nc_drop cnp q (count_stat f st) = Inr (r, c, st')
    \<Longrightarrow> nc_ok st' \<and> (nc_ids st \<longrightarrow> nc_ids st') \<and> r = Miss"
  using lru_freed [of "nc_unhash q (count_stat f st)" q st'] nc_unhash_ok [of "count_stat f st" q]
    nc_unhash_ids [of "count_stat f st" q] by (auto simp: nc_drop_def nc_ok_congs)

lemma cache_lookup_ok:
  assumes "nc_ok st" "cache_lookup dvp cnp st = Inr (r, c, st')"
  shows "nc_ok st' \<and> (nc_ids st \<longrightarrow> nc_ids st')"
proof (cases "doingcache st \<and> cn_namelen cnp \<le> NCHNAMLEN")
  case True
  then have "doingcache st" "cn_namelen cnp \<le> NCHNAMLEN" by auto
  then show ?thesis
  proof (cases rule: cache_lookup_cases [of st cnp dvp])
    case (absent q f)
    then show ?thesis using assms nc_find_Some [OF assms(1) absent(1)] lru_used_ok [of "count_stat f st" q] by (auto simp: nc_ok_congs)
  next
    case (found q f vp)
    then show ?thesis using assms nc_find_Some [OF assms(1) found(1)] lru_used_ok [of "count_stat f st" q] by (auto simp: nc_ok_congs)
  next
    case (drop q f)
    then show ?thesis using assms nc_find_Some [OF assms(1) drop(1)] nc_drop_ok [of st q cnp f r c st'] by auto
  qed (use assms in \<open>auto simp: nc_ok_congs\<close>)
qed (use assms in \<open>auto simp: cache_lookup_def nc_ok_congs split: if_splits\<close>)

section \<open>Entering\<close>

text \<open>The slot, put at the end of the LRU chain, is an entry that is on no hash chain.\<close>

lemma nc_slot_ok:
  assumes "nc_ok st" "nc_slot st = Some (q, st')"
  shows "nc_ok (st'\<lparr>nchhead := nchhead st' @ [q]\<rparr>) \<and> nc_back (nc_mem st' q) = None \<and> length (nc_name (nc_mem st' q)) = 31
    \<and> (nc_ids st \<longrightarrow> nc_ids st') \<and> v_id st' = v_id st \<and> nextvnodeid st' = nextvnodeid st \<and> nchash st' = nchash st
    \<and> doingcache st' = doingcache st"
proof (cases "numcache st < desiredvnodes st")
  case True
  then have q: "q = nc_addr st" "st' = upd_entry q (\<lambda>_. nc_zero) (st\<lparr>numcache := numcache st + 1, nc_addr := nc_addr st + 1\<rparr>)"
    using assms(2) by (auto simp: nc_slot_def)
  have fresh: "q \<notin> set (nchhead st)" "\<forall>i. q \<notin> set (nchashtbl st i)" using nc_okD(2,4) [OF assms(1)] q(1) by auto
  show ?thesis using assms(1) fresh True
    by (auto simp: nc_ok_def nc_ids_def q(2) nc_zero_def NCHNAMLEN_def) (auto simp: q(1) less_SucI)
next
  case False
  obtain lru where lru: "nchhead st = q # lru" "st' = nc_unhash q (st\<lparr>nchhead := lru\<rparr>)"
    using assms(2) False by (auto simp: nc_slot_def split: list.splits)
  have d: "distinct (q # lru)" using nc_okD(1) [OF assms(1)] lru(1) by simp
  have "st'\<lparr>nchhead := nchhead st' @ [q]\<rparr> = (nc_unhash q st)\<lparr>nchhead := lru @ [q]\<rparr>"
    by (simp add: lru(2) nc_unhash_def upd_entry_def split: option.split)
  moreover have "nc_ok ((nc_unhash q st)\<lparr>nchhead := lru @ [q]\<rparr>)"
    using nc_unhash_ok [OF assms(1)] d lru(1) by (intro nc_ok_congs) auto
  moreover have "nc_ids st' = nc_ids (nc_unhash q st)"
    by (simp add: nc_ids_def lru(2) nc_unhash_def upd_entry_def split: option.split)
  moreover have "length (nc_name (nc_mem st q)) = 31" using assms(1) lru(1) by (simp add: nc_ok_def)
  ultimately show ?thesis using nc_unhash_ids [OF assms(1), of q] lru by auto
qed

lemma nc_chain_le: "nc_chain h st \<le> unat (nchash st)"
  by (simp add: nc_chain_def word_and_le1 word_le_nat_alt [symmetric])

lemma cache_enter_eq:
  assumes "cache_enter dvp vp cnp st = Inr st'"
  shows "st' = st \<or> (\<exists>q st1 name. nc_slot st = Some (q, st1) \<and> doingcache st
    \<and> bcopy (cn_name cnp) 0 (nc_name (nc_mem st1 q)) 0 (cn_namelen cnp) = Inr name
    \<and> st' = nc_hash_in (nc_chain (cn_hash cnp) st1) q (upd_entry q (\<lambda>e. e\<lparr>nc_vp := vp,
        nc_vpid := (case vp of None \<Rightarrow> 0 | Some vp \<Rightarrow> v_id st1 vp), nc_dvp := Some dvp, nc_dvpid := v_id st1 dvp,
        nc_nlen := cn_namelen cnp, nc_name := name\<rparr>) (st1\<lparr>nchhead := nchhead st1 @ [q]\<rparr>)))"
  using assms by (auto simp: cache_enter_def split: if_splits option.splits prod.splits)

lemma nc_hash_in_ok:
  assumes "nc_ok st" "q \<in> set (nchhead st)" "nc_back (nc_mem st q) = None" "i \<le> unat (nchash st)" "nc_dvp (f (nc_mem st q)) \<noteq> None"
    "length (nc_name (f (nc_mem st q))) = 31"
  shows "nc_ok (nc_hash_in i q (upd_entry q f st))"
proof -
  have "q \<notin> set (nchashtbl st j)" for j using assms(1,3) nc_okD(4) by auto
  then show ?thesis using assms by (auto simp: nc_ok_def nc_hash_in_def)
qed

lemma cache_enter_ok:
  assumes "nc_ok st" "cache_enter dvp vp cnp st = Inr st'"
  shows "nc_ok st' \<and> (nc_ids st \<longrightarrow> nc_ids st')"
  using cache_enter_eq [OF assms(2)]
proof (elim disjE exE conjE)
  fix q st1 name assume slot: "nc_slot st = Some (q, st1)"
    and name: "bcopy (cn_name cnp) 0 (nc_name (nc_mem st1 q)) 0 (cn_namelen cnp) = Inr name"
    and st': "st' = nc_hash_in (nc_chain (cn_hash cnp) st1) q (upd_entry q (\<lambda>e. e\<lparr>nc_vp := vp,
        nc_vpid := (case vp of None \<Rightarrow> 0 | Some vp \<Rightarrow> v_id st1 vp), nc_dvp := Some dvp, nc_dvpid := v_id st1 dvp,
        nc_nlen := cn_namelen cnp, nc_name := name\<rparr>) (st1\<lparr>nchhead := nchhead st1 @ [q]\<rparr>))"
  note s = nc_slot_ok [OF assms(1) slot]
  have "nc_ok st'" unfolding st' using s bcopy_length [OF name] nc_chain_le [of "cn_hash cnp" st1]
    by (intro nc_hash_in_ok) auto
  moreover have "nc_ids st1 \<longrightarrow> nc_ids st'" unfolding st' by (auto simp: nc_ids_def nc_hash_in_def split: option.split)
  ultimately show ?thesis using s by blast
qed (use assms in simp)

section \<open>The answers of the cache\<close>

text \<open>What a lookup answers, read off the hash chain.\<close>

definition nc_says :: "nat \<Rightarrow> componentname \<Rightarrow> ncstate \<Rightarrow> nclookup" where
  "nc_says dvp cnp st =
     (if \<not> doingcache st \<or> NCHNAMLEN < cn_namelen cnp \<or> \<not> cn_makeentry cnp then Miss
      else case nc_find dvp cnp st of
        None \<Rightarrow> Miss
      | Some q \<Rightarrow>
          (case nc_vp (nc_mem st q) of
             None \<Rightarrow> if cn_nameiop cnp = CREATE then Miss else Absent
           | Some vp \<Rightarrow> if nc_vpid (nc_mem st q) = v_id st vp then Found vp else Miss))"

text \<open>The lookups that find an entry and drop it.\<close>

definition nc_drops :: "nat \<Rightarrow> componentname \<Rightarrow> ncstate \<Rightarrow> bool" where
  "nc_drops dvp cnp st \<longleftrightarrow> doingcache st \<and> cn_namelen cnp \<le> NCHNAMLEN \<and> nc_find dvp cnp st \<noteq> None \<and> nc_says dvp cnp st = Miss"

lemma nc_drop_eq:
  assumes "nc_ok st" "q \<in> set (nchhead st)"
  shows "if length (nchhead st) = 1 then nc_drop cnp q (count_stat f st) = Inl BadAccess
         else \<exists>st'. nc_drop cnp q (count_stat f st) = Inr (Miss, cnp, st') \<and> hd (nchhead st') = q \<and> nc_back (nc_mem st' q) = None"
proof -
  have "remove1 q (nchhead st) = [] \<longleftrightarrow> length (nchhead st) = 1"
    using assms(2) by (cases "nchhead st") (auto simp: length_remove1 remove1_append split: if_splits)
  then show ?thesis by (auto simp: nc_drop_def lru_free_def split: list.split)
qed

lemma cache_lookup_spec:
  assumes "nc_ok st"
  shows "if nc_drops dvp cnp st \<and> length (nchhead st) = 1 then cache_lookup dvp cnp st = Inl BadAccess
         else \<exists>c st'. cache_lookup dvp cnp st = Inr (nc_says dvp cnp st, c, st') \<and> nc_ok st'
           \<and> (nc_drops dvp cnp st \<longrightarrow> (\<exists>q. nc_find dvp cnp st = Some q \<and> hd (nchhead st') = q \<and> nc_back (nc_mem st' q) = None))"
proof (cases "doingcache st \<and> cn_namelen cnp \<le> NCHNAMLEN")
  case False
  then have "\<exists>c st'. cache_lookup dvp cnp st = Inr (Miss, c, st')" "nc_says dvp cnp st = Miss" "\<not> nc_drops dvp cnp st"
    by (auto simp: cache_lookup_def nc_says_def nc_drops_def)
  then show ?thesis using cache_lookup_ok [OF assms] by fastforce
next
  case True
  then have d: "doingcache st" "cn_namelen cnp \<le> NCHNAMLEN" by auto
  then show ?thesis
  proof (cases rule: cache_lookup_cases [of st cnp dvp])
    case (drop q f)
    have m: "nc_says dvp cnp st = Miss" using drop by (auto simp: nc_says_def split: option.split)
    then have "nc_drops dvp cnp st" using drop(1) d by (simp add: nc_drops_def)
    moreover have "nc_ok st'" if "nc_drop cnp q (count_stat f st) = Inr (Miss, cnp, st')" for st'
      using cache_lookup_ok [OF assms, of dvp cnp] that drop(2) by auto
    ultimately show ?thesis using nc_drop_eq [OF assms, of q cnp f] nc_find_Some [OF assms drop(1)] drop(1,2) m
      by (auto split: if_splits)
  next
    case (absent q f)
    then have "nc_says dvp cnp st = Absent" using d by (simp add: nc_says_def)
    then show ?thesis using absent(5) cache_lookup_ok [OF assms absent(5)] by (simp add: nc_drops_def)
  next
    case (found q f vp)
    then have "nc_says dvp cnp st = Found vp" using d by (simp add: nc_says_def)
    then show ?thesis using found(5) cache_lookup_ok [OF assms found(5)] by (simp add: nc_drops_def)
  next
    case miss
    then obtain f where f: "cache_lookup dvp cnp st = Inr (Miss, cnp, count_stat f st)" by auto
    have "nc_says dvp cnp st = Miss" "\<not> nc_drops dvp cnp st" using miss(1) by (auto simp: nc_says_def nc_drops_def)
    then show ?thesis using f cache_lookup_ok [OF assms f] by simp
  qed
qed

text \<open>An entry just made is the first on its chain.\<close>

lemma cache_enter_says:
  assumes "nc_ok st" "doingcache st" "0 < desiredvnodes st" "0 \<le> cn_namelen cnp" "cn_namelen cnp \<le> NCHNAMLEN"
    "cn_namelen cnp \<le> int (length (cn_name cnp))"
  shows "\<exists>st'. cache_enter dvp vp cnp st = Inr st' \<and> nc_ok st' \<and>
    nc_says dvp (cnp\<lparr>cn_makeentry := True, cn_nameiop := LOOKUP\<rparr>) st' = (case vp of None \<Rightarrow> Absent | Some vp \<Rightarrow> Found vp)"
proof -
  have "nc_slot st \<noteq> None" using assms(1,3) by (cases "nchhead st") (auto simp: nc_slot_def nc_ok_def)
  then obtain q st1 where slot: "nc_slot st = Some (q, st1)" by auto
  note s = nc_slot_ok [OF assms(1) slot]
  let ?n = "cn_namelen cnp"
  obtain name where name: "bcopy (cn_name cnp) 0 (nc_name (nc_mem st1 q)) 0 ?n = Inr name"
    using assms(4-6) s by (auto simp: bcopy_def NCHNAMLEN_def)
  have t: "take (nat ?n) name = take (nat ?n) (cn_name cnp)" using bcopy_window [OF name] by (simp add: window_def)
  define st' where "st' = nc_hash_in (nc_chain (cn_hash cnp) st1) q (upd_entry q (\<lambda>e. e\<lparr>nc_vp := vp,
        nc_vpid := (case vp of None \<Rightarrow> 0 | Some vp \<Rightarrow> v_id st1 vp), nc_dvp := Some dvp, nc_dvpid := v_id st1 dvp,
        nc_nlen := ?n, nc_name := name\<rparr>) (st1\<lparr>nchhead := nchhead st1 @ [q]\<rparr>))"
  have e: "cache_enter dvp vp cnp st = Inr st'" using assms(2) slot name by (simp add: cache_enter_def st'_def)
  have mem: "nc_mem st' q = (nc_mem st1 q)\<lparr>nc_back := Some (nc_chain (cn_hash cnp) st1), nc_vp := vp,
        nc_vpid := (case vp of None \<Rightarrow> 0 | Some vp \<Rightarrow> v_id st1 vp), nc_dvp := Some dvp, nc_dvpid := v_id st1 dvp,
        nc_nlen := ?n, nc_name := name\<rparr>" "v_id st' = v_id st1" "doingcache st'"
    and tbl: "nchashtbl st' (nc_chain (cn_hash cnp) st') = q # nchashtbl st1 (nc_chain (cn_hash cnp) st1)"
    using s assms(2) by (simp_all add: st'_def nc_hash_in_def nc_chain_def)
  have "nc_find dvp (cnp\<lparr>cn_makeentry := True, cn_nameiop := LOOKUP\<rparr>) st' = Some q"
    by (simp add: nc_find_def tbl mem nc_match_def t)
  then show ?thesis using e cache_enter_ok [OF assms(1) e] assms(5) by (auto simp: nc_says_def mem split: option.split)
qed

section \<open>Purging a vnode\<close>

definition clear_ids :: "namecache \<Rightarrow> namecache" where
  "clear_ids e = e\<lparr>nc_vpid := 0, nc_dvpid := 0\<rparr>"

lemma clear_ids_simps [simp]: "clear_ids (clear_ids e) = clear_ids e" "nc_back (clear_ids e) = nc_back e" "nc_dvp (clear_ids e) = nc_dvp e"
  "nc_name (clear_ids e) = nc_name e" "nc_dvpid (clear_ids e) = 0" "nc_vpid (clear_ids e) = 0"
  by (simp_all add: clear_ids_def)

lemma purge_chain_eq: "purge_chain qs st = st\<lparr>nc_mem := \<lambda>q. if q \<in> set qs then clear_ids (nc_mem st q) else nc_mem st q\<rparr>"
  by (induction qs arbitrary: st) (auto simp: upd_entry_def clear_ids_def [symmetric] fun_eq_iff)

lemma purge_chains_eq:
  "purge_chains n st = st\<lparr>nc_mem := \<lambda>q. if \<exists>i<n. q \<in> set (nchashtbl st i) then clear_ids (nc_mem st q) else nc_mem st q\<rparr>"
proof (induction n arbitrary: st)
  case (Suc n)
  show ?case by (auto simp: Suc purge_chain_eq fun_eq_iff less_Suc_eq intro!: arg_cong [where f = "\<lambda>m. st\<lparr>nc_mem := m\<rparr>"])
qed simp

lemma cache_purge_ok: "nc_ok st \<Longrightarrow> nc_ok (cache_purge vp st)"
  by (auto simp: nc_ok_def cache_purge_def new_v_id_def purge_chains_eq Let_def)

lemma cache_purge_ids:
  assumes "nc_ids st" "nextvnodeid st + 1 \<noteq> 0"
  shows "nc_ids (cache_purge vp st)" "nextvnodeid st < v_id (cache_purge vp st) vp"
    "nc_mem (cache_purge vp st) = nc_mem st" "nchashtbl (cache_purge vp st) = nchashtbl st"
proof -
  have lt: "nextvnodeid st < nextvnodeid st + 1" using unatSuc [of "nextvnodeid st"] assms(2) by (simp add: add.commute word_less_nat_alt)
  have p: "cache_purge vp st = new_v_id vp st" using assms(2) by (simp add: cache_purge_def new_v_id_def)
  show "nextvnodeid st < v_id (cache_purge vp st) vp" "nc_mem (cache_purge vp st) = nc_mem st" "nchashtbl (cache_purge vp st) = nchashtbl st"
    using lt by (simp_all add: p new_v_id_def)
  have le: "i \<le> nextvnodeid st \<Longrightarrow> i \<le> nextvnodeid st + 1 \<and> i \<noteq> nextvnodeid st + 1" for i using lt by auto
  have ne: "v_id st v \<noteq> nextvnodeid st + 1" for v using le assms(1) by (simp add: nc_ids_def)
  show "nc_ids (cache_purge vp st)" using assms(1) le ne ne [symmetric] unfolding p by (auto simp: nc_ids_def new_v_id_def)
qed

text \<open>Until the numbers wrap around, the purge after \<open>n\<close> others gives number \<open>n + 1\<close>.\<close>

lemma cache_purge_number:
  assumes "unat (nextvnodeid st) = n" "n + 1 < 2 ^ 32"
  shows "nextvnodeid st + 1 \<noteq> 0" "unat (nextvnodeid (cache_purge vp st)) = n + 1"
    "unat (v_id (cache_purge vp st) vp) = n + 1"
proof -
  show ne: "nextvnodeid st + 1 \<noteq> 0"
  proof
    assume "nextvnodeid st + 1 = 0"
    then have "nextvnodeid st = - 1" by (metis eq_neg_iff_add_eq_0)
    then show False using assms by (simp add: unsigned_minus_1_eq_mask mask_eq_exp_minus_1)
  qed
  have "unat (nextvnodeid st + 1) = n + 1" using unatSuc [of "nextvnodeid st"] ne assms(1) by (simp add: add.commute)
  then show "unat (nextvnodeid (cache_purge vp st)) = n + 1" "unat (v_id (cache_purge vp st) vp) = n + 1"
    using ne by (simp_all add: cache_purge_def new_v_id_def)
qed

lemma cache_purge_says:
  assumes "nc_ids st" "nextvnodeid st + 1 \<noteq> 0"
  shows "nc_says vp cnp (cache_purge vp st) = Miss" "nc_says dvp cnp (cache_purge vp st) \<noteq> Found vp"
proof -
  let ?s = "cache_purge vp st"
  have ids: "nc_dvpid (nc_mem ?s q) < v_id ?s vp \<and> nc_vpid (nc_mem ?s q) < v_id ?s vp"
    if "nc_find dvp cnp ?s = Some q" for dvp q
  proof -
    have "q \<in> set (nchashtbl st (nc_chain (cn_hash cnp) ?s))"
      using that by (auto simp: nc_find_def find_Some_iff cache_purge_ids(4) [OF assms])
    then have "nc_dvpid (nc_mem st q) \<le> nextvnodeid st \<and> nc_vpid (nc_mem st q) \<le> nextvnodeid st"
      using assms(1) unfolding nc_ids_def by blast
    then show ?thesis using cache_purge_ids(2,3) [OF assms, of vp] by (auto intro: le_less_trans)
  qed
  have "nc_find vp cnp ?s = None"
  proof (cases "nc_find vp cnp ?s")
    case (Some q)
    then have "nc_match (v_id ?s) vp cnp (nc_mem ?s q)" by (auto simp: nc_find_def find_Some_iff)
    then show ?thesis using ids [OF Some] by (auto simp: nc_match_def)
  qed
  then show "nc_says vp cnp ?s = Miss" by (simp add: nc_says_def)
  show "nc_says dvp cnp ?s \<noteq> Found vp" using ids [of dvp] by (auto simp: nc_says_def split: option.splits if_splits)
qed

section \<open>Purging a file system\<close>

text \<open>The entries of the file system are off the hash chains; nothing else has changed.\<close>

definition purged :: "nat \<Rightarrow> ncstate \<Rightarrow> ncstate \<Rightarrow> bool" where
  "purged mp st st' \<longleftrightarrow>
     nc_ok st' \<and> set (nchhead st') = set (nchhead st)
     \<and> (\<forall>i. nchashtbl st' i = filter (\<lambda>q. \<not> on_mount mp st q) (nchashtbl st i))
     \<and> (\<forall>q. \<not> on_mount mp st q \<longrightarrow> nc_mem st' q = nc_mem st q)
     \<and> (\<forall>q \<in> set (nchhead st). \<not> on_mount mp st' q)
     \<and> v_id st' = v_id st \<and> v_mount st' = v_mount st \<and> nchash st' = nchash st
     \<and> nextvnodeid st' = nextvnodeid st \<and> doingcache st' = doingcache st"

lemma nc_forget_eq: "nc_forget q st = upd_entry q (\<lambda>e. e\<lparr>nc_vp := None, nc_dvp := None\<rparr>) (nc_unhash q st)"
  by (simp add: nc_forget_def nc_unhash_def upd_entry_def fun_eq_iff split: option.split)

lemma nc_forget_ok:
  assumes "nc_ok st" "q \<in> set (nchhead st)"
  shows "nc_ok (nc_forget q st)" "nchashtbl (nc_forget q st) i = removeAll q (nchashtbl st i)"
    "p \<noteq> q \<Longrightarrow> nc_mem (nc_forget q st) p = nc_mem st p"
  using nc_unhash_ok [OF assms] assms by (auto simp: nc_forget_eq nc_ok_def nc_unhash_tbl)

lemma purged_step:
  assumes "nc_ok st" "on_mount mp st q" "q \<in> set (nchhead st)" "lru_free q (nc_forget q st) = Inr st1" "purged mp st1 st'"
  shows "purged mp st st'"
proof -
  have st1: "st1 = (nc_forget q st)\<lparr>nchhead := q # remove1 q (nchhead st)\<rparr>" using assms(4) by (auto simp: lru_free_Inr)
  have v: "v_id st1 = v_id st" "nchash st1 = nchash st" "nextvnodeid st1 = nextvnodeid st"
    "doingcache st1 = doingcache st" "v_mount st1 = v_mount st" by (simp_all add: st1 nc_forget_eq)
  have on: "on_mount mp st1 p \<longleftrightarrow> p \<noteq> q \<and> on_mount mp st p" for p
    by (auto simp: st1 on_mount_def split: option.split)
  have tbl: "nchashtbl st1 i = removeAll q (nchashtbl st i)" for i using nc_forget_ok(2) [OF assms(1,3)] by (simp add: st1)
  have mem: "\<not> on_mount mp st p \<Longrightarrow> nc_mem st1 p = nc_mem st p" for p
    using nc_forget_ok(3) [OF assms(1,3), of p] assms(2) by (cases "p = q") (simp_all add: st1)
  have lru: "set (nchhead st1) = set (nchhead st)" using nc_okD(1) [OF assms(1)] assms(3) by (auto simp: st1)
  have "filter (\<lambda>p. \<not> on_mount mp st1 p) (removeAll q l) = filter (\<lambda>p. \<not> on_mount mp st p) l" for l
    using assms(2) by (induction l) (auto simp: on)
  then show ?thesis using assms(2,5) mem lru v unfolding purged_def tbl on lru v by auto
qed

lemma purgevfs_loop_ok:
  assumes "nc_ok st" "length (nchhead st) \<noteq> 1" "set ncps \<subseteq> set (nchhead st)"
    "\<forall>q \<in> set (nchhead st) - set ncps. \<not> on_mount mp st q"
  shows "\<exists>st'. purgevfs_loop mp ncps st = Inr st' \<and> purged mp st st'"
  using assms
proof (induction mp ncps st rule: purgevfs_loop.induct)
  case (1 mp st)
  have "filter (\<lambda>q. \<not> on_mount mp st q) (nchashtbl st i) = nchashtbl st i" for i
    using 1 nc_okD(4) [of st] by (auto simp: filter_id_conv)
  then show ?case using 1 by (auto simp: purged_def)
next
  case (2 mp q qs st)
  show ?case
  proof (cases "on_mount mp st q")
    case False
    then show ?thesis using 2 by auto
  next
    case True
    have q: "q \<in> set (nchhead st)" using "2.prems"(3) by simp
    have "length (remove1 q (nchhead st)) \<noteq> 0"
      using q "2.prems"(2) by (cases "nchhead st") (auto simp: length_remove1)
    then obtain st1 where st1: "lru_free q (nc_forget q st) = Inr st1" "st1 = (nc_forget q st)\<lparr>nchhead := q # remove1 q (nchhead st)\<rparr>"
      by (auto simp: lru_free_Inr)
    have ok: "nc_ok st1" using lru_freed [OF nc_forget_ok(1) [OF "2.prems"(1) q]] q st1(1) by simp
    have "\<not> on_mount mp st1 q" by (simp add: on_mount_def st1(2))
    then have "\<exists>st'. purgevfs_loop mp (tl (nchhead st1)) st1 = Inr st' \<and> purged mp st1 st'"
      using True st1(2) ok "2.prems"(2) q length_pos_if_in_set [OF q] by (intro "2.IH"(2) [OF _ st1(1)]) (auto simp: length_remove1)
    then show ?thesis using True st1(1) purged_step [OF "2.prems"(1) True q st1(1)] by auto
  qed
qed

lemma cache_purgevfs_purged:
  "nc_ok st \<Longrightarrow> length (nchhead st) \<noteq> 1 \<Longrightarrow> \<exists>st'. cache_purgevfs mp st = Inr st' \<and> purged mp st st'"
  unfolding cache_purgevfs_def by (rule purgevfs_loop_ok) auto

lemma find_filter_eq: "(\<And>x. x \<in> set l \<Longrightarrow> P x \<Longrightarrow> Q x) \<Longrightarrow> find P (filter Q l) = find P l"
  by (induction l) auto

lemma find_None_all: "(\<And>x. x \<in> set l \<Longrightarrow> \<not> P x) \<Longrightarrow> find P l = None"
  by (auto simp: find_None_iff)

lemma find_cong_all: "(\<And>x. x \<in> set l \<Longrightarrow> P x = Q x) \<Longrightarrow> find P l = find Q l"
  by (induction l) auto

lemma purged_says:
  assumes "nc_ok st" "purged mp st st'"
  shows "nc_says dvp cnp st' = (if v_mount st dvp = mp then Miss else nc_says dvp cnp st)"
proof -
  let ?l = "nchashtbl st (nc_chain (cn_hash cnp) st)"
  have c: "nc_chain (cn_hash cnp) st' = nc_chain (cn_hash cnp) st" "v_id st' = v_id st" "doingcache st' = doingcache st"
    using assms(2) by (simp_all add: purged_def nc_chain_def)
  have "nc_find dvp cnp st' = find (\<lambda>q. nc_match (v_id st) dvp cnp (nc_mem st q)) (filter (\<lambda>q. \<not> on_mount mp st q) ?l)"
    using assms(2) unfolding nc_find_def c purged_def by (auto intro: find_cong_all)
  also have "\<dots> = (if v_mount st dvp = mp then None else nc_find dvp cnp st)"
    unfolding nc_find_def by (auto intro!: find_None_all find_filter_eq simp: nc_match_def on_mount_def)
  finally have f: "nc_find dvp cnp st' = (if v_mount st dvp = mp then None else nc_find dvp cnp st)" .
  have "nc_mem st' q = nc_mem st q" if "nc_find dvp cnp st = Some q" "v_mount st dvp \<noteq> mp" for q
    using that assms(2) nc_find_Some [OF assms(1) that(1)] by (auto simp: purged_def nc_match_def on_mount_def)
  then show ?thesis by (auto simp: nc_says_def f c split: option.split)
qed

section \<open>Reachable states\<close>

text \<open>The states after \<open>nchinit\<close>, with the number of vnodes purged so far. \<open>numcache\<close>,
  \<open>nextvnodeid\<close> and the numbers of the vnodes begin as 0.\<close>

definition nc_boot :: "ncstate \<Rightarrow> bool" where
  "nc_boot st \<longleftrightarrow> numcache st = 0 \<and> nchhead st = [] \<and> nextvnodeid st = 0 \<and> (\<forall>v. v_id st v = 0)"

inductive nc_reach :: "nat \<Rightarrow> ncstate \<Rightarrow> bool" where
  boot: "nc_boot st \<Longrightarrow> nchinit st = Inr st' \<Longrightarrow> nc_reach 0 st'"
| look: "nc_reach n st \<Longrightarrow> cache_lookup dvp cnp st = Inr (r, cnp', st') \<Longrightarrow> nc_reach n st'"
| enter: "nc_reach n st \<Longrightarrow> cache_enter dvp vp cnp st = Inr st' \<Longrightarrow> nc_reach n st'"
| purge: "nc_reach n st \<Longrightarrow> nc_reach (n + 1) (cache_purge vp st)"
| purgevfs: "nc_reach n st \<Longrightarrow> cache_purgevfs mp st = Inr st' \<Longrightarrow> nc_reach n st'"

inductive_cases nc_reach_0: "nc_reach 0 st"

lemma hash_size_pow:
  assumes "1 \<le> s" "s = 2 ^ k" "s \<le> 2 * n" "1 \<le> n"
  shows "\<exists>j. hash_size n s = 2 ^ Suc j \<and> 2 ^ j \<le> n \<and> n < 2 ^ Suc j"
  using assms
proof (induction n s arbitrary: k rule: hash_size.induct)
  case (1 n s)
  show ?case
  proof (cases "s \<le> n")
    case True
    have "hash_size n s = hash_size n (s * 2)" using True 1(2) by (subst hash_size.simps) simp
    then show ?thesis using 1(1) [of "Suc k"] 1(2-) True by auto
  next
    case False
    then obtain j where j: "k = Suc j" using 1(2-) by (cases k) auto
    have "hash_size n s = s" using False by (subst hash_size.simps) simp
    then show ?thesis using False 1(2-) j by (intro exI [of _ j]) auto
  qed
qed

lemma nchinit_ok:
  assumes "nc_boot st" "nchinit st = Inr st'"
  shows "nc_ok st' \<and> nc_ids st' \<and> nextvnodeid st' = 0"
  using assms by (auto simp: nc_boot_def nchinit_def hashinit_def nc_ok_def nc_ids_def split: if_splits)

lemma nc_reach_spec:
  assumes "nc_reach n st"
  shows "nc_ok st" "n < 2 ^ 32 \<Longrightarrow> nc_ids st \<and> unat (nextvnodeid st) = n"
proof -
  have "nc_ok st \<and> (n < 2 ^ 32 \<longrightarrow> nc_ids st \<and> unat (nextvnodeid st) = n)"
    using assms
  proof (induction rule: nc_reach.induct)
    case (boot st st')
    then show ?case using nchinit_ok by simp
  next
    case (look n st dvp cnp r cnp' st')
    moreover have "nextvnodeid st' = nextvnodeid st"
      using look(2) by (auto simp: cache_lookup_def lru_free_Inr lru_used_def Let_def split: if_splits option.splits)
    ultimately show ?case using cache_lookup_ok by auto
  next
    case (enter n st dvp vp cnp st')
    moreover have "nextvnodeid st' = nextvnodeid st"
      using cache_enter_eq [OF enter(2)] nc_slot_ok enter(3) by (auto simp: nc_hash_in_def)
    ultimately show ?case using cache_enter_ok by auto
  next
    case (purge n st vp)
    have "nc_ids (cache_purge vp st) \<and> unat (nextvnodeid (cache_purge vp st)) = n + 1" if n: "n + 1 < 2 ^ 32"
    proof -
      have u: "unat (nextvnodeid st) = n" "nc_ids st" using purge.IH n by auto
      show ?thesis using cache_purge_ids(1) [OF u(2)] cache_purge_number(1,2) [OF u(1) n] by blast
    qed
    then show ?case using purge.IH cache_purge_ok by blast
  next
    case (purgevfs n st mp st')
    have e: "nc_ok st" using purgevfs.IH by simp
    have p: "purged mp st st'"
    proof (cases "length (nchhead st) = 1")
      case False
      then show ?thesis using cache_purgevfs_purged [OF e False, of mp] purgevfs(2) by auto
    next
      case True
      then obtain q where q: "nchhead st = [q]" by (auto simp: length_Suc_conv)
      have on: "\<not> on_mount mp st q" using purgevfs(2) q by (auto simp: cache_purgevfs_def lru_free_def split: if_splits)
      then have "st' = st" using purgevfs(2) q by (simp add: cache_purgevfs_def)
      moreover have "filter (\<lambda>p. \<not> on_mount mp st p) (nchashtbl st i) = nchashtbl st i" for i
        using nc_okD(4) [OF e] q on by (auto simp: filter_id_conv)
      ultimately show ?thesis using e on q by (simp add: purged_def)
    qed
    have "nc_ids st'" if "nc_ids st"
      using that p nc_okD(4) [OF e] by (auto simp: nc_ids_def purged_def)
    then show ?case using p purgevfs.IH by (auto simp: purged_def)
  qed
  then show "nc_ok st" "n < 2 ^ 32 \<Longrightarrow> nc_ids st \<and> unat (nextvnodeid st) = n" by auto
qed

end
