(* ===== verification/Namecache_Props.thy ===== *)
theory Namecache_Props
  imports Namecache_Laws
begin

text \<open>
  The properties of the name cache over its reachable states, a concrete cache, and the state in
  which the numbers of vnodes have wrapped around.
\<close>

unbundle bit_operations_syntax

section \<open>Correctness\<close>

text \<open>C18. In every state the operations can reach from \<open>nchinit\<close>, every entry is exactly once on
  the LRU chain and on at most one hash chain, a chain of the table, whose head it knows; there are never more
  entries than \<open>desiredvnodes\<close>. Until $2^{32}$ purges no number is given twice: the purge after
  \<open>n\<close> others gives its vnode number \<open>n + 1\<close>, vnodes that have been purged have
  different numbers, and no number in use is above \<open>n\<close>.\<close>

theorem nc_reach_ok:
  assumes "nc_reach n st"
  shows "nc_ok st \<and> (n < 2 ^ 32 \<longrightarrow> nc_ids st \<and> unat (nextvnodeid st) = n)
    \<and> (n + 1 < 2 ^ 32 \<longrightarrow> (\<forall>vp. unat (v_id (cache_purge vp st) vp) = n + 1))"
proof -
  note r = nc_reach_spec [OF assms]
  show ?thesis using r cache_purge_number(3) [of st n] by simp
qed

text \<open>C39. \<open>cache_lookup\<close> answers what the first matching entry of the hash chain says and keeps the
  cache consistent; an entry it may not use it takes off its hash chain and makes the first to be used again. The exception
  is a cache with a single entry: then dropping it writes through the null pointer \<open>nchhead\<close>.\<close>

theorem cache_lookup_correct:
  assumes "nc_reach n st"
  shows "if nc_drops dvp cnp st \<and> length (nchhead st) = 1 then cache_lookup dvp cnp st = Inl BadAccess
         else \<exists>c st'. cache_lookup dvp cnp st = Inr (nc_says dvp cnp st, c, st') \<and> nc_ok st'
           \<and> (nc_drops dvp cnp st \<longrightarrow> (\<exists>q. nc_find dvp cnp st = Some q \<and> hd (nchhead st') = q \<and> nc_back (nc_mem st' q) = None))"
  by (rule cache_lookup_spec [OF nc_reach_spec(1) [OF assms]])

text \<open>C40. Round trip: after \<open>cache_enter\<close> of a name of at most 31 bytes, looking the name up finds
  the vnode, or that there is none.\<close>

theorem cache_enter_lookup:
  assumes "nc_reach n st" "doingcache st" "0 < desiredvnodes st"
    "0 \<le> cn_namelen cnp" "cn_namelen cnp \<le> NCHNAMLEN" "cn_namelen cnp \<le> int (length (cn_name cnp))"
  shows "\<exists>st' c st''. cache_enter dvp vp cnp st = Inr st' \<and>
    cache_lookup dvp (cnp\<lparr>cn_makeentry := True, cn_nameiop := LOOKUP\<rparr>) st'
      = Inr (case vp of None \<Rightarrow> Absent | Some vp \<Rightarrow> Found vp, c, st'')"
proof -
  let ?c = "cnp\<lparr>cn_makeentry := True, cn_nameiop := LOOKUP\<rparr>"
  obtain st' where st': "cache_enter dvp vp cnp st = Inr st'" "nc_ok st'"
    "nc_says dvp ?c st' = (case vp of None \<Rightarrow> Absent | Some vp \<Rightarrow> Found vp)"
    using cache_enter_says [OF nc_reach_spec(1) [OF assms(1)] assms(2-6), of dvp vp] by auto
  have "\<not> nc_drops dvp ?c st'" using st'(3) by (simp add: nc_drops_def split: option.splits)
  then show ?thesis using st' cache_lookup_spec [OF st'(2), of dvp ?c] by auto
qed

text \<open>C11. After \<open>cache_purge\<close> of a vnode no lookup finds a name in it and none answers with it, as
  long as fewer than $2^{32}$ vnodes have been purged.\<close>

theorem cache_purge_hides:
  assumes "nc_reach n st" "n + 1 < 2 ^ 32"
  shows "(cache_lookup vp cnp (cache_purge vp st) = Inr (r, c, st') \<longrightarrow> r = Miss)
    \<and> (cache_lookup dvp cnp (cache_purge vp st) = Inr (r, c, st') \<longrightarrow> r \<noteq> Found vp)"
proof -
  have r: "nc_reach (n + 1) (cache_purge vp st)" using assms(1) by (rule nc_reach.purge)
  have ids: "nc_ids st" using nc_reach_spec(2) [OF assms(1)] assms(2) by simp
  have "nextvnodeid st + 1 \<noteq> 0"
  proof
    assume e: "nextvnodeid st + 1 = 0"
    have "nextvnodeid (cache_purge vp st) = 1" by (simp add: cache_purge_def new_v_id_def purge_chains_eq e Let_def)
    then have "n + 1 = 1" using nc_reach_spec(2) [OF r assms(2)] by simp
    then show False using e nc_reach_spec(2) [OF assms(1)] assms(2) by (simp add: unat_eq_0)
  qed
  note s = cache_purge_says [OF ids this]
  have ans: "r = nc_says d cnp (cache_purge vp st)" if "cache_lookup d cnp (cache_purge vp st) = Inr (r, c, st')" for d
    using cache_lookup_spec [OF nc_reach_spec(1) [OF r], of d cnp] that by (auto split: if_splits)
  show ?thesis using ans [of vp] ans [of dvp] s(1) [of vp cnp] s(2) [of dvp cnp vp] by metis
qed

text \<open>\<open>cache_purgevfs\<close> on a cache with no or several entries ends, and leaves a cache that answers every
  lookup in a directory of the file system with a miss and every other one as before.\<close>

theorem cache_purgevfs_correct:
  assumes "nc_reach n st" "length (nchhead st) \<noteq> 1"
  shows "\<exists>st'. cache_purgevfs mp st = Inr st' \<and> nc_ok st' \<and>
    (\<forall>dvp cnp. nc_says dvp cnp st' = (if v_mount st dvp = mp then Miss else nc_says dvp cnp st))"
proof -
  note ok = nc_reach_spec(1) [OF assms(1)]
  obtain st' where "cache_purgevfs mp st = Inr st'" "purged mp st st'" using cache_purgevfs_purged [OF ok assms(2)] by auto
  then show ?thesis using purged_says [OF ok] by (auto simp: purged_def)
qed

section \<open>A concrete cache\<close>

definition ex_nc0 :: ncstate where
  "ex_nc0 = \<lparr>nc_mem = \<lambda>_. nc_zero, nchashtbl = \<lambda>_. [], nchash = 0, numcache = 0, nchhead = [],
     stats = \<lparr>ncs_goodhits = 0, ncs_neghits = 0, ncs_badhits = 0, ncs_falsehits = 0, ncs_miss = 0, ncs_long = 0\<rparr>,
     doingcache = True, nextvnodeid = 0, desiredvnodes = 5, v_id = \<lambda>_. 0, v_mount = \<lambda>v. v div 10, nc_addr = 0\<rparr>"

definition ex_cnp :: "string \<Rightarrow> componentname" where
  "ex_cnp s = \<lparr>cn_nameiop = LOOKUP, cn_makeentry = True, cn_name = snd (name_hash s),
     cn_namelen = int (length (snd (name_hash s))), cn_hash = fst (name_hash s)\<rparr>"

definition ex_nc1 :: ncstate where
  "ex_nc1 = ex_nc0\<lparr>nchash := 3\<rparr>"

lemma ex_nc1_init: "nchinit ex_nc0 = Inr ex_nc1"
  by (simp add: nchinit_def hashinit_def ex_nc0_def ex_nc1_def hash_size.simps)

lemma ex_nc1_reach: "nc_reach 0 ex_nc1"
  by (rule nc_reach.boot [OF _ ex_nc1_init]) (simp add: nc_boot_def ex_nc0_def)

text \<open>Two names in directory 10, whose vnodes are 11 and none, and one in directory 20.\<close>

definition ex_enter :: "nat \<Rightarrow> nat option \<Rightarrow> string \<Rightarrow> ncstate \<Rightarrow> ncstate" where
  "ex_enter dvp vp s st = (case cache_enter dvp vp (ex_cnp s) st of Inr st \<Rightarrow> st | Inl _ \<Rightarrow> st)"

lemma ex_enter_reach: "nc_reach n st \<Longrightarrow> nc_reach n (ex_enter dvp vp s st)"
  by (auto simp: ex_enter_def intro: nc_reach.enter split: sum.split)

definition ex_nc2 :: ncstate where "ex_nc2 = ex_enter 10 (Some 11) ''bin'' ex_nc1"
definition ex_nc3 :: ncstate where "ex_nc3 = ex_enter 20 (Some 21) ''etc'' (ex_enter 10 None ''tmp'' ex_nc2)"

lemma ex_nc_reach: "nc_reach 0 ex_nc2" "nc_reach 0 ex_nc3"
  by (simp_all add: ex_nc2_def ex_nc3_def ex_enter_reach ex_nc1_reach)

lemma ex_cnps:
  "ex_cnp ''bin'' = \<lparr>cn_nameiop = LOOKUP, cn_makeentry = True, cn_name = ''bin'', cn_namelen = 3, cn_hash = 313\<rparr>"
  "ex_cnp ''bin/ls'' = ex_cnp ''bin''"
  "ex_cnp ''tmp'' = \<lparr>cn_nameiop = LOOKUP, cn_makeentry = True, cn_name = ''tmp'', cn_namelen = 3, cn_hash = 337\<rparr>"
  "ex_cnp ''etc'' = \<lparr>cn_nameiop = LOOKUP, cn_makeentry = True, cn_name = ''etc'', cn_namelen = 3, cn_hash = 316\<rparr>"
  "ex_cnp ''usr'' = \<lparr>cn_nameiop = LOOKUP, cn_makeentry = True, cn_name = ''usr'', cn_namelen = 3, cn_hash = 346\<rparr>"
  by (simp_all add: ex_cnp_def of_char_def)

lemma ex_bcopy: "length name = 3 \<Longrightarrow> bcopy name 0 (nc_name nc_zero) 0 3 = Inr (name @ replicate 28 (CHR 0x00))"
  by (simp add: bcopy_def nc_zero_def NCHNAMLEN_def)

lemmas ex_enter_simps = ex_enter_def cache_enter_def nc_slot_def nc_hash_in_def upd_entry_def ex_cnps ex_bcopy nc_chain_def
  ex_nc3_def ex_nc2_def ex_nc1_def ex_nc0_def

lemmas nc_says_simps = nc_says_def nc_find_def nc_match_def nc_drops_def NCHNAMLEN_def

text \<open>The cache right after the first name was entered, looked up to be deleted.\<close>

lemma ex_nc2_facts: "length (nchhead ex_nc2) = 1" "nc_says 10 (ex_cnp ''bin'') ex_nc2 = Found 11"
  "nc_drops 10 ((ex_cnp ''bin'')\<lparr>cn_makeentry := False, cn_nameiop := DELETE\<rparr>) ex_nc2"
  by (simp_all add: ex_enter_simps nc_says_simps)

lemma ex_nc3_facts: "length (nchhead ex_nc3) = 3" "nc_says 10 (ex_cnp ''bin/ls'') ex_nc3 = Found 11"
  "nc_says 10 (ex_cnp ''tmp'') ex_nc3 = Absent" "nc_says 20 (ex_cnp ''etc'') ex_nc3 = Found 21"
  "numcache ex_nc3 = 3" "doingcache ex_nc3" "desiredvnodes ex_nc3 = 5"
  "v_mount ex_nc3 10 = 1" "v_mount ex_nc3 20 = 2"
  by (simp_all add: ex_enter_simps nc_says_simps)

theorem nc_reach_ok_witness: "nc_ok ex_nc3 \<and> nc_ids ex_nc3 \<and> numcache ex_nc3 = 3"
  using nc_reach_ok [OF ex_nc_reach(2)] ex_nc3_facts(5) by simp

theorem cache_lookup_correct_witness:
  "cache_lookup 10 ((ex_cnp ''bin'')\<lparr>cn_makeentry := False, cn_nameiop := DELETE\<rparr>) ex_nc2 = Inl BadAccess
   \<and> (\<exists>c st'. cache_lookup 10 (ex_cnp ''bin'') ex_nc2 = Inr (Found 11, c, st'))"
  using cache_lookup_correct [OF ex_nc_reach(1), of 10 "(ex_cnp ''bin'')\<lparr>cn_makeentry := False, cn_nameiop := DELETE\<rparr>"]
    cache_lookup_correct [OF ex_nc_reach(1), of 10 "ex_cnp ''bin''"] ex_nc2_facts by (auto simp: nc_drops_def)

theorem cache_enter_lookup_witness:
  "\<exists>st' c st''. cache_enter 10 (Some 12) (ex_cnp ''usr'') ex_nc3 = Inr st'
    \<and> cache_lookup 10 ((ex_cnp ''usr'')\<lparr>cn_makeentry := True, cn_nameiop := LOOKUP\<rparr>) st' = Inr (Found 12, c, st'')"
  using cache_enter_lookup [OF ex_nc_reach(2), of "ex_cnp ''usr''" 10 "Some 12"] ex_nc3_facts
  by (simp add: NCHNAMLEN_def ex_cnps(5))

theorem cache_purge_hides_witness:
  "\<exists>r c st'. cache_lookup 10 (ex_cnp ''bin'') (cache_purge 11 ex_nc3) = Inr (r, c, st') \<and> r \<noteq> Found 11"
proof -
  have "isOK (cache_lookup 10 (ex_cnp ''bin'') (cache_purge 11 ex_nc3))"
    using cache_lookup_spec [OF nc_reach_spec(1) [OF nc_reach.purge [OF ex_nc_reach(2)]], of 10 "ex_cnp ''bin''" 11]
    by (auto simp: cache_purge_def new_v_id_def purge_chains_eq Let_def ex_nc3_facts(1) isOK_iff)
  then show ?thesis using cache_purge_hides [OF ex_nc_reach(2), of 11 "ex_cnp ''bin''" _ _ _ 10] by (auto simp: isOK_iff)
qed

theorem cache_purgevfs_correct_witness:
  "\<exists>st'. cache_purgevfs 1 ex_nc3 = Inr st' \<and> nc_says 10 (ex_cnp ''bin'') st' = Miss \<and> nc_says 20 (ex_cnp ''etc'') st' = Found 21"
  using cache_purgevfs_correct [OF ex_nc_reach(2), of 1] ex_nc3_facts by force

section \<open>Numbers that wrap around\<close>

lemma unat_add_nat:
  fixes w :: "32 word"
  assumes "unat w + k < 2 ^ 32"
  shows "unat (w + word_of_nat k) = unat w + k"
  using assms by (simp add: unat_word_ariths unat_of_nat)

text \<open>Purging one vnode again and again until the number wraps.\<close>

lemma cache_purge_pow:
  assumes "nc_reach n st" "unat (nextvnodeid st) + k < 2 ^ 32"
  shows "nc_reach (n + k) ((cache_purge a ^^ k) st)
    \<and> nextvnodeid ((cache_purge a ^^ k) st) = nextvnodeid st + word_of_nat k
    \<and> (\<forall>v. v \<noteq> a \<longrightarrow> v_id ((cache_purge a ^^ k) st) v = v_id st v)
    \<and> doingcache ((cache_purge a ^^ k) st) = doingcache st \<and> desiredvnodes ((cache_purge a ^^ k) st) = desiredvnodes st"
  using assms(2)
proof (induction k)
  case (Suc k)
  let ?s = "(cache_purge a ^^ k) st"
  have IH: "nc_reach (n + k) ?s" "nextvnodeid ?s = nextvnodeid st + word_of_nat k" "\<forall>v. v \<noteq> a \<longrightarrow> v_id ?s v = v_id st v"
    "doingcache ?s = doingcache st" "desiredvnodes ?s = desiredvnodes st" using Suc by auto
  have e: "nextvnodeid ?s + 1 = nextvnodeid st + word_of_nat (Suc k)" by (simp add: IH(2))
  have "unat (nextvnodeid ?s + 1) \<noteq> 0" unfolding e using unat_add_nat [of "nextvnodeid st" "Suc k"] Suc.prems by simp
  then have "nextvnodeid ?s + 1 \<noteq> 0" by auto
  then have "cache_purge a ?s = new_v_id a ?s" by (simp add: cache_purge_def new_v_id_def)
  then show ?case using IH nc_reach.purge [OF IH(1), of a] e by (simp add: new_v_id_def)
qed (use assms in simp)

text \<open>
  After the numbers have wrapped around a vnode can be given the number it had before: the names
  entered in between are still found after it has been purged.
\<close>

theorem cache_purge_wrap_keeps:
  "\<exists>n st. nc_reach n st \<and> nc_says 1 (ex_cnp ''bin'') st = Found 2 \<and> nc_says 1 (ex_cnp ''bin'') (cache_purge 1 st) = Found 2"
proof -
  define s1 where "s1 = cache_purge 1 (cache_purge 1 ex_nc1)"
  have s1: "nc_reach 2 s1" "nextvnodeid s1 = 2" "v_id s1 1 = 2" "doingcache s1" "desiredvnodes s1 = 5"
    using nc_reach.purge [OF nc_reach.purge [OF ex_nc1_reach, of 1], of 1]
    by (simp_all add: s1_def numeral_2_eq_2) (simp_all add: ex_nc1_def ex_nc0_def cache_purge_def new_v_id_def)
  define s2 where "s2 = (cache_purge 0 ^^ 4294967293) s1"
  have s2: "nc_reach 4294967295 s2" "nextvnodeid s2 = 4294967295" "v_id s2 1 = 2" "doingcache s2" "desiredvnodes s2 = 5"
    using cache_purge_pow [OF s1(1), of 4294967293 0] s1 by (simp_all add: s2_def)
  define s3 where "s3 = cache_purge 0 s2"
  have s3: "nc_reach 4294967296 s3" "nextvnodeid s3 = 1" "v_id s3 1 = 2" "doingcache s3" "desiredvnodes s3 = 5"
    using nc_reach.purge [OF s2(1), of 0] s2 by (simp_all add: s3_def cache_purge_def new_v_id_def purge_chains_eq Let_def)
  obtain st where st: "cache_enter 1 (Some 2) (ex_cnp ''bin'') s3 = Inr st"
    "nc_says 1 ((ex_cnp ''bin'')\<lparr>cn_makeentry := True, cn_nameiop := LOOKUP\<rparr>) st = Found 2"
    using cache_enter_says [OF nc_reach_spec(1) [OF s3(1)] s3(4), of "ex_cnp ''bin''" 1 "Some 2"] s3(5)
    by (auto simp: ex_cnps NCHNAMLEN_def)
  have r: "nc_reach 4294967296 st" by (rule nc_reach.enter [OF s3(1) st(1)])
  have v: "nextvnodeid st = 1 \<and> v_id st 1 = 2"
    using cache_enter_eq [OF st(1)] nc_slot_ok [OF nc_reach_spec(1) [OF s3(1)]] s3 by (auto simp: nc_hash_in_def)
  have "cache_purge 1 st = st\<lparr>nextvnodeid := 2\<rparr>"
    using v by (simp add: cache_purge_def new_v_id_def fun_upd_idem)
  then have "nc_says 1 c (cache_purge 1 st) = nc_says 1 c st" for c
    by (simp add: nc_says_def nc_find_def nc_chain_def split: option.split)
  then show ?thesis using r st(2) by (intro exI [of _ 4294967296] exI [of _ st]) (simp add: ex_cnps)
qed

end
