(* ===== verification/Proc.thy ===== *)
theory Proc
  imports Prelude
begin

text \<open>
  Processes, process groups and sessions: \<open>sys/sys/proc.h\<close> and \<open>sys/kern/kern_proc.c\<close>.
  Structures have addresses, 0 is the null pointer; the memory of each kind is a function and
  an address returned by \<open>MALLOC\<close> is an argument of the routine that calls it. The chains that
  run through the structures (\<open>p_nxt\<close>, \<open>p_hash\<close>, \<open>p_pgrpnxt\<close>, \<open>p_osptr\<close>, \<open>pg_hforw\<close>,
  \<open>ui_next\<close>) are the lists of addresses that start at their heads.
\<close>

unbundle bit_operations_syntax

section \<open>Data\<close>

type_synonym addr = nat

datatype pstat = SSLEEP | SWAIT | SRUN | SIDL | SZOMB | SSTOP

datatype pflag = SLOAD | SSYS | SCTTY | SPPWAIT | SEXEC | SWEXIT | STRC | SWTED | SUGID

datatype acflag = AFORK | ASU | ACOMPAT | ACORE | AXSIG

record ucred =
  cr_ref :: int
  cr_uid :: int
  cr_ngroups :: int
  cr_groups :: "int list"

record pcred =
  pc_ucred :: addr
  p_ruid :: int
  p_svuid :: int
  p_rgid :: int
  p_svgid :: int
  p_refcnt :: int

text \<open>\<open>p_cptr\<close> are the children of a process, the youngest first; its \<open>struct pcred\<close> is not
  shared and is a field.\<close>

record proc =
  p_pid :: int
  p_stat :: pstat
  p_flag :: "pflag set"
  p_pptr :: addr
  p_cptr :: "addr list"
  p_pgrp :: addr
  p_oppid :: int
  p_xstat :: int
  p_acflag :: "acflag set"
  p_cred :: pcred

record pgrp =
  pg_mem :: "addr list"
  pg_session :: addr
  pg_id :: int
  pg_jobc :: int

record session =
  s_count :: int
  s_leader :: addr
  s_ttyvp :: addr
  s_ttyp :: addr
  s_login :: string

record ptty =
  t_pgrp :: addr
  t_session :: addr

datatype psig = SIGHUP | SIGCONT | SIGCHLD | SIGKILL | SIGSTOP | SIGALRM | SIGVTALRM | SIGPROF

text \<open>What a routine causes outside the modelled state: signals, wakeups and, when a
  controlling process exits, the calls that drain and revoke its terminal.\<close>

datatype pevent =
  Psignal addr psig | Pgsignal addr psig | Wakeup addr
| Ttywait addr | Vgoneall addr | Vrele addr | Tablefull

text \<open>\<open>selive\<close> and \<open>crlive\<close> are the sessions and credentials that have been allocated and not
  freed.\<close>

record pstate =
  pmem :: "addr \<Rightarrow> proc"
  allproc :: "addr list"
  zombproc :: "addr list"
  pidhash :: "int \<Rightarrow> addr list"
  pgmem :: "addr \<Rightarrow> pgrp"
  pgrphash :: "int \<Rightarrow> addr list"
  semem :: "addr \<Rightarrow> session"
  selive :: "addr list"
  ttmem :: "addr \<Rightarrow> ptty"
  crmem :: "addr \<Rightarrow> ucred"
  crlive :: "addr list"
  uihashtbl :: "int \<Rightarrow> (int \<times> int) list"
  uihash :: int
  pidhashmask :: int
  nextpid :: int
  pidchecked :: int
  nprocs :: int
  maxproc :: int
  curproc :: addr
  initproc :: addr
  pevents :: "pevent list"

definition upd_proc :: "addr \<Rightarrow> (proc \<Rightarrow> proc) \<Rightarrow> pstate \<Rightarrow> pstate" where
  "upd_proc a f st = st\<lparr>pmem := (pmem st)(a := f (pmem st a))\<rparr>"

definition upd_pgrp :: "addr \<Rightarrow> (pgrp \<Rightarrow> pgrp) \<Rightarrow> pstate \<Rightarrow> pstate" where
  "upd_pgrp a f st = st\<lparr>pgmem := (pgmem st)(a := f (pgmem st a))\<rparr>"

definition upd_sess :: "addr \<Rightarrow> (session \<Rightarrow> session) \<Rightarrow> pstate \<Rightarrow> pstate" where
  "upd_sess a f st = st\<lparr>semem := (semem st)(a := f (semem st a))\<rparr>"

definition upd_cred :: "addr \<Rightarrow> (ucred \<Rightarrow> ucred) \<Rightarrow> pstate \<Rightarrow> pstate" where
  "upd_cred a f st = st\<lparr>crmem := (crmem st)(a := f (crmem st a))\<rparr>"

definition raise_event :: "pevent \<Rightarrow> pstate \<Rightarrow> pstate" where
  "raise_event e st = st\<lparr>pevents := pevents st @ [e]\<rparr>"

text \<open>\<open>p_session\<close> and \<open>p_pgid\<close>; a \<open>pid_t\<close> is a \<open>short\<close>.\<close>

definition p_session :: "pstate \<Rightarrow> addr \<Rightarrow> addr" where
  "p_session st p = pg_session (pgmem st (p_pgrp (pmem st p)))"

definition p_pgid :: "pstate \<Rightarrow> addr \<Rightarrow> int" where
  "p_pgid st p = pg_id (pgmem st (p_pgrp (pmem st p)))"

definition SESS_LEADER :: "pstate \<Rightarrow> addr \<Rightarrow> bool" where
  "SESS_LEADER st p \<longleftrightarrow> s_leader (semem st (p_session st p)) = p"

definition pid_t :: "int \<Rightarrow> int" where "pid_t i = (i + 32768) mod 65536 - 32768"

definition PID_MAX :: int where "PID_MAX = 30000"

definition PIDHASH :: "pstate \<Rightarrow> int \<Rightarrow> int" where "PIDHASH st pid = pid AND pidhashmask st"

definition UIHASH :: "pstate \<Rightarrow> int \<Rightarrow> int" where "UIHASH st uid = uid AND uihash st"

section \<open>Processes of a user\<close>

text \<open>The loop over a chain of \<open>uidinfo\<close> and what becomes of the entry found.\<close>

fun ui_count :: "(int \<times> int) list \<Rightarrow> int \<Rightarrow> int option" where
  "ui_count [] uid = None"
| "ui_count ((u, n) # c) uid = (if u = uid then Some n else ui_count c uid)"

fun ui_set :: "(int \<times> int) list \<Rightarrow> int \<Rightarrow> int \<Rightarrow> (int \<times> int) list" where
  "ui_set [] uid n = []"
| "ui_set ((u, m) # c) uid n = (if u = uid then (u, n) # c else (u, m) # ui_set c uid n)"

fun ui_delete :: "(int \<times> int) list \<Rightarrow> int \<Rightarrow> (int \<times> int) list" where
  "ui_delete [] uid = []"
| "ui_delete ((u, m) # c) uid = (if u = uid then c else (u, m) # ui_delete c uid)"

definition set_chain :: "int \<Rightarrow> (int \<times> int) list \<Rightarrow> pstate \<Rightarrow> pstate" where
  "set_chain uid c st = st\<lparr>uihashtbl := (uihashtbl st)(UIHASH st uid := c)\<rparr>"

definition chgproccnt :: "int \<Rightarrow> int \<Rightarrow> pstate \<Rightarrow> (pstate \<times> int) kres" where
  "chgproccnt uid diff st =
     (let c = uihashtbl st (UIHASH st uid)
      in case ui_count c uid of
           Some n \<Rightarrow>
             if 0 < n + diff then Inr (set_chain uid (ui_set c uid (n + diff)) st, n + diff)
             else if n + diff < 0 then Inl (Panic ''chgproccnt: procs < 0'')
             else Inr (set_chain uid (ui_delete c uid) st, 0)
         | None \<Rightarrow>
             if diff \<le> 0 then if diff = 0 then Inr (st, 0) else Inl (Panic ''chgproccnt: lost user'')
             else Inr (set_chain uid ((uid, diff) # c) st, diff))"

section \<open>Finding processes and groups\<close>

text \<open>The loop of \<open>inferior\<close> may not end: then it has no value.\<close>

partial_function (option) inferior :: "pstate \<Rightarrow> addr \<Rightarrow> bool option" where
  "inferior st p =
     (if p = curproc st then Some True
      else if p_pid (pmem st p) = 0 then Some False
      else inferior st (p_pptr (pmem st p)))"

definition pfind :: "pstate \<Rightarrow> int \<Rightarrow> addr option" where
  "pfind st pid = List.find (\<lambda>p. p_pid (pmem st p) = pid) (pidhash st (PIDHASH st pid))"

definition pgfind :: "pstate \<Rightarrow> int \<Rightarrow> addr option" where
  "pgfind st i =
     (let pgid = pid_t i in List.find (\<lambda>g. pg_id (pgmem st g) = pgid) (pgrphash st (PIDHASH st pgid)))"

section \<open>Job control\<close>

definition orphanpg :: "addr \<Rightarrow> pstate \<Rightarrow> pstate" where
  "orphanpg pg st =
     (if list_ex (\<lambda>p. p_stat (pmem st p) = SSTOP) (pg_mem (pgmem st pg))
      then st\<lparr>pevents := pevents st @ concat (map (\<lambda>p. [Psignal p SIGHUP, Psignal p SIGCONT]) (pg_mem (pgmem st pg)))\<rparr>
      else st)"

definition adj_jobc :: "bool \<Rightarrow> addr \<Rightarrow> pstate \<Rightarrow> pstate" where
  "adj_jobc entering pg st =
     (if entering then upd_pgrp pg (\<lambda>g. g\<lparr>pg_jobc := pg_jobc g + 1\<rparr>) st
      else
        let st = upd_pgrp pg (\<lambda>g. g\<lparr>pg_jobc := pg_jobc g - 1\<rparr>) st
        in if pg_jobc (pgmem st pg) = 0 then orphanpg pg st else st)"

fun fixjobc_children :: "addr list \<Rightarrow> addr \<Rightarrow> addr \<Rightarrow> bool \<Rightarrow> pstate \<Rightarrow> pstate" where
  "fixjobc_children [] pgrp mysession entering st = st"
| "fixjobc_children (p # ps) pgrp mysession entering st =
     (let hispgrp = p_pgrp (pmem st p);
          st = (if hispgrp \<noteq> pgrp \<and> pg_session (pgmem st hispgrp) = mysession \<and> p_stat (pmem st p) \<noteq> SZOMB
                then adj_jobc entering hispgrp st else st)
      in fixjobc_children ps pgrp mysession entering st)"

definition fixjobc :: "addr \<Rightarrow> addr \<Rightarrow> bool \<Rightarrow> pstate \<Rightarrow> pstate" where
  "fixjobc p pgrp entering st =
     (let mysession = pg_session (pgmem st pgrp);
          hispgrp = p_pgrp (pmem st (p_pptr (pmem st p)));
          st = (if hispgrp \<noteq> pgrp \<and> pg_session (pgmem st hispgrp) = mysession
                then adj_jobc entering pgrp st else st)
      in fixjobc_children (p_cptr (pmem st p)) pgrp mysession entering st)"

section \<open>Entering and leaving groups\<close>

definition pgdelete :: "addr \<Rightarrow> pstate \<Rightarrow> pstate kres" where
  "pgdelete pgrp st =
     (let s = pg_session (pgmem st pgrp); tp = s_ttyp (semem st s); k = PIDHASH st (pg_id (pgmem st pgrp));
          st = (if tp \<noteq> 0 \<and> t_pgrp (ttmem st tp) = pgrp
                then st\<lparr>ttmem := (ttmem st)(tp := (ttmem st tp)\<lparr>t_pgrp := 0\<rparr>)\<rparr> else st)
      in if pgrp \<notin> set (pgrphash st k) then Inl (Panic ''pgdelete: can't find pgrp on hash chain'')
         else
           let st = st\<lparr>pgrphash := (pgrphash st)(k := remove1 pgrp (pgrphash st k))\<rparr>;
               st = upd_sess s (\<lambda>s. s\<lparr>s_count := s_count s - 1\<rparr>) st
           in Inr (if s_count (semem st s) = 0 then st\<lparr>selive := remove1 s (selive st)\<rparr> else st))"

text \<open>Unlinking a process from its group, and deleting the group when it is empty.\<close>

definition pg_unlink :: "string \<Rightarrow> addr \<Rightarrow> pstate \<Rightarrow> pstate kres" where
  "pg_unlink msg p st =
     (let old = p_pgrp (pmem st p)
      in if p \<notin> set (pg_mem (pgmem st old)) then Inl (Panic msg)
         else
           let st = upd_pgrp old (\<lambda>g. g\<lparr>pg_mem := remove1 p (pg_mem g)\<rparr>) st
           in if pg_mem (pgmem st old) = [] then pgdelete old st else Inr st)"

definition leavepgrp :: "addr \<Rightarrow> pstate \<Rightarrow> pstate kres" where
  "leavepgrp p st =
     bindE (pg_unlink ''leavepgrp: can't find p in pgrp'' p st)
       (\<lambda>st. Inr (upd_proc p (\<lambda>p. p\<lparr>p_pgrp := 0\<rparr>) st))"

definition new_session :: "addr \<Rightarrow> addr \<Rightarrow> pstate \<Rightarrow> pstate" where
  "new_session p sess st =
     (let st = upd_sess sess (\<lambda>s. \<lparr>s_count = 1, s_leader = p, s_ttyvp = 0, s_ttyp = 0,
                                  s_login = s_login (semem st (p_session st p))\<rparr>) st
      in upd_proc p (\<lambda>p. p\<lparr>p_flag := p_flag p - {SCTTY}\<rparr>) (st\<lparr>selive := sess # selive st\<rparr>))"

definition new_pgrp :: "addr \<Rightarrow> int \<Rightarrow> bool \<Rightarrow> addr \<Rightarrow> addr \<Rightarrow> pstate \<Rightarrow> pstate" where
  "new_pgrp p pgid mksess pgrp sess st =
     (let s = (if mksess then sess else p_session st p);
          st = (if mksess then new_session p sess st else upd_sess s (\<lambda>s. s\<lparr>s_count := s_count s + 1\<rparr>) st);
          n = PIDHASH st pgid
      in st\<lparr>pgmem := (pgmem st)(pgrp := \<lparr>pg_mem = [], pg_session = s, pg_id = pgid, pg_jobc = 0\<rparr>),
            pgrphash := (pgrphash st)(n := pgrp # pgrphash st n)\<rparr>)"

text \<open>From the comment on eligibility on.\<close>

definition move_pgrp :: "addr \<Rightarrow> addr \<Rightarrow> pstate \<Rightarrow> pstate kres" where
  "move_pgrp p pgrp st =
     (let st = fixjobc p pgrp True st;
          st = fixjobc p (p_pgrp (pmem st p)) False st
      in bindE (pg_unlink ''enterpgrp: can't find p on old pgrp'' p st)
           (\<lambda>st. Inr (upd_pgrp pgrp (\<lambda>g. g\<lparr>pg_mem := p # pg_mem g\<rparr>) (upd_proc p (\<lambda>p. p\<lparr>p_pgrp := pgrp\<rparr>) st))))"

text \<open>The panics are those of a \<open>DIAGNOSTIC\<close> kernel. \<open>npg\<close> and \<open>nse\<close> are the addresses allocated.\<close>

definition enterpgrp :: "addr \<Rightarrow> int \<Rightarrow> bool \<Rightarrow> addr \<Rightarrow> addr \<Rightarrow> pstate \<Rightarrow> pstate kres" where
  "enterpgrp p i mksess npg nse st =
     (let pgid = pid_t i
      in if pgfind st pgid \<noteq> None \<and> mksess then Inl (Panic ''enterpgrp: setsid into non-empty pgrp'')
         else if SESS_LEADER st p then Inl (Panic ''enterpgrp: session leader attempted setpgrp'')
         else
           case pgfind st pgid of
             None \<Rightarrow>
               if p_pid (pmem st p) \<noteq> pgid then Inl (Panic ''enterpgrp: new pgrp and pid != pgid'')
               else if mksess \<and> p \<noteq> curproc st then Inl (Panic ''enterpgrp: mksession and p != curproc'')
               else move_pgrp p npg (new_pgrp p pgid mksess npg nse st)
           | Some pgrp \<Rightarrow> if pgrp = p_pgrp (pmem st p) then Inr st else move_pgrp p pgrp st)"

end
