(* ===== verification/Cred.thy ===== *)
theory Cred
  imports Proc
begin

text \<open>
  Credentials and the system calls on identifiers, \<open>sys/sys/ucred.h\<close> and
  \<open>sys/kern/kern_prot.c\<close>. The calls are those of a kernel with \<open>COMPAT_43\<close>; the second value
  that some of them return is the second element of the list. The outcome of \<open>copyin\<close>,
  \<open>copyout\<close> and \<open>copyinstr\<close> is an argument: the error, if any, and the data copied.
\<close>

section \<open>Credentials\<close>

definition NGROUPS :: int where "NGROUPS = 16"
definition MAXLOGNAME :: nat where "MAXLOGNAME = 12"

definition cr_ushort :: "int \<Rightarrow> int" where "cr_ushort i = i mod 65536"

text \<open>\<open>ncr\<close> is the address \<open>MALLOC\<close> returns.\<close>

definition crget :: "addr \<Rightarrow> pstate \<Rightarrow> pstate" where
  "crget ncr st = st\<lparr>crmem := (crmem st)(ncr := \<lparr>cr_ref = 1, cr_uid = 0, cr_ngroups = 0, cr_groups = replicate (nat NGROUPS) 0\<rparr>),
                     crlive := ncr # crlive st\<rparr>"

definition crhold :: "addr \<Rightarrow> pstate \<Rightarrow> pstate" where
  "crhold cr = upd_cred cr (\<lambda>c. c\<lparr>cr_ref := cr_ushort (cr_ref c + 1)\<rparr>)"

definition crfree :: "addr \<Rightarrow> pstate \<Rightarrow> pstate" where
  "crfree cr st =
     (let st = upd_cred cr (\<lambda>c. c\<lparr>cr_ref := cr_ushort (cr_ref c - 1)\<rparr>) st
      in if cr_ref (crmem st cr) \<noteq> 0 then st else st\<lparr>crlive := remove1 cr (crlive st)\<rparr>)"

definition crcopy :: "addr \<Rightarrow> addr \<Rightarrow> pstate \<Rightarrow> addr \<times> pstate" where
  "crcopy cr ncr st =
     (if cr_ref (crmem st cr) = 1 then (cr, st)
      else
        let st = crget ncr st;
            st = upd_cred ncr (\<lambda>_. crmem st cr) st;
            st = crfree cr st
        in (ncr, upd_cred ncr (\<lambda>c. c\<lparr>cr_ref := 1\<rparr>) st))"

definition crdup :: "addr \<Rightarrow> addr \<Rightarrow> pstate \<Rightarrow> addr \<times> pstate" where
  "crdup cr ncr st =
     (let st = crget ncr st;
          st = upd_cred ncr (\<lambda>_. crmem st cr) st
      in (ncr, upd_cred ncr (\<lambda>c. c\<lparr>cr_ref := 1\<rparr>) st))"

fun groups_loop :: "int \<Rightarrow> int list \<Rightarrow> int \<Rightarrow> bool" where
  "groups_loop gid [] n = False"
| "groups_loop gid (g # gs) n = (if n \<le> 0 then False else if g = gid then True else groups_loop gid gs (n - 1))"

definition groupmember :: "int \<Rightarrow> ucred \<Rightarrow> bool" where
  "groupmember gid cred = groups_loop gid (cr_groups cred) (cr_ngroups cred)"

text \<open>\<open>acflag\<close> is the process whose flags are passed, if any.\<close>

definition suser :: "addr \<Rightarrow> addr option \<Rightarrow> pstate \<Rightarrow> errno option \<times> pstate" where
  "suser cred acflag st =
     (if cr_uid (crmem st cred) = 0
      then (None, case acflag of None \<Rightarrow> st | Some p \<Rightarrow> upd_proc p (\<lambda>p. p\<lparr>p_acflag := p_acflag p \<union> {ASU}\<rparr>) st)
      else (Some EPERM, st))"

section \<open>Identifiers of a process\<close>

definition p_ucred :: "pstate \<Rightarrow> addr \<Rightarrow> addr" where
  "p_ucred st p = pc_ucred (p_cred (pmem st p))"

definition getpid :: "pstate \<Rightarrow> addr \<Rightarrow> int list" where
  "getpid st p = [p_pid (pmem st p), p_pid (pmem st (p_pptr (pmem st p)))]"

definition getppid :: "pstate \<Rightarrow> addr \<Rightarrow> int list" where
  "getppid st p = [p_pid (pmem st (p_pptr (pmem st p)))]"

definition getpgrp :: "pstate \<Rightarrow> addr \<Rightarrow> int list" where
  "getpgrp st p = [p_pgid st p]"

definition getuid :: "pstate \<Rightarrow> addr \<Rightarrow> int list" where
  "getuid st p = [p_ruid (p_cred (pmem st p)), cr_uid (crmem st (p_ucred st p))]"

definition geteuid :: "pstate \<Rightarrow> addr \<Rightarrow> int list" where
  "geteuid st p = [cr_uid (crmem st (p_ucred st p))]"

definition getgid :: "pstate \<Rightarrow> addr \<Rightarrow> int list" where
  "getgid st p = [p_rgid (p_cred (pmem st p)), cr_groups (crmem st (p_ucred st p)) ! 0]"

definition getegid :: "pstate \<Rightarrow> addr \<Rightarrow> int list" where
  "getegid st p = [cr_groups (crmem st (p_ucred st p)) ! 0]"

text \<open>\<open>Inr (n, gs)\<close> is the value returned and the groups copied out.\<close>

definition getgroups :: "pstate \<Rightarrow> addr \<Rightarrow> int \<Rightarrow> errno option \<Rightarrow> errno + int \<times> int list" where
  "getgroups st p gidsetsize copyout =
     (let cr = crmem st (p_ucred st p)
      in if gidsetsize = 0 then Inr (cr_ngroups cr, [])
         else if gidsetsize < cr_ngroups cr then Inl EINVAL
         else case copyout of
                Some e \<Rightarrow> Inl e
              | None \<Rightarrow> Inr (cr_ngroups cr, take (nat (cr_ngroups cr)) (cr_groups cr)))"

section \<open>Changing identifiers\<close>

definition upd_pcred :: "addr \<Rightarrow> (pcred \<Rightarrow> pcred) \<Rightarrow> pstate \<Rightarrow> pstate" where
  "upd_pcred p f = upd_proc p (\<lambda>q. q\<lparr>p_cred := f (p_cred q)\<rparr>)"

definition set_sugid :: "addr \<Rightarrow> pstate \<Rightarrow> pstate" where
  "set_sugid p = upd_proc p (\<lambda>q. q\<lparr>p_flag := p_flag q \<union> {SUGID}\<rparr>)"

text \<open>\<open>pc->pc_ucred = crcopy(pc->pc_ucred)\<close> and an assignment to a field of the copy.\<close>

definition own_cred :: "addr \<Rightarrow> addr \<Rightarrow> (ucred \<Rightarrow> ucred) \<Rightarrow> pstate \<Rightarrow> pstate" where
  "own_cred p ncr f st =
     (let (cr, st) = crcopy (p_ucred st p) ncr st
      in upd_cred cr f (upd_pcred p (\<lambda>c. c\<lparr>pc_ucred := cr\<rparr>) st))"

definition setuid :: "addr \<Rightarrow> int \<Rightarrow> addr \<Rightarrow> pstate \<Rightarrow> (pstate \<times> errno option) kres" where
  "setuid p uid ncr st =
     (let (error, st) = (if uid \<noteq> p_ruid (p_cred (pmem st p)) then suser (p_ucred st p) (Some p) st else (None, st))
      in if error \<noteq> None then Inr (st, error)
         else
           bindE (chgproccnt (p_ruid (p_cred (pmem st p))) (- 1) st) (\<lambda>(st, _).
           bindE (chgproccnt uid 1 st) (\<lambda>(st, _).
             let st = own_cred p ncr (\<lambda>c. c\<lparr>cr_uid := uid\<rparr>) st;
                 st = upd_pcred p (\<lambda>c. c\<lparr>p_ruid := uid, p_svuid := uid\<rparr>) st
             in Inr (set_sugid p st, None))))"

definition seteuid :: "addr \<Rightarrow> int \<Rightarrow> addr \<Rightarrow> pstate \<Rightarrow> pstate \<times> errno option" where
  "seteuid p euid ncr st =
     (let pc = p_cred (pmem st p);
          (error, st) = (if euid \<noteq> p_ruid pc \<and> euid \<noteq> p_svuid pc then suser (p_ucred st p) (Some p) st else (None, st))
      in if error \<noteq> None then (st, error)
         else (set_sugid p (own_cred p ncr (\<lambda>c. c\<lparr>cr_uid := euid\<rparr>) st), None))"

definition setgid :: "addr \<Rightarrow> int \<Rightarrow> addr \<Rightarrow> pstate \<Rightarrow> pstate \<times> errno option" where
  "setgid p gid ncr st =
     (let (error, st) = (if gid \<noteq> p_rgid (p_cred (pmem st p)) then suser (p_ucred st p) (Some p) st else (None, st))
      in if error \<noteq> None then (st, error)
         else
           let st = own_cred p ncr (\<lambda>c. c\<lparr>cr_groups := (cr_groups c)[0 := gid]\<rparr>) st
           in (set_sugid p (upd_pcred p (\<lambda>c. c\<lparr>p_rgid := gid, p_svgid := gid\<rparr>) st), None))"

definition setegid :: "addr \<Rightarrow> int \<Rightarrow> addr \<Rightarrow> pstate \<Rightarrow> pstate \<times> errno option" where
  "setegid p egid ncr st =
     (let pc = p_cred (pmem st p);
          (error, st) = (if egid \<noteq> p_rgid pc \<and> egid \<noteq> p_svgid pc then suser (p_ucred st p) (Some p) st else (None, st))
      in if error \<noteq> None then (st, error)
         else (set_sugid p (own_cred p ncr (\<lambda>c. c\<lparr>cr_groups := (cr_groups c)[0 := egid]\<rparr>) st), None))"

text \<open>The groups copied in before an error are in the credentials already.\<close>

definition setgroups :: "addr \<Rightarrow> int \<Rightarrow> errno option \<times> int list \<Rightarrow> addr \<Rightarrow> pstate \<Rightarrow> pstate \<times> errno option" where
  "setgroups p gidsetsize copyin ncr st =
     (let (error, st) = suser (p_ucred st p) (Some p) st
      in if error \<noteq> None then (st, error)
         else if NGROUPS < gidsetsize then (st, Some EINVAL)
         else
           let (error, gs) = copyin;
               st = own_cred p ncr (\<lambda>c. c\<lparr>cr_groups := gs @ drop (length gs) (cr_groups c)\<rparr>) st
           in if error \<noteq> None then (st, error)
              else (set_sugid p (upd_cred (p_ucred st p) (\<lambda>c. c\<lparr>cr_ngroups := gidsetsize\<rparr>) st), None))"

definition osetreuid :: "addr \<Rightarrow> int \<Rightarrow> int \<Rightarrow> addr \<Rightarrow> pstate \<Rightarrow> pstate \<times> errno option" where
  "osetreuid p ruid euid ncr st =
     (let pc = p_cred (pmem st p)
      in if ruid \<noteq> - 1 \<and> u_int ruid \<noteq> p_ruid pc \<and> u_int ruid \<noteq> p_svuid pc then (st, Some EPERM)
         else if euid = - 1 then (st, None)
         else seteuid p (u_int euid) ncr st)"

definition osetregid :: "addr \<Rightarrow> int \<Rightarrow> int \<Rightarrow> addr \<Rightarrow> pstate \<Rightarrow> pstate \<times> errno option" where
  "osetregid p rgid egid ncr st =
     (let pc = p_cred (pmem st p)
      in if rgid \<noteq> - 1 \<and> u_int rgid \<noteq> p_rgid pc \<and> u_int rgid \<noteq> p_svgid pc then (st, Some EPERM)
         else if egid = - 1 then (st, None)
         else setegid p (u_int egid) ncr st)"

section \<open>Login names\<close>

definition getlogin :: "pstate \<Rightarrow> addr \<Rightarrow> int \<Rightarrow> errno option \<Rightarrow> errno + string" where
  "getlogin st p namelen copyout =
     (let name = s_login (semem st (p_session st p));
          namelen = (if int MAXLOGNAME < namelen then int MAXLOGNAME else namelen)
      in case copyout of Some e \<Rightarrow> Inl e | None \<Rightarrow> Inr (take (nat namelen) name))"

definition setlogin :: "addr \<Rightarrow> errno option \<times> string \<Rightarrow> pstate \<Rightarrow> pstate \<times> errno option" where
  "setlogin p copyinstr st =
     (let (error, st) = suser (p_ucred st p) (Some p) st
      in if error \<noteq> None then (st, error)
         else
           let (error, name) = copyinstr;
               st = upd_sess (p_session st p) (\<lambda>s. s\<lparr>s_login := name @ drop (length name) (s_login s)\<rparr>) st
           in (st, if error = Some ENAMETOOLONG then Some EINVAL else error))"

end
