(* ===== verification/Proc_Sys.thy ===== *)
theory Proc_Sys
  imports Cred
begin

text \<open>
  The system calls that create, end and regroup processes: \<open>kern_fork.c\<close>, \<open>kern_exit.c\<close>,
  \<open>setsid\<close> and \<open>setpgid\<close> of \<open>kern_prot.c\<close>, and \<open>ptrace\<close> of \<open>sys_process.c\<close> as far as it changes
  parents. Of \<open>fork\<close>, \<open>exit\<close> and \<open>wait\<close> the models have the bookkeeping of processes, groups,
  users and credentials; descriptors, memory, limits, accounting and profiling are left out.
\<close>

section \<open>An unused process number\<close>

text \<open>The inner loop: \<open>nextpid\<close> goes up while it is the number of the process or of its group.
  The second value tells that \<open>pidchecked\<close> has been reached.\<close>

function pid_bump :: "int \<Rightarrow> int \<Rightarrow> int \<Rightarrow> int \<Rightarrow> int \<times> bool" where
  "pid_bump pid pgid npid checked =
     (if pid = npid \<or> pgid = npid then
        if checked \<le> npid + 1 then (npid + 1, True) else pid_bump pid pgid (npid + 1) checked
      else (npid, False))"
  by pat_completeness auto
termination by (relation "measure (\<lambda>(pid, pgid, npid, checked). nat (checked - npid))") auto

declare pid_bump.simps [simp del]

text \<open>The scan of all processes; the last value tells that it has to be repeated.\<close>

fun pid_scan :: "(int \<times> int) list \<Rightarrow> int \<Rightarrow> int \<Rightarrow> int \<times> int \<times> bool" where
  "pid_scan [] npid checked = (npid, checked, False)"
| "pid_scan ((pid, pgid) # ps) npid checked =
     (let (npid, retry) = pid_bump pid pgid npid checked
      in if retry then (npid, checked, True)
         else
           let checked = (if npid < pid \<and> pid < checked then pid else checked);
               checked = (if npid < pgid \<and> pgid < checked then pgid else checked)
           in pid_scan ps npid checked)"

partial_function (option) pid_search :: "(int \<times> int) list \<Rightarrow> int \<Rightarrow> int \<Rightarrow> (int \<times> int) option" where
  "pid_search ps npid checked =
     (let (npid, checked) = (if PID_MAX \<le> npid then (100, 0) else (npid, checked))
      in if checked \<le> npid then
           (case pid_scan ps npid PID_MAX of (npid, checked, retry) \<Rightarrow>
              if retry then pid_search ps npid checked else Some (npid, checked))
         else Some (npid, checked))"

text \<open>The numbers in use, in the order of the lists of active processes and of zombies.\<close>

definition pids_used :: "pstate \<Rightarrow> (int \<times> int) list" where
  "pids_used st = map (\<lambda>p. (p_pid (pmem st p), p_pgid st p)) (allproc st @ zombproc st)"

section \<open>Fork\<close>

text \<open>The child as it is linked into the lists, the hash table, its group and its family.\<close>

definition fork_child :: "addr \<Rightarrow> addr \<Rightarrow> int \<Rightarrow> bool \<Rightarrow> pstate \<Rightarrow> proc" where
  "fork_child p1 p2 pid isvfork st =
     (let p = pmem st p1; s = semem st (p_session st p1)
      in \<lparr>p_pid = pid, p_stat = SIDL,
          p_flag = {SLOAD} \<union> (if s_ttyvp s \<noteq> 0 \<and> SCTTY \<in> p_flag p then {SCTTY} else {}) \<union> (if isvfork then {SPPWAIT} else {}),
          p_pptr = p1, p_cptr = [], p_pgrp = p_pgrp p, p_oppid = 0, p_xstat = p_xstat (pmem st p2), p_acflag = {},
          p_cred = (p_cred p)\<lparr>p_refcnt := 1\<rparr>\<rparr>)"

fun insert_behind :: "addr \<Rightarrow> addr \<Rightarrow> addr list \<Rightarrow> addr list" where
  "insert_behind p q [] = []"
| "insert_behind p q (x # xs) = (if x = p then x # q # xs else x # insert_behind p q xs)"

definition fork_link :: "addr \<Rightarrow> addr \<Rightarrow> int \<Rightarrow> bool \<Rightarrow> pstate \<Rightarrow> pstate" where
  "fork_link p1 p2 pid isvfork st =
     (let child = fork_child p1 p2 pid isvfork st; h = PIDHASH st pid;
          st = st\<lparr>nprocs := nprocs st + 1, allproc := p2 # allproc st,
                 pidhash := (pidhash st)(h := p2 # pidhash st h)\<rparr>;
          st = crhold (p_ucred st p1) (upd_proc p2 (\<lambda>_. child) st);
          st = upd_pgrp (p_pgrp (pmem st p1)) (\<lambda>g. g\<lparr>pg_mem := insert_behind p1 p2 (pg_mem g)\<rparr>) st;
          st = upd_proc p1 (\<lambda>p. p\<lparr>p_cptr := p2 # p_cptr p\<rparr>) st
      in upd_proc p2 (\<lambda>p. p\<lparr>p_stat := SRUN, p_acflag := {AFORK}\<rparr>) st)"

text \<open>\<open>p2\<close> is the address allocated, \<open>rlim\<close> the limit \<open>RLIMIT_NPROC\<close> of the parent; the value is the
  number of the child or \<open>EAGAIN\<close>. A parent that has to wait for its child to exec or exit
  does so after that.\<close>

definition fork1 :: "addr \<Rightarrow> bool \<Rightarrow> int \<Rightarrow> addr \<Rightarrow> pstate \<Rightarrow> (pstate \<times> (errno + int)) kres" where
  "fork1 p1 isvfork rlim p2 st =
     (let uid = p_ruid (p_cred (pmem st p1))
      in if maxproc st \<le> nprocs st \<or> uid = 0 \<and> maxproc st + 1 \<le> nprocs st
         then Inr (raise_event Tablefull st, Inl EAGAIN)
         else
           bindE (chgproccnt uid 1 st) (\<lambda>(st, count).
             if uid \<noteq> 0 \<and> rlim < count
             then bindE (chgproccnt uid (- 1) st) (\<lambda>(st, _). Inr (st, Inl EAGAIN))
             else
               case pid_search (pids_used st) (nextpid st + 1) (pidchecked st) of
                 None \<Rightarrow> Inl Loops
               | Some (pid, checked) \<Rightarrow>
                   Inr (fork_link p1 p2 pid isvfork (st\<lparr>nextpid := pid, pidchecked := checked\<rparr>), Inr pid)))"

definition fork :: "addr \<Rightarrow> int \<Rightarrow> addr \<Rightarrow> pstate \<Rightarrow> (pstate \<times> (errno + int)) kres" where
  "fork p = fork1 p False"

definition vfork :: "addr \<Rightarrow> int \<Rightarrow> addr \<Rightarrow> pstate \<Rightarrow> (pstate \<times> (errno + int)) kres" where
  "vfork p = fork1 p True"

section \<open>Exit\<close>

text \<open>A controlling process gives up its terminal, a session leader its session.\<close>

definition exit_session :: "addr \<Rightarrow> pstate \<Rightarrow> pstate" where
  "exit_session p st =
     (if SESS_LEADER st p then
        let sp = p_session st p; s = semem st sp; t = ttmem st (s_ttyp s);
            st = (if s_ttyvp s \<noteq> 0 then
                    let st = (if t_session t = sp then
                                let st = (if t_pgrp t \<noteq> 0 then raise_event (Pgsignal (t_pgrp t) SIGHUP) st else st)
                                in raise_event (Vgoneall (s_ttyvp s)) (raise_event (Ttywait (s_ttyp s)) st)
                              else st)
                    in upd_sess sp (\<lambda>s. s\<lparr>s_ttyvp := 0\<rparr>) (raise_event (Vrele (s_ttyvp s)) st)
                  else st)
        in upd_sess sp (\<lambda>s. s\<lparr>s_leader := 0\<rparr>) st
      else st)"

definition exit_leave :: "addr \<Rightarrow> pstate \<Rightarrow> pstate" where
  "exit_leave p st =
     (let st = upd_proc p (\<lambda>p. p\<lparr>p_flag := p_flag p - {STRC, SPPWAIT} \<union> {SWEXIT}\<rparr>) st;
          st = exit_session p st
      in fixjobc p (p_pgrp (pmem st p)) False st)"

text \<open>The loop over the children: each becomes the youngest child of \<open>initproc\<close>.\<close>

fun exit_orphans :: "addr list \<Rightarrow> pstate \<Rightarrow> pstate" where
  "exit_orphans [] st = st"
| "exit_orphans (q # qs) st =
     (let i = initproc st;
          st = upd_proc i (\<lambda>p. p\<lparr>p_cptr := q # p_cptr p\<rparr>) st;
          st = upd_proc q (\<lambda>p. p\<lparr>p_pptr := i\<rparr>) st;
          st = (if STRC \<in> p_flag (pmem st q)
                then raise_event (Psignal q SIGKILL) (upd_proc q (\<lambda>p. p\<lparr>p_flag := p_flag p - {STRC}\<rparr>) st) else st)
      in exit_orphans qs st)"

definition exit_zombie :: "addr \<Rightarrow> int \<Rightarrow> pstate \<Rightarrow> pstate kres" where
  "exit_zombie p rv st =
     (let st = st\<lparr>allproc := remove1 p (allproc st), zombproc := p # zombproc st\<rparr>;
          st = upd_proc p (\<lambda>p. p\<lparr>p_stat := SZOMB\<rparr>) st;
          h = PIDHASH st (p_pid (pmem st p))
      in if p \<notin> set (pidhash st h) then Inl (Panic ''exit'')
         else
           let st = st\<lparr>pidhash := (pidhash st)(h := remove1 p (pidhash st h))\<rparr>;
               cs = p_cptr (pmem st p);
               st = (if cs \<noteq> [] then raise_event (Wakeup (initproc st)) st else st);
               st = exit_orphans cs st;
               st = upd_proc p (\<lambda>p. p\<lparr>p_cptr := [], p_xstat := cr_ushort rv\<rparr>) st;
               pp = p_pptr (pmem st p);
               st = raise_event (Wakeup pp) (raise_event (Psignal pp SIGCHLD) st)
           in Inr (st\<lparr>curproc := 0\<rparr>))"

definition exit :: "addr \<Rightarrow> int \<Rightarrow> pstate \<Rightarrow> pstate kres" where
  "exit p rv st =
     (if p_pid (pmem st p) = 1 then Inl (Panic ''init died'')
      else exit_zombie p rv (exit_leave p st))"

definition W_EXITCODE :: "int \<Rightarrow> int \<Rightarrow> int" where "W_EXITCODE ret sig = (ret * 256) OR sig"

definition rexit :: "addr \<Rightarrow> int \<Rightarrow> pstate \<Rightarrow> pstate kres" where
  "rexit p rval = exit p (W_EXITCODE rval 0)"

section \<open>Wait\<close>

definition proc_reparent :: "addr \<Rightarrow> addr \<Rightarrow> pstate \<Rightarrow> pstate" where
  "proc_reparent child parent st =
     (if p_pptr (pmem st child) = parent then st
      else
        let st = upd_proc (p_pptr (pmem st child)) (\<lambda>p. p\<lparr>p_cptr := remove1 child (p_cptr p)\<rparr>) st;
            st = upd_proc parent (\<lambda>p. p\<lparr>p_cptr := child # p_cptr p\<rparr>) st
        in upd_proc child (\<lambda>p. p\<lparr>p_pptr := parent\<rparr>) st)"

text \<open>A zombie is given back to the process it was attached from, or freed.\<close>

definition wait_zombie :: "addr \<Rightarrow> pstate \<Rightarrow> pstate kres" where
  "wait_zombie p st =
     (let o' = p_oppid (pmem st p)
      in case (if o' \<noteq> 0 then pfind st o' else None) of
           Some t \<Rightarrow>
             let st = proc_reparent p t (upd_proc p (\<lambda>p. p\<lparr>p_oppid := 0\<rparr>) st)
             in Inr (raise_event (Wakeup t) (raise_event (Psignal t SIGCHLD) st))
         | None \<Rightarrow>
             let st = upd_proc p (\<lambda>p. p\<lparr>p_xstat := 0\<rparr>) st
             in bindE (chgproccnt (p_ruid (p_cred (pmem st p))) (- 1) st) (\<lambda>(st, _).
                let st = upd_pcred p (\<lambda>c. c\<lparr>p_refcnt := p_refcnt c - 1\<rparr>) st;
                    st = (if p_refcnt (p_cred (pmem st p)) = 0 then crfree (p_ucred st p) st else st)
                in bindE (leavepgrp p st) (\<lambda>st.
                     let st = st\<lparr>zombproc := remove1 p (zombproc st)\<rparr>;
                         st = upd_proc (p_pptr (pmem st p)) (\<lambda>q. q\<lparr>p_cptr := remove1 p (p_cptr q)\<rparr>) st
                     in Inr (st\<lparr>nprocs := nprocs st - 1\<rparr>))))"

datatype waitopt = WNOHANG | WUNTRACED

definition WAIT_ANY :: int where "WAIT_ANY = - 1"

definition W_STOPCODE :: "int \<Rightarrow> int" where "W_STOPCODE sig = sig * 256 + 127"

text \<open>The loop over the children: the first that can be reported decides. The arguments
  \<open>status\<close> and \<open>rusage\<close> are the errors of the copies to the user, if any. The result of the
  call is the process and its status, as far as they are returned.\<close>

type_synonym waitres = "errno + int \<times> int"

fun wait_loop :: "addr list \<Rightarrow> int \<Rightarrow> waitopt set \<Rightarrow> errno option \<Rightarrow> errno option \<Rightarrow> pstate
    \<Rightarrow> nat \<Rightarrow> nat + (pstate \<times> waitres) kres" where
  "wait_loop [] pid options status rusage st nfound = Inl nfound"
| "wait_loop (p # ps) pid options status rusage st nfound =
     (if pid \<noteq> WAIT_ANY \<and> p_pid (pmem st p) \<noteq> pid \<and> p_pgid st p \<noteq> - pid
      then wait_loop ps pid options status rusage st nfound
      else if p_stat (pmem st p) = SZOMB then
        let xstat = p_xstat (pmem st p)
        in Inr (case status of
             Some e \<Rightarrow> Inr (st, Inl e)
           | None \<Rightarrow>
               case rusage of
                 Some e \<Rightarrow> Inr (st, Inl e)
               | None \<Rightarrow> bindE (wait_zombie p st) (\<lambda>st'. Inr (st', Inr (p_pid (pmem st p), xstat))))
      else if p_stat (pmem st p) = SSTOP \<and> SWTED \<notin> p_flag (pmem st p)
              \<and> (STRC \<in> p_flag (pmem st p) \<or> WUNTRACED \<in> options) then
        let st' = upd_proc p (\<lambda>p. p\<lparr>p_flag := p_flag p \<union> {SWTED}\<rparr>) st
        in Inr (Inr (st', case status of
             Some e \<Rightarrow> Inl e
           | None \<Rightarrow> Inr (p_pid (pmem st p), W_STOPCODE (p_xstat (pmem st p)))))
      else wait_loop ps pid options status rusage st (nfound + 1))"

definition wait1 :: "addr \<Rightarrow> int \<Rightarrow> waitopt set \<Rightarrow> errno option \<Rightarrow> errno option \<Rightarrow> pstate \<Rightarrow> (pstate \<times> waitres) kres" where
  "wait1 q pid options status rusage st =
     (let pid = (if pid = 0 then - p_pgid st q else pid)
      in case wait_loop (p_cptr (pmem st q)) pid options status rusage st 0 of
           Inr r \<Rightarrow> r
         | Inl nfound \<Rightarrow>
             if nfound = 0 then Inr (st, Inl ECHILD)
             else if WNOHANG \<in> options then Inr (st, Inr (0, 0))
             else Inl Sleeps)"

definition wait4 :: "addr \<Rightarrow> int \<Rightarrow> waitopt set \<Rightarrow> errno option \<Rightarrow> errno option \<Rightarrow> pstate \<Rightarrow> (pstate \<times> waitres) kres" where
  "wait4 = wait1"

definition owait :: "addr \<Rightarrow> pstate \<Rightarrow> (pstate \<times> waitres) kres" where
  "owait p = wait1 p WAIT_ANY {} None None"

section \<open>Sessions, groups and tracing\<close>

definition setsid :: "addr \<Rightarrow> addr \<Rightarrow> addr \<Rightarrow> pstate \<Rightarrow> (pstate \<times> (errno + int)) kres" where
  "setsid p npg nse st =
     (let pid = p_pid (pmem st p)
      in if p_pgid st p = pid \<or> pgfind st pid \<noteq> None then Inr (st, Inl EPERM)
         else bindE (enterpgrp p pid True npg nse st) (\<lambda>st. Inr (st, Inr pid)))"

text \<open>The test of the process a caller names; \<open>None\<close> when the loop of \<open>inferior\<close> does not end.\<close>

definition setpgid_target :: "addr \<Rightarrow> int \<Rightarrow> pstate \<Rightarrow> (errno + addr) option" where
  "setpgid_target curp pid st =
     (if pid \<noteq> 0 \<and> pid \<noteq> p_pid (pmem st curp) then
        case pfind st pid of
          None \<Rightarrow> Some (Inl ESRCH)
        | Some targp \<Rightarrow>
            (case inferior st targp of
               None \<Rightarrow> None
             | Some below \<Rightarrow>
                 Some (if \<not> below then Inl ESRCH
                       else if p_session st targp \<noteq> p_session st curp then Inl EPERM
                       else if SEXEC \<in> p_flag (pmem st targp) then Inl EACCES
                       else Inr targp))
      else Some (Inr curp))"

definition setpgid :: "addr \<Rightarrow> int \<Rightarrow> int \<Rightarrow> addr \<Rightarrow> pstate \<Rightarrow> (pstate \<times> errno option) kres" where
  "setpgid curp pid pgid npg st =
     (case setpgid_target curp pid st of
        None \<Rightarrow> Inl Loops
      | Some (Inl e) \<Rightarrow> Inr (st, Some e)
      | Some (Inr targp) \<Rightarrow>
          if SESS_LEADER st targp then Inr (st, Some EPERM)
          else
            let own = pgid = 0 \<or> pgid = p_pid (pmem st targp);
                pgid = (if pgid = 0 then p_pid (pmem st targp) else pgid)
            in if \<not> own \<and> (case pgfind st pgid of None \<Rightarrow> True | Some pgrp \<Rightarrow> pg_session (pgmem st pgrp) \<noteq> p_session st curp)
               then Inr (st, Some EPERM)
               else bindE (enterpgrp targp pgid False npg 0 st) (\<lambda>st. Inr (st, None)))"

datatype ptreq = PT_ATTACH | PT_TRACE_ME | PT_OTHER

text \<open>A request to attach or to be traced, and the tests made of the others, which then wait for the
  traced process. The flags of the process found are read before the pointer is tested.\<close>

definition ptrace :: "addr \<Rightarrow> ptreq \<Rightarrow> int \<Rightarrow> pstate \<Rightarrow> (pstate \<times> errno option) kres" where
  "ptrace curp req pid st =
     (case req of
        PT_ATTACH \<Rightarrow>
          (case pfind st pid of
             None \<Rightarrow> Inl BadAccess
           | Some p \<Rightarrow>
               let (error, st) =
                     (if SUGID \<in> p_flag (pmem st p) \<or> p_ruid (p_cred (pmem st p)) \<noteq> p_ruid (p_cred (pmem st curp))
                      then suser (p_ucred st p) (Some p) st else (None, st))
               in if error \<noteq> None then Inr (st, error)
                  else if STRC \<in> p_flag (pmem st p) then Inr (st, Some EALREADY)
                  else
                    let st = upd_proc p (\<lambda>q. q\<lparr>p_flag := p_flag q \<union> {STRC}, p_oppid := p_pid (pmem st (p_pptr q))\<rparr>) st;
                        st = proc_reparent p curp st
                    in Inr (raise_event (Psignal p SIGSTOP) st, None))
      | PT_TRACE_ME \<Rightarrow> Inr (upd_proc curp (\<lambda>p. p\<lparr>p_flag := p_flag p \<union> {STRC}\<rparr>) st, None)
      | PT_OTHER \<Rightarrow>
          (case pfind st pid of
             None \<Rightarrow> Inr (st, Some ESRCH)
           | Some p \<Rightarrow>
               if p_stat (pmem st p) \<noteq> SSTOP \<or> p_pptr (pmem st p) \<noteq> curp \<or> STRC \<notin> p_flag (pmem st p)
               then Inr (st, Some ESRCH) else Inl Sleeps))"

end
