(* ===== verification/Proc_Inv.thy ===== *)
theory Proc_Inv
  imports Proc_Sys
begin

text \<open>
  The invariant of processes, groups and sessions, in parts that the operations keep one by one:
  \<open>links_ok\<close> the lists and the family tree, \<open>pids_ok\<close> the numbers and their hash table,
  \<open>groups_ok\<close> the groups and their members, \<open>sessions_ok\<close> the sessions, \<open>users_ok\<close> the counts of
  processes per user, \<open>creds_ok\<close> the reference counts of credentials. First what each routine changes.
\<close>

section \<open>Selectors\<close>

named_theorems upd_simps \<open>selectors of the updates of a state\<close>

lemma upd_proc_sel [upd_simps]:
  "pmem (upd_proc a f st) b = (if b = a then f (pmem st a) else pmem st b)"
  "allproc (upd_proc a f st) = allproc st" "zombproc (upd_proc a f st) = zombproc st"
  "pidhash (upd_proc a f st) = pidhash st" "pgmem (upd_proc a f st) = pgmem st"
  "pgrphash (upd_proc a f st) = pgrphash st" "semem (upd_proc a f st) = semem st"
  "selive (upd_proc a f st) = selive st" "ttmem (upd_proc a f st) = ttmem st"
  "crmem (upd_proc a f st) = crmem st" "crlive (upd_proc a f st) = crlive st"
  "uihashtbl (upd_proc a f st) = uihashtbl st" "uihash (upd_proc a f st) = uihash st"
  "pidhashmask (upd_proc a f st) = pidhashmask st" "nextpid (upd_proc a f st) = nextpid st"
  "pidchecked (upd_proc a f st) = pidchecked st" "nprocs (upd_proc a f st) = nprocs st"
  "maxproc (upd_proc a f st) = maxproc st" "curproc (upd_proc a f st) = curproc st"
  "initproc (upd_proc a f st) = initproc st" "pevents (upd_proc a f st) = pevents st"
  by (simp_all add: upd_proc_def)

lemma upd_pgrp_sel [upd_simps]:
  "pgmem (upd_pgrp a f st) b = (if b = a then f (pgmem st a) else pgmem st b)"
  "allproc (upd_pgrp a f st) = allproc st" "zombproc (upd_pgrp a f st) = zombproc st"
  "pidhash (upd_pgrp a f st) = pidhash st" "pmem (upd_pgrp a f st) = pmem st"
  "pgrphash (upd_pgrp a f st) = pgrphash st" "semem (upd_pgrp a f st) = semem st"
  "selive (upd_pgrp a f st) = selive st" "ttmem (upd_pgrp a f st) = ttmem st"
  "crmem (upd_pgrp a f st) = crmem st" "crlive (upd_pgrp a f st) = crlive st"
  "uihashtbl (upd_pgrp a f st) = uihashtbl st" "uihash (upd_pgrp a f st) = uihash st"
  "pidhashmask (upd_pgrp a f st) = pidhashmask st" "nextpid (upd_pgrp a f st) = nextpid st"
  "pidchecked (upd_pgrp a f st) = pidchecked st" "nprocs (upd_pgrp a f st) = nprocs st"
  "maxproc (upd_pgrp a f st) = maxproc st" "curproc (upd_pgrp a f st) = curproc st"
  "initproc (upd_pgrp a f st) = initproc st" "pevents (upd_pgrp a f st) = pevents st"
  by (simp_all add: upd_pgrp_def)

lemma upd_sess_sel [upd_simps]:
  "semem (upd_sess a f st) b = (if b = a then f (semem st a) else semem st b)"
  "allproc (upd_sess a f st) = allproc st" "zombproc (upd_sess a f st) = zombproc st"
  "pidhash (upd_sess a f st) = pidhash st" "pmem (upd_sess a f st) = pmem st"
  "pgrphash (upd_sess a f st) = pgrphash st" "pgmem (upd_sess a f st) = pgmem st"
  "selive (upd_sess a f st) = selive st" "ttmem (upd_sess a f st) = ttmem st"
  "crmem (upd_sess a f st) = crmem st" "crlive (upd_sess a f st) = crlive st"
  "uihashtbl (upd_sess a f st) = uihashtbl st" "uihash (upd_sess a f st) = uihash st"
  "pidhashmask (upd_sess a f st) = pidhashmask st" "nextpid (upd_sess a f st) = nextpid st"
  "pidchecked (upd_sess a f st) = pidchecked st" "nprocs (upd_sess a f st) = nprocs st"
  "maxproc (upd_sess a f st) = maxproc st" "curproc (upd_sess a f st) = curproc st"
  "initproc (upd_sess a f st) = initproc st" "pevents (upd_sess a f st) = pevents st"
  by (simp_all add: upd_sess_def)

lemma upd_cred_sel [upd_simps]:
  "crmem (upd_cred a f st) b = (if b = a then f (crmem st a) else crmem st b)"
  "allproc (upd_cred a f st) = allproc st" "zombproc (upd_cred a f st) = zombproc st"
  "pidhash (upd_cred a f st) = pidhash st" "pmem (upd_cred a f st) = pmem st"
  "pgrphash (upd_cred a f st) = pgrphash st" "pgmem (upd_cred a f st) = pgmem st"
  "selive (upd_cred a f st) = selive st" "ttmem (upd_cred a f st) = ttmem st"
  "semem (upd_cred a f st) = semem st" "crlive (upd_cred a f st) = crlive st"
  "uihashtbl (upd_cred a f st) = uihashtbl st" "uihash (upd_cred a f st) = uihash st"
  "pidhashmask (upd_cred a f st) = pidhashmask st" "nextpid (upd_cred a f st) = nextpid st"
  "pidchecked (upd_cred a f st) = pidchecked st" "nprocs (upd_cred a f st) = nprocs st"
  "maxproc (upd_cred a f st) = maxproc st" "curproc (upd_cred a f st) = curproc st"
  "initproc (upd_cred a f st) = initproc st" "pevents (upd_cred a f st) = pevents st"
  by (simp_all add: upd_cred_def)

section \<open>The invariant\<close>

definition procs :: "pstate \<Rightarrow> addr set" where "procs st = set (allproc st) \<union> set (zombproc st)"

definition groups :: "pstate \<Rightarrow> addr set" where
  "groups st = {g. \<exists>k. g \<in> set (pgrphash st k)}"

text \<open>The parent of an active process is older: it comes later in the list. The oldest are the
  swapper and \<open>init\<close>.\<close>

definition links_ok :: "pstate \<Rightarrow> bool" where
  "links_ok st \<longleftrightarrow>
     distinct (allproc st @ zombproc st) \<and> 0 \<notin> procs st
   \<and> (\<exists>xs p0. allproc st = xs @ [initproc st, p0] \<and> p_pid (pmem st p0) = 0 \<and> p_pptr (pmem st p0) = 0)
   \<and> p_pid (pmem st (initproc st)) = 1
   \<and> (\<forall>ys a zs. allproc st = ys @ a # zs \<longrightarrow> zs \<noteq> [] \<longrightarrow> p_pptr (pmem st a) \<in> set zs)
   \<and> (\<forall>z \<in> set (zombproc st). p_pptr (pmem st z) \<in> set (allproc st))
   \<and> (\<forall>a \<in> procs st. p_stat (pmem st a) = SZOMB \<longleftrightarrow> a \<in> set (zombproc st))
   \<and> (\<forall>a \<in> procs st. set (p_cptr (pmem st a)) = {b \<in> procs st. p_pptr (pmem st b) = a} \<and> distinct (p_cptr (pmem st a)))
   \<and> (\<forall>a \<in> procs st. p_oppid (pmem st a) = 0)
   \<and> nprocs st = int (length (allproc st) + length (zombproc st))"

text \<open>The swapper is not in the hash table: \<open>main\<close> does not put it there.\<close>

definition pids_ok :: "pstate \<Rightarrow> bool" where
  "pids_ok st \<longleftrightarrow>
     inj_on (\<lambda>a. p_pid (pmem st a)) (procs st)
   \<and> (\<forall>a \<in> procs st. 0 \<le> p_pid (pmem st a) \<and> p_pid (pmem st a) < PID_MAX)
   \<and> (\<forall>k. distinct (pidhash st k) \<and> set (pidhash st k) = {a \<in> set (allproc st). p_pid (pmem st a) \<noteq> 0 \<and> PIDHASH st (p_pid (pmem st a)) = k})
   \<and> (\<forall>a \<in> procs st. \<not> (nextpid st < p_pid (pmem st a) \<and> p_pid (pmem st a) < pidchecked st))
   \<and> (\<forall>g \<in> groups st. \<not> (nextpid st < pg_id (pgmem st g) \<and> pg_id (pgmem st g) < pidchecked st))
   \<and> 0 \<le> nextpid st \<and> nextpid st < PID_MAX \<and> pidchecked st \<le> PID_MAX"

definition groups_wf :: "pstate \<Rightarrow> bool" where
  "groups_wf st \<longleftrightarrow>
     (\<forall>k. distinct (pgrphash st k) \<and> (\<forall>g \<in> set (pgrphash st k). PIDHASH st (pg_id (pgmem st g)) = k))
   \<and> inj_on (\<lambda>g. pg_id (pgmem st g)) (groups st)
   \<and> (\<forall>g \<in> groups st. 0 \<le> pg_id (pgmem st g) \<and> pg_id (pgmem st g) < PID_MAX)
   \<and> (\<forall>a \<in> procs st. p_pgrp (pmem st a) \<in> groups st)
   \<and> (\<forall>g \<in> groups st. distinct (pg_mem (pgmem st g))
        \<and> set (pg_mem (pgmem st g)) = {a \<in> procs st. p_pgrp (pmem st a) = g})"

definition groups_ok :: "pstate \<Rightarrow> bool" where
  "groups_ok st \<longleftrightarrow> groups_wf st \<and> (\<forall>g \<in> groups st. pg_mem (pgmem st g) \<noteq> [])"

definition counts_ok :: "pstate \<Rightarrow> bool" where
  "counts_ok st \<longleftrightarrow>
     distinct (selive st) \<and> 0 \<notin> set (selive st)
   \<and> (\<forall>g \<in> groups st. pg_session (pgmem st g) \<in> set (selive st))
   \<and> (\<forall>s \<in> set (selive st). s_count (semem st s) = int (card {g \<in> groups st. pg_session (pgmem st g) = s})
        \<and> s_count (semem st s) \<noteq> 0)"

text \<open>A group that has the number of a process is in its session, whoever the members are.\<close>

definition leaders_ok :: "pstate \<Rightarrow> bool" where
  "leaders_ok st \<longleftrightarrow>
     (\<forall>s \<in> set (selive st). s_leader (semem st s) \<noteq> 0 \<longrightarrow>
        s_leader (semem st s) \<in> set (allproc st) \<and> p_session st (s_leader (semem st s)) = s
        \<and> p_pgid st (s_leader (semem st s)) = p_pid (pmem st (s_leader (semem st s))))
   \<and> (\<forall>g \<in> groups st. \<forall>a \<in> procs st. pg_id (pgmem st g) = p_pid (pmem st a) \<longrightarrow> pg_session (pgmem st g) = p_session st a)"

definition sessions_ok :: "pstate \<Rightarrow> bool" where
  "sessions_ok st \<longleftrightarrow> counts_ok st \<and> leaders_ok st"

definition users_ok :: "pstate \<Rightarrow> bool" where
  "users_ok st \<longleftrightarrow>
     (\<forall>k. distinct (map fst (uihashtbl st k)) \<and> (\<forall>(u, n) \<in> set (uihashtbl st k). UIHASH st u = k \<and> 0 < n))
   \<and> (\<forall>u. (case ui_count (uihashtbl st (UIHASH st u)) u of None \<Rightarrow> 0 | Some n \<Rightarrow> n)
        = int (card {a \<in> procs st. p_ruid (p_cred (pmem st a)) = u}))"

text \<open>\<open>held\<close> are the references to credentials that others than processes hold.\<close>

definition cred_refs :: "(addr \<Rightarrow> nat) \<Rightarrow> pstate \<Rightarrow> addr \<Rightarrow> int" where
  "cred_refs held st c = int (card {a \<in> procs st. p_ucred st a = c} + held c)"

definition creds_ok :: "(addr \<Rightarrow> nat) \<Rightarrow> pstate \<Rightarrow> bool" where
  "creds_ok held st \<longleftrightarrow>
     (\<forall>a \<in> procs st. p_ucred st a \<in> set (crlive st) \<and> p_refcnt (p_cred (pmem st a)) = 1)
   \<and> distinct (crlive st) \<and> (\<forall>c. held c \<noteq> 0 \<longrightarrow> c \<in> set (crlive st))
   \<and> (\<forall>c \<in> set (crlive st). cr_ref (crmem st c) = cred_refs held st c \<and> 0 < cr_ref (crmem st c)
        \<and> cr_ref (crmem st c) < 65536 \<and> length (cr_groups (crmem st c)) = nat NGROUPS)"

text \<open>Who counts for the job control of its group: a process whose parent is in another group of the
  same session. The swapper has no parent.\<close>

definition qualifies :: "pstate \<Rightarrow> addr \<Rightarrow> bool" where
  "qualifies st a \<longleftrightarrow>
     (let h = p_pgrp (pmem st (p_pptr (pmem st a)))
      in h \<noteq> p_pgrp (pmem st a) \<and> pg_session (pgmem st h) = p_session st a)"

text \<open>The sessions of the swapper and of \<open>init\<close>, which takes over orphans without counting them, are
  excluded.\<close>

definition boot_sessions :: "pstate \<Rightarrow> addr set" where
  "boot_sessions st = {p_session st (initproc st), p_session st (last (allproc st))}"

definition jobc_ok :: "pstate \<Rightarrow> bool" where
  "jobc_ok st \<longleftrightarrow>
     (\<forall>g \<in> groups st. pg_session (pgmem st g) \<notin> boot_sessions st \<longrightarrow>
        pg_jobc (pgmem st g) = int (card {a \<in> set (allproc st). p_pgrp (pmem st a) = g \<and> qualifies st a}))"

text \<open>\<open>init\<close> stays in the session of the swapper until it makes its own.\<close>

definition boot_ok :: "pstate \<Rightarrow> bool" where
  "boot_ok st \<longleftrightarrow> p_session st (initproc st) = p_session st (last (allproc st)) \<or> SESS_LEADER st (initproc st)"

definition proc_ok :: "pstate \<Rightarrow> bool" where
  "proc_ok st \<longleftrightarrow> links_ok st \<and> pids_ok st \<and> groups_ok st \<and> sessions_ok st \<and> boot_ok st \<and> jobc_ok st \<and> users_ok st"

text \<open>The parts of the invariant one by one.\<close>

lemma links_okD:
  assumes "links_ok st"
  shows "distinct (allproc st)" "distinct (zombproc st)" "set (allproc st) \<inter> set (zombproc st) = {}" "0 \<notin> procs st"
    "\<exists>xs p0. allproc st = xs @ [initproc st, p0] \<and> p_pid (pmem st p0) = 0 \<and> p_pptr (pmem st p0) = 0"
    "p_pid (pmem st (initproc st)) = 1"
    "\<And>ys a zs. allproc st = ys @ a # zs \<Longrightarrow> zs \<noteq> [] \<Longrightarrow> p_pptr (pmem st a) \<in> set zs"
    "\<And>z. z \<in> set (zombproc st) \<Longrightarrow> p_pptr (pmem st z) \<in> set (allproc st)"
    "\<And>a. a \<in> procs st \<Longrightarrow> p_stat (pmem st a) = SZOMB \<longleftrightarrow> a \<in> set (zombproc st)"
    "\<And>a. a \<in> procs st \<Longrightarrow> set (p_cptr (pmem st a)) = {b \<in> procs st. p_pptr (pmem st b) = a}"
    "\<And>a. a \<in> procs st \<Longrightarrow> distinct (p_cptr (pmem st a))"
    "\<And>a. a \<in> procs st \<Longrightarrow> p_oppid (pmem st a) = 0"
    "nprocs st = int (length (allproc st) + length (zombproc st))"
  using assms unfolding links_ok_def by auto

lemma pids_okD:
  assumes "pids_ok st"
  shows "inj_on (\<lambda>a. p_pid (pmem st a)) (procs st)"
    "\<And>a. a \<in> procs st \<Longrightarrow> 0 \<le> p_pid (pmem st a)" "\<And>a. a \<in> procs st \<Longrightarrow> p_pid (pmem st a) < PID_MAX"
    "\<And>k. distinct (pidhash st k)" "\<And>k. set (pidhash st k) = {a \<in> set (allproc st). p_pid (pmem st a) \<noteq> 0 \<and> PIDHASH st (p_pid (pmem st a)) = k}"
    "\<And>a. a \<in> procs st \<Longrightarrow> \<not> (nextpid st < p_pid (pmem st a) \<and> p_pid (pmem st a) < pidchecked st)"
    "\<And>g. g \<in> groups st \<Longrightarrow> \<not> (nextpid st < pg_id (pgmem st g) \<and> pg_id (pgmem st g) < pidchecked st)"
    "0 \<le> nextpid st" "nextpid st < PID_MAX" "pidchecked st \<le> PID_MAX"
  using assms unfolding pids_ok_def by auto

lemma groups_okD:
  assumes "groups_ok st"
  shows "\<And>k. distinct (pgrphash st k)" "\<And>k g. g \<in> set (pgrphash st k) \<Longrightarrow> PIDHASH st (pg_id (pgmem st g)) = k"
    "inj_on (\<lambda>g. pg_id (pgmem st g)) (groups st)"
    "\<And>g. g \<in> groups st \<Longrightarrow> 0 \<le> pg_id (pgmem st g)" "\<And>g. g \<in> groups st \<Longrightarrow> pg_id (pgmem st g) < PID_MAX"
    "\<And>a. a \<in> procs st \<Longrightarrow> p_pgrp (pmem st a) \<in> groups st"
    "\<And>g. g \<in> groups st \<Longrightarrow> pg_mem (pgmem st g) \<noteq> []" "\<And>g. g \<in> groups st \<Longrightarrow> distinct (pg_mem (pgmem st g))"
    "\<And>g. g \<in> groups st \<Longrightarrow> set (pg_mem (pgmem st g)) = {a \<in> procs st. p_pgrp (pmem st a) = g}"
  using assms unfolding groups_ok_def groups_wf_def by auto

lemma groups_wfD:
  assumes "groups_wf st"
  shows "\<And>k. distinct (pgrphash st k)" "\<And>k g. g \<in> set (pgrphash st k) \<Longrightarrow> PIDHASH st (pg_id (pgmem st g)) = k"
    "inj_on (\<lambda>g. pg_id (pgmem st g)) (groups st)"
    "\<And>g. g \<in> groups st \<Longrightarrow> 0 \<le> pg_id (pgmem st g)" "\<And>g. g \<in> groups st \<Longrightarrow> pg_id (pgmem st g) < PID_MAX"
    "\<And>a. a \<in> procs st \<Longrightarrow> p_pgrp (pmem st a) \<in> groups st"
    "\<And>g. g \<in> groups st \<Longrightarrow> distinct (pg_mem (pgmem st g))"
    "\<And>g. g \<in> groups st \<Longrightarrow> set (pg_mem (pgmem st g)) = {a \<in> procs st. p_pgrp (pmem st a) = g}"
  using assms unfolding groups_wf_def by auto

lemma counts_okD:
  assumes "counts_ok st"
  shows "distinct (selive st)" "0 \<notin> set (selive st)" "\<And>g. g \<in> groups st \<Longrightarrow> pg_session (pgmem st g) \<in> set (selive st)"
    "\<And>s. s \<in> set (selive st) \<Longrightarrow> s_count (semem st s) = int (card {g \<in> groups st. pg_session (pgmem st g) = s})"
    "\<And>s. s \<in> set (selive st) \<Longrightarrow> s_count (semem st s) \<noteq> 0"
  using assms unfolding counts_ok_def by auto

lemma sessions_okD:
  assumes "sessions_ok st"
  shows "distinct (selive st)" "0 \<notin> set (selive st)" "\<And>g. g \<in> groups st \<Longrightarrow> pg_session (pgmem st g) \<in> set (selive st)"
    "\<And>s. s \<in> set (selive st) \<Longrightarrow> s_count (semem st s) = int (card {g \<in> groups st. pg_session (pgmem st g) = s})"
    "\<And>s. s \<in> set (selive st) \<Longrightarrow> s_count (semem st s) \<noteq> 0"
    "\<And>s. s \<in> set (selive st) \<Longrightarrow> s_leader (semem st s) \<noteq> 0 \<Longrightarrow> s_leader (semem st s) \<in> set (allproc st)
       \<and> p_session st (s_leader (semem st s)) = s \<and> p_pgid st (s_leader (semem st s)) = p_pid (pmem st (s_leader (semem st s)))"
    "\<And>g a. g \<in> groups st \<Longrightarrow> a \<in> procs st \<Longrightarrow> pg_id (pgmem st g) = p_pid (pmem st a) \<Longrightarrow> pg_session (pgmem st g) = p_session st a"
  using assms unfolding sessions_ok_def counts_ok_def leaders_ok_def by auto

section \<open>What does not matter to the invariant\<close>

definition same_view :: "pstate \<Rightarrow> pstate \<Rightarrow> bool" where
  "same_view st st' \<longleftrightarrow>
     (\<forall>a. p_pid (pmem st' a) = p_pid (pmem st a) \<and> p_pptr (pmem st' a) = p_pptr (pmem st a)
        \<and> p_cptr (pmem st' a) = p_cptr (pmem st a) \<and> p_pgrp (pmem st' a) = p_pgrp (pmem st a)
        \<and> p_oppid (pmem st' a) = p_oppid (pmem st a) \<and> (p_stat (pmem st' a) = SZOMB \<longleftrightarrow> p_stat (pmem st a) = SZOMB))
   \<and> (\<forall>s. s_count (semem st' s) = s_count (semem st s) \<and> s_leader (semem st' s) = s_leader (semem st s))
   \<and> allproc st' = allproc st \<and> zombproc st' = zombproc st \<and> pidhash st' = pidhash st
   \<and> pgmem st' = pgmem st \<and> pgrphash st' = pgrphash st \<and> selive st' = selive st
   \<and> pidhashmask st' = pidhashmask st \<and> nprocs st' = nprocs st \<and> initproc st' = initproc st"

lemma same_view_inv:
  assumes "same_view st st'"
  shows "procs st' = procs st" "groups st' = groups st" "p_session st' a = p_session st a" "p_pgid st' a = p_pgid st a"
    "pids_used st' = pids_used st" "SESS_LEADER st' a = SESS_LEADER st a"
    "qualifies st' a = qualifies st a" "boot_sessions st' = boot_sessions st" "PIDHASH st' n = PIDHASH st n"
  using assms by (simp_all add: same_view_def procs_def groups_def p_session_def p_pgid_def pids_used_def
    SESS_LEADER_def qualifies_def boot_sessions_def PIDHASH_def Let_def)

lemma same_view_ok:
  assumes v: "same_view st st'"
  shows "links_ok st' = links_ok st" "groups_ok st' = groups_ok st" "sessions_ok st' = sessions_ok st"
    "boot_ok st' = boot_ok st" "jobc_ok st' = jobc_ok st"
  using v unfolding links_ok_def groups_ok_def groups_wf_def sessions_ok_def counts_ok_def leaders_ok_def boot_ok_def
    jobc_ok_def same_view_inv [OF v]
  by (simp_all add: same_view_def)

lemma same_view_pids:
  assumes v: "same_view st st'" and n: "nextpid st' = nextpid st" "pidchecked st' = pidchecked st"
  shows "pids_ok st' = pids_ok st"
  using v n unfolding pids_ok_def same_view_inv [OF v] by (simp add: same_view_def)

lemma uihashtbl_view: "same_view st (st\<lparr>uihashtbl := T\<rparr>)"
  by (simp add: same_view_def)

lemmas uihashtbl_inv = same_view_inv [OF uihashtbl_view]

lemma uihashtbl_pids: "pids_ok (st\<lparr>uihashtbl := T\<rparr>) = pids_ok st"
  by (rule same_view_pids [OF uihashtbl_view]) simp_all

lemmas uihashtbl_ok = same_view_ok [OF uihashtbl_view] uihashtbl_pids

lemma same_view_proc_ok:
  assumes v: "same_view st st'" and n: "nextpid st' = nextpid st" "pidchecked st' = pidchecked st"
    and u: "uihashtbl st' = uihashtbl st" "uihash st' = uihash st" "\<And>a. p_ruid (p_cred (pmem st' a)) = p_ruid (p_cred (pmem st a))"
  shows "proc_ok st' = proc_ok st"
proof -
  have "users_ok st' = users_ok st" unfolding users_ok_def UIHASH_def u same_view_inv [OF v] ..
  then show ?thesis unfolding proc_ok_def same_view_ok [OF v] same_view_pids [OF v n] by simp
qed

lemma pevents_ok: "proc_ok (st\<lparr>pevents := E\<rparr>) = proc_ok st"
  by (rule same_view_proc_ok) (simp_all add: same_view_def)

lemma curproc_ok: "proc_ok (st\<lparr>curproc := c\<rparr>) = proc_ok st"
  by (rule same_view_proc_ok) (simp_all add: same_view_def)

lemma creds_okD:
  assumes "creds_ok held st"
  shows "\<And>a. a \<in> procs st \<Longrightarrow> p_ucred st a \<in> set (crlive st)" "\<And>a. a \<in> procs st \<Longrightarrow> p_refcnt (p_cred (pmem st a)) = 1"
    "distinct (crlive st)" "\<And>c. held c \<noteq> 0 \<Longrightarrow> c \<in> set (crlive st)"
    "\<And>c. c \<in> set (crlive st) \<Longrightarrow> cr_ref (crmem st c) = cred_refs held st c"
    "\<And>c. c \<in> set (crlive st) \<Longrightarrow> 0 < cr_ref (crmem st c)" "\<And>c. c \<in> set (crlive st) \<Longrightarrow> cr_ref (crmem st c) < 65536"
    "\<And>c. c \<in> set (crlive st) \<Longrightarrow> length (cr_groups (crmem st c)) = nat NGROUPS"
  using assms unfolding creds_ok_def by auto

section \<open>Finding\<close>

lemma find_Some: "List.find P xs = Some x \<Longrightarrow> x \<in> set xs \<and> P x"
  by (auto simp: find_Some_iff)

lemma pfind_iff:
  assumes "pids_ok st" "links_ok st"
  shows "pfind st pid = Some a \<longleftrightarrow> a \<in> set (allproc st) \<and> p_pid (pmem st a) = pid \<and> pid \<noteq> 0"
proof
  assume "pfind st pid = Some a"
  then show "a \<in> set (allproc st) \<and> p_pid (pmem st a) = pid \<and> pid \<noteq> 0"
    using assms unfolding pfind_def pids_ok_def by (auto dest: find_Some)
next
  assume a: "a \<in> set (allproc st) \<and> p_pid (pmem st a) = pid \<and> pid \<noteq> 0"
  then have "a \<in> set (pidhash st (PIDHASH st pid))" using assms unfolding pids_ok_def by auto
  then obtain b where b: "pfind st pid = Some b" using a unfolding pfind_def
    by (cases "List.find (\<lambda>p. p_pid (pmem st p) = pid) (pidhash st (PIDHASH st pid))") (auto simp: find_None_iff)
  then have "b \<in> set (pidhash st (PIDHASH st pid)) \<and> p_pid (pmem st b) = pid"
    unfolding pfind_def by (auto dest: find_Some)
  then have "b \<in> set (allproc st)" "p_pid (pmem st b) = pid" using assms unfolding pids_ok_def by auto
  then have "b = a" using a assms unfolding pids_ok_def procs_def by (auto dest: inj_onD)
  then show "pfind st pid = Some a" using b by simp
qed

lemma pgfind_iff:
  assumes "groups_ok st"
  shows "pgfind st i = Some g \<longleftrightarrow> g \<in> groups st \<and> pg_id (pgmem st g) = pid_t i"
proof
  assume "pgfind st i = Some g"
  then show "g \<in> groups st \<and> pg_id (pgmem st g) = pid_t i"
    unfolding pgfind_def Let_def groups_def by (auto dest: find_Some)
next
  assume g: "g \<in> groups st \<and> pg_id (pgmem st g) = pid_t i"
  then obtain k where "g \<in> set (pgrphash st k)" by (auto simp: groups_def)
  moreover have "PIDHASH st (pg_id (pgmem st g)) = k" using calculation groups_okD(2) [OF assms] by blast
  ultimately have "g \<in> set (pgrphash st (PIDHASH st (pid_t i)))" using g by simp
  then obtain b where b: "pgfind st i = Some b" using g unfolding pgfind_def Let_def
    by (cases "List.find (\<lambda>g. pg_id (pgmem st g) = pid_t i) (pgrphash st (PIDHASH st (pid_t i)))") (auto simp: find_None_iff)
  then have "b \<in> groups st \<and> pg_id (pgmem st b) = pid_t i"
    unfolding pgfind_def Let_def groups_def by (auto dest: find_Some)
  moreover have "inj_on (\<lambda>g. pg_id (pgmem st g)) (groups st)" by (rule groups_okD(3) [OF assms])
  ultimately have "b = g" using g by (simp add: inj_on_def)
  then show "pgfind st i = Some g" using b by simp
qed

lemma pid_t_id: "0 \<le> i \<Longrightarrow> i < PID_MAX \<Longrightarrow> pid_t i = i"
  by (simp add: pid_t_def PID_MAX_def)

text \<open>The parent chain of an active process ends at the swapper, so \<open>inferior\<close> returns.\<close>

lemma inferior_returns:
  assumes "links_ok st" "a \<in> set (allproc st)"
  shows "\<exists>b. inferior st a = Some b"
proof -
  have "\<exists>b. inferior st a = Some b" if "allproc st = ys @ zs" "a \<in> set zs" for ys zs a
    using that
  proof (induction zs arbitrary: ys a)
    case (Cons x zs)
    show ?case
    proof (cases "a = x")
      case True
      show ?thesis
      proof (cases "zs = []")
        case True
        then have "p_pid (pmem st a) = 0" using assms(1) Cons.prems \<open>a = x\<close> unfolding links_ok_def
          by (metis last_ConsL last_appendR last_snoc list.distinct(1) append_Cons append_Nil)
        then show ?thesis by (subst inferior.simps) auto
      next
        case False
        then have "p_pptr (pmem st a) \<in> set zs" using assms(1) Cons.prems \<open>a = x\<close> unfolding links_ok_def by blast
        then have "\<exists>b. inferior st (p_pptr (pmem st a)) = Some b" using Cons.IH [of "ys @ [x]"] Cons.prems by simp
        then show ?thesis by (subst inferior.simps) auto
      qed
    qed (use Cons.IH [of "ys @ [x]"] Cons.prems in auto)
  qed simp
  then show ?thesis using assms(2) by (metis append_Nil)
qed

section \<open>What the routines change\<close>

text \<open>\<open>fixjobc\<close> changes the counts of groups and nothing else.\<close>

definition set_jobcs :: "(addr \<Rightarrow> int) \<Rightarrow> pevent list \<Rightarrow> pstate \<Rightarrow> pstate" where
  "set_jobcs J E st = st\<lparr>pgmem := (\<lambda>g. (pgmem st g)\<lparr>pg_jobc := J g\<rparr>), pevents := E\<rparr>"

lemma set_jobcs_sel [upd_simps]:
  "pgmem (set_jobcs J E st) b = (pgmem st b)\<lparr>pg_jobc := J b\<rparr>"
  "allproc (set_jobcs J E st) = allproc st" "zombproc (set_jobcs J E st) = zombproc st"
  "pidhash (set_jobcs J E st) = pidhash st" "pmem (set_jobcs J E st) = pmem st"
  "pgrphash (set_jobcs J E st) = pgrphash st" "semem (set_jobcs J E st) = semem st"
  "selive (set_jobcs J E st) = selive st" "ttmem (set_jobcs J E st) = ttmem st"
  "crmem (set_jobcs J E st) = crmem st" "crlive (set_jobcs J E st) = crlive st"
  "uihashtbl (set_jobcs J E st) = uihashtbl st" "uihash (set_jobcs J E st) = uihash st"
  "pidhashmask (set_jobcs J E st) = pidhashmask st" "nextpid (set_jobcs J E st) = nextpid st"
  "pidchecked (set_jobcs J E st) = pidchecked st" "nprocs (set_jobcs J E st) = nprocs st"
  "maxproc (set_jobcs J E st) = maxproc st" "curproc (set_jobcs J E st) = curproc st"
  "initproc (set_jobcs J E st) = initproc st"
  by (simp_all add: set_jobcs_def)

definition jsign :: "bool \<Rightarrow> int" where "jsign entering = (if entering then 1 else - 1)"

lemma orphanpg_eff: "\<exists>E. orphanpg g st = st\<lparr>pevents := E\<rparr>"
proof (cases "list_ex (\<lambda>p. p_stat (pmem st p) = SSTOP) (pg_mem (pgmem st g))")
  case False
  then have "orphanpg g st = st\<lparr>pevents := pevents st\<rparr>" by (simp add: orphanpg_def)
  then show ?thesis by blast
qed (auto simp: orphanpg_def)

lemma adj_jobc_eff:
  "\<exists>E. adj_jobc e g st = set_jobcs (\<lambda>x. pg_jobc (pgmem st x) + (if x = g then jsign e else 0)) E st"
proof -
  have u: "upd_pgrp g (\<lambda>g. g\<lparr>pg_jobc := pg_jobc g + k\<rparr>) st
      = set_jobcs (\<lambda>x. pg_jobc (pgmem st x) + (if x = g then k else 0)) (pevents st) st" for k
    by (simp add: upd_pgrp_def set_jobcs_def fun_eq_iff)
  have m: "upd_pgrp g (\<lambda>g. g\<lparr>pg_jobc := pg_jobc g - 1\<rparr>) st
      = set_jobcs (\<lambda>x. pg_jobc (pgmem st x) + (if x = g then - 1 else 0)) (pevents st) st"
    by (simp add: upd_pgrp_def set_jobcs_def fun_eq_iff)
  show ?thesis
  proof (cases e)
    case True
    then have j: "jsign e = 1" by (simp add: jsign_def)
    have "adj_jobc e g st = set_jobcs (\<lambda>x. pg_jobc (pgmem st x) + (if x = g then jsign e else 0)) (pevents st) st"
      unfolding adj_jobc_def j u using True by simp
    then show ?thesis by blast
  next
    case False
    define st1 where "st1 = set_jobcs (\<lambda>x. pg_jobc (pgmem st x) + (if x = g then - 1 else 0)) (pevents st) st"
    obtain E where E: "orphanpg g st1 = st1\<lparr>pevents := E\<rparr>" using orphanpg_eff by blast
    have "adj_jobc e g st = (if pg_jobc (pgmem st1 g) = 0 then orphanpg g st1 else st1)"
      using False by (simp add: adj_jobc_def Let_def m st1_def)
    also have "\<dots> = set_jobcs (\<lambda>x. pg_jobc (pgmem st x) + (if x = g then jsign e else 0))
        (if pg_jobc (pgmem st1 g) = 0 then E else pevents st) st"
    proof -
      have j: "jsign e = - 1" using False by (simp add: jsign_def)
      show ?thesis unfolding E j by (simp add: st1_def set_jobcs_def)
    qed
    finally show ?thesis by blast
  qed
qed

lemma adj_jobc_pmem: "pmem (adj_jobc e g st) = pmem st"
  using adj_jobc_eff [of e g st] by (auto simp: upd_simps)

lemma set_jobcs_twice: "set_jobcs J E (set_jobcs J' E' st) = set_jobcs J E st"
  by (simp add: set_jobcs_def)

lemma set_jobcs_same: "set_jobcs (\<lambda>g. pg_jobc (pgmem st g)) (pevents st) st = st"
  by (simp add: set_jobcs_def)

text \<open>The children that count in a group other than that of \<open>pgrp\<close>.\<close>

definition jobc_kids :: "pstate \<Rightarrow> addr list \<Rightarrow> addr \<Rightarrow> addr \<Rightarrow> int" where
  "jobc_kids st ps pgrp g = int (length (filter (\<lambda>q. p_pgrp (pmem st q) = g \<and> g \<noteq> pgrp
     \<and> pg_session (pgmem st g) = pg_session (pgmem st pgrp) \<and> p_stat (pmem st q) \<noteq> SZOMB) ps))"

lemma fixjobc_children_eff:
  "\<exists>E. fixjobc_children ps pgrp (pg_session (pgmem st pgrp)) e st
     = set_jobcs (\<lambda>g. pg_jobc (pgmem st g) + jsign e * jobc_kids st ps pgrp g) E st"
proof (induction ps arbitrary: st)
  case Nil
  show ?case by (intro exI [of _ "pevents st"]) (simp add: jobc_kids_def set_jobcs_same)
next
  case (Cons p ps)
  let ?h = "p_pgrp (pmem st p)"
  define c where "c \<longleftrightarrow> ?h \<noteq> pgrp \<and> pg_session (pgmem st ?h) = pg_session (pgmem st pgrp) \<and> p_stat (pmem st p) \<noteq> SZOMB"
  obtain E where 1: "(if c then adj_jobc e ?h st else st)
      = set_jobcs (\<lambda>x. pg_jobc (pgmem st x) + (if c \<and> x = ?h then jsign e else 0)) E st"
    using adj_jobc_eff [of e ?h st] set_jobcs_same [of st, symmetric] by (cases c) fastforce+
  define st1 where "st1 = (if c then adj_jobc e ?h st else st)"
  have s: "pg_session (pgmem st pgrp) = pg_session (pgmem st1 pgrp)" "jobc_kids st1 ps pgrp g = jobc_kids st ps pgrp g" for g
    unfolding st1_def 1 by (simp_all add: upd_simps jobc_kids_def)
  obtain E' where "fixjobc_children ps pgrp (pg_session (pgmem st1 pgrp)) e st1
      = set_jobcs (\<lambda>g. pg_jobc (pgmem st1 g) + jsign e * jobc_kids st1 ps pgrp g) E' st1"
    using Cons.IH by blast
  moreover have "fixjobc_children (p # ps) pgrp x e st = fixjobc_children ps pgrp x e st1" if "x = pg_session (pgmem st pgrp)" for x
    using that by (simp add: st1_def c_def Let_def)
  ultimately have "fixjobc_children (p # ps) pgrp (pg_session (pgmem st pgrp)) e st
      = set_jobcs (\<lambda>g. pg_jobc (pgmem st1 g) + jsign e * jobc_kids st ps pgrp g) E' st1"
    by (simp only: s)
  also have "\<dots> = set_jobcs (\<lambda>g. pg_jobc (pgmem st g) + jsign e * jobc_kids st (p # ps) pgrp g) E' st"
  proof -
    have "(\<lambda>g. pg_jobc (pgmem st1 g) + jsign e * jobc_kids st ps pgrp g)
        = (\<lambda>g. pg_jobc (pgmem st g) + jsign e * jobc_kids st (p # ps) pgrp g)"
      unfolding st1_def 1 by (auto simp: upd_simps jobc_kids_def c_def algebra_simps)
    then show ?thesis by (simp only: st1_def 1 set_jobcs_twice)
  qed
  finally show ?case by blast
qed

definition jobc_delta :: "pstate \<Rightarrow> addr \<Rightarrow> addr \<Rightarrow> addr \<Rightarrow> int" where
  "jobc_delta st p pgrp g =
     (let h = p_pgrp (pmem st (p_pptr (pmem st p)))
      in if g = pgrp \<and> h \<noteq> pgrp \<and> pg_session (pgmem st h) = pg_session (pgmem st pgrp) then 1 else 0)
     + jobc_kids st (p_cptr (pmem st p)) pgrp g"

lemma fixjobc_eff:
  "\<exists>E. fixjobc p pgrp e st = set_jobcs (\<lambda>g. pg_jobc (pgmem st g) + jsign e * jobc_delta st p pgrp g) E st"
proof -
  let ?h = "p_pgrp (pmem st (p_pptr (pmem st p)))"
  define c where "c \<longleftrightarrow> ?h \<noteq> pgrp \<and> pg_session (pgmem st ?h) = pg_session (pgmem st pgrp)"
  obtain E where 1: "(if c then adj_jobc e pgrp st else st)
      = set_jobcs (\<lambda>x. pg_jobc (pgmem st x) + (if c \<and> x = pgrp then jsign e else 0)) E st"
    using adj_jobc_eff [of e pgrp st] set_jobcs_same [of st, symmetric] by (cases c) fastforce+
  define st1 where "st1 = (if c then adj_jobc e pgrp st else st)"
  have s: "pg_session (pgmem st pgrp) = pg_session (pgmem st1 pgrp)" "jobc_kids st1 ps pgrp g = jobc_kids st ps pgrp g"
    "p_cptr (pmem st p) = p_cptr (pmem st1 p)" for g ps
    unfolding st1_def 1 by (simp_all add: upd_simps jobc_kids_def)
  obtain E' where 2: "fixjobc_children (p_cptr (pmem st1 p)) pgrp (pg_session (pgmem st1 pgrp)) e st1
      = set_jobcs (\<lambda>g. pg_jobc (pgmem st1 g) + jsign e * jobc_kids st1 (p_cptr (pmem st1 p)) pgrp g) E' st1"
    using fixjobc_children_eff by blast
  have "fixjobc p pgrp e st = fixjobc_children (p_cptr (pmem st p)) pgrp (pg_session (pgmem st pgrp)) e st1"
    by (simp add: fixjobc_def st1_def c_def Let_def adj_jobc_pmem)
  also have "\<dots> = set_jobcs (\<lambda>g. pg_jobc (pgmem st1 g) + jsign e * jobc_kids st (p_cptr (pmem st p)) pgrp g) E' st1"
    using 2 s by simp
  also have "\<dots> = set_jobcs (\<lambda>g. pg_jobc (pgmem st g) + jsign e * jobc_delta st p pgrp g) E' st"
  proof -
    have "(\<lambda>g. pg_jobc (pgmem st1 g) + jsign e * jobc_kids st (p_cptr (pmem st p)) pgrp g)
        = (\<lambda>g. pg_jobc (pgmem st g) + jsign e * jobc_delta st p pgrp g)"
      unfolding st1_def 1 by (auto simp: upd_simps jobc_delta_def c_def Let_def algebra_simps)
    then show ?thesis by (simp only: st1_def 1 set_jobcs_twice)
  qed
  finally show ?thesis by blast
qed

text \<open>The orphans in the state after the loop of \<open>exit\<close>.\<close>

definition orphan :: "pstate \<Rightarrow> proc \<Rightarrow> proc" where
  "orphan st q = q\<lparr>p_pptr := initproc st, p_flag := p_flag q - {STRC}\<rparr>"

lemma exit_orphans_eff:
  assumes "distinct qs" "initproc st \<notin> set qs"
  shows "\<exists>E. exit_orphans qs st = st\<lparr>pmem := (\<lambda>a. if a \<in> set qs then orphan st (pmem st a)
      else if a = initproc st then (pmem st a)\<lparr>p_cptr := rev qs @ p_cptr (pmem st a)\<rparr> else pmem st a), pevents := E\<rparr>"
  using assms
proof (induction qs arbitrary: st)
  case Nil
  have "(\<lambda>a. if a = initproc st then (pmem st a)\<lparr>p_cptr := p_cptr (pmem st a)\<rparr> else pmem st a) = pmem st" by auto
  then show ?case by (intro exI [of _ "pevents st"]) (simp only: exit_orphans.simps list.set empty_iff if_False rev.simps append_Nil, simp)
next
  case (Cons q qs)
  let ?i = "initproc st"
  define st1 where "st1 = upd_proc q (\<lambda>p. p\<lparr>p_pptr := ?i\<rparr>) (upd_proc ?i (\<lambda>p. p\<lparr>p_cptr := q # p_cptr p\<rparr>) st)"
  define st2 where "st2 = (if STRC \<in> p_flag (pmem st1 q)
    then raise_event (Psignal q SIGKILL) (upd_proc q (\<lambda>p. p\<lparr>p_flag := p_flag p - {STRC}\<rparr>) st1) else st1)"
  have 2: "\<exists>E. st2 = st\<lparr>pmem := (pmem st)(q := orphan st (pmem st q), ?i := (pmem st ?i)\<lparr>p_cptr := q # p_cptr (pmem st ?i)\<rparr>), pevents := E\<rparr>"
    using Cons.prems by (intro exI [of _ "pevents st2"])
      (auto simp: st2_def st1_def upd_proc_def raise_event_def orphan_def fun_upd_twist)
  then obtain E where st2: "st2 = st\<lparr>pmem := (pmem st)(q := orphan st (pmem st q), ?i := (pmem st ?i)\<lparr>p_cptr := q # p_cptr (pmem st ?i)\<rparr>), pevents := E\<rparr>" ..
  have i2: "initproc st2 = ?i" by (simp add: st2)
  have "exit_orphans (q # qs) st = exit_orphans qs st2" by (simp add: st1_def st2_def Let_def)
  moreover obtain E' where "exit_orphans qs st2 = st2\<lparr>pmem := (\<lambda>a. if a \<in> set qs then orphan st2 (pmem st2 a)
      else if a = initproc st2 then (pmem st2 a)\<lparr>p_cptr := rev qs @ p_cptr (pmem st2 a)\<rparr> else pmem st2 a), pevents := E'\<rparr>"
    using Cons.IH [of st2] Cons.prems i2 by auto
  moreover have "(\<lambda>a. if a \<in> set qs then orphan st2 (pmem st2 a)
      else if a = initproc st2 then (pmem st2 a)\<lparr>p_cptr := rev qs @ p_cptr (pmem st2 a)\<rparr> else pmem st2 a)
    = (\<lambda>a. if a \<in> set (q # qs) then orphan st (pmem st a)
      else if a = ?i then (pmem st a)\<lparr>p_cptr := rev (q # qs) @ p_cptr (pmem st a)\<rparr> else pmem st a)"
    using Cons.prems by (auto simp: st2 orphan_def fun_eq_iff)
  ultimately show ?case by (auto simp: st2)
qed

end
