(* ===== verification/Proc_Group.thy ===== *)
theory Proc_Group
  imports Proc_Inv
begin

text \<open>
  Changing groups: \<open>enterpgrp\<close>, \<open>setsid\<close> and \<open>setpgid\<close> keep the invariant, do not panic, and
  only \<open>setsid\<close> changes the session of a process. The deletion of an emptied group
  commutes with the change of the members, so that it can be looked at last, when the members of every
  group are right again.
\<close>

section \<open>Deleting an empty group\<close>

text \<open>Everything but groups and sessions.\<close>

definition same_core :: "pstate \<Rightarrow> pstate \<Rightarrow> bool" where
  "same_core st st' \<longleftrightarrow>
     pmem st' = pmem st \<and> pgmem st' = pgmem st \<and> allproc st' = allproc st \<and> zombproc st' = zombproc st
   \<and> pidhash st' = pidhash st \<and> pidhashmask st' = pidhashmask st \<and> crmem st' = crmem st \<and> crlive st' = crlive st
   \<and> uihashtbl st' = uihashtbl st \<and> uihash st' = uihash st \<and> nextpid st' = nextpid st \<and> pidchecked st' = pidchecked st
   \<and> nprocs st' = nprocs st \<and> maxproc st' = maxproc st \<and> curproc st' = curproc st \<and> initproc st' = initproc st
   \<and> (\<forall>s. s_leader (semem st' s) = s_leader (semem st s)) \<and> set (selive st') \<subseteq> set (selive st)"

lemma pgdelete_eff:
  assumes "g \<in> set (pgrphash st (PIDHASH st (pg_id (pgmem st g))))"
  defines "s \<equiv> pg_session (pgmem st g)" and "k \<equiv> PIDHASH st (pg_id (pgmem st g))"
  shows "\<exists>T. pgdelete g st = Inr (st\<lparr>ttmem := T, pgrphash := (pgrphash st)(k := remove1 g (pgrphash st k)),
    semem := (semem st)(s := (semem st s)\<lparr>s_count := s_count (semem st s) - 1\<rparr>),
    selive := (if s_count (semem st s) - 1 = 0 then remove1 s (selive st) else selive st)\<rparr>)"
proof -
  define T where "T = (if s_ttyp (semem st s) \<noteq> 0 \<and> t_pgrp (ttmem st (s_ttyp (semem st s))) = g
    then (ttmem st)(s_ttyp (semem st s) := (ttmem st (s_ttyp (semem st s)))\<lparr>t_pgrp := 0\<rparr>) else ttmem st)"
  define st1 where "st1 = st\<lparr>ttmem := T\<rparr>"
  have 1: "(if s_ttyp (semem st s) \<noteq> 0 \<and> t_pgrp (ttmem st (s_ttyp (semem st s))) = g
      then st\<lparr>ttmem := (ttmem st)(s_ttyp (semem st s) := (ttmem st (s_ttyp (semem st s)))\<lparr>t_pgrp := 0\<rparr>)\<rparr> else st) = st1"
    by (simp add: st1_def T_def)
  have "pgdelete g st = Inr (st1\<lparr>pgrphash := (pgrphash st)(k := remove1 g (pgrphash st k)),
    semem := (semem st)(s := (semem st s)\<lparr>s_count := s_count (semem st s) - 1\<rparr>),
    selive := (if s_count (semem st s) - 1 = 0 then remove1 s (selive st) else selive st)\<rparr>)"
    using assms(1) unfolding pgdelete_def Let_def s_def [symmetric] k_def [symmetric] 1
    by (simp add: st1_def upd_sess_def)
  then show ?thesis by (auto simp: st1_def)
qed

lemma in_groups: "groups_wf st \<Longrightarrow> g \<in> groups st \<longleftrightarrow> g \<in> set (pgrphash st (PIDHASH st (pg_id (pgmem st g))))"
proof
  assume "groups_wf st" "g \<in> groups st"
  then show "g \<in> set (pgrphash st (PIDHASH st (pg_id (pgmem st g))))" using groups_wfD(2) by (fastforce simp: groups_def)
qed (auto simp: groups_def)

lemma finite_groups:
  assumes "groups_wf st" shows "finite (groups st)"
proof -
  have "pg_id (pgmem st g) \<in> {0..<PID_MAX}" if "g \<in> groups st" for g using groups_wfD(4,5) [OF assms that] by simp
  then have "(\<lambda>g. pg_id (pgmem st g)) ` groups st \<subseteq> {0..<PID_MAX}" by auto
  then show ?thesis using groups_wfD(3) [OF assms] by (meson finite_atLeastLessThan_int finite_imageD finite_subset)
qed

lemma pgdelete_ok:
  assumes wf: "groups_wf st" and co: "counts_ok st" and g: "g \<in> groups st" "pg_mem (pgmem st g) = []"
  shows "\<exists>st'. pgdelete g st = Inr st' \<and> groups_wf st' \<and> counts_ok st' \<and> groups st' = groups st - {g} \<and> same_core st st'"
proof -
  define s k where "s = pg_session (pgmem st g)" and "k = PIDHASH st (pg_id (pgmem st g))"
  obtain T where T: "pgdelete g st = Inr (st\<lparr>ttmem := T, pgrphash := (pgrphash st)(k := remove1 g (pgrphash st k)),
    semem := (semem st)(s := (semem st s)\<lparr>s_count := s_count (semem st s) - 1\<rparr>),
    selive := (if s_count (semem st s) - 1 = 0 then remove1 s (selive st) else selive st)\<rparr>)" (is "_ = Inr ?st'")
    using pgdelete_eff [OF g(1) [unfolded in_groups [OF wf]]] unfolding s_def k_def by blast
  define st' where "st' = ?st'"
  have sel: "pmem st' = pmem st" "pgmem st' = pgmem st" "allproc st' = allproc st" "zombproc st' = zombproc st"
    "pidhashmask st' = pidhashmask st" "pgrphash st' x = (if x = k then remove1 g (pgrphash st k) else pgrphash st x)"
    "semem st' y = (if y = s then (semem st s)\<lparr>s_count := s_count (semem st s) - 1\<rparr> else semem st y)"
    "selive st' = (if s_count (semem st s) - 1 = 0 then remove1 s (selive st) else selive st)" for x y
    by (simp_all add: st'_def)
  have P: "procs st' = procs st" by (simp add: procs_def sel)
  have gk: "x \<noteq> k \<Longrightarrow> g \<notin> set (pgrphash st x)" for x using groups_wfD(2) [OF wf] by (auto simp: k_def)
  have hs: "set (pgrphash st' x) = set (pgrphash st x) - {g}" for x
    using groups_wfD(1) [OF wf] gk by (auto simp: sel)
  then have G: "groups st' = groups st - {g}" by (auto simp: groups_def)
  have H: "PIDHASH st' x = PIDHASH st x" for x by (simp add: PIDHASH_def sel)
  have nog: "p_pgrp (pmem st a) \<noteq> g" if "a \<in> procs st" for a using groups_wfD(8) [OF wf g(1)] g(2) that by auto
  have "distinct (pgrphash st' x)" for x using groups_wfD(1) [OF wf] by (auto simp: sel)
  moreover have "inj_on (\<lambda>g. pg_id (pgmem st g)) (groups st - {g})" using groups_wfD(3) [OF wf] by (rule inj_on_subset) auto
  ultimately have wf': "groups_wf st'"
    unfolding groups_wf_def G P H sel(1,2) hs using groups_wfD(2,4-8) [OF wf] nog by auto
  have sg: "s \<in> set (selive st)" using counts_okD(3) [OF co g(1)] by (simp add: s_def)
  have cs: "{x \<in> groups st'. pg_session (pgmem st x) = y} = {x \<in> groups st. pg_session (pgmem st x) = y} - (if y = s then {g} else {})" for y
    using G by (auto simp: s_def)
  have fin: "finite {x \<in> groups st. pg_session (pgmem st x) = y}" for y using finite_groups [OF wf] by simp
  have gs: "g \<in> {x \<in> groups st. pg_session (pgmem st x) = s}" using g by (simp add: s_def)
  have card': "int (card {x \<in> groups st'. pg_session (pgmem st x) = y})
      = int (card {x \<in> groups st. pg_session (pgmem st x) = y}) - (if y = s then 1 else 0)" for y
  proof (cases "y = s")
    case True
    then show ?thesis using card_Suc_Diff1 [OF fin gs] unfolding cs by simp
  qed (simp add: cs)
  have cnt: "s_count (semem st' y) = int (card {x \<in> groups st'. pg_session (pgmem st x) = y}) \<and> s_count (semem st' y) \<noteq> 0"
    if "y \<in> set (selive st')" for y
    using that counts_okD(1,4,5) [OF co] unfolding card' by (auto simp: sel split: if_splits)
  have empty: "{x \<in> groups st'. pg_session (pgmem st x) = s} = {}" if "s_count (semem st s) - 1 = 0"
    using card' [of s] counts_okD(4) [OF co sg] that finite_groups [OF wf'] by (simp add: sel)
  have live: "pg_session (pgmem st x) \<in> set (selive st')" if "x \<in> groups st'" for x
    using counts_okD(1,3) [OF co] empty that G by (cases "pg_session (pgmem st x) = s") (auto simp: sel)
  have sl: "distinct (selive st')" "set (selive st') \<subseteq> set (selive st)" using counts_okD(1) [OF co] by (auto simp: sel set_remove1_subset)
  have "counts_ok st'" unfolding counts_ok_def sel(1,2) using sl counts_okD(2) [OF co] live cnt by blast
  moreover have "same_core st st'" using sl(2) by (simp add: same_core_def st'_def)
  ultimately show ?thesis using T wf' G by (auto simp: st'_def)
qed

section \<open>Moving a process\<close>

definition moved :: "addr \<Rightarrow> addr \<Rightarrow> pstate \<Rightarrow> pstate" where
  "moved p pg st =
     upd_pgrp pg (\<lambda>g. g\<lparr>pg_mem := p # pg_mem g\<rparr>) (upd_proc p (\<lambda>q. q\<lparr>p_pgrp := pg\<rparr>)
       (upd_pgrp (p_pgrp (pmem st p)) (\<lambda>g. g\<lparr>pg_mem := remove1 p (pg_mem g)\<rparr>) st))"

lemma pgdelete_commute:
  assumes "\<And>g. pg_session (f g) = pg_session g" "\<And>g. pg_id (f g) = pg_id g"
  shows "bindE (pgdelete g st) (\<lambda>st. Inr (upd_pgrp pg f (upd_proc p h st))) = pgdelete g (upd_pgrp pg f (upd_proc p h st))"
proof -
  have "PIDHASH (upd_pgrp pg f (upd_proc p h st)) x = PIDHASH st x" for x by (simp add: PIDHASH_def upd_simps)
  moreover have "pg_session (pgmem (upd_pgrp pg f (upd_proc p h st)) g) = pg_session (pgmem st g)"
    "pg_id (pgmem (upd_pgrp pg f (upd_proc p h st)) g) = pg_id (pgmem st g)" by (simp_all add: upd_simps assms)
  ultimately show ?thesis
    by (simp add: pgdelete_def Let_def upd_simps) (simp add: upd_pgrp_def upd_proc_def upd_sess_def)
qed

lemma unlink_moved:
  assumes "p \<in> set (pg_mem (pgmem st (p_pgrp (pmem st p))))" "pg \<noteq> p_pgrp (pmem st p)"
  shows "bindE (pg_unlink msg p st) (\<lambda>st. Inr (upd_pgrp pg (\<lambda>g. g\<lparr>pg_mem := p # pg_mem g\<rparr>) (upd_proc p (\<lambda>q. q\<lparr>p_pgrp := pg\<rparr>) st)))
    = (if pg_mem (pgmem (moved p pg st) (p_pgrp (pmem st p))) = [] then pgdelete (p_pgrp (pmem st p)) (moved p pg st)
       else Inr (moved p pg st))"
proof -
  define old where "old = p_pgrp (pmem st p)"
  have e: "pg_mem (pgmem (moved p pg st) old) = remove1 p (pg_mem (pgmem st old))"
    using assms(2) by (simp add: moved_def upd_simps old_def)
  show ?thesis using assms(1) pgdelete_commute [of "\<lambda>g. g\<lparr>pg_mem := p # pg_mem g\<rparr>"]
    unfolding old_def [symmetric] e by (simp add: pg_unlink_def Let_def old_def [symmetric] upd_simps moved_def)
qed

lemma moved_sel:
  assumes "pg \<noteq> p_pgrp (pmem st p)"
  shows "pmem (moved p pg st) a = (if a = p then (pmem st p)\<lparr>p_pgrp := pg\<rparr> else pmem st a)"
    "pgmem (moved p pg st) g = (if g = pg then (pgmem st g)\<lparr>pg_mem := p # pg_mem (pgmem st g)\<rparr>
       else if g = p_pgrp (pmem st p) then (pgmem st g)\<lparr>pg_mem := remove1 p (pg_mem (pgmem st g))\<rparr> else pgmem st g)"
    "allproc (moved p pg st) = allproc st" "zombproc (moved p pg st) = zombproc st" "pidhash (moved p pg st) = pidhash st"
    "pgrphash (moved p pg st) = pgrphash st" "semem (moved p pg st) = semem st" "selive (moved p pg st) = selive st"
    "crmem (moved p pg st) = crmem st" "crlive (moved p pg st) = crlive st" "uihashtbl (moved p pg st) = uihashtbl st"
    "uihash (moved p pg st) = uihash st" "pidhashmask (moved p pg st) = pidhashmask st" "nextpid (moved p pg st) = nextpid st"
    "pidchecked (moved p pg st) = pidchecked st" "nprocs (moved p pg st) = nprocs st" "maxproc (moved p pg st) = maxproc st"
    "curproc (moved p pg st) = curproc st" "initproc (moved p pg st) = initproc st"
  using assms by (simp_all add: moved_def upd_simps)

lemma moved_ok:
  assumes wf: "groups_wf st" and co: "counts_ok st" and p: "p \<in> procs st" and pg: "pg \<in> groups st" "pg \<noteq> p_pgrp (pmem st p)"
  shows "groups_wf (moved p pg st)" "counts_ok (moved p pg st)" "groups (moved p pg st) = groups st"
proof -
  note sel = moved_sel [OF pg(2)]
  define st' where "st' = moved p pg st"
  note sel' = sel [folded st'_def]
  have P: "procs st' = procs st" and G: "groups st' = groups st" by (simp_all add: procs_def groups_def sel')
  show "groups (moved p pg st) = groups st" using G by (simp add: st'_def)
  have H: "PIDHASH st' x = PIDHASH st x" for x by (simp add: PIDHASH_def sel')
  have gd: "pg_id (pgmem st' g) = pg_id (pgmem st g)" "pg_session (pgmem st' g) = pg_session (pgmem st g)" for g by (simp_all add: sel')
  have pp: "p_pgrp (pmem st' a) = (if a = p then pg else p_pgrp (pmem st a))" for a by (simp add: sel')
  have mem: "distinct (pg_mem (pgmem st' g)) \<and> set (pg_mem (pgmem st' g)) = {a \<in> procs st. p_pgrp (pmem st' a) = g}"
    if g: "g \<in> groups st" for g
  proof -
    have o: "distinct (pg_mem (pgmem st g))" "set (pg_mem (pgmem st g)) = {a \<in> procs st. p_pgrp (pmem st a) = g}"
      using groups_wfD(7,8) [OF wf g] by auto
    consider "g = pg" | "g = p_pgrp (pmem st p)" | "g \<noteq> pg \<and> g \<noteq> p_pgrp (pmem st p)" by blast
    then show ?thesis
    proof cases
      case 1
      then show ?thesis using o p pg(2) unfolding pp by (auto simp: sel')
    next
      case 2
      then show ?thesis using o p pg(2) unfolding pp by (auto simp: sel')
    next
      case 3
      then show ?thesis using o unfolding pp by (auto simp: sel')
    qed
  qed
  have "groups_wf st'" unfolding groups_wf_def G P H gd
    using groups_wfD(1-6) [OF wf] mem pg(1) by (auto simp: pp sel'(6))
  then show "groups_wf (moved p pg st)" by (simp add: st'_def)
  have "counts_ok st'" using co unfolding counts_ok_def G gd sel'(7,8) .
  then show "counts_ok (moved p pg st)" by (simp add: st'_def)
qed

text \<open>The counts for job control do not matter to the other parts.\<close>

lemma set_jobcs_inv:
  "groups (set_jobcs J E st) = groups st" "procs (set_jobcs J E st) = procs st"
  "groups_wf (set_jobcs J E st) = groups_wf st" "counts_ok (set_jobcs J E st) = counts_ok st"
  "jobc_delta (set_jobcs J E st) = jobc_delta st" "qualifies (set_jobcs J E st) = qualifies st"
  "p_session (set_jobcs J E st) = p_session st"
proof -
  show G: "groups (set_jobcs J E st) = groups st" and P: "procs (set_jobcs J E st) = procs st"
    by (simp_all add: groups_def procs_def upd_simps)
  have H: "PIDHASH (set_jobcs J E st) x = PIDHASH st x" for x by (simp add: PIDHASH_def upd_simps)
  show "groups_wf (set_jobcs J E st) = groups_wf st" by (simp add: groups_wf_def G P H upd_simps)
  show "counts_ok (set_jobcs J E st) = counts_ok st" by (simp add: counts_ok_def G upd_simps)
  show "jobc_delta (set_jobcs J E st) = jobc_delta st" by (simp add: fun_eq_iff jobc_delta_def jobc_kids_def Let_def upd_simps)
  show S: "p_session (set_jobcs J E st) = p_session st" by (simp add: fun_eq_iff p_session_def upd_simps)
  show "qualifies (set_jobcs J E st) = qualifies st" by (simp add: fun_eq_iff qualifies_def S Let_def upd_simps)
qed

definition enter_frame :: "pstate \<Rightarrow> pstate \<Rightarrow> bool" where
  "enter_frame st st' \<longleftrightarrow>
     allproc st' = allproc st \<and> zombproc st' = zombproc st
   \<and> pidhash st' = pidhash st \<and> pidhashmask st' = pidhashmask st \<and> crmem st' = crmem st \<and> crlive st' = crlive st
   \<and> uihashtbl st' = uihashtbl st \<and> uihash st' = uihash st \<and> nextpid st' = nextpid st \<and> pidchecked st' = pidchecked st
   \<and> nprocs st' = nprocs st \<and> maxproc st' = maxproc st \<and> curproc st' = curproc st \<and> initproc st' = initproc st"

definition creds_same :: "pstate \<Rightarrow> pstate \<Rightarrow> bool" where
  "creds_same st st' \<longleftrightarrow>
     procs st' = procs st \<and> crmem st' = crmem st \<and> crlive st' = crlive st \<and> (\<forall>a. p_cred (pmem st' a) = p_cred (pmem st a))"

lemma move_pgrp_ok:
  assumes wf: "groups_wf st" and co: "counts_ok st" and ne: "\<And>g. g \<in> groups st \<Longrightarrow> g \<noteq> pg \<Longrightarrow> pg_mem (pgmem st g) \<noteq> []"
    and p: "p \<in> procs st" and pg: "pg \<in> groups st" "pg \<noteq> p_pgrp (pmem st p)"
  defines "old \<equiv> p_pgrp (pmem st p)"
  shows "\<exists>st'. move_pgrp p pg st = Inr st' \<and> groups_ok st' \<and> counts_ok st' \<and> enter_frame st st'
    \<and> groups st' \<subseteq> groups st \<and> groups st - {old} \<subseteq> groups st'
    \<and> pmem st' = (pmem st)(p := (pmem st p)\<lparr>p_pgrp := pg\<rparr>)
    \<and> (\<forall>g. pg_session (pgmem st' g) = pg_session (pgmem st g) \<and> pg_id (pgmem st' g) = pg_id (pgmem st g)
         \<and> pg_jobc (pgmem st' g) = pg_jobc (pgmem st g) + jobc_delta st p pg g - jobc_delta st p old g)
    \<and> (\<forall>s. s_leader (semem st' s) = s_leader (semem st s)) \<and> set (selive st') \<subseteq> set (selive st)"
proof -
  obtain E1 where 1: "fixjobc p pg True st = set_jobcs (\<lambda>g. pg_jobc (pgmem st g) + jsign True * jobc_delta st p pg g) E1 st"
    (is "_ = ?st1") using fixjobc_eff by blast
  have pp: "p_pgrp (pmem ?st1 p) = old" by (simp add: upd_simps old_def)
  obtain E2 where 2: "fixjobc p old False ?st1 = set_jobcs (\<lambda>g. pg_jobc (pgmem ?st1 g) + jsign False * jobc_delta ?st1 p old g) E2 ?st1"
    using fixjobc_eff by blast
  define J where "J g = pg_jobc (pgmem st g) + jobc_delta st p pg g - jobc_delta st p old g" for g
  define st2 where "st2 = set_jobcs J E2 st"
  have "fixjobc p old False ?st1 = st2"
    unfolding 2 st2_def set_jobcs_twice set_jobcs_inv(5) by (simp add: upd_simps J_def [abs_def] jsign_def algebra_simps)
  then have mv: "move_pgrp p pg st = bindE (pg_unlink ''enterpgrp: can't find p on old pgrp'' p st2)
      (\<lambda>st. Inr (upd_pgrp pg (\<lambda>g. g\<lparr>pg_mem := p # pg_mem g\<rparr>) (upd_proc p (\<lambda>p. p\<lparr>p_pgrp := pg\<rparr>) st)))"
    unfolding move_pgrp_def Let_def 1 pp by simp
  have wf2: "groups_wf st2" and co2: "counts_ok st2" and G2: "groups st2 = groups st" and P2: "procs st2 = procs st"
    using wf co by (simp_all add: st2_def set_jobcs_inv)
  have old2: "p_pgrp (pmem st2 p) = old" by (simp add: st2_def upd_simps old_def)
  have og: "old \<in> groups st" using groups_wfD(6) [OF wf p] by (simp add: old_def)
  have pin: "p \<in> set (pg_mem (pgmem st2 (p_pgrp (pmem st2 p))))"
    using groups_wfD(8) [OF wf og] p by (simp add: old2) (simp add: st2_def upd_simps old_def)
  have pg2: "pg \<in> groups st2" "pg \<noteq> p_pgrp (pmem st2 p)" using pg by (simp_all add: G2 old2 old_def)
  define st3 where "st3 = moved p pg st2"
  have 3: "groups_wf st3" "counts_ok st3" "groups st3 = groups st"
    using moved_ok [OF wf2 co2 _ pg2] p by (simp_all add: st3_def P2 G2)
  note sel = moved_sel [OF pg2(2), folded st3_def, unfolded old2]
  have ne3: "pg_mem (pgmem st3 g) \<noteq> []" if "g \<in> groups st" "g \<noteq> old" for g
    using ne that by (auto simp: sel st2_def upd_simps)
  have r: "move_pgrp p pg st = (if pg_mem (pgmem st3 old) = [] then pgdelete old st3 else Inr st3)"
    unfolding mv using unlink_moved [OF pin pg2(2)] by (simp add: old2 st3_def)
  obtain st' where st': "move_pgrp p pg st = Inr st'" "groups_ok st'" "counts_ok st'" "same_core st3 st'"
    "groups st' \<subseteq> groups st" "groups st - {old} \<subseteq> groups st'"
  proof (cases "pg_mem (pgmem st3 old) = []")
    case True
    then obtain st' where "pgdelete old st3 = Inr st'" "groups_wf st'" "counts_ok st'" "groups st' = groups st3 - {old}" "same_core st3 st'"
      using pgdelete_ok [OF 3(1,2), of old] og 3(3) by auto
    moreover from this have "groups_ok st'" using ne3 by (auto simp: groups_ok_def same_core_def 3(3))
    ultimately show thesis using that [of st'] r True 3(3) by auto
  next
    case False
    moreover have "groups_ok st3" using 3 ne3 False by (auto simp: groups_ok_def)
    moreover have "same_core st3 st3" by (simp add: same_core_def)
    ultimately show thesis using that [of st3] r 3 by auto
  qed
  have f: "enter_frame st st'" using st'(4) unfolding enter_frame_def same_core_def sel by (simp add: st2_def upd_simps)
  have m: "pmem st' = pmem st3" "pgmem st' = pgmem st3" using st'(4) by (simp_all add: same_core_def)
  have "pmem st3 = (pmem st)(p := (pmem st p)\<lparr>p_pgrp := pg\<rparr>)" by (auto simp: fun_eq_iff sel st2_def upd_simps)
  moreover have "pg_session (pgmem st3 g) = pg_session (pgmem st g) \<and> pg_id (pgmem st3 g) = pg_id (pgmem st g) \<and> pg_jobc (pgmem st3 g) = J g" for g
    by (simp add: sel st2_def upd_simps)
  moreover have "(\<forall>s. s_leader (semem st' s) = s_leader (semem st s)) \<and> set (selive st') \<subseteq> set (selive st)"
    using st'(4) unfolding same_core_def sel by (simp add: st2_def upd_simps)
  ultimately show ?thesis using st' f m by (auto simp: J_def)
qed

section \<open>Who counts after a move\<close>

definition jcount :: "pstate \<Rightarrow> addr \<Rightarrow> int" where
  "jcount st g = int (card {a \<in> set (allproc st). p_pgrp (pmem st a) = g \<and> qualifies st a})"

lemma jcount_sum: "jcount st g = (\<Sum>a \<in> set (allproc st). of_bool (p_pgrp (pmem st a) = g \<and> qualifies st a))"
proof -
  have "(\<Sum>a \<in> set (allproc st). of_bool (p_pgrp (pmem st a) = g \<and> qualifies st a)) = int (card (set (allproc st) \<inter> {a. p_pgrp (pmem st a) = g \<and> qualifies st a}))"
    by simp
  also have "set (allproc st) \<inter> {a. p_pgrp (pmem st a) = g \<and> qualifies st a} = {a \<in> set (allproc st). p_pgrp (pmem st a) = g \<and> qualifies st a}" by auto
  finally show ?thesis by (simp add: jcount_def)
qed

lemma jobc_kids_sum:
  assumes ok: "links_ok st" and p: "p \<in> procs st"
  shows "jobc_kids st (p_cptr (pmem st p)) pg g = (\<Sum>a \<in> set (allproc st). of_bool (p_pptr (pmem st a) = p \<and> p_pgrp (pmem st a) = g
     \<and> g \<noteq> pg \<and> pg_session (pgmem st g) = pg_session (pgmem st pg)))"
proof -
  define Q where "Q q \<longleftrightarrow> p_pgrp (pmem st q) = g \<and> g \<noteq> pg \<and> pg_session (pgmem st g) = pg_session (pgmem st pg)" for q
  have "jobc_kids st (p_cptr (pmem st p)) pg g = int (card (set (filter (\<lambda>q. Q q \<and> p_stat (pmem st q) \<noteq> SZOMB) (p_cptr (pmem st p)))))"
    unfolding jobc_kids_def Q_def using distinct_card [OF distinct_filter [OF links_okD(11) [OF ok p]], symmetric] by (simp only: conj_assoc)
  also have "set (filter (\<lambda>q. Q q \<and> p_stat (pmem st q) \<noteq> SZOMB) (p_cptr (pmem st p))) = {a \<in> set (allproc st). p_pptr (pmem st a) = p \<and> Q a}"
    using links_okD(3,9,10) [OF ok] p by (auto simp: procs_def)
  also have "int (card \<dots>) = (\<Sum>a \<in> set (allproc st). of_bool (p_pptr (pmem st a) = p \<and> Q a))"
  proof -
    have "(\<Sum>a \<in> set (allproc st). of_bool (p_pptr (pmem st a) = p \<and> Q a)) = int (card (set (allproc st) \<inter> {a. p_pptr (pmem st a) = p \<and> Q a}))" by simp
    also have "set (allproc st) \<inter> {a. p_pptr (pmem st a) = p \<and> Q a} = {a \<in> set (allproc st). p_pptr (pmem st a) = p \<and> Q a}" by auto
    finally show ?thesis by simp
  qed
  finally show ?thesis by (simp add: Q_def)
qed

lemma no_own_parent: "links_ok st \<Longrightarrow> a \<in> set (allproc st) \<Longrightarrow> p_pptr (pmem st a) \<noteq> a"
proof
  assume ok: "links_ok st" and a: "a \<in> set (allproc st)" "p_pptr (pmem st a) = a"
  obtain ys zs where s: "allproc st = ys @ a # zs" using a by (auto simp: in_set_conv_decomp)
  show False
  proof (cases "zs = []")
    case True
    obtain xs p0 where "allproc st = xs @ [initproc st, p0]" "p_pptr (pmem st p0) = 0" using links_okD(5) [OF ok] by blast
    then have "a = last (allproc st)" "p_pptr (pmem st (last (allproc st))) = 0" using s True by simp_all
    then have "a = 0" using a by simp
    then show False using a links_okD(4) [OF ok] by (simp add: procs_def)
  next
    case False
    then have "a \<in> set zs" using links_okD(7) [OF ok s] a by simp
    then show False using links_okD(1) [OF ok] s by simp
  qed
qed

lemma jcount_move:
  assumes ok: "links_ok st" and p: "p \<in> set (allproc st)"
    and st': "pmem st' = (pmem st)(p := (pmem st p)\<lparr>p_pgrp := pg\<rparr>)" "allproc st' = allproc st"
      "\<And>g. pg_session (pgmem st' g) = pg_session (pgmem st g)"
  shows "jcount st' g = jcount st g + jobc_delta st p pg g - jobc_delta st p (p_pgrp (pmem st p)) g"
proof -
  define old h where "old = p_pgrp (pmem st p)" and "h = p_pgrp (pmem st (p_pptr (pmem st p)))"
  define S where "S x = pg_session (pgmem st x)" for x
  define K :: "addr \<Rightarrow> addr \<Rightarrow> int" where "K x a = of_bool (p_pptr (pmem st a) = p \<and> p_pgrp (pmem st a) = g \<and> g \<noteq> x \<and> S g = S x)" for x a
  define D :: "addr \<Rightarrow> int" where "D x = of_bool (g = x \<and> h \<noteq> x \<and> S h = S x)" for x
  have pp: "p \<in> procs st" using p by (simp add: procs_def)
  have par: "p_pptr (pmem st a) \<noteq> a" if "a \<in> set (allproc st)" for a using no_own_parent [OF ok that] .
  have dl: "jobc_delta st p x g = D x + (\<Sum>a \<in> set (allproc st). K x a)" for x
    using jobc_kids_sum [OF ok pp, of x g] by (simp add: jobc_delta_def Let_def h_def D_def K_def S_def)
  define I where "I s a = (of_bool (p_pgrp (pmem s a) = g \<and> qualifies s a) :: int)" for s a
  have "I st' a = I st a + ((if a = p then D pg - D old else 0) + (K pg a - K old a))" if a: "a \<in> set (allproc st)" for a
  proof (cases "a = p")
    case True
    then have "I st' a = D pg" "I st a = D old" "K pg a = 0" "K old a = 0"
      using par [OF p] by (auto simp: I_def D_def K_def qualifies_def p_session_def Let_def st' h_def old_def S_def)
    then show ?thesis using True by simp
  next
    case False
    show ?thesis
    proof (cases "p_pptr (pmem st a) = p")
      case True
      then have "I st' a = K pg a" "I st a = K old a"
        using False by (auto simp: I_def K_def qualifies_def p_session_def Let_def st' old_def S_def)
      then show ?thesis using False by simp
    qed (use False in \<open>simp add: I_def K_def qualifies_def p_session_def Let_def st'\<close>)
  qed
  then have "(\<Sum>a \<in> set (allproc st). I st' a) = (\<Sum>a \<in> set (allproc st). I st a + ((if a = p then D pg - D old else 0) + (K pg a - K old a)))"
    by (intro sum.cong) auto
  also have "\<dots> = (\<Sum>a \<in> set (allproc st). I st a) + ((D pg - D old) + ((\<Sum>a \<in> set (allproc st). K pg a) - (\<Sum>a \<in> set (allproc st). K old a)))"
    using p by (simp only: sum.distrib sum_subtractf sum.delta finite_set) simp
  finally show ?thesis unfolding jcount_sum dl old_def [symmetric] I_def [symmetric] st'(2) by simp
qed

section \<open>Entering a group\<close>

lemma users_frame:
  assumes "enter_frame st st'" "\<And>a. p_cred (pmem st' a) = p_cred (pmem st a)"
  shows "users_ok st' = users_ok st"
  using assms unfolding users_ok_def enter_frame_def UIHASH_def procs_def by simp

lemma links_frame:
  assumes "enter_frame st st'" "\<And>a. p_pid (pmem st' a) = p_pid (pmem st a) \<and> p_pptr (pmem st' a) = p_pptr (pmem st a)
    \<and> p_cptr (pmem st' a) = p_cptr (pmem st a) \<and> p_stat (pmem st' a) = p_stat (pmem st a) \<and> p_oppid (pmem st' a) = p_oppid (pmem st a)"
  shows "links_ok st' = links_ok st"
  using assms unfolding links_ok_def enter_frame_def procs_def by simp

lemma pids_frame:
  assumes "enter_frame st st'" "\<And>a. p_pid (pmem st' a) = p_pid (pmem st a)"
    and "\<And>g. g \<in> groups st' \<Longrightarrow> g \<in> groups st \<and> pg_id (pgmem st' g) = pg_id (pgmem st g)
      \<or> (\<exists>a \<in> procs st. pg_id (pgmem st' g) = p_pid (pmem st a))"
    and ok: "pids_ok st"
  shows "pids_ok st'"
proof -
  have f: "procs st' = procs st" "PIDHASH st' = PIDHASH st" "allproc st' = allproc st" "pidhash st' = pidhash st"
    "nextpid st' = nextpid st" "pidchecked st' = pidchecked st"
    using assms(1) by (simp_all add: enter_frame_def procs_def PIDHASH_def fun_eq_iff)
  have "\<not> (nextpid st < pg_id (pgmem st' g) \<and> pg_id (pgmem st' g) < pidchecked st)" if "g \<in> groups st'" for g
    using assms(3) [OF that] pids_okD(6,7) [OF ok] by auto
  then show ?thesis unfolding pids_ok_def f assms(2) using pids_okD [OF ok] by blast
qed

lemma boot_frame:
  assumes ok: "links_ok st" "boot_ok st" and f: "enter_frame st st'"
    and s: "p_session st' (initproc st) = p_session st (initproc st)"
      "p_session st' (last (allproc st)) = p_session st (last (allproc st))"
      "\<And>s. s_leader (semem st' s) = s_leader (semem st s)"
  shows "boot_ok st'" "boot_sessions st' = boot_sessions st"
  using assms by (simp_all add: boot_ok_def boot_sessions_def SESS_LEADER_def enter_frame_def)

text \<open>Joining an existing group of the session.\<close>

lemma enter_existing:
  assumes ok: "proc_ok st" and p: "p \<in> set (allproc st)"
    and pg: "pg \<in> groups st" "pg \<noteq> p_pgrp (pmem st p)" "pg_session (pgmem st pg) = p_session st p" and nl: "\<not> SESS_LEADER st p"
  shows "\<exists>st'. move_pgrp p pg st = Inr st' \<and> proc_ok st' \<and> enter_frame st st' \<and> pmem st' = (pmem st)(p := (pmem st p)\<lparr>p_pgrp := pg\<rparr>)
    \<and> (\<forall>a. p_session st' a = p_session st a) \<and> (\<forall>g. pg_id (pgmem st' g) = pg_id (pgmem st g))"
proof -
  have o: "links_ok st" "pids_ok st" "groups_ok st" "sessions_ok st" "boot_ok st" "jobc_ok st" "users_ok st"
    using ok by (simp_all add: proc_ok_def)
  have pp: "p \<in> procs st" using p by (simp add: procs_def)
  have wf: "groups_wf st" "counts_ok st" using o(3,4) by (simp_all add: groups_ok_def sessions_ok_def)
  obtain st' where m: "move_pgrp p pg st = Inr st'" "groups_ok st'" "counts_ok st'" "enter_frame st st'" "groups st' \<subseteq> groups st"
    "pmem st' = (pmem st)(p := (pmem st p)\<lparr>p_pgrp := pg\<rparr>)" "\<And>s. s_leader (semem st' s) = s_leader (semem st s)"
    "set (selive st') \<subseteq> set (selive st)"
    and g: "\<And>g. pg_session (pgmem st' g) = pg_session (pgmem st g)" "\<And>g. pg_id (pgmem st' g) = pg_id (pgmem st g)"
      "\<And>g. pg_jobc (pgmem st' g) = pg_jobc (pgmem st g) + jobc_delta st p pg g - jobc_delta st p (p_pgrp (pmem st p)) g"
    using move_pgrp_ok [OF wf groups_okD(7) [OF o(3)] pp pg(1,2)] by blast
  have fr: "procs st' = procs st" "allproc st' = allproc st" using m(4) by (simp_all add: enter_frame_def procs_def)
  have sess: "p_session st' a = p_session st a" for a using pg(3) by (simp add: p_session_def m(6) g)
  have pgid: "p_pgid st' a = p_pgid st a" if "a \<noteq> p" for a using that by (simp add: p_pgid_def m(6) g)
  have fld: "p_pid (pmem st' a) = p_pid (pmem st a) \<and> p_pptr (pmem st' a) = p_pptr (pmem st a)
    \<and> p_cptr (pmem st' a) = p_cptr (pmem st a) \<and> p_stat (pmem st' a) = p_stat (pmem st a) \<and> p_oppid (pmem st' a) = p_oppid (pmem st a)"
    "p_cred (pmem st' a) = p_cred (pmem st a)" for a by (simp_all add: m(6))
  have ld: "s_leader (semem st' s) \<in> set (allproc st') \<and> p_session st' (s_leader (semem st' s)) = s
      \<and> p_pgid st' (s_leader (semem st' s)) = p_pid (pmem st' (s_leader (semem st' s)))"
    if "s \<in> set (selive st')" "s_leader (semem st' s) \<noteq> 0" for s
  proof -
    have l: "s_leader (semem st s) \<in> set (allproc st) \<and> p_session st (s_leader (semem st s)) = s
        \<and> p_pgid st (s_leader (semem st s)) = p_pid (pmem st (s_leader (semem st s)))"
      using sessions_okD(6) [OF o(4), of s] that m(7,8) by auto
    then have "s_leader (semem st s) \<noteq> p" using nl by (auto simp: SESS_LEADER_def)
    then show ?thesis using l by (simp add: m(7) fr sess pgid fld)
  qed
  have own: "pg_session (pgmem st' g) = p_session st' a" if "g \<in> groups st'" "a \<in> procs st'" "pg_id (pgmem st' g) = p_pid (pmem st' a)" for g a
    using sessions_okD(7) [OF o(4), of g a] that m(5) by (auto simp: g sess fr fld)
  have so: "sessions_ok st'" unfolding sessions_ok_def leaders_ok_def using m(3) ld own by blast
  have b: "boot_ok st'" "boot_sessions st' = boot_sessions st" using boot_frame [OF o(1,5) m(4) sess sess m(7)] by auto
  have jc: "pg_jobc (pgmem st' x) = jcount st' x" if "x \<in> groups st'" "pg_session (pgmem st' x) \<notin> boot_sessions st'" for x
    using o(6) that m(5) unfolding jobc_ok_def jcount_def [symmetric] g b jcount_move [OF o(1) p m(6) fr(2) g(1)] by auto
  then have "jobc_ok st'" by (simp add: jobc_ok_def jcount_def)
  moreover have "links_ok st'" using links_frame [OF m(4) fld(1)] o(1) by simp
  moreover have "users_ok st'" using users_frame [OF m(4) fld(2)] o(7) by simp
  moreover have "pids_ok st'" by (rule pids_frame [OF m(4) _ _ o(2)]) (use m(5) g(2) fld in auto)
  ultimately have "proc_ok st'" using m(2) so b by (simp add: proc_ok_def)
  then show ?thesis using m sess g(2) by blast
qed

text \<open>A new group, in a new session or in that of the process.\<close>

lemma new_pgrp_sel:
  "pgmem (new_pgrp p pgid mk npg nse st) = (pgmem st)(npg := \<lparr>pg_mem = [], pg_session = (if mk then nse else p_session st p), pg_id = pgid, pg_jobc = 0\<rparr>)"
  "pgrphash (new_pgrp p pgid mk npg nse st) = (pgrphash st)(PIDHASH st pgid := npg # pgrphash st (PIDHASH st pgid))"
  "pmem (new_pgrp p pgid mk npg nse st) a = (if mk \<and> a = p then (pmem st p)\<lparr>p_flag := p_flag (pmem st p) - {SCTTY}\<rparr> else pmem st a)"
  "selive (new_pgrp p pgid mk npg nse st) = (if mk then nse # selive st else selive st)"
  "semem (new_pgrp p pgid mk npg nse st) s = (if mk then (if s = nse then \<lparr>s_count = 1, s_leader = p, s_ttyvp = 0, s_ttyp = 0,
      s_login = s_login (semem st (p_session st p))\<rparr> else semem st s)
    else if s = p_session st p then (semem st s)\<lparr>s_count := s_count (semem st s) + 1\<rparr> else semem st s)"
  "enter_frame st (new_pgrp p pgid mk npg nse st)"
  by (simp_all add: new_pgrp_def new_session_def Let_def upd_simps PIDHASH_def enter_frame_def)

lemma new_pgrp_ok:
  assumes ok: "proc_ok st" and p: "p \<in> set (allproc st)" and npg: "npg \<notin> groups st"
    and mk: "mk \<Longrightarrow> nse \<notin> set (selive st) \<and> nse \<noteq> 0" and no: "\<And>g. g \<in> groups st \<Longrightarrow> pg_id (pgmem st g) \<noteq> p_pid (pmem st p)"
  defines "st1 \<equiv> new_pgrp p (p_pid (pmem st p)) mk npg nse st"
  shows "groups st1 = insert npg (groups st)" "groups_wf st1" "counts_ok st1"
proof -
  have o: "groups_ok st" "sessions_ok st" "pids_ok st" using ok by (simp_all add: proc_ok_def)
  note sel = new_pgrp_sel [where p = p and pgid = "p_pid (pmem st p)" and mk = mk and npg = npg and nse = nse and st = st, folded st1_def]
  have fr: "procs st1 = procs st" "PIDHASH st1 = PIDHASH st" using sel(6) by (simp_all add: enter_frame_def procs_def PIDHASH_def fun_eq_iff)
  have hs: "x \<in> set (pgrphash st1 k) \<longleftrightarrow> x \<in> set (pgrphash st k) \<or> x = npg \<and> k = PIDHASH st (p_pid (pmem st p))" for k x
    by (auto simp: sel)
  show G: "groups st1 = insert npg (groups st)" unfolding groups_def hs by auto
  have pgr: "p_pgrp (pmem st1 a) = p_pgrp (pmem st a)" for a by (simp add: sel)
  have np: "p_pgrp (pmem st a) \<noteq> npg" if "a \<in> procs st" for a using groups_okD(6) [OF o(1) that] npg by auto
  have pp: "p \<in> procs st" using p by (simp add: procs_def)
  have old: "pgmem st1 g = pgmem st g" if "g \<in> groups st" for g using that npg by (auto simp: sel)
  have new: "pgmem st1 npg = \<lparr>pg_mem = [], pg_session = (if mk then nse else p_session st p), pg_id = p_pid (pmem st p), pg_jobc = 0\<rparr>"
    by (simp add: sel)
  have "distinct (pgrphash st1 k)" for k using groups_okD(1) [OF o(1)] npg by (auto simp: sel groups_def)
  moreover have "PIDHASH st (pg_id (pgmem st1 g)) = k" if "g \<in> set (pgrphash st1 k)" for g k
  proof (cases "g = npg")
    case True
    then have "k = PIDHASH st (p_pid (pmem st p))" using that npg by (auto simp: sel groups_def split: if_splits)
    then show ?thesis using True new by simp
  next
    case False
    then have "g \<in> set (pgrphash st k)" using that by (auto simp: sel split: if_splits)
    then show ?thesis using groups_okD(2) [OF o(1)] False by (auto simp: sel)
  qed
  moreover have "inj_on (\<lambda>g. pg_id (pgmem st1 g)) (insert npg (groups st))"
  proof (rule inj_onI)
    fix x y
    assume "x \<in> insert npg (groups st)" "y \<in> insert npg (groups st)" "pg_id (pgmem st1 x) = pg_id (pgmem st1 y)"
    then show "x = y" using inj_onD [OF groups_okD(3) [OF o(1)], of x y] no [of x] no [of y] old [of x] old [of y] new by auto
  qed
  moreover have "0 \<le> pg_id (pgmem st1 g) \<and> pg_id (pgmem st1 g) < PID_MAX" if "g \<in> insert npg (groups st)" for g
    using that groups_okD(4,5) [OF o(1)] pids_okD(2,3) [OF o(3) pp] old new by auto
  moreover have "distinct (pg_mem (pgmem st1 g)) \<and> set (pg_mem (pgmem st1 g)) = {a \<in> procs st. p_pgrp (pmem st a) = g}"
    if "g \<in> insert npg (groups st)" for g
    using that groups_okD(8,9) [OF o(1)] np old new by auto
  ultimately show "groups_wf st1" unfolding groups_wf_def G fr pgr using groups_okD(6) [OF o(1)] by blast
  have sp: "p_session st p \<in> set (selive st)" using sessions_okD(3) [OF o(2)] groups_okD(6) [OF o(1) pp] by (simp add: p_session_def)
  have fin: "finite (groups st)" using finite_groups o(1) by (simp add: groups_ok_def)
  have cs: "card {g \<in> insert npg (groups st). pg_session (pgmem st1 g) = s}
      = card {g \<in> groups st. pg_session (pgmem st g) = s} + (if s = (if mk then nse else p_session st p) then 1 else 0)" for s
  proof -
    have "{g \<in> insert npg (groups st). pg_session (pgmem st1 g) = s}
        = (if s = (if mk then nse else p_session st p) then insert npg {g \<in> groups st. pg_session (pgmem st g) = s}
           else {g \<in> groups st. pg_session (pgmem st g) = s})"
      using old new by auto
    then show ?thesis using npg fin by simp
  qed
  define C where "C s = card {g \<in> groups st. pg_session (pgmem st g) = s}" for s
  have "{g \<in> groups st. pg_session (pgmem st g) = nse} = {}" if mk using mk [OF that] sessions_okD(3) [OF o(2)] by auto
  then have Cn: "mk \<Longrightarrow> C nse = 0" unfolding C_def by (metis card.empty)
  have C: "s_count (semem st s) = int (C s) \<and> C s \<noteq> 0" if "s \<in> set (selive st)" for s
    using sessions_okD(4,5) [OF o(2) that] by (auto simp: C_def)
  have cnt: "s_count (semem st1 s) = int (card {g \<in> insert npg (groups st). pg_session (pgmem st1 g) = s}) \<and> s_count (semem st1 s) \<noteq> 0"
    if "s \<in> set (selive st1)" for s
    using that C [of s] Cn mk sp unfolding cs C_def [symmetric] by (auto simp: sel split: if_splits)
  have "pg_session (pgmem st1 g) \<in> set (selive st1)" if "g \<in> insert npg (groups st)" for g
    using that sessions_okD(3) [OF o(2)] old new sp by (auto simp: sel)
  moreover have "distinct (selive st1)" "0 \<notin> set (selive st1)" using sessions_okD(1,2) [OF o(2)] mk by (auto simp: sel)
  ultimately show "counts_ok st1" unfolding counts_ok_def G using cnt by blast
qed

lemma enter_new:
  assumes ok: "proc_ok st" and p: "p \<in> set (allproc st)" "p \<noteq> last (allproc st)" and npg: "npg \<notin> groups st"
    and mk: "mk \<Longrightarrow> nse \<notin> set (selive st) \<and> nse \<noteq> 0" and no: "\<And>g. g \<in> groups st \<Longrightarrow> pg_id (pgmem st g) \<noteq> p_pid (pmem st p)"
    and nl: "\<not> SESS_LEADER st p"
  shows "\<exists>st'. move_pgrp p npg (new_pgrp p (p_pid (pmem st p)) mk npg nse st) = Inr st' \<and> proc_ok st' \<and> enter_frame st st'
    \<and> (\<forall>a \<in> procs st. p_session st' a = (if mk \<and> a = p then nse else p_session st a)) \<and> p_pgid st' p = p_pid (pmem st p)
    \<and> (\<forall>a. a \<noteq> p \<longrightarrow> pmem st' a = pmem st a) \<and> (mk \<longrightarrow> SESS_LEADER st' p \<and> SCTTY \<notin> p_flag (pmem st' p))
    \<and> creds_same st st'"
proof -
  define st1 where "st1 = new_pgrp p (p_pid (pmem st p)) mk npg nse st"
  have o: "links_ok st" "pids_ok st" "groups_ok st" "sessions_ok st" "boot_ok st" "jobc_ok st" "users_ok st"
    using ok by (simp_all add: proc_ok_def)
  note sel = new_pgrp_sel [where p = p and pgid = "p_pid (pmem st p)" and mk = mk and npg = npg and nse = nse and st = st, folded st1_def]
  note one = new_pgrp_ok [where mk = mk and nse = nse, OF ok p(1) npg mk no, folded st1_def]
  have pp: "p \<in> procs st" using p by (simp add: procs_def)
  have fr1: "procs st1 = procs st" "allproc st1 = allproc st" "initproc st1 = initproc st" using sel(6) by (simp_all add: enter_frame_def procs_def)
  have pgr: "p_pgrp (pmem st1 a) = p_pgrp (pmem st a)" "p_pid (pmem st1 a) = p_pid (pmem st a)" for a by (simp_all add: sel)
  have np: "p_pgrp (pmem st a) \<noteq> npg" if "a \<in> procs st" for a using groups_okD(6) [OF o(3) that] npg by auto
  have ne1: "pg_mem (pgmem st1 g) \<noteq> []" if "g \<in> groups st1" "g \<noteq> npg" for g
    using that groups_okD(7) [OF o(3)] one(1) by (auto simp: sel)
  obtain st' where m: "move_pgrp p npg st1 = Inr st'" "groups_ok st'" "counts_ok st'" "enter_frame st1 st'" "groups st' \<subseteq> groups st1"
    "pmem st' = (pmem st1)(p := (pmem st1 p)\<lparr>p_pgrp := npg\<rparr>)" "\<And>s. s_leader (semem st' s) = s_leader (semem st1 s)"
    "set (selive st') \<subseteq> set (selive st1)"
    and g: "\<And>g. pg_session (pgmem st' g) = pg_session (pgmem st1 g)" "\<And>g. pg_id (pgmem st' g) = pg_id (pgmem st1 g)"
      "\<And>g. pg_jobc (pgmem st' g) = pg_jobc (pgmem st1 g) + jobc_delta st1 p npg g - jobc_delta st1 p (p_pgrp (pmem st1 p)) g"
    using move_pgrp_ok [OF one(2,3) ne1, of npg p] pp np [OF pp] one(1) fr1 pgr by auto
  have fr: "procs st' = procs st" "allproc st' = allproc st" "initproc st' = initproc st" and ef: "enter_frame st st'"
    using m(4) sel(6) by (simp_all add: enter_frame_def procs_def)
  have sess: "p_session st' a = (if a = p then if mk then nse else p_session st p else p_session st a)" if "a \<in> procs st" for a
    using np [OF that] by (simp add: p_session_def m(6) g sel)
  have pgid: "p_pgid st' a = (if a = p then p_pid (pmem st p) else p_pgid st a)" if "a \<in> procs st" for a
    using np [OF that] by (simp add: p_pgid_def m(6) g sel)
  have fld: "p_pid (pmem st' a) = p_pid (pmem st a) \<and> p_pptr (pmem st' a) = p_pptr (pmem st a)
    \<and> p_cptr (pmem st' a) = p_cptr (pmem st a) \<and> p_stat (pmem st' a) = p_stat (pmem st a) \<and> p_oppid (pmem st' a) = p_oppid (pmem st a)"
    "p_cred (pmem st' a) = p_cred (pmem st a)" for a by (simp_all add: m(6) sel)
  have lead: "s_leader (semem st' s) = (if mk \<and> s = nse then p else s_leader (semem st s))" for s by (simp add: m(7) sel)
  have oldsel: "s \<in> set (selive st)" if "s \<in> set (selive st')" "\<not> (mk \<and> s = nse)" for s using that m(8) by (auto simp: sel split: if_splits)
  have ld: "s_leader (semem st' s) \<in> set (allproc st') \<and> p_session st' (s_leader (semem st' s)) = s
      \<and> p_pgid st' (s_leader (semem st' s)) = p_pid (pmem st' (s_leader (semem st' s)))"
    if s: "s \<in> set (selive st')" "s_leader (semem st' s) \<noteq> 0" for s
  proof (cases "mk \<and> s = nse")
    case True
    then show ?thesis using p(1) pp fr by (simp add: lead sess pgid fld)
  next
    case False
    then have l: "s_leader (semem st s) \<in> set (allproc st) \<and> p_session st (s_leader (semem st s)) = s
        \<and> p_pgid st (s_leader (semem st s)) = p_pid (pmem st (s_leader (semem st s)))"
      using sessions_okD(6) [OF o(4) oldsel [OF s(1)]] s(2) lead by auto
    then have n: "s_leader (semem st s) \<noteq> p" using nl by (auto simp: SESS_LEADER_def)
    have "s_leader (semem st s) \<in> procs st" using l by (simp add: procs_def)
    then show ?thesis using l n False by (auto simp: lead fr sess pgid fld)
  qed
  have own: "pg_session (pgmem st' x) = p_session st' a" if x: "x \<in> groups st'" "a \<in> procs st'" "pg_id (pgmem st' x) = p_pid (pmem st' a)" for x a
  proof (cases "x = npg")
    case True
    then have "p_pid (pmem st a) = p_pid (pmem st p)" using x(3) by (simp add: g sel fld)
    then have "a = p" using pids_okD(1) [OF o(2)] x(2) pp fr by (auto dest: inj_onD)
    then show ?thesis using True pp by (simp add: sess g sel)
  next
    case False
    then have xg: "x \<in> groups st" using x(1) m(5) one(1) by auto
    have id: "pg_id (pgmem st x) = p_pid (pmem st a)" using x(3) False by (simp add: g sel fld)
    then have "a \<noteq> p" using no [OF xg] by auto
    then show ?thesis using sessions_okD(7) [OF o(4) xg, of a] id x(2) False fr by (auto simp: sess g sel)
  qed
  have so: "sessions_ok st'" unfolding sessions_ok_def leaders_ok_def using m(3) ld own by blast
  have ii: "initproc st \<in> procs st" "last (allproc st) \<in> procs st"
    using links_okD(5) [OF o(1)] by (auto simp: procs_def)
  have b: "boot_ok st'"
  proof (cases "mk \<and> initproc st = p")
    case True
    then show ?thesis using ii by (simp add: boot_ok_def SESS_LEADER_def fr sess lead)
  next
    case False
    then have e: "p_session st' (initproc st) = p_session st (initproc st)" "p_session st' (last (allproc st)) = p_session st (last (allproc st))"
      using ii p by (auto simp: sess)
    have "p_session st (initproc st) \<in> set (selive st)"
      using sessions_okD(3) [OF o(4) groups_okD(6) [OF o(3) ii(1)]] by (simp add: p_session_def)
    then have "SESS_LEADER st' (initproc st) = SESS_LEADER st (initproc st)"
      unfolding SESS_LEADER_def e lead using mk by auto
    then show ?thesis using o(5) by (simp add: boot_ok_def fr e)
  qed
  have bs: "boot_sessions st \<subseteq> boot_sessions st'"
  proof (cases "mk \<and> initproc st = p")
    case True
    then have "p_session st (initproc st) = p_session st (last (allproc st))" using o(5) nl by (simp add: boot_ok_def)
    then show ?thesis using True ii p by (simp add: boot_sessions_def fr sess)
  next
    case False
    then show ?thesis using ii p by (auto simp: boot_sessions_def fr sess)
  qed
  have j1: "jcount st1 x = (if x = npg then 0 else jcount st x)" if "x = npg \<or> pg_session (pgmem st x) \<notin> boot_sessions st" for x
  proof (cases "x = npg")
    case True
    then have "{a \<in> set (allproc st1). p_pgrp (pmem st1 a) = x \<and> qualifies st1 a} = {}" using np by (auto simp: fr1 pgr procs_def)
    then show ?thesis using True by (simp add: jcount_def)
  next
    case False
    have "qualifies st1 a = qualifies st a" if a: "a \<in> set (allproc st)" "p_pgrp (pmem st a) = x" for a
    proof -
      have "a \<noteq> last (allproc st)" using that \<open>x = npg \<or> _\<close> False by (auto simp: boot_sessions_def p_session_def)
      moreover obtain ys zs where s: "allproc st = ys @ a # zs" using a by (auto simp: in_set_conv_decomp)
      ultimately have "zs \<noteq> []" by auto
      then have "p_pptr (pmem st a) \<in> procs st" using links_okD(7) [OF o(1) s] s by (auto simp: procs_def)
      then have "p_pgrp (pmem st (p_pptr (pmem st a))) \<noteq> npg" "a \<in> procs st" using np a by (auto simp: procs_def)
      moreover have "p_pptr (pmem st1 a) = p_pptr (pmem st a)" by (simp add: sel)
      ultimately show ?thesis using np by (simp add: qualifies_def p_session_def Let_def pgr sel(1))
    qed
    then have "{a \<in> set (allproc st1). p_pgrp (pmem st1 a) = x \<and> qualifies st1 a} = {a \<in> set (allproc st). p_pgrp (pmem st a) = x \<and> qualifies st a}"
      by (auto simp: fr1 pgr)
    then show ?thesis using False by (simp add: jcount_def)
  qed
  have links1: "links_ok st1" using links_frame [OF sel(6)] o(1) by (simp add: sel)
  have jc: "pg_jobc (pgmem st' x) = jcount st' x" if x: "x \<in> groups st'" "pg_session (pgmem st' x) \<notin> boot_sessions st'" for x
  proof -
    have c: "x = npg \<or> pg_session (pgmem st x) \<notin> boot_sessions st" using x(2) bs by (auto simp: g sel split: if_splits)
    have "pg_jobc (pgmem st1 x) = jcount st1 x"
    proof (cases "x = npg")
      case False
      then have "x \<in> groups st" using x(1) m(5) one(1) by auto
      then show ?thesis using o(6) c False unfolding jobc_ok_def jcount_def [symmetric] j1 [OF c] by (simp add: sel)
    qed (simp add: j1 sel)
    moreover have "jcount st' x = jcount st1 x + jobc_delta st1 p npg x - jobc_delta st1 p (p_pgrp (pmem st1 p)) x"
      by (rule jcount_move [OF links1 _ m(6) _ g(1)]) (use p fr fr1 in auto)
    ultimately show ?thesis using g(3) by simp
  qed
  then have "jobc_ok st'" by (simp add: jobc_ok_def jcount_def)
  moreover have "links_ok st'" using links_frame [OF ef fld(1)] o(1) by simp
  moreover have "users_ok st'" using users_frame [OF ef fld(2)] o(7) by simp
  moreover have "pids_ok st'"
    by (rule pids_frame [OF ef _ _ o(2)]) (use m(5) one(1) pp in \<open>auto simp: fld g sel\<close>)
  ultimately have "proc_ok st'" using m(2) so b by (simp add: proc_ok_def)
  moreover have "\<forall>a \<in> procs st. p_session st' a = (if mk \<and> a = p then nse else p_session st a)" using sess by auto
  moreover have "\<forall>a. a \<noteq> p \<longrightarrow> pmem st' a = pmem st a" by (simp add: m(6) sel)
  moreover have "mk \<longrightarrow> SESS_LEADER st' p \<and> SCTTY \<notin> p_flag (pmem st' p)"
    using sess [OF pp] by (simp add: SESS_LEADER_def lead) (simp add: m(6) sel)
  moreover have "creds_same st st'" using ef fld(2) by (simp add: creds_same_def enter_frame_def procs_def)
  ultimately show ?thesis using m(1) ef pgid [OF pp] unfolding st1_def by auto
qed

section \<open>The system calls\<close>

lemma leader_pgid:
  assumes "proc_ok st" "p \<in> procs st" "SESS_LEADER st p"
  shows "p_pgid st p = p_pid (pmem st p)"
proof -
  have o: "links_ok st" "groups_ok st" "sessions_ok st" using assms(1) by (simp_all add: proc_ok_def)
  have "p \<noteq> 0" using links_okD(4) [OF o(1)] assms(2) by metis
  moreover have "p_session st p \<in> set (selive st)"
    using sessions_okD(3) [OF o(3) groups_okD(6) [OF o(2) assms(2)]] by (simp add: p_session_def)
  ultimately show ?thesis using sessions_okD(6) [OF o(3), of "p_session st p"] assms(3) by (simp add: SESS_LEADER_def)
qed

lemma pgfind_None:
  assumes "groups_ok st"
  shows "pgfind st i = None \<longleftrightarrow> (\<forall>g \<in> groups st. pg_id (pgmem st g) \<noteq> pid_t i)"
  using pgfind_iff [OF assms, of i] by (metis not_Some_eq)

lemma setsid_ok:
  assumes ok: "proc_ok st" and p: "p \<in> set (allproc st)" "p \<noteq> last (allproc st)" "curproc st = p"
    and n: "npg \<notin> groups st" "nse \<notin> set (selive st)" "nse \<noteq> 0"
  shows "\<exists>st' r. setsid p npg nse st = Inr (st', r) \<and> proc_ok st' \<and> creds_same st st'
    \<and> (if p_pgid st p = p_pid (pmem st p) \<or> (\<exists>g \<in> groups st. pg_id (pgmem st g) = p_pid (pmem st p))
       then r = Inl EPERM \<and> st' = st
       else r = Inr (p_pid (pmem st p)) \<and> SESS_LEADER st' p \<and> p_session st' p = nse \<and> p_pgid st' p = p_pid (pmem st p)
         \<and> SCTTY \<notin> p_flag (pmem st' p)
         \<and> (\<forall>a \<in> procs st. a \<noteq> p \<longrightarrow> p_session st' a = p_session st a \<and> pmem st' a = pmem st a))"
proof -
  have o: "links_ok st" "pids_ok st" "groups_ok st" using ok by (simp_all add: proc_ok_def)
  have pp: "p \<in> procs st" using p by (simp add: procs_def)
  have pid: "pid_t (p_pid (pmem st p)) = p_pid (pmem st p)" using pid_t_id pids_okD(2,3) [OF o(2) pp] by blast
  note pf = pgfind_None [OF o(3), of "p_pid (pmem st p)", unfolded pid]
  show ?thesis
  proof (cases "p_pgid st p = p_pid (pmem st p) \<or> (\<exists>g \<in> groups st. pg_id (pgmem st g) = p_pid (pmem st p))")
    case True
    then have "setsid p npg nse st = Inr (st, Inl EPERM)" using pf by (auto simp: setsid_def)
    then show ?thesis using True ok by (auto simp: creds_same_def)
  next
    case False
    then have nl: "\<not> SESS_LEADER st p" using leader_pgid [OF ok pp] by blast
    have no: "pg_id (pgmem st g) \<noteq> p_pid (pmem st p)" if "g \<in> groups st" for g using that False by blast
    have "pgfind st (p_pid (pmem st p)) = None" using pf no by blast
    then have e: "setsid p npg nse st = bindE (move_pgrp p npg (new_pgrp p (p_pid (pmem st p)) True npg nse st)) (\<lambda>st'. Inr (st', Inr (p_pid (pmem st p))))"
      using False nl p(3) by (simp add: setsid_def enterpgrp_def pid Let_def)
    obtain st' where s: "move_pgrp p npg (new_pgrp p (p_pid (pmem st p)) True npg nse st) = Inr st'" "proc_ok st'" "enter_frame st st'"
      "\<forall>a \<in> procs st. p_session st' a = (if True \<and> a = p then nse else p_session st a)" "p_pgid st' p = p_pid (pmem st p)"
      "\<forall>a. a \<noteq> p \<longrightarrow> pmem st' a = pmem st a" "True \<longrightarrow> SESS_LEADER st' p \<and> SCTTY \<notin> p_flag (pmem st' p)" "creds_same st st'"
      using enter_new [OF ok p(1,2) n(1) _ no nl, of True nse] n by blast
    show ?thesis using e s False pp by auto
  qed
qed

lemma enterpgrp_own:
  assumes ok: "proc_ok st" and t: "t \<in> set (allproc st)" "t \<noteq> last (allproc st)" and nl: "\<not> SESS_LEADER st t" and n: "npg \<notin> groups st"
    and g: "pid_t i = p_pid (pmem st t) \<or> (\<exists>g \<in> groups st. pg_id (pgmem st g) = pid_t i \<and> pg_session (pgmem st g) = p_session st t)"
    and i: "pid_t (pid_t i) = pid_t i"
  shows "\<exists>st'. enterpgrp t i False npg 0 st = Inr st' \<and> proc_ok st' \<and> creds_same st st' \<and> p_pgid st' t = pid_t i
    \<and> (\<forall>a \<in> procs st. p_session st' a = p_session st a) \<and> (\<forall>a. a \<noteq> t \<longrightarrow> pmem st' a = pmem st a)"
proof -
  have o: "links_ok st" "pids_ok st" "groups_ok st" "sessions_ok st" using ok by (simp_all add: proc_ok_def)
  have tp: "t \<in> procs st" using t by (simp add: procs_def)
  show ?thesis
  proof (cases "pgfind st (pid_t i)")
    case None
    then have no: "pg_id (pgmem st g) \<noteq> pid_t i" if "g \<in> groups st" for g
      using that pgfind_None [OF o(3), of "pid_t i"] i by auto
    then have pid: "p_pid (pmem st t) = pid_t i" using g by auto
    obtain st' where s: "move_pgrp t npg (new_pgrp t (p_pid (pmem st t)) False npg 0 st) = Inr st'" "proc_ok st'" "enter_frame st st'"
      "\<forall>a \<in> procs st. p_session st' a = (if False \<and> a = t then 0 else p_session st a)" "p_pgid st' t = p_pid (pmem st t)"
      "\<forall>a. a \<noteq> t \<longrightarrow> pmem st' a = pmem st a" "creds_same st st'"
      using enter_new [OF ok t n _ _ nl, of False 0] no pid by auto
    have "enterpgrp t i False npg 0 st = Inr st'" using None nl pid s(1) by (simp add: enterpgrp_def)
    then show ?thesis using s pid by auto
  next
    case (Some pg)
    then have pg: "pg \<in> groups st" "pg_id (pgmem st pg) = pid_t i" using pgfind_iff [OF o(3), of "pid_t i"] i by auto
    have se: "pg_session (pgmem st pg) = p_session st t"
      using g
    proof
      assume "pid_t i = p_pid (pmem st t)"
      then show ?thesis using sessions_okD(7) [OF o(4) pg(1) tp] pg(2) by simp
    next
      assume "\<exists>g \<in> groups st. pg_id (pgmem st g) = pid_t i \<and> pg_session (pgmem st g) = p_session st t"
      then show ?thesis using groups_okD(3) [OF o(3)] pg by (metis inj_onD)
    qed
    show ?thesis
    proof (cases "pg = p_pgrp (pmem st t)")
      case True
      then have "enterpgrp t i False npg 0 st = Inr st" using Some nl by (simp add: enterpgrp_def)
      then show ?thesis using ok pg(2) True by (auto simp: p_pgid_def creds_same_def)
    next
      case False
      obtain st' where s: "move_pgrp t pg st = Inr st'" "proc_ok st'" "enter_frame st st'"
        "pmem st' = (pmem st)(t := (pmem st t)\<lparr>p_pgrp := pg\<rparr>)" "\<forall>a. p_session st' a = p_session st a"
        "\<forall>g. pg_id (pgmem st' g) = pg_id (pgmem st g)"
        using enter_existing [OF ok t(1) pg(1) False se nl] by blast
      have "creds_same st st'" using s(3,4) by (simp add: enter_frame_def creds_same_def procs_def)
      moreover have "p_pgid st' t = pid_t i" using s(4,6) pg(2) by (simp add: p_pgid_def)
      moreover have "enterpgrp t i False npg 0 st = Inr st'" using Some nl False s(1) by (simp add: enterpgrp_def)
      ultimately show ?thesis using s by auto
    qed
  qed
qed

lemma pid_t_idem: "pid_t (pid_t i) = pid_t i"
  by (simp add: pid_t_def mod_simps)

lemma setpgid_target_ok:
  assumes ok: "proc_ok st" and c: "c \<in> set (allproc st)" "c \<noteq> last (allproc st)" "curproc st = c"
  obtains e where "setpgid_target c pid st = Some (Inl e)"
  | t where "setpgid_target c pid st = Some (Inr t)" "t \<in> set (allproc st)" "t \<noteq> last (allproc st)" "p_session st t = p_session st c"
      "p_pid (pmem st t) = (if pid = 0 then p_pid (pmem st c) else pid)" "t = c \<or> inferior st t = Some True \<and> SEXEC \<notin> p_flag (pmem st t)"
proof (cases "pid \<noteq> 0 \<and> pid \<noteq> p_pid (pmem st c)")
  case False
  then show ?thesis using that(2) [of c] c by (auto simp: setpgid_target_def)
next
  case own: True
  have o: "links_ok st" "pids_ok st" using ok by (simp_all add: proc_ok_def)
  show ?thesis
  proof (cases "pfind st pid")
    case None
    then show ?thesis using that(1) own by (auto simp: setpgid_target_def)
  next
    case (Some t)
    then have t: "t \<in> set (allproc st)" "p_pid (pmem st t) = pid" using pfind_iff [OF o(2,1)] by auto
    obtain b where b: "inferior st t = Some b" using inferior_returns [OF o(1) t(1)] by blast
    have l: "t \<noteq> last (allproc st)"
    proof
      assume "t = last (allproc st)"
      then have "p_pid (pmem st t) = 0" using links_okD(5) [OF o(1)] by auto
      then show False using own t(2) by simp
    qed
    show ?thesis
    proof (cases "b \<and> p_session st t = p_session st c \<and> SEXEC \<notin> p_flag (pmem st t)")
      case True
      then show ?thesis using that(2) [of t] own Some b t l by (simp add: setpgid_target_def)
    next
      case False
      then have "\<exists>e. setpgid_target c pid st = Some (Inl e)" using own Some b by (auto simp: setpgid_target_def)
      then show ?thesis using that(1) by blast
    qed
  qed
qed

lemma setpgid_ok:
  assumes ok: "proc_ok st" and c: "c \<in> set (allproc st)" "c \<noteq> last (allproc st)" "curproc st = c" and n: "npg \<notin> groups st"
  shows "\<exists>st' r. setpgid c pid pgid npg st = Inr (st', r) \<and> proc_ok st' \<and> creds_same st st'
    \<and> (\<forall>a \<in> procs st. p_session st' a = p_session st a)
    \<and> (case r of Some e \<Rightarrow> st' = st
       | None \<Rightarrow> \<exists>t. setpgid_target c pid st = Some (Inr t) \<and> \<not> SESS_LEADER st t
           \<and> p_pgid st' t = pid_t (if pgid = 0 then p_pid (pmem st t) else pgid) \<and> (\<forall>a. a \<noteq> t \<longrightarrow> pmem st' a = pmem st a))"
proof (rule setpgid_target_ok [OF ok c, of pid])
  fix e
  assume "setpgid_target c pid st = Some (Inl e)"
  then show ?thesis using ok by (simp add: setpgid_def creds_same_def)
next
  fix t
  assume t: "setpgid_target c pid st = Some (Inr t)" "t \<in> set (allproc st)" "t \<noteq> last (allproc st)" "p_session st t = p_session st c"
  have o: "pids_ok st" "groups_ok st" using ok by (simp_all add: proc_ok_def)
  define i where "i = (if pgid = 0 then p_pid (pmem st t) else pgid)"
  define own where "own \<longleftrightarrow> pgid = 0 \<or> pgid = p_pid (pmem st t)"
  have tp: "t \<in> procs st" using t by (simp add: procs_def)
  have pid: "pid_t (p_pid (pmem st t)) = p_pid (pmem st t)" using pid_t_id pids_okD(2,3) [OF o(1) tp] by blast
  have e: "setpgid c pid pgid npg st = (if SESS_LEADER st t then Inr (st, Some EPERM)
    else if \<not> own \<and> (case pgfind st i of None \<Rightarrow> True | Some pgrp \<Rightarrow> pg_session (pgmem st pgrp) \<noteq> p_session st c) then Inr (st, Some EPERM)
    else bindE (enterpgrp t i False npg 0 st) (\<lambda>st. Inr (st, None)))"
    using t(1) by (simp add: setpgid_def own_def i_def)
  show ?thesis
  proof (cases "SESS_LEADER st t \<or> \<not> own \<and> (case pgfind st i of None \<Rightarrow> True | Some pgrp \<Rightarrow> pg_session (pgmem st pgrp) \<noteq> p_session st c)")
    case True
    then have "setpgid c pid pgid npg st = Inr (st, Some EPERM)" unfolding e by auto
    then show ?thesis using ok by (simp add: creds_same_def)
  next
    case False
    have "own \<or> (\<exists>g. pgfind st i = Some g \<and> pg_session (pgmem st g) = p_session st t)"
      using False t(4) by (auto split: option.splits)
    then have g: "pid_t i = p_pid (pmem st t) \<or> (\<exists>g \<in> groups st. pg_id (pgmem st g) = pid_t i \<and> pg_session (pgmem st g) = p_session st t)"
      using pgfind_iff [OF o(2), of i] pid by (auto simp: own_def i_def)
    have nl: "\<not> SESS_LEADER st t" using False by blast
    obtain st' where s: "enterpgrp t i False npg 0 st = Inr st'" "proc_ok st'" "creds_same st st'" "p_pgid st' t = pid_t i"
      "\<forall>a \<in> procs st. p_session st' a = p_session st a" "\<forall>a. a \<noteq> t \<longrightarrow> pmem st' a = pmem st a"
      using enterpgrp_own [OF ok t(2,3) nl n g pid_t_idem] by blast
    have "setpgid c pid pgid npg st = Inr (st', None)" unfolding e if_not_P [OF nl] using False s(1) by auto
    then show ?thesis using s t(1) nl by (auto simp: i_def)
  qed
qed

end
