(* ===== verification/Proc_Exit.thy ===== *)
theory Proc_Exit
  imports Proc_Group
begin

text \<open>
  The end of a process: \<open>exit\<close> gives the children to \<open>init\<close>, the session up and makes a zombie,
  \<open>wait\<close> frees it and perhaps its group and session. Both keep the invariant and do not panic.
\<close>

section \<open>Exit\<close>

text \<open>What \<open>exit\<close> leaves behind.\<close>

definition exited :: "addr \<Rightarrow> int \<Rightarrow> pstate \<Rightarrow> pstate \<Rightarrow> bool" where
  "exited p rv st st' \<longleftrightarrow>
     (\<forall>a. pmem st' a = (if a = p then (pmem st p)\<lparr>p_flag := p_flag (pmem st p) - {STRC, SPPWAIT} \<union> {SWEXIT}, p_stat := SZOMB, p_cptr := [], p_xstat := cr_ushort rv\<rparr>
        else if a \<in> set (p_cptr (pmem st p)) then orphan st (pmem st a)
        else if a = initproc st then (pmem st a)\<lparr>p_cptr := rev (p_cptr (pmem st p)) @ p_cptr (pmem st a)\<rparr> else pmem st a))
   \<and> allproc st' = remove1 p (allproc st) \<and> zombproc st' = p # zombproc st
   \<and> (\<forall>k. pidhash st' k = (if k = PIDHASH st (p_pid (pmem st p)) then remove1 p (pidhash st k) else pidhash st k))
   \<and> (\<forall>g. pgmem st' g = (pgmem st g)\<lparr>pg_jobc := pg_jobc (pgmem st g) - jobc_delta st p (p_pgrp (pmem st p)) g\<rparr>)
   \<and> (\<forall>s. semem st' s = (if SESS_LEADER st p \<and> s = p_session st p then (semem st s)\<lparr>s_ttyvp := 0, s_leader := 0\<rparr> else semem st s))
   \<and> pgrphash st' = pgrphash st \<and> selive st' = selive st \<and> crmem st' = crmem st \<and> crlive st' = crlive st
   \<and> uihashtbl st' = uihashtbl st \<and> uihash st' = uihash st \<and> pidhashmask st' = pidhashmask st \<and> nextpid st' = nextpid st
   \<and> pidchecked st' = pidchecked st \<and> nprocs st' = nprocs st \<and> maxproc st' = maxproc st \<and> initproc st' = initproc st
   \<and> curproc st' = 0"

lemma exit_session_eff:
  "\<exists>E. exit_session p st = st\<lparr>semem := (\<lambda>s. if SESS_LEADER st p \<and> s = p_session st p then (semem st s)\<lparr>s_ttyvp := 0, s_leader := 0\<rparr> else semem st s),
     pevents := E\<rparr>"
proof (cases "SESS_LEADER st p")
  case False
  then show ?thesis by (intro exI [of _ "pevents st"]) (simp add: exit_session_def)
next
  case True
  let ?sp = "p_session st p"
  define st1 where "st1 = (if t_session (ttmem st (s_ttyp (semem st ?sp))) = ?sp then
      raise_event (Vgoneall (s_ttyvp (semem st ?sp))) (raise_event (Ttywait (s_ttyp (semem st ?sp)))
        (if t_pgrp (ttmem st (s_ttyp (semem st ?sp))) \<noteq> 0 then raise_event (Pgsignal (t_pgrp (ttmem st (s_ttyp (semem st ?sp)))) SIGHUP) st else st)) else st)"
  have 1: "st1 = st\<lparr>pevents := pevents st1\<rparr>" by (simp add: st1_def raise_event_def)
  have "exit_session p st = upd_sess ?sp (\<lambda>s. s\<lparr>s_leader := 0\<rparr>) (if s_ttyvp (semem st ?sp) \<noteq> 0
      then upd_sess ?sp (\<lambda>s. s\<lparr>s_ttyvp := 0\<rparr>) (raise_event (Vrele (s_ttyvp (semem st ?sp))) st1) else st)"
    using True by (simp add: exit_session_def Let_def st1_def)
  also have "\<dots> = st\<lparr>semem := (semem st)(?sp := (semem st ?sp)\<lparr>s_ttyvp := 0, s_leader := 0\<rparr>),
      pevents := (if s_ttyvp (semem st ?sp) \<noteq> 0 then pevents st1 @ [Vrele (s_ttyvp (semem st ?sp))] else pevents st)\<rparr>"
  proof (cases "s_ttyvp (semem st ?sp) = 0")
    case True
    then show ?thesis by (auto simp: upd_sess_def intro!: pstate.equality ext session.equality)
  next
    case False
    obtain E where E: "st1 = st\<lparr>pevents := E\<rparr>" using 1 by blast
    show ?thesis using False by (simp add: E upd_sess_def raise_event_def)
  qed
  also have "(semem st)(?sp := (semem st ?sp)\<lparr>s_ttyvp := 0, s_leader := 0\<rparr>)
      = (\<lambda>s. if SESS_LEADER st p \<and> s = ?sp then (semem st s)\<lparr>s_ttyvp := 0, s_leader := 0\<rparr> else semem st s)"
    using True by auto
  finally show ?thesis by blast
qed

lemma exit_leave_eff:
  "\<exists>E. exit_leave p st = st\<lparr>pmem := (pmem st)(p := (pmem st p)\<lparr>p_flag := p_flag (pmem st p) - {STRC, SPPWAIT} \<union> {SWEXIT}\<rparr>),
     semem := (\<lambda>s. if SESS_LEADER st p \<and> s = p_session st p then (semem st s)\<lparr>s_ttyvp := 0, s_leader := 0\<rparr> else semem st s),
     pgmem := (\<lambda>g. (pgmem st g)\<lparr>pg_jobc := pg_jobc (pgmem st g) - jobc_delta st p (p_pgrp (pmem st p)) g\<rparr>), pevents := E\<rparr>"
proof -
  define st1 where "st1 = upd_proc p (\<lambda>p. p\<lparr>p_flag := p_flag p - {STRC, SPPWAIT} \<union> {SWEXIT}\<rparr>) st"
  have s1: "p_session st1 p = p_session st p" "SESS_LEADER st1 p = SESS_LEADER st p" "semem st1 = semem st"
    by (simp_all add: st1_def upd_simps p_session_def SESS_LEADER_def)
  obtain E where "exit_session p st1 = st1\<lparr>semem := (\<lambda>s. if SESS_LEADER st1 p \<and> s = p_session st1 p then (semem st1 s)\<lparr>s_ttyvp := 0, s_leader := 0\<rparr> else semem st1 s),
     pevents := E\<rparr>" using exit_session_eff by blast
  then have 2: "exit_session p st1 = st1\<lparr>semem := (\<lambda>s. if SESS_LEADER st p \<and> s = p_session st p then (semem st s)\<lparr>s_ttyvp := 0, s_leader := 0\<rparr> else semem st s),
     pevents := E\<rparr>" unfolding s1 .
  define st2 where "st2 = exit_session p st1"
  note 2 = 2 [folded st2_def]
  have p2: "p_pgrp (pmem st2 a) = p_pgrp (pmem st a)" "p_pptr (pmem st2 a) = p_pptr (pmem st a)" "p_cptr (pmem st2 a) = p_cptr (pmem st a)"
    "p_stat (pmem st2 a) = p_stat (pmem st a)" "pgmem st2 = pgmem st" for a unfolding 2 by (simp_all add: st1_def upd_simps)
  have d: "jobc_delta st2 p g x = jobc_delta st p g x" for g x by (simp add: jobc_delta_def jobc_kids_def Let_def p2)
  obtain E' where f: "fixjobc p (p_pgrp (pmem st2 p)) False st2
      = set_jobcs (\<lambda>g. pg_jobc (pgmem st2 g) + jsign False * jobc_delta st2 p (p_pgrp (pmem st2 p)) g) E' st2"
    using fixjobc_eff by blast
  have "exit_leave p st = fixjobc p (p_pgrp (pmem st2 p)) False st2" by (simp add: exit_leave_def Let_def st1_def st2_def)
  also have "\<dots> = set_jobcs (\<lambda>g. pg_jobc (pgmem st g) - jobc_delta st p (p_pgrp (pmem st p)) g) E' st2"
    unfolding f d by (simp add: p2 jsign_def)
  finally have e: "exit_leave p st = set_jobcs (\<lambda>g. pg_jobc (pgmem st g) - jobc_delta st p (p_pgrp (pmem st p)) g) E' st2" .
  show ?thesis unfolding e set_jobcs_def p2 2
    by (intro exI [of _ E']) (simp add: st1_def upd_proc_def)
qed

lemma exit_eff:
  assumes "p_pid (pmem st p) \<noteq> 1" "p \<in> set (pidhash st (PIDHASH st (p_pid (pmem st p))))"
    "distinct (p_cptr (pmem st p))" "initproc st \<notin> set (p_cptr (pmem st p))" "p \<notin> set (p_cptr (pmem st p))" "p \<noteq> initproc st"
  shows "\<exists>st'. exit p rv st = Inr st' \<and> exited p rv st st'"
proof -
  let ?cs = "p_cptr (pmem st p)" and ?h = "PIDHASH st (p_pid (pmem st p))"
  obtain E where 1: "exit_leave p st = st\<lparr>pmem := (pmem st)(p := (pmem st p)\<lparr>p_flag := p_flag (pmem st p) - {STRC, SPPWAIT} \<union> {SWEXIT}\<rparr>),
     semem := (\<lambda>s. if SESS_LEADER st p \<and> s = p_session st p then (semem st s)\<lparr>s_ttyvp := 0, s_leader := 0\<rparr> else semem st s),
     pgmem := (\<lambda>g. (pgmem st g)\<lparr>pg_jobc := pg_jobc (pgmem st g) - jobc_delta st p (p_pgrp (pmem st p)) g\<rparr>), pevents := E\<rparr>"
    using exit_leave_eff by blast
  define st1 where "st1 = exit_leave p st"
  define st2 where "st2 = (upd_proc p (\<lambda>p. p\<lparr>p_stat := SZOMB\<rparr>) (st1\<lparr>allproc := remove1 p (allproc st1), zombproc := p # zombproc st1\<rparr>))
    \<lparr>pidhash := (pidhash st)(?h := remove1 p (pidhash st ?h))\<rparr>"
  define st3 where "st3 = (if ?cs \<noteq> [] then raise_event (Wakeup (initproc st)) st2 else st2)"
  have s3: "pmem st3 = (pmem st)(p := (pmem st p)\<lparr>p_flag := p_flag (pmem st p) - {STRC, SPPWAIT} \<union> {SWEXIT}, p_stat := SZOMB\<rparr>)"
    "initproc st3 = initproc st" by (simp_all add: st3_def st2_def st1_def 1 upd_simps raise_event_def upd_proc_def)
  obtain E' where o: "exit_orphans ?cs st3 = st3\<lparr>pmem := (\<lambda>a. if a \<in> set ?cs then orphan st3 (pmem st3 a)
      else if a = initproc st3 then (pmem st3 a)\<lparr>p_cptr := rev ?cs @ p_cptr (pmem st3 a)\<rparr> else pmem st3 a), pevents := E'\<rparr>"
    using exit_orphans_eff [of ?cs st3] assms s3(2) by auto
  define st4 where "st4 = exit_orphans ?cs st3"
  define st5 where "st5 = upd_proc p (\<lambda>p. p\<lparr>p_cptr := [], p_xstat := cr_ushort rv\<rparr>) st4"
  have "exit p rv st = exit_zombie p rv st1" using assms(1) by (simp add: exit_def st1_def)
  also have "exit_zombie p rv st1 = Inr ((raise_event (Wakeup (p_pptr (pmem st5 p))) (raise_event (Psignal (p_pptr (pmem st5 p)) SIGCHLD) st5))\<lparr>curproc := 0\<rparr>)"
    using assms(2) by (simp add: exit_zombie_def Let_def st5_def st4_def st3_def st2_def st1_def 1 upd_simps PIDHASH_def upd_proc_def)
  finally have "exit p rv st = Inr ((raise_event (Wakeup (p_pptr (pmem st5 p))) (raise_event (Psignal (p_pptr (pmem st5 p)) SIGCHLD) st5))\<lparr>curproc := 0\<rparr>)" .
  moreover have "exited p rv st ((raise_event (Wakeup (p_pptr (pmem st5 p))) (raise_event (Psignal (p_pptr (pmem st5 p)) SIGCHLD) st5))\<lparr>curproc := 0\<rparr>)"
    unfolding exited_def
    using assms(4-6)
    by (simp add: st5_def upd_simps raise_event_def st4_def o s3 orphan_def)
      (simp add: st3_def st2_def st1_def 1 upd_simps raise_event_def)
  ultimately show ?thesis by blast
qed

lemma exitedD:
  assumes "exited p rv st st'"
  shows "pmem st' a = (if a = p then (pmem st p)\<lparr>p_flag := p_flag (pmem st p) - {STRC, SPPWAIT} \<union> {SWEXIT}, p_stat := SZOMB, p_cptr := [], p_xstat := cr_ushort rv\<rparr>
        else if a \<in> set (p_cptr (pmem st p)) then orphan st (pmem st a)
        else if a = initproc st then (pmem st a)\<lparr>p_cptr := rev (p_cptr (pmem st p)) @ p_cptr (pmem st a)\<rparr> else pmem st a)"
    "allproc st' = remove1 p (allproc st)" "zombproc st' = p # zombproc st"
    "pidhash st' k = (if k = PIDHASH st (p_pid (pmem st p)) then remove1 p (pidhash st k) else pidhash st k)"
    "pgmem st' g = (pgmem st g)\<lparr>pg_jobc := pg_jobc (pgmem st g) - jobc_delta st p (p_pgrp (pmem st p)) g\<rparr>"
    "semem st' s = (if SESS_LEADER st p \<and> s = p_session st p then (semem st s)\<lparr>s_ttyvp := 0, s_leader := 0\<rparr> else semem st s)"
    "pgrphash st' = pgrphash st" "selive st' = selive st" "crmem st' = crmem st" "crlive st' = crlive st"
    "uihashtbl st' = uihashtbl st" "uihash st' = uihash st" "pidhashmask st' = pidhashmask st" "nextpid st' = nextpid st"
    "pidchecked st' = pidchecked st" "nprocs st' = nprocs st" "maxproc st' = maxproc st" "initproc st' = initproc st"
    "curproc st' = 0"
  using assms unfolding exited_def by blast+

text \<open>What \<open>exit\<close> may assume of the process, which is neither \<open>init\<close> nor the swapper.\<close>

definition may_exit :: "pstate \<Rightarrow> addr \<Rightarrow> bool" where
  "may_exit st p \<longleftrightarrow> p \<in> set (allproc st) \<and> p \<noteq> initproc st \<and> p \<noteq> last (allproc st)"

lemma may_exitD:
  assumes ok: "links_ok st" and p: "may_exit st p"
  shows "p \<in> procs st" "p \<notin> set (p_cptr (pmem st p))" "initproc st \<notin> set (p_cptr (pmem st p))"
    "last (allproc st) \<notin> set (p_cptr (pmem st p))" "last (remove1 p (allproc st)) = last (allproc st)"
    "initproc st \<in> set (allproc st)" "last (allproc st) \<in> set (allproc st)" "last (allproc st) \<noteq> initproc st"
    "set (p_cptr (pmem st p)) \<subseteq> procs st" "set (remove1 p (allproc st)) = set (allproc st) - {p}"
proof -
  note b = links_okD [OF ok]
  obtain xs p0 where x: "allproc st = xs @ [initproc st, p0]" "p_pid (pmem st p0) = 0" "p_pptr (pmem st p0) = 0" using b(5) by blast
  have q: "p \<in> set (allproc st)" "p \<noteq> initproc st" "p \<noteq> last (allproc st)" using p by (auto simp: may_exit_def)
  then show pp: "p \<in> procs st" by (simp add: procs_def)
  have cs: "set (p_cptr (pmem st p)) = {b \<in> procs st. p_pptr (pmem st b) = p}" by (rule b(10) [OF pp])
  show "p \<notin> set (p_cptr (pmem st p))" using no_own_parent [OF ok q(1)] cs by auto
  have "p_pptr (pmem st (initproc st)) = p0" using b(7) [of xs "initproc st" "[p0]"] x(1) by simp
  then show "initproc st \<notin> set (p_cptr (pmem st p))" using q x cs by auto
  have "p \<noteq> 0" using pp b(4) by metis
  then show "last (allproc st) \<notin> set (p_cptr (pmem st p))" using x cs by auto
  have "p \<in> set xs" using q x by auto
  then show "last (remove1 p (allproc st)) = last (allproc st)" unfolding x(1) remove1_append by simp
  show "initproc st \<in> set (allproc st)" "last (allproc st) \<in> set (allproc st)" using x by auto
  show "last (allproc st) \<noteq> initproc st" using b(1) x by auto
  show "set (p_cptr (pmem st p)) \<subseteq> procs st" using cs by auto
  show "set (remove1 p (allproc st)) = set (allproc st) - {p}" using b(1) by simp
qed

lemma remove1_split:
  "distinct xs \<Longrightarrow> remove1 p xs = ys @ a # zs \<Longrightarrow> \<exists>ys' zs'. xs = ys' @ a # zs' \<and> zs = remove1 p zs' \<and> a \<noteq> p"
proof (induction xs arbitrary: ys)
  case (Cons x xs)
  show ?case
  proof (cases "x = p")
    case True
    then have xs: "xs = ys @ a # zs" "p \<notin> set xs" using Cons.prems by auto
    have "x # xs = (p # ys) @ a # zs" using xs(1) True by simp
    moreover have "zs = remove1 p zs" "a \<noteq> p" using xs by (auto simp: remove1_idem)
    ultimately show ?thesis by blast
  next
    case False
    show ?thesis
    proof (cases ys)
      case Nil
      then show ?thesis using False Cons.prems by auto
    next
      case (Cons y ys1)
      then obtain ys' zs' where z: "xs = ys' @ a # zs'" "zs = remove1 p zs'" "a \<noteq> p"
        using Cons.IH [of ys1] Cons.prems False by auto
      then have "x # xs = (x # ys') @ a # zs'" by simp
      then show ?thesis using z by blast
    qed
  qed
qed simp

lemma in_tail:
  assumes "xs @ [i, p0] = ys @ a # zs" "zs \<noteq> []" "a \<noteq> i"
  shows "i \<in> set zs"
proof -
  obtain ws q where z: "zs = ws @ [q]" using assms(2) by (cases zs rule: rev_cases) auto
  have "(xs @ [i]) @ [p0] = (ys @ a # ws) @ [q]" using assms(1) z by simp
  then have "xs @ [i] = ys @ a # ws" by (simp only: append1_eq_conv)
  then have "i \<in> set ws" using assms(3) by (cases ws rule: rev_cases) auto
  then show ?thesis using z by simp
qed

lemma links_exit:
  assumes ok: "links_ok st" and p: "may_exit st p" and e: "exited p rv st st'"
  shows "links_ok st'"
proof -
  note b = links_okD [OF ok] and d = may_exitD [OF ok p] and sel = exitedD [OF e]
  have q: "p \<in> set (allproc st)" "p \<noteq> initproc st" "p \<noteq> last (allproc st)" using p by (auto simp: may_exit_def)
  obtain xs p0 where x: "allproc st = xs @ [initproc st, p0]" "p_pid (pmem st p0) = 0" "p_pptr (pmem st p0) = 0" using b(5) by blast
  have px: "p \<in> set xs" "p \<noteq> p0" using q x by auto
  have P: "procs st' = procs st" using d(1,10) by (auto simp: procs_def sel)
  have cs: "set (p_cptr (pmem st p)) = {b \<in> procs st. p_pptr (pmem st b) = p}" by (rule b(10) [OF d(1)])
  have pid: "p_pid (pmem st' a) = p_pid (pmem st a)" for a by (simp add: sel orphan_def)
  have par: "p_pptr (pmem st' a) = (if a \<in> set (p_cptr (pmem st p)) then initproc st else p_pptr (pmem st a))" for a
    using d(2) by (simp add: sel orphan_def)
  have al: "set (allproc st') = set (allproc st) - {p}" by (simp add: sel d)
  have 1: "distinct (allproc st' @ zombproc st') \<and> 0 \<notin> procs st'"
    using b(1-4) q unfolding P by (auto simp: sel)
  have 2: "\<exists>xs p0. allproc st' = xs @ [initproc st', p0] \<and> p_pid (pmem st' p0) = 0 \<and> p_pptr (pmem st' p0) = 0"
  proof (intro exI conjI)
    show "allproc st' = remove1 p xs @ [initproc st', p0]" using px by (simp add: sel x remove1_append)
    show "p_pid (pmem st' p0) = 0" using x pid by simp
    show "p_pptr (pmem st' p0) = 0" using x d(4) by (simp add: par)
  qed
  have 3: "p_pptr (pmem st' a) \<in> set zs" if s: "allproc st' = ys @ a # zs" "zs \<noteq> []" for ys a zs
  proof -
    obtain ys' zs' where z: "allproc st = ys' @ a # zs'" "zs = remove1 p zs'" "a \<noteq> p"
      using remove1_split [OF b(1), of p ys a zs] s(1) unfolding sel by blast
    then have n: "zs' \<noteq> []" using s(2) by auto
    have dz: "distinct zs'" using b(1) z(1) by simp
    have m: "p_pptr (pmem st a) \<in> set zs'" by (rule b(7) [OF z(1) n])
    show ?thesis
    proof (cases "a \<in> set (p_cptr (pmem st p))")
      case True
      then have "a \<noteq> initproc st" using d(3) by auto
      then have "initproc st \<in> set zs'" using in_tail x(1) z(1) n by metis
      then show ?thesis using True q dz z(2) by (simp add: par)
    next
      case False
      then have "p_pptr (pmem st a) \<noteq> p" using cs z(1) by (auto simp: procs_def)
      then show ?thesis using False m dz z(2) by (simp add: par)
    qed
  qed
  have 4: "p_pptr (pmem st' z) \<in> set (allproc st')" if "z \<in> set (zombproc st')" for z
  proof (cases "z = p")
    case True
    obtain ys zs where s: "allproc st = ys @ p # zs" using q(1) by (auto simp: in_set_conv_decomp)
    then have "zs \<noteq> []" using q(3) by auto
    then have "p_pptr (pmem st p) \<in> set (allproc st)" using b(7) [OF s] s by auto
    then show ?thesis using True no_own_parent [OF ok q(1)] d(2) by (simp add: par al)
  next
    case False
    then have z: "z \<in> set (zombproc st)" using that by (simp add: sel)
    then have "p_pptr (pmem st z) \<in> set (allproc st)" by (rule b(8))
    moreover have "p_pptr (pmem st z) \<noteq> p" if "z \<notin> set (p_cptr (pmem st p))" using that z cs by (auto simp: procs_def)
    ultimately show ?thesis using d(6) q by (auto simp: par al)
  qed
  have 5: "p_stat (pmem st' a) = SZOMB \<longleftrightarrow> a \<in> set (zombproc st')" if "a \<in> procs st'" for a
    using b(9) [of a] that by (auto simp: P sel orphan_def)
  have 6: "set (p_cptr (pmem st' a)) = {b \<in> procs st'. p_pptr (pmem st' b) = a} \<and> distinct (p_cptr (pmem st' a))" if "a \<in> procs st'" for a
  proof -
    have a: "a \<in> procs st" using that P by simp
    have n: "set (p_cptr (pmem st p)) \<inter> set (p_cptr (pmem st a)) = {}" if "a \<noteq> p" using cs b(10) [OF a] that by auto
    have ca: "p_cptr (pmem st' a) = (if a = p then [] else if a = initproc st then rev (p_cptr (pmem st p)) @ p_cptr (pmem st a) else p_cptr (pmem st a))"
      using d(3) by (auto simp: sel orphan_def)
    have ch: "{b \<in> procs st'. p_pptr (pmem st' b) = a}
        = (if a = p then {} else if a = initproc st then set (p_cptr (pmem st p)) \<union> {b \<in> procs st. p_pptr (pmem st b) = a} else {b \<in> procs st. p_pptr (pmem st b) = a})"
      using cs q(2) d(9) unfolding P par by auto
    show ?thesis unfolding ca ch b(10) [OF a, symmetric] using n b(11) [OF a] b(11) [OF d(1)] q(2)
      by (cases "a = initproc st") auto
  qed
  have 7: "p_oppid (pmem st' a) = 0" if "a \<in> procs st'" for a
    using b(12) [of a] that by (auto simp: P sel orphan_def)
  have 8: "nprocs st' = int (length (allproc st') + length (zombproc st'))"
  proof -
    have "0 < length (allproc st)" using q(1) by auto
    then show ?thesis using b(13) q(1) by (simp add: sel length_remove1 Suc_leI of_nat_diff)
  qed
  have 9: "p_pid (pmem st' (initproc st')) = 1" using b(6) pid by (simp add: sel)
  show ?thesis unfolding links_ok_def using 1 2 3 4 5 6 7 8 9 by blast
qed

lemma exit_frame:
  assumes ok: "links_ok st" and p: "may_exit st p" and e: "exited p rv st st'"
  shows "procs st' = procs st" "groups st' = groups st" "p_session st' a = p_session st a" "p_pgid st' a = p_pgid st a"
    "p_pid (pmem st' a) = p_pid (pmem st a)" "p_pgrp (pmem st' a) = p_pgrp (pmem st a)" "p_cred (pmem st' a) = p_cred (pmem st a)"
    "pg_session (pgmem st' g) = pg_session (pgmem st g)" "pg_id (pgmem st' g) = pg_id (pgmem st g)" "pg_mem (pgmem st' g) = pg_mem (pgmem st g)"
    "boot_sessions st' = boot_sessions st" "last (allproc st') = last (allproc st)" "PIDHASH st' n = PIDHASH st n" "UIHASH st' n = UIHASH st n"
proof -
  note d = may_exitD [OF ok p] and sel = exitedD [OF e]
  show "procs st' = procs st" using d(1,10) by (auto simp: procs_def sel)
  show "groups st' = groups st" by (simp add: groups_def sel)
  show f: "p_pid (pmem st' a) = p_pid (pmem st a)" "p_pgrp (pmem st' a) = p_pgrp (pmem st a)" "p_cred (pmem st' a) = p_cred (pmem st a)"
    "pg_session (pgmem st' g) = pg_session (pgmem st g)" "pg_id (pgmem st' g) = pg_id (pgmem st g)" "pg_mem (pgmem st' g) = pg_mem (pgmem st g)" for a g
    by (simp_all add: sel orphan_def)
  show s: "p_session st' a = p_session st a" "p_pgid st' a = p_pgid st a" for a by (simp_all add: p_session_def p_pgid_def f)
  show "last (allproc st') = last (allproc st)" by (simp add: sel d)
  then show "boot_sessions st' = boot_sessions st" by (simp add: boot_sessions_def s sel)
  show "PIDHASH st' n = PIDHASH st n" "UIHASH st' n = UIHASH st n" by (simp_all add: PIDHASH_def UIHASH_def sel)
qed

lemma pids_exit:
  assumes ok: "links_ok st" "pids_ok st" and p: "may_exit st p" and e: "exited p rv st st'"
  shows "pids_ok st'"
proof -
  note f = exit_frame [OF ok(1) p e] and d = may_exitD [OF ok(1) p] and sel = exitedD [OF e] and b = pids_okD [OF ok(2)]
  have "distinct (pidhash st' k) \<and> set (pidhash st' k) = {a \<in> set (allproc st'). p_pid (pmem st' a) \<noteq> 0 \<and> PIDHASH st' (p_pid (pmem st' a)) = k}" for k
  proof -
    have h: "pidhash st' k = remove1 p (pidhash st k)"
      using b(5) [of k] by (auto simp: sel remove1_idem)
    show ?thesis unfolding h f sel(2) d(10) using b(4,5) [of k] by auto
  qed
  then show ?thesis using ok(2) unfolding pids_ok_def f sel(14,15) by blast
qed

lemma groups_exit:
  assumes ok: "links_ok st" "groups_ok st" and p: "may_exit st p" and e: "exited p rv st st'"
  shows "groups_ok st'"
  using ok(2) unfolding groups_ok_def groups_wf_def exit_frame [OF ok(1) p e] exitedD(7) [OF e] .

lemma sessions_exit:
  assumes ok: "proc_ok st" and p: "may_exit st p" and e: "exited p rv st st'"
  shows "sessions_ok st'" "boot_ok st'"
proof -
  have o: "links_ok st" "groups_ok st" "sessions_ok st" "boot_ok st" using ok by (simp_all add: proc_ok_def)
  note f = exit_frame [OF o(1) p e] and d = may_exitD [OF o(1) p] and sel = exitedD [OF e] and b = sessions_okD [OF o(3)]
  have c: "s_count (semem st' s) = s_count (semem st s)" for s by (simp add: sel)
  have l: "s_leader (semem st' s) = (if SESS_LEADER st p \<and> s = p_session st p then 0 else s_leader (semem st s))" for s by (simp add: sel)
  have "counts_ok st'" using o(3) unfolding sessions_ok_def counts_ok_def f c sel(8) by blast
  moreover have "s_leader (semem st' s) \<in> set (allproc st') \<and> p_session st' (s_leader (semem st' s)) = s
      \<and> p_pgid st' (s_leader (semem st' s)) = p_pid (pmem st' (s_leader (semem st' s)))"
    if s: "s \<in> set (selive st')" "s_leader (semem st' s) \<noteq> 0" for s
  proof -
    have n: "\<not> (SESS_LEADER st p \<and> s = p_session st p)" "s_leader (semem st' s) = s_leader (semem st s)" using s(2) by (auto simp: l split: if_splits)
    have m: "s_leader (semem st s) \<in> set (allproc st) \<and> p_session st (s_leader (semem st s)) = s
      \<and> p_pgid st (s_leader (semem st s)) = p_pid (pmem st (s_leader (semem st s)))"
      using b(6) [of s] s n(2) sel(8) by auto
    then have "s_leader (semem st s) \<noteq> p" using n(1) by (auto simp: SESS_LEADER_def)
    then show ?thesis unfolding n(2) f sel(2) d(10) using m by simp
  qed
  moreover have "\<forall>g \<in> groups st'. \<forall>a \<in> procs st'. pg_id (pgmem st' g) = p_pid (pmem st' a) \<longrightarrow> pg_session (pgmem st' g) = p_session st' a"
    unfolding f using b(7) by blast
  ultimately show "sessions_ok st'" unfolding sessions_ok_def leaders_ok_def by blast
  have "SESS_LEADER st' (initproc st)" if "SESS_LEADER st (initproc st)"
  proof -
    have "\<not> (SESS_LEADER st p \<and> p_session st (initproc st) = p_session st p)"
      using that p by (auto simp: SESS_LEADER_def may_exit_def)
    then show ?thesis using that unfolding SESS_LEADER_def f l by auto
  qed
  then show "boot_ok st'" using o(4) unfolding boot_ok_def f sel(18) by blast
qed

text \<open>The counts for job control lose what \<open>fixjobc\<close> subtracts: the process itself and its children
  in other groups of the session, whose new parent is in another session.\<close>

lemma jobc_exit:
  assumes ok: "links_ok st" "jobc_ok st" and p: "may_exit st p" and e: "exited p rv st st'"
  shows "jobc_ok st'"
proof -
  note f = exit_frame [OF ok(1) p e] and d = may_exitD [OF ok(1) p] and sel = exitedD [OF e]
  have q: "p \<in> set (allproc st)" using p by (simp add: may_exit_def)
  have "pg_jobc (pgmem st' g) = jcount st' g" if g: "g \<in> groups st" "pg_session (pgmem st g) \<notin> boot_sessions st" for g
  proof -
    let ?h = "p_pgrp (pmem st p)"
    have n: "pg_session (pgmem st g) \<noteq> p_session st (initproc st)" using g(2) by (simp add: boot_sessions_def)
    have par: "p_pptr (pmem st' a) = (if a \<in> set (p_cptr (pmem st p)) then initproc st else p_pptr (pmem st a))" for a
      using d(2) by (simp add: sel orphan_def)
    have kid: "a \<in> set (p_cptr (pmem st p)) \<longleftrightarrow> p_pptr (pmem st a) = p" if "a \<in> set (allproc st)" for a
      using that links_okD(10) [OF ok(1) d(1)] by (auto simp: procs_def)
    have fin: "finite (set (allproc st))" by simp
    have 1: "of_bool (p_pgrp (pmem st' a) = g \<and> qualifies st' a) + of_bool (p_pptr (pmem st a) = p \<and> p_pgrp (pmem st a) = g \<and> g \<noteq> ?h
        \<and> pg_session (pgmem st g) = pg_session (pgmem st ?h)) = (of_bool (p_pgrp (pmem st a) = g \<and> qualifies st a) :: int)"
      if a: "a \<in> set (allproc st)" for a
    proof (cases "p_pptr (pmem st a) = p")
      case True
      then show ?thesis using n kid [OF a] by (auto simp: qualifies_def p_session_def Let_def f par)
    next
      case False
      then show ?thesis using kid [OF a] by (simp add: qualifies_def p_session_def Let_def f par)
    qed
    have 2: "p_pptr (pmem st p) \<noteq> p" using no_own_parent [OF ok(1) q] .
    have 3: "(\<Sum>a \<in> set (allproc st). of_bool (p_pgrp (pmem st' a) = g \<and> qualifies st' a))
        + (\<Sum>a \<in> set (allproc st). of_bool (p_pptr (pmem st a) = p \<and> p_pgrp (pmem st a) = g \<and> g \<noteq> ?h
            \<and> pg_session (pgmem st g) = pg_session (pgmem st ?h)))
        = (\<Sum>a \<in> set (allproc st). of_bool (p_pgrp (pmem st a) = g \<and> qualifies st a) :: int)"
      unfolding sum.distrib [symmetric] by (rule sum.cong [OF refl 1])
    have "jcount st' g = (\<Sum>a \<in> set (allproc st) - {p}. of_bool (p_pgrp (pmem st' a) = g \<and> qualifies st' a))"
      unfolding jcount_sum sel(2) d(10) ..
    also have "\<dots> = (\<Sum>a \<in> set (allproc st). of_bool (p_pgrp (pmem st' a) = g \<and> qualifies st' a)) - of_bool (p_pgrp (pmem st p) = g \<and> qualifies st p)"
      using sum_diff1 [OF fin, of "\<lambda>a. of_bool (p_pgrp (pmem st' a) = g \<and> qualifies st' a) :: int" p] q 1 [OF q] 2 by simp
    also have "(\<Sum>a \<in> set (allproc st). of_bool (p_pgrp (pmem st' a) = g \<and> qualifies st' a) :: int)
        = jcount st g - jobc_kids st (p_cptr (pmem st p)) ?h g"
      using 3 unfolding jcount_sum jobc_kids_sum [OF ok(1) d(1)] by (rule eq_diff_eq [THEN iffD2])
    also have "jcount st g - jobc_kids st (p_cptr (pmem st p)) ?h g - of_bool (p_pgrp (pmem st p) = g \<and> qualifies st p) = jcount st g - jobc_delta st p ?h g"
      by (auto simp: jobc_delta_def qualifies_def p_session_def Let_def)
    finally show ?thesis using ok(2) g by (simp add: sel(5) jobc_ok_def jcount_def)
  qed
  then show ?thesis unfolding jobc_ok_def f jcount_def by simp
qed

lemma exit_ok:
  assumes ok: "proc_ok st" and p: "may_exit st p"
  shows "\<exists>st'. exit p rv st = Inr st' \<and> proc_ok st' \<and> exited p rv st st'"
proof -
  have o: "links_ok st" "pids_ok st" "groups_ok st" "jobc_ok st" "users_ok st" using ok by (simp_all add: proc_ok_def)
  note d = may_exitD [OF o(1) p] and b = links_okD [OF o(1)]
  have q: "p \<in> set (allproc st)" "p \<noteq> initproc st" "p \<noteq> last (allproc st)" using p by (auto simp: may_exit_def)
  have u: "p = a" if "a \<in> procs st" "p_pid (pmem st p) = p_pid (pmem st a)" for a
    using pids_okD(1) [OF o(2)] d(1) that by (auto dest: inj_onD)
  have "p_pid (pmem st p) \<noteq> 1" using u [of "initproc st"] b(6) d(6) q(2) by (auto simp: procs_def)
  moreover have "p_pid (pmem st p) \<noteq> 0" using u [of "last (allproc st)"] b(5) d(7) q(3) by (auto simp: procs_def)
  ultimately obtain st' where st': "exit p rv st = Inr st'" "exited p rv st st'"
    using exit_eff [of st p rv] pids_okD(5) [OF o(2), of "PIDHASH st (p_pid (pmem st p))"] q d b(11) by auto
  have "users_ok st'" using o(5) unfolding users_ok_def exit_frame [OF o(1) p st'(2)] exitedD(11) [OF st'(2)] .
  then have "proc_ok st'"
    unfolding proc_ok_def using links_exit [OF o(1) p st'(2)] pids_exit [OF o(1,2) p st'(2)] groups_exit [OF o(1,3) p st'(2)]
      sessions_exit [OF ok p st'(2)] jobc_exit [OF o(1,4) p st'(2)] by blast
  then show ?thesis using st' by blast
qed

end
