(* ===== verification/Proc_Fork.thy ===== *)
theory Proc_Fork
  imports Proc_Inv
begin

text \<open>
  \<open>fork\<close>: the search for an unused process number finds one whenever there is one, and linking the
  child keeps the invariant.
\<close>

section \<open>The search for a process number\<close>

definition pid_set :: "(int \<times> int) list \<Rightarrow> int set" where
  "pid_set ps = fst ` set ps \<union> snd ` set ps"

lemma pid_bump_correct:
  "pid_bump pid pgid n c = (n', retry) \<Longrightarrow>
    n \<le> n' \<and> (\<forall>m. n \<le> m \<and> m < n' \<longrightarrow> m = pid \<or> m = pgid)
    \<and> (if retry then c \<le> n' \<and> n < n' else n' \<noteq> pid \<and> n' \<noteq> pgid \<and> (n < c \<longrightarrow> n' < c))"
proof (induction pid pgid n c rule: pid_bump.induct)
  case (1 pid pgid n c)
  show ?case
  proof (cases "(pid = n \<or> pgid = n) \<and> \<not> c \<le> n + 1")
    case True
    then have "pid_bump pid pgid (n + 1) c = (n', retry)" using 1(2) by (subst (asm) pid_bump.simps) simp
    then show ?thesis using 1(1) True
      by (auto split: if_splits) (metis add1_zle_eq order_le_less)+
  next
    case False
    have "\<And>m. n \<le> m \<Longrightarrow> m < n + 1 \<Longrightarrow> m = n" by simp
    then show ?thesis using 1(2) False
      by (subst (asm) pid_bump.simps) (fastforce split: if_splits)
  qed
qed

lemma pid_scan_correct:
  "pid_scan ps n c = (n', c', retry) \<Longrightarrow> n < c \<Longrightarrow>
    n \<le> n' \<and> (\<forall>m. n \<le> m \<and> m < n' \<longrightarrow> m \<in> pid_set ps) \<and> c' \<le> c
    \<and> (if retry then c' \<le> n' \<and> n < n' else n' < c' \<and> (\<forall>x \<in> pid_set ps. x < n' \<or> c' \<le> x))"
proof (induction ps n c rule: pid_scan.induct)
  case (2 pid pgid ps n c)
  obtain n1 r where b: "pid_bump pid pgid n c = (n1, r)" by (cases "pid_bump pid pgid n c")
  note bc = pid_bump_correct [OF b]
  have sub: "m \<in> pid_set ps \<or> m = pid \<or> m = pgid \<Longrightarrow> m \<in> pid_set ((pid, pgid) # ps)" for m
    by (auto simp: pid_set_def)
  show ?case
  proof (cases r)
    case True
    then have "n' = n1" "c' = c" "retry" using 2(2) b by auto
    then show ?thesis using bc True sub by auto
  next
    case False
    define c1 where "c1 = (if n1 < pid \<and> pid < c then pid else c)"
    define c2 where "c2 = (if n1 < pgid \<and> pgid < c1 then pgid else c1)"
    have n1: "n \<le> n1" "n1 \<noteq> pid" "n1 \<noteq> pgid" "n1 < c" "\<forall>m. n \<le> m \<and> m < n1 \<longrightarrow> m = pid \<or> m = pgid"
      using bc False 2(3) by auto
    have c2: "n1 < c2" "c2 \<le> c" "pid < n1 \<or> c2 \<le> pid" "pgid < n1 \<or> c2 \<le> pgid"
      using n1 by (auto simp: c1_def c2_def)
    have s: "pid_scan ps n1 c2 = (n', c', retry)" unfolding c2_def c1_def using 2(2) b False by (simp add: Let_def split del: if_split)
    have IH: "n1 \<le> n' \<and> (\<forall>m. n1 \<le> m \<and> m < n' \<longrightarrow> m \<in> pid_set ps) \<and> c' \<le> c2
      \<and> (if retry then c' \<le> n' \<and> n1 < n' else n' < c' \<and> (\<forall>x \<in> pid_set ps. x < n' \<or> c' \<le> x))"
      using False by (intro 2(1) [OF b [symmetric] refl _ c1_def c2_def s c2(1)])
    have "\<forall>m. n \<le> m \<and> m < n' \<longrightarrow> m \<in> pid_set ((pid, pgid) # ps)"
      using IH n1(5) sub by (metis not_le)
    moreover have "n \<le> n'" "c' \<le> c" "retry \<Longrightarrow> c' \<le> n' \<and> n < n'" using IH n1(1) c2(2) by auto
    moreover have "x < n' \<or> c' \<le> x" if "x \<in> pid_set ((pid, pgid) # ps)" "\<not> retry" for x
    proof -
      have "x = pid \<or> x = pgid \<or> x \<in> pid_set ps" using that(1) by (auto simp: pid_set_def)
      then show ?thesis using IH c2 that(2) by auto
    qed
    ultimately show ?thesis using IH by (cases retry) auto
  qed
qed (auto simp: pid_set_def)

definition pid_fresh :: "(int \<times> int) list \<Rightarrow> int \<Rightarrow> int \<Rightarrow> bool" where
  "pid_fresh ps pid checked \<longleftrightarrow> pid \<notin> pid_set ps \<and> 0 < pid \<and> pid < PID_MAX \<and> checked \<le> PID_MAX
     \<and> (\<forall>x \<in> pid_set ps. \<not> (pid < x \<and> x < checked))"

lemma pid_search_correct:
  assumes "pid_search ps n c = Some r"
    and "0 < n" "c \<le> PID_MAX" "\<forall>x \<in> pid_set ps. \<not> (n \<le> x \<and> x < c)"
  shows "pid_fresh ps (fst r) (snd r)"
proof -
  have "0 < n \<longrightarrow> c \<le> PID_MAX \<longrightarrow> (\<forall>x \<in> pid_set ps. \<not> (n \<le> x \<and> x < c)) \<longrightarrow> pid_fresh ps (fst r) (snd r)"
  proof (rule pid_search.raw_induct [OF _ assms(1)], intro impI, goal_cases)
    case (1 search ps n c r)
    define n1 c1 where "n1 = (if PID_MAX \<le> n then 100 else n)" and "c1 = (if PID_MAX \<le> n then 0 else c)"
    have n1: "0 < n1" "n1 < PID_MAX" "c1 \<le> PID_MAX" "\<forall>x \<in> pid_set ps. \<not> (n1 \<le> x \<and> x < c1)"
      using 1(3-5) by (auto simp: n1_def c1_def PID_MAX_def)
    have e: "(if c1 \<le> n1 then case pid_scan ps n1 PID_MAX of (n', c', retry) \<Rightarrow> if retry then search ps n' c' else Some (n', c')
        else Some (n1, c1)) = Some r"
      using 1(2) by (simp add: n1_def c1_def split: if_splits)
    show ?case
    proof (cases "c1 \<le> n1")
      case True
      obtain n' c' retry where s: "pid_scan ps n1 PID_MAX = (n', c', retry)" by (cases "pid_scan ps n1 PID_MAX")
      note sc = pid_scan_correct [OF s n1(2)]
      show ?thesis
      proof (cases retry)
        case True
        then have "search ps n' c' = Some r" using e s \<open>c1 \<le> n1\<close> by simp
        then show ?thesis using True sc n1 1(1) [of ps n' c' r] by auto
      next
        case False
        then have "r = (n', c')" using e s True by simp
        then show ?thesis using sc n1 False by (auto simp: pid_fresh_def)
      qed
    next
      case False
      then have "r = (n1, c1)" using e by simp
      then show ?thesis using n1 False by (auto simp: pid_fresh_def)
    qed
  qed
  then show ?thesis using assms by blast
qed

text \<open>The search ends when a number from 100 on is free.\<close>

lemma pid_search_returns:
  assumes f: "100 \<le> f" "f < PID_MAX" "f \<notin> pid_set ps"
  shows "\<exists>r. pid_search ps n c = Some r"
proof (induction "if n \<le> f then nat (f - n) else nat (PID_MAX - n) + nat (f - 100) + 1" arbitrary: n c rule: less_induct)
  case less
  define n1 c1 where "n1 = (if PID_MAX \<le> n then 100 else n)" and "c1 = (if PID_MAX \<le> n then 0 else c)"
  have n1: "n1 < PID_MAX" by (auto simp: n1_def PID_MAX_def)
  have e: "pid_search ps n c = (if c1 \<le> n1 then case pid_scan ps n1 PID_MAX of (n', c', retry) \<Rightarrow>
      if retry then pid_search ps n' c' else Some (n', c') else Some (n1, c1))"
    by (subst pid_search.simps) (simp add: n1_def c1_def)
  obtain n' c' retry where s: "pid_scan ps n1 PID_MAX = (n', c', retry)" by (cases "pid_scan ps n1 PID_MAX")
  note sc = pid_scan_correct [OF s n1]
  have "\<exists>r. pid_search ps n' c' = Some r" if retry
  proof (rule less.hyps)
    have gt: "n1 < n'" using sc that by simp
    have le: "n1 \<le> f \<Longrightarrow> n' \<le> f" using sc f(3) by (metis not_le)
    show "(if n' \<le> f then nat (f - n') else nat (PID_MAX - n') + nat (f - 100) + 1)
        < (if n \<le> f then nat (f - n) else nat (PID_MAX - n) + nat (f - 100) + 1)"
      using gt le f n1 by (auto simp: n1_def split: if_splits)
  qed
  then show ?case using e s by (auto split: if_splits)
qed

text \<open>So it ends whenever the numbers in use are fewer than those from 100 on.\<close>

lemma pid_free:
  assumes "2 * length ps < nat PID_MAX - 100"
  shows "\<exists>f. 100 \<le> f \<and> f < PID_MAX \<and> f \<notin> pid_set ps"
proof (rule ccontr)
  assume "\<not> ?thesis"
  then have "{100..<PID_MAX} \<subseteq> pid_set ps" by auto
  moreover have "finite (pid_set ps)" by (simp add: pid_set_def)
  ultimately have "card {100..<PID_MAX} \<le> card (pid_set ps)" by (intro card_mono)
  also have "\<dots> \<le> card (fst ` set ps) + card (snd ` set ps)" unfolding pid_set_def by (rule card_Un_le)
  also have "\<dots> \<le> length ps + length ps"
    by (meson add_mono card_image_le card_length List.finite_set order_trans)
  finally show False using assms by (simp add: PID_MAX_def)
qed

section \<open>Linking the child\<close>

lemma set_insert_behind: "p \<in> set xs \<Longrightarrow> set (insert_behind p q xs) = insert q (set xs)"
  by (induction xs) auto

lemma distinct_insert_behind: "distinct xs \<Longrightarrow> q \<notin> set xs \<Longrightarrow> p \<in> set xs \<Longrightarrow> distinct (insert_behind p q xs)"
  by (induction xs) (auto simp: set_insert_behind)

lemma fork_link_sel:
  assumes "p1 \<noteq> p2"
  shows
    "pmem (fork_link p1 p2 pid v st) a = (if a = p2 then (fork_child p1 p2 pid v st)\<lparr>p_stat := SRUN, p_acflag := {AFORK}\<rparr>
       else if a = p1 then (pmem st p1)\<lparr>p_cptr := p2 # p_cptr (pmem st p1)\<rparr> else pmem st a)"
    "allproc (fork_link p1 p2 pid v st) = p2 # allproc st" "zombproc (fork_link p1 p2 pid v st) = zombproc st"
    "pidhash (fork_link p1 p2 pid v st) = (pidhash st)(PIDHASH st pid := p2 # pidhash st (PIDHASH st pid))"
    "pgmem (fork_link p1 p2 pid v st) g = (if g = p_pgrp (pmem st p1) then (pgmem st g)\<lparr>pg_mem := insert_behind p1 p2 (pg_mem (pgmem st g))\<rparr> else pgmem st g)"
    "pgrphash (fork_link p1 p2 pid v st) = pgrphash st" "semem (fork_link p1 p2 pid v st) = semem st" "selive (fork_link p1 p2 pid v st) = selive st"
    "crmem (fork_link p1 p2 pid v st) c = (if c = p_ucred st p1 then (crmem st c)\<lparr>cr_ref := cr_ushort (cr_ref (crmem st c) + 1)\<rparr> else crmem st c)"
    "crlive (fork_link p1 p2 pid v st) = crlive st" "uihashtbl (fork_link p1 p2 pid v st) = uihashtbl st" "uihash (fork_link p1 p2 pid v st) = uihash st" "pidhashmask (fork_link p1 p2 pid v st) = pidhashmask st"
    "nextpid (fork_link p1 p2 pid v st) = nextpid st" "pidchecked (fork_link p1 p2 pid v st) = pidchecked st" "nprocs (fork_link p1 p2 pid v st) = nprocs st + 1" "maxproc (fork_link p1 p2 pid v st) = maxproc st"
    "curproc (fork_link p1 p2 pid v st) = curproc st" "initproc (fork_link p1 p2 pid v st) = initproc st"
  using assms(1) unfolding fork_link_def Let_def crhold_def PIDHASH_def p_ucred_def by (simp_all add: upd_simps)

lemma fork_child_sel:
  "p_pid (fork_child p1 p2 pid v st) = pid" "p_pptr (fork_child p1 p2 pid v st) = p1" "p_cptr (fork_child p1 p2 pid v st) = []"
  "p_pgrp (fork_child p1 p2 pid v st) = p_pgrp (pmem st p1)" "p_oppid (fork_child p1 p2 pid v st) = 0"
  "p_cred (fork_child p1 p2 pid v st) = (p_cred (pmem st p1))\<lparr>p_refcnt := 1\<rparr>"
  by (simp_all add: fork_child_def Let_def)

lemma procs_fork: "p1 \<noteq> p2 \<Longrightarrow> procs (fork_link p1 p2 pid v st) = insert p2 (procs st)"
  by (auto simp: procs_def fork_link_sel)

lemma groups_fork: "p1 \<noteq> p2 \<Longrightarrow> groups (fork_link p1 p2 pid v st) = groups st"
  by (simp add: groups_def fork_link_sel)

lemma parent_active:
  assumes "links_ok st" "b \<in> procs st"
  shows "p_pptr (pmem st b) = 0 \<or> p_pptr (pmem st b) \<in> set (allproc st)"
proof (cases "b \<in> set (zombproc st)")
  case True
  then show ?thesis using assms unfolding links_ok_def by blast
next
  case False
  then obtain ys zs where a: "allproc st = ys @ b # zs" using assms(2) by (auto simp: procs_def in_set_conv_decomp)
  show ?thesis
  proof (cases "zs = []")
    case True
    then have "b = last (allproc st)" using a by simp
    then show ?thesis using assms(1) unfolding links_ok_def by auto
  qed (use a assms(1) in \<open>unfold links_ok_def, fastforce\<close>)
qed

text \<open>The numbers the search takes into account are those of all processes and groups.\<close>

lemma proc_used: "a \<in> procs st \<Longrightarrow> p_pid (pmem st a) \<in> pid_set (pids_used st) \<and> p_pgid st a \<in> pid_set (pids_used st)"
  unfolding pid_set_def pids_used_def set_map set_append image_image image_Un procs_def fst_conv snd_conv by auto

lemma group_used: "groups_ok st \<Longrightarrow> g \<in> groups st \<Longrightarrow> pg_id (pgmem st g) \<in> pid_set (pids_used st)"
proof -
  assume g: "groups_ok st" "g \<in> groups st"
  then have "hd (pg_mem (pgmem st g)) \<in> {a \<in> procs st. p_pgrp (pmem st a) = g}" using groups_okD(7,9) [OF g] by (metis hd_in_set)
  then show ?thesis using proc_used by (fastforce simp: p_pgid_def)
qed

lemma links_fork:
  assumes ok: "links_ok st" and p1: "p1 \<in> set (allproc st)" and p2: "p2 \<notin> procs st" "p2 \<noteq> 0"
  shows "links_ok (fork_link p1 p2 pid v st)"
proof -
  have ne: "p1 \<noteq> p2" using p1 p2 by (auto simp: procs_def)
  define st' where "st' = fork_link p1 p2 pid v st"
  note sel = fork_link_sel [OF ne, of pid v st, folded st'_def] fork_child_sel
  have P: "procs st' = insert p2 (procs st)" using procs_fork [OF ne] by (simp add: st'_def)
  obtain xs p0 where xs: "allproc st = xs @ [initproc st, p0]" "p_pid (pmem st p0) = 0" "p_pptr (pmem st p0) = 0"
    using ok unfolding links_ok_def by blast
  have i: "initproc st \<in> procs st" "p0 \<in> procs st" using xs by (auto simp: procs_def)
  have ord: "p_pptr (pmem st' a) \<in> set zs" if "allproc st' = ys @ a # zs" "zs \<noteq> []" for ys a zs
  proof (cases ys)
    case Nil
    then show ?thesis using that p1 by (simp add: sel)
  next
    case (Cons y ys')
    then have "allproc st = ys' @ a # zs" using that by (simp add: sel)
    moreover have "a \<noteq> p2" using calculation p2 by (auto simp: procs_def)
    ultimately show ?thesis using that ok unfolding links_ok_def by (simp add: sel)
  qed
  have np: "p_pptr (pmem st b) \<noteq> p2" if "b \<in> procs st" for b
    using parent_active [OF ok that] p2 by (auto simp: procs_def)
  have kids: "set (p_cptr (pmem st' a)) = {b \<in> procs st'. p_pptr (pmem st' b) = a} \<and> distinct (p_cptr (pmem st' a))"
    if a: "a \<in> procs st'" for a
  proof (cases "a = p2")
    case True
    then show ?thesis using np ne p2 by (auto simp: sel P)
  next
    case False
    then have "set (p_cptr (pmem st a)) = {b \<in> procs st. p_pptr (pmem st b) = a} \<and> distinct (p_cptr (pmem st a))"
      using ok a P unfolding links_ok_def by auto
    then show ?thesis using False ne p2 p1 by (auto simp: sel P procs_def)
  qed
  have "\<exists>ys q0. allproc st' = ys @ [initproc st', q0] \<and> p_pid (pmem st' q0) = 0 \<and> p_pptr (pmem st' q0) = 0"
    using xs i p2 by (intro exI [of _ "p2 # xs"] exI [of _ p0]) (auto simp: sel)
  moreover have "p_pid (pmem st' (initproc st')) = 1" using ok i p2 unfolding links_ok_def by (auto simp: sel)
  moreover have "p_stat (pmem st' a) = SZOMB \<longleftrightarrow> a \<in> set (zombproc st')" if "a \<in> procs st'" for a
    using ok that p2 P unfolding links_ok_def by (auto simp: sel procs_def)
  ultimately show ?thesis unfolding st'_def [symmetric] links_ok_def
    using ok p2 ne ord kids P unfolding links_ok_def by (auto simp: sel procs_def)
qed

lemma pids_fork:
  assumes ok: "pids_ok st" "groups_ok st" and p1: "p1 \<in> set (allproc st)" and p2: "p2 \<notin> procs st"
    and pid: "pid_fresh (pids_used st) pid checked"
  shows "pids_ok (fork_link p1 p2 pid v (st\<lparr>nextpid := pid, pidchecked := checked\<rparr>))"
proof -
  have ne: "p1 \<noteq> p2" using p1 p2 by (auto simp: procs_def)
  define s where "s = st\<lparr>nextpid := pid, pidchecked := checked\<rparr>"
  define st' where "st' = fork_link p1 p2 pid v s"
  note sel = fork_link_sel [OF ne, of pid v s, folded st'_def] fork_child_sel
  have P: "procs st' = insert p2 (procs st)" and G: "groups st' = groups st"
    using procs_fork [OF ne] groups_fork [OF ne] by (simp_all add: st'_def s_def procs_def groups_def)
  note used = proc_used [THEN conjunct1] and gused = group_used [OF ok(2)]
  note pf = pid [unfolded pid_fresh_def]
  have pm: "pmem s = pmem st" "pgmem s = pgmem st" "pidhashmask s = pidhashmask st" "pidhash s = pidhash st" "allproc s = allproc st" by (simp_all add: s_def)
  have h: "PIDHASH st' x = PIDHASH st x" "PIDHASH s x = PIDHASH st x" for x by (simp_all add: PIDHASH_def sel pm)
  have pd: "p_pid (pmem st' a) = (if a = p2 then pid else p_pid (pmem st a))" for a by (simp add: sel pm)
  have gd: "pg_id (pgmem st' g) = pg_id (pgmem st g)" for g by (simp add: sel pm)
  have "inj_on (\<lambda>a. p_pid (pmem st' a)) (procs st')"
  proof (rule inj_onI)
    fix a b assume "a \<in> procs st'" "b \<in> procs st'" "p_pid (pmem st' a) = p_pid (pmem st' b)"
    moreover have "p_pid (pmem st c) \<noteq> pid" if "c \<in> procs st" for c using used [OF that] pf by auto
    ultimately show "a = b" using inj_onD [OF pids_okD(1) [OF ok(1)], of a b] unfolding P pd by (auto split: if_splits)
  qed
  moreover have "distinct (pidhash st' k) \<and> set (pidhash st' k) = {a \<in> set (allproc st'). p_pid (pmem st' a) \<noteq> 0 \<and> PIDHASH st' (p_pid (pmem st' a)) = k}" for k
  proof -
    note d = pids_okD(4,5) [OF ok(1), of k]
    have n: "p2 \<notin> set (allproc st)" using p2 by (simp add: procs_def)
    have al: "allproc st' = p2 # allproc st" by (simp add: sel pm)
    have ha: "pidhash st' k = (if k = PIDHASH st pid then p2 # pidhash st k else pidhash st k)" by (simp add: sel pm h)
    have "pid \<noteq> 0" using pf by simp
    then have "{a \<in> set (allproc st'). p_pid (pmem st' a) \<noteq> 0 \<and> PIDHASH st' (p_pid (pmem st' a)) = k}
        = (if k = PIDHASH st pid then {p2} else {}) \<union> {a \<in> set (allproc st). p_pid (pmem st a) \<noteq> 0 \<and> PIDHASH st (p_pid (pmem st a)) = k}"
      unfolding al h pd using n by auto
    then show ?thesis unfolding ha using d n by auto
  qed
  moreover have "\<forall>a \<in> procs st'. 0 \<le> p_pid (pmem st' a) \<and> p_pid (pmem st' a) < PID_MAX
      \<and> \<not> (pid < p_pid (pmem st' a) \<and> p_pid (pmem st' a) < checked)"
    using pids_okD(2,3) [OF ok(1)] used pf unfolding P pd by auto
  moreover have "\<forall>g \<in> groups st. \<not> (pid < pg_id (pgmem st g) \<and> pg_id (pgmem st g) < checked)"
    using gused pf by blast
  ultimately show ?thesis unfolding s_def [symmetric] st'_def [symmetric] pids_ok_def G gd
    using pf by (auto simp: sel s_def)
qed

lemma groups_fork_ok:
  assumes ok: "groups_ok st" and p1: "p1 \<in> set (allproc st)" and p2: "p2 \<notin> procs st"
  shows "groups_ok (fork_link p1 p2 pid v st)"
proof -
  have ne: "p1 \<noteq> p2" using p1 p2 by (auto simp: procs_def)
  define st' where "st' = fork_link p1 p2 pid v st"
  note sel = fork_link_sel [OF ne, of pid v st, folded st'_def] fork_child_sel
  have P: "procs st' = insert p2 (procs st)" and G: "groups st' = groups st"
    using procs_fork [OF ne] groups_fork [OF ne] by (simp_all add: st'_def)
  have gd: "pg_id (pgmem st' g) = pg_id (pgmem st g)" for g by (simp add: sel)
  have pg: "p_pgrp (pmem st' a) = (if a = p2 then p_pgrp (pmem st p1) else p_pgrp (pmem st a))" for a by (simp add: sel)
  have p1p: "p1 \<in> procs st" using p1 by (simp add: procs_def)
  have mem: "pg_mem (pgmem st' g) \<noteq> [] \<and> distinct (pg_mem (pgmem st' g))
      \<and> set (pg_mem (pgmem st' g)) = {a \<in> procs st'. p_pgrp (pmem st' a) = g}" if "g \<in> groups st" for g
  proof -
    have o: "pg_mem (pgmem st g) \<noteq> []" "distinct (pg_mem (pgmem st g))"
      "set (pg_mem (pgmem st g)) = {a \<in> procs st. p_pgrp (pmem st a) = g}" using groups_okD(7-9) [OF ok that] by blast+
    show ?thesis
    proof (cases "g = p_pgrp (pmem st p1)")
      case True
      then have "p1 \<in> set (pg_mem (pgmem st g))" "p2 \<notin> set (pg_mem (pgmem st g))" using o p1p p2 by auto
      then have "set (insert_behind p1 p2 (pg_mem (pgmem st g))) = insert p2 (set (pg_mem (pgmem st g)))"
        "distinct (insert_behind p1 p2 (pg_mem (pgmem st g)))" using o by (simp_all add: set_insert_behind distinct_insert_behind)
      then show ?thesis using True o p2 ne P pg by (auto simp: sel)
    qed (use o P pg p2 in \<open>auto simp: sel\<close>)
  qed
  have "p_pgrp (pmem st' a) \<in> groups st" if "a \<in> procs st'" for a
    using groups_okD(6) [OF ok] that p1p unfolding P pg by auto
  then show ?thesis unfolding st'_def [symmetric] groups_ok_def groups_wf_def G gd
    using ok mem unfolding groups_ok_def groups_wf_def by (auto simp: sel PIDHASH_def)
qed

lemma sessions_fork:
  assumes ok: "sessions_ok st" "groups_ok st" and p1: "p1 \<in> set (allproc st)" and p2: "p2 \<notin> procs st"
    and pid: "pid_fresh (pids_used st) pid checked"
  shows "sessions_ok (fork_link p1 p2 pid v st)"
proof -
  have ne: "p1 \<noteq> p2" using p1 p2 by (auto simp: procs_def)
  define st' where "st' = fork_link p1 p2 pid v st"
  note sel = fork_link_sel [OF ne, of pid v st, folded st'_def] fork_child_sel
  have P: "procs st' = insert p2 (procs st)" and G: "groups st' = groups st"
    using procs_fork [OF ne] groups_fork [OF ne] by (simp_all add: st'_def)
  have gd: "pg_id (pgmem st' g) = pg_id (pgmem st g)" "pg_session (pgmem st' g) = pg_session (pgmem st g)" for g by (simp_all add: sel)
  have gused: "pg_id (pgmem st g) \<noteq> pid" if "g \<in> groups st" for g
    using group_used [OF ok(2) that] pid by (auto simp: pid_fresh_def)
  have ps: "p_session st' a = (if a = p2 then p_session st p1 else p_session st a)"
    "p_pgid st' a = (if a = p2 then p_pgid st p1 else p_pgid st a)"
    "p_pid (pmem st' a) = (if a = p2 then pid else p_pid (pmem st a))" for a
    by (simp_all add: p_session_def p_pgid_def sel gd)
  have l: "s_leader (semem st s) \<in> set (allproc st) \<Longrightarrow> s_leader (semem st s) \<noteq> p2" for s
    using p2 by (auto simp: procs_def)
  have eqs: "selive st' = selive st" "semem st' = semem st" "allproc st' = p2 # allproc st" by (simp_all add: sel)
  have lead: "s_leader (semem st s) \<in> set (allproc st') \<and> p_session st' (s_leader (semem st s)) = s
      \<and> p_pgid st' (s_leader (semem st s)) = p_pid (pmem st' (s_leader (semem st s)))"
    if "s \<in> set (selive st)" "s_leader (semem st s) \<noteq> 0" for s
    using sessions_okD(6) [OF ok(1) that] l [of s] unfolding ps eqs by simp
  have own: "pg_session (pgmem st g) = p_session st' a" if "g \<in> groups st" "a \<in> procs st'" "pg_id (pgmem st g) = p_pid (pmem st' a)" for g a
    using sessions_okD(7) [OF ok(1) that(1), of a] gused [OF that(1)] that unfolding ps P by (auto split: if_splits)
  show ?thesis unfolding st'_def [symmetric] sessions_ok_def counts_ok_def leaders_ok_def G gd eqs(1,2)
    using sessions_okD(1-5) [OF ok(1)] lead own by auto
qed

lemma jobc_fork:
  assumes ok: "jobc_ok st" "links_ok st" and p1: "p1 \<in> set (allproc st)" and p2: "p2 \<notin> procs st" "p2 \<noteq> 0"
  shows "jobc_ok (fork_link p1 p2 pid v st)"
proof -
  have ne: "p1 \<noteq> p2" using p1 p2 by (auto simp: procs_def)
  define st' where "st' = fork_link p1 p2 pid v st"
  note sel = fork_link_sel [OF ne, of pid v st, folded st'_def] fork_child_sel
  have G: "groups st' = groups st" using groups_fork [OF ne] by (simp add: st'_def)
  have gd: "pg_session (pgmem st' g) = pg_session (pgmem st g)" "pg_jobc (pgmem st' g) = pg_jobc (pgmem st g)" for g
    by (simp_all add: sel)
  have pg: "p_pgrp (pmem st' a) = (if a = p2 then p_pgrp (pmem st p1) else p_pgrp (pmem st a))"
    "p_pptr (pmem st' a) = (if a = p2 then p1 else p_pptr (pmem st a))" for a by (simp_all add: sel)
  have q: "qualifies st' a = (a \<noteq> p2 \<and> qualifies st a)" if "a \<in> procs st \<or> a = p2" for a
  proof (cases "a = p2")
    case False
    then have "p_pptr (pmem st a) \<noteq> p2" using parent_active [OF ok(2), of a] that p2 by (auto simp: procs_def)
    then show ?thesis using False by (simp add: qualifies_def p_session_def Let_def pg gd)
  qed (simp add: qualifies_def pg ne Let_def)
  have al: "allproc st' = p2 # allproc st" "initproc st' = initproc st" by (simp_all add: sel)
  obtain xs p0 where xs: "allproc st = xs @ [initproc st, p0]" using links_okD(5) [OF ok(2)] by blast
  have "initproc st \<noteq> p2" "last (allproc st) \<noteq> p2" using xs p2 by (auto simp: procs_def)
  then have b: "boot_sessions st' = boot_sessions st" using xs by (simp add: boot_sessions_def al p_session_def pg gd)
  have "{a \<in> set (allproc st'). p_pgrp (pmem st' a) = g \<and> qualifies st' a}
      = {a \<in> set (allproc st). p_pgrp (pmem st a) = g \<and> qualifies st a}" for g
    using p2 q unfolding al pg procs_def by auto
  then show ?thesis unfolding st'_def [symmetric] jobc_ok_def G gd b using ok(1) unfolding jobc_ok_def by simp
qed

section \<open>The processes of each user\<close>

definition ucount :: "pstate \<Rightarrow> int \<Rightarrow> int" where
  "ucount st u = (case ui_count (uihashtbl st (UIHASH st u)) u of None \<Rightarrow> 0 | Some n \<Rightarrow> n)"

definition chains_ok :: "pstate \<Rightarrow> bool" where
  "chains_ok st \<longleftrightarrow> (\<forall>k. distinct (map fst (uihashtbl st k)) \<and> (\<forall>(u, n) \<in> set (uihashtbl st k). UIHASH st u = k \<and> 0 < n))"

lemma users_ok_iff: "users_ok st \<longleftrightarrow> chains_ok st \<and> (\<forall>u. ucount st u = int (card {a \<in> procs st. p_ruid (p_cred (pmem st a)) = u}))"
  by (simp add: users_ok_def chains_ok_def ucount_def)

lemma ui_count_None: "ui_count c u = None \<longleftrightarrow> u \<notin> fst ` set c"
  by (induction c u rule: ui_count.induct) auto

lemma ui_count_Some: "ui_count c u = Some n \<Longrightarrow> (u, n) \<in> set c"
  by (induction c u rule: ui_count.induct) (auto split: if_splits)

lemma ui_set_keys: "map fst (ui_set c u n) = map fst c"
  by (induction c u n rule: ui_set.induct) auto

lemma ui_set_count: "ui_count (ui_set c u n) v = (if v = u \<and> u \<in> fst ` set c then Some n else ui_count c v)"
  by (induction c u n rule: ui_set.induct) (auto simp: image_iff, fastforce)

lemma ui_set_mem: "x \<in> set (ui_set c u n) \<Longrightarrow> x \<in> set c \<or> x = (u, n)"
  by (induction c u n rule: ui_set.induct) (auto split: if_splits)

lemma ui_delete_mem: "x \<in> set (ui_delete c u) \<Longrightarrow> x \<in> set c"
  by (induction c u rule: ui_delete.induct) (auto split: if_splits)

lemma ui_delete_keys: "distinct (map fst c) \<Longrightarrow> distinct (map fst (ui_delete c u))"
  by (induction c u rule: ui_delete.induct) (auto dest!: ui_delete_mem simp: image_iff)

lemma ui_delete_count: "distinct (map fst c) \<Longrightarrow> ui_count (ui_delete c u) v = (if v = u then None else ui_count c v)"
  by (induction c u rule: ui_delete.induct) (auto simp: ui_count_None image_iff, fastforce)

text \<open>\<open>chgproccnt\<close> adds to the count of the user and to no other; it panics when the count would get negative.\<close>

lemma chgproccnt_correct:
  assumes ok: "chains_ok st"
  shows "if ucount st uid + diff < 0 then \<exists>s. chgproccnt uid diff st = Inl (Panic s)
    else \<exists>T. chgproccnt uid diff st = Inr (st\<lparr>uihashtbl := T\<rparr>, ucount st uid + diff) \<and> chains_ok (st\<lparr>uihashtbl := T\<rparr>)
      \<and> (\<forall>u. ucount (st\<lparr>uihashtbl := T\<rparr>) u = ucount st u + (if u = uid then diff else 0))"
proof -
  define k c where "k = UIHASH st uid" and "c = uihashtbl st (UIHASH st uid)"
  have c: "distinct (map fst c)" "\<And>u n. (u, n) \<in> set c \<Longrightarrow> UIHASH st u = k \<and> 0 < n"
    using ok by (auto simp: chains_ok_def c_def k_def)
  have H: "UIHASH (st\<lparr>uihashtbl := T\<rparr>) u = UIHASH st u" for T u by (simp add: UIHASH_def)
  have upd: "chains_ok (st\<lparr>uihashtbl := (uihashtbl st)(k := d)\<rparr>)"
    if "distinct (map fst d)" "\<And>u n. (u, n) \<in> set d \<Longrightarrow> UIHASH st u = k \<and> 0 < n" for d
    using ok that unfolding chains_ok_def H by auto
  have uc: "ucount st u = (case ui_count c u of None \<Rightarrow> 0 | Some n \<Rightarrow> n)" if "UIHASH st u = k" for u
    using that by (simp add: ucount_def c_def k_def)
  have ku: "UIHASH st uid = k" by (simp add: k_def)
  have cnt: "ucount (st\<lparr>uihashtbl := (uihashtbl st)(k := d)\<rparr>) u
      = (if UIHASH st u = k then (case ui_count d u of None \<Rightarrow> 0 | Some n \<Rightarrow> n) else ucount st u)" for d u
    by (simp add: ucount_def H)
  show ?thesis
  proof (cases "ui_count c uid")
    case None
    then have u0: "ucount st uid = 0" by (simp add: ucount_def c_def)
    have nf: "uid \<notin> fst ` set c" using None by (simp add: ui_count_None)
    show ?thesis
    proof (cases "0 < diff")
      case True
      have "chgproccnt uid diff st = Inr (st\<lparr>uihashtbl := (uihashtbl st)(k := (uid, diff) # c)\<rparr>, ucount st uid + diff)"
        using True None u0 by (simp add: chgproccnt_def Let_def c_def k_def set_chain_def)
      moreover have "chains_ok (st\<lparr>uihashtbl := (uihashtbl st)(k := (uid, diff) # c)\<rparr>)"
        using c nf True by (intro upd) (auto simp: k_def)
      moreover have "ucount (st\<lparr>uihashtbl := (uihashtbl st)(k := (uid, diff) # c)\<rparr>) u = ucount st u + (if u = uid then diff else 0)" for u
        using u0 by (auto simp: cnt ku uc)
      ultimately show ?thesis using True u0 by auto
    next
      case False
      have same: "st\<lparr>uihashtbl := uihashtbl st\<rparr> = st" by simp
      show ?thesis
      proof (cases "diff = 0")
        case True
        then have "chgproccnt uid diff st = Inr (st, 0)" using None by (simp add: chgproccnt_def Let_def c_def)
        then show ?thesis using True u0 ok by (auto simp: same intro!: exI [of _ "uihashtbl st"])
      next
        case neg: False
        then have "chgproccnt uid diff st = Inl (Panic ''chgproccnt: lost user'')" using None False
          by (simp add: chgproccnt_def Let_def c_def)
        then show ?thesis using neg False u0 by auto
      qed
    qed
  next
    case (Some n)
    then have u0: "ucount st uid = n" by (simp add: ucount_def c_def)
    have n: "(uid, n) \<in> set c" using Some by (rule ui_count_Some)
    have uf: "uid \<in> fst ` set c" using n by force
    consider "0 < n + diff" | "n + diff = 0" | "n + diff < 0" by linarith
    then show ?thesis
    proof cases
      case 1
      let ?d = "ui_set c uid (n + diff)"
      have "chgproccnt uid diff st = Inr (st\<lparr>uihashtbl := (uihashtbl st)(k := ?d)\<rparr>, ucount st uid + diff)"
        using 1 Some u0 by (simp add: chgproccnt_def Let_def c_def k_def set_chain_def)
      moreover have "chains_ok (st\<lparr>uihashtbl := (uihashtbl st)(k := ?d)\<rparr>)"
        using c 1 n by (intro upd) (auto simp: ui_set_keys ku dest!: ui_set_mem)
      moreover have "ucount (st\<lparr>uihashtbl := (uihashtbl st)(k := ?d)\<rparr>) u = ucount st u + (if u = uid then diff else 0)" for u
        using u0 uf by (auto simp: cnt ku uc ui_set_count)
      ultimately show ?thesis using 1 u0 by auto
    next
      case 2
      let ?d = "ui_delete c uid"
      have "chgproccnt uid diff st = Inr (st\<lparr>uihashtbl := (uihashtbl st)(k := ?d)\<rparr>, ucount st uid + diff)"
        using 2 Some u0 by (simp add: chgproccnt_def Let_def c_def k_def set_chain_def)
      moreover have "chains_ok (st\<lparr>uihashtbl := (uihashtbl st)(k := ?d)\<rparr>)"
        using c ui_delete_keys by (intro upd) (auto dest: ui_delete_mem)
      moreover have "ucount (st\<lparr>uihashtbl := (uihashtbl st)(k := ?d)\<rparr>) u = ucount st u + (if u = uid then diff else 0)" for u
        using u0 2 ui_delete_count [OF c(1), of uid u] by (auto simp: cnt ku uc)
      ultimately show ?thesis using 2 u0 by auto
    next
      case 3
      then show ?thesis using Some u0 by (simp add: chgproccnt_def Let_def c_def)
    qed
  qed
qed

lemma chgproccnt_ok:
  assumes "chains_ok st" "0 \<le> ucount st uid + diff"
  obtains T where "chgproccnt uid diff st = Inr (st\<lparr>uihashtbl := T\<rparr>, ucount st uid + diff)" "chains_ok (st\<lparr>uihashtbl := T\<rparr>)"
    "\<forall>u. ucount (st\<lparr>uihashtbl := T\<rparr>) u = ucount st u + (if u = uid then diff else 0)"
  using chgproccnt_correct [OF assms(1), of uid diff] assms(2) by (metis not_le)

lemma finite_procs: "finite (procs st)"
  by (simp add: procs_def)

lemma boot_fork:
  assumes ok: "boot_ok st" "links_ok st" and p1: "p1 \<in> set (allproc st)" and p2: "p2 \<notin> procs st"
  shows "boot_ok (fork_link p1 p2 pid v st)"
proof -
  have n: "p1 \<noteq> p2" using p1 p2 by (auto simp: procs_def)
  have i: "initproc st \<in> procs st" "last (allproc st) \<in> procs st" "allproc st \<noteq> []" using links_okD(5) [OF ok(2)] by (auto simp: procs_def)
  have s: "p_session (fork_link p1 p2 pid v st) a = p_session st a" if "a \<in> procs st" for a
    using that p2 n by (auto simp: p_session_def fork_link_sel)
  have "initproc st \<noteq> p2" using i p2 by auto
  then show ?thesis using ok(1) i by (simp add: boot_ok_def SESS_LEADER_def s fork_link_sel [OF n])
qed

lemma card_insert_if_pred:
  assumes "finite A" "x \<notin> A"
  shows "card {a \<in> insert x A. P a} = card {a \<in> A. P a} + (if P x then 1 else 0)"
proof -
  have "{a \<in> insert x A. P a} = (if P x then insert x {a \<in> A. P a} else {a \<in> A. P a})" by auto
  then show ?thesis using assms by simp
qed

lemma users_fork:
  assumes T: "chains_ok (st\<lparr>uihashtbl := T\<rparr>)"
      "\<And>u. ucount (st\<lparr>uihashtbl := T\<rparr>) u = ucount st u + (if u = p_ruid (p_cred (pmem st p1)) then 1 else 0)"
    and ok: "users_ok st" and p1: "p1 \<in> set (allproc st)" and p2: "p2 \<notin> procs st"
  shows "users_ok (fork_link p1 p2 pid v (st\<lparr>uihashtbl := T, nextpid := a, pidchecked := b\<rparr>))"
proof -
  have n: "p1 \<noteq> p2" using p1 p2 by (auto simp: procs_def)
  define st1 where "st1 = fork_link p1 p2 pid v (st\<lparr>uihashtbl := T, nextpid := a, pidchecked := b\<rparr>)"
  have c: "chains_ok st1" using T(1) unfolding chains_ok_def UIHASH_def st1_def by (simp add: fork_link_sel [OF n])
  have u: "ucount st1 u = ucount (st\<lparr>uihashtbl := T\<rparr>) u" for u
    unfolding ucount_def UIHASH_def st1_def by (simp add: fork_link_sel [OF n])
  have p: "procs st1 = insert p2 (procs st)" unfolding st1_def by (simp add: fork_link_sel [OF n] procs_def)
  have r: "p_ruid (p_cred (pmem st1 x)) = p_ruid (p_cred (pmem st (if x = p2 then p1 else x)))" for x
    unfolding st1_def by (simp add: fork_link_sel [OF n] fork_child_sel)
  have "card {x \<in> procs st1. p_ruid (p_cred (pmem st1 x)) = u}
      = card {x \<in> procs st. p_ruid (p_cred (pmem st x)) = u} + (if u = p_ruid (p_cred (pmem st p1)) then 1 else 0)" for u
  proof -
    have "card {x \<in> procs st1. p_ruid (p_cred (pmem st1 x)) = u}
        = card {x \<in> procs st. p_ruid (p_cred (pmem st1 x)) = u} + (if p_ruid (p_cred (pmem st1 p2)) = u then 1 else 0)"
      unfolding p by (rule card_insert_if_pred [OF finite_procs p2])
    moreover have "{x \<in> procs st. p_ruid (p_cred (pmem st1 x)) = u} = {x \<in> procs st. p_ruid (p_cred (pmem st x)) = u}"
      using p2 r by auto
    ultimately show ?thesis using r [of p2] by auto
  qed
  then show ?thesis using ok c u T(2) unfolding users_ok_iff st1_def [symmetric] by simp
qed

lemma nprocs_used: "links_ok st \<Longrightarrow> nprocs st = int (length (pids_used st))"
  using links_okD(13) by (simp add: pids_used_def)

lemma pids_free_below:
  assumes "pids_ok st" "groups_ok st"
  shows "\<forall>x \<in> pid_set (pids_used st). \<not> (nextpid st + 1 \<le> x \<and> x < pidchecked st)"
proof
  fix x
  assume "x \<in> pid_set (pids_used st)"
  then have "\<exists>a \<in> procs st. x = p_pid (pmem st a) \<or> x = p_pgid st a"
    by (fastforce simp: pid_set_def pids_used_def procs_def)
  then obtain a where a: "a \<in> procs st" "x = p_pid (pmem st a) \<or> x = p_pgid st a" by blast
  then have "p_pgrp (pmem st a) \<in> groups st" using groups_okD(6) [OF assms(2)] by blast
  then show "\<not> (nextpid st + 1 \<le> x \<and> x < pidchecked st)"
    using a pids_okD(6,7) [OF assms(1)] by (auto simp: p_pgid_def)
qed

lemma pid_search_room:
  assumes "links_ok st" "nprocs st < maxproc st" "2 * maxproc st \<le> PID_MAX - 100"
  shows "pid_search (pids_used st) (nextpid st + 1) (pidchecked st) \<noteq> None"
proof -
  have "2 * length (pids_used st) < nat PID_MAX - 100"
    using assms nprocs_used [OF assms(1)] by (simp add: PID_MAX_def)
  then show ?thesis using pid_free pid_search_returns by (metis option.distinct(1))
qed

text \<open>The whole of \<open>fork1\<close>: it returns, and either nothing has changed but the message about a full
  table, or there is one more process.\<close>

lemma fork1_ok:
  assumes ok: "proc_ok st" and p1: "p1 \<in> set (allproc st)" and p2: "p2 \<notin> procs st" "p2 \<noteq> 0"
    and ret: "nprocs st < maxproc st \<Longrightarrow> \<not> (p_ruid (p_cred (pmem st p1)) \<noteq> 0 \<and> rlim \<le> ucount st (p_ruid (p_cred (pmem st p1))))
      \<Longrightarrow> pid_search (pids_used st) (nextpid st + 1) (pidchecked st) \<noteq> None"
  defines "uid \<equiv> p_ruid (p_cred (pmem st p1))"
  shows "\<exists>st' r. fork1 p1 v rlim p2 st = Inr (st', r) \<and> proc_ok st'
    \<and> (if maxproc st \<le> nprocs st \<or> uid \<noteq> 0 \<and> rlim \<le> ucount st uid
       then r = Inl EAGAIN \<and> (\<exists>T E. st' = st\<lparr>uihashtbl := T, pevents := E\<rparr>)
       else \<exists>T pid c. r = Inr pid \<and> pid_fresh (pids_used st) pid c
         \<and> st' = fork_link p1 p2 pid v (st\<lparr>uihashtbl := T, nextpid := pid, pidchecked := c\<rparr>))"
proof -
  have o: "links_ok st" "pids_ok st" "groups_ok st" "sessions_ok st" "boot_ok st" "jobc_ok st" "users_ok st"
    using ok by (simp_all add: proc_ok_def)
  have ev: "proc_ok (raise_event e st)" for e using ok by (simp add: raise_event_def pevents_ok)
  show ?thesis
  proof (cases "maxproc st \<le> nprocs st")
    case True
    then have "fork1 p1 v rlim p2 st = Inr (raise_event Tablefull st, Inl EAGAIN)" by (simp add: fork1_def Let_def)
    moreover have "raise_event Tablefull st = st\<lparr>uihashtbl := uihashtbl st, pevents := pevents st @ [Tablefull]\<rparr>" by (simp add: raise_event_def)
    then have "\<exists>T E. raise_event Tablefull st = st\<lparr>uihashtbl := T, pevents := E\<rparr>" by blast
    ultimately show ?thesis using True ev by simp
  next
    case room: False
    have ch: "chains_ok st" using o(7) by (simp add: users_ok_iff)
    have nn: "0 \<le> ucount st u" for u using o(7) by (simp add: users_ok_iff)
    obtain T where T: "chgproccnt uid 1 st = Inr (st\<lparr>uihashtbl := T\<rparr>, ucount st uid + 1)" "chains_ok (st\<lparr>uihashtbl := T\<rparr>)"
      "\<forall>u. ucount (st\<lparr>uihashtbl := T\<rparr>) u = ucount st u + (if u = uid then 1 else 0)"
      by (rule chgproccnt_ok [OF ch, of uid 1]) (use nn [of uid] in auto)
    show ?thesis
    proof (cases "uid \<noteq> 0 \<and> rlim \<le> ucount st uid")
      case True
      let ?st1 = "st\<lparr>uihashtbl := T\<rparr>"
      obtain T' where T': "chgproccnt uid (- 1) ?st1 = Inr (?st1\<lparr>uihashtbl := T'\<rparr>, ucount st uid)" "chains_ok (?st1\<lparr>uihashtbl := T'\<rparr>)"
        "\<forall>u. ucount (?st1\<lparr>uihashtbl := T'\<rparr>) u = ucount st u"
        by (rule chgproccnt_ok [OF T(2), of uid "- 1"]) (use nn [of uid] T(3) in auto)
      have "users_ok (st\<lparr>uihashtbl := T'\<rparr>)" using T'(2,3) o(7) by (simp add: users_ok_iff procs_def)
      then have "proc_ok (st\<lparr>uihashtbl := T'\<rparr>)" using o by (simp add: proc_ok_def uihashtbl_ok)
      moreover have "fork1 p1 v rlim p2 st = Inr (st\<lparr>uihashtbl := T'\<rparr>, Inl EAGAIN)"
        using True room T(1) T'(1) by (simp add: fork1_def uid_def [symmetric] Let_def)
      moreover have "st\<lparr>uihashtbl := T'\<rparr> = st\<lparr>uihashtbl := T', pevents := pevents st\<rparr>" by simp
      then have "\<exists>T E. st\<lparr>uihashtbl := T'\<rparr> = st\<lparr>uihashtbl := T, pevents := E\<rparr>" by blast
      ultimately show ?thesis using True by simp
    next
      case False
      obtain r where r: "pid_search (pids_used st) (nextpid st + 1) (pidchecked st) = Some r"
        using ret room False by (auto simp: uid_def)
      have fr: "pid_fresh (pids_used st) (fst r) (snd r)"
        using pid_search_correct [OF r _ _ pids_free_below [OF o(2,3)]] pids_okD(8,10) [OF o(2)] by simp
      let ?st2 = "st\<lparr>uihashtbl := T, nextpid := fst r, pidchecked := snd r\<rparr>"
      have e: "fork1 p1 v rlim p2 st = Inr (fork_link p1 p2 (fst r) v ?st2, Inr (fst r))"
        using False room T(1) r by (cases r) (auto simp: fork1_def uid_def [symmetric] Let_def uihashtbl_inv)
      let ?st1 = "st\<lparr>uihashtbl := T\<rparr>"
      have p1': "p1 \<in> set (allproc ?st1)" and p2': "p2 \<notin> procs ?st1" using p1 p2 by (simp_all add: uihashtbl_inv)
      have fr': "pid_fresh (pids_used ?st1) (fst r) (snd r)" using fr by (simp add: uihashtbl_inv)
      have s: "?st2 = ?st1\<lparr>nextpid := fst r, pidchecked := snd r\<rparr>" by simp
      have v: "same_view st ?st2" by (simp add: same_view_def)
      have np: "links_ok ?st2" "groups_ok ?st2" "sessions_ok ?st2" "boot_ok ?st2" "jobc_ok ?st2" "pids_used ?st2 = pids_used st" "procs ?st2 = procs st"
        using o by (simp_all only: same_view_ok [OF v] same_view_inv [OF v])
      have p12: "p1 \<in> set (allproc ?st2)" "p2 \<notin> procs ?st2" using p1 p2 np(7) by simp_all
      have "pids_ok (fork_link p1 p2 (fst r) v ?st2)"
        by (subst s, rule pids_fork [OF _ _ p1' p2' fr']) (simp_all add: uihashtbl_ok o)
      moreover have "users_ok (fork_link p1 p2 (fst r) v ?st2)"
        by (rule users_fork [OF T(2) _ o(7) p1 p2(1)]) (simp add: T(3) uid_def)
      moreover have "sessions_ok (fork_link p1 p2 (fst r) v ?st2)"
        by (rule sessions_fork [OF np(3,2) p12, where checked = "snd r"]) (simp add: np(6) fr)
      ultimately have "proc_ok (fork_link p1 p2 (fst r) v ?st2)"
        unfolding proc_ok_def using links_fork [OF np(1) p12 p2(2)] groups_fork_ok [OF np(2) p12] boot_fork [OF np(4,1) p12] jobc_fork [OF np(5,1) p12 p2(2)]
        by simp
      then show ?thesis using e fr False room by auto
    qed
  qed
qed

end
