(* ===== verification/Proc_Wait.thy ===== *)
theory Proc_Wait
  imports Proc_Exit Proc_Fork
begin

text \<open>
  \<open>wait\<close>: freeing a zombie takes it out of its group and family, gives its credentials back and
  keeps the invariant; \<open>wait1\<close> frees nothing else and does not panic.
\<close>

section \<open>Freeing a zombie\<close>

text \<open>The state without the process, in which its group may be empty; \<open>T\<close> is the table of users, \<open>M\<close> and
  \<open>L\<close> are the credentials.\<close>

definition reaped :: "addr \<Rightarrow> (int \<Rightarrow> (int \<times> int) list) \<Rightarrow> (addr \<Rightarrow> ucred) \<Rightarrow> addr list \<Rightarrow> pstate \<Rightarrow> pstate" where
  "reaped p T M L st =
     (let q = pmem st p; pp = p_pptr q; g = p_pgrp q;
          F = (pmem st)(p := q\<lparr>p_xstat := 0, p_cred := (p_cred q)\<lparr>p_refcnt := p_refcnt (p_cred q) - 1\<rparr>, p_pgrp := 0\<rparr>)
      in st\<lparr>pmem := F(pp := (F pp)\<lparr>p_cptr := remove1 p (p_cptr (F pp))\<rparr>),
            pgmem := (pgmem st)(g := (pgmem st g)\<lparr>pg_mem := remove1 p (pg_mem (pgmem st g))\<rparr>),
            uihashtbl := T, crmem := M, crlive := L, zombproc := remove1 p (zombproc st), nprocs := nprocs st - 1\<rparr>)"

text \<open>The last steps commute with the deletion of the group.\<close>

lemma pgdelete_final:
  assumes "\<And>st. F (st :: pstate) = st\<lparr>pmem := f (pmem st), zombproc := z (zombproc st), nprocs := n (nprocs st)\<rparr>"
  shows "bindE (pgdelete g st) (\<lambda>st. Inr (F st)) = pgdelete g (F st)"
  unfolding pgdelete_def assms Let_def by (simp add: upd_sess_def PIDHASH_def)

lemma crfree_eff: "crfree c st = st\<lparr>crmem := crmem (crfree c st), crlive := crlive (crfree c st)\<rparr>"
  by (simp add: crfree_def Let_def upd_cred_def)

lemma crfree_cong:
  "crmem st' = crmem st \<Longrightarrow> crlive st' = crlive st \<Longrightarrow> crmem (crfree c st') = crmem (crfree c st) \<and> crlive (crfree c st') = crlive (crfree c st)"
  by (simp add: crfree_def Let_def upd_cred_def)

lemma chgproccnt_pmem:
  "chgproccnt uid d (st\<lparr>pmem := m\<rparr>) = bindE (chgproccnt uid d st) (\<lambda>(st, n). Inr (st\<lparr>pmem := m\<rparr>, n))"
  unfolding chgproccnt_def Let_def set_chain_def UIHASH_def by (simp split: option.split)

lemma wait_zombie_eff:
  assumes oppid: "p_oppid (pmem st p) = 0"
    and u: "chgproccnt (p_ruid (p_cred (pmem st p))) (- 1) st = Inr (st\<lparr>uihashtbl := T\<rparr>, n)"
    and g: "p \<in> set (pg_mem (pgmem st (p_pgrp (pmem st p))))" and pp: "p_pptr (pmem st p) \<noteq> p"
  shows "\<exists>M L. (p_refcnt (p_cred (pmem st p)) = 1 \<longrightarrow> M = crmem (crfree (p_ucred st p) st) \<and> L = crlive (crfree (p_ucred st p) st))
    \<and> wait_zombie p st = (let st' = reaped p T M L st
    in if pg_mem (pgmem st' (p_pgrp (pmem st p))) = [] then pgdelete (p_pgrp (pmem st p)) st' else Inr st')"
proof -
  let ?q = "pmem st p"
  have u': "chgproccnt (p_ruid (p_cred ?q)) (- 1) (upd_proc p (\<lambda>p. p\<lparr>p_xstat := 0\<rparr>) st)
      = Inr (upd_proc p (\<lambda>p. p\<lparr>p_xstat := 0\<rparr>) (st\<lparr>uihashtbl := T\<rparr>), n)"
    unfolding upd_proc_def chgproccnt_pmem u by simp
  define st2 where "st2 = upd_pcred p (\<lambda>c. c\<lparr>p_refcnt := p_refcnt c - 1\<rparr>) (upd_proc p (\<lambda>p. p\<lparr>p_xstat := 0\<rparr>) (st\<lparr>uihashtbl := T\<rparr>))"
  define st3 where "st3 = (if p_refcnt (p_cred (pmem st2 p)) = 0 then crfree (p_ucred st2 p) st2 else st2)"
  have e2: "p_refcnt (p_cred (pmem st2 p)) = p_refcnt (p_cred ?q) - 1" "p_ucred st2 p = p_ucred st p" "crmem st2 = crmem st" "crlive st2 = crlive st"
    by (simp_all add: st2_def upd_pcred_def upd_simps p_ucred_def)
  have "\<exists>M L. (p_refcnt (p_cred ?q) = 1 \<longrightarrow> M = crmem (crfree (p_ucred st p) st) \<and> L = crlive (crfree (p_ucred st p) st)) \<and> st3 = st2\<lparr>crmem := M, crlive := L\<rparr>"
  proof (cases "p_refcnt (p_cred ?q) = 1")
    case True
    then have "st3 = crfree (p_ucred st p) st2" by (simp add: st3_def e2)
    then show ?thesis using crfree_eff [of "p_ucred st p" st2] crfree_cong [OF e2(3,4), of "p_ucred st p"] by metis
  next
    case False
    then have "st3 = st2" by (simp add: st3_def e2)
    then have "st3 = st2\<lparr>crmem := crmem st2, crlive := crlive st2\<rparr>" by simp
    then show ?thesis using False by blast
  qed
  then obtain M L where CR: "p_refcnt (p_cred ?q) = 1 \<longrightarrow> M = crmem (crfree (p_ucred st p) st) \<and> L = crlive (crfree (p_ucred st p) st)"
    and st3: "st3 = st2\<lparr>crmem := M, crlive := L\<rparr>" by blast
  define fin where "fin st = (let st = st\<lparr>zombproc := remove1 p (zombproc st)\<rparr>;
                         st = upd_proc (p_pptr (pmem st p)) (\<lambda>q. q\<lparr>p_cptr := remove1 p (p_cptr q)\<rparr>) st
                     in st\<lparr>nprocs := nprocs st - 1\<rparr>)" for st
  define F where "F st = fin (upd_proc p (\<lambda>p. p\<lparr>p_pgrp := 0\<rparr>) st)" for st
  have Ff: "F s = s\<lparr>pmem := (\<lambda>m. let m = m(p := (m p)\<lparr>p_pgrp := 0\<rparr>); q = p_pptr (m p) in m(q := (m q)\<lparr>p_cptr := remove1 p (p_cptr (m q))\<rparr>)) (pmem s),
      zombproc := remove1 p (zombproc s), nprocs := nprocs s - 1\<rparr>" for s
    by (simp add: F_def fin_def Let_def upd_proc_def)
  define st4 where "st4 = upd_pgrp (p_pgrp ?q) (\<lambda>g. g\<lparr>pg_mem := remove1 p (pg_mem g)\<rparr>) st3"
  have e3: "p_pgrp (pmem st3 p) = p_pgrp ?q" "pgmem st3 = pgmem st" by (simp_all add: st3 st2_def upd_pcred_def upd_simps)
  have "wait_zombie p st = bindE (leavepgrp p st3) (\<lambda>st. Inr (fin st))"
    using oppid u' by (simp add: wait_zombie_def Let_def st3_def st2_def fin_def upd_simps)
  also have "\<dots> = bindE (pg_unlink ''leavepgrp: can't find p in pgrp'' p st3) (\<lambda>st. Inr (F st))"
    unfolding leavepgrp_def F_def by (cases "pg_unlink ''leavepgrp: can't find p in pgrp'' p st3") simp_all
  also have "\<dots> = (if pg_mem (pgmem st4 (p_pgrp ?q)) = [] then bindE (pgdelete (p_pgrp ?q) st4) (\<lambda>st. Inr (F st)) else Inr (F st4))"
    using g by (simp add: pg_unlink_def Let_def e3 st4_def)
  also have "\<dots> = (if pg_mem (pgmem (F st4) (p_pgrp ?q)) = [] then pgdelete (p_pgrp ?q) (F st4) else Inr (F st4))"
    unfolding pgdelete_final [OF Ff] by (simp add: Ff)
  also have "F st4 = reaped p T M L st"
    using pp by (simp add: Ff st4_def st3 st2_def reaped_def Let_def upd_proc_def upd_pcred_def upd_pgrp_def)
  finally show ?thesis using CR by (auto simp: Let_def)
qed

lemma reaped_sel:
  assumes "p_pptr (pmem st p) \<noteq> p"
  shows "a \<noteq> p \<Longrightarrow> pmem (reaped p T M L st) a = (if a = p_pptr (pmem st p) then (pmem st a)\<lparr>p_cptr := remove1 p (p_cptr (pmem st a))\<rparr> else pmem st a)"
    "pgmem (reaped p T M L st) g = (if g = p_pgrp (pmem st p) then (pgmem st g)\<lparr>pg_mem := remove1 p (pg_mem (pgmem st g))\<rparr> else pgmem st g)"
    "allproc (reaped p T M L st) = allproc st" "zombproc (reaped p T M L st) = remove1 p (zombproc st)"
    "pidhash (reaped p T M L st) = pidhash st" "pgrphash (reaped p T M L st) = pgrphash st" "semem (reaped p T M L st) = semem st"
    "selive (reaped p T M L st) = selive st" "ttmem (reaped p T M L st) = ttmem st" "uihashtbl (reaped p T M L st) = T"
    "uihash (reaped p T M L st) = uihash st" "pidhashmask (reaped p T M L st) = pidhashmask st" "nextpid (reaped p T M L st) = nextpid st"
    "pidchecked (reaped p T M L st) = pidchecked st" "nprocs (reaped p T M L st) = nprocs st - 1" "maxproc (reaped p T M L st) = maxproc st"
    "curproc (reaped p T M L st) = curproc st" "initproc (reaped p T M L st) = initproc st"
    "crmem (reaped p T M L st) = M" "crlive (reaped p T M L st) = L"
  using assms by (simp_all add: reaped_def Let_def)

lemma zombieD:
  assumes ok: "links_ok st" and p: "p \<in> set (zombproc st)"
  shows "p \<in> procs st" "p \<notin> set (allproc st)" "p_pptr (pmem st p) \<in> set (allproc st)" "p_pptr (pmem st p) \<noteq> p"
    "initproc st \<in> set (allproc st)" "last (allproc st) \<in> set (allproc st)"
    "\<And>b. b \<in> procs st \<Longrightarrow> p_pptr (pmem st b) \<noteq> p" "procs (reaped p T M L st) = procs st - {p}"
proof -
  note b = links_okD [OF ok]
  show "p \<in> procs st" using p by (simp add: procs_def)
  show n: "p \<notin> set (allproc st)" using b(3) p by auto
  show "p_pptr (pmem st p) \<in> set (allproc st)" by (rule b(8) [OF p])
  then show ne: "p_pptr (pmem st p) \<noteq> p" using n by auto
  show "initproc st \<in> set (allproc st)" "last (allproc st) \<in> set (allproc st)" using b(5) by auto
  show "p_pptr (pmem st b) \<noteq> p" if "b \<in> procs st" for b
    using parent_active [OF ok that] n p b(4) by (auto simp: procs_def)
  show "procs (reaped p T M L st) = procs st - {p}" using n b(2) by (auto simp: procs_def reaped_sel [OF ne])
qed

lemma reaped_frame:
  assumes ok: "links_ok st" and p: "p \<in> set (zombproc st)" and a: "a \<noteq> p"
  shows "p_pid (pmem (reaped p T M L st) a) = p_pid (pmem st a)" "p_pptr (pmem (reaped p T M L st) a) = p_pptr (pmem st a)"
    "p_pgrp (pmem (reaped p T M L st) a) = p_pgrp (pmem st a)" "p_stat (pmem (reaped p T M L st) a) = p_stat (pmem st a)"
    "p_oppid (pmem (reaped p T M L st) a) = p_oppid (pmem st a)" "p_cred (pmem (reaped p T M L st) a) = p_cred (pmem st a)"
    "p_session (reaped p T M L st) a = p_session st a" "p_pgid (reaped p T M L st) a = p_pgid st a"
    "pg_session (pgmem (reaped p T M L st) g) = pg_session (pgmem st g)" "pg_id (pgmem (reaped p T M L st) g) = pg_id (pgmem st g)"
    "pg_jobc (pgmem (reaped p T M L st) g) = pg_jobc (pgmem st g)"
    "groups (reaped p T M L st) = groups st" "PIDHASH (reaped p T M L st) n = PIDHASH st n"
proof -
  note ne = zombieD(4) [OF ok p] and sel = reaped_sel [OF zombieD(4) [OF ok p]]
  show "groups (reaped p T M L st) = groups st" by (simp add: groups_def sel)
  show "PIDHASH (reaped p T M L st) n = PIDHASH st n" by (simp add: PIDHASH_def sel)
qed (simp_all add: p_session_def p_pgid_def a reaped_sel [OF zombieD(4) [OF ok p]])

lemma links_reaped:
  assumes ok: "links_ok st" and p: "p \<in> set (zombproc st)"
  shows "links_ok (reaped p T M L st)"
proof -
  note b = links_okD [OF ok] and d = zombieD [OF ok p] and f = reaped_frame [OF ok p, where T = T and M = M and L = L] and sel = reaped_sel [OF zombieD(4) [OF ok p], where T = T and M = M and L = L]
  let ?s = "reaped p T M L st"
  have P: "procs ?s = procs st - {p}" by (rule d(8))
  have 1: "distinct (allproc ?s @ zombproc ?s) \<and> 0 \<notin> procs ?s" using b(1-4) P by (auto simp: sel)
  have n: "a \<noteq> p" if "a \<in> set (allproc st)" for a using that d(2) by auto
  obtain xs p0 where x: "allproc st = xs @ [initproc st, p0]" "p_pid (pmem st p0) = 0" "p_pptr (pmem st p0) = 0" using b(5) by blast
  then have 2: "\<exists>xs p0. allproc ?s = xs @ [initproc ?s, p0] \<and> p_pid (pmem ?s p0) = 0 \<and> p_pptr (pmem ?s p0) = 0"
    using n [of p0] by (intro exI [of _ xs] exI [of _ p0]) (auto simp: sel f)
  have 3: "p_pptr (pmem ?s a) \<in> set zs" if "allproc ?s = ys @ a # zs" "zs \<noteq> []" for ys a zs
    using b(7) [of ys a zs] n [of a] that by (simp add: sel(3) f)
  have 4: "p_pptr (pmem ?s z) \<in> set (allproc ?s)" if "z \<in> set (zombproc ?s)" for z
    using b(2) b(8) [of z] that by (simp add: sel(3,4) f)
  have 5: "p_stat (pmem ?s a) = SZOMB \<longleftrightarrow> a \<in> set (zombproc ?s)" if "a \<in> procs ?s" for a
    using b(2) b(9) [of a] that by (simp add: P sel(4) f)
  have 6: "set (p_cptr (pmem ?s a)) = {b \<in> procs ?s. p_pptr (pmem ?s b) = a} \<and> distinct (p_cptr (pmem ?s a))" if "a \<in> procs ?s" for a
  proof -
    have a: "a \<in> procs st" "a \<noteq> p" using that P by auto
    have c: "p_cptr (pmem ?s a) = remove1 p (p_cptr (pmem st a))" using a b(10) [OF a(1)] by (simp add: sel remove1_idem)
    have "{b \<in> procs ?s. p_pptr (pmem ?s b) = a} = {b \<in> procs st. p_pptr (pmem st b) = a} - {p}" by (auto simp: P f)
    then show ?thesis unfolding c using b(10,11) [OF a(1)] by simp
  qed
  have 7: "p_oppid (pmem ?s a) = 0" if "a \<in> procs ?s" for a using b(12) [of a] that by (simp add: P f)
  have "0 < length (zombproc st)" using p by auto
  then have 8: "nprocs ?s = int (length (allproc ?s) + length (zombproc ?s))"
    using b(13) p by (simp add: sel length_remove1 Suc_leI of_nat_diff)
  have 9: "p_pid (pmem ?s (initproc ?s)) = 1" using b(6) n [OF d(5)] by (simp add: sel(18) f)
  show ?thesis unfolding links_ok_def using 1 2 3 4 5 6 7 8 9 by blast
qed

lemma pids_reaped:
  assumes ok: "links_ok st" "pids_ok st" and p: "p \<in> set (zombproc st)"
  shows "pids_ok (reaped p T M L st)"
proof -
  note b = pids_okD [OF ok(2)] and d = zombieD [OF ok(1) p] and f = reaped_frame [OF ok(1) p, where T = T and M = M and L = L] and sel = reaped_sel [OF zombieD(4) [OF ok(1) p], where T = T and M = M and L = L]
  let ?s = "reaped p T M L st"
  have P: "procs ?s = procs st - {p}" by (rule d(8))
  have "inj_on (\<lambda>a. p_pid (pmem ?s a)) (procs ?s)"
    using b(1) by (auto simp: inj_on_def P f)
  moreover have "{a \<in> set (allproc ?s). p_pid (pmem ?s a) \<noteq> 0 \<and> PIDHASH ?s (p_pid (pmem ?s a)) = k}
      = {a \<in> set (allproc st). p_pid (pmem st a) \<noteq> 0 \<and> PIDHASH st (p_pid (pmem st a)) = k}" for k
  proof -
    have g: "PIDHASH ?s n = PIDHASH st n" for n by (simp add: PIDHASH_def sel)
    have "a \<noteq> p" if "a \<in> set (allproc st)" for a using that d(2) by auto
    then show ?thesis unfolding sel(3) g by (auto simp: f)
  qed
  moreover have "groups ?s = groups st" "pg_id (pgmem ?s g) = pg_id (pgmem st g)" for g by (simp_all add: groups_def sel)
  ultimately show ?thesis unfolding pids_ok_def P using b by (simp add: sel f)
qed

lemma groups_reaped:
  assumes ok: "links_ok st" "groups_ok st" "counts_ok st" and p: "p \<in> set (zombproc st)"
  shows "groups_wf (reaped p T M L st)" "counts_ok (reaped p T M L st)"
    "\<And>g. g \<in> groups st \<Longrightarrow> g \<noteq> p_pgrp (pmem st p) \<Longrightarrow> pg_mem (pgmem (reaped p T M L st) g) \<noteq> []"
proof -
  note b = groups_okD [OF ok(2)] and d = zombieD [OF ok(1) p] and f = reaped_frame [OF ok(1) p, where T = T and M = M and L = L] and sel = reaped_sel [OF zombieD(4) [OF ok(1) p], where T = T and M = M and L = L]
  let ?s = "reaped p T M L st"
  have P: "procs ?s = procs st - {p}" by (rule d(8))
  have g: "PIDHASH ?s n = PIDHASH st n" "groups ?s = groups st" "pg_id (pgmem ?s g) = pg_id (pgmem st g)"
    "pg_session (pgmem ?s g) = pg_session (pgmem st g)" for n g by (simp_all add: PIDHASH_def groups_def sel)
  have m: "distinct (pg_mem (pgmem ?s h)) \<and> set (pg_mem (pgmem ?s h)) = {a \<in> procs ?s. p_pgrp (pmem ?s a) = h}" if "h \<in> groups st" for h
  proof -
    have c: "pg_mem (pgmem ?s h) = remove1 p (pg_mem (pgmem st h))" using b(9) [OF that] by (simp add: sel remove1_idem)
    have "{a \<in> procs ?s. p_pgrp (pmem ?s a) = h} = {a \<in> procs st. p_pgrp (pmem st a) = h} - {p}" by (auto simp: P f)
    then show ?thesis unfolding c using b(8,9) [OF that] by simp
  qed
  have "p_pgrp (pmem ?s a) \<in> groups st" if "a \<in> procs ?s" for a using b(6) [of a] that by (simp add: P f)
  then show "groups_wf ?s" using ok(2) m unfolding groups_ok_def groups_wf_def g sel(6) by blast
  show "counts_ok ?s" using ok(3) unfolding counts_ok_def g sel(7,8) .
  show "pg_mem (pgmem ?s h) \<noteq> []" if "h \<in> groups st" "h \<noteq> p_pgrp (pmem st p)" for h using b(7) [OF that(1)] that(2) by (simp add: sel)
qed

lemma same_core_ok:
  assumes c: "same_core st st'" and g: "groups st' \<subseteq> groups st"
  shows "procs st' = procs st" "links_ok st \<Longrightarrow> links_ok st'" "pids_ok st \<Longrightarrow> pids_ok st'" "leaders_ok st \<Longrightarrow> leaders_ok st'"
    "boot_ok st \<Longrightarrow> boot_ok st'" "jobc_ok st \<Longrightarrow> jobc_ok st'" "users_ok st \<Longrightarrow> users_ok st'"
proof -
  have e: "pmem st' = pmem st" "pgmem st' = pgmem st" "allproc st' = allproc st" "zombproc st' = zombproc st" "pidhash st' = pidhash st"
    "uihashtbl st' = uihashtbl st" "nextpid st' = nextpid st" "pidchecked st' = pidchecked st" "nprocs st' = nprocs st"
    "initproc st' = initproc st" "\<And>s. s_leader (semem st' s) = s_leader (semem st s)" "set (selive st') \<subseteq> set (selive st)"
    "PIDHASH st' = PIDHASH st" "UIHASH st' = UIHASH st"
    using c by (simp_all add: same_core_def PIDHASH_def UIHASH_def fun_eq_iff)
  show p: "procs st' = procs st" by (simp add: procs_def e)
  have s: "p_session st' = p_session st" "p_pgid st' = p_pgid st" by (simp_all add: p_session_def p_pgid_def e fun_eq_iff)
  have q: "SESS_LEADER st' = SESS_LEADER st" "boot_sessions st' = boot_sessions st" "qualifies st' = qualifies st"
    by (simp_all add: SESS_LEADER_def boot_sessions_def qualifies_def s e Let_def fun_eq_iff)
  show "links_ok st \<Longrightarrow> links_ok st'" unfolding links_ok_def p e .
  show "pids_ok st \<Longrightarrow> pids_ok st'" unfolding pids_ok_def p e using g by blast
  show "leaders_ok st \<Longrightarrow> leaders_ok st'" unfolding leaders_ok_def p e(1-11) s using g e(12) by blast
  show "boot_ok st \<Longrightarrow> boot_ok st'" unfolding boot_ok_def q s e .
  show "jobc_ok st \<Longrightarrow> jobc_ok st'" unfolding jobc_ok_def q e using g by blast
  show "users_ok st \<Longrightarrow> users_ok st'" unfolding users_ok_def p e .
qed

lemma rest_reaped:
  assumes ok: "proc_ok st" and p: "p \<in> set (zombproc st)"
    and T: "chains_ok (st\<lparr>uihashtbl := T\<rparr>)"
      "\<forall>u. ucount (st\<lparr>uihashtbl := T\<rparr>) u = ucount st u + (if u = p_ruid (p_cred (pmem st p)) then - 1 else 0)"
  shows "leaders_ok (reaped p T M L st)" "boot_ok (reaped p T M L st)" "jobc_ok (reaped p T M L st)" "users_ok (reaped p T M L st)"
proof -
  have o: "links_ok st" "pids_ok st" "groups_ok st" "sessions_ok st" "boot_ok st" "jobc_ok st" "users_ok st"
    using ok by (simp_all add: proc_ok_def)
  note d = zombieD [OF o(1) p] and f = reaped_frame [OF o(1) p, where T = T and M = M and L = L] and sel = reaped_sel [OF zombieD(4) [OF o(1) p], where T = T and M = M and L = L]
  let ?s = "reaped p T M L st"
  have P: "procs ?s = procs st - {p}" by (rule d(8))
  have G: "groups ?s = groups st" by (simp add: groups_def sel)
  have g: "pg_id (pgmem ?s x) = pg_id (pgmem st x)" "pg_session (pgmem ?s x) = pg_session (pgmem st x)" "pg_jobc (pgmem ?s x) = pg_jobc (pgmem st x)" for x by (simp_all add: sel)
  have n: "a \<noteq> p" if "a \<in> set (allproc st)" for a using that d(2) by auto
  have l: "s_leader (semem st s) \<in> set (allproc st) \<and> p_session ?s (s_leader (semem st s)) = s
      \<and> p_pgid ?s (s_leader (semem st s)) = p_pid (pmem ?s (s_leader (semem st s)))"
    if "s \<in> set (selive st)" "s_leader (semem st s) \<noteq> 0" for s
  proof -
    note m = sessions_okD(6) [OF o(4) that]
    then show ?thesis using n [of "s_leader (semem st s)"] by (simp add: f(1,7,8))
  qed
  have "pg_session (pgmem st x) = p_session ?s a" if "x \<in> groups st" "a \<in> procs ?s" "pg_id (pgmem st x) = p_pid (pmem ?s a)" for x a
    using sessions_okD(7) [OF o(4), of x a] that by (simp add: P f)
  then show "leaders_ok ?s" unfolding leaders_ok_def G g sel(3,7,8) using l by blast
  have bs: "p_session ?s (initproc st) = p_session st (initproc st)" "p_session ?s (last (allproc st)) = p_session st (last (allproc st))"
    using n d(5,6) by (simp_all add: f)
  then show "boot_ok ?s" using o(5) by (simp add: boot_ok_def SESS_LEADER_def sel)
  have "qualifies ?s a = qualifies st a" if a: "a \<in> set (allproc st)" "pg_session (pgmem st (p_pgrp (pmem st a))) \<notin> boot_sessions st" for a
  proof -
    have "a \<noteq> last (allproc st)" using a(2) by (auto simp: boot_sessions_def p_session_def)
    moreover obtain ys zs where s: "allproc st = ys @ a # zs" using a by (auto simp: in_set_conv_decomp)
    ultimately have "zs \<noteq> []" by auto
    then have "p_pptr (pmem st a) \<in> set (allproc st)" using links_okD(7) [OF o(1) s] s by auto
    then show ?thesis using n [OF a(1)] n [of "p_pptr (pmem st a)"] by (simp add: qualifies_def Let_def f g)
  qed
  then have "{a \<in> set (allproc st). p_pgrp (pmem ?s a) = x \<and> qualifies ?s a} = {a \<in> set (allproc st). p_pgrp (pmem st a) = x \<and> qualifies st a}"
    if "pg_session (pgmem st x) \<notin> boot_sessions st" for x
    using n that by (auto simp: f(3))
  moreover have "boot_sessions ?s = boot_sessions st" by (simp add: boot_sessions_def sel bs)
  ultimately show "jobc_ok ?s" using o(6) by (simp add: jobc_ok_def G g sel)
  have u: "ucount ?s u = ucount (st\<lparr>uihashtbl := T\<rparr>) u" for u by (simp add: ucount_def UIHASH_def sel)
  have "chains_ok ?s" using T(1) unfolding chains_ok_def UIHASH_def sel by simp
  moreover have "card {x \<in> procs st. p_ruid (p_cred (pmem st x)) = u}
      = card {x \<in> procs ?s. p_ruid (p_cred (pmem ?s x)) = u} + (if u = p_ruid (p_cred (pmem st p)) then 1 else 0)" for u
  proof -
    have "card {x \<in> insert p (procs ?s). p_ruid (p_cred (pmem st x)) = u}
        = card {x \<in> procs ?s. p_ruid (p_cred (pmem st x)) = u} + (if p_ruid (p_cred (pmem st p)) = u then 1 else 0)"
      by (rule card_insert_if_pred [OF finite_procs]) (simp add: P)
    moreover have "insert p (procs ?s) = procs st" using d(1) P by auto
    moreover have "{x \<in> procs ?s. p_ruid (p_cred (pmem ?s x)) = u} = {x \<in> procs ?s. p_ruid (p_cred (pmem st x)) = u}"
      by (auto simp: P f)
    ultimately show ?thesis by auto
  qed
  ultimately show "users_ok ?s" using o(7) T(2) unfolding users_ok_iff u by auto
qed

lemma wait_zombie_ok:
  assumes ok: "proc_ok st" and p: "p \<in> set (zombproc st)"
  shows "\<exists>st'. wait_zombie p st = Inr st' \<and> proc_ok st' \<and> procs st' = procs st - {p} \<and> allproc st' = allproc st
    \<and> (\<forall>a. a \<noteq> p \<longrightarrow> p_pid (pmem st' a) = p_pid (pmem st a) \<and> p_pptr (pmem st' a) = p_pptr (pmem st a) \<and> p_cred (pmem st' a) = p_cred (pmem st a)
         \<and> p_pgid st' a = p_pgid st a \<and> p_session st' a = p_session st a)
    \<and> groups st' = {g \<in> groups st. \<exists>a \<in> procs st. a \<noteq> p \<and> p_pgrp (pmem st a) = g}
    \<and> (p_refcnt (p_cred (pmem st p)) = 1 \<longrightarrow> crmem st' = crmem (crfree (p_ucred st p) st) \<and> crlive st' = crlive (crfree (p_ucred st p) st))"
proof -
  have o: "links_ok st" "pids_ok st" "groups_ok st" "sessions_ok st" "boot_ok st" "jobc_ok st" "users_ok st"
    using ok by (simp_all add: proc_ok_def)
  have cnt: "counts_ok st" using o(4) by (simp add: sessions_ok_def)
  note d = zombieD [OF o(1) p]
  let ?u = "p_ruid (p_cred (pmem st p))" and ?g = "p_pgrp (pmem st p)"
  have ch: "chains_ok st" and uc: "ucount st ?u = int (card {a \<in> procs st. p_ruid (p_cred (pmem st a)) = ?u})" using o(7) by (simp_all add: users_ok_iff)
  have "card {a \<in> procs st. p_ruid (p_cred (pmem st a)) = ?u} \<noteq> 0" using d(1) finite_procs [of st] by auto
  then have "0 \<le> ucount st ?u + - 1" using uc by linarith
  then obtain T where T: "chgproccnt ?u (- 1) st = Inr (st\<lparr>uihashtbl := T\<rparr>, ucount st ?u + - 1)" "chains_ok (st\<lparr>uihashtbl := T\<rparr>)"
    "\<forall>u. ucount (st\<lparr>uihashtbl := T\<rparr>) u = ucount st u + (if u = ?u then - 1 else 0)"
    using chgproccnt_ok [OF ch] by blast
  have gg: "?g \<in> groups st" "p \<in> set (pg_mem (pgmem st ?g))" using groups_okD(6) [OF o(3) d(1)] groups_okD(9) [OF o(3), of ?g] d(1) by auto
  obtain M L where CR: "p_refcnt (p_cred (pmem st p)) = 1 \<longrightarrow> M = crmem (crfree (p_ucred st p) st) \<and> L = crlive (crfree (p_ucred st p) st)"
    and w: "wait_zombie p st = (let st' = reaped p T M L st in if pg_mem (pgmem st' ?g) = [] then pgdelete ?g st' else Inr st')"
    using wait_zombie_eff [OF links_okD(12) [OF o(1) d(1)] T(1) gg(2) d(4)] by (elim exE conjE) (rule that)
  define s where "s = reaped p T M L st"
  note sel = reaped_sel [OF d(4), where T = T and M = M and L = L, folded s_def] and f = reaped_frame [OF o(1) p, where T = T and M = M and L = L, folded s_def]
  note gr = groups_reaped [OF o(1,3) cnt p, where T = T and M = M and L = L, folded s_def]
  note rest = rest_reaped [OF ok p T(2,3), where M = M and L = L, folded s_def]
  have G: "groups s = groups st" by (simp add: groups_def sel)
  have P: "procs s = procs st - {p}" using d(8) by (simp add: s_def)
  have li: "links_ok s" "pids_ok s" using links_reaped [OF o(1) p] pids_reaped [OF o(1,2) p] by (simp_all add: s_def)
  obtain st' where st': "wait_zombie p st = Inr st'" "groups_ok st'" "counts_ok st'" "same_core s st'" "groups st' \<subseteq> groups s" "groups s - {?g} \<subseteq> groups st'"
  proof (cases "pg_mem (pgmem s ?g) = []")
    case True
    then obtain st' where st': "pgdelete ?g s = Inr st'" "groups_wf st'" "counts_ok st'" "groups st' = groups s - {?g}" "same_core s st'"
      using pgdelete_ok [OF gr(1,2), of ?g] gg(1) G by auto
    moreover from this have "groups_ok st'" using gr(3) G by (auto simp: groups_ok_def same_core_def)
    moreover have "wait_zombie p st = Inr st'" using w True st'(1) by (simp add: s_def)
    ultimately show thesis using that [of st'] by auto
  next
    case False
    then have "wait_zombie p st = Inr s" using w by (simp add: s_def)
    moreover have "groups_ok s" using gr(1,3) False G unfolding groups_ok_def by metis
    moreover have "same_core s s" by (simp add: same_core_def)
    ultimately show thesis using that [of s] gr(2) by auto
  qed
  note c = same_core_ok [OF st'(4,5)]
  have "proc_ok st'" unfolding proc_ok_def sessions_ok_def using st'(2,3) c li rest by simp
  moreover have e: "pmem st' = pmem s" "pgmem st' = pgmem s" "allproc st' = allproc st" "crmem st' = M" "crlive st' = L" using st'(4) by (simp_all add: same_core_def sel)
  moreover have sp: "p_pgid st' a = p_pgid s a" "p_session st' a = p_session s a" for a by (simp_all add: p_pgid_def p_session_def e)
  moreover have "g \<in> groups st' \<longleftrightarrow> g \<in> groups st \<and> (\<exists>a \<in> procs st. a \<noteq> p \<and> p_pgrp (pmem st a) = g)" for g
  proof
    assume g: "g \<in> groups st'"
    then have "pg_mem (pgmem st' g) \<noteq> []" using groups_okD(7) [OF st'(2)] by blast
    then obtain a where "a \<in> procs st'" "p_pgrp (pmem st' a) = g" using groups_okD(9) [OF st'(2) g] by (cases "pg_mem (pgmem st' g)") auto
    then show "g \<in> groups st \<and> (\<exists>a \<in> procs st. a \<noteq> p \<and> p_pgrp (pmem st a) = g)" using g st'(5) G c(1) P e(1) f(3) by auto
  next
    assume "g \<in> groups st \<and> (\<exists>a \<in> procs st. a \<noteq> p \<and> p_pgrp (pmem st a) = g)"
    then obtain a where "a \<in> procs st'" "p_pgrp (pmem st' a) = g" using c(1) P e(1) f(3) by auto
    then show "g \<in> groups st'" using groups_okD(6) [OF st'(2)] by blast
  qed
  ultimately show ?thesis using st'(1) c(1) P f CR by auto
qed

section \<open>Waiting\<close>

text \<open>Which children a call is about, and which of them it reports.\<close>

definition wait_match :: "pstate \<Rightarrow> int \<Rightarrow> addr \<Rightarrow> bool" where
  "wait_match st pid p \<longleftrightarrow> pid = WAIT_ANY \<or> p_pid (pmem st p) = pid \<or> p_pgid st p = - pid"

definition wait_reports :: "pstate \<Rightarrow> waitopt set \<Rightarrow> addr \<Rightarrow> bool" where
  "wait_reports st options p \<longleftrightarrow>
     p_stat (pmem st p) = SZOMB
   \<or> p_stat (pmem st p) = SSTOP \<and> SWTED \<notin> p_flag (pmem st p) \<and> (STRC \<in> p_flag (pmem st p) \<or> WUNTRACED \<in> options)"

definition wait_report :: "addr \<Rightarrow> errno option \<Rightarrow> errno option \<Rightarrow> pstate \<Rightarrow> (pstate \<times> waitres) kres" where
  "wait_report p status rusage st =
     (if p_stat (pmem st p) = SZOMB then
        (case (if status \<noteq> None then status else rusage) of
           Some e \<Rightarrow> Inr (st, Inl e)
         | None \<Rightarrow> bindE (wait_zombie p st) (\<lambda>st'. Inr (st', Inr (p_pid (pmem st p), p_xstat (pmem st p)))))
      else Inr (upd_proc p (\<lambda>p. p\<lparr>p_flag := p_flag p \<union> {SWTED}\<rparr>) st,
                case status of Some e \<Rightarrow> Inl e | None \<Rightarrow> Inr (p_pid (pmem st p), W_STOPCODE (p_xstat (pmem st p)))))"

lemma wait_loop_correct:
  "wait_loop ps pid options status rusage st n =
     (case List.find (\<lambda>p. wait_match st pid p \<and> wait_reports st options p) ps of
        Some p \<Rightarrow> Inr (wait_report p status rusage st)
      | None \<Rightarrow> Inl (n + length (filter (wait_match st pid) ps)))"
proof (induction ps arbitrary: n)
  case (Cons p ps)
  have w: "pid \<noteq> WAIT_ANY \<and> p_pid (pmem st p) \<noteq> pid \<and> p_pgid st p \<noteq> - pid \<longleftrightarrow> \<not> wait_match st pid p"
    by (auto simp: wait_match_def)
  consider (other) "\<not> wait_match st pid p" | (zombie) "wait_match st pid p" "p_stat (pmem st p) = SZOMB"
    | (stopped) "wait_match st pid p" "p_stat (pmem st p) \<noteq> SZOMB" "wait_reports st options p"
    | (busy) "wait_match st pid p" "\<not> wait_reports st options p" by blast
  then show ?case
  proof cases
    case other
    then show ?thesis unfolding wait_loop.simps w using Cons.IH by (simp split: option.split)
  next
    case zombie
    then show ?thesis unfolding wait_loop.simps w
      by (auto simp: wait_reports_def wait_report_def Let_def split: option.split)
  next
    case stopped
    then show ?thesis unfolding wait_loop.simps w by (auto simp: wait_reports_def wait_report_def Let_def)
  next
    case busy
    then show ?thesis unfolding wait_loop.simps w using Cons.IH by (auto simp: wait_reports_def split: option.split)
  qed
qed simp

lemma flag_ok: "proc_ok (upd_proc p (\<lambda>p. p\<lparr>p_flag := f p\<rparr>) st) = proc_ok st"
  by (rule same_view_proc_ok) (simp_all add: same_view_def upd_proc_def)

lemma wait1_ok:
  fixes pid :: int and options :: "waitopt set"
  assumes ok: "proc_ok st" and q: "q \<in> set (allproc st)"
  defines "who \<equiv> if pid = 0 then - p_pgid st q else pid"
  defines "child \<equiv> List.find (\<lambda>p. wait_match st who p \<and> wait_reports st options p) (p_cptr (pmem st q))"
  shows "case child of
      Some p \<Rightarrow> \<exists>st' r. wait1 q pid options status rusage st = Inr (st', r) \<and> wait_report p status rusage st = Inr (st', r) \<and> proc_ok st'
    | None \<Rightarrow>
        wait1 q pid options status rusage st
          = (if \<not> (\<exists>p \<in> set (p_cptr (pmem st q)). wait_match st who p) then Inr (st, Inl ECHILD)
             else if WNOHANG \<in> options then Inr (st, Inr (0, 0)) else Inl Sleeps)"
proof (cases child)
  case None
  then show ?thesis
    by (auto simp: wait1_def Let_def wait_loop_correct child_def who_def filter_empty_conv)
next
  case (Some p)
  then have p: "p \<in> set (p_cptr (pmem st q))" "wait_reports st options p" unfolding child_def by (auto dest: find_Some)
  have o: "links_ok st" using ok by (simp add: proc_ok_def)
  have "q \<in> procs st" using q by (simp add: procs_def)
  then have pp: "p \<in> procs st" using links_okD(10) [OF o] p(1) by auto
  have e: "wait1 q pid options status rusage st = wait_report p status rusage st"
    using Some by (simp add: wait1_def Let_def wait_loop_correct child_def who_def)
  have "\<exists>st' r. wait_report p status rusage st = Inr (st', r) \<and> proc_ok st'"
  proof (cases "p_stat (pmem st p) = SZOMB")
    case True
    then have "p \<in> set (zombproc st)" using links_okD(9) [OF o pp] by simp
    then obtain st' where "wait_zombie p st = Inr st'" "proc_ok st'" using wait_zombie_ok [OF ok] by blast
    then show ?thesis using True ok by (auto simp: wait_report_def split: option.split)
  next
    case False
    then show ?thesis using ok by (simp add: wait_report_def flag_ok)
  qed
  then show ?thesis using Some e by auto
qed

end
