(* ===== verification/Cred_Laws.thy ===== *)
theory Cred_Laws
  imports Proc_Wait
begin

text \<open>
  Credentials: the calls that change identifiers copy the credentials when they are shared, so that no other
  holder notices; reference counts stay those of the holders through fork, exit and wait; without privilege
  a process gets no identifier that it did not have.
\<close>

section \<open>Reference counts\<close>

lemma card_change:
  assumes A: "finite A" "p \<in> A" and o: "\<And>a. a \<noteq> p \<Longrightarrow> G a = F a"
  shows "int (card {a \<in> A. G a = x}) = int (card {a \<in> A. F a = x}) - (if F p = x then 1 else 0) + (if G p = x then 1 else 0)"
proof -
  have s: "A = insert p (A - {p})" using A by auto
  have c: "card {a \<in> A. H a = x} = card {a \<in> A - {p}. H a = x} + (if H p = x then 1 else 0)" for H
    using card_insert_if_pred [of "A - {p}" p "\<lambda>a. H a = x"] A(1) unfolding s [symmetric] by simp
  have e: "{a \<in> A - {p}. G a = x} = {a \<in> A - {p}. F a = x}" using o by auto
  show ?thesis using c [of F] c [of G] e by auto
qed

lemma cred_refs_change:
  assumes p: "p \<in> procs st" and P: "procs st' = procs st" and o: "\<And>a. a \<noteq> p \<Longrightarrow> p_ucred st' a = p_ucred st a"
  shows "cred_refs held st' x = cred_refs held st x - (if x = p_ucred st p then 1 else 0) + (if x = p_ucred st' p then 1 else 0)"
  using card_change [OF finite_procs p, where F = "p_ucred st" and G = "p_ucred st'" and x = x] o by (auto simp: cred_refs_def P)

lemma cr_ushort_id: "0 \<le> n \<Longrightarrow> n < 65536 \<Longrightarrow> cr_ushort n = n"
  by (simp add: cr_ushort_def)

text \<open>All that is in the credentials but the count.\<close>

definition cr_val :: "ucred \<Rightarrow> ucred" where "cr_val c = c\<lparr>cr_ref := 0\<rparr>"

definition cred_val :: "pstate \<Rightarrow> addr \<Rightarrow> ucred" where "cred_val st a = cr_val (crmem st (p_ucred st a))"

lemma creds_not_shared:
  assumes ok: "creds_ok held st" and p: "p \<in> procs st" and one: "cr_ref (crmem st (p_ucred st p)) = 1"
  shows "\<And>a. a \<in> procs st \<Longrightarrow> p_ucred st a = p_ucred st p \<Longrightarrow> a = p" "held (p_ucred st p) = 0"
proof -
  let ?c = "p_ucred st p"
  have "card {a \<in> procs st. p_ucred st a = ?c} + held ?c = 1"
    using creds_okD(5) [OF ok creds_okD(1) [OF ok p]] one by (simp add: cred_refs_def)
  moreover have s: "p \<in> {a \<in> procs st. p_ucred st a = ?c}" "finite {a \<in> procs st. p_ucred st a = ?c}" using p finite_procs [of st] by auto
  moreover have "card {a \<in> procs st. p_ucred st a = ?c} \<noteq> 0" using s by auto
  ultimately have "card {a \<in> procs st. p_ucred st a = ?c} = 1" and h: "held ?c = 0" by linarith+
  then have "card {a \<in> procs st. p_ucred st a = ?c} = 1" by blast
  then obtain q where q: "{a \<in> procs st. p_ucred st a = ?c} = {q}" by (rule card_1_singletonE)
  show "a = p" if "a \<in> procs st" "p_ucred st a = ?c" for a
  proof -
    have "a \<in> {a \<in> procs st. p_ucred st a = ?c}" using that by simp
    then show ?thesis using s(1) unfolding q by simp
  qed
  show "held ?c = 0" by (rule h)
qed

section \<open>A copy of one's own\<close>

text \<open>Everything but the credentials.\<close>

definition same_but_creds :: "pstate \<Rightarrow> pstate \<Rightarrow> bool" where
  "same_but_creds st st' \<longleftrightarrow>
     same_view st st' \<and> nextpid st' = nextpid st \<and> pidchecked st' = pidchecked st \<and> uihash st' = uihash st
   \<and> maxproc st' = maxproc st \<and> curproc st' = curproc st"

definition own_ok :: "addr \<Rightarrow> (ucred \<Rightarrow> ucred) \<Rightarrow> (addr \<Rightarrow> nat) \<Rightarrow> pstate \<Rightarrow> pstate \<Rightarrow> bool" where
  "own_ok p f held st st' \<longleftrightarrow>
     creds_ok held st' \<and> same_but_creds st st' \<and> uihashtbl st' = uihashtbl st
   \<and> (\<forall>a. a \<noteq> p \<longrightarrow> pmem st' a = pmem st a)
   \<and> pmem st' p = (pmem st p)\<lparr>p_cred := (p_cred (pmem st p))\<lparr>pc_ucred := p_ucred st' p\<rparr>\<rparr>
   \<and> crmem st' (p_ucred st' p) = f ((crmem st (p_ucred st p))\<lparr>cr_ref := 1\<rparr>)
   \<and> cr_ref (crmem st' (p_ucred st' p)) = 1
   \<and> (\<forall>a \<in> procs st. a \<noteq> p \<longrightarrow> cred_val st' a = cred_val st a)
   \<and> (\<forall>c. held c \<noteq> 0 \<longrightarrow> cr_val (crmem st' c) = cr_val (crmem st c))"

lemma own_cred_ok:
  assumes ok: "creds_ok held st" and p: "p \<in> procs st" and n: "ncr \<notin> set (crlive st)"
    and f: "\<And>c. cr_ref (f c) = cr_ref c" "\<And>c. length (cr_groups c) = nat NGROUPS \<Longrightarrow> length (cr_groups (f c)) = nat NGROUPS"
  shows "own_ok p f held st (own_cred p ncr f st)"
proof -
  let ?c = "p_ucred st p"
  define st' where "st' = own_cred p ncr f st"
  note b = creds_okD [OF ok]
  have live: "?c \<in> set (crlive st)" by (rule b(1) [OF p])
  show ?thesis
  proof (cases "cr_ref (crmem st ?c) = 1")
    case True
    have pm: "(pmem st)(p := (pmem st p)\<lparr>p_cred := (p_cred (pmem st p))\<lparr>pc_ucred := ?c\<rparr>\<rparr>) = pmem st"
      by (simp add: p_ucred_def)
    then have e: "st' = st\<lparr>crmem := (crmem st)(?c := f (crmem st ?c))\<rparr>"
      using True by (simp add: st'_def own_cred_def crcopy_def upd_cred_def upd_pcred_def upd_proc_def)
    have u: "p_ucred st' a = p_ucred st a" "procs st' = procs st" for a by (simp_all add: e p_ucred_def procs_def)
    have r: "cr_ref (crmem st' x) = cr_ref (crmem st x)" for x by (simp add: e f)
    have g: "length (cr_groups (crmem st' x)) = nat NGROUPS" if "x \<in> set (crlive st)" for x using b(8) [OF that] f(2) by (auto simp: e)
    have cr: "cred_refs held st' x = cred_refs held st x" for x by (simp add: cred_refs_def u)
    have s: "pmem st' = pmem st" "crlive st' = crlive st" by (simp_all add: e)
    have "creds_ok held st'" using ok g unfolding creds_ok_def u r cr s by blast
    moreover note ns = creds_not_shared [OF ok p True]
    moreover have one: "(crmem st ?c)\<lparr>cr_ref := 1\<rparr> = crmem st ?c" using True by (metis ucred.surjective ucred.update_convs(1))
    ultimately show ?thesis unfolding st'_def [symmetric] own_ok_def same_but_creds_def
      using True by (auto simp: u r cred_val_def) (auto simp: e same_view_def p_ucred_def one [unfolded p_ucred_def])
  next
    case False
    define m where "m = cr_ref (crmem st ?c)"
    have m: "1 < m" "m < 65536" using b(6,7) [OF live] False by (auto simp: m_def)
    have ne: "ncr \<noteq> ?c" using n live by auto
    have e: "st' = st\<lparr>pmem := (pmem st)(p := (pmem st p)\<lparr>p_cred := (p_cred (pmem st p))\<lparr>pc_ucred := ncr\<rparr>\<rparr>),
        crmem := (crmem st)(?c := (crmem st ?c)\<lparr>cr_ref := m - 1\<rparr>, ncr := f ((crmem st ?c)\<lparr>cr_ref := 1\<rparr>)), crlive := ncr # crlive st\<rparr>"
      using False m ne cr_ushort_id [of "m - 1"]
      by (auto simp: st'_def own_cred_def crcopy_def crget_def crfree_def Let_def upd_cred_def upd_pcred_def upd_proc_def m_def fun_upd_twist)
    have P: "procs st' = procs st" by (simp add: e procs_def)
    have u: "p_ucred st' a = (if a = p then ncr else p_ucred st a)" for a by (simp add: e p_ucred_def)
    have hn: "held ncr = 0" using b(4) n by auto
    have un: "p_ucred st a \<noteq> ncr" if "a \<in> procs st" for a using b(1) [OF that] n by auto
    have none: "{a \<in> procs st. p_ucred st a = ncr} = {}" using un by blast
    have rn: "cred_refs held st ncr = 0" unfolding cred_refs_def none hn by simp
    have refs: "cred_refs held st' x = cred_refs held st x - (if x = ?c then 1 else 0) + (if x = ncr then 1 else 0)" for x
      using cred_refs_change [OF p P, of held x] by (simp add: u)
    have "cr_ref (crmem st' x) = cred_refs held st' x \<and> 0 < cr_ref (crmem st' x) \<and> cr_ref (crmem st' x) < 65536
        \<and> length (cr_groups (crmem st' x)) = nat NGROUPS" if x: "x \<in> set (crlive st')" for x
    proof -
      consider "x = ncr" | "x = ?c" | "x \<noteq> ncr" "x \<noteq> ?c" "x \<in> set (crlive st)" using x live by (auto simp: e)
      then show ?thesis
      proof cases
        case 1
        then show ?thesis using b(8) [OF live] f ne rn refs [of ncr] by (simp add: e)
      next
        case 2
        then show ?thesis using b(5,8) [OF live] m ne refs [of ?c] by (simp add: e m_def)
      next
        case 3
        then show ?thesis using b(5-8) [OF 3(3)] refs [of x] by (simp add: e)
      qed
    qed
    moreover have "p_ucred st' a \<in> set (crlive st') \<and> p_refcnt (p_cred (pmem st' a)) = 1" if "a \<in> procs st'" for a
      using b(1,2) that P by (auto simp: u) (auto simp: e)
    moreover have "distinct (crlive st')" "\<And>c. held c \<noteq> 0 \<Longrightarrow> c \<in> set (crlive st')" using b(3,4) n by (auto simp: e)
    ultimately have "creds_ok held st'" unfolding creds_ok_def by blast
    moreover have "cred_val st' a = cred_val st a" if "a \<in> procs st" "a \<noteq> p" for a
      using that un [of a] by (simp add: cred_val_def u cr_val_def) (simp add: e)
    moreover have "cr_val (crmem st' c) = cr_val (crmem st c)" if "held c \<noteq> 0" for c
      using that hn by (auto simp: e cr_val_def)
    ultimately show ?thesis unfolding st'_def [symmetric] own_ok_def same_but_creds_def
      by (auto simp: u) (auto simp: e f same_view_def)
  qed
qed

section \<open>The calls\<close>

text \<open>A call that changes identifiers, with its arguments; those of \<open>setgroups\<close> are the number of groups and what
  \<open>copyin\<close> does, which copies no more than it was asked to.\<close>

datatype idcall =
  Setuid int | Seteuid int | Setgid int | Setegid int | Setgroups int "errno option \<times> int list"
| Osetreuid int int | Osetregid int int

fun idcall_wf :: "idcall \<Rightarrow> bool" where
  "idcall_wf (Setgroups n (e, gs)) = (0 \<le> n \<and> length gs \<le> nat n)"
| "idcall_wf _ = True"

fun id_call :: "idcall \<Rightarrow> addr \<Rightarrow> addr \<Rightarrow> pstate \<Rightarrow> (pstate \<times> errno option) kres" where
  "id_call (Setuid uid) p ncr st = setuid p uid ncr st"
| "id_call (Seteuid euid) p ncr st = Inr (seteuid p euid ncr st)"
| "id_call (Setgid gid) p ncr st = Inr (setgid p gid ncr st)"
| "id_call (Setegid egid) p ncr st = Inr (setegid p egid ncr st)"
| "id_call (Setgroups n c) p ncr st = Inr (setgroups p n c ncr st)"
| "id_call (Osetreuid r e) p ncr st = Inr (osetreuid p r e ncr st)"
| "id_call (Osetregid r e) p ncr st = Inr (osetregid p r e ncr st)"

definition euid :: "pstate \<Rightarrow> addr \<Rightarrow> int" where "euid st p = cr_uid (crmem st (p_ucred st p))"

definition uids :: "pstate \<Rightarrow> addr \<Rightarrow> int set" where
  "uids st p = {p_ruid (p_cred (pmem st p)), p_svuid (p_cred (pmem st p)), euid st p}"

definition gids :: "pstate \<Rightarrow> addr \<Rightarrow> int set" where
  "gids st p = {p_rgid (p_cred (pmem st p)), p_svgid (p_cred (pmem st p)), cr_groups (crmem st (p_ucred st p)) ! 0}"

text \<open>What every call keeps.\<close>

definition id_keeps :: "addr \<Rightarrow> (addr \<Rightarrow> nat) \<Rightarrow> pstate \<Rightarrow> pstate \<Rightarrow> bool" where
  "id_keeps p held st st' \<longleftrightarrow>
     creds_ok held st' \<and> same_but_creds st st'
   \<and> (\<forall>a \<in> procs st. a \<noteq> p \<longrightarrow> p_ruid (p_cred (pmem st' a)) = p_ruid (p_cred (pmem st a)) \<and> uids st' a = uids st a
        \<and> gids st' a = gids st a \<and> cred_val st' a = cred_val st a)
   \<and> (\<forall>c. held c \<noteq> 0 \<longrightarrow> cr_val (crmem st' c) = cr_val (crmem st c))"

lemma cred_val_sel: "cr_uid (cr_val c) = cr_uid c" "cr_groups (cr_val c) = cr_groups c" "cr_ngroups (cr_val c) = cr_ngroups c"
  by (simp_all add: cr_val_def)

lemma uids_cong:
  assumes "cred_val st' a = cred_val st a" "p_cred (pmem st' a) = p_cred (pmem st a)"
  shows "uids st' a = uids st a" "gids st' a = gids st a"
proof -
  have "cr_uid (crmem st' (p_ucred st' a)) = cr_uid (crmem st (p_ucred st a))"
    "cr_groups (crmem st' (p_ucred st' a)) = cr_groups (crmem st (p_ucred st a))"
    using assms(1) unfolding cred_val_def by (metis cred_val_sel)+
  then show "uids st' a = uids st a" "gids st' a = gids st a" using assms(2) by (simp_all add: uids_def gids_def euid_def)
qed

text \<open>Updates of the calling process and of the table of users after \<open>own_cred\<close>.\<close>

lemma creds_ok_cong:
  assumes "creds_ok held st" "crmem st' = crmem st" "crlive st' = crlive st" "procs st' = procs st"
    "\<And>a. pc_ucred (p_cred (pmem st' a)) = pc_ucred (p_cred (pmem st a)) \<and> p_refcnt (p_cred (pmem st' a)) = p_refcnt (p_cred (pmem st a))"
  shows "creds_ok held st'"
proof -
  have u: "p_ucred st' a = p_ucred st a" for a using assms(5) by (simp add: p_ucred_def)
  have r: "cred_refs held st' c = cred_refs held st c" for c by (simp add: cred_refs_def u assms(4))
  have n: "p_refcnt (p_cred (pmem st' a)) = p_refcnt (p_cred (pmem st a))" for a using assms(5) by blast
  show ?thesis using assms(1) unfolding creds_ok_def u r n assms(2-4) .
qed

lemma id_keeps_own:
  assumes ok: "creds_ok held st" and p: "p \<in> procs st" and n: "ncr \<notin> set (crlive st)"
    and f: "\<And>c. cr_ref (f c) = cr_ref c" "\<And>c. length (cr_groups c) = nat NGROUPS \<Longrightarrow> length (cr_groups (f c)) = nat NGROUPS"
    and h: "\<And>q. p_pid (h q) = p_pid q \<and> p_pptr (h q) = p_pptr q \<and> p_cptr (h q) = p_cptr q \<and> p_pgrp (h q) = p_pgrp q \<and> p_oppid (h q) = p_oppid q
        \<and> p_stat (h q) = p_stat q \<and> pc_ucred (p_cred (h q)) = pc_ucred (p_cred q) \<and> p_refcnt (p_cred (h q)) = p_refcnt (p_cred q)"
  defines "st' \<equiv> upd_proc p h (own_cred p ncr f st)"
  shows "id_keeps p held st st'" "uihashtbl st' = uihashtbl st" "p_cred (pmem st' p) = p_cred (h ((pmem st p)\<lparr>p_cred := (p_cred (pmem st p))\<lparr>pc_ucred := p_ucred st' p\<rparr>\<rparr>))"
    "crmem st' (p_ucred st' p) = f ((crmem st (p_ucred st p))\<lparr>cr_ref := 1\<rparr>)" "cr_ref (crmem st' (p_ucred st' p)) = 1"
proof -
  define st1 where "st1 = own_cred p ncr f st"
  have o: "own_ok p f held st st1" unfolding st1_def by (rule own_cred_ok [OF ok p n f])
  have u: "p_ucred st' a = p_ucred st1 a" for a using h by (simp add: st'_def st1_def p_ucred_def upd_simps)
  have e: "crmem st' = crmem st1" "crlive st' = crlive st1" "uihashtbl st' = uihashtbl st1" "procs st' = procs st1"
    "\<And>a. a \<noteq> p \<Longrightarrow> pmem st' a = pmem st1 a" "pmem st' p = h (pmem st1 p)"
    by (simp_all add: st'_def st1_def upd_simps procs_def)
  have c: "creds_ok held st'" by (rule creds_ok_cong [of held st1]) (use o h e in \<open>auto simp: own_ok_def st'_def st1_def upd_simps\<close>)
  have v: "same_but_creds st1 st'" using h by (simp add: same_but_creds_def same_view_def st'_def st1_def upd_simps)
  have v': "same_but_creds st st1" using o by (simp add: own_ok_def)
  have "same_but_creds st st'" using v v' by (simp add: same_but_creds_def same_view_def)
  moreover have "p_ruid (p_cred (pmem st' a)) = p_ruid (p_cred (pmem st a)) \<and> uids st' a = uids st a \<and> gids st' a = gids st a \<and> cred_val st' a = cred_val st a"
    if a: "a \<in> procs st" "a \<noteq> p" for a
  proof -
    have q: "cred_val st' a = cred_val st a" "p_cred (pmem st' a) = p_cred (pmem st a)"
      using o a by (simp_all add: own_ok_def cred_val_def u e)
    show ?thesis using uids_cong [OF q] q by simp
  qed
  moreover have "cr_val (crmem st' x) = cr_val (crmem st x)" if "held x \<noteq> 0" for x using o that unfolding own_ok_def e by blast
  ultimately show "id_keeps p held st st'" unfolding id_keeps_def using c by blast
  show "uihashtbl st' = uihashtbl st" "p_cred (pmem st' p) = p_cred (h ((pmem st p)\<lparr>p_cred := (p_cred (pmem st p))\<lparr>pc_ucred := p_ucred st' p\<rparr>\<rparr>))"
    "crmem st' (p_ucred st' p) = f ((crmem st (p_ucred st p))\<lparr>cr_ref := 1\<rparr>)" "cr_ref (crmem st' (p_ucred st' p)) = 1"
    using o by (simp_all add: own_ok_def e u f)
qed

lemma id_keeps_trans:
  assumes "id_keeps p held st st1" "id_keeps p held st1 st'"
  shows "id_keeps p held st st'"
proof -
  have "procs st1 = procs st" using assms(1) by (simp add: id_keeps_def same_but_creds_def same_view_def procs_def)
  moreover have "same_but_creds st st'" using assms by (simp add: id_keeps_def same_but_creds_def same_view_def)
  ultimately show ?thesis using assms unfolding id_keeps_def by simp
qed

text \<open>The test for privileges.\<close>

lemma priv:
  assumes ok: "creds_ok held st" and e: "(if need then suser (p_ucred st p) (Some p) st else (None, st)) = (e, st1)"
  obtains "need" "e = Some EPERM" "st1 = st" "euid st p \<noteq> 0"
  | "e = None" "need \<Longrightarrow> euid st p = 0" "id_keeps p held st st1" "creds_ok held st1" "crmem st1 = crmem st" "crlive st1 = crlive st"
    "\<And>a. p_cred (pmem st1 a) = p_cred (pmem st a)" "procs st1 = procs st" "uihashtbl st1 = uihashtbl st" "\<And>a. p_ucred st1 a = p_ucred st a"
proof (cases "need \<and> euid st p \<noteq> 0")
  case True
  then show ?thesis using that(1) e by (simp add: suser_def euid_def)
next
  case False
  define g where "g = (\<lambda>q. q\<lparr>p_acflag := p_acflag q \<union> (if need then {ASU} else {})\<rparr> :: proc)"
  have s: "st1 = upd_proc p g st" "e = None"
  proof -
    have "g (pmem st p) = pmem st p" if "\<not> need" using that by (simp add: g_def)
    then have "upd_proc p g st = st" if "\<not> need" using that by (simp add: upd_proc_def)
    moreover have "upd_proc p g st = upd_proc p (\<lambda>p. p\<lparr>p_acflag := p_acflag p \<union> {ASU}\<rparr>) st" if need using that by (simp add: g_def)
    ultimately show "st1 = upd_proc p g st" "e = None" using False e by (auto simp: suser_def euid_def split: if_splits)
  qed
  have c: "p_cred (pmem st1 a) = p_cred (pmem st a)" for a by (simp add: s g_def upd_simps)
  then have u: "p_ucred st1 a = p_ucred st a" for a by (simp add: p_ucred_def)
  have f: "crmem st1 = crmem st" "crlive st1 = crlive st" "procs st1 = procs st" "uihashtbl st1 = uihashtbl st" by (simp_all add: s upd_simps procs_def)
  have k: "creds_ok held st1" by (rule creds_ok_cong [OF ok f(1-3)]) (simp add: c)
  moreover have "same_but_creds st st1" by (simp add: same_but_creds_def same_view_def s g_def upd_simps)
  ultimately have "id_keeps p held st st1" by (simp add: id_keeps_def uids_def gids_def euid_def cred_val_def u f c)
  then show ?thesis using that(2) False s(2) k f c u by blast
qed

definition id_ok :: "addr \<Rightarrow> (addr \<Rightarrow> nat) \<Rightarrow> pstate \<Rightarrow> pstate \<Rightarrow> errno option \<Rightarrow> bool" where
  "id_ok p held st st' r \<longleftrightarrow>
     id_keeps p held st st' \<and> uihashtbl st' = uihashtbl st \<and> p_ruid (p_cred (pmem st' p)) = p_ruid (p_cred (pmem st p))
   \<and> (euid st p \<noteq> 0 \<longrightarrow> uids st' p \<subseteq> uids st p \<and> gids st' p \<subseteq> gids st p \<and> (r \<noteq> None \<longrightarrow> st' = st))"

lemma id_keeps_refl: "creds_ok held st \<Longrightarrow> id_keeps p held st st"
  by (simp add: id_keeps_def same_but_creds_def same_view_def)

lemma id_ok_refl: "creds_ok held st \<Longrightarrow> id_ok p held st st r"
  by (simp add: id_ok_def id_keeps_refl)

lemmas proc_h = upd_pcred_def set_sugid_def

lemma seteuid_ok:
  assumes ok: "creds_ok held st" and p: "p \<in> procs st" and n: "ncr \<notin> set (crlive st)"
  shows "id_ok p held st (fst (seteuid p e ncr st)) (snd (seteuid p e ncr st))"
proof -
  define need where "need \<longleftrightarrow> e \<noteq> p_ruid (p_cred (pmem st p)) \<and> e \<noteq> p_svuid (p_cred (pmem st p))"
  obtain er st1 where s: "(if need then suser (p_ucred st p) (Some p) st else (None, st)) = (er, st1)" by fastforce
  have e: "seteuid p e ncr st = (if er \<noteq> None then (st1, er) else (set_sugid p (own_cred p ncr (\<lambda>c. c\<lparr>cr_uid := e\<rparr>) st1), None))"
    using s by (simp add: seteuid_def need_def Let_def)
  from ok s show ?thesis
  proof (cases rule: priv)
    case 1
    then show ?thesis using ok e by (simp add: id_ok_refl)
  next
    case 2
    have p1: "p \<in> procs st1" "ncr \<notin> set (crlive st1)" using p n 2 by simp_all
    note o = id_keeps_own [OF 2(4) p1, where f = "\<lambda>c. c\<lparr>cr_uid := e\<rparr>" and h = "\<lambda>q. q\<lparr>p_flag := p_flag q \<union> {SUGID}\<rparr>", folded set_sugid_def, simplified]
    let ?s = "set_sugid p (own_cred p ncr (\<lambda>c. c\<lparr>cr_uid := e\<rparr>) st1)"
    have k: "id_keeps p held st ?s" using id_keeps_trans [OF 2(3)] o(1) by simp
    have u: "uids ?s p = {p_ruid (p_cred (pmem st p)), p_svuid (p_cred (pmem st p)), e}" "gids ?s p = gids st p"
      unfolding uids_def gids_def euid_def using o(3,4) 2 by (simp_all add: set_sugid_def)
    show ?thesis using 2(1,2) e k u o(2,3) 2(7,9) by (auto simp: id_ok_def uids_def need_def set_sugid_def)
  qed
qed

lemma setegid_ok:
  assumes ok: "creds_ok held st" and p: "p \<in> procs st" and n: "ncr \<notin> set (crlive st)"
  shows "id_ok p held st (fst (setegid p e ncr st)) (snd (setegid p e ncr st))"
proof -
  define need where "need \<longleftrightarrow> e \<noteq> p_rgid (p_cred (pmem st p)) \<and> e \<noteq> p_svgid (p_cred (pmem st p))"
  obtain er st1 where s: "(if need then suser (p_ucred st p) (Some p) st else (None, st)) = (er, st1)" by fastforce
  have e: "setegid p e ncr st = (if er \<noteq> None then (st1, er) else (set_sugid p (own_cred p ncr (\<lambda>c. c\<lparr>cr_groups := (cr_groups c)[0 := e]\<rparr>) st1), None))"
    using s by (simp add: setegid_def need_def Let_def)
  from ok s show ?thesis
  proof (cases rule: priv)
    case 1
    then show ?thesis using ok e by (simp add: id_ok_refl)
  next
    case 2
    have p1: "p \<in> procs st1" "ncr \<notin> set (crlive st1)" using p n 2 by simp_all
    note o = id_keeps_own [OF 2(4) p1, where f = "\<lambda>c. c\<lparr>cr_groups := (cr_groups c)[0 := e]\<rparr>" and h = "\<lambda>q. q\<lparr>p_flag := p_flag q \<union> {SUGID}\<rparr>", folded set_sugid_def, simplified]
    let ?s = "set_sugid p (own_cred p ncr (\<lambda>c. c\<lparr>cr_groups := (cr_groups c)[0 := e]\<rparr>) st1)"
    have k: "id_keeps p held st ?s" using id_keeps_trans [OF 2(3)] o(1) by simp
    have "length (cr_groups (crmem st (p_ucred st p))) = nat NGROUPS" using creds_okD(8) [OF ok creds_okD(1) [OF ok p]] .
    then have "cr_groups (crmem st (p_ucred st p)) \<noteq> []" by (auto simp: NGROUPS_def)
    then have u: "gids ?s p = {p_rgid (p_cred (pmem st p)), p_svgid (p_cred (pmem st p)), e}" "uids ?s p = uids st p"
      unfolding uids_def gids_def euid_def using o(3,4) 2 by (simp_all add: set_sugid_def)
    show ?thesis using 2(1,2) e k u o(2,3) 2(7,9) by (auto simp: id_ok_def gids_def need_def set_sugid_def)
  qed
qed

lemma setgid_ok:
  assumes ok: "creds_ok held st" and p: "p \<in> procs st" and n: "ncr \<notin> set (crlive st)"
  shows "id_ok p held st (fst (setgid p g ncr st)) (snd (setgid p g ncr st))"
proof -
  define need where "need \<longleftrightarrow> g \<noteq> p_rgid (p_cred (pmem st p))"
  obtain er st1 where s: "(if need then suser (p_ucred st p) (Some p) st else (None, st)) = (er, st1)" by fastforce
  define h :: "proc \<Rightarrow> proc" where "h = (\<lambda>q. q\<lparr>p_cred := (p_cred q)\<lparr>p_rgid := g, p_svgid := g\<rparr>, p_flag := p_flag q \<union> {SUGID}\<rparr>)"
  let ?f = "\<lambda>c. c\<lparr>cr_groups := (cr_groups c)[0 := g]\<rparr>"
  have hh: "set_sugid p (upd_pcred p (\<lambda>c. c\<lparr>p_rgid := g, p_svgid := g\<rparr>) s) = upd_proc p h s" for s
    by (simp add: proc_h upd_proc_def h_def)
  have e: "setgid p g ncr st = (if er \<noteq> None then (st1, er) else (upd_proc p h (own_cred p ncr ?f st1), None))"
    using s by (simp add: setgid_def need_def Let_def hh)
  from ok s show ?thesis
  proof (cases rule: priv)
    case 1
    then show ?thesis using ok e by (simp add: id_ok_refl)
  next
    case 2
    have p1: "p \<in> procs st1" "ncr \<notin> set (crlive st1)" using p n 2 by simp_all
    have h: "p_pid (h q) = p_pid q \<and> p_pptr (h q) = p_pptr q \<and> p_cptr (h q) = p_cptr q \<and> p_pgrp (h q) = p_pgrp q \<and> p_oppid (h q) = p_oppid q
        \<and> p_stat (h q) = p_stat q \<and> pc_ucred (p_cred (h q)) = pc_ucred (p_cred q) \<and> p_refcnt (p_cred (h q)) = p_refcnt (p_cred q)" for q
      by (simp add: h_def)
    note o = id_keeps_own [where f = ?f, OF 2(4) p1 _ _ h, simplified]
    let ?s = "upd_proc p h (own_cred p ncr ?f st1)"
    have k: "id_keeps p held st ?s" using id_keeps_trans [OF 2(3)] o(1) by simp
    have "length (cr_groups (crmem st (p_ucred st p))) = nat NGROUPS" using creds_okD(8) [OF ok creds_okD(1) [OF ok p]] .
    then have "cr_groups (crmem st (p_ucred st p)) \<noteq> []" by (auto simp: NGROUPS_def)
    then have u: "gids ?s p = {g}" "uids ?s p = uids st p" "p_ruid (p_cred (pmem ?s p)) = p_ruid (p_cred (pmem st p))"
      unfolding uids_def gids_def euid_def using o(3,4) 2 by (simp_all add: h_def)
    show ?thesis using 2(1,2) e k u o(2) 2(9) by (auto simp: id_ok_def gids_def need_def)
  qed
qed

lemma setgroups_ok:
  assumes ok: "creds_ok held st" and p: "p \<in> procs st" and n: "ncr \<notin> set (crlive st)" and wf: "0 \<le> m" "length gs \<le> nat m"
  shows "id_ok p held st (fst (setgroups p m (er, gs) ncr st)) (snd (setgroups p m (er, gs) ncr st))"
proof -
  obtain pe st1 where s: "(if True then suser (p_ucred st p) (Some p) st else (None, st)) = (pe, st1)" by fastforce
  define f :: "ucred \<Rightarrow> ucred" where "f = (\<lambda>c. c\<lparr>cr_groups := gs @ drop (length gs) (cr_groups c)\<rparr>)"
  define f2 :: "ucred \<Rightarrow> ucred" where "f2 = (\<lambda>c. (f c)\<lparr>cr_ngroups := m\<rparr>)"
  have own2: "upd_cred (p_ucred s' p) (\<lambda>c. c\<lparr>cr_ngroups := m\<rparr>) s' = own_cred p ncr f2 st1" if s': "s' = own_cred p ncr f st1" for s'
  proof -
    obtain cr t where c: "crcopy (p_ucred st1 p) ncr st1 = (cr, t)" by fastforce
    have "s' = upd_cred cr f (upd_pcred p (\<lambda>c. c\<lparr>pc_ucred := cr\<rparr>) t)" using s' c by (simp add: own_cred_def)
    moreover from this have "p_ucred s' p = cr" by (simp add: p_ucred_def upd_simps upd_pcred_def)
    ultimately show ?thesis using c by (simp add: own_cred_def upd_cred_def f2_def)
  qed
  have e: "setgroups p m (er, gs) ncr st = (if pe \<noteq> None then (st1, pe) else if NGROUPS < m then (st1, Some EINVAL)
      else if er \<noteq> None then (own_cred p ncr f st1, er) else (set_sugid p (own_cred p ncr f2 st1), None))"
    using s own2 by (simp add: setgroups_def Let_def f_def [symmetric])
  from ok s show ?thesis
  proof (cases rule: priv)
    case 1
    then show ?thesis using ok e by (simp add: id_ok_refl)
  next
    case 2
    have root: "euid st p = 0" using 2(2) by simp
    have p1: "p \<in> procs st1" "ncr \<notin> set (crlive st1)" using p n 2 by simp_all
    show ?thesis
    proof (cases "NGROUPS < m")
      case True
      then show ?thesis using e 2 root by (simp add: id_ok_def)
    next
      case False
      then have l: "length gs \<le> nat NGROUPS" using wf by simp
      have g: "length (cr_groups (f c)) = nat NGROUPS" "length (cr_groups (f2 c)) = nat NGROUPS" if "length (cr_groups c) = nat NGROUPS" for c
        using that l by (simp_all add: f_def f2_def)
      have r: "cr_ref (f c) = cr_ref c" "cr_ref (f2 c) = cr_ref c" for c by (simp_all add: f_def f2_def)
      have i: "upd_proc p (\<lambda>q. q) s = s" for s by (simp add: upd_proc_def)
      note o1 = id_keeps_own [OF 2(4) p1 r(1) g(1), where h = "\<lambda>q. q", unfolded i, simplified]
      note o2 = id_keeps_own [OF 2(4) p1 r(2) g(2), where h = "\<lambda>q. q\<lparr>p_flag := p_flag q \<union> {SUGID}\<rparr>", folded set_sugid_def, simplified]
      have "id_keeps p held st (own_cred p ncr f st1)" "id_keeps p held st (set_sugid p (own_cred p ncr f2 st1))"
        using id_keeps_trans [OF 2(3)] o1(1) o2(1) by simp_all
      then show ?thesis using False e 2(1,7,9) root o1(2,3) o2(2,3) by (simp add: id_ok_def set_sugid_def)
    qed
  qed
qed

lemma setuid_ok:
  assumes pok: "proc_ok st" and ok: "creds_ok held st" and p: "p \<in> procs st" and n: "ncr \<notin> set (crlive st)"
  shows "\<exists>st' r. setuid p uid ncr st = Inr (st', r) \<and> proc_ok st' \<and> id_keeps p held st st'
    \<and> (euid st p \<noteq> 0 \<longrightarrow> uids st' p \<subseteq> uids st p \<and> gids st' p \<subseteq> gids st p \<and> (r \<noteq> None \<longrightarrow> st' = st))"
proof -
  let ?ru = "p_ruid (p_cred (pmem st p))"
  define need where "need \<longleftrightarrow> uid \<noteq> ?ru"
  obtain er st1 where s: "(if need then suser (p_ucred st p) (Some p) st else (None, st)) = (er, st1)" by fastforce
  define h :: "proc \<Rightarrow> proc" where "h = (\<lambda>q. q\<lparr>p_cred := (p_cred q)\<lparr>p_ruid := uid, p_svuid := uid\<rparr>, p_flag := p_flag q \<union> {SUGID}\<rparr>)"
  let ?f = "\<lambda>c. c\<lparr>cr_uid := uid\<rparr>"
  have hh: "set_sugid p (upd_pcred p (\<lambda>c. c\<lparr>p_ruid := uid, p_svuid := uid\<rparr>) s) = upd_proc p h s" for s
    by (simp add: proc_h upd_proc_def h_def)
  have us: "users_ok st" using pok by (simp add: proc_ok_def)
  from ok s show ?thesis
  proof (cases rule: priv)
    case 1
    then have "setuid p uid ncr st = Inr (st, er)" using s by (simp add: setuid_def need_def Let_def)
    then show ?thesis using pok ok by (simp add: id_keeps_refl)
  next
    case 2
    have v1: "same_view st st1" "uihash st1 = uihash st" using 2(3) by (simp_all add: id_keeps_def same_but_creds_def)
    have uc: "ucount st1 u = ucount st u" for u by (simp add: ucount_def UIHASH_def 2(9) v1)
    have ch: "chains_ok st1" using us by (simp add: users_ok_iff chains_ok_def UIHASH_def 2(9) v1)
    have card: "ucount st u = int (card {a \<in> procs st. p_ruid (p_cred (pmem st a)) = u})" for u using us by (simp add: users_ok_iff)
    have "card {a \<in> procs st. p_ruid (p_cred (pmem st a)) = ?ru} \<noteq> 0" using p finite_procs [of st] by auto
    then have "0 \<le> ucount st1 ?ru + - 1" unfolding uc card by linarith
    then obtain T1 where T1: "chgproccnt ?ru (- 1) st1 = Inr (st1\<lparr>uihashtbl := T1\<rparr>, ucount st1 ?ru + - 1)" "chains_ok (st1\<lparr>uihashtbl := T1\<rparr>)"
      "\<forall>u. ucount (st1\<lparr>uihashtbl := T1\<rparr>) u = ucount st1 u + (if u = ?ru then - 1 else 0)" using chgproccnt_ok [OF ch] by blast
    have "0 \<le> ucount (st1\<lparr>uihashtbl := T1\<rparr>) uid + 1" using T1(3) by (auto simp: uc card)
    then obtain T2 where T2: "chgproccnt uid 1 (st1\<lparr>uihashtbl := T1\<rparr>) = Inr (st1\<lparr>uihashtbl := T1\<rparr>\<lparr>uihashtbl := T2\<rparr>, ucount (st1\<lparr>uihashtbl := T1\<rparr>) uid + 1)"
      "chains_ok (st1\<lparr>uihashtbl := T1\<rparr>\<lparr>uihashtbl := T2\<rparr>)"
      "\<forall>u. ucount (st1\<lparr>uihashtbl := T1\<rparr>\<lparr>uihashtbl := T2\<rparr>) u = ucount (st1\<lparr>uihashtbl := T1\<rparr>) u + (if u = uid then 1 else 0)"
      using chgproccnt_ok [OF T1(2)] by blast
    define st2 where "st2 = st1\<lparr>uihashtbl := T2\<rparr>"
    define st' where "st' = upd_proc p h (own_cred p ncr ?f st2)"
    have e: "setuid p uid ncr st = Inr (st', None)"
      using s 2(1) T1(1) T2(1) by (simp add: setuid_def need_def [symmetric] 2(7) hh st'_def st2_def Let_def)
    have k2: "creds_ok held st2" by (rule creds_ok_cong [OF 2(4)]) (simp_all add: st2_def procs_def)
    have p2: "p \<in> procs st2" "ncr \<notin> set (crlive st2)" using p n 2(6,8) by (simp_all add: st2_def procs_def)
    have h: "p_pid (h q) = p_pid q \<and> p_pptr (h q) = p_pptr q \<and> p_cptr (h q) = p_cptr q \<and> p_pgrp (h q) = p_pgrp q \<and> p_oppid (h q) = p_oppid q
        \<and> p_stat (h q) = p_stat q \<and> pc_ucred (p_cred (h q)) = pc_ucred (p_cred q) \<and> p_refcnt (p_cred (h q)) = p_refcnt (p_cred q)" for q
      by (simp add: h_def)
    note o = id_keeps_own [where f = ?f, OF k2 p2 _ _ h, simplified, folded st'_def]
    have w: "pmem st2 = pmem st1" "crmem st2 = crmem st1" "\<And>a. p_ucred st2 a = p_ucred st1 a" "procs st2 = procs st1"
      by (simp_all add: st2_def p_ucred_def procs_def)
    have "id_keeps p held st1 st2" using k2
      by (simp add: id_keeps_def same_but_creds_def same_view_def uids_def gids_def euid_def cred_val_def w) (simp add: st2_def)
    then have k: "id_keeps p held st st'" using id_keeps_trans [OF 2(3)] id_keeps_trans o(1) by blast
    then have sb: "same_but_creds st st'" by (simp add: id_keeps_def)
    have u: "uids st' p = {uid}" "gids st' p = gids st p" "p_ruid (p_cred (pmem st' p)) = uid"
      unfolding uids_def gids_def euid_def using o(3,4) 2 w by (simp_all add: h_def)
    have ph: "procs st' = procs st" "uihash st' = uihash st" "uihashtbl st' = T2"
      using sb o(2) by (simp_all add: same_but_creds_def same_view_def procs_def st2_def)
    have ru: "int (card {a \<in> procs st. p_ruid (p_cred (pmem st' a)) = x}) = int (card {a \<in> procs st. p_ruid (p_cred (pmem st a)) = x})
        - (if ?ru = x then 1 else 0) + (if uid = x then 1 else 0)" for x
    proof -
      have "{a \<in> procs st. p_ruid (p_cred (pmem st' a)) = x} = {a \<in> procs st. (if a = p then uid else p_ruid (p_cred (pmem st a))) = x}"
        using k u(3) by (auto simp: id_keeps_def)
      then show ?thesis
        using card_change [OF finite_procs p, where F = "\<lambda>a. p_ruid (p_cred (pmem st a))" and G = "\<lambda>a. if a = p then uid else p_ruid (p_cred (pmem st a))" and x = x]
        by simp
    qed
    have "chains_ok st'" using T2(2) by (simp add: chains_ok_def UIHASH_def ph v1)
    moreover have "ucount st' x = ucount (st1\<lparr>uihashtbl := T1\<rparr>\<lparr>uihashtbl := T2\<rparr>) x" for x by (simp add: ucount_def UIHASH_def ph v1)
    ultimately have "users_ok st'" unfolding users_ok_iff ph(1) ru using T1(3) T2(3) by (auto simp: uc card)
    moreover have v: "same_view st st'" "nextpid st' = nextpid st" "pidchecked st' = pidchecked st" using sb by (simp_all add: same_but_creds_def)
    ultimately have "proc_ok st'" using pok unfolding proc_ok_def same_view_ok [OF v(1)] same_view_pids [OF v] by blast
    then show ?thesis using e k u 2(2) by (auto simp: need_def uids_def)
  qed
qed

lemma id_ok_proc:
  assumes "proc_ok st" "p \<in> procs st" "id_ok p held st st' r"
  shows "proc_ok st'"
proof -
  have sb: "same_but_creds st st'" using assms(3) by (simp add: id_ok_def id_keeps_def)
  then have v: "same_view st st'" "nextpid st' = nextpid st" "pidchecked st' = pidchecked st" "uihash st' = uihash st" by (simp_all add: same_but_creds_def)
  have r: "p_ruid (p_cred (pmem st' a)) = p_ruid (p_cred (pmem st a))" if "a \<in> procs st" for a
    using assms(3) that by (cases "a = p") (simp_all add: id_ok_def id_keeps_def)
  have c: "{a \<in> procs st'. p_ruid (p_cred (pmem st' a)) = u} = {a \<in> procs st. p_ruid (p_cred (pmem st a)) = u}" for u
    using r v(1) by (auto simp: same_view_inv(1) [OF v(1)])
  have "uihashtbl st' = uihashtbl st" using assms(3) by (simp add: id_ok_def)
  then have "users_ok st' = users_ok st" by (simp add: users_ok_def UIHASH_def v(4) c)
  then show ?thesis using assms(1) unfolding proc_ok_def same_view_ok [OF v(1)] same_view_pids [OF v(1-3)] by blast
qed

lemma id_call_ok:
  assumes pok: "proc_ok st" and ok: "creds_ok held st" and p: "p \<in> procs st" and n: "ncr \<notin> set (crlive st)" and wf: "idcall_wf c"
  shows "\<exists>st' r. id_call c p ncr st = Inr (st', r) \<and> proc_ok st' \<and> id_keeps p held st st'
    \<and> (euid st p \<noteq> 0 \<longrightarrow> uids st' p \<subseteq> uids st p \<and> gids st' p \<subseteq> gids st p \<and> (r \<noteq> None \<longrightarrow> st' = st))"
proof -
  note a = ok p n
  have "(\<exists>st' r. id_call c p ncr st = Inr (st', r) \<and> id_ok p held st st' r) \<or> (\<exists>uid. c = Setuid uid)"
  proof (cases c)
    case (Seteuid e)
    then show ?thesis using seteuid_ok [OF a, of e] by (metis id_call.simps(2) prod.collapse)
  next
    case (Setgid g)
    then show ?thesis using setgid_ok [OF a, of g] by (metis id_call.simps(3) prod.collapse)
  next
    case (Setegid e)
    then show ?thesis using setegid_ok [OF a, of e] by (metis id_call.simps(4) prod.collapse)
  next
    case (Setgroups m x)
    then show ?thesis using setgroups_ok [OF a, of m "snd x" "fst x"] wf by (cases x) (metis id_call.simps(5) idcall_wf.simps(1) prod.collapse fst_conv snd_conv)
  next
    case (Osetreuid r e)
    have "id_ok p held st (fst (osetreuid p r e ncr st)) (snd (osetreuid p r e ncr st))"
      using seteuid_ok [OF a] id_ok_refl [OF ok] by (simp add: osetreuid_def Let_def)
    then show ?thesis using Osetreuid by (metis id_call.simps(6) prod.collapse)
  next
    case (Osetregid r e)
    have "id_ok p held st (fst (osetregid p r e ncr st)) (snd (osetregid p r e ncr st))"
      using setegid_ok [OF a] id_ok_refl [OF ok] by (simp add: osetregid_def Let_def)
    then show ?thesis using Osetregid by (metis id_call.simps(7) prod.collapse)
  qed simp
  then show ?thesis
  proof
    assume "\<exists>st' r. id_call c p ncr st = Inr (st', r) \<and> id_ok p held st st' r"
    then obtain st' r where "id_call c p ncr st = Inr (st', r)" "id_ok p held st st' r" by blast
    then show ?thesis using id_ok_proc [OF pok p] unfolding id_ok_def by blast
  next
    assume "\<exists>uid. c = Setuid uid"
    then show ?thesis using setuid_ok [OF pok a] by auto
  qed
qed

end
