(* ===== verification/Proc_Run.thy ===== *)
theory Proc_Run
  imports Cred_Laws
begin

text \<open>
  Processes in operation: the state \<open>main\<close> sets up, the system calls of the current process in any order,
  and what the rest of the kernel does in between. Every state reached satisfies the invariant, and no call
  panics but the exit of \<open>init\<close>. At the end what modelling showed of \<open>ptrace\<close>.
\<close>

section \<open>Reference counts through fork, exit and wait\<close>

lemma creds_fork:
  assumes ok: "creds_ok held st" and p1: "p1 \<in> procs st" and p2: "p2 \<notin> procs st" and r: "cr_ref (crmem st (p_ucred st p1)) < 65535"
  shows "creds_ok held (fork_link p1 p2 pid v st)"
proof -
  note b = creds_okD [OF ok]
  have n: "p1 \<noteq> p2" using p1 p2 by auto
  define st' where "st' = fork_link p1 p2 pid v st"
  note sel = fork_link_sel [OF n, where pid = pid and v = v and st = st, folded st'_def]
  let ?c = "p_ucred st p1"
  have live: "?c \<in> set (crlive st)" by (rule b(1) [OF p1])
  have P: "procs st' = insert p2 (procs st)" using procs_fork [OF n] by (simp add: st'_def)
  have u: "p_ucred st' a = (if a = p2 then ?c else p_ucred st a)" for a by (auto simp: p_ucred_def sel fork_child_sel)
  have cr: "p_refcnt (p_cred (pmem st' a)) = (if a = p2 then 1 else p_refcnt (p_cred (pmem st a)))" for a by (auto simp: sel fork_child_sel)
  have m: "crmem st' c = (if c = ?c then (crmem st c)\<lparr>cr_ref := cr_ref (crmem st c) + 1\<rparr> else crmem st c)" for c
    using r b(6) [OF live] cr_ushort_id [of "cr_ref (crmem st ?c) + 1"] by (simp add: sel)
  have refs: "cred_refs held st' c = cred_refs held st c + (if c = ?c then 1 else 0)" for c
  proof -
    have "card {a \<in> procs st'. p_ucred st' a = c} = card {a \<in> procs st. p_ucred st' a = c} + (if p_ucred st' p2 = c then 1 else 0)"
      unfolding P by (rule card_insert_if_pred [OF finite_procs p2])
    moreover have "{a \<in> procs st. p_ucred st' a = c} = {a \<in> procs st. p_ucred st a = c}" using p2 u by auto
    ultimately show ?thesis using u [of p2] by (auto simp: cred_refs_def)
  qed
  have "cr_ref (crmem st' c) = cred_refs held st' c \<and> 0 < cr_ref (crmem st' c) \<and> cr_ref (crmem st' c) < 65536 \<and> length (cr_groups (crmem st' c)) = nat NGROUPS"
    if "c \<in> set (crlive st')" for c
  proof -
    have c: "c \<in> set (crlive st)" using that by (simp add: sel)
    show ?thesis unfolding m refs using b(5-8) [OF c] r by auto
  qed
  moreover have "p_ucred st' a \<in> set (crlive st') \<and> p_refcnt (p_cred (pmem st' a)) = 1" if "a \<in> procs st'" for a
    using that live b(1,2) [of a] P u [of a] cr [of a] by (auto simp: sel(10))
  moreover have "distinct (crlive st')" "\<And>c. held c \<noteq> 0 \<Longrightarrow> c \<in> set (crlive st')" using b(3,4) by (simp_all add: sel)
  ultimately show ?thesis unfolding st'_def [symmetric] creds_ok_def by blast
qed

lemma crfree_sel:
  assumes "c \<in> set (crlive st)" "0 < cr_ref (crmem st c)" "cr_ref (crmem st c) < 65536"
  shows "crmem (crfree c st) = (crmem st)(c := (crmem st c)\<lparr>cr_ref := cr_ref (crmem st c) - 1\<rparr>)"
    "crlive (crfree c st) = (if cr_ref (crmem st c) = 1 then remove1 c (crlive st) else crlive st)"
  using assms cr_ushort_id [of "cr_ref (crmem st c) - 1"] by (simp_all add: crfree_def Let_def upd_cred_def)

text \<open>One reference to \<open>c\<close> less, whoever held it.\<close>

lemma creds_drop:
  assumes ok: "creds_ok held st" and c: "c \<in> set (crlive st)" and m: "crmem st' = crmem (crfree c st)" "crlive st' = crlive (crfree c st)"
    and P: "procs st' \<subseteq> procs st" "\<And>a. a \<in> procs st' \<Longrightarrow> p_cred (pmem st' a) = p_cred (pmem st a)"
    and r: "\<And>x. cred_refs held' st' x = cred_refs held st x - (if x = c then 1 else 0)"
    and h: "\<And>x. held' x \<le> held x"
  shows "creds_ok held' st'"
proof -
  note b = creds_okD [OF ok]
  note f = crfree_sel [OF c b(6,7) [OF c], folded m]
  have refs: "x \<in> set (crlive st')" if "x \<in> set (crlive st)" "cred_refs held' st' x \<noteq> 0" for x
    using that b(5) [OF c] r [of c] by (cases "x = c") (auto simp: f)
  have u: "p_ucred st' a = p_ucred st a" if "a \<in> procs st'" for a using P(2) [OF that] by (simp add: p_ucred_def)
  have held: "x \<in> set (crlive st')" if "held' x \<noteq> 0" for x
  proof -
    have "held x \<noteq> 0" using h [of x] that by simp
    moreover have "cred_refs held' st' x \<noteq> 0" using that by (simp add: cred_refs_def)
    ultimately show ?thesis using refs b(4) by blast
  qed
  have proc: "p_ucred st' a \<in> set (crlive st') \<and> p_refcnt (p_cred (pmem st' a)) = 1" if "a \<in> procs st'" for a
  proof -
    have "{x \<in> procs st'. p_ucred st' x = p_ucred st' a} \<noteq> {}" using that by auto
    then have "card {x \<in> procs st'. p_ucred st' x = p_ucred st' a} \<noteq> 0" using finite_procs [of st'] by auto
    then have "cred_refs held' st' (p_ucred st' a) \<noteq> 0" by (simp add: cred_refs_def)
    moreover have "p_ucred st' a \<in> set (crlive st)" using b(1) [of a] that P(1) u by auto
    ultimately show ?thesis using refs b(2) [of a] that P by auto
  qed
  have "cr_ref (crmem st' x) = cred_refs held' st' x \<and> 0 < cr_ref (crmem st' x) \<and> cr_ref (crmem st' x) < 65536 \<and> length (cr_groups (crmem st' x)) = nat NGROUPS"
    if x: "x \<in> set (crlive st')" for x
  proof -
    have xl: "x \<in> set (crlive st)" "x = c \<longrightarrow> cr_ref (crmem st c) \<noteq> 1"
      using x b(3) by (auto simp: f split: if_splits)
    show ?thesis unfolding r f using b(5-8) [OF xl(1)] xl(2) by auto
  qed
  moreover have "distinct (crlive st')" using b(3) by (simp add: f)
  ultimately show ?thesis unfolding creds_ok_def using proc held by blast
qed

lemma creds_wait:
  assumes ok: "creds_ok held st" and p: "p \<in> procs st" and P: "procs st' = procs st - {p}"
    and m: "crmem st' = crmem (crfree (p_ucred st p) st)" "crlive st' = crlive (crfree (p_ucred st p) st)"
    and o: "\<And>a. a \<noteq> p \<Longrightarrow> p_cred (pmem st' a) = p_cred (pmem st a)"
  shows "creds_ok held st'"
proof (rule creds_drop [OF ok creds_okD(1) [OF ok p] m])
  have u: "p_ucred st' a = p_ucred st a" if "a \<noteq> p" for a using o [OF that] by (simp add: p_ucred_def)
  show "cred_refs held st' x = cred_refs held st x - (if x = p_ucred st p then 1 else 0)" for x
  proof -
    have "procs st = insert p (procs st')" using p P by auto
    then have "card {a \<in> procs st. p_ucred st a = x} = card {a \<in> procs st'. p_ucred st a = x} + (if p_ucred st p = x then 1 else 0)"
      using card_insert_if_pred [OF finite_procs, of p st' "\<lambda>a. p_ucred st a = x"] P by simp
    moreover have "{a \<in> procs st'. p_ucred st a = x} = {a \<in> procs st'. p_ucred st' a = x}" using u P by auto
    ultimately show ?thesis by (auto simp: cred_refs_def)
  qed
qed (use P o in auto)

section \<open>The boot\<close>

text \<open>The kernel's memory before \<open>main\<close>, all zero but for the configuration.\<close>

definition zero_proc :: proc where
  "zero_proc = \<lparr>p_pid = 0, p_stat = SIDL, p_flag = {}, p_pptr = 0, p_cptr = [], p_pgrp = 0, p_oppid = 0, p_xstat = 0, p_acflag = {},
     p_cred = \<lparr>pc_ucred = 0, p_ruid = 0, p_svuid = 0, p_rgid = 0, p_svgid = 0, p_refcnt = 0\<rparr>\<rparr>"

definition bss :: "int \<Rightarrow> int \<Rightarrow> int \<Rightarrow> pstate" where
  "bss maxp pmask umask =
     \<lparr>pmem = (\<lambda>_. zero_proc), allproc = [], zombproc = [], pidhash = (\<lambda>_. []),
      pgmem = (\<lambda>_. \<lparr>pg_mem = [], pg_session = 0, pg_id = 0, pg_jobc = 0\<rparr>), pgrphash = (\<lambda>_. []),
      semem = (\<lambda>_. \<lparr>s_count = 0, s_leader = 0, s_ttyvp = 0, s_ttyp = 0, s_login = []\<rparr>), selive = [],
      ttmem = (\<lambda>_. \<lparr>t_pgrp = 0, t_session = 0\<rparr>),
      crmem = (\<lambda>_. \<lparr>cr_ref = 0, cr_uid = 0, cr_ngroups = 0, cr_groups = replicate (nat NGROUPS) 0\<rparr>), crlive = [],
      uihashtbl = (\<lambda>_. []), uihash = umask, pidhashmask = pmask, nextpid = 0, pidchecked = 0, nprocs = 1, maxproc = maxp,
      curproc = 0, initproc = 0, pevents = []\<rparr>"

text \<open>The part of \<open>main\<close> about process 0; the arguments are the addresses of \<open>proc0\<close>, \<open>pgrp0\<close> and
  \<open>session0\<close> and that of the credentials allocated.\<close>

definition main_proc0 :: "addr \<Rightarrow> addr \<Rightarrow> addr \<Rightarrow> addr \<Rightarrow> pstate \<Rightarrow> pstate" where
  "main_proc0 p pg s cr st =
     (let st = st\<lparr>curproc := p, allproc := [p]\<rparr>;
          st = upd_proc p (\<lambda>q. q\<lparr>p_pgrp := pg\<rparr>) st;
          st = st\<lparr>pgrphash := (pgrphash st)(0 := [pg])\<rparr>;
          st = upd_pgrp pg (\<lambda>g. g\<lparr>pg_mem := [p], pg_session := s\<rparr>) st;
          st = upd_sess s (\<lambda>s. s\<lparr>s_count := 1, s_leader := p\<rparr>) (st\<lparr>selive := [s]\<rparr>);
          st = upd_proc p (\<lambda>q. q\<lparr>p_flag := {SLOAD, SSYS}, p_stat := SRUN\<rparr>) st;
          st = upd_pcred p (\<lambda>c. c\<lparr>p_refcnt := 1, pc_ucred := cr\<rparr>) (crget cr st)
      in upd_cred cr (\<lambda>c. c\<lparr>cr_ngroups := 1\<rparr>) st)"

text \<open>Then root is charged for it, and \<open>init\<close> is made and runs first.\<close>

definition main_boot :: "addr \<Rightarrow> addr \<Rightarrow> addr \<Rightarrow> addr \<Rightarrow> addr \<Rightarrow> int \<Rightarrow> pstate \<Rightarrow> pstate kres" where
  "main_boot p pg s cr p1 rlim st =
     bindE (chgproccnt 0 1 (main_proc0 p pg s cr st)) (\<lambda>(st, _).
     bindE (fork p rlim p1 st) (\<lambda>(st, r).
       case r of
         Inl e \<Rightarrow> Inl (Panic ''fork init'')
       | Inr pid \<Rightarrow> Inr (st\<lparr>curproc := p1, initproc := p1\<rparr>)))"

lemma boot_search: "pid_search [(0, 0)] 1 0 = Some (1, PID_MAX)"
proof -
  have "pid_bump 0 0 1 PID_MAX = (1, False)" by (simp add: pid_bump.simps)
  then show ?thesis by (subst pid_search.simps) (simp add: PID_MAX_def)
qed

lemma main_boot_eff:
  fixes p pg s cr p1 :: addr and maxp pmask umask :: int
  assumes a: "p1 \<noteq> p" and m: "2 \<le> maxp"
  defines "st0 \<equiv> main_proc0 p pg s cr (bss maxp pmask umask)"
  shows "\<exists>T. main_boot p pg s cr p1 rlim (bss maxp pmask umask)
      = Inr ((fork_link p p1 1 False (st0\<lparr>uihashtbl := T, nextpid := 1, pidchecked := PID_MAX\<rparr>))\<lparr>curproc := p1, initproc := p1\<rparr>)
    \<and> T = (\<lambda>k. if k = 0 then [(0, 2)] else [])"
proof -
  define z where "z = UIHASH st0 0"
  have z: "z = 0" "\<And>T. UIHASH (st0\<lparr>uihashtbl := T\<rparr>) 0 = 0" by (simp_all add: z_def UIHASH_def)
  have u0: "uihashtbl st0 = (\<lambda>_. [])" by (simp add: st0_def main_proc0_def bss_def upd_simps Let_def upd_pcred_def crget_def)
  have c1: "chgproccnt 0 1 st0 = Inr (st0\<lparr>uihashtbl := (\<lambda>_. [])(0 := [(0, 1)])\<rparr>, 1)"
    by (simp add: chgproccnt_def Let_def set_chain_def u0 z_def [symmetric] z)
  define st1 where "st1 = st0\<lparr>uihashtbl := (\<lambda>_. [])(0 := [(0, 1)])\<rparr>"
  have s1: "p_ruid (p_cred (pmem st1 p)) = 0" "maxproc st1 = maxp" "nprocs st1 = 1" "nextpid st1 = 0" "pidchecked st1 = 0" "pids_used st1 = [(0, 0)]"
    by (simp_all add: st1_def st0_def main_proc0_def bss_def upd_simps Let_def upd_pcred_def crget_def zero_proc_def pids_used_def p_pgid_def)
  have c2: "chgproccnt 0 1 st1 = Inr (st1\<lparr>uihashtbl := (\<lambda>_. [])(0 := [(0, 2)])\<rparr>, 2)"
    using z by (simp add: chgproccnt_def Let_def set_chain_def st1_def)
  have "fork p rlim p1 st1 = Inr (fork_link p p1 1 False (st1\<lparr>uihashtbl := (\<lambda>_. [])(0 := [(0, 2)]), nextpid := 1, pidchecked := PID_MAX\<rparr>), Inr 1)"
    using m boot_search s1 by (simp add: fork_def fork1_def Let_def c2 uihashtbl_inv)
  then have "main_boot p pg s cr p1 rlim (bss maxp pmask umask)
      = Inr ((fork_link p p1 1 False (st0\<lparr>uihashtbl := (\<lambda>_. [])(0 := [(0, 2)]), nextpid := 1, pidchecked := PID_MAX\<rparr>))\<lparr>curproc := p1, initproc := p1\<rparr>)"
    by (simp add: main_boot_def st0_def [symmetric] c1 st1_def [symmetric]) (simp add: st1_def)
  moreover have "(\<lambda>_. [])(0 := [(0, 2)]) = (\<lambda>k :: int. if k = 0 then [(0 :: int, 2 :: int)] else [])" by auto
  ultimately show ?thesis by metis
qed

lemma main_boot_ok:
  fixes p pg s cr p1 :: addr and maxp pmask umask :: int
  assumes a: "p1 \<noteq> p" "p \<noteq> 0" "p1 \<noteq> 0" "s \<noteq> 0" and m: "2 \<le> maxp" and b: "main_boot p pg s cr p1 rlim (bss maxp pmask umask) = Inr st"
  shows "proc_ok st" "creds_ok (\<lambda>_. 0) st" "maxproc st = maxp"
proof -
  define st0 where "st0 = main_proc0 p pg s cr (bss maxp pmask umask)"
  define T where "T = (\<lambda>k :: int. if k = 0 then [(0 :: int, 2 :: int)] else [])"
  define st1 where "st1 = st0\<lparr>uihashtbl := T, nextpid := 1, pidchecked := PID_MAX\<rparr>"
  have st: "st = (fork_link p p1 1 False st1)\<lparr>curproc := p1, initproc := p1\<rparr>"
    using main_boot_eff [OF a(1) m, of pg s cr rlim pmask umask] b unfolding T_def [symmetric] st0_def [symmetric] st1_def by auto
  have s0: "pmem st1 p = zero_proc\<lparr>p_flag := {SLOAD, SSYS}, p_stat := SRUN, p_pgrp := pg, p_cred := (p_cred zero_proc)\<lparr>pc_ucred := cr, p_refcnt := 1\<rparr>\<rparr>"
    "allproc st1 = [p]" "zombproc st1 = []" "pidhash st1 k = []" "pgmem st1 pg = \<lparr>pg_mem = [p], pg_session = s, pg_id = 0, pg_jobc = 0\<rparr>"
    "pgrphash st1 k = (if k = 0 then [pg] else [])" "s_count (semem st1 s) = 1" "s_leader (semem st1 s) = p" "selive st1 = [s]" "nprocs st1 = 1" "maxproc st1 = maxp"
    "nextpid st1 = 1" "pidchecked st1 = PID_MAX" "uihashtbl st1 = T" "crlive st1 = [cr]" "crmem st1 cr = \<lparr>cr_ref = 1, cr_uid = 0, cr_ngroups = 1, cr_groups = replicate (nat NGROUPS) 0\<rparr>"
    for k
    by (simp_all add: st1_def st0_def main_proc0_def bss_def upd_simps Let_def upd_pcred_def crget_def zero_proc_def)
  note f = fork_link_sel [OF a(1) [symmetric], where pid = 1 and v = False and st = st1] fork_child_sel
  have p0: "p_pid (pmem st p) = 0" "p_pptr (pmem st p) = 0" "p_cptr (pmem st p) = [p1]" "p_pgrp (pmem st p) = pg" "p_oppid (pmem st p) = 0"
    "p_stat (pmem st p) = SRUN" "p_cred (pmem st p) = (p_cred zero_proc)\<lparr>pc_ucred := cr, p_refcnt := 1\<rparr>"
    using a by (simp_all add: st f s0 zero_proc_def)
  have p1: "p_pid (pmem st p1) = 1" "p_pptr (pmem st p1) = p" "p_cptr (pmem st p1) = []" "p_pgrp (pmem st p1) = pg" "p_oppid (pmem st p1) = 0"
    "p_stat (pmem st p1) = SRUN" "p_cred (pmem st p1) = (p_cred zero_proc)\<lparr>pc_ucred := cr, p_refcnt := 1\<rparr>"
    using a by (simp_all add: st f s0 zero_proc_def)
  have g: "pgmem st pg = \<lparr>pg_mem = [p, p1], pg_session = s, pg_id = 0, pg_jobc = 0\<rparr>" by (simp add: st f s0)
  have h: "PIDHASH st 0 = 0" "PIDHASH st n = PIDHASH st1 n" for n by (simp_all add: PIDHASH_def st f)
  have r: "allproc st = [p1, p]" "zombproc st = []" "pidhash st k = (if k = PIDHASH st 1 then [p1] else [])" "pgrphash st k = (if k = 0 then [pg] else [])"
    "s_count (semem st s) = 1" "s_leader (semem st s) = p" "selive st = [s]" "nprocs st = 2" "nextpid st = 1" "pidchecked st = PID_MAX" "uihashtbl st = T" "crlive st = [cr]"
    "crmem st cr = \<lparr>cr_ref = 2, cr_uid = 0, cr_ngroups = 1, cr_groups = replicate (nat NGROUPS) 0\<rparr>" "initproc st = p1" "maxproc st = maxp" for k
    by (simp_all add: h(2)) (simp_all add: st f s0 p_ucred_def cr_ushort_def)
  have P: "procs st = {p1, p}" by (auto simp: procs_def r)
  have G: "groups st = {pg}" by (auto simp: groups_def r)
  have se: "p_session st p = s" "p_session st p1 = s" "p_pgid st p = 0" "p_pgid st p1 = 0" by (simp_all add: p_session_def p_pgid_def p0 p1 g)
  show "maxproc st = maxp" by (rule r)
  have "p_pptr (pmem st x) \<in> set zs" if "[p1, p] = ys @ x # zs" "zs \<noteq> []" for ys x zs
    using that p1(2) by (cases ys) (auto simp: Cons_eq_append_conv)
  then have "links_ok st" unfolding links_ok_def P r(1,2,8,14) using a p0 p1 by auto
  moreover have "pids_ok st" unfolding pids_ok_def P G using a p0 p1 g by (auto simp: r PID_MAX_def)
  moreover have "groups_ok st" unfolding groups_ok_def groups_wf_def P G using a p0 p1 g h(1) by (auto simp: r PID_MAX_def)
  moreover have "sessions_ok st"
  proof -
    have "{x \<in> groups st. pg_session (pgmem st x) = s} = {pg}" using g G by auto
    then have "counts_ok st" unfolding counts_ok_def r(7) using a(4) g G by (simp add: r)
    moreover have "leaders_ok st" unfolding leaders_ok_def P G using p0 p1 g se by (auto simp: r)
    ultimately show ?thesis by (simp add: sessions_ok_def)
  qed
  moreover have "boot_ok st" by (simp add: boot_ok_def r se)
  moreover have "jobc_ok st" using g G se by (simp add: jobc_ok_def boot_sessions_def r)
  moreover have "users_ok st"
  proof -
    have c: "{x \<in> procs st. p_ruid (p_cred (pmem st x)) = u} = (if u = 0 then {p1, p} else {})" for u
      using P p0(7) p1(7) by (auto simp: zero_proc_def)
    have "UIHASH st 0 = 0" by (simp add: UIHASH_def)
    then show ?thesis unfolding users_ok_def c r(11) T_def using a(1) by auto
  qed
  ultimately show "proc_ok st" by (simp add: proc_ok_def)
  have u: "p_ucred st p = cr" "p_ucred st p1 = cr" by (simp_all add: p_ucred_def p0 p1)
  then have "{x \<in> procs st. p_ucred st x = cr} = {p1, p}" using P by auto
  then have "cred_refs (\<lambda>_. 0) st cr = 2" using a(1) by (simp add: cred_refs_def)
  then show "creds_ok (\<lambda>_. 0) st" unfolding creds_ok_def P r(12) using u p0(7) p1(7) by (simp add: r)
qed

section \<open>System calls\<close>

datatype pcall =
  Fork bool int addr
| Exit int
| Wait int "waitopt set" "errno option" "errno option"
| Setsid addr addr
| Setpgid int int addr
| Ids idcall addr
| Setlogin "errno option \<times> string"
| Trace_me

text \<open>A call of the current process, without the value it returns. The addresses are those of
  the structures allocated.\<close>

fun sys_call :: "pcall \<Rightarrow> pstate \<Rightarrow> pstate kres" where
  "sys_call (Fork isvfork rlim p2) st = bindE (fork1 (curproc st) isvfork rlim p2 st) (\<lambda>(st, _). Inr st)"
| "sys_call (Exit rv) st = exit (curproc st) rv st"
| "sys_call (Wait pid options status rusage) st = bindE (wait1 (curproc st) pid options status rusage st) (\<lambda>(st, _). Inr st)"
| "sys_call (Setsid npg nse) st = bindE (setsid (curproc st) npg nse st) (\<lambda>(st, _). Inr st)"
| "sys_call (Setpgid pid pgid npg) st = bindE (setpgid (curproc st) pid pgid npg st) (\<lambda>(st, _). Inr st)"
| "sys_call (Ids c ncr) st = bindE (id_call c (curproc st) ncr st) (\<lambda>(st, _). Inr st)"
| "sys_call (Setlogin c) st = Inr (fst (setlogin (curproc st) c st))"
| "sys_call Trace_me st = bindE (ptrace (curproc st) PT_TRACE_ME 0 st) (\<lambda>(st, _). Inr st)"

text \<open>New structures do not overlap live ones, and a reference more does not overflow the count.\<close>

fun call_wf :: "pcall \<Rightarrow> pstate \<Rightarrow> bool" where
  "call_wf (Fork isvfork rlim p2) st = (p2 \<notin> procs st \<and> p2 \<noteq> 0 \<and> cr_ref (crmem st (p_ucred st (curproc st))) < 65535)"
| "call_wf (Setsid npg nse) st = (npg \<notin> groups st \<and> nse \<notin> set (selive st) \<and> nse \<noteq> 0)"
| "call_wf (Setpgid pid pgid npg) st = (npg \<notin> groups st)"
| "call_wf (Ids c ncr) st = (ncr \<notin> set (crlive st) \<and> idcall_wf c)"
| "call_wf _ st = True"

text \<open>The swapper only forks.\<close>

definition may_call :: "pcall \<Rightarrow> pstate \<Rightarrow> bool" where
  "may_call c st \<longleftrightarrow>
     curproc st \<in> set (allproc st) \<and> call_wf c st \<and> (curproc st = last (allproc st) \<longrightarrow> (\<exists>rlim p2. c = Fork False rlim p2))"

text \<open>\<open>h\<close> counts the references to credentials held outside processes. In between calls the kernel switches
  processes, changes the state and flags of a process that is not a zombie, takes and drops references, and
  gives sessions terminals.\<close>

inductive proc_step :: "pstate \<times> (addr \<Rightarrow> nat) \<Rightarrow> pstate \<times> (addr \<Rightarrow> nat) \<Rightarrow> bool" where
  call: "may_call c st \<Longrightarrow> sys_call c st = Inr st' \<Longrightarrow> proc_step (st, h) (st', h)"
| switch: "p \<in> set (allproc st) \<Longrightarrow> proc_step (st, h) (st\<lparr>curproc := p\<rparr>, h)"
| status: "p \<in> set (allproc st) \<Longrightarrow> s \<noteq> SZOMB \<Longrightarrow>
    proc_step (st, h) (upd_proc p (\<lambda>q. q\<lparr>p_stat := s, p_flag := f, p_xstat := x\<rparr>) st, h)"
| hold: "c \<in> set (crlive st) \<Longrightarrow> cr_ref (crmem st c) < 65535 \<Longrightarrow> proc_step (st, h) (crhold c st, h(c := h c + 1))"
| free: "h c \<noteq> 0 \<Longrightarrow> proc_step (st, h) (crfree c st, h(c := h c - 1))"
| terminal: "proc_step (st, h) (upd_sess s (\<lambda>q. q\<lparr>s_ttyvp := v, s_ttyp := t\<rparr>) (st\<lparr>ttmem := m\<rparr>), h)"

inductive proc_reach :: "int \<Rightarrow> pstate \<times> (addr \<Rightarrow> nat) \<Rightarrow> bool" for maxp where
  boot: "main_boot p pg s cr p1 rlim (bss maxp pmask umask) = Inr st \<Longrightarrow> distinct [p, p1, 0] \<Longrightarrow> s \<noteq> 0
    \<Longrightarrow> proc_reach maxp (st, \<lambda>_. 0)"
| step: "proc_reach maxp sh \<Longrightarrow> proc_step sh sh' \<Longrightarrow> proc_reach maxp sh'"

inductive_cases proc_stepE: "proc_step (st, h) sh'"

section \<open>Calls keep the invariant\<close>

lemma creds_cong_view:
  assumes "creds_ok held st" "crmem st' = crmem st" "crlive st' = crlive st" "procs st' = procs st" "\<And>a. p_cred (pmem st' a) = p_cred (pmem st a)"
  shows "creds_ok held st'"
  by (rule creds_ok_cong [OF assms(1-4)]) (simp add: assms(5))

lemma fork_call:
  assumes ok: "proc_ok st" "creds_ok h st" and p: "p \<in> set (allproc st)" and w: "p2 \<notin> procs st" "p2 \<noteq> 0" "cr_ref (crmem st (p_ucred st p)) < 65535"
    and e: "fork1 p v rlim p2 st = Inr (st', r)"
  shows "proc_ok st' \<and> creds_ok h st'"
proof -
  let ?u = "p_ruid (p_cred (pmem st p))"
  have ch: "chains_ok st" using ok(1) by (simp add: proc_ok_def users_ok_iff)
  have nn: "0 \<le> ucount st ?u + 1" using ok(1) by (simp add: proc_ok_def users_ok_iff)
  have ret: "pid_search (pids_used st) (nextpid st + 1) (pidchecked st) \<noteq> None"
    if l: "nprocs st < maxproc st" "\<not> (?u \<noteq> 0 \<and> rlim \<le> ucount st ?u)"
  proof
    assume n: "pid_search (pids_used st) (nextpid st + 1) (pidchecked st) = None"
    obtain T where "chgproccnt ?u 1 st = Inr (st\<lparr>uihashtbl := T\<rparr>, ucount st ?u + 1)" using chgproccnt_ok [OF ch nn] by blast
    then have "fork1 p v rlim p2 st = Inl Loops" using l n by (auto simp: fork1_def Let_def uihashtbl_inv)
    then show False using e by simp
  qed
  have pp: "p \<in> procs st" using p by (simp add: procs_def)
  obtain st1 r1 where f: "fork1 p v rlim p2 st = Inr (st1, r1)" "proc_ok st1"
    "if maxproc st \<le> nprocs st \<or> ?u \<noteq> 0 \<and> rlim \<le> ucount st ?u
       then r1 = Inl EAGAIN \<and> (\<exists>T E. st1 = st\<lparr>uihashtbl := T, pevents := E\<rparr>)
       else \<exists>T pid c. r1 = Inr pid \<and> pid_fresh (pids_used st) pid c
         \<and> st1 = fork_link p p2 pid v (st\<lparr>uihashtbl := T, nextpid := pid, pidchecked := c\<rparr>)"
    using fork1_ok [where v = v and rlim = rlim, OF ok(1) p w(1,2) ret] by blast
  have s: "st' = st1" using e f(1) by simp
  have "creds_ok h st1"
  proof (cases "maxproc st \<le> nprocs st \<or> ?u \<noteq> 0 \<and> rlim \<le> ucount st ?u")
    case True
    then obtain T E where "st1 = st\<lparr>uihashtbl := T, pevents := E\<rparr>" using f(3) by auto
    then show ?thesis using creds_cong_view [OF ok(2), of st1] by (simp add: procs_def)
  next
    case False
    then obtain T pid c where t: "st1 = fork_link p p2 pid v (st\<lparr>uihashtbl := T, nextpid := pid, pidchecked := c\<rparr>)" using f(3) by auto
    define st2 where "st2 = st\<lparr>uihashtbl := T, nextpid := pid, pidchecked := c\<rparr>"
    have "procs st2 = procs st" "crmem st2 = crmem st" "crlive st2 = crlive st" "pmem st2 = pmem st" "p_ucred st2 p = p_ucred st p"
      by (simp_all add: st2_def procs_def p_ucred_def)
    then show ?thesis using creds_fork [of h st2 p p2 pid v] creds_cong_view [OF ok(2), of st2] pp w by (simp add: t st2_def)
  qed
  then show ?thesis using f(2) s by simp
qed

lemma exit_call:
  assumes ok: "proc_ok st" "creds_ok h st" and p: "p \<in> set (allproc st)" "p \<noteq> last (allproc st)" and e: "exit p rv st = Inr st'"
  shows "proc_ok st' \<and> creds_ok h st'"
proof -
  have o: "links_ok st" using ok(1) by (simp add: proc_ok_def)
  have "p \<noteq> initproc st" using e links_okD(6) [OF o] by (auto simp: exit_def)
  then have m: "may_exit st p" using p by (simp add: may_exit_def)
  then have x: "proc_ok st'" "exited p rv st st'" using exit_ok [OF ok(1) m, of rv] e by auto
  then have "creds_ok h st'"
    using creds_cong_view [OF ok(2), of st'] exit_frame(1,7) [OF o m x(2)] exitedD(9,10) [OF x(2)] by blast
  then show ?thesis using x by blast
qed

lemma wait_call:
  assumes ok: "proc_ok st" "creds_ok h st" and q: "q \<in> set (allproc st)" and e: "wait1 q pid options status rusage st = Inr (st', r)"
  shows "proc_ok st' \<and> creds_ok h st'"
proof -
  have o: "links_ok st" using ok(1) by (simp add: proc_ok_def)
  let ?w = "if pid = 0 then - p_pgid st q else pid"
  let ?c = "List.find (\<lambda>p. wait_match st ?w p \<and> wait_reports st options p) (p_cptr (pmem st q))"
  note w = wait1_ok [OF ok(1) q, of pid options status rusage]
  show ?thesis
  proof (cases ?c)
    case None
    then have "st' = st" using w e by (auto split: if_splits)
    then show ?thesis using ok by blast
  next
    case (Some p)
    then have f: "wait_report p status rusage st = Inr (st', r)" "proc_ok st'" using w e by auto
    have "p \<in> set (p_cptr (pmem st q))" using Some by (auto dest: find_Some)
    moreover have "q \<in> procs st" using q by (simp add: procs_def)
    ultimately have pp: "p \<in> procs st" using links_okD(10) [OF o] by auto
    have "creds_ok h st'"
    proof (cases "st' = st \<or> p_stat (pmem st p) \<noteq> SZOMB")
      case True
      then have "st' = st \<or> st' = upd_proc p (\<lambda>p. p\<lparr>p_flag := p_flag p \<union> {SWTED}\<rparr>) st"
        using f(1) by (auto simp: wait_report_def)
      then show ?thesis using ok(2) creds_cong_view [OF ok(2), of st'] by (auto simp: upd_simps procs_def)
    next
      case False
      then obtain st1 where z: "wait_zombie p st = Inr st1" "st' = st1"
        using f(1) by (auto simp: wait_report_def split: option.splits if_splits)
      have "p \<in> set (zombproc st)" using links_okD(9) [OF o pp] False by simp
      then show ?thesis
        using wait_zombie_ok [OF ok(1), of p] z creds_okD(2) [OF ok(2) pp] by (intro creds_wait [OF ok(2) pp]) auto
    qed
    then show ?thesis using f(2) by blast
  qed
qed

lemma creds_same_ok: "creds_ok h st \<Longrightarrow> creds_same st st' \<Longrightarrow> creds_ok h st'"
  by (rule creds_cong_view) (simp_all add: creds_same_def)

lemma sess_frame_ok:
  assumes "\<And>s. s_count (f s) = s_count s \<and> s_leader (f s) = s_leader s"
  shows "proc_ok (upd_sess a f st) = proc_ok st" "creds_ok h (upd_sess a f st) = creds_ok h st"
proof -
  show "proc_ok (upd_sess a f st) = proc_ok st"
    by (rule same_view_proc_ok) (simp_all add: same_view_def upd_simps assms)
  have p: "procs (upd_sess a f st) = procs st" by (simp add: procs_def upd_simps)
  have "p_ucred (upd_sess a f st) q = p_ucred st q" for q by (simp add: p_ucred_def upd_simps)
  then show "creds_ok h (upd_sess a f st) = creds_ok h st" by (simp add: creds_ok_def cred_refs_def p upd_simps)
qed

lemma proc_frame_ok:
  assumes "\<And>q. p_pid (f q) = p_pid q \<and> p_pptr (f q) = p_pptr q \<and> p_cptr (f q) = p_cptr q \<and> p_pgrp (f q) = p_pgrp q \<and> p_oppid (f q) = p_oppid q
      \<and> p_cred (f q) = p_cred q" "p_stat (f (pmem st p)) = SZOMB \<longleftrightarrow> p_stat (pmem st p) = SZOMB"
  shows "proc_ok (upd_proc p f st) = proc_ok st" "creds_ok h st \<Longrightarrow> creds_ok h (upd_proc p f st)"
proof -
  show "proc_ok (upd_proc p f st) = proc_ok st"
    by (rule same_view_proc_ok) (simp_all add: same_view_def upd_simps assms)
  show "creds_ok h st \<Longrightarrow> creds_ok h (upd_proc p f st)"
    by (erule creds_cong_view) (simp_all add: upd_simps procs_def assms)
qed

lemma setlogin_call:
  assumes ok: "proc_ok st" "creds_ok h st"
  shows "proc_ok (fst (setlogin p c st)) \<and> creds_ok h (fst (setlogin p c st))"
proof -
  obtain e st1 where s: "suser (p_ucred st p) (Some p) st = (e, st1)" by fastforce
  then have "st1 = st \<or> st1 = upd_proc p (\<lambda>p. p\<lparr>p_acflag := p_acflag p \<union> {ASU}\<rparr>) st" by (auto simp: suser_def split: if_splits)
  then have o: "proc_ok st1" "creds_ok h st1" using ok proc_frame_ok [where f = "\<lambda>p. p\<lparr>p_acflag := p_acflag p \<union> {ASU}\<rparr>" and p = p and st = st] by auto
  show ?thesis using o by (simp add: setlogin_def s Let_def sess_frame_ok split: prod.split)
qed

lemma sys_call_ok:
  assumes ok: "proc_ok st" "creds_ok h st" and c: "may_call c st" and e: "sys_call c st = Inr st'"
  shows "proc_ok st' \<and> creds_ok h st'"
proof -
  let ?p = "curproc st"
  have p: "?p \<in> set (allproc st)" "call_wf c st" and sw: "?p = last (allproc st) \<Longrightarrow> \<exists>rlim p2. c = Fork False rlim p2"
    using c by (auto simp: may_call_def)
  have pp: "?p \<in> procs st" using p(1) by (simp add: procs_def)
  show ?thesis
  proof (cases c)
    case (Fork v rlim p2)
    then show ?thesis using e p fork_call [OF ok p(1)] by auto
  next
    case (Exit rv)
    then show ?thesis using e sw exit_call [OF ok p(1)] by auto
  next
    case (Wait pid options status rusage)
    then show ?thesis using e wait_call [OF ok p(1)] by auto
  next
    case (Setsid npg nse)
    then have n: "?p \<noteq> last (allproc st)" "npg \<notin> groups st" "nse \<notin> set (selive st)" "nse \<noteq> 0" using p(2) sw by auto
    then show ?thesis using setsid_ok [OF ok(1) p(1) n(1) refl n(2-4)] creds_same_ok [OF ok(2)] e Setsid by auto
  next
    case (Setpgid pid pgid npg)
    then have n: "?p \<noteq> last (allproc st)" "npg \<notin> groups st" using p(2) sw by auto
    then show ?thesis using setpgid_ok [OF ok(1) p(1) n(1) refl n(2), of pid pgid] creds_same_ok [OF ok(2)] e Setpgid by auto
  next
    case (Ids i ncr)
    then have n: "ncr \<notin> set (crlive st)" "idcall_wf i" using p(2) by auto
    show ?thesis using id_call_ok [OF ok pp n] e Ids by (auto simp: id_keeps_def)
  next
    case (Setlogin x)
    then show ?thesis using setlogin_call [OF ok, of ?p x] e by simp
  next
    case Trace_me
    then have "st' = upd_proc ?p (\<lambda>p. p\<lparr>p_flag := p_flag p \<union> {STRC}\<rparr>) st" using e by (simp add: ptrace_def)
    then show ?thesis using ok proc_frame_ok [where f = "\<lambda>p. p\<lparr>p_flag := p_flag p \<union> {STRC}\<rparr>" and p = ?p and st = st] by simp
  qed
qed

section \<open>Every state reached\<close>

lemma creds_hold:
  assumes ok: "creds_ok h st" and c: "c \<in> set (crlive st)" "cr_ref (crmem st c) < 65535"
  shows "creds_ok (h(c := h c + 1)) (crhold c st)"
proof -
  note b = creds_okD [OF ok]
  have p: "procs (crhold c st) = procs st" "p_ucred (crhold c st) a = p_ucred st a" "pmem (crhold c st) = pmem st" "crlive (crhold c st) = crlive st" for a
    by (simp_all add: procs_def p_ucred_def crhold_def upd_simps)
  have m: "crmem (crhold c st) x = (if x = c then (crmem st x)\<lparr>cr_ref := cr_ref (crmem st x) + 1\<rparr> else crmem st x)" for x
    using c b(6) [OF c(1)] cr_ushort_id [of "cr_ref (crmem st c) + 1"] by (simp add: crhold_def upd_cred_def)
  have r: "cred_refs (h(c := h c + 1)) (crhold c st) x = cred_refs h st x + (if x = c then 1 else 0)" for x
    by (simp add: cred_refs_def p)
  have "cr_ref (crmem (crhold c st) x) = cred_refs (h(c := h c + 1)) (crhold c st) x \<and> 0 < cr_ref (crmem (crhold c st) x)
      \<and> cr_ref (crmem (crhold c st) x) < 65536 \<and> length (cr_groups (crmem (crhold c st) x)) = nat NGROUPS" if "x \<in> set (crlive st)" for x
    unfolding m r using b(5-8) [OF that] c(2) by auto
  moreover have "x \<in> set (crlive st)" if "(h(c := h c + 1)) x \<noteq> 0" for x
    using that b(4) [of x] c(1) by (cases "x = c") auto
  ultimately show ?thesis unfolding creds_ok_def p using b(1-3) by blast
qed

lemma creds_free:
  assumes ok: "creds_ok h st" and c: "h c \<noteq> 0"
  shows "creds_ok (h(c := h c - 1)) (crfree c st)"
proof (rule creds_drop [OF ok creds_okD(4) [OF ok c] refl refl])
  have p: "procs (crfree c st) = procs st" "p_ucred (crfree c st) a = p_ucred st a" "pmem (crfree c st) = pmem st" for a
    by (simp_all add: procs_def p_ucred_def crfree_def Let_def upd_simps)
  show "procs (crfree c st) \<subseteq> procs st" "\<And>a. a \<in> procs (crfree c st) \<Longrightarrow> p_cred (pmem (crfree c st) a) = p_cred (pmem st a)"
    by (simp_all add: p)
  show "cred_refs (h(c := h c - 1)) (crfree c st) x = cred_refs h st x - (if x = c then 1 else 0)" for x
    using c by (simp add: cred_refs_def p of_nat_diff)
qed simp

lemma proc_step_ok:
  assumes "proc_step (st, h) (st', h')" and ok: "proc_ok st" "creds_ok h st"
  shows "proc_ok st' \<and> creds_ok h' st'"
  using assms(1)
proof (cases rule: proc_step.cases)
  case (call c)
  then show ?thesis using sys_call_ok [OF ok] by auto
next
  case (switch p)
  have "creds_ok h (st\<lparr>curproc := p\<rparr>)" by (rule creds_cong_view [OF ok(2)]) (simp_all add: procs_def)
  then show ?thesis using switch ok(1) curproc_ok by simp
next
  case (status p s x f)
  have l: "links_ok st" using ok(1) by (simp add: proc_ok_def)
  have "p_stat (pmem st p) \<noteq> SZOMB" using links_okD(3,9) [OF l] status(3) by (auto simp: procs_def)
  then show ?thesis
    using status ok proc_frame_ok [where f = "\<lambda>q. q\<lparr>p_stat := s, p_flag := f, p_xstat := x\<rparr>" and p = p and st = st] by auto
next
  case (hold c)
  have "proc_ok (crhold c st)" using ok(1) same_view_proc_ok [of st "crhold c st"] by (simp add: same_view_def crhold_def upd_simps)
  then show ?thesis using hold creds_hold [OF ok(2)] by simp
next
  case (free c)
  have "proc_ok (crfree c st)" using ok(1) same_view_proc_ok [of st "crfree c st"] by (simp add: same_view_def crfree_def Let_def upd_simps)
  then show ?thesis using free creds_free [OF ok(2)] by simp
next
  case (terminal s v t m)
  have "proc_ok (st\<lparr>ttmem := m\<rparr>)" using ok(1) same_view_proc_ok [of st "st\<lparr>ttmem := m\<rparr>"] by (simp add: same_view_def)
  moreover have "creds_ok h (st\<lparr>ttmem := m\<rparr>)" by (rule creds_cong_view [OF ok(2)]) (simp_all add: procs_def)
  ultimately show ?thesis using terminal by (simp add: sess_frame_ok)
qed

lemma main_boot_room:
  assumes "main_boot p pg s cr p1 rlim (bss maxp pmask umask) = Inr st" "p1 \<noteq> p"
  shows "2 \<le> maxp"
proof (rule ccontr)
  assume m: "\<not> 2 \<le> maxp"
  define st0 where "st0 = main_proc0 p pg s cr (bss maxp pmask umask)"
  have s0: "uihashtbl st0 = (\<lambda>_. [])" "maxproc st0 = maxp" "nprocs st0 = 1"
    by (simp_all add: st0_def main_proc0_def bss_def upd_simps Let_def upd_pcred_def crget_def)
  have "chgproccnt 0 1 st0 = Inr (st0\<lparr>uihashtbl := (\<lambda>_. [])(UIHASH st0 0 := [(0, 1)])\<rparr>, 1)"
    by (simp add: chgproccnt_def Let_def set_chain_def s0)
  then obtain T where "chgproccnt 0 1 st0 = Inr (st0\<lparr>uihashtbl := T\<rparr>, 1)" by blast
  then have "main_boot p pg s cr p1 rlim (bss maxp pmask umask) = Inl (Panic ''fork init'')"
    using m s0 by (simp add: main_boot_def st0_def [symmetric] fork_def fork1_def Let_def)
  then show False using assms(1) by simp
qed

lemma proc_reach_inv: "proc_reach maxp sh \<Longrightarrow> proc_ok (fst sh) \<and> creds_ok (snd sh) (fst sh)"
proof (induction rule: proc_reach.induct)
  case (boot p pg s cr p1 rlim pmask umask st)
  then have "p1 \<noteq> p" by simp
  then show ?case using boot main_boot_ok(1,2) [OF _ _ _ _ main_boot_room boot(1)] by simp
next
  case (step sh sh')
  then show ?case using proc_step_ok [of "fst sh" "snd sh" "fst sh'" "snd sh'"] by simp
qed

end
