(* ===== verification/Proc_Trace.thy ===== *)
theory Proc_Trace
  imports Proc_Wait
begin

text \<open>
  \<open>wait\<close> when processes are traced. \<open>untraced\<close> forgets who traces whom, and the invariant is
  asked of the state without that; a zombie that was attached goes back to the process it was taken
  from, if that still exists, and is freed otherwise as if it had never been traced.
\<close>

definition set_oppids :: "(addr \<Rightarrow> int) \<Rightarrow> pstate \<Rightarrow> pstate" where
  "set_oppids f st = st\<lparr>pmem := \<lambda>a. (pmem st a)\<lparr>p_oppid := f a\<rparr>\<rparr>"

definition untraced :: "pstate \<Rightarrow> pstate" where
  "untraced = set_oppids (\<lambda>_. 0)"

lemma set_oppids_sel [simp]:
  "pgmem (set_oppids f st) = pgmem st"
  "allproc (set_oppids f st) = allproc st" "zombproc (set_oppids f st) = zombproc st" "pidhash (set_oppids f st) = pidhash st"
  "pgrphash (set_oppids f st) = pgrphash st" "semem (set_oppids f st) = semem st" "selive (set_oppids f st) = selive st"
  "ttmem (set_oppids f st) = ttmem st" "uihashtbl (set_oppids f st) = uihashtbl st" "uihash (set_oppids f st) = uihash st"
  "pidhashmask (set_oppids f st) = pidhashmask st" "nextpid (set_oppids f st) = nextpid st" "pidchecked (set_oppids f st) = pidchecked st"
  "nprocs (set_oppids f st) = nprocs st" "initproc (set_oppids f st) = initproc st" "crmem (set_oppids f st) = crmem st"
  "crlive (set_oppids f st) = crlive st" "pevents (set_oppids f st) = pevents st"
  by (simp_all add: set_oppids_def)

lemma set_oppids_proc [simp]:
  "p_pid (pmem (set_oppids f st) a) = p_pid (pmem st a)" "p_pptr (pmem (set_oppids f st) a) = p_pptr (pmem st a)"
  "p_cptr (pmem (set_oppids f st) a) = p_cptr (pmem st a)" "p_pgrp (pmem (set_oppids f st) a) = p_pgrp (pmem st a)"
  "p_stat (pmem (set_oppids f st) a) = p_stat (pmem st a)" "p_cred (pmem (set_oppids f st) a) = p_cred (pmem st a)"
  "p_flag (pmem (set_oppids f st) a) = p_flag (pmem st a)" "p_xstat (pmem (set_oppids f st) a) = p_xstat (pmem st a)"
  "p_oppid (pmem (set_oppids f st) a) = f a"
  by (simp_all add: set_oppids_def)

lemma set_oppids_inv [simp]:
  "procs (set_oppids f st) = procs st" "groups (set_oppids f st) = groups st" "p_session (set_oppids f st) = p_session st"
  "p_pgid (set_oppids f st) = p_pgid st" "PIDHASH (set_oppids f st) = PIDHASH st" "pfind (set_oppids f st) = pfind st"
  "p_ucred (set_oppids f st) = p_ucred st"
  by (simp_all add: procs_def groups_def p_session_def p_pgid_def PIDHASH_def pfind_def p_ucred_def fun_eq_iff)

lemma set_oppids_same: "set_oppids (\<lambda>a. p_oppid (pmem st a)) st = st"
  by (simp add: set_oppids_def)

lemma set_oppids_view [simp]:
  "SESS_LEADER (set_oppids f st) = SESS_LEADER st" "qualifies (set_oppids f st) = qualifies st"
  "boot_sessions (set_oppids f st) = boot_sessions st" "UIHASH (set_oppids f st) = UIHASH st"
  by (simp_all add: SESS_LEADER_def qualifies_def boot_sessions_def UIHASH_def Let_def fun_eq_iff)

lemma set_oppids_parts:
  "pids_ok (set_oppids f st) = pids_ok st" "groups_ok (set_oppids f st) = groups_ok st" "counts_ok (set_oppids f st) = counts_ok st"
  "leaders_ok (set_oppids f st) = leaders_ok st" "boot_ok (set_oppids f st) = boot_ok st" "jobc_ok (set_oppids f st) = jobc_ok st"
  "users_ok (set_oppids f st) = users_ok st"
  unfolding pids_ok_def groups_ok_def groups_wf_def counts_ok_def leaders_ok_def boot_ok_def jobc_ok_def users_ok_def
    set_oppids_sel set_oppids_inv set_oppids_view set_oppids_proc
  by (rule refl)+

lemma untraced_ok: "proc_ok st \<longleftrightarrow> proc_ok (untraced st) \<and> (\<forall>a \<in> procs st. p_oppid (pmem st a) = 0)"
proof -
  have "links_ok st \<longleftrightarrow> links_ok (untraced st) \<and> (\<forall>a \<in> procs st. p_oppid (pmem st a) = 0)"
    unfolding links_ok_def untraced_def set_oppids_sel set_oppids_inv set_oppids_proc by blast
  then show ?thesis unfolding proc_ok_def sessions_ok_def untraced_def set_oppids_parts by blast
qed

section \<open>Freeing does not look at the tracer\<close>

lemma chgproccnt_oppids: "chgproccnt u d (set_oppids f st) = bindE (chgproccnt u d st) (\<lambda>(st, n). Inr (set_oppids f st, n))"
  unfolding set_oppids_def chgproccnt_pmem by (cases "chgproccnt u d st") (auto simp: chgproccnt_def set_chain_def Let_def split: option.splits if_splits)

lemma pgdelete_oppids: "pgdelete g (set_oppids f st) = bindE (pgdelete g st) (\<lambda>st. Inr (set_oppids f st))"
  by (rule pgdelete_final [symmetric, where f = "\<lambda>m a. (m a)\<lparr>p_oppid := f a\<rparr>" and z = "\<lambda>x. x" and n = "\<lambda>x. x"]) (simp add: set_oppids_def)

lemma crfree_oppids: "crfree c (set_oppids f st) = set_oppids f (crfree c st)"
  by (simp add: crfree_def Let_def upd_cred_def set_oppids_def)

lemma upd_proc_oppids:
  "(\<And>q v. (h q)\<lparr>p_oppid := v\<rparr> = h (q\<lparr>p_oppid := v\<rparr>)) \<Longrightarrow> upd_proc a h (set_oppids f st) = set_oppids f (upd_proc a h st)"
  by (auto simp: upd_proc_def set_oppids_def fun_eq_iff)

lemma upd_proc_oppids_simps [simp]:
  "upd_proc a (\<lambda>p. p\<lparr>p_xstat := x\<rparr>) (set_oppids f st) = set_oppids f (upd_proc a (\<lambda>p. p\<lparr>p_xstat := x\<rparr>) st)"
  "upd_proc a (\<lambda>p. p\<lparr>p_pgrp := g\<rparr>) (set_oppids f st) = set_oppids f (upd_proc a (\<lambda>p. p\<lparr>p_pgrp := g\<rparr>) st)"
  "upd_proc a (\<lambda>q. q\<lparr>p_cptr := remove1 p (p_cptr q)\<rparr>) (set_oppids f st) = set_oppids f (upd_proc a (\<lambda>q. q\<lparr>p_cptr := remove1 p (p_cptr q)\<rparr>) st)"
  "upd_pcred a c (set_oppids f st) = set_oppids f (upd_pcred a c st)"
  unfolding upd_pcred_def by (rule upd_proc_oppids, simp)+

lemma leavepgrp_oppids: "leavepgrp p (set_oppids f st) = bindE (leavepgrp p st) (\<lambda>st. Inr (set_oppids f st))"
proof -
  have u: "upd_pgrp g h (set_oppids f s) = set_oppids f (upd_pgrp g h s)" for g h s by (simp add: upd_pgrp_def set_oppids_def)
  have "pg_unlink m p (set_oppids f st) = bindE (pg_unlink m p st) (\<lambda>st. Inr (set_oppids f st))" for m
    by (simp add: pg_unlink_def Let_def u pgdelete_oppids)
  then show ?thesis by (cases "pg_unlink ''leavepgrp: can't find p in pgrp'' p st") (simp_all add: leavepgrp_def)
qed

text \<open>The part of \<open>wait_zombie\<close> that frees.\<close>

definition zombie_gone :: "addr \<Rightarrow> pstate \<Rightarrow> pstate" where
  "zombie_gone p st =
     (let st = st\<lparr>zombproc := remove1 p (zombproc st)\<rparr>;
          st = upd_proc (p_pptr (pmem st p)) (\<lambda>q. q\<lparr>p_cptr := remove1 p (p_cptr q)\<rparr>) st
      in st\<lparr>nprocs := nprocs st - 1\<rparr>)"

definition free_zombie :: "addr \<Rightarrow> pstate \<Rightarrow> pstate kres" where
  "free_zombie p st =
     bindE (chgproccnt (p_ruid (p_cred (pmem st p))) (- 1) (upd_proc p (\<lambda>p. p\<lparr>p_xstat := 0\<rparr>) st)) (\<lambda>(st, _).
       let st = upd_pcred p (\<lambda>c. c\<lparr>p_refcnt := p_refcnt c - 1\<rparr>) st;
           st = (if p_refcnt (p_cred (pmem st p)) = 0 then crfree (p_ucred st p) st else st)
       in bindE (leavepgrp p st) (\<lambda>st. Inr (zombie_gone p st)))"

lemma wait_zombie_free:
  "p_oppid (pmem st p) = 0 \<or> pfind st (p_oppid (pmem st p)) = None \<Longrightarrow> wait_zombie p st = free_zombie p st"
  by (auto simp: wait_zombie_def free_zombie_def zombie_gone_def Let_def upd_simps)

lemma zombie_gone_oppids: "zombie_gone p (set_oppids f st) = set_oppids f (zombie_gone p st)"
  by (auto simp: zombie_gone_def set_oppids_def upd_proc_def Let_def fun_eq_iff)

lemma bind_oppids:
  "bindE (bindE r (\<lambda>st. Inr (set_oppids f st))) (\<lambda>st. Inr (zombie_gone p st))
     = bindE (bindE r (\<lambda>st. Inr (zombie_gone p st))) (\<lambda>st. Inr (set_oppids f st))"
  by (cases r) (simp_all add: zombie_gone_oppids)

lemma free_zombie_oppids: "free_zombie p (set_oppids f st) = bindE (free_zombie p st) (\<lambda>st. Inr (set_oppids f st))"
  by (cases "chgproccnt (p_ruid (p_cred (pmem st p))) (- 1) (upd_proc p (\<lambda>p. p\<lparr>p_xstat := 0\<rparr>) st)")
    (auto simp: free_zombie_def chgproccnt_oppids Let_def crfree_oppids leavepgrp_oppids bind_oppids split: prod.splits)

lemma free_untraced:
  assumes "free_zombie p (untraced st) = Inr s"
  shows "\<exists>st'. free_zombie p st = Inr st' \<and> untraced st' = s \<and> (\<forall>a. p_oppid (pmem st' a) = p_oppid (pmem st a))"
proof -
  obtain st' where s: "free_zombie p st = Inr st'" "untraced st' = s"
    using assms by (cases "free_zombie p st") (auto simp: untraced_def free_zombie_oppids)
  have "set_oppids (\<lambda>a. p_oppid (pmem st a)) st' = st'"
    using free_zombie_oppids [of p "\<lambda>a. p_oppid (pmem st a)" st] s(1) unfolding set_oppids_same by simp
  then have "p_oppid (pmem st' a) = p_oppid (pmem st a)" for a by (metis set_oppids_proc(9))
  then show ?thesis using s by blast
qed

section \<open>Giving back\<close>

text \<open>A zombie may change its parent: only the two lists of children are concerned.\<close>

lemma proc_reparent_sel:
  "allproc (proc_reparent p t st) = allproc st" "zombproc (proc_reparent p t st) = zombproc st" "pgmem (proc_reparent p t st) = pgmem st"
  "pidhash (proc_reparent p t st) = pidhash st" "pgrphash (proc_reparent p t st) = pgrphash st" "semem (proc_reparent p t st) = semem st"
  "selive (proc_reparent p t st) = selive st" "uihashtbl (proc_reparent p t st) = uihashtbl st" "uihash (proc_reparent p t st) = uihash st"
  "pidhashmask (proc_reparent p t st) = pidhashmask st" "nextpid (proc_reparent p t st) = nextpid st" "pidchecked (proc_reparent p t st) = pidchecked st"
  "nprocs (proc_reparent p t st) = nprocs st" "initproc (proc_reparent p t st) = initproc st" "pevents (proc_reparent p t st) = pevents st"
  "p_pid (pmem (proc_reparent p t st) a) = p_pid (pmem st a)" "p_pgrp (pmem (proc_reparent p t st) a) = p_pgrp (pmem st a)"
  "p_stat (pmem (proc_reparent p t st) a) = p_stat (pmem st a)" "p_cred (pmem (proc_reparent p t st) a) = p_cred (pmem st a)"
  "p_xstat (pmem (proc_reparent p t st) a) = p_xstat (pmem st a)" "p_oppid (pmem (proc_reparent p t st) a) = p_oppid (pmem st a)"
  "p_pptr (pmem (proc_reparent p t st) a) = (if a = p then t else p_pptr (pmem st a))"
  "p_cptr (pmem (proc_reparent p t st) a) = (if p_pptr (pmem st p) = t then p_cptr (pmem st a)
     else if a = p_pptr (pmem st p) then remove1 p (p_cptr (pmem st a)) else if a = t then p # p_cptr (pmem st a) else p_cptr (pmem st a))"
  by (auto simp: proc_reparent_def Let_def upd_proc_def)

lemma proc_reparent_inv:
  "procs (proc_reparent p t st) = procs st" "groups (proc_reparent p t st) = groups st" "p_session (proc_reparent p t st) = p_session st"
  "p_pgid (proc_reparent p t st) = p_pgid st" "PIDHASH (proc_reparent p t st) = PIDHASH st" "UIHASH (proc_reparent p t st) = UIHASH st"
  "SESS_LEADER (proc_reparent p t st) = SESS_LEADER st" "boot_sessions (proc_reparent p t st) = boot_sessions st"
  by (simp_all add: procs_def groups_def p_session_def p_pgid_def PIDHASH_def UIHASH_def SESS_LEADER_def boot_sessions_def proc_reparent_sel fun_eq_iff)

lemma reparent_children:
  assumes "set C = K" "distinct C" "p \<in> K \<longleftrightarrow> a = q"
  shows "set (if q = t then C else if a = q then remove1 p C else if a = t then p # C else C) = (if a = t then insert p K else K - {p})
    \<and> distinct (if q = t then C else if a = q then remove1 p C else if a = t then p # C else C)"
  using assms by (cases "a = t") (auto simp: insert_absorb)

lemma links_reparent:
  assumes ok: "links_ok st" and p: "p \<in> set (zombproc st)" and t: "t \<in> set (allproc st)"
  shows "links_ok (proc_reparent p t st)"
proof -
  note b = links_okD [OF ok]
  let ?s = "proc_reparent p t st"
  have n: "a \<noteq> p" if "a \<in> set (allproc st)" for a using that b(3) p by auto
  have pp: "p \<in> procs st" using p by (simp add: procs_def)
  obtain xs p0 where x: "allproc st = xs @ [initproc st, p0]" "p_pid (pmem st p0) = 0" "p_pptr (pmem st p0) = 0" using b(5) by blast
  have 2: "\<exists>xs p0. allproc ?s = xs @ [initproc ?s, p0] \<and> p_pid (pmem ?s p0) = 0 \<and> p_pptr (pmem ?s p0) = 0"
    using x n [of p0] by (intro exI [of _ xs] exI [of _ p0]) (simp add: proc_reparent_sel)
  have 3: "p_pptr (pmem ?s a) \<in> set zs" if "allproc ?s = ys @ a # zs" "zs \<noteq> []" for ys a zs
    using b(7) [of ys a zs] n [of a] that by (simp add: proc_reparent_sel)
  have 4: "p_pptr (pmem ?s z) \<in> set (allproc ?s)" if "z \<in> set (zombproc ?s)" for z
    using b(8) [of z] t that by (simp add: proc_reparent_sel)
  have 6: "set (p_cptr (pmem ?s a)) = {b \<in> procs ?s. p_pptr (pmem ?s b) = a} \<and> distinct (p_cptr (pmem ?s a))" if "a \<in> procs ?s" for a
  proof -
    have a: "a \<in> procs st" using that by (simp add: proc_reparent_inv)
    let ?K = "{b \<in> procs st. p_pptr (pmem st b) = a}"
    have K: "{b \<in> procs ?s. p_pptr (pmem ?s b) = a} = (if a = t then insert p ?K else ?K - {p})"
      using pp unfolding proc_reparent_inv proc_reparent_sel by auto
    have c: "set (p_cptr (pmem st a)) = ?K" "distinct (p_cptr (pmem st a))" "p \<in> ?K \<longleftrightarrow> a = p_pptr (pmem st p)"
      using b(10,11) [OF a] pp by auto
    show ?thesis unfolding K by (simp only: proc_reparent_sel reparent_children [OF c] simp_thms)
  qed
  show ?thesis using b(1-4,6,9,12,13) 2 3 4 6
    unfolding links_ok_def proc_reparent_inv by (simp add: proc_reparent_sel)
qed

lemma reparent_ok:
  assumes ok: "proc_ok st" and p: "p \<in> set (zombproc st)" and t: "t \<in> set (allproc st)"
  shows "proc_ok (proc_reparent p t st)"
proof -
  let ?s = "proc_reparent p t st"
  have o: "links_ok st" "pids_ok st" "groups_ok st" "sessions_ok st" "boot_ok st" "jobc_ok st" "users_ok st"
    using ok by (simp_all add: proc_ok_def)
  have "a \<noteq> p" if "a \<in> set (allproc st)" for a using that links_okD(3) [OF o(1)] p by auto
  then have q: "qualifies ?s a = qualifies st a" if "a \<in> set (allproc st)" for a
    using that by (simp add: qualifies_def Let_def proc_reparent_sel proc_reparent_inv)
  have "{a \<in> set (allproc st). p_pgrp (pmem st a) = g \<and> qualifies ?s a} = {a \<in> set (allproc st). p_pgrp (pmem st a) = g \<and> qualifies st a}" for g
    using q by blast
  then have "jobc_ok ?s = jobc_ok st" unfolding jobc_ok_def proc_reparent_inv proc_reparent_sel by simp
  moreover have "pids_ok ?s = pids_ok st" "groups_ok ?s = groups_ok st" "sessions_ok ?s = sessions_ok st" "boot_ok ?s = boot_ok st" "users_ok ?s = users_ok st"
    unfolding pids_ok_def groups_ok_def groups_wf_def sessions_ok_def counts_ok_def leaders_ok_def boot_ok_def users_ok_def proc_reparent_inv proc_reparent_sel
    by (rule refl)+
  ultimately show ?thesis using o links_reparent [OF o(1) p t] by (simp add: proc_ok_def)
qed

section \<open>Waiting\<close>

text \<open>Where a zombie goes back to, and what that means.\<close>

definition gives_back :: "pstate \<Rightarrow> addr \<Rightarrow> addr option" where
  "gives_back st p = (if p_stat (pmem st p) = SZOMB \<and> p_oppid (pmem st p) \<noteq> 0 then pfind st (p_oppid (pmem st p)) else None)"

definition given_back :: "addr \<Rightarrow> addr \<Rightarrow> pstate \<Rightarrow> pstate \<Rightarrow> bool" where
  "given_back p t st st' \<longleftrightarrow> procs st' = procs st \<and> groups st' = groups st
     \<and> p_pptr (pmem st' p) = t \<and> p \<in> set (p_cptr (pmem st' t)) \<and> p_oppid (pmem st' p) = 0
     \<and> p_stat (pmem st' p) = SZOMB \<and> p_xstat (pmem st' p) = p_xstat (pmem st p) \<and> p_pid (pmem st' p) = p_pid (pmem st p)
     \<and> pevents st' = pevents st @ [Psignal t SIGCHLD, Wakeup t]"

lemma untraced_reparent: "untraced (proc_reparent p t (upd_proc p (\<lambda>p. p\<lparr>p_oppid := 0\<rparr>) st)) = proc_reparent p t (untraced st)"
  by (auto simp: untraced_def set_oppids_def proc_reparent_def upd_proc_def Let_def fun_eq_iff)

lemma wait_zombie_traced:
  assumes ok: "proc_ok (untraced st)" and p: "p \<in> set (zombproc st)"
  shows "\<exists>st'. wait_zombie p st = Inr st' \<and> proc_ok (untraced st')
    \<and> (\<forall>a. p_oppid (pmem st' a) = (if gives_back st p \<noteq> None \<and> a = p then 0 else p_oppid (pmem st a)))
    \<and> (case gives_back st p of
         Some t \<Rightarrow> given_back p t st st'
       | None \<Rightarrow> procs st' = procs st - {p} \<and> groups st' = {g \<in> groups st. \<exists>a \<in> procs st. a \<noteq> p \<and> p_pgrp (pmem st a) = g})"
proof -
  have z: "p \<in> set (zombproc (untraced st))" using p by (simp add: untraced_def)
  have o: "links_ok (untraced st)" "pids_ok (untraced st)" using ok by (simp_all add: proc_ok_def)
  have "p \<in> procs (untraced st)" using z by (simp add: procs_def)
  then have st: "p_stat (pmem st p) = SZOMB" using links_okD(9) [OF o(1)] z by (simp add: untraced_def)
  show ?thesis
  proof (cases "gives_back st p")
    case None
    obtain s where s: "wait_zombie p (untraced st) = Inr s" "proc_ok s" "procs s = procs (untraced st) - {p}"
      "groups s = {g \<in> groups (untraced st). \<exists>a \<in> procs (untraced st). a \<noteq> p \<and> p_pgrp (pmem (untraced st) a) = g}"
      using wait_zombie_ok [OF ok z] by blast
    have "free_zombie p (untraced st) = Inr s" using s(1) wait_zombie_free [of "untraced st" p] by (simp add: untraced_def)
    then obtain st' where st': "free_zombie p st = Inr st'" "untraced st' = s" "\<forall>a. p_oppid (pmem st' a) = p_oppid (pmem st a)"
      using free_untraced by blast
    have "wait_zombie p st = free_zombie p st" using None st by (intro wait_zombie_free) (auto simp: gives_back_def split: if_splits)
    moreover have "procs st' = procs s" "groups st' = groups s" using st'(2) by (auto simp: untraced_def)
    ultimately show ?thesis using st' s None by (simp add: untraced_def)
  next
    case (Some t)
    then have t: "pfind st (p_oppid (pmem st p)) = Some t" "p_oppid (pmem st p) \<noteq> 0" by (auto simp: gives_back_def split: if_splits)
    have ta: "t \<in> set (allproc st)" using t(1) pfind_iff [OF o(2,1), of "p_oppid (pmem st p)" t] by (simp add: untraced_def)
    define st1 where "st1 = proc_reparent p t (upd_proc p (\<lambda>p. p\<lparr>p_oppid := 0\<rparr>) st)"
    define st' where "st' = raise_event (Wakeup t) (raise_event (Psignal t SIGCHLD) st1)"
    have w: "wait_zombie p st = Inr st'" using t by (simp add: wait_zombie_def Let_def st'_def st1_def)
    have "untraced st' = (proc_reparent p t (untraced st))\<lparr>pevents := pevents st'\<rparr>"
      unfolding untraced_reparent [symmetric] st1_def [symmetric] by (simp add: st'_def raise_event_def untraced_def set_oppids_def)
    then have k: "proc_ok (untraced st')" using reparent_ok [OF ok z, of t] ta by (simp add: pevents_ok untraced_def)
    have e: "pmem st' = pmem st1" "allproc st' = allproc st" "zombproc st' = zombproc st" "pgrphash st' = pgrphash st" "pevents st' = pevents st @ [Psignal t SIGCHLD, Wakeup t]"
      by (simp_all add: st'_def raise_event_def st1_def proc_reparent_sel upd_simps)
    have q: "p_pptr (pmem st' p) = t" "p_stat (pmem st' p) = SZOMB" "p_xstat (pmem st' p) = p_xstat (pmem st p)" "p_pid (pmem st' p) = p_pid (pmem st p)"
      "p_oppid (pmem st' a) = (if a = p then 0 else p_oppid (pmem st a))" for a
      using st by (simp_all add: e st1_def proc_reparent_sel upd_simps)
    have pr: "procs st' = procs st" "groups st' = groups st" by (simp_all add: procs_def groups_def e)
    have tp: "t \<in> procs (untraced st')" "p \<in> procs (untraced st')" using ta p by (simp_all add: untraced_def pr) (simp_all add: procs_def)
    have "set (p_cptr (pmem (untraced st') t)) = {b \<in> procs (untraced st'). p_pptr (pmem (untraced st') b) = t}"
      using links_okD(10) [of "untraced st'" t] k tp by (simp add: proc_ok_def)
    then have "p \<in> set (p_cptr (pmem st' t))" using tp(2) q(1) by (simp add: untraced_def)
    then show ?thesis using w k Some q pr e(5) by (auto simp: given_back_def)
  qed
qed

lemma wait1_find:
  "wait1 q pid options status rusage st =
     (let who = (if pid = 0 then - p_pgid st q else pid)
      in case List.find (\<lambda>p. wait_match st who p \<and> wait_reports st options p) (p_cptr (pmem st q)) of
           Some p \<Rightarrow> wait_report p status rusage st
         | None \<Rightarrow> if \<not> (\<exists>p \<in> set (p_cptr (pmem st q)). wait_match st who p) then Inr (st, Inl ECHILD)
             else if WNOHANG \<in> options then Inr (st, Inr (0, 0)) else Inl Sleeps)"
  by (auto simp: wait1_def Let_def wait_loop_correct filter_empty_conv split: option.split)

end
