(* ===== verification/Proc_Props.thy ===== *)
theory Proc_Props
  imports Proc_Run Proc_Trace
begin

text \<open>
  The properties of processes, groups, sessions and credentials, and what modelling showed of
  \<open>ptrace\<close>. The witnesses use the state after the boot, in which \<open>init\<close> has forked once.
\<close>

section \<open>No call panics\<close>

lemma sys_call_returns:
  assumes ok: "proc_ok st" "creds_ok h st" and c: "may_call c st" and m: "2 * maxproc st \<le> PID_MAX - 100"
  shows "(\<exists>st'. sys_call c st = Inr st') \<or> sys_call c st = Inl Sleeps \<and> (\<exists>pid options status rusage. c = Wait pid options status rusage)
    \<or> sys_call c st = Inl (Panic ''init died'') \<and> (\<exists>rv. c = Exit rv) \<and> curproc st = initproc st"
proof -
  let ?p = "curproc st"
  have o: "links_ok st" using ok(1) by (simp add: proc_ok_def)
  have p: "?p \<in> set (allproc st)" "call_wf c st" and sw: "?p = last (allproc st) \<Longrightarrow> \<exists>rlim p2. c = Fork False rlim p2"
    using c by (auto simp: may_call_def)
  have pp: "?p \<in> procs st" using p(1) by (simp add: procs_def)
  show ?thesis
  proof (cases c)
    case (Fork v rlim p2)
    then show ?thesis using fork1_ok [where v = v and rlim = rlim, OF ok(1) p(1), of p2] pid_search_room [OF o _ m] p(2) by auto
  next
    case (Exit rv)
    show ?thesis
    proof (cases "?p = initproc st")
      case True
      then show ?thesis using Exit links_okD(6) [OF o] by (simp add: exit_def)
    next
      case False
      then have "may_exit st ?p" using p(1) sw Exit by (auto simp: may_exit_def)
      then show ?thesis using exit_ok [OF ok(1), of ?p rv] Exit by auto
    qed
  next
    case (Wait pid options status rusage)
    then show ?thesis using wait1_ok [OF ok(1) p(1), of pid options status rusage] by (auto split: option.splits if_splits)
  next
    case (Setsid npg nse)
    then have n: "?p \<noteq> last (allproc st)" "npg \<notin> groups st" "nse \<notin> set (selive st)" "nse \<noteq> 0" using p(2) sw by auto
    then show ?thesis using setsid_ok [OF ok(1) p(1) n(1) refl n(2-4)] Setsid by auto
  next
    case (Setpgid pid pgid npg)
    then have n: "?p \<noteq> last (allproc st)" "npg \<notin> groups st" using p(2) sw by auto
    then show ?thesis using setpgid_ok [OF ok(1) p(1) n(1) refl n(2), of pid pgid] Setpgid by auto
  next
    case (Ids i ncr)
    then have n: "ncr \<notin> set (crlive st)" "idcall_wf i" using p(2) by auto
    then show ?thesis using id_call_ok [OF ok pp n] Ids by auto
  qed (simp_all add: ptrace_def)
qed

section \<open>The endless parent chain\<close>

lemma inferior_cycle:
  assumes "p_pptr (pmem st a) = b" "p_pptr (pmem st b) = a" "curproc st \<notin> {a, b}" "p_pid (pmem st a) \<noteq> 0" "p_pid (pmem st b) \<noteq> 0"
  shows "inferior st a = None"
proof -
  have "t = st \<longrightarrow> x \<notin> {a, b}" if "inferior t x = Some y" for t x y
    by (rule inferior.raw_induct [where P = "\<lambda>t x y. t = st \<longrightarrow> x \<notin> {a, b}", OF _ that])
      (use assms in \<open>fastforce split: if_splits\<close>)
  then show ?thesis by (metis insertI1 not_Some_eq)
qed

section \<open>Properties\<close>

text \<open>C1. In every state that the system calls of any processes, the switches between them and the rest of the
  kernel can lead to from the boot, the family tree, the lists and hash tables of processes and groups, the members and
  sessions of groups, the counts of members for job control, the number of processes of every user and the reference
  counts of all credentials are right.\<close>

theorem proc_reach_ok:
  "proc_reach maxp (st, h) \<Longrightarrow> proc_ok st \<and> creds_ok h st"
  using proc_reach_inv by fastforce

text \<open>C4. In every such state a system call of the current process returns without a panic and without an endless
  loop, and leads to such a state again. Two calls may not return: \<open>wait\<close> may have to sleep, and the kernel panics
  when \<open>init\<close> exits.\<close>

theorem sys_calls_return:
  assumes "proc_reach maxp (st, h)" "may_call c st" "2 * maxproc st \<le> PID_MAX - 100"
  shows "case sys_call c st of
      Inr st' \<Rightarrow> proc_reach maxp (st', h)
    | Inl e \<Rightarrow> e = Sleeps \<and> (\<exists>pid options status rusage. c = Wait pid options status rusage)
        \<or> e = Panic ''init died'' \<and> (\<exists>rv. c = Exit rv) \<and> curproc st = initproc st"
proof -
  have ok: "proc_ok st" "creds_ok h st" using proc_reach_inv [OF assms(1)] by simp_all
  show ?thesis
  proof (cases "sys_call c st")
    case (Inr st')
    then show ?thesis using proc_reach.step [OF assms(1) proc_step.call [OF assms(2)]] by simp
  next
    case (Inl e)
    then show ?thesis using sys_call_returns [OF ok assms(2,3)] by auto
  qed
qed

text \<open>C24. The search for a process number finds one that is neither the number of a process nor of a group, together with
  a range of unused numbers above it, whenever some number from 100 on is free.\<close>

theorem fork_finds_pid:
  assumes "proc_ok st" and "100 \<le> f" "f < PID_MAX" "\<And>a. a \<in> procs st \<Longrightarrow> p_pid (pmem st a) \<noteq> f \<and> p_pgid st a \<noteq> f"
  shows "\<exists>pid checked. pid_search (pids_used st) (nextpid st + 1) (pidchecked st) = Some (pid, checked)
    \<and> 0 < pid \<and> pid < PID_MAX
    \<and> (\<forall>n. pid \<le> n \<longrightarrow> n = pid \<or> n < checked \<longrightarrow> (\<forall>a \<in> procs st. p_pid (pmem st a) \<noteq> n \<and> p_pgid st a \<noteq> n))"
proof -
  have o: "pids_ok st" "groups_ok st" using assms(1) by (simp_all add: proc_ok_def)
  have "f \<notin> pid_set (pids_used st)" using assms(4) by (fastforce simp: pid_set_def pids_used_def procs_def)
  then obtain r where r: "pid_search (pids_used st) (nextpid st + 1) (pidchecked st) = Some r"
    using pid_search_returns [OF assms(2,3)] by blast
  have "pid_fresh (pids_used st) (fst r) (snd r)"
    using pid_search_correct [OF r _ _ pids_free_below [OF o]] pids_okD(8,10) [OF o(1)] by simp
  then have fr: "fst r \<notin> pid_set (pids_used st)" "0 < fst r" "fst r < PID_MAX" "\<And>x. x \<in> pid_set (pids_used st) \<Longrightarrow> \<not> (fst r < x \<and> x < snd r)"
    by (auto simp: pid_fresh_def)
  have "p_pid (pmem st a) \<noteq> n \<and> p_pgid st a \<noteq> n" if "a \<in> procs st" "fst r \<le> n" "n = fst r \<or> n < snd r" for a n
    using fr(1,4) proc_used [OF that(1)] that(2,3) by (metis le_less)
  then show ?thesis using r fr(2,3) by (intro exI [of _ "fst r"] exI [of _ "snd r"]) auto
qed

text \<open>C20. \<open>fork\<close> fails exactly when the table is full or the user is not root and at the limit, and then changes
  nothing but messages; else there is one process more, with a number of its own, the caller as parent, the caller's group and
  credentials. The invariant holds in both cases.\<close>

theorem fork_correct:
  assumes "proc_ok st" "p1 \<in> set (allproc st)" "p2 \<notin> procs st" "p2 \<noteq> 0" "2 * maxproc st \<le> PID_MAX - 100"
    and uid: "uid = p_ruid (p_cred (pmem st p1))"
  shows "\<exists>st' r. fork1 p1 isvfork rlim p2 st = Inr (st', r) \<and> proc_ok st'
    \<and> (if maxproc st \<le> nprocs st \<or> uid \<noteq> 0 \<and> rlim \<le> int (card {a \<in> procs st. p_ruid (p_cred (pmem st a)) = uid})
       then r = Inl EAGAIN \<and> pmem st' = pmem st \<and> procs st' = procs st
       else (\<exists>pid. r = Inr pid \<and> p_pid (pmem st' p2) = pid \<and> (\<forall>a \<in> procs st. p_pid (pmem st a) \<noteq> pid \<and> p_pgid st a \<noteq> pid))
         \<and> procs st' = insert p2 (procs st) \<and> p_pptr (pmem st' p2) = p1 \<and> p_pgrp (pmem st' p2) = p_pgrp (pmem st p1)
         \<and> p_ucred st' p2 = p_ucred st p1 \<and> (SPPWAIT \<in> p_flag (pmem st' p2) \<longleftrightarrow> isvfork))"
proof -
  have o: "links_ok st" "users_ok st" using assms(1) by (simp_all add: proc_ok_def)
  have n: "p1 \<noteq> p2" using assms(2,3) by (auto simp: procs_def)
  have u: "ucount st uid = int (card {a \<in> procs st. p_ruid (p_cred (pmem st a)) = uid})" using o(2) by (simp add: users_ok_iff)
  obtain st' r where f: "fork1 p1 isvfork rlim p2 st = Inr (st', r)" "proc_ok st'"
    "if maxproc st \<le> nprocs st \<or> uid \<noteq> 0 \<and> rlim \<le> ucount st uid then r = Inl EAGAIN \<and> (\<exists>T E. st' = st\<lparr>uihashtbl := T, pevents := E\<rparr>)
     else \<exists>T pid c. r = Inr pid \<and> pid_fresh (pids_used st) pid c \<and> st' = fork_link p1 p2 pid isvfork (st\<lparr>uihashtbl := T, nextpid := pid, pidchecked := c\<rparr>)"
    using fork1_ok [where v = isvfork and rlim = rlim, OF assms(1-4)] pid_search_room [OF o(1) _ assms(5)] unfolding uid by blast
  show ?thesis
  proof (cases "maxproc st \<le> nprocs st \<or> uid \<noteq> 0 \<and> rlim \<le> ucount st uid")
    case True
    then show ?thesis using f u by (auto simp: procs_def)
  next
    case False
    then obtain T pid c where t: "r = Inr pid" "pid_fresh (pids_used st) pid c"
      "st' = fork_link p1 p2 pid isvfork (st\<lparr>uihashtbl := T, nextpid := pid, pidchecked := c\<rparr>)" using f(3) by auto
    have "p_pid (pmem st a) \<noteq> pid \<and> p_pgid st a \<noteq> pid" if "a \<in> procs st" for a
      using proc_used [OF that] t(2) by (auto simp: pid_fresh_def)
    moreover have "SPPWAIT \<in> p_flag (pmem st' p2) \<longleftrightarrow> isvfork" unfolding t(3) fork_link_sel [OF n] by (auto simp: fork_child_def Let_def)
    ultimately show ?thesis using f(1,2) t(1) False u n
      by (auto simp: t(3) fork_link_sel [OF n] fork_child_sel procs_def p_ucred_def)
  qed
qed

text \<open>C25. \<open>setsid\<close> fails exactly when the caller's number is that of a group, or it leads its group; else the
  caller leads a new session without terminal and is alone in a new group with its number. The sessions and groups of
  all others stay, and so does the invariant.\<close>

theorem setsid_correct:
  assumes "proc_ok st" "p \<in> set (allproc st)" "p \<noteq> last (allproc st)" "curproc st = p" "npg \<notin> groups st" "nse \<notin> set (selive st)" "nse \<noteq> 0"
  shows "\<exists>st' r. setsid p npg nse st = Inr (st', r) \<and> proc_ok st'
    \<and> (if p_pgid st p = p_pid (pmem st p) \<or> (\<exists>g \<in> groups st. pg_id (pgmem st g) = p_pid (pmem st p))
       then r = Inl EPERM \<and> st' = st
       else r = Inr (p_pid (pmem st p)) \<and> SESS_LEADER st' p \<and> p_session st' p = nse \<and> p_pgid st' p = p_pid (pmem st p)
         \<and> SCTTY \<notin> p_flag (pmem st' p)
         \<and> (\<forall>a \<in> procs st. a \<noteq> p \<longrightarrow> p_session st' a = p_session st a \<and> pmem st' a = pmem st a))"
  using setsid_ok [OF assms] by blast

text \<open>\<open>setpgid\<close> returns, keeps the invariant and never changes the session of any process. When it succeeds, the
  process it moved is the caller or a descendant that has not called \<open>exec\<close>, in the caller's session and not
  its leader; that process alone has changed, and its group has the number asked for, as a \<open>short\<close>.\<close>

theorem setpgid_correct:
  assumes "proc_ok st" "c \<in> set (allproc st)" "c \<noteq> last (allproc st)" "curproc st = c" "npg \<notin> groups st"
  shows "\<exists>st' r. setpgid c pid pgid npg st = Inr (st', r) \<and> proc_ok st' \<and> (\<forall>a \<in> procs st. p_session st' a = p_session st a)
    \<and> (case r of
         Some e \<Rightarrow> st' = st
       | None \<Rightarrow> \<exists>t \<in> set (allproc st). p_pid (pmem st t) = (if pid = 0 then p_pid (pmem st c) else pid)
           \<and> (t = c \<or> inferior st t = Some True \<and> SEXEC \<notin> p_flag (pmem st t)) \<and> p_session st t = p_session st c \<and> \<not> SESS_LEADER st t
           \<and> p_pgid st' t = pid_t (if pgid = 0 then p_pid (pmem st t) else pgid) \<and> (\<forall>a. a \<noteq> t \<longrightarrow> pmem st' a = pmem st a))"
proof -
  obtain st' r where s: "setpgid c pid pgid npg st = Inr (st', r)" "proc_ok st'" "\<forall>a \<in> procs st. p_session st' a = p_session st a"
    "case r of Some e \<Rightarrow> st' = st
       | None \<Rightarrow> \<exists>t. setpgid_target c pid st = Some (Inr t) \<and> \<not> SESS_LEADER st t
           \<and> p_pgid st' t = pid_t (if pgid = 0 then p_pid (pmem st t) else pgid) \<and> (\<forall>a. a \<noteq> t \<longrightarrow> pmem st' a = pmem st a)"
    using setpgid_ok [OF assms, of pid pgid] by blast
  show ?thesis
    by (rule setpgid_target_ok [OF assms(1-4), of pid]) (use s in \<open>fastforce split: option.splits\<close>)+
qed

text \<open>C21. \<open>exit\<close> of any process but \<open>init\<close> and the swapper leaves a zombie with the status, which is not found by its
  number any more; its children, no longer traced, belong to \<open>init\<close>, all other parents stay, and a session leader gives
  up session and terminal. The invariant holds again.\<close>

theorem exit_correct:
  assumes "proc_ok st" "may_exit st p"
  shows "\<exists>st'. exit p rv st = Inr st' \<and> proc_ok st' \<and> procs st' = procs st
    \<and> p \<in> set (zombproc st') \<and> p_xstat (pmem st' p) = cr_ushort rv \<and> pfind st' (p_pid (pmem st p)) = None
    \<and> (\<forall>q \<in> procs st. p_pptr (pmem st' q) = (if p_pptr (pmem st q) = p then initproc st else p_pptr (pmem st q)))
    \<and> (\<forall>q \<in> procs st. p_pptr (pmem st q) = p \<longrightarrow> STRC \<notin> p_flag (pmem st' q))
    \<and> (SESS_LEADER st p \<longrightarrow> s_leader (semem st' (p_session st p)) = 0 \<and> s_ttyvp (semem st' (p_session st p)) = 0)"
proof -
  have o: "links_ok st" using assms(1) by (simp add: proc_ok_def)
  obtain st' where s: "exit p rv st = Inr st'" "proc_ok st'" "exited p rv st st'" using exit_ok [OF assms, of rv] by blast
  note d = may_exitD [OF o assms(2)] and sel = exitedD [OF s(3)]
  have P: "procs st' = procs st" by (rule exit_frame [OF o assms(2) s(3)])
  have kid: "q \<in> set (p_cptr (pmem st p)) \<longleftrightarrow> p_pptr (pmem st q) = p" if "q \<in> procs st" for q
    using links_okD(10) [OF o d(1)] that by auto
  have "pfind st' (p_pid (pmem st p)) = None"
  proof (rule ccontr)
    assume "pfind st' (p_pid (pmem st p)) \<noteq> None"
    then obtain a where "pfind st' (p_pid (pmem st p)) = Some a" by blast
    then have a: "a \<in> set (allproc st')" "p_pid (pmem st' a) = p_pid (pmem st p)"
      using pfind_iff [of st' "p_pid (pmem st p)" a] s(2) by (auto simp: proc_ok_def)
    then have "p_pid (pmem st a) = p_pid (pmem st p)" "a \<in> procs st" "a \<noteq> p"
      using exit_frame(5) [OF o assms(2) s(3)] P d(10) by (auto simp: procs_def sel(2))
    then show False using pids_okD(1) [of st] assms(1) d(1) by (auto simp: proc_ok_def dest: inj_onD)
  qed
  moreover have "p_pptr (pmem st' q) = (if p_pptr (pmem st q) = p then initproc st else p_pptr (pmem st q))" if "q \<in> procs st" for q
    using kid [OF that] d(2) by (auto simp: sel orphan_def)
  moreover have "STRC \<notin> p_flag (pmem st' q)" if "q \<in> procs st" "p_pptr (pmem st q) = p" for q
    using kid [OF that(1)] that d(2) by (auto simp: sel orphan_def)
  ultimately show ?thesis using s P by (intro exI [of _ st']) (simp add: sel)
qed

text \<open>C28. \<open>wait\<close> reports the first child, the youngest first, that the call is about and that is a zombie or newly stopped.
  A zombie that was attached from another process, which still exists, is given back to it: it becomes its child, and that process gets
  \<open>SIGCHLD\<close> and is woken. Any other zombie is freed, with its group and session if it was the last member, and of a
  stopped child only the flag changes. Without such a child the call fails exactly when it is about no child at all, and else
  returns or sleeps. Processes may be traced: \<open>untraced\<close> asks the invariant of the state but for that.\<close>

theorem wait1_correct:
  assumes "proc_ok (untraced st)" "q \<in> set (allproc st)" and who: "who = (if pid = 0 then - p_pgid st q else pid)"
  shows "case List.find (\<lambda>p. wait_match st who p \<and> wait_reports st options p) (p_cptr (pmem st q)) of
      None \<Rightarrow>
        wait1 q pid options status rusage st
          = (if \<not> (\<exists>p \<in> set (p_cptr (pmem st q)). wait_match st who p) then Inr (st, Inl ECHILD)
             else if WNOHANG \<in> options then Inr (st, Inr (0, 0)) else Inl Sleeps)
    | Some p \<Rightarrow> \<exists>st'. proc_ok (untraced st') \<and> (proc_ok st \<longrightarrow> proc_ok st')
        \<and> wait1 q pid options None None st = Inr (st', Inr (p_pid (pmem st p),
            if p_stat (pmem st p) = SZOMB then p_xstat (pmem st p) else W_STOPCODE (p_xstat (pmem st p))))
        \<and> (if p_stat (pmem st p) \<noteq> SZOMB then st' = upd_proc p (\<lambda>p. p\<lparr>p_flag := p_flag p \<union> {SWTED}\<rparr>) st
           else case gives_back st p of
             Some t \<Rightarrow> given_back p t st st'
           | None \<Rightarrow> procs st' = procs st - {p} \<and> groups st' = {g \<in> groups st. \<exists>a \<in> procs st. a \<noteq> p \<and> p_pgrp (pmem st a) = g})"
proof (cases "List.find (\<lambda>p. wait_match st who p \<and> wait_reports st options p) (p_cptr (pmem st q))")
  case None
  then show ?thesis by (simp add: wait1_find Let_def who)
next
  case (Some p)
  have o: "links_ok (untraced st)" using assms(1) by (simp add: proc_ok_def)
  have "p \<in> set (p_cptr (pmem (untraced st) q))" using Some by (auto simp: untraced_def dest: find_Some)
  moreover have "q \<in> procs (untraced st)" using assms(2) by (simp add: procs_def untraced_def)
  ultimately have pp: "p \<in> procs (untraced st)" using links_okD(10) [OF o] by auto
  have w: "wait1 q pid options None None st = wait_report p None None st" using Some by (simp add: wait1_find Let_def who)
  show ?thesis
  proof (cases "p_stat (pmem st p) = SZOMB")
    case True
    then have "p \<in> set (zombproc st)" using links_okD(9) [OF o pp] by (simp add: untraced_def)
    then obtain st' where s: "wait_zombie p st = Inr st'" "proc_ok (untraced st')"
      "\<forall>a. p_oppid (pmem st' a) = (if gives_back st p \<noteq> None \<and> a = p then 0 else p_oppid (pmem st a))"
      "case gives_back st p of Some t \<Rightarrow> given_back p t st st'
       | None \<Rightarrow> procs st' = procs st - {p} \<and> groups st' = {g \<in> groups st. \<exists>a \<in> procs st. a \<noteq> p \<and> p_pgrp (pmem st a) = g}"
      using wait_zombie_traced [OF assms(1)] by blast
    have "procs st' \<subseteq> procs st" using s(4) by (auto simp: given_back_def split: option.splits)
    then have "proc_ok st \<longrightarrow> proc_ok st'" using s(2,3) untraced_ok [of st] untraced_ok [of st'] by auto
    then show ?thesis using s True w by (simp add: Some wait_report_def)
  next
    case False
    define st' where "st' = upd_proc p (\<lambda>p. p\<lparr>p_flag := p_flag p \<union> {SWTED}\<rparr>) st"
    have "untraced st' = upd_proc p (\<lambda>p. p\<lparr>p_flag := p_flag p \<union> {SWTED}\<rparr>) (untraced st)"
      unfolding st'_def untraced_def by (rule upd_proc_oppids [symmetric]) simp
    then have "proc_ok (untraced st')" "proc_ok st \<longrightarrow> proc_ok st'" using assms(1) by (simp_all add: flag_ok st'_def)
    then show ?thesis using False w by (simp add: Some wait_report_def st'_def)
  qed
qed

text \<open>C6. The calls that change identifiers return and keep the reference counts right. What other processes and other holders
  see of their credentials stays the same, though credentials are shared. A process without privilege gets no user or
  group identifier that was not one of its real, saved or effective ones.\<close>

theorem id_calls_safe:
  assumes "proc_ok st" "creds_ok h st" "p \<in> procs st" "ncr \<notin> set (crlive st)" "idcall_wf c"
  shows "\<exists>st' r. id_call c p ncr st = Inr (st', r) \<and> proc_ok st' \<and> creds_ok h st'
    \<and> (\<forall>a \<in> procs st. a \<noteq> p \<longrightarrow> uids st' a = uids st a \<and> gids st' a = gids st a \<and> cred_val st' a = cred_val st a)
    \<and> (\<forall>x. h x \<noteq> 0 \<longrightarrow> cr_val (crmem st' x) = cr_val (crmem st x))
    \<and> (euid st p \<noteq> 0 \<longrightarrow> uids st' p \<subseteq> uids st p \<and> gids st' p \<subseteq> gids st p)"
proof -
  obtain st' r where "id_call c p ncr st = Inr (st', r)" "proc_ok st'" "id_keeps p h st st'"
    "euid st p \<noteq> 0 \<longrightarrow> uids st' p \<subseteq> uids st p \<and> gids st' p \<subseteq> gids st p \<and> (r \<noteq> None \<longrightarrow> st' = st)"
    using id_call_ok [OF assms] by blast
  then show ?thesis unfolding id_keeps_def by blast
qed

text \<open>\<open>ptrace\<close> lets every process attach to any process that runs with an effective user 0, whatever the credentials
  of the caller: \<open>suser\<close> tests the credentials of the process named.\<close>

theorem ptrace_attaches_to_root:
  assumes "pfind st pid = Some p" "cr_uid (crmem st (p_ucred st p)) = 0" "STRC \<notin> p_flag (pmem st p)"
  shows "\<exists>st'. ptrace curp PT_ATTACH pid st = Inr (st', None) \<and> STRC \<in> p_flag (pmem st' p) \<and> p_pptr (pmem st' p) = curp"
  using assms by (auto simp: ptrace_def Let_def suser_def proc_reparent_def raise_event_def upd_simps)

text \<open>A process that attaches to its parent makes a cycle of parents, and \<open>setpgid\<close> of any other process on one of the two
  does not return.\<close>

theorem ptrace_parent_cycle:
  assumes a: "ptrace q PT_ATTACH pid st = Inr (st', None)" "pfind st pid = Some p" "p_pptr (pmem st q) = p" "p_pptr (pmem st p) \<noteq> q"
    and d: "p \<noteq> q" "c \<notin> {p, q}" "p_pid (pmem st p) \<noteq> 0" "p_pid (pmem st q) \<noteq> 0" and n: "pid \<noteq> 0" "pid \<noteq> p_pid (pmem st c)"
  shows "setpgid c pid pgid npg (st'\<lparr>curproc := c\<rparr>) = Inl Loops"
proof -
  have e: "p_pptr (pmem st' p) = q \<and> p_pptr (pmem st' q) = p \<and> (\<forall>x. p_pid (pmem st' x) = p_pid (pmem st x)) \<and> pidhash st' = pidhash st \<and> pidhashmask st' = pidhashmask st"
    using a d(1) by (auto simp: ptrace_def Let_def suser_def proc_reparent_def raise_event_def upd_simps split: if_splits)
  have "pfind (st'\<lparr>curproc := c\<rparr>) pid = Some p" using a(2) e by (simp add: pfind_def PIDHASH_def)
  moreover have "inferior (st'\<lparr>curproc := c\<rparr>) p = None"
    by (rule inferior_cycle [where b = q]) (use e d in auto)
  ultimately show ?thesis using n e by (simp add: setpgid_def setpgid_target_def)
qed

section \<open>Witnesses\<close>

text \<open>The state after the boot, and that after \<open>init\<close> has made process 2, which runs.\<close>

definition ex_boot :: pstate where
  "ex_boot = (case main_boot 10 10 10 10 20 100 (bss 100 15 15) of Inr st \<Rightarrow> st | Inl _ \<Rightarrow> bss 0 0 0)"

definition ex_fork :: pstate where
  "ex_fork = (case sys_call (Fork False 100 30) ex_boot of Inr st \<Rightarrow> st\<lparr>curproc := 30\<rparr> | Inl _ \<Rightarrow> bss 0 0 0)"

lemma ex_boot_eq:
  "main_boot 10 10 10 10 20 100 (bss 100 15 15) = Inr ex_boot"
  "ex_boot = (fork_link 10 20 1 False ((main_proc0 10 10 10 10 (bss 100 15 15))\<lparr>uihashtbl := (\<lambda>k. if k = 0 then [(0, 2)] else []), nextpid := 1, pidchecked := PID_MAX\<rparr>))\<lparr>curproc := 20, initproc := 20\<rparr>"
proof -
  have "\<exists>T. main_boot 10 10 10 10 20 100 (bss 100 15 15) = Inr ((fork_link 10 20 1 False ((main_proc0 10 10 10 10 (bss 100 15 15))\<lparr>uihashtbl := T, nextpid := 1, pidchecked := PID_MAX\<rparr>))\<lparr>curproc := 20, initproc := 20\<rparr>)
      \<and> T = (\<lambda>k. if k = 0 then [(0, 2)] else [])"
    using main_boot_eff [of 20 10 100 10 10 10 100 15 15] by simp
  then show "main_boot 10 10 10 10 20 100 (bss 100 15 15) = Inr ex_boot"
    "ex_boot = (fork_link 10 20 1 False ((main_proc0 10 10 10 10 (bss 100 15 15))\<lparr>uihashtbl := (\<lambda>k. if k = 0 then [(0, 2)] else []), nextpid := 1, pidchecked := PID_MAX\<rparr>))\<lparr>curproc := 20, initproc := 20\<rparr>"
    by (auto simp: ex_boot_def)
qed

lemma ex_boot_facts:
  "allproc ex_boot = [20, 10]" "zombproc ex_boot = []" "nprocs ex_boot = 2" "maxproc ex_boot = 100" "nextpid ex_boot = 1" "pidchecked ex_boot = PID_MAX"
  "curproc ex_boot = 20" "initproc ex_boot = 20" "selive ex_boot = [10]" "crlive ex_boot = [10]" "pidhashmask ex_boot = 15" "uihash ex_boot = 15"
  "uihashtbl ex_boot = (\<lambda>k. if k = 0 then [(0, 2)] else [])" "pgrphash ex_boot = (\<lambda>k. if k = 0 then [10] else [])"
  "pidhash ex_boot = (\<lambda>k. if k = 1 then [20] else [])"
  by (simp_all add: ex_boot_eq(2) fork_link_sel main_proc0_def bss_def upd_simps Let_def upd_pcred_def crget_def fun_eq_iff PIDHASH_def)

lemma ex_boot_mem:
  "p_pid (pmem ex_boot 10) = 0" "p_pgrp (pmem ex_boot 10) = 10" "p_pid (pmem ex_boot 20) = 1" "p_pptr (pmem ex_boot 20) = 10" "p_cptr (pmem ex_boot 20) = []"
  "p_pgrp (pmem ex_boot 20) = 10" "p_stat (pmem ex_boot 20) = SRUN" "p_flag (pmem ex_boot 20) = {SLOAD}"
  "p_cred (pmem ex_boot 20) = \<lparr>pc_ucred = 10, p_ruid = 0, p_svuid = 0, p_rgid = 0, p_svgid = 0, p_refcnt = 1\<rparr>"
  "pgmem ex_boot 10 = \<lparr>pg_mem = [10, 20], pg_session = 10, pg_id = 0, pg_jobc = 0\<rparr>" "s_leader (semem ex_boot 10) = 10" "s_ttyvp (semem ex_boot 10) = 0"
  "crmem ex_boot 10 = \<lparr>cr_ref = 2, cr_uid = 0, cr_ngroups = 1, cr_groups = replicate (nat NGROUPS) 0\<rparr>"
  by (simp_all add: ex_boot_eq(2) fork_link_sel main_proc0_def bss_def upd_simps Let_def upd_pcred_def crget_def zero_proc_def fork_child_def p_session_def p_ucred_def cr_ushort_def)

lemma ex_boot_reach: "proc_reach 100 (ex_boot, \<lambda>_. 0)"
  by (rule proc_reach.boot [OF ex_boot_eq(1)]) simp_all

lemma ex_fork_eq:
  "sys_call (Fork False 100 30) ex_boot = Inr (ex_fork\<lparr>curproc := 20\<rparr>)"
  "ex_fork = (fork_link 20 30 2 False (ex_boot\<lparr>uihashtbl := (\<lambda>k. if k = 0 then [(0, 3)] else []), nextpid := 2, pidchecked := PID_MAX\<rparr>))\<lparr>curproc := 30\<rparr>"
proof -
  have u: "UIHASH ex_boot 0 = 0" by (simp add: UIHASH_def)
  have e: "(\<lambda>k. if k = 0 then [(0, 2)] else [])(0 := [(0, 3)]) = (\<lambda>k :: int. if k = 0 then [(0 :: int, 3 :: int)] else [])" by auto
  have "chgproccnt 0 1 ex_boot = Inr (ex_boot\<lparr>uihashtbl := (\<lambda>k. if k = 0 then [(0, 3)] else [])\<rparr>, 3)"
    by (simp add: chgproccnt_def Let_def set_chain_def u ex_boot_facts(13) e)
  moreover have "pid_search ps 2 PID_MAX = Some (2, PID_MAX)" for ps by (subst pid_search.simps) (simp add: PID_MAX_def)
  ultimately have f: "sys_call (Fork False 100 30) ex_boot
      = Inr (fork_link 20 30 2 False (ex_boot\<lparr>uihashtbl := (\<lambda>k. if k = 0 then [(0, 3)] else []), nextpid := 2, pidchecked := PID_MAX\<rparr>))"
    by (simp add: fork1_def Let_def ex_boot_facts ex_boot_mem)
  then show x: "ex_fork = (fork_link 20 30 2 False (ex_boot\<lparr>uihashtbl := (\<lambda>k. if k = 0 then [(0, 3)] else []), nextpid := 2, pidchecked := PID_MAX\<rparr>))\<lparr>curproc := 30\<rparr>"
    unfolding ex_fork_def f by simp
  have w: "(fork_link 20 30 2 False s)\<lparr>curproc := curproc s\<rparr> = fork_link 20 30 2 False s" for s
    by (simp add: fork_link_def Let_def crhold_def upd_proc_def upd_pgrp_def upd_cred_def)
  show "sys_call (Fork False 100 30) ex_boot = Inr (ex_fork\<lparr>curproc := 20\<rparr>)"
    unfolding f x using w [of "ex_boot\<lparr>uihashtbl := (\<lambda>k. if k = 0 then [(0, 3)] else []), nextpid := 2, pidchecked := PID_MAX\<rparr>"]
    by (simp add: ex_boot_facts(7))
qed

lemma ex_fork_facts:
  "allproc ex_fork = [30, 20, 10]" "zombproc ex_fork = []" "procs ex_fork = {10, 20, 30}" "groups ex_fork = {10}" "maxproc ex_fork = 100" "nextpid ex_fork = 2" "pidchecked ex_fork = PID_MAX"
  "curproc ex_fork = 30" "initproc ex_fork = 20" "selive ex_fork = [10]" "crlive ex_fork = [10]" "pfind ex_fork 2 = Some 30" "pfind ex_fork 1 = Some 20"
  by (simp_all add: ex_fork_eq(2) fork_link_sel ex_boot_facts procs_def groups_def pfind_def PIDHASH_def ex_boot_mem fork_child_sel) auto

lemma ex_fork_mem:
  "p_pid (pmem ex_fork 10) = 0" "p_pid (pmem ex_fork 20) = 1" "p_pptr (pmem ex_fork 20) = 10" "p_cptr (pmem ex_fork 20) = [30]"
  "p_pid (pmem ex_fork 30) = 2" "p_pptr (pmem ex_fork 30) = 20" "p_pgrp (pmem ex_fork a) = (if a \<in> {10, 20, 30} then 10 else p_pgrp (pmem ex_fork a))" "p_pgid ex_fork 10 = 0" "p_pgid ex_fork 20 = 0" "p_pgid ex_fork 30 = 0"
  "p_flag (pmem ex_fork 20) = {SLOAD}" "p_flag (pmem ex_fork 30) = {SLOAD}" "p_stat (pmem ex_fork 30) = SRUN" "p_ruid (p_cred (pmem ex_fork 30)) = 0" "p_ruid (p_cred (pmem ex_fork 20)) = 0" "p_ucred ex_fork 30 = 10" "p_ucred ex_fork 20 = 10"
  "pg_id (pgmem ex_fork 10) = 0" "cr_ref (crmem ex_fork 10) = 3" "cr_uid (crmem ex_fork 10) = 0" "p_cptr (pmem ex_fork 30) = []"
  by (simp_all add: ex_fork_eq(2) fork_link_sel ex_boot_mem fork_child_def p_pgid_def p_ucred_def p_session_def Let_def cr_ushort_def)

lemma ex_fork_reach: "proc_reach 100 (ex_fork, \<lambda>_. 0)"
proof -
  have "may_call (Fork False 100 30) ex_boot"
    by (simp add: may_call_def ex_boot_facts procs_def p_ucred_def ex_boot_mem)
  then have "proc_reach 100 (ex_fork\<lparr>curproc := 20\<rparr>, \<lambda>_. 0)"
    using proc_reach.step [OF ex_boot_reach proc_step.call] ex_fork_eq(1) by blast
  moreover have "proc_step (ex_fork\<lparr>curproc := 20\<rparr>, \<lambda>_. 0) ((ex_fork\<lparr>curproc := 20\<rparr>)\<lparr>curproc := 30\<rparr>, \<lambda>_. 0)"
    by (rule proc_step.switch) (simp add: ex_fork_facts)
  moreover have "(ex_fork\<lparr>curproc := 20\<rparr>)\<lparr>curproc := 30\<rparr> = ex_fork" using ex_fork_facts(8) by (simp add: ex_fork_eq(2))
  ultimately show ?thesis using proc_reach.step by metis
qed

lemma ex_fork_ok: "proc_ok ex_fork" "creds_ok (\<lambda>_. 0) ex_fork"
  using proc_reach_inv [OF ex_fork_reach] by simp_all

theorem proc_reach_ok_witness: "\<exists>h. proc_ok ex_fork \<and> creds_ok h ex_fork \<and> procs ex_fork = {10, 20, 30}"
  using proc_reach_ok [OF ex_fork_reach] ex_fork_facts(3) by blast

theorem sys_calls_return_witness: "\<exists>st'. sys_call (Setsid 20 20) ex_fork = Inr st' \<and> proc_reach 100 (st', \<lambda>_. 0)"
proof -
  have "may_call (Setsid 20 20) ex_fork" by (simp add: may_call_def ex_fork_facts)
  then show ?thesis using sys_calls_return [OF ex_fork_reach, of "Setsid 20 20"] ex_fork_facts(5)
    by (cases "sys_call (Setsid 20 20) ex_fork") (auto simp: PID_MAX_def)
qed

theorem fork_finds_pid_witness:
  "\<exists>pid checked. pid_search (pids_used ex_fork) 3 PID_MAX = Some (pid, checked) \<and> 0 < pid \<and> pid < PID_MAX"
proof -
  have "p_pid (pmem ex_fork a) \<noteq> 100 \<and> p_pgid ex_fork a \<noteq> 100" if "a \<in> procs ex_fork" for a
    using that by (auto simp: ex_fork_facts(3) ex_fork_mem)
  then show ?thesis using fork_finds_pid [OF ex_fork_ok(1), of 100] by (auto simp: ex_fork_facts(6,7) PID_MAX_def)
qed

theorem fork_correct_witness: "\<exists>st' pid. fork1 30 False 100 40 ex_fork = Inr (st', Inr pid) \<and> procs st' = {10, 20, 30, 40} \<and> p_pptr (pmem st' 40) = 30"
proof -
  have n: "nprocs ex_fork = 3" by (simp add: ex_fork_eq(2) fork_link_sel ex_boot_facts)
  show ?thesis
    using fork_correct [OF ex_fork_ok(1), of 30 40 0 False 100] n by (auto simp: ex_fork_facts ex_fork_mem PID_MAX_def)
qed

theorem setsid_correct_witness: "\<exists>st'. setsid 30 20 20 ex_fork = Inr (st', Inr 2) \<and> SESS_LEADER st' 30 \<and> p_session st' 30 = 20"
  using setsid_correct [OF ex_fork_ok(1), of 30 20 20] by (auto simp: ex_fork_facts ex_fork_mem)

theorem setpgid_correct_witness: "\<exists>st' r. setpgid 30 0 0 20 ex_fork = Inr (st', r) \<and> proc_ok st'"
  using setpgid_correct [OF ex_fork_ok(1), of 30 20 0 0] by (auto simp: ex_fork_facts)

theorem exit_correct_witness: "\<exists>st'. exit 30 5 ex_fork = Inr st' \<and> 30 \<in> set (zombproc st') \<and> p_xstat (pmem st' 30) = 5"
  using exit_correct [OF ex_fork_ok(1), of 30 5] by (auto simp: ex_fork_facts may_exit_def cr_ushort_def)

text \<open>A zombie freed, and one given back to the process it was attached from.\<close>

theorem wait1_correct_witness:
  "(\<exists>st st'. zombproc st = [30] \<and> wait1 20 (- 1) {} None None st = Inr (st', Inr (2, 5)) \<and> procs st' = procs st - {30})
   \<and> (\<exists>st st'. zombproc st = [30] \<and> p_oppid (pmem st 30) = 1 \<and> wait1 20 (- 1) {} None None st = Inr (st', Inr (2, 5)) \<and> given_back 30 20 st st')"
proof -
  have m: "may_exit ex_fork 30" by (simp add: may_exit_def ex_fork_facts)
  obtain st where s: "proc_ok st" "exited 30 5 ex_fork st" using exit_ok [OF ex_fork_ok(1) m, of 5] by blast
  note sel = exitedD [OF s(2)]
  have f: "zombproc st = [30]" "allproc st = [20, 10]" "p_stat (pmem st 30) = SZOMB" "p_xstat (pmem st 30) = 5" "p_pid (pmem st 30) = 2" "p_cptr (pmem st 20) = [30]"
    "p_pid (pmem st 20) = 1" by (simp_all add: sel ex_fork_facts ex_fork_mem cr_ushort_def)
  have o: "links_ok st" "pids_ok st" using s(1) by (simp_all add: proc_ok_def)
  define st2 where "st2 = set_oppids (\<lambda>a. if a = 30 then 1 else p_oppid (pmem st a)) st"
  have u: "untraced st2 = untraced st" by (simp add: untraced_def st2_def set_oppids_def)
  have k: "proc_ok (untraced st)" "proc_ok (untraced st2)" using s(1) untraced_ok [of st] u by simp_all
  have find: "List.find (\<lambda>p. wait_match s (- 1) p \<and> wait_reports s {} p) [30] = Some 30" if "p_stat (pmem s 30) = SZOMB" for s
    using that by (simp add: wait_match_def wait_reports_def WAIT_ANY_def)
  have "p_oppid (pmem st 30) = 0" using links_okD(12) [OF o(1), of 30] f(1) by (simp add: procs_def)
  then have g1: "gives_back st 30 = None" by (simp add: gives_back_def)
  have g2: "gives_back st2 30 = Some 20" using f pfind_iff [OF o(2,1), of 1 20] by (simp add: gives_back_def st2_def)
  have "\<exists>st'. wait1 20 (- 1) {} None None st = Inr (st', Inr (2, 5)) \<and> procs st' = procs st - {30}"
    using wait1_correct [OF k(1), of 20 "- 1" "- 1" "{}" None None] f find [of st] g1 by auto
  moreover have "\<exists>st'. wait1 20 (- 1) {} None None st2 = Inr (st', Inr (2, 5)) \<and> given_back 30 20 st2 st'"
    using wait1_correct [OF k(2), of 20 "- 1" "- 1" "{}" None None] f find [of st2] g2 by (auto simp: st2_def)
  moreover have "zombproc st2 = [30]" "p_oppid (pmem st2 30) = 1" using f(1) by (simp_all add: st2_def)
  ultimately show ?thesis using f(1) by blast
qed

theorem id_calls_safe_witness: "\<exists>st'. id_call (Setuid 7) 30 20 ex_fork = Inr (st', None) \<and> uids st' 20 = uids ex_fork 20"
proof -
  obtain st' r where s: "id_call (Setuid 7) 30 20 ex_fork = Inr (st', r)" "uids st' 20 = uids ex_fork 20"
    using id_calls_safe [OF ex_fork_ok, of 30 20 "Setuid 7"] by (auto simp: ex_fork_facts)
  have "r = None" using s(1) by (auto simp: setuid_def suser_def Let_def ex_fork_mem split: if_splits)
  then show ?thesis using s by blast
qed

theorem ptrace_attaches_to_root_witness: "\<exists>st'. ptrace 30 PT_ATTACH 1 ex_fork = Inr (st', None) \<and> p_pptr (pmem st' 20) = 30"
  using ptrace_attaches_to_root [of ex_fork 1 20 30] by (simp add: ex_fork_facts ex_fork_mem) blast

theorem ptrace_parent_cycle_witness: "\<exists>st'. ptrace 30 PT_ATTACH 1 ex_fork = Inr (st', None) \<and> setpgid 10 1 0 90 (st'\<lparr>curproc := 10\<rparr>) = Inl Loops"
proof -
  obtain st' where s: "ptrace 30 PT_ATTACH 1 ex_fork = Inr (st', None)"
    by (auto simp: ptrace_def ex_fork_facts ex_fork_mem Let_def suser_def)
  show ?thesis using ptrace_parent_cycle [OF s, of 20 10] s by (auto simp: ex_fork_facts ex_fork_mem)
qed

end
