(* ===== verification/Clock.thy ===== *)
theory Clock
  imports Cred "HOL-Library.Signed_Division"
begin

text \<open>
  Time: the callout queue and the real-time clock of \<open>sys/kern/kern_clock.c\<close>, with \<open>sys/sys/callout.h\<close>, and
  the time of day and the interval timers of \<open>sys/kern/kern_time.c\<close>. The queue is the list of its
  elements, their times as the code keeps them, as differences. A function of the kernel that
  is called by the clock is \<open>realitexpire\<close>, which is modelled, or a number; what those do is a
  parameter. The statistics clock is taken to be separate (\<open>stathz\<close> is not 0).
\<close>

section \<open>Data\<close>

record timeval =
  tv_sec :: int
  tv_usec :: int

record itimerval =
  it_interval :: timeval
  it_value :: timeval

datatype callfun = Realitexpire | Func nat

record callout =
  c_arg :: addr
  c_func :: callfun
  c_time :: int

text \<open>\<open>cprocs\<close> are the processes; \<open>p_timer\<close> are the timers kept in \<open>p_stats\<close>, by \<open>which\<close>. The second
  half are the constants of the machine: microseconds and number of ticks, and the skew of \<open>adjtime\<close>.\<close>

record clk =
  cprocs :: pstate
  calltodo :: "callout list"
  callfree :: "callout list"
  time :: timeval
  mono_time :: timeval
  boottime :: timeval
  runtime :: timeval
  timedelta :: int
  tickdelta :: int
  p_timer :: "addr \<Rightarrow> int \<Rightarrow> itimerval"
  p_realtimer :: "addr \<Rightarrow> itimerval"
  tz :: "int \<times> int"
  tick :: int
  hz :: int
  tickadj :: int
  bigadj :: int

definition ITIMER_REAL :: int where "ITIMER_REAL = 0"
definition ITIMER_VIRTUAL :: int where "ITIMER_VIRTUAL = 1"
definition ITIMER_PROF :: int where "ITIMER_PROF = 2"

definition timerisset :: "timeval \<Rightarrow> bool" where
  "timerisset t \<longleftrightarrow> tv_sec t \<noteq> 0 \<or> tv_usec t \<noteq> 0"

definition timerclear :: timeval where "timerclear = \<lparr>tv_sec = 0, tv_usec = 0\<rparr>"

text \<open>\<open>timercmp\<close> with \<open><\<close>; with \<open>>\<close> it is the same with the arguments exchanged.\<close>

definition timerless :: "timeval \<Rightarrow> timeval \<Rightarrow> bool" where
  "timerless t u \<longleftrightarrow> tv_sec t < tv_sec u \<or> tv_sec t = tv_sec u \<and> tv_usec t < tv_usec u"

definition psignal :: "addr \<Rightarrow> psig \<Rightarrow> clk \<Rightarrow> clk" where
  "psignal p sig st = st\<lparr>cprocs := raise_event (Psignal p sig) (cprocs st)\<rparr>"

section \<open>Sums and differences of times\<close>

definition timevalfix :: "timeval \<Rightarrow> timeval" where
  "timevalfix t1 =
     (let t1 = (if tv_usec t1 < 0 then \<lparr>tv_sec = tv_sec t1 - 1, tv_usec = tv_usec t1 + 1000000\<rparr> else t1)
      in if 1000000 \<le> tv_usec t1 then \<lparr>tv_sec = tv_sec t1 + 1, tv_usec = tv_usec t1 - 1000000\<rparr> else t1)"

definition timevaladd :: "timeval \<Rightarrow> timeval \<Rightarrow> timeval" where
  "timevaladd t1 t2 = timevalfix \<lparr>tv_sec = tv_sec t1 + tv_sec t2, tv_usec = tv_usec t1 + tv_usec t2\<rparr>"

definition timevalsub :: "timeval \<Rightarrow> timeval \<Rightarrow> timeval" where
  "timevalsub t1 t2 = timevalfix \<lparr>tv_sec = tv_sec t1 - tv_sec t2, tv_usec = tv_usec t1 - tv_usec t2\<rparr>"

definition BUMPTIME :: "timeval \<Rightarrow> int \<Rightarrow> timeval" where
  "BUMPTIME t usec =
     (let us = tv_usec t + usec
      in if 1000000 \<le> us then \<lparr>tv_sec = tv_sec t + 1, tv_usec = us - 1000000\<rparr> else t\<lparr>tv_usec := us\<rparr>)"

section \<open>Interval timers\<close>

text \<open>\<open>None\<close> is the error \<open>EINVAL\<close>; \<open>res\<close> is the global \<open>tick\<close>.\<close>

definition itimerfix :: "int \<Rightarrow> timeval \<Rightarrow> timeval option" where
  "itimerfix res tv =
     (if tv_sec tv < 0 \<or> 100000000 < tv_sec tv \<or> tv_usec tv < 0 \<or> 1000000 \<le> tv_usec tv then None
      else if tv_sec tv = 0 \<and> tv_usec tv \<noteq> 0 \<and> tv_usec tv < res then Some (tv\<lparr>tv_usec := res\<rparr>)
      else Some tv)"

text \<open>The code behind the label \<open>expire\<close>.\<close>

definition itimer_expire :: "itimerval \<Rightarrow> int \<Rightarrow> itimerval \<times> int" where
  "itimer_expire itp usec =
     (if timerisset (it_interval itp) then
        let v = it_interval itp; v = v\<lparr>tv_usec := tv_usec v - usec\<rparr>;
            v = (if tv_usec v < 0 then \<lparr>tv_sec = tv_sec v - 1, tv_usec = tv_usec v + 1000000\<rparr> else v)
        in (itp\<lparr>it_value := v\<rparr>, 0)
      else (itp\<lparr>it_value := (it_value itp)\<lparr>tv_usec := 0\<rparr>\<rparr>, 0))"

definition itimerdecr :: "itimerval \<Rightarrow> int \<Rightarrow> itimerval \<times> int" where
  "itimerdecr itp usec =
     (let v = it_value itp
      in if tv_usec v < usec \<and> tv_sec v = 0 then itimer_expire itp (usec - tv_usec v)
         else
           let v = (if tv_usec v < usec then \<lparr>tv_sec = tv_sec v - 1, tv_usec = tv_usec v + 1000000\<rparr> else v);
               v = v\<lparr>tv_usec := tv_usec v - usec\<rparr>;
               itp = itp\<lparr>it_value := v\<rparr>
           in if timerisset v then (itp, 1) else itimer_expire itp 0)"

section \<open>Callouts\<close>

text \<open>The loop of \<open>timeout\<close> and the insertion behind it.\<close>

fun to_insert :: "callout list \<Rightarrow> callout \<Rightarrow> int \<Rightarrow> callout list" where
  "to_insert [] pnew t = [pnew\<lparr>c_time := t\<rparr>]"
| "to_insert (p2 # ps) pnew t =
     (if c_time p2 < t then p2 # to_insert ps pnew (if 0 < c_time p2 then t - c_time p2 else t)
      else pnew\<lparr>c_time := t\<rparr> # p2\<lparr>c_time := c_time p2 - t\<rparr> # ps)"

definition timeout :: "callfun \<Rightarrow> addr \<Rightarrow> int \<Rightarrow> clk \<Rightarrow> clk kres" where
  "timeout func arg t st =
     (let t = (if t \<le> 0 then 1 else t)
      in case callfree st of
           [] \<Rightarrow> Inl (Panic ''timeout table overflow'')
         | pnew # free \<Rightarrow>
             Inr (st\<lparr>callfree := free, calltodo := to_insert (calltodo st) (pnew\<lparr>c_arg := arg, c_func := func\<rparr>) t\<rparr>))"

text \<open>The loop of \<open>untimeout\<close>: the queue and what is freed.\<close>

fun ut_remove :: "callfun \<Rightarrow> addr \<Rightarrow> callout list \<Rightarrow> callout list \<times> callout list" where
  "ut_remove func arg [] = ([], [])"
| "ut_remove func arg (p2 # ps) =
     (if c_func p2 = func \<and> c_arg p2 = arg then
        (case ps of
           [] \<Rightarrow> []
         | q # qs \<Rightarrow> (if 0 < c_time p2 then q\<lparr>c_time := c_time q + c_time p2\<rparr> else q) # qs, [p2])
      else let (ps, freed) = ut_remove func arg ps in (p2 # ps, freed))"

definition untimeout :: "callfun \<Rightarrow> addr \<Rightarrow> clk \<Rightarrow> clk" where
  "untimeout func arg st =
     (let (todo, freed) = ut_remove func arg (calltodo st)
      in st\<lparr>calltodo := todo, callfree := freed @ callfree st\<rparr>)"

text \<open>A division by zero traps.\<close>

definition hzto :: "timeval \<Rightarrow> clk \<Rightarrow> int kres" where
  "hzto tv st =
     (let sec = s_int (tv_sec tv - tv_sec (time st))
      in if sec \<le> 2147483647 sdiv 1000 - 1000 then
           if tick st sdiv 1000 = 0 then Inl (Panic ''trap'')
           else Inr (s_int (s_int (sec * 1000) + s_int (tv_usec tv - tv_usec (time st)) sdiv 1000) sdiv (tick st sdiv 1000))
         else if hz st = 0 then Inl (Panic ''trap'')
         else if sec \<le> 2147483647 sdiv hz st then Inr (s_int (sec * hz st))
         else Inr 2147483647)"

section \<open>The clock\<close>

text \<open>The loop over the queue in \<open>hardclock\<close>; the second value is \<open>needsoft\<close>.\<close>

fun hc_queue :: "callout list \<Rightarrow> callout list \<times> bool" where
  "hc_queue [] = ([], False)"
| "hc_queue (p1 # ps) =
     (let p1 = p1\<lparr>c_time := c_time p1 - 1\<rparr>
      in if 0 < c_time p1 then (p1 # ps, False)
         else if c_time p1 = 0 then (p1 # ps, True)
         else let (ps, _) = hc_queue ps in (p1 # ps, True))"

text \<open>One of the timers of the current process.\<close>

definition hc_timer :: "addr \<Rightarrow> int \<Rightarrow> psig \<Rightarrow> clk \<Rightarrow> clk" where
  "hc_timer p which sig st =
     (if timerisset (it_value (p_timer st p which)) then
        let (itv, r) = itimerdecr (p_timer st p which) (tick st);
            st = st\<lparr>p_timer := (p_timer st)(p := (p_timer st p)(which := itv))\<rparr>
        in if r = 0 then psignal p sig st else st
      else st)"

definition hardclock :: "bool \<Rightarrow> clk \<Rightarrow> clk \<times> bool" where
  "hardclock usermode st =
     (let (todo, needsoft) = hc_queue (calltodo st);
          st = st\<lparr>calltodo := todo\<rparr>;
          p = curproc (cprocs st);
          st = (if p \<noteq> 0 then
                  let st = (if usermode then hc_timer p ITIMER_VIRTUAL SIGVTALRM st else st)
                  in hc_timer p ITIMER_PROF SIGPROF st
                else st);
          delta = (if timedelta st = 0 then tick st else tick st + tickdelta st);
          st = (if timedelta st = 0 then st else st\<lparr>timedelta := timedelta st - tickdelta st\<rparr>)
      in (st\<lparr>time := BUMPTIME (time st) delta, mono_time := BUMPTIME (mono_time st) delta\<rparr>, needsoft))"

text \<open>The loop may not end when a function called puts due callouts back. \<open>None\<close> is that.\<close>

partial_function (option) softclock :: "(callfun \<Rightarrow> addr \<Rightarrow> clk \<Rightarrow> clk kres) \<Rightarrow> clk \<Rightarrow> clk kres option" where
  "softclock run st =
     (case calltodo st of
        [] \<Rightarrow> Some (Inr st)
      | c # cs \<Rightarrow>
          if c_time c \<le> 0 then
            (case run (c_func c) (c_arg c) (st\<lparr>calltodo := cs, callfree := c # callfree st\<rparr>) of
               Inl e \<Rightarrow> Some (Inl e)
             | Inr st' \<Rightarrow> softclock run st')
          else Some (Inr st))"

section \<open>The real interval timer\<close>

text \<open>The loop: the next time after \<open>now\<close>.\<close>

partial_function (option) real_next :: "timeval \<Rightarrow> timeval \<Rightarrow> timeval \<Rightarrow> timeval option" where
  "real_next now interval v =
     (let v = timevaladd v interval in if timerless now v then Some v else real_next now interval v)"

definition set_real :: "addr \<Rightarrow> itimerval \<Rightarrow> clk \<Rightarrow> clk" where
  "set_real p itv st = st\<lparr>p_realtimer := (p_realtimer st)(p := itv)\<rparr>"

definition realitexpire :: "addr \<Rightarrow> clk \<Rightarrow> clk kres" where
  "realitexpire p st =
     (let st = psignal p SIGALRM st; itv = p_realtimer st p
      in if \<not> timerisset (it_interval itv) then Inr (set_real p (itv\<lparr>it_value := timerclear\<rparr>) st)
         else
           case real_next (time st) (it_interval itv) (it_value itv) of
             None \<Rightarrow> Inl Loops
           | Some v \<Rightarrow>
               let st = set_real p (itv\<lparr>it_value := v\<rparr>) st
               in bindE (hzto v st) (\<lambda>t. timeout Realitexpire p t st))"

text \<open>The functions the clock calls; \<open>other\<close> says what those of the rest of the kernel do.\<close>

definition run_callout :: "(nat \<Rightarrow> addr \<Rightarrow> clk \<Rightarrow> clk kres) \<Rightarrow> callfun \<Rightarrow> addr \<Rightarrow> clk \<Rightarrow> clk kres" where
  "run_callout other f arg st = (case f of Realitexpire \<Rightarrow> realitexpire arg st | Func n \<Rightarrow> other n arg st)"

section \<open>System calls\<close>

text \<open>As in \<open>Cred\<close> the outcome of \<open>copyin\<close> and \<open>copyout\<close> is an argument, here within an option: \<open>None\<close> is the
  null pointer.\<close>

definition getitimer :: "addr \<Rightarrow> int \<Rightarrow> errno option \<Rightarrow> clk \<Rightarrow> errno + itimerval" where
  "getitimer p which copyout st =
     (if ITIMER_PROF < which then Inl EINVAL
      else
        let aitv =
              (if which = ITIMER_REAL then
                 let a = p_realtimer st p
                 in if timerisset (it_value a) then
                      if timerless (it_value a) (time st) then a\<lparr>it_value := timerclear\<rparr>
                      else a\<lparr>it_value := timevalsub (it_value a) (time st)\<rparr>
                    else a
               else p_timer st p which)
        in case copyout of Some e \<Rightarrow> Inl e | None \<Rightarrow> Inr aitv)"

text \<open>The last part, with the values checked.\<close>

definition set_itimer :: "addr \<Rightarrow> int \<Rightarrow> itimerval \<Rightarrow> clk \<Rightarrow> clk kres" where
  "set_itimer p which aitv st =
     (if which = ITIMER_REAL then
        let st = untimeout Realitexpire p st
        in if timerisset (it_value aitv) then
             let v = timevaladd (it_value aitv) (time st)
             in bindE (hzto v st) (\<lambda>t. bindE (timeout Realitexpire p t st) (\<lambda>st. Inr (set_real p (aitv\<lparr>it_value := v\<rparr>) st)))
           else Inr (set_real p aitv st)
      else Inr (st\<lparr>p_timer := (p_timer st)(p := (p_timer st p)(which := aitv))\<rparr>))"

text \<open>The result is the old value, if it is asked for, or an error.\<close>

definition setitimer :: "addr \<Rightarrow> int \<Rightarrow> (errno + itimerval) option \<Rightarrow> errno option option \<Rightarrow> clk
    \<Rightarrow> (clk \<times> (errno + itimerval option)) kres" where
  "setitimer p which itv oitv st =
     (if ITIMER_PROF < which then Inr (st, Inl EINVAL)
      else case itv of
        Some (Inl e) \<Rightarrow> Inr (st, Inl e)
      | _ \<Rightarrow>
          (case (case oitv of None \<Rightarrow> Inr None | Some co \<Rightarrow> (case getitimer p which co st of Inl e \<Rightarrow> Inl e | Inr v \<Rightarrow> Inr (Some v))) of
             Inl e \<Rightarrow> Inr (st, Inl e)
           | Inr old \<Rightarrow>
               (case itv of
                  Some (Inr a) \<Rightarrow>
                    (case (itimerfix (tick st) (it_value a), itimerfix (tick st) (it_interval a)) of
                       (Some v, Some i) \<Rightarrow> bindE (set_itimer p which \<lparr>it_interval = i, it_value = v\<rparr> st) (\<lambda>st. Inr (st, Inr old))
                     | _ \<Rightarrow> Inr (st, Inl EINVAL))
                | _ \<Rightarrow> Inr (st, Inr old))))"

text \<open>\<open>now\<close> is what \<open>microtime\<close> stores.\<close>

definition gettimeofday :: "timeval \<Rightarrow> errno option option \<Rightarrow> errno option option \<Rightarrow> clk
    \<Rightarrow> errno + timeval option \<times> (int \<times> int) option" where
  "gettimeofday now tp tzp st =
     (case tp of
        Some (Some e) \<Rightarrow> Inl e
      | _ \<Rightarrow>
          (case tzp of
             Some (Some e) \<Rightarrow> Inl e
           | _ \<Rightarrow> Inr (map_option (\<lambda>_. now) tp, map_option (\<lambda>_. tz st) tzp)))"

definition settimeofday :: "addr \<Rightarrow> (errno + timeval) option \<Rightarrow> (errno + int \<times> int) option \<Rightarrow> clk \<Rightarrow> clk \<times> errno option" where
  "settimeofday p tv tzp st =
     (let (error, ps) = suser (p_ucred (cprocs st) p) (Some p) (cprocs st); st = st\<lparr>cprocs := ps\<rparr>
      in if error \<noteq> None then (st, error)
         else case (tv, tzp) of
           (Some (Inl e), _) \<Rightarrow> (st, Some e)
         | (_, Some (Inl e)) \<Rightarrow> (st, Some e)
         | _ \<Rightarrow>
             let st = (case tv of
                         Some (Inr atv) \<Rightarrow>
                           let delta = \<lparr>tv_sec = tv_sec atv - tv_sec (time st), tv_usec = tv_usec atv - tv_usec (time st)\<rparr>
                           in st\<lparr>time := atv, boottime := timevalfix (timevaladd (boottime st) delta),
                                 runtime := timevalfix (timevaladd (runtime st) delta)\<rparr>
                       | _ \<Rightarrow> st);
                 st = (case tzp of Some (Inr atz) \<Rightarrow> st\<lparr>tz := atz\<rparr> | _ \<Rightarrow> st)
             in (st, None))"

text \<open>The correction \<open>ndelta\<close> and the rate \<open>ntickdelta\<close> that \<open>adjtime\<close> computes.\<close>

definition adj_rate :: "int \<Rightarrow> clk \<Rightarrow> int \<times> int" where
  "adj_rate ndelta st =
     (let ntickdelta = (if bigadj st < ndelta then 10 * tickadj st else tickadj st);
          ndelta = (if ndelta smod ntickdelta \<noteq> 0 then ndelta sdiv ntickdelta * ntickdelta else ndelta)
      in (ndelta, if ndelta < 0 then - ntickdelta else ntickdelta))"

definition adjtime :: "addr \<Rightarrow> errno + timeval \<Rightarrow> clk \<Rightarrow> clk \<times> (errno + timeval)" where
  "adjtime p copyin st =
     (let (error, ps) = suser (p_ucred (cprocs st) p) (Some p) (cprocs st); st = st\<lparr>cprocs := ps\<rparr>
      in case error of
           Some e \<Rightarrow> (st, Inl e)
         | None \<Rightarrow>
             (case copyin of
                Inl e \<Rightarrow> (st, Inl e)
              | Inr atv \<Rightarrow>
                  let (ndelta, ntickdelta) = adj_rate (s_int (tv_sec atv * 1000000 + tv_usec atv)) st;
                      odelta = timedelta st
                  in (st\<lparr>timedelta := ndelta, tickdelta := ntickdelta\<rparr>,
                      Inr \<lparr>tv_sec = odelta sdiv 1000000, tv_usec = odelta smod 1000000\<rparr>)))"

end
