(* ===== verification/Clock_Laws.thy ===== *)
theory Clock_Laws
  imports Clock
begin

text \<open>
  The abstract view of the callout queue, every callout with the number of ticks until it is due (\<open>dues\<close>), what
  the operations do to it, the contract of the functions the clock calls (the locale
  \<open>callout_funs\<close>) with what \<open>softclock\<close> gets from it, and times as numbers of microseconds.
\<close>

section \<open>When callouts are due\<close>

fun dues :: "int \<Rightarrow> callout list \<Rightarrow> ((callfun \<times> addr) \<times> int) list" where
  "dues acc [] = []"
| "dues acc (c # cs) = ((c_func c, c_arg c), acc + c_time c) # dues (max 0 (acc + c_time c)) cs"

definition clk_dues :: "clk \<Rightarrow> ((callfun \<times> addr) \<times> int) list" where
  "clk_dues st = dues 0 (calltodo st)"

text \<open>The invariant: in order of time.\<close>

definition clk_ok :: "clk \<Rightarrow> bool" where
  "clk_ok st \<longleftrightarrow> sorted (map snd (clk_dues st))"

text \<open>Behind a callout that is not due no difference is negative.\<close>

fun q_ok :: "int \<Rightarrow> callout list \<Rightarrow> bool" where
  "q_ok acc [] \<longleftrightarrow> True"
| "q_ok acc (c # cs) \<longleftrightarrow> (0 < acc \<longrightarrow> 0 \<le> c_time c) \<and> q_ok (max 0 (acc + c_time c)) cs"

lemma sorted_q_ok:
  assumes "sorted (map snd (dues acc cs))" "\<forall>x \<in> set (dues acc cs). 0 < acc \<longrightarrow> acc \<le> snd x" shows "q_ok acc cs"
  using assms
proof (induction cs arbitrary: acc)
  case (Cons c cs)
  let ?a = "max 0 (acc + c_time c)"
  have "\<forall>x \<in> set (dues ?a cs). 0 < ?a \<longrightarrow> ?a \<le> snd x" using Cons.prems(1) by (auto simp: max_def)
  then show ?case using Cons by auto
qed simp

lemma clk_okD: "clk_ok st \<Longrightarrow> q_ok 0 (calltodo st)"
  using sorted_q_ok [of 0] by (simp add: clk_ok_def clk_dues_def)

definition due_dec :: "(callfun \<times> addr) \<times> int \<Rightarrow> (callfun \<times> addr) \<times> int" where
  "due_dec x = (fst x, snd x - 1)"

lemma dues_shift: "q_ok a cs \<Longrightarrow> 1 \<le> a \<Longrightarrow> dues (a - 1) cs = map due_dec (dues a cs)"
proof (induction cs arbitrary: a)
  case (Cons c cs)
  have "q_ok (a + c_time c) cs" "1 \<le> a + c_time c" using Cons.prems by (auto simp: max_def split: if_splits)
  from Cons.IH [OF this] show ?case using Cons.prems by (simp add: due_dec_def max_def algebra_simps)
qed simp

lemma hc_queue_dues:
  "q_ok 0 cs \<Longrightarrow> dues 0 (fst (hc_queue cs)) = map due_dec (dues 0 cs)"
proof (induction cs)
  case (Cons c cs)
  consider "0 < c_time c" | "c_time c \<le> 0" by linarith
  then show ?case
  proof cases
    case 1
    then have "dues (c_time c - 1) cs = map due_dec (dues (c_time c) cs)" using Cons.prems by (intro dues_shift) (auto simp: max_def)
    then show ?thesis using 1 by (auto simp: due_dec_def Let_def max_def)
  next
    case 2
    then have "q_ok 0 cs" using Cons.prems by (simp add: max_def split: if_splits)
    then have "dues 0 (fst (hc_queue cs)) = map due_dec (dues 0 cs)" by (rule Cons.IH)
    then show ?thesis using 2 by (auto simp: due_dec_def Let_def max_def split: prod.splits)
  qed
qed simp

lemma hc_queue_soft:
  "sorted (map snd (dues 0 cs)) \<Longrightarrow> snd (hc_queue cs) \<longleftrightarrow> (\<exists>x \<in> set (dues 0 (fst (hc_queue cs))). snd x \<le> 0)"
proof (cases cs)
  case (Cons c cs')
  assume s: "sorted (map snd (dues 0 cs))"
  show ?thesis
  proof (cases "0 < c_time c - 1")
    case True
    have "1 \<le> c_time c" using True by simp
    moreover have "\<forall>x \<in> set (dues (c_time c) cs'). c_time c \<le> snd x" "q_ok (c_time c) cs'"
      using s Cons True sorted_q_ok [of "c_time c" cs'] by (auto simp: max_def)
    ultimately have "\<forall>x \<in> set (dues (c_time c - 1) cs'). c_time c - 1 \<le> snd x"
      by (fastforce simp: dues_shift due_dec_def)
    then have "\<not> snd x \<le> 0" if "x \<in> set (dues (c_time c - 1) cs')" for x using that True by fastforce
    then show ?thesis using Cons True by (auto simp: Let_def max_def)
  next
    case False
    then show ?thesis using Cons by (auto simp: Let_def split: prod.splits)
  qed
qed simp

lemma to_insert_dues:
  "q_ok acc ps \<Longrightarrow> 0 \<le> acc \<Longrightarrow> 1 \<le> t \<Longrightarrow>
    dues acc (to_insert ps c t) = insort_key snd ((c_func c, c_arg c), acc + t) (dues acc ps)"
proof (induction ps arbitrary: acc t)
  case (Cons p ps)
  show ?case
  proof (cases "c_time p < t")
    case True
    define t' where "t' = (if 0 < c_time p then t - c_time p else t)"
    define a' where "a' = max 0 (acc + c_time p)"
    have a: "a' + t' = acc + t" "1 \<le> t'" "q_ok a' ps" "0 \<le> a'"
      using Cons.prems True by (auto simp: a'_def t'_def max_def)
    show ?thesis using Cons.IH [OF a(3,4,2)] True a(1) by (simp add: a'_def [symmetric] t'_def [symmetric])
  next
    case False
    then show ?thesis using Cons.prems by (simp add: max_def algebra_simps)
  qed
qed simp

fun due_remove :: "callfun \<times> addr \<Rightarrow> ((callfun \<times> addr) \<times> int) list \<Rightarrow> ((callfun \<times> addr) \<times> int) list" where
  "due_remove k [] = []"
| "due_remove k (x # xs) = (if fst x = k then xs else x # due_remove k xs)"

lemma ut_remove_dues:
  "q_ok acc ps \<Longrightarrow> 0 \<le> acc \<Longrightarrow> dues acc (fst (ut_remove f a ps)) = due_remove (f, a) (dues acc ps)"
proof (induction ps arbitrary: acc)
  case (Cons p ps)
  show ?case
  proof (cases "c_func p = f \<and> c_arg p = a")
    case True
    have "max 0 (acc + c_time p) = acc + (if 0 < c_time p then c_time p else 0)" using Cons.prems(1,2) by (auto simp: max_def)
    then show ?thesis using True by (cases ps) (simp_all add: algebra_simps)
  next
    case False
    then show ?thesis using Cons.IH [of "max 0 (acc + c_time p)"] Cons.prems by (auto split: prod.splits)
  qed
qed simp

lemma ut_remove_len: "length (fst (ut_remove f a ps)) + length (snd (ut_remove f a ps)) = length ps"
proof (induction ps)
  case (Cons p ps)
  show ?case
  proof (cases "c_func p = f \<and> c_arg p = a")
    case True
    then show ?thesis by (cases ps) simp_all
  next
    case False
    then show ?thesis using Cons by (auto simp: split_beta)
  qed
qed simp

lemma to_insert_len: "length (to_insert ps c t) = Suc (length ps)"
  by (induction ps c t rule: to_insert.induct) auto

lemma hc_queue_len: "length (fst (hc_queue ps)) = length ps"
  by (induction ps) (auto simp: Let_def split: prod.splits)

lemma due_remove_sub: "set (due_remove k xs) \<subseteq> set xs"
  by (induction xs) auto

lemma due_remove_sorted: "sorted (map snd xs) \<Longrightarrow> sorted (map snd (due_remove k xs))"
proof (induction xs)
  case (Cons x xs)
  then have "\<forall>y \<in> set (due_remove k xs). snd x \<le> snd y" using subsetD [OF due_remove_sub, of _ k xs] by simp
  then show ?case using Cons by simp
qed simp

section \<open>The operations\<close>

lemma timeout_eff:
  assumes ok: "clk_ok st" and r: "timeout f a t st = Inr st'"
  shows "clk_dues st' = insort_key snd ((f, a), max 1 t) (clk_dues st)" "clk_ok st'"
    "length (calltodo st') + length (callfree st') = length (calltodo st) + length (callfree st)"
    "cprocs st' = cprocs st" "p_realtimer st' = p_realtimer st" "time st' = time st" "tick st' = tick st" "hz st' = hz st" "p_timer st' = p_timer st"
proof -
  define t' where "t' = (if t \<le> 0 then 1 else t)"
  have t': "1 \<le> t'" "t' = max 1 t" by (auto simp: t'_def max_def)
  obtain c free where c: "callfree st = c # free"
    "st' = st\<lparr>callfree := free, calltodo := to_insert (calltodo st) (c\<lparr>c_arg := a, c_func := f\<rparr>) t'\<rparr>"
    using r by (auto simp: timeout_def Let_def t'_def split: list.splits)
  show d: "clk_dues st' = insort_key snd ((f, a), max 1 t) (clk_dues st)"
    using to_insert_dues [OF clk_okD [OF ok] order_refl t'(1), of "c\<lparr>c_arg := a, c_func := f\<rparr>"] by (simp add: c clk_dues_def t'(2))
  show "clk_ok st'" using ok by (simp add: clk_ok_def d sorted_insort_key)
  show "length (calltodo st') + length (callfree st') = length (calltodo st) + length (callfree st)"
    by (simp add: c to_insert_len)
qed (use r in \<open>auto simp: timeout_def Let_def split: list.splits\<close>)

lemma untimeout_eff:
  assumes ok: "clk_ok st"
  shows "clk_dues (untimeout f a st) = due_remove (f, a) (clk_dues st)" "clk_ok (untimeout f a st)"
    "length (calltodo (untimeout f a st)) + length (callfree (untimeout f a st)) = length (calltodo st) + length (callfree st)"
    "cprocs (untimeout f a st) = cprocs st" "p_realtimer (untimeout f a st) = p_realtimer st" "time (untimeout f a st) = time st"
    "tick (untimeout f a st) = tick st" "hz (untimeout f a st) = hz st" "p_timer (untimeout f a st) = p_timer st"
proof -
  show d: "clk_dues (untimeout f a st) = due_remove (f, a) (clk_dues st)"
    using ut_remove_dues [OF clk_okD [OF ok] order_refl, of f a] by (auto simp: untimeout_def clk_dues_def split: prod.splits)
  show "clk_ok (untimeout f a st)" using ok by (simp add: clk_ok_def d due_remove_sorted)
  show "length (calltodo (untimeout f a st)) + length (callfree (untimeout f a st)) = length (calltodo st) + length (callfree st)"
    using ut_remove_len [of f a "calltodo st"] by (auto simp: untimeout_def split: prod.splits)
qed (simp_all add: untimeout_def split: prod.splits)

lemma hc_timer_sel [simp]:
  "calltodo (hc_timer p w sig st) = calltodo st" "callfree (hc_timer p w sig st) = callfree st" "time (hc_timer p w sig st) = time st"
  "mono_time (hc_timer p w sig st) = mono_time st" "timedelta (hc_timer p w sig st) = timedelta st" "tickdelta (hc_timer p w sig st) = tickdelta st"
  "tick (hc_timer p w sig st) = tick st" "p_realtimer (hc_timer p w sig st) = p_realtimer st" "hz (hc_timer p w sig st) = hz st"
  "boottime (hc_timer p w sig st) = boottime st"
  by (simp_all add: hc_timer_def Let_def psignal_def split: prod.splits)

lemma hardclock_sel [simp]:
  "calltodo (fst (hardclock u st)) = fst (hc_queue (calltodo st))" "snd (hardclock u st) = snd (hc_queue (calltodo st))"
  "callfree (fst (hardclock u st)) = callfree st"
  "tick (fst (hardclock u st)) = tick st" "tickdelta (fst (hardclock u st)) = tickdelta st" "p_realtimer (fst (hardclock u st)) = p_realtimer st"
  "timedelta (fst (hardclock u st)) = (if timedelta st = 0 then 0 else timedelta st - tickdelta st)"
  "time (fst (hardclock u st)) = BUMPTIME (time st) (if timedelta st = 0 then tick st else tick st + tickdelta st)"
  "mono_time (fst (hardclock u st)) = BUMPTIME (mono_time st) (if timedelta st = 0 then tick st else tick st + tickdelta st)"
  by (simp_all add: hardclock_def Let_def split: prod.splits)

lemma hardclock_eff:
  assumes "clk_ok st"
  shows "clk_dues (fst (hardclock u st)) = map due_dec (clk_dues st)" "clk_ok (fst (hardclock u st))"
    "snd (hardclock u st) \<longleftrightarrow> (\<exists>x \<in> set (clk_dues (fst (hardclock u st))). snd x \<le> 0)"
    "length (calltodo (fst (hardclock u st))) = length (calltodo st)"
proof -
  show d: "clk_dues (fst (hardclock u st)) = map due_dec (clk_dues st)"
    using hc_queue_dues [OF clk_okD [OF assms]] by (simp add: clk_dues_def)
  have "sorted (map ((\<lambda>x. x - 1) \<circ> snd) (clk_dues st))"
    using assms unfolding clk_ok_def sorted_map by (rule sorted_wrt_mono_rel [rotated]) simp
  then show "clk_ok (fst (hardclock u st))" by (simp add: clk_ok_def d comp_def due_dec_def)
  show "snd (hardclock u st) \<longleftrightarrow> (\<exists>x \<in> set (clk_dues (fst (hardclock u st))). snd x \<le> 0)"
    using hc_queue_soft [of "calltodo st"] assms by (simp add: clk_ok_def clk_dues_def)
qed (simp add: hc_queue_len)

section \<open>Functions called by the clock\<close>

definition due_now :: "clk \<Rightarrow> nat" where
  "due_now st = length (filter (\<lambda>x. snd x \<le> 0) (clk_dues st))"

text \<open>
  The contract: \<open>inv\<close> has the queue in order and is kept when a callout that is due is taken off; a function called with
  its callout freed keeps \<open>inv\<close> and adds nothing that is due, or fails with one of \<open>faults\<close>.
\<close>

locale callout_funs =
  fixes run :: "callfun \<Rightarrow> addr \<Rightarrow> clk \<Rightarrow> clk kres" and inv :: "clk \<Rightarrow> bool" and faults :: "kfault set"
  assumes inv_ok: "inv st \<Longrightarrow> clk_ok st"
    and inv_pop: "inv st \<Longrightarrow> calltodo st = c # cs \<Longrightarrow> c_time c \<le> 0 \<Longrightarrow> inv (st\<lparr>calltodo := cs, callfree := c # callfree st\<rparr>)"
    and run_keeps: "inv st \<Longrightarrow> callfree st \<noteq> [] \<Longrightarrow> run f a st = Inr st' \<Longrightarrow> inv st' \<and> due_now st' \<le> due_now st"
    and run_faults: "inv st \<Longrightarrow> callfree st \<noteq> [] \<Longrightarrow> run f a st = Inl e \<Longrightarrow> e \<in> faults"
begin

lemma soft_loop_ends:
  "inv st \<Longrightarrow> \<exists>r. softclock run st = Some r \<and> (\<forall>e. r = Inl e \<longrightarrow> e \<in> faults) \<and> (\<forall>st'. r = Inr st' \<longrightarrow> inv st' \<and> due_now st' = 0)"
proof (induction "due_now st" arbitrary: st rule: less_induct)
  case less
  note ok = inv_ok [OF less.prems]
  show ?case
  proof (cases "calltodo st")
    case Nil
    then show ?thesis using less.prems by (subst softclock.simps) (simp add: due_now_def clk_dues_def)
  next
    case (Cons c cs)
    show ?thesis
    proof (cases "c_time c \<le> 0")
      case False
      then have "\<forall>x \<in> set (clk_dues st). 0 < snd x" using ok Cons by (auto simp: clk_ok_def clk_dues_def)
      then have "due_now st = 0" by (auto simp: due_now_def filter_empty_conv)
      then show ?thesis using False less.prems Cons by (subst softclock.simps) simp
    next
      case True
      define st1 where "st1 = st\<lparr>calltodo := cs, callfree := c # callfree st\<rparr>"
      have d: "clk_dues st = ((c_func c, c_arg c), c_time c) # clk_dues st1"
        using True by (simp add: clk_dues_def Cons st1_def max_def)
      have ok1: "inv st1" "due_now st1 < due_now st" "callfree st1 \<noteq> []"
        using inv_pop [OF less.prems Cons True] True by (simp_all add: d due_now_def st1_def [symmetric]) (simp add: st1_def)
      show ?thesis
      proof (cases "run (c_func c) (c_arg c) st1")
        case (Inl e)
        then show ?thesis using Cons True run_faults [OF ok1(1,3) Inl] by (subst softclock.simps) (simp add: st1_def)
      next
        case (Inr st2)
        then have k: "inv st2" "due_now st2 < due_now st" using run_keeps [OF ok1(1,3) Inr] ok1(2) by simp_all
        show ?thesis using less.hyps [OF k(2,1)] Inr Cons True by (subst softclock.simps) (simp add: st1_def)
      qed
    qed
  qed
qed

end

lemma due_now_insort: "1 \<le> t \<Longrightarrow> length (filter (\<lambda>x. snd x \<le> 0) (insort_key snd (k, t :: int) xs)) = length (filter (\<lambda>x. snd x \<le> 0) xs)"
  by (induction xs) auto

lemma due_now_remove: "length (filter P (due_remove k xs)) \<le> length (filter P xs)"
  by (induction xs) auto

lemma timeout_keeps: "clk_ok st \<Longrightarrow> timeout f a t st = Inr st' \<Longrightarrow> clk_ok st' \<and> due_now st' = due_now st"
  using timeout_eff [of st f a t st'] by (simp add: due_now_def due_now_insort)

lemma untimeout_keeps: "clk_ok st \<Longrightarrow> clk_ok (untimeout f a st) \<and> due_now (untimeout f a st) \<le> due_now st"
  using untimeout_eff [of st f a] by (simp add: due_now_def due_now_remove)

lemma same_queue: "calltodo st' = calltodo st \<Longrightarrow> clk_ok st' = clk_ok st \<and> due_now st' = due_now st \<and> clk_dues st' = clk_dues st"
  by (simp add: clk_ok_def due_now_def clk_dues_def)

lemma clk_upd_queue [simp]: "calltodo (psignal p sig st) = calltodo st" "calltodo (set_real p itv st) = calltodo st"
  by (simp_all add: psignal_def set_real_def)

text \<open>The other functions of the kernel, as far as the queue is concerned: each makes calls of
  \<open>timeout\<close> and \<open>untimeout\<close>, which may depend on anything, between other changes.\<close>

datatype qop = Qtimeout callfun addr int | Quntimeout callfun addr | Qother pstate

fun qops :: "qop list \<Rightarrow> clk \<Rightarrow> clk kres" where
  "qops [] st = Inr st"
| "qops (Qtimeout f a t # os) st = bindE (timeout f a t st) (qops os)"
| "qops (Quntimeout f a # os) st = qops os (untimeout f a st)"
| "qops (Qother ps # os) st = qops os (st\<lparr>cprocs := ps\<rparr>)"

text \<open>How often \<open>timeout\<close> is called.\<close>

fun q_timeouts :: "qop list \<Rightarrow> nat" where
  "q_timeouts [] = 0"
| "q_timeouts (Qtimeout f a t # os) = Suc (q_timeouts os)"
| "q_timeouts (_ # os) = q_timeouts os"

lemma qops_keeps:
  "clk_ok st \<Longrightarrow> qops os st = Inr st' \<Longrightarrow> clk_ok st' \<and> due_now st' \<le> due_now st
     \<and> time st' = time st \<and> tick st' = tick st \<and> hz st' = hz st \<and> p_realtimer st' = p_realtimer st"
proof (induction os st arbitrary: st' rule: qops.induct)
  case (2 f a t os st)
  then obtain st1 where s: "timeout f a t st = Inr st1" "qops os st1 = Inr st'" by auto
  note k = timeout_keeps [OF 2(2) s(1)] and e = timeout_eff(4-8) [OF 2(2) s(1)]
  then show ?case using 2(1) [OF conjunct1 [OF k] s(2)] by simp
next
  case (3 f a os st)
  have "clk_ok (untimeout f a st) \<and> due_now (untimeout f a st) \<le> due_now st" using untimeout_keeps [OF 3(2), of f a] .
  then show ?case using 3(1) [of st'] 3(3) untimeout_eff [OF 3(2), of f a] by fastforce
next
  case (4 ps os st)
  then show ?case using same_queue [of "st\<lparr>cprocs := ps\<rparr>" st] by simp
qed simp

lemma untimeout_free: "callfree st \<noteq> [] \<Longrightarrow> callfree (untimeout f a st) \<noteq> []"
  by (simp add: untimeout_def split_beta)

text \<open>A function fails only for want of callouts, and not when it calls \<open>timeout\<close> once: its own callout is free.\<close>

lemma qops_faults:
  "qops os st = Inl e \<Longrightarrow> e = Panic ''timeout table overflow''"
proof (induction os st rule: qops.induct)
  case (2 f a t os st)
  then show ?case by (cases "timeout f a t st") (auto simp: timeout_def Let_def split: list.splits)
qed simp_all

lemma qops_none: "q_timeouts os = 0 \<Longrightarrow> \<exists>st'. qops os st = Inr st'"
  by (induction os st rule: qops.induct) auto

lemma qops_once:
  "q_timeouts os \<le> 1 \<Longrightarrow> callfree st \<noteq> [] \<Longrightarrow> \<exists>st'. qops os st = Inr st'"
proof (induction os st rule: qops.induct)
  case (2 f a t os st)
  then obtain st1 where "timeout f a t st = Inr st1" by (cases "callfree st") (auto simp: timeout_def Let_def)
  then show ?case using 2(2) qops_none [of os st1] by simp
qed (simp_all add: untimeout_free)

section \<open>Times\<close>

definition us :: "timeval \<Rightarrow> int" where "us t = tv_sec t * 1000000 + tv_usec t"

definition tv_ok :: "timeval \<Rightarrow> bool" where "tv_ok t \<longleftrightarrow> 0 \<le> tv_usec t \<and> tv_usec t < 1000000"

lemma us_fix [simp]: "us (timevalfix t) = us t"
  by (simp add: us_def timevalfix_def Let_def)

lemma us_add [simp]: "us (timevaladd t u) = us t + us u"
  by (simp add: timevaladd_def) (simp add: us_def algebra_simps)

lemma us_sub [simp]: "us (timevalsub t u) = us t - us u"
  by (simp add: timevalsub_def) (simp add: us_def algebra_simps)

lemma us_bump [simp]: "us (BUMPTIME t d) = us t + d"
  by (simp add: us_def BUMPTIME_def Let_def)

lemma tv_ok_add [simp]: "tv_ok t \<Longrightarrow> tv_ok u \<Longrightarrow> tv_ok (timevaladd t u)"
  by (auto simp: tv_ok_def timevaladd_def timevalfix_def Let_def)

lemma tv_ok_sub [simp]: "tv_ok t \<Longrightarrow> tv_ok u \<Longrightarrow> tv_ok (timevalsub t u)"
  by (auto simp: tv_ok_def timevalsub_def timevalfix_def Let_def)

lemma us_div: "tv_ok t \<Longrightarrow> us t div 1000000 = tv_sec t \<and> us t mod 1000000 = tv_usec t"
  by (simp add: us_def tv_ok_def)

lemma us_inj: "tv_ok t \<Longrightarrow> tv_ok u \<Longrightarrow> us t = us u \<Longrightarrow> t = u"
proof -
  assume a: "tv_ok t" "tv_ok u" "us t = us u"
  then have "tv_sec t = tv_sec u \<and> tv_usec t = tv_usec u" using us_div by metis
  then show "t = u" by simp
qed

lemma us_less: "tv_ok t \<Longrightarrow> tv_ok u \<Longrightarrow> timerless t u \<longleftrightarrow> us t < us u"
  by (auto simp: us_def tv_ok_def timerless_def)

lemma timerisset_us: "tv_ok t \<Longrightarrow> timerisset t \<longleftrightarrow> us t \<noteq> 0"
proof -
  assume "tv_ok t"
  then have "us t = 0 \<Longrightarrow> tv_sec t = 0 \<and> tv_usec t = 0" using us_div [of t] by (metis div_0 mod_0)
  moreover have "tv_sec t = 0 \<and> tv_usec t = 0 \<Longrightarrow> us t = 0" by (simp add: us_def)
  ultimately show ?thesis unfolding timerisset_def by blast
qed

lemma itimerfix_ok:
  assumes "itimerfix res tv = Some tv'" "res < 1000000"
  shows "tv_ok tv'" "0 \<le> us tv'" "us tv' = 0 \<or> res \<le> us tv'" "tv_sec tv' \<le> 100000000" "0 \<le> tv_sec tv'" "us tv' = 0 \<longleftrightarrow> us tv = 0"
  using assms by (auto simp: itimerfix_def tv_ok_def us_def split: if_splits)

end
