(* ===== verification/Clock_Props.thy ===== *)
theory Clock_Props
  imports Clock_Laws Proc_Run
begin

text \<open>The properties of the clock, the callouts and the interval timers.\<close>

section \<open>The real timer\<close>

text \<open>The next expiration is the first after now.\<close>

lemma real_next_ends:
  assumes "tv_ok now" "tv_ok i" "tv_ok v" "0 < us i"
  shows "\<exists>v'. real_next now i v = Some v' \<and> tv_ok v' \<and> us now < us v' \<and> (\<exists>k \<ge> 1. us v' = us v + k * us i)
    \<and> (us v' = us v + us i \<or> us v' - us i \<le> us now)"
  using assms(3)
proof (induction "nat (us now - us v)" arbitrary: v rule: less_induct)
  case less
  have ok: "tv_ok (timevaladd v i)" "timerless now (timevaladd v i) \<longleftrightarrow> us now < us v + us i"
    using less.prems assms by (simp_all add: us_less)
  show ?case
  proof (cases "us now < us v + us i")
    case True
    moreover have "\<exists>k \<ge> 1. us v + us i = us v + k * us i" by (rule exI [of _ 1]) simp
    ultimately show ?thesis using ok by (subst real_next.simps) simp
  next
    case False
    then have "nat (us now - us (timevaladd v i)) < nat (us now - us v)" using assms(4) by simp
    from less.hyps [OF this ok(1)] obtain v' k where v: "real_next now i (timevaladd v i) = Some v'" "tv_ok v'" "us now < us v'"
      "k \<ge> 1" "us v' = us (timevaladd v i) + k * us i" "us v' = us (timevaladd v i) + us i \<or> us v' - us i \<le> us now"
      by blast
    have "us v' = us v + (k + 1) * us i" using v(5) by (simp add: algebra_simps)
    then have "\<exists>k \<ge> 1. us v' = us v + k * us i" using v(4) by (intro exI [of _ "k + 1"]) simp
    moreover have "us v' - us i \<le> us now" using v(6) False by auto
    ultimately show ?thesis using v False ok(2) by (subst real_next.simps) simp
  qed
qed

text \<open>Constants of a machine on which \<open>hzto\<close> does not trap, and timers that \<open>itimerfix\<close> has passed.\<close>

definition hz_ok :: "clk \<Rightarrow> bool" where
  "hz_ok st \<longleftrightarrow> 1000 \<le> tick st \<and> tick st < 1000000 \<and> 0 < hz st"

definition real_ok :: "addr \<Rightarrow> clk \<Rightarrow> bool" where
  "real_ok p st \<longleftrightarrow> tv_ok (time st) \<and> tv_ok (it_value (p_realtimer st p)) \<and> tv_ok (it_interval (p_realtimer st p))
     \<and> 0 \<le> us (it_interval (p_realtimer st p))"

lemma sdiv_pos: "0 < b \<Longrightarrow> 0 \<le> (a :: int) \<Longrightarrow> a sdiv b = a div b"
  by (cases "a = 0") (simp_all add: signed_divide_int_def)

lemma hz_ok_tick: "hz_ok st \<Longrightarrow> 0 < tick st sdiv 1000"
  using pos_imp_zdiv_pos_iff [of 1000 "tick st"] by (simp add: hz_ok_def sdiv_pos)

lemma hzto_returns: "hz_ok st \<Longrightarrow> \<exists>t. hzto v st = Inr t"
  using hz_ok_tick [of st] by (auto simp: hzto_def Let_def hz_ok_def)

lemma timeout_returns: "callfree st \<noteq> [] \<Longrightarrow> \<exists>st'. timeout f a t st = Inr st'"
  by (cases "callfree st") (simp_all add: timeout_def Let_def)

lemma set_real_sel [simp]:
  "callfree (set_real p itv st) = callfree st" "time (set_real p itv st) = time st" "tick (set_real p itv st) = tick st" "hz (set_real p itv st) = hz st"
  "cprocs (set_real p itv st) = cprocs st" "p_realtimer (set_real p itv st) = (p_realtimer st)(p := itv)" "p_timer (set_real p itv st) = p_timer st"
  by (simp_all add: set_real_def)

lemma psignal_sel [simp]:
  "callfree (psignal p sig st) = callfree st" "time (psignal p sig st) = time st" "tick (psignal p sig st) = tick st" "hz (psignal p sig st) = hz st"
  "p_realtimer (psignal p sig st) = p_realtimer st" "cprocs (psignal p sig st) = raise_event (Psignal p sig) (cprocs st)"
  by (simp_all add: psignal_def)

lemma hzto_cong: "time st' = time st \<Longrightarrow> tick st' = tick st \<Longrightarrow> hz st' = hz st \<Longrightarrow> hzto v st' = hzto v st"
  by (simp only: hzto_def)

lemma set_psig_queue:
  "clk_ok st \<Longrightarrow> clk_ok (set_real p itv (psignal p sig st)) \<and> clk_dues (set_real p itv (psignal p sig st)) = clk_dues st"
  using same_queue [of "set_real p itv (psignal p sig st)" st] by simp

text \<open>What \<open>realitexpire\<close> does: the signal, and the timer cleared or set to the next expiration.\<close>

definition expired :: "addr \<Rightarrow> clk \<Rightarrow> clk \<Rightarrow> bool" where
  "expired p st st' \<longleftrightarrow>
     cprocs st' = raise_event (Psignal p SIGALRM) (cprocs st) \<and> time st' = time st
   \<and> (\<forall>q. q \<noteq> p \<longrightarrow> p_realtimer st' q = p_realtimer st q) \<and> it_interval (p_realtimer st' p) = it_interval (p_realtimer st p)
   \<and> (let i = us (it_interval (p_realtimer st p)); v = us (it_value (p_realtimer st p)); v' = us (it_value (p_realtimer st' p))
      in if i = 0 then v' = 0 \<and> clk_dues st' = clk_dues st
         else us (time st) < v' \<and> (\<exists>k \<ge> 1. v' = v + k * i) \<and> (v' = v + i \<or> v' - i \<le> us (time st))
            \<and> (\<exists>t. hzto (it_value (p_realtimer st' p)) st = Inr t \<and> clk_dues st' = insort_key snd ((Realitexpire, p), max 1 t) (clk_dues st)))"

lemma realitexpire_eff:
  assumes ok: "clk_ok st" "hz_ok st" "real_ok p st" "callfree st \<noteq> []"
  shows "\<exists>st'. realitexpire p st = Inr st' \<and> clk_ok st' \<and> expired p st st' \<and> real_ok p st' \<and> hz_ok st'
    \<and> length (calltodo st') + length (callfree st') = length (calltodo st) + length (callfree st)"
proof (cases "us (it_interval (p_realtimer st p)) = 0")
  case True
  let ?st = "set_real p ((p_realtimer st p)\<lparr>it_value := timerclear\<rparr>) (psignal p SIGALRM st)"
  have "\<not> timerisset (it_interval (p_realtimer st p))" using True ok(3) timerisset_us by (auto simp: real_ok_def)
  then have "realitexpire p st = Inr ?st" by (simp add: realitexpire_def Let_def)
  moreover have "tv_ok timerclear" "us timerclear = 0" by (simp_all add: tv_ok_def timerclear_def us_def)
  ultimately show ?thesis using True ok set_psig_queue by (auto simp: expired_def Let_def real_ok_def hz_ok_def)
next
  case False
  define itv where "itv = p_realtimer st p"
  have r: "tv_ok (time st)" "tv_ok (it_interval itv)" "tv_ok (it_value itv)" "0 < us (it_interval itv)"
    using ok(3) False by (auto simp: real_ok_def itv_def)
  obtain v' where v: "real_next (time st) (it_interval itv) (it_value itv) = Some v'" "tv_ok v'" "us (time st) < us v'"
    "\<exists>k \<ge> 1. us v' = us (it_value itv) + k * us (it_interval itv)" "us v' = us (it_value itv) + us (it_interval itv) \<or> us v' - us (it_interval itv) \<le> us (time st)"
    using real_next_ends [OF r] by blast
  define st1 where "st1 = set_real p (itv\<lparr>it_value := v'\<rparr>) (psignal p SIGALRM st)"
  obtain t where t: "hzto v' st = Inr t" using hzto_returns [OF ok(2)] by blast
  have t1: "hzto v' st1 = Inr t" using t hzto_cong [of st1 st v'] by (simp add: st1_def)
  have "callfree st1 \<noteq> []" using ok(4) by (simp add: st1_def)
  then obtain st2 where s: "timeout Realitexpire p t st1 = Inr st2" using timeout_returns by blast
  have q: "clk_ok st1" "clk_dues st1 = clk_dues st" using set_psig_queue [OF ok(1)] by (simp_all add: st1_def)
  note e = timeout_eff [OF q(1) s]
  have "realitexpire p st = Inr st2"
    using False ok(3) timerisset_us v(1) t1 s by (simp add: realitexpire_def Let_def real_ok_def itv_def [symmetric] st1_def)
  moreover have "expired p st st2"
    using e q(2) v t False by (auto simp: expired_def Let_def st1_def itv_def)
  moreover have "real_ok p st2" "hz_ok st2" using ok(2,3) v(2) e by (simp_all add: real_ok_def st1_def itv_def hz_ok_def)
  moreover have "length (calltodo st2) + length (callfree st2) = length (calltodo st) + length (callfree st)" using e(3) by (simp add: st1_def)
  ultimately show ?thesis using e(2) by blast
qed

text \<open>The constants and all timers are in order: the contract of \<open>softclock\<close>, whose faults come only from functions
  that call \<open>timeout\<close> more than once.\<close>

definition clk_inv :: "clk \<Rightarrow> bool" where
  "clk_inv st \<longleftrightarrow> clk_ok st \<and> hz_ok st \<and> (\<forall>p. real_ok p st)"

lemma expired_real_ok: "expired p st st' \<Longrightarrow> real_ok p st' \<Longrightarrow> real_ok q st \<Longrightarrow> real_ok q st'"
  by (cases "q = p") (auto simp: expired_def real_ok_def Let_def)

lemma expired_due_now: "expired p st st' \<Longrightarrow> due_now st' = due_now st"
  by (auto simp: expired_def Let_def due_now_def due_now_insort split: if_splits)

lemma clk_inv_pop:
  assumes "clk_inv st" "calltodo st = c # cs" "c_time c \<le> 0"
  shows "clk_inv (st\<lparr>calltodo := cs, callfree := c # callfree st\<rparr>)"
proof -
  have "max 0 (c_time c) = 0" using assms(3) by simp
  then show ?thesis using assms(1,2) by (simp add: clk_inv_def clk_ok_def clk_dues_def hz_ok_def real_ok_def)
qed

lemma qops_inv: "clk_inv st \<Longrightarrow> qops os st = Inr st' \<Longrightarrow> clk_inv st' \<and> due_now st' \<le> due_now st"
  using qops_keeps [of st os st'] by (simp add: clk_inv_def hz_ok_def real_ok_def)

lemma realitexpire_inv:
  assumes "clk_inv st" "callfree st \<noteq> []"
  shows "\<exists>st'. realitexpire p st = Inr st' \<and> clk_inv st' \<and> due_now st' = due_now st"
proof -
  obtain st' where "realitexpire p st = Inr st'" "clk_ok st'" "expired p st st'" "real_ok p st'" "hz_ok st'"
    using realitexpire_eff [of st p] assms by (auto simp: clk_inv_def)
  then show ?thesis using expired_real_ok [of p st st'] expired_due_now [of p st st'] assms(1) by (auto simp: clk_inv_def)
qed

interpretation rc: callout_funs "run_callout (\<lambda>n a st. qops (what n a st) st)" clk_inv
    "{e. e = Panic ''timeout table overflow'' \<and> (\<exists>n a st. 1 < q_timeouts (what n a st))}" for what
proof
  fix f a e and st st' :: clk assume i: "clk_inv st" "callfree st \<noteq> []"
  let ?run = "run_callout (\<lambda>n a st. qops (what n a st) st) f a st"
  show "clk_inv st' \<and> due_now st' \<le> due_now st" if "?run = Inr st'"
    using that realitexpire_inv [OF i, of a] qops_inv [OF i(1)] by (cases f) (auto simp: run_callout_def)
  show "e \<in> {e. e = Panic ''timeout table overflow'' \<and> (\<exists>n a st. 1 < q_timeouts (what n a st))}" if r: "?run = Inl e"
  proof (cases f)
    case Realitexpire
    then show ?thesis using r realitexpire_inv [OF i, of a] by (auto simp: run_callout_def)
  next
    case (Func n)
    then have q: "qops (what n a st) st = Inl e" using r by (simp add: run_callout_def)
    have "1 < q_timeouts (what n a st)" using q qops_once [OF _ i(2), of "what n a st"] by (fastforce simp: not_less [symmetric])
    then show ?thesis using qops_faults [OF q] by blast
  qed
qed (auto simp: clk_inv_pop, simp add: clk_inv_def)

section \<open>Delivery\<close>

definition alarms :: "((callfun \<times> addr) \<times> int) list \<Rightarrow> pevent list" where
  "alarms ds = concat (map (\<lambda>x. if fst (fst x) = Realitexpire then [Psignal (snd (fst x)) SIGALRM] else []) ds)"

definition due_list :: "clk \<Rightarrow> ((callfun \<times> addr) \<times> int) list" where
  "due_list st = filter (\<lambda>x. snd x \<le> 0) (clk_dues st)"

lemma due_insort: "1 \<le> t \<Longrightarrow> filter (\<lambda>x. snd x \<le> 0) (insort_key snd (k, t :: int) xs) = filter (\<lambda>x. snd x \<le> 0) xs"
  by (induction xs) auto

lemma expired_due: "expired p st st' \<Longrightarrow> due_list st' = due_list st"
  by (auto simp: expired_def Let_def due_list_def due_insort split: if_splits)

lemma alarms_remove: "fst k \<noteq> Realitexpire \<Longrightarrow> alarms (filter P (due_remove k xs)) = alarms (filter P xs)"
  by (induction xs) (auto simp: alarms_def)

text \<open>The signals \<open>SIGALRM\<close> sent.\<close>

fun is_alarm :: "pevent \<Rightarrow> bool" where
  "is_alarm (Psignal p sig) = (sig = SIGALRM)"
| "is_alarm _ = False"

abbreviation sigalrms :: "pstate \<Rightarrow> pevent list" where
  "sigalrms ps \<equiv> filter is_alarm (pevents ps)"

text \<open>A function that sends no \<open>SIGALRM\<close> itself and cancels no real timer.\<close>

fun quiet :: "pstate \<Rightarrow> qop list \<Rightarrow> bool" where
  "quiet ps [] = True"
| "quiet ps (Qtimeout f a t # os) = quiet ps os"
| "quiet ps (Quntimeout f a # os) = (f \<noteq> Realitexpire \<and> quiet ps os)"
| "quiet ps (Qother ps' # os) = (sigalrms ps' = sigalrms ps \<and> quiet ps' os)"

lemma qops_quiet:
  "clk_ok st \<Longrightarrow> quiet (cprocs st) os \<Longrightarrow> qops os st = Inr st'
     \<Longrightarrow> alarms (due_list st') = alarms (due_list st) \<and> sigalrms (cprocs st') = sigalrms (cprocs st)"
proof (induction os st arbitrary: st' rule: qops.induct)
  case (2 f a t os st)
  then obtain st1 where s: "timeout f a t st = Inr st1" "qops os st1 = Inr st'" by auto
  note e = timeout_eff [OF 2(2) s(1)]
  have "due_list st1 = due_list st" using e(1) by (simp add: due_list_def due_insort)
  then show ?case using 2(1) [OF e(2) _ s(2)] 2(3) e(4) by simp
next
  case (3 f a os st)
  note e = untimeout_eff [OF 3(2), of f a]
  have "alarms (due_list (untimeout f a st)) = alarms (due_list st)" using 3(3) e(1) by (simp add: due_list_def alarms_remove)
  then show ?case using 3(1) [of st'] 3(3,4) e(2,4) by simp
next
  case (4 ps os st)
  have "clk_ok (st\<lparr>cprocs := ps\<rparr>)" "due_list (st\<lparr>cprocs := ps\<rparr>) = due_list st"
    using 4(2) same_queue [of "st\<lparr>cprocs := ps\<rparr>" st] by (simp_all add: due_list_def)
  then show ?case using 4 by simp
qed simp

text \<open>One round of the loop.\<close>

lemma run_callout_alarms:
  assumes i: "clk_inv st" "callfree st \<noteq> []" and what: "\<And>n a st. q_timeouts (what n a st) \<le> 1 \<and> quiet (cprocs st) (what n a st)"
  shows "\<exists>st'. run_callout (\<lambda>n a st. qops (what n a st) st) f a st = Inr st' \<and> clk_inv st' \<and> due_now st' \<le> due_now st
    \<and> alarms (due_list st') = alarms (due_list st) \<and> sigalrms (cprocs st') = sigalrms (cprocs st) @ alarms [((f, a), d)]"
proof (cases f)
  case Realitexpire
  obtain st' where s: "realitexpire a st = Inr st'" "expired a st st'"
    using realitexpire_eff [of st a] i by (auto simp: clk_inv_def)
  have "sigalrms (cprocs st') = sigalrms (cprocs st) @ alarms [((f, a), d)]"
    using s(2) Realitexpire by (simp add: expired_def raise_event_def alarms_def)
  then show ?thesis using s expired_due [OF s(2)] realitexpire_inv [OF i, of a] Realitexpire by (auto simp: run_callout_def)
next
  case (Func n)
  obtain st' where s: "qops (what n a st) st = Inr st'" using qops_once [of "what n a st"] what i(2) by blast
  have "alarms (due_list st') = alarms (due_list st) \<and> sigalrms (cprocs st') = sigalrms (cprocs st)"
    using qops_quiet [OF _ _ s] what i(1) by (simp add: clk_inv_def)
  then show ?thesis using s qops_inv [OF i(1) s] Func by (auto simp: run_callout_def alarms_def)
qed

lemma softclock_delivers:
  assumes "clk_inv st" and what: "\<And>n a st. q_timeouts (what n a st) \<le> 1 \<and> quiet (cprocs st) (what n a st)"
  shows "\<exists>st'. softclock (run_callout (\<lambda>n a st. qops (what n a st) st)) st = Some (Inr st') \<and> clk_inv st' \<and> due_list st' = []
    \<and> sigalrms (cprocs st') = sigalrms (cprocs st) @ alarms (due_list st)"
  using assms(1)
proof (induction "due_now st" arbitrary: st rule: less_induct)
  case less
  have ok: "clk_ok st" using less.prems by (simp add: clk_inv_def)
  show ?case
  proof (cases "\<exists>c cs. calltodo st = c # cs \<and> c_time c \<le> 0")
    case False
    then have "due_list st = []" using ok by (cases "calltodo st") (auto simp: due_list_def clk_ok_def clk_dues_def filter_empty_conv)
    then show ?thesis using False less.prems by (subst softclock.simps) (auto simp: alarms_def split: list.split)
  next
    case True
    then obtain c cs where q: "calltodo st = c # cs" "c_time c \<le> 0" by blast
    define st1 where "st1 = st\<lparr>calltodo := cs, callfree := c # callfree st\<rparr>"
    have i: "clk_inv st1" "callfree st1 \<noteq> []" using clk_inv_pop [OF less.prems q] by (simp_all add: st1_def)
    let ?d = "((c_func c, c_arg c), c_time c)"
    have "clk_dues st = ?d # clk_dues st1" using q by (simp add: clk_dues_def st1_def max_def)
    then have d: "alarms (due_list st) = alarms [?d] @ alarms (due_list st1)" "due_now st = Suc (due_now st1)"
      using q(2) by (simp_all add: due_list_def due_now_def alarms_def)
    obtain st2 where s: "run_callout (\<lambda>n a st. qops (what n a st) st) (c_func c) (c_arg c) st1 = Inr st2" "clk_inv st2"
      "due_now st2 \<le> due_now st1" "alarms (due_list st2) = alarms (due_list st1)" "sigalrms (cprocs st2) = sigalrms (cprocs st1) @ alarms [?d]"
      using run_callout_alarms [where what = what and f = "c_func c" and a = "c_arg c" and d = "c_time c", OF i what] by (elim exE conjE) (rule that)
    have "due_now st2 < due_now st" using s(3) d(2) by simp
    from less.hyps [OF this s(2)] obtain st' where r: "softclock (run_callout (\<lambda>n a st. qops (what n a st) st)) st2 = Some (Inr st')"
      "clk_inv st'" "due_list st' = []" "sigalrms (cprocs st') = sigalrms (cprocs st2) @ alarms (due_list st2)" by blast
    have "softclock (run_callout (\<lambda>n a st. qops (what n a st) st)) st = Some (Inr st')"
      using q s(1) r(1) by (subst softclock.simps) (simp add: st1_def)
    then show ?thesis using r s(4,5) d(1) by (simp add: st1_def)
  qed
qed

section \<open>Adjusting the clock\<close>

lemma adj_rate_eff:
  assumes "0 < tickadj st" "adj_rate d st = (nd, r)"
  defines "k \<equiv> (if bigadj st < d then 10 * tickadj st else tickadj st)"
  shows "r \<noteq> 0 \<and> \<bar>r\<bar> = k \<and> \<bar>d - nd\<bar> < k \<and> (\<exists>n. nd = int n * r \<and> int n = \<bar>d\<bar> div k)"
proof -
  have k: "0 < k" using assms(1) by (simp add: k_def)
  have "d - d smod k = d sdiv k * k" by (simp add: minus_smod_eq_sdiv_mult)
  then have nd: "nd = d sdiv k * k" "r = (if nd < 0 then - k else k)"
    using assms(2) by (auto simp: adj_rate_def Let_def k_def [symmetric] split: if_splits)
  have "d - nd = d smod k" using nd(1) by (simp add: minus_sdiv_mult_eq_smod)
  then have b: "\<bar>d - nd\<bar> < k" using k by (simp add: smod_int_alt_def abs_mult sgn_if)
  define m where "m = \<bar>d\<bar> div k"
  have "0 \<le> m" using k by (simp add: m_def pos_imp_zdiv_nonneg_iff)
  have s: "d sdiv k = sgn d * m" using k by (simp add: signed_divide_int_def m_def)
  have neg: "nd < 0 \<longleftrightarrow> d < 0 \<and> m \<noteq> 0"
  proof (cases "d < 0")
    case True
    have "0 < m * k \<longleftrightarrow> m \<noteq> 0" using k \<open>0 \<le> m\<close> by (auto simp: zero_less_mult_iff)
    then show ?thesis using True by (simp add: nd s)
  next
    case False
    then have "0 \<le> sgn d * m * k" using k \<open>0 \<le> m\<close> by (simp add: sgn_if)
    then show ?thesis using False by (simp add: nd s)
  qed
  have "nd = m * r" unfolding nd(2) neg using s nd(1) by (cases "d < 0") (auto simp: sgn_if m_def)
  then have "nd = int (nat m) * r \<and> int (nat m) = m" using \<open>0 \<le> m\<close> by simp
  then show ?thesis using nd(2) k b unfolding m_def [symmetric] by (auto intro!: exI [of _ "nat m"])
qed

lemma hardclocks_adjust:
  fixes ms :: "bool list"
  assumes "timedelta st = int n * tickdelta st" "tickdelta st \<noteq> 0"
  defines "st' \<equiv> fold (\<lambda>u st. fst (hardclock u st)) ms st"
  shows "timedelta st' = int (n - length ms) * tickdelta st \<and> tickdelta st' = tickdelta st
    \<and> us (time st') = us (time st) + int (length ms) * tick st + int (min n (length ms)) * tickdelta st"
  using assms(1,2) unfolding st'_def
proof (induction ms arbitrary: st n)
  case (Cons m ms)
  let ?st = "fst (hardclock m st)"
  show ?case
  proof (cases n)
    case 0
    then show ?thesis using Cons.IH [of ?st 0] Cons.prems by (simp add: algebra_simps)
  next
    case (Suc n')
    have nz: "timedelta st \<noteq> 0" unfolding Cons.prems(1) Suc using Cons.prems(2) by simp
    then have "timedelta ?st = int n' * tickdelta ?st" using Cons.prems(1) Suc by (simp add: algebra_simps)
    then show ?thesis using Cons.IH [of ?st n'] Cons.prems(2) Suc nz by (simp add: algebra_simps)
  qed
qed simp

section \<open>Properties\<close>

text \<open>C5. The callout queue keeps, as differences, the number of ticks until each call is due: a clock interrupt takes one from
  all of them and asks for the software interrupt exactly when one is due, \<open>timeout\<close> adds one in order of time or
  panics exactly when no callout is free, and \<open>untimeout\<close> removes the first that matches.\<close>

theorem callouts_refine:
  assumes "clk_ok st"
  shows "clk_dues (fst (hardclock u st)) = map (\<lambda>(k, d). (k, d - 1)) (clk_dues st) \<and> clk_ok (fst (hardclock u st))
    \<and> (snd (hardclock u st) \<longleftrightarrow> (\<exists>(k, d) \<in> set (clk_dues (fst (hardclock u st))). d \<le> 0))
    \<and> (case timeout f a t st of
         Inl e \<Rightarrow> e = Panic ''timeout table overflow'' \<and> callfree st = []
       | Inr st' \<Rightarrow> callfree st \<noteq> [] \<and> clk_dues st' = insort_key snd ((f, a), max 1 t) (clk_dues st) \<and> clk_ok st'
           \<and> length (calltodo st') + length (callfree st') = length (calltodo st) + length (callfree st))
    \<and> clk_dues (untimeout f a st) = due_remove (f, a) (clk_dues st) \<and> clk_ok (untimeout f a st)
    \<and> length (calltodo (untimeout f a st)) + length (callfree (untimeout f a st)) = length (calltodo st) + length (callfree st)"
proof -
  have m: "map (\<lambda>(k, d). (k, d - 1)) xs = map due_dec xs" for xs by (simp add: due_dec_def split_beta comp_def)
  have t: "case timeout f a t st of
      Inl e \<Rightarrow> e = Panic ''timeout table overflow'' \<and> callfree st = []
    | Inr st' \<Rightarrow> callfree st \<noteq> [] \<and> clk_dues st' = insort_key snd ((f, a), max 1 t) (clk_dues st) \<and> clk_ok st'
        \<and> length (calltodo st') + length (callfree st') = length (calltodo st) + length (callfree st)"
  proof (cases "timeout f a t st")
    case (Inl e)
    then show ?thesis by (auto simp: timeout_def Let_def split: list.splits)
  next
    case (Inr st')
    moreover have "callfree st \<noteq> []" using Inr by (auto simp: timeout_def Let_def)
    ultimately show ?thesis using timeout_eff(1-3) [OF assms Inr] by simp
  qed
  show ?thesis using hardclock_eff(1-3) [OF assms, of u] untimeout_eff(1-3) [OF assms, of f a] t unfolding m by (auto simp: split_beta)
qed

text \<open>C19. When the clock's constants and all real timers are in order, \<open>softclock\<close> ends, whatever calls of \<open>timeout\<close> and
  \<open>untimeout\<close> the functions make that it calls, among other changes to the processes: a callout put back is never due at once. It returns with the timers in
  order and nothing left that is due, if no function calls \<open>timeout\<close> more than once; otherwise it may instead
  panic for want of callouts, its only fault.\<close>

theorem softclock_ends:
  assumes "clk_ok st" "hz_ok st" "\<And>p. real_ok p st"
  shows "\<exists>r. softclock (run_callout (\<lambda>n a st. qops (what n a st) st)) st = Some r
    \<and> (\<forall>e. r = Inl e \<longrightarrow> e = Panic ''timeout table overflow'' \<and> (\<exists>n a st. 1 < q_timeouts (what n a st)))
    \<and> (\<forall>st'. r = Inr st' \<longrightarrow> clk_ok st' \<and> (\<forall>p. real_ok p st') \<and> (\<forall>(k, d) \<in> set (clk_dues st'). 0 < d))"
proof -
  have d: "due_now st' = 0 \<Longrightarrow> \<forall>(k, d) \<in> set (clk_dues st'). 0 < d" for st'
    by (auto simp: due_now_def filter_empty_conv)
  have "clk_inv st" using assms by (simp add: clk_inv_def)
  then obtain r where r: "softclock (run_callout (\<lambda>n a st. qops (what n a st) st)) st = Some r"
    "\<forall>e. r = Inl e \<longrightarrow> e = Panic ''timeout table overflow'' \<and> (\<exists>n a st. 1 < q_timeouts (what n a st))"
    "\<forall>st'. r = Inr st' \<longrightarrow> clk_inv st' \<and> due_now st' = 0" using rc.soft_loop_ends [of st what] by blast
  have "clk_ok st' \<and> (\<forall>p. real_ok p st') \<and> (\<forall>(k, d) \<in> set (clk_dues st'). 0 < d)" if "r = Inr st'" for st'
    using r(3) that d [of st'] by (simp add: clk_inv_def)
  then show ?thesis using r(1,2) by blast
qed

text \<open>C22. When the constants and all timers are in order, \<open>softclock\<close> returns with nothing left that is due, and sends \<open>SIGALRM\<close>
  to the processes whose real timers are due, once for each, in the order of their times, and to no other. The other functions it calls
  may change the processes and set and cancel timeouts, as long as they send no \<open>SIGALRM\<close>, cancel no real timer, call \<open>timeout\<close> at
  most once, as those do that put themselves back, and leave the timers and the time alone.\<close>

theorem softclock_alarms:
  assumes "clk_ok st" "hz_ok st" "\<And>p. real_ok p st"
    and "\<And>n a st. q_timeouts (what n a st) \<le> 1 \<and> quiet (cprocs st) (what n a st)"
  shows "\<exists>st'. softclock (run_callout (\<lambda>n a st. qops (what n a st) st)) st = Some (Inr st') \<and> clk_ok st'
    \<and> filter (\<lambda>(k, d). d \<le> 0) (clk_dues st') = []
    \<and> filter is_alarm (pevents (cprocs st')) = filter is_alarm (pevents (cprocs st))
        @ map (\<lambda>(k, d). Psignal (snd k) SIGALRM) (filter (\<lambda>(k, d). d \<le> 0 \<and> fst k = Realitexpire) (clk_dues st))"
proof -
  have a: "alarms (filter (\<lambda>(k, d). d \<le> 0) ds)
      = map (\<lambda>(k, d). Psignal (snd k) SIGALRM) (filter (\<lambda>(k, d). d \<le> 0 \<and> fst k = Realitexpire) ds)" for ds
    by (induction ds) (auto simp: alarms_def)
  have d: "(\<lambda>x. snd x \<le> (0 :: int)) = (\<lambda>(k :: callfun \<times> addr, d). d \<le> 0)" by (simp add: fun_eq_iff)
  have "clk_inv st" using assms by (simp add: clk_inv_def)
  from softclock_delivers [of st what, OF this assms(4)] show ?thesis unfolding due_list_def d a by (auto simp: clk_inv_def)
qed

text \<open>C29. When the real timer of a process expires, it gets \<open>SIGALRM\<close>; a timer without interval is cleared, another goes on to the
  first expiration after now in steps of its interval, however late the call was, and is put back on the queue for then.\<close>

theorem realitexpire_correct:
  assumes "clk_ok st" "hz_ok st" "real_ok p st" "callfree st \<noteq> []"
  shows "\<exists>st' t. realitexpire p st = Inr st' \<and> pevents (cprocs st') = pevents (cprocs st) @ [Psignal p SIGALRM] \<and> clk_ok st'
    \<and> (let i = us (it_interval (p_realtimer st p)); v = us (it_value (p_realtimer st p)); v' = us (it_value (p_realtimer st' p))
       in if i = 0 then v' = 0 \<and> clk_dues st' = clk_dues st
          else us (time st) < v' \<and> (\<exists>k \<ge> 1. v' = v + k * i) \<and> (v' = v + i \<or> v' - i \<le> us (time st))
             \<and> hzto (it_value (p_realtimer st' p)) st = Inr t \<and> clk_dues st' = insort_key snd ((Realitexpire, p), max 1 t) (clk_dues st))"
proof -
  obtain st' where s: "realitexpire p st = Inr st'" "clk_ok st'" "expired p st st'" using realitexpire_eff [OF assms] by blast
  have "pevents (cprocs st') = pevents (cprocs st) @ [Psignal p SIGALRM]" using s(3) by (simp add: expired_def raise_event_def)
  then show ?thesis using s unfolding expired_def Let_def by metis
qed

text \<open>C33. \<open>itimerdecr\<close> takes the time from the timer, and at its end reloads it with the interval less the time that has
  passed since: no time is lost.\<close>

theorem itimerdecr_correct:
  assumes "tv_ok (it_value itp)" "tv_ok (it_interval itp)" "0 < us (it_value itp)" "0 < usec" "usec < 1000000"
    "us (it_interval itp) = 0 \<or> usec \<le> us (it_interval itp)"
  shows "it_interval (fst (itimerdecr itp usec)) = it_interval itp \<and> tv_ok (it_value (fst (itimerdecr itp usec)))
    \<and> (if usec < us (it_value itp)
       then snd (itimerdecr itp usec) = 1 \<and> us (it_value (fst (itimerdecr itp usec))) = us (it_value itp) - usec
       else snd (itimerdecr itp usec) = 0
          \<and> us (it_value (fst (itimerdecr itp usec))) =
              (if us (it_interval itp) = 0 then 0 else us (it_interval itp) - (usec - us (it_value itp))))"
proof -
  obtain i s m where itp: "itp = \<lparr>it_interval = i, it_value = \<lparr>tv_sec = s, tv_usec = m\<rparr>\<rparr>" by (cases itp; cases "it_value itp") auto
  have v: "0 \<le> m" "m < 1000000" "0 < s * 1000000 + m" "0 \<le> s" using assms(1,3) by (auto simp: itp us_def tv_ok_def)
  have i: "tv_ok i" "us i = 0 \<or> usec \<le> us i" using assms(2,6) by (simp_all add: itp)
  have e: "it_interval (fst (itimer_expire \<lparr>it_interval = i, it_value = w\<rparr> c)) = i \<and> tv_ok (it_value (fst (itimer_expire \<lparr>it_interval = i, it_value = w\<rparr> c)))
      \<and> snd (itimer_expire \<lparr>it_interval = i, it_value = w\<rparr> c) = 0
      \<and> us (it_value (fst (itimer_expire \<lparr>it_interval = i, it_value = w\<rparr> c))) = (if us i = 0 then 0 else us i - c)"
    if "0 \<le> c" "c < usec" "tv_sec w = 0" for w c
    using i that assms(5) timerisset_us [OF i(1)]
    by (auto simp: itimer_expire_def Let_def tv_ok_def us_def)
  show ?thesis
  proof (cases "m < usec \<and> s = 0")
    case True
    then show ?thesis using e [of "usec - m" "\<lparr>tv_sec = s, tv_usec = m\<rparr>"] v by (simp add: itp itimerdecr_def us_def)
  next
    case False
    define w where "w = (if m < usec then \<lparr>tv_sec = s - 1, tv_usec = m + 1000000 - usec\<rparr> else \<lparr>tv_sec = s, tv_usec = m - usec\<rparr>)"
    have w: "tv_ok w" "us w = s * 1000000 + m - usec" "0 \<le> tv_sec w" using v False assms(4,5) by (auto simp: w_def tv_ok_def us_def)
    have "itimerdecr itp usec = (if timerisset w then (\<lparr>it_interval = i, it_value = w\<rparr>, 1) else itimer_expire \<lparr>it_interval = i, it_value = w\<rparr> 0)"
      using False by (auto simp: itp itimerdecr_def Let_def w_def)
    moreover have "us w = 0 \<Longrightarrow> tv_sec w = 0" using us_div [OF w(1)] by simp
    moreover have "0 \<le> us w" using w(1,3) by (simp add: us_def tv_ok_def)
    ultimately show ?thesis using e [of 0 w] w timerisset_us [OF w(1)] assms(4) by (auto simp: itp us_def)
  qed
qed

text \<open>C32. After \<open>adjtime\<close> the clock interrupts apply the correction bit by bit and then go on as before: the time is that of the
  ticks and of the correction, rounded toward zero to a multiple of the skew, neither more nor less.\<close>

theorem adjtime_applies:
  assumes "cr_uid (crmem (cprocs st) (p_ucred (cprocs st) p)) = 0" "0 < tickadj st"
    and d: "d = tv_sec atv * 1000000 + tv_usec atv" "- 2147483648 \<le> d" "d < 2147483648"
    and k: "k = (if bigadj st < d then 10 * tickadj st else tickadj st)"
  shows "\<exists>st1 old nd. adjtime p (Inr atv) st = (st1, Inr old) \<and> us old = timedelta st \<and> \<bar>d - nd\<bar> < k \<and> time st1 = time st
    \<and> (\<forall>ms. \<bar>d\<bar> div k \<le> int (length ms) \<longrightarrow>
         (let st2 = fold (\<lambda>u st. fst (hardclock u st)) ms st1
          in timedelta st2 = 0 \<and> us (time st2) = us (time st) + int (length ms) * tick st + nd))"
proof -
  obtain nd r where r: "adj_rate d st = (nd, r)" by force
  define ps where "ps = snd (suser (p_ucred (cprocs st) p) (Some p) (cprocs st))"
  have su: "suser (p_ucred (cprocs st) p) (Some p) (cprocs st) = (None, ps)" using assms(1) by (simp add: suser_def ps_def)
  have ar: "adj_rate d (st\<lparr>cprocs := ps\<rparr>) = (nd, r)"
  proof -
    have "adj_rate d (st\<lparr>cprocs := ps\<rparr>) = adj_rate d st" by (simp add: adj_rate_def)
    then show ?thesis using r by simp
  qed
  define st1 where "st1 = st\<lparr>cprocs := ps, timedelta := nd, tickdelta := r\<rparr>"
  define old where "old = \<lparr>tv_sec = timedelta st sdiv 1000000, tv_usec = timedelta st smod 1000000\<rparr>"
  have a: "adjtime p (Inr atv) st = (st1, Inr old)"
    using d ar by (simp add: adjtime_def su st1_def old_def Let_def)
  obtain n where n: "r \<noteq> 0" "\<bar>d - nd\<bar> < k" "nd = int n * r" "int n = \<bar>d\<bar> div k"
    using adj_rate_eff [OF assms(2) r] unfolding k [symmetric] by blast
  have "timedelta (fold (\<lambda>u st. fst (hardclock u st)) ms st1) = 0
      \<and> us (time (fold (\<lambda>u st. fst (hardclock u st)) ms st1)) = us (time st) + int (length ms) * tick st + nd"
    if "\<bar>d\<bar> div k \<le> int (length ms)" for ms
  proof -
    have "n \<le> length ms" using that n(4) by simp
    then show ?thesis using hardclocks_adjust [of st1 n ms] n(1,3) by (simp add: st1_def min_def)
  qed
  moreover have "us old = timedelta st" by (simp add: old_def us_def sdiv_mult_smod_eq)
  ultimately show ?thesis using a n(2) unfolding Let_def by (intro exI [of _ st1] exI [of _ old] exI [of _ nd]) (simp add: st1_def)
qed

text \<open>C31. What \<open>setitimer\<close> has set is what \<open>getitimer\<close> returns, with values below a tick raised to it. The real timer has exactly
  one callout more than it had others, due after \<open>hzto\<close> ticks, if it is set and none if it is not.\<close>

theorem setitimer_getitimer:
  assumes "clk_ok st" "hz_ok st" "tv_ok (time st)" "0 \<le> us (time st)" "callfree st \<noteq> []" "0 \<le> which" "which \<le> 2"
    and fx: "itimerfix (tick st) (it_value a) = Some v" "itimerfix (tick st) (it_interval a) = Some i"
  shows "\<exists>st'. setitimer p which (Some (Inr a)) None st = Inr (st', Inr None) \<and> clk_ok st'
    \<and> getitimer p which None st' = Inr \<lparr>it_interval = i, it_value = v\<rparr>
    \<and> (let ds = due_remove (Realitexpire, p) (clk_dues st)
       in if which \<noteq> 0 then clk_dues st' = clk_dues st
          else if us v = 0 then clk_dues st' = ds
          else \<exists>t. hzto (timevaladd v (time st)) st = Inr t \<and> clk_dues st' = insort_key snd ((Realitexpire, p), max 1 t) ds)"
proof -
  have "tick st < 1000000" using assms(2) by (simp add: hz_ok_def)
  note v = itimerfix_ok [OF fx(1) this] and i = itimerfix_ok [OF fx(2) this]
  define w where "w = \<lparr>it_interval = i, it_value = v\<rparr>"
  have s: "setitimer p which (Some (Inr a)) None st = bindE (set_itimer p which w st) (\<lambda>st. Inr (st, Inr None))"
    using fx assms(7) by (simp add: setitimer_def ITIMER_PROF_def w_def)
  have g: "\<not> ITIMER_PROF < which" using assms(7) by (simp add: ITIMER_PROF_def)
  consider "which \<noteq> 0" | "which = 0" "us v = 0" | "which = 0" "us v \<noteq> 0" by blast
  then show ?thesis
  proof cases
    case 1
    let ?st = "st\<lparr>p_timer := (p_timer st)(p := (p_timer st p)(which := w))\<rparr>"
    have "set_itimer p which w st = Inr ?st" using 1 by (simp add: set_itimer_def ITIMER_REAL_def)
    then show ?thesis using 1 s g assms(1) same_queue [of ?st st] by (simp add: getitimer_def ITIMER_REAL_def w_def)
  next
    case 2
    note u = untimeout_eff [OF assms(1), of Realitexpire p]
    have z: "\<not> timerisset v" using 2 timerisset_us v(1) by simp
    then have "set_itimer p which w st = Inr (set_real p w (untimeout Realitexpire p st))"
      using 2 by (simp add: set_itimer_def ITIMER_REAL_def w_def)
    then show ?thesis
      using 2 s g u z same_queue [of "set_real p w (untimeout Realitexpire p st)" "untimeout Realitexpire p st"]
      by (simp add: getitimer_def ITIMER_REAL_def w_def Let_def)
  next
    case 3
    note u = untimeout_eff [OF assms(1), of Realitexpire p]
    define v' where "v' = timevaladd v (time st)"
    obtain t where t: "hzto v' st = Inr t" using hzto_returns [OF assms(2)] by blast
    have "length (callfree st) \<le> length (callfree (untimeout Realitexpire p st))" by (simp add: untimeout_def split: prod.splits)
    then have "callfree (untimeout Realitexpire p st) \<noteq> []" using assms(5) by auto
    then obtain st1 where r: "timeout Realitexpire p t (untimeout Realitexpire p st) = Inr st1" using timeout_returns by blast
    note e = timeout_eff [OF u(2) r]
    have set: "timerisset v" using 3 timerisset_us v(1) by simp
    have "set_itimer p which w st = Inr (set_real p (w\<lparr>it_value := v'\<rparr>) st1)"
      using 3 set r t u(6-8) hzto_cong [of "untimeout Realitexpire p st" st v'] by (simp add: set_itimer_def ITIMER_REAL_def w_def v'_def)
    moreover have "getitimer p which None (set_real p (w\<lparr>it_value := v'\<rparr>) st1) = Inr w"
    proof -
      have "tv_ok v'" "us v' = us v + us (time st)" using v(1) assms(3) by (simp_all add: v'_def)
      then have "timerisset v'" "\<not> timerless v' (time st)" using v(2) 3 assms(3,4) timerisset_us us_less by auto
      moreover have "timevalsub v' (time st) = v" using v(1) assms(3) by (intro us_inj) (simp_all add: v'_def)
      ultimately show ?thesis using 3 g e(6) u(6) by (simp add: getitimer_def ITIMER_REAL_def w_def)
    qed
    ultimately show ?thesis
      using 3 s e u t same_queue [of "set_real p (w\<lparr>it_value := v'\<rparr>) st1" st1] by (simp add: w_def Let_def v'_def)
  qed
qed

text \<open>Setting the time keeps the time since the boot, and touches neither the monotonic clock nor the queue; without privilege it
  changes nothing.\<close>

theorem settimeofday_keeps_uptime:
  assumes "tzp = None \<or> tzp = Some (Inr z)"
  shows "case settimeofday p (Some (Inr atv)) tzp st of (st', r) \<Rightarrow>
      if cr_uid (crmem (cprocs st) (p_ucred (cprocs st) p)) = 0
      then r = None \<and> time st' = atv \<and> us (time st') - us (boottime st') = us (time st) - us (boottime st)
         \<and> us (time st') - us (runtime st') = us (time st) - us (runtime st)
         \<and> mono_time st' = mono_time st \<and> clk_dues st' = clk_dues st \<and> p_realtimer st' = p_realtimer st
      else r = Some EPERM \<and> st' = st"
proof -
  have "us \<lparr>tv_sec = tv_sec atv - s, tv_usec = tv_usec atv - m\<rparr> = us atv - us \<lparr>tv_sec = s, tv_usec = m\<rparr>" for s m
    by (simp add: us_def algebra_simps)
  moreover have "us \<lparr>tv_sec = tv_sec t, tv_usec = tv_usec t\<rparr> = us t" for t by (simp add: us_def)
  ultimately show ?thesis using assms by (auto simp: settimeofday_def suser_def Let_def clk_dues_def split: prod.splits)
qed

text \<open>\<open>hzto\<close> rounds down, on a machine with a tick of whole milliseconds and for times within 24 days: the
  number of ticks is less than a millisecond above the time and less than a tick below it. When the time is not a multiple of the tick
  a real timer expires before the time it has been set for.\<close>

theorem hzto_bounds:
  assumes "tv_ok v" "tv_ok (time st)" "tick st = 1000 * m" "0 < m" "0 \<le> us v - us (time st)" "tv_sec v - tv_sec (time st) \<le> 2146483"
  shows "\<exists>t. hzto v st = Inr t \<and> 0 \<le> t \<and> t * tick st < us v - us (time st) + 1000 \<and> us v - us (time st) < (t + 1) * tick st"
proof -
  define s where "s = tv_sec v - tv_sec (time st)"
  define u where "u = tv_usec v - tv_usec (time st)"
  have D: "us v - us (time st) = s * 1000000 + u" by (simp add: us_def s_def u_def algebra_simps)
  have u: "- 1000000 < u" "u < 1000000" using assms(1,2) by (auto simp: tv_ok_def u_def)
  then have s: "0 \<le> s" "s \<le> 2146483" using assms(5,6) D by (auto simp: s_def)
  define q where "q = u sdiv 1000"
  have q: "- 1000 < q" "q < 1000" "u < (q + 1) * 1000" "q * 1000 < u + 1000"
  proof -
    have "u = q * 1000 + u smod 1000" by (simp add: q_def sdiv_mult_smod_eq)
    moreover have "\<bar>u smod 1000\<bar> < 1000" by (simp add: smod_int_alt_def abs_mult sgn_if)
    ultimately show "u < (q + 1) * 1000" "q * 1000 < u + 1000" by auto
    have "\<bar>q\<bar> \<le> \<bar>u\<bar> div 1000" by (simp add: q_def signed_divide_int_def abs_mult sgn_if)
    moreover have "\<bar>u\<bar> div 1000 < 1000" using u by auto
    ultimately show "- 1000 < q" "q < 1000" by auto
  qed
  have ms: "0 \<le> s * 1000 + q"
  proof -
    have "0 \<le> s * 1000000 + u" using assms(5) D by simp
    then have "- 1000 < (s * 1000 + q) * 1000" using q(3) by (simp add: algebra_simps)
    then show ?thesis by auto
  qed
  define t where "t = (s * 1000 + q) div m"
  have k: "tick st sdiv 1000 = m" using assms(3,4) by (simp add: signed_divide_int_def abs_mult sgn_if)
  have w: "s_int s = s" "s_int (s * 1000) = s * 1000" "s_int u = u" "s_int (s * 1000 + q) = s * 1000 + q"
    by (rule s_int_id; use s u q in linarith)+
  have h: "hzto v st = Inr t"
    unfolding hzto_def s_def [symmetric] u_def [symmetric] Let_def w q_def [symmetric] k
    using s(2) assms(4) ms by (simp add: t_def sdiv_pos)
  have e: "s * 1000 + q = t * m + (s * 1000 + q) mod m" unfolding t_def by (rule div_mult_mod_eq [symmetric])
  define P where "P = t * m"
  have "P \<le> s * 1000 + q" "s * 1000 + q + 1 \<le> P + m"
    using e pos_mod_bound [OF assms(4), of "s * 1000 + q"] pos_mod_sign [OF assms(4), of "s * 1000 + q"]
    unfolding P_def [symmetric] by linarith+
  then have "1000 * P \<le> 1000 * (s * 1000 + q)" "1000 * (s * 1000 + q + 1) \<le> 1000 * (P + m)" by simp_all
  then have "1000 * P < s * 1000000 + u + 1000" "s * 1000000 + u < 1000 * (P + m)" using q(3,4) by (simp_all add: algebra_simps)
  moreover have "t * tick st = 1000 * P" "(t + 1) * tick st = 1000 * (P + m)" by (simp_all add: assms(3) P_def algebra_simps)
  moreover have "0 \<le> t" using ms assms(4) by (simp add: t_def pos_imp_zdiv_nonneg_iff)
  ultimately show ?thesis using h unfolding D by auto
qed

section \<open>Witnesses\<close>

text \<open>The real timer of process 7 is due, with an interval of a second; another call is due in five ticks.\<close>

definition ex_clk :: clk where
  "ex_clk = \<lparr>cprocs = bss 100 15 15, calltodo = [\<lparr>c_arg = 7, c_func = Realitexpire, c_time = 0\<rparr>, \<lparr>c_arg = 3, c_func = Func 1, c_time = 5\<rparr>],
     callfree = [\<lparr>c_arg = 0, c_func = Func 0, c_time = 0\<rparr>], time = \<lparr>tv_sec = 100, tv_usec = 0\<rparr>, mono_time = \<lparr>tv_sec = 90, tv_usec = 0\<rparr>,
     boottime = \<lparr>tv_sec = 10, tv_usec = 0\<rparr>, runtime = \<lparr>tv_sec = 10, tv_usec = 0\<rparr>, timedelta = 0, tickdelta = 0,
     p_timer = (\<lambda>_ _. \<lparr>it_interval = timerclear, it_value = timerclear\<rparr>),
     p_realtimer = (\<lambda>p. if p = 7 then \<lparr>it_interval = \<lparr>tv_sec = 1, tv_usec = 0\<rparr>, it_value = \<lparr>tv_sec = 98, tv_usec = 500000\<rparr>\<rparr>
                        else \<lparr>it_interval = timerclear, it_value = timerclear\<rparr>),
     tz = (0, 0), tick = 10000, hz = 100, tickadj = 5, bigadj = 1000000\<rparr>"

lemma ex_clk_dues: "clk_dues ex_clk = [((Realitexpire, 7), 0), ((Func 1, 3), 5)]"
  by (simp add: ex_clk_def clk_dues_def)

lemma ex_clk_ok: "clk_ok ex_clk" "hz_ok ex_clk" "real_ok p ex_clk" "callfree ex_clk \<noteq> []" "tv_ok (time ex_clk)" "us (time ex_clk) = 100000000"
  by (simp_all add: clk_ok_def ex_clk_dues hz_ok_def real_ok_def) (simp_all add: ex_clk_def tv_ok_def us_def timerclear_def)

lemma ex_clk_sel: "tick ex_clk = 10000" "tickadj ex_clk = 5" "bigadj ex_clk = 1000000" "pevents (cprocs ex_clk) = []" "time ex_clk = \<lparr>tv_sec = 100, tv_usec = 0\<rparr>"
  "p_realtimer ex_clk 7 = \<lparr>it_interval = \<lparr>tv_sec = 1, tv_usec = 0\<rparr>, it_value = \<lparr>tv_sec = 98, tv_usec = 500000\<rparr>\<rparr>"
  "cr_uid (crmem (cprocs ex_clk) (p_ucred (cprocs ex_clk) p)) = 0"
  by (simp_all add: ex_clk_def bss_def)

text \<open>There both are due.\<close>

definition ex_clk2 :: clk where
  "ex_clk2 = ex_clk\<lparr>calltodo := [\<lparr>c_arg = 3, c_func = Func 1, c_time = -1\<rparr>, \<lparr>c_arg = 7, c_func = Realitexpire, c_time = 0\<rparr>]\<rparr>"

lemma ex_clk2_dues: "clk_dues ex_clk2 = [((Func 1, 3), -1), ((Realitexpire, 7), 0)]"
  by (simp add: ex_clk2_def clk_dues_def)

theorem callouts_refine_witness:
  "\<exists>st'. timeout (Func 2) 4 3 ex_clk = Inr st' \<and> clk_dues st' = [((Realitexpire, 7), 0), ((Func 2, 4), 3), ((Func 1, 3), 5)]"
  using callouts_refine [OF ex_clk_ok(1), where f = "Func 2" and a = 4 and t = 3] ex_clk_ok(4)
  by (cases "timeout (Func 2) 4 3 ex_clk") (auto simp: ex_clk_dues)

text \<open>A function that puts itself back five ticks later, as \<open>roundrobin\<close> does.\<close>

theorem softclock_ends_witness:
  "\<exists>st'. softclock (run_callout (\<lambda>n a st. qops [Qtimeout (Func n) a 5] st)) ex_clk = Some (Inr st') \<and> clk_ok st'"
proof -
  obtain r where r: "softclock (run_callout (\<lambda>n a st. qops [Qtimeout (Func n) a 5] st)) ex_clk = Some r"
    "\<forall>e. r = Inl e \<longrightarrow> e = Panic ''timeout table overflow'' \<and> (\<exists>n a st. 1 < q_timeouts ((\<lambda>n a (st :: clk). [Qtimeout (Func n) a 5]) n a st))"
    "\<forall>st'. r = Inr st' \<longrightarrow> clk_ok st'"
    using softclock_ends [where what = "\<lambda>n a st. [Qtimeout (Func n) a 5]", OF ex_clk_ok(1-3)] by blast
  then show ?thesis by (cases r) auto
qed

theorem softclock_alarms_witness:
  "\<exists>st'. softclock (run_callout (\<lambda>n a st. qops [Qtimeout (Func n) a 5] st)) ex_clk2 = Some (Inr st')
     \<and> filter is_alarm (pevents (cprocs st')) = [Psignal 7 SIGALRM] \<and> filter (\<lambda>(k, d). d \<le> 0) (clk_dues st') = []"
proof -
  have ok: "clk_ok ex_clk2" "hz_ok ex_clk2" "real_ok p ex_clk2" for p
    using ex_clk_ok(1,2) ex_clk_ok(3) [of p] by (simp_all add: ex_clk2_def clk_ok_def clk_dues_def hz_ok_def real_ok_def)
  have "pevents (cprocs ex_clk2) = []" by (simp add: ex_clk2_def ex_clk_sel)
  then show ?thesis
    using softclock_alarms [where what = "\<lambda>n a st. [Qtimeout (Func n) a 5]", OF ok] by (auto simp: ex_clk2_dues)
qed

theorem realitexpire_correct_witness:
  "\<exists>st' k. realitexpire 7 ex_clk = Inr st' \<and> us (time ex_clk) < us (it_value (p_realtimer st' 7)) \<and> us (it_value (p_realtimer st' 7)) = 98500000 + k * 1000000"
  using realitexpire_correct [OF ex_clk_ok(1,2,3,4), of 7] by (auto simp: Let_def ex_clk_sel us_def)

theorem itimerdecr_correct_witness:
  "us (it_value (fst (itimerdecr \<lparr>it_interval = \<lparr>tv_sec = 1, tv_usec = 0\<rparr>, it_value = \<lparr>tv_sec = 0, tv_usec = 4000\<rparr>\<rparr> 10000))) = 994000"
  using itimerdecr_correct [of "\<lparr>it_interval = \<lparr>tv_sec = 1, tv_usec = 0\<rparr>, it_value = \<lparr>tv_sec = 0, tv_usec = 4000\<rparr>\<rparr>" 10000] by (simp add: us_def tv_ok_def)

theorem adjtime_applies_witness:
  "\<exists>st1 old nd. adjtime 7 (Inr \<lparr>tv_sec = 0, tv_usec = 12\<rparr>) ex_clk = (st1, Inr old) \<and> \<bar>(12 :: int) - nd\<bar> < 5
    \<and> timedelta (fold (\<lambda>u st. fst (hardclock u st)) [True, False] st1) = 0"
proof -
  have "\<exists>st1 old nd. adjtime 7 (Inr \<lparr>tv_sec = 0, tv_usec = 12\<rparr>) ex_clk = (st1, Inr old) \<and> us old = timedelta ex_clk \<and> \<bar>12 - nd\<bar> < 5 \<and> time st1 = time ex_clk
    \<and> (\<forall>ms. \<bar>12\<bar> div 5 \<le> int (length ms) \<longrightarrow>
         (let st2 = fold (\<lambda>u st. fst (hardclock u st)) ms st1
          in timedelta st2 = 0 \<and> us (time st2) = us (time ex_clk) + int (length ms) * tick ex_clk + nd))"
    by (rule adjtime_applies) (simp_all add: ex_clk_sel)
  then obtain st1 old nd where "adjtime 7 (Inr \<lparr>tv_sec = 0, tv_usec = 12\<rparr>) ex_clk = (st1, Inr old)" "\<bar>12 - nd\<bar> < (5 :: int)"
    "\<forall>ms. \<bar>12 :: int\<bar> div 5 \<le> int (length ms) \<longrightarrow> timedelta (fold (\<lambda>u st. fst (hardclock u st)) ms st1) = 0"
    unfolding Let_def by blast
  moreover have "\<bar>12 :: int\<bar> div 5 \<le> int (length [True, False])" by simp
  ultimately show ?thesis by blast
qed

theorem setitimer_getitimer_witness:
  "\<exists>st'. setitimer 3 0 (Some (Inr \<lparr>it_interval = timerclear, it_value = \<lparr>tv_sec = 0, tv_usec = 500\<rparr>\<rparr>)) None ex_clk = Inr (st', Inr None)
    \<and> getitimer 3 0 None st' = Inr \<lparr>it_interval = timerclear, it_value = \<lparr>tv_sec = 0, tv_usec = 10000\<rparr>\<rparr>"
proof -
  have f: "itimerfix (tick ex_clk) (it_value \<lparr>it_interval = timerclear, it_value = \<lparr>tv_sec = 0, tv_usec = 500\<rparr>\<rparr>) = Some \<lparr>tv_sec = 0, tv_usec = 10000\<rparr>"
    "itimerfix (tick ex_clk) (it_interval \<lparr>it_interval = timerclear, it_value = \<lparr>tv_sec = 0, tv_usec = 500\<rparr>\<rparr>) = Some timerclear"
    by (simp_all add: itimerfix_def ex_clk_sel timerclear_def)
  show ?thesis using setitimer_getitimer [OF ex_clk_ok(1,2,5) _ ex_clk_ok(4) _ _ f, of 0 3] ex_clk_ok(6) by auto
qed

theorem settimeofday_keeps_uptime_witness:
  "us (time (fst (settimeofday 7 (Some (Inr \<lparr>tv_sec = 500, tv_usec = 7\<rparr>)) None ex_clk)))
    - us (boottime (fst (settimeofday 7 (Some (Inr \<lparr>tv_sec = 500, tv_usec = 7\<rparr>)) None ex_clk))) = 90000000"
  using settimeofday_keeps_uptime [where tzp = None and p = 7 and atv = "\<lparr>tv_sec = 500, tv_usec = 7\<rparr>" and st = ex_clk] ex_clk_sel(7) [of 7]
  by (auto simp: split_beta us_def ex_clk_def)

theorem hzto_bounds_witness: "\<exists>t. hzto \<lparr>tv_sec = 100, tv_usec = 15000\<rparr> ex_clk = Inr t \<and> t * 10000 < 16000"
  using hzto_bounds [of "\<lparr>tv_sec = 100, tv_usec = 15000\<rparr>" ex_clk 10] by (auto simp: ex_clk_sel tv_ok_def us_def)

end
