(* ===== verification/Clist.thy ===== *)
theory Clist
  imports Prelude
begin

text \<open>
  Character lists, \<open>sys/kern/tty_subr.c\<close> with \<open>struct clist\<close> of \<open>sys/sys/tty.h\<close> and \<open>struct cblock\<close> of
  \<open>sys/sys/clist.h\<close>: queues of characters with a mark on each that was quoted, in blocks of 64 bytes that are
  aligned to their size and kept on a free list. A pointer to a character is an address, its quotient by
  64 the number of its block and the remainder the offset in it; a pointer to a block is its
  number, and 0 is the null pointer. A \<open>char\<close> is signed. Pointers are 4 bytes wide.
\<close>

unbundle bit_operations_syntax

section \<open>Data\<close>

definition CBLOCK :: int where "CBLOCK = 64"
definition CBQSIZE :: int where "CBQSIZE = 8"
definition CBSIZE :: int where "CBSIZE = 52"
definition TTY_QUOTE :: int where "TTY_QUOTE = 256"

text \<open>Characters and their marks by the offset in the block; the first character is at offset 12.\<close>

record cblock =
  c_next :: int
  c_quote :: "int \<Rightarrow> bool"
  c_info :: "int \<Rightarrow> int"

record clist =
  c_cc :: int
  c_cf :: int
  c_cl :: int

record cbstate =
  cblocks :: "int \<Rightarrow> cblock"
  cfreelist :: int
  cfreecount :: int
  cwaiting :: bool
  wakeups :: nat
  clists :: "nat \<Rightarrow> clist"

definition cbptr :: "int \<Rightarrow> int" where "cbptr cp = cp div CBLOCK"

definition info_of :: "int \<Rightarrow> int" where "info_of b = CBLOCK * b + (CBLOCK - CBSIZE)"

definition aligned :: "int \<Rightarrow> bool" where "aligned cp \<longleftrightarrow> cp mod CBLOCK = 0"

definition isquote :: "cbstate \<Rightarrow> int \<Rightarrow> bool" where
  "isquote st cp = c_quote (cblocks st (cbptr cp)) (cp mod CBLOCK)"

text \<open>\<open>*cp\<close> as an unsigned and as a signed character.\<close>

definition uchar :: "cbstate \<Rightarrow> int \<Rightarrow> int" where
  "uchar st cp = c_info (cblocks st (cbptr cp)) (cp mod CBLOCK) mod 256"

definition schar :: "cbstate \<Rightarrow> int \<Rightarrow> int" where
  "schar st cp = (if uchar st cp < 128 then uchar st cp else uchar st cp - 256)"

definition upd_block :: "int \<Rightarrow> (cblock \<Rightarrow> cblock) \<Rightarrow> cbstate \<Rightarrow> cbstate" where
  "upd_block b f st = st\<lparr>cblocks := (cblocks st)(b := f (cblocks st b))\<rparr>"

definition setquote :: "int \<Rightarrow> cbstate \<Rightarrow> cbstate" where
  "setquote cp = upd_block (cbptr cp) (\<lambda>b. b\<lparr>c_quote := (c_quote b)(cp mod CBLOCK := True)\<rparr>)"

definition store :: "int \<Rightarrow> int \<Rightarrow> cbstate \<Rightarrow> cbstate" where
  "store cp c = upd_block (cbptr cp) (\<lambda>b. b\<lparr>c_info := (c_info b)(cp mod CBLOCK := c mod 256)\<rparr>)"

definition upd_list :: "nat \<Rightarrow> (clist \<Rightarrow> clist) \<Rightarrow> cbstate \<Rightarrow> cbstate" where
  "upd_list p f st = st\<lparr>clists := (clists st)(p := f (clists st p))\<rparr>"

section \<open>Blocks\<close>

definition cb_free :: "int \<Rightarrow> cbstate \<Rightarrow> cbstate" where
  "cb_free bp st = (upd_block bp (\<lambda>b. b\<lparr>c_next := cfreelist st\<rparr>) st)\<lparr>cfreelist := bp, cfreecount := cfreecount st + CBSIZE\<rparr>"

definition cb_wake :: "cbstate \<Rightarrow> cbstate" where
  "cb_wake st = (if cwaiting st then st\<lparr>wakeups := wakeups st + 1, cwaiting := False\<rparr> else st)"

text \<open>Taking the block at the head of the free list, with or without clearing its marks.\<close>

definition cb_take :: "bool \<Rightarrow> cbstate \<Rightarrow> int \<times> cbstate" where
  "cb_take clear st =
     (let bp = cfreelist st; b = cblocks st bp
      in (bp, (upd_block bp (\<lambda>b. b\<lparr>c_next := 0, c_quote := (if clear then (\<lambda>_. False) else c_quote b)\<rparr>) st)
              \<lparr>cfreelist := c_next b, cfreecount := cfreecount st - CBSIZE\<rparr>))"

text \<open>The argument \<open>cfree\<close> is the address of the array of blocks.\<close>

function cinit_loop :: "int \<Rightarrow> int \<Rightarrow> cbstate \<Rightarrow> cbstate" where
  "cinit_loop cp end' st = (if cp < end' then cinit_loop (cp + CBLOCK) end' (cb_free (cbptr cp) st) else st)"
  by pat_completeness auto
termination by (relation "measure (\<lambda>(cp, e, st). nat (e - cp))") (auto simp: CBLOCK_def)

declare cinit_loop.simps [simp del]

definition cinit :: "int \<Rightarrow> int \<Rightarrow> cbstate \<Rightarrow> cbstate" where
  "cinit cfree nclist st = cinit_loop ((cfree + (CBLOCK - 1)) div CBLOCK * CBLOCK) (cfree + CBLOCK * (nclist - 1)) st"

section \<open>Taking characters from the front\<close>

text \<open>What \<open>getc\<close> and \<open>q_to_b\<close> do when they have advanced \<open>c_cf\<close>.\<close>

definition cl_release :: "nat \<Rightarrow> cbstate \<Rightarrow> cbstate" where
  "cl_release p st =
     (let q = clists st p
      in if c_cc q \<le> 0 then
           cb_wake (cb_free (cbptr (c_cf q - 1)) (upd_list p (\<lambda>q. q\<lparr>c_cf := 0, c_cl := 0\<rparr>) st))
         else if aligned (c_cf q) then
           let bp = cbptr (c_cf q) - 1;
               st = upd_list p (\<lambda>q. q\<lparr>c_cf := info_of (c_next (cblocks st bp))\<rparr>) st
           in cb_wake (cb_free bp st)
         else st)"

definition getc :: "nat \<Rightarrow> cbstate \<Rightarrow> int \<times> cbstate" where
  "getc p st =
     (let q = clists st p
      in if c_cc q \<le> 0 then (- 1, upd_list p (\<lambda>q. \<lparr>c_cc = 0, c_cf = 0, c_cl = 0\<rparr>) st)
         else
           let c = uchar st (c_cf q);
               c = (if isquote st (c_cf q) then c OR TTY_QUOTE else c);
               st = upd_list p (\<lambda>q. q\<lparr>c_cf := c_cf q + 1, c_cc := c_cc q - 1\<rparr>) st
           in (c, cl_release p st))"

text \<open>The bytes copied and the state; \<open>None\<close> when the loop does not end.\<close>

partial_function (option) q_to_b_loop :: "nat \<Rightarrow> int \<Rightarrow> cbstate \<Rightarrow> (int list \<times> cbstate) option" where
  "q_to_b_loop p cc st =
     (if cc = 0 then Some ([], st)
      else
        let q = clists st p; nc = min (min (CBLOCK - c_cf q mod CBLOCK) cc) (c_cc q);
            out = map (\<lambda>i. uchar st (c_cf q + i)) [0..nc - 1];
            st = cl_release p (upd_list p (\<lambda>q. q\<lparr>c_cf := c_cf q + nc, c_cc := c_cc q - nc\<rparr>) st)
        in if c_cc q - nc \<le> 0 then Some (out, st)
           else Option.bind (q_to_b_loop p (cc - nc) st) (\<lambda>(out', st). Some (out @ out', st)))"

definition q_to_b :: "nat \<Rightarrow> int \<Rightarrow> cbstate \<Rightarrow> (int list \<times> cbstate) option" where
  "q_to_b p cc st =
     (if cc \<le> 0 then Some ([], st)
      else if c_cc (clists st p) \<le> 0 then Some ([], upd_list p (\<lambda>q. \<lparr>c_cc = 0, c_cf = 0, c_cl = 0\<rparr>) st)
      else q_to_b_loop p cc st)"

definition ndqb :: "nat \<Rightarrow> int \<Rightarrow> cbstate \<Rightarrow> int" where
  "ndqb p flag st =
     (let q = clists st p
      in if c_cc q \<le> 0 then - c_cc q
         else
           let cc = (c_cf q + CBSIZE) div CBLOCK * CBLOCK - c_cf q;
               cc = (if c_cc q < cc then c_cc q else cc)
           in if flag \<noteq> 0 then
                case List.find (\<lambda>i. schar st (c_cf q + i) AND flag \<noteq> 0) [0..cc - 1] of Some i \<Rightarrow> i | None \<Rightarrow> cc
              else cc)"

partial_function (option) ndflush_loop :: "nat \<Rightarrow> int \<Rightarrow> cbstate \<Rightarrow> cbstate option" where
  "ndflush_loop p cc st =
     (let q = clists st p
      in if \<not> (0 < cc \<and> c_cc q \<noteq> 0) then Some st
         else
           let bp = cbptr (c_cf q);
               end' = (if bp = cbptr (c_cl q - 1) then c_cl q else CBLOCK * (bp + 1));
               rem = end' - c_cf q
           in if rem \<le> cc then
                let st = upd_list p (\<lambda>q. q\<lparr>c_cc := c_cc q - rem, c_cf := info_of (c_next (cblocks st bp))\<rparr>) st
                in ndflush_loop p (cc - rem) (cb_wake (cb_free bp st))
              else
                let st = upd_list p (\<lambda>q. q\<lparr>c_cc := c_cc q - cc, c_cf := c_cf q + cc\<rparr>) st
                in Some (if c_cc (clists st p) \<le> 0 then cb_wake (cb_free bp st) else st))"

definition ndflush :: "nat \<Rightarrow> int \<Rightarrow> cbstate \<Rightarrow> cbstate option" where
  "ndflush p cc st =
     (if c_cc (clists st p) \<le> 0 then Some st
      else
        map_option (\<lambda>st. if c_cc (clists st p) \<le> 0 then upd_list p (\<lambda>q. \<lparr>c_cc = 0, c_cf = 0, c_cl = 0\<rparr>) st else st)
          (ndflush_loop p cc st))"

section \<open>Putting characters at the end\<close>

text \<open>From the label behind the tests for a block on.\<close>

definition put_at :: "int \<Rightarrow> nat \<Rightarrow> int \<Rightarrow> cbstate \<Rightarrow> cbstate" where
  "put_at c p cp st =
     (let st = (if c AND TTY_QUOTE \<noteq> 0 then setquote cp st else st);
          st = store cp c st
      in upd_list p (\<lambda>q. q\<lparr>c_cc := c_cc q + 1, c_cl := cp + 1\<rparr>) st)"

definition putc :: "int \<Rightarrow> nat \<Rightarrow> cbstate \<Rightarrow> int \<times> cbstate" where
  "putc c p st =
     (let q = clists st p; cp = c_cl q
      in if cp = 0 \<or> c_cc q < 0 then
           if cfreelist st = 0 then (- 1, st)
           else
             let (bp, st) = cb_take True st
             in (0, put_at c p (info_of bp) (upd_list p (\<lambda>q. q\<lparr>c_cf := info_of bp\<rparr>) st))
         else if aligned cp then
           let st = upd_block (cbptr cp - 1) (\<lambda>b. b\<lparr>c_next := cfreelist st\<rparr>) st
           in if cfreelist st = 0 then (- 1, st)
              else let (bp, st) = cb_take False st in (0, put_at c p (info_of bp) st)
         else (0, put_at c p cp st))"

text \<open>The loop of \<open>b_to_q\<close> over the bytes that are left, with the pointer \<open>cq\<close>.\<close>

function b_to_q_loop :: "int list \<Rightarrow> int \<Rightarrow> cbstate \<Rightarrow> int list \<times> int \<times> cbstate" where
  "b_to_q_loop cs cq st =
     (if cs = [] then ([], cq, st)
      else
        let st' = (if aligned cq then upd_block (cbptr cq - 1) (\<lambda>b. b\<lparr>c_next := cfreelist st\<rparr>) st else st)
        in if aligned cq \<and> cfreelist st = 0 then (cs, cq, st')
           else
             let (cq, st) = (if aligned cq then (case cb_take True st' of (bp, st) \<Rightarrow> (info_of bp, st)) else (cq, st'));
                 nc = min (int (length cs)) (CBLOCK - cq mod CBLOCK);
                 st = fold (\<lambda>i. store (cq + i) (cs ! nat i)) [0..nc - 1] st
             in b_to_q_loop (drop (nat nc) cs) (cq + nc) st)"
  by pat_completeness auto
termination
  by (relation "measure (\<lambda>(cs, cq, st). length cs)")
    (auto simp: CBLOCK_def CBSIZE_def info_of_def min_def split: if_splits prod.splits)

declare b_to_q_loop.simps [simp del]

text \<open>The result is the number of bytes not copied.\<close>

definition b_to_q :: "int list \<Rightarrow> nat \<Rightarrow> cbstate \<Rightarrow> int \<times> cbstate" where
  "b_to_q cs p st =
     (if cs = [] then (0, st)
      else
        let q = clists st p
        in if (c_cl q = 0 \<or> c_cc q < 0) \<and> cfreelist st = 0 then
             (int (length cs), st)
           else
             let (cq, st) =
                   (if c_cl q = 0 \<or> c_cc q < 0 then
                      (case cb_take True st of (bp, st) \<Rightarrow> (info_of bp, upd_list p (\<lambda>q. q\<lparr>c_cf := info_of bp\<rparr>) st))
                    else (c_cl q, st));
                 (left, cq, st) = b_to_q_loop cs cq st
             in (int (length left), upd_list p (\<lambda>q. q\<lparr>c_cl := cq, c_cc := c_cc q + (int (length cs) - int (length left))\<rparr>) st))"

section \<open>The others\<close>

text \<open>The next pointer and its character, if there is one.\<close>

definition nextc :: "nat \<Rightarrow> int \<Rightarrow> cbstate \<Rightarrow> (int \<times> int) option" where
  "nextc p cp st =
     (let q = clists st p; cp = cp + 1
      in if c_cc q \<noteq> 0 \<and> cp \<noteq> c_cl q then
           let cp = (if aligned cp then info_of (c_next (cblocks st (cbptr cp - 1))) else cp);
               c = schar st cp
           in Some (cp, if isquote st cp then c OR TTY_QUOTE else c)
         else None)"

text \<open>The search for the block before the last.\<close>

partial_function (option) cb_before :: "int \<Rightarrow> int \<Rightarrow> cbstate \<Rightarrow> int option" where
  "cb_before bp target st = (if c_next (cblocks st bp) = target then Some bp else cb_before (c_next (cblocks st bp)) target st)"

definition unputc :: "nat \<Rightarrow> cbstate \<Rightarrow> (int \<times> cbstate) option" where
  "unputc p st =
     (let q = clists st p
      in if c_cc q \<le> 0 then Some (- 1, st)
         else
           let cl = c_cl q - 1; c = schar st cl;
               c = (if isquote st cl then c OR TTY_QUOTE else c);
               st = upd_list p (\<lambda>q. q\<lparr>c_cl := cl, c_cc := c_cc q - 1\<rparr>) st
           in if c_cc q - 1 \<le> 0 then
                Some (c, cb_free (cbptr cl) (upd_list p (\<lambda>q. q\<lparr>c_cl := 0, c_cf := 0\<rparr>) st))
              else if cl = info_of (cbptr cl) then
                (case cb_before (cbptr (c_cf q)) (cbptr cl) st of
                   None \<Rightarrow> None
                 | Some obp \<Rightarrow>
                     let st = upd_list p (\<lambda>q. q\<lparr>c_cl := CBLOCK * (obp + 1)\<rparr>) st;
                         st = cb_free (c_next (cblocks st obp)) st
                     in Some (c, upd_block obp (\<lambda>b. b\<lparr>c_next := 0\<rparr>) st))
              else Some (c, st))"

partial_function (option) catq_loop :: "nat \<Rightarrow> nat \<Rightarrow> cbstate \<Rightarrow> cbstate option" where
  "catq_loop from' to st =
     (let (c, st) = getc from' st in if 0 \<le> c then catq_loop from' to (snd (putc c to st)) else Some st)"

definition catq :: "nat \<Rightarrow> nat \<Rightarrow> cbstate \<Rightarrow> cbstate option" where
  "catq from' to st =
     (if c_cc (clists st to) = 0 then
        let f = clists st from'
        in Some (upd_list from' (\<lambda>_. \<lparr>c_cc = 0, c_cf = 0, c_cl = 0\<rparr>) (upd_list to (\<lambda>_. f) st))
      else catq_loop from' to st)"

end
