(* ===== verification/Clist_Laws.thy ===== *)
theory Clist_Laws
  imports Clist
begin

text \<open>
  What the blocks of a character list hold. \<open>cl_rep\<close> says that the free list and the lists are
  chains of different blocks; \<open>q_chars\<close> are the characters of a list with their marks, which the operations of
  \<open>Clist\<close> take from and add to.
\<close>

section \<open>Chains of blocks\<close>

fun bchain :: "(int \<Rightarrow> cblock) \<Rightarrow> int \<Rightarrow> int list \<Rightarrow> bool" where
  "bchain M b [] \<longleftrightarrow> b = 0"
| "bchain M b (x # xs) \<longleftrightarrow> b = x \<and> 0 < x \<and> bchain M (c_next (M x)) xs"

lemma bchain_cong: "(\<And>x. x \<in> set xs \<Longrightarrow> c_next (M' x) = c_next (M x)) \<Longrightarrow> bchain M' b xs = bchain M b xs"
  by (induction xs arbitrary: b) auto

lemma bchain_free:
  assumes "bchain M f fl" "b \<notin> set fl" "0 < b" "\<And>x. x \<noteq> b \<Longrightarrow> M' x = M x" "c_next (M' b) = f"
  shows "bchain M' b (b # fl)"
proof -
  have "bchain M' f fl = bchain M f fl" by (rule bchain_cong) (use assms(2,4) in metis)
  then show ?thesis using assms by simp
qed

lemma bchain_pos: "bchain M b xs \<Longrightarrow> x \<in> set xs \<Longrightarrow> 0 < x"
  by (induction xs arbitrary: b) auto

lemma bchain_append: "bchain M b (xs @ [x]) \<longleftrightarrow> bchain (M(x := (M x)\<lparr>c_next := 0\<rparr>)) b (xs @ [x]) \<and> c_next (M x) = 0" if "x \<notin> set xs"
  using that by (induction xs arbitrary: b) auto

lemma bchain_last: "bchain M b xs \<Longrightarrow> xs \<noteq> [] \<Longrightarrow> c_next (M (last xs)) = 0"
  by (induction xs arbitrary: b) auto

text \<open>A block more at the end, and one less.\<close>

lemma bchain_snoc:
  assumes "bchain M b xs" "xs \<noteq> []" "distinct (xs @ [f])" "0 < f"
    "\<And>x. x \<in> set (butlast xs) \<Longrightarrow> c_next (M' x) = c_next (M x)" "c_next (M' (last xs)) = f" "c_next (M' f) = 0"
  shows "bchain M' b (xs @ [f])"
  using assms
proof (induction xs arbitrary: b)
  case (Cons x xs)
  show ?case
  proof (cases "xs = []")
    case True
    then show ?thesis using Cons.prems by simp
  next
    case False
    then have "bchain M' (c_next (M x)) (xs @ [f])" using Cons.prems by (intro Cons.IH) auto
    then show ?thesis using Cons.prems False by simp
  qed
qed simp

lemma bchain_butlast:
  assumes "bchain M b xs" "2 \<le> length xs" "distinct xs"
    "\<And>x. x \<in> set (butlast (butlast xs)) \<Longrightarrow> c_next (M' x) = c_next (M x)" "c_next (M' (last (butlast xs))) = 0"
  shows "bchain M' b (butlast xs)"
  using assms
proof (induction xs arbitrary: b)
  case (Cons x xs)
  obtain y ys where xs: "xs = y # ys" using Cons.prems(2) by (cases xs) auto
  show ?case
  proof (cases "ys = []")
    case True
    then show ?thesis using Cons.prems xs by simp
  next
    case False
    then have "bchain M' (c_next (M x)) (butlast xs)" using Cons.prems xs by (intro Cons.IH) (auto simp: Suc_le_eq)
    then show ?thesis using Cons.prems xs False by simp
  qed
qed simp

section \<open>Characters of blocks\<close>

definition bchars :: "(int \<Rightarrow> cblock) \<Rightarrow> int \<Rightarrow> (int \<times> bool) list" where
  "bchars M b = map (\<lambda>i. (c_info (M b) (12 + i) mod 256, c_quote (M b) (12 + i))) [0..51]"

definition bdata :: "(int \<Rightarrow> cblock) \<Rightarrow> int list \<Rightarrow> (int \<times> bool) list" where
  "bdata M bs = concat (map (bchars M) bs)"

lemma bchars_len [simp]: "length (bchars M b) = 52"
  by (simp add: bchars_def)

lemma bchars_nth: "0 \<le> i \<Longrightarrow> i < 52 \<Longrightarrow> bchars M b ! nat i = (c_info (M b) (12 + i) mod 256, c_quote (M b) (12 + i))"
  using nth_upto [of 0 "nat i" 51] by (simp add: bchars_def)

lemma bdata_simps [simp]: "bdata M [] = []" "bdata M (b # bs) = bchars M b @ bdata M bs" "bdata M (xs @ ys) = bdata M xs @ bdata M ys"
  by (simp_all add: bdata_def)

lemma bdata_len [simp]: "length (bdata M bs) = 52 * length bs"
  by (induction bs) simp_all

lemma bdata_cong: "(\<And>b. b \<in> set bs \<Longrightarrow> c_info (M' b) = c_info (M b) \<and> c_quote (M' b) = c_quote (M b)) \<Longrightarrow> bdata M' bs = bdata M bs"
  by (induction bs) (simp_all add: bchars_def)

text \<open>A list of blocks with \<open>k\<close> characters gone at the front, \<open>cc\<close> in use, \<open>e\<close> of them in the last block and before.\<close>

definition q_pre :: "(int \<Rightarrow> cblock) \<Rightarrow> int list \<Rightarrow> int \<Rightarrow> int \<Rightarrow> int \<Rightarrow> bool" where
  "q_pre M bs k cc e \<longleftrightarrow> bs \<noteq> [] \<and> bchain M (hd bs) bs \<and> distinct bs \<and> 0 \<le> k \<and> k < 52 \<and> 0 \<le> cc \<and> 0 \<le> e \<and> e \<le> 52
     \<and> k + cc = 52 * (int (length bs) - 1) + e"

definition content :: "(int \<Rightarrow> cblock) \<Rightarrow> int list \<Rightarrow> int \<Rightarrow> int \<Rightarrow> (int \<times> bool) list" where
  "content M bs k cc = take (nat cc) (drop (nat k) (bdata M bs))"

definition q_rep :: "(int \<Rightarrow> cblock) \<Rightarrow> clist \<Rightarrow> int list \<Rightarrow> bool" where
  "q_rep M q bs \<longleftrightarrow> bs = [] \<and> q = \<lparr>c_cc = 0, c_cf = 0, c_cl = 0\<rparr>
     \<or> (\<exists>k e. q_pre M bs k (c_cc q) e \<and> 0 < c_cc q \<and> 1 \<le> e \<and> c_cf q = 64 * hd bs + 12 + k \<and> c_cl q = 64 * last bs + 12 + e)"

lemma content_len: "q_pre M bs k cc e \<Longrightarrow> length (content M bs k cc) = nat cc"
  by (auto simp: content_def q_pre_def)

text \<open>The characters of a list, computed from its first block on.\<close>

fun blocks_from :: "(int \<Rightarrow> cblock) \<Rightarrow> nat \<Rightarrow> int \<Rightarrow> int list" where
  "blocks_from M 0 b = []"
| "blocks_from M (Suc n) b = b # blocks_from M n (c_next (M b))"

definition q_chars :: "cbstate \<Rightarrow> nat \<Rightarrow> (int \<times> bool) list" where
  "q_chars st p =
     (let q = clists st p; k = c_cf q mod 64 - 12
      in if c_cc q \<le> 0 then [] else content (cblocks st) (blocks_from (cblocks st) (nat ((k + c_cc q + 51) div 52)) (c_cf q div 64)) k (c_cc q))"

lemma blocks_from_chain: "bchain M b bs \<Longrightarrow> bs \<noteq> [] \<Longrightarrow> blocks_from M (length bs) b = bs"
proof (induction bs arbitrary: b)
  case (Cons x bs)
  then show ?case by (cases bs) auto
qed simp

lemma pos_parts: "0 \<le> k \<Longrightarrow> k < 52 \<Longrightarrow> (64 * b + 12 + k) div 64 = b \<and> (64 * b + 12 + k) mod 64 = 12 + (k :: int)"
proof -
  assume k: "0 \<le> k" "k < 52"
  have "64 * b + 12 + k = (12 + k) + b * 64" by simp
  then show ?thesis using k by (simp only: div_mult_self1 mod_mult_self1) simp
qed

lemma q_chars_rep:
  assumes "q_pre (cblocks st) bs k (c_cc (clists st p)) e" "0 < c_cc (clists st p)" "1 \<le> e" "c_cf (clists st p) = 64 * hd bs + 12 + k"
  shows "q_chars st p = content (cblocks st) bs k (c_cc (clists st p))"
proof -
  have k: "0 \<le> k" "k < 52" "e \<le> 52" "bs \<noteq> []" "bchain (cblocks st) (hd bs) bs" "k + c_cc (clists st p) = 52 * (int (length bs) - 1) + e"
    using assms(1) by (auto simp: q_pre_def)
  have "k + c_cc (clists st p) + 51 = 52 * int (length bs) + (e - 1)" using k(6) by simp
  then have "(k + c_cc (clists st p) + 51) div 52 = int (length bs)" using assms(3) k(3) by simp
  then show ?thesis
    using assms(2) pos_parts [OF k(1,2), of "hd bs"] blocks_from_chain [OF k(5,4)] by (simp add: q_chars_def assms(4) Let_def)
qed

lemma q_chars_empty: "c_cc (clists st p) \<le> 0 \<Longrightarrow> q_chars st p = []"
  by (simp add: q_chars_def)

section \<open>The state\<close>

definition cl_rep :: "cbstate \<Rightarrow> int list \<Rightarrow> (nat \<Rightarrow> int list) \<Rightarrow> bool" where
  "cl_rep st fl B \<longleftrightarrow> bchain (cblocks st) (cfreelist st) fl \<and> distinct fl \<and> cfreecount st = 52 * int (length fl)
     \<and> (\<forall>p. q_rep (cblocks st) (clists st p) (B p) \<and> set (B p) \<inter> set fl = {})
     \<and> (\<forall>p r. p \<noteq> r \<longrightarrow> set (B p) \<inter> set (B r) = {})"

definition cl_ok :: "cbstate \<Rightarrow> bool" where "cl_ok st \<longleftrightarrow> (\<exists>fl B. cl_rep st fl B)"

lemma q_pre_cong:
  assumes "\<And>b. b \<in> set bs \<Longrightarrow> M' b = M b" shows "q_pre M' bs k cc e = q_pre M bs k cc e" "content M' bs k cc = content M bs k cc"
proof -
  show "q_pre M' bs k cc e = q_pre M bs k cc e" using bchain_cong [of bs M' M "hd bs"] assms by (simp add: q_pre_def)
  show "content M' bs k cc = content M bs k cc" using bdata_cong [of bs M' M] assms by (simp add: content_def)
qed

lemma q_rep_cong: "(\<And>b. b \<in> set bs \<Longrightarrow> M' b = M b) \<Longrightarrow> q_rep M' q bs = q_rep M q bs"
proof -
  assume "\<And>b. b \<in> set bs \<Longrightarrow> M' b = M b"
  then have "q_pre M' bs k cc e = q_pre M bs k cc e" for k cc e by (rule q_pre_cong(1))
  then show ?thesis by (simp add: q_rep_def)
qed

lemma q_chars_cong:
  assumes "q_rep (cblocks st) (clists st p) bs" "clists st' p = clists st p" "\<And>b. b \<in> set bs \<Longrightarrow> cblocks st' b = cblocks st b"
  shows "q_chars st' p = q_chars st p"
proof (cases "bs = []")
  case True
  then show ?thesis using assms(1,2) by (auto simp: q_rep_def q_pre_def q_chars_empty)
next
  case False
  then obtain k e where q: "q_pre (cblocks st) bs k (c_cc (clists st p)) e" "0 < c_cc (clists st p)" "1 \<le> e" "c_cf (clists st p) = 64 * hd bs + 12 + k"
    using assms(1) by (auto simp: q_rep_def)
  show ?thesis using q_chars_rep [OF q] q_chars_rep [of st' bs k p e] q q_pre_cong [OF assms(3)] assms(2) by simp
qed

text \<open>An operation on one list touches only its blocks and the free ones.\<close>

lemma cl_rep_upd:
  assumes r: "cl_rep st fl B"
    and m: "\<And>b. b \<notin> set fl \<Longrightarrow> b \<notin> set (B p) \<Longrightarrow> cblocks st' b = cblocks st b"
    and l: "\<And>r. r \<noteq> p \<Longrightarrow> clists st' r = clists st r"
    and n: "bchain (cblocks st') (cfreelist st') fl'" "q_rep (cblocks st') (clists st' p) bs'" "distinct (fl' @ bs')"
      "set (fl' @ bs') \<subseteq> set fl \<union> set (B p)" "cfreecount st' = 52 * int (length fl')"
  shows "cl_rep st' fl' (B(p := bs'))" "\<And>r. r \<noteq> p \<Longrightarrow> q_chars st' r = q_chars st r"
proof -
  have d: "set (B r) \<inter> (set fl \<union> set (B p)) = {}" if "r \<noteq> p" for r using r that unfolding cl_rep_def by blast
  have u: "\<forall>b \<in> set (B r). cblocks st' b = cblocks st b" if "r \<noteq> p" for r using m d [OF that] by blast
  have q: "q_rep (cblocks st) (clists st r) (B r)" for r using r by (simp add: cl_rep_def)
  show "q_chars st' r = q_chars st r" if "r \<noteq> p" for r using q_chars_cong [OF q l [OF that]] u [OF that] by blast
  have "q_rep (cblocks st') (clists st' s) (B s)" if "s \<noteq> p" for s
  proof -
    have "q_rep (cblocks st') (clists st s) (B s) = q_rep (cblocks st) (clists st s) (B s)" by (rule q_rep_cong) (use u [OF that] in blast)
    then show ?thesis using q [of s] l [OF that] by simp
  qed
  moreover have "set (B s) \<inter> set fl' = {}" "set (B s) \<inter> set bs' = {}" if "s \<noteq> p" for s using d [OF that] n(4) by auto
  moreover have "set (B s) \<inter> set (B t) = {}" if "s \<noteq> t" for s t using r that unfolding cl_rep_def by blast
  ultimately show "cl_rep st' fl' (B(p := bs'))" using n unfolding cl_rep_def by (auto simp: Int_commute)
qed

section \<open>Taking from the front\<close>

lemma upd_list_sel [simp]:
  "cblocks (upd_list p f st) = cblocks st" "cfreelist (upd_list p f st) = cfreelist st" "cfreecount (upd_list p f st) = cfreecount st"
  "clists (upd_list p f st) r = (if r = p then f (clists st p) else clists st r)"
  by (simp_all add: upd_list_def)

lemma cb_wake_sel [simp]:
  "cblocks (cb_wake st) = cblocks st" "cfreelist (cb_wake st) = cfreelist st" "cfreecount (cb_wake st) = cfreecount st" "clists (cb_wake st) = clists st"
  by (simp_all add: cb_wake_def)

lemma cb_free_sel [simp]:
  "cblocks (cb_free b st) x = (if x = b then (cblocks st b)\<lparr>c_next := cfreelist st\<rparr> else cblocks st x)"
  "cfreelist (cb_free b st) = b" "cfreecount (cb_free b st) = cfreecount st + 52" "clists (cb_free b st) = clists st"
  by (simp_all add: cb_free_def upd_block_def CBSIZE_def)

lemma ptr_parts:
  "0 \<le> k \<Longrightarrow> k < 52 \<Longrightarrow> cbptr (64 * b + 12 + k) = b \<and> \<not> aligned (64 * b + 12 + k) \<and> (64 * b + 12 + k) mod CBLOCK = 12 + k"
  "cbptr (64 * b + 12 + 52) = b + 1" "aligned (64 * b + 12 + 52)" "info_of b = 64 * b + 12"
proof -
  show "0 \<le> k \<Longrightarrow> k < 52 \<Longrightarrow> cbptr (64 * b + 12 + k) = b \<and> \<not> aligned (64 * b + 12 + k) \<and> (64 * b + 12 + k) mod CBLOCK = 12 + k"
    using pos_parts [of k b] by (simp add: cbptr_def aligned_def CBLOCK_def)
  have "64 * b + 12 + 52 = (b + 1) * 64" by simp
  then show "cbptr (64 * b + 12 + 52) = b + 1" "aligned (64 * b + 12 + 52)" unfolding cbptr_def aligned_def CBLOCK_def by simp_all
qed (simp add: info_of_def CBLOCK_def CBSIZE_def)

lemma content_front:
  assumes q: "q_pre M bs k cc e" and n: "0 \<le> n" "n \<le> cc" "k + n \<le> 52"
  shows "map (\<lambda>i. (c_info (M (hd bs)) (12 + k + i) mod 256, c_quote (M (hd bs)) (12 + k + i))) [0..n - 1] = take (nat n) (content M bs k cc)"
proof (rule nth_equalityI)
  show len: "length (map (\<lambda>i. (c_info (M (hd bs)) (12 + k + i) mod 256, c_quote (M (hd bs)) (12 + k + i))) [0..n - 1]) = length (take (nat n) (content M bs k cc))"
    using content_len [OF q] n by simp
  fix i assume "i < length (map (\<lambda>i. (c_info (M (hd bs)) (12 + k + i) mod 256, c_quote (M (hd bs)) (12 + k + i))) [0..n - 1])"
  then have i: "int i < n" by simp
  obtain b bs' where bs: "bs = b # bs'" using q by (cases bs) (auto simp: q_pre_def)
  have k: "0 \<le> k" using q by (simp add: q_pre_def)
  have "nat k + i < length (bdata M bs)" using i n k by (simp add: bs)
  then have "take (nat n) (content M bs k cc) ! i = bdata M bs ! nat (k + int i)"
    using i n k by (simp add: content_def nat_add_distrib del: bdata_len)
  also have "\<dots> = bchars M b ! nat (k + int i)" using i n k by (simp add: bs nth_append nat_less_iff)
  also have "\<dots> = (c_info (M b) (12 + (k + int i)) mod 256, c_quote (M b) (12 + (k + int i)))" by (rule bchars_nth) (use i n k in auto)
  finally show "map (\<lambda>i. (c_info (M (hd bs)) (12 + k + i) mod 256, c_quote (M (hd bs)) (12 + k + i))) [0..n - 1] ! i = take (nat n) (content M bs k cc) ! i"
    using i nth_upto [of 0 i "n - 1"] by (simp add: bs add.assoc)
qed

text \<open>The list after \<open>n\<close> characters of its first block.\<close>

lemma content_adv: "0 \<le> k \<Longrightarrow> 0 \<le> n \<Longrightarrow> n \<le> cc \<Longrightarrow> content M bs (k + n) (cc - n) = drop (nat n) (content M bs k cc)"
  by (simp add: content_def drop_take nat_add_distrib nat_diff_distrib add.commute)

lemma content_tl: "bs \<noteq> [] \<Longrightarrow> content M bs 52 cc = content M (tl bs) 0 cc"
  by (cases bs) (simp_all add: content_def)

lemma cl_rep_q:
  assumes "cl_rep st fl B" "0 < c_cc (clists st p)"
  obtains b bs k e where "B p = b # bs" "q_pre (cblocks st) (b # bs) k (c_cc (clists st p)) e" "1 \<le> e" "c_cf (clists st p) = 64 * b + 12 + k"
    "c_cl (clists st p) = 64 * last (b # bs) + 12 + e" "q_chars st p = content (cblocks st) (b # bs) k (c_cc (clists st p))"
proof -
  have "q_rep (cblocks st) (clists st p) (B p)" using assms(1) by (simp add: cl_rep_def)
  then obtain k e where q: "q_pre (cblocks st) (B p) k (c_cc (clists st p)) e" "1 \<le> e" "c_cf (clists st p) = 64 * hd (B p) + 12 + k"
    "c_cl (clists st p) = 64 * last (B p) + 12 + e" using assms(2) by (auto simp: q_rep_def)
  then obtain b bs where "B p = b # bs" by (cases "B p") (auto simp: q_pre_def)
  then show ?thesis using that q q_chars_rep [OF q(1) assms(2) q(2,3)] by simp
qed

lemma cl_rep_free:
  assumes "cl_rep st fl B"
  shows "bchain (cblocks st) (cfreelist st) fl" "distinct fl" "cfreecount st = 52 * int (length fl)" "set (B p) \<inter> set fl = {}"
  using assms by (simp_all add: cl_rep_def)

text \<open>How many blocks a list uses, by its pointers.\<close>

definition cl_used :: "cbstate \<Rightarrow> nat \<Rightarrow> int" where
  "cl_used st p = (let q = clists st p in if c_cc q \<le> 0 then 0 else (c_cf q mod 64 - 12 + c_cc q + 51) div 52)"

lemma cl_rep_used:
  assumes "cl_rep st fl B" shows "cl_used st p = int (length (B p))"
proof (cases "0 < c_cc (clists st p)")
  case False
  have "q_rep (cblocks st) (clists st p) (B p)" using assms by (simp add: cl_rep_def)
  then show ?thesis using False by (auto simp: q_rep_def cl_used_def)
next
  case True
  obtain b bs k e where q: "B p = b # bs" "q_pre (cblocks st) (b # bs) k (c_cc (clists st p)) e" "1 \<le> e" "c_cf (clists st p) = 64 * b + 12 + k"
    using cl_rep_q [OF assms True] by metis
  have k: "0 \<le> k" "k < 52" "e \<le> 52" "k + c_cc (clists st p) + 51 = 52 * (int (length bs) + 1) + (e - 1)" using q(2) by (simp_all add: q_pre_def)
  have "(k + c_cc (clists st p) + 51) div 52 = int (length bs) + 1" unfolding k(4) using q(3) k(3) by simp
  then show ?thesis using True pos_parts [OF k(1,2), of b] q(1,4) by (simp add: cl_used_def Let_def)
qed

text \<open>No block is lost: what list \<open>p\<close> gives up is free.\<close>

definition cl_even :: "nat \<Rightarrow> cbstate \<Rightarrow> cbstate \<Rightarrow> bool" where
  "cl_even p st st' \<longleftrightarrow> cfreecount st' + CBSIZE * cl_used st' p = cfreecount st + CBSIZE * cl_used st p
     \<and> (\<forall>r. r \<noteq> p \<longrightarrow> clists st' r = clists st r)"

lemma cl_evenI:
  assumes "cl_rep st fl B" "cl_rep st' fl' (B(p := bs'))" "length fl' + length bs' = length fl + length (B p)"
    "\<And>r. r \<noteq> p \<Longrightarrow> clists st' r = clists st r"
  shows "cl_even p st st'"
  using assms(3,4) cl_rep_used [OF assms(1), of p] cl_rep_used [OF assms(2), of p] cl_rep_free(3) [OF assms(1)] cl_rep_free(3) [OF assms(2)]
  by (simp add: cl_even_def CBSIZE_def)

lemma cl_release_lists: "r \<noteq> p \<Longrightarrow> clists (cl_release p st) r = clists st r"
  by (simp add: cl_release_def Let_def)

lemma cl_adv:
  assumes r: "cl_rep st fl B" and n: "1 \<le> n" "n \<le> c_cc (clists st p)" "n \<le> 64 - c_cf (clists st p) mod 64"
  defines "st' \<equiv> cl_release p (upd_list p (\<lambda>q. q\<lparr>c_cf := c_cf q + n, c_cc := c_cc q - n\<rparr>) st)"
  shows "\<exists>fl' bs'. cl_rep st' fl' (B(p := bs')) \<and> q_chars st' p = drop (nat n) (q_chars st p) \<and> (\<forall>r. r \<noteq> p \<longrightarrow> q_chars st' r = q_chars st r)
    \<and> c_cc (clists st' p) = c_cc (clists st p) - n \<and> cl_even p st st'"
proof -
  have others: "clists st' r = clists st r" if "r \<noteq> p" for r using that by (simp add: st'_def cl_release_lists)
  note even = cl_evenI [OF r _ _ others]
  define cc where "cc = c_cc (clists st p)"
  have cc: "0 < cc" using n by (simp add: cc_def)
  obtain b bs k e where q: "B p = b # bs" "q_pre (cblocks st) (b # bs) k cc e" "1 \<le> e" "c_cf (clists st p) = 64 * b + 12 + k"
    "c_cl (clists st p) = 64 * last (b # bs) + 12 + e" "q_chars st p = content (cblocks st) (b # bs) k cc"
    using cl_rep_q [OF r] cc unfolding cc_def by metis
  have k: "0 \<le> k" "k < 52" "e \<le> 52" "k + cc = 52 * int (length bs) + e" "bchain (cblocks st) b (b # bs)" "distinct (b # bs)"
    using q(2) by (simp_all add: q_pre_def)
  have kn: "k + n \<le> 52" using n(3) pos_parts [OF k(1,2), of b] by (simp add: q(4))
  have fl: "bchain (cblocks st) (cfreelist st) fl" "distinct fl" "cfreecount st = 52 * int (length fl)" "set (b # bs) \<inter> set fl = {}"
    using cl_rep_free(1-3) [OF r] cl_rep_free(4) [OF r, of p] by (simp_all add: q(1))
  define st1 where "st1 = upd_list p (\<lambda>q. q\<lparr>c_cf := c_cf q + n, c_cc := c_cc q - n\<rparr>) st"
  have s1: "c_cc (clists st1 p) = cc - n" "c_cf (clists st1 p) = 64 * b + 12 + (k + n)" by (simp_all add: st1_def q(4) cc_def)
  have d: "content (cblocks st) (b # bs) (k + n) (cc - n) = drop (nat n) (q_chars st p)"
    using content_adv [of k n cc] k(1) n by (simp add: q(6) cc_def)
  consider (all) "cc = n" | (block) "cc \<noteq> n" "k + n = 52" | (inside) "cc \<noteq> n" "k + n < 52" using kn by linarith
  then show ?thesis
  proof cases
    case all
    have bs: "bs = []" using k(3,4) kn all q(3) by (cases bs) auto
    have "c_cf (clists st1 p) - 1 = 64 * b + 12 + (k + n - 1)" using s1 by simp
    then have cb: "cbptr (c_cf (clists st1 p) - 1) = b" using ptr_parts(1) [of "k + n - 1" b] k(1) n(1) kn by simp
    have st': "st' = cb_wake (cb_free b (upd_list p (\<lambda>q. q\<lparr>c_cf := 0, c_cl := 0\<rparr>) st1))"
      using all s1 cb by (simp add: st'_def st1_def [symmetric] cl_release_def)
    have z: "clists st' p = \<lparr>c_cc = 0, c_cf = 0, c_cl = 0\<rparr>" using s1 all by (simp add: st')
    have "bchain (cblocks st') (cfreelist st') (b # fl)"
      using bchain_free [OF fl(1), of b "cblocks st'"] fl(4) k(5) by (simp add: st' st1_def)
    then have R: "cl_rep st' (b # fl) (B(p := [])) \<and> (\<forall>r. r \<noteq> p \<longrightarrow> q_chars st' r = q_chars st r)"
      using cl_rep_upd [OF r, of p st' "b # fl" "[]"] fl z q(1) bs by (auto simp: st' st1_def q_rep_def)
    moreover have "cl_even p st st'" by (rule even [OF conjunct1 [OF R]]) (use q(1) bs in simp_all)
    moreover have "q_chars st' p = drop (nat n) (q_chars st p)"
      using q_chars_empty [of st' p] z all content_len [OF q(2)] by (simp add: q(6))
    ultimately show ?thesis using z all by (intro exI [of _ "b # fl"] exI [of _ "[]"]) (simp add: cc_def)
  next
    case block
    then obtain b' bs' where bs: "bs = b' # bs'" using k(3,4) n(2) by (cases bs) (auto simp: cc_def)
    have cf: "c_cf (clists st1 p) = 64 * b + 12 + 52" using s1 block by simp
    have nx: "c_next (cblocks st b) = b'" using k(5) bs by simp
    have st': "st' = cb_wake (cb_free b (upd_list p (\<lambda>q. q\<lparr>c_cf := 64 * b' + 12\<rparr>) st1))"
      using block s1 n nx ptr_parts(2-4) cf by (simp add: st'_def st1_def [symmetric] cl_release_def cc_def) (simp add: st1_def nx)
    have "bchain (cblocks st') b' bs = bchain (cblocks st) b' bs" by (rule bchain_cong) (use k(6) in \<open>auto simp: st' st1_def\<close>)
    moreover have "bchain (cblocks st) b' bs" using k(5) nx by simp
    ultimately have w: "q_pre (cblocks st') bs 0 (cc - n) e"
      using q(2) block k(4,6) n(2) unfolding q_pre_def bs by (simp add: cc_def)
    have z: "c_cc (clists st' p) = cc - n" "c_cf (clists st' p) = 64 * b' + 12" "c_cl (clists st' p) = 64 * last bs + 12 + e"
      using q(5) bs by (simp_all add: st' st1_def cc_def)
    have qr: "q_rep (cblocks st') (clists st' p) bs" unfolding q_rep_def z
      by (intro disjI2 exI [of _ 0] exI [of _ e]) (use w block n q(3) bs in \<open>auto simp: cc_def\<close>)
    have "bchain (cblocks st') (cfreelist st') (b # fl)"
      using bchain_free [OF fl(1), of b "cblocks st'"] fl(4) k(5) by (simp add: st' st1_def)
    then have R: "cl_rep st' (b # fl) (B(p := bs)) \<and> (\<forall>r. r \<noteq> p \<longrightarrow> q_chars st' r = q_chars st r)"
      using cl_rep_upd [OF r, of p st' "b # fl" bs] fl qr k(6) q(1) by (auto simp: st' st1_def)
    moreover have "cl_even p st st'" by (rule even [OF conjunct1 [OF R]]) (use q(1) in simp_all)
    moreover have "q_chars st' p = drop (nat n) (q_chars st p)"
    proof -
      have "q_chars st' p = content (cblocks st') bs 0 (cc - n)"
        using q_chars_rep [of st' bs 0 p e] w z block n q(3) bs by (simp add: cc_def)
      also have "\<dots> = content (cblocks st) bs 0 (cc - n)" using k(6) bdata_cong [of bs "cblocks st'" "cblocks st"] by (auto simp: content_def st' st1_def)
      also have "\<dots> = content (cblocks st) (b # bs) (k + n) (cc - n)" using block content_tl [of "b # bs"] by simp
      finally show ?thesis using d by simp
    qed
    ultimately show ?thesis using z by (intro exI [of _ "b # fl"] exI [of _ bs]) (simp add: cc_def)
  next
    case inside
    have na: "\<not> aligned (c_cf (clists st1 p))" using ptr_parts(1) [of "k + n" b] inside k(1) n(1) s1 by simp
    have st': "st' = st1" using inside s1 na n by (simp add: st'_def st1_def [symmetric] cl_release_def cc_def)
    have w: "q_pre (cblocks st') (b # bs) (k + n) (cc - n) e" using q(2) inside n by (auto simp: q_pre_def st' st1_def cc_def)
    have z: "c_cc (clists st' p) = cc - n" "c_cf (clists st' p) = 64 * b + 12 + (k + n)" "c_cl (clists st' p) = 64 * last (b # bs) + 12 + e"
      using q(5) s1 by (simp_all add: st' st1_def cc_def)
    have qr: "q_rep (cblocks st') (clists st' p) (b # bs)" unfolding q_rep_def z
      by (intro disjI2 exI [of _ "k + n"] exI [of _ e]) (use w inside n q(3) in \<open>auto simp: cc_def\<close>)
    have R: "cl_rep st' fl (B(p := b # bs)) \<and> (\<forall>r. r \<noteq> p \<longrightarrow> q_chars st' r = q_chars st r)"
      using cl_rep_upd [OF r, of p st' fl "b # bs"] fl qr k(6) q(1) by (auto simp: st' st1_def)
    moreover have "cl_even p st st'" by (rule even [OF conjunct1 [OF R]]) (use q(1) in simp_all)
    moreover have "q_chars st' p = drop (nat n) (q_chars st p)"
      using q_chars_rep [of st' "b # bs" "k + n" p e] w z inside n q(3) d by (simp add: cc_def st' st1_def)
    ultimately show ?thesis using z by (intro exI [of _ fl] exI [of _ "b # bs"]) (simp add: cc_def)
  qed
qed

end
