(* ===== verification/Clist_Get.thy ===== *)
theory Clist_Get
  imports Clist_Laws
begin

text \<open>What \<open>getc\<close>, \<open>q_to_b\<close> and \<open>ndflush\<close> take from a list.\<close>

definition cval :: "int \<times> bool \<Rightarrow> int" where
  "cval x = (if snd x then fst x OR TTY_QUOTE else fst x)"

text \<open>Only the characters of list \<open>p\<close> change, and no block is lost.\<close>

definition cl_step :: "nat \<Rightarrow> cbstate \<Rightarrow> cbstate \<Rightarrow> bool" where
  "cl_step p st st' \<longleftrightarrow> cl_ok st' \<and> (\<forall>r. r \<noteq> p \<longrightarrow> q_chars st' r = q_chars st r) \<and> cl_even p st st'"

lemma cl_stepI: "cl_rep st' fl B \<Longrightarrow> cl_even p st st' \<Longrightarrow> (\<forall>r. r \<noteq> p \<longrightarrow> q_chars st' r = q_chars st r) \<Longrightarrow> cl_step p st st'"
  by (auto simp: cl_step_def cl_ok_def)

lemma cl_step_trans: "cl_step p st st1 \<Longrightarrow> cl_step p st1 st2 \<Longrightarrow> cl_step p st st2"
  by (simp add: cl_step_def cl_even_def)

lemma cl_step_refl: "cl_ok st \<Longrightarrow> cl_step p st st"
  by (simp add: cl_step_def cl_even_def)

lemma cl_ok_zero: "cl_ok st \<Longrightarrow> c_cc (clists st p) \<le> 0 \<Longrightarrow> clists st p = \<lparr>c_cc = 0, c_cf = 0, c_cl = 0\<rparr>"
  by (auto simp: cl_ok_def cl_rep_def q_rep_def)

lemma upd_list_triv: "f (clists st p) = clists st p \<Longrightarrow> upd_list p f st = st"
  by (simp add: upd_list_def fun_upd_idem)

lemma q_chars_len: assumes "cl_ok st" shows "int (length (q_chars st p)) = c_cc (clists st p)"
proof (cases "0 < c_cc (clists st p)")
  case True
  obtain fl B where r: "cl_rep st fl B" using assms by (auto simp: cl_ok_def)
  show ?thesis by (rule cl_rep_q [OF r True]) (use True content_len in auto)
next
  case False
  then show ?thesis using cl_ok_zero [OF assms, of p] q_chars_empty [of st p] by simp
qed

text \<open>Advancing within the first block.\<close>

lemma cl_step_adv:
  assumes ok: "cl_ok st" and n: "1 \<le> n" "n \<le> c_cc (clists st p)" "n \<le> 64 - c_cf (clists st p) mod 64"
  defines "st' \<equiv> cl_release p (upd_list p (\<lambda>q. q\<lparr>c_cf := c_cf q + n, c_cc := c_cc q - n\<rparr>) st)"
  shows "cl_step p st st'" "q_chars st' p = drop (nat n) (q_chars st p)" "c_cc (clists st' p) = c_cc (clists st p) - n"
    "map (\<lambda>i. (uchar st (c_cf (clists st p) + i), isquote st (c_cf (clists st p) + i))) [0..n - 1] = take (nat n) (q_chars st p)"
proof -
  obtain fl B where r: "cl_rep st fl B" using ok by (auto simp: cl_ok_def)
  obtain fl' bs' where "cl_rep st' fl' (B(p := bs'))" "q_chars st' p = drop (nat n) (q_chars st p)" "\<forall>r. r \<noteq> p \<longrightarrow> q_chars st' r = q_chars st r"
    "c_cc (clists st' p) = c_cc (clists st p) - n" "cl_even p st st'" using cl_adv [OF r n] unfolding st'_def by blast
  then show "cl_step p st st'" "q_chars st' p = drop (nat n) (q_chars st p)" "c_cc (clists st' p) = c_cc (clists st p) - n"
    using cl_stepI by auto
  have "0 < c_cc (clists st p)" using n by simp
  then obtain b bs k e where q: "q_pre (cblocks st) (b # bs) k (c_cc (clists st p)) e" "c_cf (clists st p) = 64 * b + 12 + k"
    "q_chars st p = content (cblocks st) (b # bs) k (c_cc (clists st p))" using cl_rep_q [OF r] by metis
  have k: "0 \<le> k" "k < 52" using q(1) by (simp_all add: q_pre_def)
  have kn: "k + n \<le> 52" using n(3) pos_parts [OF k, of b] by (simp add: q(2))
  have "uchar st (c_cf (clists st p) + i) = c_info (cblocks st b) (12 + k + i) mod 256 \<and> isquote st (c_cf (clists st p) + i) = c_quote (cblocks st b) (12 + k + i)"
    if "0 \<le> i" "i \<le> n - 1" for i
    using ptr_parts(1) [of "k + i" b] k kn that by (simp add: uchar_def isquote_def q(2) add.assoc)
  then have "map (\<lambda>i. (uchar st (c_cf (clists st p) + i), isquote st (c_cf (clists st p) + i))) [0..n - 1]
    = map (\<lambda>i. (c_info (cblocks st b) (12 + k + i) mod 256, c_quote (cblocks st b) (12 + k + i))) [0..n - 1]" by simp
  also have "\<dots> = take (nat n) (q_chars st p)" using content_front [OF q(1), of n] n(1,2) kn by (simp add: q(3))
  finally show "map (\<lambda>i. (uchar st (c_cf (clists st p) + i), isquote st (c_cf (clists st p) + i))) [0..n - 1] = take (nat n) (q_chars st p)" .
qed

lemma cf_room:
  assumes "cl_ok st" "0 < c_cc (clists st p)" shows "12 \<le> c_cf (clists st p) mod 64 \<and> c_cf (clists st p) mod 64 < 64"
proof -
  obtain fl B where r: "cl_rep st fl B" using assms by (auto simp: cl_ok_def)
  obtain b bs k e where "q_pre (cblocks st) (b # bs) k (c_cc (clists st p)) e" "c_cf (clists st p) = 64 * b + 12 + k"
    using cl_rep_q [OF r assms(2)] by metis
  then show ?thesis using pos_parts [of k b] by (simp add: q_pre_def)
qed

lemma getc_eff:
  assumes ok: "cl_ok st"
  shows "case q_chars st p of
      [] \<Rightarrow> getc p st = (- 1, st)
    | x # xs \<Rightarrow> \<exists>st'. getc p st = (cval x, st') \<and> cl_step p st st' \<and> q_chars st' p = xs"
proof (cases "0 < c_cc (clists st p)")
  case False
  then have "q_chars st p = []" by (simp add: q_chars_empty)
  then show ?thesis using False cl_ok_zero [OF ok, of p] by (simp add: getc_def upd_list_triv)
next
  case True
  note a = cl_step_adv [OF ok _ _, of 1 p]
  have n: "1 \<le> c_cc (clists st p)" "1 \<le> 64 - c_cf (clists st p) mod 64" using True cf_room [OF ok True] by simp_all
  obtain x xs where x: "q_chars st p = x # xs" using q_chars_len [OF ok, of p] True by (cases "q_chars st p") auto
  have v: "x = (uchar st (c_cf (clists st p)), isquote st (c_cf (clists st p)))" using a(4) [OF _ n] x by simp
  then have "getc p st = (cval x, cl_release p (upd_list p (\<lambda>q. q\<lparr>c_cf := c_cf q + 1, c_cc := c_cc q - 1\<rparr>) st))"
    using True by (simp add: getc_def cval_def Let_def)
  then show ?thesis using a(1,2) [OF _ n] x by simp
qed

lemma q_to_b_loop_eff:
  assumes "cl_ok st" "0 \<le> n" "0 < c_cc (clists st p)"
  shows "\<exists>st'. q_to_b_loop p n st = Some (map fst (take (nat n) (q_chars st p)), st') \<and> cl_step p st st'
    \<and> q_chars st' p = drop (nat n) (q_chars st p)"
  using assms
proof (induction "nat n" arbitrary: n st rule: less_induct)
  case less
  show ?case
  proof (cases "n = 0")
    case True
    then show ?thesis using less.prems cl_step_refl by (subst q_to_b_loop.simps) simp
  next
    case False
    define q where "q = clists st p"
    define nc where "nc = min (min (CBLOCK - c_cf q mod CBLOCK) n) (c_cc q)"
    define st1 where "st1 = cl_release p (upd_list p (\<lambda>q. q\<lparr>c_cf := c_cf q + nc, c_cc := c_cc q - nc\<rparr>) st)"
    have nc: "1 \<le> nc" "nc \<le> c_cc (clists st p)" "nc \<le> 64 - c_cf (clists st p) mod 64" "nc \<le> n"
      using cf_room [OF less.prems(1,3)] less.prems False by (auto simp: nc_def q_def CBLOCK_def)
    note a = cl_step_adv [OF less.prems(1) nc(1-3), folded st1_def]
    have out: "map (\<lambda>i. uchar st (c_cf q + i)) [0..nc - 1] = map fst (take (nat nc) (q_chars st p))"
      unfolding a(4) [symmetric] by (simp add: q_def comp_def)
    have "q_to_b_loop p n st = (if c_cc q - nc \<le> 0 then Some (map fst (take (nat nc) (q_chars st p)), st1)
        else Option.bind (q_to_b_loop p (n - nc) st1) (\<lambda>(out', s). Some (map fst (take (nat nc) (q_chars st p)) @ out', s)))"
      using False by (subst q_to_b_loop.simps, simp only: Let_def q_def [symmetric] nc_def [symmetric] st1_def [symmetric] out if_False)
    note loop = this
    have len: "int (length (q_chars st p)) = c_cc q" using q_chars_len [OF less.prems(1)] by (simp add: q_def)
    show ?thesis
    proof (cases "c_cc q - nc \<le> 0")
      case True
      then have "length (q_chars st p) \<le> nat nc" "length (q_chars st p) \<le> nat n" using len nc by (simp_all add: q_def)
      then show ?thesis using True loop a(1,2) by simp
    next
      case more: False
      have "nat (n - nc) < nat n" "0 \<le> n - nc" "0 < c_cc (clists st1 p)" using nc a(3) more by (simp_all add: q_def)
      then obtain st' where s: "q_to_b_loop p (n - nc) st1 = Some (map fst (take (nat (n - nc)) (q_chars st1 p)), st')" "cl_step p st1 st'"
        "q_chars st' p = drop (nat (n - nc)) (q_chars st1 p)" using less.hyps [of "n - nc" st1] a(1) by (auto simp: cl_step_def)
      have w: "nat n = nat nc + nat (n - nc)" using nc by simp
      have "q_to_b_loop p n st = Some (map fst (take (nat n) (q_chars st p)), st')"
        using loop more s(1) a(2) by (simp add: w take_add)
      moreover have "q_chars st' p = drop (nat n) (q_chars st p)" using s(3) a(2) by (simp add: w add.commute)
      ultimately show ?thesis using cl_step_trans [OF a(1) s(2)] by blast
    qed
  qed
qed

lemma q_to_b_eff:
  assumes ok: "cl_ok st"
  shows "\<exists>st'. q_to_b p n st = Some (map fst (take (nat n) (q_chars st p)), st') \<and> cl_step p st st' \<and> q_chars st' p = drop (nat n) (q_chars st p)"
proof -
  consider "n \<le> 0" | "0 < n" "c_cc (clists st p) \<le> 0" | "0 < n" "0 < c_cc (clists st p)" by linarith
  then show ?thesis
  proof cases
    case 2
    then show ?thesis using cl_ok_zero [OF ok] ok by (simp add: q_to_b_def upd_list_triv cl_step_refl q_chars_empty)
  next
    case 3
    then show ?thesis using q_to_b_loop_eff [OF ok _ 3(2), of n] by (simp add: q_to_b_def)
  qed (simp add: q_to_b_def ok cl_step_refl)
qed

section \<open>Flushing\<close>

definition cl_fin :: "nat \<Rightarrow> cbstate \<Rightarrow> cbstate" where
  "cl_fin p st = (if c_cc (clists st p) \<le> 0 then upd_list p (\<lambda>q. \<lparr>c_cc = 0, c_cf = 0, c_cl = 0\<rparr>) st else st)"

lemma upd_list_twice [simp]: "upd_list p f (upd_list p g st) = upd_list p (\<lambda>q. f (g q)) st"
  by (simp add: upd_list_def)

lemma upd_list_free: "upd_list p f (cb_wake (cb_free b (upd_list p g st))) = cb_wake (cb_free b (upd_list p (\<lambda>q. f (g q)) st))"
  by (simp add: upd_list_def cb_wake_def cb_free_def upd_block_def)

lemma upd_list_cong: "f (clists st p) = g (clists st p) \<Longrightarrow> upd_list p f st = upd_list p g st"
  by (simp add: upd_list_def)

lemma ndflush_loop_eff:
  assumes "cl_ok st"
  shows "\<exists>s. ndflush_loop p n st = Some s \<and> cl_step p st (cl_fin p s) \<and> q_chars (cl_fin p s) p = drop (nat n) (q_chars st p)"
  using assms
proof (induction "nat n" arbitrary: n st rule: less_induct)
  case less
  show ?case
  proof (cases "0 < n \<and> 0 < c_cc (clists st p)")
    case False
    have z: "c_cc (clists st p) \<le> 0 \<Longrightarrow> c_cc (clists st p) = 0 \<and> cl_fin p st = st \<and> q_chars st p = []"
      using cl_ok_zero [OF less.prems, of p] by (simp add: cl_fin_def upd_list_triv q_chars_empty)
    have c: "\<not> (0 < n \<and> c_cc (clists st p) \<noteq> 0)" using False z by linarith
    have "ndflush_loop p n st = Some st" by (subst ndflush_loop.simps) (simp only: Let_def if_P [OF c])
    moreover have "cl_fin p st = st" using z by (cases "c_cc (clists st p) \<le> 0") (simp_all add: cl_fin_def)
    moreover have "drop (nat n) (q_chars st p) = q_chars st p" using False z by (cases "n \<le> 0") auto
    ultimately show ?thesis using cl_step_refl [OF less.prems] by simp
  next
    case True
    define cc cf where "cc = c_cc (clists st p)" and "cf = c_cf (clists st p)"
    obtain fl B where r: "cl_rep st fl B" using less.prems by (auto simp: cl_ok_def)
    obtain b bs k e where q: "q_pre (cblocks st) (b # bs) k cc e" "1 \<le> e" "cf = 64 * b + 12 + k" "c_cl (clists st p) = 64 * last (b # bs) + 12 + e"
      using cl_rep_q [OF r] True unfolding cc_def cf_def by metis
    have k: "0 \<le> k" "k < 52" "e \<le> 52" "k + cc = 52 * int (length bs) + e" "distinct (b # bs)" using q(1) by (simp_all add: q_pre_def)
    have bp: "cbptr cf = b" using ptr_parts(1) [OF k(1,2)] by (simp add: q(3))
    have "c_cl (clists st p) - 1 = 64 * last (b # bs) + 12 + (e - 1)" using q(4) by simp
    then have lb: "cbptr (c_cl (clists st p) - 1) = last (b # bs)" using ptr_parts(1) [of "e - 1"] q(2) k(3) by simp
    have one: "b = last (b # bs) \<longleftrightarrow> bs = []" using k(5) by (cases bs rule: rev_cases) auto
    have l1: "bs \<noteq> [] \<Longrightarrow> 1 \<le> int (length bs)" by (cases bs) simp_all
    define rem where "rem = (if bs = [] then cc else 52 - k)"
    have rem: "(if b = cbptr (c_cl (clists st p) - 1) then c_cl (clists st p) else CBLOCK * (b + 1)) - cf = rem"
      unfolding lb one rem_def using k(4) q(3,4) by (cases "bs = []") (simp_all add: CBLOCK_def)
    define st2 where "st2 = cb_wake (cb_free b (upd_list p (\<lambda>q. q\<lparr>c_cc := c_cc q - rem, c_cf := info_of (c_next (cblocks st b))\<rparr>) st))"
    define st3 where "st3 = upd_list p (\<lambda>q. q\<lparr>c_cc := c_cc q - n, c_cf := c_cf q + n\<rparr>) st"
    have loop: "ndflush_loop p n st = (if rem \<le> n then ndflush_loop p (n - rem) st2 else Some (if c_cc (clists st3 p) \<le> 0 then cb_wake (cb_free b st3) else st3))"
      using True by (subst ndflush_loop.simps) (simp add: cf_def [symmetric] bp rem st2_def st3_def)
    have room: "64 - c_cf (clists st p) mod 64 = 52 - k" using pos_parts [OF k(1,2), of b] q(3) by (simp add: cf_def)
    note adv = cl_step_adv [OF less.prems, of _ p, unfolded room, folded cc_def]
    show ?thesis
    proof (cases "rem \<le> n")
      case False
      then have n: "1 \<le> n" "n < cc" "k + n < 52" using True k(1-4) l1 q(2) by (simp_all add: rem_def cc_def split: if_splits)
      have na: "\<not> aligned (cf + n)" using ptr_parts(1) [of "k + n" b] n k(1) q(3) by (simp add: add.assoc)
      have e: "cl_release p (upd_list p (\<lambda>q. q\<lparr>c_cf := c_cf q + n, c_cc := c_cc q - n\<rparr>) st) = st3"
        using n na upd_list_cong [of "\<lambda>q. q\<lparr>c_cf := c_cf q + n, c_cc := c_cc q - n\<rparr>" st p "\<lambda>q. q\<lparr>c_cc := c_cc q - n, c_cf := c_cf q + n\<rparr>"]
        by (cases "clists st p") (simp add: cl_release_def cc_def cf_def st3_def)
      have f: "cl_fin p st3 = st3" "\<not> c_cc (clists st3 p) \<le> 0" using n by (simp_all add: cl_fin_def st3_def cc_def)
      have "cl_step p st st3" "q_chars st3 p = drop (nat n) (q_chars st p)" using adv(1,2) [of n] n unfolding e by simp_all
      then show ?thesis using loop False f by simp
    next
      case le: True
      show ?thesis
      proof (cases "bs = []")
        case True
        then have c: "rem = cc" "1 \<le> cc" "k + cc \<le> 52" using k q(2) \<open>0 < n \<and> 0 < c_cc (clists st p)\<close> by (simp_all add: rem_def cc_def)
        have "c_cf (clists st p) + cc - 1 = 64 * b + 12 + (k + cc - 1)" using q(3) by (simp add: cf_def)
        then have cb: "cbptr (c_cf (clists st p) + cc - 1) = b" using ptr_parts(1) [of "k + cc - 1" b] c k(1) by simp
        have "ndflush_loop p (n - rem) st2 = Some st2" by (subst ndflush_loop.simps) (simp add: st2_def c(1) cc_def)
        moreover have "cl_fin p st2 = cl_release p (upd_list p (\<lambda>q. q\<lparr>c_cf := c_cf q + cc, c_cc := c_cc q - cc\<rparr>) st)"
          using cb upd_list_cong [of "\<lambda>q. \<lparr>c_cc = 0, c_cf = 0, c_cl = 0\<rparr>" st p "\<lambda>q. q\<lparr>c_cc := c_cc q - cc, c_cf := 0, c_cl := 0\<rparr>"]
          by (simp add: cl_fin_def st2_def c(1) cc_def cl_release_def upd_list_free)
        moreover have "nat n \<ge> length (q_chars st p)" using q_chars_len [OF less.prems, of p] le c(1) by (simp add: cc_def)
        ultimately show ?thesis using adv(1,2) [of cc] c loop le q_chars_len [OF less.prems, of p] by (simp add: cc_def)
      next
        case bs: False
        then have c: "rem = 52 - k" "1 \<le> rem" "rem < cc" using k(1-4) l1 q(2) bs by (simp_all add: rem_def)
        have "cf + rem = 64 * b + 12 + 52" using q(3) c(1) by simp
        then have al: "aligned (cf + rem)" "cbptr (cf + rem) - 1 = b" using ptr_parts(2,3) [of b] by simp_all
        have e: "cl_release p (upd_list p (\<lambda>q. q\<lparr>c_cf := c_cf q + rem, c_cc := c_cc q - rem\<rparr>) st) = st2"
          using c al upd_list_cong [of "\<lambda>q. q\<lparr>c_cf := info_of (c_next (cblocks st b)), c_cc := c_cc q - rem\<rparr>" st p]
          by (simp add: cl_release_def cc_def cf_def st2_def)
        have s2: "cl_step p st st2" "q_chars st2 p = drop (nat rem) (q_chars st p)" using adv(1,2) [of rem] c unfolding e by simp_all
        have "nat (n - rem) < nat n" "cl_ok st2" using c le s2(1) by (simp_all add: cl_step_def)
        from less.hyps [OF this] obtain s where s: "ndflush_loop p (n - rem) st2 = Some s" "cl_step p st2 (cl_fin p s)"
          "q_chars (cl_fin p s) p = drop (nat (n - rem)) (q_chars st2 p)" by blast
        have "nat (n - rem) + nat rem = nat n" using c le by simp
        then show ?thesis using loop le s s2 cl_step_trans [OF s2(1) s(2)] by simp
      qed
    qed
  qed
qed

lemma ndflush_eff:
  assumes ok: "cl_ok st"
  shows "\<exists>st'. ndflush p n st = Some st' \<and> cl_step p st st' \<and> q_chars st' p = drop (nat n) (q_chars st p)"
proof (cases "0 < c_cc (clists st p)")
  case True
  then show ?thesis using ndflush_loop_eff [OF ok, of p n] by (auto simp: ndflush_def cl_fin_def split: if_splits)
next
  case False
  then show ?thesis using q_chars_empty [of st p] cl_step_refl [OF ok] by (simp add: ndflush_def)
qed

end
