(* ===== verification/Clist_Put.thy ===== *)
theory Clist_Put
  imports Clist_Get
begin

text \<open>
  What \<open>putc\<close> and \<open>b_to_q\<close> add to a list, and what \<open>unputc\<close> takes from its end. While characters are added, the
  last block may be new and empty (\<open>mid\<close>).
\<close>

section \<open>A list that is being extended\<close>

definition others_same :: "nat \<Rightarrow> cbstate \<Rightarrow> cbstate \<Rightarrow> bool" where
  "others_same p st st' \<longleftrightarrow> (\<forall>r. r \<noteq> p \<longrightarrow> q_chars st' r = q_chars st r)"

text \<open>The other lists are right and use no block of \<open>S\<close>.\<close>

definition apart :: "cbstate \<Rightarrow> (nat \<Rightarrow> int list) \<Rightarrow> nat \<Rightarrow> int set \<Rightarrow> bool" where
  "apart st B p S \<longleftrightarrow> (\<forall>r. r \<noteq> p \<longrightarrow> q_rep (cblocks st) (clists st r) (B r) \<and> set (B r) \<inter> S = {})
     \<and> (\<forall>r s. r \<noteq> p \<longrightarrow> s \<noteq> p \<longrightarrow> r \<noteq> s \<longrightarrow> set (B r) \<inter> set (B s) = {})"

definition mid :: "cbstate \<Rightarrow> int list \<Rightarrow> (nat \<Rightarrow> int list) \<Rightarrow> nat \<Rightarrow> int list \<Rightarrow> int \<Rightarrow> int \<Rightarrow> int \<Rightarrow> bool" where
  "mid st fl B p bs k cc e \<longleftrightarrow>
     bchain (cblocks st) (cfreelist st) fl \<and> distinct (fl @ bs) \<and> cfreecount st = 52 * int (length fl) \<and> q_pre (cblocks st) bs k cc e
   \<and> apart st B p (set fl \<union> set bs)"

lemma others_same_trans: "others_same p st st1 \<Longrightarrow> others_same p st1 st2 \<Longrightarrow> others_same p st st2"
  by (simp add: others_same_def)

lemma apart_upd:
  assumes a: "apart st B p S" and b: "\<And>b. b \<notin> S \<Longrightarrow> cblocks st' b = cblocks st b" and l: "\<And>r. r \<noteq> p \<Longrightarrow> clists st' r = clists st r" and s: "S' \<subseteq> S"
  shows "apart st' B p S' \<and> others_same p st st'"
proof -
  have d: "set (B r) \<inter> S = {}" "q_rep (cblocks st) (clists st r) (B r)" if "r \<noteq> p" for r using a that unfolding apart_def by blast+
  have u: "\<forall>b \<in> set (B r). cblocks st' b = cblocks st b" if "r \<noteq> p" for r using b d(1) [OF that] by blast
  have "q_rep (cblocks st') (clists st' r) (B r)" if "r \<noteq> p" for r
  proof -
    have "q_rep (cblocks st') (clists st r) (B r) = q_rep (cblocks st) (clists st r) (B r)" by (rule q_rep_cong) (use u [OF that] in blast)
    then show ?thesis using d(2) [OF that] l [OF that] by simp
  qed
  moreover have "set (B r) \<inter> S' = {}" if "r \<noteq> p" for r using d(1) [OF that] s by auto
  moreover have "q_chars st' r = q_chars st r" if "r \<noteq> p" for r using q_chars_cong [OF d(2) [OF that] l [OF that]] u [OF that] by blast
  ultimately show ?thesis using a unfolding apart_def others_same_def by blast
qed

lemma cl_rep_apart: "cl_rep st fl B \<Longrightarrow> apart st B p (set fl \<union> set (B p))"
  by (simp add: cl_rep_def apart_def Int_Un_distrib)

lemma mid_upd:
  assumes m: "mid st fl B p bs k cc e"
    and b: "\<And>b. b \<notin> set fl \<Longrightarrow> b \<notin> set bs \<Longrightarrow> cblocks st' b = cblocks st b" and l: "\<And>r. r \<noteq> p \<Longrightarrow> clists st' r = clists st r"
    and n: "bchain (cblocks st') (cfreelist st') fl'" "distinct (fl' @ bs')" "cfreecount st' = 52 * int (length fl')"
      "q_pre (cblocks st') bs' k' cc' e'" "set (fl' @ bs') \<subseteq> set fl \<union> set bs"
  shows "mid st' fl' B p bs' k' cc' e' \<and> others_same p st st'"
proof -
  have "apart st' B p (set fl' \<union> set bs') \<and> others_same p st st'"
    by (rule apart_upd [of st B p "set fl \<union> set bs"]) (use m b l n(5) in \<open>simp_all add: mid_def\<close>)
  then show ?thesis using n by (simp add: mid_def)
qed

lemma mid_from:
  assumes "cl_rep st fl B" "q_pre (cblocks st) (B p) k cc e"
  shows "mid st fl B p (B p) k cc e"
proof -
  have "set (B p) \<inter> set fl = {}" "distinct (B p)" using assms by (simp_all add: cl_rep_def q_pre_def)
  then show ?thesis using assms cl_rep_apart [OF assms(1), of p] by (simp add: cl_rep_def mid_def Int_commute)
qed

lemma mid_list: "mid (upd_list p f st) fl B p bs k cc e = mid st fl B p bs k cc e"
  by (simp add: mid_def apart_def)

lemma q_chars_list: "r \<noteq> p \<Longrightarrow> q_chars (upd_list p f st) r = q_chars st r"
  by (simp add: q_chars_def Let_def)

lemma others_list [simp]: "others_same p st (upd_list p f st')  = others_same p st st'" "others_same p (upd_list p f st) st' = others_same p st st'"
  by (simp_all add: others_same_def q_chars_list)

lemma mid_end:
  assumes m: "mid st fl B p bs k cc e" and c: "1 \<le> cc" "1 \<le> e"
    and q: "clists st p = \<lparr>c_cc = cc, c_cf = 64 * hd bs + 12 + k, c_cl = 64 * last bs + 12 + e\<rparr>"
  shows "cl_rep st fl (B(p := bs)) \<and> q_chars st p = content (cblocks st) bs k cc"
proof -
  have w: "q_pre (cblocks st) bs k cc e" "distinct (fl @ bs)" using m by (simp_all add: mid_def)
  have "q_rep (cblocks st) (clists st p) bs" unfolding q_rep_def q
    by (intro disjI2 exI [of _ k] exI [of _ e]) (use w c in simp)
  moreover have "q_chars st p = content (cblocks st) bs k cc" using q_chars_rep [of st bs k p e] w c q by simp
  ultimately show ?thesis using m unfolding cl_rep_def mid_def apart_def by (auto simp: Int_Un_distrib)
qed

text \<open>A character stored behind the last.\<close>

lemma bchars_upd:
  assumes e: "0 \<le> e" "e < 52"
    and u: "\<And>o'. o' \<noteq> 12 + e \<Longrightarrow> c_info (M' b) o' = c_info (M b) o' \<and> c_quote (M' b) o' = c_quote (M b) o'"
  shows "bchars M' b = (bchars M b)[nat e := (c_info (M' b) (12 + e) mod 256, c_quote (M' b) (12 + e))]"
proof (rule nth_equalityI)
  fix i assume "i < length (bchars M' b)"
  then have i: "i < 52" by simp
  have n: "bchars M' b ! i = (c_info (M' b) (12 + int i) mod 256, c_quote (M' b) (12 + int i))"
    "bchars M b ! i = (c_info (M b) (12 + int i) mod 256, c_quote (M b) (12 + int i))"
    using bchars_nth [of "int i"] i by simp_all
  show "bchars M' b ! i = (bchars M b)[nat e := (c_info (M' b) (12 + e) mod 256, c_quote (M' b) (12 + e))] ! i"
  proof (cases "i = nat e")
    case True
    then have "int i = e" using e by simp
    then show ?thesis using n(1) i True by simp
  next
    case False
    then have "12 + int i \<noteq> 12 + e" by linarith
    then show ?thesis using n u False by simp
  qed
qed simp

lemma content_put:
  assumes q: "q_pre M bs k cc e" and e: "e < 52" and b: "\<And>b. b \<in> set (butlast bs) \<Longrightarrow> M' b = M b"
    and u: "\<And>o'. o' \<noteq> 12 + e \<Longrightarrow> c_info (M' (last bs)) o' = c_info (M (last bs)) o' \<and> c_quote (M' (last bs)) o' = c_quote (M (last bs)) o'"
  shows "content M' bs k (cc + 1) = content M bs k cc @ [(c_info (M' (last bs)) (12 + e) mod 256, c_quote (M' (last bs)) (12 + e))]"
proof -
  let ?x = "(c_info (M' (last bs)) (12 + e) mod 256, c_quote (M' (last bs)) (12 + e))"
  have w: "bs \<noteq> []" "0 \<le> e" "0 \<le> k" "0 \<le> cc" "k + cc = 52 * (int (length bs) - 1) + e" using q by (simp_all add: q_pre_def)
  have bs: "bs = butlast bs @ [last bs]" using w(1) by simp
  have L: "int (length bs) - 1 = int (length (butlast bs))" using w(1) by (cases bs) simp_all
  have "k + cc = int (52 * length (butlast bs)) + e" using w(5) unfolding L by (simp only: of_nat_mult of_nat_numeral)
  then have "nat (k + cc) = 52 * length (butlast bs) + nat e" using w(2) by (metis nat_add_distrib nat_int of_nat_0_le_iff)
  moreover have "nat (k + cc) = nat k + nat cc" using w(3,4) by (rule nat_add_distrib)
  ultimately have i: "nat (k + cc) = 52 * length (butlast bs) + nat e" "nat (k + cc) = nat k + nat cc" by simp_all
  have A: "bdata M' (butlast bs) = bdata M (butlast bs)" by (rule bdata_cong) (simp add: b)
  have C: "bchars M' (last bs) = (bchars M (last bs))[nat e := ?x]" by (rule bchars_upd [OF w(2) e]) (rule u)
  have "bdata M' bs = bdata M (butlast bs) @ (bchars M (last bs))[nat e := ?x]"
    by (subst bs) (simp only: bdata_simps append_Nil2 A C)
  also have "\<dots> = (bdata M bs)[nat (k + cc) := ?x]"
    by (subst (3) bs) (simp only: bdata_simps append_Nil2 i(1) list_update_append bdata_len not_add_less1 if_False diff_add_inverse)
  finally have d: "bdata M' bs = (bdata M bs)[nat (k + cc) := ?x]" .
  have l: "nat (k + cc) < length (bdata M bs)" using w e by (subst bs) (simp add: i(1))
  have "content M' bs k (cc + 1) = take (Suc (nat cc)) (drop (nat k) (bdata M' bs))" using w by (simp add: content_def nat_add_distrib)
  also have "\<dots> = take (nat cc) (drop (nat k) (bdata M' bs)) @ [drop (nat k) (bdata M' bs) ! nat cc]"
    by (rule take_Suc_conv_app_nth) (use l in \<open>simp add: d i(2) del: bdata_len\<close>)
  also have "take (nat cc) (drop (nat k) (bdata M' bs)) = content M bs k cc"
    by (simp add: content_def d i(2) drop_update_swap)
  also have "drop (nat k) (bdata M' bs) ! nat cc = ?x" using l by (simp add: d i(2) del: bdata_len)
  finally show ?thesis .
qed

lemma mid_store:
  assumes m: "mid st fl B p bs k cc e" and e: "e < 52"
    and b: "\<And>b. b \<noteq> last bs \<Longrightarrow> cblocks st' b = cblocks st b" and l: "clists st' = clists st" "cfreelist st' = cfreelist st" "cfreecount st' = cfreecount st"
    and n: "c_next (cblocks st' (last bs)) = c_next (cblocks st (last bs))"
    and u: "\<And>o'. o' \<noteq> 12 + e \<Longrightarrow> c_info (cblocks st' (last bs)) o' = c_info (cblocks st (last bs)) o' \<and> c_quote (cblocks st' (last bs)) o' = c_quote (cblocks st (last bs)) o'"
  shows "mid st' fl B p bs k (cc + 1) (e + 1) \<and> others_same p st st'
    \<and> content (cblocks st') bs k (cc + 1) = content (cblocks st) bs k cc
        @ [(c_info (cblocks st' (last bs)) (12 + e) mod 256, c_quote (cblocks st' (last bs)) (12 + e))]"
proof -
  have w: "q_pre (cblocks st) bs k cc e" "distinct (fl @ bs)" "bchain (cblocks st) (cfreelist st) fl" "cfreecount st = 52 * int (length fl)" "bs \<noteq> []"
    using m by (simp_all add: mid_def q_pre_def)
  have nx: "c_next (cblocks st' x) = c_next (cblocks st x)" for x using b [of x] n by (cases "x = last bs") simp_all
  have q: "q_pre (cblocks st') bs k (cc + 1) (e + 1)" using w(1) e bchain_cong [of bs "cblocks st'" "cblocks st"] nx by (simp add: q_pre_def)
  have f: "bchain (cblocks st') (cfreelist st') fl" using w(3) bchain_cong [of fl "cblocks st'" "cblocks st"] nx l by simp
  have lb: "last bs \<in> set bs" using w(5) by simp
  have bl: "x \<noteq> last bs" if "x \<in> set (butlast bs)" for x
    using that w(2,5) by (metis append_butlast_last_id distinct_append distinct_butlast not_distinct_conv_prefix)
  have "mid st' fl B p bs k (cc + 1) (e + 1) \<and> others_same p st st'"
    by (rule mid_upd [OF m]) (use b lb l w f q in \<open>(metis | simp)+\<close>)
  then show ?thesis using content_put [OF w(1) e, of "cblocks st'"] b bl u by blast
qed

section \<open>New blocks\<close>

lemma cb_take_sel:
  "fst (cb_take clear st) = cfreelist st" "clists (snd (cb_take clear st)) = clists st" "cfreelist (snd (cb_take clear st)) = c_next (cblocks st (cfreelist st))"
  "cfreecount (snd (cb_take clear st)) = cfreecount st - 52"
  "cblocks (snd (cb_take clear st)) x = (if x = cfreelist st
     then (cblocks st x)\<lparr>c_next := 0, c_quote := if clear then (\<lambda>_. False) else c_quote (cblocks st x)\<rparr> else cblocks st x)"
  by (simp_all add: cb_take_def Let_def upd_block_def CBSIZE_def)

lemma upd_next_triv: "c_next (cblocks st b) = n \<Longrightarrow> upd_block b (\<lambda>b. b\<lparr>c_next := n\<rparr>) st = st"
  by (cases st; cases "cblocks st b") (simp add: upd_block_def fun_eq_iff)

lemma free_cases: "bchain M f fl \<Longrightarrow> f \<noteq> 0 \<Longrightarrow> \<exists>fl'. fl = f # fl' \<and> 0 < f \<and> bchain M (c_next (M f)) fl'"
  by (cases fl) auto

text \<open>The first block of an empty list.\<close>

lemma mid_first:
  assumes r: "cl_rep st fl B" and c: "c_cc (clists st p) \<le> 0" and f: "cfreelist st \<noteq> 0"
  defines "st' \<equiv> snd (cb_take True st)"
  shows "\<exists>fl'. fl = cfreelist st # fl' \<and> mid st' fl' B p [cfreelist st] 0 0 0 \<and> others_same p st st'"
proof -
  obtain fl' where fl: "fl = cfreelist st # fl'" "0 < cfreelist st" "bchain (cblocks st) (c_next (cblocks st (cfreelist st))) fl'"
    using free_cases [OF cl_rep_free(1) [OF r] f] by blast
  have d: "distinct fl" "cfreecount st = 52 * int (length fl)" using cl_rep_free(2,3) [OF r] by simp_all
  have "apart st' B p (set fl' \<union> set [cfreelist st]) \<and> others_same p st st'"
    by (rule apart_upd [OF cl_rep_apart [OF r]]) (use fl(1) in \<open>auto simp: st'_def cb_take_sel\<close>)
  moreover have "bchain (cblocks st') (c_next (cblocks st (cfreelist st))) fl' = bchain (cblocks st) (c_next (cblocks st (cfreelist st))) fl'"
    by (rule bchain_cong) (use fl d in \<open>auto simp: st'_def cb_take_sel\<close>)
  ultimately show ?thesis using fl d by (simp add: mid_def q_pre_def st'_def cb_take_sel)
qed

text \<open>A block more behind a full one.\<close>

lemma mid_block:
  fixes clear :: bool
  assumes m: "mid st fl B p bs k cc 52" and f: "cfreelist st \<noteq> 0"
  defines "st' \<equiv> snd (cb_take clear (upd_block (last bs) (\<lambda>b. b\<lparr>c_next := cfreelist st\<rparr>) st))"
  shows "\<exists>fl'. fl = cfreelist st # fl' \<and> mid st' fl' B p (bs @ [cfreelist st]) k cc 0 \<and> others_same p st st'
    \<and> content (cblocks st') (bs @ [cfreelist st]) k cc = content (cblocks st) bs k cc"
proof -
  let ?f = "cfreelist st"
  have w: "bchain (cblocks st) ?f fl" "distinct (fl @ bs)" "cfreecount st = 52 * int (length fl)" "q_pre (cblocks st) bs k cc 52" "bs \<noteq> []"
    "bchain (cblocks st) (hd bs) bs" "0 \<le> k" "0 \<le> cc" "k + cc = 52 * int (length bs)"
    using m by (simp_all add: mid_def q_pre_def)
  obtain fl' where fl: "fl = ?f # fl'" "0 < ?f" "bchain (cblocks st) (c_next (cblocks st ?f)) fl'" using free_cases [OF w(1) f] by blast
  have lm: "last bs \<in> set bs" using w(5) by simp
  then have lb: "last bs \<in> set bs" "last bs \<noteq> ?f" "?f \<notin> set bs" "?f \<notin> set fl'" "set fl' \<inter> set bs = {}" using w(2) fl(1) by auto
  have bl: "last bs \<notin> set (butlast bs)" using w(2,5) by (metis append_butlast_last_id distinct_append not_distinct_conv_prefix)
  define M where "M = cblocks st'"
  have M: "M x = (if x = ?f then (cblocks st x)\<lparr>c_next := 0, c_quote := if clear then (\<lambda>_. False) else c_quote (cblocks st x)\<rparr>
      else if x = last bs then (cblocks st x)\<lparr>c_next := ?f\<rparr> else cblocks st x)" for x
    using lb(2) by (simp add: M_def st'_def cb_take_sel) (simp add: upd_block_def)
  have s: "cfreelist st' = c_next (cblocks st ?f)" "cfreecount st' = cfreecount st - 52" "clists st' = clists st"
    using lb(2) by (simp_all add: st'_def cb_take_sel) (simp_all add: upd_block_def)
  have c: "bchain M (hd bs) (bs @ [?f])"
    by (rule bchain_snoc [OF w(6,5)]) (use w(2) lb fl(2) bl in \<open>auto simp: M dest: in_set_butlastD\<close>)
  have "bchain M (c_next (cblocks st ?f)) fl' = bchain (cblocks st) (c_next (cblocks st ?f)) fl'"
    by (rule bchain_cong) (use lb in \<open>auto simp: M\<close>)
  then have g: "bchain M (c_next (cblocks st ?f)) fl'" using fl(3) by simp
  have q: "q_pre M (bs @ [?f]) k cc 0" using w c lb(3) by (simp add: q_pre_def)
  have "mid st' fl' B p (bs @ [?f]) k cc 0 \<and> others_same p st st'"
    by (rule mid_upd [OF m]) (use w(2,3) fl(1) g q s lb in \<open>auto simp: M simp flip: M_def\<close>)
  moreover have "content M (bs @ [?f]) k cc = content (cblocks st) bs k cc"
  proof -
    have "bdata M bs = bdata (cblocks st) bs" by (rule bdata_cong) (use lb(3) in \<open>auto simp: M\<close>)
    moreover have "nat k + nat cc = 52 * length bs" using w(7-9) by (simp flip: nat_add_distrib)
    ultimately show ?thesis by (simp add: content_def)
  qed
  ultimately show ?thesis using fl(1) by (simp add: M_def)
qed

section \<open>One character\<close>

lemma put_at_eff:
  fixes c :: int
  assumes m: "mid st fl B p bs k cc e" and e: "e < 52"
    and q: "c_cc (clists st p) = cc" "c_cf (clists st p) = 64 * hd bs + 12 + k"
  defines "st' \<equiv> put_at c p (64 * last bs + 12 + e) st"
  shows "cl_rep st' fl (B(p := bs)) \<and> others_same p st st'
    \<and> q_chars st' p = content (cblocks st) bs k cc @ [(c mod 256, c AND TTY_QUOTE \<noteq> 0 \<or> c_quote (cblocks st (last bs)) (12 + e))]"
proof -
  let ?cp = "64 * last bs + 12 + e"
  have p: "0 \<le> e" "0 \<le> cc" using m by (simp_all add: mid_def q_pre_def)
  note pt = ptr_parts(1) [OF p(1) e, of "last bs"]
  define st1 where "st1 = store ?cp c (if c AND TTY_QUOTE \<noteq> 0 then setquote ?cp st else st)"
  have s1: "clists st1 = clists st" "cfreelist st1 = cfreelist st" "cfreecount st1 = cfreecount st"
    by (simp_all add: st1_def store_def setquote_def upd_block_def)
  have b1: "cblocks st1 x = (if x = last bs
      then (cblocks st x)\<lparr>c_info := (c_info (cblocks st x))(12 + e := c mod 256),
             c_quote := if c AND TTY_QUOTE \<noteq> 0 then (c_quote (cblocks st x))(12 + e := True) else c_quote (cblocks st x)\<rparr> else cblocks st x)" for x
    using pt by (simp add: st1_def store_def setquote_def upd_block_def)
  have m1: "mid st1 fl B p bs k (cc + 1) (e + 1) \<and> others_same p st st1
    \<and> content (cblocks st1) bs k (cc + 1) = content (cblocks st) bs k cc @ [(c_info (cblocks st1 (last bs)) (12 + e) mod 256, c_quote (cblocks st1 (last bs)) (12 + e))]"
    by (rule mid_store [OF m e]) (simp_all add: s1 b1)
  have st': "st' = upd_list p (\<lambda>q. q\<lparr>c_cc := c_cc q + 1, c_cl := ?cp + 1\<rparr>) st1" by (simp add: st'_def put_at_def st1_def Let_def)
  have l: "clists st' p = \<lparr>c_cc = cc + 1, c_cf = 64 * hd bs + 12 + k, c_cl = 64 * last bs + 12 + (e + 1)\<rparr>"
    using q by (cases "clists st p") (simp add: st' s1)
  have "mid st' fl B p bs k (cc + 1) (e + 1)" using m1 by (simp add: st' mid_list)
  from mid_end [OF this _ _ l] have "cl_rep st' fl (B(p := bs)) \<and> q_chars st' p = content (cblocks st') bs k (cc + 1)" using p by simp
  moreover have "cblocks st' = cblocks st1" by (simp add: st')
  moreover have "others_same p st st'" using m1 by (simp add: st')
  ultimately show ?thesis using m1 by (simp add: b1)
qed

text \<open>The mark a character gets that is not quoted: what is left in its place.\<close>

definition stale :: "cbstate \<Rightarrow> nat \<Rightarrow> bool" where
  "stale st p =
     (let cl = c_cl (clists st p)
      in if cl = 0 then False else if aligned cl then c_quote (cblocks st (cfreelist st)) 12 else isquote st cl)"

lemma cl_full: "cl_rep st fl B \<Longrightarrow> c_cl (clists st p) = 0 \<or> c_cc (clists st p) < 0 \<longleftrightarrow> c_cc (clists st p) \<le> 0"
proof -
  assume r: "cl_rep st fl B"
  have q: "q_rep (cblocks st) (clists st p) (B p)" using r by (simp add: cl_rep_def)
  show ?thesis
  proof (cases "0 < c_cc (clists st p)")
    case True
    obtain b bs k e where "q_pre (cblocks st) (b # bs) k (c_cc (clists st p)) e" "1 \<le> e" "c_cl (clists st p) = 64 * last (b # bs) + 12 + e"
      using cl_rep_q [OF r True] by metis
    moreover have "0 < last (b # bs)" using bchain_pos [of "cblocks st" b "b # bs" "last (b # bs)"] calculation(1) by (simp add: q_pre_def)
    ultimately show ?thesis using True by linarith
  next
    case False
    then show ?thesis using q by (auto simp: q_rep_def)
  qed
qed

definition putc_ok :: "int \<Rightarrow> nat \<Rightarrow> cbstate \<Rightarrow> int list \<Rightarrow> (nat \<Rightarrow> int list) \<Rightarrow> bool" where
  "putc_ok c p st fl B \<longleftrightarrow>
    (\<exists>st'. putc c p st = (- 1, st') \<and> fl = [] \<and> st' = st)
    \<or> (\<exists>st' fl' bs'. putc c p st = (0, st') \<and> cl_rep st' fl' (B(p := bs')) \<and> others_same p st st'
        \<and> q_chars st' p = q_chars st p @ [(c mod 256, c AND TTY_QUOTE \<noteq> 0 \<or> stale st p)])"

lemma putc_okI:
  assumes "putc c p st = (0, s)" "cl_rep s fl' (B(p := bs')) \<and> others_same p st1 s \<and> q_chars s p = xs @ [(c mod 256, c AND TTY_QUOTE \<noteq> 0 \<or> m)]"
    "others_same p st st1" "q_chars st p = xs" "stale st p = m"
  shows "putc_ok c p st fl B"
  using assms others_same_trans unfolding putc_ok_def by blast

lemma putc_eff:
  assumes r: "cl_rep st fl B"
  shows "putc_ok c p st fl B"
proof (cases "0 < c_cc (clists st p)")
  case False
  then have z: "clists st p = \<lparr>c_cc = 0, c_cf = 0, c_cl = 0\<rparr>" using cl_ok_zero [of st p] r by (auto simp: cl_ok_def)
  show ?thesis
  proof (cases "cfreelist st = 0")
    case True
    then have "fl = []" using cl_rep_free(1) [OF r] by (cases fl) auto
    then show ?thesis using True z by (simp add: putc_ok_def putc_def)
  next
    case f: False
    define st1 where "st1 = snd (cb_take True st)"
    obtain fl' where m: "mid st1 fl' B p [cfreelist st] 0 0 0" "others_same p st st1" using mid_first [OF r _ f, of p] False by (auto simp: st1_def)
    define st2 where "st2 = upd_list p (\<lambda>q. q\<lparr>c_cf := info_of (cfreelist st)\<rparr>) st1"
    have m2: "mid st2 fl' B p [cfreelist st] 0 0 0" using m by (simp add: st2_def mid_list)
    have l: "c_cc (clists st2 p) = 0" "c_cf (clists st2 p) = 64 * hd [cfreelist st] + 12 + 0"
      using z by (simp_all add: st2_def st1_def cb_take_sel ptr_parts)
    have "putc c p st = (0, put_at c p (64 * last [cfreelist st] + 12 + 0) st2)"
      using z f by (simp add: putc_def split_beta cb_take_sel st2_def st1_def ptr_parts(4))
    moreover have "c_quote (cblocks st2 (last [cfreelist st])) (12 + 0) = stale st p" using z by (simp add: st2_def st1_def cb_take_sel stale_def)
    moreover have "q_chars st p = content (cblocks st2) [cfreelist st] 0 0" using z by (simp add: content_def q_chars_empty)
    moreover have "others_same p st st2" using m(2) by (simp add: st2_def)
    ultimately show ?thesis using put_at_eff [OF m2 _ l, of c] by (intro putc_okI) simp_all
  qed
next
  case True
  obtain b bs k e where q: "B p = b # bs" "q_pre (cblocks st) (b # bs) k (c_cc (clists st p)) e" "1 \<le> e" "c_cf (clists st p) = 64 * b + 12 + k"
    "c_cl (clists st p) = 64 * last (b # bs) + 12 + e" "q_chars st p = content (cblocks st) (b # bs) k (c_cc (clists st p))"
    using cl_rep_q [OF r True] by metis
  have m: "mid st fl B p (b # bs) k (c_cc (clists st p)) e" using mid_from [OF r, of p] q(1,2) by simp
  have nz: "\<not> (c_cl (clists st p) = 0 \<or> c_cc (clists st p) < 0)" using cl_full [OF r, of p] True by simp
  have e: "e \<le> 52" using q(2) by (simp add: q_pre_def)
  show ?thesis
  proof (cases "e = 52")
    case False
    then have el: "e < 52" using e by simp
    note pt = ptr_parts(1) [of e "last (b # bs)"]
    have na: "\<not> aligned (c_cl (clists st p))" "isquote st (c_cl (clists st p)) = c_quote (cblocks st (last (b # bs))) (12 + e)"
      using pt q(3) el by (simp_all add: q(5) isquote_def)
    have "putc c p st = (0, put_at c p (64 * last (b # bs) + 12 + e) st)" using nz na(1) by (simp add: putc_def q(5) Let_def)
    moreover have "stale st p = c_quote (cblocks st (last (b # bs))) (12 + e)" using nz na by (simp add: stale_def)
    moreover have "c_cf (clists st p) = 64 * hd (b # bs) + 12 + k" using q(4) by simp
    ultimately show ?thesis by (intro putc_okI [OF _ put_at_eff [OF m el refl, of c]]) (simp_all add: q(6) others_same_def)
  next
    case full: True
    have al: "aligned (c_cl (clists st p))" "cbptr (c_cl (clists st p)) - 1 = last (b # bs)" using ptr_parts(2,3) [of "last (b # bs)"] q(5) full by simp_all
    define st1 where "st1 = upd_block (last (b # bs)) (\<lambda>b. b\<lparr>c_next := cfreelist st\<rparr>) st"
    show ?thesis
    proof (cases "cfreelist st = 0")
      case z: True
      have fl: "fl = []" using cl_rep_free(1) [OF r] z by (cases fl) auto
      have "c_next (cblocks st (last (b # bs))) = 0" using bchain_last [of "cblocks st" b "b # bs"] q(2) by (simp add: q_pre_def)
      then have "upd_block (cbptr (c_cl (clists st p)) - 1) (\<lambda>b. b\<lparr>c_next := cfreelist st\<rparr>) st = st" using z al(2) by (intro upd_next_triv) simp
      then have "putc c p st = (- 1, st)" using nz al(1) z by (simp add: putc_def Let_def)
      then show ?thesis using fl by (simp add: putc_ok_def)
    next
      case f: False
      define st2 where "st2 = snd (cb_take False st1)"
      obtain fl' where m2: "mid st2 fl' B p ((b # bs) @ [cfreelist st]) k (c_cc (clists st p)) 0" "others_same p st st2"
        "content (cblocks st2) ((b # bs) @ [cfreelist st]) k (c_cc (clists st p)) = content (cblocks st) (b # bs) k (c_cc (clists st p))"
        using mid_block [OF m [unfolded full] f, of False] unfolding st1_def [symmetric] st2_def [symmetric] by blast
      have s1: "cfreelist st1 = cfreelist st" "clists st1 = clists st" by (simp_all add: st1_def upd_block_def)
      have st1: "upd_block (cbptr (c_cl (clists st p)) - 1) (\<lambda>b. b\<lparr>c_next := cfreelist st\<rparr>) st = st1" by (simp only: al(2) st1_def)
      have "putc c p st = (0, put_at c p (64 * last ((b # bs) @ [cfreelist st]) + 12 + 0) st2)"
        using nz al(1) f by (simp add: putc_def st1 Let_def split_beta cb_take_sel s1 st2_def ptr_parts(4))
      moreover have "cfreelist st \<noteq> last (b # bs)" using m2(1) last_in_set [of "b # bs"] unfolding mid_def q_pre_def by force
      then have "c_quote (cblocks st2 (last ((b # bs) @ [cfreelist st]))) (12 + 0) = stale st p"
        using nz al by (simp add: st2_def cb_take_sel s1 stale_def) (simp add: st1_def upd_block_def)
      moreover have l: "c_cc (clists st2 p) = c_cc (clists st p)" "c_cf (clists st2 p) = 64 * hd ((b # bs) @ [cfreelist st]) + 12 + k"
        using q(4) by (simp_all add: st2_def cb_take_sel s1)
      ultimately show ?thesis by (intro putc_okI [OF _ put_at_eff [OF m2(1) _ l, of c] m2(2)]) (simp_all add: q(6) m2(3) del: append_Cons)
    qed
  qed
qed

end
