(* ===== verification/Clist_Btoq.thy ===== *)
theory Clist_Btoq
  imports Clist_Put
begin

text \<open>What \<open>b_to_q\<close> appends to a list: block by block, with the state of the list written at the end.\<close>

section \<open>A list with more characters\<close>

definition clean :: "cbstate \<Rightarrow> int list \<Rightarrow> int \<Rightarrow> bool" where
  "clean st bs e \<longleftrightarrow> (\<forall>i. 12 + e \<le> i \<and> i < 64 \<longrightarrow> \<not> c_quote (cblocks st (last bs)) i)"

definition ext :: "(nat \<Rightarrow> int list) \<Rightarrow> nat \<Rightarrow> int \<Rightarrow> int list \<Rightarrow> int \<Rightarrow> int \<Rightarrow> cbstate \<Rightarrow> int list
    \<Rightarrow> int list \<Rightarrow> int list \<Rightarrow> int \<Rightarrow> int \<Rightarrow> cbstate \<Rightarrow> bool" where
  "ext B p k bs cc e st xs fl' bs' cc' e' st' \<longleftrightarrow>
     mid st' fl' B p bs' k cc' e' \<and> hd bs' = hd bs \<and> others_same p st st' \<and> clists st' = clists st \<and> cc' = cc + int (length xs)
   \<and> cfreecount st' + 52 * int (length bs') = cfreecount st + 52 * int (length bs)
   \<and> (\<exists>ms. length ms = length xs \<and> content (cblocks st') bs' k cc' = content (cblocks st) bs k cc @ zip (map (\<lambda>c. c mod 256) xs) ms
        \<and> (clean st bs e \<longrightarrow> set ms \<subseteq> {False} \<and> clean st' bs' e'))"

lemma ext_refl: "mid st fl B p bs k cc e \<Longrightarrow> ext B p k bs cc e st [] fl bs cc e st"
  by (simp add: ext_def others_same_def)

lemma ext_trans:
  assumes "ext B p k bs cc e st xs fl1 bs1 cc1 e1 st1" "ext B p k bs1 cc1 e1 st1 ys fl2 bs2 cc2 e2 st2"
  shows "ext B p k bs cc e st (xs @ ys) fl2 bs2 cc2 e2 st2"
proof -
  obtain ms where m: "length ms = length xs" "content (cblocks st1) bs1 k cc1 = content (cblocks st) bs k cc @ zip (map (\<lambda>c. c mod 256) xs) ms"
    "clean st bs e \<longrightarrow> set ms \<subseteq> {False} \<and> clean st1 bs1 e1" using assms(1) unfolding ext_def by blast
  obtain ms' where m': "length ms' = length ys" "content (cblocks st2) bs2 k cc2 = content (cblocks st1) bs1 k cc1 @ zip (map (\<lambda>c. c mod 256) ys) ms'"
    "clean st1 bs1 e1 \<longrightarrow> set ms' \<subseteq> {False} \<and> clean st2 bs2 e2" using assms(2) unfolding ext_def by blast
  have "\<exists>ms. length ms = length (xs @ ys) \<and> content (cblocks st2) bs2 k cc2 = content (cblocks st) bs k cc @ zip (map (\<lambda>c. c mod 256) (xs @ ys)) ms
        \<and> (clean st bs e \<longrightarrow> set ms \<subseteq> {False} \<and> clean st2 bs2 e2)"
    by (rule exI [of _ "ms @ ms'"]) (use m m' in auto)
  then show ?thesis using assms others_same_trans [of p st st1 st2] unfolding ext_def by auto
qed

section \<open>A run of stores\<close>

definition stores :: "int \<Rightarrow> int list \<Rightarrow> nat \<Rightarrow> cbstate \<Rightarrow> cbstate" where
  "stores cq cs n = fold (\<lambda>i. store (cq + i) (cs ! nat i)) [0..int n - 1]"

lemma stores_Suc: "stores cq cs (Suc n) st = store (cq + int n) (cs ! n) (stores cq cs n st)"
  using upto_rec2 [of 0 "int n"] by (simp add: stores_def)

lemma stores_0 [simp]: "stores cq cs 0 st = st"
  by (simp add: stores_def)

lemma store_sel: "clists (store cp c st) = clists st" "cfreelist (store cp c st) = cfreelist st" "cfreecount (store cp c st) = cfreecount st"
  "cblocks (store cp c st) x = (if x = cbptr cp then (cblocks st x)\<lparr>c_info := (c_info (cblocks st x))(cp mod CBLOCK := c mod 256)\<rparr> else cblocks st x)"
  by (simp_all add: store_def upd_block_def)

lemma stores_sel: "clists (stores cq cs n st) = clists st" "cfreelist (stores cq cs n st) = cfreelist st"
  "cfreecount (stores cq cs n st) = cfreecount st" "c_quote (cblocks (stores cq cs n st) x) = c_quote (cblocks st x)"
  by (induction n) (auto simp: stores_Suc store_sel)

lemma ext_stores:
  assumes m: "mid st fl B p bs k cc e" and n: "e + int n \<le> 52" "n \<le> length cs"
  shows "ext B p k bs cc e st (take n cs) fl bs (cc + int n) (e + int n) (stores (64 * last bs + 12 + e) cs n st)"
  using n
proof (induction n)
  case 0
  then show ?case using ext_refl [OF m] by simp
next
  case (Suc n)
  let ?s = "stores (64 * last bs + 12 + e) cs n st"
  have IH: "ext B p k bs cc e st (take n cs) fl bs (cc + int n) (e + int n) ?s" using Suc by simp
  have m1: "mid ?s fl B p bs k (cc + int n) (e + int n)" using IH by (simp add: ext_def)
  have en: "0 \<le> e + int n" "e + int n < 52" using m1 Suc.prems by (simp_all add: mid_def q_pre_def)
  have pt: "64 * last bs + 12 + e + int n = 64 * last bs + 12 + (e + int n)" by simp
  note pp = ptr_parts(1) [OF en, of "last bs"]
  let ?s' = "store (64 * last bs + 12 + (e + int n)) (cs ! n) ?s"
  have st: "mid ?s' fl B p bs k (cc + int n + 1) (e + int n + 1) \<and> others_same p ?s ?s'
    \<and> content (cblocks ?s') bs k (cc + int n + 1) = content (cblocks ?s) bs k (cc + int n)
        @ [(c_info (cblocks ?s' (last bs)) (12 + (e + int n)) mod 256, c_quote (cblocks ?s' (last bs)) (12 + (e + int n)))]"
    by (rule mid_store [OF m1 en(2)]) (simp_all add: store_sel pp)
  have "ext B p k bs (cc + int n) (e + int n) ?s [cs ! n] fl bs (cc + int n + 1) (e + int n + 1) ?s'"
    unfolding ext_def
  proof (intro conjI)
    show "\<exists>ms. length ms = length [cs ! n] \<and> content (cblocks ?s') bs k (cc + int n + 1) = content (cblocks ?s) bs k (cc + int n) @ zip (map (\<lambda>c. c mod 256) [cs ! n]) ms
        \<and> (clean ?s bs (e + int n) \<longrightarrow> set ms \<subseteq> {False} \<and> clean ?s' bs (e + int n + 1))"
      by (rule exI [of _ "[c_quote (cblocks ?s (last bs)) (12 + (e + int n))]"]) (use st en in \<open>auto simp: store_sel pp clean_def\<close>)
  qed (use st en in \<open>simp_all add: store_sel\<close>)
  from ext_trans [OF IH this] show ?case using Suc.prems
    by (simp add: stores_Suc pt take_Suc_conv_app_nth) (simp add: add.assoc add.commute [of 1])
qed

section \<open>The loop\<close>

lemma ext_block:
  assumes m: "mid st fl B p bs k cc 52" and f: "cfreelist st \<noteq> 0"
  defines "st' \<equiv> snd (cb_take True (upd_block (last bs) (\<lambda>b. b\<lparr>c_next := cfreelist st\<rparr>) st))"
  shows "\<exists>fl'. ext B p k bs cc 52 st [] fl' (bs @ [cfreelist st]) cc 0 st'"
proof -
  obtain fl' where b: "mid st' fl' B p (bs @ [cfreelist st]) k cc 0" "others_same p st st'"
    "content (cblocks st') (bs @ [cfreelist st]) k cc = content (cblocks st) bs k cc"
    using mid_block [OF m f, of True] unfolding st'_def [symmetric] by blast
  have "bs \<noteq> []" using m by (simp add: mid_def q_pre_def)
  moreover have "clists st' = clists st" "cfreelist (upd_block (last bs) (\<lambda>b. b\<lparr>c_next := cfreelist st\<rparr>) st) = cfreelist st"
    "cfreecount st' = cfreecount st - 52"
    by (simp_all add: st'_def cb_take_sel) (simp_all add: upd_block_def)
  moreover from this have "clean st' (bs @ [cfreelist st]) 0" by (simp add: clean_def st'_def cb_take_sel)
  ultimately show ?thesis using b by (auto simp: ext_def)
qed

lemma b_to_q_loop_eff:
  assumes "mid st fl B p bs k cc e" "cs \<noteq> [] \<or> 1 \<le> e"
  shows "\<exists>n st' fl' bs' cc' e'. b_to_q_loop cs (64 * last bs + 12 + e) st = (drop n cs, 64 * last bs' + 12 + e', st') \<and> n \<le> length cs
    \<and> ext B p k bs cc e st (take n cs) fl' bs' cc' e' st' \<and> 1 \<le> e' \<and> (n = length cs \<or> fl' = [] \<and> e' = 52)"
    (is "\<exists>n st' fl' bs' cc' e'. ?P cs bs cc e st n st' fl' bs' cc' e'")
  using assms
proof (induction "length cs" arbitrary: cs st fl bs cc e rule: less_induct)
  case less
  note m = less.prems(1)
  show ?case
  proof (cases "cs = []")
    case True
    then have "?P cs bs cc e st 0 st fl bs cc e" using ext_refl [OF m] less.prems(2) by (simp add: b_to_q_loop.simps)
    then show ?thesis by blast
  next
    case ne: False
    have e: "0 \<le> e" "e \<le> 52" "bs \<noteq> []" using m by (simp_all add: mid_def q_pre_def)
    have round: "\<exists>n st' fl' bs' cc' e'. b_to_q_loop cs cq st = (drop n cs, 64 * last bs' + 12 + e', st') \<and> n \<le> length cs
        \<and> ext B p k bs cc e st (take n cs) fl' bs' cc' e' st' \<and> 1 \<le> e' \<and> (n = length cs \<or> fl' = [] \<and> e' = 52)"
      if x: "ext B p k bs cc e st [] fl1 bs1 cc e1 st1" "0 \<le> e1" "e1 < 52"
        and l: "b_to_q_loop cs cq st = (let nc = min (int (length cs)) (CBLOCK - (64 * last bs1 + 12 + e1) mod CBLOCK)
          in b_to_q_loop (drop (nat nc) cs) (64 * last bs1 + 12 + e1 + nc) (fold (\<lambda>i. store (64 * last bs1 + 12 + e1 + i) (cs ! nat i)) [0..nc - 1] st1))"
      for fl1 bs1 e1 st1 cq
    proof -
      define n where "n = nat (min (int (length cs)) (52 - e1))"
      have n: "1 \<le> n" "n \<le> length cs" "e1 + int n \<le> 52" "min (int (length cs)) (CBLOCK - (64 * last bs1 + 12 + e1) mod CBLOCK) = int n"
        using ne x(2,3) ptr_parts(1) [OF x(2,3), of "last bs1"] by (auto simp: n_def CBLOCK_def Suc_le_eq)
      define st2 where "st2 = stores (64 * last bs1 + 12 + e1) cs n st1"
      have "mid st1 fl1 B p bs1 k cc e1" using x(1) by (simp add: ext_def)
      from ext_stores [OF this n(3,2)] have x2: "ext B p k bs1 cc e1 st1 (take n cs) fl1 bs1 (cc + int n) (e1 + int n) st2" unfolding st2_def .
      have lp: "b_to_q_loop cs cq st = b_to_q_loop (drop n cs) (64 * last bs1 + 12 + (e1 + int n)) st2"
        unfolding l n(4) Let_def by (simp add: st2_def stores_def add.assoc)
      have "mid st2 fl1 B p bs1 k (cc + int n) (e1 + int n)" "length (drop n cs) < length cs" "drop n cs \<noteq> [] \<or> 1 \<le> e1 + int n"
        using x2 n x(2) by (simp_all add: ext_def)
      from less.hyps [OF this(2,1,3)] obtain n' st' fl' bs' cc' e' where r: "?P (drop n cs) bs1 (cc + int n) (e1 + int n) st2 n' st' fl' bs' cc' e'" by blast
      have x3: "ext B p k bs cc e st (take (n + n') cs) fl' bs' cc' e' st'"
        using ext_trans [OF ext_trans [OF x(1) x2]] r by (simp add: take_add)
      show ?thesis
        by (rule exI [of _ "n + n'"], rule exI [of _ st'], rule exI [of _ fl'], rule exI [of _ bs'], rule exI [of _ cc'], rule exI [of _ e'])
          (use r n lp x3 in \<open>auto simp: add.commute\<close>)
    qed
    consider "e < 52" | "e = 52" "cfreelist st = 0" | "e = 52" "cfreelist st \<noteq> 0" using e by linarith
    then show ?thesis
    proof cases
      case 1
      have "\<not> aligned (64 * last bs + 12 + e)" using ptr_parts(1) [OF e(1) 1] by simp
      then show ?thesis using ne by (intro round [OF ext_refl [OF m] e(1) 1]) (subst b_to_q_loop.simps, simp add: Let_def)
    next
      case 2
      have fl: "fl = []" using m 2(2) by (cases fl) (auto simp: mid_def)
      have nx: "c_next (cblocks st (last bs)) = 0" using m e(3) bchain_last [of "cblocks st" "hd bs" bs] by (simp add: mid_def q_pre_def)
      have "b_to_q_loop cs (64 * last bs + 12 + e) st = (cs, 64 * last bs + 12 + e, st)"
        using ne 2 upd_next_triv [of st "last bs" "cfreelist st"] nx ptr_parts(2,3) [of "last bs"] by (subst b_to_q_loop.simps) simp
      then have "?P cs bs cc e st 0 st fl bs cc e" using ext_refl [OF m] fl 2 by simp
      then show ?thesis by blast
    next
      case 3
      define st0 where "st0 = upd_block (last bs) (\<lambda>b. b\<lparr>c_next := cfreelist st\<rparr>) st"
      have s0: "cfreelist st0 = cfreelist st" by (simp add: st0_def upd_block_def)
      obtain fl' where x: "ext B p k bs cc e st [] fl' (bs @ [cfreelist st]) cc 0 (snd (cb_take True st0))"
        using ext_block [of st fl B p bs k cc] m 3 unfolding st0_def by auto
      have al: "aligned (64 * last bs + 12 + e)" "cbptr (64 * last bs + 12 + e) - 1 = last bs" using ptr_parts(2,3) [of "last bs"] 3 by simp_all
      show ?thesis
        by (rule round [OF x]) (use ne 3 al in \<open>simp_all, subst b_to_q_loop.simps, simp add: Let_def st0_def [symmetric] split_beta cb_take_sel s0 ptr_parts(4)\<close>)
    qed
  qed
qed

section \<open>The whole operation\<close>

text \<open>The characters the list can still take.\<close>

definition room :: "cbstate \<Rightarrow> nat \<Rightarrow> int" where
  "room st p = cfreecount st + (- c_cl (clists st p)) mod 64"

lemma room_mod:
  assumes "x = 64 * q + r" "0 \<le> r" "r < 64" shows "x mod 64 = r" "(- x) mod 64 = (if r = 0 then 0 else 64 - (r :: int))"
proof -
  show m: "x mod 64 = r" using assms by simp
  show "(- x) mod 64 = (if r = 0 then 0 else 64 - r)" unfolding zmod_zminus1_eq_if m ..
qed

text \<open>No mark is left behind the last character.\<close>

definition tail_clean :: "cbstate \<Rightarrow> nat \<Rightarrow> bool" where
  "tail_clean st p \<longleftrightarrow> (let cl = c_cl (clists st p)
     in cl = 0 \<or> aligned cl \<or> (\<forall>i. cl mod CBLOCK \<le> i \<and> i < CBLOCK \<longrightarrow> \<not> c_quote (cblocks st (cbptr cl)) i))"

lemma room_end: "0 \<le> e \<Longrightarrow> e \<le> 52 \<Longrightarrow> (- (64 * b + 12 + e)) mod 64 = 52 - (e :: int)"
  using room_mod(2) [of "64 * b + 12 + e" "b + 1" 0] room_mod(2) [of "64 * b + 12 + e" b "12 + e"]
  by (cases "e = 52") simp_all

lemma ext_end:
  assumes x: "ext B p k bs cc e st xs fl' bs' cc' e' st1" and e: "1 \<le> e'" "1 \<le> cc'" and f: "c_cf (clists st1 p) = 64 * hd bs + 12 + k" "c_cc (clists st1 p) = cc"
  defines "st' \<equiv> upd_list p (\<lambda>q. q\<lparr>c_cl := 64 * last bs' + 12 + e', c_cc := c_cc q + int (length xs)\<rparr>) st1"
  shows "cl_rep st' fl' (B(p := bs')) \<and> others_same p st st' \<and> room st' p = cfreecount st + 52 * int (length bs) - k - cc - int (length xs)
    \<and> (\<exists>ms. length ms = length xs \<and> q_chars st' p = content (cblocks st) bs k cc @ zip (map (\<lambda>c. c mod 256) xs) ms
        \<and> (clean st bs e \<longrightarrow> set ms \<subseteq> {False} \<and> tail_clean st' p))"
proof -
  have m: "mid st' fl' B p bs' k cc' e'" using x unfolding ext_def st'_def mid_list by blast
  have l: "clists st' p = \<lparr>c_cc = cc', c_cf = 64 * hd bs' + 12 + k, c_cl = 64 * last bs' + 12 + e'\<rparr>"
    using x f by (cases "clists st1 p") (simp add: st'_def ext_def)
  have t: "clean st' bs' e' \<Longrightarrow> tail_clean st' p"
  proof -
    assume c: "clean st' bs' e'"
    have "0 \<le> e'" "e' \<le> 52" using m by (simp_all add: mid_def q_pre_def)
    then show "tail_clean st' p" using c ptr_parts(1) [of e' "last bs'"] ptr_parts(3) [of "last bs'"]
      by (cases "e' = 52") (simp_all add: tail_clean_def l clean_def CBLOCK_def Let_def)
  qed
  have "clean st1 bs' e' \<Longrightarrow> clean st' bs' e'" "content (cblocks st') bs' k cc' = content (cblocks st1) bs' k cc'" by (simp_all add: clean_def st'_def)
  moreover have "room st' p = cfreecount st + 52 * int (length bs) - k - cc - int (length xs)"
  proof -
    have w: "0 \<le> e'" "e' \<le> 52" "k + cc' = 52 * int (length bs') - 52 + e'" using m by (simp_all add: mid_def q_pre_def)
    have "(- c_cl (clists st' p)) mod 64 = 52 - e'" unfolding l clist.select_convs using w(1,2) by (rule room_end)
    moreover have "cfreecount st' + 52 * int (length bs') = cfreecount st + 52 * int (length bs)" "cc' = cc + int (length xs)"
      using x by (simp_all add: ext_def st'_def)
    ultimately show ?thesis using w(3) by (simp add: room_def)
  qed
  ultimately show ?thesis using mid_end [OF m e(2,1) l] x t unfolding ext_def by (auto simp: st'_def)
qed

lemma b_to_q_loop_run:
  assumes "cs \<noteq> []" "b_to_q_loop cs cq0 st1 = (drop n cs, cq, st2)" "n \<le> length cs"
    and "if c_cl (clists st p) = 0 \<or> c_cc (clists st p) < 0
       then cfreelist st \<noteq> 0 \<and> cq0 = info_of (cfreelist st) \<and> st1 = upd_list p (\<lambda>q. q\<lparr>c_cf := info_of (cfreelist st)\<rparr>) (snd (cb_take True st))
       else cq0 = c_cl (clists st p) \<and> st1 = st"
  shows "b_to_q cs p st = (int (length cs) - int n, upd_list p (\<lambda>q. q\<lparr>c_cl := cq, c_cc := c_cc q + int (length (take n cs))\<rparr>) st2)"
proof -
  have "(if c_cl (clists st p) = 0 \<or> c_cc (clists st p) < 0 then (case cb_take True st of (bp, st) \<Rightarrow> (info_of bp, upd_list p (\<lambda>q. q\<lparr>c_cf := info_of bp\<rparr>) st))
      else (c_cl (clists st p), st)) = (cq0, st1)" using assms(4) by (simp add: split_beta cb_take_sel split: if_splits)
  then show ?thesis using assms unfolding b_to_q_def Let_def by (simp add: of_nat_diff split: if_splits)
qed

lemma b_to_q_eff:
  assumes r: "cl_rep st fl B"
  shows "\<exists>n st' fl' bs'. b_to_q cs p st = (int (length cs) - int n, st') \<and> n \<le> length cs \<and> cl_rep st' fl' (B(p := bs')) \<and> others_same p st st'
    \<and> room st' p = room st p - int n
    \<and> (\<exists>ms. length ms = n \<and> q_chars st' p = q_chars st p @ zip (map (\<lambda>c. c mod 256) (take n cs)) ms
        \<and> (tail_clean st p \<longrightarrow> set ms \<subseteq> {False} \<and> tail_clean st' p))
    \<and> (n = length cs \<or> fl' = [] \<and> (q_chars st' p = [] \<or> aligned (c_cl (clists st' p))))"
    (is "\<exists>n st' fl' bs'. ?P n st' fl' bs'")
proof (cases "cs = []")
  case True
  have "B(p := B p) = B" by simp
  then have "?P 0 st fl (B p)" using r True by (simp add: b_to_q_def others_same_def)
  then show ?thesis by blast
next
  case ne: False
  show ?thesis
  proof (cases "0 < c_cc (clists st p)")
    case False
    then have z: "clists st p = \<lparr>c_cc = 0, c_cf = 0, c_cl = 0\<rparr>" using cl_ok_zero [of st p] r by (auto simp: cl_ok_def)
    show ?thesis
    proof (cases "cfreelist st = 0")
      case True
      then have "fl = []" using cl_rep_free(1) [OF r] by (cases fl) auto
      moreover have "B(p := B p) = B" by simp
      ultimately have "?P 0 st fl (B p)" using r True z ne by (simp add: b_to_q_def others_same_def q_chars_empty)
      then show ?thesis by blast
    next
      case f: False
      let ?f = "cfreelist st"
      define st1 where "st1 = upd_list p (\<lambda>q. q\<lparr>c_cf := info_of ?f\<rparr>) (snd (cb_take True st))"
      obtain fl1 where m: "mid st1 fl1 B p [?f] 0 0 0" "others_same p st st1" using mid_first [OF r _ f, of p] False by (auto simp: st1_def mid_list)
      obtain n st2 fl' bs' cc' e' where l: "b_to_q_loop cs (64 * last [?f] + 12 + 0) st1 = (drop n cs, 64 * last bs' + 12 + e', st2)" "n \<le> length cs"
        "ext B p 0 [?f] 0 0 st1 (take n cs) fl' bs' cc' e' st2" "1 \<le> e'" "n = length cs \<or> fl' = [] \<and> e' = 52"
        using b_to_q_loop_eff [OF m(1) disjI1 [OF ne]] by blast
      define st' where "st' = upd_list p (\<lambda>q. q\<lparr>c_cl := 64 * last bs' + 12 + e', c_cc := c_cc q + int (length (take n cs))\<rparr>) st2"
      have s1: "c_cf (clists st2 p) = 64 * hd [?f] + 12 + 0" "c_cc (clists st2 p) = 0" using l(3) z by (simp_all add: ext_def st1_def cb_take_sel ptr_parts(4))
      have cl: "clean st1 [?f] 0" "content (cblocks st1) [?f] 0 0 = []" "q_chars st p = []" using z by (simp_all add: clean_def st1_def cb_take_sel content_def q_chars_empty)
      have "1 \<le> cc'" using l(3,4) by (auto simp: ext_def mid_def q_pre_def dest!: neq_Nil_conv [THEN iffD1])
      note E = ext_end [OF l(3,4) this s1, folded st'_def]
      have "b_to_q cs p st = (int (length cs) - int n, st')"
        unfolding st'_def by (rule b_to_q_loop_run [OF ne l(1,2)]) (use z f in \<open>simp add: st1_def ptr_parts(4)\<close>)
      moreover have "fl' = [] \<and> e' = 52 \<longrightarrow> aligned (c_cl (clists st' p))" using ptr_parts(3) [of "last bs'"] by (simp add: st'_def)
      moreover have "cfreecount st1 + 52 = room st p" using z by (simp add: st1_def cb_take_sel room_def)
      ultimately have "?P n st' fl' bs'" using E cl l(2,5) others_same_trans [OF m(2), of st'] by auto
      then show ?thesis by blast
    qed
  next
    case True
    obtain b bs k e where q: "B p = b # bs" "q_pre (cblocks st) (b # bs) k (c_cc (clists st p)) e" "1 \<le> e" "c_cf (clists st p) = 64 * b + 12 + k"
      "c_cl (clists st p) = 64 * last (b # bs) + 12 + e" "q_chars st p = content (cblocks st) (b # bs) k (c_cc (clists st p))"
      using cl_rep_q [OF r True] by metis
    have m: "mid st fl B p (b # bs) k (c_cc (clists st p)) e" using mid_from [OF r, of p] q(1,2) by simp
    have nz: "\<not> (c_cl (clists st p) = 0 \<or> c_cc (clists st p) < 0)" using cl_full [OF r, of p] True by simp
    obtain n st2 fl' bs' cc' e' where l: "b_to_q_loop cs (64 * last (b # bs) + 12 + e) st = (drop n cs, 64 * last bs' + 12 + e', st2)" "n \<le> length cs"
      "ext B p k (b # bs) (c_cc (clists st p)) e st (take n cs) fl' bs' cc' e' st2" "1 \<le> e'" "n = length cs \<or> fl' = [] \<and> e' = 52"
      using b_to_q_loop_eff [OF m disjI1 [OF ne]] by blast
    define st' where "st' = upd_list p (\<lambda>q. q\<lparr>c_cl := 64 * last bs' + 12 + e', c_cc := c_cc q + int (length (take n cs))\<rparr>) st2"
    have s1: "c_cf (clists st2 p) = 64 * hd (b # bs) + 12 + k" "c_cc (clists st2 p) = c_cc (clists st p)" using l(3) q(4) by (simp_all add: ext_def)
    have "1 \<le> cc'" using l(3) True by (simp add: ext_def)
    note E = ext_end [OF l(3,4) this s1, folded st'_def]
    have "clean st (b # bs) e \<or> e = 52" if "tail_clean st p"
      using that nz q(3) ptr_parts(1) [of e "last (b # bs)"] q(2) by (cases "e = 52") (auto simp: tail_clean_def q(5) clean_def q_pre_def CBLOCK_def Let_def)
    then have cl: "clean st (b # bs) e" if "tail_clean st p" using that by (auto simp: clean_def)
    have "b_to_q cs p st = (int (length cs) - int n, st')"
      unfolding st'_def by (rule b_to_q_loop_run [OF ne l(1,2)]) (use nz q(5) in simp)
    moreover have "fl' = [] \<and> e' = 52 \<longrightarrow> aligned (c_cl (clists st' p))" using ptr_parts(3) [of "last bs'"] by (simp add: st'_def)
    moreover have "room st p = cfreecount st + 52 * int (length (b # bs)) - k - c_cc (clists st p)"
      using room_end [of e "last (b # bs)"] q(2) unfolding room_def q(5) q_pre_def by (simp del: last.simps)
    ultimately have "?P n st' fl' bs'" using E cl l(2,5) q(6) by auto
    then show ?thesis by blast
  qed
qed

end
