(* ===== verification/Clist_Unput.thy ===== *)
theory Clist_Unput
  imports Clist_Btoq "HOL-Library.Sublist"
begin

text \<open>
  What \<open>unputc\<close> takes from the end of a list, what \<open>catq\<close> moves from one to another, the free
  list that \<open>cinit\<close> makes, and the way \<open>nextc\<close> goes over a list.
\<close>

section \<open>The last character\<close>

text \<open>Its value, from a signed \<open>char\<close>.\<close>

definition sval :: "int \<times> bool \<Rightarrow> int" where
  "sval x = (let c = (if fst x < 128 then fst x else fst x - 256) in if snd x then c OR TTY_QUOTE else c)"

lemma bdata_last:
  assumes q: "q_pre M bs k cc e" and e: "1 \<le> e" and c: "1 \<le> cc"
  shows "last (content M bs k cc) = (c_info (M (last bs)) (12 + (e - 1)) mod 256, c_quote (M (last bs)) (12 + (e - 1)))"
    "content M bs k (cc - 1) = butlast (content M bs k cc)"
proof -
  have w: "bs \<noteq> []" "0 \<le> k" "k + cc = 52 * (int (length bs) - 1) + e" "e \<le> 52" using q by (simp_all add: q_pre_def)
  have bs: "bs = butlast bs @ [last bs]" using w(1) by simp
  have L: "int (length bs) - 1 = int (length (butlast bs))" using w(1) by (cases bs) simp_all
  have len: "length (content M bs k cc) = nat cc" by (rule content_len [OF q])
  have "k + (cc - 1) = int (52 * length (butlast bs)) + (e - 1)" using w(3) unfolding L by simp
  then have "nat (k + (cc - 1)) = 52 * length (butlast bs) + nat (e - 1)" using e by (metis nat_add_distrib nat_int of_nat_0_le_iff diff_ge_0_iff_ge)
  moreover have "nat (k + (cc - 1)) = nat k + nat (cc - 1)" using w(2) c by (simp add: nat_add_distrib)
  ultimately have i: "nat k + nat (cc - 1) = 52 * length (butlast bs) + nat (e - 1)" by simp
  have l: "52 * length (butlast bs) + nat (e - 1) < length (bdata M bs)" using w(4) e by (subst bs) simp
  have ne: "content M bs k cc \<noteq> []" using len c by auto
  have c1: "nat cc - 1 = nat (cc - 1)" "nat (cc - 1) < nat cc" using c by simp_all
  have "last (content M bs k cc) = content M bs k cc ! nat (cc - 1)" using ne len c1 by (simp add: last_conv_nth)
  also have "\<dots> = bdata M bs ! (nat k + nat (cc - 1))" using c1 l i by (simp add: content_def del: bdata_len)
  also have "\<dots> = bchars M (last bs) ! nat (e - 1)" unfolding i by (subst bs) (simp add: nth_append)
  also have "\<dots> = (c_info (M (last bs)) (12 + (e - 1)) mod 256, c_quote (M (last bs)) (12 + (e - 1)))" by (rule bchars_nth) (use e w in auto)
  finally show "last (content M bs k cc) = (c_info (M (last bs)) (12 + (e - 1)) mod 256, c_quote (M (last bs)) (12 + (e - 1)))" .
  have "butlast (content M bs k cc) = take (length (content M bs k cc) - 1) (content M bs k cc)" by (rule butlast_conv_take)
  then show "content M bs k (cc - 1) = butlast (content M bs k cc)" unfolding len c1 by (simp add: content_def min_def)
qed

lemma content_butlast: "bs \<noteq> [] \<Longrightarrow> nat k + nat cc \<le> 52 * length (butlast bs) \<Longrightarrow> content M (butlast bs) k cc = content M bs k cc"
proof -
  assume a: "bs \<noteq> []" "nat k + nat cc \<le> 52 * length (butlast bs)"
  have "bs = butlast bs @ [last bs]" using a(1) by simp
  then have "bdata M bs = bdata M (butlast bs) @ bchars M (last bs)" by (metis bdata_simps append_Nil2)
  then show ?thesis using a(2) by (simp add: content_def)
qed

lemma cb_before_eff: "bchain (cblocks st) b xs \<Longrightarrow> 2 \<le> length xs \<Longrightarrow> distinct xs \<Longrightarrow> cb_before b (last xs) st = Some (last (butlast xs))"
proof (induction xs arbitrary: b)
  case (Cons x xs)
  obtain y ys where xs: "xs = y # ys" using Cons.prems(2) by (cases xs) auto
  show ?case
  proof (cases "ys = []")
    case True
    then show ?thesis using Cons.prems xs by (subst cb_before.simps) simp
  next
    case False
    then have "c_next (cblocks st b) \<noteq> last (x # xs)" using Cons.prems xs last_in_set [of ys] by auto
    moreover have "cb_before (c_next (cblocks st x)) (last xs) st = Some (last (butlast xs))"
      using Cons.prems xs False by (intro Cons.IH) (auto simp: Suc_le_eq)
    ultimately show ?thesis using Cons.prems xs False by (subst cb_before.simps) auto
  qed
qed simp

lemma bchain_mid: "bchain M b (xs @ x # y # ys) \<Longrightarrow> c_next (M x) = y"
  by (induction xs arbitrary: b) auto

lemma unputc_eff:
  assumes r: "cl_rep st fl B" and ne: "q_chars st p \<noteq> []"
  shows "\<exists>st' fl' bs'. unputc p st = Some (sval (last (q_chars st p)), st') \<and> cl_rep st' fl' (B(p := bs'))
    \<and> (\<forall>r. r \<noteq> p \<longrightarrow> q_chars st' r = q_chars st r) \<and> q_chars st' p = butlast (q_chars st p)"
proof -
  define cc where "cc = c_cc (clists st p)"
  have cc: "0 < cc" using ne q_chars_empty [of st p] by (fastforce simp: cc_def not_le)
  obtain b bs k e where q: "B p = b # bs" "q_pre (cblocks st) (b # bs) k cc e" "1 \<le> e" "c_cf (clists st p) = 64 * b + 12 + k"
    "c_cl (clists st p) = 64 * last (b # bs) + 12 + e" "q_chars st p = content (cblocks st) (b # bs) k cc"
    using cl_rep_q [OF r] cc unfolding cc_def by metis
  have k: "0 \<le> k" "k < 52" "e \<le> 52" "k + cc = 52 * int (length bs) + e" "bchain (cblocks st) b (b # bs)" "distinct (b # bs)"
    using q(2) by (simp_all add: q_pre_def)
  have fl: "bchain (cblocks st) (cfreelist st) fl" "distinct fl" "cfreecount st = 52 * int (length fl)" "set (b # bs) \<inter> set fl = {}"
    using cl_rep_free(1-3) [OF r] cl_rep_free(4) [OF r, of p] by (simp_all add: q(1))
  let ?l = "last (b # bs)"
  define cl where "cl = c_cl (clists st p) - 1"
  have cl: "cl = 64 * ?l + 12 + (e - 1)" using q(5) by (simp add: cl_def)
  note pt = ptr_parts(1) [of "e - 1" ?l, folded cl]
  have pt: "cbptr cl = ?l" "cl mod CBLOCK = 12 + (e - 1)" using pt q(3) k(3) by simp_all
  have cc1: "1 \<le> cc" using cc by simp
  have v: "(if isquote st cl then schar st cl OR TTY_QUOTE else schar st cl) = sval (last (q_chars st p))"
    unfolding q(6) bdata_last(1) [OF q(2,3) cc1]
    by (simp only: schar_def uchar_def isquote_def pt sval_def fst_conv snd_conv Let_def)
  define st1 where "st1 = upd_list p (\<lambda>q. q\<lparr>c_cl := cl, c_cc := c_cc q - 1\<rparr>) st"
  have bl: "content (cblocks st) (b # bs) k (cc - 1) = butlast (q_chars st p)" unfolding q(6) by (rule bdata_last(2) [OF q(2,3) cc1])
  have u: "unputc p st = (if cc \<le> 1 then Some (sval (last (q_chars st p)), cb_free ?l (upd_list p (\<lambda>q. q\<lparr>c_cl := 0, c_cf := 0\<rparr>) st1))
      else if e = 1 then (case cb_before b ?l st1 of None \<Rightarrow> None
        | Some obp \<Rightarrow> let s = cb_free (c_next (cblocks st1 obp)) (upd_list p (\<lambda>q. q\<lparr>c_cl := CBLOCK * (obp + 1)\<rparr>) st1)
           in Some (sval (last (q_chars st p)), upd_block obp (\<lambda>b. b\<lparr>c_next := 0\<rparr>) s))
      else Some (sval (last (q_chars st p)), st1))"
  proof -
    have "cbptr (c_cf (clists st p)) = b" using ptr_parts(1) [OF k(1,2)] by (simp add: q(4))
    moreover have "cl = info_of ?l \<longleftrightarrow> e = 1" using cl ptr_parts(4) [of ?l] by linarith
    moreover have "c_cl (clists st p) - 1 = cl" "c_cc (clists st p) = cc" by (simp_all add: cl_def cc_def)
    ultimately show ?thesis using cc unfolding unputc_def Let_def
      by (simp only: v pt st1_def [symmetric] upd_list_sel) (simp del: last.simps split: option.splits)
  qed
  consider (one) "cc \<le> 1" | (inside) "1 < cc" "e \<noteq> 1" | (block) "1 < cc" "e = 1" by linarith
  then show ?thesis
  proof cases
    case one
    define st' where "st' = cb_free ?l (upd_list p (\<lambda>q. q\<lparr>c_cl := 0, c_cf := 0\<rparr>) st1)"
    have bs: "bs = []" "cc = 1" using k one q(3) cc by (cases bs; simp)+
    have z: "clists st' p = \<lparr>c_cc = 0, c_cf = 0, c_cl = 0\<rparr>" using bs(2) by (simp add: st'_def st1_def cc_def)
    have "bchain (cblocks st') (cfreelist st') (b # fl)"
      using bchain_free [OF fl(1), of b "cblocks st'"] fl(4) k(5) bs by (simp add: st'_def st1_def)
    then have c: "cl_rep st' (b # fl) (B(p := [])) \<and> (\<forall>r. r \<noteq> p \<longrightarrow> q_chars st' r = q_chars st r)"
      using cl_rep_upd [OF r, of p st' "b # fl" "[]"] fl z q(1) bs by (auto simp: st'_def st1_def q_rep_def)
    have "q_chars st' p = butlast (q_chars st p)" using z bl bs by (simp add: q_chars_empty content_def)
    then show ?thesis using u c one unfolding st'_def [symmetric] by auto
  next
    case inside
    have w: "q_pre (cblocks st1) (b # bs) k (cc - 1) (e - 1)" using q(2,3) inside k by (simp add: q_pre_def st1_def)
    have z: "c_cc (clists st1 p) = cc - 1" "c_cf (clists st1 p) = 64 * hd (b # bs) + 12 + k" "c_cl (clists st1 p) = 64 * ?l + 12 + (e - 1)"
      using q(4) cl by (simp_all add: st1_def cc_def)
    have qr: "q_rep (cblocks st1) (clists st1 p) (b # bs)" unfolding q_rep_def z
      by (intro disjI2 exI [of _ k] exI [of _ "e - 1"]) (use w inside q(3) in auto)
    have "cl_rep st1 fl (B(p := b # bs)) \<and> (\<forall>r. r \<noteq> p \<longrightarrow> q_chars st1 r = q_chars st r)"
      using cl_rep_upd [OF r, of p st1 fl "b # bs"] fl qr k(6) q(1) by (auto simp: st1_def)
    moreover have "q_chars st1 p = butlast (q_chars st p)"
      using q_chars_rep [of st1 "b # bs" k p "e - 1"] w z inside q(3) bl by (simp add: st1_def)
    ultimately show ?thesis using u inside by auto
  next
    case block
    have len: "2 \<le> length (b # bs)" using k(1,2,4) block by (cases bs) auto
    obtain xs o' l where bs: "b # bs = (xs @ [o']) @ [l]" "butlast (b # bs) = xs @ [o']" "length (b # bs) = length xs + 2" "?l = l"
    proof -
      have "b # bs = butlast (b # bs) @ [last (b # bs)]" "butlast (b # bs) \<noteq> []" using len by (cases bs; simp)+
      then show ?thesis using that [of "butlast (butlast (b # bs))" "last (butlast (b # bs))" "last (b # bs)"] len by (simp del: butlast.simps last.simps)
    qed
    have o: "cb_before b l st1 = Some o'" using cb_before_eff [of st1 b "b # bs"] k(5,6) len bs(2,4) by (simp add: st1_def del: butlast.simps last.simps)
    have nx: "c_next (cblocks st o') = l" by (rule bchain_mid [of "cblocks st" b xs o' l "[]"]) (use k(5) bs(1) in \<open>metis append_Cons append_Nil append_assoc\<close>)
    have d: "distinct (xs @ [o', l])" "set (b # bs) = set xs \<union> {o', l}" using k(6) unfolding bs(1) by (simp_all add: ac_simps)
    define st' where "st' = upd_block o' (\<lambda>b. b\<lparr>c_next := 0\<rparr>) (cb_free l (upd_list p (\<lambda>q. q\<lparr>c_cl := CBLOCK * (o' + 1)\<rparr>) st1))"
    have M: "cblocks st' x = (if x = o' then (cblocks st x)\<lparr>c_next := 0\<rparr> else if x = l then (cblocks st x)\<lparr>c_next := cfreelist st\<rparr> else cblocks st x)" for x
      using d(1) by (simp add: st'_def upd_block_def st1_def del: last.simps)
    have s': "cfreelist st' = l" "cfreecount st' = cfreecount st + 52" "\<And>r. r \<noteq> p \<Longrightarrow> clists st' r = clists st r"
      "c_cc (clists st' p) = cc - 1" "c_cf (clists st' p) = 64 * hd (xs @ [o']) + 12 + k" "c_cl (clists st' p) = 64 * last (xs @ [o']) + 12 + 52"
      using q(4) bs(1) by (simp_all add: st'_def upd_block_def st1_def cc_def CBLOCK_def hd_append del: last.simps) (cases xs; simp)+
    have ch: "bchain (cblocks st') b (xs @ [o'])"
      unfolding bs(2) [symmetric] by (rule bchain_butlast [OF k(5) len k(6)]) (use d(1) in \<open>unfold bs(2), auto simp: M\<close>)
    have "bchain (cblocks st') (cfreelist st) fl = bchain (cblocks st) (cfreelist st) fl"
      by (rule bchain_cong) (use fl(4) d(2) in \<open>auto simp: M\<close>)
    then have fr: "bchain (cblocks st') l (l # fl)" using fl(1) d bchain_pos [OF k(5), of l] by (simp add: M del: last.simps)
    have "b = hd (xs @ [o'])" using bs(1) by (cases xs) auto
    then have w: "q_pre (cblocks st') (xs @ [o']) k (cc - 1) 52"
      using ch k(1,2,4) cc1 block bs(3) d(1) unfolding q_pre_def by simp
    have qr: "q_rep (cblocks st') (clists st' p) (xs @ [o'])" unfolding q_rep_def s'
      by (intro disjI2 exI [of _ k] exI [of _ 52]) (use w block in auto)
    have "cl_rep st' (l # fl) (B(p := xs @ [o'])) \<and> (\<forall>r. r \<noteq> p \<longrightarrow> q_chars st' r = q_chars st r)"
    proof -
      have "cblocks st' y = cblocks st y" if "y \<notin> set fl" "y \<notin> set (B p)" for y using that d(2) unfolding q(1) M by auto
      moreover have "distinct ((l # fl) @ xs @ [o'])" "set ((l # fl) @ xs @ [o']) \<subseteq> set fl \<union> set (B p)" using fl(2,4) d unfolding q(1) by auto
      moreover have "bchain (cblocks st') (cfreelist st') (l # fl)" "cfreecount st' = 52 * int (length (l # fl))" using fr s' fl(3) by simp_all
      ultimately show ?thesis using cl_rep_upd [OF r _ s'(3) _ qr] by blast
    qed
    moreover have "q_chars st' p = butlast (q_chars st p)"
    proof -
      have "q_chars st' p = content (cblocks st') (xs @ [o']) k (cc - 1)" using q_chars_rep [of st' "xs @ [o']" k p 52] w s' block by simp
      also have "\<dots> = content (cblocks st) (butlast (b # bs)) k (cc - 1)"
        unfolding bs(2) content_def by (subst bdata_cong [of "xs @ [o']" "cblocks st'" "cblocks st"]) (use d(1) in \<open>auto simp: M\<close>)
      also have "\<dots> = content (cblocks st) (b # bs) k (cc - 1)"
      proof (rule content_butlast)
        have "k + (cc - 1) = int (52 * length bs)" using k(4) block by simp
        then have "nat (k + (cc - 1)) = 52 * length bs" by (simp only: nat_int)
        then show "nat k + nat (cc - 1) \<le> 52 * length (butlast (b # bs))" using k(1) block by (simp add: nat_add_distrib)
      qed simp
      finally show ?thesis using bl by simp
    qed
    moreover have "unputc p st = Some (sval (last (q_chars st p)), st')"
      using u block o nx bs(4) by (simp add: st'_def st1_def del: last.simps)
    ultimately show ?thesis by blast
  qed
qed

section \<open>Moving one list to another\<close>

lemma q_chars_range: "x \<in> set (q_chars st p) \<Longrightarrow> 0 \<le> fst x \<and> fst x < 256"
proof -
  have "\<forall>x \<in> set (bdata M bs). 0 \<le> fst x \<and> fst x < 256" for M bs by (induction bs) (auto simp: bchars_def)
  then have "x \<in> set (content M bs k cc) \<Longrightarrow> 0 \<le> fst x \<and> fst x < 256" for M bs k cc
    unfolding content_def by (meson in_set_dropD in_set_takeD)
  then show "x \<in> set (q_chars st p) \<Longrightarrow> 0 \<le> fst x \<and> fst x < 256" by (auto simp: q_chars_def Let_def split: if_splits)
qed

lemma cval_parts:
  assumes "0 \<le> fst x" "fst x < 256"
  shows "0 \<le> cval x \<and> cval x mod 256 = fst x \<and> (cval x AND TTY_QUOTE \<noteq> 0 \<longleftrightarrow> snd x)"
proof -
  have b: "\<not> bit (fst x) 8" using assms by (simp add: bit_iff_odd)
  have o: "fst x OR 256 = fst x + 256" using set_bit_eq_or [of 8 "fst x"] set_bit_eq [of 8 "fst x"] b by (simp add: push_bit_of_1)
  have a: "c AND 256 = 0 \<longleftrightarrow> \<not> bit c 8" for c :: int using and_exp_eq_0_iff_not_bit [of c 8] by simp
  have "bit (fst x + 256) 8" using b unfolding o [symmetric] using bit_or_iff [of "fst x" 256 8] bit_exp_iff [of 8 8, where 'a = int] by simp
  then show ?thesis using b assms by (simp add: cval_def TTY_QUOTE_def o a)
qed

lemma cl_zero: "cl_rep st fl B \<Longrightarrow> c_cl (clists st p) = 0 \<or> c_cc (clists st p) < 0 \<Longrightarrow> c_cl (clists st p) = 0"
  using cl_full [of st fl B p] cl_ok_zero [of st p] by (fastforce simp: cl_ok_def)

lemma put_at_sel: "cfreecount (put_at c p cp st) = cfreecount st" "c_cl (clists (put_at c p cp st) p) = cp + 1"
  by (simp_all add: put_at_def Let_def store_sel) (simp_all add: setquote_def upd_block_def)

lemma room_step: "(- (cp + 1)) mod 64 = (if cp mod 64 = 0 then 63 else (- cp) mod 64 - 1)" for cp :: int
proof -
  obtain q r where cp: "cp = 64 * q + r" "0 \<le> r" "r < 64" by (rule that [of "cp div 64" "cp mod 64"]) simp_all
  note a = room_mod [OF cp]
  show ?thesis
  proof (cases "r = 63")
    case True
    then have "cp + 1 = 64 * (q + 1) + 0" using cp(1) by simp
    from room_mod(2) [OF this] show ?thesis unfolding a using True by simp
  next
    case False
    then have "cp + 1 = 64 * q + (r + 1)" "0 \<le> r + 1" "r + 1 < 64" using cp by linarith+
    from room_mod(2) [OF this] show ?thesis unfolding a using cp(2) by simp
  qed
qed

lemma putc_room:
  assumes r: "cl_rep st fl B" and ok: "putc c p st = (0, st')"
  shows "room st' p = room st p - 1"
proof -
  let ?cl = "c_cl (clists st p)"
  note z = cl_zero [OF r, of p]
  have i: "(- info_of b - 1) mod 64 = 51" for b using room_mod(2) [of "info_of b + 1" b 13] by (simp add: ptr_parts(4))
  have f: "cfreecount (upd_block b g st) = cfreecount st" "clists (upd_block b g st) = clists st" for b g by (simp_all add: upd_block_def)
  consider (new) "?cl = 0 \<or> c_cc (clists st p) < 0" | (full) "\<not> (?cl = 0 \<or> c_cc (clists st p) < 0)" "aligned ?cl" | (inside) "\<not> (?cl = 0 \<or> c_cc (clists st p) < 0)" "\<not> aligned ?cl" by blast
  then show ?thesis
  proof cases
    case new
    then show ?thesis using ok z by (auto simp: putc_def room_def put_at_sel i cb_take_sel split_beta split: if_splits)
  next
    case full
    then have "?cl mod 64 = 0" by (simp add: aligned_def CBLOCK_def)
    then have "(- ?cl) mod 64 = 0" by (simp add: zmod_zminus1_eq_if)
    then show ?thesis using ok full by (auto simp: putc_def room_def put_at_sel i cb_take_sel f split_beta Let_def split: if_splits)
  next
    case inside
    then show ?thesis using ok room_step [of ?cl] by (auto simp: putc_def room_def put_at_sel aligned_def CBLOCK_def split: if_splits)
  qed
qed

lemma putc_fails_room:
  assumes r: "cl_rep st [] B" and ok: "putc c p st = (- 1, st')"
  shows "room st p = 0"
proof -
  have c: "cfreecount st = 0" using r by (simp add: cl_rep_def)
  have "c_cl (clists st p) = 0 \<or> aligned (c_cl (clists st p))" using ok cl_zero [OF r, of p] by (auto simp: putc_def Let_def split: if_splits)
  then have "c_cl (clists st p) mod 64 = 0" by (auto simp: aligned_def CBLOCK_def)
  then have "(- c_cl (clists st p)) mod 64 = 0" by (simp add: zmod_zminus1_eq_if)
  then show ?thesis using c by (simp add: room_def)
qed

lemma getc_room: "p \<noteq> r \<Longrightarrow> room st r \<le> room (snd (getc p st)) r"
  by (auto simp: getc_def cl_release_def room_def Let_def upd_list_def)

text \<open>One list is what another was with characters behind it, whose marks are still there.\<close>

definition gains :: "(int \<times> bool) list \<Rightarrow> (int \<times> bool) list \<Rightarrow> (int \<times> bool) list \<Rightarrow> bool" where
  "gains xs zs ys \<longleftrightarrow> (\<exists>ws. ys = xs @ ws \<and> list_all2 (\<lambda>z w. fst w = fst z \<and> (snd z \<longrightarrow> snd w)) zs ws)"

lemma gains_Nil [simp]: "gains xs [] xs"
  by (simp add: gains_def)

lemma gains_Cons: "gains (xs @ [w]) zs ys \<Longrightarrow> fst w = fst z \<Longrightarrow> (snd z \<longrightarrow> snd w) \<Longrightarrow> gains xs (z # zs) ys"
  by (auto simp: gains_def)

lemma catq_loop_eff:
  assumes "cl_ok st" "from' \<noteq> to"
  shows "\<exists>st' zs. catq_loop from' to st = Some st' \<and> cl_ok st' \<and> q_chars st' from' = [] \<and> (\<forall>r. r \<noteq> from' \<longrightarrow> r \<noteq> to \<longrightarrow> q_chars st' r = q_chars st r)
    \<and> gains (q_chars st to) zs (q_chars st' to) \<and> subseq zs (q_chars st from')
    \<and> (int (length (q_chars st from')) \<le> room st to \<longrightarrow> zs = q_chars st from')"
  using assms(1)
proof (induction "length (q_chars st from')" arbitrary: st)
  case 0
  then have q: "q_chars st from' = []" by simp
  have "getc from' st = (- 1, st)" using getc_eff [OF 0(2), of from'] q by simp
  then have "catq_loop from' to st = Some st" by (subst catq_loop.simps) simp
  then show ?case using q 0(2) by (intro exI [of _ st] exI [of _ "[]"]) simp
next
  case (Suc n)
  obtain x xs where x: "q_chars st from' = x # xs" using Suc(2) by (cases "q_chars st from'") auto
  obtain st1 where g: "getc from' st = (cval x, st1)" "cl_step from' st st1" "q_chars st1 from' = xs" using getc_eff [OF Suc.prems, of from'] x by auto
  have cx: "0 \<le> cval x" "cval x mod 256 = fst x" "cval x AND TTY_QUOTE \<noteq> 0 \<longleftrightarrow> snd x"
    using cval_parts [of x] q_chars_range [of x st from'] x by simp_all
  obtain c st2 where p: "putc (cval x) to st1 = (c, st2)" by fastforce
  have loop: "catq_loop from' to st = catq_loop from' to st2" using g(1) p cx(1) by (subst catq_loop.simps) simp
  obtain fl B where r: "cl_rep st1 fl B" using g(2) by (auto simp: cl_step_def cl_ok_def)
  have rm: "room st to \<le> room st1 to" using getc_room [OF assms(2), of st] g(1) by simp
  have pe: "putc_ok (cval x) to st1 fl B" by (rule putc_eff [OF r])
  have t1: "q_chars st1 to = q_chars st to" and o1: "\<forall>s. s \<noteq> from' \<longrightarrow> q_chars st1 s = q_chars st s" using g(2) assms(2) by (auto simp: cl_step_def)
  have n: "n = length xs" using Suc(2) x by simp
  show ?case
  proof (cases "c = - 1")
    case True
    then have e: "fl = []" "st2 = st1" using pe p unfolding putc_ok_def by auto
    have z: "room st1 to = 0" by (rule putc_fails_room [OF r [unfolded e(1)] p [unfolded True]])
    have "n = length (q_chars st2 from')" "cl_ok st2" using n g(2,3) e(2) by (simp_all add: cl_step_def)
    from Suc.hyps(1) [OF this] obtain st' zs where s: "catq_loop from' to st2 = Some st'" "cl_ok st'" "q_chars st' from' = []"
      "\<forall>r. r \<noteq> from' \<longrightarrow> r \<noteq> to \<longrightarrow> q_chars st' r = q_chars st2 r" "gains (q_chars st2 to) zs (q_chars st' to)" "subseq zs (q_chars st2 from')" by blast
    show ?thesis using loop s e(2) t1 o1 x g(3) z rm by (intro exI [of _ st'] exI [of _ zs]) auto
  next
    case False
    then obtain fl' bs' where e: "c = 0" "cl_rep st2 fl' (B(to := bs'))" "others_same to st1 st2"
      "q_chars st2 to = q_chars st1 to @ [(fst x, snd x \<or> stale st1 to)]" using pe p cx(2,3) unfolding putc_ok_def by auto
    have f2: "q_chars st2 from' = xs" using e(3) g(3) assms(2) by (auto simp: others_same_def)
    have z: "room st2 to = room st1 to - 1" using putc_room [OF r] p e(1) by simp
    have "n = length (q_chars st2 from')" "cl_ok st2" using n f2 e(2) by (auto simp: cl_ok_def)
    from Suc.hyps(1) [OF this] obtain st' zs where s: "catq_loop from' to st2 = Some st'" "cl_ok st'" "q_chars st' from' = []"
      "\<forall>r. r \<noteq> from' \<longrightarrow> r \<noteq> to \<longrightarrow> q_chars st' r = q_chars st2 r" "gains (q_chars st2 to) zs (q_chars st' to)" "subseq zs (q_chars st2 from')"
      "int (length (q_chars st2 from')) \<le> room st2 to \<longrightarrow> zs = q_chars st2 from'" by blast
    have "gains (q_chars st to) (x # zs) (q_chars st' to)" using s(5) e(4) t1 by (intro gains_Cons [of _ "(fst x, snd x \<or> stale st1 to)"]) simp_all
    then show ?thesis using loop s f2 t1 o1 x e(3) z rm
      by (intro exI [of _ st'] exI [of _ "x # zs"]) (auto simp: others_same_def)
  qed
qed

section \<open>The free list\<close>

lemma cinit_loop_eff:
  assumes "cl_rep st fl B" "0 < cp" "cp mod 64 = 0" "\<forall>b \<in> set fl. b < cbptr cp" "\<forall>p. B p = []"
  shows "\<exists>fl'. cl_rep (cinit_loop cp e st) fl' B \<and> length fl' = length fl + nat ((e - cp + 63) div 64)"
  using assms
proof (induction cp e st arbitrary: fl rule: cinit_loop.induct)
  case (1 cp e st)
  show ?case
  proof (cases "cp < e")
    case False
    then have "(e - cp + 63) div 64 \<le> 0" by simp
    then show ?thesis using 1(2) False by (subst cinit_loop.simps) auto
  next
    case True
    let ?b = "cbptr cp"
    have b: "0 < ?b" "cbptr (cp + CBLOCK) = ?b + 1" using 1(3,4) by (auto simp: cbptr_def CBLOCK_def)
    have r: "cl_rep (cb_free ?b st) (?b # fl) B"
    proof -
      have f: "bchain (cblocks st) (cfreelist st) fl" "?b \<notin> set fl" using 1(2,5) by (auto simp: cl_rep_def)
      have "bchain (cblocks (cb_free ?b st)) ?b (?b # fl)" by (rule bchain_free [OF f b(1)]) simp_all
      moreover have "q_rep M (clists st p) []" for M p using 1(2,6) by (auto simp: cl_rep_def q_rep_def q_pre_def)
      ultimately show ?thesis using 1(2,6) f(2) by (simp add: cl_rep_def)
    qed
    have "\<exists>fl'. cl_rep (cinit_loop (cp + CBLOCK) e (cb_free ?b st)) fl' B \<and> length fl' = length (?b # fl) + nat ((e - (cp + CBLOCK) + 63) div 64)"
      by (rule 1(1) [OF True r]) (use 1(3-6) b in \<open>auto simp: CBLOCK_def\<close>)
    moreover have "nat ((e - cp + 63) div 64) = Suc (nat ((e - (cp + CBLOCK) + 63) div 64))"
    proof -
      have "e - cp + 63 = (e - (cp + CBLOCK) + 63) + 64" by (simp add: CBLOCK_def)
      then have "(e - cp + 63) div 64 = (e - (cp + CBLOCK) + 63) div 64 + 1" by (simp only: div_add_self2)
      moreover have "0 \<le> (e - (cp + CBLOCK) + 63) div 64" using True by (simp add: CBLOCK_def)
      ultimately show ?thesis by simp
    qed
    ultimately show ?thesis using True by (subst cinit_loop.simps) simp
  qed
qed

section \<open>Walking a list\<close>

text \<open>Where the character number \<open>i\<close> of the list is.\<close>

definition cl_ptr :: "cbstate \<Rightarrow> nat \<Rightarrow> nat \<Rightarrow> int" where
  "cl_ptr st p i =
     (let n = nat (c_cf (clists st p) mod 64 - 12) + i
      in 64 * (((\<lambda>b. c_next (cblocks st b)) ^^ (n div 52)) (c_cf (clists st p) div 64)) + 12 + int (n mod 52))"

lemma bdata_nth: "n < 52 * length bs \<Longrightarrow> bdata M bs ! n = bchars M (bs ! (n div 52)) ! (n mod 52)"
proof (induction bs arbitrary: n)
  case (Cons b bs)
  show ?case
  proof (cases "n < 52")
    case False
    then have "n = (n - 52) + 52" by simp
    then have "n div 52 = Suc ((n - 52) div 52)" "n mod 52 = (n - 52) mod 52" by (metis div_add_self2 Suc_eq_plus1 zero_neq_numeral, metis mod_add_self2)
    then show ?thesis using Cons False by (simp add: nth_append)
  qed (simp add: nth_append)
qed simp

lemma bchain_nth: "bchain M b bs \<Longrightarrow> j < length bs \<Longrightarrow> ((\<lambda>b. c_next (M b)) ^^ j) b = bs ! j"
proof (induction bs arbitrary: b j)
  case (Cons x xs)
  then show ?case by (cases j) (auto simp: funpow_Suc_right simp del: funpow.simps)
qed simp

lemma bchain_next: "bchain M b bs \<Longrightarrow> Suc j < length bs \<Longrightarrow> c_next (M (bs ! j)) = bs ! Suc j"
  using bchain_nth [of M b bs j] bchain_nth [of M b bs "Suc j"] by simp

lemma nextc_eff:
  assumes ok: "cl_ok st" and i: "i < length (q_chars st p)"
  shows "cl_ptr st p 0 = c_cf (clists st p) \<and> nextc p (cl_ptr st p i) st
    = (if i + 1 < length (q_chars st p) then Some (cl_ptr st p (i + 1), sval (q_chars st p ! (i + 1))) else None)"
proof -
  obtain fl B where r: "cl_rep st fl B" using ok by (auto simp: cl_ok_def)
  define cc where "cc = nat (c_cc (clists st p))"
  have len: "int (length (q_chars st p)) = c_cc (clists st p)" "length (q_chars st p) = cc" using q_chars_len [OF ok, of p] by (simp_all add: cc_def)
  have pos: "0 < c_cc (clists st p)" using len(1) i by linarith
  obtain b bs' k e where q: "B p = b # bs'" "q_pre (cblocks st) (b # bs') k (c_cc (clists st p)) e" "1 \<le> e" "c_cf (clists st p) = 64 * b + 12 + k"
    "c_cl (clists st p) = 64 * last (b # bs') + 12 + e" "q_chars st p = content (cblocks st) (b # bs') k (c_cc (clists st p))"
    using cl_rep_q [OF r pos] by metis
  define bs where "bs = b # bs'"
  have bs: "bs \<noteq> []" "bchain (cblocks st) b bs" "distinct bs" "e \<le> 52" "0 \<le> k" "k < 52" "k + c_cc (clists st p) = 52 * (int (length bs) - 1) + e"
    using q(2) by (simp_all add: q_pre_def bs_def)
  define kn en where "kn = nat k" and "en = nat e"
  have n: "kn < 52" "1 \<le> en" "en \<le> 52" "kn + cc = 52 * (length bs - 1) + en" "k = int kn" "e = int en"
    using bs q(3) pos by (auto simp: kn_def en_def cc_def bs_def)
  have parts: "c_cf (clists st p) div 64 = b" "nat (c_cf (clists st p) mod 64 - 12) = kn" using pos_parts [OF bs(5,6), of b] by (simp_all add: q(4) kn_def)
  have ptr: "cl_ptr st p j = 64 * bs ! ((kn + j) div 52) + 12 + int ((kn + j) mod 52)" "(kn + j) div 52 < length bs" if "j < cc" for j
  proof -
    have "kn + j < 52 * length bs" using that n(3,4) bs(1) by (cases bs) simp_all
    then show l: "(kn + j) div 52 < length bs" by (simp add: div_less_iff_less_mult mult.commute)
    show "cl_ptr st p j = 64 * bs ! ((kn + j) div 52) + 12 + int ((kn + j) mod 52)"
      using bchain_nth [OF bs(2) l] by (simp add: cl_ptr_def parts Let_def)
  qed
  have chr: "q_chars st p ! j = (uchar st (cl_ptr st p j), isquote st (cl_ptr st p j))" if j: "j < cc" for j
  proof -
    let ?b = "bs ! ((kn + j) div 52)" and ?o = "int ((kn + j) mod 52)"
    have "q_chars st p = take cc (drop kn (bdata (cblocks st) bs))" by (simp add: q(6) content_def bs_def cc_def kn_def del: bdata_simps)
    moreover have "kn \<le> 52 * length bs" using n(1) bs(1) by (cases bs) simp_all
    ultimately have "q_chars st p ! j = bdata (cblocks st) bs ! (kn + j)" using j by simp
    also have "\<dots> = bchars (cblocks st) ?b ! nat ?o" using ptr(2) [OF j] bdata_nth [of "kn + j" bs] by (simp add: div_less_iff_less_mult mult.commute)
    also have "\<dots> = (c_info (cblocks st ?b) (12 + ?o) mod 256, c_quote (cblocks st ?b) (12 + ?o))" by (rule bchars_nth) simp_all
    also have "\<dots> = (uchar st (cl_ptr st p j), isquote st (cl_ptr st p j))"
      using ptr_parts(1) [of ?o ?b] by (simp add: ptr(1) [OF j] uchar_def isquote_def)
    finally show ?thesis .
  qed
  have ic: "i < cc" using i len by simp
  define j o' where "j = (kn + i) div 52" and "o' = (kn + i) mod 52"
  have jo: "kn + i = 52 * j + o'" "o' < 52" "j < length bs" using ptr(2) [OF ic] by (simp_all add: j_def o'_def)
  have pi: "cl_ptr st p i = 64 * bs ! j + 12 + int o'" using ptr(1) [OF ic] by (simp add: j_def o'_def)
  have jl: "Suc j = length bs" if "bs ! j = last bs"
    using that jo(3) bs(1,3) nth_eq_iff_index_eq [OF bs(3), of j "length bs - 1"] by (simp add: last_conv_nth)
  have end': "cl_ptr st p i + 1 = c_cl (clists st p) \<longleftrightarrow> i + 1 = cc"
  proof
    assume "cl_ptr st p i + 1 = c_cl (clists st p)"
    then have "64 * bs ! j + int o' + 1 = 64 * last bs + int en" using pi q(5) n(6) by (simp add: bs_def del: last.simps)
    moreover from this have "bs ! j = last bs" using jo(2) n(2,3) by linarith
    ultimately have "bs ! j = last bs" "o' + 1 = en" by simp_all
    then show "i + 1 = cc" using jl jo(1) n(4) by simp
  next
    assume i1: "i + 1 = cc"
    then have e1: "52 * j + o' + 1 = 52 * (length bs - 1) + en" using jo(1) n(4) by simp
    then have "j = length bs - 1" using jo(2,3) n(2,3) by linarith
    then show "cl_ptr st p i + 1 = c_cl (clists st p)" using e1 pi q(5) n(6) bs(1) by (simp add: bs_def [symmetric] last_conv_nth)
  qed
  have p0: "cl_ptr st p 0 = c_cf (clists st p)" using ptr(1) [of 0] ic n(1,5) by (simp add: q(4) bs_def)
  show ?thesis
  proof (cases "i + 1 < cc")
    case False
    then show ?thesis using ic end' p0 len by (simp add: nextc_def)
  next
    case True
    note p1 = ptr [OF True] and c1 = chr [OF True]
    have nx: "(if aligned (cl_ptr st p i + 1) then info_of (c_next (cblocks st (cbptr (cl_ptr st p i + 1) - 1))) else cl_ptr st p i + 1) = cl_ptr st p (i + 1)"
    proof (cases "o' = 51")
      case o: True
      then have "kn + (i + 1) = 52 * Suc j" using jo(1) by simp
      then have d: "(kn + (i + 1)) div 52 = Suc j" "(kn + (i + 1)) mod 52 = 0" by simp_all
      then have "Suc j < length bs" using p1(2) by simp
      moreover have "cl_ptr st p i + 1 = 64 * bs ! j + 12 + 52" using pi o by simp
      ultimately show ?thesis using bchain_next [OF bs(2), of j] ptr_parts(2,3) [of "bs ! j"] p1(1) d by (simp add: ptr_parts(4))
    next
      case o: False
      then have "kn + (i + 1) = 52 * j + (o' + 1)" "o' + 1 < 52" using jo(1,2) by simp_all
      then have d: "(kn + (i + 1)) div 52 = j" "(kn + (i + 1)) mod 52 = o' + 1" by simp_all
      then show ?thesis using pi p1(1) ptr_parts(1) [of "int o' + 1" "bs ! j"] o jo(2) by (simp add: add.assoc)
    qed
    have "nextc p (cl_ptr st p i) st = Some (cl_ptr st p (i + 1), if isquote st (cl_ptr st p (i + 1)) then schar st (cl_ptr st p (i + 1)) OR TTY_QUOTE else schar st (cl_ptr st p (i + 1)))"
      using True end' pos unfolding nextc_def Let_def nx by simp
    then show ?thesis using True p0 c1 len by (simp add: sval_def schar_def)
  qed
qed

end
