(* ===== verification/Clist_Props.thy ===== *)
theory Clist_Props
  imports Clist_Unput
begin

text \<open>
  Character lists are queues of bytes with marks: \<open>q_chars\<close> is the queue of a list, \<open>cl_ok\<close> says that the lists and
  the free list share no block. Every operation keeps \<open>cl_ok\<close> and the characters of the other lists.
\<close>

section \<open>The initial state\<close>

text \<open>Before \<open>cinit\<close>, all storage is zero.\<close>

definition cb_none :: cbstate where
  "cb_none = \<lparr>cblocks = \<lambda>_. \<lparr>c_next = 0, c_quote = \<lambda>_. False, c_info = \<lambda>_. 0\<rparr>, cfreelist = 0, cfreecount = 0, cwaiting = False,
     wakeups = 0, clists = \<lambda>_. \<lparr>c_cc = 0, c_cf = 0, c_cl = 0\<rparr>\<rparr>"

lemma round_up: "(x + 63) div 64 * 64 - x = (- x) mod 64" for x :: int
proof -
  have "x = 64 * (x div 64) + x mod 64" "0 \<le> x mod 64" "x mod 64 < 64" by simp_all
  then obtain q r where x: "x = 64 * q + r" "0 \<le> r" "r < 64" by blast
  have "x + 63 = (r + 63) + q * 64" using x by simp
  then have "(x + 63) div 64 = q + (r + 63) div 64" by simp
  moreover have "(r + 63) div 64 = (if r = 0 then 0 else 1)"
  proof (cases "r = 0")
    case False
    then have "r + 63 = (r - 1) + 1 * 64" by simp
    then have "(r + 63) div 64 = 1 + (r - 1) div 64" by (metis div_mult_self1 zero_neq_numeral add.commute)
    then show ?thesis using x False by simp
  qed simp
  ultimately show ?thesis using room_mod(2) [OF x] x(1) by simp
qed

lemma cinit_eff:
  assumes c: "0 < cfree" "1 \<le> n" and z: "cfreelist st = 0" "cfreecount st = 0" "\<forall>p. clists st p = \<lparr>c_cc = 0, c_cf = 0, c_cl = 0\<rparr>"
  shows "\<exists>fl. cl_rep (cinit cfree n st) fl (\<lambda>_. []) \<and> int (length fl) = n - 1"
proof -
  define cp where "cp = (cfree + (CBLOCK - 1)) div CBLOCK * CBLOCK"
  have u: "cp - cfree = (- cfree) mod 64" using round_up [of cfree] by (simp add: cp_def CBLOCK_def)
  have "0 \<le> (- cfree) mod 64" "(- cfree) mod 64 < 64" by simp_all
  then have cp: "0 < cp" "cp mod 64 = 0" "cfree \<le> cp" "cp < cfree + 64" using c(1) u by (linarith | simp add: cp_def CBLOCK_def)+
  have "cl_rep st [] (\<lambda>_. [])" using z by (simp add: cl_rep_def q_rep_def)
  from cinit_loop_eff [OF this cp(1,2), of "cfree + CBLOCK * (n - 1)"] obtain fl where fl: "cl_rep (cinit cfree n st) fl (\<lambda>_. [])"
    "length fl = nat ((cfree + CBLOCK * (n - 1) - cp + 63) div 64)" by (auto simp: cinit_def cp_def)
  have "cfree + CBLOCK * (n - 1) - cp + 63 = (63 - (- cfree) mod 64) + (n - 1) * 64" using u by (simp add: CBLOCK_def)
  then have "(cfree + CBLOCK * (n - 1) - cp + 63) div 64 = n - 1 + (63 - (- cfree) mod 64) div 64" by (simp only: div_mult_self1)
  moreover have "(63 - (- cfree) mod 64) div 64 = 0" using \<open>0 \<le> (- cfree) mod 64\<close> \<open>(- cfree) mod 64 < 64\<close> by (intro div_pos_pos_trivial) linarith+
  ultimately have "int (length fl) = n - 1" using fl(2) c(2) by simp
  then show ?thesis using fl(1) by blast
qed

text \<open>Three blocks, and the bytes of \<open>hi\<close> in list 0.\<close>

definition cl_three :: cbstate where "cl_three = cinit 64 4 cb_none"

definition cl_hi :: cbstate where "cl_hi = snd (b_to_q [104, 105] 0 cl_three)"

lemma cl_three_ok: "cl_ok cl_three"
  using cinit_eff [of 64 4 cb_none] by (auto simp: cl_three_def cl_ok_def cb_none_def)

lemma cl_hi_ok: "cl_ok cl_hi"
proof -
  obtain fl B where "cl_rep cl_three fl B" using cl_three_ok by (auto simp: cl_ok_def)
  from b_to_q_eff [OF this, of "[104, 105]" 0] obtain n st' fl' B' where "b_to_q [104, 105] 0 cl_three = (n, st')" "cl_rep st' fl' B'" by blast
  then show ?thesis by (auto simp: cl_hi_def cl_ok_def)
qed

lemma cl_hi_chars: "q_chars cl_hi 0 = [(104, False), (105, False)]" "q_chars cl_hi (Suc 0) = []" "q_chars cl_three 0 = []" "cfreecount cl_three = 156"
  by code_simp+

definition cl_two :: cbstate where "cl_two = snd (putc 33 1 cl_hi)"

lemma cl_two_ok: "cl_ok cl_two"
proof -
  obtain fl B where r: "cl_rep cl_hi fl B" using cl_hi_ok by (auto simp: cl_ok_def)
  obtain d s fl' B' where "putc 33 1 cl_hi = (d, s)" "cl_rep s fl' B'" using putc_eff [OF r, of 33 1] r unfolding putc_ok_def by blast
  then show ?thesis by (auto simp: cl_two_def cl_ok_def)
qed

lemma cl_two_chars: "q_chars cl_two 0 = [(104, False), (105, False)]" "q_chars cl_two (Suc 0) = [(33, False)]" "room cl_two (Suc 0) = 103"
  by code_simp+

section \<open>Properties\<close>

text \<open>\<open>cinit\<close> makes all blocks of the array but one, wherever the array begins, into free blocks.\<close>

theorem cinit_correct:
  assumes "0 < cfree" "1 \<le> n" "cfreelist st = 0" "cfreecount st = 0" "\<forall>p. clists st p = \<lparr>c_cc = 0, c_cf = 0, c_cl = 0\<rparr>"
  shows "cl_ok (cinit cfree n st) \<and> cfreecount (cinit cfree n st) = CBSIZE * (n - 1) \<and> (\<forall>p. q_chars (cinit cfree n st) p = [])"
proof -
  obtain fl where fl: "cl_rep (cinit cfree n st) fl (\<lambda>_. [])" "int (length fl) = n - 1" using cinit_eff [OF assms] by blast
  then have "c_cc (clists (cinit cfree n st) p) = 0" for p by (auto simp: cl_rep_def q_rep_def q_pre_def)
  then have "q_chars (cinit cfree n st) p = []" for p by (simp add: q_chars_empty)
  moreover have "cfreecount (cinit cfree n st) = CBSIZE * (n - 1)" using fl by (simp add: cl_rep_def CBSIZE_def)
  ultimately show ?thesis using fl(1) unfolding cl_ok_def by blast
qed

theorem cinit_correct_witness: "cl_ok (cinit 100 4 cb_none) \<and> cfreecount (cinit 100 4 cb_none) = 156"
  using cinit_correct [of 100 4 cb_none] by (simp add: cb_none_def CBSIZE_def)

text \<open>C27. \<open>getc\<close> takes the first character of the list with its mark, and returns -1 and changes nothing when there is
  none. The block it was in is given back exactly when the list does not need it any more: the free count goes up by
  the size of the blocks that the list uses less, and the other lists keep theirs.\<close>

theorem getc_correct:
  assumes "cl_ok st"
  shows "case q_chars st p of
      [] \<Rightarrow> getc p st = (- 1, st)
    | (c, m) # cs \<Rightarrow> fst (getc p st) = (if m then c OR TTY_QUOTE else c) \<and> q_chars (snd (getc p st)) p = cs
        \<and> cl_ok (snd (getc p st)) \<and> (\<forall>r. r \<noteq> p \<longrightarrow> q_chars (snd (getc p st)) r = q_chars st r)
        \<and> cfreecount (snd (getc p st)) = cfreecount st + CBSIZE * (cl_used st p - cl_used (snd (getc p st)) p)
        \<and> (\<forall>r. r \<noteq> p \<longrightarrow> clists (snd (getc p st)) r = clists st r)"
  using getc_eff [OF assms, of p] by (auto simp: cval_def cl_step_def cl_even_def CBSIZE_def split: list.splits)

theorem getc_correct_witness: "fst (getc 0 cl_hi) = 104 \<and> q_chars (snd (getc 0 cl_hi)) 0 = [(105, False)]"
  using getc_correct [OF cl_hi_ok, of 0] by (simp add: cl_hi_chars)

text \<open>C26. \<open>putc\<close> fails and changes nothing exactly when there is no room, which is no free block and no place in the last block
  of the list. Otherwise it appends the low byte, marked when \<open>TTY_QUOTE\<close> is set - or when a mark was
  left in its place.\<close>

theorem putc_correct:
  assumes ok: "cl_ok st"
  shows "if room st p = 0 then putc c p st = (- 1, st)
    else fst (putc c p st) = 0 \<and> q_chars (snd (putc c p st)) p = q_chars st p @ [(c mod 256, c AND TTY_QUOTE \<noteq> 0 \<or> stale st p)]
      \<and> room (snd (putc c p st)) p = room st p - 1
      \<and> cl_ok (snd (putc c p st)) \<and> (\<forall>r. r \<noteq> p \<longrightarrow> q_chars (snd (putc c p st)) r = q_chars st r)"
proof -
  obtain fl B where r: "cl_rep st fl B" using ok by (auto simp: cl_ok_def)
  obtain d st' where d: "putc c p st = (d, st')" by fastforce
  show ?thesis
  proof (cases "d = - 1")
    case True
    then have "fl = []" "st' = st" using putc_eff [OF r, of c p] d by (auto simp: putc_ok_def)
    then show ?thesis using putc_fails_room [of st B c p st'] r d True by simp
  next
    case False
    then obtain fl' bs' where e: "d = 0" "cl_rep st' fl' (B(p := bs'))" "others_same p st st'"
      "q_chars st' p = q_chars st p @ [(c mod 256, c AND TTY_QUOTE \<noteq> 0 \<or> stale st p)]" using putc_eff [OF r, of c p] d by (auto simp: putc_ok_def)
    have z: "room st' p = room st p - 1" using putc_room [OF r] d e(1) by simp
    have "0 \<le> room st' p" using e(2) by (simp add: room_def cl_rep_def)
    then show ?thesis using d e z by (auto simp: cl_ok_def others_same_def)
  qed
qed

theorem putc_correct_witness: "q_chars (snd (putc (33 + 256) 0 cl_hi)) 0 = [(104, False), (105, False), (33, True)]"
proof -
  have "room cl_hi 0 \<noteq> 0" by code_simp
  then show ?thesis using putc_correct [OF cl_hi_ok, of 0 "33 + 256"] by (simp add: cl_hi_chars TTY_QUOTE_def)
qed

text \<open>C23. \<open>b_to_q\<close> appends the first bytes of the buffer, all when there is room and else as many as there is room for, and returns
  how many are left; \<open>q_to_b\<close> always ends and takes the first characters, so that it gives back what was put into
  an empty list.\<close>

theorem b_to_q_q_to_b:
  fixes cs :: "int list" and p :: nat and m :: int
  assumes ok: "cl_ok st"
  defines "n \<equiv> min (length cs) (nat (room st p))" and "st' \<equiv> snd (b_to_q cs p st)"
  shows "fst (b_to_q cs p st) = int (length cs) - int n \<and> cl_ok st' \<and> (\<forall>r. r \<noteq> p \<longrightarrow> q_chars st' r = q_chars st r)
    \<and> map fst (q_chars st' p) = map fst (q_chars st p) @ map (\<lambda>c. c mod 256) (take n cs)
    \<and> (\<exists>st''. q_to_b p m st' = Some (take (nat m) (map fst (q_chars st p) @ map (\<lambda>c. c mod 256) (take n cs)), st'')
         \<and> q_chars st'' p = drop (nat m) (q_chars st' p) \<and> cl_ok st'')"
proof -
  obtain fl B where r: "cl_rep st fl B" using ok by (auto simp: cl_ok_def)
  obtain k s fl' bs' ms where e: "b_to_q cs p st = (int (length cs) - int k, s)" "k \<le> length cs" "cl_rep s fl' (B(p := bs'))" "others_same p st s"
    "room s p = room st p - int k" "length ms = k" "q_chars s p = q_chars st p @ zip (map (\<lambda>c. c mod 256) (take k cs)) ms"
    "k = length cs \<or> fl' = [] \<and> (q_chars s p = [] \<or> aligned (c_cl (clists s p)))" using b_to_q_eff [OF r, of cs p] by blast
  have s: "st' = s" "cl_ok s" using e(1,3) by (auto simp: st'_def cl_ok_def)
  have "0 \<le> room s p" using e(3) by (simp add: room_def cl_rep_def)
  moreover have "room s p = 0" if "fl' = [] \<and> (q_chars s p = [] \<or> aligned (c_cl (clists s p)))"
  proof -
    have "q_chars s p = [] \<Longrightarrow> c_cl (clists s p) = 0" using q_chars_len [OF s(2), of p] cl_ok_zero [OF s(2), of p] by simp
    then have "c_cl (clists s p) mod 64 = 0" using that by (auto simp: aligned_def CBLOCK_def)
    then have "(- c_cl (clists s p)) mod 64 = 0" by (simp add: zmod_zminus1_eq_if)
    then show ?thesis using that e(3) by (simp add: room_def cl_rep_def)
  qed
  ultimately have n: "n = k" using e(2,5,8) unfolding n_def by linarith
  have m: "map fst (q_chars s p) = map fst (q_chars st p) @ map (\<lambda>c. c mod 256) (take n cs)" using e(2,6,7) n by (simp add: min_def)
  show ?thesis
    using q_to_b_eff [OF s(2), of p m] e(1,4) n s m by (auto simp: cl_step_def others_same_def take_map [symmetric])
qed

theorem b_to_q_q_to_b_witness: "\<exists>st. q_to_b 0 5 (snd (b_to_q [7, 300] 0 cl_three)) = Some ([7, 44], st) \<and> q_chars st 0 = []"
proof -
  have "room cl_three 0 = 156" by code_simp
  then show ?thesis using b_to_q_q_to_b [OF cl_three_ok, of "[7, 300]" 0 5] by (auto simp: cl_hi_chars dest: arg_cong [where f = length])
qed

text \<open>\<open>ndflush\<close> always ends and drops the first \<open>n\<close> characters.\<close>

theorem ndflush_correct:
  assumes "cl_ok st"
  shows "\<exists>st'. ndflush p n st = Some st' \<and> q_chars st' p = drop (nat n) (q_chars st p) \<and> cl_ok st'
    \<and> (\<forall>r. r \<noteq> p \<longrightarrow> q_chars st' r = q_chars st r)"
  using ndflush_eff [OF assms, of p n] by (auto simp: cl_step_def)

theorem ndflush_correct_witness: "\<exists>st. ndflush 0 1 cl_hi = Some st \<and> q_chars st 0 = [(105, False)]"
  using ndflush_correct [OF cl_hi_ok, of 0 1] by (auto simp: cl_hi_chars)

text \<open>C30. \<open>unputc\<close> always ends and takes back the last character; a byte from 128 on is returned as a negative number.\<close>

theorem unputc_correct:
  assumes ok: "cl_ok st"
  shows "if q_chars st p = [] then unputc p st = Some (- 1, st)
    else \<exists>st'. unputc p st = Some (sval (last (q_chars st p)), st') \<and> q_chars st' p = butlast (q_chars st p) \<and> cl_ok st'
      \<and> (\<forall>r. r \<noteq> p \<longrightarrow> q_chars st' r = q_chars st r)"
proof (cases "q_chars st p = []")
  case True
  then have "c_cc (clists st p) = 0" using q_chars_len [OF ok, of p] by simp
  then show ?thesis using True by (simp add: unputc_def)
next
  case False
  obtain fl B where "cl_rep st fl B" using ok by (auto simp: cl_ok_def)
  from unputc_eff [OF this False] show ?thesis using False by (auto simp: cl_ok_def)
qed

theorem unputc_correct_witness: "\<exists>st. unputc 0 cl_hi = Some (105, st) \<and> q_chars st 0 = [(104, False)]"
  using unputc_correct [OF cl_hi_ok, of 0] by (auto simp: cl_hi_chars sval_def)

text \<open>C34. \<open>nextc\<close> leads from each character of the list to the next, over the ends of blocks, and stops at the last.\<close>

theorem nextc_correct:
  assumes ok: "cl_ok st" and i: "i < length (q_chars st p)"
  shows "cl_ptr st p 0 = c_cf (clists st p) \<and> nextc p (cl_ptr st p i) st
    = (if i + 1 < length (q_chars st p) then Some (cl_ptr st p (i + 1), sval (q_chars st p ! (i + 1))) else None)"
  using nextc_eff [OF ok i] .

theorem nextc_correct_witness: "nextc 0 (c_cf (clists cl_hi 0)) cl_hi = Some (cl_ptr cl_hi 0 1, 105)"
  using nextc_correct [OF cl_hi_ok, of 0 0] by (auto simp: cl_hi_chars sval_def)

text \<open>C15. \<open>catq\<close> always ends. An empty list becomes the other. A list that is not empty gains the characters of the other in their order with
  their marks, all when there is room; else it loses some, not always the last.\<close>

theorem catq_correct:
  assumes ok: "cl_ok st" and ne: "from' \<noteq> to"
  shows "\<exists>st' zs. catq from' to st = Some st' \<and> cl_ok st' \<and> q_chars st' from' = []
    \<and> gains (q_chars st to) zs (q_chars st' to) \<and> subseq zs (q_chars st from')
    \<and> (q_chars st to = [] \<or> int (length (q_chars st from')) \<le> room st to \<longrightarrow> zs = q_chars st from')
    \<and> (\<forall>r. r \<noteq> from' \<longrightarrow> r \<noteq> to \<longrightarrow> q_chars st' r = q_chars st r)"
proof (cases "c_cc (clists st to) = 0")
  case False
  then have "q_chars st to \<noteq> []" using q_chars_len [OF ok, of to] by auto
  then show ?thesis using catq_loop_eff [OF ok ne] False by (fastforce simp: catq_def)
next
  case True
  obtain fl B where r: "cl_rep st fl B" using ok by (auto simp: cl_ok_def)
  define st' where "st' = upd_list from' (\<lambda>_. \<lparr>c_cc = 0, c_cf = 0, c_cl = 0\<rparr>) (upd_list to (\<lambda>_. clists st from') st)"
  have c: "catq from' to st = Some st'" using True by (simp add: catq_def st'_def)
  have sel: "cblocks st' = cblocks st" "cfreelist st' = cfreelist st" "cfreecount st' = cfreecount st"
    "clists st' q = (if q = from' then \<lparr>c_cc = 0, c_cf = 0, c_cl = 0\<rparr> else if q = to then clists st from' else clists st q)" for q
    using ne by (simp_all add: st'_def)
  have bt: "B to = []" using r True by (auto simp: cl_rep_def q_rep_def)
  have "cl_rep st' fl (B(from' := [], to := B from'))" using r ne unfolding cl_rep_def by (auto simp: sel q_rep_def)
  moreover have "q_chars st to = []" using True by (simp add: q_chars_empty)
  moreover have "q_chars st' q = (if q = from' then [] else if q = to then q_chars st from' else q_chars st q)" for q
    by (simp add: q_chars_def Let_def sel)
  moreover have "gains [] xs xs" for xs by (auto simp: gains_def list_all2_refl)
  ultimately show ?thesis using c ne by (intro exI [of _ st'] exI [of _ "q_chars st from'"]) (auto simp: cl_ok_def)
qed

theorem catq_correct_witness: "\<exists>st. catq 0 1 cl_two = Some st \<and> q_chars st 0 = [] \<and> map fst (q_chars st 1) = [33, 104, 105]"
  using catq_correct [OF cl_two_ok, of 0 1] by (auto simp: cl_two_chars gains_def list_all2_Cons1)

end
