(* ===== verification/Spec2Isabelle.thy ===== *)
theory Spec2Isabelle
  imports Rmap Cksum Quad_Div Sockq Bpf_Laws Filedesc_Props Namecache_Props Proc_Props Clock_Props Clist_Props
begin

text \<open>
  A verification library for the kernel of 4.4BSD-Alpha (\<open>src/sys\<close>). It models the parts of the
  machine-independent kernel that hold its own data structures and algorithms, each in the order of
  the code, and proves what makes them correct. Constants, record fields and constructors have the names of the
  source where Isabelle allows it.

  \<^bold>\<open>The program.\<close> The kernel gives out resources by maps of free segments. The network moves data
  in chains of mbufs; sockets queue them in their buffers and keep queues of connections; the Internet
  protocols sum chains up, and the packet filter runs programs over them. A process names files by descriptors, which refer
  to open files; closing them releases the advisory locks of the file system, and path lookup goes through
  the cache of names. Processes form a family tree and belong to groups, groups to sessions; a process shares its
  credentials with others until it changes them. The clock calls functions after a number of ticks and runs the
  timers of processes. Terminals queue their characters in lists of small blocks. The compiler calls routines of the kernel's own library for
  arithmetic on 64 bits.

  \<^bold>\<open>Theories and sources.\<close>

  \<^item> \<open>Prelude\<close>: results of routines that may stop (\<open>Panic\<close>, an access outside an object,
    a sleep, an endless loop), error numbers, \<open>bcopy\<close>, conversions to \<open>int\<close> and \<open>u_int\<close>, and the
    locale \<open>chain_view\<close>: chains of buffers that have as many bytes as their length fields say. \<open>Mbuf\<close>
    interprets it on mbufs, and checksum, socket buffers and packet filter use its facts.

  \<^item> \<open>Rmap\<close>: resource maps, \<open>kern/subr_rmap.c\<close> with \<open>sys/map.h\<close>. A map is the array of its segments with
    the delimiter; \<open>rmalloc\<close> and \<open>rmfree\<close> are the code's loops over it, with the rule for swap devices and the
    piece lost on overflow. Freeing adds exactly the interval, panics exactly on an overlap; allocation takes
    from the first segment that fits and removes exactly what it returns; one undoes the other.

  \<^item> \<open>Mbuf\<close>, \<open>Mbuf_Laws\<close>: mbufs, \<open>kern/uipc_mbuf.c\<close> with \<open>sys/mbuf.h\<close>. A chain is the list of its mbufs; the state has
    the free mbufs and the clusters with their reference counts. The operations return exactly the bytes they promise
    and lose neither mbufs nor references.

  \<^item> \<open>Cksum\<close>: \<open>in_cksum\<close> of \<open>netinet/in_cksum.c\<close>, with the alignment and byte order of the machine as
    arguments, equals the complement of the one's complement sum of the packet.

  \<^item> \<open>Sockbuf\<close>, \<open>Sockbuf_Laws\<close>, \<open>Sockq\<close>: socket buffers, socket states and connection queues, \<open>kern/uipc_socket2.c\<close>
    with \<open>sys/socketvar.h\<close>. A buffer is the list of its records. Appending and dropping keep the stream of bytes and
    the counters right; flushing ends; connections move between the queues of a listening socket as the protocol
    reports.

  \<^item> \<open>Bpf\<close>, \<open>Bpf_Laws\<close>: the filter machine and its verifier, \<open>net/bpf_filter.c\<close> with \<open>net/bpf.h\<close>. An accepted program without
    backward jumps ends, with a value or at a bad access, and at a bad access exactly when it comes to one of those the verifier does
    not check (\<open>bpf_escapes\<close>); the verifier also lets a loop pass.

  \<^item> \<open>Lockf\<close>, \<open>Lockf_Laws\<close>, \<open>Lockf_Set\<close>, \<open>Lockf_Sys\<close>: advisory locks on byte ranges, \<open>ufs/ufs/ufs_lockf.c\<close> with
    \<open>ufs_advlock\<close>. Setting and clearing change exactly the range asked for; over all reachable states no
    two owners hold conflicting locks and no waiter is forgotten.

  \<^item> \<open>Filedesc\<close>, \<open>Filedesc_Laws\<close>, \<open>Filedesc_Props\<close>: descriptors and open files, \<open>kern/kern_descrip.c\<close> with \<open>sys/filedesc.h\<close>,
    \<open>sys/file.h\<close> and \<open>sys/fcntl.h\<close>. What files do is a record of parameters; the locale \<open>advlock\<close> states
    what closing relies on of \<open>VOP_ADVLOCK\<close>, and \<open>Filedesc_Props\<close> interprets it on the model of \<open>ufs_advlock\<close>.
    Allocation finds the lowest free descriptor; the calls keep table, high-water mark and reference counts right.

  \<^item> \<open>Namecache\<close>, \<open>Namecache_Laws\<close>, \<open>Namecache_Props\<close>: the cache of names, \<open>kern/vfs_cache.c\<close> with \<open>sys/namei.h\<close> and
    \<open>hashinit\<close> of \<open>kern/kern_subr.c\<close>. Chains stay consistent over all reachable states, what is entered is found,
    what is purged is not; until the counter wraps around no vnode number is given twice.

  \<^item> \<open>Quad\<close>, \<open>Quad_Laws\<close>, \<open>Quad_Div\<close>: 64-bit arithmetic on halves, the routines of \<open>libkern\<close> with \<open>quad.h\<close>. A \<open>quad\<close> is a
    word of 64 bits, its halves are integers kept in 32 bits. Multiplication and division (Knuth's Algorithm D in
    \<open>qdivrem.c\<close>, digit arrays as lists) equal the operations of words for all arguments.

  \<^item> \<open>Proc\<close>, \<open>Cred\<close>, \<open>Proc_Sys\<close>: processes, groups, sessions, users and credentials. \<open>Proc\<close> has the structures of \<open>sys/proc.h\<close>
    and \<open>kern/kern_proc.c\<close>, \<open>Cred\<close> the calls of \<open>kern/kern_prot.c\<close> on identifiers, \<open>Proc_Sys\<close> \<open>fork\<close>, \<open>exit\<close>, \<open>wait\<close>, \<open>setsid\<close>,
    \<open>setpgid\<close> and the attaching of \<open>ptrace\<close>. The state \<open>pstate\<close> is the memory of every kind of structure with the lists and
    hash tables over it; signals and wakeups are recorded as events.

  \<^item> \<open>Proc_Inv\<close>, \<open>Proc_Fork\<close>, \<open>Proc_Group\<close>, \<open>Proc_Exit\<close>, \<open>Proc_Wait\<close>, \<open>Cred_Laws\<close>: the invariant \<open>proc_ok\<close> (family tree, lists,
    numbers, groups, sessions, job-control counts, user counts), that of the reference counts \<open>creds_ok\<close>, and for every call
    what it does and that it keeps them. \<open>Proc_Run\<close> starts from \<open>main\<close> of \<open>kern/init_main.c\<close> and runs the calls of any
    process between steps of the rest of the kernel (switches, stops, references taken and dropped, terminals);
    \<open>Proc_Trace\<close> has \<open>wait\<close> with traced processes and
    \<open>Proc_Props\<close> states the properties: the invariant holds in all reachable states, and no call panics but the exit
    of \<open>init\<close>.

  \<^item> \<open>Clock\<close>, \<open>Clock_Laws\<close>, \<open>Clock_Props\<close>: the callout queue of \<open>kern/kern_clock.c\<close> and the timers and the time of day of
    \<open>kern/kern_time.c\<close>. The queue of differences refines a list of calls with the ticks until each is due; the locale
    \<open>callout_funs\<close> states what \<open>softclock\<close> relies on of the functions it calls, and is interpreted on \<open>realitexpire\<close> and any
    functions that set and cancel timeouts (\<open>qops\<close>), with the timers in the form that \<open>itimerfix\<close> passes.

  \<^item> \<open>Clist\<close>, \<open>Clist_Laws\<close>, \<open>Clist_Get\<close>, \<open>Clist_Put\<close>, \<open>Clist_Btoq\<close>, \<open>Clist_Unput\<close>, \<open>Clist_Props\<close>: character lists,
    \<open>kern/tty_subr.c\<close> with \<open>sys/clist.h\<close>. A pointer is an address, whose quotient by 64 is its block; the invariant \<open>cl_ok\<close> says
    that the chains of the lists and of the free blocks are apart, and \<open>q_chars\<close> reads a list as a queue of bytes with quote
    marks. Every operation is shown to end, to do to the queue what it promises and to leave the other lists alone; taking
    characters frees exactly the blocks no longer used.

  \<^bold>\<open>Reading the properties.\<close> A routine that may not return has a result \<open>Inl fault\<close> or \<open>Inr result\<close>. A
  theorem that a routine returns states the \<open>Inr\<close>; a property that mentions a fault states when exactly it
  happens (for \<open>softclock\<close>, what it takes to happen). Each property is preceded by a text with its number; its witness applies it to concrete values.

  \<^bold>\<open>Bounds, widths and fuel.\<close> \<open>int\<close>, \<open>long\<close> and pointers are 32 bits wide, as on the machines of this release, mbufs
  have 128 bytes and clusters 1024. Sums of the checksum, filter registers, lock offsets, descriptors and vnode
  numbers are kept at their width, by words or by an explicit conversion; other counters are integers, and
  the theorems bound them where the code relies on it (descriptor tables have at most 131072 entries, twice the
  16 bits of the high-water mark).
  References to credentials are counted in 16 bits, and reachable states are those in which no reference is taken from a count of 65535.
  The search for a process number ends when the processes allowed leave a number free
  (\<open>2 * maxproc \<le> PID_MAX - 100\<close>, as a process holds its own number and that of its group).
  Loops are recursive functions with a measure, or partial functions to \<open>option\<close> where they may not end (\<open>inferior\<close>, \<open>pid_search\<close>,
  the loops over character lists; their end is then proved). The exceptions are the filter machine, which has a number of steps as
  an argument (as many as the program has instructions are enough for accepted forward programs), and the search for deadlock of \<open>lf_setlock\<close>,
  which the code itself bounds by \<open>MAXDEPTH\<close>.

  \<^bold>\<open>What the modelling showed.\<close> \<open>m_adj\<close> leaves the length of a packet stale, \<open>m_split\<close> returns a length that was
  never set; the macro \<open>sblock\<close> never reports a failure; the filter verifier accepts loops and accesses outside
  the scratch memory, and \<open>m_xword\<close> reads a word that straddles two mbufs from the wrong place; an interrupted
  lock request that has been woken up panics, one whose blocker was swallowed follows a freed lock; \<open>fdcopy\<close> may shrink the table by
  one entry too many, \<open>F_DUPFD\<close> reads freed memory; dropping the only name of the cache writes through a null
  pointer, and vnode numbers that wrap around revive purged names; the remainder of 64-bit division has the wrong sign for
  negative divisors; \<open>ptrace\<close> asks for the privilege of the wrong process, and attaching to a parent makes a cycle
  on which \<open>setpgid\<close> loops; \<open>hzto\<close> rounds down, so that real timers expire early, and \<open>adjtime\<close> takes large
  corrections backwards for small ones; blocks of characters keep old quote marks, \<open>unputc\<close> returns 0377 as if the list
  were empty, and \<open>catq\<close> loses characters when there are no blocks.

  \<^bold>\<open>Not modelled.\<close> Interrupt masking, statistics, printing and debugging code of the modelled files; sleeping
  itself (a routine up to its sleep is one step, what follows another, or the outcome of the sleep is an
  argument); \<open>m_clalloc\<close> and \<open>m_devget\<close>, \<open>sbwait\<close> and \<open>sbcheck\<close>, \<open>ofstat\<close>. Of processes: their memory, limits,
  accounting and profiling, the delivery of signals, the scheduler, \<open>exec\<close>, and the exchange of \<open>ptrace\<close> with a stopped
  process; attaching is not among the calls of the reachable states, as it breaks the family tree (what \<open>wait\<close> does with a zombie that was
  attached is shown in \<open>Proc_Trace\<close> for states in which the rest of the invariant holds). Of terminals: line disciplines, and
  \<open>getw\<close> and \<open>putw\<close> of \<open>tty_subr.c\<close>, which are not compiled; of \<open>ndqb\<close> there is the definition and no theorem. File systems, buffers, virtual memory
  and the protocols rest on disks, page tables and timers of the machine-dependent kernel and are left out, as are
  drivers, user programs, and the vendored compilers and tools.
\<close>

end
